(* ===== verification/Prelude.thy ===== *)
theory Prelude
  imports Main "HOL-Library.Word"
begin

unbundle bit_operations_syntax

text \<open>
  What the components share: names for the machine integers of an LP64 little-endian target,
  the short-circuit sequencing of C's \<open>if (!f(...)) return false;\<close>, little-endian byte
  lists, and lemmas about them.
\<close>

type_synonym u8 = "8 word"
type_synonym u16 = "16 word"
type_synonym u32 = "32 word"
type_synonym u64 = "64 word"

named_theorems word_conv \<open>moving between machine words and natural numbers\<close>

section \<open>Sequencing\<close>

text \<open>
  A C function that returns \<open>bool\<close> and works on a state is \<open>'s \<Rightarrow> bool \<times> 's\<close>;
  \<open>andthen f g\<close> is \<open>if (!f(...)) return false; return g(...);\<close>. A function with a result
  written through an out-parameter on success only returns it as an option, and
  \<open>bindo f k\<close> is \<open>if (!f(..., &v)) return false; return k(v, ...);\<close>.
\<close>

definition andthen :: "('s \<Rightarrow> bool \<times> 's) \<Rightarrow> ('s \<Rightarrow> bool \<times> 's) \<Rightarrow> 's \<Rightarrow> bool \<times> 's" where
  "andthen f g s = (case f s of (ok, s') \<Rightarrow> if ok then g s' else (False, s'))"

definition bindo :: "('s \<Rightarrow> 'a option \<times> 's) \<Rightarrow> ('a \<Rightarrow> 's \<Rightarrow> 'b option \<times> 's) \<Rightarrow> 's \<Rightarrow> 'b option \<times> 's" where
  "bindo f k s = (case f s of (r, s') \<Rightarrow> (case r of None \<Rightarrow> (None, s') | Some v \<Rightarrow> k v s'))"

definition bindb :: "('s \<Rightarrow> 'a option \<times> 's) \<Rightarrow> ('a \<Rightarrow> 's \<Rightarrow> bool \<times> 's) \<Rightarrow> 's \<Rightarrow> bool \<times> 's" where
  "bindb f k s = (case f s of (r, s') \<Rightarrow> (case r of None \<Rightarrow> (False, s') | Some v \<Rightarrow> k v s'))"

definition ret :: "'s \<Rightarrow> bool \<times> 's" where
  "ret s = (True, s)"

lemma andthen_True: "f s = (True, s') \<Longrightarrow> andthen f g s = g s'"
  by (simp add: andthen_def)

lemma andthen_False: "f s = (False, s') \<Longrightarrow> andthen f g s = (False, s')"
  by (simp add: andthen_def)

lemma andthen_assoc: "andthen (andthen f g) h = andthen f (andthen g h)"
  by (rule ext) (simp add: andthen_def split: prod.splits)

lemma andthen_ret [simp]: "andthen ret f = f" "andthen f ret = f"
  by (rule ext, simp add: andthen_def ret_def split: prod.splits)+

section \<open>Words\<close>

lemma unat_add_of_nat:
  fixes a :: "'a::len word"
  assumes "unat a + n < 2 ^ LENGTH('a)"
  shows "unat (a + of_nat n) = unat a + n"
  using assms by (simp add: unat_word_ariths unsigned_of_nat take_bit_nat_eq_self)

lemma unat_bound: "unat (w :: 'a::len word) < 2 ^ LENGTH('a)"
  by simp

lemma unat_ucast_up_simp:
  fixes w :: "'a::len word"
  assumes "LENGTH('a) \<le> LENGTH('b::len)"
  shows "unat (ucast w :: 'b word) = unat w"
proof -
  have "unat w < 2 ^ LENGTH('b)"
    using unat_bound [of w] assms by (meson less_le_trans one_le_numeral power_increasing)
  then show ?thesis
    by (simp add: unsigned_ucast_eq take_bit_nat_eq_self)
qed

lemma unat_drop_bit:
  fixes v :: "'a::len word"
  shows "unat (drop_bit n v) = unat v div 2 ^ n"
proof -
  have "unat (drop_bit n v) = drop_bit n (unat v)"
    by (simp add: unsigned_drop_bit_eq take_bit_nat_eq_self)
  then show ?thesis
    by (simp add: drop_bit_eq_div [of n "unat v"])
qed

lemma unat_take_bit:
  fixes v :: "'a::len word"
  shows "n \<le> LENGTH('a) \<Longrightarrow> unat (take_bit n v) = unat v mod 2 ^ n"
  by (simp add: unsigned_take_bit_eq take_bit_eq_mod [of n "unat v"])

text \<open>The masks and flags of the wire format as bit operations.\<close>

lemma and_7F: "w AND 0x7F = take_bit 7 w" for w :: "'a::len word"
  by (simp add: take_bit_eq_mask mask_eq_exp_minus_1)

lemma or_80: "w OR 0x80 = set_bit 7 w" for w :: "'a::len word"
  by (simp add: set_bit_eq_or push_bit_eq_mult)

lemma and_80_0: "w AND 0x80 = 0 \<longleftrightarrow> \<not> bit w 7" for w :: "'a::len word"
  using and_exp_eq_0_iff_not_bit [of w 7] by simp

lemma take_bit_less_128:
  fixes v :: u64
  assumes "v < 128"
  shows "take_bit 7 v = v"
proof -
  have "unat (take_bit 7 v) = unat v"
    using assms by (simp add: word_less_nat_alt unat_take_bit)
  then show ?thesis
    by (rule unsigned_word_eqI)
qed

section \<open>Little-endian byte lists\<close>

definition bytes_le :: "nat \<Rightarrow> 'a::len word \<Rightarrow> u8 list" where
  "bytes_le n w = map (\<lambda>i. ucast (drop_bit (8 * i) w)) [0..<n]"

primrec le_word :: "u8 list \<Rightarrow> 'a::len word" where
  "le_word [] = 0"
| "le_word (b # bs) = ucast b OR push_bit 8 (le_word bs)"

lemma length_bytes_le [simp]: "length (bytes_le n w) = n"
  by (simp add: bytes_le_def)

lemma bytes_le_0 [simp]: "bytes_le 0 w = []"
  by (simp add: bytes_le_def)

lemma bytes_le_Suc: "bytes_le (Suc n) w = ucast w # bytes_le n (drop_bit 8 w)"
proof -
  have "[0..<Suc n] = 0 # map Suc [0..<n]"
    by (simp add: upt_conv_Cons map_Suc_upt)
  then show ?thesis
    by (simp add: bytes_le_def drop_bit_drop_bit add.commute)
qed

lemma le_word_bytes_le:
  fixes w :: "'a::len word"
  shows "le_word (bytes_le n w) = take_bit (8 * n) w"
proof (induction n arbitrary: w)
  case 0
  then show ?case by simp
next
  case (Suc n)
  have "ucast (ucast w :: u8) OR push_bit 8 (take_bit (8 * n) (drop_bit 8 w)) = take_bit (8 + 8 * n) w"
    by (rule bit_word_eqI) (auto simp: bit_simps)
  then show ?case
    using Suc by (simp add: bytes_le_Suc)
qed

lemma le_word_bytes_le_full:
  fixes w :: "'a::len word"
  assumes "LENGTH('a) \<le> 8 * n"
  shows "le_word (bytes_le n w) = w"
  using assms by (simp add: le_word_bytes_le take_bit_word_eq_self)

section \<open>Writing into a buffer\<close>

text \<open>The loop \<open>for (i = 0; i < count; i++) dest[i] = buf[i];\<close> with \<open>dest\<close> at index \<open>i\<close> of a buffer.\<close>

primrec put_bytes :: "u8 list \<Rightarrow> nat \<Rightarrow> u8 list \<Rightarrow> u8 list" where
  "put_bytes dest i [] = dest"
| "put_bytes dest i (b # bs) = put_bytes (dest[i := b]) (Suc i) bs"

lemma length_put_bytes [simp]: "length (put_bytes dest i bs) = length dest"
  by (induction bs arbitrary: dest i) auto

lemma nth_put_bytes:
  "j < length dest \<Longrightarrow> i + length bs \<le> length dest \<Longrightarrow>
    put_bytes dest i bs ! j = (if i \<le> j \<and> j < i + length bs then bs ! (j - i) else dest ! j)"
proof (induction bs arbitrary: dest i)
  case Nil
  then show ?case by auto
next
  case (Cons b bs)
  then show ?case
    by (auto simp: nth_list_update nth_Cons' Suc_le_eq)
qed

lemma put_bytes_eq:
  assumes "i + length bs \<le> length dest"
  shows "put_bytes dest i bs = take i dest @ bs @ drop (i + length bs) dest"
  using assms by (intro nth_equalityI) (auto simp: nth_put_bytes nth_append)

lemma put_bytes_append: "put_bytes dest i (bs @ cs) = put_bytes (put_bytes dest i bs) (i + length bs) cs"
  by (induction bs arbitrary: dest i) auto

end
