(* ===== verification/PbTypes.thy ===== *)
theory PbTypes
  imports Prelude
begin

text \<open>
  The types and constants of \<open>nanopb/pb.h\<close> as this build compiles them: \<open>PB_FIELD_32BIT\<close>,
  \<open>PB_NO_PACKED_STRUCTS\<close> and \<open>PB_ENABLE_MALLOC\<close> are defined (the pod's xcconfig files), none
  of the other options is. The target is LP64: pointers and \<open>size_t\<close> have 64 bits.
\<close>

section \<open>Integer types\<close>

text \<open>\<open>PB_FIELD_32BIT\<close> makes \<open>pb_size_t\<close> and \<open>pb_ssize_t\<close> 32 bits wide.\<close>

type_synonym pb_size_t = u32
type_synonym pb_ssize_t = u32
type_synonym pb_type_t = u8
type_synonym size_t = u64
type_synonym addr = u64

abbreviation (input) PB_SIZE_MAX :: pb_size_t where
  "PB_SIZE_MAX \<equiv> 0xFFFFFFFF"

section \<open>Field type codes\<close>

abbreviation (input) PB_LTYPE_BOOL :: u8 where "PB_LTYPE_BOOL \<equiv> 0x00"
abbreviation (input) PB_LTYPE_VARINT :: u8 where "PB_LTYPE_VARINT \<equiv> 0x01"
abbreviation (input) PB_LTYPE_UVARINT :: u8 where "PB_LTYPE_UVARINT \<equiv> 0x02"
abbreviation (input) PB_LTYPE_SVARINT :: u8 where "PB_LTYPE_SVARINT \<equiv> 0x03"
abbreviation (input) PB_LTYPE_FIXED32 :: u8 where "PB_LTYPE_FIXED32 \<equiv> 0x04"
abbreviation (input) PB_LTYPE_FIXED64 :: u8 where "PB_LTYPE_FIXED64 \<equiv> 0x05"
abbreviation (input) PB_LTYPE_LAST_PACKABLE :: u8 where "PB_LTYPE_LAST_PACKABLE \<equiv> 0x05"
abbreviation (input) PB_LTYPE_BYTES :: u8 where "PB_LTYPE_BYTES \<equiv> 0x06"
abbreviation (input) PB_LTYPE_STRING :: u8 where "PB_LTYPE_STRING \<equiv> 0x07"
abbreviation (input) PB_LTYPE_SUBMESSAGE :: u8 where "PB_LTYPE_SUBMESSAGE \<equiv> 0x08"
abbreviation (input) PB_LTYPE_EXTENSION :: u8 where "PB_LTYPE_EXTENSION \<equiv> 0x09"
abbreviation (input) PB_LTYPE_FIXED_LENGTH_BYTES :: u8 where "PB_LTYPE_FIXED_LENGTH_BYTES \<equiv> 0x0A"
abbreviation (input) PB_LTYPES_COUNT :: u8 where "PB_LTYPES_COUNT \<equiv> 0x0B"
abbreviation (input) PB_LTYPE_MASK :: u8 where "PB_LTYPE_MASK \<equiv> 0x0F"

abbreviation (input) PB_HTYPE_REQUIRED :: u8 where "PB_HTYPE_REQUIRED \<equiv> 0x00"
abbreviation (input) PB_HTYPE_OPTIONAL :: u8 where "PB_HTYPE_OPTIONAL \<equiv> 0x10"
abbreviation (input) PB_HTYPE_REPEATED :: u8 where "PB_HTYPE_REPEATED \<equiv> 0x20"
abbreviation (input) PB_HTYPE_ONEOF :: u8 where "PB_HTYPE_ONEOF \<equiv> 0x30"
abbreviation (input) PB_HTYPE_MASK :: u8 where "PB_HTYPE_MASK \<equiv> 0x30"

abbreviation (input) PB_ATYPE_STATIC :: u8 where "PB_ATYPE_STATIC \<equiv> 0x00"
abbreviation (input) PB_ATYPE_POINTER :: u8 where "PB_ATYPE_POINTER \<equiv> 0x80"
abbreviation (input) PB_ATYPE_CALLBACK :: u8 where "PB_ATYPE_CALLBACK \<equiv> 0x40"
abbreviation (input) PB_ATYPE_MASK :: u8 where "PB_ATYPE_MASK \<equiv> 0xC0"

definition PB_ATYPE :: "pb_type_t \<Rightarrow> u8" where "PB_ATYPE x = x AND PB_ATYPE_MASK"
definition PB_HTYPE :: "pb_type_t \<Rightarrow> u8" where "PB_HTYPE x = x AND PB_HTYPE_MASK"
definition PB_LTYPE :: "pb_type_t \<Rightarrow> u8" where "PB_LTYPE x = x AND PB_LTYPE_MASK"

lemmas pb_type_defs = PB_ATYPE_def PB_HTYPE_def PB_LTYPE_def

section \<open>Wire types\<close>

text \<open>
  A C enum is an integer, and \<open>pb_decode_tag\<close> casts any value of three bits to it, so the wire
  type stays an integer with named constants.
\<close>

type_synonym pb_wire_type_t = u32

abbreviation (input) PB_WT_VARINT :: pb_wire_type_t where "PB_WT_VARINT \<equiv> 0"
abbreviation (input) PB_WT_64BIT :: pb_wire_type_t where "PB_WT_64BIT \<equiv> 1"
abbreviation (input) PB_WT_STRING :: pb_wire_type_t where "PB_WT_STRING \<equiv> 2"
abbreviation (input) PB_WT_32BIT :: pb_wire_type_t where "PB_WT_32BIT \<equiv> 5"

section \<open>Field descriptors\<close>

text \<open>
  \<open>struct pb_field_s\<close>. Its untyped \<open>ptr\<close> holds one of three things: nothing, the descriptor
  array of a submessage, or the bytes of a default value. Descriptor arrays are constant data, so
  the array pointed to stands in the field itself; a descriptor that reaches itself through
  \<open>ptr\<close> (a recursive message type) is outside the model.
\<close>

datatype pb_field =
    PbField (f_tag: pb_size_t) (f_type: pb_type_t) (data_offset: pb_size_t)
      (size_offset: pb_ssize_t) (data_size: pb_size_t) (array_size: pb_size_t) (f_ptr: pb_ptr)
and pb_ptr =
    PtrNull
  | PtrFields "pb_field list"
  | PtrValue "u8 list"

definition PB_LAST_FIELD :: pb_field where
  "PB_LAST_FIELD = PbField 0 0 0 0 0 0 PtrNull"

lemma PB_LAST_FIELD_tag [simp]: "f_tag PB_LAST_FIELD = 0"
  by (simp add: PB_LAST_FIELD_def)

section \<open>Bytes arrays\<close>

text \<open>A \<open>pb_bytes_array_t\<close> holds its \<open>size\<close> (4 bytes) and then the bytes.\<close>

definition bytes_offset :: u64 where
  "bytes_offset = 4"

definition PB_BYTES_ARRAY_T_ALLOCSIZE :: "pb_size_t \<Rightarrow> size_t" where
  "PB_BYTES_ARRAY_T_ALLOCSIZE n = ucast n + bytes_offset"

section \<open>Undefined behaviour and budgets\<close>

text \<open>
  What C gives no meaning to is recorded, not hidden: the first such event of a run is kept in
  the \<open>fault\<close> field of the world. \<open>RecursionBudget\<close> and \<open>WalkBudget\<close> are not C errors: they
  say that the model's bound on nesting or on the length of a linked list was reached.
\<close>

datatype fault =
    BufferOverrun
  | NullDeref
  | BadCall
  | BadDescriptor
  | BadFree
  | DivisionByZero
  | RecursionBudget
  | WalkBudget

section \<open>Error messages\<close>

text \<open>
  \<open>PB_SET_ERROR\<close> keeps the first message; \<open>PB_GET_ERROR\<close> gives a default text when there is none.
\<close>

type_synonym errmsg = "string option"

definition PB_SET_ERROR :: "errmsg \<Rightarrow> string \<Rightarrow> errmsg" where
  "PB_SET_ERROR e msg = (case e of None \<Rightarrow> Some msg | Some m \<Rightarrow> Some m)"

definition PB_GET_ERROR :: "errmsg \<Rightarrow> string" where
  "PB_GET_ERROR e = (case e of None \<Rightarrow> ''(none)'' | Some m \<Rightarrow> m)"

lemma PB_SET_ERROR_Some [simp]: "\<exists>m. PB_SET_ERROR e msg = Some m"
  by (simp add: PB_SET_ERROR_def split: option.splits)

lemma PB_SET_ERROR_first [simp]: "PB_SET_ERROR (PB_SET_ERROR e m) m' = PB_SET_ERROR e m"
  by (simp add: PB_SET_ERROR_def split: option.splits)

end
