(* ===== verification/PbMemory.thy ===== *)
theory PbMemory
  imports PbTypes
begin

text \<open>
  The world the C code runs in: byte-addressed memory of an LP64 little-endian target, the live
  blocks of the C heap with their sizes, the
  state \<open>'u\<close> of code outside the library (the callbacks an application installs), and the first
  fault of the run. Loads and stores are the accesses the code makes through typed pointers.
\<close>

section \<open>The world\<close>

type_synonym memory = "addr \<Rightarrow> u8"

record 'u world =
  mem :: memory
  blocks :: "(addr \<times> nat) list"
  user :: 'u
  fault :: "fault option"

definition raise_fault :: "fault \<Rightarrow> 'u world \<Rightarrow> 'u world" where
  "raise_fault f w = (case fault w of None \<Rightarrow> w\<lparr>fault := Some f\<rparr> | Some _ \<Rightarrow> w)"

lemma raise_fault_mem [simp]: "mem (raise_fault f w) = mem w"
  by (simp add: raise_fault_def split: option.splits)

lemma raise_fault_not_None [simp]: "fault (raise_fault f w) \<noteq> None"
  by (simp add: raise_fault_def split: option.splits)

section \<open>Loads\<close>

definition load_bytes :: "memory \<Rightarrow> addr \<Rightarrow> nat \<Rightarrow> u8 list" where
  "load_bytes m a n = map (\<lambda>i. m (a + of_nat i)) [0..<n]"

definition load16 :: "memory \<Rightarrow> addr \<Rightarrow> u16" where "load16 m a = le_word (load_bytes m a 2)"
definition load32 :: "memory \<Rightarrow> addr \<Rightarrow> u32" where "load32 m a = le_word (load_bytes m a 4)"
definition load64 :: "memory \<Rightarrow> addr \<Rightarrow> u64" where "load64 m a = le_word (load_bytes m a 8)"

text \<open>A data pointer or a function pointer stored in memory; \<open>0\<close> is \<open>NULL\<close>.\<close>

abbreviation load_ptr :: "memory \<Rightarrow> addr \<Rightarrow> addr" where
  "load_ptr \<equiv> load64"

section \<open>Stores\<close>

primrec store_bytes :: "memory \<Rightarrow> addr \<Rightarrow> u8 list \<Rightarrow> memory" where
  "store_bytes m a [] = m"
| "store_bytes m a (b # bs) = store_bytes (m(a := b)) (a + 1) bs"

definition store16 :: "memory \<Rightarrow> addr \<Rightarrow> u16 \<Rightarrow> memory" where
  "store16 m a v = store_bytes m a (bytes_le 2 v)"

definition store32 :: "memory \<Rightarrow> addr \<Rightarrow> u32 \<Rightarrow> memory" where
  "store32 m a v = store_bytes m a (bytes_le 4 v)"

definition store64 :: "memory \<Rightarrow> addr \<Rightarrow> u64 \<Rightarrow> memory" where
  "store64 m a v = store_bytes m a (bytes_le 8 v)"

section \<open>Regions\<close>

text \<open>\<open>region a n\<close> is the set of the \<open>n\<close> addresses from \<open>a\<close> on, modulo the address space.\<close>

definition region :: "addr \<Rightarrow> nat \<Rightarrow> addr set" where
  "region a n = (\<lambda>i. a + of_nat i) ` {..<n}"

lemma region_0 [simp]: "region a 0 = {}"
  by (simp add: region_def)

lemma region_Suc: "region a (Suc n) = insert a (region (a + 1) n)"
  by (simp add: region_def lessThan_Suc_eq_insert_0 image_image add.assoc)

lemma region_mono: "n \<le> n' \<Longrightarrow> region a n \<subseteq> region a n'"
  by (auto simp: region_def)

lemma region_iff: "n \<le> 2 ^ 64 \<Longrightarrow> x \<in> region a n \<longleftrightarrow> unat (x - a) < n"
proof
  assume "n \<le> 2 ^ 64" and "x \<in> region a n"
  then obtain i where "x = a + of_nat i" and "i < n"
    by (auto simp: region_def)
  then show "unat (x - a) < n"
    using \<open>n \<le> 2 ^ 64\<close> by (simp add: unat_of_nat)
next
  assume "unat (x - a) < n"
  moreover have "x = a + of_nat (unat (x - a))"
    by simp
  ultimately show "x \<in> region a n"
    unfolding region_def by blast
qed

text \<open>Loads depend on the bytes of their region only.\<close>

lemma load_bytes_cong:
  "(\<And>x. x \<in> region a n \<Longrightarrow> m x = m' x) \<Longrightarrow> load_bytes m a n = load_bytes m' a n"
  by (simp add: load_bytes_def region_def)

lemma length_load_bytes [simp]: "length (load_bytes m a n) = n"
  by (simp add: load_bytes_def)

lemma load_bytes_0 [simp]: "load_bytes m a 0 = []"
  by (simp add: load_bytes_def)

lemma load_bytes_Suc: "load_bytes m a (Suc n) = m a # load_bytes m (a + 1) n"
proof -
  have "[0..<Suc n] = 0 # map Suc [0..<n]"
    by (simp add: upt_conv_Cons map_Suc_upt)
  then show ?thesis
    by (simp add: load_bytes_def add.assoc)
qed

text \<open>Stores change the bytes of their region only, and what is stored is what is loaded.\<close>

lemma store_bytes_frame: "x \<notin> region a (length bs) \<Longrightarrow> store_bytes m a bs x = m x"
  by (induction bs arbitrary: m a) (auto simp: region_Suc)

lemma load_store_bytes:
  assumes "length bs \<le> 2 ^ 64"
  shows "load_bytes (store_bytes m a bs) a (length bs) = bs"
  using assms
proof (induction bs arbitrary: m a)
  case Nil
  then show ?case by simp
next
  case (Cons b bs)
  have "unat (a - (a + 1)) = 2 ^ 64 - 1"
    by (simp add: unsigned_minus_1_eq_mask mask_eq_exp_minus_1)
  then have "a \<notin> region (a + 1) (length bs)"
    using Cons.prems by (subst region_iff) auto
  then show ?case
    using Cons by (simp add: load_bytes_Suc store_bytes_frame)
qed

lemma load_store_other:
  "region a n \<inter> region b (length bs) = {} \<Longrightarrow> load_bytes (store_bytes m b bs) a n = load_bytes m a n"
  by (rule load_bytes_cong) (auto intro: store_bytes_frame)

lemma load_store32 [simp]: "load32 (store32 m a v) a = v"
  using load_store_bytes [of "bytes_le 4 v" m a]
  by (simp add: load32_def store32_def le_word_bytes_le_full)

lemma load_store64 [simp]: "load64 (store64 m a v) a = v"
  using load_store_bytes [of "bytes_le 8 v" m a]
  by (simp add: load64_def store64_def le_word_bytes_le_full)

lemma load_store16 [simp]: "load16 (store16 m a v) a = v"
  using load_store_bytes [of "bytes_le 2 v" m a]
  by (simp add: load16_def store16_def le_word_bytes_le_full)

end
