(* ===== verification/PbIter.thy ===== *)
theory PbIter
  imports PbMemory
begin

text \<open>
  The field iterator of \<open>nanopb/pb_common.c\<close>. An iterator walks the descriptor array of a message
  type and keeps, for the current field, the addresses of its data and of its count/has member.
  The pointers \<open>start\<close> and \<open>pos\<close> into the constant array are the array and an index into it;
  the array holds its terminator (\<open>PB_LAST_FIELD\<close>, tag 0).
\<close>

record pb_field_iter =
  start :: "pb_field list"
  pos :: nat
  required_field_index :: u32
  dest_struct :: addr
  pData :: addr
  pSize :: addr

text \<open>A read past the array's end gives the terminator; \<open>wf_fields\<close> below excludes it.\<close>

definition field_at :: "pb_field list \<Rightarrow> nat \<Rightarrow> pb_field" where
  "field_at fs i = (if i < length fs then fs ! i else PB_LAST_FIELD)"

abbreviation cur :: "pb_field_iter \<Rightarrow> pb_field" where
  "cur it \<equiv> field_at (start it) (pos it)"

section \<open>Operations\<close>

definition pb_field_iter_begin :: "pb_field list \<Rightarrow> addr \<Rightarrow> bool \<times> pb_field_iter" where
  "pb_field_iter_begin fs dest =
     (let f = field_at fs 0;
          pd = dest + ucast (data_offset f);
          ps = pd + scast (size_offset f)
      in (f_tag f \<noteq> 0,
          \<lparr>start = fs, pos = 0, required_field_index = 0, dest_struct = dest,
           pData = pd, pSize = ps\<rparr>))"

text \<open>The size by which the data pointer advances past the field \<open>prev\<close>.\<close>

definition prev_size :: "pb_field \<Rightarrow> size_t" where
  "prev_size prev =
     (if PB_ATYPE (f_type prev) = PB_ATYPE_STATIC \<and> PB_HTYPE (f_type prev) = PB_HTYPE_REPEATED
      then ucast (data_size prev) * ucast (array_size prev)
      else if PB_ATYPE (f_type prev) = PB_ATYPE_POINTER then 8
      else ucast (data_size prev))"

definition pb_field_iter_next :: "pb_field_iter \<Rightarrow> bool \<times> pb_field_iter" where
  "pb_field_iter_next it =
     (let prev = cur it in
      if f_tag prev = 0 then (False, it)
      else
        let it1 = it\<lparr>pos := Suc (pos it)\<rparr>; f = cur it1 in
        if f_tag f = 0 then (False, snd (pb_field_iter_begin (start it) (dest_struct it)))
        else if PB_HTYPE (f_type prev) = PB_HTYPE_ONEOF \<and> PB_HTYPE (f_type f) = PB_HTYPE_ONEOF
                \<and> data_offset f = PB_SIZE_MAX
        then (True, it1)
        else
          let it2 = (if PB_HTYPE (f_type prev) = PB_HTYPE_REQUIRED
                     then it1\<lparr>required_field_index := required_field_index it + 1\<rparr> else it1);
              pd = pData it + prev_size prev + ucast (data_offset f)
          in (True, it2\<lparr>pData := pd, pSize := pd + scast (size_offset f)\<rparr>))"

text \<open>
  The search loop of \<open>pb_field_iter_find\<close>: it stops at the field or when it is back at the
  position \<open>st\<close> it started from. The bound on the number of steps is the array's length, which
  \<open>find_loop_enough\<close> shows to be enough; \<open>None\<close> would mean that the loop is still running.
\<close>

fun find_loop :: "nat \<Rightarrow> (pb_field \<Rightarrow> bool) \<Rightarrow> nat \<Rightarrow> pb_field_iter \<Rightarrow> (bool \<times> pb_field_iter) option" where
  "find_loop 0 p st it = None"
| "find_loop (Suc n) p st it =
     (if p (cur it) then Some (True, it)
      else
        let it' = snd (pb_field_iter_next it) in
        if pos it' \<noteq> st then find_loop n p st it' else Some (False, it'))"

definition pb_field_iter_find :: "pb_field_iter \<Rightarrow> u32 \<Rightarrow> (bool \<times> pb_field_iter) option" where
  "pb_field_iter_find it tag =
     find_loop (Suc (length (start it)))
       (\<lambda>f. f_tag f = tag \<and> PB_LTYPE (f_type f) \<noteq> PB_LTYPE_EXTENSION) (pos it) it"

text \<open>
  The loop \<open>do { body } while (pb_field_iter_next(&iter));\<close> that encoding, decoding, releasing
  and setting defaults all share, with the body's failure as an early return.
\<close>

function iter_loop :: "(pb_field_iter \<Rightarrow> 's \<Rightarrow> bool \<times> 's) \<Rightarrow> pb_field_iter \<Rightarrow> 's \<Rightarrow> bool \<times> 's" where
  "iter_loop body it s =
     (case body it s of (ok, s') \<Rightarrow>
        if \<not> ok then (False, s')
        else (case pb_field_iter_next it of (go, it') \<Rightarrow>
          if go then iter_loop body it' s' else (True, s')))"
  by pat_completeness auto
termination
  by (relation "measure (\<lambda>(body, it, s). length (start it) - pos it)")
    (auto simp: pb_field_iter_next_def field_at_def Let_def split: if_splits)

declare iter_loop.simps [simp del]

section \<open>The positions an iterator passes through\<close>

text \<open>
  A descriptor array is well formed when its last entry is the terminator and no other entry has
  tag 0. \<open>nfields\<close> counts the entries before the terminator; \<open>iter_at fs dest k\<close> is the iterator
  at entry \<open>k\<close> of a message stored at \<open>dest\<close>.
\<close>

definition wf_fields :: "pb_field list \<Rightarrow> bool" where
  "wf_fields fs \<longleftrightarrow> fs \<noteq> [] \<and> f_tag (last fs) = 0 \<and> (\<forall>f \<in> set (butlast fs). f_tag f \<noteq> 0)"

definition nfields :: "pb_field list \<Rightarrow> nat" where
  "nfields fs = length fs - 1"

definition in_union :: "pb_field \<Rightarrow> pb_field \<Rightarrow> bool" where
  "in_union prev f \<longleftrightarrow> PB_HTYPE (f_type prev) = PB_HTYPE_ONEOF \<and> PB_HTYPE (f_type f) = PB_HTYPE_ONEOF
     \<and> data_offset f = PB_SIZE_MAX"

primrec data_at :: "pb_field list \<Rightarrow> addr \<Rightarrow> nat \<Rightarrow> addr" where
  "data_at fs dest 0 = dest + ucast (data_offset (field_at fs 0))"
| "data_at fs dest (Suc k) =
     (if in_union (field_at fs k) (field_at fs (Suc k)) then data_at fs dest k
      else data_at fs dest k + prev_size (field_at fs k) + ucast (data_offset (field_at fs (Suc k))))"

primrec size_at :: "pb_field list \<Rightarrow> addr \<Rightarrow> nat \<Rightarrow> addr" where
  "size_at fs dest 0 = data_at fs dest 0 + scast (size_offset (field_at fs 0))"
| "size_at fs dest (Suc k) =
     (if in_union (field_at fs k) (field_at fs (Suc k)) then size_at fs dest k
      else data_at fs dest (Suc k) + scast (size_offset (field_at fs (Suc k))))"

lemma data_at_shift: "data_at fs base k = base + data_at fs 0 k"
  by (induction k) (simp_all add: add.assoc)

lemma size_at_shift: "size_at fs base k = base + size_at fs 0 k"
  by (induction k) (simp_all add: add.assoc data_at_shift [of fs base])

definition required_before :: "pb_field list \<Rightarrow> nat \<Rightarrow> nat" where
  "required_before fs k = length (filter (\<lambda>f. PB_HTYPE (f_type f) = PB_HTYPE_REQUIRED) (take k fs))"

definition iter_at :: "pb_field list \<Rightarrow> addr \<Rightarrow> nat \<Rightarrow> pb_field_iter" where
  "iter_at fs dest k =
     \<lparr>start = fs, pos = k, required_field_index = of_nat (required_before fs k), dest_struct = dest,
      pData = data_at fs dest k, pSize = size_at fs dest k\<rparr>"

lemma iter_at_sel [simp]:
  "start (iter_at fs dest k) = fs" "pos (iter_at fs dest k) = k"
  "dest_struct (iter_at fs dest k) = dest"
  "pData (iter_at fs dest k) = data_at fs dest k" "pSize (iter_at fs dest k) = size_at fs dest k"
  by (simp_all add: iter_at_def)

lemma wf_fields_length: "wf_fields fs \<Longrightarrow> length fs = Suc (nfields fs)"
  by (cases fs) (auto simp: wf_fields_def nfields_def)

lemma field_at_lt: "wf_fields fs \<Longrightarrow> k < nfields fs \<Longrightarrow> f_tag (field_at fs k) \<noteq> 0"
proof -
  assume wf: "wf_fields fs" and k: "k < nfields fs"
  then have "butlast fs ! k \<in> set (butlast fs)"
    by (intro nth_mem) (simp add: nfields_def)
  moreover have "butlast fs ! k = fs ! k"
    using k by (intro nth_butlast) (simp add: nfields_def)
  ultimately show ?thesis
    using wf k by (auto simp: wf_fields_def field_at_def nfields_def)
qed

lemma field_at_end: "wf_fields fs \<Longrightarrow> f_tag (field_at fs (nfields fs)) = 0"
  by (auto simp: wf_fields_def field_at_def nfields_def last_conv_nth)

lemma field_at_iff: "wf_fields fs \<Longrightarrow> k \<le> nfields fs \<Longrightarrow> f_tag (field_at fs k) = 0 \<longleftrightarrow> k = nfields fs"
  using field_at_lt field_at_end by (metis le_neq_implies_less)

lemma iter_begin_at:
  "wf_fields fs \<Longrightarrow> pb_field_iter_begin fs dest = (nfields fs \<noteq> 0, iter_at fs dest 0)"
  by (simp add: pb_field_iter_begin_def iter_at_def required_before_def Let_def field_at_iff)

lemma required_before_Suc:
  assumes "wf_fields fs" and "k < nfields fs"
  shows "required_before fs (Suc k) =
    (if PB_HTYPE (f_type (field_at fs k)) = PB_HTYPE_REQUIRED then Suc (required_before fs k)
     else required_before fs k)"
proof -
  have "k < length fs"
    using assms by (simp add: wf_fields_length)
  then show ?thesis
    by (simp add: required_before_def take_Suc_conv_app_nth field_at_def)
qed

lemma iter_next_at:
  assumes wf: "wf_fields fs" and k: "k < nfields fs"
  shows "pb_field_iter_next (iter_at fs dest k) =
    (if Suc k < nfields fs then (True, iter_at fs dest (Suc k)) else (False, iter_at fs dest 0))"
proof (cases "Suc k < nfields fs")
  case True
  then have "f_tag (field_at fs (Suc k)) \<noteq> 0" and "f_tag (field_at fs k) \<noteq> 0"
    using wf k by (simp_all add: field_at_lt)
  then show ?thesis
    using True wf k
    by (simp add: pb_field_iter_next_def iter_at_def Let_def required_before_Suc in_union_def)
next
  case False
  then have "f_tag (field_at fs (Suc k)) = 0" and "f_tag (field_at fs k) \<noteq> 0"
    using wf k by (simp_all add: field_at_lt field_at_iff)
  then show ?thesis
    using False wf
    by (simp add: pb_field_iter_next_def Let_def iter_begin_at iter_at_def)
qed

lemma iter_next_empty:
  assumes "wf_fields fs" and "nfields fs = 0"
  shows "pb_field_iter_next (iter_at fs dest 0) = (False, iter_at fs dest 0)"
  using assms by (simp add: pb_field_iter_next_def field_at_iff)

text \<open>The iterator after \<open>k\<close> calls of \<open>pb_field_iter_next\<close>.\<close>

definition iter_after :: "nat \<Rightarrow> pb_field list \<Rightarrow> addr \<Rightarrow> pb_field_iter" where
  "iter_after k fs base = ((\<lambda>it. snd (pb_field_iter_next it)) ^^ k) (snd (pb_field_iter_begin fs base))"

lemma iter_after_at:
  assumes "wf_fields fs"
  shows "k < nfields fs \<Longrightarrow> iter_after k fs base = iter_at fs base k"
proof (induction k)
  case 0
  then show ?case using assms by (simp add: iter_after_def iter_begin_at)
next
  case (Suc k)
  then show ?case using assms by (simp add: iter_after_def iter_next_at)
qed

section \<open>Loops over all fields\<close>

text \<open>\<open>run_items body xs\<close> runs \<open>body\<close> on every element in order and stops at the first failure.\<close>

primrec run_items :: "('a \<Rightarrow> 's \<Rightarrow> bool \<times> 's) \<Rightarrow> 'a list \<Rightarrow> 's \<Rightarrow> bool \<times> 's" where
  "run_items body [] = ret"
| "run_items body (x # xs) = andthen (body x) (run_items body xs)"

lemma iter_loop_at:
  assumes wf: "wf_fields fs" and k: "k < nfields fs"
  shows "iter_loop body (iter_at fs dest k) = run_items body (map (iter_at fs dest) [k..<nfields fs])"
  using k
proof (induction "nfields fs - k" arbitrary: k)
  case 0
  then show ?case by simp
next
  case (Suc d)
  show ?case
  proof (cases "Suc k < nfields fs")
    case True
    have "iter_loop body (iter_at fs dest (Suc k)) =
        run_items body (map (iter_at fs dest) [Suc k..<nfields fs])"
      using Suc.hyps(1) [of "Suc k"] Suc.hyps(2) True by simp
    moreover have "[k..<nfields fs] = k # [Suc k..<nfields fs]"
      using Suc.prems by (rule upt_conv_Cons)
    ultimately show ?thesis
      using True Suc.prems wf
      by (intro ext) (simp add: iter_loop.simps [of _ "iter_at fs dest k"] iter_next_at andthen_def
          split: prod.splits)
  next
    case False
    then have "[k..<nfields fs] = [k]"
      using Suc.prems by (simp add: upt_rec)
    with False show ?thesis
      using Suc.prems wf
      by (intro ext) (simp add: iter_loop.simps [of _ "iter_at fs dest k"] iter_next_at andthen_def
          ret_def split: prod.splits)
  qed
qed

lemma iter_loop_begin:
  assumes "wf_fields fs" and "nfields fs \<noteq> 0"
  shows "iter_loop body (snd (pb_field_iter_begin fs dest)) =
    run_items body (map (iter_at fs dest) [0..<nfields fs])"
  using assms by (simp add: iter_begin_at iter_loop_at)

section \<open>Searching\<close>

text \<open>
  One turn of the search visits every position once, from the current one to the end and on from
  the beginning. \<open>turn n k\<close> lists the positions in that order.
\<close>

definition turn :: "nat \<Rightarrow> nat \<Rightarrow> nat list" where
  "turn n k = [k..<n] @ [0..<k]"

lemma set_turn: "k \<le> n \<Longrightarrow> set (turn n k) = {..<n}"
  by (auto simp: turn_def)

lemma find_loop_wrapped:
  assumes wf: "wf_fields fs" and st: "st < nfields fs"
  shows "j < st \<Longrightarrow> st - j \<le> n \<Longrightarrow>
    find_loop n p st (iter_at fs dest j) =
      (case List.find (\<lambda>i. p (field_at fs i)) [j..<st] of
         Some i \<Rightarrow> Some (True, iter_at fs dest i) | None \<Rightarrow> Some (False, iter_at fs dest st))"
proof (induction n arbitrary: j)
  case 0
  then show ?case by simp
next
  case (Suc n)
  then have "[j..<st] = j # [Suc j..<st]" and "Suc j < nfields fs" and "j < nfields fs"
    using st by (simp_all add: upt_conv_Cons)
  with Suc wf show ?case
    by (cases "Suc j = st") (auto simp: Let_def iter_next_at)
qed

lemma find_loop_turn:
  assumes wf: "wf_fields fs" and st: "st < nfields fs"
  shows "st \<le> j \<Longrightarrow> j < nfields fs \<Longrightarrow> nfields fs - j + st \<le> n \<Longrightarrow>
    find_loop n p st (iter_at fs dest j) =
      (case List.find (\<lambda>i. p (field_at fs i)) ([j..<nfields fs] @ [0..<st]) of
         Some i \<Rightarrow> Some (True, iter_at fs dest i) | None \<Rightarrow> Some (False, iter_at fs dest st))"
proof (induction n arbitrary: j)
  case 0
  then show ?case by simp
next
  case (Suc n)
  have upt: "[j..<nfields fs] = j # [Suc j..<nfields fs]"
    using Suc.prems by (simp add: upt_conv_Cons)
  show ?case
  proof (cases "Suc j < nfields fs")
    case True
    with Suc wf upt show ?thesis
      by (simp add: Let_def iter_next_at)
  next
    case False
    then have "[Suc j..<nfields fs] = []" by simp
    with False Suc.prems wf upt st show ?thesis
      by (cases "st = 0") (simp_all add: Let_def iter_next_at find_loop_wrapped)
  qed
qed

lemma pb_field_iter_find_at:
  assumes "wf_fields fs" and "k < nfields fs"
  shows "pb_field_iter_find (iter_at fs dest k) tag =
    (case List.find (\<lambda>i. f_tag (field_at fs i) = tag \<and> PB_LTYPE (f_type (field_at fs i)) \<noteq> PB_LTYPE_EXTENSION)
            (turn (nfields fs) k) of
       Some i \<Rightarrow> Some (True, iter_at fs dest i) | None \<Rightarrow> Some (False, iter_at fs dest k))"
  using assms
  by (simp add: pb_field_iter_find_def turn_def wf_fields_length find_loop_turn del: find_loop.simps)

text \<open>In an empty message type the terminator itself is looked at, once.\<close>

lemma pb_field_iter_find_empty:
  assumes "wf_fields fs" and "nfields fs = 0"
  shows "pb_field_iter_find (iter_at fs dest 0) tag =
    Some (tag = 0 \<and> PB_LTYPE (f_type (field_at fs 0)) \<noteq> PB_LTYPE_EXTENSION, iter_at fs dest 0)"
  using assms by (auto simp: pb_field_iter_find_def Let_def iter_next_empty field_at_iff)

text \<open>The loop's bound is enough: from any valid position the search ends, and a larger bound
  gives the same result.\<close>

lemma find_loop_enough:
  assumes "wf_fields fs" and "k < nfields fs" and "nfields fs \<le> n"
  shows "find_loop n p k (iter_at fs dest k) = find_loop (Suc (length fs)) p k (iter_at fs dest k)"
  using assms by (simp add: find_loop_turn wf_fields_length del: find_loop.simps)

end
