(* ===== verification/PbStreams.thy ===== *)
theory PbStreams
  imports PbMemory
begin

text \<open>
  The stream structures of \<open>pb_encode.h\<close> and \<open>pb_decode.h\<close>, and the code the library calls back.

  A buffer stream's \<open>void *state\<close> points into a byte array of the caller. That array is its own
  object here (\<open>o_buf\<close>, \<open>i_buf\<close>), apart from the memory that holds messages, and \<open>state\<close> is the
  offset into it: the model covers callers that do not encode into, or decode from, the message
  structure itself. For a user stream \<open>state\<close> is the user's own 64-bit value.

  Code outside the library (stream callbacks, field callbacks, extension handlers) is a parameter,
  the record \<open>env\<close>. As the headers ask, a stream callback works on \<open>state\<close> (and the world) only.
\<close>

section \<open>Output streams\<close>

datatype ocallback = OSizing | OBuf | OUser nat

record pb_ostream =
  o_callback :: ocallback
  o_buf :: "u8 list"
  o_state :: u64
  max_size :: size_t
  bytes_written :: size_t
  o_errmsg :: errmsg

definition PB_OSTREAM_SIZING :: pb_ostream where
  "PB_OSTREAM_SIZING =
     \<lparr>o_callback = OSizing, o_buf = [], o_state = 0, max_size = 0, bytes_written = 0, o_errmsg = None\<rparr>"

section \<open>Input streams\<close>

datatype icallback = IBuf | IUser nat

record pb_istream =
  i_callback :: icallback
  i_buf :: "u8 list"
  i_state :: u64
  bytes_left :: size_t
  i_errmsg :: errmsg

section \<open>Code outside the library\<close>

text \<open>
  \<open>pb_extension_type_t\<close> is constant data found by address; its handlers are function pointers
  (\<open>None\<close> for \<open>NULL\<close>) and \<open>arg\<close> is the descriptor array of the default handlers.
\<close>

record pb_extension_type =
  ext_decode :: "nat option"
  ext_encode :: "nat option"
  ext_arg :: "pb_field list"

type_synonym 'u est = "pb_ostream \<times> 'u world"
type_synonym 'u ist = "pb_istream \<times> 'u world"

text \<open>
  \<open>walk_limit\<close> bounds the walk along a linked list of extensions, which C would follow forever
  when the list is cyclic, and the calls of a field callback that never reads its substream.
  \<open>place\<close> is where the C library's \<open>realloc\<close> puts a block (\<open>None\<close> when it returns \<open>NULL\<close>), and
  \<open>local_addr d\<close> is the address of \<open>fixed_count_size\<close>, the one local variable whose address the
  code hands on, in the frame of \<open>pb_decode_noinit\<close> at depth \<open>d\<close>.
\<close>

record 'u env =
  ostream_fn :: "nat \<Rightarrow> u64 \<Rightarrow> u8 list \<Rightarrow> 'u world \<Rightarrow> bool \<times> u64 \<times> 'u world"
  istream_fn :: "nat \<Rightarrow> u64 \<Rightarrow> u64 \<Rightarrow> 'u world \<Rightarrow> bool \<times> u8 list \<times> u64 \<times> 'u world"
  encode_fn :: "addr \<Rightarrow> pb_field \<Rightarrow> addr \<Rightarrow> 'u est \<Rightarrow> bool \<times> 'u est"
  decode_fn :: "addr \<Rightarrow> pb_field \<Rightarrow> addr \<Rightarrow> 'u ist \<Rightarrow> bool \<times> 'u ist"
  ext_types :: "addr \<Rightarrow> pb_extension_type"
  ext_encode_fn :: "nat \<Rightarrow> addr \<Rightarrow> 'u est \<Rightarrow> bool \<times> 'u est"
  ext_decode_fn :: "nat \<Rightarrow> addr \<Rightarrow> u32 \<Rightarrow> pb_wire_type_t \<Rightarrow> 'u ist \<Rightarrow> bool \<times> 'u ist"
  walk_limit :: nat
  place :: "'u world \<Rightarrow> nat \<Rightarrow> addr option"
  local_addr :: "nat \<Rightarrow> addr"

section \<open>Returning an error\<close>

definition oerror :: "string \<Rightarrow> 'u est \<Rightarrow> bool \<times> 'u est" where
  "oerror msg st = (case st of (s, w) \<Rightarrow>
     (False, s\<lparr>o_errmsg := PB_SET_ERROR (o_errmsg s) msg\<rparr>, w))"

definition ofault :: "fault \<Rightarrow> 'u est \<Rightarrow> bool \<times> 'u est" where
  "ofault f st = (case st of (s, w) \<Rightarrow> (False, s, raise_fault f w))"

definition ierror :: "string \<Rightarrow> 'u ist \<Rightarrow> 'u ist" where
  "ierror msg st = (case st of (s, w) \<Rightarrow> (s\<lparr>i_errmsg := PB_SET_ERROR (i_errmsg s) msg\<rparr>, w))"

definition ifault :: "fault \<Rightarrow> 'u ist \<Rightarrow> 'u ist" where
  "ifault f st = (case st of (s, w) \<Rightarrow> (s, raise_fault f w))"

section \<open>Where a buffer argument points\<close>

text \<open>
  A \<open>const pb_byte_t *buf\<close> that is written out is \<open>NULL\<close>, an array of the caller's frame, or an
  address; a \<open>pb_byte_t *buf\<close> that is read into likewise.
\<close>

datatype src = SrcNull | SrcLocal "u8 list" | SrcMem addr
datatype dst = DstNull | DstLocal | DstMem addr

fun src_bytes :: "memory \<Rightarrow> src \<Rightarrow> nat \<Rightarrow> fault + u8 list" where
  "src_bytes m SrcNull n = Inl NullDeref"
| "src_bytes m (SrcLocal bs) n = (if n \<le> length bs then Inr (take n bs) else Inl BufferOverrun)"
| "src_bytes m (SrcMem a) n = Inr (load_bytes m a n)"

end
