(* ===== verification/PbHeap.thy ===== *)
theory PbHeap
  imports PbStreams
begin

text \<open>
  \<open>pb_realloc\<close> and \<open>pb_free\<close>, which \<open>pb.h\<close> defines as the C library's \<open>realloc\<close> and \<open>free\<close>. Where a
  block is placed is the library's choice (\<open>place\<close>); a choice that is not a fresh block counts as
  \<open>NULL\<close>. Freeing or resizing what is not a live block is a fault.
\<close>

section \<open>Blocks\<close>

definition apart :: "addr \<Rightarrow> nat \<Rightarrow> addr \<times> nat \<Rightarrow> bool" where
  "apart a n b \<longleftrightarrow> unat a + n \<le> unat (fst b) \<or> unat (fst b) + snd b \<le> unat a"

definition fresh :: "(addr \<times> nat) list \<Rightarrow> addr \<Rightarrow> nat \<Rightarrow> bool" where
  "fresh bs a n \<longleftrightarrow> a \<noteq> 0 \<and> unat a + n \<le> 2 ^ 64 \<and> list_all (apart a n) bs"

definition release_block :: "addr \<Rightarrow> (addr \<times> nat) list \<Rightarrow> (addr \<times> nat) list" where
  "release_block a bs = filter (\<lambda>b. fst b \<noteq> a) bs"

definition alloc :: "'u env \<Rightarrow> (addr \<times> nat) list \<Rightarrow> nat \<Rightarrow> 'u world \<Rightarrow> addr" where
  "alloc E bs n w = (case place E w n of None \<Rightarrow> 0 | Some a \<Rightarrow> if fresh bs a n then a else 0)"

section \<open>Operations\<close>

text \<open>
  \<open>realloc\<close>: on success the contents are kept up to the smaller size and the old block is gone (the
  new one may lie where it was); on failure the old block stays as it is.
\<close>

definition pb_realloc :: "'u env \<Rightarrow> addr \<Rightarrow> size_t \<Rightarrow> 'u world \<Rightarrow> addr \<times> 'u world" where
  "pb_realloc E p n w =
     (if p = 0 then
        let a = alloc E (blocks w) (unat n) w in
        (a, if a = 0 then w else w\<lparr>blocks := (a, unat n) # blocks w\<rparr>)
      else
        (case map_of (blocks w) p of
           None \<Rightarrow> (0, raise_fault BadFree w)
         | Some old \<Rightarrow>
             let bs = release_block p (blocks w); a = alloc E bs (unat n) w in
             if a = 0 then (0, w)
             else (a, w\<lparr>mem := store_bytes (mem w) a (load_bytes (mem w) p (min old (unat n))),
                        blocks := (a, unat n) # bs\<rparr>)))"

definition pb_free :: "addr \<Rightarrow> 'u world \<Rightarrow> 'u world" where
  "pb_free p w =
     (if p = 0 then w
      else if map_of (blocks w) p = None then raise_fault BadFree w
      else w\<lparr>blocks := release_block p (blocks w)\<rparr>)"

section \<open>The heap's invariant\<close>

text \<open>Live blocks are at different places, do not overlap and lie inside the address space.\<close>

primrec heap_ok :: "(addr \<times> nat) list \<Rightarrow> bool" where
  "heap_ok [] \<longleftrightarrow> True"
| "heap_ok (b # bs) \<longleftrightarrow>
     fst b \<noteq> 0 \<and> unat (fst b) + snd b \<le> 2 ^ 64 \<and> list_all (apart (fst b) (snd b)) bs \<and>
     fst b \<notin> fst ` set bs \<and> heap_ok bs"

lemma set_release_block: "set (release_block a bs) \<subseteq> set bs"
  by (auto simp: release_block_def)

lemma heap_ok_release: "heap_ok bs \<Longrightarrow> heap_ok (release_block a bs)"
  using set_release_block [of a]
  by (induction bs) (auto simp: release_block_def list_all_iff)

lemma heap_ok_Cons:
  assumes "heap_ok bs" and "fresh bs a n" and "0 < n" and "\<forall>b \<in> set bs. 0 < snd b"
  shows "heap_ok ((a, n) # bs)"
  using assms by (force simp: fresh_def list_all_iff apart_def)

lemma fresh_mono: "fresh bs a n \<Longrightarrow> set cs \<subseteq> set bs \<Longrightarrow> fresh cs a n"
  by (auto simp: fresh_def list_all_iff)

end
