(* ===== verification/PbDefaults.thy ===== *)
theory PbDefaults
  imports PbIter PbHeap
begin

text \<open>
  Walks over a message structure in \<open>pb_decode.c\<close>: initialising it to defaults and releasing what
  it owns. Both recurse through submessages and extensions; as in \<open>PbEncode\<close> the recursive calls are
  arguments, and a depth ties the knot.
\<close>

section \<open>Stores of the code\<close>

definition on_mem :: "(memory \<Rightarrow> memory) \<Rightarrow> 'u world \<Rightarrow> 'u world" where
  "on_mem f w = w\<lparr>mem := f (mem w)\<rparr>"

definition put_bool :: "addr \<Rightarrow> bool \<Rightarrow> 'u world \<Rightarrow> 'u world" where
  "put_bool a b = on_mem (\<lambda>m. m(a := (if b then 1 else 0)))"

definition put32 :: "addr \<Rightarrow> u32 \<Rightarrow> 'u world \<Rightarrow> 'u world" where
  "put32 a v = on_mem (\<lambda>m. store32 m a v)"

definition put_ptr :: "addr \<Rightarrow> addr \<Rightarrow> 'u world \<Rightarrow> 'u world" where
  "put_ptr a v = on_mem (\<lambda>m. store64 m a v)"

definition put_bytes_at :: "addr \<Rightarrow> u8 list \<Rightarrow> 'u world \<Rightarrow> 'u world" where
  "put_bytes_at a bs = on_mem (\<lambda>m. store_bytes m a bs)"

definition memset0 :: "addr \<Rightarrow> nat \<Rightarrow> 'u world \<Rightarrow> 'u world" where
  "memset0 a n = put_bytes_at a (replicate n 0)"

section \<open>Extensions\<close>

text \<open>\<open>pb_extension_t\<close> in memory: \<open>type\<close> at 0, \<open>dest\<close> at 8, \<open>next\<close> at 16, \<open>found\<close> at 24.\<close>

abbreviation ext_type_of :: "'u env \<Rightarrow> memory \<Rightarrow> addr \<Rightarrow> pb_extension_type" where
  "ext_type_of E m ext \<equiv> ext_types E (load_ptr m ext)"

definition iter_from_extension :: "'u env \<Rightarrow> memory \<Rightarrow> addr \<Rightarrow> pb_field_iter" where
  "iter_from_extension E m ext =
     (let fs = ext_arg (ext_type_of E m ext);
          it = snd (pb_field_iter_begin fs (load_ptr m (ext + 8)))
      in it\<lparr>pData := (if PB_ATYPE (f_type (field_at fs 0)) = PB_ATYPE_POINTER then ext + 8
                     else load_ptr m (ext + 8)),
            pSize := ext + 24\<rparr>)"

text \<open>The loop \<open>while (ext != NULL) { ...; ext = ext->next; }\<close>.\<close>

primrec walk_extensions :: "nat \<Rightarrow> (addr \<Rightarrow> 'u world \<Rightarrow> 'u world) \<Rightarrow> addr \<Rightarrow> 'u world \<Rightarrow> 'u world" where
  "walk_extensions 0 body ext w = (if ext = 0 then w else raise_fault WalkBudget w)"
| "walk_extensions (Suc n) body ext w =
     (if ext = 0 then w
      else (let w' = body ext w in walk_extensions n body (load_ptr (mem w') (ext + 16)) w'))"

section \<open>Defaults\<close>

definition pb_field_set_to_default ::
  "'u env \<Rightarrow> (pb_field list \<Rightarrow> addr \<Rightarrow> 'u world \<Rightarrow> 'u world) \<Rightarrow> (pb_field_iter \<Rightarrow> 'u world \<Rightarrow> 'u world)
    \<Rightarrow> pb_field_iter \<Rightarrow> 'u world \<Rightarrow> 'u world" where
  "pb_field_set_to_default E message self it w =
     (let f = cur it; t = f_type f in
      if PB_LTYPE t = PB_LTYPE_EXTENSION then
        walk_extensions (walk_limit E)
          (\<lambda>ext w. let w1 = put_bool (ext + 24) False w in self (iter_from_extension E (mem w1) ext) w1)
          (load_ptr (mem w) (pData it)) w
      else if PB_ATYPE t = PB_ATYPE_STATIC then
        (case (if PB_HTYPE t = PB_HTYPE_OPTIONAL \<and> pSize it \<noteq> pData it
               then (True, put_bool (pSize it) False w)
               else if PB_HTYPE t = PB_HTYPE_REPEATED \<or> PB_HTYPE t = PB_HTYPE_ONEOF
               then (False, put32 (pSize it) 0 w)
               else (True, w))
         of (init_data, w1) \<Rightarrow>
           if \<not> init_data then w1
           else if PB_LTYPE t = PB_LTYPE_SUBMESSAGE then
             (case f_ptr f of
                PtrFields fs \<Rightarrow> message fs (pData it) w1
              | PtrNull \<Rightarrow> raise_fault NullDeref w1
              | PtrValue _ \<Rightarrow> raise_fault BadDescriptor w1)
           else
             (case f_ptr f of
                PtrNull \<Rightarrow> memset0 (pData it) (unat (data_size f)) w1
              | PtrValue bs \<Rightarrow>
                  if unat (data_size f) \<le> length bs
                  then put_bytes_at (pData it) (take (unat (data_size f)) bs) w1
                  else raise_fault BufferOverrun w1
              | PtrFields _ \<Rightarrow> raise_fault BadDescriptor w1))
      else if PB_ATYPE t = PB_ATYPE_POINTER then
        let w1 = put_ptr (pData it) 0 w in
        if PB_HTYPE t = PB_HTYPE_REPEATED \<or> PB_HTYPE t = PB_HTYPE_ONEOF then put32 (pSize it) 0 w1 else w1
      else w)"

text \<open>A loop over the fields whose body cannot fail.\<close>

definition for_fields :: "(pb_field_iter \<Rightarrow> 'w \<Rightarrow> 'w) \<Rightarrow> pb_field list \<Rightarrow> addr \<Rightarrow> 'w \<Rightarrow> 'w" where
  "for_fields body fs dest w =
     (case pb_field_iter_begin fs dest of (nonempty, it) \<Rightarrow>
        if nonempty then snd (iter_loop (\<lambda>it w. (True, body it w)) it w) else w)"

primrec field_to_default :: "nat \<Rightarrow> 'u env \<Rightarrow> pb_field_iter \<Rightarrow> 'u world \<Rightarrow> 'u world" where
  "field_to_default 0 E it w = raise_fault RecursionBudget w"
| "field_to_default (Suc d) E it w =
     pb_field_set_to_default E (for_fields (field_to_default d E)) (field_to_default d E) it w"

definition pb_message_set_to_defaults ::
  "nat \<Rightarrow> 'u env \<Rightarrow> pb_field list \<Rightarrow> addr \<Rightarrow> 'u world \<Rightarrow> 'u world" where
  "pb_message_set_to_defaults d E = for_fields (field_to_default d E)"

section \<open>Releasing\<close>

text \<open>The loop \<open>while (count--) { pb_release(fields, pItem); pItem += data_size; }\<close>.\<close>

primrec release_items :: "nat \<Rightarrow> (addr \<Rightarrow> 'u world \<Rightarrow> 'u world) \<Rightarrow> addr \<Rightarrow> u64 \<Rightarrow> 'u world \<Rightarrow> 'u world" where
  "release_items 0 body p step w = w"
| "release_items (Suc n) body p step w = release_items n body (p + step) step (body p w)"

text \<open>The loop \<open>while (count--) { pb_free(*pItem); *pItem++ = NULL; }\<close>.\<close>

primrec free_entries :: "nat \<Rightarrow> addr \<Rightarrow> 'u world \<Rightarrow> 'u world" where
  "free_entries 0 p w = w"
| "free_entries (Suc n) p w = free_entries n (p + 8) (put_ptr p 0 (pb_free (load_ptr (mem w) p) w))"

definition release_submessages ::
  "(pb_field list \<Rightarrow> addr \<Rightarrow> 'u world \<Rightarrow> 'u world) \<Rightarrow> pb_field_iter \<Rightarrow> 'u world \<Rightarrow> 'u world" where
  "release_submessages message it w =
     (let f = cur it; t = f_type f;
          pItem = (if PB_ATYPE t = PB_ATYPE_POINTER then load_ptr (mem w) (pData it) else pData it);
          count0 = (if PB_HTYPE t = PB_HTYPE_REPEATED then
                      if PB_ATYPE t = PB_ATYPE_STATIC \<and> pSize it = pData it then array_size f
                      else load32 (mem w) (pSize it)
                    else 1);
          count = (if PB_HTYPE t = PB_HTYPE_REPEATED \<and> PB_ATYPE t = PB_ATYPE_STATIC \<and> count0 > array_size f
                   then array_size f else count0)
      in if pItem = 0 then w
         else release_items (unat count)
           (\<lambda>p w. case f_ptr f of
                    PtrFields fs \<Rightarrow> message fs p w
                  | PtrNull \<Rightarrow> raise_fault NullDeref w
                  | PtrValue _ \<Rightarrow> raise_fault BadDescriptor w)
           pItem (ucast (data_size f)) w)"

definition release_pointer :: "pb_field_iter \<Rightarrow> 'u world \<Rightarrow> 'u world" where
  "release_pointer it w =
     (let t = f_type (cur it);
          w1 = (if PB_HTYPE t = PB_HTYPE_REPEATED
                   \<and> (PB_LTYPE t = PB_LTYPE_STRING \<or> PB_LTYPE t = PB_LTYPE_BYTES)
                then
                  let pItem = load_ptr (mem w) (pData it); count = load32 (mem w) (pSize it) in
                  if pItem = 0 \<and> count \<noteq> 0 then raise_fault NullDeref w
                  else free_entries (unat count) pItem w
                else w);
          w2 = (if PB_HTYPE t = PB_HTYPE_REPEATED then put32 (pSize it) 0 w1 else w1)
      in put_ptr (pData it) 0 (pb_free (load_ptr (mem w2) (pData it)) w2))"

definition pb_release_single_field ::
  "'u env \<Rightarrow> (pb_field list \<Rightarrow> addr \<Rightarrow> 'u world \<Rightarrow> 'u world) \<Rightarrow> (pb_field_iter \<Rightarrow> 'u world \<Rightarrow> 'u world)
    \<Rightarrow> pb_field_iter \<Rightarrow> 'u world \<Rightarrow> 'u world" where
  "pb_release_single_field E message self it w =
     (let f = cur it; t = f_type f in
      if PB_HTYPE t = PB_HTYPE_ONEOF \<and> load32 (mem w) (pSize it) \<noteq> f_tag f then w
      else
        let w1 =
          (if PB_LTYPE t = PB_LTYPE_EXTENSION then
             walk_extensions (walk_limit E) (\<lambda>ext w. self (iter_from_extension E (mem w) ext) w)
               (load_ptr (mem w) (pData it)) w
           else if PB_LTYPE t = PB_LTYPE_SUBMESSAGE \<and> PB_ATYPE t \<noteq> PB_ATYPE_CALLBACK
           then release_submessages message it w
           else w)
        in if PB_ATYPE t = PB_ATYPE_POINTER then release_pointer it w1 else w1)"

text \<open>\<open>pb_release\<close> ignores a \<open>NULL\<close> message.\<close>

definition release_message :: "(pb_field_iter \<Rightarrow> 'u world \<Rightarrow> 'u world) \<Rightarrow> pb_field list \<Rightarrow> addr \<Rightarrow> 'u world \<Rightarrow> 'u world" where
  "release_message field fs dest w = (if dest = 0 then w else for_fields field fs dest w)"

primrec release_field :: "nat \<Rightarrow> 'u env \<Rightarrow> pb_field_iter \<Rightarrow> 'u world \<Rightarrow> 'u world" where
  "release_field 0 E it w = raise_fault RecursionBudget w"
| "release_field (Suc d) E it w =
     pb_release_single_field E (release_message (release_field d E)) (release_field d E) it w"

definition pb_release :: "nat \<Rightarrow> 'u env \<Rightarrow> pb_field list \<Rightarrow> addr \<Rightarrow> 'u world \<Rightarrow> 'u world" where
  "pb_release d E = release_message (release_field d E)"

end
