(* ===== verification/PbIStream.thy ===== *)
theory PbIStream
  imports PbStreams
begin

text \<open>
  The \<open>pb_istream_t\<close> implementation of \<open>pb_decode.c\<close>, and the contract \<open>parses\<close> of its operations on
  buffer streams: an operation is a parser of the bytes left in the stream's window.

  A C function that returns \<open>true\<close> and writes its result through a pointer returns \<open>Some\<close> of the
  result here (\<open>Some ()\<close> when there is none), and \<open>None\<close> when it returns \<open>false\<close>.
\<close>

type_synonym ('u, 'a) dec = "'u ist \<Rightarrow> 'a option \<times> 'u ist"

definition fail :: "string \<Rightarrow> ('u, 'a) dec" where
  "fail msg st = (None, ierror msg st)"

definition crash :: "fault \<Rightarrow> ('u, 'a) dec" where
  "crash f st = (None, ifault f st)"

definition yield :: "'a \<Rightarrow> 's \<Rightarrow> 'a option \<times> 's" where
  "yield v st = (Some v, st)"

section \<open>Operations\<close>

text \<open>
  Where the bytes go: nowhere (\<open>NULL\<close>), to an array of the caller's frame, which is the result, or
  to memory.
\<close>

definition deliver :: "dst \<Rightarrow> u8 list \<Rightarrow> 'u world \<Rightarrow> u8 list \<times> 'u world" where
  "deliver d bs w =
     (case d of
        DstNull \<Rightarrow> ([], w)
      | DstLocal \<Rightarrow> (bs, w)
      | DstMem a \<Rightarrow> ([], w\<lparr>mem := store_bytes (mem w) a bs\<rparr>))"

definition buf_read :: "dst \<Rightarrow> size_t \<Rightarrow> ('u, u8 list) dec" where
  "buf_read d count st = (case st of (s, w) \<Rightarrow>
     let off = unat (i_state s); s1 = s\<lparr>i_state := i_state s + count\<rparr> in
     if d = DstNull then (Some [], s1, w)
     else if off + unat count \<le> length (i_buf s)
     then (case deliver d (take (unat count) (drop off (i_buf s))) w of (bs, w') \<Rightarrow> (Some bs, s1, w'))
     else crash BufferOverrun (s1, w))"

text \<open>
  The call \<open>stream->callback(stream, buf, count)\<close>. A user callback hands over the bytes it has
  stored into \<open>buf\<close>; storing more than \<open>count\<close> is an overrun, and reporting success with fewer
  breaks its contract.
\<close>

fun call_icallback :: "'u env \<Rightarrow> icallback \<Rightarrow> dst \<Rightarrow> size_t \<Rightarrow> ('u, u8 list) dec" where
  "call_icallback E IBuf d count (s, w) = buf_read d count (s, w)"
| "call_icallback E (IUser k) d count (s, w) =
     (case istream_fn E k (i_state s) count w of (ok, bs, st', w1) \<Rightarrow>
        let s1 = s\<lparr>i_state := st'\<rparr> in
        if length bs > unat count then crash BufferOverrun (s1, w1)
        else if ok \<and> length bs < unat count then crash BadCall (s1, w1)
        else (case deliver d bs w1 of (r, w2) \<Rightarrow> (if ok then Some r else None, s1, w2)))"

text \<open>The part of \<open>pb_read\<close> after the special case for skipping.\<close>

definition read_some :: "'u env \<Rightarrow> dst \<Rightarrow> size_t \<Rightarrow> ('u, u8 list) dec" where
  "read_some E d count st = (case st of (s, w) \<Rightarrow>
     if bytes_left s < count then fail ''end-of-stream'' (s, w)
     else (case call_icallback E (i_callback s) d count (s, w) of
             (None, st') \<Rightarrow> fail ''io error'' st'
           | (Some bs, s', w') \<Rightarrow> (Some bs, s'\<lparr>bytes_left := bytes_left s' - count\<rparr>, w')))"

text \<open>
  Skipping on a user stream reads into \<open>tmp\<close>, 16 bytes at a time; the last \<open>pb_read\<close> is into
  \<open>tmp\<close> too, so it never skips again.
\<close>

function skip_chunks :: "'u env \<Rightarrow> size_t \<Rightarrow> ('u, u8 list) dec" where
  "skip_chunks E count st =
     (if count > 16 then
        (case read_some E DstLocal 16 st of
           (None, st') \<Rightarrow> (None, st')
         | (Some _, st') \<Rightarrow> skip_chunks E (count - 16) st')
      else if count = 0 then (Some [], st)
      else (case read_some E DstLocal count st of (r, st') \<Rightarrow> (map_option (\<lambda>_. []) r, st')))"
  by pat_completeness auto
termination
proof (relation "measure (\<lambda>(E, count, st). unat count)", goal_cases)
  case (2 E count st)
  then have "unat (count - 16) = unat count - 16"
    by (simp add: unat_sub word_le_nat_alt word_less_nat_alt)
  with 2 show ?case
    by (simp add: word_less_nat_alt)
qed simp

declare skip_chunks.simps [simp del]

definition pb_read :: "'u env \<Rightarrow> dst \<Rightarrow> size_t \<Rightarrow> ('u, u8 list) dec" where
  "pb_read E d count st =
     (if count = 0 then (Some [], st)
      else if d = DstNull \<and> i_callback (fst st) \<noteq> IBuf then skip_chunks E count st
      else read_some E d count st)"

definition pb_readbyte :: "'u env \<Rightarrow> ('u, u8) dec" where
  "pb_readbyte E st = (case st of (s, w) \<Rightarrow>
     if bytes_left s = 0 then fail ''end-of-stream'' (s, w)
     else (case call_icallback E (i_callback s) DstLocal 1 (s, w) of
             (None, st') \<Rightarrow> fail ''io error'' st'
           | (Some bs, s', w') \<Rightarrow> (Some (hd bs), s'\<lparr>bytes_left := bytes_left s' - 1\<rparr>, w')))"

definition pb_istream_from_buffer :: "u8 list \<Rightarrow> size_t \<Rightarrow> pb_istream" where
  "pb_istream_from_buffer buf bufsize =
     \<lparr>i_callback = IBuf, i_buf = buf, i_state = 0, bytes_left = bufsize, i_errmsg = None\<rparr>"

section \<open>Progress\<close>

text \<open>A successful read takes what it reads off \<open>bytes_left\<close>, whatever the callback does.\<close>

lemma call_icallback_bytes_left: "call_icallback E cb d count (s, w) = (r, s', w') \<Longrightarrow> bytes_left s' = bytes_left s"
  by (cases cb)
    (auto simp: buf_read_def crash_def ifault_def Let_def split: if_splits prod.splits)

lemma read_some_bytes_left:
  assumes "read_some E d count (s, w) = (Some bs, s', w')"
  shows "count \<le> bytes_left s" and "bytes_left s' = bytes_left s - count"
  using assms call_icallback_bytes_left [of E "i_callback s" d count s w]
  by (auto simp: read_some_def fail_def split: if_splits prod.splits option.splits)

lemma pb_readbyte_bytes_left:
  assumes "pb_readbyte E (s, w) = (Some b, s', w')"
  shows "bytes_left s \<noteq> 0" and "bytes_left s' = bytes_left s - 1"
  using assms call_icallback_bytes_left [of E "i_callback s" DstLocal 1 s w]
  by (auto simp: pb_readbyte_def fail_def split: if_splits prod.splits option.splits)

lemma pb_readbyte_less: "pb_readbyte E st = (Some b, st') \<Longrightarrow> unat (bytes_left (fst st')) < unat (bytes_left (fst st))"
  using pb_readbyte_bytes_left [of E "fst st" "snd st" b "fst st'" "snd st'"]
  by (simp add: unat_sub word_le_nat_alt unat_gt_0 measure_unat)

section \<open>Parsers\<close>

text \<open>
  What an operation does on a buffer stream, said without the stream: from the world and the bytes
  left, either nothing (the operation fails) or a result, the number of bytes taken, and the world.
\<close>

type_synonym ('w, 'a) parser = "'w \<Rightarrow> u8 list \<Rightarrow> ('a \<times> nat \<times> 'w) option"

definition p_yield :: "'a \<Rightarrow> ('w, 'a) parser" where
  "p_yield v w bs = Some (v, 0, w)"

definition p_fail :: "('w, 'a) parser" where
  "p_fail w bs = None"

definition p_bind :: "('w, 'a) parser \<Rightarrow> ('a \<Rightarrow> ('w, 'b) parser) \<Rightarrow> ('w, 'b) parser" where
  "p_bind p q w bs =
     (case p w bs of
        None \<Rightarrow> None
      | Some (v, n, w1) \<Rightarrow>
          (case q v w1 (drop n bs) of None \<Rightarrow> None | Some (u, m, w2) \<Rightarrow> Some (u, n + m, w2)))"

definition parses_on ::
  "('s \<Rightarrow> bool) \<Rightarrow> ('s \<Rightarrow> u8 list) \<Rightarrow> (nat \<Rightarrow> 's \<Rightarrow> 's) \<Rightarrow> ('s \<Rightarrow> 's \<Rightarrow> bool)
    \<Rightarrow> ('s \<times> 'w \<Rightarrow> 'a option \<times> 's \<times> 'w) \<Rightarrow> ('w, 'a) parser \<Rightarrow> bool" where
  "parses_on valid rest adv stuck f p \<longleftrightarrow>
     (\<forall>s w. valid s \<longrightarrow>
       (\<forall>v n w'. p w (rest s) = Some (v, n, w') \<longrightarrow>
          n \<le> length (rest s) \<and> f (s, w) = (Some v, adv n s, w')) \<and>
       (p w (rest s) = None \<longrightarrow> (\<exists>s' w'. f (s, w) = (None, s', w') \<and> stuck s s')))"

locale source =
  fixes valid :: "'s \<Rightarrow> bool"
    and rest :: "'s \<Rightarrow> u8 list"
    and adv :: "nat \<Rightarrow> 's \<Rightarrow> 's"
    and stuck :: "'s \<Rightarrow> 's \<Rightarrow> bool"
  assumes valid_adv: "valid s \<Longrightarrow> n \<le> length (rest s) \<Longrightarrow> valid (adv n s)"
    and rest_adv: "valid s \<Longrightarrow> n \<le> length (rest s) \<Longrightarrow> rest (adv n s) = drop n (rest s)"
    and adv_0: "adv 0 s = s"
    and adv_adv: "valid s \<Longrightarrow> m + n \<le> length (rest s) \<Longrightarrow> adv n (adv m s) = adv (m + n) s"
    and stuck_adv: "valid s \<Longrightarrow> n \<le> length (rest s) \<Longrightarrow> stuck (adv n s) s' \<Longrightarrow> stuck s s'"
begin

abbreviation op_parses where
  "op_parses \<equiv> parses_on valid rest adv stuck"

lemma parsesI:
  assumes "\<And>s w v n w'. valid s \<Longrightarrow> p w (rest s) = Some (v, n, w') \<Longrightarrow>
      n \<le> length (rest s) \<and> f (s, w) = (Some v, adv n s, w')"
    and "\<And>s w. valid s \<Longrightarrow> p w (rest s) = None \<Longrightarrow> \<exists>s' w'. f (s, w) = (None, s', w') \<and> stuck s s'"
  shows "op_parses f p"
  using assms by (simp add: parses_on_def)

lemma parses_SomeD:
  assumes "op_parses f p" and "valid s" and "p w (rest s) = Some (v, n, w')"
  shows "n \<le> length (rest s) \<and> f (s, w) = (Some v, adv n s, w')"
  using assms by (simp add: parses_on_def)

lemma parses_NoneD:
  assumes "op_parses f p" and "valid s" and "p w (rest s) = None"
  shows "\<exists>s' w'. f (s, w) = (None, s', w') \<and> stuck s s'"
  using assms by (simp add: parses_on_def)

lemma parses_cong:
  assumes "\<And>s w. valid s \<Longrightarrow> g (s, w) = f (s, w)" and "op_parses f p"
  shows "op_parses g p"
  using assms by (simp add: parses_on_def)

lemma parses_yield: "op_parses (yield v) (p_yield v)"
  by (simp add: parses_on_def yield_def p_yield_def adv_0)

text \<open>A result computed from the world and stored back into it takes no input.\<close>

lemma parses_world: "op_parses (\<lambda>(s, w). (Some (v w), s, g w)) (\<lambda>w bs. Some (v w, 0, g w))"
  by (simp add: parses_on_def adv_0)

lemma parses_bindo:
  assumes f: "op_parses f p" and g: "\<And>v. op_parses (g v) (q v)"
  shows "op_parses (bindo f g) (p_bind p q)"
proof (rule parsesI)
  fix s w v n w'
  assume s: "valid s" and "p_bind p q w (rest s) = Some (v, n, w')"
  then obtain u k w1 m where p: "p w (rest s) = Some (u, k, w1)"
    and q: "q u w1 (drop k (rest s)) = Some (v, m, w')" and n: "n = k + m"
    by (auto simp: p_bind_def split: option.splits)
  have k: "k \<le> length (rest s)" and run: "f (s, w) = (Some u, adv k s, w1)"
    using parses_SomeD [OF f s p] by auto
  have "m \<le> length (rest s) - k" and "g u (adv k s, w1) = (Some v, adv m (adv k s), w')"
    using parses_SomeD [OF g valid_adv [OF s k], of u w1 v m w'] rest_adv [OF s k] q by auto
  then show "n \<le> length (rest s) \<and> bindo f g (s, w) = (Some v, adv n s, w')"
    using k n run adv_adv [OF s, of k m] by (simp add: bindo_def)
next
  fix s w
  assume s: "valid s" and none: "p_bind p q w (rest s) = None"
  show "\<exists>s' w'. bindo f g (s, w) = (None, s', w') \<and> stuck s s'"
  proof (cases "p w (rest s)")
    case None
    then show ?thesis
      using parses_NoneD [OF f s None] by (auto simp: bindo_def)
  next
    case (Some r)
    then obtain u k w1 where p: "p w (rest s) = Some (u, k, w1)"
      by (cases r) auto
    then have q: "q u w1 (drop k (rest s)) = None"
      using none by (simp add: p_bind_def split: option.splits prod.splits)
    have k: "k \<le> length (rest s)" and run: "f (s, w) = (Some u, adv k s, w1)"
      using parses_SomeD [OF f s p] by auto
    obtain s' w' where "g u (adv k s, w1) = (None, s', w')" and "stuck (adv k s) s'"
      using parses_NoneD [OF g valid_adv [OF s k], of u w1] rest_adv [OF s k] q by auto
    then show ?thesis
      using run stuck_adv [OF s k] by (auto simp: bindo_def)
  qed
qed

lemma parses_if:
  "op_parses f p \<Longrightarrow> op_parses g q \<Longrightarrow> op_parses (if b then f else g) (if b then p else q)"
  by simp

end

section \<open>Buffer streams as a source\<close>

text \<open>
  A buffer stream's window is inside its buffer, whose size is below \<open>2 ^ 63\<close>. A failed operation
  leaves the stream in a window that ends no later.
\<close>

definition istream_inv :: "pb_istream \<Rightarrow> bool" where
  "istream_inv s \<longleftrightarrow> i_callback s = IBuf \<and> length (i_buf s) < 2 ^ 63 \<and>
     unat (i_state s) + unat (bytes_left s) \<le> length (i_buf s)"

definition input :: "pb_istream \<Rightarrow> u8 list" where
  "input s = take (unat (bytes_left s)) (drop (unat (i_state s)) (i_buf s))"

definition adv :: "nat \<Rightarrow> pb_istream \<Rightarrow> pb_istream" where
  "adv n s = s\<lparr>i_state := i_state s + of_nat n, bytes_left := bytes_left s - of_nat n\<rparr>"

definition within :: "pb_istream \<Rightarrow> pb_istream \<Rightarrow> bool" where
  "within s s' \<longleftrightarrow> istream_inv s' \<and> i_buf s' = i_buf s \<and> unat (i_state s) \<le> unat (i_state s') \<and>
     unat (i_state s') + unat (bytes_left s') \<le> unat (i_state s) + unat (bytes_left s)"

lemma length_input: "istream_inv s \<Longrightarrow> length (input s) = unat (bytes_left s)"
  by (auto simp: istream_inv_def input_def)

lemma adv_sel [simp]: "i_buf (adv n s) = i_buf s" "i_errmsg (adv n s) = i_errmsg s" "i_callback (adv n s) = i_callback s"
  by (simp_all add: adv_def)

lemma adv_pos:
  assumes "istream_inv s" and "n \<le> length (input s)"
  shows "unat (i_state (adv n s)) = unat (i_state s) + n"
    and "unat (bytes_left (adv n s)) = unat (bytes_left s) - n"
proof -
  have n: "n \<le> unat (bytes_left s)"
    using assms by (simp add: length_input)
  then have small: "n < 2 ^ 64"
    using unat_bound [of "bytes_left s"] by simp
  show "unat (i_state (adv n s)) = unat (i_state s) + n"
    using assms(1) n by (simp add: adv_def istream_inv_def unat_add_of_nat)
  have "unat (of_nat n :: u64) = n"
    using small by (simp add: unsigned_of_nat take_bit_nat_eq_self)
  with n show "unat (bytes_left (adv n s)) = unat (bytes_left s) - n"
    by (simp add: adv_def unat_sub word_le_nat_alt)
qed

lemma within_refl: "istream_inv s \<Longrightarrow> within s s"
  by (simp add: within_def)

lemma within_trans: "within s s' \<Longrightarrow> within s' s'' \<Longrightarrow> within s s''"
  by (auto simp: within_def)

lemma within_adv: "istream_inv s \<Longrightarrow> n \<le> length (input s) \<Longrightarrow> within s (adv n s)"
  using adv_pos [of s n] by (auto simp: within_def istream_inv_def length_input)

lemma within_errmsg: "within s s' \<Longrightarrow> within s (s'\<lparr>i_errmsg := e\<rparr>)"
  by (auto simp: within_def istream_inv_def)

interpretation istream: source istream_inv input adv within
proof (unfold_locales, goal_cases)
  case (1 s n)
  then show ?case
    using within_adv [of s n] by (simp add: within_def)
next
  case (2 s n)
  then show ?case
    using adv_pos [of s n] by (simp add: input_def drop_take add.commute)
next
  case (3 s)
  then show ?case by (simp add: adv_def)
next
  case (4 s m n)
  then show ?case by (simp add: adv_def algebra_simps)
next
  case (5 s n s')
  then show ?case
    using within_trans within_adv by blast
qed

abbreviation parses :: "('u, 'a) dec \<Rightarrow> ('u world, 'a) parser \<Rightarrow> bool" where
  "parses \<equiv> parses_on istream_inv input adv within"

lemma parses_fail: "parses (fail msg) p_fail"
  by (simp add: parses_on_def fail_def p_fail_def ierror_def within_errmsg within_refl)

section \<open>Reading\<close>

definition p_bytes :: "nat \<Rightarrow> ('w, u8 list) parser" where
  "p_bytes n w bs = (if n \<le> length bs then Some (take n bs, n, w) else None)"

definition p_skip :: "nat \<Rightarrow> ('w, u8 list) parser" where
  "p_skip n w bs = (if n \<le> length bs then Some ([], n, w) else None)"

definition p_store :: "addr \<Rightarrow> nat \<Rightarrow> ('u world, u8 list) parser" where
  "p_store a n w bs =
     (if n \<le> length bs then Some ([], n, w\<lparr>mem := store_bytes (mem w) a (take n bs)\<rparr>) else None)"

definition p_read :: "dst \<Rightarrow> nat \<Rightarrow> ('u world, u8 list) parser" where
  "p_read d n w bs =
     (if n \<le> length bs then case deliver d (take n bs) w of (r, w') \<Rightarrow> Some (r, n, w') else None)"

lemma pb_read_parses: "parses (pb_read E d count) (p_read d (unat count))"
proof (rule istream.parsesI)
  fix s and w :: "'a world" and v n w'
  assume s: "istream_inv s" and "p_read d (unat count) w (input s) = Some (v, n, w')"
  then have le: "unat count \<le> length (input s)" and n: "n = unat count"
    and d: "deliver d (take (unat count) (input s)) w = (v, w')"
    by (auto simp: p_read_def split: if_splits prod.splits)
  have "take (unat count) (input s) = take (unat count) (drop (unat (i_state s)) (i_buf s))"
    using le by (simp add: input_def length_input [OF s] min_absorb1)
  then show "n \<le> length (input s) \<and> pb_read E d count (s, w) = (Some v, adv n s, w')"
    using s le n d
    by (auto simp: pb_read_def read_some_def istream_inv_def buf_read_def adv_def Let_def
        length_input word_less_nat_alt deliver_def split: dst.splits)
next
  fix s and w :: "'a world"
  assume s: "istream_inv s" and "p_read d (unat count) w (input s) = None"
  then have "bytes_left s < count" "count \<noteq> 0"
    by (auto simp: p_read_def length_input word_less_nat_alt split: if_splits prod.splits)
  then show "\<exists>s' w'. pb_read E d count (s, w) = (None, s', w') \<and> within s s'"
    using s
    by (simp add: pb_read_def read_some_def fail_def ierror_def istream_inv_def within_errmsg within_refl)
qed

end
