(* ===== verification/PbWireIn.thy ===== *)
theory PbWireIn
  imports PbIStream
begin

text \<open>
  The helper functions of \<open>pb_decode.c\<close> that read one wire-format element: varints, field keys,
  skipping, raw values, substreams and fixed-width integers, each with the parser it is.
\<close>

section \<open>32-bit varints\<close>

text \<open>
  The loop of \<open>pb_decode_varint32_eof\<close>. \<open>bitpos\<close> is an \<open>uint_fast8_t\<close>, 8 bits wide on the target,
  and wraps around. The loop returns \<open>result\<close>, \<open>bitpos\<close> and the last byte.
\<close>

definition varint32_step :: "u8 \<Rightarrow> u32 \<Rightarrow> u8 \<Rightarrow> u32 option" where
  "varint32_step bitpos result byte =
     (if bitpos \<ge> 32 then
        let sign_extension = (if bitpos < 63 then 0xFF else 0x01) in
        if byte AND 0x7F \<noteq> 0 \<and> (drop_bit 31 result = 0 \<or> byte \<noteq> sign_extension) then None
        else Some result
      else Some (result OR push_bit (unat bitpos) (ucast (byte AND 0x7F))))"

function varint32_loop :: "'u env \<Rightarrow> u8 \<Rightarrow> u32 \<Rightarrow> ('u, u32 \<times> u8 \<times> u8) dec" where
  "varint32_loop E bitpos result st =
     (case pb_readbyte E st of
        (None, st') \<Rightarrow> (None, st')
      | (Some byte, st') \<Rightarrow>
          (case varint32_step bitpos result byte of
             None \<Rightarrow> fail ''varint overflow'' st'
           | Some result' \<Rightarrow>
               if byte AND 0x80 \<noteq> 0 then varint32_loop E (bitpos + 7) result' st'
               else (Some (result', bitpos + 7, byte), st')))"
  by pat_completeness auto
termination
  by (relation "measure (\<lambda>(E, bitpos, result, st). unat (bytes_left (fst st)))")
    (auto dest: pb_readbyte_less [OF sym])

declare varint32_loop.simps [simp del]

text \<open>
  The second component of the result says whether \<open>*eof\<close> is set. A missing first byte is the end of
  the message when nothing is left.
\<close>

definition pb_decode_varint32_eof :: "'u env \<Rightarrow> 'u ist \<Rightarrow> (u32 option \<times> bool) \<times> 'u ist" where
  "pb_decode_varint32_eof E st =
     (case pb_readbyte E st of
        (None, st') \<Rightarrow> ((None, bytes_left (fst st') = 0), st')
      | (Some byte, st') \<Rightarrow>
          if byte AND 0x80 = 0 then ((Some (ucast byte), False), st')
          else
            (case varint32_loop E 7 (ucast (byte AND 0x7F)) st' of
               (None, st'') \<Rightarrow> ((None, False), st'')
             | (Some (result, bitpos, byte), st'') \<Rightarrow>
                 if bitpos = 35 \<and> byte AND 0x70 \<noteq> 0
                 then (case fail ''varint overflow'' st'' of (r, st3) \<Rightarrow> ((r, False), st3))
                 else ((Some result, False), st'')))"

definition pb_decode_varint32 :: "'u env \<Rightarrow> ('u, u32) dec" where
  "pb_decode_varint32 E st = (case pb_decode_varint32_eof E st of ((r, eof), st') \<Rightarrow> (r, st'))"

section \<open>64-bit varints\<close>

function varint_go :: "'u env \<Rightarrow> u8 \<Rightarrow> u64 \<Rightarrow> ('u, u64) dec" where
  "varint_go E bitpos result st =
     (if bitpos \<ge> 64 then fail ''varint overflow'' st
      else
        (case pb_readbyte E st of
           (None, st') \<Rightarrow> (None, st')
         | (Some byte, st') \<Rightarrow>
             let result' = result OR push_bit (unat bitpos) (ucast (byte AND 0x7F)) in
             if byte AND 0x80 \<noteq> 0 then varint_go E (bitpos + 7) result' st'
             else (Some result', st')))"
  by pat_completeness auto
termination
  by (relation "measure (\<lambda>(E, bitpos, result, st). unat (bytes_left (fst st)))")
    (auto dest: pb_readbyte_less [OF sym])

declare varint_go.simps [simp del]

definition pb_decode_varint :: "'u env \<Rightarrow> ('u, u64) dec" where
  "pb_decode_varint E = varint_go E 0 0"

text \<open>\<open>pb_int64_t\<close> is a 64-bit word read as two's complement.\<close>

definition unzigzag :: "u64 \<Rightarrow> u64" where
  "unzigzag value = (if value AND 1 \<noteq> 0 then NOT (drop_bit 1 value) else drop_bit 1 value)"

definition pb_decode_svarint :: "'u env \<Rightarrow> ('u, u64) dec" where
  "pb_decode_svarint E = bindo (pb_decode_varint E) (\<lambda>value. yield (unzigzag value))"

section \<open>Skipping\<close>

lemma pb_read_one_less:
  assumes "pb_read E DstLocal 1 st = (Some bs, st')"
  shows "unat (bytes_left (fst st')) < unat (bytes_left (fst st))"
proof -
  obtain s w s' w' where st: "st = (s, w)" "st' = (s', w')" by (cases st, cases st')
  have "read_some E DstLocal 1 (s, w) = (Some bs, s', w')"
    using assms by (simp add: pb_read_def st)
  from read_some_bytes_left [OF this] show ?thesis
    by (simp add: st unat_sub word_le_nat_alt)
qed

function pb_skip_varint :: "'u env \<Rightarrow> ('u, unit) dec" where
  "pb_skip_varint E st =
     (case pb_read E DstLocal 1 st of
        (None, st') \<Rightarrow> (None, st')
      | (Some bs, st') \<Rightarrow> if hd bs AND 0x80 \<noteq> 0 then pb_skip_varint E st' else (Some (), st'))"
  by pat_completeness auto
termination
  by (relation "measure (\<lambda>(E, st). unat (bytes_left (fst st)))") (auto dest: pb_read_one_less [OF sym])

declare pb_skip_varint.simps [simp del]

definition skip_bytes :: "'u env \<Rightarrow> size_t \<Rightarrow> ('u, unit) dec" where
  "skip_bytes E n = bindo (pb_read E DstNull n) (\<lambda>_. yield ())"

definition pb_skip_string :: "'u env \<Rightarrow> ('u, unit) dec" where
  "pb_skip_string E = bindo (pb_decode_varint32 E) (\<lambda>n. skip_bytes E (ucast n))"

definition pb_skip_field :: "'u env \<Rightarrow> pb_wire_type_t \<Rightarrow> ('u, unit) dec" where
  "pb_skip_field E wire_type =
     (if wire_type = PB_WT_VARINT then pb_skip_varint E
      else if wire_type = PB_WT_64BIT then skip_bytes E 8
      else if wire_type = PB_WT_STRING then pb_skip_string E
      else if wire_type = PB_WT_32BIT then skip_bytes E 4
      else fail ''invalid wire_type'')"

section \<open>Field keys\<close>

text \<open>The result is \<open>None\<close> with the \<open>eof\<close> flag, or the wire type and the tag.\<close>

definition pb_decode_tag :: "'u env \<Rightarrow> 'u ist \<Rightarrow> ((pb_wire_type_t \<times> u32) option \<times> bool) \<times> 'u ist" where
  "pb_decode_tag E st =
     (case pb_decode_varint32_eof E st of
        ((None, eof), st') \<Rightarrow> ((None, eof), st')
      | ((Some temp, eof), st') \<Rightarrow>
          if temp = 0 then ((None, True), st')
          else ((Some (temp AND 7, drop_bit 3 temp), eof), st'))"

section \<open>Raw values\<close>

text \<open>
  \<open>read_raw_value\<close> returns the bytes it has put into \<open>buf\<close>; \<open>n\<close> is the size of \<open>buf\<close> and, in
  the loop for varints, the room left in it.
\<close>

primrec raw_varint :: "'u env \<Rightarrow> nat \<Rightarrow> ('u, u8 list) dec" where
  "raw_varint E 0 = (\<lambda>st. (None, st))"
| "raw_varint E (Suc n) =
     bindo (pb_read E DstLocal 1) (\<lambda>bs.
       if hd bs AND 0x80 \<noteq> 0 then bindo (raw_varint E n) (\<lambda>cs. yield (hd bs # cs))
       else yield [hd bs])"

definition read_raw_value :: "'u env \<Rightarrow> pb_wire_type_t \<Rightarrow> nat \<Rightarrow> ('u, u8 list) dec" where
  "read_raw_value E wire_type n =
     (if wire_type = PB_WT_VARINT then raw_varint E n
      else if wire_type = PB_WT_64BIT then pb_read E DstLocal 8
      else if wire_type = PB_WT_32BIT then pb_read E DstLocal 4
      else fail ''invalid wire_type'')"

section \<open>Substreams\<close>

definition pb_make_string_substream :: "'u env \<Rightarrow> ('u, pb_istream) dec" where
  "pb_make_string_substream E =
     bindo (pb_decode_varint32 E) (\<lambda>n (s, w).
       if bytes_left s < ucast n then fail ''parent stream too short'' (s, w)
       else (Some (s\<lparr>bytes_left := ucast n\<rparr>), s\<lparr>bytes_left := bytes_left s - ucast n\<rparr>, w))"

definition pb_close_string_substream :: "'u env \<Rightarrow> pb_istream \<Rightarrow> ('u, unit) dec" where
  "pb_close_string_substream E sub st = (case st of (s, w) \<Rightarrow>
     (case (if bytes_left sub \<noteq> 0 then pb_read E DstNull (bytes_left sub) (sub, w) else (Some [], sub, w)) of
        (None, sub', w') \<Rightarrow> (None, s, w')
      | (Some _, sub', w') \<Rightarrow> (Some (), s\<lparr>i_state := i_state sub', i_errmsg := i_errmsg sub'\<rparr>, w')))"

text \<open>
  The shape shared by the decoders of length-delimited parts: open the substream, run \<open>body\<close> on it,
  close it, and return the status of the body.
\<close>

definition in_substream :: "'u env \<Rightarrow> ('u, 'a) dec \<Rightarrow> ('u, 'a) dec" where
  "in_substream E body =
     bindo (pb_make_string_substream E) (\<lambda>sub (s, w).
       case body (sub, w) of (status, sub', w1) \<Rightarrow>
         (case pb_close_string_substream E sub' (s, w1) of
            (None, st) \<Rightarrow> (None, st)
          | (Some _, st) \<Rightarrow> (status, st)))"

section \<open>Fixed-width integers\<close>

definition pb_decode_fixed32 :: "'u env \<Rightarrow> addr \<Rightarrow> ('u, unit) dec" where
  "pb_decode_fixed32 E dest =
     bindo (pb_read E DstLocal 4) (\<lambda>bytes (s, w).
       let v = push_bit 0 (ucast (bytes ! 0)) OR push_bit 8 (ucast (bytes ! 1)) OR
               push_bit 16 (ucast (bytes ! 2)) OR push_bit 24 (ucast (bytes ! 3))
       in (Some (), s, w\<lparr>mem := store32 (mem w) dest v\<rparr>))"

definition pb_decode_fixed64 :: "'u env \<Rightarrow> addr \<Rightarrow> ('u, unit) dec" where
  "pb_decode_fixed64 E dest =
     bindo (pb_read E DstLocal 8) (\<lambda>bytes (s, w).
       let v = push_bit 0 (ucast (bytes ! 0)) OR push_bit 8 (ucast (bytes ! 1)) OR
               push_bit 16 (ucast (bytes ! 2)) OR push_bit 24 (ucast (bytes ! 3)) OR
               push_bit 32 (ucast (bytes ! 4)) OR push_bit 40 (ucast (bytes ! 5)) OR
               push_bit 48 (ucast (bytes ! 6)) OR push_bit 56 (ucast (bytes ! 7))
       in (Some (), s, w\<lparr>mem := store64 (mem w) dest v\<rparr>))"

end
