(* ===== verification/PbDecode.thy ===== *)
theory PbDecode
  imports PbDefaults PbWireIn
begin

text \<open>
  The field and message decoders of \<open>pb_decode.c\<close>. What they call recursively, through submessages,
  is the record \<open>'u rec_calls\<close>; \<open>pb_decode\<close> at depth \<open>Suc d\<close> runs with the calls at depth \<open>d\<close>.
\<close>

record 'u rec_calls =
  call_decode :: "pb_field list \<Rightarrow> addr \<Rightarrow> ('u, unit) dec"
  call_noinit :: "pb_field list \<Rightarrow> addr \<Rightarrow> ('u, unit) dec"
  call_defaults :: "pb_field list \<Rightarrow> addr \<Rightarrow> 'u world \<Rightarrow> 'u world"
  call_release :: "pb_field_iter \<Rightarrow> 'u world \<Rightarrow> 'u world"

text \<open>A statement that only changes the world.\<close>

definition exec :: "('u world \<Rightarrow> 'u world) \<Rightarrow> ('u, unit) dec" where
  "exec g st = (case st of (s, w) \<Rightarrow> (Some (), s, g w))"

definition of_bool_run :: "bool \<times> 'u ist \<Rightarrow> unit option \<times> 'u ist" where
  "of_bool_run r = (case r of (ok, st) \<Rightarrow> (if ok then Some () else None, st))"

section \<open>Element decoders\<close>

definition pb_dec_bool :: "'u env \<Rightarrow> addr \<Rightarrow> ('u, unit) dec" where
  "pb_dec_bool E dest = bindo (pb_decode_varint32 E) (\<lambda>value. exec (put_bool dest (value \<noteq> 0)))"

definition pb_decode_bool :: "'u env \<Rightarrow> addr \<Rightarrow> ('u, unit) dec" where
  "pb_decode_bool E dest = pb_dec_bool E dest"

text \<open>
  The assignment \<open>clamped = *(T*)dest = (T)v\<close> for the type of \<open>data_size\<close> bytes, signed or unsigned:
  the clamped value and the store; \<open>None\<close> for a size that is no integer type.
\<close>

definition assign_signed :: "pb_field \<Rightarrow> addr \<Rightarrow> u64 \<Rightarrow> (u64 \<times> (memory \<Rightarrow> memory)) option" where
  "assign_signed f dest v =
     (if data_size f = 8 then Some (v, \<lambda>m. store64 m dest v)
      else if data_size f = 4 then Some (scast (ucast v :: u32), \<lambda>m. store32 m dest (ucast v))
      else if data_size f = 2 then Some (scast (ucast v :: u16), \<lambda>m. store16 m dest (ucast v))
      else if data_size f = 1 then Some (scast (ucast v :: u8), \<lambda>m. m(dest := ucast v))
      else None)"

definition assign_unsigned :: "pb_field \<Rightarrow> addr \<Rightarrow> u64 \<Rightarrow> (u64 \<times> (memory \<Rightarrow> memory)) option" where
  "assign_unsigned f dest v =
     (if data_size f = 8 then Some (v, \<lambda>m. store64 m dest v)
      else if data_size f = 4 then Some (ucast (ucast v :: u32), \<lambda>m. store32 m dest (ucast v))
      else if data_size f = 2 then Some (ucast (ucast v :: u16), \<lambda>m. store16 m dest (ucast v))
      else if data_size f = 1 then Some (ucast (ucast v :: u8), \<lambda>m. m(dest := ucast v))
      else None)"

definition store_checked :: "(u64 \<times> (memory \<Rightarrow> memory)) option \<Rightarrow> u64 \<Rightarrow> ('u, unit) dec" where
  "store_checked a v =
     (case a of
        None \<Rightarrow> fail ''invalid data_size''
      | Some (clamped, put) \<Rightarrow>
          bindo (exec (on_mem put)) (\<lambda>_. if clamped \<noteq> v then fail ''integer too large'' else yield ()))"

definition pb_dec_varint :: "'u env \<Rightarrow> pb_field \<Rightarrow> addr \<Rightarrow> ('u, unit) dec" where
  "pb_dec_varint E f dest =
     bindo (pb_decode_varint E) (\<lambda>value.
       let svalue = (if data_size f = 8 then value else scast (ucast value :: u32))
       in store_checked (assign_signed f dest svalue) svalue)"

definition pb_dec_uvarint :: "'u env \<Rightarrow> pb_field \<Rightarrow> addr \<Rightarrow> ('u, unit) dec" where
  "pb_dec_uvarint E f dest =
     bindo (pb_decode_varint E) (\<lambda>value. store_checked (assign_unsigned f dest value) value)"

definition pb_dec_svarint :: "'u env \<Rightarrow> pb_field \<Rightarrow> addr \<Rightarrow> ('u, unit) dec" where
  "pb_dec_svarint E f dest =
     bindo (pb_decode_svarint E) (\<lambda>value. store_checked (assign_signed f dest value) value)"

definition pb_dec_fixed32 :: "'u env \<Rightarrow> pb_field \<Rightarrow> addr \<Rightarrow> ('u, unit) dec" where
  "pb_dec_fixed32 E f dest = pb_decode_fixed32 E dest"

definition pb_dec_fixed64 :: "'u env \<Rightarrow> pb_field \<Rightarrow> addr \<Rightarrow> ('u, unit) dec" where
  "pb_dec_fixed64 E f dest = pb_decode_fixed64 E dest"

section \<open>Allocation\<close>

definition allocate_field :: "'u env \<Rightarrow> addr \<Rightarrow> size_t \<Rightarrow> size_t \<Rightarrow> ('u, unit) dec" where
  "allocate_field E pd dsize asize st = (case st of (s, w) \<Rightarrow>
     let check_limit = push_bit 32 1 :: size_t in
     if dsize = 0 \<or> asize = 0 then fail ''invalid size'' (s, w)
     else if (dsize \<ge> check_limit \<or> asize \<ge> check_limit) \<and> (- 1) div asize < dsize
     then fail ''size too large'' (s, w)
     else
       (case pb_realloc E (load_ptr (mem w) pd) (asize * dsize) w of (ptr, w1) \<Rightarrow>
          if ptr = 0 then fail ''realloc failed'' (s, w1)
          else (Some (), s, put_ptr pd ptr w1)))"

section \<open>Bytes and strings\<close>

definition read_into :: "'u env \<Rightarrow> addr \<Rightarrow> size_t \<Rightarrow> ('u, unit) dec" where
  "read_into E a n = bindo (pb_read E (DstMem a) n) (\<lambda>_. yield ())"

text \<open>The address a pointer variable in memory holds, after a successful allocation.\<close>

definition with_ptr :: "addr \<Rightarrow> (addr \<Rightarrow> ('u, 'a) dec) \<Rightarrow> ('u, 'a) dec" where
  "with_ptr a k st = (case st of (s, w) \<Rightarrow> k (load_ptr (mem w) a) (s, w))"

definition pb_dec_bytes :: "'u env \<Rightarrow> pb_field \<Rightarrow> addr \<Rightarrow> ('u, unit) dec" where
  "pb_dec_bytes E f dest =
     bindo (pb_decode_varint32 E) (\<lambda>n (s, w).
       let alloc_size = PB_BYTES_ARRAY_T_ALLOCSIZE n;
           store = (\<lambda>bdest. bindo (exec (put32 bdest n)) (\<lambda>_. read_into E (bdest + bytes_offset) (ucast n)))
       in if n > PB_SIZE_MAX then fail ''bytes overflow'' (s, w)
          else if ucast n > alloc_size then fail ''size too large'' (s, w)
          else if PB_ATYPE (f_type f) = PB_ATYPE_POINTER then
            if bytes_left s < ucast n then fail ''end-of-stream'' (s, w)
            else bindo (allocate_field E dest alloc_size 1) (\<lambda>_. with_ptr dest store) (s, w)
          else if alloc_size > ucast (data_size f) then fail ''bytes overflow'' (s, w)
          else store dest (s, w))"

text \<open>The terminating zero is stored whether or not the read succeeds.\<close>

definition read_string :: "'u env \<Rightarrow> u32 \<Rightarrow> addr \<Rightarrow> ('u, unit) dec" where
  "read_string E n dest st =
     (case read_into E dest (ucast n) st of (status, s, w) \<Rightarrow>
        (status, s, on_mem (\<lambda>m. m(dest + ucast n := 0)) w))"

definition pb_dec_string :: "'u env \<Rightarrow> pb_field \<Rightarrow> addr \<Rightarrow> ('u, unit) dec" where
  "pb_dec_string E f dest =
     bindo (pb_decode_varint32 E) (\<lambda>n (s, w).
       let alloc_size = ucast (n + 1) :: size_t in
       if alloc_size < ucast n then fail ''size too large'' (s, w)
       else if PB_ATYPE (f_type f) = PB_ATYPE_POINTER then
         if bytes_left s < ucast n then fail ''end-of-stream'' (s, w)
         else bindo (allocate_field E dest alloc_size 1) (\<lambda>_. with_ptr dest (read_string E n)) (s, w)
       else if alloc_size > ucast (data_size f) then fail ''string overflow'' (s, w)
       else read_string E n dest (s, w))"

definition pb_dec_fixed_length_bytes :: "'u env \<Rightarrow> pb_field \<Rightarrow> addr \<Rightarrow> ('u, unit) dec" where
  "pb_dec_fixed_length_bytes E f dest =
     bindo (pb_decode_varint32 E) (\<lambda>n.
       if n > PB_SIZE_MAX then fail ''bytes overflow''
       else if n = 0 then exec (memset0 dest (unat (data_size f)))
       else if n \<noteq> data_size f then fail ''incorrect fixed length bytes size''
       else read_into E dest (ucast (data_size f)))"

section \<open>Submessages\<close>

text \<open>
  The substream is opened before the descriptor is looked at, and stays open when there is none.
\<close>

definition pb_dec_submessage :: "'u env \<Rightarrow> 'u rec_calls \<Rightarrow> pb_field \<Rightarrow> addr \<Rightarrow> ('u, unit) dec" where
  "pb_dec_submessage E rc f dest =
     (case f_ptr f of
        PtrNull \<Rightarrow> bindo (pb_make_string_substream E) (\<lambda>sub. fail ''invalid field descriptor'')
      | PtrValue _ \<Rightarrow> bindo (pb_make_string_substream E) (\<lambda>sub. crash BadDescriptor)
      | PtrFields fs \<Rightarrow>
          in_substream E
            (if PB_HTYPE (f_type f) = PB_HTYPE_REPEATED then call_decode rc fs dest
             else call_noinit rc fs dest))"

definition PB_DECODERS :: "'u env \<Rightarrow> 'u rec_calls \<Rightarrow> u8 \<Rightarrow> pb_field \<Rightarrow> addr \<Rightarrow> ('u, unit) dec" where
  "PB_DECODERS E rc t f dest =
     (if t = PB_LTYPE_BOOL then pb_dec_bool E dest
      else if t = PB_LTYPE_VARINT then pb_dec_varint E f dest
      else if t = PB_LTYPE_UVARINT then pb_dec_uvarint E f dest
      else if t = PB_LTYPE_SVARINT then pb_dec_svarint E f dest
      else if t = PB_LTYPE_FIXED32 then pb_dec_fixed32 E f dest
      else if t = PB_LTYPE_FIXED64 then pb_dec_fixed64 E f dest
      else if t = PB_LTYPE_BYTES then pb_dec_bytes E f dest
      else if t = PB_LTYPE_STRING then pb_dec_string E f dest
      else if t = PB_LTYPE_SUBMESSAGE then pb_dec_submessage E rc f dest
      else if t = PB_LTYPE_EXTENSION then crash BadCall
      else if t = PB_LTYPE_FIXED_LENGTH_BYTES then pb_dec_fixed_length_bytes E f dest
      else crash BadDescriptor)"

section \<open>Static fields\<close>

text \<open>
  Array indexing \<open>(char*)pData + data_size * (*size)\<close>: the product is taken in \<open>pb_size_t\<close>, that is
  modulo \<open>2 ^ 32\<close>.
\<close>

definition item_at :: "addr \<Rightarrow> pb_field \<Rightarrow> u32 \<Rightarrow> addr" where
  "item_at base f n = base + ucast (data_size f * n)"

definition load_size :: "'u world \<Rightarrow> addr \<Rightarrow> u32" where
  "load_size w a = load32 (mem w) a"

definition incr_size :: "addr \<Rightarrow> 'u world \<Rightarrow> 'u world" where
  "incr_size a w = put32 a (load_size w a + 1) w"

text \<open>
  The loop over a packed array. Every element that decodes takes at least one byte, so the number
  of bytes bounds the number of turns. The result is the variable \<open>status\<close>.
\<close>

primrec packed_static ::
  "nat \<Rightarrow> (addr \<Rightarrow> ('u, unit) dec) \<Rightarrow> pb_field_iter \<Rightarrow> 'u ist \<Rightarrow> bool \<times> 'u ist" where
  "packed_static 0 func it st = (False, ifault WalkBudget st)"
| "packed_static (Suc n) func it st = (case st of (sub, w) \<Rightarrow>
     let f = cur it; size = load_size w (pSize it) in
     if bytes_left sub > 0 \<and> size < array_size f then
       (case func (item_at (pData it) f size) (sub, w) of
          (None, st') \<Rightarrow> (False, st')
        | (Some _, sub', w') \<Rightarrow> packed_static n func it (sub', incr_size (pSize it) w'))
     else (True, st))"

definition decode_packed_static :: "'u env \<Rightarrow> (addr \<Rightarrow> ('u, unit) dec) \<Rightarrow> pb_field_iter \<Rightarrow> ('u, unit) dec" where
  "decode_packed_static E func it =
     bindo (pb_make_string_substream E) (\<lambda>sub (s, w).
       case packed_static (Suc (unat (bytes_left sub))) func it (sub, w) of (status, sub', w') \<Rightarrow>
         if bytes_left sub' \<noteq> 0 then fail ''array overflow'' (s, w')
         else bindo (pb_close_string_substream E sub')
           (\<lambda>_ st. (if status then Some () else None, st)) (s, w'))"

text \<open>A call with a submessage's descriptor, out of the \<open>ptr\<close> of its field.\<close>

definition sub_defaults :: "'u rec_calls \<Rightarrow> pb_field \<Rightarrow> addr \<Rightarrow> 'u world \<Rightarrow> 'u world" where
  "sub_defaults rc f a w =
     (case f_ptr f of
        PtrFields fs \<Rightarrow> call_defaults rc fs a w
      | PtrNull \<Rightarrow> raise_fault NullDeref w
      | PtrValue _ \<Rightarrow> raise_fault BadDescriptor w)"

definition decode_static_field ::
  "'u env \<Rightarrow> 'u rec_calls \<Rightarrow> pb_wire_type_t \<Rightarrow> pb_field_iter \<Rightarrow> ('u, unit) dec" where
  "decode_static_field E rc wire_type it =
     (let f = cur it; t = f_type f; func = PB_DECODERS E rc (PB_LTYPE t) f in
      if PB_HTYPE t = PB_HTYPE_REQUIRED then func (pData it)
      else if PB_HTYPE t = PB_HTYPE_OPTIONAL then
        bindo (exec (if pSize it \<noteq> pData it then put_bool (pSize it) True else id)) (\<lambda>_. func (pData it))
      else if PB_HTYPE t = PB_HTYPE_REPEATED then
        if wire_type = PB_WT_STRING \<and> PB_LTYPE t \<le> PB_LTYPE_LAST_PACKABLE
        then decode_packed_static E func it
        else (\<lambda>(s, w).
          let size = load_size w (pSize it); w1 = incr_size (pSize it) w in
          if size \<ge> array_size f then fail ''array overflow'' (s, w1)
          else func (item_at (pData it) f size) (s, w1))
      else
        bindo (exec (\<lambda>w.
            let w1 = (if PB_LTYPE t = PB_LTYPE_SUBMESSAGE \<and> load_size w (pSize it) \<noteq> f_tag f
                      then sub_defaults rc f (pData it) (memset0 (pData it) (unat (data_size f)) w)
                      else w)
            in put32 (pSize it) (f_tag f) w1))
          (\<lambda>_. func (pData it)))"

section \<open>Pointer fields\<close>

definition initialize_pointer_field :: "'u rec_calls \<Rightarrow> addr \<Rightarrow> pb_field_iter \<Rightarrow> 'u world \<Rightarrow> 'u world" where
  "initialize_pointer_field rc pItem it w =
     (let f = cur it; t = PB_LTYPE (f_type f) in
      if t = PB_LTYPE_STRING \<or> t = PB_LTYPE_BYTES then put_ptr pItem 0 w
      else if t = PB_LTYPE_SUBMESSAGE
      then sub_defaults rc f pItem (memset0 pItem (unat (data_size f)) w)
      else w)"

text \<open>
  The loop over a packed array that grows with its input. Its state is the parent stream (for the
  message of one error), the allocated size, and the substream.
\<close>

primrec packed_pointer ::
  "nat \<Rightarrow> 'u env \<Rightarrow> 'u rec_calls \<Rightarrow> (addr \<Rightarrow> ('u, unit) dec) \<Rightarrow> pb_field_iter \<Rightarrow> size_t \<Rightarrow> pb_istream
    \<Rightarrow> 'u ist \<Rightarrow> bool \<times> pb_istream \<times> 'u ist" where
  "packed_pointer 0 E rc func it allocated s st = (False, s, ifault WalkBudget st)"
| "packed_pointer (Suc n) E rc func it allocated s st = (case st of (sub, w) \<Rightarrow>
     let f = cur it; size = load_size w (pSize it) in
     if bytes_left sub = 0 then (True, s, st)
     else if size = PB_SIZE_MAX
     then (False, s\<lparr>i_errmsg := Some ''too many array entries''\<rparr>, st)
     else if ucast size + 1 > allocated \<and> data_size f = 0
     then (False, s, ifault DivisionByZero st)
     else
       let remain = (bytes_left sub - 1) div ucast (data_size f) + 1;
           allocated' =
             (if ucast size + 1 > allocated then
                if remain < ucast PB_SIZE_MAX - allocated then allocated + remain else allocated + 1
              else allocated)
       in
       (case (if ucast size + 1 > allocated
              then allocate_field E (pData it) (ucast (data_size f)) allocated' st
              else (Some (), st)) of
          (None, st1) \<Rightarrow> (False, s, st1)
        | (Some _, sub1, w1) \<Rightarrow>
            let pItem = item_at (load_ptr (mem w1) (pData it)) f (load_size w1 (pSize it)) in
            (case func pItem (sub1, initialize_pointer_field rc pItem it w1) of
               (None, st2) \<Rightarrow> (False, s, st2)
             | (Some _, sub2, w2) \<Rightarrow>
                 packed_pointer n E rc func it allocated' s (sub2, incr_size (pSize it) w2))))"

definition decode_packed_pointer ::
  "'u env \<Rightarrow> 'u rec_calls \<Rightarrow> (addr \<Rightarrow> ('u, unit) dec) \<Rightarrow> pb_field_iter \<Rightarrow> ('u, unit) dec" where
  "decode_packed_pointer E rc func it st = (case st of (s0, w0) \<Rightarrow>
     let allocated = ucast (load_size w0 (pSize it)) in
     bindo (pb_make_string_substream E) (\<lambda>sub (s, w).
       case packed_pointer (Suc (unat (bytes_left sub))) E rc func it allocated s (sub, w) of
         (status, s', sub', w') \<Rightarrow>
           bindo (pb_close_string_substream E sub')
             (\<lambda>_ st. (if status then Some () else None, st)) (s', w'))
       st)"

definition decode_pointer_field ::
  "'u env \<Rightarrow> 'u rec_calls \<Rightarrow> pb_wire_type_t \<Rightarrow> pb_field_iter \<Rightarrow> ('u, unit) dec" where
  "decode_pointer_field E rc wire_type it =
     (let f = cur it; t = f_type f; func = PB_DECODERS E rc (PB_LTYPE t) f in
      if PB_HTYPE t \<noteq> PB_HTYPE_REPEATED then
        bindo (exec (\<lambda>w.
            let w1 = (if PB_LTYPE t = PB_LTYPE_SUBMESSAGE \<and> load_ptr (mem w) (pData it) \<noteq> 0
                      then call_release rc it w else w)
            in if PB_HTYPE t = PB_HTYPE_ONEOF then put32 (pSize it) (f_tag f) w1 else w1))
          (\<lambda>_. if PB_LTYPE t = PB_LTYPE_STRING \<or> PB_LTYPE t = PB_LTYPE_BYTES then func (pData it)
               else bindo (allocate_field E (pData it) (ucast (data_size f)) 1)
                 (\<lambda>_. with_ptr (pData it) (\<lambda>p.
                    bindo (exec (initialize_pointer_field rc p it)) (\<lambda>_. with_ptr (pData it) func))))
      else if wire_type = PB_WT_STRING \<and> PB_LTYPE t \<le> PB_LTYPE_LAST_PACKABLE
      then decode_packed_pointer E rc func it
      else (\<lambda>(s, w).
        let size = load_size w (pSize it) in
        if size = PB_SIZE_MAX then fail ''too many array entries'' (s, w)
        else
          bindo (allocate_field E (pData it) (ucast (data_size f)) (ucast (size + 1))) (\<lambda>_ (s1, w1).
            let n = load_size w1 (pSize it);
                pItem = item_at (load_ptr (mem w1) (pData it)) f n;
                w2 = initialize_pointer_field rc pItem it (incr_size (pSize it) w1)
            in func pItem (s1, w2)) (s, w)))"

section \<open>Callback fields\<close>

text \<open>The loop that calls the callback until it has read its whole substream.\<close>

primrec callback_loop :: "nat \<Rightarrow> ('u ist \<Rightarrow> bool \<times> 'u ist) \<Rightarrow> 'u ist \<Rightarrow> bool \<times> 'u ist" where
  "callback_loop 0 cb st = (False, ifault WalkBudget st)"
| "callback_loop (Suc n) cb st =
     (case cb st of (ok, st') \<Rightarrow>
        if \<not> ok then (False, st')
        else if bytes_left (fst st') \<noteq> 0 then callback_loop n cb st' else (True, st'))"

definition decode_callback_field :: "'u env \<Rightarrow> pb_wire_type_t \<Rightarrow> pb_field_iter \<Rightarrow> ('u, unit) dec" where
  "decode_callback_field E wire_type it st = (case st of (s, w) \<Rightarrow>
     let fn = load_ptr (mem w) (pData it); cb = decode_fn E fn (cur it) (pData it + 8) in
     if pData it = 0 \<or> fn = 0 then pb_skip_field E wire_type (s, w)
     else if wire_type = PB_WT_STRING then
       bindo (pb_make_string_substream E) (\<lambda>sub (s, w).
         case callback_loop (Suc (walk_limit E)) cb (sub, w) of (ok, sub', w') \<Rightarrow>
           if \<not> ok then fail ''callback failed'' (s, w')
           else pb_close_string_substream E sub' (s, w')) (s, w)
     else
       bindo (read_raw_value E wire_type 10) (\<lambda>buffer (s, w).
         case cb (pb_istream_from_buffer buffer (of_nat (length buffer)), w) of (ok, sub', w') \<Rightarrow>
           (if ok then Some () else None, s, w')) (s, w))"

section \<open>Fields\<close>

text \<open>
  A oneof that holds another member is released before it is overwritten. The iterator moves to the
  old member and back; the result is the iterator after that.
\<close>

definition pb_release_union_field :: "'u rec_calls \<Rightarrow> pb_field_iter \<Rightarrow> ('u, pb_field_iter) dec" where
  "pb_release_union_field rc it st = (case st of (s, w) \<Rightarrow>
     let old_tag = load_size w (pSize it); new_tag = f_tag (cur it) in
     if old_tag = 0 \<or> old_tag = new_tag then (Some it, s, w)
     else
       (case pb_field_iter_find it old_tag of
          None \<Rightarrow> crash WalkBudget (s, w)
        | Some (False, _) \<Rightarrow> fail ''invalid union tag'' (s, w)
        | Some (True, it1) \<Rightarrow>
            let w1 = call_release rc it1 w in
            (case pb_field_iter_find it1 new_tag of
               None \<Rightarrow> crash WalkBudget (s, w1)
             | Some (False, _) \<Rightarrow> fail ''iterator error'' (s, w1)
             | Some (True, it2) \<Rightarrow>
                 (Some it2, s,
                  if PB_ATYPE (f_type (cur it2)) = PB_ATYPE_POINTER then put_ptr (pData it2) 0 w1 else w1))))"

text \<open>\<open>decode_field\<close> leaves the iterator, which it may have moved, to its caller.\<close>

definition decode_field ::
  "'u env \<Rightarrow> 'u rec_calls \<Rightarrow> pb_wire_type_t \<Rightarrow> pb_field_iter \<Rightarrow> ('u, pb_field_iter) dec" where
  "decode_field E rc wire_type it =
     bindo (if PB_HTYPE (f_type (cur it)) = PB_HTYPE_ONEOF then pb_release_union_field rc it else yield it)
       (\<lambda>it.
         let a = PB_ATYPE (f_type (cur it)) in
         bindo
           (if a = PB_ATYPE_STATIC then decode_static_field E rc wire_type it
            else if a = PB_ATYPE_POINTER then decode_pointer_field E rc wire_type it
            else if a = PB_ATYPE_CALLBACK then decode_callback_field E wire_type it
            else fail ''invalid field type'')
           (\<lambda>_. yield it))"

section \<open>Extensions\<close>

definition default_extension_decoder ::
  "'u env \<Rightarrow> 'u rec_calls \<Rightarrow> addr \<Rightarrow> u32 \<Rightarrow> pb_wire_type_t \<Rightarrow> ('u, unit) dec" where
  "default_extension_decoder E rc ext tag wire_type st = (case st of (s, w) \<Rightarrow>
     if f_tag (field_at (ext_arg (ext_type_of E (mem w) ext)) 0) \<noteq> tag then (Some (), s, w)
     else
       let it = iter_from_extension E (mem w) ext in
       bindo (decode_field E rc wire_type it) (\<lambda>_. yield ()) (s, put_bool (ext + 24) True w))"

text \<open>The loop ends when a handler has read something: \<open>pos\<close> is \<open>bytes_left\<close> at the start.\<close>

primrec decode_extensions ::
  "nat \<Rightarrow> 'u env \<Rightarrow> 'u rec_calls \<Rightarrow> u32 \<Rightarrow> pb_wire_type_t \<Rightarrow> size_t \<Rightarrow> addr \<Rightarrow> ('u, unit) dec" where
  "decode_extensions 0 E rc tag wire_type pos0 ext st =
     (if ext \<noteq> 0 \<and> pos0 = bytes_left (fst st) then crash WalkBudget st else (Some (), st))"
| "decode_extensions (Suc n) E rc tag wire_type pos0 ext st =
     (if ext \<noteq> 0 \<and> pos0 = bytes_left (fst st) then
        bindo
          (\<lambda>(s, w). case ext_decode (ext_type_of E (mem w) ext) of
             Some k \<Rightarrow> of_bool_run (ext_decode_fn E k ext tag wire_type (s, w))
           | None \<Rightarrow> default_extension_decoder E rc ext tag wire_type (s, w))
          (\<lambda>_ (s, w). decode_extensions n E rc tag wire_type pos0 (load_ptr (mem w) (ext + 16)) (s, w))
          st
      else (Some (), st))"

definition decode_extension ::
  "'u env \<Rightarrow> 'u rec_calls \<Rightarrow> u32 \<Rightarrow> pb_wire_type_t \<Rightarrow> pb_field_iter \<Rightarrow> ('u, unit) dec" where
  "decode_extension E rc tag wire_type it st = (case st of (s, w) \<Rightarrow>
     decode_extensions (walk_limit E) E rc tag wire_type (bytes_left s) (load_ptr (mem w) (pData it)) (s, w))"

text \<open>The search has the shape of the loop of \<open>pb_field_iter_find\<close>.\<close>

definition find_extension_field :: "pb_field_iter \<Rightarrow> (bool \<times> pb_field_iter) option" where
  "find_extension_field it =
     find_loop (Suc (length (start it))) (\<lambda>f. PB_LTYPE (f_type f) = PB_LTYPE_EXTENSION) (pos it) it"

section \<open>Messages\<close>

abbreviation (input) PB_MAX_REQUIRED_FIELDS :: u32 where
  "PB_MAX_REQUIRED_FIELDS \<equiv> 64"

text \<open>
  The locals of \<open>pb_decode_noinit\<close>: \<open>fields_seen\<close> is the array of two words, \<open>fixed_count_field\<close> a
  position in the descriptor array. \<open>fixed_count_size\<close> lives at an address, since \<open>pSize\<close> may point
  to it.
\<close>

record locals =
  fields_seen :: "u32 list"
  extension_range_start :: u32
  the_iter :: pb_field_iter
  fixed_count_field :: "nat option"

text \<open>An unknown tag: the extension handlers are tried, and what they do not take is skipped.\<close>

definition decode_unknown ::
  "'u env \<Rightarrow> 'u rec_calls \<Rightarrow> u32 \<Rightarrow> pb_wire_type_t \<Rightarrow> locals \<Rightarrow> ('u, locals) dec" where
  "decode_unknown E rc tag wire_type l =
     (let skip = (\<lambda>l. bindo (pb_skip_field E wire_type) (\<lambda>_. yield l)) in
      if tag \<ge> extension_range_start l then
        (case find_extension_field (the_iter l) of
           None \<Rightarrow> crash WalkBudget
         | Some (found, it) \<Rightarrow>
             let l1 = l\<lparr>the_iter := it,
                        extension_range_start := (if found then f_tag (cur it) else 0xFFFFFFFF)\<rparr> in
             if tag \<ge> extension_range_start l1 then
               (\<lambda>(s, w).
                 bindo (decode_extension E rc tag wire_type it)
                   (\<lambda>_ (s', w'). if bytes_left s' \<noteq> bytes_left s then (Some l1, s', w')
                                 else skip l1 (s', w')) (s, w))
             else skip l1)
      else skip l)"

text \<open>The size of a repeated field without a count member is kept in \<open>fixed_count_size\<close>.\<close>

definition use_fixed_count :: "addr \<Rightarrow> locals \<Rightarrow> ('u, locals) dec" where
  "use_fixed_count fcs l st = (case st of (s, w) \<Rightarrow>
     let it = the_iter l in
     if PB_HTYPE (f_type (cur it)) = PB_HTYPE_REPEATED \<and> pSize it = pData it then
       if fixed_count_field l \<noteq> Some (pos it) then
         (case fixed_count_field l of
            Some k \<Rightarrow>
              if load_size w fcs \<noteq> array_size (field_at (start it) k)
              then fail ''wrong size for fixed count field'' (s, w)
              else (Some (l\<lparr>fixed_count_field := Some (pos it), the_iter := it\<lparr>pSize := fcs\<rparr>\<rparr>), s, put32 fcs 0 w)
          | None \<Rightarrow>
              (Some (l\<lparr>fixed_count_field := Some (pos it), the_iter := it\<lparr>pSize := fcs\<rparr>\<rparr>), s, put32 fcs 0 w))
       else (Some (l\<lparr>the_iter := it\<lparr>pSize := fcs\<rparr>\<rparr>), s, w)
     else (Some l, s, w))"

definition mark_required :: "locals \<Rightarrow> locals" where
  "mark_required l =
     (let it = the_iter l; i = required_field_index it in
      if PB_HTYPE (f_type (cur it)) = PB_HTYPE_REQUIRED \<and> i < PB_MAX_REQUIRED_FIELDS then
        let k = unat (drop_bit 5 i) in
        l\<lparr>fields_seen := (fields_seen l)[k := fields_seen l ! k OR push_bit (unat (i AND 31)) 1]\<rparr>
      else l)"

text \<open>
  The main loop. Every turn reads a key, so the number of bytes left bounds the number of turns
  unless code outside the library gives bytes back.
\<close>

primrec decode_loop :: "nat \<Rightarrow> 'u env \<Rightarrow> 'u rec_calls \<Rightarrow> addr \<Rightarrow> locals \<Rightarrow> ('u, locals) dec" where
  "decode_loop 0 E rc fcs l st = (if bytes_left (fst st) \<noteq> 0 then crash WalkBudget st else (Some l, st))"
| "decode_loop (Suc n) E rc fcs l st =
     (if bytes_left (fst st) = 0 then (Some l, st)
      else
        (case pb_decode_tag E st of
           ((None, eof), st') \<Rightarrow> (if eof then Some l else None, st')
         | ((Some (wire_type, tag), eof), st') \<Rightarrow>
             (case pb_field_iter_find (the_iter l) tag of
                None \<Rightarrow> crash WalkBudget st'
              | Some (False, it) \<Rightarrow>
                  bindo (decode_unknown E rc tag wire_type (l\<lparr>the_iter := it\<rparr>)) (decode_loop n E rc fcs) st'
              | Some (True, it) \<Rightarrow>
                  bindo (use_fixed_count fcs (l\<lparr>the_iter := it\<rparr>)) (\<lambda>l1.
                    let l2 = mark_required l1 in
                    bindo (decode_field E rc wire_type (the_iter l2)) (\<lambda>it'.
                      decode_loop n E rc fcs (l2\<lparr>the_iter := it'\<rparr>))) st')))"

text \<open>
  The scan \<open>do { req_field_count = ...; last_type = ...; } while (pb_field_iter_next(&iter));\<close>:
  the two variables and the iterator at its end.
\<close>

function scan_required :: "pb_field_iter \<Rightarrow> u32 \<times> pb_type_t \<times> pb_field_iter" where
  "scan_required it =
     (case pb_field_iter_next it of (go, it') \<Rightarrow>
        if go then scan_required it' else (required_field_index it, f_type (cur it), it'))"
  by pat_completeness auto
termination
  by (relation "measure (\<lambda>it. length (start it) - pos it)")
    (auto simp: pb_field_iter_next_def field_at_def Let_def split: if_splits)

declare scan_required.simps [simp del]

definition required_count :: "pb_field_iter \<Rightarrow> u32" where
  "required_count it =
     (case scan_required it of (req, last_type, it') \<Rightarrow>
        let n = (if PB_HTYPE last_type = PB_HTYPE_REQUIRED \<and> f_tag (cur it') \<noteq> 0 then req + 1 else req)
        in if n > PB_MAX_REQUIRED_FIELDS then PB_MAX_REQUIRED_FIELDS else n)"

definition all_seen :: "u32 list \<Rightarrow> u32 \<Rightarrow> bool" where
  "all_seen seen n \<longleftrightarrow>
     n > 0 \<longrightarrow>
       (\<forall>i \<in> set [0..<unat (drop_bit 5 n)]. seen ! i = 0xFFFFFFFF) \<and>
       (n AND 31 \<noteq> 0 \<longrightarrow> seen ! unat (drop_bit 5 n) = drop_bit (unat (32 - (n AND 31))) 0xFFFFFFFF)"

definition decode_noinit ::
  "'u env \<Rightarrow> 'u rec_calls \<Rightarrow> addr \<Rightarrow> pb_field list \<Rightarrow> addr \<Rightarrow> ('u, unit) dec" where
  "decode_noinit E rc fcs fs dest st =
     (let l = \<lparr>fields_seen = [0, 0], extension_range_start = 0,
               the_iter = snd (pb_field_iter_begin fs dest), fixed_count_field = None\<rparr> in
      bindo (exec (put32 fcs 0)) (\<lambda>_ (s, w).
        bindo (decode_loop (unat (bytes_left s)) E rc fcs l) (\<lambda>l (s, w).
          if (case fixed_count_field l of
                None \<Rightarrow> False
              | Some k \<Rightarrow> load_size w fcs \<noteq> array_size (field_at fs k))
          then fail ''wrong size for fixed count field'' (s, w)
          else if \<not> all_seen (fields_seen l) (required_count (the_iter l))
          then fail ''missing required field'' (s, w)
          else (Some (), s, w)) (s, w)) st)"

text \<open>
  \<open>pb_decode\<close> and \<open>pb_decode_noinit\<close>, given the calls of the level below.
\<close>

definition decode_top ::
  "nat \<Rightarrow> 'u env \<Rightarrow> (pb_field list \<Rightarrow> addr \<Rightarrow> ('u, unit) dec) \<Rightarrow> pb_field list \<Rightarrow> addr \<Rightarrow> ('u, unit) dec" where
  "decode_top d E noinit fs dest st = (case st of (s, w) \<Rightarrow>
     (case noinit fs dest (s, pb_message_set_to_defaults d E fs dest w) of
        (None, s', w') \<Rightarrow> (None, s', pb_release d E fs dest w')
      | (Some _, st') \<Rightarrow> (Some (), st')))"

primrec pb_decode_noinit :: "nat \<Rightarrow> 'u env \<Rightarrow> pb_field list \<Rightarrow> addr \<Rightarrow> ('u, unit) dec" where
  "pb_decode_noinit 0 E fs dest = crash RecursionBudget"
| "pb_decode_noinit (Suc d) E fs dest =
     decode_noinit E
       \<lparr>call_decode = decode_top d E (pb_decode_noinit d E), call_noinit = pb_decode_noinit d E,
        call_defaults = pb_message_set_to_defaults d E, call_release = release_field (Suc d) E\<rparr>
       (local_addr E d) fs dest"

definition pb_decode :: "nat \<Rightarrow> 'u env \<Rightarrow> pb_field list \<Rightarrow> addr \<Rightarrow> ('u, unit) dec" where
  "pb_decode d E = decode_top d E (pb_decode_noinit d E)"

definition pb_decode_delimited_noinit :: "nat \<Rightarrow> 'u env \<Rightarrow> pb_field list \<Rightarrow> addr \<Rightarrow> ('u, unit) dec" where
  "pb_decode_delimited_noinit d E fs dest = in_substream E (pb_decode_noinit d E fs dest)"

definition pb_decode_delimited :: "nat \<Rightarrow> 'u env \<Rightarrow> pb_field list \<Rightarrow> addr \<Rightarrow> ('u, unit) dec" where
  "pb_decode_delimited d E fs dest = in_substream E (pb_decode d E fs dest)"

definition pb_decode_nullterminated :: "nat \<Rightarrow> 'u env \<Rightarrow> pb_field list \<Rightarrow> addr \<Rightarrow> ('u, unit) dec" where
  "pb_decode_nullterminated d E fs dest = pb_decode d E fs dest"

end
