(* ===== verification/PbView.thy ===== *)
theory PbView
  imports PbDecode
begin

text \<open>
  The value of a message in memory, apart from where it is stored: which fields are present, and what
  they hold. It is read off the structure with the descriptors, for the \<open>plain\<close> message types: optional
  scalar fields and submessages in static storage with a \<open>has_\<close> member, and pointer fields, of which
  only the emptiness is looked at.
\<close>

section \<open>Values\<close>

datatype fval = Absent | Scalar "u8 list" | Message "fval list" | Pointer

definition field_view :: "(pb_field list \<Rightarrow> addr \<Rightarrow> fval list) \<Rightarrow> memory \<Rightarrow> pb_field \<Rightarrow> addr \<Rightarrow> addr \<Rightarrow> fval" where
  "field_view sub m f p q =
     (if PB_ATYPE (f_type f) = PB_ATYPE_POINTER then
        if (if PB_HTYPE (f_type f) = PB_HTYPE_REPEATED then load32 m q = 0 else load_ptr m p = 0)
        then Absent else Pointer
      else if m q = 0 then Absent
      else if PB_LTYPE (f_type f) = PB_LTYPE_SUBMESSAGE then
        (case f_ptr f of PtrFields gs \<Rightarrow> Message (sub gs p) | _ \<Rightarrow> Message [])
      else if PB_LTYPE (f_type f) = PB_LTYPE_BOOL then Scalar [if m p = 0 then 0 else 1]
      else Scalar (load_bytes m p (unat (data_size f))))"

primrec view :: "nat \<Rightarrow> memory \<Rightarrow> pb_field list \<Rightarrow> addr \<Rightarrow> fval list" where
  "view 0 m fs a = []"
| "view (Suc d) m fs a =
     map (\<lambda>k. field_view (view d m) m (field_at fs k) (data_at fs a k) (size_at fs a k)) [0..<nfields fs]"

fun pointer_free :: "fval \<Rightarrow> bool" where
  "pointer_free Absent \<longleftrightarrow> True"
| "pointer_free (Scalar bs) \<longleftrightarrow> True"
| "pointer_free (Message vs) \<longleftrightarrow> list_all pointer_free vs"
| "pointer_free Pointer \<longleftrightarrow> False"

text \<open>A structure all of whose fields are absent, inside its submessages too.\<close>

definition field_clean :: "(pb_field list \<Rightarrow> addr \<Rightarrow> bool) \<Rightarrow> memory \<Rightarrow> pb_field \<Rightarrow> addr \<Rightarrow> addr \<Rightarrow> bool" where
  "field_clean sub m f p q \<longleftrightarrow>
     (if PB_ATYPE (f_type f) = PB_ATYPE_POINTER then
        if PB_HTYPE (f_type f) = PB_HTYPE_REPEATED then load32 m q = 0 else load_ptr m p = 0
      else m q = 0 \<and>
        (PB_LTYPE (f_type f) = PB_LTYPE_SUBMESSAGE \<longrightarrow> (case f_ptr f of PtrFields gs \<Rightarrow> sub gs p | _ \<Rightarrow> True)))"

primrec clean :: "nat \<Rightarrow> memory \<Rightarrow> pb_field list \<Rightarrow> addr \<Rightarrow> bool" where
  "clean 0 m fs a \<longleftrightarrow> True"
| "clean (Suc d) m fs a \<longleftrightarrow>
     list_all (\<lambda>k. field_clean (clean d m) m (field_at fs k) (data_at fs a k) (size_at fs a k)) [0..<nfields fs]"

section \<open>Plain message types\<close>

text \<open>The sizes of a field's data and of its \<open>has_\<close> or count member.\<close>

definition data_len :: "pb_field \<Rightarrow> nat" where
  "data_len f = (if PB_ATYPE (f_type f) = PB_ATYPE_POINTER then 8 else unat (data_size f))"

definition size_len :: "pb_field \<Rightarrow> nat" where
  "size_len f =
     (if PB_HTYPE (f_type f) = PB_HTYPE_REPEATED then 4 else if size_offset f \<noteq> 0 then 1 else 0)"

definition spans :: "pb_field list \<Rightarrow> nat \<Rightarrow> (nat \<times> nat) list" where
  "spans fs k =
     [(unat (data_at fs 0 k), data_len (field_at fs k)), (unat (size_at fs 0 k), size_len (field_at fs k))]"

definition apart :: "nat \<times> nat \<Rightarrow> nat \<times> nat \<Rightarrow> bool" where
  "apart x y \<longleftrightarrow> snd x = 0 \<or> snd y = 0 \<or> fst x + snd x \<le> fst y \<or> fst y + snd y \<le> fst x"

definition layout_ok :: "nat \<Rightarrow> pb_field list \<Rightarrow> bool" where
  "layout_ok n fs \<longleftrightarrow>
     (let xs = concat (map (spans fs) [0..<nfields fs]) in
      sorted_wrt apart xs \<and> list_all (\<lambda>x. snd x = 0 \<or> fst x + snd x \<le> n) xs)"

definition int_sizes :: "u32 set" where
  "int_sizes = {1, 2, 4, 8}"

definition plain_field :: "(nat \<Rightarrow> pb_field list \<Rightarrow> bool) \<Rightarrow> pb_field \<Rightarrow> bool" where
  "plain_field sub f \<longleftrightarrow>
     (let t = f_type f; l = PB_LTYPE t in
      0 < unat (f_tag f) \<and> unat (f_tag f) < 2 ^ 29 \<and>
      (if PB_ATYPE t = PB_ATYPE_POINTER then
         (PB_HTYPE t = PB_HTYPE_OPTIONAL \<and> size_offset f = 0 \<or> PB_HTYPE t = PB_HTYPE_REPEATED \<and> size_offset f \<noteq> 0) \<and>
         l < PB_LTYPES_COUNT \<and> l \<noteq> PB_LTYPE_EXTENSION
       else
         PB_ATYPE t = PB_ATYPE_STATIC \<and> PB_HTYPE t = PB_HTYPE_OPTIONAL \<and> size_offset f \<noteq> 0 \<and>
         (if l = PB_LTYPE_SUBMESSAGE then
            (case f_ptr f of PtrFields gs \<Rightarrow> sub (unat (data_size f)) gs | _ \<Rightarrow> False)
          else
            (case f_ptr f of PtrFields gs \<Rightarrow> False | PtrValue bs \<Rightarrow> unat (data_size f) \<le> length bs | PtrNull \<Rightarrow> True) \<and>
            (l = PB_LTYPE_BOOL \<and> data_size f = 1 \<or>
             (l = PB_LTYPE_VARINT \<or> l = PB_LTYPE_UVARINT \<or> l = PB_LTYPE_SVARINT) \<and> data_size f \<in> int_sizes \<or>
             l = PB_LTYPE_FIXED32 \<and> data_size f = 4 \<or> l = PB_LTYPE_FIXED64 \<and> data_size f = 8))))"

primrec plain :: "nat \<Rightarrow> nat \<Rightarrow> pb_field list \<Rightarrow> bool" where
  "plain 0 n fs \<longleftrightarrow> False"
| "plain (Suc d) n fs \<longleftrightarrow>
     wf_fields fs \<and> distinct (map f_tag (butlast fs)) \<and> list_all (plain_field (plain d)) (butlast fs) \<and> layout_ok n fs"

section \<open>Footprints\<close>

definition agree :: "addr set \<Rightarrow> memory \<Rightarrow> memory \<Rightarrow> bool" where
  "agree X m m' \<longleftrightarrow> (\<forall>x \<in> X. m x = m' x)"

definition changes_only :: "addr set \<Rightarrow> memory \<Rightarrow> memory \<Rightarrow> bool" where
  "changes_only X m m' \<longleftrightarrow> (\<forall>x. x \<notin> X \<longrightarrow> m' x = m x)"

definition footprint :: "pb_field list \<Rightarrow> addr \<Rightarrow> nat \<Rightarrow> addr set" where
  "footprint fs a k =
     region (data_at fs a k) (data_len (field_at fs k)) \<union> region (size_at fs a k) (size_len (field_at fs k))"

lemma changes_only_refl [simp]: "changes_only X m m"
  by (simp add: changes_only_def)

lemma changes_only_trans: "changes_only X m m' \<Longrightarrow> changes_only X m' m'' \<Longrightarrow> changes_only X m m''"
  by (simp add: changes_only_def)

lemma changes_only_mono: "changes_only X m m' \<Longrightarrow> X \<subseteq> Y \<Longrightarrow> changes_only Y m m'"
  by (auto simp: changes_only_def)

lemma changes_only_agree: "changes_only X m m' \<Longrightarrow> X \<inter> Y = {} \<Longrightarrow> agree Y m m'"
  by (auto simp: changes_only_def agree_def)

lemma agree_sym: "agree X m m' \<longleftrightarrow> agree X m' m"
  by (auto simp: agree_def)

lemma agree_mono: "agree Y m m' \<Longrightarrow> X \<subseteq> Y \<Longrightarrow> agree X m m'"
  by (auto simp: agree_def)

lemma changes_only_upd [simp]: "x \<in> X \<Longrightarrow> changes_only X m (m(x := v))"
  by (auto simp: changes_only_def)

lemma changes_only_store: "region a (length bs) \<subseteq> X \<Longrightarrow> changes_only X m (store_bytes m a bs)"
  using store_bytes_frame by (fastforce simp: changes_only_def)

lemma agree_load: "agree (region a n) m m' \<Longrightarrow> load_bytes m a n = load_bytes m' a n"
  by (rule load_bytes_cong) (simp add: agree_def)

lemma region_one [simp]: "region a (Suc 0) = {a}"
  by (simp add: region_Suc)

lemma region_base: "region (a + b) n = (+) a ` region b n"
  by (simp add: region_def image_image add.assoc)

lemma region_within:
  assumes "unat x + l \<le> n"
  shows "region (a + x) l \<subseteq> region a n"
proof
  fix y assume "y \<in> region (a + x) l"
  then obtain i where i: "i < l" "y = a + x + of_nat i" by (auto simp: region_def)
  then have "y = a + of_nat (unat x + i)" by (simp add: add.assoc)
  then show "y \<in> region a n"
    using i(1) assms unfolding region_def by (intro image_eqI [of _ _ "unat x + i"]) auto
qed

lemma region_apart:
  assumes "unat x + l \<le> unat y" and "unat y + l' \<le> n" and "n \<le> 2 ^ 64"
  shows "region (a + x) l \<inter> region (a + y) l' = {}"
proof -
  have "region x l \<inter> region y l' = {}"
  proof (rule ccontr)
    assume "region x l \<inter> region y l' \<noteq> {}"
    then obtain i j where ij: "i < l" "j < l'" "x + of_nat i = y + of_nat j"
      by (auto simp: region_def)
    have "unat (x + of_nat i) = unat x + i" "unat (y + of_nat j) = unat y + j"
      by (rule unat_add_of_nat, use ij assms in simp)+
    then show False using ij assms(1) by simp
  qed
  then show ?thesis
    unfolding region_base by (metis image_empty image_Int inj_on_add)
qed

lemma apart_region:
  assumes "apart (unat x, l) (unat y, l')" and "l = 0 \<or> unat x + l \<le> n" and "l' = 0 \<or> unat y + l' \<le> n"
    and "n \<le> 2 ^ 64"
  shows "region (a + x) l \<inter> region (a + y) l' = {}"
proof (cases "l = 0 \<or> l' = 0")
  case False
  then show ?thesis
    using assms region_apart [of x l y l' n a] region_apart [of y l' x l n a] by (auto simp: apart_def)
qed auto

lemma sorted_wrt_concat_nth:
  assumes "sorted_wrt P (concat (map g [0..<n]))" and "j < n"
  shows "sorted_wrt P (g j)" and "j < k \<Longrightarrow> k < n \<Longrightarrow> x \<in> set (g j) \<Longrightarrow> y \<in> set (g k) \<Longrightarrow> P x y"
proof -
  have split: "[0..<n] = [0..<j] @ j # [Suc j..<n]"
    using assms(2) upt_add_eq_append [of 0 j "n - j"] by (simp add: upt_conv_Cons)
  show "sorted_wrt P (g j)"
    using assms(1) unfolding split by (simp add: sorted_wrt_append)
  assume "j < k" "k < n" "x \<in> set (g j)" "y \<in> set (g k)"
  then show "P x y"
    using assms(1) unfolding split by (fastforce simp: sorted_wrt_append)
qed

lemma span_bound:
  "layout_ok n fs \<Longrightarrow> k < nfields fs \<Longrightarrow> x \<in> set (spans fs k) \<Longrightarrow> snd x = 0 \<or> fst x + snd x \<le> n"
  by (auto simp: layout_ok_def Let_def list_all_iff)

lemma spans_apart:
  "layout_ok n fs \<Longrightarrow> j < nfields fs \<Longrightarrow> k < nfields fs \<Longrightarrow> j \<noteq> k \<Longrightarrow>
    x \<in> set (spans fs j) \<Longrightarrow> y \<in> set (spans fs k) \<Longrightarrow> apart x y"
  using sorted_wrt_concat_nth(2) [of apart "spans fs" "nfields fs" j k x y]
    sorted_wrt_concat_nth(2) [of apart "spans fs" "nfields fs" k j y x]
  by (cases "j < k") (auto simp: layout_ok_def Let_def apart_def)

lemma span_regions_apart:
  assumes "layout_ok n fs" and "n \<le> 2 ^ 64" and "apart (unat x, l) (unat y, l')" and "j < nfields fs" "k < nfields fs"
    and "(unat x, l) \<in> set (spans fs j)" "(unat y, l') \<in> set (spans fs k)"
  shows "region (a + x) l \<inter> region (a + y) l' = {}"
  using assms(2,3) span_bound [OF assms(1,4,6)] span_bound [OF assms(1,5,7)]
  by (intro apart_region [of x l y l' n]) auto

lemma footprint_within:
  assumes "layout_ok n fs" and "k < nfields fs"
  shows "footprint fs a k \<subseteq> region a n"
proof -
  have "region (a + data_at fs 0 k) (data_len (field_at fs k)) \<subseteq> region a n"
    using span_bound [OF assms, of "(unat (data_at fs 0 k), data_len (field_at fs k))"] region_within [of "data_at fs 0 k"]
    by (auto simp: spans_def)
  moreover have "region (a + size_at fs 0 k) (size_len (field_at fs k)) \<subseteq> region a n"
    using span_bound [OF assms, of "(unat (size_at fs 0 k), size_len (field_at fs k))"] region_within [of "size_at fs 0 k"]
    by (auto simp: spans_def)
  ultimately show ?thesis
    by (simp add: footprint_def data_at_shift [of fs a] size_at_shift [of fs a])
qed

lemma footprints_apart:
  assumes "layout_ok n fs" and "n \<le> 2 ^ 64" and "j < nfields fs" "k < nfields fs" "j \<noteq> k"
  shows "footprint fs a j \<inter> footprint fs a k = {}"
proof -
  have "region (a + x) l \<inter> region (a + y) l' = {}"
    if "(unat x, l) \<in> set (spans fs j)" "(unat y, l') \<in> set (spans fs k)" for x l y l'
    using span_regions_apart [OF assms(1,2) spans_apart [OF assms(1,3,4,5) that] assms(3,4) that] .
  then show ?thesis
    by (simp add: footprint_def data_at_shift [of fs a] size_at_shift [of fs a] Int_Un_distrib Int_Un_distrib2 spans_def)
qed

lemma data_size_apart:
  assumes "layout_ok n fs" and "n \<le> 2 ^ 64" and "k < nfields fs"
  shows "region (data_at fs a k) (data_len (field_at fs k)) \<inter> region (size_at fs a k) (size_len (field_at fs k)) = {}"
proof -
  have "sorted_wrt apart (spans fs k)"
    using assms sorted_wrt_concat_nth(1) [of apart "spans fs" "nfields fs" k] by (simp add: layout_ok_def Let_def)
  then have "apart (unat (data_at fs 0 k), data_len (field_at fs k)) (unat (size_at fs 0 k), size_len (field_at fs k))"
    by (simp add: spans_def)
  from span_regions_apart [OF assms(1,2) this assms(3,3), of a] show ?thesis
    by (simp add: data_at_shift [of fs a] size_at_shift [of fs a] spans_def)
qed

section \<open>Views depend on the structure only\<close>

lemma plain_field_at: "plain (Suc d) n fs \<Longrightarrow> k < nfields fs \<Longrightarrow> plain_field (plain d) (field_at fs k)"
  by (auto simp: list_all_length nfields_def field_at_def nth_butlast)

lemma agree_footprint:
  assumes "plain (Suc d) n fs" and "k < nfields fs" and "agree (region a n) m m'"
  shows "agree (region (data_at fs a k) (data_len (field_at fs k))) m m'"
    "agree (region (size_at fs a k) (size_len (field_at fs k))) m m'"
proof -
  have "agree (footprint fs a k) m m'"
    by (rule agree_mono [OF assms(3)], rule footprint_within) (use assms(1,2) in simp_all)
  then show "agree (region (data_at fs a k) (data_len (field_at fs k))) m m'"
    "agree (region (size_at fs a k) (size_len (field_at fs k))) m m'"
    by (auto simp: footprint_def agree_def)
qed

lemma field_view_cong:
  assumes f: "plain_field (plain d) f"
    and data: "agree (region p (data_len f)) m m'" and sz: "agree (region q (size_len f)) m m'"
    and sub: "\<And>gs. f_ptr f = PtrFields gs \<Longrightarrow> plain d (unat (data_size f)) gs \<Longrightarrow>
      agree (region p (unat (data_size f))) m m' \<Longrightarrow> view d m gs p = view d m' gs p"
  shows "field_view (view d m) m f p q = field_view (view d m') m' f p q"
  using assms agree_load [OF data] agree_load [OF sz]
  by (auto simp: field_view_def plain_field_def Let_def data_len_def size_len_def load32_def load64_def agree_def
      split: if_splits pb_ptr.splits)

lemma view_cong:
  "plain d n fs \<Longrightarrow> agree (region a n) m m' \<Longrightarrow> view d m fs a = view d m' fs a"
proof (induction d arbitrary: n fs a)
  case (Suc d)
  have "field_view (view d m) m (field_at fs k) (data_at fs a k) (size_at fs a k) =
      field_view (view d m') m' (field_at fs k) (data_at fs a k) (size_at fs a k)" if k: "k < nfields fs" for k
    by (rule field_view_cong [OF plain_field_at [OF Suc.prems(1) k] agree_footprint [OF Suc.prems(1) k Suc.prems(2)]])
      (rule Suc.IH)
  then show ?case by simp
qed simp

lemma field_clean_cong:
  assumes f: "plain_field (plain d) f"
    and data: "agree (region p (data_len f)) m m'" and sz: "agree (region q (size_len f)) m m'"
    and sub: "\<And>gs. f_ptr f = PtrFields gs \<Longrightarrow> plain d (unat (data_size f)) gs \<Longrightarrow>
      agree (region p (unat (data_size f))) m m' \<Longrightarrow> clean d m gs p = clean d m' gs p"
  shows "field_clean (clean d m) m f p q = field_clean (clean d m') m' f p q"
  using assms agree_load [OF data] agree_load [OF sz]
  by (auto simp: field_clean_def plain_field_def Let_def data_len_def size_len_def load32_def load64_def agree_def
      split: if_splits pb_ptr.splits)

lemma clean_cong:
  "plain d n fs \<Longrightarrow> agree (region a n) m m' \<Longrightarrow> clean d m fs a = clean d m' fs a"
proof (induction d arbitrary: n fs a)
  case (Suc d)
  have "field_clean (clean d m) m (field_at fs k) (data_at fs a k) (size_at fs a k) =
      field_clean (clean d m') m' (field_at fs k) (data_at fs a k) (size_at fs a k)" if k: "k < nfields fs" for k
    by (rule field_clean_cong [OF plain_field_at [OF Suc.prems(1) k] agree_footprint [OF Suc.prems(1) k Suc.prems(2)]])
      (rule Suc.IH)
  then show ?case by (simp add: list_all_iff)
qed simp

text \<open>A clean field is absent.\<close>

lemma field_clean_view: "field_clean c m f p q \<Longrightarrow> field_view v m f p q = Absent"
  by (simp add: field_clean_def field_view_def split: if_splits)

end
