(* ===== verification/PbDefaultsProofs.thy ===== *)
theory PbDefaultsProofs
  imports PbView
begin

text \<open>
  \<open>pb_message_set_to_defaults\<close> leaves a structure of a plain message type with all its fields absent and
  touches nothing else.
\<close>

section \<open>Fields of a plain type\<close>

lemma plain_not_in_union: "plain (Suc d) n fs \<Longrightarrow> Suc k < nfields fs \<Longrightarrow> \<not> in_union (field_at fs k) (field_at fs (Suc k))"
  using plain_field_at [of d n fs k]
  by (auto simp: in_union_def plain_field_def Let_def split: if_splits)

lemma plain_size_at:
  assumes "plain (Suc d) n fs" and "k < nfields fs"
  shows "size_at fs a k = data_at fs a k + scast (size_offset (field_at fs k))"
  using assms plain_not_in_union [OF assms(1)] by (cases k) simp_all

lemma scast_nonzero: "x \<noteq> 0 \<Longrightarrow> (scast x :: u64) \<noteq> 0" for x :: u32
proof
  assume "scast x = (0 :: u64)"
  then have "ucast (scast x :: u64) = (0 :: u32)" by simp
  moreover have "ucast (scast x :: u64) = x" by (rule bit_word_eqI) (auto simp: bit_simps)
  ultimately show "x \<noteq> 0 \<Longrightarrow> False" by simp
qed

lemma plain_size_data_differ:
  assumes "plain (Suc d) n fs" and "k < nfields fs" and "size_offset (field_at fs k) \<noteq> 0"
  shows "size_at fs a k \<noteq> data_at fs a k"
  using plain_size_at [OF assms(1,2)] scast_nonzero [OF assms(3)] by simp

section \<open>Folding over the fields\<close>

lemma run_items_fold: "run_items (\<lambda>it w. (True, body it w)) its w = (True, fold body its w)"
  by (induction its arbitrary: w) (simp_all add: ret_def andthen_def)

lemma for_fields_fold:
  assumes "wf_fields fs"
  shows "for_fields body fs dest w = fold (\<lambda>k. body (iter_at fs dest k)) [0..<nfields fs] w"
  using assms
  by (simp add: for_fields_def iter_begin_at iter_loop_at run_items_fold fold_map comp_def split: if_splits)

text \<open>Steps with footprints that do not overlap do not undo each other.\<close>

lemma fold_footprints:
  assumes step: "\<And>k w. k < N \<Longrightarrow> \<exists>m. g k w = w\<lparr>mem := m\<rparr> \<and> Q k m \<and> changes_only (F k) (mem w) m"
    and stable: "\<And>k m m'. k < N \<Longrightarrow> Q k m \<Longrightarrow> agree (F k) m m' \<Longrightarrow> Q k m'"
    and disjoint: "\<And>j k. j < N \<Longrightarrow> k < N \<Longrightarrow> j \<noteq> k \<Longrightarrow> F j \<inter> F k = {}"
  shows "j \<le> N \<Longrightarrow> \<exists>m. fold g [0..<j] w = w\<lparr>mem := m\<rparr> \<and> (\<forall>k < j. Q k m) \<and> changes_only (\<Union>k < j. F k) (mem w) m"
proof (induction j)
  case 0
  show ?case by (intro exI [of _ "mem w"]) simp
next
  case (Suc j)
  then obtain m where m: "fold g [0..<j] w = w\<lparr>mem := m\<rparr>" "\<forall>k < j. Q k m" "changes_only (\<Union>k < j. F k) (mem w) m"
    by auto
  obtain m' where m': "g j (w\<lparr>mem := m\<rparr>) = w\<lparr>mem := m'\<rparr>" "Q j m'" "changes_only (F j) m m'"
    using step [of j "w\<lparr>mem := m\<rparr>"] Suc.prems by auto
  have "Q k m'" if "k < Suc j" for k
  proof (cases "k = j")
    case False
    then have "agree (F k) m m'"
      using changes_only_agree [OF m'(3)] disjoint [of j k] that Suc.prems by simp
    moreover have "k < N" "Q k m" using m(2) False that Suc.prems by simp_all
    ultimately show ?thesis by (rule stable [rotated 2])
  qed (use m' in simp)
  moreover have "changes_only (\<Union>k < Suc j. F k) (mem w) m'"
    using m(3) m'(3) by (auto simp: changes_only_def lessThan_Suc)
  ultimately show ?case using m(1) m'(1) by auto
qed

section \<open>Defaults\<close>

lemma put_ptr_mem: "put_ptr a v w = w\<lparr>mem := store64 (mem w) a v\<rparr>"
  and put32_mem: "put32 a x w = w\<lparr>mem := store32 (mem w) a x\<rparr>"
  and put_bool_mem: "put_bool a b w = w\<lparr>mem := (mem w)(a := (if b then 1 else 0))\<rparr>"
  and put_bytes_at_mem: "put_bytes_at a bs w = w\<lparr>mem := store_bytes (mem w) a bs\<rparr>"
  by (simp_all add: put_ptr_def put32_def put_bool_def put_bytes_at_def on_mem_def)

lemma changes_store64: "region a 8 \<subseteq> X \<Longrightarrow> changes_only X m (store64 m a v)"
  by (simp add: store64_def changes_only_store)

lemma changes_store32: "region a 4 \<subseteq> X \<Longrightarrow> changes_only X m (store32 m a v)"
  by (simp add: store32_def changes_only_store)

lemma static_scalar_default:
  assumes f: "cur it = f" "plain_field sub f" "PB_ATYPE (f_type f) \<noteq> PB_ATYPE_POINTER"
      "PB_LTYPE (f_type f) \<noteq> PB_LTYPE_SUBMESSAGE"
    and differ: "pSize it \<noteq> pData it"
    and disjoint: "region (pData it) (data_len f) \<inter> region (pSize it) (size_len f) = {}"
  shows "\<exists>m. pb_field_set_to_default E message self it w = w\<lparr>mem := m\<rparr> \<and> m (pSize it) = 0 \<and>
    changes_only (region (pData it) (data_len f) \<union> region (pSize it) (size_len f)) (mem w) m"
proof -
  let ?w = "put_bool (pSize it) False w"
  have t: "PB_LTYPE (f_type f) \<noteq> PB_LTYPE_EXTENSION" "PB_ATYPE (f_type f) = PB_ATYPE_STATIC"
      "PB_HTYPE (f_type f) = PB_HTYPE_OPTIONAL" "size_len f = 1" "data_len f = unat (data_size f)"
    using f by (auto simp: plain_field_def Let_def size_len_def data_len_def)
  obtain bs where bs: "length bs = unat (data_size f)"
      "pb_field_set_to_default E message self it w = put_bytes_at (pData it) bs ?w"
  proof (cases "f_ptr f")
    case PtrNull
    then show ?thesis
      using f t differ that [of "replicate (unat (data_size f)) 0"]
      by (simp add: pb_field_set_to_default_def Let_def memset0_def)
  next
    case (PtrFields gs)
    then show ?thesis using f by (simp add: plain_field_def Let_def)
  next
    case (PtrValue vs)
    then have "unat (data_size f) \<le> length vs" using f by (simp add: plain_field_def Let_def)
    then show ?thesis
      using f t differ PtrValue that [of "take (unat (data_size f)) vs"]
      by (simp add: pb_field_set_to_default_def Let_def)
  qed
  have "pSize it \<notin> region (pData it) (length bs)"
    using disjoint t bs(1) by simp
  then have "store_bytes ((mem w)(pSize it := 0)) (pData it) bs (pSize it) = 0"
    by (simp add: store_bytes_frame)
  then show ?thesis
    using bs t by (auto simp: put_bytes_at_mem put_bool_mem intro!: changes_only_trans [OF _ changes_only_store])
qed

lemma field_default:
  assumes f: "cur it = f" "plain_field (plain d) f"
    and differ: "size_offset f \<noteq> 0 \<Longrightarrow> pSize it \<noteq> pData it"
    and disjoint: "region (pData it) (data_len f) \<inter> region (pSize it) (size_len f) = {}"
    and sub: "\<And>gs w. f_ptr f = PtrFields gs \<Longrightarrow> plain d (unat (data_size f)) gs \<Longrightarrow>
      \<exists>m. message gs (pData it) w = w\<lparr>mem := m\<rparr> \<and> clean d m gs (pData it) \<and>
        changes_only (region (pData it) (unat (data_size f))) (mem w) m"
  shows "\<exists>m. pb_field_set_to_default E message self it w = w\<lparr>mem := m\<rparr> \<and>
    field_clean (clean d m) m f (pData it) (pSize it) \<and>
    changes_only (region (pData it) (data_len f) \<union> region (pSize it) (size_len f)) (mem w) m"
proof -
  consider (pointer) "PB_ATYPE (f_type f) = PB_ATYPE_POINTER"
    | (scalar) "PB_ATYPE (f_type f) \<noteq> PB_ATYPE_POINTER" "PB_LTYPE (f_type f) \<noteq> PB_LTYPE_SUBMESSAGE"
    | (message) "PB_ATYPE (f_type f) \<noteq> PB_ATYPE_POINTER" "PB_LTYPE (f_type f) = PB_LTYPE_SUBMESSAGE"
    by blast
  then show ?thesis
  proof cases
    case pointer
    then have t: "PB_LTYPE (f_type f) \<noteq> PB_LTYPE_EXTENSION" "data_len f = 8" "PB_HTYPE (f_type f) \<noteq> PB_HTYPE_ONEOF"
      using f by (auto simp: plain_field_def Let_def data_len_def)
    show ?thesis
    proof (cases "PB_HTYPE (f_type f) = PB_HTYPE_REPEATED")
      case True
      then have "size_len f = 4" by (simp add: size_len_def)
      then show ?thesis
        using pointer t True f(1)
        by (auto simp: pb_field_set_to_default_def Let_def put_ptr_mem put32_mem field_clean_def
            intro!: changes_only_trans [OF changes_store64 changes_store32])
    next
      case False
      then show ?thesis
        using pointer t f(1)
        by (auto simp: pb_field_set_to_default_def Let_def put_ptr_mem field_clean_def intro!: changes_store64)
    qed
  next
    case scalar
    then have "size_offset f \<noteq> 0" using f by (simp add: plain_field_def Let_def)
    from static_scalar_default [OF f scalar differ [OF this] disjoint, of E message self w]
    show ?thesis using scalar by (auto simp: field_clean_def)
  next
    case message
    then obtain gs where gs: "f_ptr f = PtrFields gs" "plain d (unat (data_size f)) gs"
      using f by (auto simp: plain_field_def Let_def split: pb_ptr.splits)
    have t: "PB_ATYPE (f_type f) = PB_ATYPE_STATIC" "PB_HTYPE (f_type f) = PB_HTYPE_OPTIONAL"
        "size_len f = 1" "data_len f = unat (data_size f)" "pSize it \<noteq> pData it"
      using f message differ by (auto simp: plain_field_def Let_def size_len_def data_len_def)
    obtain m where m: "message gs (pData it) (put_bool (pSize it) False w) = w\<lparr>mem := m\<rparr>" "clean d m gs (pData it)"
        "changes_only (region (pData it) (unat (data_size f))) ((mem w)(pSize it := 0)) m"
      using sub [OF gs, of "put_bool (pSize it) False w"] by (auto simp: put_bool_mem)
    have "m (pSize it) = 0"
      using m(3) disjoint t by (auto simp: changes_only_def)
    moreover have "changes_only (region (pData it) (data_len f) \<union> region (pSize it) (size_len f)) (mem w) m"
      using m(3) t by (auto simp: changes_only_def)
    ultimately show ?thesis
      using m message gs t f(1) by (auto simp: pb_field_set_to_default_def Let_def field_clean_def)
  qed
qed

lemma message_defaults:
  "plain d n fs \<Longrightarrow> n \<le> 2 ^ 64 \<Longrightarrow>
    \<exists>m. pb_message_set_to_defaults d E fs dest w = w\<lparr>mem := m\<rparr> \<and> clean d m fs dest \<and>
      changes_only (region dest n) (mem w) m"
proof (induction d arbitrary: n fs dest w)
  case (Suc d)
  then have wf: "wf_fields fs" and lay: "layout_ok n fs" by simp_all
  let ?Q = "\<lambda>k m. field_clean (clean d m) m (field_at fs k) (data_at fs dest k) (size_at fs dest k)"
  have step: "\<exists>m. field_to_default (Suc d) E (iter_at fs dest k) w = w\<lparr>mem := m\<rparr> \<and> ?Q k m \<and>
      changes_only (footprint fs dest k) (mem w) m" if k: "k < nfields fs" for k w
  proof -
    have sub: "\<exists>m. for_fields (field_to_default d E) gs p w = w\<lparr>mem := m\<rparr> \<and> clean d m gs p \<and>
        changes_only (region p (unat (data_size f))) (mem w) m"
      if "plain d (unat (data_size f)) gs" for f gs p w
      using Suc.IH [OF that, of p w] unat_bound [of "data_size f"] by (simp add: pb_message_set_to_defaults_def)
    show ?thesis
      using field_default [of "iter_at fs dest k" "field_at fs k" d "for_fields (field_to_default d E)" E "field_to_default d E" w]
        plain_field_at [OF Suc.prems(1) k] plain_size_data_differ [OF Suc.prems(1) k, of dest]
        data_size_apart [OF lay Suc.prems(2) k, of dest] sub
      by (simp add: footprint_def)
  qed
  have stable: "?Q k m'" if "k < nfields fs" "?Q k m" "agree (footprint fs dest k) m m'" for k m m'
  proof -
    have "agree (region (data_at fs dest k) (data_len (field_at fs k))) m m'"
      "agree (region (size_at fs dest k) (size_len (field_at fs k))) m m'"
      using that(3) by (auto simp: footprint_def agree_def)
    from field_clean_cong [OF plain_field_at [OF Suc.prems(1) that(1)] this clean_cong] that(2)
    show ?thesis by simp
  qed
  have "\<exists>m. fold (\<lambda>k. field_to_default (Suc d) E (iter_at fs dest k)) [0..<nfields fs] w = w\<lparr>mem := m\<rparr> \<and>
      (\<forall>k < nfields fs. ?Q k m) \<and> changes_only (\<Union>k < nfields fs. footprint fs dest k) (mem w) m"
    by (rule fold_footprints [where N = "nfields fs", OF step stable footprints_apart [OF lay Suc.prems(2)]])
      simp_all
  then obtain m where m: "fold (\<lambda>k. field_to_default (Suc d) E (iter_at fs dest k)) [0..<nfields fs] w = w\<lparr>mem := m\<rparr>"
      "\<forall>k < nfields fs. ?Q k m" "changes_only (\<Union>k < nfields fs. footprint fs dest k) (mem w) m"
    by blast
  have "changes_only (region dest n) (mem w) m"
    by (rule changes_only_mono [OF m(3)]) (use footprint_within [OF lay] in auto)
  then show ?case
    using m(1,2) for_fields_fold [OF wf, of "field_to_default (Suc d) E" dest w]
    by (intro exI [of _ m]) (simp add: pb_message_set_to_defaults_def list_all_iff del: field_to_default.simps)
qed simp

end
