(* ===== verification/PbOStream.thy ===== *)
theory PbOStream
  imports PbStreams
begin

text \<open>
  The \<open>pb_ostream_t\<close> implementation of \<open>pb_encode.c\<close>, and the contract \<open>writes\<close> that every encoding
  operation satisfies: with room for its bytes it appends exactly them, without room it fails and
  touches nothing outside the stream's window.
\<close>

section \<open>Operations\<close>

definition buf_write :: "u8 list \<Rightarrow> 'u est \<Rightarrow> bool \<times> 'u est" where
  "buf_write bs st = (case st of (s, w) \<Rightarrow>
     let off = unat (o_state s);
         s1 = s\<lparr>o_state := o_state s + of_nat (length bs)\<rparr>
     in if off + length bs \<le> length (o_buf s)
        then (True, s1\<lparr>o_buf := put_bytes (o_buf s) off bs\<rparr>, w)
        else (True, s1, raise_fault BufferOverrun w))"

definition pb_ostream_from_buffer :: "u8 list \<Rightarrow> size_t \<Rightarrow> pb_ostream" where
  "pb_ostream_from_buffer buf bufsize =
     \<lparr>o_callback = OBuf, o_buf = buf, o_state = 0, max_size = bufsize, bytes_written = 0,
      o_errmsg = None\<rparr>"

text \<open>The call \<open>stream->callback(stream, buf, count)\<close>; \<open>pb_write\<close> never makes it through \<open>NULL\<close>.\<close>

fun call_ocallback :: "'u env \<Rightarrow> ocallback \<Rightarrow> u8 list \<Rightarrow> 'u est \<Rightarrow> bool \<times> 'u est" where
  "call_ocallback E OSizing bs (s, w) = ofault BadCall (s, w)"
| "call_ocallback E OBuf bs (s, w) = buf_write bs (s, w)"
| "call_ocallback E (OUser k) bs (s, w) =
     (case ostream_fn E k (o_state s) bs w of (ok, st', w') \<Rightarrow> (ok, s\<lparr>o_state := st'\<rparr>, w'))"

definition add_written :: "size_t \<Rightarrow> 'u est \<Rightarrow> bool \<times> 'u est" where
  "add_written count st = (case st of (s, w) \<Rightarrow>
     (True, s\<lparr>bytes_written := bytes_written s + count\<rparr>, w))"

definition pb_write :: "'u env \<Rightarrow> src \<Rightarrow> size_t \<Rightarrow> 'u est \<Rightarrow> bool \<times> 'u est" where
  "pb_write E buf count st = (case st of (s, w) \<Rightarrow>
     if count > 0 \<and> o_callback s \<noteq> OSizing then
       if bytes_written s + count < bytes_written s \<or> bytes_written s + count > max_size s
       then oerror ''stream full'' (s, w)
       else case src_bytes (mem w) buf (unat count) of
              Inl f \<Rightarrow> ofault f (s, w)
            | Inr bs \<Rightarrow>
                (case call_ocallback E (o_callback s) bs (s, w) of (ok, st') \<Rightarrow>
                   if \<not> ok then oerror ''io error'' st' else add_written count st')
     else add_written count (s, w))"

section \<open>Windows\<close>

text \<open>
  A library stream is a sizing stream or a buffer stream. Its invariant says that no error has
  been reported on it and that what may still be written fits into the buffer. Sizes stay below
  \<open>2 ^ 63\<close>, as objects in C do.
\<close>

definition lib_stream :: "pb_ostream \<Rightarrow> bool" where
  "lib_stream s \<longleftrightarrow> o_callback s = OSizing \<or> o_callback s = OBuf"

definition avail :: "pb_ostream \<Rightarrow> nat" where
  "avail s = unat (max_size s) - unat (bytes_written s)"

definition ostream_inv :: "pb_ostream \<Rightarrow> bool" where
  "ostream_inv s \<longleftrightarrow> lib_stream s \<and> o_errmsg s = None \<and>
     (o_callback s = OBuf \<longrightarrow>
        bytes_written s \<le> max_size s \<and> max_size s < 2 ^ 63 \<and> length (o_buf s) < 2 ^ 63 \<and>
        unat (o_state s) + avail s \<le> length (o_buf s))"

definition room :: "pb_ostream \<Rightarrow> nat \<Rightarrow> bool" where
  "room s n \<longleftrightarrow> o_callback s = OSizing \<or> n \<le> avail s"

definition push :: "u8 list \<Rightarrow> pb_ostream \<Rightarrow> pb_ostream" where
  "push bs s =
     (if o_callback s = OBuf
      then s\<lparr>o_buf := put_bytes (o_buf s) (unat (o_state s)) bs,
             o_state := o_state s + of_nat (length bs),
             bytes_written := bytes_written s + of_nat (length bs)\<rparr>
      else s\<lparr>bytes_written := bytes_written s + of_nat (length bs)\<rparr>)"

text \<open>\<open>same_outside s s'\<close>: the buffer of \<open>s'\<close> differs from that of \<open>s\<close> in the window of \<open>s\<close> only.\<close>

definition same_outside :: "pb_ostream \<Rightarrow> pb_ostream \<Rightarrow> bool" where
  "same_outside s s' \<longleftrightarrow> length (o_buf s') = length (o_buf s) \<and>
     (o_callback s \<noteq> OBuf \<longrightarrow> o_buf s' = o_buf s) \<and>
     (\<forall>i < length (o_buf s). i < unat (o_state s) \<or> unat (o_state s) + avail s \<le> i \<longrightarrow>
        o_buf s' ! i = o_buf s ! i)"

section \<open>Laws of the stream\<close>

lemma push_Nil [simp]: "push [] s = s"
  by (simp add: push_def)

lemma push_callback [simp]: "o_callback (push bs s) = o_callback s"
  by (simp add: push_def)

lemma push_errmsg [simp]: "o_errmsg (push bs s) = o_errmsg s"
  by (simp add: push_def)

lemma push_max_size [simp]: "max_size (push bs s) = max_size s"
  by (simp add: push_def)

lemma push_fields:
  assumes "ostream_inv s" and "o_callback s = OBuf" and "length bs \<le> avail s"
  shows "unat (o_state (push bs s)) = unat (o_state s) + length bs"
    and "unat (bytes_written (push bs s)) = unat (bytes_written s) + length bs"
    and "avail (push bs s) = avail s - length bs"
    and "length (o_buf (push bs s)) = length (o_buf s)"
proof -
  have le: "unat (bytes_written s) \<le> unat (max_size s)" and lt: "unat (max_size s) < 2 ^ 63"
    and fit: "unat (o_state s) + avail s \<le> length (o_buf s)" and len: "length (o_buf s) < 2 ^ 63"
    using assms by (auto simp: ostream_inv_def word_le_nat_alt word_less_nat_alt)
  show st: "unat (o_state (push bs s)) = unat (o_state s) + length bs"
    using assms fit len by (simp add: push_def unat_add_of_nat)
  show bw: "unat (bytes_written (push bs s)) = unat (bytes_written s) + length bs"
    using assms le lt by (simp add: push_def unat_add_of_nat avail_def)
  show "avail (push bs s) = avail s - length bs"
    using bw by (simp add: avail_def)
  show "length (o_buf (push bs s)) = length (o_buf s)"
    by (simp add: push_def)
qed

lemma inv_push:
  assumes "ostream_inv s" and "room s (length bs)"
  shows "ostream_inv (push bs s)"
proof (cases "o_callback s = OBuf")
  case True
  then have "length bs \<le> avail s"
    using assms by (simp add: room_def)
  with push_fields [OF assms(1) True] True assms(1) show ?thesis
    by (auto simp: ostream_inv_def lib_stream_def word_le_nat_alt avail_def)
next
  case False
  then show ?thesis
    using assms by (auto simp: ostream_inv_def lib_stream_def push_def)
qed

lemma room_0 [simp]: "room s 0"
  by (simp add: room_def)

lemma room_le: "room s n \<Longrightarrow> m \<le> n \<Longrightarrow> room s m"
  by (auto simp: room_def)

lemma room_push:
  assumes "ostream_inv s" and "room s (length a)"
  shows "room (push a s) n \<longleftrightarrow> room s (length a + n)"
proof (cases "o_callback s = OBuf")
  case True
  then show ?thesis
    using assms push_fields(3) [OF assms(1) True] by (auto simp: room_def)
next
  case False
  then show ?thesis
    using assms by (auto simp: room_def ostream_inv_def lib_stream_def)
qed

lemma push_append:
  assumes "ostream_inv s" and "room s (length a)"
  shows "push b (push a s) = push (a @ b) s"
proof (cases "o_callback s = OBuf")
  case True
  then have "length a \<le> avail s"
    using assms by (simp add: room_def)
  from push_fields(1) [OF assms(1) True this] True show ?thesis
    by (simp add: push_def put_bytes_append add.assoc)
next
  case False
  then show ?thesis
    by (simp add: push_def)
qed

definition outside :: "pb_ostream \<Rightarrow> pb_ostream \<Rightarrow> bool" where
  "outside s s' \<longleftrightarrow> o_callback s' = o_callback s \<and> same_outside s s'"

definition full :: "pb_ostream \<Rightarrow> pb_ostream \<Rightarrow> bool" where
  "full s s' \<longleftrightarrow> outside s s' \<and> o_errmsg s' \<noteq> None"

lemma outside_push:
  assumes "ostream_inv s" and "room s (length a)" and "outside (push a s) s'"
  shows "outside s s'"
proof (cases "o_callback s = OBuf")
  case True
  then have le: "length a \<le> avail s"
    using assms by (simp add: room_def)
  note f = push_fields [OF assms(1) True le]
  have fit: "unat (o_state s) + avail s \<le> length (o_buf s)"
    using assms(1) True by (simp add: ostream_inv_def)
  have "o_buf s' ! i = o_buf s ! i"
    if i: "i < length (o_buf s)" "i < unat (o_state s) \<or> unat (o_state s) + avail s \<le> i" for i
  proof -
    have "o_buf s' ! i = o_buf (push a s) ! i"
      using assms(3) f i le by (auto simp: outside_def same_outside_def)
    also have "\<dots> = o_buf s ! i"
      using True i le fit by (auto simp: push_def nth_put_bytes)
    finally show ?thesis .
  qed
  then show ?thesis
    using assms(3) f True by (simp add: outside_def same_outside_def)
next
  case False
  then show ?thesis
    using assms(3) by (auto simp: outside_def same_outside_def push_def avail_def)
qed

lemma outside_refl: "outside s s"
  by (simp add: outside_def same_outside_def)

lemma outside_errmsg: "outside s s' \<Longrightarrow> outside s (s'\<lparr>o_errmsg := e\<rparr>)"
  by (simp add: outside_def same_outside_def)

lemma full_push: "ostream_inv s \<Longrightarrow> room s (length a) \<Longrightarrow> full (push a s) s' \<Longrightarrow> full s s'"
  by (auto simp: full_def intro: outside_push)

lemma full_outside: "full s s' \<Longrightarrow> outside s s'"
  by (simp add: full_def)

section \<open>The contract of an output operation\<close>

text \<open>
  \<open>emits_on \<dots> f w r\<close>: run in the world \<open>w\<close> on a stream that satisfies the invariant, \<open>f\<close> leaves the
  world alone and, when \<open>r\<close> is \<open>Some bs\<close>, succeeds and appends \<open>bs\<close> if there is room and fails with
  an error message otherwise; when \<open>r\<close> is \<open>None\<close> it fails. A failing run may have written a part of
  its output, inside the window only.
\<close>

definition emits_on ::
  "('s \<Rightarrow> bool) \<Rightarrow> ('s \<Rightarrow> nat \<Rightarrow> bool) \<Rightarrow> (u8 list \<Rightarrow> 's \<Rightarrow> 's) \<Rightarrow> ('s \<Rightarrow> 's \<Rightarrow> bool) \<Rightarrow> ('s \<Rightarrow> 's \<Rightarrow> bool)
    \<Rightarrow> ('s \<times> 'w \<Rightarrow> bool \<times> 's \<times> 'w) \<Rightarrow> 'w \<Rightarrow> u8 list option \<Rightarrow> bool" where
  "emits_on valid fits app part over f w r \<longleftrightarrow>
     (\<forall>s. valid s \<longrightarrow>
       (case r of
          Some bs \<Rightarrow> if fits s (length bs) then f (s, w) = (True, app bs s, w)
                     else (\<exists>s'. f (s, w) = (False, s', w) \<and> over s s')
        | None \<Rightarrow> (\<exists>s'. f (s, w) = (False, s', w) \<and> part s s')))"

locale sink =
  fixes valid :: "'s \<Rightarrow> bool"
    and fits :: "'s \<Rightarrow> nat \<Rightarrow> bool"
    and app :: "u8 list \<Rightarrow> 's \<Rightarrow> 's"
    and part :: "'s \<Rightarrow> 's \<Rightarrow> bool"
    and over :: "'s \<Rightarrow> 's \<Rightarrow> bool"
  assumes inv_app: "valid s \<Longrightarrow> fits s (length a) \<Longrightarrow> valid (app a s)"
    and app_Nil: "app [] s = s"
    and app_append: "valid s \<Longrightarrow> fits s (length a) \<Longrightarrow> app b (app a s) = app (a @ b) s"
    and fits_0: "fits s 0"
    and fits_le: "fits s n \<Longrightarrow> m \<le> n \<Longrightarrow> fits s m"
    and fits_app: "valid s \<Longrightarrow> fits s (length a) \<Longrightarrow> fits (app a s) n \<longleftrightarrow> fits s (length a + n)"
    and part_app: "valid s \<Longrightarrow> fits s (length a) \<Longrightarrow> part (app a s) s' \<Longrightarrow> part s s'"
    and over_app: "valid s \<Longrightarrow> fits s (length a) \<Longrightarrow> over (app a s) s' \<Longrightarrow> over s s'"
    and over_part: "over s s' \<Longrightarrow> part s s'"
begin

abbreviation op_emits where
  "op_emits \<equiv> emits_on valid fits app part over"

lemma emits_ret: "op_emits ret w (Some [])"
  by (simp add: emits_on_def ret_def app_Nil fits_0)

lemma emits_cong:
  assumes "\<And>s. g (s, w) = f (s, w)"
  shows "op_emits g w r \<longleftrightarrow> op_emits f w r"
  unfolding emits_on_def assms by (rule refl)

lemma emits_fits:
  "op_emits f w (Some bs) \<Longrightarrow> valid s \<Longrightarrow> fits s (length bs) \<Longrightarrow> f (s, w) = (True, app bs s, w)"
  by (simp add: emits_on_def)

lemma emits_over:
  "op_emits f w (Some bs) \<Longrightarrow> valid s \<Longrightarrow> \<not> fits s (length bs) \<Longrightarrow>
    \<exists>s'. f (s, w) = (False, s', w) \<and> over s s'"
  by (simp add: emits_on_def)

lemma emits_None:
  "op_emits f w None \<Longrightarrow> valid s \<Longrightarrow> \<exists>s'. f (s, w) = (False, s', w) \<and> part s s'"
  by (simp add: emits_on_def)

lemma emits_andthen:
  assumes f: "op_emits f w (Some a)" and g: "op_emits g w r"
  shows "op_emits (andthen f g) w (map_option ((@) a) r)"
proof -
  have "case map_option ((@) a) r of
          Some bs \<Rightarrow> if fits s (length bs) then andthen f g (s, w) = (True, app bs s, w)
                     else (\<exists>s'. andthen f g (s, w) = (False, s', w) \<and> over s s')
        | None \<Rightarrow> (\<exists>s'. andthen f g (s, w) = (False, s', w) \<and> part s s')"
    if s: "valid s" for s
  proof (cases "fits s (length a)")
    case True
    then have run: "andthen f g (s, w) = g (app a s, w)"
      using emits_fits [OF f s] by (simp add: andthen_True)
    have valid: "valid (app a s)"
      using s True by (rule inv_app)
    show ?thesis
    proof (cases r)
      case None
      then show ?thesis
        using emits_None [OF _ valid, of g w] g run part_app [OF s True] by auto
    next
      case (Some b)
      then show ?thesis
        using emits_fits [OF _ valid, of g w b] emits_over [OF _ valid, of g w b] g run
          fits_app [OF s True, of "length b"] app_append [OF s True, of b] over_app [OF s True]
        by auto
    qed
  next
    case False
    then obtain s' where "andthen f g (s, w) = (False, s', w)" and "over s s'"
      using emits_over [OF f s] by (auto simp: andthen_False)
    moreover have "\<not> fits s (length a + n)" for n
      using False fits_le by auto
    ultimately show ?thesis
      by (cases r) (auto intro: over_part)
  qed
  then show ?thesis
    by (simp add: emits_on_def)
qed

lemma emits_andthen_None: "op_emits f w None \<Longrightarrow> op_emits (andthen f g) w None"
  by (fastforce simp: emits_on_def andthen_def)

text \<open>Bind for results: nothing is emitted once an operation has failed.\<close>

lemma emits_andthen_bind:
  assumes "op_emits f w r" and "\<And>a. r = Some a \<Longrightarrow> op_emits g w r'"
  shows "op_emits (andthen f g) w (Option.bind r (\<lambda>a. map_option ((@) a) r'))"
  using assms by (cases r) (auto intro: emits_andthen emits_andthen_None)

lemma emits_andthen_Some:
  "op_emits f w (Some a) \<Longrightarrow> op_emits g w (Some b) \<Longrightarrow> op_emits (andthen f g) w (Some (a @ b))"
  using emits_andthen [of f w a g "Some b"] by simp

end

interpretation ostream: sink ostream_inv room push outside full
  by unfold_locales
    (auto simp: push_append room_push full_outside intro: inv_push outside_push full_push elim: room_le)

abbreviation emits :: "('u est \<Rightarrow> bool \<times> 'u est) \<Rightarrow> 'u world \<Rightarrow> u8 list option \<Rightarrow> bool" where
  "emits \<equiv> emits_on ostream_inv room push outside full"

end
