(* ===== verification/PbWireOut.thy ===== *)
theory PbWireOut
  imports PbOStream
begin

text \<open>
  The helper functions of \<open>pb_encode.c\<close> that write one wire-format element: varints, zig-zag
  varints, fixed-width integers, field keys and length-prefixed strings, each with the bytes it
  emits.
\<close>

section \<open>Writing\<close>

lemma stream_full_iff:
  fixes bw c mx :: u64
  assumes "bw \<le> mx"
  shows "bw + c < bw \<or> mx < bw + c \<longleftrightarrow> unat mx - unat bw < unat c"
proof (cases "unat bw + unat c < 2 ^ 64")
  case True
  then have "unat (bw + c) = unat bw + unat c"
    by (simp add: unat_word_ariths)
  with assms show ?thesis
    by (auto simp: word_le_nat_alt word_less_nat_alt)
next
  case False
  then have "unat (bw + c) = unat bw + unat c - 2 ^ 64"
    using unat_bound [of bw] unat_bound [of c] by (simp add: unat_word_ariths mod_if)
  with False show ?thesis
    using assms unat_bound [of bw] unat_bound [of c] unat_bound [of mx]
    by (auto simp: word_le_nat_alt word_less_nat_alt)
qed

lemma src_bytes_length: "src_bytes m b n = Inr bs \<Longrightarrow> length bs = n"
  by (cases b) (auto split: if_splits)

lemma pb_write_emits:
  assumes bs: "count = 0 \<and> bs = [] \<or> src_bytes (mem w) b (unat count) = Inr bs"
  shows "emits (pb_write E b count) w (Some bs)"
proof -
  have len: "length bs = unat count"
    using bs src_bytes_length by auto
  then have cnt: "of_nat (length bs) = count"
    by simp
  have "if room s (length bs) then pb_write E b count (s, w) = (True, push bs s, w)
        else (\<exists>s'. pb_write E b count (s, w) = (False, s', w) \<and> full s s')"
    if s: "ostream_inv s" for s
  proof (cases "o_callback s = OBuf")
    case True
    have "bytes_written s \<le> max_size s" and fit: "unat (o_state s) + avail s \<le> length (o_buf s)"
      using s True by (auto simp: ostream_inv_def)
    then have *: "bytes_written s + count < bytes_written s \<or> max_size s < bytes_written s + count
        \<longleftrightarrow> avail s < length bs"
      using stream_full_iff len by (simp add: avail_def)
    show ?thesis
    proof (cases "count = 0")
      case True
      with len show ?thesis
        by (simp add: pb_write_def add_written_def)
    next
      case False
      then have src: "src_bytes (mem w) b (unat count) = Inr bs" and pos: "0 < count"
        using bs by (auto simp: word_gt_0)
      show ?thesis
      proof (cases "avail s < length bs")
        case full: True
        then have "pb_write E b count (s, w) = oerror ''stream full'' (s, w)"
          using * pos \<open>o_callback s = OBuf\<close> by (simp add: pb_write_def)
        with full \<open>o_callback s = OBuf\<close> show ?thesis
          by (simp add: room_def oerror_def full_def outside_errmsg [OF outside_refl])
      next
        case False
        then show ?thesis
          using * pos src True cnt fit
          by (simp add: pb_write_def room_def buf_write_def Let_def push_def add_written_def)
      qed
    qed
  next
    case False
    then have "o_callback s = OSizing"
      using s by (auto simp: ostream_inv_def lib_stream_def)
    with cnt show ?thesis
      by (simp add: pb_write_def room_def push_def add_written_def)
  qed
  then show ?thesis
    by (simp add: emits_on_def)
qed

lemma pb_write_sizing:
  "o_callback s = OSizing \<Longrightarrow>
    pb_write E b count (s, w) = (True, s\<lparr>bytes_written := bytes_written s + count\<rparr>, w)"
  by (simp add: pb_write_def add_written_def)

lemma pb_write_local_emits:
  "length bs < 2 ^ 64 \<Longrightarrow> emits (pb_write E (SrcLocal bs) (of_nat (length bs))) w (Some bs)"
  by (rule pb_write_emits) (simp add: unsigned_of_nat take_bit_nat_eq_self)

section \<open>Varints\<close>

text \<open>
  The wire format of a varint: seven bits a byte, least significant first, with the top bit set
  on every byte but the last.
\<close>

function varint_bytes :: "u64 \<Rightarrow> u8 list" where
  "varint_bytes v =
     (if v < 128 then [ucast v] else (ucast (v AND 0x7F) OR 0x80) # varint_bytes (drop_bit 7 v))"
  by pat_completeness auto
termination
  by (relation "measure unat") (simp_all add: unat_drop_bit word_less_nat_alt)

declare varint_bytes.simps [simp del]

text \<open>
  The loop of \<open>pb_encode_varint\<close>: the bytes it stores in \<open>buffer\<close>. The array has 10 entries; a
  longer run would leave it.
\<close>

function varint_loop :: "u64 \<Rightarrow> u8 list" where
  "varint_loop v = (if v = 0 then [] else ucast ((v AND 0x7F) OR 0x80) # varint_loop (drop_bit 7 v))"
  by pat_completeness auto
termination
  by (relation "measure unat") (simp_all add: unat_drop_bit unat_gt_0)

declare varint_loop.simps [simp del]

definition pb_encode_varint :: "'u env \<Rightarrow> u64 \<Rightarrow> 'u est \<Rightarrow> bool \<times> 'u est" where
  "pb_encode_varint E v =
     (if v \<le> 0x7F then pb_write E (SrcLocal [ucast v]) 1
      else
        let buffer = varint_loop v; i = length buffer in
        if i > 10 then ofault BufferOverrun
        else pb_write E (SrcLocal (buffer[i - 1 := buffer ! (i - 1) AND 0x7F])) (of_nat i))"

lemma varint_loop_length: "unat v < 2 ^ (7 * n) \<Longrightarrow> length (varint_loop v) \<le> n"
proof (induction n arbitrary: v)
  case 0
  then show ?case by (simp add: varint_loop.simps unat_eq_zero)
next
  case (Suc n)
  then have "unat (drop_bit 7 v) < 2 ^ (7 * n)"
    by (simp add: unat_drop_bit power_add less_mult_imp_div_less mult.commute)
  then show ?case
    using Suc.IH [of "drop_bit 7 v"] by (simp add: varint_loop.simps [of v])
qed

lemma varint_loop_10: "length (varint_loop v) \<le> 10"
proof (rule varint_loop_length)
  show "unat v < 2 ^ (7 * 10)"
    using unat_bound [of v] by simp
qed

lemma varint_bytes_not_Nil [simp]: "varint_bytes v \<noteq> []"
  by (simp add: varint_bytes.simps)

text \<open>Clearing the top bit of the last byte turns the loop's bytes into the wire format.\<close>

lemma varint_loop_bytes:
  "v \<noteq> 0 \<Longrightarrow>
    (varint_loop v)[length (varint_loop v) - 1 := varint_loop v ! (length (varint_loop v) - 1) AND 0x7F]
      = varint_bytes v"
proof (induction v rule: varint_loop.induct)
  case (1 v)
  show ?case
  proof (cases "v < 128")
    case True
    then have "drop_bit 7 v = 0"
      by (simp add: unat_drop_bit word_less_nat_alt flip: unat_eq_zero)
    moreover have "ucast ((v AND 0x7F) OR 0x80) AND 0x7F = (ucast v :: u8)"
    proof (rule bit_word_eqI)
      fix n
      have "\<not> bit v 7"
        using arg_cong [OF take_bit_less_128 [OF True], of "\<lambda>x. bit x 7"] by (simp add: bit_simps)
      then show "bit (ucast ((v AND 0x7F) OR 0x80) AND 0x7F :: u8) n = bit (ucast v :: u8) n"
        by (cases "n = 7") (auto simp: and_7F or_80 bit_simps)
    qed
    ultimately show ?thesis
      using True 1 by (simp add: varint_loop.simps [of v] varint_loop.simps [of 0] varint_bytes.simps [of v])
  next
    case False
    then have nz: "drop_bit 7 v \<noteq> 0"
      by (simp add: unat_drop_bit word_less_nat_alt flip: unat_eq_zero)
    then have "varint_loop (drop_bit 7 v) \<noteq> []"
      by (simp add: varint_loop.simps)
    moreover have "ucast ((v AND 0x7F) OR 0x80) = (ucast (v AND 0x7F) OR 0x80 :: u8)"
      by (intro bit_word_eqI) (auto simp: and_7F or_80 bit_simps)
    ultimately show ?thesis
      using False 1 nz
      by (cases "varint_loop (drop_bit 7 v)")
        (simp_all add: varint_loop.simps [of v] varint_bytes.simps [of v])
  qed
qed

theorem pb_encode_varint_emits: "emits (pb_encode_varint E v) w (Some (varint_bytes v))"
proof (cases "v \<le> 0x7F")
  case True
  then have "varint_bytes v = [ucast v]"
    by (simp add: varint_bytes.simps word_le_nat_alt word_less_nat_alt)
  with True show ?thesis
    using pb_write_local_emits [of "[ucast v]" E w] by (simp add: pb_encode_varint_def)
next
  case False
  then have "v \<noteq> 0" by auto
  note bytes = varint_loop_bytes [OF this]
  have "length (varint_bytes v) = length (varint_loop v)"
    using bytes by (metis length_list_update)
  then show ?thesis
    using False bytes varint_loop_10 [of v] pb_write_local_emits [of "varint_bytes v" E w]
    by (simp add: pb_encode_varint_def Let_def)
qed

text \<open>A varint has between one and ten bytes, so \<open>buffer[10]\<close> is never left.\<close>

lemma varint_bytes_length: "length (varint_bytes v) \<le> 10"
proof (cases "v = 0")
  case True
  then show ?thesis by (simp add: varint_bytes.simps)
next
  case False
  then show ?thesis
    using varint_loop_bytes [OF False] varint_loop_10 [of v] by (metis length_list_update)
qed

section \<open>Zig-zag varints\<close>

text \<open>\<open>pb_int64_t\<close> is a 64-bit word read as two's complement.\<close>

definition zigzag :: "u64 \<Rightarrow> u64" where
  "zigzag v = (if sint v < 0 then NOT (push_bit 1 v) else push_bit 1 v)"

definition pb_encode_svarint :: "'u env \<Rightarrow> u64 \<Rightarrow> 'u est \<Rightarrow> bool \<times> 'u est" where
  "pb_encode_svarint E v = pb_encode_varint E (zigzag v)"

lemma pb_encode_svarint_emits: "emits (pb_encode_svarint E v) w (Some (varint_bytes (zigzag v)))"
  by (simp add: pb_encode_svarint_def pb_encode_varint_emits)

section \<open>Fixed-width integers\<close>

definition pb_encode_fixed32 :: "'u env \<Rightarrow> addr \<Rightarrow> 'u est \<Rightarrow> bool \<times> 'u est" where
  "pb_encode_fixed32 E a st = (case st of (s, w) \<Rightarrow>
     let val = load32 (mem w) a;
         bytes = [ucast (val AND 0xFF), ucast (drop_bit 8 val AND 0xFF),
                  ucast (drop_bit 16 val AND 0xFF), ucast (drop_bit 24 val AND 0xFF)]
     in pb_write E (SrcLocal bytes) 4 (s, w))"

definition pb_encode_fixed64 :: "'u env \<Rightarrow> addr \<Rightarrow> 'u est \<Rightarrow> bool \<times> 'u est" where
  "pb_encode_fixed64 E a st = (case st of (s, w) \<Rightarrow>
     let val = load64 (mem w) a;
         bytes = [ucast (val AND 0xFF), ucast (drop_bit 8 val AND 0xFF),
                  ucast (drop_bit 16 val AND 0xFF), ucast (drop_bit 24 val AND 0xFF),
                  ucast (drop_bit 32 val AND 0xFF), ucast (drop_bit 40 val AND 0xFF),
                  ucast (drop_bit 48 val AND 0xFF), ucast (drop_bit 56 val AND 0xFF)]
     in pb_write E (SrcLocal bytes) 8 (s, w))"

lemma ucast_and_FF: "ucast (x AND 0xFF) = (ucast x :: u8)" for x :: "'a::len word"
proof -
  have "x AND 0xFF = take_bit 8 x"
    by (simp add: take_bit_eq_mask mask_eq_exp_minus_1)
  then show ?thesis
    by (intro bit_word_eqI) (auto simp: bit_simps)
qed

lemma bytes_le_4:
  "bytes_le 4 v = [ucast v, ucast (drop_bit 8 v), ucast (drop_bit 16 v), ucast (drop_bit 24 v)]"
  by (simp add: bytes_le_def upt_conv_Cons)

lemma bytes_le_8:
  "bytes_le 8 v = [ucast v, ucast (drop_bit 8 v), ucast (drop_bit 16 v), ucast (drop_bit 24 v),
     ucast (drop_bit 32 v), ucast (drop_bit 40 v), ucast (drop_bit 48 v), ucast (drop_bit 56 v)]"
  by (simp add: bytes_le_def upt_conv_Cons)

lemma pb_encode_fixed32_emits:
  "emits (pb_encode_fixed32 E a) w (Some (bytes_le 4 (load32 (mem w) a)))"
  using pb_write_local_emits [of "bytes_le 4 (load32 (mem w) a)" E w]
  by (subst ostream.emits_cong) (simp_all add: pb_encode_fixed32_def Let_def ucast_and_FF bytes_le_4)

lemma pb_encode_fixed64_emits:
  "emits (pb_encode_fixed64 E a) w (Some (bytes_le 8 (load64 (mem w) a)))"
  using pb_write_local_emits [of "bytes_le 8 (load64 (mem w) a)" E w]
  by (subst ostream.emits_cong) (simp_all add: pb_encode_fixed64_def Let_def ucast_and_FF bytes_le_8)

section \<open>Field keys\<close>

definition pb_encode_tag :: "'u env \<Rightarrow> pb_wire_type_t \<Rightarrow> u32 \<Rightarrow> 'u est \<Rightarrow> bool \<times> 'u est" where
  "pb_encode_tag E wiretype field_number =
     pb_encode_varint E (push_bit 3 (ucast field_number) OR ucast wiretype)"

definition tag_bytes :: "pb_wire_type_t \<Rightarrow> u32 \<Rightarrow> u8 list" where
  "tag_bytes wt n = varint_bytes (push_bit 3 (ucast n) OR ucast wt)"

lemma pb_encode_tag_emits: "emits (pb_encode_tag E wt n) w (Some (tag_bytes wt n))"
  by (simp add: pb_encode_tag_def tag_bytes_def pb_encode_varint_emits)

text \<open>The wire type of a field's elements; \<open>None\<close> is the default case of the switch.\<close>

definition field_wiretype :: "pb_field \<Rightarrow> pb_wire_type_t option" where
  "field_wiretype f =
     (let t = PB_LTYPE (f_type f) in
      if t \<in> {PB_LTYPE_BOOL, PB_LTYPE_VARINT, PB_LTYPE_UVARINT, PB_LTYPE_SVARINT} then Some PB_WT_VARINT
      else if t = PB_LTYPE_FIXED32 then Some PB_WT_32BIT
      else if t = PB_LTYPE_FIXED64 then Some PB_WT_64BIT
      else if t \<in> {PB_LTYPE_BYTES, PB_LTYPE_STRING, PB_LTYPE_SUBMESSAGE, PB_LTYPE_FIXED_LENGTH_BYTES}
      then Some PB_WT_STRING
      else None)"

definition pb_encode_tag_for_field :: "'u env \<Rightarrow> pb_field \<Rightarrow> 'u est \<Rightarrow> bool \<times> 'u est" where
  "pb_encode_tag_for_field E f =
     (case field_wiretype f of
        None \<Rightarrow> oerror ''invalid field type''
      | Some wt \<Rightarrow> pb_encode_tag E wt (f_tag f))"

lemma oerror_emits: "emits (oerror msg) w None"
  by (simp add: emits_on_def oerror_def outside_errmsg outside_refl)

lemma pb_encode_tag_for_field_emits:
  "emits (pb_encode_tag_for_field E f) w (map_option (\<lambda>wt. tag_bytes wt (f_tag f)) (field_wiretype f))"
  by (simp add: pb_encode_tag_for_field_def oerror_emits pb_encode_tag_emits split: option.split)

section \<open>Length-prefixed strings\<close>

definition pb_encode_string :: "'u env \<Rightarrow> src \<Rightarrow> size_t \<Rightarrow> 'u est \<Rightarrow> bool \<times> 'u est" where
  "pb_encode_string E b n = andthen (pb_encode_varint E n) (pb_write E b n)"

definition string_bytes :: "u8 list \<Rightarrow> u8 list" where
  "string_bytes bs = varint_bytes (of_nat (length bs)) @ bs"

lemma pb_encode_string_emits:
  assumes "n = 0 \<and> bs = [] \<or> src_bytes (mem w) b (unat n) = Inr bs"
  shows "emits (pb_encode_string E b n) w (Some (string_bytes bs))"
proof -
  have "of_nat (length bs) = n"
    using assms src_bytes_length by fastforce
  with ostream.emits_andthen_Some [OF pb_encode_varint_emits pb_write_emits [OF assms], of E n E]
  show ?thesis
    by (simp add: pb_encode_string_def string_bytes_def)
qed

end
