(* ===== verification/PbEncode.thy ===== *)
theory PbEncode
  imports PbWireOut PbIter
begin

text \<open>
  The field and message encoders of \<open>pb_encode.c\<close>. The C functions call each other in a circle
  through submessages; here every function between \<open>pb_encode\<close> and its recursive call takes that
  call as the argument \<open>enc\<close>, and \<open>pb_encode\<close> at depth \<open>Suc d\<close> ties the knot with itself at depth
  \<open>d\<close>. The depth is the number of nested \<open>pb_encode\<close> calls the run may have on its stack; running
  out of it is the fault \<open>RecursionBudget\<close>.
\<close>

type_synonym 'u enc = "'u est \<Rightarrow> bool \<times> 'u est"

section \<open>Scalars in memory\<close>

text \<open>\<open>sizeof(bool)\<close> is 1, so the loop of \<open>safe_read_bool\<close> looks at one byte.\<close>

definition safe_read_bool :: "memory \<Rightarrow> addr \<Rightarrow> bool" where
  "safe_read_bool m a \<longleftrightarrow> m a \<noteq> 0"

text \<open>The integer of \<open>data_size\<close> bytes at \<open>src\<close>, sign- or zero-extended to 64 bits.\<close>

definition read_signed :: "memory \<Rightarrow> pb_field \<Rightarrow> addr \<Rightarrow> u64 option" where
  "read_signed m f src =
     (if data_size f = 1 then Some (scast (m src))
      else if data_size f = 2 then Some (scast (load16 m src))
      else if data_size f = 4 then Some (scast (load32 m src))
      else if data_size f = 8 then Some (load64 m src)
      else None)"

definition read_unsigned :: "memory \<Rightarrow> pb_field \<Rightarrow> addr \<Rightarrow> u64 option" where
  "read_unsigned m f src =
     (if data_size f = 1 then Some (ucast (m src))
      else if data_size f = 2 then Some (ucast (load16 m src))
      else if data_size f = 4 then Some (ucast (load32 m src))
      else if data_size f = 8 then Some (load64 m src)
      else None)"

text \<open>The loop that stands for \<open>strnlen\<close> in \<open>pb_enc_string\<close>.\<close>

function cstr_len :: "memory \<Rightarrow> addr \<Rightarrow> size_t \<Rightarrow> size_t \<Rightarrow> size_t" where
  "cstr_len m p n mx = (if n < mx \<and> m p \<noteq> 0 then cstr_len m (p + 1) (n + 1) mx else n)"
  by pat_completeness auto
termination
proof (relation "measure (\<lambda>(m, p, n, mx). unat mx - unat n)", goal_cases)
  case (2 m p n mx)
  then have "n < mx" by simp
  moreover from this have "unat (n + 1) = Suc (unat n)"
    using unat_add_of_nat [of n 1] unat_bound [of mx] by (simp add: word_less_nat_alt)
  ultimately show ?case
    by (simp add: word_less_nat_alt)
qed simp

declare cstr_len.simps [simp del]

section \<open>Element encoders\<close>

definition pb_enc_bool :: "'u env \<Rightarrow> pb_field \<Rightarrow> addr \<Rightarrow> 'u enc" where
  "pb_enc_bool E f src st = (case st of (s, w) \<Rightarrow>
     pb_encode_varint E (if safe_read_bool (mem w) src then 1 else 0) (s, w))"

definition pb_enc_varint :: "'u env \<Rightarrow> pb_field \<Rightarrow> addr \<Rightarrow> 'u enc" where
  "pb_enc_varint E f src st = (case st of (s, w) \<Rightarrow>
     (case read_signed (mem w) f src of
        None \<Rightarrow> oerror ''invalid data_size'' (s, w)
      | Some v \<Rightarrow> pb_encode_varint E v (s, w)))"

definition pb_enc_uvarint :: "'u env \<Rightarrow> pb_field \<Rightarrow> addr \<Rightarrow> 'u enc" where
  "pb_enc_uvarint E f src st = (case st of (s, w) \<Rightarrow>
     (case read_unsigned (mem w) f src of
        None \<Rightarrow> oerror ''invalid data_size'' (s, w)
      | Some v \<Rightarrow> pb_encode_varint E v (s, w)))"

definition pb_enc_svarint :: "'u env \<Rightarrow> pb_field \<Rightarrow> addr \<Rightarrow> 'u enc" where
  "pb_enc_svarint E f src st = (case st of (s, w) \<Rightarrow>
     (case read_signed (mem w) f src of
        None \<Rightarrow> oerror ''invalid data_size'' (s, w)
      | Some v \<Rightarrow> pb_encode_svarint E v (s, w)))"

definition pb_enc_fixed32 :: "'u env \<Rightarrow> pb_field \<Rightarrow> addr \<Rightarrow> 'u enc" where
  "pb_enc_fixed32 E f src = pb_encode_fixed32 E src"

definition pb_enc_fixed64 :: "'u env \<Rightarrow> pb_field \<Rightarrow> addr \<Rightarrow> 'u enc" where
  "pb_enc_fixed64 E f src = pb_encode_fixed64 E src"

definition pb_enc_bytes :: "'u env \<Rightarrow> pb_field \<Rightarrow> addr \<Rightarrow> 'u enc" where
  "pb_enc_bytes E f src st = (case st of (s, w) \<Rightarrow>
     if src = 0 then pb_encode_string E SrcNull 0 (s, w)
     else
       let size = load32 (mem w) src; allocsize = PB_BYTES_ARRAY_T_ALLOCSIZE size in
       if allocsize < ucast size
          \<or> PB_ATYPE (f_type f) = PB_ATYPE_STATIC \<and> allocsize > ucast (data_size f)
       then oerror ''bytes size exceeded'' (s, w)
       else pb_encode_string E (SrcMem (src + bytes_offset)) (ucast size) (s, w))"

text \<open>A pointer argument that may be \<open>NULL\<close>.\<close>

definition ptr_src :: "addr \<Rightarrow> src" where
  "ptr_src a = (if a = 0 then SrcNull else SrcMem a)"

definition pb_enc_string :: "'u env \<Rightarrow> pb_field \<Rightarrow> addr \<Rightarrow> 'u enc" where
  "pb_enc_string E f src st = (case st of (s, w) \<Rightarrow>
     let mx = (if PB_ATYPE (f_type f) = PB_ATYPE_POINTER then - 1 else ucast (data_size f));
         size = (if src = 0 then 0 else cstr_len (mem w) src 0 mx)
     in pb_encode_string E (ptr_src src) size (s, w))"

definition pb_enc_fixed_length_bytes :: "'u env \<Rightarrow> pb_field \<Rightarrow> addr \<Rightarrow> 'u enc" where
  "pb_enc_fixed_length_bytes E f src = pb_encode_string E (ptr_src src) (ucast (data_size f))"

section \<open>Submessages\<close>

definition pb_encode_submessage ::
  "'u env \<Rightarrow> (pb_field list \<Rightarrow> addr \<Rightarrow> 'u enc) \<Rightarrow> pb_field list \<Rightarrow> addr \<Rightarrow> 'u enc" where
  "pb_encode_submessage E enc fs src st = (case st of (s, w) \<Rightarrow>
     (case enc fs src (PB_OSTREAM_SIZING, w) of (ok, sub, w1) \<Rightarrow>
        if \<not> ok then (False, s\<lparr>o_errmsg := o_errmsg sub\<rparr>, w1)
        else
          let size = bytes_written sub in
          andthen (pb_encode_varint E size)
            (\<lambda>(s2, w2).
               if o_callback s2 = OSizing then pb_write E SrcNull size (s2, w2)
               else if bytes_written s2 + size > max_size s2 then oerror ''stream full'' (s2, w2)
               else
                 (case enc fs src (s2\<lparr>max_size := size, bytes_written := 0, o_errmsg := None\<rparr>, w2)
                  of (status, sub2, w3) \<Rightarrow>
                    let s3 = s2\<lparr>o_buf := o_buf sub2, o_state := o_state sub2,
                                bytes_written := bytes_written s2 + bytes_written sub2,
                                o_errmsg := o_errmsg sub2\<rparr>
                    in if bytes_written sub2 \<noteq> size then oerror ''submsg size changed'' (s3, w3)
                       else (status, s3, w3)))
            (s, w1)))"

definition pb_enc_submessage ::
  "'u env \<Rightarrow> (pb_field list \<Rightarrow> addr \<Rightarrow> 'u enc) \<Rightarrow> pb_field \<Rightarrow> addr \<Rightarrow> 'u enc" where
  "pb_enc_submessage E enc f src =
     (case f_ptr f of
        PtrNull \<Rightarrow> oerror ''invalid field descriptor''
      | PtrFields fs \<Rightarrow> pb_encode_submessage E enc fs src
      | PtrValue _ \<Rightarrow> ofault BadDescriptor)"

text \<open>
  The table \<open>PB_ENCODERS\<close>: its entry for extensions is \<open>NULL\<close>, and \<open>encode_basic_field\<close> looks up no
  entry past its end.
\<close>

definition PB_ENCODERS ::
  "'u env \<Rightarrow> (pb_field list \<Rightarrow> addr \<Rightarrow> 'u enc) \<Rightarrow> u8 \<Rightarrow> pb_field \<Rightarrow> addr \<Rightarrow> 'u enc" where
  "PB_ENCODERS E enc t =
     (if t = PB_LTYPE_BOOL then pb_enc_bool E
      else if t = PB_LTYPE_VARINT then pb_enc_varint E
      else if t = PB_LTYPE_UVARINT then pb_enc_uvarint E
      else if t = PB_LTYPE_SVARINT then pb_enc_svarint E
      else if t = PB_LTYPE_FIXED32 then pb_enc_fixed32 E
      else if t = PB_LTYPE_FIXED64 then pb_enc_fixed64 E
      else if t = PB_LTYPE_BYTES then pb_enc_bytes E
      else if t = PB_LTYPE_STRING then pb_enc_string E
      else if t = PB_LTYPE_SUBMESSAGE then pb_enc_submessage E enc
      else if t = PB_LTYPE_FIXED_LENGTH_BYTES then pb_enc_fixed_length_bytes E
      else (\<lambda>f src. ofault BadCall))"

section \<open>Arrays\<close>

text \<open>The loop \<open>for (i = 0; i < count; i++) { ...; p += data_size; }\<close>.\<close>

primrec enc_items :: "nat \<Rightarrow> (addr \<Rightarrow> 'u enc) \<Rightarrow> addr \<Rightarrow> u64 \<Rightarrow> 'u enc" where
  "enc_items 0 f p step = ret"
| "enc_items (Suc n) f p step = andthen (f p) (enc_items n f (p + step) step)"

text \<open>The total size of a packed array.\<close>

definition packed_size ::
  "pb_field \<Rightarrow> addr \<Rightarrow> size_t \<Rightarrow> (addr \<Rightarrow> 'u enc) \<Rightarrow> 'u est \<Rightarrow> size_t option \<times> 'u est" where
  "packed_size f p count func st = (case st of (s, w) \<Rightarrow>
     if PB_LTYPE (f_type f) = PB_LTYPE_FIXED32 then (Some (4 * count), s, w)
     else if PB_LTYPE (f_type f) = PB_LTYPE_FIXED64 then (Some (8 * count), s, w)
     else
       (case enc_items (unat count) func p (ucast (data_size f)) (PB_OSTREAM_SIZING, w) of
          (ok, sizestream, w') \<Rightarrow>
            if ok then (Some (bytes_written sizestream), s, w') else (None, s, w')))"

definition encode_array ::
  "'u env \<Rightarrow> pb_field \<Rightarrow> addr \<Rightarrow> size_t \<Rightarrow> (pb_field \<Rightarrow> addr \<Rightarrow> 'u enc) \<Rightarrow> 'u enc" where
  "encode_array E f p count func =
     (if count = 0 then ret
      else if PB_ATYPE (f_type f) \<noteq> PB_ATYPE_POINTER \<and> count > ucast (array_size f)
      then oerror ''array max size exceeded''
      else if PB_LTYPE (f_type f) \<le> PB_LTYPE_LAST_PACKABLE then
        andthen (pb_encode_tag E PB_WT_STRING (f_tag f))
          (bindb (packed_size f p count (func f)) (\<lambda>size.
             andthen (pb_encode_varint E size)
               (\<lambda>(s, w). if o_callback s = OSizing then pb_write E SrcNull size (s, w)
                         else enc_items (unat count) (func f) p (ucast (data_size f)) (s, w))))
      else
        enc_items (unat count)
          (\<lambda>p. andthen (pb_encode_tag_for_field E f)
             (\<lambda>(s, w).
                if PB_ATYPE (f_type f) = PB_ATYPE_POINTER
                   \<and> (PB_LTYPE (f_type f) = PB_LTYPE_STRING \<or> PB_LTYPE (f_type f) = PB_LTYPE_BYTES)
                then func f (load_ptr (mem w) p) (s, w)
                else func f p (s, w)))
          p (ucast (data_size f)))"

section \<open>Zero values of proto3 fields\<close>

text \<open>
  \<open>pb_check_proto3_default_value\<close> recurses through the descriptors of static submessages only, so
  its depth is that of the descriptor, \<open>field_depth\<close>. It reads memory and the descriptor; the state
  of the loop is the first fault it meets.
\<close>

fun field_depth :: "pb_field \<Rightarrow> nat"
  and ptr_depth :: "pb_ptr \<Rightarrow> nat"
  and fields_depth :: "pb_field list \<Rightarrow> nat" where
  "field_depth (PbField a b c d e f p) = ptr_depth p"
| "ptr_depth PtrNull = 0"
| "ptr_depth (PtrFields fs) = Suc (fields_depth fs)"
| "ptr_depth (PtrValue bs) = 0"
| "fields_depth [] = 0"
| "fields_depth (f # fs) = max (field_depth f) (fields_depth fs)"

type_synonym check = "pb_field \<Rightarrow> addr \<Rightarrow> fault option \<Rightarrow> bool \<times> fault option"

definition check_submessage :: "check \<Rightarrow> pb_field list \<Rightarrow> addr \<Rightarrow> fault option \<Rightarrow> bool \<times> fault option" where
  "check_submessage check fs base st =
     (case pb_field_iter_begin fs base of (nonempty, it) \<Rightarrow>
        if nonempty then iter_loop (\<lambda>it. check (cur it) (pData it)) it st else (True, st))"

definition check_field ::
  "(pb_field list \<Rightarrow> addr \<Rightarrow> fault option \<Rightarrow> bool \<times> fault option) \<Rightarrow> memory \<Rightarrow> check" where
  "check_field sub m f p st =
     (let t = f_type f; ps = p + scast (size_offset f) in
      if PB_HTYPE t = PB_HTYPE_REQUIRED then (False, st)
      else if PB_HTYPE t = PB_HTYPE_REPEATED \<and> size_offset f \<noteq> 0 then (load32 m ps = 0, st)
      else if PB_HTYPE t = PB_HTYPE_REPEATED \<and> PB_ATYPE t = PB_ATYPE_STATIC then (False, st)
      else if PB_HTYPE t = PB_HTYPE_ONEOF then (load32 m ps = 0, st)
      else if PB_HTYPE t = PB_HTYPE_OPTIONAL \<and> size_offset f \<noteq> 0
      then (\<not> safe_read_bool m ps, st)
      else if PB_ATYPE t = PB_ATYPE_STATIC \<and> PB_LTYPE t = PB_LTYPE_BYTES then (load32 m p = 0, st)
      else if PB_ATYPE t = PB_ATYPE_STATIC \<and> PB_LTYPE t = PB_LTYPE_STRING then (m p = 0, st)
      else if PB_ATYPE t = PB_ATYPE_STATIC \<and> PB_LTYPE t = PB_LTYPE_FIXED_LENGTH_BYTES
      then (data_size f = 0, st)
      else if PB_ATYPE t = PB_ATYPE_STATIC \<and> PB_LTYPE t = PB_LTYPE_SUBMESSAGE
      then (case f_ptr f of PtrFields fs \<Rightarrow> sub fs p st | _ \<Rightarrow> (True, Some BadDescriptor))
      else if PB_ATYPE t = PB_ATYPE_POINTER \<and> PB_LTYPE t > PB_LTYPE_LAST_PACKABLE
      then (load_ptr m p = 0, st)
      else (list_all (\<lambda>b. b = 0) (load_bytes m p (unat (data_size f))), st))"

primrec check_depth :: "nat \<Rightarrow> memory \<Rightarrow> check" where
  "check_depth 0 m = check_field (\<lambda>fs base st. (True, Some RecursionBudget)) m"
| "check_depth (Suc d) m = check_field (check_submessage (check_depth d m)) m"

definition pb_check_proto3_default_value :: "memory \<Rightarrow> check" where
  "pb_check_proto3_default_value m f = check_depth (field_depth f) m f"

section \<open>Fields\<close>

text \<open>
  \<open>pSize\<close> points to \<open>implicit_has\<close> when the descriptor has no size offset, and into the message
  otherwise; reading a \<open>pb_size_t\<close> through it is an overrun in the first case.
\<close>

definition encode_basic_field ::
  "'u env \<Rightarrow> (pb_field list \<Rightarrow> addr \<Rightarrow> 'u enc) \<Rightarrow> pb_field \<Rightarrow> addr \<Rightarrow> 'u enc" where
  "encode_basic_field E enc f p0 st = (case st of (s, w) \<Rightarrow>
     if PB_LTYPE (f_type f) \<ge> PB_LTYPES_COUNT then ofault BadDescriptor (s, w)
     else
     let func = PB_ENCODERS E enc (PB_LTYPE (f_type f));
         ps = p0 + scast (size_offset f);
         (implicit0, flt) =
           (if size_offset f = 0 \<and> PB_HTYPE (f_type f) = PB_HTYPE_OPTIONAL
               \<and> PB_ATYPE (f_type f) \<noteq> PB_ATYPE_POINTER
            then (case pb_check_proto3_default_value (mem w) f p0 None of (z, e) \<Rightarrow> (\<not> z, e))
            else (True, None));
         p = (if PB_ATYPE (f_type f) = PB_ATYPE_POINTER then load_ptr (mem w) p0 else p0);
         implicit_has = (if PB_ATYPE (f_type f) = PB_ATYPE_POINTER then p \<noteq> 0 else implicit0);
         item = andthen (pb_encode_tag_for_field E f) (func f p)
     in case flt of Some e \<Rightarrow> ofault e (s, w)
      | None \<Rightarrow>
       (if PB_HTYPE (f_type f) = PB_HTYPE_REQUIRED then
          if p = 0 then oerror ''missing required field'' (s, w) else item (s, w)
        else if PB_HTYPE (f_type f) = PB_HTYPE_OPTIONAL then
          if (if size_offset f \<noteq> 0 then safe_read_bool (mem w) ps else implicit_has)
          then item (s, w) else ret (s, w)
        else if PB_HTYPE (f_type f) = PB_HTYPE_REPEATED then
          encode_array E f p
            (ucast (if size_offset f \<noteq> 0 then load32 (mem w) ps else array_size f)) func (s, w)
        else if size_offset f = 0 then ofault BufferOverrun (s, w)
        else if load32 (mem w) ps = f_tag f then item (s, w) else ret (s, w)))"

definition encode_callback_field :: "'u env \<Rightarrow> pb_field \<Rightarrow> addr \<Rightarrow> 'u enc" where
  "encode_callback_field E f p st = (case st of (s, w) \<Rightarrow>
     let fn = load_ptr (mem w) p in
     if fn \<noteq> 0 then
       (case encode_fn E fn f (p + 8) (s, w) of (ok, st') \<Rightarrow>
          if \<not> ok then oerror ''callback error'' st' else (True, st'))
     else (True, s, w))"

definition encode_field ::
  "'u env \<Rightarrow> (pb_field list \<Rightarrow> addr \<Rightarrow> 'u enc) \<Rightarrow> pb_field \<Rightarrow> addr \<Rightarrow> 'u enc" where
  "encode_field E enc f p =
     (if PB_ATYPE (f_type f) = PB_ATYPE_STATIC \<or> PB_ATYPE (f_type f) = PB_ATYPE_POINTER
      then encode_basic_field E enc f p
      else if PB_ATYPE (f_type f) = PB_ATYPE_CALLBACK then encode_callback_field E f p
      else oerror ''invalid field type'')"

section \<open>Extensions\<close>

text \<open>\<open>pb_extension_t\<close> in memory: \<open>type\<close> at 0, \<open>dest\<close> at 8, \<open>next\<close> at 16, \<open>found\<close> at 24.\<close>

definition default_extension_encoder ::
  "'u env \<Rightarrow> (pb_field list \<Rightarrow> addr \<Rightarrow> 'u enc) \<Rightarrow> addr \<Rightarrow> 'u enc" where
  "default_extension_encoder E enc ext st = (case st of (s, w) \<Rightarrow>
     let f = field_at (ext_arg (ext_types E (load_ptr (mem w) ext))) 0 in
     if PB_ATYPE (f_type f) = PB_ATYPE_POINTER then encode_field E enc f (ext + 8) (s, w)
     else encode_field E enc f (load_ptr (mem w) (ext + 8)) (s, w))"

primrec encode_extensions ::
  "nat \<Rightarrow> 'u env \<Rightarrow> (pb_field list \<Rightarrow> addr \<Rightarrow> 'u enc) \<Rightarrow> addr \<Rightarrow> 'u enc" where
  "encode_extensions 0 E enc ext st = (if ext = 0 then ret st else ofault WalkBudget st)"
| "encode_extensions (Suc n) E enc ext st =
     (if ext = 0 then ret st
      else
        andthen
          (\<lambda>(s, w). case ext_encode (ext_types E (load_ptr (mem w) ext)) of
                     Some k \<Rightarrow> ext_encode_fn E k ext (s, w)
                   | None \<Rightarrow> default_extension_encoder E enc ext (s, w))
          (\<lambda>(s, w). encode_extensions n E enc (load_ptr (mem w) (ext + 16)) (s, w))
          st)"

definition encode_extension_field ::
  "'u env \<Rightarrow> (pb_field list \<Rightarrow> addr \<Rightarrow> 'u enc) \<Rightarrow> pb_field \<Rightarrow> addr \<Rightarrow> 'u enc" where
  "encode_extension_field E enc f p st = (case st of (s, w) \<Rightarrow>
     encode_extensions (walk_limit E) E enc (load_ptr (mem w) p) (s, w))"

section \<open>Messages\<close>

definition encode_message ::
  "'u env \<Rightarrow> (pb_field list \<Rightarrow> addr \<Rightarrow> 'u enc) \<Rightarrow> pb_field list \<Rightarrow> addr \<Rightarrow> 'u enc" where
  "encode_message E enc fs src st =
     (case pb_field_iter_begin fs src of (nonempty, it) \<Rightarrow>
        if \<not> nonempty then (True, st)
        else iter_loop
          (\<lambda>it. if PB_LTYPE (f_type (cur it)) = PB_LTYPE_EXTENSION
                 then encode_extension_field E enc (cur it) (pData it)
                 else encode_field E enc (cur it) (pData it))
          it st)"

primrec pb_encode :: "nat \<Rightarrow> 'u env \<Rightarrow> pb_field list \<Rightarrow> addr \<Rightarrow> 'u enc" where
  "pb_encode 0 E fs src = ofault RecursionBudget"
| "pb_encode (Suc d) E fs src = encode_message E (pb_encode d E) fs src"

definition pb_encode_delimited :: "nat \<Rightarrow> 'u env \<Rightarrow> pb_field list \<Rightarrow> addr \<Rightarrow> 'u enc" where
  "pb_encode_delimited d E fs src = pb_encode_submessage E (pb_encode d E) fs src"

definition pb_encode_nullterminated :: "nat \<Rightarrow> 'u env \<Rightarrow> pb_field list \<Rightarrow> addr \<Rightarrow> 'u enc" where
  "pb_encode_nullterminated d E fs src =
     andthen (pb_encode d E fs src) (pb_write E (SrcLocal [0]) 1)"

definition pb_get_encoded_size ::
  "nat \<Rightarrow> 'u env \<Rightarrow> pb_field list \<Rightarrow> addr \<Rightarrow> 'u world \<Rightarrow> size_t option \<times> 'u world" where
  "pb_get_encoded_size d E fs src w =
     (case pb_encode d E fs src (PB_OSTREAM_SIZING, w) of (ok, s, w') \<Rightarrow>
        (if ok then Some (bytes_written s) else None, w'))"

end
