(* ===== verification/PbEncodeSpec.thy ===== *)
theory PbEncodeSpec
  imports PbEncode
begin

text \<open>
  What a message in memory is encoded as, said without streams: a pure function from the memory to
  the bytes, in one pass, where the code sizes every submessage and packed array before it writes
  it. The lemmas \<open>*_denotes\<close> show that the code of \<open>PbEncode\<close> emits these bytes.
\<close>

section \<open>Results\<close>

text \<open>
  \<open>Refused\<close> is an error the code reports for every stream. \<open>Unspecified\<close> is what this description
  leaves open: code outside the library runs, the descriptor is malformed, the depth is used up, or
  a length-delimited part has \<open>2 ^ 63\<close> bytes or more.
\<close>

datatype enc_result = Bytes "u8 list" | Refused | Unspecified

fun after :: "enc_result \<Rightarrow> enc_result \<Rightarrow> enc_result" where
  "after (Bytes a) (Bytes b) = Bytes (a @ b)"
| "after (Bytes a) r = r"
| "after r _ = r"

primrec all_parts :: "enc_result list \<Rightarrow> enc_result" where
  "all_parts [] = Bytes []"
| "all_parts (r # rs) = after r (all_parts rs)"

fun delimit :: "enc_result \<Rightarrow> enc_result" where
  "delimit (Bytes bs) = (if length bs < 2 ^ 63 then Bytes (string_bytes bs) else Unspecified)"
| "delimit r = r"

definition varint_of :: "u64 option \<Rightarrow> enc_result" where
  "varint_of v = (case v of None \<Rightarrow> Refused | Some v \<Rightarrow> Bytes (varint_bytes v))"

fun c_string :: "memory \<Rightarrow> addr \<Rightarrow> nat \<Rightarrow> u8 list" where
  "c_string m p 0 = []"
| "c_string m p (Suc n) = (if m p = 0 then [] else m p # c_string m (p + 1) n)"

lemma c_string_numeral:
  "c_string m p (numeral k) = (if m p = 0 then [] else m p # c_string m (p + 1) (pred_numeral k))"
  by (simp add: numeral_eq_Suc)

section \<open>Reference encoding\<close>

definition tag_ref :: "pb_field \<Rightarrow> enc_result" where
  "tag_ref f = (case field_wiretype f of None \<Rightarrow> Refused | Some wt \<Rightarrow> Bytes (tag_bytes wt (f_tag f)))"

definition bytes_ref :: "memory \<Rightarrow> pb_field \<Rightarrow> addr \<Rightarrow> enc_result" where
  "bytes_ref m f p =
     (let n = unat (load32 m p) in
      if p = 0 then Bytes (string_bytes [])
      else if PB_ATYPE (f_type f) = PB_ATYPE_STATIC \<and> n + 4 > unat (data_size f) then Refused
      else Bytes (string_bytes (load_bytes m (p + 4) n)))"

definition string_ref :: "memory \<Rightarrow> pb_field \<Rightarrow> addr \<Rightarrow> enc_result" where
  "string_ref m f p =
     (let mx = (if PB_ATYPE (f_type f) = PB_ATYPE_POINTER then 2 ^ 64 - 1 else unat (data_size f)) in
      Bytes (string_bytes (if p = 0 then [] else c_string m p mx)))"

type_synonym sub_ref = "pb_field list \<Rightarrow> addr \<Rightarrow> enc_result"

definition submessage_ref :: "sub_ref \<Rightarrow> pb_field \<Rightarrow> addr \<Rightarrow> enc_result" where
  "submessage_ref sub f p =
     (case f_ptr f of PtrNull \<Rightarrow> Refused | PtrFields fs \<Rightarrow> delimit (sub fs p) | PtrValue _ \<Rightarrow> Unspecified)"

definition elem_ref :: "memory \<Rightarrow> sub_ref \<Rightarrow> pb_field \<Rightarrow> addr \<Rightarrow> enc_result" where
  "elem_ref m sub f p =
     (let t = PB_LTYPE (f_type f) in
      if t = PB_LTYPE_BOOL then varint_of (Some (if m p = 0 then 0 else 1))
      else if t = PB_LTYPE_VARINT then varint_of (read_signed m f p)
      else if t = PB_LTYPE_UVARINT then varint_of (read_unsigned m f p)
      else if t = PB_LTYPE_SVARINT then varint_of (map_option zigzag (read_signed m f p))
      else if t = PB_LTYPE_FIXED32 then Bytes (bytes_le 4 (load32 m p))
      else if t = PB_LTYPE_FIXED64 then Bytes (bytes_le 8 (load64 m p))
      else if t = PB_LTYPE_BYTES then bytes_ref m f p
      else if t = PB_LTYPE_STRING then string_ref m f p
      else if t = PB_LTYPE_SUBMESSAGE then submessage_ref sub f p
      else if t = PB_LTYPE_FIXED_LENGTH_BYTES then
        (if p = 0 \<and> data_size f \<noteq> 0 then Unspecified
         else Bytes (string_bytes (load_bytes m p (unat (data_size f)))))
      else Unspecified)"

text \<open>The elements of an array stand \<open>step\<close> bytes apart.\<close>

definition items_ref :: "(addr \<Rightarrow> enc_result) \<Rightarrow> addr \<Rightarrow> u64 \<Rightarrow> nat \<Rightarrow> enc_result" where
  "items_ref item p step n = all_parts (map (\<lambda>i. item (p + of_nat i * step)) [0..<n])"

definition array_ref :: "memory \<Rightarrow> sub_ref \<Rightarrow> pb_field \<Rightarrow> addr \<Rightarrow> u32 \<Rightarrow> enc_result" where
  "array_ref m sub f p count =
     (let step = ucast (data_size f); n = unat count; t = PB_LTYPE (f_type f);
          pointer = (PB_ATYPE (f_type f) = PB_ATYPE_POINTER) in
      if n = 0 then Bytes []
      else if \<not> pointer \<and> count > array_size f then Refused
      else if t \<le> PB_LTYPE_LAST_PACKABLE
      then after (Bytes (tag_bytes PB_WT_STRING (f_tag f))) (delimit (items_ref (elem_ref m sub f) p step n))
      else items_ref (\<lambda>q. after (tag_ref f)
             (elem_ref m sub f
               (if pointer \<and> (t = PB_LTYPE_STRING \<or> t = PB_LTYPE_BYTES) then load_ptr m q else q)))
             p step n)"

definition basic_ref :: "memory \<Rightarrow> sub_ref \<Rightarrow> pb_field \<Rightarrow> addr \<Rightarrow> enc_result" where
  "basic_ref m sub f p0 =
     (let t = f_type f; pointer = (PB_ATYPE t = PB_ATYPE_POINTER);
          p = (if pointer then load_ptr m p0 else p0);
          ps = p0 + scast (size_offset f);
          item = after (tag_ref f) (elem_ref m sub f p) in
      if PB_LTYPE t \<ge> PB_LTYPES_COUNT then Unspecified
      else if PB_HTYPE t = PB_HTYPE_REQUIRED then (if p = 0 then Refused else item)
      else if PB_HTYPE t = PB_HTYPE_OPTIONAL then
        if size_offset f \<noteq> 0 then (if m ps \<noteq> 0 then item else Bytes [])
        else if pointer then (if p \<noteq> 0 then item else Bytes [])
        else (case pb_check_proto3_default_value m f p0 None of
                (z, None) \<Rightarrow> if z then Bytes [] else item
              | (z, Some _) \<Rightarrow> Unspecified)
      else if PB_HTYPE t = PB_HTYPE_REPEATED
      then array_ref m sub f p (if size_offset f \<noteq> 0 then load32 m ps else array_size f)
      else if size_offset f = 0 then Unspecified
      else if load32 m ps = f_tag f then item else Bytes [])"

definition field_ref :: "memory \<Rightarrow> sub_ref \<Rightarrow> pb_field \<Rightarrow> addr \<Rightarrow> enc_result" where
  "field_ref m sub f p =
     (let a = PB_ATYPE (f_type f) in
      if a = PB_ATYPE_STATIC \<or> a = PB_ATYPE_POINTER then basic_ref m sub f p
      else if a = PB_ATYPE_CALLBACK then (if load_ptr m p = 0 then Bytes [] else Unspecified)
      else Refused)"

primrec extensions_ref :: "nat \<Rightarrow> 'u env \<Rightarrow> memory \<Rightarrow> sub_ref \<Rightarrow> addr \<Rightarrow> enc_result" where
  "extensions_ref 0 E m sub ext = (if ext = 0 then Bytes [] else Unspecified)"
| "extensions_ref (Suc n) E m sub ext =
     (if ext = 0 then Bytes []
      else
        let et = ext_types E (load_ptr m ext); f = field_at (ext_arg et) 0 in
        if ext_encode et \<noteq> None then Unspecified
        else after (field_ref m sub f
                     (if PB_ATYPE (f_type f) = PB_ATYPE_POINTER then ext + 8 else load_ptr m (ext + 8)))
               (extensions_ref n E m sub (load_ptr m (ext + 16))))"

definition message_ref :: "'u env \<Rightarrow> memory \<Rightarrow> sub_ref \<Rightarrow> sub_ref" where
  "message_ref E m sub fs src =
     (if wf_fields fs then
        all_parts
          (map (\<lambda>k. let f = field_at fs k; p = data_at fs src k in
                 if PB_LTYPE (f_type f) = PB_LTYPE_EXTENSION
                 then extensions_ref (walk_limit E) E m sub (load_ptr m p)
                 else field_ref m sub f p)
             [0..<nfields fs])
      else Unspecified)"

primrec encode_ref :: "nat \<Rightarrow> 'u env \<Rightarrow> memory \<Rightarrow> sub_ref" where
  "encode_ref 0 E m fs src = Unspecified"
| "encode_ref (Suc d) E m fs src = message_ref E m (encode_ref d E m) fs src"

section \<open>Denotation\<close>

definition denotes :: "'u enc \<Rightarrow> 'u world \<Rightarrow> enc_result \<Rightarrow> bool" where
  "denotes f w r =
     (case r of Bytes bs \<Rightarrow> emits f w (Some bs) | Refused \<Rightarrow> emits f w None | Unspecified \<Rightarrow> True)"

lemma denotes_simps [simp]:
  "denotes f w (Bytes bs) \<longleftrightarrow> emits f w (Some bs)"
  "denotes f w Refused \<longleftrightarrow> emits f w None"
  "denotes f w Unspecified"
  by (simp_all add: denotes_def)

lemma denotes_cong: "(\<And>s. g (s, w) = f (s, w)) \<Longrightarrow> denotes g w r \<longleftrightarrow> denotes f w r"
  by (simp add: denotes_def ostream.emits_cong [of g w f] split: enc_result.split)

lemma denotes_andthen:
  assumes "denotes f w a" and "denotes g w b"
  shows "denotes (andthen f g) w (after a b)"
proof (cases a)
  case (Bytes x)
  then show ?thesis
    using assms ostream.emits_andthen [of f w x g] by (cases b) fastforce+
qed (use assms in \<open>auto intro: ostream.emits_andthen_None\<close>)

lemma denotes_ret [simp]: "denotes ret w (Bytes [])"
  by (simp add: ostream.emits_ret)

lemma denotes_oerror [simp]: "denotes (oerror msg) w Refused"
  by (simp add: oerror_emits)

section \<open>Elements\<close>

lemma denotes_varint: "denotes (pb_encode_varint E v) w (Bytes (varint_bytes v))"
  by (simp add: pb_encode_varint_emits)

lemma pb_enc_bool_denotes:
  "denotes (pb_enc_bool E f p) w (varint_of (Some (if mem w p = 0 then 0 else 1)))"
  by (subst denotes_cong [where f = "pb_encode_varint E (if mem w p = 0 then 0 else 1)"])
    (simp_all add: pb_enc_bool_def safe_read_bool_def varint_of_def pb_encode_varint_emits)

lemma pb_enc_varint_denotes: "denotes (pb_enc_varint E f p) w (varint_of (read_signed (mem w) f p))"
  by (subst denotes_cong [where f = "case read_signed (mem w) f p of
        None \<Rightarrow> oerror ''invalid data_size'' | Some v \<Rightarrow> pb_encode_varint E v"])
    (simp_all add: pb_enc_varint_def varint_of_def pb_encode_varint_emits oerror_emits split: option.split)

lemma pb_enc_uvarint_denotes: "denotes (pb_enc_uvarint E f p) w (varint_of (read_unsigned (mem w) f p))"
  by (subst denotes_cong [where f = "case read_unsigned (mem w) f p of
        None \<Rightarrow> oerror ''invalid data_size'' | Some v \<Rightarrow> pb_encode_varint E v"])
    (simp_all add: pb_enc_uvarint_def varint_of_def pb_encode_varint_emits oerror_emits split: option.split)

lemma pb_enc_svarint_denotes:
  "denotes (pb_enc_svarint E f p) w (varint_of (map_option zigzag (read_signed (mem w) f p)))"
  by (subst denotes_cong [where f = "case read_signed (mem w) f p of
        None \<Rightarrow> oerror ''invalid data_size'' | Some v \<Rightarrow> pb_encode_svarint E v"])
    (simp_all add: pb_enc_svarint_def varint_of_def pb_encode_svarint_emits oerror_emits split: option.split)

lemma bytes_size_exceeded:
  "PB_BYTES_ARRAY_T_ALLOCSIZE n < ucast n \<or> PB_ATYPE t = PB_ATYPE_STATIC \<and> PB_BYTES_ARRAY_T_ALLOCSIZE n > ucast size
    \<longleftrightarrow> PB_ATYPE t = PB_ATYPE_STATIC \<and> unat n + 4 > unat size" for n size :: u32
proof -
  have "unat (PB_BYTES_ARRAY_T_ALLOCSIZE n) = unat n + 4"
    using unat_bound [of n] unat_add_of_nat [of "ucast n :: u64" 4]
    by (simp add: PB_BYTES_ARRAY_T_ALLOCSIZE_def bytes_offset_def unat_ucast_up_simp)
  then show ?thesis by (simp add: word_less_nat_alt unat_ucast_up_simp)
qed

lemma pb_enc_bytes_denotes: "denotes (pb_enc_bytes E f p) w (bytes_ref (mem w) f p)"
proof -
  let ?n = "load32 (mem w) p"
  let ?f = "if p = 0 then pb_encode_string E SrcNull 0
       else if PB_ATYPE (f_type f) = PB_ATYPE_STATIC \<and> unat ?n + 4 > unat (data_size f)
       then oerror ''bytes size exceeded''
       else pb_encode_string E (SrcMem (p + 4)) (ucast ?n)"
  have run: "pb_enc_bytes E f p (s, w) = ?f (s, w)" for s
    unfolding pb_enc_bytes_def Let_def prod.case bytes_size_exceeded by (simp add: bytes_offset_def)
  have "denotes ?f w (bytes_ref (mem w) f p)"
    by (simp add: bytes_ref_def Let_def oerror_emits pb_encode_string_emits unat_ucast_up_simp)
  with run show ?thesis
    using denotes_cong [of "pb_enc_bytes E f p" w ?f] by blast
qed

lemma cstr_len_c_string:
  "unat n + k = unat mx \<Longrightarrow> unat (cstr_len m p n mx) = unat n + length (c_string m p k)"
proof (induction k arbitrary: p n)
  case 0
  then have "\<not> n < mx"
    by (simp add: word_less_nat_alt)
  then show ?case by (simp add: cstr_len.simps)
next
  case (Suc k)
  then have lt: "n < mx" by (simp add: word_less_nat_alt)
  have "unat (n + 1) = Suc (unat n)"
    using unat_add_of_nat [of n 1] unat_bound [of mx] Suc.prems by simp
  with Suc lt show ?case
    by (simp add: cstr_len.simps [of m p])
qed

lemma c_string_load: "c_string m p k = load_bytes m p (length (c_string m p k))"
  by (induction k arbitrary: p) (simp_all add: load_bytes_Suc)

lemma pb_enc_string_denotes: "denotes (pb_enc_string E f p) w (string_ref (mem w) f p)"
proof -
  define mx :: u64 where "mx = (if PB_ATYPE (f_type f) = PB_ATYPE_POINTER then - 1 else ucast (data_size f))"
  have mx: "unat mx = (if PB_ATYPE (f_type f) = PB_ATYPE_POINTER then 2 ^ 64 - 1 else unat (data_size f))"
    by (simp add: mx_def unat_ucast_up_simp unsigned_minus_1_eq_mask mask_eq_exp_minus_1)
  define bs where "bs = (if p = 0 then [] else c_string (mem w) p (unat mx))"
  let ?n = "if p = 0 then 0 else cstr_len (mem w) p 0 mx"
  have "?n = 0 \<and> bs = [] \<or> src_bytes (mem w) (ptr_src p) (unat ?n) = Inr bs"
    using cstr_len_c_string [of 0 "unat mx" mx "mem w" p] c_string_load [of "mem w" p "unat mx"]
    by (simp add: bs_def ptr_src_def)
  then have "denotes (pb_encode_string E (ptr_src p) ?n) w (Bytes (string_bytes bs))"
    by (simp only: denotes_simps pb_encode_string_emits)
  moreover have "string_ref (mem w) f p = Bytes (string_bytes bs)"
    by (simp add: string_ref_def bs_def mx)
  ultimately show ?thesis
    by (subst denotes_cong [where f = "pb_encode_string E (ptr_src p) ?n"])
      (simp_all add: pb_enc_string_def mx_def Let_def)
qed

lemma pb_enc_fixed_length_bytes_denotes:
  "denotes (pb_enc_fixed_length_bytes E f p) w
    (if p = 0 \<and> data_size f \<noteq> 0 then Unspecified
     else Bytes (string_bytes (load_bytes (mem w) p (unat (data_size f)))))"
proof (cases "p = 0 \<and> data_size f \<noteq> 0")
  case False
  have "emits (pb_encode_string E (ptr_src p) (ucast (data_size f))) w
      (Some (string_bytes (load_bytes (mem w) p (unat (data_size f)))))"
    using False by (intro pb_encode_string_emits) (auto simp: ptr_src_def unat_ucast_up_simp)
  with False show ?thesis
    by (simp add: pb_enc_fixed_length_bytes_def)
qed simp

section \<open>Sizing passes\<close>

lemma ostream_inv_sizing [simp]: "ostream_inv PB_OSTREAM_SIZING"
  by (simp add: ostream_inv_def lib_stream_def PB_OSTREAM_SIZING_def)

lemma emits_sizing:
  assumes "emits f w (Some bs)"
  shows "f (PB_OSTREAM_SIZING, w) = (True, PB_OSTREAM_SIZING\<lparr>bytes_written := of_nat (length bs)\<rparr>, w)"
  using ostream.emits_fits [OF assms ostream_inv_sizing]
  by (simp add: room_def push_def PB_OSTREAM_SIZING_def)

lemma emits_sizing_None:
  assumes "emits f w None"
  shows "\<exists>s. f (PB_OSTREAM_SIZING, w) = (False, s, w)"
  using ostream.emits_None [OF assms ostream_inv_sizing] by auto

text \<open>On a sizing stream the size itself stands for the bytes.\<close>

definition emits_buf :: "'u enc \<Rightarrow> 'u world \<Rightarrow> u8 list \<Rightarrow> bool" where
  "emits_buf f w bs \<longleftrightarrow> (\<forall>s. ostream_inv s \<longrightarrow> o_callback s = OBuf \<longrightarrow>
     (if length bs \<le> avail s then f (s, w) = (True, push bs s, w)
      else (\<exists>s'. f (s, w) = (False, s', w) \<and> full s s')))"

lemma emits_emits_buf: "emits f w (Some bs) \<Longrightarrow> emits_buf f w bs"
  by (auto simp: emits_on_def emits_buf_def room_def)

lemma emits_if_sizing:
  assumes "emits_buf f w bs"
  shows "emits (\<lambda>(s, w). if o_callback s = OSizing then pb_write E SrcNull (of_nat (length bs)) (s, w)
                          else f (s, w)) w (Some bs)"
proof -
  have "o_callback s = OSizing \<or> o_callback s = OBuf" if "ostream_inv s" for s
    using that by (auto simp: ostream_inv_def lib_stream_def)
  then show ?thesis
    using assms by (fastforce simp: emits_on_def emits_buf_def pb_write_sizing push_def room_def)
qed

section \<open>Submessages\<close>

text \<open>
  The writing pass runs on a stream whose window has exactly the size found by the sizing pass. It
  writes as much as was announced, so \<open>submsg size changed\<close> is never reported here.
\<close>

definition sub_stream :: "size_t \<Rightarrow> pb_ostream \<Rightarrow> pb_ostream" where
  "sub_stream n s = s\<lparr>max_size := n, bytes_written := 0, o_errmsg := None\<rparr>"

lemma sub_stream_fits:
  assumes inv: "ostream_inv s" and buf: "o_callback s = OBuf"
    and len: "length bs < 2 ^ 63" and fit: "length bs \<le> avail s"
  shows "ostream_inv (sub_stream (of_nat (length bs)) s)"
    and "room (sub_stream (of_nat (length bs)) s) (length bs)"
    and "bytes_written s + of_nat (length bs) \<le> max_size s"
proof -
  have n: "unat (of_nat (length bs) :: u64) = length bs"
    using len by (simp add: unat_of_nat)
  show "room (sub_stream (of_nat (length bs)) s) (length bs)"
    using n by (simp add: room_def avail_def sub_stream_def)
  show "ostream_inv (sub_stream (of_nat (length bs)) s)"
    using inv buf len fit n
    by (auto simp: ostream_inv_def lib_stream_def sub_stream_def avail_def word_less_nat_alt)
  have "unat (bytes_written s) + length bs \<le> unat (max_size s)"
    using inv buf fit by (auto simp: ostream_inv_def avail_def word_le_nat_alt)
  then show "bytes_written s + of_nat (length bs) \<le> max_size s"
    using unat_add_of_nat [of "bytes_written s" "length bs"] unat_bound [of "max_size s"]
    by (simp add: word_le_nat_alt)
qed

definition submessage_body :: "'u enc \<Rightarrow> size_t \<Rightarrow> 'u enc" where
  "submessage_body f n st = (case st of (s2, w2) \<Rightarrow>
     if bytes_written s2 + n > max_size s2 then oerror ''stream full'' (s2, w2)
     else
       (case f (sub_stream n s2, w2) of (status, sub2, w3) \<Rightarrow>
          let s3 = s2\<lparr>o_buf := o_buf sub2, o_state := o_state sub2,
                      bytes_written := bytes_written s2 + bytes_written sub2,
                      o_errmsg := o_errmsg sub2\<rparr>
          in if bytes_written sub2 \<noteq> n then oerror ''submsg size changed'' (s3, w3)
             else (status, s3, w3)))"

lemma submessage_body_emits:
  assumes f: "emits f w (Some bs)" and len: "length bs < 2 ^ 63"
  shows "emits_buf (submessage_body f (of_nat (length bs))) w bs"
proof -
  let ?n = "of_nat (length bs) :: u64"
  have "if length bs \<le> avail s then submessage_body f ?n (s, w) = (True, push bs s, w)
        else \<exists>s'. submessage_body f ?n (s, w) = (False, s', w) \<and> full s s'"
    if inv: "ostream_inv s" and buf: "o_callback s = OBuf" for s
  proof (cases "length bs \<le> avail s")
    case True
    note fits = sub_stream_fits [OF inv buf len True]
    have "f (sub_stream ?n s, w) = (True, push bs (sub_stream ?n s), w)"
      using f fits(1,2) by (rule ostream.emits_fits)
    then show ?thesis
      using leD [OF fits(3)] True inv buf
      by (simp add: submessage_body_def sub_stream_def push_def Let_def ostream_inv_def)
  next
    case False
    have n: "unat ?n = length bs"
      using len by (simp add: unat_of_nat)
    have mx: "bytes_written s \<le> max_size s" "unat (max_size s) < 2 ^ 63"
      using inv buf by (auto simp: ostream_inv_def word_less_nat_alt)
    then have "unat (bytes_written s + ?n) = unat (bytes_written s) + length bs"
      using len by (intro unat_add_of_nat) (simp add: word_le_nat_alt)
    then have "bytes_written s + ?n > max_size s"
      using False by (simp add: avail_def word_less_nat_alt)
    then show ?thesis
      using False by (simp add: submessage_body_def oerror_def full_def outside_errmsg [OF outside_refl])
  qed
  then show ?thesis
    by (simp add: emits_buf_def)
qed

lemma pb_encode_submessage_denotes:
  assumes "denotes (enc fs p) w r"
  shows "denotes (pb_encode_submessage E enc fs p) w (delimit r)"
proof (cases r)
  case (Bytes bs)
  show ?thesis
  proof (cases "length bs < 2 ^ 63")
    case len: True
    have enc: "emits (enc fs p) w (Some bs)"
      using assms Bytes by simp
    let ?n = "of_nat (length bs) :: u64"
    let ?g = "andthen (pb_encode_varint E ?n)
      (\<lambda>(s, w). if o_callback s = OSizing then pb_write E SrcNull ?n (s, w)
                else submessage_body (enc fs p) ?n (s, w))"
    have "pb_encode_submessage E enc fs p (s, w) = ?g (s, w)" for s
      unfolding pb_encode_submessage_def prod.case emits_sizing [OF enc] submessage_body_def sub_stream_def
      by (simp add: Let_def)
    moreover have "emits ?g w (Some (string_bytes bs))"
      unfolding string_bytes_def
      by (rule ostream.emits_andthen_Some [OF pb_encode_varint_emits
            emits_if_sizing [OF submessage_body_emits [OF enc len]]])
    ultimately show ?thesis
      using Bytes len ostream.emits_cong [of "pb_encode_submessage E enc fs p" w ?g] by simp
  qed (simp add: Bytes)
next
  case Refused
  then obtain sub where "enc fs p (PB_OSTREAM_SIZING, w) = (False, sub, w)"
    using assms emits_sizing_None [of "enc fs p" w] by auto
  then show ?thesis
    using Refused by (simp add: emits_on_def pb_encode_submessage_def outside_errmsg outside_refl)
qed simp

lemma pb_enc_submessage_denotes:
  assumes "\<And>fs. denotes (enc fs p) w (sub fs p)"
  shows "denotes (pb_enc_submessage E enc f p) w (submessage_ref sub f p)"
  using assms
  by (auto simp: pb_enc_submessage_def submessage_ref_def oerror_emits pb_encode_submessage_denotes
      split: pb_ptr.split)

lemma denotes_choice:
  "denotes (F f p) w r \<Longrightarrow> denotes (G f p) w r' \<Longrightarrow>
    denotes ((if b then F else G) f p) w (if b then r else r')"
  by simp

lemma denotes_if:
  "denotes f w r \<Longrightarrow> denotes g w r' \<Longrightarrow> denotes (if b then f else g) w (if b then r else r')"
  by simp

lemma elem_denotes:
  assumes "\<And>fs. denotes (enc fs p) w (sub fs p)"
  shows "denotes (PB_ENCODERS E enc (PB_LTYPE (f_type f)) f p) w (elem_ref (mem w) sub f p)"
proof -
  have "denotes (pb_enc_fixed32 E f p) w (Bytes (bytes_le 4 (load32 (mem w) p)))"
    and "denotes (pb_enc_fixed64 E f p) w (Bytes (bytes_le 8 (load64 (mem w) p)))"
    by (simp_all add: pb_enc_fixed32_def pb_enc_fixed64_def pb_encode_fixed32_emits pb_encode_fixed64_emits)
  moreover have "denotes (pb_enc_submessage E enc f p) w (submessage_ref sub f p)"
    by (rule pb_enc_submessage_denotes) (rule assms)
  ultimately show ?thesis
    unfolding PB_ENCODERS_def elem_ref_def Let_def
    by (intro denotes_choice denotes_simps(3) pb_enc_bool_denotes pb_enc_varint_denotes
        pb_enc_uvarint_denotes pb_enc_svarint_denotes pb_enc_bytes_denotes pb_enc_string_denotes
        pb_enc_fixed_length_bytes_denotes)
qed

section \<open>Arrays\<close>

lemma items_ref_0 [simp]: "items_ref item p step 0 = Bytes []"
  by (simp add: items_ref_def)

lemma items_ref_Suc: "items_ref item p step (Suc n) = after (item p) (items_ref item (p + step) step n)"
proof -
  have "[0..<Suc n] = 0 # map Suc [0..<n]"
    by (simp add: upt_conv_Cons map_Suc_upt)
  then show ?thesis
    by (simp add: items_ref_def o_def algebra_simps)
qed

lemma enc_items_denotes:
  assumes "\<And>q. denotes (f q) w (item q)"
  shows "denotes (enc_items n f p step) w (items_ref item p step n)"
  by (induction n arbitrary: p) (simp_all add: items_ref_Suc denotes_andthen assms del: denotes_simps(1,2))

lemma items_ref_fixed:
  assumes "\<And>q. item q = Bytes (g q)" and "\<And>q. length (g q) = k"
  shows "\<exists>bs. items_ref item p step n = Bytes bs \<and> length bs = k * n"
proof (induction n arbitrary: p)
  case (Suc n)
  from Suc [of "p + step"] show ?case
    by (auto simp: items_ref_Suc assms)
qed simp

lemma items_ref_fixed32:
  assumes "PB_LTYPE (f_type f) = PB_LTYPE_FIXED32"
  shows "\<exists>bs. items_ref (elem_ref m sub f) p step n = Bytes bs \<and> length bs = 4 * n"
  using assms by (intro items_ref_fixed [where g = "\<lambda>q. bytes_le 4 (load32 m q)"]) (simp_all add: elem_ref_def)

lemma items_ref_fixed64:
  assumes "PB_LTYPE (f_type f) = PB_LTYPE_FIXED64"
  shows "\<exists>bs. items_ref (elem_ref m sub f) p step n = Bytes bs \<and> length bs = 8 * n"
  using assms by (intro items_ref_fixed [where g = "\<lambda>q. bytes_le 8 (load64 m q)"]) (simp_all add: elem_ref_def)

text \<open>The size that \<open>encode_array\<close> computes for a packed array is that of the elements.\<close>

lemma packed_size_items:
  assumes elem: "\<And>q. denotes (func f q) w (elem_ref (mem w) sub f q)"
    and items: "items_ref (elem_ref (mem w) sub f) p (ucast (data_size f)) (unat count) = Bytes bs"
  shows "packed_size f p count (func f) (s, w) = (Some (of_nat (length bs)), s, w)"
proof -
  let ?items = "items_ref (elem_ref (mem w) sub f) p (ucast (data_size f)) (unat count)"
  consider (f32) "PB_LTYPE (f_type f) = PB_LTYPE_FIXED32" | (f64) "PB_LTYPE (f_type f) = PB_LTYPE_FIXED64"
    | (other) "PB_LTYPE (f_type f) \<noteq> PB_LTYPE_FIXED32" "PB_LTYPE (f_type f) \<noteq> PB_LTYPE_FIXED64"
    by blast
  then show ?thesis
  proof cases
    case f32
    then have "length bs = 4 * unat count"
      using items_ref_fixed32 [OF f32] items by (metis enc_result.inject)
    with f32 show ?thesis by (simp add: packed_size_def)
  next
    case f64
    then have "length bs = 8 * unat count"
      using items_ref_fixed64 [OF f64] items by (metis enc_result.inject)
    with f64 show ?thesis by (simp add: packed_size_def)
  next
    case other
    have "emits (enc_items (unat count) (func f) p (ucast (data_size f))) w (Some bs)"
      using enc_items_denotes [where f = "func f", OF elem] items by (metis denotes_simps(1))
    with other show ?thesis
      by (simp add: packed_size_def emits_sizing)
  qed
qed

lemma packed_size_refused:
  assumes elem: "\<And>q. denotes (func f q) w (elem_ref (mem w) sub f q)"
    and items: "items_ref (elem_ref (mem w) sub f) p (ucast (data_size f)) (unat count) = Refused"
  shows "packed_size f p count (func f) (s, w) = (None, s, w)"
proof -
  have "PB_LTYPE (f_type f) \<noteq> PB_LTYPE_FIXED32" "PB_LTYPE (f_type f) \<noteq> PB_LTYPE_FIXED64"
    using items_ref_fixed32 items_ref_fixed64 items by (metis enc_result.distinct(1))+
  moreover have "emits (enc_items (unat count) (func f) p (ucast (data_size f))) w None"
    using enc_items_denotes [where f = "func f", OF elem] items by (metis denotes_simps(2))
  then obtain s' where "enc_items (unat count) (func f) p (ucast (data_size f)) (PB_OSTREAM_SIZING, w) = (False, s', w)"
    using emits_sizing_None by blast
  ultimately show ?thesis
    by (simp add: packed_size_def)
qed

lemma packed_denotes:
  assumes elem: "\<And>q. denotes (func f q) w (elem_ref (mem w) sub f q)"
  shows "denotes
    (bindb (packed_size f p count (func f)) (\<lambda>n.
       andthen (pb_encode_varint E n)
         (\<lambda>(s, w). if o_callback s = OSizing then pb_write E SrcNull n (s, w)
                   else enc_items (unat count) (func f) p (ucast (data_size f)) (s, w))))
    w (delimit (items_ref (elem_ref (mem w) sub f) p (ucast (data_size f)) (unat count)))"
    (is "denotes ?f w (delimit ?items)")
proof (cases ?items)
  case (Bytes bs)
  let ?n = "of_nat (length bs) :: u64"
  let ?g = "andthen (pb_encode_varint E ?n)
         (\<lambda>(s, w). if o_callback s = OSizing then pb_write E SrcNull ?n (s, w)
                   else enc_items (unat count) (func f) p (ucast (data_size f)) (s, w))"
  have "emits (enc_items (unat count) (func f) p (ucast (data_size f))) w (Some bs)"
    using enc_items_denotes [where f = "func f", OF elem] Bytes by (metis denotes_simps(1))
  then have "emits ?g w (Some (string_bytes bs))"
    unfolding string_bytes_def
    by (intro ostream.emits_andthen_Some pb_encode_varint_emits emits_if_sizing emits_emits_buf)
  moreover have "?f (s, w) = ?g (s, w)" for s
    using packed_size_items [where func = func, OF elem Bytes] by (simp add: bindb_def)
  ultimately show ?thesis
    using Bytes ostream.emits_cong [of ?f w ?g] by simp
next
  case Refused
  have "?f (s, w) = (False, s, w)" for s
    using packed_size_refused [where func = func, OF elem Refused] by (simp add: bindb_def)
  then show ?thesis
    using Refused by (simp add: emits_on_def outside_refl)
qed simp

lemma tag_denotes: "denotes (pb_encode_tag_for_field E f) w (tag_ref f)"
  using pb_encode_tag_for_field_emits [of E f w] by (cases "field_wiretype f") (simp_all add: tag_ref_def)

lemma encode_array_denotes:
  assumes elem: "\<And>q. denotes (func f q) w (elem_ref (mem w) sub f q)"
  shows "denotes (encode_array E f p (ucast count) func) w (array_ref (mem w) sub f p count)"
proof -
  let ?pointer = "PB_ATYPE (f_type f) = PB_ATYPE_POINTER"
  let ?deref = "?pointer \<and> (PB_LTYPE (f_type f) = PB_LTYPE_STRING \<or> PB_LTYPE (f_type f) = PB_LTYPE_BYTES)"
  let ?item = "\<lambda>q. andthen (pb_encode_tag_for_field E f)
    (\<lambda>(s, w). if ?deref then func f (load_ptr (mem w) q) (s, w) else func f q (s, w))"
  have cnt: "unat (ucast count :: u64) = unat count" and z: "(ucast count :: u64) = 0 \<longleftrightarrow> unat count = 0"
    by (simp_all add: unat_ucast_up_simp flip: unat_eq_zero)
  have gt: "(ucast count :: u64) > ucast (array_size f) \<longleftrightarrow> count > array_size f"
    by (simp add: word_less_nat_alt unat_ucast_up_simp)
  have "denotes (\<lambda>(s, w). if ?deref then func f (load_ptr (mem w) q) (s, w) else func f q (s, w)) w
      (elem_ref (mem w) sub f (if ?deref then load_ptr (mem w) q else q))" for q
    using elem [of "load_ptr (mem w) q"] elem [of q]
    by (subst denotes_cong [where f = "func f (if ?deref then load_ptr (mem w) q else q)"]) auto
  then have items: "denotes (enc_items (unat count) ?item p (ucast (data_size f))) w
      (items_ref (\<lambda>q. after (tag_ref f)
         (elem_ref (mem w) sub f (if ?deref then load_ptr (mem w) q else q)))
        p (ucast (data_size f)) (unat count))"
    by (intro enc_items_denotes denotes_andthen tag_denotes)
  have tag: "denotes (pb_encode_tag E PB_WT_STRING (f_tag f)) w (Bytes (tag_bytes PB_WT_STRING (f_tag f)))"
    by (simp add: pb_encode_tag_emits)
  note packed = denotes_andthen [OF tag packed_denotes
      [where func = func and sub = sub and f = f and count = "ucast count", OF elem], unfolded cnt]
  show ?thesis
    unfolding encode_array_def array_ref_def Let_def z gt cnt
    by (intro denotes_if denotes_ret denotes_oerror items packed)
qed

section \<open>Fields and messages\<close>

lemma denotes_run:
  "(\<And>s. g (s, w) = f (s, w)) \<Longrightarrow> denotes f w r \<Longrightarrow> denotes g w r"
  by (simp add: denotes_cong [of g w f])

lemma encode_basic_field_denotes:
  assumes sub: "\<And>fs q. denotes (enc fs q) w (sub fs q)"
  shows "denotes (encode_basic_field E enc f p0) w (basic_ref (mem w) sub f p0)"
proof -
  let ?t = "f_type f" and ?ps = "p0 + scast (size_offset f)"
  let ?pointer = "PB_ATYPE ?t = PB_ATYPE_POINTER"
  let ?p = "if ?pointer then load_ptr (mem w) p0 else p0"
  let ?func = "PB_ENCODERS E enc (PB_LTYPE ?t)"
  let ?item = "andthen (pb_encode_tag_for_field E f) (?func f ?p)"
  let ?check = "pb_check_proto3_default_value (mem w) f p0 None"
  have elem: "denotes (?func f q) w (elem_ref (mem w) sub f q)" for q
    using sub by (rule elem_denotes)
  note item = denotes_andthen [OF tag_denotes [of E f] elem]
  let ?g = "if PB_LTYPE ?t \<ge> PB_LTYPES_COUNT then ofault BadDescriptor
     else if PB_HTYPE ?t = PB_HTYPE_REQUIRED then
       (if ?p = 0 then oerror ''missing required field'' else ?item)
     else if PB_HTYPE ?t = PB_HTYPE_OPTIONAL then
       if size_offset f \<noteq> 0 then (if mem w ?ps \<noteq> 0 then ?item else ret)
       else if ?pointer then (if ?p \<noteq> 0 then ?item else ret)
       else (case ?check of (z, None) \<Rightarrow> if z then ret else ?item | (z, Some e) \<Rightarrow> ofault e)
     else if PB_HTYPE ?t = PB_HTYPE_REPEATED
     then encode_array E f ?p (ucast (if size_offset f \<noteq> 0 then load32 (mem w) ?ps else array_size f)) ?func
     else if size_offset f = 0 then ofault BufferOverrun
     else if load32 (mem w) ?ps = f_tag f then ?item else ret"
  have "encode_basic_field E enc f p0 (s, w) = ?g (s, w)" for s
    by (simp add: encode_basic_field_def Let_def safe_read_bool_def split: prod.split option.split)
  moreover have "denotes (case ?check of (z, None) \<Rightarrow> if z then ret else ?item | (z, Some e) \<Rightarrow> ofault e) w
      (case ?check of (z, None) \<Rightarrow> if z then Bytes [] else after (tag_ref f) (elem_ref (mem w) sub f ?p)
       | (z, Some _) \<Rightarrow> Unspecified)"
    using item by (simp add: ostream.emits_ret split: prod.split option.split)
  then have "denotes ?g w (basic_ref (mem w) sub f p0)"
    unfolding basic_ref_def Let_def
    by (intro denotes_if denotes_ret denotes_oerror denotes_simps(3) item
        encode_array_denotes [where func = ?func and f = f, OF elem])
  ultimately show ?thesis
    by (rule denotes_run)
qed

lemma encode_callback_field_denotes:
  "denotes (encode_callback_field E f p) w (if load_ptr (mem w) p = 0 then Bytes [] else Unspecified)"
  by (simp add: encode_callback_field_def emits_on_def)

lemma encode_field_denotes:
  assumes "\<And>fs q. denotes (enc fs q) w (sub fs q)"
  shows "denotes (encode_field E enc f p) w (field_ref (mem w) sub f p)"
  unfolding encode_field_def field_ref_def Let_def
  by (intro denotes_if encode_basic_field_denotes assms encode_callback_field_denotes denotes_oerror)

lemma default_extension_encoder_denotes:
  assumes "\<And>fs q. denotes (enc fs q) w (sub fs q)"
  shows "denotes (default_extension_encoder E enc ext) w
    (let f = field_at (ext_arg (ext_types E (load_ptr (mem w) ext))) 0 in
     field_ref (mem w) sub f
       (if PB_ATYPE (f_type f) = PB_ATYPE_POINTER then ext + 8 else load_ptr (mem w) (ext + 8)))"
proof -
  let ?f = "field_at (ext_arg (ext_types E (load_ptr (mem w) ext))) 0"
  show ?thesis
    unfolding Let_def
    by (rule denotes_run [OF _ encode_field_denotes [where E = E and enc = enc and sub = sub, OF assms]])
      (simp add: default_extension_encoder_def Let_def)
qed

lemma encode_extensions_denotes:
  assumes sub: "\<And>fs q. denotes (enc fs q) w (sub fs q)"
  shows "denotes (encode_extensions n E enc ext) w (extensions_ref n E (mem w) sub ext)"
proof (induction n arbitrary: ext)
  case 0
  show ?case
    by (rule denotes_run [where f = "if ext = 0 then ret else ofault WalkBudget"])
      (simp_all del: denotes_simps(1))
next
  case (Suc n)
  let ?et = "ext_types E (load_ptr (mem w) ext)"
  have handler: "denotes (case ext_encode ?et of Some k \<Rightarrow> ext_encode_fn E k ext
      | None \<Rightarrow> default_extension_encoder E enc ext) w
    (let f = field_at (ext_arg ?et) 0 in
     if ext_encode ?et \<noteq> None then Unspecified
     else field_ref (mem w) sub f
       (if PB_ATYPE (f_type f) = PB_ATYPE_POINTER then ext + 8 else load_ptr (mem w) (ext + 8)))"
    using default_extension_encoder_denotes [where enc = enc and sub = sub and E = E and ext = ext, OF sub]
    by (simp add: Let_def split: option.split)
  let ?g = "if ext = 0 then ret
    else andthen (case ext_encode ?et of Some k \<Rightarrow> ext_encode_fn E k ext
                  | None \<Rightarrow> default_extension_encoder E enc ext)
                (\<lambda>(s, w). encode_extensions n E enc (load_ptr (mem w) (ext + 16)) (s, w))"
  have "encode_extensions (Suc n) E enc ext (s, w) = ?g (s, w)" for s
    by (simp add: andthen_def split: option.split)
  moreover have "denotes (\<lambda>(s, w). encode_extensions n E enc (load_ptr (mem w) (ext + 16)) (s, w)) w
      (extensions_ref n E (mem w) sub (load_ptr (mem w) (ext + 16)))"
    by (rule denotes_run [OF _ Suc.IH]) simp
  then have "denotes ?g w (extensions_ref (Suc n) E (mem w) sub ext)"
    using denotes_andthen [OF handler] by (fastforce simp: Let_def simp del: denotes_simps(1,2))
  ultimately show ?case
    by (rule denotes_run)
qed

lemma run_items_denotes:
  "(\<And>x. x \<in> set xs \<Longrightarrow> denotes (body x) w (item x)) \<Longrightarrow>
    denotes (run_items body xs) w (all_parts (map item xs))"
  by (induction xs) (simp_all add: denotes_andthen del: denotes_simps(1,2))

lemma encode_message_denotes:
  assumes sub: "\<And>fs q. denotes (enc fs q) w (sub fs q)"
  shows "denotes (encode_message E enc fs src) w (message_ref E (mem w) sub fs src)"
proof (cases "wf_fields fs \<and> nfields fs \<noteq> 0")
  case True
  let ?body = "\<lambda>it. if PB_LTYPE (f_type (cur it)) = PB_LTYPE_EXTENSION
                 then encode_extension_field E enc (cur it) (pData it)
                 else encode_field E enc (cur it) (pData it)"
  let ?part = "\<lambda>k. let f = field_at fs k; p = data_at fs src k in
                 if PB_LTYPE (f_type f) = PB_LTYPE_EXTENSION
                 then extensions_ref (walk_limit E) E (mem w) sub (load_ptr (mem w) p)
                 else field_ref (mem w) sub f p"
  have ext: "denotes (encode_extension_field E enc f p) w
      (extensions_ref (walk_limit E) E (mem w) sub (load_ptr (mem w) p))" for f p
    by (rule denotes_run [OF _ encode_extensions_denotes [where E = E and enc = enc and sub = sub, OF sub]])
      (simp add: encode_extension_field_def)
  have "denotes (run_items (?body \<circ> iter_at fs src) ks) w (all_parts (map ?part ks))" for ks
    using ext encode_field_denotes [where enc = enc and sub = sub, OF sub]
    by (intro run_items_denotes) (simp add: Let_def del: denotes_simps(1,2))
  moreover have "run_items b (map g xs) = run_items (b \<circ> g) xs"
    for b :: "pb_field_iter \<Rightarrow> 'a enc" and g :: "nat \<Rightarrow> pb_field_iter" and xs
    by (induction xs) simp_all
  moreover have "encode_message E enc fs src (s, w) =
      run_items ?body (map (iter_at fs src) [0..<nfields fs]) (s, w)" for s
    using True by (simp add: encode_message_def iter_begin_at iter_loop_at)
  ultimately show ?thesis
    using True by (simp add: message_ref_def del: denotes_simps(1,2)) (rule denotes_run, auto)
next
  case False
  then show ?thesis
    by (cases "wf_fields fs")
      (simp_all add: message_ref_def encode_message_def iter_begin_at emits_on_def)
qed

theorem pb_encode_denotes: "denotes (pb_encode d E fs src) w (encode_ref d E (mem w) fs src)"
  by (induction d arbitrary: fs src) (simp_all add: encode_message_denotes del: denotes_simps(1,2))

end
