(* ===== verification/PbWireParse.thy ===== *)
theory PbWireParse
  imports PbWireIn PbWireOut
begin

text \<open>
  The parsers that the readers of \<open>PbWireIn\<close> are, and their agreement with the bytes the writers
  of \<open>PbWireOut\<close> emit.
\<close>

section \<open>Outcomes on a given input\<close>

text \<open>\<open>outcome s w q run\<close>: the run on the stream \<open>s\<close> in the world \<open>w\<close> takes what \<open>q\<close> says.\<close>

definition outcome :: "pb_istream \<Rightarrow> 'w \<Rightarrow> ('a \<times> nat) option \<Rightarrow> 'a option \<times> pb_istream \<times> 'w \<Rightarrow> bool" where
  "outcome s w q run \<longleftrightarrow>
     (\<forall>v n. q = Some (v, n) \<longrightarrow> n \<le> length (input s) \<and> run = (Some v, adv n s, w)) \<and>
     (q = None \<longrightarrow> (\<exists>s' w'. run = (None, s', w') \<and> within s s'))"

definition pure :: "(u8 list \<Rightarrow> ('a \<times> nat) option) \<Rightarrow> ('w, 'a) parser" where
  "pure q w bs = map_option (\<lambda>(v, n). (v, n, w)) (q bs)"

lemma parses_pure:
  assumes "\<And>s w. istream_inv s \<Longrightarrow> outcome s w (q (input s)) (f (s, w))"
  shows "parses f (pure q)"
  using assms by (intro istream.parsesI) (auto simp: pure_def outcome_def)

lemma parses_pureD:
  assumes "parses f (pure q)" and "istream_inv s"
  shows "outcome s w (q (input s)) (f (s, w))"
  using istream.parses_SomeD [OF assms, of w] istream.parses_NoneD [OF assms, of w]
  by (simp add: outcome_def pure_def)

lemma outcome_None: "within s s' \<Longrightarrow> outcome s w None (None, s', w')"
  by (simp add: outcome_def)

lemma outcome_fail: "istream_inv s \<Longrightarrow> within s s' \<Longrightarrow> outcome s w None (fail msg (s', w'))"
  by (simp add: outcome_def fail_def ierror_def within_errmsg)

text \<open>Reading a byte first, and going on from there.\<close>

definition more :: "('a \<times> nat) option \<Rightarrow> ('a \<times> nat) option" where
  "more q = map_option (\<lambda>(v, n). (v, Suc n)) q"

lemma more_simps [simp]: "more None = None" "more (Some (v, n)) = Some (v, Suc n)"
  by (simp_all add: more_def)

lemma input_Cons:
  assumes "istream_inv s" and "input s = b # bs"
  shows "istream_inv (adv 1 s)" and "input (adv 1 s) = bs"
  using istream.valid_adv [OF assms(1), of 1] istream.rest_adv [OF assms(1), of 1] assms(2) by simp_all

lemma outcome_more:
  assumes s: "istream_inv s" and b: "input s = b # bs" and q: "outcome (adv 1 s) w q run"
  shows "outcome s w (more q) run"
proof (cases q)
  case None
  then show ?thesis
    using q within_adv [OF s, of 1] b by (auto simp: outcome_def intro: within_trans)
next
  case (Some r)
  then obtain v n where "q = Some (v, n)" by (cases r) simp
  then show ?thesis
    using q istream.adv_adv [OF s, of 1 n] input_Cons [OF s b] b by (simp add: outcome_def)
qed

lemma outcome_1:
  assumes "istream_inv s" and "input s = b # bs"
  shows "outcome s w (Some (v, Suc 0)) (Some v, adv (Suc 0) s, w)"
  using assms by (simp add: outcome_def)

lemma pb_readbyte_Nil:
  assumes "istream_inv s" and "input s = []"
  shows "\<exists>s'. pb_readbyte E (s, w) = (None, s', w) \<and> within s s' \<and> bytes_left s' = 0"
proof -
  have "bytes_left s = 0"
    using assms length_input [of s] by (simp add: unat_eq_zero)
  then show ?thesis
    using assms(1) by (simp add: pb_readbyte_def fail_def ierror_def within_errmsg within_refl)
qed

lemma pb_readbyte_Cons:
  assumes "istream_inv s" and "input s = b # bs"
  shows "pb_readbyte E (s, w) = (Some b, adv 1 s, w)"
proof -
  have "unat (bytes_left s) = Suc (length bs)"
    using assms length_input [of s] by simp
  then have "bytes_left s \<noteq> 0" and pos: "1 \<le> unat (bytes_left s)"
    by auto
  moreover have "unat (i_state s) + 1 \<le> length (i_buf s)" "i_callback s = IBuf"
    using assms(1) pos by (auto simp: istream_inv_def)
  moreover have "take 1 (input s) = take 1 (drop (unat (i_state s)) (i_buf s))"
    using pos by (simp add: input_def min_absorb1)
  then have "take 1 (drop (unat (i_state s)) (i_buf s)) = [b]"
    using assms(2) by simp
  ultimately show ?thesis
    by (simp add: pb_readbyte_def buf_read_def deliver_def adv_def Let_def)
qed

section \<open>64-bit varints\<close>

primrec v64 :: "u8 \<Rightarrow> u64 \<Rightarrow> u8 list \<Rightarrow> (u64 \<times> nat) option" where
  "v64 bitpos result [] = None"
| "v64 bitpos result (b # bs) =
     (if bitpos \<ge> 64 then None
      else
        let result' = result OR push_bit (unat bitpos) (ucast (b AND 0x7F)) in
        if b AND 0x80 \<noteq> 0 then more (v64 (bitpos + 7) result' bs) else Some (result', 1))"

lemma varint_go_outcome:
  "istream_inv s \<Longrightarrow> outcome s w (v64 bitpos result (input s)) (varint_go E bitpos result (s, w))"
proof (induction "input s" arbitrary: s bitpos result)
  case Nil
  then show ?case
    using pb_readbyte_Nil [OF Nil.prems, of E w]
    by (auto simp: varint_go.simps [of E bitpos] outcome_fail within_refl intro: outcome_None)
next
  case (Cons b bs)
  note s = \<open>istream_inv s\<close> and b = \<open>b # bs = input s\<close> [symmetric]
  note tail = input_Cons [OF s b]
  have IH: "outcome (adv 1 s) w (v64 bp r bs) (varint_go E bp r (adv 1 s, w))" for bp r
    using Cons.hyps(1) [of "adv 1 s"] tail by simp
  show ?case
    using outcome_more [OF s b IH] s
    by (simp add: outcome_1 [OF s b] varint_go.simps [of E bitpos] b pb_readbyte_Cons [OF s b] Let_def outcome_fail within_refl)
qed

lemma pb_decode_varint_parses: "parses (pb_decode_varint E) (pure (v64 0 0))"
  by (rule parses_pure) (simp add: pb_decode_varint_def varint_go_outcome)

lemma pb_decode_svarint_parses:
  "parses (pb_decode_svarint E) (p_bind (pure (v64 0 0)) (\<lambda>v. p_yield (unzigzag v)))"
  unfolding pb_decode_svarint_def
  by (intro istream.parses_bindo pb_decode_varint_parses istream.parses_yield)

text \<open>A byte of a varint carries seven bits and the continuation flag.\<close>

lemma last_byte:
  assumes "v < 128"
  shows "(ucast v :: u8) AND 0x80 = 0" and "ucast ((ucast v :: u8) AND 0x7F) = (v :: u64)"
proof -
  have v: "take_bit 7 v = v"
    using assms by (rule take_bit_less_128)
  have no: "\<not> bit v n" if "7 \<le> n" for n
    using that by (subst v [symmetric]) (simp add: bit_simps)
  show "(ucast v :: u8) AND 0x80 = 0"
    using no [of 7] by (simp add: and_80_0 bit_simps)
  have "ucast ((ucast v :: u8) AND 0x7F) = take_bit 7 v"
    by (rule bit_word_eqI) (auto simp: and_7F bit_simps)
  then show "ucast ((ucast v :: u8) AND 0x7F) = v"
    using v by simp
qed

lemma next_byte:
  fixes v :: u64
  shows "(ucast (v AND 0x7F) OR 0x80 :: u8) AND 0x80 \<noteq> 0"
    and "(ucast (v AND 0x7F) OR 0x80 :: u8) AND 0x7F = ucast (take_bit 7 v)"
proof -
  show "(ucast (v AND 0x7F) OR 0x80 :: u8) AND 0x80 \<noteq> 0"
    by (simp add: and_80_0 or_80 bit_simps)
  show "(ucast (v AND 0x7F) OR 0x80 :: u8) AND 0x7F = ucast (take_bit 7 v)"
    by (rule bit_word_eqI) (auto simp: and_7F or_80 bit_simps)
qed

lemma varint_bytes_last: "v < 128 \<Longrightarrow> varint_bytes v = [ucast v]"
  by (simp add: varint_bytes.simps)

lemma varint_bytes_next:
  "\<not> v < 128 \<Longrightarrow> varint_bytes v = (ucast (v AND 0x7F) OR 0x80) # varint_bytes (drop_bit 7 v)"
  by (simp add: varint_bytes.simps [of v])

lemma take_drop_7: "push_bit n (take_bit 7 v) OR push_bit (7 + n) (drop_bit 7 v) = push_bit n v"
  for v :: "'a::len word"
proof (rule bit_word_eqI)
  fix i
  have "7 \<le> i - n \<Longrightarrow> 7 + (i - (7 + n)) = i - n" by simp
  then show "bit (push_bit n (take_bit 7 v) OR push_bit (7 + n) (drop_bit 7 v)) i = bit (push_bit n v) i"
    by (cases "i - n < 7") (auto simp: bit_simps)
qed

lemma ucast_take_bit_7: "ucast (ucast (take_bit 7 v) :: u8) = take_bit 7 v" for v :: u64
  by (rule bit_word_eqI) (auto simp: bit_simps)

lemma drop_7_less:
  assumes "unat v < 2 ^ (7 + n)"
  shows "unat (drop_bit 7 v) < 2 ^ n"
  using assms by (simp add: unat_drop_bit power_add less_mult_imp_div_less mult.commute)

lemma bitpos_Suc: "of_nat (7 * k) + 7 = (of_nat (7 * Suc k) :: u8)"
  by simp

lemma v64_varint_bytes:
  "k \<le> 9 \<Longrightarrow> unat v < 2 ^ (64 - 7 * k) \<Longrightarrow>
    v64 (of_nat (7 * k)) r (varint_bytes v @ xs) = Some (r OR push_bit (7 * k) v, length (varint_bytes v))"
proof (induction v arbitrary: k r rule: varint_bytes.induct)
  case (1 v)
  have pos: "unat (of_nat (7 * k) :: u8) = 7 * k"
    using "1.prems"(1) by (simp only: unat_of_nat) simp
  then have small: "\<not> (64 :: u8) \<le> of_nat (7 * k)"
    using "1.prems"(1) by (simp only: word_le_nat_alt) simp
  show ?case
  proof (cases "v < 128")
    case True
    then show ?thesis
      using small pos last_byte [OF True] by (simp add: varint_bytes_last Let_def del: of_nat_mult)
  next
    case False
    then have big: "128 \<le> unat v"
      by (simp add: word_less_nat_alt)
    then have "k \<noteq> 9"
      using "1.prems"(2) by auto
    then have k: "Suc k \<le> 9" and exp: "64 - 7 * k = 7 + (64 - 7 * Suc k)"
      using "1.prems"(1) by simp_all
    have "unat (drop_bit 7 v) < 2 ^ (64 - 7 * Suc k)"
      by (rule drop_7_less) (use "1.prems"(2) in \<open>simp only: exp [symmetric]\<close>)
    note IH = "1.IH" [OF False k this, of "r OR push_bit (7 * k) (take_bit 7 v)"]
    have "v64 (of_nat (7 * k)) r (varint_bytes v @ xs) =
        more (v64 (of_nat (7 * Suc k)) (r OR push_bit (7 * k) (take_bit 7 v)) (varint_bytes (drop_bit 7 v) @ xs))"
      unfolding varint_bytes_next [OF False] bitpos_Suc [symmetric] append_Cons v64.simps(2)
      using small by (simp only: if_False Let_def next_byte if_True not_False_eq_True ucast_take_bit_7 pos)
    also have "\<dots> = Some (r OR push_bit (7 * k) v, length (varint_bytes v))"
      unfolding IH
      using take_drop_7 [of "7 * k" v] by (simp add: varint_bytes_next [OF False] or.assoc)
    finally show ?thesis .
  qed
qed

lemma v64_roundtrip: "v64 0 0 (varint_bytes v @ xs) = Some (v, length (varint_bytes v))"
  using v64_varint_bytes [of 0 v 0 xs] unat_bound [of v] by simp

section \<open>32-bit varints\<close>

primrec v32 :: "u8 \<Rightarrow> u32 \<Rightarrow> u8 list \<Rightarrow> ((u32 \<times> u8 \<times> u8) \<times> nat) option" where
  "v32 bitpos result [] = None"
| "v32 bitpos result (b # bs) =
     (case varint32_step bitpos result b of
        None \<Rightarrow> None
      | Some result' \<Rightarrow>
          if b AND 0x80 \<noteq> 0 then more (v32 (bitpos + 7) result' bs)
          else Some ((result', bitpos + 7, b), 1))"

text \<open>The check after the loop, and the quick case.\<close>

definition v32_end :: "((u32 \<times> u8 \<times> u8) \<times> nat) option \<Rightarrow> (u32 \<times> nat) option" where
  "v32_end q =
     (case q of
        None \<Rightarrow> None
      | Some ((r, bitpos, b), n) \<Rightarrow> if bitpos = 35 \<and> b AND 0x70 \<noteq> 0 then None else Some (r, n))"

fun v32_of :: "u8 list \<Rightarrow> (u32 \<times> nat) option" where
  "v32_of [] = None"
| "v32_of (b # bs) =
     (if b AND 0x80 = 0 then Some (ucast b, 1) else more (v32_end (v32 7 (ucast (b AND 0x7F)) bs)))"

lemma varint32_loop_outcome:
  "istream_inv s \<Longrightarrow> outcome s w (v32 bitpos result (input s)) (varint32_loop E bitpos result (s, w))"
proof (induction "input s" arbitrary: s bitpos result)
  case Nil
  then show ?case
    using pb_readbyte_Nil [OF Nil.prems, of E w]
    by (auto simp: varint32_loop.simps [of E bitpos] intro: outcome_None)
next
  case (Cons b bs)
  note s = \<open>istream_inv s\<close> and b = \<open>b # bs = input s\<close> [symmetric]
  note tail = input_Cons [OF s b]
  have IH: "outcome (adv 1 s) w (v32 bp r bs) (varint32_loop E bp r (adv 1 s, w))" for bp r
    using Cons.hyps(1) [of "adv 1 s"] tail by simp
  have "within s (adv (Suc 0) s)"
    using within_adv [OF s, of 1] b by simp
  then show ?case
    using outcome_more [OF s b IH] s
    by (simp add: outcome_1 [OF s b] varint32_loop.simps [of E bitpos] b pb_readbyte_Cons [OF s b]
        outcome_fail split: option.split)
qed

text \<open>
  \<open>pb_decode_varint32_eof\<close>: with nothing left it fails and reports the end of the message;
  otherwise it never does.
\<close>

lemma varint32_eof_Nil:
  assumes "istream_inv s" and "input s = []"
  shows "\<exists>s'. pb_decode_varint32_eof E (s, w) = ((None, True), s', w) \<and> within s s'"
  using pb_readbyte_Nil [OF assms, of E w] by (auto simp: pb_decode_varint32_eof_def)

lemma varint32_eof_outcome:
  assumes s: "istream_inv s" and "input s \<noteq> []"
  shows "\<exists>run. pb_decode_varint32_eof E (s, w) = ((fst run, False), snd run) \<and>
    outcome s w (v32_of (input s)) run"
proof -
  obtain b bs where b: "input s = b # bs"
    using assms by (cases "input s") auto
  note byte = pb_readbyte_Cons [OF s b] and tail = input_Cons [OF s b]
  show ?thesis
  proof (cases "b AND 0x80 = 0")
    case True
    then show ?thesis
      using outcome_1 [OF s b] by (simp add: pb_decode_varint32_eof_def byte b)
  next
    case False
    let ?r = "ucast (b AND 0x7F) :: u32"
    have loop: "outcome (adv 1 s) w (v32 7 ?r bs) (varint32_loop E 7 ?r (adv 1 s, w))"
      using varint32_loop_outcome [OF tail(1), of w 7 ?r E] tail(2) by simp
    show ?thesis
    proof (cases "v32 7 ?r bs")
      case None
      then obtain s' w' where "varint32_loop E 7 ?r (adv 1 s, w) = (None, s', w')" and "within (adv 1 s) s'"
        using loop by (auto simp: outcome_def)
      moreover have "within s s'"
        using calculation within_adv [OF s, of 1] b by (auto intro: within_trans)
      ultimately show ?thesis
        using False None by (simp add: pb_decode_varint32_eof_def byte b v32_end_def outcome_None)
    next
      case (Some x)
      then obtain r bp c n where x: "v32 7 ?r bs = Some ((r, bp, c), n)"
        by (cases x) auto
      have n: "n \<le> length bs" and run: "varint32_loop E 7 ?r (adv 1 s, w) = (Some (r, bp, c), adv n (adv 1 s), w)"
        using loop x tail(2) by (auto simp: outcome_def)
      moreover have "adv n (adv 1 s) = adv (Suc n) s"
        using istream.adv_adv [OF s, of 1 n] n b by simp
      moreover have "within s (adv (Suc n) s)"
        using within_adv [OF s, of "Suc n"] n b by simp
      ultimately show ?thesis
        using False x n
        by (simp add: pb_decode_varint32_eof_def byte b v32_end_def fail_def ierror_def outcome_def within_errmsg)
    qed
  qed
qed

lemma pb_decode_varint32_parses: "parses (pb_decode_varint32 E) (pure v32_of)"
proof (rule parses_pure)
  fix s and w :: "'a world"
  assume s: "istream_inv s"
  show "outcome s w (v32_of (input s)) (pb_decode_varint32 E (s, w))"
  proof (cases "input s = []")
    case True
    then show ?thesis
      using varint32_eof_Nil [OF s True, of E w] by (auto simp: pb_decode_varint32_def intro: outcome_None)
  next
    case False
    then show ?thesis
      using varint32_eof_outcome [OF s False, of E w] by (auto simp: pb_decode_varint32_def)
  qed
qed

text \<open>The loop on a canonical varint, one byte at a time.\<close>

lemma bitpos_small:
  assumes "k \<le> 9"
  shows "unat (of_nat (7 * k) :: u8) = 7 * k"
  using assms by (simp only: unat_of_nat) simp

lemma bitpos_le: "k \<le> 9 \<Longrightarrow> n < 256 \<Longrightarrow> (of_nat n :: u8) \<le> of_nat (7 * k) \<longleftrightarrow> n \<le> 7 * k"
  using bitpos_small [of k] by (simp only: word_le_nat_alt) (simp add: unat_of_nat)

lemma step_low:
  assumes "k \<le> 4"
  shows "varint32_step (of_nat (7 * k)) r b = Some (r OR push_bit (7 * k) (ucast (b AND 0x7F)))"
  using assms bitpos_small [of k] bitpos_le [of k 32]
  by (simp add: varint32_step_def Let_def del: of_nat_mult)

lemma ucast_take_bit_7': "ucast (ucast (take_bit 7 v) :: u8) = (ucast (take_bit 7 v) :: u32)" for v :: u64
  by (rule bit_word_eqI) (auto simp: bit_simps)

lemma v32_last:
  assumes "k \<le> 4" and "v < 128"
  shows "v32 (of_nat (7 * k)) r (varint_bytes v @ xs) =
    Some ((r OR push_bit (7 * k) (ucast v), of_nat (7 * Suc k), ucast v), 1)"
proof -
  have "ucast ((ucast v :: u8) AND 0x7F) = (ucast (take_bit 7 v) :: u32)"
    by (rule bit_word_eqI) (auto simp: and_7F bit_simps)
  then show ?thesis
    using last_byte [OF assms(2)] take_bit_less_128 [OF assms(2)]
    by (simp add: varint_bytes_last [OF assms(2)] step_low [OF assms(1)] bitpos_Suc del: of_nat_mult)
qed

lemma v32_next:
  assumes "k \<le> 4" and "\<not> v < 128"
  shows "v32 (of_nat (7 * k)) r (varint_bytes v @ xs) =
    more (v32 (of_nat (7 * Suc k)) (r OR push_bit (7 * k) (ucast (take_bit 7 v)))
           (varint_bytes (drop_bit 7 v) @ xs))"
  unfolding varint_bytes_next [OF assms(2)] append_Cons v32.simps(2) step_low [OF assms(1)] next_byte(2)
    ucast_take_bit_7' bitpos_Suc [symmetric]
  using next_byte(1) [of v] by simp

lemma v32_end_more [simp]: "v32_end (more q) = more (v32_end q)"
  by (simp add: v32_end_def more_def split: option.split)

lemma v32_of_last: "v < 128 \<Longrightarrow> v32_of (varint_bytes v @ xs) = Some (ucast v, 1)"
proof -
  assume v: "v < 128"
  have "ucast (ucast v :: u8) = (ucast (take_bit 7 v) :: u32)"
    using take_bit_less_128 [OF v] ucast_take_bit_7' [of v] by simp
  then show ?thesis
    using last_byte [OF v] take_bit_less_128 [OF v] by (simp add: varint_bytes_last [OF v])
qed

lemma v32_of_next:
  assumes "\<not> v < 128"
  shows "v32_of (varint_bytes v @ xs) =
    more (v32_end (v32 (of_nat (7 * 1)) (ucast (take_bit 7 v)) (varint_bytes (drop_bit 7 v) @ xs)))"
  unfolding varint_bytes_next [OF assms] append_Cons v32_of.simps next_byte(2) ucast_take_bit_7'
  using next_byte(1) [of v] by simp

text \<open>Values below \<open>2 ^ 32\<close>.\<close>

lemma take_drop_7_32:
  "push_bit n (ucast (take_bit 7 v)) OR push_bit (7 + n) (ucast (drop_bit 7 v)) = (push_bit n (ucast v) :: u32)"
  for v :: u64
proof (rule bit_word_eqI)
  fix i
  have "7 \<le> i - n \<Longrightarrow> 7 + (i - (7 + n)) = i - n" by simp
  then show "bit (push_bit n (ucast (take_bit 7 v)) OR push_bit (7 + n) (ucast (drop_bit 7 v)) :: u32) i =
      bit (push_bit n (ucast v) :: u32) i"
    by (cases "i - n < 7") (auto simp: bit_simps)
qed

lemma v32_varint_bytes:
  "k \<le> 4 \<Longrightarrow> unat v < 2 ^ (32 - 7 * k) \<Longrightarrow>
    v32_end (v32 (of_nat (7 * k)) r (varint_bytes v @ xs)) =
      Some (r OR push_bit (7 * k) (ucast v), length (varint_bytes v))"
proof (induction v arbitrary: k r rule: varint_bytes.induct)
  case (1 v)
  show ?case
  proof (cases "v < 128")
    case True
    have "(ucast v :: u8) AND 0x70 = 0" if "k = 4"
    proof -
      have "unat v < 2 ^ 4" using "1.prems"(2) that by simp
      then have "unat (take_bit 4 v) = unat v"
        by (simp add: unat_take_bit)
      then have "take_bit 4 v = v"
        by (rule unsigned_word_eqI)
      moreover have "(ucast (take_bit 4 v) :: u8) AND 0x70 = 0"
      proof (rule bit_word_eqI)
        fix n :: nat
        have "n < 4 \<Longrightarrow> n = 0 \<or> n = 1 \<or> n = 2 \<or> n = 3" by linarith
        then have "n < 4 \<Longrightarrow> \<not> bit (0x70 :: u8) n" by auto
        then show "bit ((ucast (take_bit 4 v) :: u8) AND 0x70) n = bit (0 :: u8) n"
          by (auto simp: bit_simps)
      qed
      ultimately show ?thesis by simp
    qed
    moreover have "(of_nat (7 * Suc k) :: u8) = 35 \<Longrightarrow> k = 4"
      using bitpos_small [of "Suc k"] "1.prems"(1) by (auto simp del: of_nat_mult)
    ultimately show ?thesis
      using v32_last [OF "1.prems"(1) True, of r xs]
      by (auto simp: v32_end_def varint_bytes_last [OF True] simp del: of_nat_mult)
  next
    case False
    then have "128 \<le> unat v"
      by (simp add: word_less_nat_alt)
    then have "k \<noteq> 4"
      using "1.prems"(2) by auto
    then have k: "Suc k \<le> 4" and exp: "32 - 7 * k = 7 + (32 - 7 * Suc k)"
      using "1.prems"(1) by simp_all
    have "unat (drop_bit 7 v) < 2 ^ (32 - 7 * Suc k)"
      by (rule drop_7_less) (use "1.prems"(2) in \<open>simp only: exp [symmetric]\<close>)
    from "1.IH" [OF False k this, of "r OR push_bit (7 * k) (ucast (take_bit 7 v))"]
    show ?thesis
      unfolding v32_next [OF "1.prems"(1) False] v32_end_more
      using take_drop_7_32 [of "7 * k" v] by (simp add: varint_bytes_next [OF False] or.assoc)
  qed
qed

lemma v32_of_small:
  assumes "unat v < 2 ^ 32"
  shows "v32_of (varint_bytes v @ xs) = Some (ucast v, length (varint_bytes v))"
proof (cases "v < 128")
  case True
  show ?thesis
    unfolding v32_of_last [OF True] by (simp add: varint_bytes_last [OF True])
next
  case False
  have "unat (drop_bit 7 v) < 2 ^ (32 - 7 * 1)"
    by (rule drop_7_less) (use assms in simp)
  from v32_varint_bytes [OF _ this, of "ucast (take_bit 7 v)" xs] show ?thesis
    using take_drop_7_32 [of 0 v] unfolding v32_of_next [OF False]
    by (simp add: varint_bytes_next [OF False])
qed

lemma v32_roundtrip: "v32_of (varint_bytes (ucast x) @ xs) = Some (x, length (varint_bytes (ucast (x :: u32))))"
proof -
  have "ucast (ucast x :: u64) = x"
    by (rule bit_word_eqI) (auto simp: bit_simps)
  then show ?thesis
    using v32_of_small [of "ucast x" xs] unat_bound [of x] by (simp add: unat_ucast_up_simp)
qed

text \<open>
  Values from \<open>2 ^ 32\<close> on whose top bit is clear are refused, and sign-extended negative values
  give their low 32 bits. (Between \<open>2 ^ 63\<close> and the sign-extended values the loop accepts some that
  are neither.)
\<close>

lemma v32_high:
  "5 \<le> k \<Longrightarrow> k \<le> 8 \<Longrightarrow> v \<noteq> 0 \<Longrightarrow> unat v < 2 ^ (63 - 7 * k) \<Longrightarrow>
    v32 (of_nat (7 * k)) r (varint_bytes v @ xs) = None"
proof (induction v arbitrary: k r rule: varint_bytes.induct)
  case (1 v)
  have high: "(of_nat (7 * k) :: u8) \<ge> 32" "\<not> (of_nat (7 * k) :: u8) \<ge> 63"
    using bitpos_le [of k 32] bitpos_le [of k 63] "1.prems" by simp_all
  show ?case
  proof (cases "v < 128")
    case True
    have "ucast ((ucast v :: u8) AND 0x7F) \<noteq> (0 :: u64)"
      using last_byte(2) [OF True] "1.prems"(3) by simp
    then have "(ucast v :: u8) AND 0x7F \<noteq> 0" by auto
    moreover have "(ucast v :: u8) \<noteq> 0xFF"
      using last_byte(1) [OF True] by auto
    ultimately show ?thesis
      using high by (simp add: varint_bytes_last [OF True] varint32_step_def not_le del: of_nat_mult)
  next
    case False
    then have big: "128 \<le> unat v"
      by (simp add: word_less_nat_alt)
    then have "k \<noteq> 8"
      using "1.prems"(4) by auto
    then have k: "5 \<le> Suc k" "Suc k \<le> 8" and exp: "63 - 7 * k = 7 + (63 - 7 * Suc k)"
      using "1.prems"(1,2) by simp_all
    have "unat (drop_bit 7 v) < 2 ^ (63 - 7 * Suc k)"
      by (rule drop_7_less) (use "1.prems"(4) in \<open>simp only: exp [symmetric]\<close>)
    moreover have "drop_bit 7 v \<noteq> 0"
      using big by (simp add: unat_drop_bit flip: unat_eq_zero)
    ultimately have "v32 (of_nat (7 * Suc k)) r' (varint_bytes (drop_bit 7 v) @ xs) = None" for r'
      using "1.IH" [OF False k] by blast
    then show ?thesis
      unfolding varint_bytes_next [OF False] append_Cons v32.simps(2) bitpos_Suc
      by (simp split: option.split)
  qed
qed

lemma v32_above:
  "1 \<le> k \<Longrightarrow> k \<le> 4 \<Longrightarrow> 2 ^ (32 - 7 * k) \<le> unat v \<Longrightarrow> unat v < 2 ^ (63 - 7 * k) \<Longrightarrow>
    v32_end (v32 (of_nat (7 * k)) r (varint_bytes v @ xs)) = None"
proof (induction v arbitrary: k r rule: varint_bytes.induct)
  case (1 v)
  have exp: "63 - 7 * k = 7 + (63 - 7 * Suc k)"
    using "1.prems"(2) by simp
  have less: "unat (drop_bit 7 v) < 2 ^ (63 - 7 * Suc k)"
    by (rule drop_7_less) (use "1.prems"(4) in \<open>simp only: exp [symmetric]\<close>)
  show ?case
  proof (cases "v < 128")
    case True
    have "k = 4"
    proof (rule ccontr)
      assume "k \<noteq> 4"
      then have "(2 :: nat) ^ 11 \<le> 2 ^ (32 - 7 * k)"
        using "1.prems"(2) by (intro power_increasing) simp_all
      then show False
        using "1.prems"(3) True by (simp add: word_less_nat_alt)
    qed
    have "(ucast v :: u8) AND 0x70 \<noteq> 0"
    proof
      assume zero: "(ucast v :: u8) AND 0x70 = 0"
      have "take_bit 4 v = take_bit 7 v"
      proof (rule bit_word_eqI)
        fix i
        have "i \<in> {4, 5, 6} \<Longrightarrow> \<not> bit v i"
          using arg_cong [OF zero, of "\<lambda>x. bit x i"] by (auto simp: bit_simps bit_numeral_word_iff)
        moreover have "i < 4 \<or> i \<in> {4, 5, 6} \<or> 7 \<le> i" by auto
        ultimately show "bit (take_bit 4 v) i = bit (take_bit 7 v) i"
          by (auto simp: bit_simps)
      qed
      then have "unat (take_bit 4 v) = unat v"
        using take_bit_less_128 [OF True] by simp
      then have "unat v < 16"
        by (simp add: unat_take_bit)
      with "1.prems"(3) \<open>k = 4\<close> show False by simp
    qed
    then show ?thesis
      using v32_last [OF "1.prems"(2) True, of r xs] \<open>k = 4\<close> by (simp add: v32_end_def)
  next
    case False
    show ?thesis
    proof (cases "k = 4")
      case True
      have "drop_bit 7 v \<noteq> 0"
        using False by (simp add: unat_drop_bit word_less_nat_alt flip: unat_eq_zero)
      then show ?thesis
        unfolding v32_next [OF "1.prems"(2) False]
        using v32_high [of "Suc k"] less True by (simp add: v32_end_def)
    next
      case k: False
      have "32 - 7 * k = 7 + (32 - 7 * Suc k)"
        using k "1.prems"(2) by simp
      then have "2 ^ 7 * 2 ^ (32 - 7 * Suc k) \<le> unat v"
        using "1.prems"(3) by (metis power_add)
      then have "2 ^ (32 - 7 * Suc k) \<le> unat (drop_bit 7 v)"
        by (simp add: unat_drop_bit less_eq_div_iff_mult_less_eq mult.commute)
      then show ?thesis
        unfolding v32_next [OF "1.prems"(2) False] v32_end_more
        using "1.IH" [OF False, of "Suc k"] k "1.prems"(2) less by simp
    qed
  qed
qed

lemma v32_of_above:
  assumes "2 ^ 32 \<le> unat v" and "unat v < 2 ^ 63"
  shows "v32_of (varint_bytes v @ xs) = None"
proof -
  have v: "\<not> v < 128"
    using assms(1) by (simp add: word_less_nat_alt)
  have "unat (drop_bit 7 v) < 2 ^ (63 - 7 * 1)"
    by (rule drop_7_less) (use assms in simp)
  moreover have "2 ^ (32 - 7 * 1) \<le> unat (drop_bit 7 v)"
    using assms(1) by (simp add: unat_drop_bit)
  ultimately show ?thesis
    unfolding v32_of_next [OF v] using v32_above [of 1] by simp
qed

lemma v32_sign_bytes:
  assumes "bit r 31"
  shows "v32 35 r ([0xFF, 0xFF, 0xFF, 0xFF, 0x01] @ xs) = Some ((r, 70, 1), 5)"
proof -
  have "bit (drop_bit 31 r) 0"
    using assms by (simp add: bit_simps)
  then have "drop_bit 31 r \<noteq> 0"
    by (metis bit_0_eq bot_apply bot_bool_def)
  then show ?thesis
    by (simp add: varint32_step_def Let_def)
qed

lemma v32_of_sign_extended:
  assumes "bit x 31"
  shows "v32_of (varint_bytes (scast (x :: u32)) @ xs) = Some (x, 10)"
proof -
  let ?v = "scast x :: u64"
  have top: "unat ?v \<ge> 2 ^ 63"
  proof -
    have "take_bit 63 ?v \<noteq> ?v"
    proof
      assume "take_bit 63 ?v = ?v"
      then have "bit (take_bit 63 ?v) 63 = bit ?v 63" by simp
      then show False
        using assms by (simp add: bit_simps)
    qed
    then have "unat (take_bit 63 ?v) \<noteq> unat ?v"
      using unsigned_word_eqI by blast
    then show ?thesis
      by (simp add: unat_take_bit mod_if split: if_splits)
  qed
  have big: "\<not> drop_bit n ?v < 128" if "n \<le> 28" for n
  proof -
    have "(2 :: nat) ^ 63 div 2 ^ 28 \<le> unat ?v div 2 ^ 28"
      using top by (intro div_le_mono)
    also have "\<dots> \<le> unat ?v div 2 ^ n"
      using that by (intro div_le_mono2 power_increasing) simp_all
    finally show ?thesis
      by (simp add: word_less_nat_alt unat_drop_bit)
  qed
  have last: "drop_bit 35 ?v = 0x1FFFFFFF"
  proof -
    have "(0x1FFFFFFF :: u64) = mask 29"
      by (simp add: mask_eq_exp_minus_1)
    moreover have "drop_bit 35 ?v = mask 29"
      using assms by (intro bit_word_eqI) (auto simp: bit_simps)
    ultimately show ?thesis by simp
  qed
  define r where "r = ucast (take_bit 7 ?v) OR push_bit 7 (ucast (take_bit 7 (drop_bit 7 ?v)))
    OR push_bit 14 (ucast (take_bit 7 (drop_bit 14 ?v))) OR push_bit 21 (ucast (take_bit 7 (drop_bit 21 ?v)))
    OR push_bit 28 (ucast (take_bit 7 (drop_bit 28 ?v)) :: u32)"
  have r: "r = x"
  proof -
    have T: "push_bit n (ucast (take_bit 7 (drop_bit n ?v))) OR push_bit (7 + n) (ucast (drop_bit (7 + n) ?v))
        = (push_bit n (ucast (drop_bit n ?v)) :: u32)" for n
      using take_drop_7_32 [of n "drop_bit n ?v"] by (simp add: drop_bit_drop_bit add.commute)
    have "(push_bit 35 (ucast (drop_bit 35 ?v)) :: u32) = 0"
      by (rule bit_word_eqI) (auto simp: bit_simps)
    then have "push_bit 28 (ucast (take_bit 7 (drop_bit 28 ?v))) = (push_bit 28 (ucast (drop_bit 28 ?v)) :: u32)"
      using T [of 28] by simp
    then have "r = ucast ?v"
      using T [of 0] T [of 7] T [of 14] T [of 21] by (simp add: r_def or.assoc)
    also have "\<dots> = x"
      by (rule bit_word_eqI) (auto simp: bit_simps)
    finally show ?thesis .
  qed
  have bytes: "varint_bytes 0x1FFFFFFF = [0xFF, 0xFF, 0xFF, 0xFF, 0x01]"
    by (simp add: varint_bytes.simps)
  have step: "v32_end (v32 (of_nat (7 * k)) q (varint_bytes (drop_bit n ?v) @ xs)) =
      more (v32_end (v32 (of_nat (7 * Suc k)) (q OR push_bit (7 * k) (ucast (take_bit 7 (drop_bit n ?v))))
        (varint_bytes (drop_bit (7 + n) ?v) @ xs)))" if "k \<le> 4" "n \<le> 28" for k n q
    unfolding v32_next [OF that(1) big [OF that(2)]]
    by (simp add: drop_bit_drop_bit add.commute del: of_nat_mult)
  have "v32_of (varint_bytes ?v @ xs) = more (more (more (more (more (v32_end (v32 35 r
      (varint_bytes (drop_bit 35 ?v) @ xs)))))))"
    using v32_of_next [of ?v xs] big [of 0] step [of 1 7] step [of 2 14] step [of 3 21] step [of 4 28]
    by (simp add: r_def or.assoc)
  also have "\<dots> = Some (x, 10)"
    unfolding last bytes r v32_sign_bytes [OF assms] by (simp add: v32_end_def)
  finally show ?thesis .
qed

end
