(* ===== verification/PbElementParse.thy ===== *)
theory PbElementParse
  imports PbWireParse
begin

text \<open>
  Field keys, skipping, length-delimited parts and fixed-width integers as parsers: what
  \<open>pb_decode_tag\<close>, \<open>pb_skip_field\<close>, the substream functions and \<open>pb_decode_fixed32/64\<close> of
  \<open>pb_decode.c\<close> take from the input and do with it.
\<close>

section \<open>Zig-zag\<close>

lemma sint_negative_bit: "sint v < 0 \<longleftrightarrow> bit v 63" for v :: u64
  using bit_last_iff [of v] by simp

lemma unzigzag_zigzag [simp]: "unzigzag (zigzag v) = v"
proof -
  have one: "w AND 1 \<noteq> 0 \<longleftrightarrow> bit w 0" for w :: u64
    by (simp add: and_one_eq odd_iff_mod_2_eq_one bit_0 mod2_eq_if)
  define x where "x = push_bit 1 v"
  have x: "bit x n \<longleftrightarrow> 0 < n \<and> n < 64 \<and> bit v (n - 1)" for n
    unfolding x_def bit_push_bit_iff by auto
  have z: "zigzag v = (if bit v 63 then NOT x else x)"
    by (simp add: zigzag_def sint_negative_bit x_def)
  have "NOT (drop_bit 1 (NOT x)) = v" if "bit v 63"
  proof (rule bit_word_eqI)
    fix n assume "n < LENGTH(64)"
    then show "bit (NOT (drop_bit 1 (NOT x))) n = bit v n"
      using that by (cases "n = 63") (auto simp: bit_simps x)
  qed
  moreover have "drop_bit 1 x = v" if "\<not> bit v 63"
  proof (rule bit_word_eqI)
    fix n assume "n < LENGTH(64)"
    then show "bit (drop_bit 1 x) n = bit v n"
      using that by (cases "n = 63") (auto simp: bit_simps x)
  qed
  moreover have "bit (NOT x) 0" "\<not> bit x 0"
    by (simp_all add: bit_simps x)
  ultimately show ?thesis
    by (simp add: unzigzag_def z one)
qed

section \<open>Skipping\<close>

text \<open>\<open>varint_end bs\<close> is the number of bytes up to the first one without a continuation flag.\<close>

fun varint_end :: "u8 list \<Rightarrow> (unit \<times> nat) option" where
  "varint_end [] = None"
| "varint_end (b # bs) = (if b AND 0x80 \<noteq> 0 then more (varint_end bs) else Some ((), 1))"

lemma pb_read_1_Nil:
  assumes "istream_inv s" and "input s = []"
  shows "\<exists>s' w'. pb_read E DstLocal 1 (s, w) = (None, s', w') \<and> within s s'"
  using istream.parses_NoneD [OF pb_read_parses assms(1), of DstLocal 1 w] assms(2)
  by (simp add: p_read_def)

lemma pb_read_1_Cons:
  assumes "istream_inv s" and "input s = b # bs"
  shows "pb_read E DstLocal 1 (s, w) = (Some [b], adv 1 s, w)"
  using istream.parses_SomeD [OF pb_read_parses assms(1), of DstLocal 1 w "[b]" 1 w] assms(2)
  by (simp add: p_read_def deliver_def)

lemma pb_skip_varint_outcome:
  "istream_inv s \<Longrightarrow> outcome s w (varint_end (input s)) (pb_skip_varint E (s, w))"
proof (induction "input s" arbitrary: s)
  case Nil
  then show ?case
    using pb_read_1_Nil [OF Nil.prems, of E w] by (auto simp: pb_skip_varint.simps [of E "(s, w)"] outcome_def)
next
  case (Cons b bs)
  note s = \<open>istream_inv s\<close> and b = \<open>b # bs = input s\<close> [symmetric]
  note tail = input_Cons [OF s b]
  have IH: "outcome (adv 1 s) w (varint_end bs) (pb_skip_varint E (adv 1 s, w))"
    using Cons.hyps(1) [of "adv 1 s"] tail by simp
  show ?case
    using outcome_more [OF s b IH]
    by (simp add: outcome_1 [OF s b] pb_skip_varint.simps [of E "(s, w)"] b pb_read_1_Cons [OF s b])
qed

lemma pb_skip_varint_parses: "parses (pb_skip_varint E) (pure varint_end)"
  by (rule parses_pure) (rule pb_skip_varint_outcome)

definition take_away :: "nat \<Rightarrow> u8 list \<Rightarrow> (unit \<times> nat) option" where
  "take_away n bs = (if n \<le> length bs then Some ((), n) else None)"

lemma skip_bytes_parses:
  fixes E :: "'u env"
  shows "parses (skip_bytes E n) (pure (take_away (unat n)))"
proof -
  have "p_bind (p_read DstNull (unat n)) (\<lambda>_. p_yield ()) = (pure (take_away (unat n)) :: ('u world, unit) parser)"
    by (intro ext) (simp add: p_bind_def p_read_def deliver_def p_yield_def pure_def take_away_def)
  then show ?thesis
    using istream.parses_bindo [OF pb_read_parses istream.parses_yield, of E DstNull n "\<lambda>_. ()"]
    by (simp add: skip_bytes_def)
qed

text \<open>A length and as many bytes.\<close>

definition then_skip :: "(u32 \<times> nat) option \<Rightarrow> u8 list \<Rightarrow> (unit \<times> nat) option" where
  "then_skip q bs =
     (case q of None \<Rightarrow> None
      | Some (n, k) \<Rightarrow> if unat n \<le> length bs - k then Some ((), k + unat n) else None)"

lemma pb_skip_string_parses:
  fixes E :: "'u env"
  shows "parses (pb_skip_string E) (pure (\<lambda>bs. then_skip (v32_of bs) bs))"
proof -
  have "p_bind (pure v32_of) (\<lambda>n. pure (take_away (unat (ucast n :: u64)))) =
      (pure (\<lambda>bs. then_skip (v32_of bs) bs) :: ('u world, unit) parser)"
    by (intro ext)
      (auto simp: p_bind_def pure_def take_away_def then_skip_def unat_ucast_up_simp split: option.split)
  then show ?thesis
    using istream.parses_bindo [OF pb_decode_varint32_parses skip_bytes_parses, of E "\<lambda>_. E" "ucast"]
    by (simp add: pb_skip_string_def)
qed

text \<open>The extent of the value of a field of a given wire type.\<close>

definition value_end :: "pb_wire_type_t \<Rightarrow> u8 list \<Rightarrow> (unit \<times> nat) option" where
  "value_end wt bs =
     (if wt = PB_WT_VARINT then varint_end bs
      else if wt = PB_WT_64BIT then take_away 8 bs
      else if wt = PB_WT_STRING then then_skip (v32_of bs) bs
      else if wt = PB_WT_32BIT then take_away 4 bs
      else None)"

lemma pb_skip_field_parses:
  fixes E :: "'u env"
  shows "parses (pb_skip_field E wt) (pure (value_end wt))"
proof -
  have *: "(pure (value_end wt) :: ('u world, unit) parser) =
    (if wt = PB_WT_VARINT then pure varint_end
     else if wt = PB_WT_64BIT then pure (take_away (unat (8 :: u64)))
     else if wt = PB_WT_STRING then pure (\<lambda>bs. then_skip (v32_of bs) bs)
     else if wt = PB_WT_32BIT then pure (take_away (unat (4 :: u64)))
     else p_fail)"
    by (intro ext) (simp add: value_end_def pure_def p_fail_def)
  show ?thesis
    unfolding pb_skip_field_def *
    by (intro istream.parses_if pb_skip_varint_parses skip_bytes_parses pb_skip_string_parses parses_fail)
qed

lemma varint_end_varint_bytes: "varint_end (varint_bytes v @ xs) = Some ((), length (varint_bytes v))"
proof (induction v rule: varint_bytes.induct)
  case (1 v)
  then show ?case
    using last_byte(1) [of v] next_byte(1) [of v]
    by (cases "v < 128") (simp_all add: varint_bytes_last varint_bytes_next)
qed

lemma string_end:
  assumes "length bs < 2 ^ 32"
  shows "then_skip (v32_of (string_bytes bs @ xs)) (string_bytes bs @ xs) = Some ((), length (string_bytes bs))"
proof -
  have n: "unat (of_nat (length bs) :: u64) = length bs"
    using assms by (simp add: unsigned_of_nat take_bit_nat_eq_self)
  have m: "unat (ucast (of_nat (length bs) :: u64) :: u32) = length bs"
    using assms by (simp add: unsigned_ucast_eq unsigned_of_nat take_bit_nat_eq_self)
  have "v32_of (varint_bytes (of_nat (length bs)) @ bs @ xs) =
      Some (ucast (of_nat (length bs) :: u64), length (varint_bytes (of_nat (length bs))))"
    by (rule v32_of_small) (use assms n in simp)
  then show ?thesis
    unfolding then_skip_def string_bytes_def append_assoc using m by simp
qed

section \<open>Field keys\<close>

lemma pb_decode_tag_Nil:
  assumes "istream_inv s" and "input s = []"
  shows "\<exists>s'. pb_decode_tag E (s, w) = ((None, True), s', w) \<and> within s s'"
  using varint32_eof_Nil [OF assms, of E w] by (auto simp: pb_decode_tag_def)

text \<open>A key that can be read: its wire type, its tag, and its length. The key 0 ends the message.\<close>

definition key_of :: "u8 list \<Rightarrow> ((pb_wire_type_t \<times> u32) option \<times> nat) option" where
  "key_of bs =
     (case v32_of bs of None \<Rightarrow> None
      | Some (t, n) \<Rightarrow> Some (if t = 0 then None else Some (t AND 7, drop_bit 3 t), n))"

lemma pb_decode_tag_key:
  assumes s: "istream_inv s" and "input s \<noteq> []"
  shows "(\<forall>k n. key_of (input s) = Some (k, n) \<longrightarrow>
      n \<le> length (input s) \<and> pb_decode_tag E (s, w) = ((k, k = None), adv n s, w)) \<and>
    (key_of (input s) = None \<longrightarrow>
      (\<exists>s' w'. pb_decode_tag E (s, w) = ((None, False), s', w') \<and> within s s'))"
  using varint32_eof_outcome [OF assms, of E w]
  by (auto simp: pb_decode_tag_def key_of_def outcome_def split: option.splits if_splits)

lemma key_of_tag_bytes:
  assumes n: "unat n < 2 ^ 29" and wt: "unat wt < 8" and nz: "n \<noteq> 0"
  shows "key_of (tag_bytes wt n @ xs) = Some (Some (wt, n), length (tag_bytes wt n))"
proof -
  let ?t = "push_bit 3 n OR wt"
  have nb: "bit n i \<Longrightarrow> i < 29" for i
  proof -
    assume "bit n i"
    have "unat (take_bit 29 n) = unat n"
      using n by (simp add: unat_take_bit)
    then have "take_bit 29 n = n"
      by (rule unsigned_word_eqI)
    then show "i < 29"
      using \<open>bit n i\<close> by (metis bit_take_bit_iff)
  qed
  have wb: "bit wt i \<Longrightarrow> i < 3" for i
  proof -
    assume "bit wt i"
    have "unat (take_bit 3 wt) = unat wt"
      using wt by (simp add: unat_take_bit)
    then have "take_bit 3 wt = wt"
      by (rule unsigned_word_eqI)
    then show "i < 3"
      using \<open>bit wt i\<close> by (metis bit_take_bit_iff)
  qed
  have "push_bit 3 (ucast n) OR ucast wt = (ucast ?t :: u64)"
    using nb wb by (intro bit_word_eqI) (fastforce simp: bit_simps)
  then have tag: "v32_of (tag_bytes wt n @ xs) = Some (?t, length (tag_bytes wt n))"
    unfolding tag_bytes_def by (simp only: v32_roundtrip)
  have "drop_bit 3 ?t = n"
  proof (rule bit_word_eqI)
    fix i
    show "bit (drop_bit 3 ?t) i = bit n i"
      using nb [of i] wb [of "3 + i"] by (auto simp: bit_simps)
  qed
  moreover have "?t AND 7 = wt"
  proof (rule bit_word_eqI)
    fix i
    have "?t AND 7 = take_bit 3 ?t"
      by (simp add: take_bit_eq_mask mask_eq_exp_minus_1)
    then show "bit (?t AND 7) i = bit wt i"
      using wb [of i] by (auto simp: bit_simps)
  qed
  moreover have "?t \<noteq> 0"
    using \<open>drop_bit 3 ?t = n\<close> nz by (metis drop_bit_of_0)
  ultimately show ?thesis
    by (simp add: key_of_def tag)
qed

section \<open>Substreams\<close>

text \<open>
  A length-delimited part: \<open>p\<close> runs on exactly the announced bytes, and what it leaves of them is
  skipped.
\<close>

definition p_sub :: "('w, 'a) parser \<Rightarrow> ('w, 'a) parser" where
  "p_sub p w bs =
     (case v32_of bs of
        None \<Rightarrow> None
      | Some (n, k) \<Rightarrow>
          if unat n \<le> length bs - k then
            map_option (\<lambda>(v, m, w'). (v, k + unat n, w')) (p w (take (unat n) (drop k bs)))
          else None)"

definition sub_of :: "u32 \<Rightarrow> pb_istream \<Rightarrow> pb_istream" where
  "sub_of n s = s\<lparr>bytes_left := ucast n\<rparr>"

definition parent_of :: "u32 \<Rightarrow> pb_istream \<Rightarrow> pb_istream" where
  "parent_of n s = s\<lparr>bytes_left := bytes_left s - ucast n\<rparr>"

text \<open>\<open>rejoin s sub\<close>: the parent stream takes over where the substream has come to.\<close>

definition rejoin :: "pb_istream \<Rightarrow> pb_istream \<Rightarrow> pb_istream" where
  "rejoin s sub = s\<lparr>i_state := i_state sub, i_errmsg := i_errmsg sub\<rparr>"

lemma sub_of_facts:
  assumes s: "istream_inv s" and n: "unat n \<le> unat (bytes_left s)"
  shows "istream_inv (sub_of n s)" and "input (sub_of n s) = take (unat n) (input s)"
    and "unat (bytes_left (parent_of n s)) = unat (bytes_left s) - unat n"
proof -
  have u: "unat (ucast n :: u64) = unat n"
    by (simp add: unat_ucast_up_simp)
  show "istream_inv (sub_of n s)"
    using s n u by (auto simp: istream_inv_def sub_of_def)
  show "input (sub_of n s) = take (unat n) (input s)"
    using n u by (simp add: input_def sub_of_def min_absorb1)
  show "unat (bytes_left (parent_of n s)) = unat (bytes_left s) - unat n"
    using n u by (simp add: parent_of_def unat_sub word_le_nat_alt)
qed

lemma pb_close_string_substream_run:
  fixes w :: "'u world"
  assumes sub: "istream_inv sub"
  shows "pb_close_string_substream E sub (s, w) = (Some (), rejoin s (adv (length (input sub)) sub), w)"
proof (cases "bytes_left sub = 0")
  case True
  then have "length (input sub) = 0"
    using length_input [OF sub] by simp
  then show ?thesis
    using True istream.adv_0 [of sub] by (simp add: pb_close_string_substream_def rejoin_def)
next
  case False
  have "pb_read E DstNull (bytes_left sub) (sub, w) = (Some [], adv (unat (bytes_left sub)) sub, w)"
    using istream.parses_SomeD [OF pb_read_parses sub, of DstNull "bytes_left sub" w]
      length_input [OF sub] by (simp add: p_read_def deliver_def)
  with False show ?thesis
    by (simp add: pb_close_string_substream_def rejoin_def length_input [OF sub])
qed

lemma rejoin_adv:
  assumes s: "istream_inv s" and n: "unat n \<le> unat (bytes_left s)"
  shows "rejoin (parent_of n s) (adv (unat n) (sub_of n s)) = adv (unat n) s"
proof -
  have "of_nat (unat n) = (ucast n :: u64)"
    by simp
  then show ?thesis
    by (simp add: rejoin_def parent_of_def sub_of_def adv_def)
qed

lemma rejoin_within:
  assumes s: "istream_inv s" and n: "unat n \<le> unat (bytes_left s)"
    and sub: "within (sub_of n s) sub"
  shows "within s (rejoin (parent_of n s) (adv (length (input sub)) sub))"
proof -
  have u: "unat (ucast n :: u64) = unat n"
    by (simp add: unat_ucast_up_simp)
  have inv: "istream_inv sub" and le: "unat (i_state s) \<le> unat (i_state sub)"
    and e: "unat (i_state sub) + unat (bytes_left sub) \<le> unat (i_state s) + unat n"
    using sub u by (auto simp: within_def sub_of_def)
  have "unat (i_state (adv (length (input sub)) sub)) = unat (i_state sub) + unat (bytes_left sub)"
    using adv_pos(1) [OF inv, of "length (input sub)"] length_input [OF inv] by simp
  then show ?thesis
    using sub_of_facts(3) [OF s n] s n le e
    by (simp add: within_def istream_inv_def rejoin_def) (simp add: parent_of_def, arith)
qed

lemma in_substream_parses:
  fixes body :: "('u, 'a) dec"
  assumes body: "parses body p"
  shows "parses (in_substream E body) (p_sub p)"
proof (rule istream.parsesI)
  fix s and w :: "'u world" and v m w'
  assume s: "istream_inv s" and "p_sub p w (input s) = Some (v, m, w')"
  then obtain n k j where q: "v32_of (input s) = Some (n, k)" and n: "unat n \<le> length (input s) - k"
    and p: "p w (take (unat n) (drop k (input s))) = Some (v, j, w')" and m: "m = k + unat n"
    by (auto simp: p_sub_def split: option.splits if_splits)
  have k: "k \<le> length (input s)" and head: "pb_decode_varint32 E (s, w) = (Some n, adv k s, w)"
    using parses_pureD [OF pb_decode_varint32_parses [of E] s, of w] q by (auto simp: outcome_def)
  let ?s = "adv k s"
  note s1 = istream.valid_adv [OF s k] and rest = istream.rest_adv [OF s k]
  have n1: "unat n \<le> unat (bytes_left ?s)"
    using n length_input [OF s1] rest by simp
  note sub = sub_of_facts [OF s1 n1]
  have j: "j \<le> unat n" and run: "body (sub_of n ?s, w) = (Some v, adv j (sub_of n ?s), w')"
    using istream.parses_SomeD [OF body sub(1), of w v j w'] p sub(2) rest n by auto
  have len: "length (input (sub_of n ?s)) = unat n"
    using sub(2) rest n by simp
  have jj: "j \<le> length (input (sub_of n ?s))"
    using j len by simp
  have "adv (length (input (adv j (sub_of n ?s)))) (adv j (sub_of n ?s)) = adv (unat n) (sub_of n ?s)"
    using istream.adv_adv [OF sub(1), of j "unat n - j"] istream.rest_adv [OF sub(1) jj] len j by simp
  then have close: "pb_close_string_substream E (adv j (sub_of n ?s)) (parent_of n ?s, w') =
      (Some (), adv (unat n) ?s, w')"
    using pb_close_string_substream_run [OF istream.valid_adv [OF sub(1) jj], where E = E and w = w'] rejoin_adv [OF s1 n1] by simp
  have "bytes_left ?s \<ge> ucast n"
    using n1 by (simp add: word_le_nat_alt unat_ucast_up_simp)
  then have "in_substream E body (s, w) = (Some v, adv (unat n) ?s, w')"
    using head run close
    by (simp add: in_substream_def pb_make_string_substream_def bindo_def sub_of_def parent_of_def
        linorder_not_less [symmetric])
  then show "m \<le> length (input s) \<and> in_substream E body (s, w) = (Some v, adv m s, w')"
    using m k n istream.adv_adv [OF s, of k "unat n"] by simp
next
  fix s and w :: "'u world"
  assume s: "istream_inv s" and none: "p_sub p w (input s) = None"
  show "\<exists>s' w'. in_substream E body (s, w) = (None, s', w') \<and> within s s'"
  proof (cases "v32_of (input s)")
    case None
    then obtain s' w' where "pb_decode_varint32 E (s, w) = (None, s', w')" and "within s s'"
      using parses_pureD [OF pb_decode_varint32_parses [of E] s, of w] by (auto simp: outcome_def)
    then show ?thesis
      by (auto simp: in_substream_def pb_make_string_substream_def bindo_def)
  next
    case (Some q)
    then obtain n k where q: "v32_of (input s) = Some (n, k)" by (cases q) auto
    have k: "k \<le> length (input s)" and head: "pb_decode_varint32 E (s, w) = (Some n, adv k s, w)"
      using parses_pureD [OF pb_decode_varint32_parses [of E] s, of w] q by (auto simp: outcome_def)
    let ?s = "adv k s"
    note s1 = istream.valid_adv [OF s k] and rest = istream.rest_adv [OF s k]
    have iff: "bytes_left ?s < ucast n \<longleftrightarrow> length (input s) - k < unat n"
      using length_input [OF s1] rest by (simp add: word_less_nat_alt unat_ucast_up_simp)
    show ?thesis
    proof (cases "unat n \<le> length (input s) - k")
      case False
      then show ?thesis
        using head iff within_adv [OF s k]
        by (simp add: in_substream_def pb_make_string_substream_def bindo_def fail_def ierror_def within_errmsg)
    next
      case True
      then have p: "p w (take (unat n) (drop k (input s))) = None"
        using none q by (simp add: p_sub_def)
      have n1: "unat n \<le> unat (bytes_left ?s)"
        using True length_input [OF s1] rest by simp
      note sub = sub_of_facts [OF s1 n1]
      obtain sub' w' where run: "body (sub_of n ?s, w) = (None, sub', w')" and in': "within (sub_of n ?s) sub'"
        using istream.parses_NoneD [OF body sub(1), of w] p sub(2) rest by auto
      then have "istream_inv sub'"
        by (simp add: within_def)
      note close = pb_close_string_substream_run [OF this, where E = E and s = "parent_of n ?s" and w = w']
      have "in_substream E body (s, w) = (None, rejoin (parent_of n ?s) (adv (length (input sub')) sub'), w')"
        using head iff True run close
        by (simp add: in_substream_def pb_make_string_substream_def bindo_def sub_of_def parent_of_def)
      then show ?thesis
        using rejoin_within [OF s1 n1 in'] within_adv [OF s k] within_trans by blast
    qed
  qed
qed

end
