(* ===== verification/PbCodec.thy ===== *)
theory PbCodec
  imports PbElementParse
begin

text \<open>
  Wire-format elements as codecs: an encoder to bytes, a decoder that takes exactly those bytes off
  any input, and a wire type whose skipping takes them off as well. One locale states the laws; it
  is interpreted on the encoders and decoders of the model, and its lemmas lift to sequences.
\<close>

section \<open>Laws\<close>

locale wire_codec =
  fixes valid :: "'a \<Rightarrow> bool"
    and enc :: "'a \<Rightarrow> u8 list"
    and dec :: "u8 list \<Rightarrow> ('a \<times> nat) option"
  assumes dec_enc: "valid v \<Longrightarrow> dec (enc v @ xs) = Some (v, length (enc v))"
begin

lemma enc_prefix_free:
  assumes "valid u" and "valid v" and "enc u @ xs = enc v @ ys"
  shows "u = v" and "xs = ys"
proof -
  show "u = v"
    using dec_enc [OF assms(1), of xs] dec_enc [OF assms(2), of ys] assms(3) by simp
  then show "xs = ys"
    using assms(3) by simp
qed

primrec dec_many :: "nat \<Rightarrow> u8 list \<Rightarrow> ('a list \<times> nat) option" where
  "dec_many 0 bs = Some ([], 0)"
| "dec_many (Suc n) bs =
     (case dec bs of None \<Rightarrow> None
      | Some (v, k) \<Rightarrow> map_option (\<lambda>(vs, m). (v # vs, k + m)) (dec_many n (drop k bs)))"

lemma dec_many_enc:
  "(\<And>v. v \<in> set vs \<Longrightarrow> valid v) \<Longrightarrow>
    dec_many (length vs) (concat (map enc vs) @ xs) = Some (vs, length (concat (map enc vs)))"
  by (induction vs) (simp_all add: dec_enc)

lemma concat_enc_inj:
  assumes "\<And>v. v \<in> set us \<Longrightarrow> valid v" and "\<And>v. v \<in> set vs \<Longrightarrow> valid v"
    and "length us = length vs" and "concat (map enc us) = concat (map enc vs)"
  shows "us = vs"
  using dec_many_enc [of us "[]"] dec_many_enc [of vs "[]"] assms by simp

end

text \<open>An element that is the whole value of a field can be skipped by its wire type alone.\<close>

locale field_codec = wire_codec valid enc dec
  for valid :: "'a \<Rightarrow> bool" and enc :: "'a \<Rightarrow> u8 list" and dec :: "u8 list \<Rightarrow> ('a \<times> nat) option" +
  fixes wt :: pb_wire_type_t
  assumes skip_enc: "valid v \<Longrightarrow> value_end wt (enc v @ xs) = Some ((), length (enc v))"
begin

lemma skip_as_dec: "valid v \<Longrightarrow> value_end wt (enc v @ xs) = map_option (\<lambda>(u, n). ((), n)) (dec (enc v @ xs))"
  by (simp add: dec_enc skip_enc)

end

section \<open>Little-endian words\<close>

definition word_of :: "nat \<Rightarrow> u8 list \<Rightarrow> ('a::len word \<times> nat) option" where
  "word_of n bs = (if n \<le> length bs then Some (le_word (take n bs), n) else None)"

lemma word_of_bytes_le:
  fixes v :: "'a::len word"
  assumes "LENGTH('a) \<le> 8 * n"
  shows "word_of n (bytes_le n v @ xs) = Some (v, length (bytes_le n v))"
  using assms by (simp add: word_of_def le_word_bytes_le_full)

lemma le_word_4:
  fixes bs :: "u8 list"
  assumes "length bs = 4"
  shows "push_bit 0 (ucast (bs ! 0)) OR push_bit 8 (ucast (bs ! 1)) OR push_bit 16 (ucast (bs ! 2)) OR
    push_bit 24 (ucast (bs ! 3)) = (le_word bs :: u32)"
  using assms by (auto simp: length_Suc_conv numeral_eq_Suc push_bit_or push_bit_push_bit simp del: push_bit_Suc)

lemma le_word_8:
  fixes bs :: "u8 list"
  assumes "length bs = 8"
  shows "push_bit 0 (ucast (bs ! 0)) OR push_bit 8 (ucast (bs ! 1)) OR push_bit 16 (ucast (bs ! 2)) OR
    push_bit 24 (ucast (bs ! 3)) OR push_bit 32 (ucast (bs ! 4)) OR push_bit 40 (ucast (bs ! 5)) OR
    push_bit 48 (ucast (bs ! 6)) OR push_bit 56 (ucast (bs ! 7)) = (le_word bs :: u64)"
  using assms by (auto simp: length_Suc_conv numeral_eq_Suc push_bit_or push_bit_push_bit simp del: push_bit_Suc)

text \<open>\<open>pb_decode_fixed32\<close> and \<open>pb_decode_fixed64\<close> store the word that the next bytes are.\<close>

definition p_word :: "nat \<Rightarrow> ('a::len word \<Rightarrow> memory \<Rightarrow> memory) \<Rightarrow> ('u world, unit) parser" where
  "p_word n put w bs =
     map_option (\<lambda>(v, k). ((), k, w\<lparr>mem := put v (mem w)\<rparr>)) (word_of n bs)"

definition p_local :: "nat \<Rightarrow> ('w, u8 list) parser" where
  "p_local n w bs = (if n \<le> length bs then Some (take n bs, n, w) else None)"

lemma pb_read_local_parses:
  fixes E :: "'u env"
  shows "parses (pb_read E DstLocal n) (p_local (unat n))"
proof -
  have "p_read DstLocal (unat n) = (p_local (unat n) :: ('u world, u8 list) parser)"
    by (intro ext) (simp add: p_read_def p_local_def deliver_def)
  then show ?thesis
    using pb_read_parses [of E DstLocal n] by simp
qed

lemma store_word_parses:
  fixes E :: "'u env"
  assumes "\<And>bs :: u8 list. length bs = unat n \<Longrightarrow> val bs = le_word bs"
  shows "parses (bindo (pb_read E DstLocal n) (\<lambda>bs (s, w). (Some (), s, w\<lparr>mem := put (val bs) (mem w)\<rparr>)))
    (p_word (unat n) put)"
proof -
  have "p_bind (p_local (unat n)) (\<lambda>bs w xs. Some ((), 0, w\<lparr>mem := put (val bs) (mem w)\<rparr>)) =
      (p_word (unat n) put :: ('u world, unit) parser)"
    using assms by (intro ext) (simp add: p_bind_def p_local_def p_word_def word_of_def)
  moreover have "parses (bindo (pb_read E DstLocal n) (\<lambda>bs (s, w). (Some (), s, w\<lparr>mem := put (val bs) (mem w)\<rparr>)))
      (p_bind (p_local (unat n)) (\<lambda>bs w xs. Some ((), 0, w\<lparr>mem := put (val bs) (mem w)\<rparr>)))"
    by (intro istream.parses_bindo pb_read_local_parses istream.parses_world)
  ultimately show ?thesis by simp
qed

lemma unat_numeral_64: "unat (4 :: u64) = 4" "unat (8 :: u64) = 8"
  by simp_all

lemma pb_decode_fixed32_parses: "parses (pb_decode_fixed32 E dest) (p_word 4 (\<lambda>v m. store32 m dest v))"
  unfolding pb_decode_fixed32_def Let_def
  by (rule store_word_parses [where n = 4, unfolded unat_numeral_64, OF le_word_4])

lemma pb_decode_fixed64_parses: "parses (pb_decode_fixed64 E dest) (p_word 8 (\<lambda>v m. store64 m dest v))"
  unfolding pb_decode_fixed64_def Let_def
  by (rule store_word_parses [where n = 8, unfolded unat_numeral_64, OF le_word_8])

section \<open>Strings\<close>

definition string_of :: "u8 list \<Rightarrow> (u8 list \<times> nat) option" where
  "string_of bs =
     (case v32_of bs of None \<Rightarrow> None
      | Some (n, k) \<Rightarrow>
          if unat n \<le> length bs - k then Some (take (unat n) (drop k bs), k + unat n) else None)"

lemma string_of_string_bytes:
  assumes "length bs < 2 ^ 32"
  shows "string_of (string_bytes bs @ xs) = Some (bs, length (string_bytes bs))"
proof -
  have n: "unat (of_nat (length bs) :: u64) = length bs"
    using assms by (simp add: unsigned_of_nat take_bit_nat_eq_self)
  have m: "unat (ucast (of_nat (length bs) :: u64) :: u32) = length bs"
    using assms by (simp add: unsigned_ucast_eq unsigned_of_nat take_bit_nat_eq_self)
  have "v32_of (varint_bytes (of_nat (length bs)) @ bs @ xs) =
      Some (ucast (of_nat (length bs) :: u64), length (varint_bytes (of_nat (length bs))))"
    by (rule v32_of_small) (use assms n in simp)
  then show ?thesis
    unfolding string_of_def string_bytes_def append_assoc using m by simp
qed

section \<open>The codecs of the model\<close>

interpretation varint: field_codec "\<lambda>_. True" varint_bytes "v64 0 0" PB_WT_VARINT
  by unfold_locales (simp_all add: v64_roundtrip value_end_def varint_end_varint_bytes)

interpretation svarint: field_codec "\<lambda>_. True" "\<lambda>v. varint_bytes (zigzag v)"
  "\<lambda>bs. map_option (\<lambda>(v, n). (unzigzag v, n)) (v64 0 0 bs)" PB_WT_VARINT
  by unfold_locales (simp_all add: v64_roundtrip value_end_def varint_end_varint_bytes)

interpretation varint32: field_codec "\<lambda>_. True" "\<lambda>v :: u32. varint_bytes (ucast v)" v32_of PB_WT_VARINT
  by unfold_locales (simp_all add: v32_roundtrip value_end_def varint_end_varint_bytes)

interpretation fixed32: field_codec "\<lambda>_. True" "bytes_le 4 :: u32 \<Rightarrow> u8 list" "word_of 4" PB_WT_32BIT
  by unfold_locales (simp_all add: word_of_bytes_le value_end_def take_away_def)

interpretation fixed64: field_codec "\<lambda>_. True" "bytes_le 8 :: u64 \<Rightarrow> u8 list" "word_of 8" PB_WT_64BIT
  by unfold_locales (simp_all add: word_of_bytes_le value_end_def take_away_def)

interpretation string: field_codec "\<lambda>bs. length bs < 2 ^ 32" string_bytes string_of PB_WT_STRING
  by unfold_locales (simp_all add: string_of_string_bytes value_end_def string_end)

text \<open>Keys are codecs too, with no wire type of their own.\<close>

definition valid_key :: "pb_wire_type_t \<times> u32 \<Rightarrow> bool" where
  "valid_key k \<longleftrightarrow> unat (snd k) < 2 ^ 29 \<and> unat (fst k) < 8 \<and> snd k \<noteq> 0"

interpretation key: wire_codec valid_key "\<lambda>(wt, n). tag_bytes wt n"
  "\<lambda>bs. case key_of bs of Some (Some k, n) \<Rightarrow> Some (k, n) | _ \<Rightarrow> None"
  by unfold_locales (auto simp: valid_key_def key_of_tag_bytes)

section \<open>From an output buffer to an input buffer\<close>

text \<open>
  A buffer of \<open>n\<close> bytes is written from its start; afterwards \<open>bytes_written\<close> says how much of it
  is the message, and an input stream on that part has the emitted bytes as its input.
\<close>

lemma from_buffer_inv:
  assumes "length buf < 2 ^ 63" and "unat n \<le> length buf"
  shows "ostream_inv (pb_ostream_from_buffer buf n)"
  using assms by (simp add: ostream_inv_def lib_stream_def pb_ostream_from_buffer_def avail_def word_less_nat_alt)

lemma from_buffer_emits:
  assumes f: "emits f w (Some bs)" and buf: "length buf < 2 ^ 63" "unat n \<le> length buf" "length bs \<le> unat n"
  shows "\<exists>s. f (pb_ostream_from_buffer buf n, w) = (True, s, w) \<and> unat (bytes_written s) = length bs \<and>
    o_buf s = bs @ drop (length bs) buf \<and>
    istream_inv (pb_istream_from_buffer (o_buf s) (bytes_written s)) \<and>
    input (pb_istream_from_buffer (o_buf s) (bytes_written s)) = bs"
proof -
  let ?s = "pb_ostream_from_buffer buf n"
  have inv: "ostream_inv ?s"
    using buf by (intro from_buffer_inv)
  moreover have "room ?s (length bs)"
    using buf by (simp add: room_def pb_ostream_from_buffer_def avail_def)
  ultimately have run: "f (?s, w) = (True, push bs ?s, w)"
    by (rule ostream.emits_fits [OF f])
  have "put_bytes buf 0 bs = bs @ drop (length bs) buf"
    using put_bytes_eq [of 0 bs buf] buf by simp
  then have buf': "o_buf (push bs ?s) = bs @ drop (length bs) buf"
    by (simp add: push_def pb_ostream_from_buffer_def)
  have bw: "unat (bytes_written (push bs ?s)) = length bs"
    using buf by (simp add: push_def pb_ostream_from_buffer_def unsigned_of_nat take_bit_nat_eq_self)
  have "istream_inv (pb_istream_from_buffer (o_buf (push bs ?s)) (bytes_written (push bs ?s)))"
    using buf bw buf' by (simp add: istream_inv_def pb_istream_from_buffer_def)
  moreover have "input (pb_istream_from_buffer (o_buf (push bs ?s)) (bytes_written (push bs ?s))) = bs"
    using bw buf' by (simp add: input_def pb_istream_from_buffer_def)
  ultimately show ?thesis
    using run buf' bw by blast
qed

section \<open>A sample environment\<close>

text \<open>The environment of the examples, in which no stream and no field has a callback, and a state of its memory.\<close>

definition sample_env :: "unit env" where
  "sample_env = \<lparr>ostream_fn = (\<lambda>_ _ _ w. (False, 0, w)), istream_fn = (\<lambda>_ _ _ w. (False, [], 0, w)),
     encode_fn = (\<lambda>_ _ _ st. (False, st)), decode_fn = (\<lambda>_ _ _ st. (False, st)),
     ext_types = (\<lambda>_. \<lparr>ext_decode = None, ext_encode = None, ext_arg = [PB_LAST_FIELD]\<rparr>),
     ext_encode_fn = (\<lambda>_ _ st. (False, st)), ext_decode_fn = (\<lambda>_ _ _ _ st. (False, st)), walk_limit = 0,
     place = (\<lambda>_ _. None), local_addr = (\<lambda>_. 0)\<rparr>"

definition blank_world :: "unit world" where
  "blank_world = \<lparr>mem = (\<lambda>a. ucast a), blocks = [], user = (), fault = None\<rparr>"

end
