(* ===== verification/PbDecodeElem.thy ===== *)
theory PbDecodeElem
  imports PbDefaultsProofs PbEncodeSpec PbCodec
begin

text \<open>
  The element decoders of \<open>pb_decode.c\<close> on what the element encoders of \<open>pb_encode.c\<close> write: a scalar
  is stored as it was at its source.
\<close>

section \<open>Decoders that take given bytes\<close>

definition takes :: "('u, 'a) dec \<Rightarrow> 'u world \<Rightarrow> u8 list \<Rightarrow> 'a \<Rightarrow> 'u world \<Rightarrow> bool" where
  "takes f w bs v w' \<longleftrightarrow>
     (\<forall>s xs. istream_inv s \<longrightarrow> input s = bs @ xs \<longrightarrow> f (s, w) = (Some v, adv (length bs) s, w'))"

lemma takesD: "takes f w bs v w' \<Longrightarrow> istream_inv s \<Longrightarrow> input s = bs @ xs \<Longrightarrow> f (s, w) = (Some v, adv (length bs) s, w')"
  by (simp add: takes_def)

lemma takes_parses:
  assumes "parses f p" and "\<And>xs. p w (bs @ xs) = Some (v, length bs, w')"
  shows "takes f w bs v w'"
  using istream.parses_SomeD [OF assms(1)] assms(2) by (simp add: takes_def)

lemma takes_bindo:
  assumes f: "takes f w as u w1" and g: "takes (g u) w1 bs v w2"
  shows "takes (bindo f g) w (as @ bs) v w2"
proof -
  have "bindo f g (s, w) = (Some v, adv (length (as @ bs)) s, w2)"
    if s: "istream_inv s" and xs: "input s = (as @ bs) @ xs" for s xs
  proof -
    have n: "length as \<le> length (input s)" using xs by simp
    have "input (adv (length as) s) = bs @ xs"
      using istream.rest_adv [OF s n] xs by simp
    from takesD [OF g istream.valid_adv [OF s n] this] show ?thesis
      using takesD [OF f s, of "bs @ xs"] xs istream.adv_adv [OF s, of "length as" "length bs"]
      by (simp add: bindo_def)
  qed
  then show ?thesis by (simp add: takes_def)
qed

lemma takes_yield: "takes (yield v) w [] v w"
  by (simp add: takes_def yield_def istream.adv_0)

lemma takes_exec: "takes (exec g) w [] () (g w)"
  by (simp add: takes_def exec_def istream.adv_0)

lemma pb_decode_varint_takes: "takes (pb_decode_varint E) w (varint_bytes v) v w"
  by (rule takes_parses [OF pb_decode_varint_parses]) (simp add: pure_def v64_roundtrip)

lemma pb_decode_varint32_takes: "takes (pb_decode_varint32 E) w (varint_bytes (ucast v)) v w"
  by (rule takes_parses [OF pb_decode_varint32_parses]) (simp add: pure_def v32_roundtrip)

lemma pb_decode_svarint_takes: "takes (pb_decode_svarint E) w (varint_bytes (zigzag v)) v w"
  by (rule takes_parses [OF pb_decode_svarint_parses]) (simp add: p_bind_def pure_def v64_roundtrip p_yield_def)

section \<open>Words in memory\<close>

lemma le_word_bit: "bit (le_word bs :: 'a::len word) i \<Longrightarrow> i < 8 * length bs"
proof (induction bs arbitrary: i)
  case (Cons b bs)
  have "bit (ucast b :: 'a word) i \<or> (8 \<le> i \<and> bit (le_word bs :: 'a word) (i - 8))"
    using Cons.prems by (auto simp: bit_or_iff bit_push_bit_iff)
  then show ?case
  proof
    assume "bit (ucast b :: 'a word) i"
    then have "i < 8" using bit_imp_le_length [of b i] by (simp add: bit_ucast_iff)
    then show ?thesis by simp
  next
    assume "8 \<le> i \<and> bit (le_word bs :: 'a word) (i - 8)"
    then show ?thesis using Cons.IH [of "i - 8"] by simp
  qed
qed simp

lemma bytes_le_le_word: "8 * length bs \<le> LENGTH('a) \<Longrightarrow> bytes_le (length bs) (le_word bs :: 'a::len word) = bs"
proof (induction bs)
  case (Cons b bs)
  let ?r = "le_word bs :: 'a word"
  have "(ucast (ucast b OR push_bit 8 ?r) :: u8) = b"
    using Cons.prems by (intro bit_word_eqI) (auto simp: bit_simps)
  moreover have "drop_bit 8 (ucast b OR push_bit 8 ?r) = ?r"
  proof (rule bit_word_eqI)
    fix i assume "i < LENGTH('a)"
    have "bit ?r i \<Longrightarrow> i < 8 * length bs" by (rule le_word_bit)
    then show "bit (drop_bit 8 (ucast b OR push_bit 8 ?r)) i = bit ?r i"
      using Cons.prems by (auto simp: bit_simps dest: bit_imp_le_length)
  qed
  ultimately show ?case
    using Cons by (simp add: bytes_le_Suc)
qed simp

lemma load_store_loaded:
  "load_bytes (store64 mm a (load64 m p)) a 8 = load_bytes m p 8"
  "load_bytes (store32 mm a (load32 m p)) a 4 = load_bytes m p 4"
  "load_bytes (store16 mm a (load16 m p)) a 2 = load_bytes m p 2"
  using load_store_bytes [of "load_bytes m p 8" mm a] load_store_bytes [of "load_bytes m p 4" mm a]
    load_store_bytes [of "load_bytes m p 2" mm a]
    bytes_le_le_word [of "load_bytes m p 8", where 'a = 64] bytes_le_le_word [of "load_bytes m p 4", where 'a = 32]
    bytes_le_le_word [of "load_bytes m p 2", where 'a = 16]
  by (simp_all add: store64_def load64_def store32_def load32_def store16_def load16_def)

lemma ucast_scast_id:
  "ucast (scast (x :: u8) :: u64) = x" "ucast (scast (y :: u16) :: u64) = y" "ucast (scast (z :: u32) :: u64) = z"
  "ucast (ucast x :: u64) = x" "ucast (ucast y :: u64) = y" "ucast (ucast z :: u64) = z"
  by (rule bit_word_eqI, auto simp: bit_simps)+

lemma scast_32_id:
  "scast (ucast (scast (x :: u8) :: u64) :: u32) = (scast x :: u64)"
  "scast (ucast (scast (y :: u16) :: u64) :: u32) = (scast y :: u64)"
  "scast (ucast (scast (z :: u32) :: u64) :: u32) = (scast z :: u64)"
  by (rule bit_word_eqI, auto simp: bit_simps min_def)+

lemma changes_store16: "region a 2 \<subseteq> X \<Longrightarrow> changes_only X m (store16 m a v)"
  by (simp add: store16_def changes_only_store)

text \<open>A store that copies \<open>n\<close> bytes.\<close>

definition copies :: "nat \<Rightarrow> memory \<Rightarrow> addr \<Rightarrow> addr \<Rightarrow> (memory \<Rightarrow> memory) \<Rightarrow> bool" where
  "copies n m p dest put \<longleftrightarrow>
     (\<forall>mm. load_bytes (put mm) dest n = load_bytes m p n \<and> changes_only (region dest n) mm (put mm))"

lemma copies_words:
  "copies 1 m p dest (\<lambda>mm. mm(dest := m p))"
  "copies 2 m p dest (\<lambda>mm. store16 mm dest (load16 m p))"
  "copies 4 m p dest (\<lambda>mm. store32 mm dest (load32 m p))"
  "copies 8 m p dest (\<lambda>mm. store64 mm dest (load64 m p))"
  by (simp_all add: copies_def load_store_loaded changes_store32 changes_store64 changes_store16)
    (simp_all add: load_bytes_Suc)

lemma assign_signed_copies:
  assumes "read_signed m f p = Some v"
  shows "\<exists>put. assign_signed f dest v = Some (v, put) \<and> copies (unat (data_size f)) m p dest put"
  using assms copies_words [of m p dest]
  by (auto simp: read_signed_def assign_signed_def ucast_scast_id split: if_splits)

lemma assign_unsigned_copies:
  assumes "read_unsigned m f p = Some v"
  shows "\<exists>put. assign_unsigned f dest v = Some (v, put) \<and> copies (unat (data_size f)) m p dest put"
  using assms copies_words [of m p dest]
  by (auto simp: read_unsigned_def assign_unsigned_def ucast_scast_id split: if_splits)

lemma store_checked_takes: "takes (store_checked (Some (v, put)) v) w [] () (w\<lparr>mem := put (mem w)\<rparr>)"
  by (simp add: takes_def store_checked_def bindo_def exec_def on_mem_def yield_def istream.adv_0)

section \<open>Scalars\<close>

definition scalar_stored :: "memory \<Rightarrow> pb_field \<Rightarrow> addr \<Rightarrow> memory \<Rightarrow> addr \<Rightarrow> bool" where
  "scalar_stored m f p m' dest \<longleftrightarrow>
     (if PB_LTYPE (f_type f) = PB_LTYPE_BOOL then m' dest = 0 \<longleftrightarrow> m p = 0
      else load_bytes m' dest (unat (data_size f)) = load_bytes m p (unat (data_size f)))"

lemma pb_dec_varint_takes:
  assumes "read_signed m f p = Some v"
  shows "\<exists>put. takes (pb_dec_varint E f dest) w (varint_bytes v) () (w\<lparr>mem := put (mem w)\<rparr>) \<and>
    copies (unat (data_size f)) m p dest put"
proof -
  obtain put where put: "assign_signed f dest v = Some (v, put)" "copies (unat (data_size f)) m p dest put"
    using assign_signed_copies [OF assms] by blast
  have "(if data_size f = 8 then v else scast (ucast v :: u32)) = v"
    using assms by (auto simp: read_signed_def scast_32_id split: if_splits)
  then have "takes (pb_dec_varint E f dest) w (varint_bytes v @ []) () (w\<lparr>mem := put (mem w)\<rparr>)"
    unfolding pb_dec_varint_def Let_def
    by (intro takes_bindo [OF pb_decode_varint_takes]) (simp only: put(1) store_checked_takes)
  then show ?thesis using put(2) by auto
qed

lemma pb_dec_uvarint_takes:
  assumes "read_unsigned m f p = Some v"
  shows "\<exists>put. takes (pb_dec_uvarint E f dest) w (varint_bytes v) () (w\<lparr>mem := put (mem w)\<rparr>) \<and>
    copies (unat (data_size f)) m p dest put"
proof -
  obtain put where put: "assign_unsigned f dest v = Some (v, put)" "copies (unat (data_size f)) m p dest put"
    using assign_unsigned_copies [OF assms] by blast
  have "takes (pb_dec_uvarint E f dest) w (varint_bytes v @ []) () (w\<lparr>mem := put (mem w)\<rparr>)"
    unfolding pb_dec_uvarint_def
    by (intro takes_bindo [OF pb_decode_varint_takes]) (simp only: put(1) store_checked_takes)
  then show ?thesis using put(2) by auto
qed

lemma pb_dec_svarint_takes:
  assumes "read_signed m f p = Some v"
  shows "\<exists>put. takes (pb_dec_svarint E f dest) w (varint_bytes (zigzag v)) () (w\<lparr>mem := put (mem w)\<rparr>) \<and>
    copies (unat (data_size f)) m p dest put"
proof -
  obtain put where put: "assign_signed f dest v = Some (v, put)" "copies (unat (data_size f)) m p dest put"
    using assign_signed_copies [OF assms] by blast
  have "takes (pb_dec_svarint E f dest) w (varint_bytes (zigzag v) @ []) () (w\<lparr>mem := put (mem w)\<rparr>)"
    unfolding pb_dec_svarint_def
    by (intro takes_bindo [OF pb_decode_svarint_takes]) (simp only: put(1) store_checked_takes)
  then show ?thesis using put(2) by auto
qed

lemma pb_dec_bool_takes:
  "takes (pb_dec_bool E dest) w (varint_bytes (if b then 1 else 0)) () (w\<lparr>mem := (mem w)(dest := (if b then 1 else 0))\<rparr>)"
proof -
  have "takes (pb_dec_bool E dest) w (varint_bytes (ucast (if b then 1 else 0 :: u32)) @ []) () (put_bool dest b w)"
    unfolding pb_dec_bool_def
    using takes_exec [of "put_bool dest b" w] by (intro takes_bindo [OF pb_decode_varint32_takes]) (cases b, simp_all)
  then show ?thesis by (cases b) (simp_all add: put_bool_mem)
qed

lemma pb_dec_fixed32_takes:
  "takes (pb_dec_fixed32 E f dest) w (bytes_le 4 (load32 m p)) () (w\<lparr>mem := store32 (mem w) dest (load32 m p)\<rparr>)"
  unfolding pb_dec_fixed32_def
  by (rule takes_parses [OF pb_decode_fixed32_parses]) (simp add: p_word_def word_of_bytes_le)

lemma pb_dec_fixed64_takes:
  "takes (pb_dec_fixed64 E f dest) w (bytes_le 8 (load64 m p)) () (w\<lparr>mem := store64 (mem w) dest (load64 m p)\<rparr>)"
  unfolding pb_dec_fixed64_def
  by (rule takes_parses [OF pb_decode_fixed64_parses]) (simp add: p_word_def word_of_bytes_le)

lemma scalar_takes:
  assumes f: "plain_field sub f" "PB_ATYPE (f_type f) \<noteq> PB_ATYPE_POINTER" "PB_LTYPE (f_type f) \<noteq> PB_LTYPE_SUBMESSAGE"
    and bs: "elem_ref m enc f p = Bytes bs"
  shows "\<exists>m'. takes (PB_DECODERS E rc (PB_LTYPE (f_type f)) f dest) w bs () (w\<lparr>mem := m'\<rparr>) \<and>
    scalar_stored m f p m' dest \<and> changes_only (region dest (unat (data_size f))) (mem w) m'"
proof -
  let ?t = "PB_LTYPE (f_type f)"
  consider (bool) "?t = PB_LTYPE_BOOL" "data_size f = 1" | (varint) "?t = PB_LTYPE_VARINT" | (uvarint) "?t = PB_LTYPE_UVARINT"
    | (svarint) "?t = PB_LTYPE_SVARINT" | (fixed32) "?t = PB_LTYPE_FIXED32" "data_size f = 4"
    | (fixed64) "?t = PB_LTYPE_FIXED64" "data_size f = 8"
    using f by (auto simp: plain_field_def Let_def)
  then show ?thesis
  proof cases
    case bool
    then show ?thesis
      using bs pb_dec_bool_takes [of E dest w "m p \<noteq> 0"]
      by (auto simp: elem_ref_def varint_of_def PB_DECODERS_def scalar_stored_def split: if_splits
          intro!: exI [of _ "(mem w)(dest := if m p = 0 then 0 else 1)"])
  next
    case varint
    then obtain v where v: "read_signed m f p = Some v" "bs = varint_bytes v"
      using bs by (auto simp: elem_ref_def varint_of_def split: option.splits)
    then show ?thesis
      using pb_dec_varint_takes [OF v(1), of E dest w] varint
      by (auto simp: PB_DECODERS_def scalar_stored_def copies_def)
  next
    case uvarint
    then obtain v where v: "read_unsigned m f p = Some v" "bs = varint_bytes v"
      using bs by (auto simp: elem_ref_def varint_of_def split: option.splits)
    then show ?thesis
      using pb_dec_uvarint_takes [OF v(1), of E dest w] uvarint
      by (auto simp: PB_DECODERS_def scalar_stored_def copies_def)
  next
    case svarint
    then obtain v where v: "read_signed m f p = Some v" "bs = varint_bytes (zigzag v)"
      using bs by (auto simp: elem_ref_def varint_of_def split: option.splits)
    then show ?thesis
      using pb_dec_svarint_takes [OF v(1), of E dest w] svarint
      by (auto simp: PB_DECODERS_def scalar_stored_def copies_def)
  next
    case fixed32
    then show ?thesis
      using bs pb_dec_fixed32_takes [of E f dest w m p] copies_words(3) [of m p dest]
      by (auto simp: elem_ref_def PB_DECODERS_def scalar_stored_def copies_def)
  next
    case fixed64
    then show ?thesis
      using bs pb_dec_fixed64_takes [of E f dest w m p] copies_words(4) [of m p dest]
      by (auto simp: elem_ref_def PB_DECODERS_def scalar_stored_def copies_def)
  qed
qed

end
