(* ===== verification/PbEncodeDepth.thy ===== *)
theory PbEncodeDepth
  imports PbEncode
begin

text \<open>
  The depth given to \<open>pb_encode\<close> bounds the nesting of messages, not the run: descriptors are finite
  trees, and a message without extension fields recurses along its descriptor only. Every depth above
  that of the descriptor gives the same result, so the budget is never the reason of an outcome.
\<close>

text \<open>No field of the message type, or of a submessage type it uses, is an extension field.\<close>

fun no_ext_field :: "pb_field \<Rightarrow> bool"
  and no_ext_ptr :: "pb_ptr \<Rightarrow> bool"
  and no_ext :: "pb_field list \<Rightarrow> bool" where
  "no_ext_field (PbField a t c d e f p) \<longleftrightarrow> PB_LTYPE t \<noteq> PB_LTYPE_EXTENSION \<and> no_ext_ptr p"
| "no_ext_ptr PtrNull \<longleftrightarrow> True"
| "no_ext_ptr (PtrFields fs) \<longleftrightarrow> no_ext fs"
| "no_ext_ptr (PtrValue bs) \<longleftrightarrow> True"
| "no_ext [] \<longleftrightarrow> True"
| "no_ext (f # fs) \<longleftrightarrow> no_ext_field f \<and> no_ext fs"

lemma no_ext_field_sel: "no_ext_field f \<longleftrightarrow> PB_LTYPE (f_type f) \<noteq> PB_LTYPE_EXTENSION \<and> no_ext_ptr (f_ptr f)"
  by (cases f) simp

lemma field_depth_sel: "field_depth f = ptr_depth (f_ptr f)"
  by (cases f) simp

lemma no_ext_member: "no_ext fs \<Longrightarrow> f \<in> set fs \<Longrightarrow> no_ext_field f \<and> field_depth f \<le> fields_depth fs"
  by (induction fs) auto

lemma no_ext_field_at:
  assumes "no_ext fs"
  shows "no_ext_field (field_at fs i) \<and> field_depth (field_at fs i) \<le> fields_depth fs"
proof (cases "i < length fs")
  case True
  then show ?thesis
    using no_ext_member [OF assms, of "fs ! i"] by (simp add: field_at_def)
next
  case False
  then show ?thesis
    by (simp add: field_at_def PB_LAST_FIELD_def PB_LTYPE_def)
qed

section \<open>The recursive call is made on the submessage's descriptor only\<close>

lemma PB_ENCODERS_cong:
  assumes "\<And>fs. f_ptr f = PtrFields fs \<Longrightarrow> enc fs = enc' fs"
  shows "PB_ENCODERS E enc t f = PB_ENCODERS E enc' t f"
proof -
  have "pb_encode_submessage E enc fs src st = pb_encode_submessage E enc' fs src st"
    if "f_ptr f = PtrFields fs" for fs src st
    unfolding pb_encode_submessage_def assms [OF that] ..
  then have "pb_enc_submessage E enc f = pb_enc_submessage E enc' f"
    by (intro ext) (simp add: pb_enc_submessage_def split: pb_ptr.split)
  then show ?thesis
    by (simp add: PB_ENCODERS_def)
qed

lemma encode_array_cong:
  assumes "func f = func' f"
  shows "encode_array E f p count func = encode_array E f p count func'"
  unfolding encode_array_def assms ..

lemma encode_field_cong:
  assumes "\<And>fs. f_ptr f = PtrFields fs \<Longrightarrow> enc fs = enc' fs"
  shows "encode_field E enc f p = encode_field E enc' f p"
proof -
  have *: "PB_ENCODERS E enc t f = PB_ENCODERS E enc' t f" for t
    using assms by (rule PB_ENCODERS_cong)
  have "encode_basic_field E enc f p = encode_basic_field E enc' f p"
    unfolding encode_basic_field_def Let_def *
      encode_array_cong [of "PB_ENCODERS E enc t" f "PB_ENCODERS E enc' t" for t, OF *] ..
  then show ?thesis
    by (simp add: encode_field_def)
qed

lemma start_iter_next: "start (snd (pb_field_iter_next it)) = start it"
  by (simp add: pb_field_iter_next_def pb_field_iter_begin_def Let_def)

lemma iter_loop_cong:
  "(\<And>it'. start it' = start it \<Longrightarrow> body it' = body' it') \<Longrightarrow> iter_loop body it s = iter_loop body' it s"
proof (induction body it s rule: iter_loop.induct)
  case (1 body it s)
  obtain ok s' where b: "body it s = (ok, s')" by fastforce
  obtain go it' where n: "pb_field_iter_next it = (go, it')" by fastforce
  have "body' it s = (ok, s')"
    using "1.prems" [of it] b by simp
  moreover have "start it' = start it"
    using start_iter_next [of it] n by simp
  ultimately show ?case
    using 1 b n by (simp add: iter_loop.simps [of _ it])
qed

lemma pb_encode_depth_eq:
  "no_ext fs \<Longrightarrow> fields_depth fs < d \<Longrightarrow> fields_depth fs < d' \<Longrightarrow>
    pb_encode d E fs src = pb_encode d' E fs src"
proof (induction d arbitrary: fs d' src)
  case 0
  then show ?case by simp
next
  case (Suc n)
  then obtain n' where d': "d' = Suc n'"
    by (cases d') simp_all
  have "encode_field E (pb_encode n E) (field_at fs i) p = encode_field E (pb_encode n' E) (field_at fs i) p"
    for i p
  proof (rule encode_field_cong)
    fix gs
    assume "f_ptr (field_at fs i) = PtrFields gs"
    then have "no_ext gs" "fields_depth gs < n" "fields_depth gs < n'"
      using no_ext_field_at [OF Suc.prems(1), of i] Suc.prems d'
      by (simp_all add: no_ext_field_sel field_depth_sel)
    then show "pb_encode n E gs = pb_encode n' E gs"
      by (intro ext Suc.IH [THEN fun_cong])
  qed
  moreover have "PB_LTYPE (f_type (field_at fs i)) \<noteq> PB_LTYPE_EXTENSION" for i
    using no_ext_field_at [OF Suc.prems(1), of i] by (simp add: no_ext_field_sel)
  ultimately have "iter_loop (\<lambda>it. if PB_LTYPE (f_type (cur it)) = PB_LTYPE_EXTENSION
        then encode_extension_field E (pb_encode n E) (cur it) (pData it)
        else encode_field E (pb_encode n E) (cur it) (pData it)) it st =
      iter_loop (\<lambda>it. if PB_LTYPE (f_type (cur it)) = PB_LTYPE_EXTENSION
        then encode_extension_field E (pb_encode n' E) (cur it) (pData it)
        else encode_field E (pb_encode n' E) (cur it) (pData it)) it st"
    if "start it = fs" for it st
    using that by (intro iter_loop_cong) simp
  moreover have "start (snd (pb_field_iter_begin fs src)) = fs"
    by (simp add: pb_field_iter_begin_def Let_def)
  ultimately show ?case
    by (intro ext) (simp add: d' encode_message_def pb_field_iter_begin_def Let_def)
qed

end
