(* ===== verification/PbEncodeKeeps.thy ===== *)
theory PbEncodeKeeps
  imports PbEncodeSpec PbEncodeDepth
begin

text \<open>
  What \<open>pb_encode\<close> keeps of the world on any stream, also one of the user, whose callbacks keep it. Two
  instances: memory does not change, and a budget above the depth of the message type is not used up.
\<close>

section \<open>Keeping a property of the world\<close>

named_theorems keeps_intros

definition keeps :: "('u world \<Rightarrow> bool) \<Rightarrow> 'u enc \<Rightarrow> bool" where
  "keeps Q f \<longleftrightarrow> (\<forall>s w. Q w \<longrightarrow> Q (snd (snd (f (s, w)))))"

text \<open>The code outside the library and every fault but the one in question keep \<open>Q\<close>.\<close>

definition callbacks_keep :: "('u world \<Rightarrow> bool) \<Rightarrow> 'u env \<Rightarrow> bool" where
  "callbacks_keep Q E \<longleftrightarrow>
     (\<forall>k st bs w. Q w \<longrightarrow> Q (snd (snd (ostream_fn E k st bs w)))) \<and>
     (\<forall>a f p. keeps Q (encode_fn E a f p)) \<and> (\<forall>k a. keeps Q (ext_encode_fn E k a))"

definition faults_keep :: "('u world \<Rightarrow> bool) \<Rightarrow> bool" where
  "faults_keep Q \<longleftrightarrow> (\<forall>e w. e \<noteq> RecursionBudget \<longrightarrow> Q w \<longrightarrow> Q (raise_fault e w))"

lemma keepsD: "keeps Q f \<Longrightarrow> Q w \<Longrightarrow> f (s, w) = (ok, s', w') \<Longrightarrow> Q w'"
  by (metis keeps_def snd_conv)

lemma keeps_ret [keeps_intros]: "keeps Q ret"
  by (simp add: keeps_def ret_def)

lemma keeps_andthen [keeps_intros]: "keeps Q f \<Longrightarrow> keeps Q g \<Longrightarrow> keeps Q (andthen f g)"
  unfolding keeps_def
proof (intro allI impI)
  fix s w
  assume k: "\<forall>s w. Q w \<longrightarrow> Q (snd (snd (f (s, w))))" "\<forall>s w. Q w \<longrightarrow> Q (snd (snd (g (s, w))))" and w: "Q w"
  obtain ok s1 w1 where f: "f (s, w) = (ok, s1, w1)" by (cases "f (s, w)") auto
  then have "Q w1" using k(1) w by (metis snd_conv)
  then show "Q (snd (snd (andthen f g (s, w))))" using k(2) f by (simp add: andthen_def)
qed

lemma keeps_oerror [keeps_intros]: "keeps Q (oerror msg)"
  by (simp add: keeps_def oerror_def)

lemma keeps_ofault [keeps_intros]: "faults_keep Q \<Longrightarrow> e \<noteq> RecursionBudget \<Longrightarrow> keeps Q (ofault e)"
  by (simp add: keeps_def ofault_def faults_keep_def)

lemma keeps_if [keeps_intros]: "(b \<Longrightarrow> keeps Q f) \<Longrightarrow> (\<not> b \<Longrightarrow> keeps Q g) \<Longrightarrow> keeps Q (if b then f else g)"
  by simp

text \<open>A function that looks at the stream and the world before it runs.\<close>

lemma keeps_look:
  assumes "\<And>s w. Q w \<Longrightarrow> \<exists>f. keeps Q f \<and> g (s, w) = f (s, w)"
  shows "keeps Q g"
  using assms unfolding keeps_def by metis

lemma src_bytes_fault: "src_bytes m b n = Inl e \<Longrightarrow> e \<noteq> RecursionBudget"
  by (cases b) (auto split: if_splits)

lemma keeps_write [keeps_intros]:
  assumes "callbacks_keep Q E" and "faults_keep Q"
  shows "keeps Q (pb_write E b n)"
proof -
  have call: "Q (snd (snd (call_ocallback E cb bs (s, w))))" if w: "Q w" for cb bs s w
  proof (cases cb)
    case (OUser k)
    obtain ok st w' where "ostream_fn E k (o_state s) bs w = (ok, st, w')" by (cases "ostream_fn E k (o_state s) bs w") auto
    then show ?thesis using OUser w assms(1) unfolding callbacks_keep_def by (metis call_ocallback.simps(3) case_prod_conv snd_conv)
  qed (use w assms(2) in \<open>auto simp: faults_keep_def ofault_def buf_write_def Let_def\<close>)
  have call': "Q w'" if "Q w" "call_ocallback E cb bs (s, w) = (ok, s', w')" for cb bs s w ok s' w'
    using call [OF that(1), of cb bs s] that(2) by simp
  show ?thesis
    unfolding keeps_def
  proof (intro allI impI)
    fix s w
    assume w: "Q w"
    show "Q (snd (snd (pb_write E b n (s, w))))"
      using w call' [OF w] assms(2) src_bytes_fault [of "mem w" b "unat n"]
      by (auto simp: pb_write_def add_written_def oerror_def ofault_def faults_keep_def split: sum.split prod.split)
  qed
qed

lemma keeps_varint [keeps_intros]: "callbacks_keep Q E \<Longrightarrow> faults_keep Q \<Longrightarrow> keeps Q (pb_encode_varint E v)"
  unfolding pb_encode_varint_def Let_def by (intro keeps_intros) simp_all

lemma keeps_tag [keeps_intros]: "callbacks_keep Q E \<Longrightarrow> faults_keep Q \<Longrightarrow> keeps Q (pb_encode_tag E wt n)"
  unfolding pb_encode_tag_def by (intro keeps_intros)

lemma keeps_tag_for_field [keeps_intros]:
  "callbacks_keep Q E \<Longrightarrow> faults_keep Q \<Longrightarrow> keeps Q (pb_encode_tag_for_field E f)"
  unfolding pb_encode_tag_for_field_def by (auto split: option.split intro: keeps_intros)

lemma keeps_string [keeps_intros]:
  "callbacks_keep Q E \<Longrightarrow> faults_keep Q \<Longrightarrow> keeps Q (pb_encode_string E b n)"
  unfolding pb_encode_string_def by (intro keeps_intros)

section \<open>Elements and submessages\<close>

lemma keeps_element:
  assumes "callbacks_keep Q E" and "faults_keep Q"
  shows "keeps Q (pb_enc_bool E f p)" and "keeps Q (pb_enc_varint E f p)" and "keeps Q (pb_enc_uvarint E f p)"
    and "keeps Q (pb_enc_svarint E f p)" and "keeps Q (pb_enc_fixed32 E f p)" and "keeps Q (pb_enc_fixed64 E f p)"
    and "keeps Q (pb_enc_bytes E f p)" and "keeps Q (pb_enc_string E f p)" and "keeps Q (pb_enc_fixed_length_bytes E f p)"
proof -
  note k = keeps_varint [OF assms] keeps_write [OF assms] keeps_string [OF assms] keeps_oerror
  note k' = k [unfolded keeps_def, rule_format]
  show "keeps Q (pb_enc_bool E f p)" "keeps Q (pb_enc_varint E f p)" "keeps Q (pb_enc_uvarint E f p)"
    "keeps Q (pb_enc_svarint E f p)" "keeps Q (pb_enc_fixed32 E f p)" "keeps Q (pb_enc_fixed64 E f p)"
    "keeps Q (pb_enc_bytes E f p)" "keeps Q (pb_enc_string E f p)" "keeps Q (pb_enc_fixed_length_bytes E f p)"
    by (auto simp: keeps_def pb_enc_bool_def pb_enc_varint_def pb_enc_uvarint_def pb_enc_svarint_def pb_encode_svarint_def
        pb_enc_fixed32_def pb_encode_fixed32_def pb_enc_fixed64_def pb_encode_fixed64_def pb_enc_bytes_def pb_enc_string_def
        pb_enc_fixed_length_bytes_def Let_def intro: k' split: option.split)
qed

lemma keeps_submessage:
  assumes c: "callbacks_keep Q E" and e: "faults_keep Q" and enc: "\<And>src. keeps Q (enc fs src)"
  shows "keeps Q (pb_encode_submessage E enc fs src)"
proof -
  let ?out = "\<lambda>size (s2, w2).
               if o_callback s2 = OSizing then pb_write E SrcNull size (s2, w2)
               else if bytes_written s2 + size > max_size s2 then oerror ''stream full'' (s2, w2)
               else
                 (case enc fs src (s2\<lparr>max_size := size, bytes_written := 0, o_errmsg := None\<rparr>, w2)
                  of (status, sub2, w3) \<Rightarrow>
                    let s3 = s2\<lparr>o_buf := o_buf sub2, o_state := o_state sub2,
                                bytes_written := bytes_written s2 + bytes_written sub2,
                                o_errmsg := o_errmsg sub2\<rparr>
                    in if bytes_written sub2 \<noteq> size then oerror ''submsg size changed'' (s3, w3)
                       else (status, s3, w3))"
  have out: "keeps Q (?out size)" for size
    unfolding keeps_def
    using keeps_write [OF c e, of SrcNull size] keepsD [OF enc]
    by (auto simp: keeps_def oerror_def Let_def split: prod.split)
  show ?thesis
  proof (rule keeps_look)
    fix s w
    assume w: "Q w"
    obtain ok sub w1 where r: "enc fs src (PB_OSTREAM_SIZING, w) = (ok, sub, w1)" by (cases "enc fs src (PB_OSTREAM_SIZING, w)") auto
    then have w1: "Q w1" using keepsD [OF enc w] by blast
    let ?f = "andthen (pb_encode_varint E (bytes_written sub)) (?out (bytes_written sub))"
    have f: "keeps Q ?f" by (intro keeps_andthen keeps_varint [OF c e] out)
    show "\<exists>f. keeps Q f \<and> pb_encode_submessage E enc fs src (s, w) = f (s, w)"
    proof (intro exI conjI)
      show "keeps Q (\<lambda>_. pb_encode_submessage E enc fs src (s, w))"
        using f w1 unfolding keeps_def by (cases ok) (simp_all add: pb_encode_submessage_def r Let_def)
    qed simp
  qed
qed

lemma keeps_encoders:
  assumes c: "callbacks_keep Q E" and e: "faults_keep Q" and enc: "\<And>fs src. f_ptr f = PtrFields fs \<Longrightarrow> keeps Q (enc fs src)"
  shows "keeps Q (PB_ENCODERS E enc t f p)"
proof -
  have "keeps Q (pb_enc_submessage E enc f p)"
    using keeps_submessage [OF c e enc] e by (auto simp: pb_enc_submessage_def intro: keeps_intros split: pb_ptr.split)
  moreover have "keeps Q (ofault BadCall)" using e by (intro keeps_intros) simp_all
  ultimately show ?thesis
    using keeps_element [OF c e] by (simp add: PB_ENCODERS_def)
qed

section \<open>Fields\<close>

lemma keeps_items: "(\<And>p. keeps Q (f p)) \<Longrightarrow> keeps Q (enc_items n f p step)"
  by (induction n arbitrary: p) (simp_all add: keeps_intros)

lemma keeps_array:
  assumes c: "callbacks_keep Q E" and e: "faults_keep Q" and func: "\<And>p. keeps Q (func f p)"
  shows "keeps Q (encode_array E f p count func)"
proof -
  have items: "keeps Q (enc_items n (func f) q step)" for n q step using func by (rule keeps_items)
  have size: "Q (snd (snd (packed_size f p count (func f) (s, w))))" if w: "Q w" for s w
    using keepsD [OF items w] w by (auto simp: packed_size_def split: prod.split)
  have out: "keeps Q (\<lambda>(s, w). if o_callback s = OSizing then pb_write E SrcNull n (s, w)
      else enc_items (unat count) (func f) p (ucast (data_size f)) (s, w))" for n
    using keeps_write [OF c e, of SrcNull n] items by (simp add: keeps_def)
  have packed: "keeps Q (bindb (packed_size f p count (func f)) (\<lambda>size. andthen (pb_encode_varint E size)
      (\<lambda>(s, w). if o_callback s = OSizing then pb_write E SrcNull size (s, w)
        else enc_items (unat count) (func f) p (ucast (data_size f)) (s, w))))" (is "keeps Q (bindb _ ?k)")
    unfolding keeps_def
  proof (intro allI impI)
    fix s w
    assume w: "Q w"
    obtain r s1 w1 where ps: "packed_size f p count (func f) (s, w) = (r, s1, w1)"
      by (cases "packed_size f p count (func f) (s, w)") auto
    then have "Q w1" using size [OF w, of s] by simp
    moreover have "keeps Q (?k n)" for n by (intro keeps_andthen keeps_varint [OF c e] out)
    ultimately show "Q (snd (snd (bindb (packed_size f p count (func f)) ?k (s, w))))"
      using ps by (cases r) (simp_all add: bindb_def keeps_def)
  qed
  have item: "keeps Q (\<lambda>(s, w). if PB_ATYPE (f_type f) = PB_ATYPE_POINTER
        \<and> (PB_LTYPE (f_type f) = PB_LTYPE_STRING \<or> PB_LTYPE (f_type f) = PB_LTYPE_BYTES)
      then func f (load_ptr (mem w) q) (s, w) else func f q (s, w))" for q
    using func by (simp add: keeps_def)
  show ?thesis
    unfolding encode_array_def
    by (intro keeps_if keeps_ret keeps_oerror keeps_andthen keeps_tag keeps_tag_for_field keeps_items packed item c e)
qed

text \<open>The recursion of \<open>pb_check_proto3_default_value\<close> does not run out of its budget either.\<close>

lemma iter_loop_invariant:
  assumes "\<And>it' s. start it' = start it \<Longrightarrow> P s \<Longrightarrow> P (snd (body it' s))" and "P s"
  shows "P (snd (iter_loop body it s))"
  using assms
proof (induction body it s rule: iter_loop.induct)
  case (1 body it s)
  obtain ok s' where b: "body it s = (ok, s')" by fastforce
  obtain go it' where n: "pb_field_iter_next it = (go, it')" by fastforce
  have "P s'" using 1(2) [of it s] 1(3) b by simp
  moreover have "start it' = start it" using start_iter_next [of it] n by simp
  ultimately show ?case
    using 1 b n by (simp add: iter_loop.simps [of _ it])
qed

lemma field_depth_member: "f \<in> set fs \<Longrightarrow> field_depth f \<le> fields_depth fs"
  by (induction fs) auto

lemma field_depth_at: "field_depth (field_at fs i) \<le> fields_depth fs"
  by (cases "i < length fs") (simp_all add: field_at_def PB_LAST_FIELD_def field_depth_member)

lemma check_depth_budget:
  "field_depth f \<le> d \<Longrightarrow> st \<noteq> Some RecursionBudget \<Longrightarrow> snd (check_depth d m f p st) \<noteq> Some RecursionBudget"
proof (induction d arbitrary: f p st)
  case 0
  then show ?case by (auto simp: check_field_def Let_def field_depth_sel split: pb_ptr.split)
next
  case (Suc d)
  have "snd (check_submessage (check_depth d m) fs base st) \<noteq> Some RecursionBudget" if "f_ptr f = PtrFields fs" for fs base
  proof -
    have d: "field_depth (field_at fs i) \<le> d" for i
      using field_depth_at [of fs i] Suc.prems(1) that by (simp add: field_depth_sel)
    have s: "start (snd (pb_field_iter_begin fs base)) = fs" by (simp add: pb_field_iter_begin_def Let_def)
    show ?thesis
      unfolding check_submessage_def
      using iter_loop_invariant [of "snd (pb_field_iter_begin fs base)" "\<lambda>s. s \<noteq> Some RecursionBudget"
          "\<lambda>it. check_depth d m (cur it) (pData it)" st] Suc.IH [OF d] Suc.prems(2) s
      by (auto split: prod.split)
  qed
  then show ?case using Suc.prems(2) by (auto simp: check_field_def Let_def split: pb_ptr.split)
qed

lemma keeps_basic_field:
  assumes c: "callbacks_keep Q E" and e: "faults_keep Q" and enc: "\<And>fs src. f_ptr f = PtrFields fs \<Longrightarrow> keeps Q (enc fs src)"
  shows "keeps Q (encode_basic_field E enc f p0)"
  unfolding keeps_def
proof (intro allI impI)
  fix s w
  assume w: "Q w"
  let ?func = "PB_ENCODERS E enc (PB_LTYPE (f_type f))"
  have item: "Q (snd (snd (andthen (pb_encode_tag_for_field E f) (?func f p) (s, w))))" for p
  proof -
    have "keeps Q (andthen (pb_encode_tag_for_field E f) (?func f p))"
      by (intro keeps_andthen keeps_tag_for_field keeps_encoders c e enc)
    then show ?thesis using w unfolding keeps_def by blast
  qed
  have array: "Q (snd (snd (encode_array E f p n ?func (s, w))))" for p n
  proof -
    have "keeps Q (encode_array E f p n ?func)" by (intro keeps_array keeps_encoders c e enc)
    then show ?thesis using w unfolding keeps_def by blast
  qed
  have flt: "Q (raise_fault x w)" if "pb_check_proto3_default_value (mem w) f p0 None = (z, Some x)" for z x
  proof -
    have "snd (pb_check_proto3_default_value (mem w) f p0 None) \<noteq> Some RecursionBudget"
      unfolding pb_check_proto3_default_value_def by (rule check_depth_budget) simp_all
    then show ?thesis using e w that by (auto simp: faults_keep_def)
  qed
  have bad: "Q (raise_fault BadDescriptor w)" "Q (raise_fault BufferOverrun w)" using e w by (simp_all add: faults_keep_def)
  show "Q (snd (snd (encode_basic_field E enc f p0 (s, w))))"
    using w item array flt bad
    by (auto simp: encode_basic_field_def Let_def ofault_def oerror_def ret_def split: option.split prod.split)
qed

lemma keeps_callback_field:
  assumes "callbacks_keep Q E"
  shows "keeps Q (encode_callback_field E f p)"
  unfolding keeps_def
proof (intro allI impI)
  fix s w
  assume w: "Q w"
  have "keeps Q (encode_fn E a f q)" for a q using assms by (simp add: callbacks_keep_def)
  then show "Q (snd (snd (encode_callback_field E f p (s, w))))"
    using w keepsD [of Q "encode_fn E (load_ptr (mem w) p) f (p + 8)" w s]
    by (auto simp: encode_callback_field_def Let_def oerror_def split: prod.split)
qed

lemma keeps_field:
  assumes c: "callbacks_keep Q E" and e: "faults_keep Q" and enc: "\<And>fs src. f_ptr f = PtrFields fs \<Longrightarrow> keeps Q (enc fs src)"
  shows "keeps Q (encode_field E enc f p)"
  unfolding encode_field_def by (intro keeps_if keeps_basic_field keeps_callback_field keeps_oerror c e enc)

section \<open>Extensions and messages\<close>

lemma keeps_extensions:
  assumes c: "callbacks_keep Q E" and e: "faults_keep Q" and enc: "\<And>fs src. keeps Q (enc fs src)"
  shows "keeps Q (encode_extensions n E enc ext)"
proof (induction n arbitrary: ext)
  case 0
  have "keeps Q (ofault WalkBudget)" using e by (intro keeps_intros) simp_all
  then show ?case by (simp add: keeps_def ret_def)
next
  case (Suc n)
  have field: "keeps Q (encode_field E enc f p)" for f p by (intro keeps_field c e enc)
  let ?h = "\<lambda>(s, w). case ext_encode (ext_types E (load_ptr (mem w) ext)) of
      Some k \<Rightarrow> ext_encode_fn E k ext (s, w) | None \<Rightarrow> default_extension_encoder E enc ext (s, w)"
  let ?r = "\<lambda>(s, w). encode_extensions n E enc (load_ptr (mem w) (ext + 16)) (s, w)"
  have "keeps Q ?h"
    using c field by (auto simp: keeps_def callbacks_keep_def default_extension_encoder_def Let_def split: option.split)
  moreover have "keeps Q ?r" using Suc by (simp add: keeps_def)
  ultimately have "keeps Q (andthen ?h ?r)" by (rule keeps_andthen)
  then show ?case by (simp add: keeps_def ret_def)
qed

lemma keeps_loop:
  assumes "\<And>it'. start it' = start it \<Longrightarrow> keeps Q (body it')"
  shows "keeps Q (iter_loop body it)"
  unfolding keeps_def
proof (intro allI impI)
  fix s w
  assume w: "Q w"
  show "Q (snd (snd (iter_loop body it (s, w))))"
    using iter_loop_invariant [of it "\<lambda>st. Q (snd st)" body "(s, w)"] assms w by (force simp: keeps_def)
qed

lemma keeps_message:
  assumes c: "callbacks_keep Q E" and e: "faults_keep Q"
    and enc: "\<And>i gs src. f_ptr (field_at fs i) = PtrFields gs \<Longrightarrow> keeps Q (enc gs src)"
    and ext: "\<And>i gs src. PB_LTYPE (f_type (field_at fs i)) = PB_LTYPE_EXTENSION \<Longrightarrow> keeps Q (enc gs src)"
  shows "keeps Q (encode_message E enc fs src)"
proof -
  obtain b it where it: "pb_field_iter_begin fs src = (b, it)" "start it = fs"
    by (simp add: pb_field_iter_begin_def Let_def)
  have x: "keeps Q (encode_extension_field E enc (field_at fs i) p)"
    if "PB_LTYPE (f_type (field_at fs i)) = PB_LTYPE_EXTENSION" for i p
    using keeps_extensions [OF c e ext [OF that]] by (simp add: keeps_def encode_extension_field_def)
  have "keeps Q (iter_loop (\<lambda>it. if PB_LTYPE (f_type (cur it)) = PB_LTYPE_EXTENSION
        then encode_extension_field E enc (cur it) (pData it) else encode_field E enc (cur it) (pData it)) it)"
  proof (rule keeps_loop)
    fix it' :: pb_field_iter
    assume "start it' = start it"
    then have cur: "cur it' = field_at fs (pos it')" using it(2) by simp
    show "keeps Q (if PB_LTYPE (f_type (cur it')) = PB_LTYPE_EXTENSION
        then encode_extension_field E enc (cur it') (pData it') else encode_field E enc (cur it') (pData it'))"
      unfolding cur by (rule keeps_if) (erule x, intro keeps_field c e enc)
  qed
  then show ?thesis using it(1) by (simp add: keeps_def encode_message_def)
qed

lemma keeps_pb_encode_budget:
  assumes c: "callbacks_keep Q E" and e: "faults_keep Q"
  shows "no_ext fs \<Longrightarrow> fields_depth fs < d \<Longrightarrow> keeps Q (pb_encode d E fs src)"
proof (induction d arbitrary: fs src)
  case 0
  then show ?case by simp
next
  case (Suc d)
  note at = no_ext_field_at [OF Suc.prems(1)]
  have "keeps Q (pb_encode d E gs q)" if "f_ptr (field_at fs i) = PtrFields gs" for i gs q
    using at [of i] that Suc.prems(2) Suc.IH by (simp add: no_ext_field_sel field_depth_sel)
  moreover have "PB_LTYPE (f_type (field_at fs i)) \<noteq> PB_LTYPE_EXTENSION" for i
    using at [of i] by (simp add: no_ext_field_sel)
  ultimately show ?case by (auto intro!: keeps_message [OF c e] simp del: PB_LTYPE_def)
qed

text \<open>What every fault keeps, also the budget of the recursion, holds with any budget.\<close>

lemma keeps_pb_encode:
  assumes c: "callbacks_keep Q E" and e: "\<And>x w. Q w \<Longrightarrow> Q (raise_fault x w)"
  shows "keeps Q (pb_encode d E fs src)"
proof (induction d arbitrary: fs src)
  case 0
  show ?case using e by (simp add: keeps_def ofault_def)
next
  case (Suc d)
  have "faults_keep Q" using e by (simp add: faults_keep_def)
  then show ?case using keeps_message [OF c] Suc.IH by simp
qed

section \<open>Refused messages\<close>

text \<open>\<open>refuses m f r\<close>: when the reference says \<open>Refused\<close>, \<open>f\<close> fails on every stream, in any world with memory \<open>m\<close>.\<close>

definition refuses :: "memory \<Rightarrow> 'u enc \<Rightarrow> enc_result \<Rightarrow> bool" where
  "refuses m f r \<longleftrightarrow> r = Refused \<longrightarrow> (\<forall>s w. mem w = m \<longrightarrow> \<not> fst (f (s, w)))"

abbreviation (input) has_mem :: "memory \<Rightarrow> 'u world \<Rightarrow> bool" where
  "has_mem m \<equiv> \<lambda>w. mem w = m"

lemma refuses_run:
  assumes "\<And>s w. mem w = m \<Longrightarrow> g (s, w) = f (s, w)" and "refuses m f r"
  shows "refuses m g r"
  using assms by (simp add: refuses_def)

lemma refuses_simps [simp]: "refuses m f (Bytes bs)" "refuses m f Unspecified" "refuses m (oerror msg) r"
  by (simp_all add: refuses_def oerror_def)

lemma refuses_if: "refuses m f r \<Longrightarrow> refuses m g r' \<Longrightarrow> refuses m (if b then f else g) (if b then r else r')"
  by simp

lemma refuses_choice:
  "refuses m (F f p) r \<Longrightarrow> refuses m (G f p) r' \<Longrightarrow> refuses m ((if b then F else G) f p) (if b then r else r')"
  by simp

lemma after_Refused: "after a b = Refused \<longleftrightarrow> a = Refused \<or> (\<exists>bs. a = Bytes bs) \<and> b = Refused"
  by (cases a; cases b) auto

lemma refuses_andthen:
  assumes k: "keeps (has_mem m) f" and f: "refuses m f a" and g: "refuses m g b"
  shows "refuses m (andthen f g) (after a b)"
  unfolding refuses_def
proof (intro impI allI)
  fix s and w :: "'a world"
  assume r: "after a b = Refused" and w: "mem w = m"
  obtain ok s1 w1 where run: "f (s, w) = (ok, s1, w1)" by (cases "f (s, w)") auto
  then have w1: "mem w1 = m" using keepsD [OF k w] by blast
  show "\<not> fst (andthen f g (s, w))"
  proof (cases "a = Refused")
    case True
    then show ?thesis using f w run by (auto simp: andthen_def refuses_def) (metis fst_conv)
  next
    case False
    then have "b = Refused" using r by (simp add: after_Refused)
    then show ?thesis using g w1 run by (simp add: andthen_def refuses_def)
  qed
qed

lemma delimit_Refused [simp]: "delimit r = Refused \<longleftrightarrow> r = Refused"
  by (cases r) simp_all

lemma refuses_varint:
  "refuses m (pb_enc_varint E f p) (varint_of (read_signed m f p))"
  "refuses m (pb_enc_uvarint E f p) (varint_of (read_unsigned m f p))"
  "refuses m (pb_enc_svarint E f p) (varint_of (map_option zigzag (read_signed m f p)))"
  by (auto simp: refuses_def varint_of_def pb_enc_varint_def pb_enc_uvarint_def pb_enc_svarint_def oerror_def split: option.splits)

lemma refuses_bytes: "refuses m (pb_enc_bytes E f p) (bytes_ref m f p)"
  by (auto simp: refuses_def bytes_ref_def pb_enc_bytes_def bytes_size_exceeded oerror_def Let_def)

lemma refuses_submessage:
  assumes "\<And>fs w. mem w = m \<Longrightarrow> denotes (enc fs p) w (sub fs p)"
  shows "refuses m (pb_enc_submessage E enc f p) (submessage_ref sub f p)"
proof (cases "f_ptr f")
  case (PtrFields fs)
  have "\<not> fst (pb_encode_submessage E enc fs p (s, w))" if "mem w = m" "sub fs p = Refused" for s w
  proof -
    have "emits (enc fs p) w None" using assms [of w fs] that by simp
    then obtain sub' where "enc fs p (PB_OSTREAM_SIZING, w) = (False, sub', w)" using emits_sizing_None by blast
    then show ?thesis by (simp add: pb_encode_submessage_def)
  qed
  then show ?thesis using PtrFields by (simp add: refuses_def pb_enc_submessage_def submessage_ref_def)
qed (simp_all add: pb_enc_submessage_def submessage_ref_def)

lemma elem_refuses:
  assumes "\<And>fs w. mem w = m \<Longrightarrow> denotes (enc fs p) w (sub fs p)"
  shows "refuses m (PB_ENCODERS E enc (PB_LTYPE (f_type f)) f p) (elem_ref m sub f p)"
  unfolding PB_ENCODERS_def elem_ref_def Let_def
proof (intro refuses_choice refuses_simps(2) refuses_varint refuses_bytes refuses_submessage assms)
  show "refuses m (pb_enc_bool E f p) (varint_of (Some (if m p = 0 then 0 else 1)))" by (simp add: varint_of_def)
  show "refuses m (pb_enc_fixed_length_bytes E f p) (if p = 0 \<and> data_size f \<noteq> 0 then Unspecified
      else Bytes (string_bytes (load_bytes m p (unat (data_size f)))))" by simp
qed (simp_all add: string_ref_def Let_def)

lemma tag_refuses: "refuses m (pb_encode_tag_for_field E f) (tag_ref f)"
  by (simp add: pb_encode_tag_for_field_def tag_ref_def split: option.split)

lemma items_refuse:
  assumes "\<And>q. keeps (has_mem m) (f q)" and "\<And>q. refuses m (f q) (item q)"
  shows "refuses m (enc_items n f p step) (items_ref item p step n)"
  by (induction n arbitrary: p) (simp_all add: items_ref_Suc refuses_andthen assms)

lemma array_refuses:
  assumes c: "callbacks_keep (has_mem m) E"
    and func: "\<And>q. keeps (has_mem m) (func f q)" "\<And>q. refuses m (func f q) (elem_ref m sub f q)"
    and elem: "\<And>q w. mem w = m \<Longrightarrow> denotes (func f q) w (elem_ref m sub f q)"
  shows "refuses m (encode_array E f p (ucast count) func) (array_ref m sub f p count)"
proof -
  have e: "faults_keep (has_mem m)" by (simp add: faults_keep_def)
  let ?pointer = "PB_ATYPE (f_type f) = PB_ATYPE_POINTER"
  let ?deref = "?pointer \<and> (PB_LTYPE (f_type f) = PB_LTYPE_STRING \<or> PB_LTYPE (f_type f) = PB_LTYPE_BYTES)"
  let ?at = "\<lambda>q. \<lambda>(s, w). if ?deref then func f (load_ptr (mem w) q) (s, w) else func f q (s, w)"
  have cnt: "unat (ucast count :: u64) = unat count" and z: "(ucast count :: u64) = 0 \<longleftrightarrow> unat count = 0"
    by (simp_all add: unat_ucast_up_simp flip: unat_eq_zero)
  have gt: "(ucast count :: u64) > ucast (array_size f) \<longleftrightarrow> count > array_size f"
    by (simp add: word_less_nat_alt unat_ucast_up_simp)
  have at: "refuses m (?at q) (elem_ref m sub f (if ?deref then load_ptr m q else q))" "keeps (has_mem m) (?at q)" for q
    using func by (auto simp: refuses_def keeps_def)
  have items: "refuses m (enc_items n (\<lambda>q. andthen (pb_encode_tag_for_field E f) (?at q)) p step)
      (items_ref (\<lambda>q. after (tag_ref f) (elem_ref m sub f (if ?deref then load_ptr m q else q))) p step n)" for n step
    by (intro items_refuse refuses_andthen keeps_andthen tag_refuses keeps_tag_for_field at c e)
  have packed: "refuses m (bindb (packed_size f p (ucast count) (func f)) k)
      (delimit (items_ref (elem_ref m sub f) p (ucast (data_size f)) (unat count)))" for k
    unfolding refuses_def
  proof (intro impI allI)
    fix s and w :: "'a world"
    assume r: "delimit (items_ref (elem_ref m sub f) p (ucast (data_size f)) (unat count)) = Refused" and w: "mem w = m"
    have "packed_size f p (ucast count) (func f) (s, w) = (None, s, w)"
      using packed_size_refused [of func f w sub p "ucast count" s] elem [OF w] r w by (simp add: cnt)
    then show "\<not> fst (bindb (packed_size f p (ucast count) (func f)) k (s, w))" by (simp add: bindb_def)
  qed
  have "refuses m (pb_encode_tag E PB_WT_STRING (f_tag f)) (Bytes (tag_bytes PB_WT_STRING (f_tag f)))" by simp
  note packed' = refuses_andthen [OF keeps_tag [OF c e] this packed]
  show ?thesis
    unfolding encode_array_def array_ref_def Let_def z gt cnt
    by (intro refuses_if refuses_simps items packed')
qed

lemma basic_field_refuses:
  assumes c: "callbacks_keep (has_mem m) E" and enc: "\<And>fs q. keeps (has_mem m) (enc fs q)"
    and sub: "\<And>fs q w. mem w = m \<Longrightarrow> denotes (enc fs q) w (sub fs q)"
  shows "refuses m (encode_basic_field E enc f p0) (basic_ref m sub f p0)"
proof -
  have e: "faults_keep (has_mem m)" by (simp add: faults_keep_def)
  let ?t = "f_type f" and ?ps = "p0 + scast (size_offset f)"
  let ?pointer = "PB_ATYPE ?t = PB_ATYPE_POINTER"
  let ?p = "if ?pointer then load_ptr m p0 else p0"
  let ?func = "PB_ENCODERS E enc (PB_LTYPE ?t)"
  let ?item = "andthen (pb_encode_tag_for_field E f) (?func f ?p)"
  let ?check = "pb_check_proto3_default_value m f p0 None"
  have func: "keeps (has_mem m) (?func f q)" "refuses m (?func f q) (elem_ref m sub f q)" for q
    by (intro keeps_encoders c e enc, intro elem_refuses sub)
  have elem: "denotes (?func f q) w (elem_ref m sub f q)" if "mem w = m" for q w
    using elem_denotes [of enc q w sub E f] sub that by metis
  have item: "refuses m ?item (after (tag_ref f) (elem_ref m sub f ?p))"
    by (intro refuses_andthen keeps_tag_for_field tag_refuses func c e)
  let ?g = "if PB_LTYPE ?t \<ge> PB_LTYPES_COUNT then ofault BadDescriptor
     else if PB_HTYPE ?t = PB_HTYPE_REQUIRED then
       (if ?p = 0 then oerror ''missing required field'' else ?item)
     else if PB_HTYPE ?t = PB_HTYPE_OPTIONAL then
       if size_offset f \<noteq> 0 then (if m ?ps \<noteq> 0 then ?item else ret)
       else if ?pointer then (if ?p \<noteq> 0 then ?item else ret)
       else (case ?check of (z, None) \<Rightarrow> if z then ret else ?item | (z, Some e) \<Rightarrow> ofault e)
     else if PB_HTYPE ?t = PB_HTYPE_REPEATED
     then encode_array E f ?p (ucast (if size_offset f \<noteq> 0 then load32 m ?ps else array_size f)) ?func
     else if size_offset f = 0 then ofault BufferOverrun
     else if load32 m ?ps = f_tag f then ?item else ret"
  have run: "encode_basic_field E enc f p0 (s, w) = ?g (s, w)" if "mem w = m" for s w
    using that by (auto simp: encode_basic_field_def Let_def safe_read_bool_def split: prod.split option.split)
  have "refuses m (case ?check of (z, None) \<Rightarrow> if z then ret else ?item | (z, Some e) \<Rightarrow> ofault e)
      (case ?check of (z, None) \<Rightarrow> if z then Bytes [] else after (tag_ref f) (elem_ref m sub f ?p)
       | (z, Some _) \<Rightarrow> Unspecified)"
  proof (cases ?check)
    case (Pair z x)
    show ?thesis unfolding Pair prod.case
      using item by (cases x; cases z) (simp_all only: option.case if_True if_False refuses_simps)
  qed
  then have "refuses m ?g (basic_ref m sub f p0)"
    unfolding basic_ref_def Let_def
    by (intro refuses_if refuses_simps item array_refuses c func elem)
  then show ?thesis using run by (rule refuses_run [rotated])
qed

lemma field_refuses:
  assumes "callbacks_keep (has_mem m) E" and "\<And>fs q. keeps (has_mem m) (enc fs q)"
    and "\<And>fs q w. mem w = m \<Longrightarrow> denotes (enc fs q) w (sub fs q)"
  shows "refuses m (encode_field E enc f p) (field_ref m sub f p)"
proof -
  have "refuses m (encode_callback_field E f p) (if load_ptr m p = 0 then Bytes [] else Unspecified)" by simp
  then show ?thesis
    unfolding encode_field_def field_ref_def Let_def
    by (intro refuses_if basic_field_refuses assms refuses_simps)
qed

lemma extensions_refuse:
  assumes c: "callbacks_keep (has_mem m) E" and enc: "\<And>fs q. keeps (has_mem m) (enc fs q)"
    and sub: "\<And>fs q w. mem w = m \<Longrightarrow> denotes (enc fs q) w (sub fs q)"
  shows "refuses m (encode_extensions n E enc ext) (extensions_ref n E m sub ext)"
proof (induction n arbitrary: ext)
  case 0
  show ?case by simp
next
  case (Suc n)
  have e: "faults_keep (has_mem m)" by (simp add: faults_keep_def)
  let ?et = "ext_types E (load_ptr m ext)"
  let ?f = "field_at (ext_arg ?et) 0"
  let ?p = "if PB_ATYPE (f_type ?f) = PB_ATYPE_POINTER then ext + 8 else load_ptr m (ext + 8)"
  let ?h = "case ext_encode ?et of Some k \<Rightarrow> ext_encode_fn E k ext | None \<Rightarrow> encode_field E enc ?f ?p"
  let ?r = "\<lambda>(s, w). encode_extensions n E enc (load_ptr (mem w) (ext + 16)) (s, w)"
  have h: "refuses m ?h (if ext_encode ?et \<noteq> None then Unspecified else field_ref m sub ?f ?p)"
    using field_refuses [of m E enc sub ?f ?p, OF c enc sub] by (simp split: option.split)
  have kh: "keeps (has_mem m) ?h"
  proof (cases "ext_encode ?et")
    case None
    have "keeps (has_mem m) (encode_field E enc ?f ?p)" by (intro keeps_field c e enc)
    then show ?thesis unfolding None option.case .
  qed (use c in \<open>simp add: callbacks_keep_def\<close>)
  have r: "refuses m ?r (extensions_ref n E m sub (load_ptr m (ext + 16)))" using Suc.IH by (simp add: refuses_def)
  have run: "encode_extensions (Suc n) E enc ext (s, w) = (if ext = 0 then ret else andthen ?h ?r) (s, w)" if "mem w = m" for s w
    using that by (simp add: andthen_def default_extension_encoder_def Let_def split: option.split)
  have "refuses m (if ext = 0 then ret else andthen ?h ?r) (if ext = 0 then Bytes []
      else after (if ext_encode ?et \<noteq> None then Unspecified else field_ref m sub ?f ?p) (extensions_ref n E m sub (load_ptr m (ext + 16))))"
    by (intro refuses_if refuses_simps refuses_andthen h r kh)
  then have "refuses m (if ext = 0 then ret else andthen ?h ?r) (extensions_ref (Suc n) E m sub ext)"
    by (simp add: Let_def split: if_splits)
  with run show ?case by (rule refuses_run)
qed

lemma run_items_refuse:
  "(\<And>x. x \<in> set xs \<Longrightarrow> keeps (has_mem m) (body x) \<and> refuses m (body x) (item x)) \<Longrightarrow>
    refuses m (run_items body xs) (all_parts (map item xs))"
  by (induction xs) (simp_all add: refuses_andthen)

lemma message_refuses:
  assumes c: "callbacks_keep (has_mem m) E" and enc: "\<And>fs q. keeps (has_mem m) (enc fs q)"
    and sub: "\<And>fs q w. mem w = m \<Longrightarrow> denotes (enc fs q) w (sub fs q)"
  shows "refuses m (encode_message E enc fs src) (message_ref E m sub fs src)"
proof (cases "wf_fields fs \<and> nfields fs \<noteq> 0")
  case True
  have e: "faults_keep (has_mem m)" by (simp add: faults_keep_def)
  let ?body = "\<lambda>it. if PB_LTYPE (f_type (cur it)) = PB_LTYPE_EXTENSION
                 then encode_extension_field E enc (cur it) (pData it)
                 else encode_field E enc (cur it) (pData it)"
  let ?part = "\<lambda>k. let f = field_at fs k; p = data_at fs src k in
                 if PB_LTYPE (f_type f) = PB_LTYPE_EXTENSION
                 then extensions_ref (walk_limit E) E m sub (load_ptr m p)
                 else field_ref m sub f p"
  have extension: "keeps (has_mem m) (encode_extension_field E enc f p)"
    "refuses m (encode_extension_field E enc f p) (extensions_ref (walk_limit E) E m sub (load_ptr m p))" for f p
  proof -
    show "keeps (has_mem m) (encode_extension_field E enc f p)"
      using keeps_extensions [of "has_mem m" E enc, OF c e enc] by (simp add: keeps_def encode_extension_field_def)
    show "refuses m (encode_extension_field E enc f p) (extensions_ref (walk_limit E) E m sub (load_ptr m p))"
      by (rule refuses_run [OF _ extensions_refuse [where enc = enc, OF c enc sub]]) (simp_all add: encode_extension_field_def)
  qed
  have field: "keeps (has_mem m) (encode_field E enc f p)" "refuses m (encode_field E enc f p) (field_ref m sub f p)" for f p
    by (intro keeps_field c e enc, intro field_refuses c enc sub)
  have "keeps (has_mem m) (?body (iter_at fs src k)) \<and> refuses m (?body (iter_at fs src k)) (?part k)" for k
    using extension field by (simp add: Let_def)
  then have "refuses m (run_items (?body \<circ> iter_at fs src) [0..<nfields fs]) (all_parts (map ?part [0..<nfields fs]))"
    by (intro run_items_refuse) simp
  moreover have "run_items b (map g xs) = run_items (b \<circ> g) xs"
    for b :: "pb_field_iter \<Rightarrow> 'a enc" and g :: "nat \<Rightarrow> pb_field_iter" and xs
    by (induction xs) simp_all
  moreover have "encode_message E enc fs src = run_items ?body (map (iter_at fs src) [0..<nfields fs])"
    using True by (intro ext) (simp add: encode_message_def iter_begin_at iter_loop_at)
  ultimately show ?thesis using True by (simp add: message_ref_def)
qed (auto simp: message_ref_def)

theorem pb_encode_refused_fails:
  assumes c: "callbacks_keep (has_mem m) E"
  shows "refuses m (pb_encode d E fs src) (encode_ref d E m fs src)"
proof (cases d)
  case (Suc n)
  have "keeps (has_mem m) (pb_encode n E gs q)" for gs q using keeps_pb_encode [OF c] by simp
  moreover have "denotes (pb_encode n E gs q) w (encode_ref n E m gs q)" if "mem w = m" for gs q w
    using pb_encode_denotes [of n E gs q w] that by simp
  ultimately show ?thesis unfolding Suc pb_encode.simps encode_ref.simps using c by (intro message_refuses)
qed simp

end
