(* ===== verification/PbEncodeTheorems.thy ===== *)
theory PbEncodeTheorems
  imports PbEncodeKeeps PbCodec
begin

text \<open>
  What \<open>pb_encode.c\<close> guarantees, over the reference encoding of \<open>PbEncodeSpec\<close>. The witnesses run
  on a small message type with a required integer, an optional string behind a pointer and a
  repeated packed integer array.
\<close>

section \<open>Facts used below\<close>

lemma encode_ref_emits: "encode_ref d E (mem w) fs src = Bytes bs \<Longrightarrow> emits (pb_encode d E fs src) w (Some bs)"
  using pb_encode_denotes [of d E fs src w] by simp

lemma encode_ref_refused: "encode_ref d E (mem w) fs src = Refused \<Longrightarrow> emits (pb_encode d E fs src) w None"
  using pb_encode_denotes [of d E fs src w] by simp

section \<open>A concrete message\<close>

text \<open>
  \<open>struct { uint32_t a; char *s; pb_size_t n_count; uint8_t n[3]; }\<close> at address 4096, with
  \<open>a = 300\<close>, \<open>s\<close> the string \<open>hi\<close> at 8192 and \<open>n = {1, 200}\<close>.
\<close>

definition sample_fields :: "pb_field list" where
  "sample_fields =
     [PbField 1 (PB_HTYPE_REQUIRED OR PB_LTYPE_UVARINT) 0 0 4 0 PtrNull,
      PbField 2 (PB_ATYPE_POINTER OR PB_HTYPE_OPTIONAL OR PB_LTYPE_STRING) 4 0 1 0 PtrNull,
      PbField 3 (PB_HTYPE_REPEATED OR PB_LTYPE_UVARINT) 4 (- 4) 1 3 PtrNull,
      PB_LAST_FIELD]"

definition sample_mem :: memory where
  "sample_mem =
     (\<lambda>_. 0)(4096 := 44, 4097 := 1, 4104 := 0, 4105 := 32, 4112 := 2, 4116 := 1, 4117 := 200,
             8192 := 104, 8193 := 105)"

definition sample_world :: "unit world" where
  "sample_world = \<lparr>mem = sample_mem, blocks = [], user = (), fault = None\<rparr>"

definition sample_bytes :: "u8 list" where
  "sample_bytes = [8, 172, 2, 18, 2, 104, 105, 26, 3, 1, 200, 1]"

lemmas sample_defs = sample_fields_def sample_mem_def

lemmas ref_defs = message_ref_def field_ref_def basic_ref_def elem_ref_def tag_ref_def array_ref_def
  string_ref_def field_wiretype_def tag_bytes_def read_unsigned_def varint_of_def pb_type_defs Let_def

lemma sample_types:
  "nfields sample_fields = 3" "wf_fields sample_fields"
  "data_at sample_fields 4096 0 = 4096" "data_at sample_fields 4096 (Suc 0) = 4104"
  by (simp_all add: sample_fields_def nfields_def wf_fields_def field_at_def in_union_def prev_size_def pb_type_defs)

lemma sample_data_2: "data_at sample_fields 4096 (Suc (Suc 0)) = 4116"
  unfolding data_at.simps(2) [of _ _ "Suc 0"] sample_types
  by (simp add: sample_fields_def field_at_def in_union_def prev_size_def pb_type_defs)

lemma sample_fields_ref:
  "field_ref sample_mem sub (field_at sample_fields 0) 4096 = Bytes [8, 172, 2]"
  "field_ref sample_mem sub (field_at sample_fields (Suc 0)) 4104 = Bytes [18, 2, 104, 105]"
  "field_ref sample_mem sub (field_at sample_fields (Suc (Suc 0))) 4116 = Bytes [26, 3, 1, 200, 1]"
  subgoal
    by (simp add: sample_defs ref_defs field_at_def load32_def load_bytes_def upt_rec varint_bytes.simps)
  subgoal
    by (simp add: sample_defs ref_defs field_at_def load64_def load_bytes_def upt_rec varint_bytes.simps
        string_bytes_def c_string_numeral)
  subgoal
    by (simp add: sample_defs ref_defs field_at_def load32_def load_bytes_def upt_rec varint_bytes.simps
        string_bytes_def items_ref_def)
  done

lemma sample_encode: "encode_ref 1 sample_env (mem sample_world) sample_fields 4096 = Bytes sample_bytes"
proof -
  have "[0..<3] = [0, Suc 0, Suc (Suc 0)]"
    by (simp add: upt_rec)
  moreover have "PB_LTYPE (f_type (field_at sample_fields i)) \<noteq> PB_LTYPE_EXTENSION" for i
    by (simp add: field_at_def sample_fields_def nth_Cons' PB_LAST_FIELD_def PB_LTYPE_def)
  ultimately show ?thesis
    using sample_fields_ref [of "encode_ref 0 sample_env sample_mem"]
    by (simp add: message_ref_def sample_types sample_data_2 sample_world_def sample_bytes_def Let_def
        del: data_at.simps)
qed

lemma sample_room:
  "ostream_inv (pb_ostream_from_buffer (replicate 12 0) 12)" "room (pb_ostream_from_buffer (replicate 12 0) 12) 12"
  "ostream_inv (pb_ostream_from_buffer (replicate 12 0) 11)" "\<not> room (pb_ostream_from_buffer (replicate 12 0) 11) 12"
  by (simp_all add: ostream_inv_def lib_stream_def pb_ostream_from_buffer_def avail_def room_def)

lemma sample_length [simp]: "length sample_bytes = 12"
  by (simp add: sample_bytes_def)

lemma sample_size: "pb_get_encoded_size 1 sample_env sample_fields 4096 sample_world = (Some 12, sample_world)"
  using emits_sizing [OF encode_ref_emits [OF sample_encode]]
  by (simp add: pb_get_encoded_size_def del: pb_encode.simps)

section \<open>Properties\<close>

text \<open>
  C1. On a sizing stream, or a buffer stream with room, \<open>pb_encode\<close> succeeds and appends exactly the
  reference encoding of the message: nothing else of the stream and nothing of the world changes.
\<close>

theorem pb_encode_writes_reference:
  assumes "encode_ref d E (mem w) fs src = Bytes bs"
    and "ostream_inv s" and "room s (length bs)"
  shows "pb_encode d E fs src (s, w) = (True, push bs s, w)"
  using encode_ref_emits [OF assms(1)] assms(2,3) by (rule ostream.emits_fits)

theorem pb_encode_writes_reference_witness:
  "pb_encode 1 sample_env sample_fields 4096 (pb_ostream_from_buffer (replicate 12 0) 12, sample_world) =
    (True, push sample_bytes (pb_ostream_from_buffer (replicate 12 0) 12), sample_world)"
  by (rule pb_encode_writes_reference [OF sample_encode]) (simp_all add: sample_room)

text \<open>
  C3. Without room \<open>pb_encode\<close> fails with an error message, leaves the world alone, and has changed no
  byte of the buffer outside the stream's window: a short buffer is never overrun.
\<close>

theorem pb_encode_short_buffer:
  assumes "encode_ref d E (mem w) fs src = Bytes bs"
    and "ostream_inv s" and "\<not> room s (length bs)"
  shows "\<exists>s'. pb_encode d E fs src (s, w) = (False, s', w) \<and> o_errmsg s' \<noteq> None \<and> same_outside s s'"
  using ostream.emits_over [OF encode_ref_emits [OF assms(1)] assms(2,3)]
  by (auto simp: full_def outside_def)

theorem pb_encode_short_buffer_witness:
  "\<exists>s'. pb_encode 1 sample_env sample_fields 4096 (pb_ostream_from_buffer (replicate 12 0) 11, sample_world)
    = (False, s', sample_world) \<and> o_errmsg s' \<noteq> None
    \<and> same_outside (pb_ostream_from_buffer (replicate 12 0) 11) s'"
  by (rule pb_encode_short_buffer [OF sample_encode]) (simp_all add: sample_room)

text \<open>
  C4. \<open>pb_get_encoded_size\<close> succeeds exactly when the message has an encoding, and its result is the
  encoding's length (modulo \<open>2 ^ 64\<close>, the width of \<open>size_t\<close>).
\<close>

theorem pb_get_encoded_size_exact:
  assumes "encode_ref d E (mem w) fs src \<noteq> Unspecified"
  shows "pb_get_encoded_size d E fs src w =
    (case encode_ref d E (mem w) fs src of Bytes bs \<Rightarrow> Some (of_nat (length bs)) | _ \<Rightarrow> None, w)"
proof (cases "encode_ref d E (mem w) fs src")
  case (Bytes bs)
  then show ?thesis
    using emits_sizing [OF encode_ref_emits [OF Bytes]] by (simp add: pb_get_encoded_size_def)
next
  case Refused
  then show ?thesis
    using emits_sizing_None [OF encode_ref_refused [OF Refused]] by (auto simp: pb_get_encoded_size_def)
qed (use assms in simp)

theorem pb_get_encoded_size_exact_witness:
  "pb_get_encoded_size 1 sample_env sample_fields 4096 sample_world = (Some 12, sample_world)"
  using pb_get_encoded_size_exact [of 1 sample_env sample_world sample_fields 4096]
  unfolding sample_encode by simp

text \<open>
  The size that \<open>pb_get_encoded_size\<close> gives is the size a buffer needs: encoding into a buffer of
  at least that many bytes succeeds and reports as many bytes written.
\<close>

theorem pb_get_encoded_size_suffices:
  assumes "encode_ref d E (mem w) fs src = Bytes bs" and "length bs < 2 ^ 63"
    and "pb_get_encoded_size d E fs src w = (Some n, w)"
    and "unat n \<le> unat bufsize" and "unat bufsize \<le> length buf" and "length buf < 2 ^ 63"
  shows "\<exists>s. pb_encode d E fs src (pb_ostream_from_buffer buf bufsize, w) = (True, s, w) \<and>
    bytes_written s = n"
proof -
  have n: "n = of_nat (length bs)"
    using assms(3) emits_sizing [OF encode_ref_emits [OF assms(1)]] by (simp add: pb_get_encoded_size_def)
  then have len: "unat n = length bs"
    using assms(2) by (simp add: unsigned_of_nat take_bit_nat_eq_self)
  then have "length bs \<le> unat bufsize"
    using assms(4) by simp
  from from_buffer_emits [OF encode_ref_emits [OF assms(1)] assms(6,5) this]
  obtain s where "pb_encode d E fs src (pb_ostream_from_buffer buf bufsize, w) = (True, s, w)"
    and "unat (bytes_written s) = unat n"
    using len by auto
  then show ?thesis
    using unsigned_word_eqI by blast
qed

theorem pb_get_encoded_size_suffices_witness:
  "\<exists>s. pb_encode 1 sample_env sample_fields 4096 (pb_ostream_from_buffer (replicate 20 7) 12, sample_world)
    = (True, s, sample_world) \<and> bytes_written s = 12"
  by (rule pb_get_encoded_size_suffices [OF sample_encode _ sample_size]) simp_all

text \<open>
  C5. A message the reference refuses (an array count beyond the array, a missing required pointer, a bytes field
  larger than its storage, a field type the code does not know) is refused by \<open>pb_encode\<close>. On a buffer or sizing
  stream of the library without an earlier error, large enough or not, the world does not change and no byte outside
  the window of the stream does. On every other stream as well, with any callback of the user and after any earlier
  error, \<open>pb_encode\<close> returns false, as long as the callbacks leave the memory of the message alone, and then it
  leaves that memory alone too.
\<close>

theorem pb_encode_refuses:
  assumes "encode_ref d E (mem w) fs src = Refused"
  shows "(ostream_inv s \<longrightarrow> (\<exists>s'. pb_encode d E fs src (s, w) = (False, s', w) \<and> same_outside s s')) \<and>
    (callbacks_keep (\<lambda>v. mem v = mem w) E \<longrightarrow>
      (\<exists>s' w'. pb_encode d E fs src (s, w) = (False, s', w') \<and> mem w' = mem w))"
proof (intro conjI impI)
  assume "ostream_inv s"
  then show "\<exists>s'. pb_encode d E fs src (s, w) = (False, s', w) \<and> same_outside s s'"
    using ostream.emits_None [OF encode_ref_refused [OF assms(1)]] by (auto simp: outside_def)
next
  assume c: "callbacks_keep (\<lambda>v. mem v = mem w) E"
  obtain ok s' w' where run: "pb_encode d E fs src (s, w) = (ok, s', w')" by (cases "pb_encode d E fs src (s, w)") auto
  have "keeps (\<lambda>v. mem v = mem w) (pb_encode d E fs src)" using keeps_pb_encode [OF c] by simp
  then have "mem w' = mem w" using keepsD run by blast
  moreover have "\<not> ok" using pb_encode_refused_fails [OF c, of d fs src] assms run unfolding refuses_def by (metis fst_conv)
  ultimately show "\<exists>s' w'. pb_encode d E fs src (s, w) = (False, s', w') \<and> mem w' = mem w" using run by simp
qed

lemma sample_refused:
  "encode_ref 1 E (sample_mem(4112 := 4)) sample_fields 4096 = Refused"
proof -
  have "[0..<3] = [0, Suc 0, Suc (Suc 0)]"
    by (simp add: upt_rec)
  moreover have "PB_LTYPE (f_type (field_at sample_fields i)) \<noteq> PB_LTYPE_EXTENSION" for i
    by (simp add: field_at_def sample_fields_def nth_Cons' PB_LAST_FIELD_def PB_LTYPE_def)
  moreover have "field_ref (sample_mem(4112 := 4)) sub (field_at sample_fields (Suc (Suc 0))) 4116 = Refused" for sub
    by (simp add: sample_defs ref_defs field_at_def load32_def load_bytes_def upt_rec)
  moreover have "field_ref (sample_mem(4112 := 4)) sub (field_at sample_fields 0) 4096 = Bytes [8, 172, 2]" for sub
    by (simp add: sample_defs ref_defs field_at_def load32_def load_bytes_def upt_rec varint_bytes.simps)
  moreover have "field_ref (sample_mem(4112 := 4)) sub (field_at sample_fields (Suc 0)) 4104
      = Bytes [18, 2, 104, 105]" for sub
    by (simp add: sample_defs ref_defs field_at_def load64_def load_bytes_def upt_rec varint_bytes.simps
        string_bytes_def c_string_numeral)
  ultimately show ?thesis
    by (simp add: message_ref_def sample_types sample_data_2 Let_def del: data_at.simps)
qed

text \<open>A stream of the user whose callback accepts everything, with an error from before.\<close>

definition accepting_env :: "unit env" where
  "accepting_env = sample_env\<lparr>ostream_fn := (\<lambda>_ _ _ w. (True, 0, w))\<rparr>"

definition user_stream :: pb_ostream where
  "user_stream = \<lparr>o_callback = OUser 0, o_buf = [], o_state = 0, max_size = 100, bytes_written = 0,
     o_errmsg = Some ''io error''\<rparr>"

lemma accepting_env_keeps: "callbacks_keep Q accepting_env" "callbacks_keep Q sample_env"
  by (simp_all add: callbacks_keep_def keeps_def accepting_env_def sample_env_def)

theorem pb_encode_refuses_witness:
  "(\<exists>s'. pb_encode 1 sample_env sample_fields 4096
      (pb_ostream_from_buffer (replicate 12 0) 12, sample_world\<lparr>mem := sample_mem(4112 := 4)\<rparr>)
    = (False, s', sample_world\<lparr>mem := sample_mem(4112 := 4)\<rparr>)
    \<and> same_outside (pb_ostream_from_buffer (replicate 12 0) 12) s') \<and>
   (\<exists>s' w'. pb_encode 1 accepting_env sample_fields 4096 (user_stream, sample_world\<lparr>mem := sample_mem(4112 := 4)\<rparr>)
    = (False, s', w') \<and> mem w' = sample_mem(4112 := 4))"
  using pb_encode_refuses [of 1 sample_env "sample_world\<lparr>mem := sample_mem(4112 := 4)\<rparr>" sample_fields 4096
      "pb_ostream_from_buffer (replicate 12 0) 12"]
    pb_encode_refuses [of 1 accepting_env "sample_world\<lparr>mem := sample_mem(4112 := 4)\<rparr>" sample_fields 4096 user_stream]
    sample_refused [of sample_env] sample_refused [of accepting_env] sample_room(1) accepting_env_keeps
  by (simp del: encode_ref.simps pb_encode.simps)

text \<open>
  A submessage is written as its length and its bytes: both passes of \<open>pb_encode_submessage\<close> agree,
  so the error \<open>submsg size changed\<close> is not met and the parent stream takes over in the right place.
  The same holds of \<open>pb_encode_delimited\<close>, which is this function.
\<close>

theorem pb_encode_delimited_writes:
  assumes "encode_ref d E (mem w) fs src = Bytes bs" and "length bs < 2 ^ 63"
    and "ostream_inv s" and "room s (length (varint_bytes (of_nat (length bs))) + length bs)"
  shows "pb_encode_delimited d E fs src (s, w) = (True, push (varint_bytes (of_nat (length bs)) @ bs) s, w)"
proof -
  have "denotes (pb_encode_delimited d E fs src) w (delimit (encode_ref d E (mem w) fs src))"
    unfolding pb_encode_delimited_def by (rule pb_encode_submessage_denotes) (rule pb_encode_denotes)
  then have "emits (pb_encode_delimited d E fs src) w (Some (string_bytes bs))"
    using assms(1,2) by simp
  from ostream.emits_fits [OF this assms(3)] assms(4) show ?thesis
    by (simp add: string_bytes_def)
qed

theorem pb_encode_delimited_writes_witness:
  "pb_encode_delimited 1 sample_env sample_fields 4096 (pb_ostream_from_buffer (replicate 13 0) 13, sample_world) =
    (True, push (varint_bytes (of_nat (length sample_bytes)) @ sample_bytes)
             (pb_ostream_from_buffer (replicate 13 0) 13), sample_world)"
  by (rule pb_encode_delimited_writes [OF sample_encode])
    (simp_all add: ostream_inv_def lib_stream_def pb_ostream_from_buffer_def avail_def room_def
      varint_bytes.simps)

text \<open>
  \<open>pb_encode_nullterminated\<close> writes the message and one zero byte, the key that ends a message.
\<close>

theorem pb_encode_nullterminated_writes:
  assumes "encode_ref d E (mem w) fs src = Bytes bs" and "ostream_inv s" and "room s (length bs + 1)"
  shows "pb_encode_nullterminated d E fs src (s, w) = (True, push (bs @ [0]) s, w)"
proof -
  have "emits (pb_write E (SrcLocal [0]) 1) w (Some [0])"
    using pb_write_local_emits [of "[0]" E w] by simp
  from ostream.emits_andthen_Some [OF encode_ref_emits [OF assms(1)] this]
  have "emits (pb_encode_nullterminated d E fs src) w (Some (bs @ [0]))"
    by (simp add: pb_encode_nullterminated_def)
  from ostream.emits_fits [OF this assms(2)] assms(3) show ?thesis by simp
qed

theorem pb_encode_nullterminated_writes_witness:
  "pb_encode_nullterminated 1 sample_env sample_fields 4096
      (pb_ostream_from_buffer (replicate 13 0) 13, sample_world) =
    (True, push (sample_bytes @ [0]) (pb_ostream_from_buffer (replicate 13 0) 13), sample_world)"
  by (rule pb_encode_nullterminated_writes [OF sample_encode])
    (simp_all add: ostream_inv_def lib_stream_def pb_ostream_from_buffer_def avail_def room_def)

text \<open>
  C6. The recursion of \<open>pb_encode\<close> is bounded by the nesting of the message type. For a type without extension
  fields (an extension may bring any type with it) and a depth above its nesting: no run, on any stream, uses the
  depth up, unless a callback of the user claims to have done so; and every such depth gives the same run.
\<close>

theorem pb_encode_depth_enough:
  assumes "no_ext fs" and "fields_depth fs < d" and "callbacks_keep (\<lambda>v. fault v \<noteq> Some RecursionBudget) E"
    and "fault w \<noteq> Some RecursionBudget"
  shows "fault (snd (snd (pb_encode d E fs src (s, w)))) \<noteq> Some RecursionBudget \<and>
    pb_encode d E fs src (s, w) = pb_encode (Suc (fields_depth fs)) E fs src (s, w)"
proof -
  have "faults_keep (\<lambda>v. fault v \<noteq> Some RecursionBudget)" by (auto simp: faults_keep_def raise_fault_def split: option.split)
  then have "keeps (\<lambda>v. fault v \<noteq> Some RecursionBudget) (pb_encode d E fs src)"
    using keeps_pb_encode_budget [OF assms(3)] assms(1,2) by blast
  then have "fault (snd (snd (pb_encode d E fs src (s, w)))) \<noteq> Some RecursionBudget"
    using assms(4) by (simp add: keeps_def)
  moreover have "pb_encode d E fs src = pb_encode (Suc (fields_depth fs)) E fs src"
    by (rule pb_encode_depth_eq) (use assms in simp_all)
  ultimately show ?thesis by simp
qed

theorem pb_encode_depth_enough_witness:
  "fault (snd (snd (pb_encode 5 accepting_env sample_fields 4096 (user_stream, sample_world)))) \<noteq> Some RecursionBudget \<and>
    pb_encode 5 accepting_env sample_fields 4096 (user_stream, sample_world) =
    pb_encode 1 accepting_env sample_fields 4096 (user_stream, sample_world)"
proof -
  have d: "fields_depth sample_fields = 0" and n: "no_ext sample_fields" and "fields_depth sample_fields < 5"
    by (simp_all add: sample_fields_def PB_LAST_FIELD_def PB_LTYPE_def)
  moreover have "fault sample_world \<noteq> Some RecursionBudget" by (simp add: sample_world_def)
  ultimately show ?thesis
    using pb_encode_depth_enough [OF n _ accepting_env_keeps(1), of 5 sample_world 4096 user_stream]
    unfolding d One_nat_def by blast
qed

end
