(* ===== verification/PbRoundtrip.thy ===== *)
theory PbRoundtrip
  imports PbDecodeElem PbEncodeTheorems
begin

text \<open>
  \<open>pb_decode\<close> on what \<open>pb_encode\<close> writes, for plain message types: the decoded structure has the value
  of the encoded one. The proof follows the main loop field by field.
\<close>

section \<open>Length-delimited parts\<close>

text \<open>A message decoder reads its stream to the end, so what it takes is the whole input.\<close>

definition takes_all :: "('u, 'a) dec \<Rightarrow> 'u world \<Rightarrow> u8 list \<Rightarrow> 'a \<Rightarrow> 'u world \<Rightarrow> bool" where
  "takes_all f w bs v w' \<longleftrightarrow>
     (\<forall>s. istream_inv s \<longrightarrow> input s = bs \<longrightarrow> f (s, w) = (Some v, adv (length bs) s, w'))"

lemma in_substream_takes:
  assumes body: "takes_all body w bs v w'" and len: "length bs < 2 ^ 32"
  shows "takes (in_substream E body) w (string_bytes bs) v w'"
proof -
  let ?n = "of_nat (length bs) :: u32" and ?k = "length (varint_bytes (of_nat (length bs)))"
  have n: "unat ?n = length bs" and u: "ucast ?n = (of_nat (length bs) :: u64)"
    using len by (simp_all add: unsigned_of_nat take_bit_nat_eq_self word_unat_eq_iff unat_ucast_up_simp)
  have "in_substream E body (s, w) = (Some v, adv (length (string_bytes bs)) s, w')"
    if s: "istream_inv s" and xs: "input s = string_bytes bs @ xs" for s xs
  proof -
    have k: "?k \<le> length (input s)" using xs by (simp add: string_bytes_def)
    have head: "pb_decode_varint32 E (s, w) = (Some ?n, adv ?k s, w)"
      using takesD [OF pb_decode_varint32_takes [of E w ?n] s, of "bs @ xs"] xs by (simp add: string_bytes_def u)
    let ?s = "adv ?k s"
    note s1 = istream.valid_adv [OF s k]
    have rest: "input ?s = bs @ xs"
      using istream.rest_adv [OF s k] xs by (simp add: string_bytes_def)
    have n1: "unat ?n \<le> unat (bytes_left ?s)"
      using length_input [OF s1] rest n by simp
    note sub = sub_of_facts [OF s1 n1]
    have in_sub: "input (sub_of ?n ?s) = bs" using sub(2) rest n by simp
    have run: "body (sub_of ?n ?s, w) = (Some v, adv (length bs) (sub_of ?n ?s), w')"
      using body sub(1) in_sub by (simp add: takes_all_def)
    have j: "length bs \<le> length (input (sub_of ?n ?s))" using in_sub by simp
    have "input (adv (length bs) (sub_of ?n ?s)) = []"
      using istream.rest_adv [OF sub(1) j] in_sub by simp
    then have close: "pb_close_string_substream E (adv (length bs) (sub_of ?n ?s)) (parent_of ?n ?s, w') =
        (Some (), adv (length bs) ?s, w')"
      using pb_close_string_substream_run [OF istream.valid_adv [OF sub(1) j], of E "parent_of ?n ?s" w']
        rejoin_adv [OF s1 n1] n by (simp add: istream.adv_0)
    have join: "adv (length bs) ?s = adv (length (string_bytes bs)) s"
      using istream.adv_adv [OF s, of ?k "length bs"] xs by (simp add: string_bytes_def)
    have "bytes_left ?s \<ge> ucast ?n"
      using n1 by (simp add: word_le_nat_alt unat_ucast_up_simp)
    then show ?thesis
      using head run close
      by (simp add: in_substream_def pb_make_string_substream_def bindo_def sub_of_def parent_of_def
          linorder_not_less [symmetric] join)
  qed
  then show ?thesis by (simp add: takes_def)
qed

section \<open>The parts of an encoded message\<close>

lemma after_Bytes: "after a b = Bytes bs \<longleftrightarrow> (\<exists>x y. a = Bytes x \<and> b = Bytes y \<and> bs = x @ y)"
  by (cases a; cases b) auto

lemma all_parts_Bytes: "all_parts rs = Bytes bs \<longleftrightarrow> (\<exists>xs. rs = map Bytes xs \<and> bs = concat xs)"
proof (induction rs arbitrary: bs)
  case (Cons r rs)
  show ?case
  proof
    assume "all_parts (r # rs) = Bytes bs"
    then obtain x y where "r = Bytes x" "all_parts rs = Bytes y" "bs = x @ y" by (auto simp: after_Bytes)
    moreover then obtain xs where "rs = map Bytes xs" "y = concat xs" using Cons by auto
    ultimately show "\<exists>xs. r # rs = map Bytes xs \<and> bs = concat xs" by (intro exI [of _ "x # xs"]) simp
  next
    assume "\<exists>xs. r # rs = map Bytes xs \<and> bs = concat xs"
    then obtain xs where xs: "r # rs = map Bytes xs" "bs = concat xs" by (elim exE conjE) (rule that)
    then obtain x ys where "xs = x # ys" "r = Bytes x" "rs = map Bytes ys" by (cases xs) auto
    then show "all_parts (r # rs) = Bytes bs" using xs(2) Cons [of "concat ys"] by (auto simp: after_Bytes)
  qed
qed auto

definition field_part :: "'u env \<Rightarrow> nat \<Rightarrow> memory \<Rightarrow> pb_field list \<Rightarrow> addr \<Rightarrow> nat \<Rightarrow> enc_result" where
  "field_part E d m fs src k = field_ref m (encode_ref d E m) (field_at fs k) (data_at fs src k)"

lemma plain_no_extension:
  "plain (Suc d) n fs \<Longrightarrow> k < nfields fs \<Longrightarrow> PB_LTYPE (f_type (field_at fs k)) \<noteq> PB_LTYPE_EXTENSION"
  using plain_field_at [of d n fs k] by (auto simp: plain_field_def Let_def split: if_splits)

lemma encode_ref_parts:
  assumes "plain (Suc d) n fs" and "encode_ref (Suc d) E m fs src = Bytes bs"
  shows "\<exists>part. (\<forall>k < nfields fs. field_part E d m fs src k = Bytes (part k)) \<and> bs = concat (map part [0..<nfields fs])"
proof -
  have wf: "wf_fields fs" using assms(1) by simp
  have parts: "map (field_part E d m fs src) [0..<nfields fs] =
      map (\<lambda>k. let f = field_at fs k; p = data_at fs src k in
             if PB_LTYPE (f_type f) = PB_LTYPE_EXTENSION
             then extensions_ref (walk_limit E) E m (encode_ref d E m) (load_ptr m p)
             else field_ref m (encode_ref d E m) f p) [0..<nfields fs]"
    using plain_no_extension [OF assms(1)] by (simp add: field_part_def Let_def)
  have "all_parts (map (field_part E d m fs src) [0..<nfields fs]) = Bytes bs"
    using assms(2) by (simp only: parts encode_ref.simps message_ref_def wf if_True)
  then obtain xs where xs: "map (field_part E d m fs src) [0..<nfields fs] = map Bytes xs" "bs = concat xs"
    by (auto simp: all_parts_Bytes)
  then have len: "length xs = nfields fs" by (metis length_map length_upt minus_nat.diff_0)
  have "field_part E d m fs src k = Bytes (xs ! k)" if "k < nfields fs" for k
    using arg_cong [OF xs(1), of "\<lambda>ys. ys ! k"] that len by simp
  then show ?thesis
    using len xs(2) by (intro exI [of _ "\<lambda>k. xs ! k"]) (use map_nth [of xs] in auto)
qed

text \<open>A field that is absent leaves no bytes; one that is present leaves its key and its element.\<close>

lemma size_at_offset:
  assumes "plain (Suc d) n fs" and "k < nfields fs"
  shows "data_at fs a k + scast (size_offset (field_at fs k)) = size_at fs a k"
  using plain_size_at [OF assms] by simp

lemma tag_ref_plain:
  assumes "plain_field sub f" and "PB_ATYPE (f_type f) \<noteq> PB_ATYPE_POINTER"
  shows "\<exists>wt. tag_ref f = Bytes (tag_bytes wt (f_tag f)) \<and> unat wt < 8"
  using assms by (auto simp: tag_ref_def field_wiretype_def plain_field_def Let_def split: if_splits)

lemma part_absent:
  assumes pl: "plain (Suc d) n fs" "k < nfields fs" and part: "field_part E d m fs src k = Bytes bs"
    and absent: "field_view sub m (field_at fs k) (data_at fs src k) (size_at fs src k) = Absent"
  shows "bs = []"
proof -
  let ?f = "field_at fs k"
  have f: "plain_field (plain d) ?f" by (rule plain_field_at [OF pl])
  show ?thesis
  proof (cases "PB_ATYPE (f_type ?f) = PB_ATYPE_POINTER")
    case True
    then show ?thesis
      using part absent f size_at_offset [OF pl, of src]
      by (auto simp: field_part_def field_ref_def basic_ref_def plain_field_def field_view_def Let_def array_ref_def
          split: if_splits)
  next
    case False
    then have "m (size_at fs src k) = 0"
      using absent f by (auto simp: field_view_def plain_field_def Let_def split: if_splits pb_ptr.splits)
    then show ?thesis
      using part False f size_at_offset [OF pl, of src]
      by (auto simp: field_part_def field_ref_def basic_ref_def plain_field_def Let_def split: if_splits)
  qed
qed

lemma part_present:
  assumes pl: "plain (Suc d) n fs" "k < nfields fs" and part: "field_part E d m fs src k = Bytes bs"
    and v: "field_view sub m (field_at fs k) (data_at fs src k) (size_at fs src k) = v" "v \<noteq> Absent" "pointer_free v"
  shows "PB_ATYPE (f_type (field_at fs k)) \<noteq> PB_ATYPE_POINTER \<and> m (size_at fs src k) \<noteq> 0 \<and>
    (\<exists>wt eb. unat wt < 8 \<and> bs = tag_bytes wt (f_tag (field_at fs k)) @ eb \<and>
      elem_ref m (encode_ref d E m) (field_at fs k) (data_at fs src k) = Bytes eb)"
proof -
  let ?f = "field_at fs k"
  have f: "plain_field (plain d) ?f" by (rule plain_field_at [OF pl])
  have np: "PB_ATYPE (f_type ?f) \<noteq> PB_ATYPE_POINTER" and q: "m (size_at fs src k) \<noteq> 0"
    using v by (auto simp: field_view_def split: if_splits)
  obtain wt where wt: "tag_ref ?f = Bytes (tag_bytes wt (f_tag ?f))" "unat wt < 8"
    using tag_ref_plain [OF f np] by blast
  have "after (tag_ref ?f) (elem_ref m (encode_ref d E m) ?f (data_at fs src k)) = Bytes bs"
    using part np f q size_at_offset [OF pl, of src]
    by (auto simp: field_part_def field_ref_def basic_ref_def plain_field_def Let_def split: if_splits)
  then show ?thesis using wt np q by (auto simp: after_Bytes)
qed

section \<open>One field\<close>

text \<open>The address of \<open>fixed_count_size\<close> in the frames of the calls below depth \<open>d\<close>.\<close>

definition frames :: "'u env \<Rightarrow> nat \<Rightarrow> addr set" where
  "frames E d = (\<Union>i < d. region (local_addr E i) 4)"

lemma frames_Suc: "frames E (Suc d) = frames E d \<union> region (local_addr E d) 4"
  by (auto simp: frames_def lessThan_Suc)

definition calls_at :: "nat \<Rightarrow> 'u env \<Rightarrow> 'u rec_calls" where
  "calls_at d E =
     \<lparr>call_decode = decode_top d E (pb_decode_noinit d E), call_noinit = pb_decode_noinit d E,
      call_defaults = pb_message_set_to_defaults d E, call_release = release_field (Suc d) E\<rparr>"

text \<open>What is to be shown of the decoder at depth \<open>d\<close>.\<close>

definition decodes_at :: "'v env \<Rightarrow> 'u env \<Rightarrow> nat \<Rightarrow> memory \<Rightarrow> bool" where
  "decodes_at E' E d m \<longleftrightarrow>
     (\<forall>n fs src dest w bs.
        plain d n fs \<longrightarrow> n \<le> 2 ^ 64 \<longrightarrow> encode_ref d E' m fs src = Bytes bs \<longrightarrow> length bs < 2 ^ 32 \<longrightarrow>
        list_all pointer_free (view d m fs src) \<longrightarrow> clean d (mem w) fs dest \<longrightarrow>
        frames E d \<inter> region dest n = {} \<longrightarrow>
        (\<exists>m'. takes_all (pb_decode_noinit d E fs dest) w bs () (w\<lparr>mem := m'\<rparr>) \<and>
           view d m' fs dest = view d m fs src \<and> changes_only (region dest n \<union> frames E d) (mem w) m'))"

lemma decodes_atD:
  assumes "decodes_at E' E d m" and "plain d n fs" and "n \<le> 2 ^ 64" and "encode_ref d E' m fs src = Bytes bs"
    and "length bs < 2 ^ 32" and "list_all pointer_free (view d m fs src)" and "clean d (mem w) fs dest"
    and "frames E d \<inter> region dest n = {}"
  shows "\<exists>m'. takes_all (pb_decode_noinit d E fs dest) w bs () (w\<lparr>mem := m'\<rparr>) \<and>
    view d m' fs dest = view d m fs src \<and> changes_only (region dest n \<union> frames E d) (mem w) m'"
  using assms unfolding decodes_at_def by blast

text \<open>The element decoder of a present field, run after the \<open>has_\<close> member is set.\<close>

lemma element_takes:
  assumes IH: "decodes_at E' E d m"
    and f: "plain_field (plain d) f" "PB_ATYPE (f_type f) \<noteq> PB_ATYPE_POINTER"
    and eb: "elem_ref m (encode_ref d E' m) f p = Bytes eb" "length eb < 2 ^ 32"
    and src: "m q \<noteq> 0" "pointer_free (field_view (view d m) m f p q)"
    and clean: "field_clean (clean d mm) mm f pd qd"
    and fr: "frames E d \<inter> region pd (data_len f) = {}"
    and w: "agree (region pd (data_len f)) mm (mem w)"
  shows "\<exists>m'. takes (PB_DECODERS E (calls_at d E) (PB_LTYPE (f_type f)) f pd) w eb () (w\<lparr>mem := m'\<rparr>) \<and>
    (m' qd \<noteq> 0 \<longrightarrow> field_view (view d m') m' f pd qd = field_view (view d m) m f p q) \<and>
    changes_only (region pd (data_len f) \<union> frames E d) (mem w) m'"
proof (cases "PB_LTYPE (f_type f) = PB_LTYPE_SUBMESSAGE")
  case False
  from scalar_takes [OF f False eb(1), of E "calls_at d E" pd w] obtain m' where m':
    "takes (PB_DECODERS E (calls_at d E) (PB_LTYPE (f_type f)) f pd) w eb () (w\<lparr>mem := m'\<rparr>)"
    "scalar_stored m f p m' pd" "changes_only (region pd (unat (data_size f))) (mem w) m'"
    by blast
  moreover have "changes_only (region pd (data_len f) \<union> frames E d) (mem w) m'"
    by (rule changes_only_mono [OF m'(3)]) (use f in \<open>simp add: data_len_def\<close>)
  ultimately show ?thesis
    using f False src(1) by (intro exI [of _ m']) (auto simp: field_view_def scalar_stored_def)
next
  case True
  then obtain gs where gs: "f_ptr f = PtrFields gs" "plain d (unat (data_size f)) gs"
    using f by (auto simp: plain_field_def Let_def split: pb_ptr.splits)
  have len: "data_len f = unat (data_size f)" and opt: "PB_HTYPE (f_type f) = PB_HTYPE_OPTIONAL"
    using f by (auto simp: data_len_def plain_field_def Let_def)
  obtain sb where sb: "encode_ref d E' m gs p = Bytes sb" "eb = string_bytes sb"
    using eb(1) True gs(1)
    by (cases "encode_ref d E' m gs p") (auto simp: elem_ref_def submessage_ref_def split: if_splits)
  have "length sb < 2 ^ 32" using eb(2) sb(2) by (simp add: string_bytes_def)
  moreover have "list_all pointer_free (view d m gs p)"
    using src f True gs(1) by (simp add: field_view_def)
  moreover have "clean d (mem w) gs pd"
    using clean f True gs clean_cong [OF gs(2), of pd mm "mem w"] w len by (simp add: field_clean_def)
  ultimately obtain m' where m': "takes_all (pb_decode_noinit d E gs pd) w sb () (w\<lparr>mem := m'\<rparr>)"
      "view d m' gs pd = view d m gs p" "changes_only (region pd (unat (data_size f)) \<union> frames E d) (mem w) m'"
    using decodes_atD [OF IH gs(2) _ sb(1), of w pd] fr len unat_bound [of "data_size f"] by auto
  have "takes (pb_dec_submessage E (calls_at d E) f pd) w eb () (w\<lparr>mem := m'\<rparr>)"
    using in_substream_takes [OF m'(1) \<open>length sb < 2 ^ 32\<close>, of E] gs(1) opt sb(2)
    by (simp add: pb_dec_submessage_def calls_at_def)
  then show ?thesis
    using m' True gs(1) f len src(1)
    by (intro exI [of _ m']) (auto simp: PB_DECODERS_def field_view_def)
qed

lemma field_takes:
  assumes IH: "decodes_at E' E d m" and pl: "plain (Suc d) n fs" "n \<le> 2 ^ 64" "k < nfields fs"
    and part: "field_part E' d m fs src k = Bytes bs" "length bs < 2 ^ 32"
    and v: "field_view (view d m) m (field_at fs k) (data_at fs src k) (size_at fs src k) \<noteq> Absent"
      "pointer_free (field_view (view d m) m (field_at fs k) (data_at fs src k) (size_at fs src k))"
    and clean: "field_clean (clean d (mem w)) (mem w) (field_at fs k) (data_at fs dest k) (size_at fs dest k)"
    and fr: "frames E d \<inter> region dest n = {}"
  shows "\<exists>wt eb m'. unat wt < 8 \<and> bs = tag_bytes wt (f_tag (field_at fs k)) @ eb \<and>
    takes (decode_static_field E (calls_at d E) wt (iter_at fs dest k)) w eb () (w\<lparr>mem := m'\<rparr>) \<and>
    field_view (view d m') m' (field_at fs k) (data_at fs dest k) (size_at fs dest k) =
      field_view (view d m) m (field_at fs k) (data_at fs src k) (size_at fs src k) \<and>
    changes_only (footprint fs dest k \<union> frames E d) (mem w) m'"
proof -
  let ?f = "field_at fs k" and ?p = "data_at fs dest k" and ?q = "size_at fs dest k"
  have f: "plain_field (plain d) ?f" by (rule plain_field_at [OF pl(1,3)])
  have lay: "layout_ok n fs" using pl(1) by simp
  from part_present [OF pl(1,3) part(1) refl v] obtain wt eb where
    np: "PB_ATYPE (f_type ?f) \<noteq> PB_ATYPE_POINTER" and q: "m (size_at fs src k) \<noteq> 0"
    and wt: "unat wt < 8" "bs = tag_bytes wt (f_tag ?f) @ eb"
    and eb: "elem_ref m (encode_ref d E' m) ?f (data_at fs src k) = Bytes eb"
    by blast
  have t: "PB_HTYPE (f_type ?f) = PB_HTYPE_OPTIONAL" "size_offset ?f \<noteq> 0" "size_len ?f = 1"
    using f np by (auto simp: plain_field_def Let_def size_len_def)
  have pq: "?q \<noteq> ?p" by (rule plain_size_data_differ [OF pl(1,3) t(2)])
  have foot: "footprint fs dest k \<subseteq> region dest n" by (rule footprint_within [OF lay pl(3)])
  have q_out: "?q \<notin> region ?p (data_len ?f)" and q_fr: "?q \<notin> frames E d"
    and p_fr: "frames E d \<inter> region ?p (data_len ?f) = {}"
    using data_size_apart [OF lay pl(2,3), of dest] t(3) foot fr by (auto simp: footprint_def)
  let ?w = "put_bool ?q True w"
  have "agree (region ?p (data_len ?f)) (mem w) (mem ?w)"
    using q_out by (auto simp: agree_def put_bool_mem)
  from element_takes [OF IH f np eb _ q v(2) clean p_fr this] obtain m' where m':
    "takes (PB_DECODERS E (calls_at d E) (PB_LTYPE (f_type ?f)) ?f ?p) ?w eb () (?w\<lparr>mem := m'\<rparr>)"
    "m' ?q \<noteq> 0 \<longrightarrow> field_view (view d m') m' ?f ?p ?q =
      field_view (view d m) m ?f (data_at fs src k) (size_at fs src k)"
    "changes_only (region ?p (data_len ?f) \<union> frames E d) (mem ?w) m'"
    using part(2) wt(2) by auto
  have "m' ?q \<noteq> 0"
    using m'(3) q_out q_fr by (simp add: changes_only_def put_bool_mem)
  moreover have "takes (decode_static_field E (calls_at d E) wt (iter_at fs dest k)) w ([] @ eb) () (?w\<lparr>mem := m'\<rparr>)"
    using t pq takes_bindo [OF takes_exec [of "put_bool ?q True" w] m'(1)]
    by (simp add: decode_static_field_def Let_def)
  moreover have "changes_only (footprint fs dest k \<union> frames E d) (mem w) m'"
    using m'(3) t(3) by (auto simp: changes_only_def footprint_def put_bool_mem)
  ultimately show ?thesis
    using wt m'(2) by (intro exI [of _ wt] exI [of _ eb] exI [of _ m']) (simp add: put_bool_mem)
qed

section \<open>The main loop\<close>

definition view_at :: "nat \<Rightarrow> memory \<Rightarrow> pb_field list \<Rightarrow> addr \<Rightarrow> nat \<Rightarrow> fval" where
  "view_at d m fs a k = field_view (view d m) m (field_at fs k) (data_at fs a k) (size_at fs a k)"

definition clean_at :: "nat \<Rightarrow> memory \<Rightarrow> pb_field list \<Rightarrow> addr \<Rightarrow> nat \<Rightarrow> bool" where
  "clean_at d m fs a k \<longleftrightarrow> field_clean (clean d m) m (field_at fs k) (data_at fs a k) (size_at fs a k)"

lemma view_Suc: "view (Suc d) m fs a = map (view_at d m fs a) [0..<nfields fs]"
  by (simp add: view_at_def)

lemma clean_Suc: "clean (Suc d) m fs a \<longleftrightarrow> (\<forall>k < nfields fs. clean_at d m fs a k)"
  by (auto simp: clean_at_def list_all_iff)

lemma view_at_cong:
  assumes "plain (Suc d) n fs" and "k < nfields fs" and "agree (footprint fs a k) m m'"
  shows "view_at d m' fs a k = view_at d m fs a k"
proof -
  have "agree (region (data_at fs a k) (data_len (field_at fs k))) m m'"
    "agree (region (size_at fs a k) (size_len (field_at fs k))) m m'"
    using assms(3) by (auto simp: footprint_def agree_def)
  from field_view_cong [OF plain_field_at [OF assms(1,2)] this view_cong] show ?thesis
    by (simp add: view_at_def)
qed

lemma clean_at_cong:
  assumes "plain (Suc d) n fs" and "k < nfields fs" and "agree (footprint fs a k) m m'"
  shows "clean_at d m' fs a k = clean_at d m fs a k"
proof -
  have "agree (region (data_at fs a k) (data_len (field_at fs k))) m m'"
    "agree (region (size_at fs a k) (size_len (field_at fs k))) m m'"
    using assms(3) by (auto simp: footprint_def agree_def)
  then have "field_clean (clean d m) m (field_at fs k) (data_at fs a k) (size_at fs a k) =
      field_clean (clean d m') m' (field_at fs k) (data_at fs a k) (size_at fs a k)"
    by (rule field_clean_cong [OF plain_field_at [OF assms(1,2)]]) (rule clean_cong)
  then show ?thesis by (simp only: clean_at_def)
qed

lemma find_only: "k \<in> set xs \<Longrightarrow> P k \<Longrightarrow> (\<And>j. j \<in> set xs \<Longrightarrow> P j \<Longrightarrow> j = k) \<Longrightarrow> List.find P xs = Some k"
proof (induction xs)
  case (Cons x xs)
  show ?case
  proof (cases "P x")
    case True
    then have "x = k" by (rule Cons.prems(3) [rotated]) simp
    with True show ?thesis by simp
  next
    case False
    then have "k \<in> set xs" using Cons.prems(1,2) by auto
    then have "List.find P xs = Some k"
      by (rule Cons.IH [OF _ Cons.prems(2)]) (rule Cons.prems(3); simp)
    with False show ?thesis by simp
  qed
qed simp

lemma find_plain:
  assumes pl: "plain (Suc d) n fs" and k: "k < nfields fs" and k0: "k0 < nfields fs"
  shows "pb_field_iter_find (iter_at fs dest k0) (f_tag (field_at fs k)) = Some (True, iter_at fs dest k)"
proof -
  have wf: "wf_fields fs" and dist: "distinct (map f_tag (butlast fs))" using pl by simp_all
  have tag: "f_tag (field_at fs i) = map f_tag (butlast fs) ! i" if "i < nfields fs" for i
    using that by (auto simp: field_at_def nfields_def nth_butlast)
  have "i = k" if "i < nfields fs" "f_tag (field_at fs i) = f_tag (field_at fs k)" for i
    using that nth_eq_iff_index_eq [OF dist, of i k] tag k by (simp add: nfields_def)
  then have "List.find (\<lambda>i. f_tag (field_at fs i) = f_tag (field_at fs k) \<and>
      PB_LTYPE (f_type (field_at fs i)) \<noteq> PB_LTYPE_EXTENSION) (turn (nfields fs) k0) = Some k"
    using k k0 plain_no_extension [OF pl k] set_turn [of k0 "nfields fs"]
    by (intro find_only) auto
  then show ?thesis
    using pb_field_iter_find_at [OF wf k0] by simp
qed

lemma loop_step:
  assumes pl: "plain (Suc d) n fs" and k: "k < nfields fs" "k0 < nfields fs"
    and np: "PB_ATYPE (f_type (field_at fs k)) \<noteq> PB_ATYPE_POINTER"
    and wt: "unat wt < 8" and l: "fixed_count_field l = None"
    and elem: "takes (decode_static_field E rc wt (iter_at fs dest k)) w eb () w'"
    and s: "istream_inv s" and xs: "input s = (tag_bytes wt (f_tag (field_at fs k)) @ eb) @ xs"
  shows "decode_loop (Suc fuel) E rc fcs (l\<lparr>the_iter := iter_at fs dest k0\<rparr>) (s, w) =
    decode_loop fuel E rc fcs (l\<lparr>the_iter := iter_at fs dest k\<rparr>)
      (adv (length (tag_bytes wt (f_tag (field_at fs k)) @ eb)) s, w')"
proof -
  let ?tb = "tag_bytes wt (f_tag (field_at fs k))"
  have f: "plain_field (plain d) (field_at fs k)" by (rule plain_field_at [OF pl k(1)])
  then have tag: "unat (f_tag (field_at fs k)) < 2 ^ 29" "f_tag (field_at fs k) \<noteq> 0"
    and st: "PB_ATYPE (f_type (field_at fs k)) = PB_ATYPE_STATIC" "PB_HTYPE (f_type (field_at fs k)) = PB_HTYPE_OPTIONAL"
    using np by (auto simp: plain_field_def Let_def)
  have "key_of (input s) = Some (Some (wt, f_tag (field_at fs k)), length ?tb)"
    using key_of_tag_bytes [OF tag(1) wt tag(2), of "eb @ xs"] xs by simp
  moreover have ne: "input s \<noteq> []"
    using xs by (auto simp: tag_bytes_def varint_bytes.simps)
  ultimately have head: "pb_decode_tag E (s, w) = ((Some (wt, f_tag (field_at fs k)), False), adv (length ?tb) s, w)"
    using pb_decode_tag_key [OF s ne, of E w] by auto
  have n: "length ?tb \<le> length (input s)" using xs by simp
  have bl: "bytes_left s \<noteq> 0" using length_input [OF s] ne by auto
  have "input (adv (length ?tb) s) = eb @ xs"
    using istream.rest_adv [OF s n] xs by simp
  from takesD [OF elem istream.valid_adv [OF s n] this]
  have run: "decode_static_field E rc wt (iter_at fs dest k) (adv (length ?tb) s, w) =
      (Some (), adv (length (?tb @ eb)) s, w')"
    using istream.adv_adv [OF s, of "length ?tb" "length eb"] xs by simp
  show ?thesis
    using bl head find_plain [OF pl k(1) k(2), of dest] st run l
    by (simp add: use_fixed_count_def bindo_def mark_required_def Let_def decode_field_def yield_def)
qed

lemma loop_takes:
  assumes IH: "decodes_at E' E d m" and pl: "plain (Suc d) n fs" "n \<le> 2 ^ 64"
    and part: "\<And>k. k < nfields fs \<Longrightarrow> field_part E' d m fs src k = Bytes (part k) \<and> length (part k) < 2 ^ 32"
    and free: "\<And>k. k < nfields fs \<Longrightarrow> pointer_free (view_at d m fs src k)"
    and fr: "frames E d \<inter> region dest n = {}" and l: "fixed_count_field l = None"
  shows "j \<le> nfields fs \<Longrightarrow> (\<forall>i < j. view_at d (mem w) fs dest i = view_at d m fs src i) \<Longrightarrow>
    (\<forall>i < nfields fs. j \<le> i \<longrightarrow> clean_at d (mem w) fs dest i) \<Longrightarrow>
    \<exists>m'. (\<forall>i < nfields fs. view_at d m' fs dest i = view_at d m fs src i) \<and>
      changes_only (region dest n \<union> frames E d) (mem w) m' \<and>
      (\<forall>s fuel k0. istream_inv s \<longrightarrow> input s = concat (map part [j..<nfields fs]) \<longrightarrow> length (input s) \<le> fuel \<longrightarrow>
        k0 < nfields fs \<longrightarrow>
        (\<exists>k1 < nfields fs. decode_loop fuel E (calls_at d E) fcs (l\<lparr>the_iter := iter_at fs dest k0\<rparr>) (s, w) =
          (Some (l\<lparr>the_iter := iter_at fs dest k1\<rparr>), adv (length (input s)) s, w\<lparr>mem := m'\<rparr>)))"
proof (induction "nfields fs - j" arbitrary: j w)
  case 0
  then have "decode_loop fuel E (calls_at d E) fcs l' (s, w) = (Some l', s, w)"
    if "istream_inv s" "input s = []" for s fuel l'
    using that length_input [of s] by (cases fuel) (auto simp: unat_eq_0)
  then show ?case
    using 0 by (intro exI [of _ "mem w"]) (auto simp: istream.adv_0)
next
  case (Suc r)
  then have j: "j < nfields fs" by simp
  have upt: "[j..<nfields fs] = j # [Suc j..<nfields fs]" using j by (simp add: upt_conv_Cons)
  have lay: "layout_ok n fs" using pl(1) by simp
  have clean_j: "field_clean (clean d (mem w)) (mem w) (field_at fs j) (data_at fs dest j) (size_at fs dest j)"
    using Suc.prems(3) j by (simp add: clean_at_def)
  note pj = part [OF j, THEN conjunct1] and pl32 = part [OF j, THEN conjunct2]
  show ?case
  proof (cases "view_at d m fs src j = Absent")
    case True
    then have "part j = []"
      using part_absent [OF pl(1) j pj] by (simp add: view_at_def)
    moreover have "view_at d (mem w) fs dest j = view_at d m fs src j"
      using True field_clean_view [OF clean_j] by (simp add: view_at_def)
    ultimately show ?thesis
      using Suc.hyps(1) [of "Suc j" w] Suc.hyps(2) Suc.prems upt j by (auto simp: less_Suc_eq)
  next
    case False
    from field_takes [OF IH pl j pj pl32 False [unfolded view_at_def] free [OF j, unfolded view_at_def] clean_j fr]
    obtain wt eb m1 where wt: "unat wt < 8" "part j = tag_bytes wt (f_tag (field_at fs j)) @ eb"
      and m1: "takes (decode_static_field E (calls_at d E) wt (iter_at fs dest j)) w eb () (w\<lparr>mem := m1\<rparr>)"
        "view_at d m1 fs dest j = view_at d m fs src j" "changes_only (footprint fs dest j \<union> frames E d) (mem w) m1"
      unfolding view_at_def by blast
    have np: "PB_ATYPE (f_type (field_at fs j)) \<noteq> PB_ATYPE_POINTER"
      using part_present [OF pl(1) j pj refl False [unfolded view_at_def] free [OF j, unfolded view_at_def]] by blast
    have same: "agree (footprint fs dest i) (mem w) m1" if "i < nfields fs" "i \<noteq> j" for i
      using footprints_apart [OF lay pl(2) that(1) j that(2), of dest] footprint_within [OF lay that(1), of dest] fr
      by (intro changes_only_agree [OF m1(3)]) auto
    have views: "\<forall>i < Suc j. view_at d (mem (w\<lparr>mem := m1\<rparr>)) fs dest i = view_at d m fs src i"
      using Suc.prems(1,2) m1(2) view_at_cong [OF pl(1) _ same] by (auto simp: less_Suc_eq)
    have cleans: "\<forall>i < nfields fs. Suc j \<le> i \<longrightarrow> clean_at d (mem (w\<lparr>mem := m1\<rparr>)) fs dest i"
      using Suc.prems(3) clean_at_cong [OF pl(1) _ same] by auto
    have "r = nfields fs - Suc j" "Suc j \<le> nfields fs" using Suc.hyps(2) j by simp_all
    from Suc.hyps(1) [OF this views cleans] obtain m' where
      m': "\<forall>i < nfields fs. view_at d m' fs dest i = view_at d m fs src i"
        "changes_only (region dest n \<union> frames E d) (mem (w\<lparr>mem := m1\<rparr>)) m'"
      and run: "\<forall>s fuel k0. istream_inv s \<longrightarrow> input s = concat (map part [Suc j..<nfields fs]) \<longrightarrow>
        length (input s) \<le> fuel \<longrightarrow> k0 < nfields fs \<longrightarrow>
        (\<exists>k1 < nfields fs. decode_loop fuel E (calls_at d E) fcs (l\<lparr>the_iter := iter_at fs dest k0\<rparr>) (s, w\<lparr>mem := m1\<rparr>) =
          (Some (l\<lparr>the_iter := iter_at fs dest k1\<rparr>), adv (length (input s)) s, w\<lparr>mem := m1, mem := m'\<rparr>))"
      by blast
    have "\<exists>k1 < nfields fs. decode_loop fuel E (calls_at d E) fcs (l\<lparr>the_iter := iter_at fs dest k0\<rparr>) (s, w) =
          (Some (l\<lparr>the_iter := iter_at fs dest k1\<rparr>), adv (length (input s)) s, w\<lparr>mem := m'\<rparr>)"
      if s: "istream_inv s" "input s = concat (map part [j..<nfields fs])" "length (input s) \<le> fuel" "k0 < nfields fs"
      for s fuel k0
    proof -
      let ?rest = "concat (map part [Suc j..<nfields fs])" and ?n = "length (part j)"
      have xs: "input s = part j @ ?rest" using s(2) upt by simp
      have "part j \<noteq> []" using wt(2) by (auto simp: tag_bytes_def varint_bytes.simps)
      then obtain fuel' where fuel: "fuel = Suc fuel'" "length ?rest \<le> fuel'"
        using s(3) xs by (cases fuel; cases "part j") auto
      have n: "?n \<le> length (input s)" using xs by simp
      have rest: "input (adv ?n s) = ?rest" using istream.rest_adv [OF s(1) n] xs by simp
      have join: "adv (length ?rest) (adv ?n s) = adv (length (input s)) s"
        using istream.adv_adv [OF s(1), of ?n "length ?rest"] xs by simp
      have "decode_loop fuel E (calls_at d E) fcs (l\<lparr>the_iter := iter_at fs dest k0\<rparr>) (s, w) =
          decode_loop fuel' E (calls_at d E) fcs (l\<lparr>the_iter := iter_at fs dest j\<rparr>) (adv ?n s, w\<lparr>mem := m1\<rparr>)"
        using loop_step [OF pl(1) j s(4) np wt(1) l m1(1) s(1), of ?rest fuel' fcs] xs wt(2) fuel(1) by simp
      then show ?thesis
        using run [rule_format, OF istream.valid_adv [OF s(1) n] rest _ j, of fuel'] fuel(2) rest join by simp
    qed
    moreover have "changes_only (region dest n \<union> frames E d) (mem w) m'"
      using m'(2) m1(3) footprint_within [OF lay j, of dest] by (auto simp: changes_only_def)
    ultimately show ?thesis using m'(1) by blast
  qed
qed

section \<open>Whole messages\<close>

lemma plain_not_required:
  "plain (Suc d) n fs \<Longrightarrow> k < nfields fs \<Longrightarrow> PB_HTYPE (f_type (field_at fs k)) \<noteq> PB_HTYPE_REQUIRED"
  using plain_field_at [of d n fs k] by (auto simp: plain_field_def Let_def split: if_splits)

lemma plain_required_before:
  assumes "plain (Suc d) n fs"
  shows "k \<le> nfields fs \<Longrightarrow> required_before fs k = 0"
proof (induction k)
  case (Suc k)
  then show ?case
    using assms plain_not_required [OF assms, of k] by (simp add: required_before_Suc)
qed (simp add: required_before_def)

lemma iter_at_required [simp]: "required_field_index (iter_at fs dest k) = of_nat (required_before fs k)"
  by (simp add: iter_at_def)

lemma scan_required_plain:
  assumes pl: "plain (Suc d) n fs"
  shows "k < nfields fs \<Longrightarrow> scan_required (iter_at fs dest k) =
    (0, f_type (field_at fs (nfields fs - 1)), iter_at fs dest 0)"
proof (induction "nfields fs - k" arbitrary: k)
  case (Suc r)
  have wf: "wf_fields fs" using pl by simp
  show ?case
  proof (cases "Suc k < nfields fs")
    case True
    then show ?thesis
      using Suc.hyps(1) [of "Suc k"] Suc.hyps(2) iter_next_at [OF wf Suc.prems]
      by (simp add: scan_required.simps [of "iter_at fs dest k"])
  next
    case False
    then have "k = nfields fs - 1" using Suc.prems by simp
    then show ?thesis
      using False iter_next_at [OF wf Suc.prems] plain_required_before [OF pl, of k]
      by (subst scan_required.simps) simp
  qed
qed simp

lemma required_count_plain:
  assumes pl: "plain (Suc d) n fs" and "k < nfields fs \<or> k = 0"
  shows "required_count (iter_at fs dest k) = 0"
proof (cases "k < nfields fs")
  case True
  then show ?thesis
    using plain_not_required [OF pl, of "nfields fs - 1"]
    by (simp add: required_count_def scan_required_plain [OF pl True])
next
  case False
  have wf: "wf_fields fs" using pl by simp
  have "nfields fs = 0" "k = 0" using False assms(2) by auto
  then show ?thesis
    using wf iter_next_empty [OF wf, of dest] field_at_end [OF wf] plain_required_before [OF pl, of 0]
    by (simp add: required_count_def scan_required.simps [of "iter_at fs dest 0"])
qed

lemma concat_part_length: "k \<in> set ks \<Longrightarrow> length (part k) \<le> length (concat (map part ks))"
  by (induction ks) auto

lemma decodes_at_Suc:
  assumes IH: "decodes_at E' E d m"
  shows "decodes_at E' E (Suc d) m"
  unfolding decodes_at_def
proof (intro allI impI)
  fix n fs src dest and w :: "'b world" and bs
  assume pl: "plain (Suc d) n fs" "n \<le> 2 ^ 64" and ref: "encode_ref (Suc d) E' m fs src = Bytes bs"
    and len: "length bs < 2 ^ 32" and free: "list_all pointer_free (view (Suc d) m fs src)"
    and clean: "clean (Suc d) (mem w) fs dest" and fr: "frames E (Suc d) \<inter> region dest n = {}"
  have wf: "wf_fields fs" and lay: "layout_ok n fs" using pl(1) by simp_all
  let ?fcs = "local_addr E d" and ?l = "\<lparr>fields_seen = [0, 0], extension_range_start = 0,
               the_iter = iter_at fs dest 0, fixed_count_field = None\<rparr>"
  let ?w = "put32 ?fcs 0 w"
  have frd: "frames E d \<inter> region dest n = {}" and fcs: "region ?fcs 4 \<inter> region dest n = {}"
    using fr by (auto simp: frames_Suc)
  have ch: "changes_only (region ?fcs 4) (mem w) (mem ?w)"
    by (simp add: put32_mem changes_store32)
  have "agree (footprint fs dest k) (mem w) (mem ?w)" if "k < nfields fs" for k
    using footprint_within [OF lay that, of dest] fcs by (intro changes_only_agree [OF ch]) auto
  then have cl: "\<forall>k < nfields fs. clean_at d (mem ?w) fs dest k"
    using clean clean_at_cong [OF pl(1)] unfolding clean_Suc by blast
  obtain part where part: "\<And>k. k < nfields fs \<Longrightarrow> field_part E' d m fs src k = Bytes (part k)"
      "bs = concat (map part [0..<nfields fs])"
    using encode_ref_parts [OF pl(1) ref] by blast
  have small: "length (part k) < 2 ^ 32" if "k < nfields fs" for k
    using concat_part_length [of k "[0..<nfields fs]" part] that len part(2) by simp
  have pf: "pointer_free (view_at d m fs src k)" if "k < nfields fs" for k
    using free that unfolding view_Suc by (simp add: list_all_iff)
  have init: "snd (pb_field_iter_begin fs dest) = iter_at fs dest 0"
    using wf by (simp add: iter_begin_at)
  have finish: "pb_decode_noinit (Suc d) E fs dest (s, w) = (Some (), s', w')"
    if "decode_loop (unat (bytes_left s)) E (calls_at d E) ?fcs ?l (s, ?w) =
        (Some (?l\<lparr>the_iter := iter_at fs dest k\<rparr>), s', w')" "k < nfields fs \<or> k = 0" for s s' w' k
  proof -
    have "decode_loop (unat (bytes_left s)) E
        \<lparr>call_decode = decode_top d E (pb_decode_noinit d E), call_noinit = pb_decode_noinit d E,
         call_defaults = pb_message_set_to_defaults d E, call_release = release_field (Suc d) E\<rparr> ?fcs ?l (s, ?w) =
        (Some (?l\<lparr>the_iter := iter_at fs dest k\<rparr>), s', w')"
      using that(1) unfolding calls_at_def .
    then show ?thesis
      using required_count_plain [OF pl(1) that(2), of dest]
      by (simp add: decode_noinit_def Let_def init bindo_def exec_def all_seen_def del: release_field.simps)
  qed
  show "\<exists>m'. takes_all (pb_decode_noinit (Suc d) E fs dest) w bs () (w\<lparr>mem := m'\<rparr>) \<and>
      view (Suc d) m' fs dest = view (Suc d) m fs src \<and>
      changes_only (region dest n \<union> frames E (Suc d)) (mem w) m'"
  proof (cases "nfields fs = 0")
    case True
    then have "bs = []" using part(2) by simp
    have "pb_decode_noinit (Suc d) E fs dest (s, w) = (Some (), s, ?w)" if "istream_inv s" "input s = []" for s
      using that length_input [of s] by (intro finish [of _ 0]) (simp_all add: unat_eq_0)
    then have "takes_all (pb_decode_noinit (Suc d) E fs dest) w bs () ?w"
      using \<open>bs = []\<close> by (simp add: takes_all_def istream.adv_0 del: pb_decode_noinit.simps)
    moreover have "changes_only (region dest n \<union> frames E (Suc d)) (mem w) (mem ?w)"
      using ch by (auto simp: changes_only_def frames_Suc)
    ultimately show ?thesis
      using True by (intro exI [of _ "mem ?w"]) (simp add: put32_mem)
  next
    case False
    have l0: "fixed_count_field ?l = None" and v0: "\<forall>i < 0. view_at d (mem ?w) fs dest i = view_at d m fs src i"
      and c0: "\<forall>i < nfields fs. 0 \<le> i \<longrightarrow> clean_at d (mem ?w) fs dest i"
      using cl by simp_all
    from loop_takes [OF IH pl conjI [OF part(1) small] pf frd l0 le0 v0 c0, of ?fcs]
    obtain m' where m': "\<forall>i < nfields fs. view_at d m' fs dest i = view_at d m fs src i"
        "changes_only (region dest n \<union> frames E d) (mem ?w) m'"
      and run: "\<forall>s fuel k0. istream_inv s \<longrightarrow> input s = concat (map part [0..<nfields fs]) \<longrightarrow>
        length (input s) \<le> fuel \<longrightarrow> k0 < nfields fs \<longrightarrow>
        (\<exists>k1 < nfields fs. decode_loop fuel E (calls_at d E) ?fcs (?l\<lparr>the_iter := iter_at fs dest k0\<rparr>) (s, ?w) =
          (Some (?l\<lparr>the_iter := iter_at fs dest k1\<rparr>), adv (length (input s)) s, ?w\<lparr>mem := m'\<rparr>))"
      by blast
    have "pb_decode_noinit (Suc d) E fs dest (s, w) = (Some (), adv (length bs) s, w\<lparr>mem := m'\<rparr>)"
      if s: "istream_inv s" "input s = bs" for s
    proof -
      obtain k1 where k1: "k1 < nfields fs" "decode_loop (unat (bytes_left s)) E (calls_at d E) ?fcs ?l (s, ?w) =
          (Some (?l\<lparr>the_iter := iter_at fs dest k1\<rparr>), adv (length (input s)) s, ?w\<lparr>mem := m'\<rparr>)"
        using run [rule_format, of s "unat (bytes_left s)" 0] s part(2) False length_input [OF s(1)] by auto
      from finish [OF k1(2)] k1(1) s(2) show ?thesis by (simp add: put32_mem)
    qed
    then have "takes_all (pb_decode_noinit (Suc d) E fs dest) w bs () (w\<lparr>mem := m'\<rparr>)"
      by (simp add: takes_all_def)
    moreover have "view (Suc d) m' fs dest = view (Suc d) m fs src"
      using m'(1) unfolding view_Suc by simp
    moreover have "changes_only (region dest n \<union> frames E (Suc d)) (mem w) m'"
      using m'(2) ch by (auto simp: changes_only_def frames_Suc)
    ultimately show ?thesis by blast
  qed
qed

lemma decodes_at: "decodes_at E' E d m"
proof (induction d)
  case 0
  show ?case by (simp add: decodes_at_def)
qed (rule decodes_at_Suc)

lemma pb_decode_takes:
  fixes E :: "'u env"
  assumes pl: "plain d n fs" "n \<le> 2 ^ 64" and ref: "encode_ref d E' m fs src = Bytes bs" "length bs < 2 ^ 32"
    and free: "list_all pointer_free (view d m fs src)" and fr: "frames E d \<inter> region dest n = {}"
  shows "\<exists>m'. takes_all (pb_decode d E fs dest) w bs () (w\<lparr>mem := m'\<rparr>) \<and>
    view d m' fs dest = view d m fs src \<and> changes_only (region dest n \<union> frames E d) (mem w) m'"
proof -
  obtain m1 where m1: "pb_message_set_to_defaults d E fs dest w = w\<lparr>mem := m1\<rparr>" "clean d m1 fs dest"
      "changes_only (region dest n) (mem w) m1"
    using message_defaults [OF pl] by blast
  obtain m' where m': "takes_all (pb_decode_noinit d E fs dest) (w\<lparr>mem := m1\<rparr>) bs () (w\<lparr>mem := m1\<rparr>\<lparr>mem := m'\<rparr>)"
      "view d m' fs dest = view d m fs src" "changes_only (region dest n \<union> frames E d) m1 m'"
    using decodes_atD [OF decodes_at [of E' E d m] pl ref free, of "w\<lparr>mem := m1\<rparr>" dest] m1(2) fr by auto
  have "takes_all (pb_decode d E fs dest) w bs () (w\<lparr>mem := m'\<rparr>)"
    using m'(1) m1(1) by (simp add: takes_all_def pb_decode_def decode_top_def)
  moreover have "changes_only (region dest n \<union> frames E d) (mem w) m'"
    using m'(3) m1(3) by (auto simp: changes_only_def)
  ultimately show ?thesis using m'(2) by blast
qed

end
