(* ===== verification/PbLayout.thy ===== *)
theory PbLayout
  imports PbTypes
begin

text \<open>
  The macros of \<open>pb.h\<close> that compute a field descriptor from a C structure, over a model of the layout
  of structures on the target: every member at the next offset its alignment allows, the size
  rounded up to the alignment.
\<close>

section \<open>C types\<close>

text \<open>
  \<open>C32\<close> is \<open>int32_t\<close>, \<open>pb_size_t\<close> and every \<open>enum\<close>, \<open>C64\<close> is \<open>int64_t\<close>, \<open>CBytes\<close> is \<open>pb_bytes_array_t\<close>
  (\<open>{ pb_size_t size; pb_byte_t bytes[1]; }\<close>).
\<close>

datatype ctype =
    CBool
  | C32
  | C64
  | CBytes
  | CPtr ctype
  | CArray nat ctype
  | CStruct "(string \<times> ctype) list"

definition round_up :: "nat \<Rightarrow> nat \<Rightarrow> nat" where
  "round_up n a = (n + a - 1) div a * a"

fun alignof :: "ctype \<Rightarrow> nat" where
  "alignof CBool = 1"
| "alignof C32 = 4"
| "alignof C64 = 8"
| "alignof CBytes = 4"
| "alignof (CPtr t) = 8"
| "alignof (CArray n t) = alignof t"
| "alignof (CStruct []) = 1"
| "alignof (CStruct ((m, t) # ms)) = max (alignof t) (alignof (CStruct ms))"

text \<open>\<open>end_at n ms\<close>: where the members \<open>ms\<close> end when they start at offset \<open>n\<close>.\<close>

fun sizeof :: "ctype \<Rightarrow> nat" and end_at :: "nat \<Rightarrow> (string \<times> ctype) list \<Rightarrow> nat" where
  "sizeof CBool = 1"
| "sizeof C32 = 4"
| "sizeof C64 = 8"
| "sizeof CBytes = 8"
| "sizeof (CPtr t) = 8"
| "sizeof (CArray n t) = n * sizeof t"
| "sizeof (CStruct ms) = round_up (end_at 0 ms) (alignof (CStruct ms))"
| "end_at n [] = n"
| "end_at n ((m, t) # ms) = end_at (round_up n (alignof t) + sizeof t) ms"

section \<open>Members\<close>

fun members :: "ctype \<Rightarrow> (string \<times> ctype) list" where
  "members (CStruct ms) = ms"
| "members _ = []"

text \<open>
  Names are compared character by character, so that evaluation stops at the first difference.
\<close>

fun same_name :: "string \<Rightarrow> string \<Rightarrow> bool" where
  "same_name [] [] = True"
| "same_name (c # cs) (d # ds) = (if c = d then same_name cs ds else False)"
| "same_name _ _ = False"

lemma same_name_eq: "same_name a b \<longleftrightarrow> a = b"
  by (induction a b rule: same_name.induct) auto

text \<open>\<open>layout st\<close>: every member with its offset and its type.\<close>

fun place_from :: "nat \<Rightarrow> (string \<times> ctype) list \<Rightarrow> (string \<times> nat \<times> ctype) list" where
  "place_from n [] = []"
| "place_from n ((m, t) # ms) =
     (let o' = round_up n (alignof t) in (m, o', t) # place_from (o' + sizeof t) ms)"

definition layout :: "ctype \<Rightarrow> (string \<times> nat \<times> ctype) list" where
  "layout st = place_from 0 (members st)"

fun find_member :: "(string \<times> nat \<times> ctype) list \<Rightarrow> string \<Rightarrow> (nat \<times> ctype) option" where
  "find_member [] m = None"
| "find_member ((m', e) # es) m = (if same_name m m' then Some e else find_member es m)"

text \<open>A name that is no member does not compile; it gives 0 here, and the arrays use none.\<close>

definition offsetof :: "ctype \<Rightarrow> string \<Rightarrow> nat" where
  "offsetof st m = (case find_member (layout st) m of None \<Rightarrow> 0 | Some (n, t) \<Rightarrow> n)"

definition member_type :: "ctype \<Rightarrow> string \<Rightarrow> ctype" where
  "member_type st m = (case find_member (layout st) m of None \<Rightarrow> CStruct [] | Some (n, t) \<Rightarrow> t)"

definition pb_membersize :: "ctype \<Rightarrow> string \<Rightarrow> nat" where
  "pb_membersize st m = sizeof (member_type st m)"

text \<open>\<open>pb_membersize(st, m[0])\<close>\<close>

definition element_size :: "ctype \<Rightarrow> string \<Rightarrow> nat" where
  "element_size st m = (case member_type st m of CPtr t \<Rightarrow> sizeof t | CArray n t \<Rightarrow> sizeof t | _ \<Rightarrow> 0)"

definition pb_arraysize :: "ctype \<Rightarrow> string \<Rightarrow> nat" where
  "pb_arraysize st m = pb_membersize st m div element_size st m"

definition pb_delta :: "ctype \<Rightarrow> string \<Rightarrow> string \<Rightarrow> pb_ssize_t" where
  "pb_delta st m1 m2 = of_int (int (offsetof st m1) - int (offsetof st m2))"

section \<open>Field macros\<close>

datatype placement = FIRST | OTHER | UNION

definition PB_DATAOFFSET :: "placement \<Rightarrow> ctype \<Rightarrow> string \<Rightarrow> string \<Rightarrow> pb_size_t" where
  "PB_DATAOFFSET pl st m1 m2 =
     (case pl of
        FIRST \<Rightarrow> of_nat (offsetof st m1)
      | OTHER \<Rightarrow> of_int (int (offsetof st m1) - int (offsetof st m2) - int (pb_membersize st m2))
      | UNION \<Rightarrow> PB_SIZE_MAX)"

datatype ptype =
    BOOL | BYTES | DOUBLE | ENUM | UENUM | FIXED32 | FIXED64 | FLOAT | INT32 | INT64 | MESSAGE
  | SFIXED32 | SFIXED64 | SINT32 | SINT64 | STRING | UINT32 | UINT64 | EXTENSION | FIXED_LENGTH_BYTES

definition PB_LTYPE_MAP :: "ptype \<Rightarrow> u8" where
  "PB_LTYPE_MAP t =
     (case t of
        BOOL \<Rightarrow> PB_LTYPE_BOOL | BYTES \<Rightarrow> PB_LTYPE_BYTES | DOUBLE \<Rightarrow> PB_LTYPE_FIXED64
      | ENUM \<Rightarrow> PB_LTYPE_VARINT | UENUM \<Rightarrow> PB_LTYPE_UVARINT | FIXED32 \<Rightarrow> PB_LTYPE_FIXED32
      | FIXED64 \<Rightarrow> PB_LTYPE_FIXED64 | FLOAT \<Rightarrow> PB_LTYPE_FIXED32 | INT32 \<Rightarrow> PB_LTYPE_VARINT
      | INT64 \<Rightarrow> PB_LTYPE_VARINT | MESSAGE \<Rightarrow> PB_LTYPE_SUBMESSAGE | SFIXED32 \<Rightarrow> PB_LTYPE_FIXED32
      | SFIXED64 \<Rightarrow> PB_LTYPE_FIXED64 | SINT32 \<Rightarrow> PB_LTYPE_SVARINT | SINT64 \<Rightarrow> PB_LTYPE_SVARINT
      | STRING \<Rightarrow> PB_LTYPE_STRING | UINT32 \<Rightarrow> PB_LTYPE_UVARINT | UINT64 \<Rightarrow> PB_LTYPE_UVARINT
      | EXTENSION \<Rightarrow> PB_LTYPE_EXTENSION | FIXED_LENGTH_BYTES \<Rightarrow> PB_LTYPE_FIXED_LENGTH_BYTES)"

datatype rules = REQUIRED | OPTIONAL | SINGULAR | REPEATED | OPTEXT
datatype allocation = STATIC | POINTER | CALLBACK

text \<open>
  The macros \<open>PB_<rules>_<allocation>(tag, st, m, fd, ltype, ptr)\<close>; \<open>fd\<close> is the data offset.
\<close>

definition PB_STATIC ::
  "rules \<Rightarrow> u32 \<Rightarrow> ctype \<Rightarrow> string \<Rightarrow> pb_size_t \<Rightarrow> u8 \<Rightarrow> pb_ptr \<Rightarrow> pb_field" where
  "PB_STATIC r tag st m fd ltype p =
     (let whole = of_nat (pb_membersize st m) in
      case r of
        REQUIRED \<Rightarrow> PbField tag (PB_ATYPE_STATIC OR PB_HTYPE_REQUIRED OR ltype) fd 0 whole 0 p
      | OPTIONAL \<Rightarrow>
          PbField tag (PB_ATYPE_STATIC OR PB_HTYPE_OPTIONAL OR ltype) fd (pb_delta st (''has_'' @ m) m) whole 0 p
      | SINGULAR \<Rightarrow> PbField tag (PB_ATYPE_STATIC OR PB_HTYPE_OPTIONAL OR ltype) fd 0 whole 0 p
      | REPEATED \<Rightarrow>
          PbField tag (PB_ATYPE_STATIC OR PB_HTYPE_REPEATED OR ltype) fd (pb_delta st (m @ ''_count'') m)
            (of_nat (element_size st m)) (of_nat (pb_arraysize st m)) p
      | OPTEXT \<Rightarrow> PbField tag (PB_ATYPE_STATIC OR PB_HTYPE_REQUIRED OR ltype) 0 0 whole 0 p)"

definition PB_POINTER ::
  "rules \<Rightarrow> u32 \<Rightarrow> ctype \<Rightarrow> string \<Rightarrow> pb_size_t \<Rightarrow> u8 \<Rightarrow> pb_ptr \<Rightarrow> pb_field" where
  "PB_POINTER r tag st m fd ltype p =
     (let elem = of_nat (element_size st m) in
      case r of
        REQUIRED \<Rightarrow> PbField tag (PB_ATYPE_POINTER OR PB_HTYPE_REQUIRED OR ltype) fd 0 elem 0 p
      | OPTIONAL \<Rightarrow> PbField tag (PB_ATYPE_POINTER OR PB_HTYPE_OPTIONAL OR ltype) fd 0 elem 0 p
      | SINGULAR \<Rightarrow> PbField tag (PB_ATYPE_POINTER OR PB_HTYPE_OPTIONAL OR ltype) fd 0 elem 0 p
      | REPEATED \<Rightarrow>
          PbField tag (PB_ATYPE_POINTER OR PB_HTYPE_REPEATED OR ltype) fd (pb_delta st (m @ ''_count'') m) elem 0 p
      | OPTEXT \<Rightarrow> PbField tag (PB_ATYPE_POINTER OR PB_HTYPE_OPTIONAL OR ltype) fd 0 elem 0 p)"

definition PB_CALLBACK ::
  "rules \<Rightarrow> u32 \<Rightarrow> ctype \<Rightarrow> string \<Rightarrow> pb_size_t \<Rightarrow> u8 \<Rightarrow> pb_ptr \<Rightarrow> pb_field" where
  "PB_CALLBACK r tag st m fd ltype p =
     (let h = (case r of
                 REQUIRED \<Rightarrow> PB_HTYPE_REQUIRED | OPTIONAL \<Rightarrow> PB_HTYPE_OPTIONAL | SINGULAR \<Rightarrow> PB_HTYPE_OPTIONAL
               | REPEATED \<Rightarrow> PB_HTYPE_REPEATED | OPTEXT \<Rightarrow> PB_HTYPE_OPTIONAL)
      in PbField tag (PB_ATYPE_CALLBACK OR h OR ltype) fd 0 (of_nat (pb_membersize st m)) 0 p)"

definition PB_FIELD ::
  "u32 \<Rightarrow> ptype \<Rightarrow> rules \<Rightarrow> allocation \<Rightarrow> placement \<Rightarrow> ctype \<Rightarrow> string \<Rightarrow> string \<Rightarrow> pb_ptr \<Rightarrow> pb_field" where
  "PB_FIELD tag t r a pl message field prevfield p =
     (case a of STATIC \<Rightarrow> PB_STATIC | POINTER \<Rightarrow> PB_POINTER | CALLBACK \<Rightarrow> PB_CALLBACK) r tag message field
       (PB_DATAOFFSET pl message field prevfield) (PB_LTYPE_MAP t) p"

end
