(* ===== verification/CctMessages.thy ===== *)
theory CctMessages
  imports PbLayout
begin

text \<open>
  The messages of \<open>cct.nanopb.h\<close> and \<open>cct.nanopb.c\<close>, in which log events are sent to the transport
  backend and its answer comes back: the structures, the default values and the field descriptors,
  in the order in which they refer to each other.
\<close>

section \<open>Structures\<close>

definition gdt_cct_IosClientInfo :: ctype where
  "gdt_cct_IosClientInfo = CStruct
     [(''os_major_version'', CPtr CBytes),
      (''os_full_version'', CPtr CBytes),
      (''application_build'', CPtr CBytes),
      (''country'', CPtr CBytes),
      (''model'', CPtr CBytes),
      (''language_code'', CPtr CBytes),
      (''application_bundle_id'', CPtr CBytes)]"

definition gdt_cct_MacClientInfo :: ctype where
  "gdt_cct_MacClientInfo = CStruct
     [(''os_major_version'', CPtr CBytes),
      (''os_full_version'', CPtr CBytes),
      (''application_build'', CPtr CBytes),
      (''application_bundle_id'', CPtr CBytes)]"

definition gdt_cct_ClientInfo :: ctype where
  "gdt_cct_ClientInfo = CStruct
     [(''has_client_type'', CBool),
      (''client_type'', C32),
      (''has_ios_client_info'', CBool),
      (''ios_client_info'', gdt_cct_IosClientInfo),
      (''has_mac_client_info'', CBool),
      (''mac_client_info'', gdt_cct_MacClientInfo)]"

definition gdt_cct_NetworkConnectionInfo :: ctype where
  "gdt_cct_NetworkConnectionInfo = CStruct
     [(''has_network_type'', CBool),
      (''network_type'', C32),
      (''has_mobile_subtype'', CBool),
      (''mobile_subtype'', C32)]"

definition gdt_cct_LogEvent :: ctype where
  "gdt_cct_LogEvent = CStruct
     [(''has_event_time_ms'', CBool),
      (''event_time_ms'', C64),
      (''source_extension'', CPtr CBytes),
      (''has_event_code'', CBool),
      (''event_code'', C32),
      (''has_timezone_offset_seconds'', CBool),
      (''timezone_offset_seconds'', C64),
      (''has_event_uptime_ms'', CBool),
      (''event_uptime_ms'', C64),
      (''has_network_connection_info'', CBool),
      (''network_connection_info'', gdt_cct_NetworkConnectionInfo)]"

definition gdt_cct_LogRequest :: ctype where
  "gdt_cct_LogRequest = CStruct
     [(''has_client_info'', CBool),
      (''client_info'', gdt_cct_ClientInfo),
      (''has_log_source'', CBool),
      (''log_source'', C32),
      (''log_event_count'', C32),
      (''log_event'', CPtr gdt_cct_LogEvent),
      (''has_request_time_ms'', CBool),
      (''request_time_ms'', C64),
      (''has_request_uptime_ms'', CBool),
      (''request_uptime_ms'', C64),
      (''has_qos_tier'', CBool),
      (''qos_tier'', C32)]"

definition gdt_cct_BatchedLogRequest :: ctype where
  "gdt_cct_BatchedLogRequest = CStruct
     [(''log_request_count'', C32),
      (''log_request'', CPtr gdt_cct_LogRequest)]"

definition gdt_cct_QosTierConfiguration :: ctype where
  "gdt_cct_QosTierConfiguration = CStruct
     [(''has_qos_tier'', CBool),
      (''qos_tier'', C32),
      (''has_log_source'', CBool),
      (''log_source'', C32)]"

definition gdt_cct_QosTiersOverride :: ctype where
  "gdt_cct_QosTiersOverride = CStruct
     [(''qos_tier_configuration_count'', C32),
      (''qos_tier_configuration'', CPtr gdt_cct_QosTierConfiguration),
      (''has_qos_tier_fingerprint'', CBool),
      (''qos_tier_fingerprint'', C64)]"

definition gdt_cct_LogResponse :: ctype where
  "gdt_cct_LogResponse = CStruct
     [(''has_next_request_wait_millis'', CBool),
      (''next_request_wait_millis'', C64),
      (''has_qos_tier'', CBool),
      (''qos_tier'', gdt_cct_QosTiersOverride)]"

section \<open>Default values\<close>

text \<open>A default value is the object the descriptor points to: the four bytes of an \<open>enum\<close> or \<open>int32_t\<close>.\<close>

definition gdt_cct_NetworkConnectionInfo_network_type_default :: "u8 list" where
  "gdt_cct_NetworkConnectionInfo_network_type_default = bytes_le 4 (- 1 :: u32)"

definition gdt_cct_NetworkConnectionInfo_mobile_subtype_default :: "u8 list" where
  "gdt_cct_NetworkConnectionInfo_mobile_subtype_default = bytes_le 4 (0 :: u32)"

definition gdt_cct_LogRequest_qos_tier_default :: "u8 list" where
  "gdt_cct_LogRequest_qos_tier_default = bytes_le 4 (0 :: u32)"

definition gdt_cct_QosTierConfiguration_log_source_default :: "u8 list" where
  "gdt_cct_QosTierConfiguration_log_source_default = bytes_le 4 (0 :: u32)"

section \<open>Field descriptors\<close>

definition gdt_cct_IosClientInfo_fields :: "pb_field list" where
  "gdt_cct_IosClientInfo_fields =
     [PB_FIELD 3 BYTES OPTIONAL POINTER FIRST gdt_cct_IosClientInfo ''os_major_version'' ''os_major_version'' PtrNull,
      PB_FIELD 4 BYTES OPTIONAL POINTER OTHER gdt_cct_IosClientInfo ''os_full_version'' ''os_major_version'' PtrNull,
      PB_FIELD 5 BYTES OPTIONAL POINTER OTHER gdt_cct_IosClientInfo ''application_build'' ''os_full_version'' PtrNull,
      PB_FIELD 6 BYTES OPTIONAL POINTER OTHER gdt_cct_IosClientInfo ''country'' ''application_build'' PtrNull,
      PB_FIELD 7 BYTES OPTIONAL POINTER OTHER gdt_cct_IosClientInfo ''model'' ''country'' PtrNull,
      PB_FIELD 8 BYTES OPTIONAL POINTER OTHER gdt_cct_IosClientInfo ''language_code'' ''model'' PtrNull,
      PB_FIELD 11 BYTES OPTIONAL POINTER OTHER gdt_cct_IosClientInfo ''application_bundle_id'' ''language_code'' PtrNull,
      PB_LAST_FIELD]"

definition gdt_cct_MacClientInfo_fields :: "pb_field list" where
  "gdt_cct_MacClientInfo_fields =
     [PB_FIELD 1 BYTES OPTIONAL POINTER FIRST gdt_cct_MacClientInfo ''os_major_version'' ''os_major_version'' PtrNull,
      PB_FIELD 2 BYTES OPTIONAL POINTER OTHER gdt_cct_MacClientInfo ''os_full_version'' ''os_major_version'' PtrNull,
      PB_FIELD 3 BYTES OPTIONAL POINTER OTHER gdt_cct_MacClientInfo ''application_build'' ''os_full_version'' PtrNull,
      PB_FIELD 7 BYTES OPTIONAL POINTER OTHER gdt_cct_MacClientInfo ''application_bundle_id'' ''application_build'' PtrNull,
      PB_LAST_FIELD]"

definition gdt_cct_ClientInfo_fields :: "pb_field list" where
  "gdt_cct_ClientInfo_fields =
     [PB_FIELD 1 UENUM OPTIONAL STATIC FIRST gdt_cct_ClientInfo ''client_type'' ''client_type'' PtrNull,
      PB_FIELD 4 MESSAGE OPTIONAL STATIC OTHER gdt_cct_ClientInfo ''ios_client_info'' ''client_type'' (PtrFields gdt_cct_IosClientInfo_fields),
      PB_FIELD 13 MESSAGE OPTIONAL STATIC OTHER gdt_cct_ClientInfo ''mac_client_info'' ''ios_client_info'' (PtrFields gdt_cct_MacClientInfo_fields),
      PB_LAST_FIELD]"

definition gdt_cct_NetworkConnectionInfo_fields :: "pb_field list" where
  "gdt_cct_NetworkConnectionInfo_fields =
     [PB_FIELD 1 ENUM OPTIONAL STATIC FIRST gdt_cct_NetworkConnectionInfo ''network_type'' ''network_type'' (PtrValue gdt_cct_NetworkConnectionInfo_network_type_default),
      PB_FIELD 2 UENUM OPTIONAL STATIC OTHER gdt_cct_NetworkConnectionInfo ''mobile_subtype'' ''network_type'' (PtrValue gdt_cct_NetworkConnectionInfo_mobile_subtype_default),
      PB_LAST_FIELD]"

definition gdt_cct_LogEvent_fields :: "pb_field list" where
  "gdt_cct_LogEvent_fields =
     [PB_FIELD 1 INT64 OPTIONAL STATIC FIRST gdt_cct_LogEvent ''event_time_ms'' ''event_time_ms'' PtrNull,
      PB_FIELD 6 BYTES OPTIONAL POINTER OTHER gdt_cct_LogEvent ''source_extension'' ''event_time_ms'' PtrNull,
      PB_FIELD 11 INT32 OPTIONAL STATIC OTHER gdt_cct_LogEvent ''event_code'' ''source_extension'' PtrNull,
      PB_FIELD 15 SINT64 OPTIONAL STATIC OTHER gdt_cct_LogEvent ''timezone_offset_seconds'' ''event_code'' PtrNull,
      PB_FIELD 17 INT64 OPTIONAL STATIC OTHER gdt_cct_LogEvent ''event_uptime_ms'' ''timezone_offset_seconds'' PtrNull,
      PB_FIELD 23 MESSAGE OPTIONAL STATIC OTHER gdt_cct_LogEvent ''network_connection_info'' ''event_uptime_ms'' (PtrFields gdt_cct_NetworkConnectionInfo_fields),
      PB_LAST_FIELD]"

definition gdt_cct_LogRequest_fields :: "pb_field list" where
  "gdt_cct_LogRequest_fields =
     [PB_FIELD 1 MESSAGE OPTIONAL STATIC FIRST gdt_cct_LogRequest ''client_info'' ''client_info'' (PtrFields gdt_cct_ClientInfo_fields),
      PB_FIELD 2 INT32 OPTIONAL STATIC OTHER gdt_cct_LogRequest ''log_source'' ''client_info'' PtrNull,
      PB_FIELD 3 MESSAGE REPEATED POINTER OTHER gdt_cct_LogRequest ''log_event'' ''log_source'' (PtrFields gdt_cct_LogEvent_fields),
      PB_FIELD 4 INT64 OPTIONAL STATIC OTHER gdt_cct_LogRequest ''request_time_ms'' ''log_event'' PtrNull,
      PB_FIELD 8 INT64 OPTIONAL STATIC OTHER gdt_cct_LogRequest ''request_uptime_ms'' ''request_time_ms'' PtrNull,
      PB_FIELD 9 UENUM OPTIONAL STATIC OTHER gdt_cct_LogRequest ''qos_tier'' ''request_uptime_ms'' (PtrValue gdt_cct_LogRequest_qos_tier_default),
      PB_LAST_FIELD]"

definition gdt_cct_BatchedLogRequest_fields :: "pb_field list" where
  "gdt_cct_BatchedLogRequest_fields =
     [PB_FIELD 1 MESSAGE REPEATED POINTER FIRST gdt_cct_BatchedLogRequest ''log_request'' ''log_request'' (PtrFields gdt_cct_LogRequest_fields),
      PB_LAST_FIELD]"

definition gdt_cct_QosTierConfiguration_fields :: "pb_field list" where
  "gdt_cct_QosTierConfiguration_fields =
     [PB_FIELD 2 UENUM OPTIONAL STATIC FIRST gdt_cct_QosTierConfiguration ''qos_tier'' ''qos_tier'' PtrNull,
      PB_FIELD 3 INT32 OPTIONAL STATIC OTHER gdt_cct_QosTierConfiguration ''log_source'' ''qos_tier'' (PtrValue gdt_cct_QosTierConfiguration_log_source_default),
      PB_LAST_FIELD]"

definition gdt_cct_QosTiersOverride_fields :: "pb_field list" where
  "gdt_cct_QosTiersOverride_fields =
     [PB_FIELD 1 MESSAGE REPEATED POINTER FIRST gdt_cct_QosTiersOverride ''qos_tier_configuration'' ''qos_tier_configuration'' (PtrFields gdt_cct_QosTierConfiguration_fields),
      PB_FIELD 2 INT64 OPTIONAL STATIC OTHER gdt_cct_QosTiersOverride ''qos_tier_fingerprint'' ''qos_tier_configuration'' PtrNull,
      PB_LAST_FIELD]"

definition gdt_cct_LogResponse_fields :: "pb_field list" where
  "gdt_cct_LogResponse_fields =
     [PB_FIELD 1 INT64 OPTIONAL STATIC FIRST gdt_cct_LogResponse ''next_request_wait_millis'' ''next_request_wait_millis'' PtrNull,
      PB_FIELD 3 MESSAGE OPTIONAL STATIC OTHER gdt_cct_LogResponse ''qos_tier'' ''next_request_wait_millis'' (PtrFields gdt_cct_QosTiersOverride_fields),
      PB_LAST_FIELD]"

end
