(* ===== verification/ClientMetrics.thy ===== *)
theory ClientMetrics
  imports PbLayout
begin

text \<open>
  The messages of \<open>client_metrics.nanopb.h\<close> and \<open>client_metrics.nanopb.c\<close>, in proto3 style: fields
  have no presence flag.
\<close>

section \<open>Structures\<close>

definition gdt_client_metrics_LogEventDropped :: ctype where
  "gdt_client_metrics_LogEventDropped = CStruct
     [(''events_dropped_count'', C64),
      (''reason'', C32)]"

definition gdt_client_metrics_LogSourceMetrics :: ctype where
  "gdt_client_metrics_LogSourceMetrics = CStruct
     [(''log_source'', CPtr CBytes),
      (''log_event_dropped_count'', C32),
      (''log_event_dropped'', CPtr gdt_client_metrics_LogEventDropped)]"

definition gdt_client_metrics_StorageMetrics :: ctype where
  "gdt_client_metrics_StorageMetrics = CStruct
     [(''current_cache_size_bytes'', C64),
      (''max_cache_size_bytes'', C64)]"

definition gdt_client_metrics_TimeWindow :: ctype where
  "gdt_client_metrics_TimeWindow = CStruct
     [(''start_ms'', C64),
      (''end_ms'', C64)]"

definition gdt_client_metrics_GlobalMetrics :: ctype where
  "gdt_client_metrics_GlobalMetrics = CStruct
     [(''storage_metrics'', gdt_client_metrics_StorageMetrics)]"

definition gdt_client_metrics_ClientMetrics :: ctype where
  "gdt_client_metrics_ClientMetrics = CStruct
     [(''window'', gdt_client_metrics_TimeWindow),
      (''log_source_metrics_count'', C32),
      (''log_source_metrics'', CPtr gdt_client_metrics_LogSourceMetrics),
      (''global_metrics'', gdt_client_metrics_GlobalMetrics),
      (''app_namespace'', CPtr CBytes)]"

section \<open>Field descriptors\<close>

definition gdt_client_metrics_LogEventDropped_fields :: "pb_field list" where
  "gdt_client_metrics_LogEventDropped_fields =
     [PB_FIELD 1 INT64 SINGULAR STATIC FIRST gdt_client_metrics_LogEventDropped ''events_dropped_count'' ''events_dropped_count'' PtrNull,
      PB_FIELD 3 UENUM SINGULAR STATIC OTHER gdt_client_metrics_LogEventDropped ''reason'' ''events_dropped_count'' PtrNull,
      PB_LAST_FIELD]"

definition gdt_client_metrics_LogSourceMetrics_fields :: "pb_field list" where
  "gdt_client_metrics_LogSourceMetrics_fields =
     [PB_FIELD 1 BYTES SINGULAR POINTER FIRST gdt_client_metrics_LogSourceMetrics ''log_source'' ''log_source'' PtrNull,
      PB_FIELD 2 MESSAGE REPEATED POINTER OTHER gdt_client_metrics_LogSourceMetrics ''log_event_dropped'' ''log_source'' (PtrFields gdt_client_metrics_LogEventDropped_fields),
      PB_LAST_FIELD]"

definition gdt_client_metrics_StorageMetrics_fields :: "pb_field list" where
  "gdt_client_metrics_StorageMetrics_fields =
     [PB_FIELD 1 INT64 SINGULAR STATIC FIRST gdt_client_metrics_StorageMetrics ''current_cache_size_bytes'' ''current_cache_size_bytes'' PtrNull,
      PB_FIELD 2 INT64 SINGULAR STATIC OTHER gdt_client_metrics_StorageMetrics ''max_cache_size_bytes'' ''current_cache_size_bytes'' PtrNull,
      PB_LAST_FIELD]"

definition gdt_client_metrics_TimeWindow_fields :: "pb_field list" where
  "gdt_client_metrics_TimeWindow_fields =
     [PB_FIELD 1 INT64 SINGULAR STATIC FIRST gdt_client_metrics_TimeWindow ''start_ms'' ''start_ms'' PtrNull,
      PB_FIELD 2 INT64 SINGULAR STATIC OTHER gdt_client_metrics_TimeWindow ''end_ms'' ''start_ms'' PtrNull,
      PB_LAST_FIELD]"

definition gdt_client_metrics_GlobalMetrics_fields :: "pb_field list" where
  "gdt_client_metrics_GlobalMetrics_fields =
     [PB_FIELD 1 MESSAGE SINGULAR STATIC FIRST gdt_client_metrics_GlobalMetrics ''storage_metrics'' ''storage_metrics'' (PtrFields gdt_client_metrics_StorageMetrics_fields),
      PB_LAST_FIELD]"

definition gdt_client_metrics_ClientMetrics_fields :: "pb_field list" where
  "gdt_client_metrics_ClientMetrics_fields =
     [PB_FIELD 1 MESSAGE SINGULAR STATIC FIRST gdt_client_metrics_ClientMetrics ''window'' ''window'' (PtrFields gdt_client_metrics_TimeWindow_fields),
      PB_FIELD 2 MESSAGE REPEATED POINTER OTHER gdt_client_metrics_ClientMetrics ''log_source_metrics'' ''window'' (PtrFields gdt_client_metrics_LogSourceMetrics_fields),
      PB_FIELD 3 MESSAGE SINGULAR STATIC OTHER gdt_client_metrics_ClientMetrics ''global_metrics'' ''log_source_metrics'' (PtrFields gdt_client_metrics_GlobalMetrics_fields),
      PB_FIELD 4 BYTES SINGULAR POINTER OTHER gdt_client_metrics_ClientMetrics ''app_namespace'' ''global_metrics'' PtrNull,
      PB_LAST_FIELD]"

end
