(* ===== verification/FirebaseCore.thy ===== *)
theory FirebaseCore
  imports PbLayout
begin

text \<open>
  The one message of \<open>firebasecore.nanopb.h\<close> and \<open>firebasecore.nanopb.c\<close>, the diagnostics record of
  the Firebase SDK.
\<close>

section \<open>Structures\<close>

definition logs_proto_mobilesdk_ios_ICoreConfiguration :: ctype where
  "logs_proto_mobilesdk_ios_ICoreConfiguration = CStruct
     [(''has_configuration_type'', CBool),
      (''configuration_type'', C32),
      (''sdk_service_installed_count'', C32),
      (''sdk_service_installed'', CPtr C32),
      (''device_model'', CPtr CBytes),
      (''app_id'', CPtr CBytes),
      (''bundle_id'', CPtr CBytes),
      (''has_pod_name'', CBool),
      (''pod_name'', C32),
      (''icore_version'', CPtr CBytes),
      (''sdk_version'', CPtr CBytes),
      (''has_sdk_name'', CBool),
      (''sdk_name'', C32),
      (''has_app_count'', CBool),
      (''app_count'', C32),
      (''os_version'', CPtr CBytes),
      (''min_supported_ios_version'', CPtr CBytes),
      (''has_use_default_app'', CBool),
      (''use_default_app'', CBool),
      (''has_deployed_in_app_store'', CBool),
      (''deployed_in_app_store'', CBool),
      (''has_dynamic_framework_count'', CBool),
      (''dynamic_framework_count'', C32),
      (''apple_framework_version'', CPtr CBytes),
      (''has_using_zip_file'', CBool),
      (''using_zip_file'', CBool),
      (''has_deployment_type'', CBool),
      (''deployment_type'', C32),
      (''platform_info'', CPtr CBytes),
      (''has_swizzling_enabled'', CBool),
      (''swizzling_enabled'', CBool),
      (''has_using_gdt'', CBool),
      (''using_gdt'', CBool)]"

section \<open>Field descriptors\<close>

definition logs_proto_mobilesdk_ios_ICoreConfiguration_fields :: "pb_field list" where
  "logs_proto_mobilesdk_ios_ICoreConfiguration_fields =
     [PB_FIELD 1 UENUM OPTIONAL STATIC FIRST logs_proto_mobilesdk_ios_ICoreConfiguration ''configuration_type'' ''configuration_type'' PtrNull,
      PB_FIELD 7 UENUM REPEATED POINTER OTHER logs_proto_mobilesdk_ios_ICoreConfiguration ''sdk_service_installed'' ''configuration_type'' PtrNull,
      PB_FIELD 9 BYTES OPTIONAL POINTER OTHER logs_proto_mobilesdk_ios_ICoreConfiguration ''device_model'' ''sdk_service_installed'' PtrNull,
      PB_FIELD 10 BYTES OPTIONAL POINTER OTHER logs_proto_mobilesdk_ios_ICoreConfiguration ''app_id'' ''device_model'' PtrNull,
      PB_FIELD 12 BYTES OPTIONAL POINTER OTHER logs_proto_mobilesdk_ios_ICoreConfiguration ''bundle_id'' ''app_id'' PtrNull,
      PB_FIELD 16 UENUM OPTIONAL STATIC OTHER logs_proto_mobilesdk_ios_ICoreConfiguration ''pod_name'' ''bundle_id'' PtrNull,
      PB_FIELD 18 BYTES OPTIONAL POINTER OTHER logs_proto_mobilesdk_ios_ICoreConfiguration ''icore_version'' ''pod_name'' PtrNull,
      PB_FIELD 19 BYTES OPTIONAL POINTER OTHER logs_proto_mobilesdk_ios_ICoreConfiguration ''sdk_version'' ''icore_version'' PtrNull,
      PB_FIELD 20 UENUM OPTIONAL STATIC OTHER logs_proto_mobilesdk_ios_ICoreConfiguration ''sdk_name'' ''sdk_version'' PtrNull,
      PB_FIELD 21 INT32 OPTIONAL STATIC OTHER logs_proto_mobilesdk_ios_ICoreConfiguration ''app_count'' ''sdk_name'' PtrNull,
      PB_FIELD 22 BYTES OPTIONAL POINTER OTHER logs_proto_mobilesdk_ios_ICoreConfiguration ''os_version'' ''app_count'' PtrNull,
      PB_FIELD 24 BYTES OPTIONAL POINTER OTHER logs_proto_mobilesdk_ios_ICoreConfiguration ''min_supported_ios_version'' ''os_version'' PtrNull,
      PB_FIELD 25 BOOL OPTIONAL STATIC OTHER logs_proto_mobilesdk_ios_ICoreConfiguration ''use_default_app'' ''min_supported_ios_version'' PtrNull,
      PB_FIELD 26 BOOL OPTIONAL STATIC OTHER logs_proto_mobilesdk_ios_ICoreConfiguration ''deployed_in_app_store'' ''use_default_app'' PtrNull,
      PB_FIELD 27 INT32 OPTIONAL STATIC OTHER logs_proto_mobilesdk_ios_ICoreConfiguration ''dynamic_framework_count'' ''deployed_in_app_store'' PtrNull,
      PB_FIELD 28 BYTES OPTIONAL POINTER OTHER logs_proto_mobilesdk_ios_ICoreConfiguration ''apple_framework_version'' ''dynamic_framework_count'' PtrNull,
      PB_FIELD 29 BOOL OPTIONAL STATIC OTHER logs_proto_mobilesdk_ios_ICoreConfiguration ''using_zip_file'' ''apple_framework_version'' PtrNull,
      PB_FIELD 30 UENUM OPTIONAL STATIC OTHER logs_proto_mobilesdk_ios_ICoreConfiguration ''deployment_type'' ''using_zip_file'' PtrNull,
      PB_FIELD 31 BYTES OPTIONAL POINTER OTHER logs_proto_mobilesdk_ios_ICoreConfiguration ''platform_info'' ''deployment_type'' PtrNull,
      PB_FIELD 33 BOOL OPTIONAL STATIC OTHER logs_proto_mobilesdk_ios_ICoreConfiguration ''swizzling_enabled'' ''platform_info'' PtrNull,
      PB_FIELD 36 BOOL OPTIONAL STATIC OTHER logs_proto_mobilesdk_ios_ICoreConfiguration ''using_gdt'' ''swizzling_enabled'' PtrNull,
      PB_LAST_FIELD]"

end
