(* ===== verification/DescriptorValues.thy ===== *)
theory DescriptorValues
  imports CctMessages ClientMetrics FirebaseCore
begin

text \<open>
  The generated descriptors, evaluated: for every structure its layout and size, for every descriptor
  array the numbers the macros of \<open>pb.h\<close> compute. Everything else about the messages rests on these
  lists.
\<close>

lemmas macro_defs = PB_FIELD_def PB_STATIC_def PB_POINTER_def PB_DATAOFFSET_def PB_LTYPE_MAP_def pb_delta_def
  pb_membersize_def element_size_def member_type_def offsetof_def Let_def

section \<open>Layouts\<close>

lemma layout_gdt_cct_IosClientInfo:
  "layout gdt_cct_IosClientInfo =
     [(''os_major_version'', 0, CPtr CBytes),
      (''os_full_version'', 8, CPtr CBytes),
      (''application_build'', 16, CPtr CBytes),
      (''country'', 24, CPtr CBytes),
      (''model'', 32, CPtr CBytes),
      (''language_code'', 40, CPtr CBytes),
      (''application_bundle_id'', 48, CPtr CBytes)]"
  "sizeof gdt_cct_IosClientInfo = 56"
  by code_simp+

lemma layout_gdt_cct_MacClientInfo:
  "layout gdt_cct_MacClientInfo =
     [(''os_major_version'', 0, CPtr CBytes),
      (''os_full_version'', 8, CPtr CBytes),
      (''application_build'', 16, CPtr CBytes),
      (''application_bundle_id'', 24, CPtr CBytes)]"
  "sizeof gdt_cct_MacClientInfo = 32"
  by code_simp+

lemma layout_gdt_cct_ClientInfo:
  "layout gdt_cct_ClientInfo =
     [(''has_client_type'', 0, CBool),
      (''client_type'', 4, C32),
      (''has_ios_client_info'', 8, CBool),
      (''ios_client_info'', 16, gdt_cct_IosClientInfo),
      (''has_mac_client_info'', 72, CBool),
      (''mac_client_info'', 80, gdt_cct_MacClientInfo)]"
  "sizeof gdt_cct_ClientInfo = 112"
  by code_simp+

lemma layout_gdt_cct_NetworkConnectionInfo:
  "layout gdt_cct_NetworkConnectionInfo =
     [(''has_network_type'', 0, CBool),
      (''network_type'', 4, C32),
      (''has_mobile_subtype'', 8, CBool),
      (''mobile_subtype'', 12, C32)]"
  "sizeof gdt_cct_NetworkConnectionInfo = 16"
  by code_simp+

lemma layout_gdt_cct_LogEvent:
  "layout gdt_cct_LogEvent =
     [(''has_event_time_ms'', 0, CBool),
      (''event_time_ms'', 8, C64),
      (''source_extension'', 16, CPtr CBytes),
      (''has_event_code'', 24, CBool),
      (''event_code'', 28, C32),
      (''has_timezone_offset_seconds'', 32, CBool),
      (''timezone_offset_seconds'', 40, C64),
      (''has_event_uptime_ms'', 48, CBool),
      (''event_uptime_ms'', 56, C64),
      (''has_network_connection_info'', 64, CBool),
      (''network_connection_info'', 68, gdt_cct_NetworkConnectionInfo)]"
  "sizeof gdt_cct_LogEvent = 88"
  by code_simp+

lemma layout_gdt_cct_LogRequest:
  "layout gdt_cct_LogRequest =
     [(''has_client_info'', 0, CBool),
      (''client_info'', 8, gdt_cct_ClientInfo),
      (''has_log_source'', 120, CBool),
      (''log_source'', 124, C32),
      (''log_event_count'', 128, C32),
      (''log_event'', 136, CPtr gdt_cct_LogEvent),
      (''has_request_time_ms'', 144, CBool),
      (''request_time_ms'', 152, C64),
      (''has_request_uptime_ms'', 160, CBool),
      (''request_uptime_ms'', 168, C64),
      (''has_qos_tier'', 176, CBool),
      (''qos_tier'', 180, C32)]"
  "sizeof gdt_cct_LogRequest = 184"
  by code_simp+

lemma layout_gdt_cct_BatchedLogRequest:
  "layout gdt_cct_BatchedLogRequest =
     [(''log_request_count'', 0, C32),
      (''log_request'', 8, CPtr gdt_cct_LogRequest)]"
  "sizeof gdt_cct_BatchedLogRequest = 16"
  by code_simp+

lemma layout_gdt_cct_QosTierConfiguration:
  "layout gdt_cct_QosTierConfiguration =
     [(''has_qos_tier'', 0, CBool),
      (''qos_tier'', 4, C32),
      (''has_log_source'', 8, CBool),
      (''log_source'', 12, C32)]"
  "sizeof gdt_cct_QosTierConfiguration = 16"
  by code_simp+

lemma layout_gdt_cct_QosTiersOverride:
  "layout gdt_cct_QosTiersOverride =
     [(''qos_tier_configuration_count'', 0, C32),
      (''qos_tier_configuration'', 8, CPtr gdt_cct_QosTierConfiguration),
      (''has_qos_tier_fingerprint'', 16, CBool),
      (''qos_tier_fingerprint'', 24, C64)]"
  "sizeof gdt_cct_QosTiersOverride = 32"
  by code_simp+

lemma layout_gdt_cct_LogResponse:
  "layout gdt_cct_LogResponse =
     [(''has_next_request_wait_millis'', 0, CBool),
      (''next_request_wait_millis'', 8, C64),
      (''has_qos_tier'', 16, CBool),
      (''qos_tier'', 24, gdt_cct_QosTiersOverride)]"
  "sizeof gdt_cct_LogResponse = 56"
  by code_simp+

lemma layout_gdt_client_metrics_LogEventDropped:
  "layout gdt_client_metrics_LogEventDropped =
     [(''events_dropped_count'', 0, C64),
      (''reason'', 8, C32)]"
  "sizeof gdt_client_metrics_LogEventDropped = 16"
  by code_simp+

lemma layout_gdt_client_metrics_LogSourceMetrics:
  "layout gdt_client_metrics_LogSourceMetrics =
     [(''log_source'', 0, CPtr CBytes),
      (''log_event_dropped_count'', 8, C32),
      (''log_event_dropped'', 16, CPtr gdt_client_metrics_LogEventDropped)]"
  "sizeof gdt_client_metrics_LogSourceMetrics = 24"
  by code_simp+

lemma layout_gdt_client_metrics_StorageMetrics:
  "layout gdt_client_metrics_StorageMetrics =
     [(''current_cache_size_bytes'', 0, C64),
      (''max_cache_size_bytes'', 8, C64)]"
  "sizeof gdt_client_metrics_StorageMetrics = 16"
  by code_simp+

lemma layout_gdt_client_metrics_TimeWindow:
  "layout gdt_client_metrics_TimeWindow =
     [(''start_ms'', 0, C64),
      (''end_ms'', 8, C64)]"
  "sizeof gdt_client_metrics_TimeWindow = 16"
  by code_simp+

lemma layout_gdt_client_metrics_GlobalMetrics:
  "layout gdt_client_metrics_GlobalMetrics =
     [(''storage_metrics'', 0, gdt_client_metrics_StorageMetrics)]"
  "sizeof gdt_client_metrics_GlobalMetrics = 16"
  by code_simp+

lemma layout_gdt_client_metrics_ClientMetrics:
  "layout gdt_client_metrics_ClientMetrics =
     [(''window'', 0, gdt_client_metrics_TimeWindow),
      (''log_source_metrics_count'', 16, C32),
      (''log_source_metrics'', 24, CPtr gdt_client_metrics_LogSourceMetrics),
      (''global_metrics'', 32, gdt_client_metrics_GlobalMetrics),
      (''app_namespace'', 48, CPtr CBytes)]"
  "sizeof gdt_client_metrics_ClientMetrics = 56"
  by code_simp+

lemma layout_logs_proto_mobilesdk_ios_ICoreConfiguration:
  "layout logs_proto_mobilesdk_ios_ICoreConfiguration =
     [(''has_configuration_type'', 0, CBool),
      (''configuration_type'', 4, C32),
      (''sdk_service_installed_count'', 8, C32),
      (''sdk_service_installed'', 16, CPtr C32),
      (''device_model'', 24, CPtr CBytes),
      (''app_id'', 32, CPtr CBytes),
      (''bundle_id'', 40, CPtr CBytes),
      (''has_pod_name'', 48, CBool),
      (''pod_name'', 52, C32),
      (''icore_version'', 56, CPtr CBytes),
      (''sdk_version'', 64, CPtr CBytes),
      (''has_sdk_name'', 72, CBool),
      (''sdk_name'', 76, C32),
      (''has_app_count'', 80, CBool),
      (''app_count'', 84, C32),
      (''os_version'', 88, CPtr CBytes),
      (''min_supported_ios_version'', 96, CPtr CBytes),
      (''has_use_default_app'', 104, CBool),
      (''use_default_app'', 105, CBool),
      (''has_deployed_in_app_store'', 106, CBool),
      (''deployed_in_app_store'', 107, CBool),
      (''has_dynamic_framework_count'', 108, CBool),
      (''dynamic_framework_count'', 112, C32),
      (''apple_framework_version'', 120, CPtr CBytes),
      (''has_using_zip_file'', 128, CBool),
      (''using_zip_file'', 129, CBool),
      (''has_deployment_type'', 130, CBool),
      (''deployment_type'', 132, C32),
      (''platform_info'', 136, CPtr CBytes),
      (''has_swizzling_enabled'', 144, CBool),
      (''swizzling_enabled'', 145, CBool),
      (''has_using_gdt'', 146, CBool),
      (''using_gdt'', 147, CBool)]"
  "sizeof logs_proto_mobilesdk_ios_ICoreConfiguration = 152"
  by code_simp+

lemmas sizes =
  layout_gdt_cct_IosClientInfo(2)
  layout_gdt_cct_MacClientInfo(2)
  layout_gdt_cct_ClientInfo(2)
  layout_gdt_cct_NetworkConnectionInfo(2)
  layout_gdt_cct_LogEvent(2)
  layout_gdt_cct_LogRequest(2)
  layout_gdt_cct_BatchedLogRequest(2)
  layout_gdt_cct_QosTierConfiguration(2)
  layout_gdt_cct_QosTiersOverride(2)
  layout_gdt_cct_LogResponse(2)
  layout_gdt_client_metrics_LogEventDropped(2)
  layout_gdt_client_metrics_LogSourceMetrics(2)
  layout_gdt_client_metrics_StorageMetrics(2)
  layout_gdt_client_metrics_TimeWindow(2)
  layout_gdt_client_metrics_GlobalMetrics(2)
  layout_gdt_client_metrics_ClientMetrics(2)
  layout_logs_proto_mobilesdk_ios_ICoreConfiguration(2)

section \<open>Members by name\<close>

lemma find_gdt_cct_IosClientInfo:
  "find_member (layout gdt_cct_IosClientInfo) ''os_major_version'' = Some (0, CPtr CBytes)"
  "find_member (layout gdt_cct_IosClientInfo) ''os_full_version'' = Some (8, CPtr CBytes)"
  "find_member (layout gdt_cct_IosClientInfo) ''application_build'' = Some (16, CPtr CBytes)"
  "find_member (layout gdt_cct_IosClientInfo) ''country'' = Some (24, CPtr CBytes)"
  "find_member (layout gdt_cct_IosClientInfo) ''model'' = Some (32, CPtr CBytes)"
  "find_member (layout gdt_cct_IosClientInfo) ''language_code'' = Some (40, CPtr CBytes)"
  "find_member (layout gdt_cct_IosClientInfo) ''application_bundle_id'' = Some (48, CPtr CBytes)"
  by (simp_all add: layout_gdt_cct_IosClientInfo)

lemma find_gdt_cct_MacClientInfo:
  "find_member (layout gdt_cct_MacClientInfo) ''os_major_version'' = Some (0, CPtr CBytes)"
  "find_member (layout gdt_cct_MacClientInfo) ''os_full_version'' = Some (8, CPtr CBytes)"
  "find_member (layout gdt_cct_MacClientInfo) ''application_build'' = Some (16, CPtr CBytes)"
  "find_member (layout gdt_cct_MacClientInfo) ''application_bundle_id'' = Some (24, CPtr CBytes)"
  by (simp_all add: layout_gdt_cct_MacClientInfo)

lemma find_gdt_cct_ClientInfo:
  "find_member (layout gdt_cct_ClientInfo) ''has_client_type'' = Some (0, CBool)"
  "find_member (layout gdt_cct_ClientInfo) ''client_type'' = Some (4, C32)"
  "find_member (layout gdt_cct_ClientInfo) ''has_ios_client_info'' = Some (8, CBool)"
  "find_member (layout gdt_cct_ClientInfo) ''ios_client_info'' = Some (16, gdt_cct_IosClientInfo)"
  "find_member (layout gdt_cct_ClientInfo) ''has_mac_client_info'' = Some (72, CBool)"
  "find_member (layout gdt_cct_ClientInfo) ''mac_client_info'' = Some (80, gdt_cct_MacClientInfo)"
  by (simp_all add: layout_gdt_cct_ClientInfo)

lemma find_gdt_cct_NetworkConnectionInfo:
  "find_member (layout gdt_cct_NetworkConnectionInfo) ''has_network_type'' = Some (0, CBool)"
  "find_member (layout gdt_cct_NetworkConnectionInfo) ''network_type'' = Some (4, C32)"
  "find_member (layout gdt_cct_NetworkConnectionInfo) ''has_mobile_subtype'' = Some (8, CBool)"
  "find_member (layout gdt_cct_NetworkConnectionInfo) ''mobile_subtype'' = Some (12, C32)"
  by (simp_all add: layout_gdt_cct_NetworkConnectionInfo)

lemma find_gdt_cct_LogEvent:
  "find_member (layout gdt_cct_LogEvent) ''has_event_time_ms'' = Some (0, CBool)"
  "find_member (layout gdt_cct_LogEvent) ''event_time_ms'' = Some (8, C64)"
  "find_member (layout gdt_cct_LogEvent) ''source_extension'' = Some (16, CPtr CBytes)"
  "find_member (layout gdt_cct_LogEvent) ''has_event_code'' = Some (24, CBool)"
  "find_member (layout gdt_cct_LogEvent) ''event_code'' = Some (28, C32)"
  "find_member (layout gdt_cct_LogEvent) ''has_timezone_offset_seconds'' = Some (32, CBool)"
  "find_member (layout gdt_cct_LogEvent) ''timezone_offset_seconds'' = Some (40, C64)"
  "find_member (layout gdt_cct_LogEvent) ''has_event_uptime_ms'' = Some (48, CBool)"
  "find_member (layout gdt_cct_LogEvent) ''event_uptime_ms'' = Some (56, C64)"
  "find_member (layout gdt_cct_LogEvent) ''has_network_connection_info'' = Some (64, CBool)"
  "find_member (layout gdt_cct_LogEvent) ''network_connection_info'' = Some (68, gdt_cct_NetworkConnectionInfo)"
  by (simp_all add: layout_gdt_cct_LogEvent)

lemma find_gdt_cct_LogRequest:
  "find_member (layout gdt_cct_LogRequest) ''has_client_info'' = Some (0, CBool)"
  "find_member (layout gdt_cct_LogRequest) ''client_info'' = Some (8, gdt_cct_ClientInfo)"
  "find_member (layout gdt_cct_LogRequest) ''has_log_source'' = Some (120, CBool)"
  "find_member (layout gdt_cct_LogRequest) ''log_source'' = Some (124, C32)"
  "find_member (layout gdt_cct_LogRequest) ''log_event_count'' = Some (128, C32)"
  "find_member (layout gdt_cct_LogRequest) ''log_event'' = Some (136, CPtr gdt_cct_LogEvent)"
  "find_member (layout gdt_cct_LogRequest) ''has_request_time_ms'' = Some (144, CBool)"
  "find_member (layout gdt_cct_LogRequest) ''request_time_ms'' = Some (152, C64)"
  "find_member (layout gdt_cct_LogRequest) ''has_request_uptime_ms'' = Some (160, CBool)"
  "find_member (layout gdt_cct_LogRequest) ''request_uptime_ms'' = Some (168, C64)"
  "find_member (layout gdt_cct_LogRequest) ''has_qos_tier'' = Some (176, CBool)"
  "find_member (layout gdt_cct_LogRequest) ''qos_tier'' = Some (180, C32)"
  by (simp_all add: layout_gdt_cct_LogRequest)

lemma find_gdt_cct_BatchedLogRequest:
  "find_member (layout gdt_cct_BatchedLogRequest) ''log_request_count'' = Some (0, C32)"
  "find_member (layout gdt_cct_BatchedLogRequest) ''log_request'' = Some (8, CPtr gdt_cct_LogRequest)"
  by (simp_all add: layout_gdt_cct_BatchedLogRequest)

lemma find_gdt_cct_QosTierConfiguration:
  "find_member (layout gdt_cct_QosTierConfiguration) ''has_qos_tier'' = Some (0, CBool)"
  "find_member (layout gdt_cct_QosTierConfiguration) ''qos_tier'' = Some (4, C32)"
  "find_member (layout gdt_cct_QosTierConfiguration) ''has_log_source'' = Some (8, CBool)"
  "find_member (layout gdt_cct_QosTierConfiguration) ''log_source'' = Some (12, C32)"
  by (simp_all add: layout_gdt_cct_QosTierConfiguration)

lemma find_gdt_cct_QosTiersOverride:
  "find_member (layout gdt_cct_QosTiersOverride) ''qos_tier_configuration_count'' = Some (0, C32)"
  "find_member (layout gdt_cct_QosTiersOverride) ''qos_tier_configuration'' = Some (8, CPtr gdt_cct_QosTierConfiguration)"
  "find_member (layout gdt_cct_QosTiersOverride) ''has_qos_tier_fingerprint'' = Some (16, CBool)"
  "find_member (layout gdt_cct_QosTiersOverride) ''qos_tier_fingerprint'' = Some (24, C64)"
  by (simp_all add: layout_gdt_cct_QosTiersOverride)

lemma find_gdt_cct_LogResponse:
  "find_member (layout gdt_cct_LogResponse) ''has_next_request_wait_millis'' = Some (0, CBool)"
  "find_member (layout gdt_cct_LogResponse) ''next_request_wait_millis'' = Some (8, C64)"
  "find_member (layout gdt_cct_LogResponse) ''has_qos_tier'' = Some (16, CBool)"
  "find_member (layout gdt_cct_LogResponse) ''qos_tier'' = Some (24, gdt_cct_QosTiersOverride)"
  by (simp_all add: layout_gdt_cct_LogResponse)

lemma find_gdt_client_metrics_LogEventDropped:
  "find_member (layout gdt_client_metrics_LogEventDropped) ''events_dropped_count'' = Some (0, C64)"
  "find_member (layout gdt_client_metrics_LogEventDropped) ''reason'' = Some (8, C32)"
  by (simp_all add: layout_gdt_client_metrics_LogEventDropped)

lemma find_gdt_client_metrics_LogSourceMetrics:
  "find_member (layout gdt_client_metrics_LogSourceMetrics) ''log_source'' = Some (0, CPtr CBytes)"
  "find_member (layout gdt_client_metrics_LogSourceMetrics) ''log_event_dropped_count'' = Some (8, C32)"
  "find_member (layout gdt_client_metrics_LogSourceMetrics) ''log_event_dropped'' = Some (16, CPtr gdt_client_metrics_LogEventDropped)"
  by (simp_all add: layout_gdt_client_metrics_LogSourceMetrics)

lemma find_gdt_client_metrics_StorageMetrics:
  "find_member (layout gdt_client_metrics_StorageMetrics) ''current_cache_size_bytes'' = Some (0, C64)"
  "find_member (layout gdt_client_metrics_StorageMetrics) ''max_cache_size_bytes'' = Some (8, C64)"
  by (simp_all add: layout_gdt_client_metrics_StorageMetrics)

lemma find_gdt_client_metrics_TimeWindow:
  "find_member (layout gdt_client_metrics_TimeWindow) ''start_ms'' = Some (0, C64)"
  "find_member (layout gdt_client_metrics_TimeWindow) ''end_ms'' = Some (8, C64)"
  by (simp_all add: layout_gdt_client_metrics_TimeWindow)

lemma find_gdt_client_metrics_GlobalMetrics:
  "find_member (layout gdt_client_metrics_GlobalMetrics) ''storage_metrics'' = Some (0, gdt_client_metrics_StorageMetrics)"
  by (simp_all add: layout_gdt_client_metrics_GlobalMetrics)

lemma find_gdt_client_metrics_ClientMetrics:
  "find_member (layout gdt_client_metrics_ClientMetrics) ''window'' = Some (0, gdt_client_metrics_TimeWindow)"
  "find_member (layout gdt_client_metrics_ClientMetrics) ''log_source_metrics_count'' = Some (16, C32)"
  "find_member (layout gdt_client_metrics_ClientMetrics) ''log_source_metrics'' = Some (24, CPtr gdt_client_metrics_LogSourceMetrics)"
  "find_member (layout gdt_client_metrics_ClientMetrics) ''global_metrics'' = Some (32, gdt_client_metrics_GlobalMetrics)"
  "find_member (layout gdt_client_metrics_ClientMetrics) ''app_namespace'' = Some (48, CPtr CBytes)"
  by (simp_all add: layout_gdt_client_metrics_ClientMetrics)

lemma find_logs_proto_mobilesdk_ios_ICoreConfiguration:
  "find_member (layout logs_proto_mobilesdk_ios_ICoreConfiguration) ''has_configuration_type'' = Some (0, CBool)"
  "find_member (layout logs_proto_mobilesdk_ios_ICoreConfiguration) ''configuration_type'' = Some (4, C32)"
  "find_member (layout logs_proto_mobilesdk_ios_ICoreConfiguration) ''sdk_service_installed_count'' = Some (8, C32)"
  "find_member (layout logs_proto_mobilesdk_ios_ICoreConfiguration) ''sdk_service_installed'' = Some (16, CPtr C32)"
  "find_member (layout logs_proto_mobilesdk_ios_ICoreConfiguration) ''device_model'' = Some (24, CPtr CBytes)"
  "find_member (layout logs_proto_mobilesdk_ios_ICoreConfiguration) ''app_id'' = Some (32, CPtr CBytes)"
  "find_member (layout logs_proto_mobilesdk_ios_ICoreConfiguration) ''bundle_id'' = Some (40, CPtr CBytes)"
  "find_member (layout logs_proto_mobilesdk_ios_ICoreConfiguration) ''has_pod_name'' = Some (48, CBool)"
  "find_member (layout logs_proto_mobilesdk_ios_ICoreConfiguration) ''pod_name'' = Some (52, C32)"
  "find_member (layout logs_proto_mobilesdk_ios_ICoreConfiguration) ''icore_version'' = Some (56, CPtr CBytes)"
  "find_member (layout logs_proto_mobilesdk_ios_ICoreConfiguration) ''sdk_version'' = Some (64, CPtr CBytes)"
  "find_member (layout logs_proto_mobilesdk_ios_ICoreConfiguration) ''has_sdk_name'' = Some (72, CBool)"
  "find_member (layout logs_proto_mobilesdk_ios_ICoreConfiguration) ''sdk_name'' = Some (76, C32)"
  "find_member (layout logs_proto_mobilesdk_ios_ICoreConfiguration) ''has_app_count'' = Some (80, CBool)"
  "find_member (layout logs_proto_mobilesdk_ios_ICoreConfiguration) ''app_count'' = Some (84, C32)"
  "find_member (layout logs_proto_mobilesdk_ios_ICoreConfiguration) ''os_version'' = Some (88, CPtr CBytes)"
  "find_member (layout logs_proto_mobilesdk_ios_ICoreConfiguration) ''min_supported_ios_version'' = Some (96, CPtr CBytes)"
  "find_member (layout logs_proto_mobilesdk_ios_ICoreConfiguration) ''has_use_default_app'' = Some (104, CBool)"
  "find_member (layout logs_proto_mobilesdk_ios_ICoreConfiguration) ''use_default_app'' = Some (105, CBool)"
  "find_member (layout logs_proto_mobilesdk_ios_ICoreConfiguration) ''has_deployed_in_app_store'' = Some (106, CBool)"
  "find_member (layout logs_proto_mobilesdk_ios_ICoreConfiguration) ''deployed_in_app_store'' = Some (107, CBool)"
  "find_member (layout logs_proto_mobilesdk_ios_ICoreConfiguration) ''has_dynamic_framework_count'' = Some (108, CBool)"
  "find_member (layout logs_proto_mobilesdk_ios_ICoreConfiguration) ''dynamic_framework_count'' = Some (112, C32)"
  "find_member (layout logs_proto_mobilesdk_ios_ICoreConfiguration) ''apple_framework_version'' = Some (120, CPtr CBytes)"
  "find_member (layout logs_proto_mobilesdk_ios_ICoreConfiguration) ''has_using_zip_file'' = Some (128, CBool)"
  "find_member (layout logs_proto_mobilesdk_ios_ICoreConfiguration) ''using_zip_file'' = Some (129, CBool)"
  "find_member (layout logs_proto_mobilesdk_ios_ICoreConfiguration) ''has_deployment_type'' = Some (130, CBool)"
  "find_member (layout logs_proto_mobilesdk_ios_ICoreConfiguration) ''deployment_type'' = Some (132, C32)"
  "find_member (layout logs_proto_mobilesdk_ios_ICoreConfiguration) ''platform_info'' = Some (136, CPtr CBytes)"
  "find_member (layout logs_proto_mobilesdk_ios_ICoreConfiguration) ''has_swizzling_enabled'' = Some (144, CBool)"
  "find_member (layout logs_proto_mobilesdk_ios_ICoreConfiguration) ''swizzling_enabled'' = Some (145, CBool)"
  "find_member (layout logs_proto_mobilesdk_ios_ICoreConfiguration) ''has_using_gdt'' = Some (146, CBool)"
  "find_member (layout logs_proto_mobilesdk_ios_ICoreConfiguration) ''using_gdt'' = Some (147, CBool)"
  by (simp_all add: layout_logs_proto_mobilesdk_ios_ICoreConfiguration)

section \<open>Field descriptors\<close>

lemma gdt_cct_IosClientInfo_fields_eq:
  "gdt_cct_IosClientInfo_fields =
     [PbField 3 0x96 0 0 8 0 PtrNull,
      PbField 4 0x96 0 0 8 0 PtrNull,
      PbField 5 0x96 0 0 8 0 PtrNull,
      PbField 6 0x96 0 0 8 0 PtrNull,
      PbField 7 0x96 0 0 8 0 PtrNull,
      PbField 8 0x96 0 0 8 0 PtrNull,
      PbField 11 0x96 0 0 8 0 PtrNull,
      PB_LAST_FIELD]"
  by (simp add: gdt_cct_IosClientInfo_fields_def macro_defs find_gdt_cct_IosClientInfo sizes)

lemma gdt_cct_MacClientInfo_fields_eq:
  "gdt_cct_MacClientInfo_fields =
     [PbField 1 0x96 0 0 8 0 PtrNull,
      PbField 2 0x96 0 0 8 0 PtrNull,
      PbField 3 0x96 0 0 8 0 PtrNull,
      PbField 7 0x96 0 0 8 0 PtrNull,
      PB_LAST_FIELD]"
  by (simp add: gdt_cct_MacClientInfo_fields_def macro_defs find_gdt_cct_MacClientInfo sizes)

lemma gdt_cct_ClientInfo_fields_eq:
  "gdt_cct_ClientInfo_fields =
     [PbField 1 0x12 4 (- 4) 4 0 PtrNull,
      PbField 4 0x18 8 (- 8) 56 0 (PtrFields gdt_cct_IosClientInfo_fields),
      PbField 13 0x18 8 (- 8) 32 0 (PtrFields gdt_cct_MacClientInfo_fields),
      PB_LAST_FIELD]"
  by (simp add: gdt_cct_ClientInfo_fields_def macro_defs find_gdt_cct_ClientInfo sizes)

lemma gdt_cct_NetworkConnectionInfo_fields_eq:
  "gdt_cct_NetworkConnectionInfo_fields =
     [PbField 1 0x11 4 (- 4) 4 0 (PtrValue gdt_cct_NetworkConnectionInfo_network_type_default),
      PbField 2 0x12 4 (- 4) 4 0 (PtrValue gdt_cct_NetworkConnectionInfo_mobile_subtype_default),
      PB_LAST_FIELD]"
  by (simp add: gdt_cct_NetworkConnectionInfo_fields_def macro_defs find_gdt_cct_NetworkConnectionInfo sizes)

lemma gdt_cct_LogEvent_fields_eq:
  "gdt_cct_LogEvent_fields =
     [PbField 1 0x11 8 (- 8) 8 0 PtrNull,
      PbField 6 0x96 0 0 8 0 PtrNull,
      PbField 11 0x11 4 (- 4) 4 0 PtrNull,
      PbField 15 0x13 8 (- 8) 8 0 PtrNull,
      PbField 17 0x11 8 (- 8) 8 0 PtrNull,
      PbField 23 0x18 4 (- 4) 16 0 (PtrFields gdt_cct_NetworkConnectionInfo_fields),
      PB_LAST_FIELD]"
  by (simp add: gdt_cct_LogEvent_fields_def macro_defs find_gdt_cct_LogEvent sizes)

lemma gdt_cct_LogRequest_fields_eq:
  "gdt_cct_LogRequest_fields =
     [PbField 1 0x18 8 (- 8) 112 0 (PtrFields gdt_cct_ClientInfo_fields),
      PbField 2 0x11 4 (- 4) 4 0 PtrNull,
      PbField 3 0xA8 8 (- 8) 88 0 (PtrFields gdt_cct_LogEvent_fields),
      PbField 4 0x11 8 (- 8) 8 0 PtrNull,
      PbField 8 0x11 8 (- 8) 8 0 PtrNull,
      PbField 9 0x12 4 (- 4) 4 0 (PtrValue gdt_cct_LogRequest_qos_tier_default),
      PB_LAST_FIELD]"
  by (simp add: gdt_cct_LogRequest_fields_def macro_defs find_gdt_cct_LogRequest sizes)

lemma gdt_cct_BatchedLogRequest_fields_eq:
  "gdt_cct_BatchedLogRequest_fields =
     [PbField 1 0xA8 8 (- 8) 184 0 (PtrFields gdt_cct_LogRequest_fields),
      PB_LAST_FIELD]"
  by (simp add: gdt_cct_BatchedLogRequest_fields_def macro_defs find_gdt_cct_BatchedLogRequest sizes)

lemma gdt_cct_QosTierConfiguration_fields_eq:
  "gdt_cct_QosTierConfiguration_fields =
     [PbField 2 0x12 4 (- 4) 4 0 PtrNull,
      PbField 3 0x11 4 (- 4) 4 0 (PtrValue gdt_cct_QosTierConfiguration_log_source_default),
      PB_LAST_FIELD]"
  by (simp add: gdt_cct_QosTierConfiguration_fields_def macro_defs find_gdt_cct_QosTierConfiguration sizes)

lemma gdt_cct_QosTiersOverride_fields_eq:
  "gdt_cct_QosTiersOverride_fields =
     [PbField 1 0xA8 8 (- 8) 16 0 (PtrFields gdt_cct_QosTierConfiguration_fields),
      PbField 2 0x11 8 (- 8) 8 0 PtrNull,
      PB_LAST_FIELD]"
  by (simp add: gdt_cct_QosTiersOverride_fields_def macro_defs find_gdt_cct_QosTiersOverride sizes)

lemma gdt_cct_LogResponse_fields_eq:
  "gdt_cct_LogResponse_fields =
     [PbField 1 0x11 8 (- 8) 8 0 PtrNull,
      PbField 3 0x18 8 (- 8) 32 0 (PtrFields gdt_cct_QosTiersOverride_fields),
      PB_LAST_FIELD]"
  by (simp add: gdt_cct_LogResponse_fields_def macro_defs find_gdt_cct_LogResponse sizes)

lemma gdt_client_metrics_LogEventDropped_fields_eq:
  "gdt_client_metrics_LogEventDropped_fields =
     [PbField 1 0x11 0 0 8 0 PtrNull,
      PbField 3 0x12 0 0 4 0 PtrNull,
      PB_LAST_FIELD]"
  by (simp add: gdt_client_metrics_LogEventDropped_fields_def macro_defs find_gdt_client_metrics_LogEventDropped sizes)

lemma gdt_client_metrics_LogSourceMetrics_fields_eq:
  "gdt_client_metrics_LogSourceMetrics_fields =
     [PbField 1 0x96 0 0 8 0 PtrNull,
      PbField 2 0xA8 8 (- 8) 16 0 (PtrFields gdt_client_metrics_LogEventDropped_fields),
      PB_LAST_FIELD]"
  by (simp add: gdt_client_metrics_LogSourceMetrics_fields_def macro_defs find_gdt_client_metrics_LogSourceMetrics sizes)

lemma gdt_client_metrics_StorageMetrics_fields_eq:
  "gdt_client_metrics_StorageMetrics_fields =
     [PbField 1 0x11 0 0 8 0 PtrNull,
      PbField 2 0x11 0 0 8 0 PtrNull,
      PB_LAST_FIELD]"
  by (simp add: gdt_client_metrics_StorageMetrics_fields_def macro_defs find_gdt_client_metrics_StorageMetrics sizes)

lemma gdt_client_metrics_TimeWindow_fields_eq:
  "gdt_client_metrics_TimeWindow_fields =
     [PbField 1 0x11 0 0 8 0 PtrNull,
      PbField 2 0x11 0 0 8 0 PtrNull,
      PB_LAST_FIELD]"
  by (simp add: gdt_client_metrics_TimeWindow_fields_def macro_defs find_gdt_client_metrics_TimeWindow sizes)

lemma gdt_client_metrics_GlobalMetrics_fields_eq:
  "gdt_client_metrics_GlobalMetrics_fields =
     [PbField 1 0x18 0 0 16 0 (PtrFields gdt_client_metrics_StorageMetrics_fields),
      PB_LAST_FIELD]"
  by (simp add: gdt_client_metrics_GlobalMetrics_fields_def macro_defs find_gdt_client_metrics_GlobalMetrics sizes)

lemma gdt_client_metrics_ClientMetrics_fields_eq:
  "gdt_client_metrics_ClientMetrics_fields =
     [PbField 1 0x18 0 0 16 0 (PtrFields gdt_client_metrics_TimeWindow_fields),
      PbField 2 0xA8 8 (- 8) 24 0 (PtrFields gdt_client_metrics_LogSourceMetrics_fields),
      PbField 3 0x18 0 0 16 0 (PtrFields gdt_client_metrics_GlobalMetrics_fields),
      PbField 4 0x96 0 0 8 0 PtrNull,
      PB_LAST_FIELD]"
  by (simp add: gdt_client_metrics_ClientMetrics_fields_def macro_defs find_gdt_client_metrics_ClientMetrics sizes)

lemma logs_proto_mobilesdk_ios_ICoreConfiguration_fields_eq:
  "logs_proto_mobilesdk_ios_ICoreConfiguration_fields =
     [PbField 1 0x12 4 (- 4) 4 0 PtrNull,
      PbField 7 0xA2 8 (- 8) 4 0 PtrNull,
      PbField 9 0x96 0 0 8 0 PtrNull,
      PbField 10 0x96 0 0 8 0 PtrNull,
      PbField 12 0x96 0 0 8 0 PtrNull,
      PbField 16 0x12 4 (- 4) 4 0 PtrNull,
      PbField 18 0x96 0 0 8 0 PtrNull,
      PbField 19 0x96 0 0 8 0 PtrNull,
      PbField 20 0x12 4 (- 4) 4 0 PtrNull,
      PbField 21 0x11 4 (- 4) 4 0 PtrNull,
      PbField 22 0x96 0 0 8 0 PtrNull,
      PbField 24 0x96 0 0 8 0 PtrNull,
      PbField 25 0x10 1 (- 1) 1 0 PtrNull,
      PbField 26 0x10 1 (- 1) 1 0 PtrNull,
      PbField 27 0x11 4 (- 4) 4 0 PtrNull,
      PbField 28 0x96 4 0 8 0 PtrNull,
      PbField 29 0x10 1 (- 1) 1 0 PtrNull,
      PbField 30 0x12 2 (- 2) 4 0 PtrNull,
      PbField 31 0x96 0 0 8 0 PtrNull,
      PbField 33 0x10 1 (- 1) 1 0 PtrNull,
      PbField 36 0x10 1 (- 1) 1 0 PtrNull,
      PB_LAST_FIELD]"
  by (simp add: logs_proto_mobilesdk_ios_ICoreConfiguration_fields_def macro_defs find_logs_proto_mobilesdk_ios_ICoreConfiguration sizes)

end
