(* ===== verification/Descriptors.thy ===== *)
theory Descriptors
  imports DescriptorValues PbIter
begin

text \<open>
  What the generated descriptors have to promise for the iterator, the encoder and the decoder to
  touch the right bytes of the right structure.
\<close>

section \<open>A descriptor array fits a structure\<close>

text \<open>
  \<open>fits st fs\<close>: the descriptor array is well formed; its tags rise; walking it from offset 0 with the
  iterator gives for the \<open>k\<close>-th field the offset of the \<open>k\<close>-th data member of the structure, and for
  its size pointer the offset of the \<open>has_\<close> or \<open>_count\<close> member in front of it where there is one.
\<close>

fun data_members :: "(string \<times> ctype) list \<Rightarrow> string list" where
  "data_members [] = []"
| "data_members [(m, t)] = [m]"
| "data_members ((m, t) # (m', t') # ms) =
     (if same_name m (''has_'' @ m') then data_members ((m', t') # ms)
      else if same_name m (m' @ ''_count'') then data_members ((m', t') # ms)
      else m # data_members ((m', t') # ms))"

definition size_member :: "ctype \<Rightarrow> string \<Rightarrow> string" where
  "size_member st m =
     (if find_member (layout st) (''has_'' @ m) \<noteq> None then ''has_'' @ m
      else if find_member (layout st) (m @ ''_count'') \<noteq> None then m @ ''_count'' else m)"

definition fits :: "ctype \<Rightarrow> pb_field list \<Rightarrow> bool" where
  "fits st fs \<longleftrightarrow>
     wf_fields fs \<and> sorted_wrt (<) (map f_tag (butlast fs)) \<and>
     map (data_at fs 0) [0..<nfields fs] = map (\<lambda>m. of_nat (offsetof st m)) (data_members (members st)) \<and>
     map (size_at fs 0) [0..<nfields fs] =
       map (\<lambda>m. of_nat (offsetof st (size_member st m))) (data_members (members st))"

lemma fits_wf: "fits st fs \<Longrightarrow> wf_fields fs"
  by (simp add: fits_def)

lemma map_upt_nth: "map f [0..<n] = map g xs \<Longrightarrow> k < n \<Longrightarrow> f k = g (xs ! k)"
  by (metis (no_types, lifting) add_0 diff_zero length_map length_upt nth_map nth_upt)

lemma fits_data_at:
  assumes "fits st fs" and "k < nfields fs"
  shows "data_at fs base k = base + of_nat (offsetof st (data_members (members st) ! k))"
    and "size_at fs base k = base + of_nat (offsetof st (size_member st (data_members (members st) ! k)))"
proof -
  have "map (data_at fs 0) [0..<nfields fs] = map (\<lambda>m. of_nat (offsetof st m)) (data_members (members st))"
    and "map (size_at fs 0) [0..<nfields fs] =
      map (\<lambda>m. of_nat (offsetof st (size_member st m))) (data_members (members st))"
    using assms(1) by (simp_all add: fits_def)
  from this [THEN map_upt_nth, OF assms(2)]
  show "data_at fs base k = base + of_nat (offsetof st (data_members (members st) ! k))"
    and "size_at fs base k = base + of_nat (offsetof st (size_member st (data_members (members st) ! k)))"
    by (simp_all add: data_at_shift [of fs base] size_at_shift [of fs base])
qed

section \<open>Storage\<close>

text \<open>
  \<open>separate st fs\<close>: every field's storage in the structure ends before the next field's begins, and
  the last one's before the structure ends, so that a store to one field cannot reach another.
\<close>

definition separate :: "ctype \<Rightarrow> pb_field list \<Rightarrow> bool" where
  "separate st fs \<longleftrightarrow>
     list_all (\<lambda>k. unat (data_at fs 0 k) + unat (prev_size (field_at fs k)) \<le>
         (if Suc k < nfields fs then unat (data_at fs 0 (Suc k)) else sizeof st))
       [0..<nfields fs]"

section \<open>The messages of the repository\<close>

definition cct_messages :: "(ctype \<times> pb_field list) list" where
  "cct_messages =
     [(gdt_cct_IosClientInfo, gdt_cct_IosClientInfo_fields),
      (gdt_cct_MacClientInfo, gdt_cct_MacClientInfo_fields),
      (gdt_cct_ClientInfo, gdt_cct_ClientInfo_fields),
      (gdt_cct_NetworkConnectionInfo, gdt_cct_NetworkConnectionInfo_fields),
      (gdt_cct_LogEvent, gdt_cct_LogEvent_fields),
      (gdt_cct_LogRequest, gdt_cct_LogRequest_fields),
      (gdt_cct_BatchedLogRequest, gdt_cct_BatchedLogRequest_fields),
      (gdt_cct_QosTierConfiguration, gdt_cct_QosTierConfiguration_fields),
      (gdt_cct_QosTiersOverride, gdt_cct_QosTiersOverride_fields),
      (gdt_cct_LogResponse, gdt_cct_LogResponse_fields)]"

definition client_metrics_messages :: "(ctype \<times> pb_field list) list" where
  "client_metrics_messages =
     [(gdt_client_metrics_LogEventDropped, gdt_client_metrics_LogEventDropped_fields),
      (gdt_client_metrics_LogSourceMetrics, gdt_client_metrics_LogSourceMetrics_fields),
      (gdt_client_metrics_StorageMetrics, gdt_client_metrics_StorageMetrics_fields),
      (gdt_client_metrics_TimeWindow, gdt_client_metrics_TimeWindow_fields),
      (gdt_client_metrics_GlobalMetrics, gdt_client_metrics_GlobalMetrics_fields),
      (gdt_client_metrics_ClientMetrics, gdt_client_metrics_ClientMetrics_fields)]"

definition firebasecore_messages :: "(ctype \<times> pb_field list) list" where
  "firebasecore_messages =
     [(logs_proto_mobilesdk_ios_ICoreConfiguration, logs_proto_mobilesdk_ios_ICoreConfiguration_fields)]"

definition messages :: "(ctype \<times> pb_field list) list" where
  "messages = cct_messages @ client_metrics_messages @ firebasecore_messages"

section \<open>Evaluation\<close>

declare
  gdt_cct_IosClientInfo_fields_def [code del] gdt_cct_IosClientInfo_fields_eq [code]
  gdt_cct_MacClientInfo_fields_def [code del] gdt_cct_MacClientInfo_fields_eq [code]
  gdt_cct_ClientInfo_fields_def [code del] gdt_cct_ClientInfo_fields_eq [code]
  gdt_cct_NetworkConnectionInfo_fields_def [code del] gdt_cct_NetworkConnectionInfo_fields_eq [code]
  gdt_cct_LogEvent_fields_def [code del] gdt_cct_LogEvent_fields_eq [code]
  gdt_cct_LogRequest_fields_def [code del] gdt_cct_LogRequest_fields_eq [code]
  gdt_cct_BatchedLogRequest_fields_def [code del] gdt_cct_BatchedLogRequest_fields_eq [code]
  gdt_cct_QosTierConfiguration_fields_def [code del] gdt_cct_QosTierConfiguration_fields_eq [code]
  gdt_cct_QosTiersOverride_fields_def [code del] gdt_cct_QosTiersOverride_fields_eq [code]
  gdt_cct_LogResponse_fields_def [code del] gdt_cct_LogResponse_fields_eq [code]
  gdt_client_metrics_LogEventDropped_fields_def [code del] gdt_client_metrics_LogEventDropped_fields_eq [code]
  gdt_client_metrics_LogSourceMetrics_fields_def [code del] gdt_client_metrics_LogSourceMetrics_fields_eq [code]
  gdt_client_metrics_StorageMetrics_fields_def [code del] gdt_client_metrics_StorageMetrics_fields_eq [code]
  gdt_client_metrics_TimeWindow_fields_def [code del] gdt_client_metrics_TimeWindow_fields_eq [code]
  gdt_client_metrics_GlobalMetrics_fields_def [code del] gdt_client_metrics_GlobalMetrics_fields_eq [code]
  gdt_client_metrics_ClientMetrics_fields_def [code del] gdt_client_metrics_ClientMetrics_fields_eq [code]
  logs_proto_mobilesdk_ios_ICoreConfiguration_fields_def [code del] logs_proto_mobilesdk_ios_ICoreConfiguration_fields_eq [code]

lemma data_members_gdt_cct_IosClientInfo:
  "data_members (members gdt_cct_IosClientInfo) =
     [''os_major_version'',
      ''os_full_version'',
      ''application_build'',
      ''country'',
      ''model'',
      ''language_code'',
      ''application_bundle_id'']"
  by (simp add: gdt_cct_IosClientInfo_def)

lemma data_members_gdt_cct_MacClientInfo:
  "data_members (members gdt_cct_MacClientInfo) =
     [''os_major_version'',
      ''os_full_version'',
      ''application_build'',
      ''application_bundle_id'']"
  by (simp add: gdt_cct_MacClientInfo_def)

lemma data_members_gdt_cct_ClientInfo:
  "data_members (members gdt_cct_ClientInfo) =
     [''client_type'',
      ''ios_client_info'',
      ''mac_client_info'']"
  by (simp add: gdt_cct_ClientInfo_def)

lemma data_members_gdt_cct_NetworkConnectionInfo:
  "data_members (members gdt_cct_NetworkConnectionInfo) =
     [''network_type'',
      ''mobile_subtype'']"
  by (simp add: gdt_cct_NetworkConnectionInfo_def)

lemma data_members_gdt_cct_LogEvent:
  "data_members (members gdt_cct_LogEvent) =
     [''event_time_ms'',
      ''source_extension'',
      ''event_code'',
      ''timezone_offset_seconds'',
      ''event_uptime_ms'',
      ''network_connection_info'']"
  by (simp add: gdt_cct_LogEvent_def)

lemma data_members_gdt_cct_LogRequest:
  "data_members (members gdt_cct_LogRequest) =
     [''client_info'',
      ''log_source'',
      ''log_event'',
      ''request_time_ms'',
      ''request_uptime_ms'',
      ''qos_tier'']"
  by (simp add: gdt_cct_LogRequest_def)

lemma data_members_gdt_cct_BatchedLogRequest:
  "data_members (members gdt_cct_BatchedLogRequest) =
     [''log_request'']"
  by (simp add: gdt_cct_BatchedLogRequest_def)

lemma data_members_gdt_cct_QosTierConfiguration:
  "data_members (members gdt_cct_QosTierConfiguration) =
     [''qos_tier'',
      ''log_source'']"
  by (simp add: gdt_cct_QosTierConfiguration_def)

lemma data_members_gdt_cct_QosTiersOverride:
  "data_members (members gdt_cct_QosTiersOverride) =
     [''qos_tier_configuration'',
      ''qos_tier_fingerprint'']"
  by (simp add: gdt_cct_QosTiersOverride_def)

lemma data_members_gdt_cct_LogResponse:
  "data_members (members gdt_cct_LogResponse) =
     [''next_request_wait_millis'',
      ''qos_tier'']"
  by (simp add: gdt_cct_LogResponse_def)

lemma data_members_gdt_client_metrics_LogEventDropped:
  "data_members (members gdt_client_metrics_LogEventDropped) =
     [''events_dropped_count'',
      ''reason'']"
  by (simp add: gdt_client_metrics_LogEventDropped_def)

lemma data_members_gdt_client_metrics_LogSourceMetrics:
  "data_members (members gdt_client_metrics_LogSourceMetrics) =
     [''log_source'',
      ''log_event_dropped'']"
  by (simp add: gdt_client_metrics_LogSourceMetrics_def)

lemma data_members_gdt_client_metrics_StorageMetrics:
  "data_members (members gdt_client_metrics_StorageMetrics) =
     [''current_cache_size_bytes'',
      ''max_cache_size_bytes'']"
  by (simp add: gdt_client_metrics_StorageMetrics_def)

lemma data_members_gdt_client_metrics_TimeWindow:
  "data_members (members gdt_client_metrics_TimeWindow) =
     [''start_ms'',
      ''end_ms'']"
  by (simp add: gdt_client_metrics_TimeWindow_def)

lemma data_members_gdt_client_metrics_GlobalMetrics:
  "data_members (members gdt_client_metrics_GlobalMetrics) =
     [''storage_metrics'']"
  by (simp add: gdt_client_metrics_GlobalMetrics_def)

lemma data_members_gdt_client_metrics_ClientMetrics:
  "data_members (members gdt_client_metrics_ClientMetrics) =
     [''window'',
      ''log_source_metrics'',
      ''global_metrics'',
      ''app_namespace'']"
  by (simp add: gdt_client_metrics_ClientMetrics_def)

lemma data_members_logs_proto_mobilesdk_ios_ICoreConfiguration:
  "data_members (members logs_proto_mobilesdk_ios_ICoreConfiguration) =
     [''configuration_type'',
      ''sdk_service_installed'',
      ''device_model'',
      ''app_id'',
      ''bundle_id'',
      ''pod_name'',
      ''icore_version'',
      ''sdk_version'',
      ''sdk_name'',
      ''app_count'',
      ''os_version'',
      ''min_supported_ios_version'',
      ''use_default_app'',
      ''deployed_in_app_store'',
      ''dynamic_framework_count'',
      ''apple_framework_version'',
      ''using_zip_file'',
      ''deployment_type'',
      ''platform_info'',
      ''swizzling_enabled'',
      ''using_gdt'']"
  by (simp add: logs_proto_mobilesdk_ios_ICoreConfiguration_def)

lemma no_member_gdt_cct_IosClientInfo:
  "find_member (layout gdt_cct_IosClientInfo) ''has_os_major_version'' = None"
  "find_member (layout gdt_cct_IosClientInfo) ''os_major_version_count'' = None"
  "find_member (layout gdt_cct_IosClientInfo) ''has_os_full_version'' = None"
  "find_member (layout gdt_cct_IosClientInfo) ''os_full_version_count'' = None"
  "find_member (layout gdt_cct_IosClientInfo) ''has_application_build'' = None"
  "find_member (layout gdt_cct_IosClientInfo) ''application_build_count'' = None"
  "find_member (layout gdt_cct_IosClientInfo) ''has_country'' = None"
  "find_member (layout gdt_cct_IosClientInfo) ''country_count'' = None"
  "find_member (layout gdt_cct_IosClientInfo) ''has_model'' = None"
  "find_member (layout gdt_cct_IosClientInfo) ''model_count'' = None"
  "find_member (layout gdt_cct_IosClientInfo) ''has_language_code'' = None"
  "find_member (layout gdt_cct_IosClientInfo) ''language_code_count'' = None"
  "find_member (layout gdt_cct_IosClientInfo) ''has_application_bundle_id'' = None"
  "find_member (layout gdt_cct_IosClientInfo) ''application_bundle_id_count'' = None"
  by (simp_all add: layout_gdt_cct_IosClientInfo)

lemma walk_gdt_cct_IosClientInfo:
  "map (data_at gdt_cct_IosClientInfo_fields 0) [0..<7] =
     [0, 8, 16, 24, 32, 40, 48]"
  "map (size_at gdt_cct_IosClientInfo_fields 0) [0..<7] =
     [0, 8, 16, 24, 32, 40, 48]"
  "wf_fields gdt_cct_IosClientInfo_fields" "nfields gdt_cct_IosClientInfo_fields = 7"
  "sorted_wrt (<) (map f_tag (butlast gdt_cct_IosClientInfo_fields))"
  by code_simp+

lemma fits_gdt_cct_IosClientInfo: "fits gdt_cct_IosClientInfo gdt_cct_IosClientInfo_fields"
  by (simp add: fits_def walk_gdt_cct_IosClientInfo data_members_gdt_cct_IosClientInfo offsetof_def size_member_def
      find_gdt_cct_IosClientInfo no_member_gdt_cct_IosClientInfo)

lemma no_member_gdt_cct_MacClientInfo:
  "find_member (layout gdt_cct_MacClientInfo) ''has_os_major_version'' = None"
  "find_member (layout gdt_cct_MacClientInfo) ''os_major_version_count'' = None"
  "find_member (layout gdt_cct_MacClientInfo) ''has_os_full_version'' = None"
  "find_member (layout gdt_cct_MacClientInfo) ''os_full_version_count'' = None"
  "find_member (layout gdt_cct_MacClientInfo) ''has_application_build'' = None"
  "find_member (layout gdt_cct_MacClientInfo) ''application_build_count'' = None"
  "find_member (layout gdt_cct_MacClientInfo) ''has_application_bundle_id'' = None"
  "find_member (layout gdt_cct_MacClientInfo) ''application_bundle_id_count'' = None"
  by (simp_all add: layout_gdt_cct_MacClientInfo)

lemma walk_gdt_cct_MacClientInfo:
  "map (data_at gdt_cct_MacClientInfo_fields 0) [0..<4] =
     [0, 8, 16, 24]"
  "map (size_at gdt_cct_MacClientInfo_fields 0) [0..<4] =
     [0, 8, 16, 24]"
  "wf_fields gdt_cct_MacClientInfo_fields" "nfields gdt_cct_MacClientInfo_fields = 4"
  "sorted_wrt (<) (map f_tag (butlast gdt_cct_MacClientInfo_fields))"
  by code_simp+

lemma fits_gdt_cct_MacClientInfo: "fits gdt_cct_MacClientInfo gdt_cct_MacClientInfo_fields"
  by (simp add: fits_def walk_gdt_cct_MacClientInfo data_members_gdt_cct_MacClientInfo offsetof_def size_member_def
      find_gdt_cct_MacClientInfo no_member_gdt_cct_MacClientInfo)

lemma walk_gdt_cct_ClientInfo:
  "map (data_at gdt_cct_ClientInfo_fields 0) [0..<3] =
     [4, 16, 80]"
  "map (size_at gdt_cct_ClientInfo_fields 0) [0..<3] =
     [0, 8, 72]"
  "wf_fields gdt_cct_ClientInfo_fields" "nfields gdt_cct_ClientInfo_fields = 3"
  "sorted_wrt (<) (map f_tag (butlast gdt_cct_ClientInfo_fields))"
  by code_simp+

lemma fits_gdt_cct_ClientInfo: "fits gdt_cct_ClientInfo gdt_cct_ClientInfo_fields"
  by (simp add: fits_def walk_gdt_cct_ClientInfo data_members_gdt_cct_ClientInfo offsetof_def size_member_def
      find_gdt_cct_ClientInfo)

lemma walk_gdt_cct_NetworkConnectionInfo:
  "map (data_at gdt_cct_NetworkConnectionInfo_fields 0) [0..<2] =
     [4, 12]"
  "map (size_at gdt_cct_NetworkConnectionInfo_fields 0) [0..<2] =
     [0, 8]"
  "wf_fields gdt_cct_NetworkConnectionInfo_fields" "nfields gdt_cct_NetworkConnectionInfo_fields = 2"
  "sorted_wrt (<) (map f_tag (butlast gdt_cct_NetworkConnectionInfo_fields))"
  by code_simp+

lemma fits_gdt_cct_NetworkConnectionInfo: "fits gdt_cct_NetworkConnectionInfo gdt_cct_NetworkConnectionInfo_fields"
  by (simp add: fits_def walk_gdt_cct_NetworkConnectionInfo data_members_gdt_cct_NetworkConnectionInfo offsetof_def size_member_def
      find_gdt_cct_NetworkConnectionInfo)

lemma no_member_gdt_cct_LogEvent:
  "find_member (layout gdt_cct_LogEvent) ''has_source_extension'' = None"
  "find_member (layout gdt_cct_LogEvent) ''source_extension_count'' = None"
  by (simp_all add: layout_gdt_cct_LogEvent)

lemma walk_gdt_cct_LogEvent:
  "map (data_at gdt_cct_LogEvent_fields 0) [0..<6] =
     [8, 16, 28, 40, 56, 68]"
  "map (size_at gdt_cct_LogEvent_fields 0) [0..<6] =
     [0, 16, 24, 32, 48, 64]"
  "wf_fields gdt_cct_LogEvent_fields" "nfields gdt_cct_LogEvent_fields = 6"
  "sorted_wrt (<) (map f_tag (butlast gdt_cct_LogEvent_fields))"
  by code_simp+

lemma fits_gdt_cct_LogEvent: "fits gdt_cct_LogEvent gdt_cct_LogEvent_fields"
  by (simp add: fits_def walk_gdt_cct_LogEvent data_members_gdt_cct_LogEvent offsetof_def size_member_def
      find_gdt_cct_LogEvent no_member_gdt_cct_LogEvent)

lemma no_member_gdt_cct_LogRequest:
  "find_member (layout gdt_cct_LogRequest) ''has_log_event'' = None"
  by (simp_all add: layout_gdt_cct_LogRequest)

lemma walk_gdt_cct_LogRequest:
  "map (data_at gdt_cct_LogRequest_fields 0) [0..<6] =
     [8, 124, 136, 152, 168, 180]"
  "map (size_at gdt_cct_LogRequest_fields 0) [0..<6] =
     [0, 120, 128, 144, 160, 176]"
  "wf_fields gdt_cct_LogRequest_fields" "nfields gdt_cct_LogRequest_fields = 6"
  "sorted_wrt (<) (map f_tag (butlast gdt_cct_LogRequest_fields))"
  by code_simp+

lemma fits_gdt_cct_LogRequest: "fits gdt_cct_LogRequest gdt_cct_LogRequest_fields"
  by (simp add: fits_def walk_gdt_cct_LogRequest data_members_gdt_cct_LogRequest offsetof_def size_member_def
      find_gdt_cct_LogRequest no_member_gdt_cct_LogRequest)

lemma no_member_gdt_cct_BatchedLogRequest:
  "find_member (layout gdt_cct_BatchedLogRequest) ''has_log_request'' = None"
  by (simp_all add: layout_gdt_cct_BatchedLogRequest)

lemma walk_gdt_cct_BatchedLogRequest:
  "data_at gdt_cct_BatchedLogRequest_fields 0 0 = 8" "size_at gdt_cct_BatchedLogRequest_fields 0 0 = 0"
  "wf_fields gdt_cct_BatchedLogRequest_fields" "nfields gdt_cct_BatchedLogRequest_fields = 1" "sorted_wrt (<) (map f_tag (butlast gdt_cct_BatchedLogRequest_fields))"
  by code_simp+

lemma fits_gdt_cct_BatchedLogRequest: "fits gdt_cct_BatchedLogRequest gdt_cct_BatchedLogRequest_fields"
  by (simp add: fits_def walk_gdt_cct_BatchedLogRequest data_members_gdt_cct_BatchedLogRequest offsetof_def size_member_def
      find_gdt_cct_BatchedLogRequest no_member_gdt_cct_BatchedLogRequest del: data_at.simps size_at.simps)

lemma walk_gdt_cct_QosTierConfiguration:
  "map (data_at gdt_cct_QosTierConfiguration_fields 0) [0..<2] =
     [4, 12]"
  "map (size_at gdt_cct_QosTierConfiguration_fields 0) [0..<2] =
     [0, 8]"
  "wf_fields gdt_cct_QosTierConfiguration_fields" "nfields gdt_cct_QosTierConfiguration_fields = 2"
  "sorted_wrt (<) (map f_tag (butlast gdt_cct_QosTierConfiguration_fields))"
  by code_simp+

lemma fits_gdt_cct_QosTierConfiguration: "fits gdt_cct_QosTierConfiguration gdt_cct_QosTierConfiguration_fields"
  by (simp add: fits_def walk_gdt_cct_QosTierConfiguration data_members_gdt_cct_QosTierConfiguration offsetof_def size_member_def
      find_gdt_cct_QosTierConfiguration)

lemma no_member_gdt_cct_QosTiersOverride:
  "find_member (layout gdt_cct_QosTiersOverride) ''has_qos_tier_configuration'' = None"
  by (simp_all add: layout_gdt_cct_QosTiersOverride)

lemma walk_gdt_cct_QosTiersOverride:
  "map (data_at gdt_cct_QosTiersOverride_fields 0) [0..<2] =
     [8, 24]"
  "map (size_at gdt_cct_QosTiersOverride_fields 0) [0..<2] =
     [0, 16]"
  "wf_fields gdt_cct_QosTiersOverride_fields" "nfields gdt_cct_QosTiersOverride_fields = 2"
  "sorted_wrt (<) (map f_tag (butlast gdt_cct_QosTiersOverride_fields))"
  by code_simp+

lemma fits_gdt_cct_QosTiersOverride: "fits gdt_cct_QosTiersOverride gdt_cct_QosTiersOverride_fields"
  by (simp add: fits_def walk_gdt_cct_QosTiersOverride data_members_gdt_cct_QosTiersOverride offsetof_def size_member_def
      find_gdt_cct_QosTiersOverride no_member_gdt_cct_QosTiersOverride)

lemma walk_gdt_cct_LogResponse:
  "map (data_at gdt_cct_LogResponse_fields 0) [0..<2] =
     [8, 24]"
  "map (size_at gdt_cct_LogResponse_fields 0) [0..<2] =
     [0, 16]"
  "wf_fields gdt_cct_LogResponse_fields" "nfields gdt_cct_LogResponse_fields = 2"
  "sorted_wrt (<) (map f_tag (butlast gdt_cct_LogResponse_fields))"
  by code_simp+

lemma fits_gdt_cct_LogResponse: "fits gdt_cct_LogResponse gdt_cct_LogResponse_fields"
  by (simp add: fits_def walk_gdt_cct_LogResponse data_members_gdt_cct_LogResponse offsetof_def size_member_def
      find_gdt_cct_LogResponse)

lemma no_member_gdt_client_metrics_LogEventDropped:
  "find_member (layout gdt_client_metrics_LogEventDropped) ''has_events_dropped_count'' = None"
  "find_member (layout gdt_client_metrics_LogEventDropped) ''events_dropped_count_count'' = None"
  "find_member (layout gdt_client_metrics_LogEventDropped) ''has_reason'' = None"
  "find_member (layout gdt_client_metrics_LogEventDropped) ''reason_count'' = None"
  by (simp_all add: layout_gdt_client_metrics_LogEventDropped)

lemma walk_gdt_client_metrics_LogEventDropped:
  "map (data_at gdt_client_metrics_LogEventDropped_fields 0) [0..<2] =
     [0, 8]"
  "map (size_at gdt_client_metrics_LogEventDropped_fields 0) [0..<2] =
     [0, 8]"
  "wf_fields gdt_client_metrics_LogEventDropped_fields" "nfields gdt_client_metrics_LogEventDropped_fields = 2"
  "sorted_wrt (<) (map f_tag (butlast gdt_client_metrics_LogEventDropped_fields))"
  by code_simp+

lemma fits_gdt_client_metrics_LogEventDropped: "fits gdt_client_metrics_LogEventDropped gdt_client_metrics_LogEventDropped_fields"
  by (simp add: fits_def walk_gdt_client_metrics_LogEventDropped data_members_gdt_client_metrics_LogEventDropped offsetof_def size_member_def
      find_gdt_client_metrics_LogEventDropped no_member_gdt_client_metrics_LogEventDropped)

lemma no_member_gdt_client_metrics_LogSourceMetrics:
  "find_member (layout gdt_client_metrics_LogSourceMetrics) ''has_log_source'' = None"
  "find_member (layout gdt_client_metrics_LogSourceMetrics) ''log_source_count'' = None"
  "find_member (layout gdt_client_metrics_LogSourceMetrics) ''has_log_event_dropped'' = None"
  by (simp_all add: layout_gdt_client_metrics_LogSourceMetrics)

lemma walk_gdt_client_metrics_LogSourceMetrics:
  "map (data_at gdt_client_metrics_LogSourceMetrics_fields 0) [0..<2] =
     [0, 16]"
  "map (size_at gdt_client_metrics_LogSourceMetrics_fields 0) [0..<2] =
     [0, 8]"
  "wf_fields gdt_client_metrics_LogSourceMetrics_fields" "nfields gdt_client_metrics_LogSourceMetrics_fields = 2"
  "sorted_wrt (<) (map f_tag (butlast gdt_client_metrics_LogSourceMetrics_fields))"
  by code_simp+

lemma fits_gdt_client_metrics_LogSourceMetrics: "fits gdt_client_metrics_LogSourceMetrics gdt_client_metrics_LogSourceMetrics_fields"
  by (simp add: fits_def walk_gdt_client_metrics_LogSourceMetrics data_members_gdt_client_metrics_LogSourceMetrics offsetof_def size_member_def
      find_gdt_client_metrics_LogSourceMetrics no_member_gdt_client_metrics_LogSourceMetrics)

lemma no_member_gdt_client_metrics_StorageMetrics:
  "find_member (layout gdt_client_metrics_StorageMetrics) ''has_current_cache_size_bytes'' = None"
  "find_member (layout gdt_client_metrics_StorageMetrics) ''current_cache_size_bytes_count'' = None"
  "find_member (layout gdt_client_metrics_StorageMetrics) ''has_max_cache_size_bytes'' = None"
  "find_member (layout gdt_client_metrics_StorageMetrics) ''max_cache_size_bytes_count'' = None"
  by (simp_all add: layout_gdt_client_metrics_StorageMetrics)

lemma walk_gdt_client_metrics_StorageMetrics:
  "map (data_at gdt_client_metrics_StorageMetrics_fields 0) [0..<2] =
     [0, 8]"
  "map (size_at gdt_client_metrics_StorageMetrics_fields 0) [0..<2] =
     [0, 8]"
  "wf_fields gdt_client_metrics_StorageMetrics_fields" "nfields gdt_client_metrics_StorageMetrics_fields = 2"
  "sorted_wrt (<) (map f_tag (butlast gdt_client_metrics_StorageMetrics_fields))"
  by code_simp+

lemma fits_gdt_client_metrics_StorageMetrics: "fits gdt_client_metrics_StorageMetrics gdt_client_metrics_StorageMetrics_fields"
  by (simp add: fits_def walk_gdt_client_metrics_StorageMetrics data_members_gdt_client_metrics_StorageMetrics offsetof_def size_member_def
      find_gdt_client_metrics_StorageMetrics no_member_gdt_client_metrics_StorageMetrics)

lemma no_member_gdt_client_metrics_TimeWindow:
  "find_member (layout gdt_client_metrics_TimeWindow) ''has_start_ms'' = None"
  "find_member (layout gdt_client_metrics_TimeWindow) ''start_ms_count'' = None"
  "find_member (layout gdt_client_metrics_TimeWindow) ''has_end_ms'' = None"
  "find_member (layout gdt_client_metrics_TimeWindow) ''end_ms_count'' = None"
  by (simp_all add: layout_gdt_client_metrics_TimeWindow)

lemma walk_gdt_client_metrics_TimeWindow:
  "map (data_at gdt_client_metrics_TimeWindow_fields 0) [0..<2] =
     [0, 8]"
  "map (size_at gdt_client_metrics_TimeWindow_fields 0) [0..<2] =
     [0, 8]"
  "wf_fields gdt_client_metrics_TimeWindow_fields" "nfields gdt_client_metrics_TimeWindow_fields = 2"
  "sorted_wrt (<) (map f_tag (butlast gdt_client_metrics_TimeWindow_fields))"
  by code_simp+

lemma fits_gdt_client_metrics_TimeWindow: "fits gdt_client_metrics_TimeWindow gdt_client_metrics_TimeWindow_fields"
  by (simp add: fits_def walk_gdt_client_metrics_TimeWindow data_members_gdt_client_metrics_TimeWindow offsetof_def size_member_def
      find_gdt_client_metrics_TimeWindow no_member_gdt_client_metrics_TimeWindow)

lemma no_member_gdt_client_metrics_GlobalMetrics:
  "find_member (layout gdt_client_metrics_GlobalMetrics) ''has_storage_metrics'' = None"
  "find_member (layout gdt_client_metrics_GlobalMetrics) ''storage_metrics_count'' = None"
  by (simp_all add: layout_gdt_client_metrics_GlobalMetrics)

lemma walk_gdt_client_metrics_GlobalMetrics:
  "data_at gdt_client_metrics_GlobalMetrics_fields 0 0 = 0" "size_at gdt_client_metrics_GlobalMetrics_fields 0 0 = 0"
  "wf_fields gdt_client_metrics_GlobalMetrics_fields" "nfields gdt_client_metrics_GlobalMetrics_fields = 1" "sorted_wrt (<) (map f_tag (butlast gdt_client_metrics_GlobalMetrics_fields))"
  by code_simp+

lemma fits_gdt_client_metrics_GlobalMetrics: "fits gdt_client_metrics_GlobalMetrics gdt_client_metrics_GlobalMetrics_fields"
  by (simp add: fits_def walk_gdt_client_metrics_GlobalMetrics data_members_gdt_client_metrics_GlobalMetrics offsetof_def size_member_def
      find_gdt_client_metrics_GlobalMetrics no_member_gdt_client_metrics_GlobalMetrics del: data_at.simps size_at.simps)

lemma no_member_gdt_client_metrics_ClientMetrics:
  "find_member (layout gdt_client_metrics_ClientMetrics) ''has_window'' = None"
  "find_member (layout gdt_client_metrics_ClientMetrics) ''window_count'' = None"
  "find_member (layout gdt_client_metrics_ClientMetrics) ''has_log_source_metrics'' = None"
  "find_member (layout gdt_client_metrics_ClientMetrics) ''has_global_metrics'' = None"
  "find_member (layout gdt_client_metrics_ClientMetrics) ''global_metrics_count'' = None"
  "find_member (layout gdt_client_metrics_ClientMetrics) ''has_app_namespace'' = None"
  "find_member (layout gdt_client_metrics_ClientMetrics) ''app_namespace_count'' = None"
  by (simp_all add: layout_gdt_client_metrics_ClientMetrics)

lemma walk_gdt_client_metrics_ClientMetrics:
  "map (data_at gdt_client_metrics_ClientMetrics_fields 0) [0..<4] =
     [0, 24, 32, 48]"
  "map (size_at gdt_client_metrics_ClientMetrics_fields 0) [0..<4] =
     [0, 16, 32, 48]"
  "wf_fields gdt_client_metrics_ClientMetrics_fields" "nfields gdt_client_metrics_ClientMetrics_fields = 4"
  "sorted_wrt (<) (map f_tag (butlast gdt_client_metrics_ClientMetrics_fields))"
  by code_simp+

lemma fits_gdt_client_metrics_ClientMetrics: "fits gdt_client_metrics_ClientMetrics gdt_client_metrics_ClientMetrics_fields"
  by (simp add: fits_def walk_gdt_client_metrics_ClientMetrics data_members_gdt_client_metrics_ClientMetrics offsetof_def size_member_def
      find_gdt_client_metrics_ClientMetrics no_member_gdt_client_metrics_ClientMetrics)

lemma no_member_logs_proto_mobilesdk_ios_ICoreConfiguration:
  "find_member (layout logs_proto_mobilesdk_ios_ICoreConfiguration) ''has_sdk_service_installed'' = None"
  "find_member (layout logs_proto_mobilesdk_ios_ICoreConfiguration) ''has_device_model'' = None"
  "find_member (layout logs_proto_mobilesdk_ios_ICoreConfiguration) ''device_model_count'' = None"
  "find_member (layout logs_proto_mobilesdk_ios_ICoreConfiguration) ''has_app_id'' = None"
  "find_member (layout logs_proto_mobilesdk_ios_ICoreConfiguration) ''app_id_count'' = None"
  "find_member (layout logs_proto_mobilesdk_ios_ICoreConfiguration) ''has_bundle_id'' = None"
  "find_member (layout logs_proto_mobilesdk_ios_ICoreConfiguration) ''bundle_id_count'' = None"
  "find_member (layout logs_proto_mobilesdk_ios_ICoreConfiguration) ''has_icore_version'' = None"
  "find_member (layout logs_proto_mobilesdk_ios_ICoreConfiguration) ''icore_version_count'' = None"
  "find_member (layout logs_proto_mobilesdk_ios_ICoreConfiguration) ''has_sdk_version'' = None"
  "find_member (layout logs_proto_mobilesdk_ios_ICoreConfiguration) ''sdk_version_count'' = None"
  "find_member (layout logs_proto_mobilesdk_ios_ICoreConfiguration) ''has_os_version'' = None"
  "find_member (layout logs_proto_mobilesdk_ios_ICoreConfiguration) ''os_version_count'' = None"
  "find_member (layout logs_proto_mobilesdk_ios_ICoreConfiguration) ''has_min_supported_ios_version'' = None"
  "find_member (layout logs_proto_mobilesdk_ios_ICoreConfiguration) ''min_supported_ios_version_count'' = None"
  "find_member (layout logs_proto_mobilesdk_ios_ICoreConfiguration) ''has_apple_framework_version'' = None"
  "find_member (layout logs_proto_mobilesdk_ios_ICoreConfiguration) ''apple_framework_version_count'' = None"
  "find_member (layout logs_proto_mobilesdk_ios_ICoreConfiguration) ''has_platform_info'' = None"
  "find_member (layout logs_proto_mobilesdk_ios_ICoreConfiguration) ''platform_info_count'' = None"
  by (simp_all add: layout_logs_proto_mobilesdk_ios_ICoreConfiguration)

lemma walk_logs_proto_mobilesdk_ios_ICoreConfiguration:
  "map (data_at logs_proto_mobilesdk_ios_ICoreConfiguration_fields 0) [0..<21] =
     [4, 16, 24, 32, 40, 52, 56, 64, 76, 84, 88, 96, 105, 107, 112, 120, 129, 132, 136, 145, 147]"
  "map (size_at logs_proto_mobilesdk_ios_ICoreConfiguration_fields 0) [0..<21] =
     [0, 8, 24, 32, 40, 48, 56, 64, 72, 80, 88, 96, 104, 106, 108, 120, 128, 130, 136, 144, 146]"
  "wf_fields logs_proto_mobilesdk_ios_ICoreConfiguration_fields" "nfields logs_proto_mobilesdk_ios_ICoreConfiguration_fields = 21"
  "sorted_wrt (<) (map f_tag (butlast logs_proto_mobilesdk_ios_ICoreConfiguration_fields))"
  by code_simp+

lemma fits_logs_proto_mobilesdk_ios_ICoreConfiguration: "fits logs_proto_mobilesdk_ios_ICoreConfiguration logs_proto_mobilesdk_ios_ICoreConfiguration_fields"
  by (simp add: fits_def walk_logs_proto_mobilesdk_ios_ICoreConfiguration data_members_logs_proto_mobilesdk_ios_ICoreConfiguration offsetof_def size_member_def
      find_logs_proto_mobilesdk_ios_ICoreConfiguration no_member_logs_proto_mobilesdk_ios_ICoreConfiguration)

lemma separate_gdt_cct_IosClientInfo: "separate gdt_cct_IosClientInfo gdt_cct_IosClientInfo_fields"
  by code_simp

lemma separate_gdt_cct_MacClientInfo: "separate gdt_cct_MacClientInfo gdt_cct_MacClientInfo_fields"
  by code_simp

lemma separate_gdt_cct_ClientInfo: "separate gdt_cct_ClientInfo gdt_cct_ClientInfo_fields"
  by code_simp

lemma separate_gdt_cct_NetworkConnectionInfo: "separate gdt_cct_NetworkConnectionInfo gdt_cct_NetworkConnectionInfo_fields"
  by code_simp

lemma separate_gdt_cct_LogEvent: "separate gdt_cct_LogEvent gdt_cct_LogEvent_fields"
  by code_simp

lemma separate_gdt_cct_LogRequest: "separate gdt_cct_LogRequest gdt_cct_LogRequest_fields"
  by code_simp

lemma separate_gdt_cct_BatchedLogRequest: "separate gdt_cct_BatchedLogRequest gdt_cct_BatchedLogRequest_fields"
  by code_simp

lemma separate_gdt_cct_QosTierConfiguration: "separate gdt_cct_QosTierConfiguration gdt_cct_QosTierConfiguration_fields"
  by code_simp

lemma separate_gdt_cct_QosTiersOverride: "separate gdt_cct_QosTiersOverride gdt_cct_QosTiersOverride_fields"
  by code_simp

lemma separate_gdt_cct_LogResponse: "separate gdt_cct_LogResponse gdt_cct_LogResponse_fields"
  by code_simp

lemma separate_gdt_client_metrics_LogEventDropped: "separate gdt_client_metrics_LogEventDropped gdt_client_metrics_LogEventDropped_fields"
  by code_simp

lemma separate_gdt_client_metrics_LogSourceMetrics: "separate gdt_client_metrics_LogSourceMetrics gdt_client_metrics_LogSourceMetrics_fields"
  by code_simp

lemma separate_gdt_client_metrics_StorageMetrics: "separate gdt_client_metrics_StorageMetrics gdt_client_metrics_StorageMetrics_fields"
  by code_simp

lemma separate_gdt_client_metrics_TimeWindow: "separate gdt_client_metrics_TimeWindow gdt_client_metrics_TimeWindow_fields"
  by code_simp

lemma separate_gdt_client_metrics_GlobalMetrics: "separate gdt_client_metrics_GlobalMetrics gdt_client_metrics_GlobalMetrics_fields"
  by code_simp

lemma separate_gdt_client_metrics_ClientMetrics: "separate gdt_client_metrics_ClientMetrics gdt_client_metrics_ClientMetrics_fields"
  by code_simp

lemma separate_logs_proto_mobilesdk_ios_ICoreConfiguration: "separate logs_proto_mobilesdk_ios_ICoreConfiguration logs_proto_mobilesdk_ios_ICoreConfiguration_fields"
  by code_simp

lemmas all_fits =
  fits_gdt_cct_IosClientInfo
  fits_gdt_cct_MacClientInfo
  fits_gdt_cct_ClientInfo
  fits_gdt_cct_NetworkConnectionInfo
  fits_gdt_cct_LogEvent
  fits_gdt_cct_LogRequest
  fits_gdt_cct_BatchedLogRequest
  fits_gdt_cct_QosTierConfiguration
  fits_gdt_cct_QosTiersOverride
  fits_gdt_cct_LogResponse
  fits_gdt_client_metrics_LogEventDropped
  fits_gdt_client_metrics_LogSourceMetrics
  fits_gdt_client_metrics_StorageMetrics
  fits_gdt_client_metrics_TimeWindow
  fits_gdt_client_metrics_GlobalMetrics
  fits_gdt_client_metrics_ClientMetrics
  fits_logs_proto_mobilesdk_ios_ICoreConfiguration

lemmas all_separate =
  separate_gdt_cct_IosClientInfo
  separate_gdt_cct_MacClientInfo
  separate_gdt_cct_ClientInfo
  separate_gdt_cct_NetworkConnectionInfo
  separate_gdt_cct_LogEvent
  separate_gdt_cct_LogRequest
  separate_gdt_cct_BatchedLogRequest
  separate_gdt_cct_QosTierConfiguration
  separate_gdt_cct_QosTiersOverride
  separate_gdt_cct_LogResponse
  separate_gdt_client_metrics_LogEventDropped
  separate_gdt_client_metrics_LogSourceMetrics
  separate_gdt_client_metrics_StorageMetrics
  separate_gdt_client_metrics_TimeWindow
  separate_gdt_client_metrics_GlobalMetrics
  separate_gdt_client_metrics_ClientMetrics
  separate_logs_proto_mobilesdk_ios_ICoreConfiguration

lemma messages_fit: "list_all (\<lambda>(st, fs). fits st fs) messages"
  by (simp add: messages_def cct_messages_def client_metrics_messages_def firebasecore_messages_def all_fits)

lemma messages_separate: "list_all (\<lambda>(st, fs). separate st fs) messages"
  by (simp add: messages_def cct_messages_def client_metrics_messages_def firebasecore_messages_def all_separate)

section \<open>Properties\<close>

text \<open>
  C10. Begun on any generated message, the iterator goes through the fields of the descriptor in order, one with each
  call of \<open>pb_field_iter_next\<close>. At the \<open>k\<close>-th field \<open>pData\<close> is the address that the C compiler gave its member,
  and \<open>pSize\<close> that of its \<open>has_\<close> or count member, although the descriptors hold only differences. After the last field
  \<open>pb_field_iter_next\<close> returns false and the iterator is where it began.
\<close>

theorem descriptors_match_layout:
  assumes "(st, fs) \<in> set messages" and "k < nfields fs"
  shows "fst (pb_field_iter_begin fs base) \<and> cur (iter_after k fs base) = fs ! k \<and>
    pData (iter_after k fs base) = base + of_nat (offsetof st (data_members (members st) ! k)) \<and>
    pSize (iter_after k fs base) = base + of_nat (offsetof st (size_member st (data_members (members st) ! k))) \<and>
    pb_field_iter_next (iter_after k fs base) =
      (if Suc k < nfields fs then (True, iter_after (Suc k) fs base) else (False, snd (pb_field_iter_begin fs base)))"
proof -
  have "fits st fs"
    using messages_fit assms(1) by (auto simp: list_all_iff)
  then have wf: "wf_fields fs" and at: "data_at fs base k = base + of_nat (offsetof st (data_members (members st) ! k))"
    "size_at fs base k = base + of_nat (offsetof st (size_member st (data_members (members st) ! k)))"
    using assms(2) by (simp_all add: fits_wf fits_data_at)
  have "k < length fs" using assms(2) wf by (simp add: wf_fields_length)
  then show ?thesis
    using assms(2) wf at by (simp add: iter_after_at iter_begin_at iter_next_at field_at_def)
qed

theorem descriptors_match_layout_witness:
  "fst (pb_field_iter_begin gdt_cct_LogEvent_fields 4096) \<and>
    cur (iter_after 2 gdt_cct_LogEvent_fields 4096) = gdt_cct_LogEvent_fields ! 2 \<and>
    pData (iter_after 2 gdt_cct_LogEvent_fields 4096) =
      4096 + of_nat (offsetof gdt_cct_LogEvent (data_members (members gdt_cct_LogEvent) ! 2)) \<and>
    pSize (iter_after 2 gdt_cct_LogEvent_fields 4096) =
      4096 + of_nat (offsetof gdt_cct_LogEvent
        (size_member gdt_cct_LogEvent (data_members (members gdt_cct_LogEvent) ! 2))) \<and>
    pb_field_iter_next (iter_after 2 gdt_cct_LogEvent_fields 4096) =
      (if Suc 2 < nfields gdt_cct_LogEvent_fields then (True, iter_after (Suc 2) gdt_cct_LogEvent_fields 4096)
       else (False, snd (pb_field_iter_begin gdt_cct_LogEvent_fields 4096)))"
  by (rule descriptors_match_layout) (simp_all add: messages_def cct_messages_def walk_gdt_cct_LogEvent)

text \<open>
  The storage of different fields of a generated message does not overlap and lies inside the
  structure: each field ends no later than the next one begins.
\<close>

theorem descriptors_disjoint:
  assumes "(st, fs) \<in> set messages" and "k < nfields fs"
  shows "unat (data_at fs 0 k) + unat (prev_size (field_at fs k)) \<le>
    (if Suc k < nfields fs then unat (data_at fs 0 (Suc k)) else sizeof st)"
proof -
  have "separate st fs"
    using messages_separate assms(1) by (auto simp: list_all_iff)
  then show ?thesis
    using assms(2) by (simp add: separate_def list_all_iff del: data_at.simps)
qed

theorem descriptors_disjoint_witness:
  "unat (data_at gdt_cct_LogEvent_fields 0 5) + unat (prev_size (field_at gdt_cct_LogEvent_fields 5)) \<le>
    (if Suc 5 < nfields gdt_cct_LogEvent_fields then unat (data_at gdt_cct_LogEvent_fields 0 (Suc 5))
     else sizeof gdt_cct_LogEvent)"
  by (rule descriptors_disjoint) (simp_all add: messages_def cct_messages_def walk_gdt_cct_LogEvent)

end
