(* ===== verification/PbMessages.thy ===== *)
theory PbMessages
  imports PbRoundtrip Descriptors
begin

text \<open>
  The round trip of whole messages, and the generated message types it covers. The witness is an answer
  of the transport backend, the message that the repository decodes.
\<close>

section \<open>Plain messages of the repository\<close>

lemmas plain_simps = plain_field_def layout_ok_def spans_def apart_def data_len_def size_len_def field_at_def int_sizes_def
  wf_fields_def PB_LAST_FIELD_def pb_type_defs upt_rec Let_def
  gdt_cct_NetworkConnectionInfo_network_type_default_def gdt_cct_NetworkConnectionInfo_mobile_subtype_default_def
  gdt_cct_LogRequest_qos_tier_default_def gdt_cct_QosTierConfiguration_log_source_default_def

lemma plain_IosClientInfo: "plain (Suc 0) 56 gdt_cct_IosClientInfo_fields"
proof -
  have "map (data_at gdt_cct_IosClientInfo_fields 0) [0..<7] = [0, 8, 16, 24, 32, 40, 48]" "map (size_at gdt_cct_IosClientInfo_fields 0) [0..<7] = [0, 8, 16, 24, 32, 40, 48]"
    by (fact walk_gdt_cct_IosClientInfo)+
  then have "data_at gdt_cct_IosClientInfo_fields 0 0 = 0" "data_at gdt_cct_IosClientInfo_fields 0 (Suc 0) = 8" "data_at gdt_cct_IosClientInfo_fields 0 (Suc (Suc 0)) = 16" "data_at gdt_cct_IosClientInfo_fields 0 (Suc (Suc (Suc 0))) = 24" "data_at gdt_cct_IosClientInfo_fields 0 (Suc (Suc (Suc (Suc 0)))) = 32" "data_at gdt_cct_IosClientInfo_fields 0 (Suc (Suc (Suc (Suc (Suc 0))))) = 40" "data_at gdt_cct_IosClientInfo_fields 0 (Suc (Suc (Suc (Suc (Suc (Suc 0)))))) = 48"
    "size_at gdt_cct_IosClientInfo_fields 0 0 = 0" "size_at gdt_cct_IosClientInfo_fields 0 (Suc 0) = 8" "size_at gdt_cct_IosClientInfo_fields 0 (Suc (Suc 0)) = 16" "size_at gdt_cct_IosClientInfo_fields 0 (Suc (Suc (Suc 0))) = 24" "size_at gdt_cct_IosClientInfo_fields 0 (Suc (Suc (Suc (Suc 0)))) = 32" "size_at gdt_cct_IosClientInfo_fields 0 (Suc (Suc (Suc (Suc (Suc 0))))) = 40" "size_at gdt_cct_IosClientInfo_fields 0 (Suc (Suc (Suc (Suc (Suc (Suc 0)))))) = 48"
    by (simp_all add: upt_rec del: data_at.simps size_at.simps)
  then show ?thesis
    using walk_gdt_cct_IosClientInfo(4)
    by (simp add: plain_simps gdt_cct_IosClientInfo_fields_eq del: data_at.simps size_at.simps)
qed

lemma plain_MacClientInfo: "plain (Suc 0) 32 gdt_cct_MacClientInfo_fields"
proof -
  have "map (data_at gdt_cct_MacClientInfo_fields 0) [0..<4] = [0, 8, 16, 24]" "map (size_at gdt_cct_MacClientInfo_fields 0) [0..<4] = [0, 8, 16, 24]"
    by (fact walk_gdt_cct_MacClientInfo)+
  then have "data_at gdt_cct_MacClientInfo_fields 0 0 = 0" "data_at gdt_cct_MacClientInfo_fields 0 (Suc 0) = 8" "data_at gdt_cct_MacClientInfo_fields 0 (Suc (Suc 0)) = 16" "data_at gdt_cct_MacClientInfo_fields 0 (Suc (Suc (Suc 0))) = 24"
    "size_at gdt_cct_MacClientInfo_fields 0 0 = 0" "size_at gdt_cct_MacClientInfo_fields 0 (Suc 0) = 8" "size_at gdt_cct_MacClientInfo_fields 0 (Suc (Suc 0)) = 16" "size_at gdt_cct_MacClientInfo_fields 0 (Suc (Suc (Suc 0))) = 24"
    by (simp_all add: upt_rec del: data_at.simps size_at.simps)
  then show ?thesis
    using walk_gdt_cct_MacClientInfo(4)
    by (simp add: plain_simps gdt_cct_MacClientInfo_fields_eq del: data_at.simps size_at.simps)
qed

lemma plain_ClientInfo: "plain (Suc (Suc 0)) 112 gdt_cct_ClientInfo_fields"
proof -
  have "map (data_at gdt_cct_ClientInfo_fields 0) [0..<3] = [4, 16, 80]" "map (size_at gdt_cct_ClientInfo_fields 0) [0..<3] = [0, 8, 72]"
    by (fact walk_gdt_cct_ClientInfo)+
  then have "data_at gdt_cct_ClientInfo_fields 0 0 = 4" "data_at gdt_cct_ClientInfo_fields 0 (Suc 0) = 16" "data_at gdt_cct_ClientInfo_fields 0 (Suc (Suc 0)) = 80"
    "size_at gdt_cct_ClientInfo_fields 0 0 = 0" "size_at gdt_cct_ClientInfo_fields 0 (Suc 0) = 8" "size_at gdt_cct_ClientInfo_fields 0 (Suc (Suc 0)) = 72"
    by (simp_all add: upt_rec del: data_at.simps size_at.simps)
  then show ?thesis
    using walk_gdt_cct_ClientInfo(4) plain_IosClientInfo plain_MacClientInfo
    by (simp add: plain_simps gdt_cct_ClientInfo_fields_eq del: data_at.simps size_at.simps)
qed

lemma plain_NetworkConnectionInfo: "plain (Suc 0) 16 gdt_cct_NetworkConnectionInfo_fields"
proof -
  have "map (data_at gdt_cct_NetworkConnectionInfo_fields 0) [0..<2] = [4, 12]" "map (size_at gdt_cct_NetworkConnectionInfo_fields 0) [0..<2] = [0, 8]"
    by (fact walk_gdt_cct_NetworkConnectionInfo)+
  then have "data_at gdt_cct_NetworkConnectionInfo_fields 0 0 = 4" "data_at gdt_cct_NetworkConnectionInfo_fields 0 (Suc 0) = 12"
    "size_at gdt_cct_NetworkConnectionInfo_fields 0 0 = 0" "size_at gdt_cct_NetworkConnectionInfo_fields 0 (Suc 0) = 8"
    by (simp_all add: upt_rec del: data_at.simps size_at.simps)
  then show ?thesis
    using walk_gdt_cct_NetworkConnectionInfo(4)
    by (simp add: plain_simps gdt_cct_NetworkConnectionInfo_fields_eq del: data_at.simps size_at.simps)
qed

lemma plain_LogEvent: "plain (Suc (Suc 0)) 88 gdt_cct_LogEvent_fields"
proof -
  have "map (data_at gdt_cct_LogEvent_fields 0) [0..<6] = [8, 16, 28, 40, 56, 68]" "map (size_at gdt_cct_LogEvent_fields 0) [0..<6] = [0, 16, 24, 32, 48, 64]"
    by (fact walk_gdt_cct_LogEvent)+
  then have "data_at gdt_cct_LogEvent_fields 0 0 = 8" "data_at gdt_cct_LogEvent_fields 0 (Suc 0) = 16" "data_at gdt_cct_LogEvent_fields 0 (Suc (Suc 0)) = 28" "data_at gdt_cct_LogEvent_fields 0 (Suc (Suc (Suc 0))) = 40" "data_at gdt_cct_LogEvent_fields 0 (Suc (Suc (Suc (Suc 0)))) = 56" "data_at gdt_cct_LogEvent_fields 0 (Suc (Suc (Suc (Suc (Suc 0))))) = 68"
    "size_at gdt_cct_LogEvent_fields 0 0 = 0" "size_at gdt_cct_LogEvent_fields 0 (Suc 0) = 16" "size_at gdt_cct_LogEvent_fields 0 (Suc (Suc 0)) = 24" "size_at gdt_cct_LogEvent_fields 0 (Suc (Suc (Suc 0))) = 32" "size_at gdt_cct_LogEvent_fields 0 (Suc (Suc (Suc (Suc 0)))) = 48" "size_at gdt_cct_LogEvent_fields 0 (Suc (Suc (Suc (Suc (Suc 0))))) = 64"
    by (simp_all add: upt_rec del: data_at.simps size_at.simps)
  then show ?thesis
    using walk_gdt_cct_LogEvent(4) plain_NetworkConnectionInfo
    by (simp add: plain_simps gdt_cct_LogEvent_fields_eq del: data_at.simps size_at.simps)
qed

lemma plain_LogRequest: "plain (Suc (Suc (Suc 0))) 184 gdt_cct_LogRequest_fields"
proof -
  have "map (data_at gdt_cct_LogRequest_fields 0) [0..<6] = [8, 124, 136, 152, 168, 180]" "map (size_at gdt_cct_LogRequest_fields 0) [0..<6] = [0, 120, 128, 144, 160, 176]"
    by (fact walk_gdt_cct_LogRequest)+
  then have "data_at gdt_cct_LogRequest_fields 0 0 = 8" "data_at gdt_cct_LogRequest_fields 0 (Suc 0) = 124" "data_at gdt_cct_LogRequest_fields 0 (Suc (Suc 0)) = 136" "data_at gdt_cct_LogRequest_fields 0 (Suc (Suc (Suc 0))) = 152" "data_at gdt_cct_LogRequest_fields 0 (Suc (Suc (Suc (Suc 0)))) = 168" "data_at gdt_cct_LogRequest_fields 0 (Suc (Suc (Suc (Suc (Suc 0))))) = 180"
    "size_at gdt_cct_LogRequest_fields 0 0 = 0" "size_at gdt_cct_LogRequest_fields 0 (Suc 0) = 120" "size_at gdt_cct_LogRequest_fields 0 (Suc (Suc 0)) = 128" "size_at gdt_cct_LogRequest_fields 0 (Suc (Suc (Suc 0))) = 144" "size_at gdt_cct_LogRequest_fields 0 (Suc (Suc (Suc (Suc 0)))) = 160" "size_at gdt_cct_LogRequest_fields 0 (Suc (Suc (Suc (Suc (Suc 0))))) = 176"
    by (simp_all add: upt_rec del: data_at.simps size_at.simps)
  then show ?thesis
    using walk_gdt_cct_LogRequest(4) plain_ClientInfo
    by (simp add: plain_simps gdt_cct_LogRequest_fields_eq del: data_at.simps size_at.simps)
qed

lemma plain_QosTierConfiguration: "plain (Suc 0) 16 gdt_cct_QosTierConfiguration_fields"
proof -
  have "map (data_at gdt_cct_QosTierConfiguration_fields 0) [0..<2] = [4, 12]" "map (size_at gdt_cct_QosTierConfiguration_fields 0) [0..<2] = [0, 8]"
    by (fact walk_gdt_cct_QosTierConfiguration)+
  then have "data_at gdt_cct_QosTierConfiguration_fields 0 0 = 4" "data_at gdt_cct_QosTierConfiguration_fields 0 (Suc 0) = 12"
    "size_at gdt_cct_QosTierConfiguration_fields 0 0 = 0" "size_at gdt_cct_QosTierConfiguration_fields 0 (Suc 0) = 8"
    by (simp_all add: upt_rec del: data_at.simps size_at.simps)
  then show ?thesis
    using walk_gdt_cct_QosTierConfiguration(4)
    by (simp add: plain_simps gdt_cct_QosTierConfiguration_fields_eq del: data_at.simps size_at.simps)
qed

lemma plain_QosTiersOverride: "plain (Suc 0) 32 gdt_cct_QosTiersOverride_fields"
proof -
  have "map (data_at gdt_cct_QosTiersOverride_fields 0) [0..<2] = [8, 24]" "map (size_at gdt_cct_QosTiersOverride_fields 0) [0..<2] = [0, 16]"
    by (fact walk_gdt_cct_QosTiersOverride)+
  then have "data_at gdt_cct_QosTiersOverride_fields 0 0 = 8" "data_at gdt_cct_QosTiersOverride_fields 0 (Suc 0) = 24"
    "size_at gdt_cct_QosTiersOverride_fields 0 0 = 0" "size_at gdt_cct_QosTiersOverride_fields 0 (Suc 0) = 16"
    by (simp_all add: upt_rec del: data_at.simps size_at.simps)
  then show ?thesis
    using walk_gdt_cct_QosTiersOverride(4)
    by (simp add: plain_simps gdt_cct_QosTiersOverride_fields_eq del: data_at.simps size_at.simps)
qed

lemma plain_LogResponse: "plain (Suc (Suc 0)) 56 gdt_cct_LogResponse_fields"
proof -
  have "map (data_at gdt_cct_LogResponse_fields 0) [0..<2] = [8, 24]" "map (size_at gdt_cct_LogResponse_fields 0) [0..<2] = [0, 16]"
    by (fact walk_gdt_cct_LogResponse)+
  then have "data_at gdt_cct_LogResponse_fields 0 0 = 8" "data_at gdt_cct_LogResponse_fields 0 (Suc 0) = 24"
    "size_at gdt_cct_LogResponse_fields 0 0 = 0" "size_at gdt_cct_LogResponse_fields 0 (Suc 0) = 16"
    by (simp_all add: upt_rec del: data_at.simps size_at.simps)
  then show ?thesis
    using walk_gdt_cct_LogResponse(4) plain_QosTiersOverride
    by (simp add: plain_simps gdt_cct_LogResponse_fields_eq del: data_at.simps size_at.simps)
qed

section \<open>A sample answer\<close>

text \<open>
  A \<open>gdt_cct_LogResponse\<close> at address 4096: \<open>next_request_wait_millis\<close> is 300, and \<open>qos_tier\<close> has
  no configurations and the fingerprint 5.
\<close>

definition response_mem :: memory where
  "response_mem = (\<lambda>_. 0)(4096 := 1, 4104 := 44, 4105 := 1, 4112 := 1, 4136 := 1, 4144 := 5)"

definition response_world :: "unit world" where
  "response_world = \<lparr>mem = response_mem, blocks = [], user = (), fault = None\<rparr>"

definition response_bytes :: "u8 list" where
  "response_bytes = [8, 172, 2, 26, 2, 16, 5]"

lemma response_offsets:
  "data_at gdt_cct_LogResponse_fields 4096 0 = 4104" "data_at gdt_cct_LogResponse_fields 4096 (Suc 0) = 4120"
  "size_at gdt_cct_LogResponse_fields 4096 0 = 4096" "size_at gdt_cct_LogResponse_fields 4096 (Suc 0) = 4112"
  "data_at gdt_cct_QosTiersOverride_fields 4120 0 = 4128" "data_at gdt_cct_QosTiersOverride_fields 4120 (Suc 0) = 4144"
  "size_at gdt_cct_QosTiersOverride_fields 4120 0 = 4120" "size_at gdt_cct_QosTiersOverride_fields 4120 (Suc 0) = 4136"
  using walk_gdt_cct_LogResponse(1,2) walk_gdt_cct_QosTiersOverride(1,2)
  by (simp_all add: upt_rec data_at_shift [of _ 4096] data_at_shift [of _ 4120] size_at_shift [of _ 4096]
      size_at_shift [of _ 4120] del: data_at.simps size_at.simps)

lemmas response_simps = ref_defs field_at_def gdt_cct_LogResponse_fields_eq gdt_cct_QosTiersOverride_fields_eq
  read_signed_def response_mem_def load32_def load64_def load_bytes_def upt_rec varint_bytes.simps
  submessage_ref_def string_bytes_def

lemma override_parts:
  "field_ref response_mem sub (field_at gdt_cct_QosTiersOverride_fields 0) 4128 = Bytes []"
  "field_ref response_mem sub (field_at gdt_cct_QosTiersOverride_fields (Suc 0)) 4144 = Bytes [16, 5]"
  by (simp_all add: response_simps word_le_nat_alt)

lemma override_encode: "encode_ref (Suc 0) sample_env response_mem gdt_cct_QosTiersOverride_fields 4120 = Bytes [16, 5]"
proof -
  have two: "[0..<2] = [0, Suc 0]" by (simp add: upt_rec)
  have ltypes: "PB_LTYPE (f_type (field_at gdt_cct_QosTiersOverride_fields 0)) \<noteq> PB_LTYPE_EXTENSION"
    "PB_LTYPE (f_type (field_at gdt_cct_QosTiersOverride_fields (Suc 0))) \<noteq> PB_LTYPE_EXTENSION"
    by (simp_all add: field_at_def gdt_cct_QosTiersOverride_fields_eq pb_type_defs)
  show ?thesis
    using walk_gdt_cct_QosTiersOverride(3) ltypes
    by (simp add: message_ref_def walk_gdt_cct_QosTiersOverride(4) two response_offsets Let_def override_parts
        del: data_at.simps)
qed

lemma response_encode:
  "encode_ref (Suc (Suc 0)) sample_env (mem response_world) gdt_cct_LogResponse_fields 4096 = Bytes response_bytes"
proof -
  have two: "[0..<2] = [0, Suc 0]" by (simp add: upt_rec)
  have parts: "field_ref response_mem (encode_ref (Suc 0) sample_env response_mem) (field_at gdt_cct_LogResponse_fields 0) 4104 =
      Bytes [8, 172, 2]"
    "field_ref response_mem (encode_ref (Suc 0) sample_env response_mem) (field_at gdt_cct_LogResponse_fields (Suc 0)) 4120 =
      Bytes [26, 2, 16, 5]"
    using override_encode by (simp_all add: response_simps word_le_nat_alt del: encode_ref.simps)
  have ltypes: "PB_LTYPE (f_type (field_at gdt_cct_LogResponse_fields 0)) \<noteq> PB_LTYPE_EXTENSION"
    "PB_LTYPE (f_type (field_at gdt_cct_LogResponse_fields (Suc 0))) \<noteq> PB_LTYPE_EXTENSION"
    by (simp_all add: field_at_def gdt_cct_LogResponse_fields_eq pb_type_defs)
  show ?thesis
    using walk_gdt_cct_LogResponse(3) ltypes
    unfolding encode_ref.simps(2) [of "Suc 0"] message_ref_def
    by (simp add: walk_gdt_cct_LogResponse(4) two response_offsets Let_def parts response_world_def response_bytes_def
        del: data_at.simps encode_ref.simps)
qed

lemma override_view:
  "view (Suc 0) response_mem gdt_cct_QosTiersOverride_fields 4120 = [Absent, Scalar [5, 0, 0, 0, 0, 0, 0, 0]]"
proof -
  have two: "[0..<2] = [0, Suc 0]" by (simp add: upt_rec)
  have "view_at 0 response_mem gdt_cct_QosTiersOverride_fields 4120 0 = Absent"
    "view_at 0 response_mem gdt_cct_QosTiersOverride_fields 4120 (Suc 0) = Scalar [5, 0, 0, 0, 0, 0, 0, 0]"
    unfolding view_at_def response_offsets by (simp_all add: field_view_def response_simps)
  then show ?thesis
    unfolding view_Suc walk_gdt_cct_QosTiersOverride(4) two by simp
qed

lemma response_view:
  "view (Suc (Suc 0)) response_mem gdt_cct_LogResponse_fields 4096 =
    [Scalar [44, 1, 0, 0, 0, 0, 0, 0], Message [Absent, Scalar [5, 0, 0, 0, 0, 0, 0, 0]]]"
proof -
  have two: "[0..<2] = [0, Suc 0]" by (simp add: upt_rec)
  have f: "field_at gdt_cct_LogResponse_fields 0 = PbField 1 0x11 8 (- 8) 8 0 PtrNull"
    "field_at gdt_cct_LogResponse_fields (Suc 0) = PbField 3 0x18 8 (- 8) 32 0 (PtrFields gdt_cct_QosTiersOverride_fields)"
    by (simp_all add: field_at_def gdt_cct_LogResponse_fields_eq)
  have "view_at (Suc 0) response_mem gdt_cct_LogResponse_fields 4096 0 = Scalar [44, 1, 0, 0, 0, 0, 0, 0]"
    unfolding view_at_def response_offsets f
    by (simp add: field_view_def pb_type_defs response_mem_def load_bytes_def upt_rec del: view.simps)
  moreover have "view_at (Suc 0) response_mem gdt_cct_LogResponse_fields 4096 (Suc 0) =
      Message [Absent, Scalar [5, 0, 0, 0, 0, 0, 0, 0]]"
    unfolding view_at_def response_offsets f
    by (simp add: field_view_def pb_type_defs override_view del: view.simps)
      (simp add: response_mem_def)
  ultimately show ?thesis
    unfolding view_Suc walk_gdt_cct_LogResponse(4) two by simp
qed

section \<open>Property\<close>

text \<open>
  C2. What \<open>pb_encode\<close> writes, \<open>pb_decode\<close> reads back: for a message of a plain type whose pointer fields are
  empty, encoding into a buffer with room and decoding from it succeed, and the decoded structure has the
  same fields present with the same values, through all its submessages. All bytes are consumed, and
  memory outside the structure (and outside the one local variable of each call whose address is
  taken) is left as it was.
\<close>

theorem pb_message_roundtrip:
  assumes "plain d n fs" and "n \<le> 2 ^ 64"
    and "encode_ref d E (mem w) fs src = Bytes bs"
    and "length bs \<le> unat sz" and "unat sz \<le> length buf" and "length buf < 2 ^ 32"
    and "list_all pointer_free (view d (mem w) fs src)"
    and "frames E' d \<inter> region dest n = {}"
  shows "\<exists>s s' w2. pb_encode d E fs src (pb_ostream_from_buffer buf sz, w) = (True, s, w) \<and>
    pb_decode d E' fs dest (pb_istream_from_buffer (o_buf s) (bytes_written s), w1) = (Some (), s', w2) \<and>
    bytes_left s' = 0 \<and> view d (mem w2) fs dest = view d (mem w) fs src \<and>
    (\<forall>a. a \<notin> region dest n \<union> frames E' d \<longrightarrow> mem w2 a = mem w1 a) \<and> fault w2 = fault w1"
proof -
  obtain s where s: "pb_encode d E fs src (pb_ostream_from_buffer buf sz, w) = (True, s, w)"
    and inv: "istream_inv (pb_istream_from_buffer (o_buf s) (bytes_written s))"
    and inp: "input (pb_istream_from_buffer (o_buf s) (bytes_written s)) = bs"
    using from_buffer_emits [OF encode_ref_emits [OF assms(3)], of buf sz] assms(4-6) by auto
  have len: "length bs < 2 ^ 32" using assms(4-6) by simp
  obtain m' where m': "takes_all (pb_decode d E' fs dest) w1 bs () (w1\<lparr>mem := m'\<rparr>)"
      "view d m' fs dest = view d (mem w) fs src" "changes_only (region dest n \<union> frames E' d) (mem w1) m'"
    using pb_decode_takes [OF assms(1-3) len assms(7,8)] by blast
  let ?i = "pb_istream_from_buffer (o_buf s) (bytes_written s)"
  have run: "pb_decode d E' fs dest (?i, w1) = (Some (), adv (length bs) ?i, w1\<lparr>mem := m'\<rparr>)"
    using m'(1) inv inp by (simp add: takes_all_def)
  have "unat (bytes_left (adv (length bs) ?i)) = 0"
    using adv_pos(2) [OF inv, of "length bs"] length_input [OF inv] inp by simp
  then have "bytes_left (adv (length bs) ?i) = 0" by (simp add: unat_eq_0)
  then show ?thesis
    using s run m' by (intro exI [of _ s] exI [of _ "adv (length bs) ?i"] exI [of _ "w1\<lparr>mem := m'\<rparr>"])
      (simp add: changes_only_def)
qed

theorem pb_message_roundtrip_witness:
  "\<exists>s s' w2. pb_encode (Suc (Suc 0)) sample_env gdt_cct_LogResponse_fields 4096
      (pb_ostream_from_buffer (replicate 16 0) 16, response_world) = (True, s, response_world) \<and>
    pb_decode (Suc (Suc 0)) sample_env gdt_cct_LogResponse_fields 8192
      (pb_istream_from_buffer (o_buf s) (bytes_written s), blank_world) = (Some (), s', w2) \<and>
    bytes_left s' = 0 \<and>
    view (Suc (Suc 0)) (mem w2) gdt_cct_LogResponse_fields 8192 =
      view (Suc (Suc 0)) (mem response_world) gdt_cct_LogResponse_fields 4096 \<and>
    (\<forall>a. a \<notin> region 8192 56 \<union> frames sample_env (Suc (Suc 0)) \<longrightarrow> mem w2 a = mem blank_world a) \<and>
    fault w2 = fault blank_world"
proof (rule pb_message_roundtrip [OF plain_LogResponse _ response_encode])
  show "list_all pointer_free (view (Suc (Suc 0)) (mem response_world) gdt_cct_LogResponse_fields 4096)"
    by (simp add: response_view response_world_def del: view.simps)
next
  show "frames sample_env (Suc (Suc 0)) \<inter> region 8192 56 = {}"
    using region_apart [of 0 4 8192 56 8248 0] by (auto simp: frames_def sample_env_def)
qed (simp_all add: response_bytes_def)

end
