(* ===== verification/PbWireTheorems.thy ===== *)
theory PbWireTheorems
  imports PbCodec
begin

text \<open>
  What the wire-format layer guarantees: every writer is undone by its reader, skipping takes off
  exactly one value, and which varints the readers take and refuse.
\<close>

section \<open>Writing and reading back\<close>

text \<open>
  \<open>reads_back f g v w'\<close>: what \<open>f\<close> writes into a buffer, \<open>g\<close> reads from the part that was written, and
  leaves nothing of it.
\<close>

definition reads_back ::
  "('u est \<Rightarrow> bool \<times> 'u est) \<Rightarrow> ('u, 'a) dec \<Rightarrow> u8 list \<Rightarrow> size_t \<Rightarrow> 'u world \<Rightarrow> 'a \<Rightarrow> 'u world \<Rightarrow> bool" where
  "reads_back f g buf n w v w' =
     (case f (pb_ostream_from_buffer buf n, w) of (ok, s, w1) \<Rightarrow>
        (case g (pb_istream_from_buffer (o_buf s) (bytes_written s), w1) of (r, t, w2) \<Rightarrow>
           ok \<and> r = Some v \<and> bytes_left t = 0 \<and> w2 = w'))"

lemma reads_backI:
  assumes f: "emits f w (Some bs)" and buf: "length buf < 2 ^ 63" "unat n \<le> length buf" "length bs \<le> unat n"
    and g: "parses g p" and p: "p w bs = Some (v, length bs, w')"
  shows "reads_back f g buf n w v w'"
proof -
  obtain s where run: "f (pb_ostream_from_buffer buf n, w) = (True, s, w)"
    and inv: "istream_inv (pb_istream_from_buffer (o_buf s) (bytes_written s))"
    and inp: "input (pb_istream_from_buffer (o_buf s) (bytes_written s)) = bs"
    using from_buffer_emits [OF f buf] by auto
  let ?t = "pb_istream_from_buffer (o_buf s) (bytes_written s)"
  have "g (?t, w) = (Some v, adv (length bs) ?t, w')"
    using istream.parses_SomeD [OF g inv] p inp by simp
  moreover have "unat (bytes_left (adv (length bs) ?t)) = 0"
    using adv_pos(2) [OF inv, of "length bs"] inp length_input [OF inv] by simp
  ultimately show ?thesis
    using run by (simp add: reads_back_def unat_eq_0)
qed

lemma pure_SomeI: "q bs = Some (v, n) \<Longrightarrow> pure q w bs = Some (v, n, w)"
  by (simp add: pure_def)

text \<open>
  A 64-bit value that \<open>pb_encode_varint\<close> has written is what \<open>pb_decode_varint\<close> reads, and 10 bytes
  of buffer are always enough.
\<close>

theorem pb_varint_roundtrip:
  assumes "length buf < 2 ^ 63" and "unat n \<le> length buf" and "10 \<le> unat n"
  shows "reads_back (pb_encode_varint E v) (pb_decode_varint E) buf n w v w"
  using assms varint_bytes_length [of v] varint.dec_enc [of v "[]"]
  by (intro reads_backI [OF pb_encode_varint_emits _ _ _ pb_decode_varint_parses]) (auto intro: pure_SomeI)

theorem pb_varint_roundtrip_witness:
  "reads_back (pb_encode_varint sample_env 300) (pb_decode_varint sample_env) (replicate 12 0) 10 blank_world 300 blank_world"
  by (rule pb_varint_roundtrip) simp_all

text \<open>
  Signed values in zigzag form are read back, negative ones included.
\<close>

theorem pb_svarint_roundtrip:
  assumes "length buf < 2 ^ 63" and "unat n \<le> length buf" and "10 \<le> unat n"
  shows "reads_back (pb_encode_svarint E v) (pb_decode_svarint E) buf n w v w"
  using assms varint_bytes_length [of "zigzag v"] varint.dec_enc [of "zigzag v" "[]"]
  by (intro reads_backI [OF pb_encode_svarint_emits _ _ _ pb_decode_svarint_parses])
    (simp_all add: p_bind_def pure_def p_yield_def)

theorem pb_svarint_roundtrip_witness:
  "reads_back (pb_encode_svarint sample_env (- 5)) (pb_decode_svarint sample_env) (replicate 12 0) 10 blank_world (- 5) blank_world"
  by (rule pb_svarint_roundtrip) simp_all

text \<open>
  \<open>pb_encode_fixed32\<close> followed by \<open>pb_decode_fixed32\<close> copies the word from one address to
  another, whatever the byte order of the wire format.
\<close>

theorem pb_fixed32_roundtrip:
  assumes "length buf < 2 ^ 63" and "unat n \<le> length buf" and "4 \<le> unat n"
  shows "reads_back (pb_encode_fixed32 E a) (pb_decode_fixed32 E b) buf n w ()
    (w\<lparr>mem := store32 (mem w) b (load32 (mem w) a)\<rparr>)"
  using assms fixed32.dec_enc [of "load32 (mem w) a" "[]"]
  by (intro reads_backI [OF pb_encode_fixed32_emits _ _ _ pb_decode_fixed32_parses]) (auto simp: p_word_def)

theorem pb_fixed32_roundtrip_witness:
  "reads_back (pb_encode_fixed32 sample_env 64) (pb_decode_fixed32 sample_env 128) (replicate 4 0) 4 blank_world ()
    (blank_world\<lparr>mem := store32 (mem blank_world) 128 (load32 (mem blank_world) 64)\<rparr>)"
  by (rule pb_fixed32_roundtrip) simp_all

text \<open>
  The same for 64-bit words.
\<close>

theorem pb_fixed64_roundtrip:
  assumes "length buf < 2 ^ 63" and "unat n \<le> length buf" and "8 \<le> unat n"
  shows "reads_back (pb_encode_fixed64 E a) (pb_decode_fixed64 E b) buf n w ()
    (w\<lparr>mem := store64 (mem w) b (load64 (mem w) a)\<rparr>)"
  using assms fixed64.dec_enc [of "load64 (mem w) a" "[]"]
  by (intro reads_backI [OF pb_encode_fixed64_emits _ _ _ pb_decode_fixed64_parses]) (auto simp: p_word_def)

theorem pb_fixed64_roundtrip_witness:
  "reads_back (pb_encode_fixed64 sample_env 64) (pb_decode_fixed64 sample_env 128) (replicate 9 0) 8 blank_world ()
    (blank_world\<lparr>mem := store64 (mem blank_world) 128 (load64 (mem blank_world) 64)\<rparr>)"
  by (rule pb_fixed64_roundtrip) simp_all

text \<open>
  A length-prefixed string from memory is read back through a substream, which ends exactly
  after it.
\<close>

theorem pb_string_roundtrip:
  assumes "length buf < 2 ^ 63" and "unat n \<le> length buf" and "unat k < 2 ^ 32"
    and "unat k + 10 \<le> unat n"
  shows "reads_back (pb_encode_string E (SrcMem a) k) (in_substream E (pb_read E DstLocal k)) buf n w
    (load_bytes (mem w) a (unat k)) w"
proof -
  let ?bs = "load_bytes (mem w) a (unat k)"
  have len: "length ?bs = unat k"
    by (simp add: load_bytes_def)
  have f: "emits (pb_encode_string E (SrcMem a) k) w (Some (string_bytes ?bs))"
    by (rule pb_encode_string_emits) simp
  have "string_of (string_bytes ?bs @ []) = Some (?bs, length (string_bytes ?bs))"
    by (rule string.dec_enc) (use assms(3) len in simp)
  then obtain m j where m: "v32_of (string_bytes ?bs) = Some (m, j)"
    and le: "unat m \<le> length (string_bytes ?bs) - j"
    and bs: "take (unat m) (drop j (string_bytes ?bs)) = ?bs" and j: "j + unat m = length (string_bytes ?bs)"
    by (auto simp: string_of_def split: option.splits if_splits)
  have "unat m = unat k"
    using arg_cong [OF bs, of length] le len by simp
  with m le bs j have "p_sub (p_local (unat k)) w (string_bytes ?bs) = Some (?bs, length (string_bytes ?bs), w)"
    by (simp add: p_sub_def p_local_def)
  then show ?thesis
    using assms len varint_bytes_length [of "of_nat (length ?bs)"]
    by (intro reads_backI [OF f _ _ _ in_substream_parses [OF pb_read_local_parses]])
      (auto simp: string_bytes_def)
qed

theorem pb_string_roundtrip_witness:
  "reads_back (pb_encode_string sample_env (SrcMem 4096) 5) (in_substream sample_env (pb_read sample_env DstLocal 5)) (replicate 15 0) 15 blank_world
    (load_bytes (mem blank_world) 4096 (unat (5 :: u64))) blank_world"
  by (rule pb_string_roundtrip) simp_all

text \<open>
  A field key is read back as its wire type and its tag, for every tag protobuf allows.
\<close>

theorem pb_tag_roundtrip:
  assumes "length buf < 2 ^ 63" and "unat n \<le> length buf" and "10 \<le> unat n"
    and "unat tag < 2 ^ 29" and "tag \<noteq> 0" and "unat wt < 8"
  shows "\<exists>s. pb_encode_tag E wt tag (pb_ostream_from_buffer buf n, w) = (True, s, w) \<and>
    (\<exists>t. pb_decode_tag E (pb_istream_from_buffer (o_buf s) (bytes_written s), w) = ((Some (wt, tag), False), t, w) \<and>
      bytes_left t = 0)"
proof -
  let ?bs = "tag_bytes wt tag"
  have "length ?bs \<le> unat n"
    using assms(3) varint_bytes_length order_trans unfolding tag_bytes_def by blast
  then obtain s where run: "pb_encode_tag E wt tag (pb_ostream_from_buffer buf n, w) = (True, s, w)"
    and inv: "istream_inv (pb_istream_from_buffer (o_buf s) (bytes_written s))"
    and inp: "input (pb_istream_from_buffer (o_buf s) (bytes_written s)) = ?bs"
    using from_buffer_emits [OF pb_encode_tag_emits assms(1,2)] by blast
  have "key_of ?bs = Some (Some (wt, tag), length ?bs)"
    using key_of_tag_bytes [of tag wt "[]"] assms by simp
  then have "pb_decode_tag E (pb_istream_from_buffer (o_buf s) (bytes_written s), w) =
      ((Some (wt, tag), False), adv (length ?bs) (pb_istream_from_buffer (o_buf s) (bytes_written s)), w)"
    using pb_decode_tag_key [OF inv, of E w] inp by (simp add: tag_bytes_def)
  moreover have "unat (bytes_left (adv (length ?bs) (pb_istream_from_buffer (o_buf s) (bytes_written s)))) = 0"
    using adv_pos(2) [OF inv, of "length ?bs"] inp length_input [OF inv] by simp
  ultimately show ?thesis
    using run by (auto simp: unat_eq_0)
qed

theorem pb_tag_roundtrip_witness:
  "\<exists>s. pb_encode_tag sample_env 2 16 (pb_ostream_from_buffer (replicate 10 0) 10, blank_world) = (True, s, blank_world) \<and>
    (\<exists>t. pb_decode_tag sample_env (pb_istream_from_buffer (o_buf s) (bytes_written s), blank_world) = ((Some (2, 16), False), t, blank_world) \<and>
      bytes_left t = 0)"
  by (rule pb_tag_roundtrip) simp_all

section \<open>Skipping\<close>

text \<open>The four kinds of value the wire format knows, their wire types and their bytes.\<close>

datatype wire_value = Varint u64 | Fixed64 u64 | Delimited "u8 list" | Fixed32 u32

fun wire_type_of :: "wire_value \<Rightarrow> pb_wire_type_t" where
  "wire_type_of (Varint v) = PB_WT_VARINT"
| "wire_type_of (Fixed64 v) = PB_WT_64BIT"
| "wire_type_of (Delimited bs) = PB_WT_STRING"
| "wire_type_of (Fixed32 v) = PB_WT_32BIT"

fun value_bytes :: "wire_value \<Rightarrow> u8 list" where
  "value_bytes (Varint v) = varint_bytes v"
| "value_bytes (Fixed64 v) = bytes_le 8 v"
| "value_bytes (Delimited bs) = string_bytes bs"
| "value_bytes (Fixed32 v) = bytes_le 4 v"

fun value_ok :: "wire_value \<Rightarrow> bool" where
  "value_ok (Delimited bs) \<longleftrightarrow> length bs < 2 ^ 32"
| "value_ok _ \<longleftrightarrow> True"

lemma value_end_bytes: "value_ok x \<Longrightarrow> value_end (wire_type_of x) (value_bytes x @ xs) = Some ((), length (value_bytes x))"
  using varint.skip_enc fixed64.skip_enc string.skip_enc fixed32.skip_enc by (cases x) simp_all

lemma pb_skip_value:
  assumes "value_ok x" and "istream_inv s" and "input s = value_bytes x @ xs"
  shows "pb_skip_field E (wire_type_of x) (s, w) = (Some (), adv (length (value_bytes x)) s, w)"
    and "istream_inv (adv (length (value_bytes x)) s)" and "input (adv (length (value_bytes x)) s) = xs"
  using parses_pureD [OF pb_skip_field_parses [of E "wire_type_of x"] assms(2), of w] value_end_bytes [OF assms(1)]
    istream.valid_adv [OF assms(2), of "length (value_bytes x)"]
    istream.rest_adv [OF assms(2), of "length (value_bytes x)"] assms(3)
  by (simp_all add: outcome_def)

text \<open>
  C7. \<open>pb_skip_field\<close> takes exactly one value off the stream, whatever follows it, so a reader that
  does not know a field stays in step with the writer.
\<close>

theorem pb_skip_field_exact:
  assumes "value_ok x" and "istream_inv s" and "input s = value_bytes x @ xs"
  shows "\<exists>t. pb_skip_field E (wire_type_of x) (s, w) = (Some (), t, w) \<and> istream_inv t \<and> input t = xs"
  using pb_skip_value [OF assms] by blast

theorem pb_skip_field_exact_witness:
  "\<exists>t. pb_skip_field sample_env (wire_type_of (Delimited [1, 2, 3]))
      (pb_istream_from_buffer (value_bytes (Delimited [1, 2, 3]) @ [9]) 5, blank_world) = (Some (), t, blank_world) \<and>
    istream_inv t \<and> input t = [9]"
  by (rule pb_skip_field_exact)
    (simp_all add: istream_inv_def input_def pb_istream_from_buffer_def string_bytes_def varint_bytes.simps)

text \<open>
  A wire type other than the four known ones is refused with an error and nothing is read.
\<close>

theorem pb_skip_field_invalid:
  assumes "wt \<noteq> PB_WT_VARINT" and "wt \<noteq> PB_WT_64BIT" and "wt \<noteq> PB_WT_STRING" and "wt \<noteq> PB_WT_32BIT"
  shows "pb_skip_field E wt (s, w) = (None, s\<lparr>i_errmsg := PB_SET_ERROR (i_errmsg s) ''invalid wire_type''\<rparr>, w)"
  using assms by (simp add: pb_skip_field_def fail_def ierror_def)

theorem pb_skip_field_invalid_witness:
  "let s = pb_istream_from_buffer [8, 1] 2 in
    pb_skip_field sample_env 3 (s, blank_world) = (None, s\<lparr>i_errmsg := PB_SET_ERROR (i_errmsg s) ''invalid wire_type''\<rparr>, blank_world)"
  unfolding Let_def by (rule pb_skip_field_invalid) simp_all

section \<open>Which varints are taken\<close>

text \<open>
  \<open>pb_decode_varint32\<close> takes every value of 32 bits, and a negative \<open>int32\<close> written as a
  sign-extended 64-bit varint as well; of the latter it returns the low 32 bits.
\<close>

theorem pb_decode_varint32_accepts:
  assumes "istream_inv s" and "input s = varint_bytes v @ xs"
    and "v = ucast (x :: u32) \<or> v = scast x \<and> bit x 31"
  shows "\<exists>t. pb_decode_varint32 E (s, w) = (Some x, t, w) \<and> istream_inv t \<and>
    unat (i_state t) = unat (i_state s) + length (input s) - length (input t) \<and> i_errmsg t = i_errmsg s"
proof -
  obtain n where "v32_of (input s) = Some (x, n)"
    using assms(2,3) v32_roundtrip v32_of_sign_extended by auto
  then have n: "n \<le> length (input s)" and run: "pb_decode_varint32 E (s, w) = (Some x, adv n s, w)"
    using parses_pureD [OF pb_decode_varint32_parses [of E] assms(1), of w] by (auto simp: outcome_def)
  then show ?thesis
    using istream.valid_adv [OF assms(1) n] istream.rest_adv [OF assms(1) n] adv_pos [OF assms(1) n] by simp
qed

lemma min_int_bytes:
  "(scast (0x80000000 :: u32) :: u64) = 0xFFFFFFFF80000000" "length (varint_bytes 0xFFFFFFFF80000000) = 10"
  by code_simp (simp add: varint_bytes.simps)

theorem pb_decode_varint32_accepts_witness:
  "\<exists>t. pb_decode_varint32 sample_env (pb_istream_from_buffer (varint_bytes 0xFFFFFFFF80000000) 10, blank_world) =
      (Some 0x80000000, t, blank_world) \<and> istream_inv t \<and>
    unat (i_state t) = unat (i_state (pb_istream_from_buffer (varint_bytes 0xFFFFFFFF80000000) 10)) +
      length (input (pb_istream_from_buffer (varint_bytes 0xFFFFFFFF80000000) 10)) - length (input t) \<and>
    i_errmsg t = i_errmsg (pb_istream_from_buffer (varint_bytes 0xFFFFFFFF80000000) 10)"
  by (rule pb_decode_varint32_accepts [where xs = "[]" and v = "0xFFFFFFFF80000000"])
    (simp_all add: istream_inv_def input_def pb_istream_from_buffer_def min_int_bytes)

text \<open>
  C8. A varint that stands for a value from \<open>2 ^ 32\<close> up to \<open>2 ^ 63\<close> (as the shortest encoding writes
  it) is refused by \<open>pb_decode_varint32\<close>: no length and no tag is cut to 32 bits.
\<close>

theorem pb_decode_varint32_refuses:
  assumes "istream_inv s" and "input s = varint_bytes v @ xs" and "2 ^ 32 \<le> unat v" and "unat v < 2 ^ 63"
  shows "\<exists>s' w'. pb_decode_varint32 E (s, w) = (None, s', w') \<and> within s s'"
  using parses_pureD [OF pb_decode_varint32_parses [of E] assms(1), of w] v32_of_above [OF assms(3,4)] assms(2)
  by (simp add: outcome_def)

theorem pb_decode_varint32_refuses_witness:
  "\<exists>s' blank_world'. pb_decode_varint32 sample_env (pb_istream_from_buffer [128, 128, 128, 128, 16] 5, blank_world) = (None, s', blank_world') \<and>
    within (pb_istream_from_buffer [128, 128, 128, 128, 16] 5) s'"
  by (rule pb_decode_varint32_refuses [where v = "2 ^ 32" and xs = "[]"])
    (simp_all add: istream_inv_def input_def pb_istream_from_buffer_def varint_bytes.simps)

text \<open>
  Varints longer than needed: \<open>m\<close> groups of seven bits of \<open>v\<close>, each with the bit that says that more follow,
  then \<open>n\<close> groups of zeros and a last byte. \<open>varint_value\<close> is the number that a varint stands for.
\<close>

primrec groups :: "nat \<Rightarrow> u64 \<Rightarrow> u8 list" where
  "groups 0 v = []"
| "groups (Suc m) v = (ucast (v AND 0x7F) OR 0x80) # groups m (drop_bit 7 v)"

definition long_varint :: "u64 \<Rightarrow> nat \<Rightarrow> u8 \<Rightarrow> u8 list" where
  "long_varint v n c = groups 5 v @ replicate n 0x80 @ [c]"

primrec varint_value :: "u8 list \<Rightarrow> nat" where
  "varint_value [] = 0"
| "varint_value (b # bs) = unat (b AND 0x7F) + 128 * varint_value bs"

lemma length_groups [simp]: "length (groups m v) = m"
  by (induction m arbitrary: v) simp_all

lemma varint_value_groups:
  "unat v < 2 ^ (7 * m) \<Longrightarrow> varint_value (groups m v @ bs) = unat v + 2 ^ (7 * m) * varint_value bs"
proof (induction m arbitrary: v)
  case 0
  then show ?case by simp
next
  case (Suc m)
  have "unat (drop_bit 7 v) < 2 ^ (7 * m)" using drop_7_less [of v "7 * m"] Suc.prems by simp
  from Suc.IH [OF this]
  have ih: "varint_value (groups m (drop_bit 7 v) @ bs) = unat v div 128 + 2 ^ (7 * m) * varint_value bs" by (simp add: unat_drop_bit)
  have "unat (ucast (take_bit 7 v) :: u8) = unat v mod 128"
  proof -
    have "unat (take_bit 7 v) < 2 ^ 8" by (simp add: unat_take_bit)
    then show ?thesis by (simp add: unsigned_ucast_eq unat_take_bit take_bit_nat_eq_self)
  qed
  then show ?case by (simp only: groups.simps append_Cons varint_value.simps next_byte(2) ih) (simp add: algebra_simps power_add)
qed

lemma varint_value_zeros: "varint_value (replicate n 0x80 @ bs) = 2 ^ (7 * n) * varint_value bs"
  by (induction n) (simp_all add: power_add)

lemma v32_groups:
  "k + m \<le> 5 \<Longrightarrow> unat v < 2 ^ (7 * m) \<Longrightarrow>
    v32 (of_nat (7 * k)) r (groups m v @ bs) = (more ^^ m) (v32 (of_nat (7 * (k + m))) (r OR push_bit (7 * k) (ucast v)) bs)"
proof (induction m arbitrary: k r v)
  case 0
  then have "v = 0" by (simp add: unat_eq_zero)
  then show ?case by simp
next
  case (Suc m)
  have k: "k \<le> 4" using Suc.prems(1) by simp
  have "unat (drop_bit 7 v) < 2 ^ (7 * m)" using drop_7_less [of v "7 * m"] Suc.prems(2) by simp
  from Suc.IH [OF _ this, of "Suc k" "r OR push_bit (7 * k) (ucast (take_bit 7 v))"] Suc.prems(1)
  have ih: "v32 (of_nat (7 * Suc k)) (r OR push_bit (7 * k) (ucast (take_bit 7 v))) (groups m (drop_bit 7 v) @ bs) =
      (more ^^ m) (v32 (of_nat (7 * (k + Suc m))) (r OR push_bit (7 * k) (ucast v)) bs)"
    using take_drop_7_32 [of "7 * k" v] by (simp add: or.assoc)
  show ?case
    unfolding groups.simps append_Cons v32.simps(2) step_low [OF k] next_byte(2) ucast_take_bit_7' bitpos_Suc
    using ih by (simp only: option.case next_byte(1) not_False_eq_True if_True funpow.simps comp_apply)
qed

lemma v32_zeros: "v32 bp r (replicate n 0x80 @ bs) = (more ^^ n) (v32 (bp + 7 * of_nat n) r bs)"
proof (induction n arbitrary: bp)
  case 0
  then show ?case by simp
next
  case (Suc n)
  have "varint32_step bp r 0x80 = Some r" by (simp add: varint32_step_def Let_def)
  moreover have "(0x80 :: u8) AND 0x80 \<noteq> 0" using next_byte(1) [of 0] by simp
  ultimately show ?case
    by (simp only: replicate_Suc append_Cons v32.simps(2) option.case if_True not_False_eq_True Suc funpow.simps comp_apply)
      (simp add: algebra_simps)
qed

lemma v32_of_long:
  assumes "unat v < 2 ^ 35"
  shows "v32_of (long_varint v n c @ xs) =
    (more ^^ (5 + n)) (v32_end (v32 (35 + 7 * of_nat n) (ucast v) (c # xs)))"
proof -
  have "unat (drop_bit 7 v) < 2 ^ (7 * 4)" using drop_7_less [of v "7 * 4"] assms by simp
  from v32_groups [of 1 4, OF _ this, of "ucast (take_bit 7 v)" "replicate n 0x80 @ c # xs"]
  have g: "v32 (of_nat (7 * 1)) (ucast (take_bit 7 v)) (groups 4 (drop_bit 7 v) @ replicate n 0x80 @ c # xs) =
      (more ^^ 4) (v32 35 (ucast v) (replicate n 0x80 @ c # xs))"
    using take_drop_7_32 [of 0 v] by simp
  have e: "v32_end ((more ^^ k) q) = (more ^^ k) (v32_end q)" for k q by (induction k) simp_all
  have "groups 5 v = (ucast (v AND 0x7F) OR 0x80) # groups 4 (drop_bit 7 v)" by (simp add: numeral_eq_Suc)
  then have "v32_of (long_varint v n c @ xs) = more ((more ^^ 4) ((more ^^ n) (v32_end (v32 (35 + 7 * of_nat n) (ucast v) (c # xs)))))"
    unfolding long_varint_def append_Cons append.assoc append_Nil
    using next_byte [of v] g v32_zeros [of 35 "ucast v" n "c # xs"] e ucast_take_bit_7' [of v] by simp
  then show ?thesis by (simp add: funpow_add numeral_eq_Suc)
qed

lemma more_funpow: "(more ^^ k) (Some (x, j)) = Some (x, k + j)"
  by (induction k) simp_all

lemma low_group_byte:
  fixes c :: u8
  assumes "c < 128"
  shows "c AND 0x80 = 0" and "c AND 0x7F = c"
proof -
  have "unat (ucast c :: u64) < 128" using assms by (simp add: word_less_nat_alt unat_ucast_up_simp)
  then have l: "(ucast c :: u64) < 128" by (simp add: word_less_nat_alt)
  have u: "ucast (ucast c :: u64) = c" by (simp add: ucast_up_ucast_id is_up)
  show "c AND 0x80 = 0" using last_byte(1) [OF l] u by simp
  show "c AND 0x7F = c" using arg_cong [OF last_byte(2) [OF l], of "ucast :: u64 \<Rightarrow> u8"] unfolding u by (simp add: ucast_up_ucast_id is_up)
qed

text \<open>
  C9. Longer than needed, a 32-bit varint is not always checked. \<open>long_varint v n c\<close> stands for \<open>v + 2 ^ (35 + 7 * n) * c\<close>.
  With \<open>c = 0\<close>, for every \<open>v\<close> below \<open>2 ^ 35\<close> and every number of padding bytes, it is read as \<open>v mod 2 ^ 32\<close>: the
  bits that the fifth byte has above the 32nd are looked at only when it is the last byte, although
  the same \<open>v\<close> on five bytes is refused. With 32 padding bytes the 8-bit position counter has wrapped around, and the
  38th byte, which stands for \<open>2 ^ 259 * c\<close>, lands in the result at bit 3.
\<close>

theorem pb_decode_varint32_overlong:
  assumes "istream_inv s" and "input s = long_varint v n c @ xs" and "unat v < 2 ^ 35" and "c < 128"
  shows "varint_value (long_varint v n c) = unat v + 2 ^ (35 + 7 * n) * unat c \<and>
    (c = 0 \<longrightarrow> pb_decode_varint32 E (s, w) = (Some (of_nat (unat v mod 2 ^ 32)), adv (6 + n) s, w)) \<and>
    (n = 32 \<longrightarrow> pb_decode_varint32 E (s, w) = (Some (of_nat (unat v mod 2 ^ 32) OR push_bit 3 (ucast c)), adv 38 s, w))"
proof (intro conjI impI)
  have run: "pb_decode_varint32 E (s, w) = (Some r, adv k s, w)" if "v32_of (input s) = Some (r, k)" for r k
    using parses_pureD [OF pb_decode_varint32_parses [of E] assms(1), of w] that by (simp add: outcome_def)
  have low: "of_nat (unat v mod 2 ^ 32) = (ucast v :: u32)"
    by (rule word_unat_eq_iff [THEN iffD2]) (simp add: unsigned_ucast_eq take_bit_eq_mod unsigned_of_nat)
  show "varint_value (long_varint v n c) = unat v + 2 ^ (35 + 7 * n) * unat c"
    using assms(3,4) varint_value_groups [of v 5] by (simp add: long_varint_def varint_value_zeros low_group_byte power_add)
  show "pb_decode_varint32 E (s, w) = (Some (of_nat (unat v mod 2 ^ 32)), adv (6 + n) s, w)" if "c = 0"
  proof (rule run)
    have "varint32_step bp r 0 = Some r" for bp r by (simp add: varint32_step_def Let_def)
    then show "v32_of (input s) = Some (of_nat (unat v mod 2 ^ 32), 6 + n)"
      unfolding assms(2) v32_of_long [OF assms(3)] low by (simp add: that v32_end_def more_funpow)
  qed
  show "pb_decode_varint32 E (s, w) = (Some (of_nat (unat v mod 2 ^ 32) OR push_bit 3 (ucast c)), adv 38 s, w)" if "n = 32"
  proof (rule run)
    have pos: "35 + 7 * of_nat n = (3 :: u8)" unfolding that by simp
    have "varint32_step 3 r c = Some (r OR push_bit 3 (ucast c))" for r
      using low_group_byte(2) [OF assms(4)] by (simp add: varint32_step_def Let_def)
    then show "v32_of (input s) = Some (of_nat (unat v mod 2 ^ 32) OR push_bit 3 (ucast c), 38)"
      unfolding assms(2) v32_of_long [OF assms(3)] low pos
      using low_group_byte(1) [OF assms(4)] by (simp add: that v32_end_def more_funpow)
  qed
qed

theorem pb_decode_varint32_overlong_witness:
  "pb_decode_varint32 sample_env (pb_istream_from_buffer [0x80, 0x80, 0x80, 0x80, 0x90, 0x00] 6, blank_world) =
     (Some 0, adv 6 (pb_istream_from_buffer [0x80, 0x80, 0x80, 0x80, 0x90, 0x00] 6), blank_world) \<and>
   pb_decode_varint32 sample_env (pb_istream_from_buffer (long_varint 0 32 1) 38, blank_world) =
     (Some 8, adv 38 (pb_istream_from_buffer (long_varint 0 32 1) 38), blank_world)"
proof
  have "long_varint (2 ^ 32) 0 0 = [0x80, 0x80, 0x80, 0x80, 0x90, 0x00]" by code_simp
  then show "pb_decode_varint32 sample_env (pb_istream_from_buffer [0x80, 0x80, 0x80, 0x80, 0x90, 0x00] 6, blank_world) =
     (Some 0, adv 6 (pb_istream_from_buffer [0x80, 0x80, 0x80, 0x80, 0x90, 0x00] 6), blank_world)"
    using pb_decode_varint32_overlong [of "pb_istream_from_buffer [0x80, 0x80, 0x80, 0x80, 0x90, 0x00] 6" "2 ^ 32" 0 0 "[]" sample_env blank_world]
    by (simp add: istream_inv_def input_def pb_istream_from_buffer_def)
  have "length (long_varint 0 32 1) = 38" by (simp add: long_varint_def)
  then show "pb_decode_varint32 sample_env (pb_istream_from_buffer (long_varint 0 32 1) 38, blank_world) =
     (Some 8, adv 38 (pb_istream_from_buffer (long_varint 0 32 1) 38), blank_world)"
    using pb_decode_varint32_overlong [of "pb_istream_from_buffer (long_varint 0 32 1) 38" 0 32 1 "[]" sample_env blank_world]
    by (simp add: istream_inv_def input_def pb_istream_from_buffer_def)
qed

text \<open>
  \<open>pb_decode_varint\<close> reads at most 10 bytes: it refuses an input none of whose first 10 bytes
  ends a varint, and an input that is over before one does.
\<close>

theorem pb_decode_varint_bounded:
  assumes "istream_inv s" and "\<forall>b \<in> set (take 10 (input s)). bit b 7"
  shows "\<exists>s' w'. pb_decode_varint E (s, w) = (None, s', w') \<and> within s s'"
proof -
  have run: "v64 (of_nat (7 * k)) r bs = None" if "k \<le> 10" and "\<forall>b \<in> set (take (10 - k) bs). bit b 7" for k r bs
    using that
  proof (induction bs arbitrary: k r)
    case (Cons b bs)
    show ?case
    proof (cases "k = 10")
      case False
      then have k: "10 - k = Suc (10 - Suc k)" "Suc k \<le> 10"
        using Cons.prems(1) by simp_all
      then have "bit b 7" "\<forall>b \<in> set (take (10 - Suc k) bs). bit b 7"
        using Cons.prems(2) by simp_all
      then show ?thesis
        using Cons.IH [OF k(2)] by (simp add: Let_def and_80_0 bitpos_Suc [symmetric] add.commute)
    qed simp
  qed simp
  have "v64 0 0 (input s) = None"
    using run [of 0 "input s" 0] assms(2) by simp
  then show ?thesis
    using parses_pureD [OF pb_decode_varint_parses [of E] assms(1), of w] by (simp add: outcome_def)
qed

theorem pb_decode_varint_bounded_witness:
  "\<exists>s' blank_world'. pb_decode_varint sample_env (pb_istream_from_buffer (replicate 12 0xFF) 12, blank_world) = (None, s', blank_world') \<and>
    within (pb_istream_from_buffer (replicate 12 0xFF) 12) s'"
  by (rule pb_decode_varint_bounded) (simp_all add: istream_inv_def input_def pb_istream_from_buffer_def)

end
