(* ===== verification/FBase64.thy ===== *)
theory FBase64
  imports Prelude
begin

text \<open>
  The Base64 codec \<open>fbase64.c\<close> of the Realtime Database's web socket. A character is a byte; a C
  string is the list of its characters, its terminator being the end of the list or a zero in it.
  Buffers are lists that are at least as long as the size the caller passes.
\<close>

section \<open>The alphabet\<close>

definition Base64 :: "u8 list" where
  "Base64 = map of_char ''ABCDEFGHIJKLMNOPQRSTUVWXYZabcdefghijklmnopqrstuvwxyz0123456789+/''"

definition Pad64 :: u8 where
  "Pad64 = of_char (CHR ''='')"

text \<open>\<open>isspace\<close> in the C locale, and \<open>strchr(Base64, ch) - Base64\<close> for a character that is not 0.\<close>

definition isspace :: "u8 \<Rightarrow> bool" where
  "isspace c \<longleftrightarrow> c = 32 \<or> 9 \<le> c \<and> c \<le> 13"

fun index_of :: "u8 \<Rightarrow> u8 list \<Rightarrow> nat option" where
  "index_of c [] = None"
| "index_of c (x # xs) = (if x = c then Some 0 else map_option Suc (index_of c xs))"

definition digit_value :: "u8 \<Rightarrow> u8 option" where
  "digit_value c = map_option of_nat (index_of c Base64)"

definition digit :: "u8 \<Rightarrow> u8" where
  "digit v = Base64 ! unat v"

section \<open>Encoding\<close>

text \<open>
  The values \<open>output[0..3]\<close> of a group of three bytes. The assignments to \<open>target[datalength++]\<close> are
  \<open>put_bytes\<close>.
\<close>

definition group_values :: "u8 \<Rightarrow> u8 \<Rightarrow> u8 \<Rightarrow> u8 list" where
  "group_values a b c =
     [drop_bit 2 a, push_bit 4 (a AND 0x03) + drop_bit 4 b, push_bit 2 (b AND 0x0F) + drop_bit 6 c,
      c AND 0x3F]"

text \<open>The loop over whole groups: what is left of the source and \<open>datalength\<close>, or a failure.\<close>

fun ntop_groups :: "u8 list \<Rightarrow> nat \<Rightarrow> u8 list \<Rightarrow> nat \<Rightarrow> (u8 list \<times> nat) option \<times> u8 list" where
  "ntop_groups (a # b # c # src) datalength target targsize =
     (if datalength + 4 > targsize then (None, target)
      else ntop_groups src (datalength + 4) (put_bytes target datalength (map digit (group_values a b c))) targsize)"
| "ntop_groups src datalength target targsize = (Some (src, datalength), target)"

definition ntop_rest :: "u8 list \<Rightarrow> nat \<Rightarrow> u8 list \<Rightarrow> nat \<Rightarrow> nat option \<times> u8 list" where
  "ntop_rest src datalength target targsize =
     (if src = [] then (Some datalength, target)
      else if datalength + 4 > targsize then (None, target)
      else
        let inp = src @ replicate (3 - length src) 0; out = group_values (inp ! 0) (inp ! 1) (inp ! 2);
            chars = [digit (out ! 0), digit (out ! 1),
                     if length src = 1 then Pad64 else digit (out ! 2), Pad64]
        in (Some (datalength + 4), put_bytes target datalength chars))"

text \<open>The result is the C \<open>int\<close> and the target buffer. \<open>(int)datalength\<close> keeps 32 bits.\<close>

definition f_b64_ntop :: "u8 list \<Rightarrow> u8 list \<Rightarrow> nat \<Rightarrow> int \<times> u8 list" where
  "f_b64_ntop src target targsize =
     (case ntop_groups src 0 target targsize of
        (None, target1) \<Rightarrow> (- 1, target1)
      | (Some (src1, datalength), target1) \<Rightarrow>
          (case ntop_rest src1 datalength target1 targsize of
             (None, target2) \<Rightarrow> (- 1, target2)
           | (Some datalength, target2) \<Rightarrow>
               if datalength \<ge> targsize then (- 1, target2)
               else (sint (of_nat datalength :: u32), target2[datalength := 0])))"

section \<open>Decoding\<close>

text \<open>
  The variables of \<open>f_b64_pton\<close>: \<open>state\<close>, \<open>tarindex\<close> (an unsigned int) and the target, \<open>None\<close> for
  \<open>NULL\<close>.
\<close>

record pton =
  state :: nat
  tarindex :: u32
  target :: "u8 list option"

definition put_target :: "u32 \<Rightarrow> (u8 \<Rightarrow> u8) \<Rightarrow> u8 list \<Rightarrow> u8 list" where
  "put_target i f t = t[unat i := f (t ! unat i)]"

text \<open>The \<open>switch (state)\<close> for a character of value \<open>v\<close>; \<open>None\<close> is \<open>return (-1)\<close>.\<close>

definition pton_digit :: "u8 \<Rightarrow> u64 \<Rightarrow> pton \<Rightarrow> pton option" where
  "pton_digit v targsize p =
     (let i = tarindex p; t = target p in
      if state p = 0 then
        if t \<noteq> None \<and> ucast i \<ge> targsize then None
        else Some (p\<lparr>state := 1, target := map_option (put_target i (\<lambda>_. push_bit 2 v)) t\<rparr>)
      else if state p = 1 then
        if t \<noteq> None \<and> ucast (i + 1) \<ge> targsize then None
        else Some (p\<lparr>state := 2, tarindex := i + 1,
          target := map_option (\<lambda>t. put_target (i + 1) (\<lambda>_. push_bit 4 (v AND 0x0F))
            (put_target i (\<lambda>x. x OR drop_bit 4 v) t)) t\<rparr>)
      else if state p = 2 then
        if t \<noteq> None \<and> ucast (i + 1) \<ge> targsize then None
        else Some (p\<lparr>state := 3, tarindex := i + 1,
          target := map_option (\<lambda>t. put_target (i + 1) (\<lambda>_. push_bit 6 (v AND 0x03))
            (put_target i (\<lambda>x. x OR drop_bit 2 v) t)) t\<rparr>)
      else
        if t \<noteq> None \<and> ucast i \<ge> targsize then None
        else Some (p\<lparr>state := 0, tarindex := i + 1,
          target := map_option (put_target i (\<lambda>x. x OR v)) t\<rparr>))"

text \<open>
  The main loop. It ends at the terminator or at a pad character, with the characters after it, or
  fails; the variables are returned in every case.
\<close>

datatype pton_end = Failed | AtEnd | AtPad "u8 list"

primrec pton_loop :: "u8 list \<Rightarrow> u64 \<Rightarrow> pton \<Rightarrow> pton_end \<times> pton" where
  "pton_loop [] targsize p = (AtEnd, p)"
| "pton_loop (ch # src) targsize p =
     (if ch = 0 then (AtEnd, p)
      else if isspace ch then pton_loop src targsize p
      else if ch = Pad64 then (AtPad src, p)
      else
        (case digit_value ch of
           None \<Rightarrow> (Failed, p)
         | Some v \<Rightarrow>
             (case pton_digit v targsize p of
                None \<Rightarrow> (Failed, p)
              | Some p' \<Rightarrow> pton_loop src targsize p')))"

text \<open>The characters up to the terminator.\<close>

definition c_str :: "u8 list \<Rightarrow> u8 list" where
  "c_str src = takeWhile (\<lambda>c. c \<noteq> 0) src"

definition extra_bits :: "pton \<Rightarrow> bool" where
  "extra_bits p \<longleftrightarrow> (case target p of None \<Rightarrow> False | Some t \<Rightarrow> t ! unat (tarindex p) \<noteq> 0)"

definition pton_pad :: "u8 list \<Rightarrow> pton \<Rightarrow> int" where
  "pton_pad src p =
     (let ok = (\<lambda>rest. if \<not> list_all isspace (c_str rest) then - 1
                       else if extra_bits p then - 1 else sint (tarindex p)) in
      if state p = 0 \<or> state p = 1 then - 1
      else if state p = 2 then
        (case dropWhile isspace (c_str src) of
           [] \<Rightarrow> - 1
         | ch # rest \<Rightarrow> if ch \<noteq> Pad64 then - 1 else ok rest)
      else ok src)"

definition f_b64_pton :: "u8 list \<Rightarrow> u8 list option \<Rightarrow> u64 \<Rightarrow> int \<times> u8 list option" where
  "f_b64_pton src t targsize =
     (case pton_loop src targsize \<lparr>state = 0, tarindex = 0, target = t\<rparr> of
        (Failed, p) \<Rightarrow> (- 1, target p)
      | (AtPad rest, p) \<Rightarrow> (pton_pad rest p, target p)
      | (AtEnd, p) \<Rightarrow> (if state p \<noteq> 0 then - 1 else sint (tarindex p), target p))"

section \<open>Digits\<close>

lemma length_Base64 [simp]: "length Base64 = 64"
  by (simp add: Base64_def)

lemma digits_table:
  "list_all (\<lambda>n. let c = Base64 ! n in
      index_of c Base64 = Some n \<and> c \<noteq> 0 \<and> c \<noteq> Pad64 \<and> \<not> isspace c) [0..<64]"
  by (simp add: Base64_def Pad64_def isspace_def upt_rec)

lemma digit_facts:
  assumes "v < 64"
  shows "digit_value (digit v) = Some v" "digit v \<noteq> 0" "digit v \<noteq> Pad64" "\<not> isspace (digit v)"
proof -
  have "unat v \<in> set [0..<64]"
    using assms by (simp add: word_less_nat_alt)
  with digits_table show "digit_value (digit v) = Some v" "digit v \<noteq> 0" "digit v \<noteq> Pad64" "\<not> isspace (digit v)"
    unfolding list_all_iff Let_def by (auto simp: digit_def digit_value_def)
qed

section \<open>Groups of bits\<close>

lemma bit_u8_above [simp]: "8 \<le> n \<Longrightarrow> \<not> bit (w :: u8) n"
  using bit_imp_le_length [of w n] by auto

lemma u8_eqI:
  assumes "bit v 0 = bit w 0" "bit v 1 = bit w 1" "bit v 2 = bit w 2" "bit v 3 = bit w 3"
    "bit v 4 = bit w 4" "bit v 5 = bit w 5" "bit v 6 = bit w 6" "bit v 7 = bit w 7"
  shows "v = (w :: u8)"
proof (rule bit_word_eqI)
  fix n assume "n < LENGTH(8)"
  then have "n = 0 \<or> n = 1 \<or> n = 2 \<or> n = 3 \<or> n = 4 \<or> n = 5 \<or> n = 6 \<or> n = 7"
    by auto
  then show "bit v n = bit w n"
    using assms by auto
qed

lemma and_3: "x AND 3 = take_bit 2 x" and and_F: "x AND 0xF = take_bit 4 x"
  and and_3F: "x AND 0x3F = take_bit 6 x" for x :: "'a::len word"
  by (simp_all add: take_bit_eq_mask mask_eq_exp_minus_1)

lemma group_values_or:
  "group_values a b c =
     [drop_bit 2 a, push_bit 4 (take_bit 2 a) OR drop_bit 4 b, push_bit 2 (take_bit 4 b) OR drop_bit 6 c,
      take_bit 6 c]"
proof -
  have "push_bit 4 (take_bit 2 a) + drop_bit 4 b = push_bit 4 (take_bit 2 a) OR drop_bit 4 b"
    by (rule disjunctive_add_eq_or) (rule u8_eqI; simp add: bit_simps)
  moreover have "push_bit 2 (take_bit 4 b) + drop_bit 6 c = push_bit 2 (take_bit 4 b) OR drop_bit 6 c"
    by (rule disjunctive_add_eq_or) (rule u8_eqI; simp add: bit_simps)
  ultimately show ?thesis
    by (simp add: group_values_def and_3 and_F and_3F)
qed

lemma group_values_small: "v \<in> set (group_values a b c) \<Longrightarrow> v < 64"
proof -
  assume "v \<in> set (group_values a b c)"
  then have "take_bit 6 v = v"
    unfolding group_values_or set_simps insert_iff empty_iff
    by (elim disjE FalseE; hypsubst; intro u8_eqI; simp add: bit_simps)
  then have "unat v = unat (take_bit 6 v)" by simp
  then have "unat v < 64"
    by (simp add: unat_take_bit)
  then show "v < 64"
    by (simp add: word_less_nat_alt)
qed

lemma base64_digits:
  fixes d0 d1 d2 d3 :: nat
  assumes "d1 < 64" and "d2 < 64" and "d3 < 64"
  shows "(let n = ((d0 * 64 + d1) * 64 + d2) * 64 + d3
    in [n div 262144, n div 4096 mod 64, n div 64 mod 64, n mod 64]) = [d0, d1, d2, d3]"
proof -
  let ?n = "((d0 * 64 + d1) * 64 + d2) * 64 + d3"
  have 1: "?n div 64 = (d0 * 64 + d1) * 64 + d2"
    using assms by simp
  have 2: "?n div 4096 = d0 * 64 + d1"
    using div_mult2_eq [of ?n 64 64] assms by simp
  have 3: "?n div 262144 = d0"
    using div_mult2_eq [of ?n 4096 64] 2 assms by simp
  have 4: "?n mod 64 = d3"
    using assms by (simp only: mod_mult_self3 mod_less)
  have 5: "((d0 * 64 + d1) * 64 + d2) mod 64 = d2" "(d0 * 64 + d1) mod 64 = d1"
    using assms by (simp_all only: mod_mult_self3 mod_less)
  show ?thesis
    unfolding Let_def 1 2 3 4 5 ..
qed

lemma number_split:
  fixes a b c :: nat
  shows "a * 65536 + b * 256 + c =
    ((a div 4 * 64 + (a mod 4 * 16 + b div 16)) * 64 + (b mod 16 * 4 + c div 64)) * 64 + c mod 64"
proof -
  have "(q1 * 4 + r1) * 65536 + (q2 * 16 + r2) * 256 + (q3 * 64 + r3) =
      ((q1 * 64 + (r1 * 16 + q2)) * 64 + (r2 * 4 + q3)) * 64 + r3" for q1 q2 q3 r1 r2 r3 :: nat
    by simp
  from this [of "a div 4" "a mod 4" "b div 16" "b mod 16" "c div 64" "c mod 64"]
  show ?thesis
    unfolding div_mult_mod_eq .
qed

text \<open>
  The values of a group are the digits, to base 64, of the number that its bytes are to base 256.
\<close>

lemma group_values_number:
  "map unat (group_values a b c) =
    (let n = unat a * 65536 + unat b * 256 + unat c
     in [n div 262144, n div 4096 mod 64, n div 64 mod 64, n mod 64])"
proof -
  have disj: "push_bit 4 (take_bit 2 a) AND drop_bit 4 b = 0" "push_bit 2 (take_bit 4 b) AND drop_bit 6 c = 0"
    by (intro u8_eqI; simp add: bit_simps)+
  have "unat (push_bit 4 (take_bit 2 a) + drop_bit 4 b) = unat a mod 4 * 16 + unat b div 16"
    using unat_bound [of b]
    by (simp add: unat_word_ariths push_bit_eq_mult unat_drop_bit unat_take_bit)
  moreover have "unat (push_bit 2 (take_bit 4 b) + drop_bit 6 c) = unat b mod 16 * 4 + unat c div 64"
    using unat_bound [of c]
    by (simp add: unat_word_ariths push_bit_eq_mult unat_drop_bit unat_take_bit)
  moreover have "unat b div 16 < 16" "unat c div 64 < 4"
    using unat_bound [of b] unat_bound [of c] by (simp_all add: less_mult_imp_div_less)
  ultimately show ?thesis
    using base64_digits [of "unat a mod 4 * 16 + unat b div 16" "unat b mod 16 * 4 + unat c div 64"
        "unat c mod 64" "unat a div 4"]
    by (simp add: group_values_def and_3 and_F and_3F unat_drop_bit unat_take_bit Let_def number_split)
qed

lemma group_values_join:
  "push_bit 2 (drop_bit 2 a) OR drop_bit 4 (push_bit 4 (take_bit 2 a) OR drop_bit 4 b) = a"
  "push_bit 4 (take_bit 4 (push_bit 4 (take_bit 2 a) OR drop_bit 4 b)) OR
     drop_bit 2 (push_bit 2 (take_bit 4 b) OR drop_bit 6 c) = b"
  "push_bit 6 (take_bit 2 (push_bit 2 (take_bit 4 b) OR drop_bit 6 c)) OR take_bit 6 c = c"
  for a b c :: u8
  subgoal by (rule u8_eqI; simp add: bit_simps)
  subgoal by (rule u8_eqI; simp add: bit_simps)
  subgoal by (rule u8_eqI; simp add: bit_simps)
  done

end
