(* ===== verification/FBase64Proofs.thy ===== *)
theory FBase64Proofs
  imports FBase64
begin

text \<open>
  The Base64 text of a byte string as a function on lists, and how \<open>f_b64_ntop\<close> writes it and
  \<open>f_b64_pton\<close> reads it back.
\<close>

section \<open>The text of a byte string\<close>

fun b64 :: "u8 list \<Rightarrow> u8 list" where
  "b64 (a # b # c # src) = map digit (group_values a b c) @ b64 src"
| "b64 [] = []"
| "b64 [a] = map digit (take 2 (group_values a 0 0)) @ [Pad64, Pad64]"
| "b64 [a, b] = map digit (take 3 (group_values a b 0)) @ [Pad64]"

lemma length_group_values [simp]: "length (group_values a b c) = 4"
  by (simp add: group_values_def)

lemma thirds [simp]:
  "(3 + m) div 3 = Suc (m div 3)" "(5 + m) div 3 = Suc (Suc (Suc m) div 3)" "(3 + m) mod 3 = m mod 3"
  for m :: nat
  by simp_all arith?

lemma length_b64: "length (b64 src) = 4 * ((length src + 2) div 3)"
  by (induction src rule: b64.induct) simp_all

section \<open>Encoding\<close>

lemma drop_put_bytes:
  assumes "i + length cs \<le> n" and "n \<le> length t"
  shows "drop n (put_bytes t i cs) = drop n t"
  using assms by (simp add: put_bytes_eq drop_append)

lemma ntop_groups_fits:
  "datalength + 4 * (length src div 3) \<le> n \<Longrightarrow> n \<le> length t \<Longrightarrow>
    \<exists>cs rest. ntop_groups src datalength t n = (Some (rest, datalength + length cs), put_bytes t datalength cs) \<and>
      b64 src = cs @ b64 rest \<and> length rest = length src mod 3 \<and> length cs = 4 * (length src div 3)"
proof (induction src datalength t n rule: ntop_groups.induct)
  case (1 a b c src dl t n)
  let ?g = "map digit (group_values a b c)"
  have len: "length (a # b # c # src) div 3 = Suc (length src div 3)"
    "length (a # b # c # src) mod 3 = length src mod 3"
    by simp_all
  have "\<not> dl + 4 > n" "dl + 4 + 4 * (length src div 3) \<le> n" "n \<le> length (put_bytes t dl ?g)"
    using 1(2,3) by (simp_all add: len)
  from 1(1) [OF this] obtain cs rest
    where "ntop_groups src (dl + 4) (put_bytes t dl ?g) n =
        (Some (rest, dl + 4 + length cs), put_bytes (put_bytes t dl ?g) (dl + 4) cs)"
      and "b64 src = cs @ b64 rest" "length rest = length src mod 3" "length cs = 4 * (length src div 3)"
    by blast
  then show ?case
    using \<open>\<not> dl + 4 > n\<close> put_bytes_append [of t dl ?g cs]
    by (intro exI [of _ "?g @ cs"] exI [of _ rest]) (simp add: len del: length_Cons)
qed auto

lemma ntop_groups_over:
  "n < datalength + 4 * (length src div 3) \<Longrightarrow> datalength \<le> n \<Longrightarrow> n \<le> length t \<Longrightarrow>
    \<exists>t'. ntop_groups src datalength t n = (None, t') \<and> length t' = length t \<and> drop n t' = drop n t"
proof (induction src datalength t n rule: ntop_groups.induct)
  case (1 a b c src dl t n)
  show ?case
  proof (cases "dl + 4 > n")
    case False
    then have "drop n (put_bytes t dl (map digit (group_values a b c))) = drop n t"
      using 1(4) by (intro drop_put_bytes) simp_all
    moreover have "n < dl + 4 + 4 * (length src div 3)"
      using 1(2) by simp
    ultimately show ?thesis
      using 1(1) [OF False, of] False 1(4) by simp
  qed simp
qed auto

lemma ntop_rest_spec:
  assumes "length src < 3"
  shows "ntop_rest src dl t n =
    (if dl + length (b64 src) \<le> n \<or> src = [] then (Some (dl + length (b64 src)), put_bytes t dl (b64 src))
     else (None, t))"
proof -
  consider "src = []" | a where "src = [a]" | a b where "src = [a, b]"
    using assms by (cases src rule: b64.cases) auto
  then show ?thesis
    by cases (auto simp: ntop_rest_def group_values_def numeral_2_eq_2 numeral_3_eq_3)
qed

lemma thirds_up: "4 * (m div 3) + (if m mod 3 = 0 then 0 else 4) = 4 * ((m + 2) div 3)" for m :: nat
proof -
  define q r where "q = m div 3" and "r = m mod 3"
  then have m: "m + k = 3 * q + (r + k)" and r: "m mod 3 = r" "m div 3 = q" "r < 3" for k
    by simp_all
  then have "r = 0 \<or> r = 1 \<or> r = 2" by linarith
  moreover have "(3 * q + k) div 3 = q + k div 3" for k
    by simp
  ultimately show ?thesis
    unfolding m [of 2] r by auto
qed

lemma length_b64_rest:
  assumes "length rest < 3"
  shows "length (b64 rest) = (if rest = [] then 0 else 4)"
  using assms by (cases rest rule: b64.cases) (auto simp: group_values_def)

lemma f_b64_ntop_fits:
  assumes len: "4 * ((length src + 2) div 3) < n" and n: "n \<le> length t"
  shows "f_b64_ntop src t n =
    (sint (of_nat (4 * ((length src + 2) div 3)) :: u32),
     b64 src @ 0 # drop (Suc (4 * ((length src + 2) div 3))) t)"
proof -
  let ?L = "4 * ((length src + 2) div 3)"
  have "4 * (length src div 3) \<le> n"
    using len thirds_up [of "length src"] by linarith
  with ntop_groups_fits [of 0 src n t] n obtain cs rest
    where run: "ntop_groups src 0 t n = (Some (rest, length cs), put_bytes t 0 cs)"
      and b: "b64 src = cs @ b64 rest" and "length rest = length src mod 3"
    by auto
  then have rest: "length rest < 3" by simp
  have L: "length cs + length (b64 rest) = ?L"
    using length_b64 [of src] b by simp
  then have "ntop_rest rest (length cs) (put_bytes t 0 cs) n = (Some ?L, put_bytes t 0 (b64 src))"
    using len ntop_rest_spec [OF rest] put_bytes_append [of t 0 cs "b64 rest"] b by simp
  moreover have "(put_bytes t 0 (b64 src))[?L := 0] = b64 src @ 0 # drop (Suc ?L) t"
  proof -
    have lt: "length (b64 src) = ?L" "?L < length t"
      using length_b64 [of src] len n by simp_all
    then have "put_bytes t 0 (b64 src) = b64 src @ drop ?L t"
      by (simp add: put_bytes_eq)
    also have "drop ?L t = t ! ?L # drop (Suc ?L) t"
      using lt by (simp add: Cons_nth_drop_Suc)
    finally show ?thesis
      using lt(1) by (simp add: list_update_append)
  qed
  ultimately show ?thesis
    using len run by (simp add: f_b64_ntop_def)
qed

lemma f_b64_ntop_over:
  assumes len: "n \<le> 4 * ((length src + 2) div 3)" and n: "n \<le> length t"
  shows "\<exists>t'. f_b64_ntop src t n = (- 1, t') \<and> length t' = length t \<and> drop n t' = drop n t"
proof (cases "4 * (length src div 3) \<le> n")
  case True
  with ntop_groups_fits [of 0 src n t] n obtain cs rest
    where run: "ntop_groups src 0 t n = (Some (rest, length cs), put_bytes t 0 cs)"
      and b: "b64 src = cs @ b64 rest" and "length rest = length src mod 3" and "length cs = 4 * (length src div 3)"
    by auto
  then have rest: "length rest < 3" and cs: "length cs \<le> n"
    using True by simp_all
  have L: "length cs + length (b64 rest) = 4 * ((length src + 2) div 3)"
    using length_b64 [of src] b by simp
  show ?thesis
  proof (cases "rest = [] \<or> length cs + length (b64 rest) \<le> n")
    case fits: True
    then have "length (b64 src) \<le> n"
      using cs b by auto
    moreover have "ntop_rest rest (length cs) (put_bytes t 0 cs) n =
        (Some (length cs + length (b64 rest)), put_bytes t 0 (b64 src))"
      using fits ntop_rest_spec [OF rest] put_bytes_append [of t 0 cs "b64 rest"] b by auto
    ultimately show ?thesis
      using run len L n by (simp add: f_b64_ntop_def drop_put_bytes)
  next
    case False
    then have "ntop_rest rest (length cs) (put_bytes t 0 cs) n = (None, put_bytes t 0 cs)"
      using ntop_rest_spec [OF rest] by simp
    then show ?thesis
      using run n cs by (simp add: f_b64_ntop_def drop_put_bytes)
  qed
next
  case False
  then show ?thesis
    using ntop_groups_over [of n 0 src t] n by (auto simp: f_b64_ntop_def)
qed

section \<open>Decoding\<close>

abbreviation at_index :: "nat \<Rightarrow> nat \<Rightarrow> u8 list \<Rightarrow> pton" where
  "at_index st i t \<equiv> \<lparr>state = st, tarindex = of_nat i, target = Some t\<rparr>"

lemma index_words:
  assumes "i < 2 ^ 31"
  shows "unat (of_nat i :: u32) = i" "unat (ucast (of_nat i :: u32) :: u64) = i"
    "(of_nat i :: u32) + 1 = of_nat (Suc i)"
  using assms by (simp_all add: unsigned_of_nat unat_ucast_up_simp take_bit_nat_eq_self)

lemma index_less:
  assumes "i < 2 ^ 31"
  shows "n \<le> (ucast (of_nat i :: u32) :: u64) \<longleftrightarrow> unat n \<le> i"
  using index_words [OF assms] by (simp add: word_le_nat_alt)

lemma pton_digit_steps:
  assumes "Suc i < 2 ^ 31"
  shows "pton_digit v n (at_index 0 i t) =
      (if unat n \<le> i then None else Some (at_index (Suc 0) i (t[i := push_bit 2 v])))"
    and "pton_digit v n (at_index (Suc 0) i t) =
      (if unat n \<le> Suc i then None
       else Some (at_index 2 (Suc i) ((t[i := t ! i OR drop_bit 4 v])[Suc i := push_bit 4 (take_bit 4 v)])))"
    and "pton_digit v n (at_index 2 i t) =
      (if unat n \<le> Suc i then None
       else Some (at_index 3 (Suc i) ((t[i := t ! i OR drop_bit 2 v])[Suc i := push_bit 6 (take_bit 2 v)])))"
    and "pton_digit v n (at_index 3 i t) =
      (if unat n \<le> i then None else Some (at_index 0 (Suc i) (t[i := t ! i OR v])))"
  using assms index_words [of i] index_less [of i n] index_less [of "Suc i" n] index_words(1) [of "Suc i"]
  by (simp_all add: pton_digit_def put_target_def Let_def and_F and_3 del: of_nat_Suc)

lemma pton_loop_digit:
  "v < 64 \<Longrightarrow> pton_loop (digit v # src) n p =
    (case pton_digit v n p of None \<Rightarrow> (Failed, p) | Some p' \<Rightarrow> pton_loop src n p')"
  by (simp add: digit_facts)

text \<open>One group of four characters stores its three bytes.\<close>

lemma put_target_group:
  assumes "Suc (Suc i) < length t"
  shows "t[i := push_bit 2 x, i := push_bit 2 x OR drop_bit 4 y, Suc i := push_bit 4 (take_bit 4 y),
    Suc i := push_bit 4 (take_bit 4 y) OR drop_bit 2 z, Suc (Suc i) := push_bit 6 (take_bit 2 z),
    Suc (Suc i) := push_bit 6 (take_bit 2 z) OR v]
    = put_bytes t i [push_bit 2 x OR drop_bit 4 y, push_bit 4 (take_bit 4 y) OR drop_bit 2 z, push_bit 6 (take_bit 2 z) OR v]"
  using assms by (simp add: list_update_swap)

lemma pton_loop_group:
  assumes i: "i + 3 < 2 ^ 31" and n: "i + 3 \<le> unat n" "unat n \<le> length t"
  shows "pton_loop (map digit (group_values a b c) @ src) n (at_index 0 i t) =
    pton_loop src n (at_index 0 (i + 3) (put_bytes t i [a, b, c]))"
proof -
  obtain x y z v where g: "group_values a b c = [x, y, z, v]"
    by (simp add: group_values_def)
  have small: "x < 64" "y < 64" "z < 64" "v < 64"
    using group_values_small [of _ a b c] g by simp_all
  have join: "push_bit 2 x OR drop_bit 4 y = a" "push_bit 4 (take_bit 4 y) OR drop_bit 2 z = b"
    "push_bit 6 (take_bit 2 z) OR v = c"
    using group_values_join [of a b] group_values_join [of b c] group_values_join [of a b] group_values_or [of a b c] g
    by simp_all
  have len: "Suc (Suc i) < length t"
    using n by simp
  have "pton_loop (map digit (group_values a b c) @ src) n (at_index 0 i t) =
    pton_loop src n (at_index 0 (Suc (Suc (Suc i)))
      (t[i := push_bit 2 x, i := push_bit 2 x OR drop_bit 4 y, Suc i := push_bit 4 (take_bit 4 y),
        Suc i := push_bit 4 (take_bit 4 y) OR drop_bit 2 z, Suc (Suc i) := push_bit 6 (take_bit 2 z),
        Suc (Suc i) := push_bit 6 (take_bit 2 z) OR v]))"
    using small i n len
    by (simp add: g pton_loop_digit pton_digit_steps nth_list_update del: of_nat_Suc pton_loop.simps)
  then show ?thesis
    unfolding put_target_group [OF len] join by (simp add: numeral_3_eq_3)
qed

text \<open>What is left at the end of the text: no byte, one byte and two pads, two bytes and one pad.\<close>

lemma pad_facts: "Pad64 \<noteq> 0" "\<not> isspace Pad64"
  by (simp_all add: Pad64_def isspace_def)

lemma pton_loop_pad: "pton_loop (Pad64 # src) n p = (AtPad src, p)"
  using pad_facts by simp

lemma pton_tail_1:
  assumes i: "i + 3 < 2 ^ 31" and n: "i + 1 < unat n" "unat n \<le> length t"
  shows "\<exists>p. pton_loop (b64 [a]) n (at_index 0 i t) = (AtPad [Pad64], p) \<and>
    pton_pad [Pad64] p = sint (of_nat (Suc i) :: u32) \<and> target p = Some (put_bytes t i [a, 0])"
proof -
  obtain x y z v where g: "group_values a 0 0 = [x, y, z, v]"
    by (simp add: group_values_def)
  have small: "x < 64" "y < 64"
    using group_values_small [of _ a 0 0] g by simp_all
  have "push_bit 2 x OR drop_bit 4 y = a" "push_bit 4 (take_bit 4 y) OR drop_bit 2 z = 0"
    using group_values_join [of a 0] group_values_or [of a 0 0] g by auto
  then have join: "push_bit 2 x OR drop_bit 4 y = a" "push_bit 4 (take_bit 4 y) = 0"
    by (simp_all add: or_eq_0_iff)
  let ?t = "t[i := a, Suc i := 0]"
  let ?p = "at_index 2 (Suc i) ?t"
  have chars: "b64 [a] = [digit x, digit y, Pad64, Pad64]"
    by (simp add: g numeral_2_eq_2)
  have "pton_loop (b64 [a]) n (at_index 0 i t) = (AtPad [Pad64], ?p)"
    unfolding chars using small i n join
    by (simp add: pton_loop_digit pton_loop_pad pton_digit_steps nth_list_update del: of_nat_Suc pton_loop.simps)
  moreover have "\<not> extra_bits ?p"
    using n index_words(1) [of "Suc i"] i by (simp add: extra_bits_def del: of_nat_Suc)
  then have "pton_pad [Pad64] ?p = sint (of_nat (Suc i) :: u32)"
    using pad_facts by (simp add: pton_pad_def c_str_def del: of_nat_Suc)
  ultimately show ?thesis
    by auto
qed

lemma pton_tail_2:
  assumes i: "i + 3 < 2 ^ 31" and n: "i + 2 < unat n" "unat n \<le> length t"
  shows "\<exists>p. pton_loop (b64 [a, b]) n (at_index 0 i t) = (AtPad [], p) \<and>
    pton_pad [] p = sint (of_nat (i + 2) :: u32) \<and> target p = Some (put_bytes t i [a, b, 0])"
proof -
  obtain x y z v where g: "group_values a b 0 = [x, y, z, v]"
    by (simp add: group_values_def)
  have small: "x < 64" "y < 64" "z < 64"
    using group_values_small [of _ a b 0] g by simp_all
  have "push_bit 2 x OR drop_bit 4 y = a" "push_bit 4 (take_bit 4 y) OR drop_bit 2 z = b"
    "push_bit 6 (take_bit 2 z) OR v = 0"
    using group_values_join [of a b] group_values_join [of b 0] group_values_or [of a b 0] g by auto
  then have join: "push_bit 2 x OR drop_bit 4 y = a" "push_bit 4 (take_bit 4 y) OR drop_bit 2 z = b"
    "push_bit 6 (take_bit 2 z) = 0"
    by (simp_all add: or_eq_0_iff)
  have len: "Suc (Suc i) < length t"
    using n by simp
  have upd: "t[i := push_bit 2 x, i := a, Suc i := push_bit 4 (take_bit 4 y), Suc i := b, Suc (Suc i) := 0] =
      t[i := a, Suc i := b, Suc (Suc i) := 0]"
    by simp
  let ?p = "at_index 3 (Suc (Suc i)) (t[i := a, Suc i := b, Suc (Suc i) := 0])"
  have chars: "b64 [a, b] = [digit x, digit y, digit z, Pad64]"
    by (simp add: g numeral_3_eq_3)
  have "pton_loop (b64 [a, b]) n (at_index 0 i t) = (AtPad [], ?p)"
    unfolding chars using small i n join len
    by (simp add: pton_loop_digit pton_loop_pad pton_digit_steps nth_list_update del: of_nat_Suc pton_loop.simps)
  moreover have "\<not> extra_bits ?p"
    using len index_words(1) [of "Suc (Suc i)"] i by (simp add: extra_bits_def del: of_nat_Suc)
  then have "pton_pad [] ?p = sint (of_nat (i + 2) :: u32)"
    by (simp add: pton_pad_def c_str_def del: of_nat_Suc)
  ultimately show ?thesis
    by auto
qed

definition pton_value :: "pton_end \<times> pton \<Rightarrow> int" where
  "pton_value r =
     (case r of
        (Failed, p) \<Rightarrow> - 1
      | (AtPad rest, p) \<Rightarrow> pton_pad rest p
      | (AtEnd, p) \<Rightarrow> if state p \<noteq> 0 then - 1 else sint (tarindex p))"

lemma f_b64_pton_value:
  "f_b64_pton src t n =
    (pton_value (pton_loop src n \<lparr>state = 0, tarindex = 0, target = t\<rparr>),
     target (snd (pton_loop src n \<lparr>state = 0, tarindex = 0, target = t\<rparr>)))"
  by (simp add: f_b64_pton_def pton_value_def split: prod.split pton_end.split)

lemma pton_loop_b64:
  "i + length src + 3 < 2 ^ 31 \<Longrightarrow> i + length src < unat n \<Longrightarrow> unat n \<le> length t \<Longrightarrow>
    \<exists>zeros. pton_value (pton_loop (b64 src) n (at_index 0 i t)) = sint (of_nat (i + length src) :: u32) \<and>
      target (snd (pton_loop (b64 src) n (at_index 0 i t))) = Some (put_bytes t i (src @ zeros)) \<and>
      length zeros \<le> 1"
proof (induction src arbitrary: i t rule: b64.induct)
  case (1 a b c src)
  have "\<exists>zeros. pton_value (pton_loop (b64 src) n (at_index 0 (i + 3) (put_bytes t i [a, b, c])))
        = sint (of_nat (i + 3 + length src) :: u32) \<and>
      target (snd (pton_loop (b64 src) n (at_index 0 (i + 3) (put_bytes t i [a, b, c]))))
        = Some (put_bytes (put_bytes t i [a, b, c]) (i + 3) (src @ zeros)) \<and> length zeros \<le> 1"
    using "1.prems" by (intro "1.IH") simp_all
  moreover have "put_bytes (put_bytes t i [a, b, c]) (i + 3) xs = put_bytes t i (a # b # c # xs)" for xs
    using put_bytes_append [of t i "[a, b, c]" xs] by (simp add: numeral_3_eq_3)
  moreover have "i + 3 + length src = i + length (a # b # c # src)"
    by simp
  moreover have "pton_loop (b64 (a # b # c # src)) n (at_index 0 i t) =
      pton_loop (b64 src) n (at_index 0 (i + 3) (put_bytes t i [a, b, c]))"
    using "1.prems" pton_loop_group [of i n t a b c "b64 src"] by simp
  ultimately show ?case
    by (simp only: append_Cons)
next
  case 2
  show ?case
    by (rule exI [of _ "[]"]) (simp add: pton_value_def)
next
  case (3 a)
  with pton_tail_1 [of i n t a] show ?case
    by (intro exI [of _ "[0]"]) (auto simp: pton_value_def simp del: b64.simps of_nat_Suc)
next
  case (4 a b)
  with pton_tail_2 [of i n t a b] show ?case
    by (intro exI [of _ "[0]"]) (auto simp: pton_value_def simp del: b64.simps of_nat_Suc)
qed

section \<open>The text is a C string\<close>

lemma c_str_idem [simp]: "c_str (c_str src) = c_str src"
  by (simp add: c_str_def)

fun end_str :: "pton_end \<Rightarrow> pton_end" where
  "end_str (AtPad r) = AtPad (c_str r)"
| "end_str e = e"

lemma pton_loop_c_str: "pton_loop (c_str src) n p = (case pton_loop src n p of (e, q) \<Rightarrow> (end_str e, q))"
  by (induction src arbitrary: p) (simp_all add: c_str_def split: option.split)

lemma f_b64_pton_c_str: "f_b64_pton (c_str src) t n = f_b64_pton src t n"
proof -
  have "pton_pad (c_str r) p = pton_pad r p" for r p
    by (simp add: pton_pad_def)
  then show ?thesis
    by (auto simp: f_b64_pton_value pton_value_def pton_loop_c_str split: prod.split pton_end.split)
qed

lemma digits_no_zero: "0 \<notin> set (map digit (take k (group_values a b c)))"
proof
  assume "0 \<in> set (map digit (take k (group_values a b c)))"
  then obtain v where "v \<in> set (take k (group_values a b c))" and "digit v = 0"
    unfolding set_map image_iff by metis
  then show False
    using group_values_small [OF in_set_takeD] digit_facts(2) by blast
qed

lemma b64_no_zero: "0 \<notin> set (b64 src)"
proof (induction src rule: b64.induct)
  case (1 a b c src)
  then show ?case
    using digits_no_zero [of 4 a b c] unfolding b64.simps set_append by simp
next
  case (3 a)
  then show ?case
    using digits_no_zero [of 2 a 0 0] pad_facts unfolding b64.simps set_append by auto
next
  case (4 a b)
  then show ?case
    using digits_no_zero [of 3 a b 0] pad_facts unfolding b64.simps set_append by auto
qed simp

lemma c_str_b64: "c_str (b64 src @ 0 # xs) = b64 src"
proof -
  have "c \<noteq> 0" if "c \<in> set (b64 src)" for c
    using that b64_no_zero by metis
  then show ?thesis
    by (simp add: c_str_def takeWhile_append2)
qed

section \<open>White space\<close>

definition squeeze :: "u8 list \<Rightarrow> u8 list" where
  "squeeze src = filter (\<lambda>c. \<not> isspace c) src"

fun end_squeeze :: "pton_end \<Rightarrow> pton_end" where
  "end_squeeze (AtPad r) = AtPad (squeeze r)"
| "end_squeeze e = e"

lemma pton_loop_squeeze: "pton_loop (squeeze src) n p = (case pton_loop src n p of (e, q) \<Rightarrow> (end_squeeze e, q))"
proof (induction src arbitrary: p)
  case (Cons c src)
  have "isspace c \<Longrightarrow> c \<noteq> 0"
    by (auto simp: isspace_def)
  then show ?case
    using Cons by (auto simp: squeeze_def split: option.split)
qed (simp add: squeeze_def)

lemma c_str_squeeze: "c_str (squeeze src) = squeeze (c_str src)"
  by (induction src) (auto simp: c_str_def squeeze_def isspace_def)

lemma dropWhile_squeeze:
  "dropWhile isspace (squeeze src) = (case dropWhile isspace src of [] \<Rightarrow> [] | c # r \<Rightarrow> c # squeeze r)"
  by (induction src) (auto simp: squeeze_def)

lemma all_space_squeeze: "list_all isspace (squeeze src) \<longleftrightarrow> list_all isspace src"
  by (induction src) (auto simp: squeeze_def)

lemma pton_pad_squeeze: "pton_pad (squeeze src) p = pton_pad src p"
proof -
  have "list_all isspace (c_str (squeeze r)) \<longleftrightarrow> list_all isspace (c_str r)" for r
    by (simp add: c_str_squeeze all_space_squeeze)
  then show ?thesis
    by (cases "dropWhile isspace (c_str src)")
      (simp_all add: pton_pad_def c_str_squeeze dropWhile_squeeze all_space_squeeze Let_def
        del: dropWhile_eq_Nil_conv)
qed

lemma f_b64_pton_squeeze: "f_b64_pton (squeeze src) t n = f_b64_pton src t n"
  by (auto simp: f_b64_pton_value pton_value_def pton_loop_squeeze pton_pad_squeeze
      split: prod.split pton_end.split)

section \<open>Bounds\<close>

lemma drop_put_target:
  assumes "unat i < n"
  shows "drop n (put_target i f t) = drop n t" "length (put_target i f t) = length t"
  using assms by (simp_all add: put_target_def)

definition in_target :: "u64 \<Rightarrow> pton \<Rightarrow> bool" where
  "in_target n p \<longleftrightarrow> state p \<noteq> 0 \<longrightarrow> unat (tarindex p) < unat n"

lemma pton_digit_bounds:
  assumes "pton_digit v n p = Some p'" and t: "target p = Some t" and inv: "in_target n p"
  shows "in_target n p' \<and> (\<exists>t'. target p' = Some t' \<and> length t' = length t \<and> drop (unat n) t' = drop (unat n) t)"
proof -
  have idx: "\<not> n \<le> (ucast j :: u64) \<longleftrightarrow> unat j < unat n" for j :: u32
    by (simp add: word_le_nat_alt unat_ucast_up_simp not_le)
  consider "state p = 0" | "state p = 1" | "state p = 2" | "state p > 2"
    by linarith
  then show ?thesis
    using assms(1) t inv
    by cases (auto simp: pton_digit_def Let_def drop_put_target idx in_target_def split: if_splits)
qed

lemma pton_loop_bounds:
  "target p = Some t \<Longrightarrow> in_target n p \<Longrightarrow>
    \<exists>t'. target (snd (pton_loop src n p)) = Some t' \<and> length t' = length t \<and> drop (unat n) t' = drop (unat n) t"
proof (induction src arbitrary: p t)
  case (Cons c src)
  show ?case
  proof (cases "\<exists>v p'. c \<noteq> 0 \<and> \<not> isspace c \<and> c \<noteq> Pad64 \<and> digit_value c = Some v \<and> pton_digit v n p = Some p'")
    case True
    then obtain v p' where c: "c \<noteq> 0" "\<not> isspace c" "c \<noteq> Pad64" "digit_value c = Some v"
      and p': "pton_digit v n p = Some p'"
      by blast
    obtain t1 where "in_target n p'" "target p' = Some t1" "length t1 = length t" "drop (unat n) t1 = drop (unat n) t"
      using pton_digit_bounds [OF p' Cons.prems] by blast
    with Cons.IH [of p' t1] c p' show ?thesis
      by simp
  next
    case False
    with Cons show ?thesis
      by (auto split: option.split)
  qed
qed simp

text \<open>The result of a decoding is an error or the number of bytes stored.\<close>

lemma f_b64_pton_bounds:
  "\<exists>t'. snd (f_b64_pton src (Some t) n) = Some t' \<and> length t' = length t \<and> drop (unat n) t' = drop (unat n) t"
  using pton_loop_bounds [of "\<lparr>state = 0, tarindex = 0, target = Some t\<rparr>" t n src]
  by (simp add: f_b64_pton_value in_target_def)

section \<open>A target of exactly the decoded size\<close>

lemma pton_loop_exact:
  "i + length src + 3 < 2 ^ 31 \<Longrightarrow> unat n = i + length src \<Longrightarrow> unat n \<le> length t \<Longrightarrow> length src mod 3 \<noteq> 0 \<Longrightarrow>
    fst (pton_loop (b64 src) n (at_index 0 i t)) = Failed"
proof (induction src arbitrary: i t rule: b64.induct)
  case (1 a b c src)
  then show ?case
    using pton_loop_group [of i n t a b c "b64 src"] "1.IH" [of "i + 3" "put_bytes t i [a, b, c]"]
    by (simp del: put_bytes.simps)
next
  case (3 a)
  obtain x y z v where g: "group_values a 0 0 = [x, y, z, v]"
    by (simp add: group_values_def)
  have "x < 64" "y < 64"
    using group_values_small [of _ a 0 0] g by simp_all
  moreover have "b64 [a] = [digit x, digit y, Pad64, Pad64]"
    by (simp add: g numeral_2_eq_2)
  ultimately show ?case
    using 3 by (simp add: pton_loop_digit pton_digit_steps del: of_nat_Suc pton_loop.simps)
next
  case (4 a b)
  obtain x y z v where g: "group_values a b 0 = [x, y, z, v]"
    by (simp add: group_values_def)
  have "x < 64" "y < 64" "z < 64"
    using group_values_small [of _ a b 0] g by simp_all
  moreover have "b64 [a, b] = [digit x, digit y, digit z, Pad64]"
    by (simp add: g numeral_3_eq_3)
  ultimately show ?case
    using 4 by (simp add: pton_loop_digit pton_digit_steps nth_list_update del: of_nat_Suc pton_loop.simps)
qed simp

end
