(* ===== verification/FBase64Theorems.thy ===== *)
theory FBase64Theorems
  imports FBase64Proofs
begin

text \<open>
  What \<open>fbase64.c\<close> guarantees: encoding against a reference, buffer safety in both directions, the
  round trip, and where decoding asks for more room than its result takes.
\<close>

lemma sint_of_nat_32: "k < 2 ^ 31 \<Longrightarrow> sint (of_nat k :: u32) = int k"
  by (simp add: signed_of_nat signed_take_bit_int_eq_self)

text \<open>
  With room for the text and its terminator \<open>f_b64_ntop\<close> writes the Base64 text of its input and a
  zero byte, leaves the rest of the target alone, and returns the length of the text (as a C \<open>int\<close>).
\<close>

theorem f_b64_ntop_writes:
  assumes "4 * ((length src + 2) div 3) < n" and "n \<le> length t" and "length src < 2 ^ 30"
  shows "f_b64_ntop src t n =
    (int (length (b64 src)), b64 src @ 0 # drop (Suc (length (b64 src))) t)"
proof -
  have "4 * ((length src + 2) div 3) < 2 ^ 31"
    using assms(3) by simp
  then have "sint (of_nat (4 * ((length src + 2) div 3)) :: u32) = int (4 * ((length src + 2) div 3))"
    by (rule sint_of_nat_32)
  then show ?thesis
    using f_b64_ntop_fits [OF assms(1,2)] by (simp only: length_b64)
qed

theorem f_b64_ntop_writes_witness:
  "f_b64_ntop [102, 111] (replicate 6 9) 5 =
    (int (length (b64 [102, 111])), b64 [102, 111] @ 0 # drop (Suc (length (b64 [102, 111]))) (replicate 6 9))"
  by (rule f_b64_ntop_writes) simp_all

text \<open>
  Without that room \<open>f_b64_ntop\<close> returns -1, and writes nothing past \<open>targsize\<close>.
\<close>

theorem f_b64_ntop_short_target:
  assumes "n \<le> 4 * ((length src + 2) div 3)" and "n \<le> length t"
  shows "\<exists>t'. f_b64_ntop src t n = (- 1, t') \<and> length t' = length t \<and> drop n t' = drop n t"
  using assms by (rule f_b64_ntop_over)

theorem f_b64_ntop_short_target_witness:
  "\<exists>t'. f_b64_ntop [102, 111] (replicate 6 9) 4 = (- 1, t') \<and> length t' = length (replicate 6 (9 :: u8)) \<and>
    drop 4 t' = drop 4 (replicate 6 9)"
  by (rule f_b64_ntop_short_target) simp_all

text \<open>
  C11. Decoding undoes encoding: given the text \<open>f_b64_ntop\<close> has put into a buffer and a target with
  one byte to spare, \<open>f_b64_pton\<close> returns the number of input bytes and stores exactly them, with at
  most one zero byte behind.
\<close>

theorem f_b64_roundtrip:
  assumes "4 * ((length src + 2) div 3) < n" and "n \<le> length t" and "length src < 2 ^ 30"
    and "length src < unat m" and "unat m \<le> length u"
  shows "\<exists>zeros. f_b64_pton (snd (f_b64_ntop src t n)) (Some u) m =
      (int (length src), Some (put_bytes u 0 (src @ zeros))) \<and> length zeros \<le> 1"
proof -
  have text': "snd (f_b64_ntop src t n) = b64 src @ 0 # drop (Suc (4 * ((length src + 2) div 3))) t"
    using f_b64_ntop_fits [OF assms(1,2)] by simp
  have "f_b64_pton (snd (f_b64_ntop src t n)) (Some u) m = f_b64_pton (b64 src) (Some u) m"
    using f_b64_pton_c_str [of "snd (f_b64_ntop src t n)" "Some u" m] unfolding text' c_str_b64 by simp
  moreover obtain zeros where "pton_value (pton_loop (b64 src) m (at_index 0 0 u)) = sint (of_nat (length src) :: u32)"
    and "target (snd (pton_loop (b64 src) m (at_index 0 0 u))) = Some (put_bytes u 0 (src @ zeros))"
    and "length zeros \<le> 1"
    using pton_loop_b64 [of 0 src m u] assms by auto
  moreover have "sint (of_nat (length src) :: u32) = int (length src)"
    using assms(3) by (simp add: sint_of_nat_32)
  ultimately show ?thesis
    by (auto simp: f_b64_pton_value)
qed

theorem f_b64_roundtrip_witness:
  "\<exists>zeros. f_b64_pton (snd (f_b64_ntop [102, 111] (replicate 6 9) 5)) (Some (replicate 3 7)) 3 =
      (int (length [102 :: u8, 111]), Some (put_bytes (replicate 3 7) 0 ([102, 111] @ zeros))) \<and> length zeros \<le> 1"
  by (rule f_b64_roundtrip) simp_all

text \<open>
  White space in the text, wherever it stands, does not change what \<open>f_b64_pton\<close> does.
\<close>

theorem f_b64_pton_ignores_space: "f_b64_pton (filter (\<lambda>c. \<not> isspace c) src) t n = f_b64_pton src t n"
  using f_b64_pton_squeeze by (simp add: squeeze_def)

text \<open>
  C12. On any text whatever \<open>f_b64_pton\<close> changes no byte of the target from \<open>targsize\<close> on.
\<close>

theorem f_b64_pton_in_bounds:
  "\<exists>t'. snd (f_b64_pton src (Some t) n) = Some t' \<and> length t' = length t \<and> drop (unat n) t' = drop (unat n) t"
  by (rule f_b64_pton_bounds)

text \<open>
  C13. A target of exactly the decoded size is refused whenever the text is padded: the bits beyond the
  last byte, which must be zero, are stored before they are checked.
\<close>

theorem f_b64_pton_exact_size_fails:
  assumes "length src < 2 ^ 30" and "unat n = length src" and "length t = length src"
    and "length src mod 3 \<noteq> 0"
  shows "fst (f_b64_pton (b64 src) (Some t) n) = - 1"
proof -
  have "fst (pton_loop (b64 src) n \<lparr>state = 0, tarindex = 0, target = Some t\<rparr>) = Failed"
    using pton_loop_exact [of 0 src n t] assms by simp
  then show ?thesis
    by (cases "pton_loop (b64 src) n \<lparr>state = 0, tarindex = 0, target = Some t\<rparr>") (simp add: f_b64_pton_def)
qed

theorem f_b64_pton_exact_size_fails_witness:
  "fst (f_b64_pton (b64 [102, 111]) (Some [0, 0]) 2) = - 1"
  by (rule f_b64_pton_exact_size_fails) simp_all

end
