(* ===== verification/LdbCoding.thy ===== *)
theory LdbCoding
  imports PbCodec
begin

text \<open>
  The integer and string encodings of leveldb (\<open>util/coding.cc\<close>, \<open>util/coding.h\<close>), for a
  little-endian target. A \<open>std::string\<close> and a \<open>Slice\<close> are lists of bytes; a pair of pointers
  \<open>p\<close>, \<open>limit\<close> is the list of the bytes between them, a returned pointer is the list from it to
  \<open>limit\<close>, and \<open>nullptr\<close> is \<open>None\<close>. The encodings are compared with those of nanopb, and the locale
  \<open>slice_codec\<close> states the law that the formats built on them rest on.
\<close>

section \<open>Fixed-width integers\<close>

definition EncodeFixed32 :: "u32 \<Rightarrow> u8 list" where
  "EncodeFixed32 value = bytes_le 4 value"

definition EncodeFixed64 :: "u64 \<Rightarrow> u8 list" where
  "EncodeFixed64 value = bytes_le 8 value"

definition PutFixed32 :: "u8 list \<Rightarrow> u32 \<Rightarrow> u8 list" where
  "PutFixed32 dst value = dst @ EncodeFixed32 value"

lemma fold_PutFixed32: "fold (\<lambda>v dst. PutFixed32 dst v) vs dst = dst @ concat (map EncodeFixed32 vs)"
  by (induction vs arbitrary: dst) (simp_all add: PutFixed32_def)

definition PutFixed64 :: "u8 list \<Rightarrow> u64 \<Rightarrow> u8 list" where
  "PutFixed64 dst value = dst @ EncodeFixed64 value"

text \<open>The unchecked readers; their callers make sure of 4 or 8 bytes.\<close>

definition DecodeFixed32 :: "u8 list \<Rightarrow> u32" where
  "DecodeFixed32 p = le_word (take 4 p)"

definition DecodeFixed64 :: "u8 list \<Rightarrow> u64" where
  "DecodeFixed64 p = le_word (take 8 p)"

section \<open>Varints\<close>

definition EncodeVarint32 :: "u32 \<Rightarrow> u8 list" where
  "EncodeVarint32 v =
     (let B = 128 in
      if v < push_bit 7 1 then [ucast v]
      else if v < push_bit 14 1 then [ucast (v OR B), ucast (drop_bit 7 v)]
      else if v < push_bit 21 1 then [ucast (v OR B), ucast (drop_bit 7 v OR B), ucast (drop_bit 14 v)]
      else if v < push_bit 28 1 then
        [ucast (v OR B), ucast (drop_bit 7 v OR B), ucast (drop_bit 14 v OR B), ucast (drop_bit 21 v)]
      else
        [ucast (v OR B), ucast (drop_bit 7 v OR B), ucast (drop_bit 14 v OR B), ucast (drop_bit 21 v OR B),
         ucast (drop_bit 28 v)])"

definition PutVarint32 :: "u8 list \<Rightarrow> u32 \<Rightarrow> u8 list" where
  "PutVarint32 dst v = dst @ EncodeVarint32 v"

function EncodeVarint64 :: "u64 \<Rightarrow> u8 list" where
  "EncodeVarint64 v = (if v \<ge> 128 then ucast (v OR 128) # EncodeVarint64 (drop_bit 7 v) else [ucast v])"
  by auto
termination
  by (relation "measure unat") (auto simp: word_le_nat_alt unat_drop_bit)

declare EncodeVarint64.simps [simp del]

definition PutVarint64 :: "u8 list \<Rightarrow> u64 \<Rightarrow> u8 list" where
  "PutVarint64 dst v = dst @ EncodeVarint64 v"

definition PutLengthPrefixedSlice :: "u8 list \<Rightarrow> u8 list \<Rightarrow> u8 list" where
  "PutLengthPrefixedSlice dst value = PutVarint32 dst (of_nat (length value)) @ value"

text \<open>The loop of \<open>VarintLength\<close>, with its counter.\<close>

function varint_length_loop :: "nat \<Rightarrow> u64 \<Rightarrow> nat" where
  "varint_length_loop len v = (if v \<ge> 128 then varint_length_loop (len + 1) (drop_bit 7 v) else len)"
  by auto
termination
  by (relation "measure (\<lambda>(len, v). unat v)") (auto simp: word_le_nat_alt unat_drop_bit)

declare varint_length_loop.simps [simp del]

definition VarintLength :: "u64 \<Rightarrow> nat" where
  "VarintLength v = varint_length_loop 1 v"

primrec fallback_loop :: "u8 list \<Rightarrow> u32 \<Rightarrow> u32 \<Rightarrow> (u32 \<times> u8 list) option" where
  "fallback_loop [] shift result = None"
| "fallback_loop (c # p) shift result =
     (if shift \<le> 28 then
        let byte = ucast c in
        if byte AND 128 \<noteq> 0 then fallback_loop p (shift + 7) (result OR push_bit (unat shift) (byte AND 127))
        else Some (result OR push_bit (unat shift) byte, p)
      else None)"

definition GetVarint32PtrFallback :: "u8 list \<Rightarrow> (u32 \<times> u8 list) option" where
  "GetVarint32PtrFallback p = fallback_loop p 0 0"

definition GetVarint32Ptr :: "u8 list \<Rightarrow> (u32 \<times> u8 list) option" where
  "GetVarint32Ptr p =
     (case p of
        [] \<Rightarrow> GetVarint32PtrFallback p
      | c # q \<Rightarrow>
          let result = ucast c in
          if result AND 128 = (0 :: u32) then Some (result, q) else GetVarint32PtrFallback p)"

primrec varint64_loop :: "u8 list \<Rightarrow> u32 \<Rightarrow> u64 \<Rightarrow> (u64 \<times> u8 list) option" where
  "varint64_loop [] shift result = None"
| "varint64_loop (c # p) shift result =
     (if shift \<le> 63 then
        let byte = ucast c in
        if byte AND 128 \<noteq> 0 then varint64_loop p (shift + 7) (result OR push_bit (unat shift) (byte AND 127))
        else Some (result OR push_bit (unat shift) byte, p)
      else None)"

definition GetVarint64Ptr :: "u8 list \<Rightarrow> (u64 \<times> u8 list) option" where
  "GetVarint64Ptr p = varint64_loop p 0 0"

text \<open>On failure the slice is left as it was.\<close>

definition GetVarint32 :: "u8 list \<Rightarrow> u32 option \<times> u8 list" where
  "GetVarint32 inp = (case GetVarint32Ptr inp of None \<Rightarrow> (None, inp) | Some (v, q) \<Rightarrow> (Some v, q))"

definition GetVarint64 :: "u8 list \<Rightarrow> u64 option \<times> u8 list" where
  "GetVarint64 inp = (case GetVarint64Ptr inp of None \<Rightarrow> (None, inp) | Some (v, q) \<Rightarrow> (Some v, q))"

text \<open>The version on pointers, and the version on a slice, which is left past the length when it fails there.\<close>

definition GetLengthPrefixedSlicePtr :: "u8 list \<Rightarrow> (u8 list \<times> u8 list) option" where
  "GetLengthPrefixedSlicePtr p =
     (case GetVarint32Ptr p of
        None \<Rightarrow> None
      | Some (len, p) \<Rightarrow> if unat len > length p then None else Some (take (unat len) p, drop (unat len) p))"

definition GetLengthPrefixedSlice :: "u8 list \<Rightarrow> u8 list option \<times> u8 list" where
  "GetLengthPrefixedSlice inp =
     (case GetVarint32 inp of
        (Some len, inp) \<Rightarrow>
          if unat len \<le> length inp then (Some (take (unat len) inp), drop (unat len) inp) else (None, inp)
      | (None, inp) \<Rightarrow> (None, inp))"

section \<open>Lemmas\<close>

lemma EncodeVarint64_bytes: "EncodeVarint64 v = varint_bytes v"
proof (induction v rule: EncodeVarint64.induct)
  case (1 v)
  have b: "ucast (v OR 128) = (ucast (v AND 0x7F) OR 0x80 :: u8)"
    by (rule bit_word_eqI) (auto simp: and_7F or_80 bit_simps less_Suc_eq numeral_eq_Suc)
  show ?case
    using 1 by (auto simp: EncodeVarint64.simps [of v] varint_bytes.simps [of v] b not_le)
qed

lemma varint_length_loop_add: "varint_length_loop len v = len + length (varint_bytes v) - 1"
proof (induction len v rule: varint_length_loop.induct)
  case (1 len v)
  have "varint_bytes (drop_bit 7 v) \<noteq> []" by simp
  then show ?case
    using 1 by (cases "varint_bytes (drop_bit 7 v)")
      (auto simp: varint_length_loop.simps [of len v] varint_bytes.simps [of v] not_le)
qed

lemma VarintLength_bytes: "VarintLength v = length (varint_bytes v)"
  by (simp add: VarintLength_def varint_length_loop_add)

lemma low_byte: "ucast (v OR 128) = (ucast (ucast v AND 0x7F :: u64) OR 0x80 :: u8)" for v :: u32
  by (rule bit_word_eqI) (auto simp: and_7F or_80 bit_simps less_Suc_eq numeral_eq_Suc)

lemma ucast_ucast_32: "ucast (ucast v :: u64) = (ucast v :: u8)" for v :: u32
  by (rule bit_word_eqI) (auto simp: bit_simps)

lemma drop_ucast: "drop_bit n (ucast v :: u64) = ucast (drop_bit n v)" for v :: u32
  by (rule bit_word_eqI) (auto simp: bit_simps dest: bit_imp_le_length)

lemma varint_bytes_32:
  "varint_bytes (ucast v) = (if v < 128 then [ucast v] else ucast (v OR 128) # varint_bytes (ucast (drop_bit 7 v)))"
  for v :: u32
proof -
  have "(ucast v :: u64) < 128 \<longleftrightarrow> v < 128"
    by (simp add: word_less_nat_alt unat_ucast_up_simp)
  then show ?thesis
    by (simp add: varint_bytes.simps [of "ucast v"] low_byte drop_ucast ucast_ucast_32)
qed

lemma drop_less:
  fixes v :: u32
  shows "drop_bit 7 v < 128 \<longleftrightarrow> v < 16384" "drop_bit 14 v < 128 \<longleftrightarrow> v < 2097152"
    "drop_bit 21 v < 128 \<longleftrightarrow> v < 268435456" "drop_bit 28 v < 128"
  using unat_bound [of v] by (simp_all add: word_less_nat_alt unat_drop_bit div_less_iff_less_mult)

lemma EncodeVarint32_bytes: "EncodeVarint32 v = varint_bytes (ucast v)"
  by (simp add: EncodeVarint32_def Let_def drop_bit_drop_bit drop_less
     varint_bytes_32 [of v] varint_bytes_32 [of "drop_bit 7 v"] varint_bytes_32 [of "drop_bit 14 v"]
     varint_bytes_32 [of "drop_bit 21 v"] varint_bytes_32 [of "drop_bit 28 v"])

lemma byte_parts:
  fixes c :: u8
  shows "(ucast c AND 128 = (0 :: u64)) = (c AND 0x80 = 0)" "(ucast c AND 128 = (0 :: u32)) = (c AND 0x80 = 0)"
    "c AND 0x80 = 0 \<Longrightarrow> c AND 0x7F = c" "(ucast c AND 127 :: u64) = ucast (c AND 0x7F)"
    "(ucast c AND 127 :: u32) = ucast (c AND 0x7F)"
proof -
  show "(ucast c AND 128 = (0 :: u64)) = (c AND 0x80 = 0)" "(ucast c AND 128 = (0 :: u32)) = (c AND 0x80 = 0)"
    using and_80_0 [of "ucast c :: u64"] and_80_0 [of "ucast c :: u32"] and_80_0 [of c] by (simp_all add: bit_simps)
  assume "c AND 0x80 = 0"
  then have "\<not> bit c 7" by (simp add: and_80_0)
  then show "c AND 0x7F = c"
    unfolding and_7F by (intro bit_word_eqI) (auto simp: bit_simps less_Suc_eq numeral_eq_Suc)
next
  show "(ucast c AND 127 :: u64) = ucast (c AND 0x7F)" "(ucast c AND 127 :: u32) = ucast (c AND 0x7F)"
    using and_7F [of "ucast c :: u64"] and_7F [of "ucast c :: u32"] and_7F [of c]
    by (auto intro!: bit_word_eqI simp: bit_simps)
qed

lemma varint64_loop_v64:
  "k \<le> 10 \<Longrightarrow> varint64_loop p (of_nat (7 * k)) r =
    map_option (\<lambda>(v, n). (v, drop n p)) (v64 (of_nat (7 * k)) r p)"
proof (induction p arbitrary: k r)
  case (Cons c p)
  show ?case
  proof (cases "k \<le> 9")
    case True
    have pos: "unat (of_nat (7 * k) :: u8) = 7 * k" "unat (of_nat (7 * k) :: u32) = 7 * k"
      using True by (simp_all only: unat_of_nat) simp_all
    have small: "\<not> (64 :: u8) \<le> of_nat (7 * k)" "(of_nat (7 * k) :: u32) \<le> 63"
      using pos True by (simp_all only: word_le_nat_alt) simp_all
    have S: "of_nat (7 * k) + 7 = (of_nat (7 * Suc k) :: u8)" "of_nat (7 * k) + 7 = (of_nat (7 * Suc k) :: u32)"
      by simp_all
    note IH = Cons.IH [of "Suc k" "r OR push_bit (7 * k) (ucast (c AND 0x7F))"]
    show ?thesis
      unfolding varint64_loop.simps v64.simps Let_def byte_parts S pos
      using small IH True
      by (auto simp: byte_parts more_def option.map_comp comp_def case_prod_unfold simp del: of_nat_mult of_nat_Suc)
  next
    case False
    then have "k = 10" using Cons.prems by simp
    then show ?thesis by simp
  qed
qed simp


lemma v64_pos: "v64 bp r p = Some (v, n) \<Longrightarrow> 0 < n"
  by (cases p) (auto simp: Let_def more_def split: if_splits)

lemma ucast_step: "ucast (r OR push_bit i (ucast c)) = (ucast r OR push_bit i (ucast c) :: u32)"
  for r :: u64 and c :: u8
  by (rule bit_word_eqI) (auto simp: bit_simps)

lemma fallback_loop_v64:
  "k \<le> 5 \<Longrightarrow> fallback_loop p (of_nat (7 * k)) (ucast r) =
    (case v64 (of_nat (7 * k)) r p of
       Some (v, n) \<Rightarrow> if k + n \<le> 5 then Some (ucast v, drop n p) else None
     | None \<Rightarrow> None)"
proof (induction p arbitrary: k r)
  case (Cons c p)
  show ?case
  proof (cases "k \<le> 4")
    case True
    have pos: "unat (of_nat (7 * k) :: u8) = 7 * k" "unat (of_nat (7 * k) :: u32) = 7 * k"
      using True by (simp_all only: unat_of_nat) simp_all
    have small: "\<not> (64 :: u8) \<le> of_nat (7 * k)" "(of_nat (7 * k) :: u32) \<le> 28"
      using pos True by (simp_all only: word_le_nat_alt) simp_all
    have S: "of_nat (7 * k) + 7 = (of_nat (7 * Suc k) :: u8)" "of_nat (7 * k) + 7 = (of_nat (7 * Suc k) :: u32)"
      by simp_all
    note IH = Cons.IH [of "Suc k" "r OR push_bit (7 * k) (ucast (c AND 0x7F))"]
    show ?thesis
      unfolding fallback_loop.simps v64.simps Let_def byte_parts S pos
      using small IH True
      by (auto simp: byte_parts ucast_step more_def simp del: of_nat_mult of_nat_Suc split: option.splits)
  next
    case False
    then have "k = 5" using Cons.prems by simp
    then show ?thesis
      by (auto split: option.splits dest: v64_pos simp del: v64.simps)
  qed
qed simp

lemma GetVarint64Ptr_v64: "GetVarint64Ptr p = map_option (\<lambda>(v, n). (v, drop n p)) (v64 0 0 p)"
  using varint64_loop_v64 [of 0 p 0] by (simp add: GetVarint64Ptr_def)

lemma GetVarint32Ptr_v64:
  "GetVarint32Ptr p =
    (case v64 0 0 p of Some (v, n) \<Rightarrow> if n \<le> 5 then Some (ucast v, drop n p) else None | None \<Rightarrow> None)"
proof -
  have "GetVarint32PtrFallback p = GetVarint32Ptr p"
    by (cases p) (simp_all add: GetVarint32Ptr_def GetVarint32PtrFallback_def Let_def)
  then show ?thesis
    using fallback_loop_v64 [of 0 p 0] by (simp add: GetVarint32PtrFallback_def split: option.split)
qed

lemma GetVarint64_PutVarint64: "GetVarint64 (EncodeVarint64 v @ xs) = (Some v, xs)"
  by (simp add: GetVarint64_def GetVarint64Ptr_v64 EncodeVarint64_bytes v64_roundtrip)

lemma varint_bytes_32_length: "length (varint_bytes (ucast (v :: u32))) \<le> 5"
  by (simp add: EncodeVarint32_bytes [symmetric] EncodeVarint32_def Let_def)

lemma GetVarint32Ptr_EncodeVarint32: "GetVarint32Ptr (EncodeVarint32 v @ xs) = Some (v, xs)"
  using varint_bytes_32_length [of v]
  by (simp add: GetVarint32Ptr_v64 EncodeVarint32_bytes v64_roundtrip unsigned_ucast_eq take_bit_word_eq_self)


lemma GetVarint32_PutVarint32: "GetVarint32 (EncodeVarint32 v @ xs) = (Some v, xs)"
  by (simp add: GetVarint32_def GetVarint32Ptr_EncodeVarint32)

lemma DecodeFixed32_EncodeFixed32 [simp]: "DecodeFixed32 (EncodeFixed32 v @ xs) = v"
  by (simp add: DecodeFixed32_def EncodeFixed32_def le_word_bytes_le_full)

lemma DecodeFixed64_EncodeFixed64 [simp]: "DecodeFixed64 (EncodeFixed64 v @ xs) = v"
  by (simp add: DecodeFixed64_def EncodeFixed64_def le_word_bytes_le_full)

lemma length_EncodeFixed [simp]: "length (EncodeFixed32 v) = 4" "length (EncodeFixed64 u) = 8"
  by (simp_all add: EncodeFixed32_def EncodeFixed64_def)

text \<open>The bytes of a length-prefixed slice.\<close>

definition slice_bytes :: "u8 list \<Rightarrow> u8 list" where
  "slice_bytes bs = EncodeVarint32 (of_nat (length bs)) @ bs"

lemma PutLengthPrefixedSlice_bytes: "PutLengthPrefixedSlice dst bs = dst @ slice_bytes bs"
  by (simp add: PutLengthPrefixedSlice_def PutVarint32_def slice_bytes_def)

lemma GetLengthPrefixedSlice_bytes:
  assumes "length bs < 2 ^ 32"
  shows "GetLengthPrefixedSlice (slice_bytes bs @ xs) = (Some bs, xs)"
    and "GetLengthPrefixedSlicePtr (slice_bytes bs @ xs) = Some (bs, xs)"
proof -
  have "unat (of_nat (length bs) :: u32) = length bs"
    using assms by (simp add: unsigned_of_nat take_bit_nat_eq_self)
  then show "GetLengthPrefixedSlice (slice_bytes bs @ xs) = (Some bs, xs)"
    "GetLengthPrefixedSlicePtr (slice_bytes bs @ xs) = Some (bs, xs)"
    by (simp_all add: GetLengthPrefixedSlice_def GetLengthPrefixedSlicePtr_def slice_bytes_def
        GetVarint32_PutVarint32 GetVarint32Ptr_EncodeVarint32)
qed

section \<open>Codecs on slices\<close>

text \<open>
  What the formats of leveldb rely on: a reader that takes the bytes of a value off the front of a
  slice and leaves the rest. Several values in a row are then read back one after the other, and
  two sequences of values never have the same bytes.
\<close>

locale slice_codec =
  fixes valid :: "'a \<Rightarrow> bool"
    and enc :: "'a \<Rightarrow> u8 list"
    and get :: "u8 list \<Rightarrow> ('a \<times> u8 list) option"
  assumes get_enc: "valid v \<Longrightarrow> get (enc v @ xs) = Some (v, xs)"
begin

lemma enc_inj: "valid u \<Longrightarrow> valid v \<Longrightarrow> enc u @ xs = enc v @ ys \<Longrightarrow> u = v \<and> xs = ys"
  by (metis get_enc option.inject prod.inject)

primrec get_n :: "nat \<Rightarrow> u8 list \<Rightarrow> ('a list \<times> u8 list) option" where
  "get_n 0 xs = Some ([], xs)"
| "get_n (Suc n) xs =
     (case get xs of None \<Rightarrow> None
      | Some (v, ys) \<Rightarrow> map_option (\<lambda>(vs, zs). (v # vs, zs)) (get_n n ys))"

lemma get_n_enc: "list_all valid vs \<Longrightarrow> get_n (length vs) (concat (map enc vs) @ xs) = Some (vs, xs)"
  by (induction vs) (simp_all add: get_enc)

lemma concat_inj:
  "list_all valid us \<Longrightarrow> list_all valid vs \<Longrightarrow> length us = length vs \<Longrightarrow>
    concat (map enc us) = concat (map enc vs) \<Longrightarrow> us = vs"
  using get_n_enc [of us "[]"] get_n_enc [of vs "[]"] by simp

end

interpretation varint32: slice_codec "\<lambda>_. True" EncodeVarint32 GetVarint32Ptr
  by unfold_locales (rule GetVarint32Ptr_EncodeVarint32)

interpretation varint64: slice_codec "\<lambda>_. True" EncodeVarint64 GetVarint64Ptr
  by unfold_locales (simp add: GetVarint64Ptr_v64 EncodeVarint64_bytes v64_roundtrip)

interpretation slice: slice_codec "\<lambda>bs. length bs < 2 ^ 32" slice_bytes GetLengthPrefixedSlicePtr
  by unfold_locales (rule GetLengthPrefixedSlice_bytes)

section \<open>Properties\<close>


text \<open>
  C15. Every reader of leveldb returns what the matching \<open>Put\<close> appended and leaves the bytes after it;
  a slice needs a length that its 32-bit prefix can hold.
\<close>

theorem ldb_coding_roundtrip:
  assumes "length bs < 2 ^ 32"
  shows "GetVarint32 (PutVarint32 [] a @ xs) = (Some a, xs) \<and>
    GetVarint64 (PutVarint64 [] b @ xs) = (Some b, xs) \<and>
    DecodeFixed32 (PutFixed32 [] a @ xs) = a \<and>
    DecodeFixed64 (PutFixed64 [] b @ xs) = b \<and>
    GetLengthPrefixedSlice (PutLengthPrefixedSlice [] bs @ xs) = (Some bs, xs)"
  using GetLengthPrefixedSlice_bytes [OF assms]
  by (simp add: PutVarint32_def PutVarint64_def PutFixed32_def PutFixed64_def
      PutLengthPrefixedSlice_bytes GetVarint32_PutVarint32 GetVarint64_PutVarint64)

theorem ldb_coding_roundtrip_witness:
  "GetVarint32 (PutVarint32 [] 300 @ [9]) = (Some 300, [9]) \<and>
    GetVarint64 (PutVarint64 [] (2 ^ 63) @ [9]) = (Some (2 ^ 63), [9]) \<and>
    DecodeFixed32 (PutFixed32 [] 300 @ [9]) = 300 \<and>
    DecodeFixed64 (PutFixed64 [] (2 ^ 63) @ [9]) = 2 ^ 63 \<and>
    GetLengthPrefixedSlice (PutLengthPrefixedSlice [] [7, 8] @ [9]) = (Some [7, 8], [9])"
  by (rule ldb_coding_roundtrip) simp

end
