(* ===== verification/LdbCrc.thy ===== *)
theory LdbCrc
  imports LdbCrcTables LdbCoding
begin

text \<open>
  leveldb's CRC-32C (\<open>util/crc32c.cc\<close>, \<open>util/crc32c.h\<close>): the portable \<open>Extend\<close> with its alignment
  prologue, its four interleaved strides of 16 bytes and its tail, and the masking of stored
  checksums. The address of the data is a parameter, since the code's path depends on its alignment.
  The build defines no \<open>HAVE_CRC32C\<close>, for which \<open>port::AcceleratedCRC32C\<close> returns 0.
\<close>

section \<open>Operations\<close>

definition kCRC32Xor :: u32 where
  "kCRC32Xor = 0xFFFFFFFF"

definition ReadUint32LE :: "u8 list \<Rightarrow> u32" where
  "ReadUint32LE buffer = DecodeFixed32 buffer"

definition RoundUp :: "u64 \<Rightarrow> u64 \<Rightarrow> u64" where
  "RoundUp N pointer = (pointer + (N - 1)) AND NOT (N - 1)"

definition AcceleratedCRC32C :: "u32 \<Rightarrow> u8 list \<Rightarrow> u32" where
  "AcceleratedCRC32C crc buf = 0"

text \<open>The bytes of \<open>TestCRCBuffer\<close>.\<close>

definition CanAccelerateCRC32C :: bool where
  "CanAccelerateCRC32C =
     (AcceleratedCRC32C 0 [84, 101, 115, 116, 67, 82, 67, 66, 117, 102, 102, 101, 114] = 0xDCBC59FA)"

definition STEP1 :: "u8 \<Rightarrow> u32 \<Rightarrow> u32" where
  "STEP1 byte l = (let c = (l AND 0xFF) XOR ucast byte in kByteExtensionTable ! unat c XOR drop_bit 8 l)"

definition STEP4 :: "nat \<Rightarrow> u8 list \<Rightarrow> u32 \<Rightarrow> u32" where
  "STEP4 s p crc =
     ReadUint32LE (drop (s * 4) p) XOR kStrideExtensionTable3 ! unat (crc AND 0xFF) XOR
     kStrideExtensionTable2 ! unat (drop_bit 8 crc AND 0xFF) XOR
     kStrideExtensionTable1 ! unat (drop_bit 16 crc AND 0xFF) XOR
     kStrideExtensionTable0 ! unat (drop_bit 24 crc)"

type_synonym strides = "u32 \<times> u32 \<times> u32 \<times> u32"

definition STEP16 :: "strides \<Rightarrow> u8 list \<Rightarrow> strides" where
  "STEP16 cs p = (case cs of (crc0, crc1, crc2, crc3) \<Rightarrow> (STEP4 0 p crc0, STEP4 1 p crc1, STEP4 2 p crc2, STEP4 3 p crc3))"

definition STEP4W :: "u32 \<Rightarrow> u32 \<Rightarrow> u32" where
  "STEP4W w l = ((\<lambda>w. drop_bit 8 w XOR kByteExtensionTable ! unat (w AND 0xFF)) ^^ 4) (w XOR l)"

function swath_loop :: "strides \<Rightarrow> u8 list \<Rightarrow> strides \<times> u8 list" where
  "swath_loop cs p = (if length p \<ge> 16 then swath_loop (STEP16 cs p) (drop 16 p) else (cs, p))"
  by auto
termination
  by (relation "measure (\<lambda>(cs, p). length p)") auto

function word_loop :: "strides \<Rightarrow> u8 list \<Rightarrow> strides \<times> u8 list" where
  "word_loop cs p =
     (if length p \<ge> 4 then
        (case cs of (crc0, crc1, crc2, crc3) \<Rightarrow> word_loop (crc1, crc2, crc3, STEP4 0 p crc0) (drop 4 p))
      else (cs, p))"
  by auto
termination
  by (relation "measure (\<lambda>(cs, p). length p)") auto

declare swath_loop.simps [simp del] word_loop.simps [simp del]

text \<open>The middle part of \<open>Extend\<close>: all whole swaths, then all whole words, then the combination.\<close>

definition strides_run :: "u32 \<Rightarrow> u8 list \<Rightarrow> u32 \<times> u8 list" where
  "strides_run l p =
     (let crc0 = ReadUint32LE p XOR l; crc1 = ReadUint32LE (drop 4 p);
          crc2 = ReadUint32LE (drop 8 p); crc3 = ReadUint32LE (drop 12 p);
          (cs, p) = swath_loop (crc0, crc1, crc2, crc3) (drop 16 p);
          ((crc0, crc1, crc2, crc3), p) = word_loop cs p
      in (STEP4W crc3 (STEP4W crc2 (STEP4W crc1 (STEP4W crc0 0))), p))"

text \<open>\<open>p != x\<close> is reached after \<open>x - p\<close> bytes.\<close>

definition Extend :: "u64 \<Rightarrow> u32 \<Rightarrow> u8 list \<Rightarrow> u32" where
  "Extend data crc p =
     (if CanAccelerateCRC32C then AcceleratedCRC32C crc p
      else
        let l = crc XOR kCRC32Xor; x = unat (RoundUp 4 data - data);
            (l, p) = (if x \<le> length p then (fold STEP1 (take x p) l, drop x p) else (l, p));
            (l, p) = (if length p \<ge> 16 then strides_run l p else (l, p))
        in fold STEP1 p l XOR kCRC32Xor)"

definition Value :: "u64 \<Rightarrow> u8 list \<Rightarrow> u32" where
  "Value data p = Extend data 0 p"

definition kMaskDelta :: u32 where
  "kMaskDelta = 0xA282EAD8"

definition Mask :: "u32 \<Rightarrow> u32" where
  "Mask crc = (drop_bit 15 crc OR push_bit 17 crc) + kMaskDelta"

definition Unmask :: "u32 \<Rightarrow> u32" where
  "Unmask masked_crc = (let rot = masked_crc - kMaskDelta in drop_bit 17 rot OR push_bit 15 rot)"

section \<open>The checksum byte by byte\<close>

text \<open>The reference: the register takes up a byte at its low end and is run for 8 bits.\<close>

definition crc_byte :: "u8 \<Rightarrow> u32 \<Rightarrow> u32" where
  "crc_byte b l = crc_bits 8 (l XOR ucast b)"

definition crc32c :: "u32 \<Rightarrow> u8 list \<Rightarrow> u32" where
  "crc32c crc bs = fold crc_byte bs (crc XOR 0xFFFFFFFF) XOR 0xFFFFFFFF"

lemma bit_less: "bit (b :: u8) i \<Longrightarrow> i < 8" "bit (w :: u32) i \<Longrightarrow> i < 32"
  using bit_imp_le_length [of b i] bit_imp_le_length [of w i] by simp_all

lemma bit_ge [simp]: "8 \<le> i \<Longrightarrow> \<not> bit (b :: u8) i" "\<not> bit b (8 + i)"
  using bit_less(1) [of b] by fastforce+

lemma table_lookups:
  fixes c :: u32
  assumes "unat c < 256"
  shows "kByteExtensionTable ! unat c = crc_bits 8 c" "kStrideExtensionTable0 ! unat c = crc_bits 104 c"
    "kStrideExtensionTable1 ! unat c = crc_bits 112 c" "kStrideExtensionTable2 ! unat c = crc_bits 120 c"
    "kStrideExtensionTable3 ! unat c = crc_bits 128 c"
  using assms
  by (simp_all add: kByteExtensionTable_eq kStrideExtensionTable0_eq kStrideExtensionTable1_eq
      kStrideExtensionTable2_eq kStrideExtensionTable3_eq)

lemma and_FF: "w AND 0xFF = take_bit 8 w" for w :: u32
  by (simp add: take_bit_eq_mask mask_eq_exp_minus_1)

lemma low_byte_less: "unat (w AND 0xFF :: u32) < 256" "unat ((w AND 0xFF) XOR ucast (b :: u8) :: u32) < 256"
proof -
  have "take_bit 8 ((w AND 0xFF) XOR ucast b) = (w AND 0xFF) XOR ucast b"
    unfolding and_FF by (rule bit_word_eqI) (auto simp: bit_simps dest: bit_less)
  then show "unat ((w AND 0xFF) XOR ucast b) < 256"
    using unat_take_bit [of 8 "(w AND 0xFF) XOR ucast b"] by simp
  show "unat (w AND 0xFF) < 256"
    unfolding and_FF by (simp add: unat_take_bit)
qed

lemma crc_bits_split:
  fixes w :: u32
  assumes "n \<le> m"
  shows "crc_bits m w = crc_bits m (take_bit n w) XOR crc_bits (m - n) (drop_bit n w)"
proof -
  have w: "w = take_bit n w XOR push_bit n (drop_bit n w)"
    by (rule bit_word_eqI) (auto simp: bit_simps)
  have "crc_bits n (push_bit n (drop_bit n w)) = drop_bit n w"
    by (subst crc_bits_shift) (auto intro!: bit_word_eqI simp: bit_simps dest: bit_less)
  then have "crc_bits m (push_bit n (drop_bit n w)) = crc_bits (m - n) (drop_bit n w)"
    using assms crc_bits_add [of "m - n" n] by simp
  then show ?thesis
    by (subst w) (simp add: crc_bits_xor)
qed

lemma STEP1_byte: "STEP1 b l = crc_byte b l"
proof -
  have eq: "(l AND 0xFF) XOR ucast b = take_bit 8 (l XOR ucast b)" "drop_bit 8 l = drop_bit 8 (l XOR ucast b)"
    unfolding and_FF by (auto intro!: bit_word_eqI simp: bit_simps dest: bit_less)
  have "STEP1 b l = crc_bits 8 ((l AND 0xFF) XOR ucast b) XOR drop_bit 8 l"
    by (simp add: STEP1_def table_lookups(1) [OF low_byte_less(2)])
  then show ?thesis
    unfolding eq crc_byte_def using crc_bits_split [of 8 8 "l XOR ucast b"] by simp
qed

text \<open>Up to four bytes at once are the little-endian word they are.\<close>

lemma bit_le_word: "bit (le_word bs :: u32) i \<Longrightarrow> i < 8 * length bs"
proof (induction bs arbitrary: i)
  case (Cons b bs)
  then show ?case
    by (cases "i < 8") (auto simp: bit_simps dest: bit_less Cons.IH)
qed simp

lemma crc_word: "length bs \<le> 4 \<Longrightarrow> fold crc_byte bs l = crc_bits (8 * length bs) (l XOR le_word bs)"
proof (induction bs arbitrary: l)
  case (Cons b bs)
  have "crc_bits 8 (push_bit 8 (le_word bs)) = (le_word bs :: u32)"
  proof -
    have "drop_bit 8 (push_bit 8 (le_word bs)) = (le_word bs :: u32)"
      using Cons.prems bit_le_word [of bs] by (intro bit_word_eqI) (force simp: bit_simps dest: bit_less)
    then show ?thesis
      by (subst crc_bits_shift) (auto intro!: bit_word_eqI simp: bit_simps)
  qed
  note shift = this
  have join: "(l XOR ucast b) XOR push_bit 8 (le_word bs) = l XOR le_word (b # bs)"
    by (auto intro!: bit_word_eqI simp: bit_simps dest: bit_less)
  have "fold crc_byte (b # bs) l = crc_bits (8 * length bs) (crc_bits 8 (l XOR ucast b) XOR le_word bs)"
    using Cons.IH [of "crc_byte b l"] Cons.prems by (simp add: crc_byte_def [of b])
  also have "crc_bits 8 (l XOR ucast b) XOR le_word bs = crc_bits 8 (l XOR le_word (b # bs))"
    unfolding join [symmetric] crc_bits_xor [of 8 _ "push_bit 8 (le_word bs)"] shift ..
  also have "crc_bits (8 * length bs) \<dots> = crc_bits (8 * length (b # bs)) (l XOR le_word (b # bs))"
    by (simp add: crc_bits_crc_bits add.commute)
  finally show ?case .
qed simp

lemma crc_word_4: "4 \<le> length p \<Longrightarrow> fold crc_byte (take 4 p) l = crc_bits 32 (l XOR ReadUint32LE p)"
  using crc_word [of "take 4 p" l] by (simp add: ReadUint32LE_def DecodeFixed32_def min_def)

section \<open>The strides\<close>

lemma STEP4_word: "STEP4 s p crc = ReadUint32LE (drop (s * 4) p) XOR crc_bits 128 crc"
proof -
  have "crc_bits 128 crc =
      crc_bits 128 (take_bit 8 crc) XOR crc_bits 120 (take_bit 8 (drop_bit 8 crc)) XOR
      crc_bits 112 (take_bit 8 (drop_bit 16 crc)) XOR crc_bits 104 (drop_bit 24 crc)"
    using crc_bits_split [of 8 128 crc] crc_bits_split [of 8 120 "drop_bit 8 crc"]
      crc_bits_split [of 8 112 "drop_bit 16 crc"]
    by (simp add: drop_bit_drop_bit ac_simps)
  moreover have "unat (drop_bit 24 crc) < 256"
    using unat_bound [of crc] by (simp add: unat_drop_bit div_less_iff_less_mult)
  ultimately show ?thesis
    by (simp add: STEP4_def table_lookups low_byte_less and_FF [symmetric] ac_simps)
qed

lemma STEP4W_word: "STEP4W w l = crc_bits 32 (w XOR l)"
proof -
  have "(\<lambda>w. drop_bit 8 w XOR kByteExtensionTable ! unat (w AND 0xFF)) = crc_bits 8"
    using STEP1_byte [of 0] by (auto simp: STEP1_def crc_byte_def Let_def ac_simps)
  then show ?thesis
    by (simp add: STEP4W_def numeral_eq_Suc crc_bits_crc_bits)
qed

text \<open>The register that four partial results stand for.\<close>

definition combine :: "strides \<Rightarrow> u32" where
  "combine cs = (case cs of (crc0, crc1, crc2, crc3) \<Rightarrow> STEP4W crc3 (STEP4W crc2 (STEP4W crc1 (STEP4W crc0 0))))"

lemma combine_eq:
  "combine (c0, c1, c2, c3) = crc_bits 128 c0 XOR crc_bits 96 c1 XOR crc_bits 64 c2 XOR crc_bits 32 c3"
  by (simp add: combine_def STEP4W_word crc_bits_xor crc_bits_crc_bits ac_simps)

lemma fold_split: "n \<le> length p \<Longrightarrow> fold f p l = fold f (drop n p) (fold f (take n p) l)"
  by (metis append_take_drop_id fold_append comp_apply)

lemma fold_16:
  assumes "16 \<le> length p"
  shows "fold crc_byte (take 16 p) l =
    combine (ReadUint32LE p XOR l, ReadUint32LE (drop 4 p), ReadUint32LE (drop 8 p), ReadUint32LE (drop 12 p))"
proof -
  have "take 16 p = take 4 p @ take 4 (drop 4 p) @ take 4 (drop 8 p) @ take 4 (drop 12 p)"
    by (simp add: take_add [of 4 12, simplified] take_add [of 4 8, simplified] take_add [of 4 4, simplified])
  then show ?thesis
    using assms by (simp add: crc_word_4 combine_def STEP4W_word ac_simps)
qed

lemma swath_loop_combine:
  "fold crc_byte p (combine cs) = (case swath_loop cs p of (cs', p') \<Rightarrow> fold crc_byte p' (combine cs'))"
proof (induction cs p rule: swath_loop.induct)
  case (1 cs p)
  obtain c0 c1 c2 c3 where cs: "cs = (c0, c1, c2, c3)" by (cases cs)
  have "fold crc_byte (take 16 p) (combine cs) = combine (STEP16 cs p)" if "16 \<le> length p"
    unfolding fold_16 [OF that] cs
    by (simp add: STEP16_def STEP4_word combine_eq crc_bits_xor crc_bits_crc_bits ac_simps)
  then show ?case
    using 1 fold_split [of 16 p crc_byte "combine cs"] by (simp add: swath_loop.simps [of cs p])
qed

lemma word_loop_combine:
  "fold crc_byte p (combine cs) = (case word_loop cs p of (cs', p') \<Rightarrow> fold crc_byte p' (combine cs'))"
proof (induction cs p rule: word_loop.induct)
  case (1 cs p)
  obtain c0 c1 c2 c3 where cs: "cs = (c0, c1, c2, c3)" by (cases cs)
  have "fold crc_byte (take 4 p) (combine cs) = combine (c1, c2, c3, STEP4 0 p c0)" if "4 \<le> length p"
    unfolding crc_word_4 [OF that] cs
    by (simp add: STEP4_word combine_eq crc_bits_xor crc_bits_crc_bits ac_simps)
  then show ?case
    using "1.IH" [OF _ cs [symmetric] refl refl] fold_split [of 4 p crc_byte "combine cs"] cs
    by (simp add: word_loop.simps [of "(c0, c1, c2, c3)" p])
qed

lemma strides_run_fold:
  assumes "16 \<le> length p" and run: "strides_run l p = (l', p')"
  shows "fold crc_byte p' l' = fold crc_byte p l"
proof -
  let ?cs = "(ReadUint32LE p XOR l, ReadUint32LE (drop 4 p), ReadUint32LE (drop 8 p), ReadUint32LE (drop 12 p))"
  obtain cs1 p1 where 1: "swath_loop ?cs (drop 16 p) = (cs1, p1)" by fastforce
  obtain cs2 p2 where 2: "word_loop cs1 p1 = (cs2, p2)" by fastforce
  have "fold crc_byte p l = fold crc_byte (drop 16 p) (combine ?cs)"
    using fold_split [OF assms(1), of crc_byte l] fold_16 [OF assms(1)] by simp
  also have "\<dots> = fold crc_byte p2 (combine cs2)"
    using swath_loop_combine [of "drop 16 p" ?cs] word_loop_combine [of p1 cs1] 1 2 by simp
  finally show ?thesis
    using run 1 2 by (cases cs2) (simp add: strides_run_def combine_def)
qed

lemma ldb_extend_eq: "Extend data crc p = crc32c crc p"
proof -
  have step: "STEP1 = crc_byte"
    by (intro ext) (rule STEP1_byte)
  have no: "\<not> CanAccelerateCRC32C"
    by (simp add: CanAccelerateCRC32C_def AcceleratedCRC32C_def)
  let ?x = "unat (RoundUp 4 data - data)"
  obtain l1 p1 where 1: "(if ?x \<le> length p then (fold crc_byte (take ?x p) (crc XOR 0xFFFFFFFF), drop ?x p)
      else (crc XOR 0xFFFFFFFF, p)) = (l1, p1)"
    by fastforce
  obtain l2 p2 where 2: "(if length p1 \<ge> 16 then strides_run l1 p1 else (l1, p1)) = (l2, p2)"
    by fastforce
  have "fold crc_byte p2 l2 = fold crc_byte p1 l1"
    using 2 strides_run_fold [of p1 l1 l2 p2] by (simp split: if_splits)
  also have "\<dots> = fold crc_byte p (crc XOR 0xFFFFFFFF)"
    using 1 fold_split [of ?x p crc_byte] by (auto split: if_splits)
  finally show ?thesis
    unfolding Extend_def crc32c_def step kCRC32Xor_def if_not_P [OF no] Let_def 1 prod.case 2 by simp
qed

section \<open>Properties\<close>

text \<open>
  C16. Whatever the alignment and the length of the data, \<open>Extend\<close> gives the bitwise CRC-32C: the
  tables, the prologue to a 4-byte boundary, the interleaved strides and the tail only change the
  order of the work.
\<close>

theorem ldb_crc_extend: "Extend data crc p = crc32c crc p"
  by (rule ldb_extend_eq)

text \<open>
  \<open>Extend\<close> continues a checksum: over two pieces, wherever they lie in memory, it gives the checksum
  of the whole.
\<close>

theorem ldb_crc_append: "Extend e (Extend d crc xs) ys = Extend d crc (xs @ ys)"
  by (simp add: ldb_extend_eq crc32c_def xor.assoc)

lemma rotate_inverse:
  fixes w :: u32
  shows "drop_bit 17 (push_bit 17 w) OR push_bit 15 (drop_bit 15 w) = w"
    "drop_bit 15 (push_bit 15 w) OR push_bit 17 (drop_bit 17 w) = w"
  by (auto intro!: bit_word_eqI simp: bit_simps dest: bit_less)

lemma Unmask_Mask: "Unmask (Mask crc) = crc"
  by (simp add: Mask_def Unmask_def Let_def rotate_inverse)

text \<open>
  \<open>Mask\<close> and \<open>Unmask\<close> undo each other.
\<close>

theorem ldb_crc_mask_inverse: "Unmask (Mask crc) = crc \<and> Mask (Unmask masked_crc) = masked_crc"
  by (simp add: Unmask_Mask) (simp add: Mask_def Unmask_def Let_def rotate_inverse)

end
