(* ===== verification/LdbEnv.thy ===== *)
theory LdbEnv
  imports Prelude "HOL-Library.Monad_Syntax"
begin

text \<open>
  Status values (\<open>util/status.cc\<close>) and the files of leveldb's POSIX environment
  (\<open>util/env_posix.cc\<close>): \<open>PosixWritableFile\<close>, a buffer of 64 KB in front of \<open>write(2)\<close>, and
  \<open>PosixSequentialFile\<close>. The system calls are a parameter, a record of functions on the state of the
  system. An operation that retries a system call returns an option, \<open>None\<close> when it never returns.
  The interfaces \<open>WritableFile\<close> and \<open>SequentialFile\<close> that the log is written against are the locales
  \<open>writable_file\<close> and \<open>sequential_file\<close>; the POSIX files on a system that keeps a regular file as
  \<open>read(2)\<close> and \<open>write(2)\<close> document it implement them.
\<close>

section \<open>Status\<close>

datatype ldb_status =
    OK
  | NotFound string
  | Corruption string
  | NotSupported string
  | InvalidArgument string
  | IOError string

text \<open>The message of a status made from two slices.\<close>

definition status_msg :: "string \<Rightarrow> string \<Rightarrow> string" where
  "status_msg msg msg2 = (if msg2 = [] then msg else msg @ '': '' @ msg2)"

primrec ToString :: "ldb_status \<Rightarrow> string" where
  "ToString OK = ''OK''"
| "ToString (NotFound m) = ''NotFound: '' @ m"
| "ToString (Corruption m) = ''Corruption: '' @ m"
| "ToString (NotSupported m) = ''Not implemented: '' @ m"
| "ToString (InvalidArgument m) = ''Invalid argument: '' @ m"
| "ToString (IOError m) = ''IO error: '' @ m"

section \<open>System calls\<close>

datatype errno = ENOENT | EINTR | Errno int

record 'k sys =
  sys_write :: "int \<Rightarrow> u8 list \<Rightarrow> 'k \<Rightarrow> (errno + nat) \<times> 'k"
  sys_read :: "int \<Rightarrow> nat \<Rightarrow> 'k \<Rightarrow> (errno + u8 list) \<times> 'k"
  sys_lseek_cur :: "int \<Rightarrow> u64 \<Rightarrow> 'k \<Rightarrow> errno option \<times> 'k"
  sys_open_rdonly :: "string \<Rightarrow> 'k \<Rightarrow> (errno + int) \<times> 'k"
  sys_close :: "int \<Rightarrow> 'k \<Rightarrow> errno option \<times> 'k"
  sys_fullfsync :: "int \<Rightarrow> 'k \<Rightarrow> errno option \<times> 'k"
  sys_fsync :: "int \<Rightarrow> 'k \<Rightarrow> errno option \<times> 'k"
  sys_strerror :: "errno \<Rightarrow> string"

definition PosixError :: "'k sys \<Rightarrow> string \<Rightarrow> errno \<Rightarrow> ldb_status" where
  "PosixError S ctx error_number =
     (if error_number = ENOENT then NotFound (status_msg ctx (sys_strerror S error_number))
      else IOError (status_msg ctx (sys_strerror S error_number)))"

section \<open>Writable files\<close>

definition kWritableFileBufferSize :: nat where
  "kWritableFileBufferSize = 65536"

text \<open>\<open>p_buf\<close> is \<open>buf_[0, pos_ - 1]\<close>, the data still to be written; its length is \<open>pos_\<close>.\<close>

record posix_file =
  p_buf :: "u8 list"
  p_fd :: int
  is_manifest :: bool
  p_filename :: string
  p_dirname :: string

text \<open>\<open>rfind('/')\<close>: what is before and after the last separator, if there is one.\<close>

definition has_separator :: "string \<Rightarrow> bool" where
  "has_separator s \<longleftrightarrow> list_ex (\<lambda>c. c = CHR ''/'') s"

definition Dirname :: "string \<Rightarrow> string" where
  "Dirname s = (if has_separator s then rev (tl (dropWhile (\<lambda>c. c \<noteq> CHR ''/'') (rev s))) else ''.'')"

definition Basename :: "string \<Rightarrow> string" where
  "Basename s = rev (takeWhile (\<lambda>c. c \<noteq> CHR ''/'') (rev s))"

definition IsManifest :: "string \<Rightarrow> bool" where
  "IsManifest s \<longleftrightarrow> take 8 (Basename s) = ''MANIFEST''"

definition PosixWritableFile :: "string \<Rightarrow> int \<Rightarrow> posix_file" where
  "PosixWritableFile fname fd =
     \<lparr>p_buf = [], p_fd = fd, is_manifest = IsManifest fname, p_filename = fname, p_dirname = Dirname fname\<rparr>"

partial_function (option) WriteUnbuffered ::
  "'k sys \<Rightarrow> posix_file \<Rightarrow> u8 list \<Rightarrow> 'k \<Rightarrow> (ldb_status \<times> 'k) option" where
  "WriteUnbuffered S f data k =
     (if data = [] then Some (OK, k)
      else
        (case sys_write S (p_fd f) data k of
           (Inl e, k) \<Rightarrow> if e = EINTR then WriteUnbuffered S f data k else Some (PosixError S (p_filename f) e, k)
         | (Inr n, k) \<Rightarrow> WriteUnbuffered S f (drop n data) k))"

type_synonym 'k pst = "posix_file \<times> 'k"

definition FlushBuffer :: "'k sys \<Rightarrow> 'k pst \<Rightarrow> (ldb_status \<times> 'k pst) option" where
  "FlushBuffer S = (\<lambda>(f, k). do {
     (status, k) \<leftarrow> WriteUnbuffered S f (p_buf f) k;
     Some (status, f\<lparr>p_buf := []\<rparr>, k)
   })"

definition Append :: "'k sys \<Rightarrow> u8 list \<Rightarrow> 'k pst \<Rightarrow> (ldb_status \<times> 'k pst) option" where
  "Append S data = (\<lambda>(f, k).
     let copy_size = min (length data) (kWritableFileBufferSize - length (p_buf f));
         f = f\<lparr>p_buf := p_buf f @ take copy_size data\<rparr>; write_data = drop copy_size data
     in if write_data = [] then Some (OK, f, k)
        else do {
          (status, f, k) \<leftarrow> FlushBuffer S (f, k);
          if status \<noteq> OK then Some (status, f, k)
          else if length write_data < kWritableFileBufferSize then Some (OK, f\<lparr>p_buf := write_data\<rparr>, k)
          else do {
            (status, k) \<leftarrow> WriteUnbuffered S f write_data k;
            Some (status, f, k)
          }
        })"

definition Flush :: "'k sys \<Rightarrow> 'k pst \<Rightarrow> (ldb_status \<times> 'k pst) option" where
  "Flush S = FlushBuffer S"

definition Close :: "'k sys \<Rightarrow> 'k pst \<Rightarrow> (ldb_status \<times> 'k pst) option" where
  "Close S st = do {
     (status, f, k) \<leftarrow> FlushBuffer S st;
     let (close_result, k) = sys_close S (p_fd f) k;
     let status = (case close_result of Some e \<Rightarrow> if status = OK then PosixError S (p_filename f) e else status
                   | None \<Rightarrow> status);
     Some (status, f\<lparr>p_fd := - 1\<rparr>, k)
   }"

text \<open>On this platform \<open>HAVE_FULLFSYNC\<close> is defined and \<open>HAVE_FDATASYNC\<close> is not.\<close>

definition SyncFd :: "'k sys \<Rightarrow> int \<Rightarrow> string \<Rightarrow> 'k \<Rightarrow> ldb_status \<times> 'k" where
  "SyncFd S fd fd_path k =
     (case sys_fullfsync S fd k of
        (None, k) \<Rightarrow> (OK, k)
      | (Some _, k) \<Rightarrow>
          (case sys_fsync S fd k of (None, k) \<Rightarrow> (OK, k) | (Some e, k) \<Rightarrow> (PosixError S fd_path e, k)))"

definition SyncDirIfManifest :: "'k sys \<Rightarrow> 'k pst \<Rightarrow> ldb_status \<times> 'k pst" where
  "SyncDirIfManifest S = (\<lambda>(f, k).
     if \<not> is_manifest f then (OK, f, k)
     else
       (case sys_open_rdonly S (p_dirname f) k of
          (Inl e, k) \<Rightarrow> (PosixError S (p_dirname f) e, f, k)
        | (Inr fd, k) \<Rightarrow>
            let (status, k) = SyncFd S fd (p_dirname f) k; (_, k) = sys_close S fd k in (status, f, k)))"

definition Sync :: "'k sys \<Rightarrow> 'k pst \<Rightarrow> (ldb_status \<times> 'k pst) option" where
  "Sync S st =
     (let (status, st) = SyncDirIfManifest S st in
      if status \<noteq> OK then Some (status, st)
      else do {
        (status, f, k) \<leftarrow> FlushBuffer S st;
        if status \<noteq> OK then Some (status, f, k)
        else (let (status, k) = SyncFd S (p_fd f) (p_filename f) k in Some (status, f, k))
      })"

section \<open>Sequential files\<close>

record seq_file =
  s_fd :: int
  s_filename :: string

text \<open>\<open>*result\<close> is assigned when the read succeeds only.\<close>

partial_function (option) Read ::
  "'k sys \<Rightarrow> nat \<Rightarrow> seq_file \<times> 'k \<Rightarrow> (ldb_status \<times> u8 list option \<times> seq_file \<times> 'k) option" where
  "Read S n st =
     (case st of (f, k) \<Rightarrow>
        (case sys_read S (s_fd f) n k of
           (Inl e, k) \<Rightarrow>
             if e = EINTR then Read S n (f, k) else Some (PosixError S (s_filename f) e, None, f, k)
         | (Inr bs, k) \<Rightarrow> Some (OK, Some bs, f, k)))"

definition Skip :: "'k sys \<Rightarrow> u64 \<Rightarrow> seq_file \<times> 'k \<Rightarrow> ldb_status \<times> seq_file \<times> 'k" where
  "Skip S n = (\<lambda>(f, k).
     case sys_lseek_cur S (s_fd f) n k of
       (Some e, k) \<Rightarrow> (PosixError S (s_filename f) e, f, k)
     | (None, k) \<Rightarrow> (OK, f, k))"

section \<open>Interfaces\<close>

text \<open>
  What the log writer relies on: appending and flushing succeed, \<open>written\<close> collects what was
  appended, and \<open>stored\<close>, what a reader of the file would find, is a prefix of it, all of it after a
  flush.
\<close>

locale writable_file =
  fixes append :: "u8 list \<Rightarrow> 'w \<Rightarrow> (ldb_status \<times> 'w) option"
    and flush :: "'w \<Rightarrow> (ldb_status \<times> 'w) option"
    and good :: "'w \<Rightarrow> bool"
    and written :: "'w \<Rightarrow> u8 list"
    and stored :: "'w \<Rightarrow> u8 list"
  assumes append_ok: "good w \<Longrightarrow> \<exists>w'. append bs w = Some (OK, w') \<and> good w' \<and> written w' = written w @ bs"
    and flush_ok: "good w \<Longrightarrow> \<exists>w'. flush w = Some (OK, w') \<and> good w' \<and> written w' = written w \<and> stored w' = written w"
    and stored_written: "good w \<Longrightarrow> \<exists>bs. written w = stored w @ bs"

text \<open>What the log reader relies on: a read returns less than it was asked for at the end of the file only.\<close>

locale sequential_file =
  fixes read :: "nat \<Rightarrow> 's \<Rightarrow> (ldb_status \<times> u8 list option \<times> 's) option"
    and ready :: "'s \<Rightarrow> bool"
    and remaining :: "'s \<Rightarrow> u8 list"
  assumes read_ok: "ready s \<Longrightarrow>
    \<exists>s'. read n s = Some (OK, Some (take n (remaining s)), s') \<and> ready s' \<and> remaining s' = drop n (remaining s)"

text \<open>A file that can also be skipped in.\<close>

locale skippable_file = sequential_file read ready remaining
  for read :: "nat \<Rightarrow> 's \<Rightarrow> (ldb_status \<times> u8 list option \<times> 's) option"
    and ready :: "'s \<Rightarrow> bool" and remaining :: "'s \<Rightarrow> u8 list" +
  fixes skip :: "u64 \<Rightarrow> 's \<Rightarrow> ldb_status \<times> 's"
  assumes skip_ok: "ready s \<Longrightarrow>
    \<exists>s'. skip n s = (OK, s') \<and> ready s' \<and> remaining s' = drop (unat n) (remaining s)"

section \<open>A system with one regular file\<close>

text \<open>
  \<open>read(2)\<close> and \<open>write(2)\<close> on a regular file: \<open>d_tape\<close> says which of the coming calls are interrupted
  by a signal and which writes take only a part of the data, at least one byte; all other calls are
  complete.
\<close>

datatype event = Interrupted | Partial nat

record disk =
  d_bytes :: "u8 list"
  d_at :: nat
  d_tape :: "event list"

definition disk_write :: "int \<Rightarrow> u8 list \<Rightarrow> disk \<Rightarrow> (errno + nat) \<times> disk" where
  "disk_write fd bs d =
     (case d_tape d of
        [] \<Rightarrow> (Inr (length bs), d\<lparr>d_bytes := d_bytes d @ bs\<rparr>)
      | Interrupted # tape \<Rightarrow> (Inl EINTR, d\<lparr>d_tape := tape\<rparr>)
      | Partial n # tape \<Rightarrow>
          let m = min (Suc n) (length bs) in (Inr m, d\<lparr>d_bytes := d_bytes d @ take m bs, d_tape := tape\<rparr>))"

definition disk_read :: "int \<Rightarrow> nat \<Rightarrow> disk \<Rightarrow> (errno + u8 list) \<times> disk" where
  "disk_read fd n d =
     (case d_tape d of
        Interrupted # tape \<Rightarrow> (Inl EINTR, d\<lparr>d_tape := tape\<rparr>)
      | _ \<Rightarrow> (Inr (take n (drop (d_at d) (d_bytes d))), d\<lparr>d_at := d_at d + n\<rparr>))"

definition disk_sys :: "disk sys" where
  "disk_sys =
     \<lparr>sys_write = disk_write, sys_read = disk_read,
      sys_lseek_cur = (\<lambda>fd n d. (None, d\<lparr>d_at := d_at d + unat n\<rparr>)),
      sys_open_rdonly = (\<lambda>path d. (Inr 0, d)), sys_close = (\<lambda>fd d. (None, d)),
      sys_fullfsync = (\<lambda>fd d. (None, d)), sys_fsync = (\<lambda>fd d. (None, d)), sys_strerror = (\<lambda>e. ''error'')\<rparr>"

lemma disk_WriteUnbuffered:
  "\<exists>tape. WriteUnbuffered disk_sys f data d = Some (OK, d\<lparr>d_bytes := d_bytes d @ data, d_tape := tape\<rparr>)"
proof (induction "d_tape d" arbitrary: data d)
  case Nil
  have "d\<lparr>d_bytes := d_bytes d @ data\<rparr> = d\<lparr>d_bytes := d_bytes d @ data, d_tape := d_tape d\<rparr>" by simp
  then show ?case
    using Nil [symmetric]
    by (auto simp: WriteUnbuffered.simps [of _ _ data] WriteUnbuffered.simps [of _ _ "[]"] disk_sys_def disk_write_def
        intro: exI [of _ "[]"])
next
  case (Cons e tape)
  note tape = \<open>e # tape = d_tape d\<close> [symmetric]
  show ?case
  proof (cases "data = []")
    case True
    then show ?thesis by (auto simp: WriteUnbuffered.simps intro: exI [of _ "d_tape d"])
  next
    case False
    have sys: "sys_write disk_sys = disk_write" by (simp add: disk_sys_def)
    show ?thesis
    proof (cases e)
      case Interrupted
      then show ?thesis
        using Cons.hyps(1) [of "d\<lparr>d_tape := tape\<rparr>" data] False tape
        by (simp add: WriteUnbuffered.simps [of _ _ data] sys disk_write_def)
    next
      case (Partial n)
      then show ?thesis
        using Cons.hyps(1) [of "d\<lparr>d_bytes := d_bytes d @ take (min (Suc n) (length data)) data, d_tape := tape\<rparr>"
            "drop (min (Suc n) (length data)) data"] False tape
        by (simp add: WriteUnbuffered.simps [of _ _ data] sys disk_write_def Let_def del: take_Suc drop_Suc)
    qed
  qed
qed

text \<open>The two POSIX files on this system.\<close>

definition pfile_good :: "disk pst \<Rightarrow> bool" where
  "pfile_good = (\<lambda>(f, d). length (p_buf f) \<le> kWritableFileBufferSize)"

definition pfile_written :: "disk pst \<Rightarrow> u8 list" where
  "pfile_written = (\<lambda>(f, d). d_bytes d @ p_buf f)"

definition pfile_stored :: "disk pst \<Rightarrow> u8 list" where
  "pfile_stored = (\<lambda>(f, d). d_bytes d)"

lemmas pfile_defs = pfile_good_def pfile_written_def pfile_stored_def

lemma disk_FlushBuffer:
  "\<exists>tape. FlushBuffer disk_sys (f, d) =
    Some (OK, f\<lparr>p_buf := []\<rparr>, d\<lparr>d_bytes := d_bytes d @ p_buf f, d_tape := tape\<rparr>)"
  using disk_WriteUnbuffered [of f "p_buf f" d] by (auto simp: FlushBuffer_def)

lemma disk_Append:
  assumes "pfile_good st"
  shows "\<exists>st'. Append disk_sys bs st = Some (OK, st') \<and> pfile_good st' \<and> pfile_written st' = pfile_written st @ bs"
proof -
  obtain f d where st: "st = (f, d)" by fastforce
  let ?n = "min (length bs) (kWritableFileBufferSize - length (p_buf f))"
  let ?f = "f\<lparr>p_buf := p_buf f @ take ?n bs\<rparr>"
  obtain tape where flush: "FlushBuffer disk_sys (?f, d) =
      Some (OK, ?f\<lparr>p_buf := []\<rparr>, d\<lparr>d_bytes := d_bytes d @ p_buf f @ take ?n bs, d_tape := tape\<rparr>)"
    using disk_FlushBuffer [of ?f d] by auto
  let ?d = "d\<lparr>d_bytes := d_bytes d @ p_buf f @ take ?n bs, d_tape := tape\<rparr>"
  obtain tape2 where rest: "WriteUnbuffered disk_sys (?f\<lparr>p_buf := []\<rparr>) (drop ?n bs) ?d =
      Some (OK, ?d\<lparr>d_bytes := d_bytes ?d @ drop ?n bs, d_tape := tape2\<rparr>)"
    using disk_WriteUnbuffered by blast
  have *: "take ?n bs @ drop ?n bs = bs" by simp
  show ?thesis
    using assms flush rest * unfolding st Append_def Let_def
    by (auto simp: pfile_defs min_def simp del: append_take_drop_id)
qed

interpretation posix_writable: writable_file "Append disk_sys" "Flush disk_sys" pfile_good pfile_written pfile_stored
proof
  fix st :: "disk pst" and bs
  assume good: "pfile_good st"
  show "\<exists>st'. Append disk_sys bs st = Some (OK, st') \<and> pfile_good st' \<and> pfile_written st' = pfile_written st @ bs"
    using good by (rule disk_Append)
  show "\<exists>st'. Flush disk_sys st = Some (OK, st') \<and> pfile_good st' \<and> pfile_written st' = pfile_written st \<and>
      pfile_stored st' = pfile_written st"
    using disk_FlushBuffer [of "fst st" "snd st"] by (auto simp: Flush_def pfile_defs split_beta)
  show "\<exists>bs. pfile_written st = pfile_stored st @ bs"
    by (cases st) (auto simp: pfile_defs)
qed

definition sfile_remaining :: "seq_file \<times> disk \<Rightarrow> u8 list" where
  "sfile_remaining = (\<lambda>(f, d). drop (d_at d) (d_bytes d))"

lemma disk_Read:
  "\<exists>tape. Read disk_sys n (f, d) =
    Some (OK, Some (take n (drop (d_at d) (d_bytes d))), f, d\<lparr>d_at := d_at d + n, d_tape := tape\<rparr>)"
proof (induction "d_tape d" arbitrary: d)
  case Nil
  then show ?case
    using Nil [symmetric]
    by (subst Read.simps) (auto simp: disk_sys_def disk_read_def intro: exI [of _ "[]"])
next
  case (Cons e tape)
  note tape = \<open>e # tape = d_tape d\<close> [symmetric]
  have sys: "sys_read disk_sys = disk_read" by (simp add: disk_sys_def)
  show ?case
  proof (cases e)
    case Interrupted
    then show ?thesis
      using Cons.hyps(1) [of "d\<lparr>d_tape := tape\<rparr>"] tape
      by (subst Read.simps) (simp add: sys disk_read_def)
  next
    case (Partial m)
    then show ?thesis
      using tape by (subst Read.simps) (auto simp: sys disk_read_def intro: exI [of _ "d_tape d"])
  qed
qed

interpretation posix_sequential: skippable_file "Read disk_sys" "\<lambda>_. True" sfile_remaining "Skip disk_sys"
proof
  fix st :: "seq_file \<times> disk" and n
  show "\<exists>st'. Read disk_sys n st = Some (OK, Some (take n (sfile_remaining st)), st') \<and> True \<and>
      sfile_remaining st' = drop n (sfile_remaining st)"
    using disk_Read [of n "fst st" "snd st"] by (auto simp: sfile_remaining_def split_beta add.commute)
  show "\<exists>st'. Skip disk_sys i st = (OK, st') \<and> True \<and> sfile_remaining st' = drop (unat i) (sfile_remaining st)" for i
    by (cases st) (simp add: Skip_def disk_sys_def sfile_remaining_def add.commute)
qed

end
