(* ===== verification/LdbNames.thy ===== *)
theory LdbNames
  imports Prelude
begin

text \<open>
  Numbers and escaped bytes in text (\<open>util/logging.cc\<close>) and the names of the files of a database
  (\<open>db/filename.cc\<close>). Every number that is written into a name is read back; reading a number refuses exactly the
  ones that do not fit 64 bits.
\<close>

section \<open>\<open>util/logging.cc\<close>\<close>

definition decimal_digit :: "nat \<Rightarrow> char" where
  "decimal_digit n = char_of (48 + n)"

text \<open>What \<open>snprintf\<close> writes for \<open>%llu\<close> and \<open>%u\<close>.\<close>

fun decimal :: "nat \<Rightarrow> string" where
  "decimal n = (if n < 10 then [decimal_digit n] else decimal (n div 10) @ [decimal_digit (n mod 10)])"

declare decimal.simps [simp del]

definition AppendNumberTo :: "string \<Rightarrow> u64 \<Rightarrow> string" where
  "AppendNumberTo str num = str @ decimal (unat num)"

definition hex_digit :: "nat \<Rightarrow> char" where
  "hex_digit n = (if n < 10 then decimal_digit n else char_of (87 + n))"

primrec AppendEscapedStringTo :: "string \<Rightarrow> u8 list \<Rightarrow> string" where
  "AppendEscapedStringTo str [] = str"
| "AppendEscapedStringTo str (c # cs) =
     AppendEscapedStringTo
       (if 32 \<le> unat c \<and> unat c \<le> 126 then str @ [char_of (unat c)]
        else str @ [char_of (92 :: nat)] @ ''x'' @ [hex_digit (unat c div 16), hex_digit (unat c mod 16)])
       cs"

definition NumberToString :: "u64 \<Rightarrow> string" where
  "NumberToString num = AppendNumberTo [] num"

definition EscapeString :: "u8 list \<Rightarrow> string" where
  "EscapeString val = AppendEscapedStringTo [] val"

definition kMaxUint64 :: u64 where
  "kMaxUint64 = 18446744073709551615"

text \<open>The loop has no result when the value overflows; otherwise the value and what is left of the text.\<close>

primrec consume_loop :: "string \<Rightarrow> u64 \<Rightarrow> (u64 \<times> string) option" where
  "consume_loop [] v = Some (v, [])"
| "consume_loop (c # cs) v =
     (let ch = of_char c :: nat in
      if ch < 48 \<or> 57 < ch then Some (v, c # cs)
      else if v > kMaxUint64 div 10 \<or> v = kMaxUint64 div 10 \<and> 48 + unat (kMaxUint64 mod 10) < ch then None
      else consume_loop cs (v * 10 + of_nat (ch - 48)))"

text \<open>Whether it succeeds, the value if one is stored, and what is left.\<close>

definition ConsumeDecimalNumber :: "string \<Rightarrow> bool \<times> u64 option \<times> string" where
  "ConsumeDecimalNumber inp =
     (case consume_loop inp 0 of
        None \<Rightarrow> (False, None, inp)
      | Some (v, rest) \<Rightarrow> (length inp - length rest \<noteq> 0, Some v, rest))"

section \<open>\<open>db/filename.cc\<close>\<close>

datatype FileType = kLogFile | kDBLockFile | kTableFile | kDescriptorFile | kCurrentFile | kTempFile | kInfoLogFile

text \<open>What \<open>snprintf\<close> writes for \<open>%06llu\<close>.\<close>

definition decimal6 :: "u64 \<Rightarrow> string" where
  "decimal6 n = replicate (6 - length (decimal (unat n))) (decimal_digit 0) @ decimal (unat n)"

definition MakeFileName :: "string \<Rightarrow> u64 \<Rightarrow> string \<Rightarrow> string" where
  "MakeFileName dbname number suffix = dbname @ ''/'' @ decimal6 number @ ''.'' @ suffix"

definition LogFileName :: "string \<Rightarrow> u64 \<Rightarrow> string" where
  "LogFileName dbname number = MakeFileName dbname number ''log''"

definition TableFileName :: "string \<Rightarrow> u64 \<Rightarrow> string" where
  "TableFileName dbname number = MakeFileName dbname number ''ldb''"

definition SSTTableFileName :: "string \<Rightarrow> u64 \<Rightarrow> string" where
  "SSTTableFileName dbname number = MakeFileName dbname number ''sst''"

definition DescriptorFileName :: "string \<Rightarrow> u64 \<Rightarrow> string" where
  "DescriptorFileName dbname number = dbname @ ''/MANIFEST-'' @ decimal6 number"

definition CurrentFileName :: "string \<Rightarrow> string" where
  "CurrentFileName dbname = dbname @ ''/CURRENT''"

definition LockFileName :: "string \<Rightarrow> string" where
  "LockFileName dbname = dbname @ ''/LOCK''"

definition TempFileName :: "string \<Rightarrow> u64 \<Rightarrow> string" where
  "TempFileName dbname number = MakeFileName dbname number ''dbtmp''"

definition InfoLogFileName :: "string \<Rightarrow> string" where
  "InfoLogFileName dbname = dbname @ ''/LOG''"

definition OldInfoLogFileName :: "string \<Rightarrow> string" where
  "OldInfoLogFileName dbname = dbname @ ''/LOG.old''"

definition ParseFileName :: "string \<Rightarrow> (u64 \<times> FileType) option" where
  "ParseFileName filename =
     (if filename = ''CURRENT'' then Some (0, kCurrentFile)
      else if filename = ''LOCK'' then Some (0, kDBLockFile)
      else if filename = ''LOG'' \<or> filename = ''LOG.old'' then Some (0, kInfoLogFile)
      else if take 9 filename = ''MANIFEST-'' then
        (case ConsumeDecimalNumber (drop 9 filename) of
           (True, Some num, rest) \<Rightarrow> if rest \<noteq> [] then None else Some (num, kDescriptorFile)
         | _ \<Rightarrow> None)
      else
        (case ConsumeDecimalNumber filename of
           (True, Some num, suffix) \<Rightarrow>
             if suffix = ''.log'' then Some (num, kLogFile)
             else if suffix = ''.sst'' \<or> suffix = ''.ldb'' then Some (num, kTableFile)
             else if suffix = ''.dbtmp'' then Some (num, kTempFile)
             else None
         | _ \<Rightarrow> None))"

section \<open>Numbers\<close>

definition is_digit :: "char \<Rightarrow> bool" where
  "is_digit c \<longleftrightarrow> 48 \<le> (of_char c :: nat) \<and> (of_char c :: nat) \<le> 57"

definition digits_value :: "nat \<Rightarrow> string \<Rightarrow> nat" where
  "digits_value v ds = fold (\<lambda>c v. v * 10 + (of_char c - 48)) ds v"

lemma of_char_digit: "n < 10 \<Longrightarrow> (of_char (decimal_digit n) :: nat) = 48 + n"
  by (simp add: decimal_digit_def)

lemma is_digit_digit [simp]: "n < 10 \<Longrightarrow> is_digit (decimal_digit n)"
  by (simp add: is_digit_def of_char_digit)

lemma digits_value_append [simp]: "digits_value v (xs @ ys) = digits_value (digits_value v xs) ys"
  by (simp add: digits_value_def)

lemma digits_value_mono: "v \<le> digits_value v ds"
proof (induction ds arbitrary: v)
  case (Cons c cs)
  have "v \<le> v * 10 + (of_char c - 48)" by simp
  then show ?case using Cons [of "v * 10 + (of_char c - 48)"] by (simp add: digits_value_def)
qed (simp add: digits_value_def)

lemma decimal_digits: "list_all is_digit (decimal n) \<and> digits_value 0 (decimal n) = n \<and> decimal n \<noteq> []"
proof (induction n rule: decimal.induct)
  case (1 n)
  show ?case
  proof (cases "n < 10")
    case True
    then have "decimal n = [decimal_digit n]" by (subst decimal.simps) simp
    then show ?thesis using True by (simp add: digits_value_def of_char_digit)
  next
    case False
    then have IH: "list_all is_digit (decimal (n div 10))" "digits_value 0 (decimal (n div 10)) = n div 10" using 1 by simp_all
    have "decimal n = decimal (n div 10) @ [decimal_digit (n mod 10)]" using False by (subst decimal.simps) simp
    then show ?thesis using IH by (simp add: digits_value_def of_char_digit)
  qed
qed

lemma decimal6_digits: "list_all is_digit (decimal6 n)" "digits_value 0 (decimal6 n) = unat n" "decimal6 n \<noteq> []"
proof -
  have zeros: "digits_value 0 (replicate k (decimal_digit 0)) = 0" for k
    by (induction k) (simp_all add: digits_value_def of_char_digit)
  show "list_all is_digit (decimal6 n)" "digits_value 0 (decimal6 n) = unat n" "decimal6 n \<noteq> []"
    using decimal_digits [of "unat n"] zeros by (auto simp: decimal6_def list_all_iff)
qed

lemma u64_lt: "unat (v :: u64) < 2 ^ 64"
  using unsigned_less [of v] by simp

lemma max_parts: "unat kMaxUint64 = 2 ^ 64 - 1" "unat (kMaxUint64 div 10) = 1844674407370955161" "unat (kMaxUint64 mod 10) = 5"
  by (simp_all add: kMaxUint64_def)

lemma consume_loop_value:
  "list_all is_digit ds \<Longrightarrow> rest = [] \<or> \<not> is_digit (hd rest) \<Longrightarrow>
    consume_loop (ds @ rest) v =
      (if digits_value (unat v) ds < 2 ^ 64 then Some (of_nat (digits_value (unat v) ds), rest) else None)"
proof (induction ds arbitrary: v)
  case Nil
  have "unat v < 2 ^ 64" using u64_lt [of v] by simp
  moreover have "of_char c < (48 :: nat) \<or> 57 < (of_char c :: nat)" if "rest = c # cs" for c cs
    using Nil.prems(2) that by (auto simp: is_digit_def)
  ultimately show ?case by (cases rest) (simp_all add: digits_value_def Let_def)
next
  case (Cons c ds)
  let ?d = "of_char c - 48 :: nat"
  have d: "\<not> (of_char c < (48 :: nat) \<or> 57 < (of_char c :: nat))" "?d \<le> 9" "(of_char c :: nat) = 48 + ?d"
    using Cons.prems(1) by (auto simp: is_digit_def)
  have over: "v > kMaxUint64 div 10 \<or> v = kMaxUint64 div 10 \<and> 48 + unat (kMaxUint64 mod 10) < (of_char c :: nat) \<longleftrightarrow>
      2 ^ 64 \<le> unat v * 10 + ?d"
    unfolding word_less_nat_alt word_unat_eq_iff max_parts using d(2,3) by auto
  have val: "digits_value (unat v) (c # ds) = digits_value (unat v * 10 + ?d) ds" by (simp add: digits_value_def)
  show ?case
  proof (cases "2 ^ 64 \<le> unat v * 10 + ?d")
    case True
    then have "\<not> digits_value (unat v) (c # ds) < 2 ^ 64" using digits_value_mono [of "unat v * 10 + ?d" ds] val by simp
    then show ?thesis using True d(1) over by (simp add: Let_def)
  next
    case False
    have next_value: "unat (v * 10 + of_nat ?d) = unat v * 10 + ?d"
    proof -
      have "v * 10 + of_nat ?d = (of_nat (unat v * 10 + ?d) :: u64)" by simp
      then show ?thesis using False by (simp only: unat_of_nat) (simp add: take_bit_nat_eq_self)
    qed
    have "\<not> (v > kMaxUint64 div 10 \<or> v = kMaxUint64 div 10 \<and> 48 + unat (kMaxUint64 mod 10) < (of_char c :: nat))"
      unfolding over by (rule False)
    then have step: "consume_loop ((c # ds) @ rest) v = consume_loop (ds @ rest) (v * 10 + of_nat ?d)"
      using d(1) by (simp only: append_Cons consume_loop.simps Let_def if_False)
    have "list_all is_digit ds" using Cons.prems(1) by simp
    from Cons.IH [OF this Cons.prems(2), of "v * 10 + of_nat ?d"] show ?thesis unfolding step val next_value .
  qed
qed

lemma ConsumeDecimalNumber_value:
  assumes "list_all is_digit ds" and "rest = [] \<or> \<not> is_digit (hd rest)"
  shows "ConsumeDecimalNumber (ds @ rest) =
    (if digits_value 0 ds < 2 ^ 64 then (ds \<noteq> [], Some (of_nat (digits_value 0 ds)), rest) else (False, None, ds @ rest))"
  using consume_loop_value [OF assms, of 0] by (simp add: ConsumeDecimalNumber_def)

section \<open>Properties\<close>

text \<open>
  A decimal number is read up to the first byte that is not a digit: it is refused, and nothing is consumed, exactly when
  there is no digit or the number does not fit 64 bits; what \<open>NumberToString\<close> writes is read back.
\<close>

theorem ldb_decimal_exact:
  assumes "list_all is_digit ds" and "rest = [] \<or> \<not> is_digit (hd rest)"
  shows "ConsumeDecimalNumber (ds @ rest) =
      (if digits_value 0 ds < 2 ^ 64 then (ds \<noteq> [], Some (of_nat (digits_value 0 ds)), rest) else (False, None, ds @ rest)) \<and>
    ConsumeDecimalNumber (NumberToString n @ rest) = (True, Some n, rest)"
proof -
  have "digits_value 0 (decimal (unat n)) < 2 ^ 64" using decimal_digits [of "unat n"] u64_lt [of n] by simp
  then show ?thesis
    using ConsumeDecimalNumber_value [OF assms] ConsumeDecimalNumber_value [of "decimal (unat n)" rest] decimal_digits [of "unat n"] assms(2)
    by (simp add: NumberToString_def AppendNumberTo_def)
qed

theorem ldb_decimal_exact_witness:
  "ConsumeDecimalNumber (''18446744073709551615'' @ ''.log'') = (True, Some 18446744073709551615, ''.log'') \<and>
    ConsumeDecimalNumber (''18446744073709551616'' @ []) = (False, None, ''18446744073709551616'' @ [])"
  using ldb_decimal_exact [of "''18446744073709551615''" "''.log''" 7] ldb_decimal_exact [of "''18446744073709551616''" "[]" 7]
  by (simp add: is_digit_def digits_value_def)

lemma parse_number:
  assumes "rest = [] \<or> \<not> is_digit (hd rest)"
  shows "ConsumeDecimalNumber (decimal6 n @ rest) = (True, Some n, rest)"
  using ConsumeDecimalNumber_value [OF decimal6_digits(1) assms] u64_lt [of n] by (simp add: decimal6_digits)

lemma starts_digit: "decimal6 n @ xs \<noteq> c # ys" if "\<not> is_digit c"
proof -
  have "is_digit (hd (decimal6 n))" using decimal6_digits(1,3) [of n] by (cases "decimal6 n") simp_all
  then show ?thesis using that decimal6_digits(3) [of n] by (cases "decimal6 n") auto
qed

text \<open>
  C33. The name of every file of a database, without the directory, is parsed back into its kind and number; the old
  suffix of tables is recognised.
\<close>

theorem ldb_file_names_roundtrip:
  "ParseFileName (drop (length dbname + 1) (LogFileName dbname n)) = Some (n, kLogFile) \<and>
   ParseFileName (drop (length dbname + 1) (TableFileName dbname n)) = Some (n, kTableFile) \<and>
   ParseFileName (drop (length dbname + 1) (SSTTableFileName dbname n)) = Some (n, kTableFile) \<and>
   ParseFileName (drop (length dbname + 1) (TempFileName dbname n)) = Some (n, kTempFile) \<and>
   ParseFileName (drop (length dbname + 1) (DescriptorFileName dbname n)) = Some (n, kDescriptorFile) \<and>
   ParseFileName (drop (length dbname + 1) (CurrentFileName dbname)) = Some (0, kCurrentFile) \<and>
   ParseFileName (drop (length dbname + 1) (LockFileName dbname)) = Some (0, kDBLockFile) \<and>
   ParseFileName (drop (length dbname + 1) (InfoLogFileName dbname)) = Some (0, kInfoLogFile) \<and>
   ParseFileName (drop (length dbname + 1) (OldInfoLogFileName dbname)) = Some (0, kInfoLogFile)"
proof -
  have no: "\<not> is_digit CHR ''C''" "\<not> is_digit CHR ''L''" "\<not> is_digit CHR ''M''" "\<not> is_digit CHR ''.''" by (simp_all add: is_digit_def)
  have take: "take 9 (decimal6 n @ xs) \<noteq> ''MANIFEST-''" for xs
    using starts_digit [OF no(3), of n xs "''ANIFEST-'' @ drop 9 (decimal6 n @ xs)"] by (metis append_Cons append_take_drop_id)
  have num: "ParseFileName (decimal6 n @ CHR ''.'' # xs) =
      (if xs = ''log'' then Some (n, kLogFile) else if xs = ''sst'' \<or> xs = ''ldb'' then Some (n, kTableFile)
       else if xs = ''dbtmp'' then Some (n, kTempFile) else None)" for xs
    unfolding ParseFileName_def using starts_digit [OF no(1)] starts_digit [OF no(2)] take [of "CHR ''.'' # xs"] no(4)
    by (simp add: parse_number)
  have "ParseFileName (''MANIFEST-'' @ decimal6 n) = Some (n, kDescriptorFile)"
    using parse_number [of "[]" n] by (simp add: ParseFileName_def)
  then show ?thesis
    by (simp add: LogFileName_def TableFileName_def SSTTableFileName_def TempFileName_def DescriptorFileName_def MakeFileName_def
      CurrentFileName_def LockFileName_def InfoLogFileName_def OldInfoLogFileName_def num ParseFileName_def [of "''CURRENT''"]
      ParseFileName_def [of "''LOCK''"] ParseFileName_def [of "''LOG''"] ParseFileName_def [of "''LOG.old''"])
qed

end
