(* ===== verification/LdbLog.thy ===== *)
theory LdbLog
  imports LdbCrc LdbEnv LdbNames
begin

text \<open>
  The write-ahead log of leveldb (\<open>db/log_format.h\<close>, \<open>db/log_writer.cc\<close>, \<open>db/log_reader.cc\<close>). A log
  is a sequence of blocks of 32 KB; a record is cut into fragments so that none crosses a block, and
  each fragment carries a checksum. The file operations the writer and the reader call are
  parameters, those of the interfaces of \<open>LdbEnv\<close>. A checksum does not depend on where the data lies
  (\<open>ldb_extend_eq\<close>), so its address is taken to be 0.
\<close>

section \<open>Format\<close>

abbreviation (input) "kZeroType \<equiv> 0"
abbreviation (input) "kFullType \<equiv> 1"
abbreviation (input) "kFirstType \<equiv> 2"
abbreviation (input) "kMiddleType \<equiv> 3"
abbreviation (input) "kLastType \<equiv> 4"
abbreviation (input) "kMaxRecordType \<equiv> kLastType"

definition kBlockSize :: nat where
  "kBlockSize = 32768"

definition kHeaderSize :: nat where
  "kHeaderSize = 4 + 2 + 1"

section \<open>Writer\<close>

record 'w log_writer =
  dest :: 'w
  block_offset :: nat
  type_crc :: "u32 list"

definition InitTypeCrc :: "u32 list" where
  "InitTypeCrc = map (\<lambda>i. Value 0 [of_nat i]) [0..<kMaxRecordType + 1]"

definition new_writer :: "'w \<Rightarrow> 'w log_writer" where
  "new_writer w = \<lparr>dest = w, block_offset = 0, type_crc = InitTypeCrc\<rparr>"

definition new_writer_at :: "'w \<Rightarrow> u64 \<Rightarrow> 'w log_writer" where
  "new_writer_at w dest_length = \<lparr>dest = w, block_offset = unat dest_length mod kBlockSize, type_crc = InitTypeCrc\<rparr>"

type_synonym 'w append_op = "u8 list \<Rightarrow> 'w \<Rightarrow> (ldb_status \<times> 'w) option"
type_synonym 'w flush_op = "'w \<Rightarrow> (ldb_status \<times> 'w) option"

definition EmitPhysicalRecord ::
  "'w append_op \<Rightarrow> 'w flush_op \<Rightarrow> u8 \<Rightarrow> u8 list \<Rightarrow> 'w log_writer \<Rightarrow> (ldb_status \<times> 'w log_writer) option" where
  "EmitPhysicalRecord app fl t ptr wr =
     (let len = length ptr;
          crc = Mask (Extend 0 (type_crc wr ! unat t) ptr);
          buf = EncodeFixed32 crc @ [of_nat len AND 0xFF, of_nat (len div 256), t]
      in do {
        (s, w) \<leftarrow> app buf (dest wr);
        (s, w) \<leftarrow> (if s = OK then do {
            (s, w) \<leftarrow> app ptr w;
            if s = OK then fl w else Some (s, w)
          } else Some (s, w));
        Some (s, wr\<lparr>dest := w, block_offset := block_offset wr + (kHeaderSize + len)\<rparr>)
      })"

text \<open>The start of a round of \<open>AddRecord\<close>: a trailer too short for a header is filled. Its status is not looked at.\<close>

definition switch_block :: "'w append_op \<Rightarrow> 'w log_writer \<Rightarrow> 'w log_writer option" where
  "switch_block app wr =
     (let leftover = kBlockSize - block_offset wr in
      if leftover < kHeaderSize then
        if leftover > 0 then do {
          (_, w) \<leftarrow> app (replicate leftover 0) (dest wr);
          Some (wr\<lparr>dest := w, block_offset := 0\<rparr>)
        }
        else Some (wr\<lparr>block_offset := 0\<rparr>)
      else Some wr)"

definition fragment_type :: "bool \<Rightarrow> bool \<Rightarrow> u8" where
  "fragment_type begin end =
     (if begin \<and> end then kFullType else if begin then kFirstType else if end then kLastType else kMiddleType)"

lemma switch_block_offset:
  "switch_block app wr = Some wr' \<Longrightarrow>
    block_offset wr' = (if kBlockSize - block_offset wr < kHeaderSize then 0 else block_offset wr)"
  by (auto simp: switch_block_def Let_def bind_eq_Some_conv split: if_splits)

lemma EmitPhysicalRecord_offset:
  "EmitPhysicalRecord app fl t ptr wr = Some (s, wr') \<Longrightarrow>
    block_offset wr' = block_offset wr + (kHeaderSize + length ptr)"
  by (auto simp: EmitPhysicalRecord_def Let_def bind_eq_Some_conv split: prod.splits)

function add_loop ::
  "'w append_op \<Rightarrow> 'w flush_op \<Rightarrow> bool \<Rightarrow> u8 list \<Rightarrow> 'w log_writer \<Rightarrow> (ldb_status \<times> 'w log_writer) option" where
  "add_loop app fl begin ptr wr =
     (case switch_block app wr of
        None \<Rightarrow> None
      | Some wr \<Rightarrow>
          let avail = kBlockSize - block_offset wr - kHeaderSize;
              fragment_length = (if length ptr < avail then length ptr else avail);
              end = (length ptr = fragment_length)
          in case EmitPhysicalRecord app fl (fragment_type begin end) (take fragment_length ptr) wr of
               None \<Rightarrow> None
             | Some (s, wr) \<Rightarrow>
                 let ptr = drop fragment_length ptr in
                 if s = OK \<and> length ptr > 0 then add_loop app fl False ptr wr else Some (s, wr))"
  by auto
termination
proof (relation "measure (\<lambda>(_, _, _, ptr, wr). 2 * length ptr + (if kBlockSize - block_offset wr = kHeaderSize then 1 else 0))",
    goal_cases)
  case (2 app fl first ptr wr wr1 avail len e r s wr2 rest)
  have o1: "block_offset wr1 = (if kBlockSize - block_offset wr < kHeaderSize then 0 else block_offset wr)"
    using 2(1) by (rule switch_block_offset)
  have o2: "block_offset wr2 = block_offset wr1 + (kHeaderSize + length (take len ptr))"
    using 2(5,6) by (auto dest: EmitPhysicalRecord_offset)
  show ?case
    using o1 o2 2 by (auto simp: kBlockSize_def kHeaderSize_def min_def split: if_splits)
qed simp

declare add_loop.simps [simp del]

definition AddRecord ::
  "'w append_op \<Rightarrow> 'w flush_op \<Rightarrow> u8 list \<Rightarrow> 'w log_writer \<Rightarrow> (ldb_status \<times> 'w log_writer) option" where
  "AddRecord app fl data wr = add_loop app fl True data wr"

section \<open>Reader\<close>

text \<open>
  Two values outside the record types, \<open>kMaxRecordType + 1\<close> and \<open>kMaxRecordType + 2\<close>: the end of the
  file, and a record that is not valid.
\<close>

abbreviation (input) "kEof \<equiv> 5 :: u32"
abbreviation (input) "kBadRecord \<equiv> 6 :: u32"

text \<open>\<open>reports\<close> collects the calls of \<open>Corruption\<close> on the reporter, when there is one (\<open>reporter\<close>).\<close>

record 's log_reader =
  src :: 's
  reporter :: bool
  checksum :: bool
  buffer :: "u8 list"
  eof :: bool
  last_record_offset :: u64
  end_of_buffer_offset :: u64
  initial_offset :: u64
  resyncing :: bool
  reports :: "(u64 \<times> ldb_status) list"

definition new_reader :: "'s \<Rightarrow> bool \<Rightarrow> bool \<Rightarrow> u64 \<Rightarrow> 's log_reader" where
  "new_reader f rep chk initial =
     \<lparr>src = f, reporter = rep, checksum = chk, buffer = [], eof = False, last_record_offset = 0,
      end_of_buffer_offset = 0, initial_offset = initial, resyncing = initial > 0, reports = []\<rparr>"

type_synonym 's read_op = "nat \<Rightarrow> 's \<Rightarrow> (ldb_status \<times> u8 list option \<times> 's) option"
type_synonym 's skip_op = "u64 \<Rightarrow> 's \<Rightarrow> ldb_status \<times> 's"

definition ReportDrop :: "u64 \<Rightarrow> ldb_status \<Rightarrow> 's log_reader \<Rightarrow> 's log_reader" where
  "ReportDrop bytes reason r =
     (if reporter r \<and> end_of_buffer_offset r - of_nat (length (buffer r)) - bytes \<ge> initial_offset r
      then r\<lparr>reports := reports r @ [(bytes, reason)]\<rparr> else r)"

definition ReportCorruption :: "u64 \<Rightarrow> string \<Rightarrow> 's log_reader \<Rightarrow> 's log_reader" where
  "ReportCorruption bytes reason r = ReportDrop bytes (Corruption reason) r"

definition SkipToInitialBlock :: "'s skip_op \<Rightarrow> 's log_reader \<Rightarrow> bool \<times> 's log_reader" where
  "SkipToInitialBlock skip r =
     (let offset_in_block = initial_offset r mod of_nat kBlockSize;
          block_start_location = initial_offset r - offset_in_block;
          block_start_location =
            (if offset_in_block > of_nat kBlockSize - 6 then block_start_location + of_nat kBlockSize
             else block_start_location);
          r = r\<lparr>end_of_buffer_offset := block_start_location\<rparr>
      in if block_start_location > 0 then
           (case skip block_start_location (src r) of
              (skip_status, f) \<Rightarrow>
                let r = r\<lparr>src := f\<rparr> in
                if skip_status \<noteq> OK then (False, ReportDrop block_start_location skip_status r) else (True, r))
         else (True, r))"

text \<open>
  The part of \<open>ReadPhysicalRecord\<close> after the buffer holds a header. The out-parameter \<open>result\<close> keeps its
  value where the code does not assign it; a \<open>char\<close> is signed.
\<close>

definition parse_header :: "u8 list \<Rightarrow> 's log_reader \<Rightarrow> u32 \<times> u8 list \<times> 's log_reader" where
  "parse_header result r =
     (let header = buffer r;
          a = ucast (header ! 4); b = ucast (header ! 5);
          type = scast (header ! 6);
          len = unat ((a OR push_bit 8 b) :: u32)
      in if kHeaderSize + len > length (buffer r) then
           (let drop_size = of_nat (length (buffer r)); r = r\<lparr>buffer := []\<rparr> in
            if \<not> eof r then (kBadRecord, result, ReportCorruption drop_size ''bad record length'' r)
            else (kEof, result, r))
         else if type = kZeroType \<and> len = 0 then (kBadRecord, result, r\<lparr>buffer := []\<rparr>)
         else if checksum r \<and>
             Value 0 (take (1 + len) (drop 6 header)) \<noteq> Unmask (DecodeFixed32 header) then
           (let drop_size = of_nat (length (buffer r)); r = r\<lparr>buffer := []\<rparr> in
            (kBadRecord, result, ReportCorruption drop_size ''checksum mismatch'' r))
         else
           (let r = r\<lparr>buffer := drop (kHeaderSize + len) (buffer r)\<rparr> in
            if end_of_buffer_offset r - of_nat (length (buffer r)) - of_nat kHeaderSize - of_nat len < initial_offset r
            then (kBadRecord, [], r)
            else (type, take len (drop kHeaderSize header), r)))"

partial_function (option) ReadPhysicalRecord ::
  "'s read_op \<Rightarrow> u8 list \<Rightarrow> 's log_reader \<Rightarrow> (u32 \<times> u8 list \<times> 's log_reader) option" where
  "ReadPhysicalRecord rd result r =
     (if length (buffer r) < kHeaderSize then
        if \<not> eof r then do {
          (status, bs, f) \<leftarrow> rd kBlockSize (src r);
          let r = r\<lparr>src := f, buffer := (case bs of None \<Rightarrow> [] | Some bs \<Rightarrow> bs)\<rparr>;
          let r = r\<lparr>end_of_buffer_offset := end_of_buffer_offset r + of_nat (length (buffer r))\<rparr>;
          if status \<noteq> OK then
            Some (kEof, result, (ReportDrop (of_nat kBlockSize) status (r\<lparr>buffer := []\<rparr>))\<lparr>eof := True\<rparr>)
          else if length (buffer r) < kBlockSize then ReadPhysicalRecord rd result (r\<lparr>eof := True\<rparr>)
          else ReadPhysicalRecord rd result r
        }
        else Some (kEof, result, r\<lparr>buffer := []\<rparr>)
      else Some (parse_header result r))"

text \<open>
  One round of the loop of \<open>ReadRecord\<close> after it has read a physical record. Its local variables are
  \<open>scratch\<close>, \<open>in_fragmented_record\<close> and \<open>prospective_record_offset\<close>; the round ends the function, with
  a record or with \<open>None\<close> for false, or goes on with new values of them.
\<close>

type_synonym read_locals = "u8 list \<times> bool \<times> u64"

definition partial_record :: "string \<Rightarrow> u8 list \<Rightarrow> bool \<Rightarrow> 's log_reader \<Rightarrow> 's log_reader" where
  "partial_record reason scratch in_fragmented_record r =
     (if in_fragmented_record \<and> scratch \<noteq> [] then ReportCorruption (of_nat (length scratch)) reason r else r)"

definition on_record ::
  "u32 \<Rightarrow> u8 list \<Rightarrow> read_locals \<Rightarrow> 's log_reader \<Rightarrow> (u8 list option + read_locals) \<times> 's log_reader" where
  "on_record record_type fragment locals r =
     (case locals of (scratch, in_fragmented_record, prospective_record_offset) \<Rightarrow>
        let physical_record_offset =
              end_of_buffer_offset r - of_nat (length (buffer r)) - of_nat kHeaderSize - of_nat (length fragment)
        in
        if resyncing r \<and> record_type = kMiddleType then (Inr locals, r)
        else if resyncing r \<and> record_type = kLastType then (Inr locals, r\<lparr>resyncing := False\<rparr>)
        else
          let r = r\<lparr>resyncing := False\<rparr> in
          if record_type = kFullType then
            let r = partial_record ''partial record without end(1)'' scratch in_fragmented_record r in
            (Inl (Some fragment), r\<lparr>last_record_offset := physical_record_offset\<rparr>)
          else if record_type = kFirstType then
            let r = partial_record ''partial record without end(2)'' scratch in_fragmented_record r in
            (Inr (fragment, True, physical_record_offset), r)
          else if record_type = kMiddleType then
            if \<not> in_fragmented_record then
              (Inr locals,
               ReportCorruption (of_nat (length fragment)) ''missing start of fragmented record(1)'' r)
            else (Inr (scratch @ fragment, in_fragmented_record, prospective_record_offset), r)
          else if record_type = kLastType then
            if \<not> in_fragmented_record then
              (Inr locals,
               ReportCorruption (of_nat (length fragment)) ''missing start of fragmented record(2)'' r)
            else (Inl (Some (scratch @ fragment)), r\<lparr>last_record_offset := prospective_record_offset\<rparr>)
          else if record_type = kEof then (Inl None, r)
          else if record_type = kBadRecord then
            if in_fragmented_record then
              (Inr ([], False, prospective_record_offset),
               ReportCorruption (of_nat (length scratch)) ''error in middle of record'' r)
            else (Inr locals, r)
          else
            (Inr ([], False, prospective_record_offset),
             ReportCorruption (of_nat (length fragment + (if in_fragmented_record then length scratch else 0)))
               (''unknown record type '' @ decimal (unat record_type)) r))"

partial_function (option) read_loop ::
  "'s read_op \<Rightarrow> read_locals \<Rightarrow> u8 list \<Rightarrow> 's log_reader \<Rightarrow> (u8 list option \<times> 's log_reader) option" where
  "read_loop rd locals fragment r =
     (case ReadPhysicalRecord rd fragment r of
        None \<Rightarrow> None
      | Some (record_type, fragment, r) \<Rightarrow>
          (case on_record record_type fragment locals r of
             (Inl result, r) \<Rightarrow> Some (result, r)
           | (Inr locals, r) \<Rightarrow> read_loop rd locals fragment r))"

definition ReadRecord ::
  "'s read_op \<Rightarrow> 's skip_op \<Rightarrow> 's log_reader \<Rightarrow> (u8 list option \<times> 's log_reader) option" where
  "ReadRecord rd skip r =
     (let (ok, r) = (if last_record_offset r < initial_offset r then SkipToInitialBlock skip r else (True, r)) in
      if \<not> ok then Some (None, r) else read_loop rd ([], False, 0) [] r)"

end
