(* ===== verification/LdbLogFormat.thy ===== *)
theory LdbLogFormat
  imports LdbLog "HOL-Library.Sublist"
begin

text \<open>
  The log format as a function of the records: the bytes of a fragment, how fragments lie in blocks,
  and how a record is cut. The writer is proved to append exactly these bytes.
\<close>

section \<open>Fragments and their places\<close>

type_synonym fragment = "u8 \<times> u8 list"

definition fragment_bytes :: "fragment \<Rightarrow> u8 list" where
  "fragment_bytes = (\<lambda>(t, bs).
     EncodeFixed32 (Mask (crc32c 0 (t # bs))) @
     [of_nat (length bs) AND 0xFF, of_nat (length bs div 256), t] @ bs)"

text \<open>A block with less room than a header at its end is filled with zeros.\<close>

definition trailer :: "nat \<Rightarrow> u8 list" where
  "trailer off = (if kBlockSize - off < kHeaderSize then replicate (kBlockSize - off) 0 else [])"

definition place :: "nat \<Rightarrow> nat" where
  "place off = (if kBlockSize - off < kHeaderSize then 0 else off)"

definition after :: "nat \<Rightarrow> fragment \<Rightarrow> nat" where
  "after off fr = place off + kHeaderSize + length (snd fr)"

definition fits :: "nat \<Rightarrow> fragment \<Rightarrow> bool" where
  "fits off fr \<longleftrightarrow> after off fr \<le> kBlockSize \<and> fst fr \<in> {kFullType, kFirstType, kMiddleType, kLastType}"

primrec lay :: "nat \<Rightarrow> fragment list \<Rightarrow> u8 list" where
  "lay off [] = []"
| "lay off (fr # frs) = trailer off @ fragment_bytes fr @ lay (after off fr) frs"

primrec off_after :: "nat \<Rightarrow> fragment list \<Rightarrow> nat" where
  "off_after off [] = off"
| "off_after off (fr # frs) = off_after (after off fr) frs"

primrec all_fit :: "nat \<Rightarrow> fragment list \<Rightarrow> bool" where
  "all_fit off [] = True"
| "all_fit off (fr # frs) \<longleftrightarrow> fits off fr \<and> all_fit (after off fr) frs"

text \<open>How a record is cut at a given offset; \<open>first\<close> says that no fragment of it was written yet.\<close>

definition avail :: "nat \<Rightarrow> nat" where
  "avail off = kBlockSize - place off - kHeaderSize"

function cut :: "bool \<Rightarrow> nat \<Rightarrow> u8 list \<Rightarrow> fragment list" where
  "cut first off ptr =
     (if length ptr \<le> avail off then [(fragment_type first True, ptr)]
      else
        let fr = (fragment_type first False, take (avail off) ptr)
        in fr # cut False (after off fr) (drop (avail off) ptr))"
  by auto
termination
  by (relation "measure (\<lambda>(_, off, ptr). 2 * length ptr + (if kBlockSize - off = kHeaderSize then 1 else 0))")
    (auto simp: avail_def after_def place_def kBlockSize_def kHeaderSize_def)

declare cut.simps [simp del]

lemmas layout_defs = after_def place_def trailer_def avail_def kBlockSize_def kHeaderSize_def

lemma lay_append: "lay off (frs @ grs) = lay off frs @ lay (off_after off frs) grs"
  by (induction frs arbitrary: off) simp_all

lemma off_after_append: "off_after off (frs @ grs) = off_after (off_after off frs) grs"
  by (induction frs arbitrary: off) simp_all

lemma all_fit_append: "all_fit off (frs @ grs) \<longleftrightarrow> all_fit off frs \<and> all_fit (off_after off frs) grs"
  by (induction frs arbitrary: off) auto

lemma fragment_type_cases: "fragment_type b e \<in> {kFullType, kFirstType, kMiddleType, kLastType}"
  by (simp add: fragment_type_def)

lemma all_fit_cut: "all_fit off (cut first off ptr)"
proof (induction first off ptr rule: cut.induct)
  case (1 first off ptr)
  show ?case
  proof (cases "length ptr \<le> avail off")
    case True
    then show ?thesis
      using fragment_type_cases [of first True]
      by (simp add: cut.simps [of first off ptr] fits_def layout_defs split: if_splits)
  next
    case False
    have fit: "fits off (fragment_type first False, take (avail off) ptr)"
      using False fragment_type_cases [of first False] by (simp add: fits_def layout_defs split: if_splits)
    then show ?thesis
      using False 1 by (simp add: cut.simps [of first off ptr] Let_def)
  qed
qed

lemma fragment_bytes_length [simp]: "length (fragment_bytes (t, bs)) = kHeaderSize + length bs"
  by (simp add: fragment_bytes_def kHeaderSize_def)

section \<open>The writer\<close>

lemma InitTypeCrc_nth: "t \<in> {kFullType, kFirstType, kMiddleType, kLastType} \<Longrightarrow> InitTypeCrc ! unat t = Value 0 [t]"
  by (auto simp: InitTypeCrc_def upt_rec)

lemma fragment_crc:
  "t \<in> {kFullType, kFirstType, kMiddleType, kLastType} \<Longrightarrow>
    Extend 0 (InitTypeCrc ! unat t) bs = crc32c 0 (t # bs)"
  by (simp add: InitTypeCrc_nth Value_def ldb_extend_eq crc32c_def xor.assoc)

definition writes_records ::
  "'w append_op \<Rightarrow> 'w flush_op \<Rightarrow> u8 list list \<Rightarrow> 'w log_writer \<Rightarrow> (ldb_status \<times> 'w log_writer) option" where
  "writes_records app fl rs wr =
     fold (\<lambda>r res. case res of
         Some (OK, wr) \<Rightarrow> AddRecord app fl r wr
       | _ \<Rightarrow> res) rs (Some (OK, wr))"

text \<open>The fragments of several records, one after the other.\<close>

primrec cut_all :: "nat \<Rightarrow> u8 list list \<Rightarrow> fragment list" where
  "cut_all off [] = []"
| "cut_all off (r # rs) = cut True off r @ cut_all (off_after off (cut True off r)) rs"

lemma all_fit_cut_all: "all_fit off (cut_all off rs)"
  by (induction rs arbitrary: off) (simp_all add: all_fit_append all_fit_cut)

lemma cut_all_append: "cut_all off (rs @ qs) = cut_all off rs @ cut_all (off_after off (cut_all off rs)) qs"
  by (induction rs arbitrary: off) (simp_all add: off_after_append)

context writable_file
begin

definition wr_ok :: "'w log_writer \<Rightarrow> bool" where
  "wr_ok wr \<longleftrightarrow> good (dest wr) \<and> type_crc wr = InitTypeCrc"

lemma switch_block_writes:
  assumes "wr_ok wr"
  shows "\<exists>wr'. switch_block append wr = Some wr' \<and> wr_ok wr' \<and> block_offset wr' = place (block_offset wr) \<and>
    written (dest wr') = written (dest wr) @ trailer (block_offset wr)"
  using assms append_ok [of "dest wr" "replicate (kBlockSize - block_offset wr) 0"]
  by (auto simp: switch_block_def wr_ok_def place_def trailer_def)

lemma EmitPhysicalRecord_writes:
  assumes ok: "wr_ok wr" and t: "t \<in> {kFullType, kFirstType, kMiddleType, kLastType}"
  shows "\<exists>wr'. EmitPhysicalRecord append flush t bs wr = Some (OK, wr') \<and> wr_ok wr' \<and>
    block_offset wr' = block_offset wr + kHeaderSize + length bs \<and>
    written (dest wr') = written (dest wr) @ fragment_bytes (t, bs) \<and>
    stored (dest wr') = written (dest wr')"
proof -
  let ?h = "EncodeFixed32 (Mask (Extend 0 (type_crc wr ! unat t) bs)) @
      [of_nat (length bs) AND 0xFF, of_nat (length bs div 256), t]"
  have good: "good (dest wr)" and crc: "type_crc wr = InitTypeCrc"
    using ok by (simp_all add: wr_ok_def)
  obtain w1 where 1: "append ?h (dest wr) = Some (OK, w1)" "good w1" "written w1 = written (dest wr) @ ?h"
    using append_ok [OF good] by blast
  obtain w2 where 2: "append bs w1 = Some (OK, w2)" "good w2" "written w2 = written w1 @ bs"
    using append_ok [OF 1(2)] by blast
  obtain w3 where 3: "flush w2 = Some (OK, w3)" "good w3" "written w3 = written w2" "stored w3 = written w2"
    using flush_ok [OF 2(2)] by blast
  show ?thesis
    using 1 2 3 crc
    by (simp add: EmitPhysicalRecord_def Let_def wr_ok_def fragment_bytes_def fragment_crc [OF t])
qed

lemma add_loop_writes:
  assumes "wr_ok wr"
  shows "\<exists>wr'. add_loop append flush first ptr wr = Some (OK, wr') \<and> wr_ok wr' \<and>
    block_offset wr' = off_after (block_offset wr) (cut first (block_offset wr) ptr) \<and>
    written (dest wr') = written (dest wr) @ lay (block_offset wr) (cut first (block_offset wr) ptr) \<and>
    stored (dest wr') = written (dest wr')"
  using assms
proof (induction first "block_offset wr" ptr arbitrary: wr rule: cut.induct)
  case (1 first ptr)
  let ?off = "block_offset wr"
  let ?n = "if length ptr < avail ?off then length ptr else avail ?off"
  let ?t = "fragment_type first (length ptr = ?n)"
  obtain wr1 where 2: "switch_block append wr = Some wr1" "wr_ok wr1" "block_offset wr1 = place ?off"
      "written (dest wr1) = written (dest wr) @ trailer ?off"
    using switch_block_writes [OF "1.prems"] by blast
  have room: "kBlockSize - block_offset wr1 - kHeaderSize = avail ?off"
    by (simp add: 2 avail_def)
  obtain wr2 where 3: "EmitPhysicalRecord append flush ?t (take ?n ptr) wr1 = Some (OK, wr2)" "wr_ok wr2"
      "block_offset wr2 = after ?off (?t, take ?n ptr)"
      "written (dest wr2) = written (dest wr) @ trailer ?off @ fragment_bytes (?t, take ?n ptr)"
      "stored (dest wr2) = written (dest wr2)"
    using EmitPhysicalRecord_writes [OF 2(2) fragment_type_cases, of first "length ptr = ?n" "take ?n ptr"] 2
    by (auto simp: after_def)
  have step: "add_loop append flush first ptr wr =
      (if length (drop ?n ptr) > 0 then add_loop append flush False (drop ?n ptr) wr2 else Some (OK, wr2))"
    unfolding add_loop.simps [of _ _ _ ptr wr] 2(1) option.case Let_def room 3(1) by simp
  show ?case
  proof (cases "length ptr \<le> avail ?off")
    case True
    then have n: "?n = length ptr" by simp
    show ?thesis
      using 3(2-) True unfolding step unfolding n by (simp add: cut.simps [of first ?off])
  next
    case False
    then have n: "?n = avail ?off" and e: "(length ptr = avail ?off) = False" by simp_all
    note 3 = 3 [unfolded n e]
    have "\<exists>wr'. add_loop append flush False (drop (avail ?off) ptr) wr2 = Some (OK, wr') \<and> wr_ok wr' \<and>
      block_offset wr' = off_after (block_offset wr2) (cut False (block_offset wr2) (drop (avail ?off) ptr)) \<and>
      written (dest wr') = written (dest wr2) @ lay (block_offset wr2) (cut False (block_offset wr2) (drop (avail ?off) ptr)) \<and>
      stored (dest wr') = written (dest wr')"
      using "1.hyps" [OF False refl 3(3) [symmetric] 3(2)] by simp
    then show ?thesis
      using 3 False unfolding step unfolding n by (simp add: cut.simps [of first ?off ptr] Let_def)
  qed
qed

lemma writes_records_lay:
  assumes "wr_ok wr" and "stored (dest wr) = written (dest wr)"
  shows "\<exists>wr'. writes_records append flush rs wr = Some (OK, wr') \<and> wr_ok wr' \<and>
    block_offset wr' = off_after (block_offset wr) (cut_all (block_offset wr) rs) \<and>
    written (dest wr') = written (dest wr) @ lay (block_offset wr) (cut_all (block_offset wr) rs) \<and>
    stored (dest wr') = written (dest wr')"
  using assms
proof (induction rs arbitrary: wr)
  case Nil
  then show ?case by (simp add: writes_records_def)
next
  case (Cons r rs)
  obtain wr1 where 1: "add_loop append flush True r wr = Some (OK, wr1)" "wr_ok wr1"
      "block_offset wr1 = off_after (block_offset wr) (cut True (block_offset wr) r)"
      "written (dest wr1) = written (dest wr) @ lay (block_offset wr) (cut True (block_offset wr) r)"
      "stored (dest wr1) = written (dest wr1)"
    using add_loop_writes [OF Cons.prems(1)] by blast
  have "writes_records append flush (r # rs) wr = writes_records append flush rs wr1"
    by (simp add: writes_records_def AddRecord_def 1(1))
  then show ?case
    using Cons.IH [OF 1(2,5)] 1 by (simp add: lay_append off_after_append)
qed

end

end
