(* ===== verification/LdbLogRead.thy ===== *)
theory LdbLogRead
  imports LdbLogFormat
begin

text \<open>
  What the log reader makes of a file in the log format, whole or cut off anywhere, and that it comes
  to an end on every file.
\<close>

section \<open>Parsing one fragment\<close>

lemma length_bytes:
  assumes "n < 2 ^ 16"
  shows "unat ((ucast (of_nat n AND 0xFF :: u8) OR push_bit 8 (ucast (of_nat (n div 256) :: u8))) :: u32) = n"
proof -
  have "ucast (of_nat n AND 0xFF :: u8) = take_bit 8 (of_nat n :: u32)"
  proof -
    have "(0xFF :: u8) = - 1" by simp
    then have "of_nat n AND 0xFF = (of_nat n :: u8)"
      by (metis and.right_neutral)
    then show ?thesis
      by (simp add: unsigned_of_nat unsigned_take_bit_eq take_bit_of_nat)
  qed
  moreover have "ucast (of_nat (n div 256) :: u8) = drop_bit 8 (of_nat n :: u32)"
  proof (rule unsigned_word_eqI)
    have "unat (of_nat n :: u32) = n"
      using assms by (simp add: unsigned_of_nat take_bit_nat_eq_self)
    moreover have "unat (of_nat (n div 256) :: u8) = n div 256"
      using assms by (simp add: unsigned_of_nat take_bit_nat_eq_self)
    ultimately show "unat (ucast (of_nat (n div 256) :: u8) :: u32) = unat (drop_bit 8 (of_nat n :: u32))"
      by (simp add: unat_drop_bit unat_ucast_up_simp)
  qed
  moreover have "take_bit 8 w OR push_bit 8 (drop_bit 8 w) = w" for w :: u32
  proof (rule bit_word_eqI)
    show "bit (take_bit 8 w OR push_bit 8 (drop_bit 8 w)) i = bit w i" if "i < LENGTH(32)" for i
      using that by (cases "i < 8") (auto simp: bit_simps)
  qed
  ultimately show ?thesis
    using assms by (simp add: unsigned_of_nat take_bit_nat_eq_self)
qed

lemma fragment_header:
  "fragment_bytes (t, bs) ! 4 = of_nat (length bs) AND 0xFF"
  "fragment_bytes (t, bs) ! 5 = of_nat (length bs div 256)"
  "fragment_bytes (t, bs) ! 6 = t"
  "take (Suc (length bs)) (drop 6 (fragment_bytes (t, bs) @ xs)) = t # bs"
  "take (length bs) (drop kHeaderSize (fragment_bytes (t, bs) @ xs)) = bs"
  "Unmask (DecodeFixed32 (fragment_bytes (t, bs) @ xs)) = crc32c 0 (t # bs)"
  by (simp_all add: fragment_bytes_def nth_append kHeaderSize_def Unmask_Mask)

lemma fragment_drop: "drop (kHeaderSize + length bs) (fragment_bytes (t, bs) @ xs) = xs"
  by simp

lemma signed_type:
  "t \<in> {kFullType, kFirstType, kMiddleType, kLastType} \<Longrightarrow> (scast (t :: u8) :: u32) = ucast t \<and> (ucast t :: u32) \<noteq> 0"
  by auto

lemma parse_header_fragment:
  assumes buf: "buffer r = fragment_bytes (t, bs) @ rest"
    and t: "t \<in> {kFullType, kFirstType, kMiddleType, kLastType}" and len: "length bs < 2 ^ 16"
    and init: "initial_offset r = 0"
  shows "parse_header result r = (ucast t, bs, r\<lparr>buffer := rest\<rparr>)"
proof -
  have n: "(fragment_bytes (t, bs) @ rest) ! i = fragment_bytes (t, bs) ! i" if "i < 7" for i
    using that by (simp add: nth_append kHeaderSize_def)
  show ?thesis
    using signed_type [OF t] fragment_header(4-6) [where bs = bs and t = t and xs = rest] fragment_drop [of bs t rest]
    by (simp add: parse_header_def Let_def buf init n fragment_header(1-3) length_bytes [OF len] Value_def ldb_extend_eq)
qed

lemma parse_header_short:
  assumes pre: "prefix (buffer r) (fragment_bytes (t, bs) @ xs)" and len: "length bs < 2 ^ 16"
    and short: "kHeaderSize \<le> length (buffer r)" "length (buffer r) < kHeaderSize + length bs"
    and eof: "eof r"
  shows "parse_header result r = (kEof, result, r\<lparr>buffer := []\<rparr>)"
proof -
  have n: "buffer r ! i = fragment_bytes (t, bs) ! i" if "i < 7" for i
  proof -
    obtain zs where "fragment_bytes (t, bs) @ xs = buffer r @ zs"
      using pre by (auto simp: prefix_def)
    then have "(fragment_bytes (t, bs) @ xs) ! i = (buffer r @ zs) ! i" by simp
    then show ?thesis
      using that short by (simp add: nth_append kHeaderSize_def)
  qed
  show ?thesis
    using short eof by (simp add: parse_header_def Let_def n fragment_header(1-3) length_bytes [OF len])
qed

section \<open>The reader on a file in the format\<close>

text \<open>How much of a prefix of the layout is left after a fragment.\<close>

lemma prefix_drop: "prefix S (A @ B) \<Longrightarrow> length A \<le> length S \<Longrightarrow> S = A @ drop (length A) S \<and> prefix (drop (length A) S) B"
  by (auto simp: prefix_def append_eq_append_conv2)

lemma prefix_trailer: "prefix S (A @ B) \<Longrightarrow> prefix (drop (length A) S) B"
  by (auto simp: prefix_def append_eq_append_conv2)

context sequential_file
begin

text \<open>
  The reader stands at offset \<open>off\<close> of a block with \<open>S\<close> before it: it has the rest of the block in its
  buffer, or all there is.
\<close>

definition rd_at :: "nat \<Rightarrow> u8 list \<Rightarrow> 's log_reader \<Rightarrow> bool" where
  "rd_at off S r \<longleftrightarrow>
     ready (src r) \<and> buffer r @ remaining (src r) = S \<and> off \<le> kBlockSize \<and>
     length (buffer r) \<le> kBlockSize - off \<and>
     (if eof r then remaining (src r) = [] else length (buffer r) = kBlockSize - off) \<and>
     initial_offset r = 0 \<and> \<not> resyncing r"

lemma read_eof:
  "eof r \<Longrightarrow> length (buffer r) < kHeaderSize \<Longrightarrow> ReadPhysicalRecord read result r = Some (kEof, result, r\<lparr>buffer := []\<rparr>)"
  by (simp add: ReadPhysicalRecord.simps [of _ _ r])

lemma refill:
  assumes "rd_at off S r" and "\<not> eof r" and "kBlockSize - off < kHeaderSize"
  shows "\<exists>r1. ReadPhysicalRecord read result r = ReadPhysicalRecord read result r1 \<and>
    rd_at 0 (drop (kBlockSize - off) S) r1 \<and> reports r1 = reports r"
proof -
  have r: "ready (src r)" "length (buffer r) < kHeaderSize" "remaining (src r) = drop (kBlockSize - off) S"
    using assms by (auto simp: rd_at_def)
  obtain f where f: "read kBlockSize (src r) = Some (OK, Some (take kBlockSize (remaining (src r))), f)"
      "ready f" "remaining f = drop kBlockSize (remaining (src r))"
    using read_ok [OF r(1)] by blast
  let ?b = "take kBlockSize (remaining (src r))"
  let ?r = "r\<lparr>src := f, buffer := ?b, end_of_buffer_offset := end_of_buffer_offset r + of_nat (length ?b)\<rparr>"
  let ?r1 = "if length ?b < kBlockSize then ?r\<lparr>eof := True\<rparr> else ?r"
  have "ReadPhysicalRecord read result r = ReadPhysicalRecord read result ?r1"
    using r(2) assms(2) f(1) by (simp add: ReadPhysicalRecord.simps [of _ _ r] Let_def)
  moreover have "rd_at 0 (remaining (src r)) ?r1"
    using f(2,3) assms(1,2) by (auto simp: rd_at_def)
  ultimately show ?thesis
    using r(3) by (intro exI [of _ ?r1]) simp
qed

text \<open>One fragment in front of the reader, complete or cut off.\<close>

lemma read_here:
  assumes at: "rd_at off S r" and pre: "prefix S (fragment_bytes (t, bs) @ xs)"
    and room: "kHeaderSize \<le> kBlockSize - off" and fits: "off + kHeaderSize + length bs \<le> kBlockSize"
    and t: "t \<in> {kFullType, kFirstType, kMiddleType, kLastType}"
  shows "if length S < kHeaderSize + length bs
    then \<exists>r'. ReadPhysicalRecord read result r = Some (kEof, result, r') \<and> reports r' = reports r
    else \<exists>r'. ReadPhysicalRecord read result r = Some (ucast t, bs, r') \<and>
      rd_at (off + kHeaderSize + length bs) (drop (kHeaderSize + length bs) S) r' \<and> reports r' = reports r"
proof -
  have len: "length bs < 2 ^ 16"
    using fits by (simp add: kBlockSize_def)
  have S: "S = buffer r @ remaining (src r)" and init: "initial_offset r = 0"
    using at by (auto simp: rd_at_def)
  show ?thesis
  proof (cases "length (buffer r) < kHeaderSize + length bs")
    case True
    then have eof: "eof r" and b: "S = buffer r"
      using at fits room by (auto simp: rd_at_def split: if_splits)
    show ?thesis
    proof (cases "length (buffer r) < kHeaderSize")
      case True
      then show ?thesis using eof b by (simp add: read_eof)
    next
      case False
      then show ?thesis
        using parse_header_short [of r t bs xs result] pre len True eof b
        by (simp add: ReadPhysicalRecord.simps [of _ _ r])
    qed
  next
    case False
    have "prefix (buffer r) (fragment_bytes (t, bs) @ xs)"
      using pre unfolding S by (metis append_prefixD)
    then have b: "buffer r = fragment_bytes (t, bs) @ drop (kHeaderSize + length bs) (buffer r)"
      using prefix_drop [of "buffer r" "fragment_bytes (t, bs)" xs] False by simp
    let ?rest = "drop (kHeaderSize + length bs) (buffer r)"
    have "ReadPhysicalRecord read result r = Some (ucast t, bs, r\<lparr>buffer := ?rest\<rparr>)"
      using parse_header_fragment [OF b t len init, of result] False
      by (simp add: ReadPhysicalRecord.simps [of _ _ r])
    moreover have "rd_at (off + kHeaderSize + length bs) (drop (kHeaderSize + length bs) S) (r\<lparr>buffer := ?rest\<rparr>)"
      using at fits False by (auto simp: rd_at_def)
    ultimately show ?thesis
      using False S by simp
  qed
qed

lemma read_fragment:
  assumes at: "rd_at off S r" and pre: "prefix S (trailer off @ fragment_bytes fr @ xs)" and fit: "fits off fr"
  shows "if length S < length (trailer off @ fragment_bytes fr)
    then \<exists>r'. ReadPhysicalRecord read result r = Some (kEof, result, r') \<and> reports r' = reports r
    else \<exists>r'. ReadPhysicalRecord read result r = Some (ucast (fst fr), snd fr, r') \<and>
      rd_at (after off fr) (drop (length (trailer off @ fragment_bytes fr)) S) r' \<and> reports r' = reports r"
proof -
  obtain t bs where fr: "fr = (t, bs)" by fastforce
  have t: "t \<in> {kFullType, kFirstType, kMiddleType, kLastType}" and len: "place off + kHeaderSize + length bs \<le> kBlockSize"
    using fit by (auto simp: fits_def after_def fr)
  show ?thesis
  proof (cases "kBlockSize - off < kHeaderSize")
    case False
    then show ?thesis
      using read_here [OF at, of t bs xs result] pre t len
      by (simp add: trailer_def place_def after_def fr)
  next
    case True
    then have tr: "length (trailer off) = kBlockSize - off" and p: "place off = 0"
      by (simp_all add: trailer_def place_def)
    show ?thesis
    proof (cases "eof r")
      case True
      then have "S = buffer r" "length (buffer r) \<le> kBlockSize - off"
        using at by (auto simp: rd_at_def)
      then show ?thesis
        using True \<open>kBlockSize - off < kHeaderSize\<close> by (auto simp: read_eof fr)
    next
      case False
      obtain r1 where r1: "ReadPhysicalRecord read result r = ReadPhysicalRecord read result r1"
          "rd_at 0 (drop (kBlockSize - off) S) r1" "reports r1 = reports r"
        using refill [OF at False True] by blast
      have "length S \<ge> kBlockSize - off"
        using at False by (auto simp: rd_at_def)
      then have "length (drop (kBlockSize - off) S) < kHeaderSize + length bs \<longleftrightarrow>
          length S < length (trailer off @ fragment_bytes fr)"
        using tr by (auto simp: fr)
      then show ?thesis
        using read_here [OF r1(2), of t bs xs result] prefix_trailer [OF pre] r1(1,3) t len tr p
        by (cases "length S < length (trailer off @ fragment_bytes fr)")
          (simp_all add: fr after_def kBlockSize_def kHeaderSize_def add.commute)
    qed
  qed
qed

lemma read_end: "rd_at off [] r \<Longrightarrow> \<exists>r'. ReadPhysicalRecord read result r = Some (kEof, result, r') \<and> reports r' = reports r"
proof (cases "eof r")
  case True
  assume "rd_at off [] r"
  then show ?thesis using True by (auto simp: read_eof rd_at_def kHeaderSize_def)
next
  case False
  assume at: "rd_at off [] r"
  then have "kBlockSize - off < kHeaderSize"
    using False by (auto simp: rd_at_def kHeaderSize_def)
  from refill [OF at False this, of result] obtain r1 where r1: "ReadPhysicalRecord read result r = ReadPhysicalRecord read result r1"
      "rd_at 0 [] r1" "reports r1 = reports r"
    by auto
  have "eof r1"
    using r1(2) by (auto simp: rd_at_def kBlockSize_def split: if_splits)
  then show ?thesis
    using r1 by (auto simp: read_eof rd_at_def kHeaderSize_def)
qed

text \<open>A whole record, or as much of it as there is.\<close>

lemma rd_at_update [simp]:
  "rd_at off S (r\<lparr>last_record_offset := x\<rparr>) = rd_at off S r"
  "rd_at off S r \<Longrightarrow> r\<lparr>resyncing := False\<rparr> = r"
  by (simp_all add: rd_at_def)

lemma read_loop_fragment:
  assumes "ReadPhysicalRecord read fragment r = Some (t, bs, r1)"
  shows "read_loop read locals fragment r =
    (case on_record t bs locals r1 of
       (Inl res, r2) \<Rightarrow> Some (res, r2) | (Inr locals, r2) \<Rightarrow> read_loop read locals bs r2)"
  using assms by (simp add: read_loop.simps [of _ _ fragment r])

lemma read_loop_eof:
  assumes "ReadPhysicalRecord read fragment r = Some (kEof, bs, r1)"
  shows "\<exists>r2. read_loop read locals fragment r = Some (None, r2) \<and> reports r2 = reports r1"
  by (simp add: read_loop_fragment [OF assms] on_record_def Let_def split: prod.splits)

lemma read_loop_cut:
  assumes "rd_at off S r" and "prefix S (lay off (cut first off ptr) @ xs)"
    and "if first then locals = ([], False, pos) else locals = (scratch, True, pos)"
  shows "if length S < length (lay off (cut first off ptr))
    then \<exists>r'. read_loop read locals fragment r = Some (None, r') \<and> reports r' = reports r
    else \<exists>r'. read_loop read locals fragment r = Some (Some ((if first then [] else scratch) @ ptr), r') \<and>
      rd_at (off_after off (cut first off ptr)) (drop (length (lay off (cut first off ptr))) S) r' \<and>
      reports r' = reports r"
  using assms
proof (induction first off ptr arbitrary: S r locals pos scratch fragment rule: cut.induct)
  case (1 first off ptr)
  note at = "1.prems"(1) and pre = "1.prems"(2) and loc = "1.prems"(3)
  have fit: "all_fit off (cut first off ptr)" by (rule all_fit_cut)
  show ?case
  proof (cases "length ptr \<le> avail off")
    case True
    let ?fr = "(fragment_type first True, ptr)"
    have cut: "cut first off ptr = [?fr]"
      using True by (simp add: cut.simps [of first off ptr])
    have rd: "if length S < length (trailer off @ fragment_bytes ?fr)
      then \<exists>r'. ReadPhysicalRecord read fragment r = Some (kEof, fragment, r') \<and> reports r' = reports r
      else \<exists>r'. ReadPhysicalRecord read fragment r = Some (ucast (fst ?fr), snd ?fr, r') \<and>
        rd_at (after off ?fr) (drop (length (trailer off @ fragment_bytes ?fr)) S) r' \<and> reports r' = reports r"
      using read_fragment [OF at, of ?fr xs fragment] pre fit by (simp add: cut)
    show ?thesis
    proof (cases "length S < length (trailer off @ fragment_bytes ?fr)")
      case True
      then obtain r1 where "ReadPhysicalRecord read fragment r = Some (kEof, fragment, r1)" "reports r1 = reports r"
        using rd by auto
      then show ?thesis
        using read_loop_eof [of fragment r fragment r1 locals] True by (simp add: cut)
    next
      case False
      then obtain r1 where r1: "ReadPhysicalRecord read fragment r = Some (ucast (fragment_type first True), ptr, r1)"
          "rd_at (after off ?fr) (drop (length (trailer off @ fragment_bytes ?fr)) S) r1" "reports r1 = reports r"
        using rd by auto
      have "\<not> resyncing r1" using r1(2) by (simp add: rd_at_def)
      then show ?thesis
        using False loc r1 rd_at_update(2) [OF r1(2)] unfolding cut
        by (cases first) (simp_all add: read_loop_fragment [OF r1(1)] on_record_def fragment_type_def Let_def partial_record_def)
    qed
  next
    case False
    let ?fr = "(fragment_type first False, take (avail off) ptr)" and ?rest = "drop (avail off) ptr"
    have cut: "cut first off ptr = ?fr # cut False (after off ?fr) ?rest"
      using False by (simp add: cut.simps [of first off ptr] Let_def)
    let ?A = "trailer off @ fragment_bytes ?fr" and ?B = "lay (after off ?fr) (cut False (after off ?fr) ?rest)"
    have rd: "if length S < length ?A
      then \<exists>r'. ReadPhysicalRecord read fragment r = Some (kEof, fragment, r') \<and> reports r' = reports r
      else \<exists>r'. ReadPhysicalRecord read fragment r = Some (ucast (fst ?fr), snd ?fr, r') \<and>
        rd_at (after off ?fr) (drop (length ?A) S) r' \<and> reports r' = reports r"
      using read_fragment [OF at, of ?fr "?B @ xs" fragment] pre fit by (simp add: cut)
    show ?thesis
    proof (cases "length S < length ?A")
      case True
      then obtain r1 where "ReadPhysicalRecord read fragment r = Some (kEof, fragment, r1)" "reports r1 = reports r"
        using rd by auto
      then show ?thesis
        using read_loop_eof [of fragment r fragment r1 locals] True by (simp add: cut)
    next
      case False
      then obtain r1 where r1: "ReadPhysicalRecord read fragment r = Some (ucast (fst ?fr), snd ?fr, r1)"
          "rd_at (after off ?fr) (drop (length ?A) S) r1" "reports r1 = reports r"
        using rd by auto
      have n: "\<not> resyncing r1" using r1(2) by (simp add: rd_at_def)
      obtain pos' where loop: "read_loop read locals fragment r =
          read_loop read ((if first then [] else scratch) @ take (avail off) ptr, True, pos') (take (avail off) ptr) r1"
        using loc n rd_at_update(2) [OF r1(2)]
        by (cases first) (simp_all add: read_loop_fragment [OF r1(1)] on_record_def fragment_type_def Let_def partial_record_def)
      have "prefix (drop (length ?A) S) (?B @ xs)"
        using pre prefix_trailer [of S ?A "?B @ xs"] by (simp add: cut)
      note IH = "1.IH" [OF \<open>\<not> length ptr \<le> avail off\<close> refl r1(2) this,
          where locals = "((if first then [] else scratch) @ take (avail off) ptr, True, pos')" and pos = pos' and
            scratch = "(if first then [] else scratch) @ take (avail off) ptr" and fragment = "take (avail off) ptr"]
      have len: "length (drop (length ?A) S) < length ?B \<longleftrightarrow> length S < length (?A @ ?B)"
        using False by auto
      show ?thesis
        using IH False unfolding cut lay.simps off_after.simps loop len
        by (simp add: r1(3) add.commute add.left_commute del: cut.simps split del: if_split
            cong: if_cong) (simp add: ac_simps split: if_splits)
    qed
  qed
qed

end

section \<open>All records\<close>

primrec read_records ::
  "'s read_op \<Rightarrow> 's skip_op \<Rightarrow> nat \<Rightarrow> 's log_reader \<Rightarrow> (u8 list list \<times> 's log_reader) option" where
  "read_records rd skip 0 r = Some ([], r)"
| "read_records rd skip (Suc n) r =
     (case ReadRecord rd skip r of
        None \<Rightarrow> None
      | Some (None, r) \<Rightarrow> Some ([], r)
      | Some (Some x, r) \<Rightarrow> map_option (\<lambda>(xs, r). (x # xs, r)) (read_records rd skip n r))"

context sequential_file
begin

lemma ReadRecord_loop: "rd_at off S r \<Longrightarrow> ReadRecord read skip r = read_loop read ([], False, 0) [] r"
  by (simp add: ReadRecord_def rd_at_def)

lemma read_records_prefix:
  assumes "rd_at off S r" and "prefix S (lay off (cut_all off rs))" and "length rs < n"
  shows "\<exists>k r'. read_records read skip n r = Some (take k rs, r') \<and> reports r' = reports r \<and> k \<le> length rs \<and>
    (\<forall>j \<le> length rs. length (lay off (cut_all off (take j rs))) \<le> length S \<longrightarrow> j \<le> k)"
  using assms
proof (induction rs arbitrary: off S r n)
  case Nil
  then obtain m where n: "n = Suc m" by (cases n) auto
  have "rd_at off [] r" using Nil by simp
  from read_end [OF this, of "[]"] obtain r1 where
    "ReadPhysicalRecord read [] r = Some (kEof, [], r1)" "reports r1 = reports r"
    by blast
  then show ?case
    using read_loop_eof [of "[]" r "[]" r1 "([], False, 0)"] ReadRecord_loop [OF Nil.prems(1), of skip]
    by (auto simp: n)
next
  case (Cons x rs)
  then obtain m where n: "n = Suc m" by (cases n) auto
  let ?A = "lay off (cut True off x)" and ?off = "off_after off (cut True off x)"
  have pre: "prefix S (lay off (cut True off x) @ lay ?off (cut_all ?off rs))"
    using Cons.prems(2) by (simp add: lay_append)
  note loop = read_loop_cut [OF Cons.prems(1) pre, of "([], False, 0)" 0 "[]" "[]", simplified]
  have first: "length ?A \<le> length (lay off (cut_all off (take j (x # rs))))" if "0 < j" for j
    using that by (cases j) (simp_all add: lay_append)
  show ?case
  proof (cases "length S < length ?A")
    case True
    then obtain r1 where "read_loop read ([], False, 0) [] r = Some (None, r1)" "reports r1 = reports r"
      using loop by auto
    moreover have "j \<le> 0" if "length (lay off (cut_all off (take j (x # rs)))) \<le> length S" for j
      using True first [of j] that by fastforce
    ultimately show ?thesis
      using ReadRecord_loop [OF Cons.prems(1), of skip]
      by (intro exI [of _ 0] exI [of _ r1]) (simp add: n)
  next
    case False
    then obtain r1 where r1: "read_loop read ([], False, 0) [] r = Some (Some x, r1)"
        "rd_at ?off (drop (length ?A) S) r1" "reports r1 = reports r"
      using loop by auto
    have "prefix (drop (length ?A) S) (lay ?off (cut_all ?off rs))"
      using prefix_trailer [OF pre] .
    from Cons.IH [OF r1(2) this, of m] obtain k r' where k: "read_records read skip m r1 = Some (take k rs, r')"
        "reports r' = reports r1" "k \<le> length rs"
        "\<forall>j \<le> length rs. length (lay ?off (cut_all ?off (take j rs))) \<le> length (drop (length ?A) S) \<longrightarrow> j \<le> k"
      using Cons.prems(3) n by auto
    have "j \<le> Suc k" if "j \<le> length (x # rs)" "length (lay off (cut_all off (take j (x # rs)))) \<le> length S" for j
      using that k(4) False by (cases j) (auto simp: lay_append)
    then show ?thesis
      using k(1-3) r1(1,3) ReadRecord_loop [OF Cons.prems(1), of skip]
      by (intro exI [of _ "Suc k"] exI [of _ r']) (simp add: n)
  qed
qed

section \<open>Termination\<close>

definition left_to_read :: "'s log_reader \<Rightarrow> nat" where
  "left_to_read r = length (buffer r) + length (remaining (src r))"

lemma report_fields [simp]:
  "src (ReportDrop n s r) = src r" "buffer (ReportDrop n s r) = buffer r"
  "src (ReportCorruption n m r) = src r" "buffer (ReportCorruption n m r) = buffer r"
  "src (partial_record m xs b r) = src r" "buffer (partial_record m xs b r) = buffer r"
  by (simp_all add: ReportDrop_def ReportCorruption_def partial_record_def)

lemma parse_header_progress:
  assumes "kHeaderSize \<le> length (buffer r)" and "parse_header result r = (t, bs, r')"
  shows "src r' = src r \<and> length (buffer r') < length (buffer r)"
  using assms by (auto simp: parse_header_def Let_def kHeaderSize_def split: if_splits)

lemma ReadPhysicalRecord_progress:
  assumes "ready (src r)"
  shows "\<exists>t bs r'. ReadPhysicalRecord read result r = Some (t, bs, r') \<and> ready (src r') \<and>
    (t = kEof \<or> left_to_read r' < left_to_read r)"
proof -
  have parsed: "\<exists>t bs r'. ReadPhysicalRecord read result r = Some (t, bs, r') \<and> ready (src r') \<and>
      (t = kEof \<or> left_to_read r' < left_to_read r)"
    if "ready (src r)" "kHeaderSize \<le> length (buffer r) \<or> eof r" for r
  proof (cases "length (buffer r) < kHeaderSize")
    case True
    then show ?thesis using that read_eof [of r result] by simp
  next
    case False
    obtain t bs r' where "parse_header result r = (t, bs, r')" by (metis prod_cases3)
    then show ?thesis
      using False that parse_header_progress [of r result t bs r']
      by (simp add: ReadPhysicalRecord.simps [of _ _ r] left_to_read_def)
  qed
  show ?thesis
  proof (cases "kHeaderSize \<le> length (buffer r) \<or> eof r")
    case True
    then show ?thesis using parsed assms by blast
  next
    case False
    obtain f where f: "read kBlockSize (src r) = Some (OK, Some (take kBlockSize (remaining (src r))), f)"
        "ready f" "remaining f = drop kBlockSize (remaining (src r))"
      using read_ok [OF assms] by blast
    let ?b = "take kBlockSize (remaining (src r))"
    let ?r = "r\<lparr>src := f, buffer := ?b, end_of_buffer_offset := end_of_buffer_offset r + of_nat (length ?b)\<rparr>"
    let ?r1 = "if length ?b < kBlockSize then ?r\<lparr>eof := True\<rparr> else ?r"
    have eq: "ReadPhysicalRecord read result r = ReadPhysicalRecord read result ?r1"
      using False f(1) by (simp add: ReadPhysicalRecord.simps [of _ _ r] Let_def)
    have "left_to_read ?r1 \<le> left_to_read r"
      using f(3) by (auto simp: left_to_read_def)
    moreover have "kHeaderSize \<le> length (buffer ?r1) \<or> eof ?r1"
      by (simp add: kHeaderSize_def kBlockSize_def)
    moreover have "ready (src ?r1)" using f(2) by simp
    ultimately show ?thesis
      unfolding eq using parsed [of ?r1] by fastforce
  qed
qed

lemma on_record_fields: "on_record t bs locals r = (res, r') \<Longrightarrow> src r' = src r \<and> buffer r' = buffer r"
  by (auto simp: on_record_def Let_def split: prod.splits if_splits)

lemma on_record_eof: "\<exists>r'. on_record kEof bs locals r = (Inl None, r')"
  by (simp add: on_record_def Let_def split: prod.split)

lemma read_loop_total: "ready (src r) \<Longrightarrow> \<exists>res r'. read_loop read locals fragment r = Some (res, r')"
proof (induction "left_to_read r" arbitrary: r locals fragment rule: less_induct)
  case less
  obtain t bs r1 where r1: "ReadPhysicalRecord read fragment r = Some (t, bs, r1)" "ready (src r1)"
      "t = kEof \<or> left_to_read r1 < left_to_read r"
    using ReadPhysicalRecord_progress [OF less.prems] by blast
  obtain res r2 where r2: "on_record t bs locals r1 = (res, r2)" by fastforce
  have same: "left_to_read r2 = left_to_read r1" "ready (src r2)"
    using on_record_fields [OF r2] r1(2) by (simp_all add: left_to_read_def)
  show ?case
  proof (cases res)
    case (Inl a)
    then show ?thesis using r2 by (simp add: read_loop_fragment [OF r1(1)])
  next
    case (Inr locals')
    then have "t \<noteq> kEof" using on_record_eof [of bs locals r1] r2 by auto
    then show ?thesis
      using less.hyps [of r2 locals' bs] r1(3) same r2 Inr by (simp add: read_loop_fragment [OF r1(1)])
  qed
qed

end

context skippable_file
begin

lemma ReadRecord_total: "ready (src r) \<Longrightarrow> \<exists>res r'. ReadRecord read skip r = Some (res, r')"
proof -
  assume r: "ready (src r)"
  have "ready (src (snd (SkipToInitialBlock skip r)))"
    using skip_ok [OF r] r by (auto simp: SkipToInitialBlock_def Let_def split: prod.splits if_splits) (metis prod.inject)+
  then show ?thesis
    using r read_loop_total by (auto simp: ReadRecord_def Let_def split: prod.splits)
qed

end

end
