(* ===== verification/LdbLogTheorems.thy ===== *)
theory LdbLogTheorems
  imports LdbLogRead
begin

text \<open>
  What the write-ahead log guarantees, for the writer on a \<open>PosixWritableFile\<close> and the reader on a
  \<open>PosixSequentialFile\<close>, on a system that may interrupt calls and cut writes short at will.
\<close>

definition empty_disk :: "event list \<Rightarrow> disk" where
  "empty_disk tape = \<lparr>d_bytes = [], d_at = 0, d_tape = tape\<rparr>"

text \<open>A new reader on a file with the given bytes.\<close>

definition reader_on ::
  "seq_file \<Rightarrow> event list \<Rightarrow> bool \<Rightarrow> bool \<Rightarrow> u8 list \<Rightarrow> (seq_file \<times> disk) log_reader" where
  "reader_on f tape rep chk bs = new_reader (f, \<lparr>d_bytes = bs, d_at = 0, d_tape = tape\<rparr>) rep chk 0"

lemma reader_on_at: "posix_sequential.rd_at kBlockSize bs (reader_on f tape rep chk bs)"
  unfolding posix_sequential.rd_at_def by (simp add: reader_on_def new_reader_def sfile_remaining_def)

lemma lay_block_start: "lay kBlockSize (cut_all kBlockSize rs) = lay 0 (cut_all 0 rs)"
proof -
  have place: "place kBlockSize = 0" "place 0 = 0" and tr: "trailer kBlockSize = []" "trailer 0 = []"
    by (simp_all add: place_def trailer_def kBlockSize_def kHeaderSize_def)
  have after: "after kBlockSize fr = after 0 fr" for fr
    by (simp add: after_def place)
  have cut: "cut first kBlockSize x = cut first 0 x" for first x
    by (simp add: cut.simps [of _ kBlockSize] cut.simps [of _ 0] avail_def place after)
  have lay: "lay kBlockSize frs = lay 0 frs" and off: "frs \<noteq> [] \<Longrightarrow> off_after kBlockSize frs = off_after 0 frs" for frs
    by (cases frs; simp add: tr after)+
  have "cut first 0 x \<noteq> []" for first x
    by (simp add: cut.simps [of _ 0] Let_def)
  then have "cut_all kBlockSize rs = cut_all 0 rs"
    by (cases rs) (simp_all add: cut off)
  then show ?thesis by (simp add: lay)
qed

lemma write_log:
  "\<exists>w. writes_records (Append disk_sys) (Flush disk_sys) rs (new_writer (PosixWritableFile name fd, empty_disk tape)) =
      Some (OK, w) \<and> posix_writable.wr_ok w \<and> block_offset w = off_after 0 (cut_all 0 rs) \<and>
    d_bytes (snd (dest w)) = lay 0 (cut_all 0 rs) \<and> pfile_stored (dest w) = pfile_written (dest w)"
proof -
  have "posix_writable.wr_ok (new_writer (PosixWritableFile name fd, empty_disk tape))"
    unfolding posix_writable.wr_ok_def by (simp add: new_writer_def pfile_good_def PosixWritableFile_def)
  from posix_writable.writes_records_lay [OF this, of rs] show ?thesis
    by (auto simp: new_writer_def pfile_defs PosixWritableFile_def empty_disk_def split_beta)
qed

lemma writes_records_append:
  "writes_records app fl rs w = Some (OK, w1) \<Longrightarrow>
    writes_records app fl (rs @ qs) w = writes_records app fl qs w1"
  by (simp add: writes_records_def)

lemma read_log:
  assumes "prefix bs (lay 0 (cut_all 0 rs))"
  shows "\<exists>k r. read_records (Read disk_sys) (Skip disk_sys) (Suc (length rs)) (reader_on f tape rep chk bs) =
      Some (take k rs, r) \<and> reports r = [] \<and> k \<le> length rs \<and>
    (\<forall>j \<le> length rs. length (lay 0 (cut_all 0 (take j rs))) \<le> length bs \<longrightarrow> j \<le> k)"
  using posix_sequential.read_records_prefix [OF reader_on_at [of bs f tape rep chk], of rs "Suc (length rs)" "Skip disk_sys"] assms
  by (simp add: lay_block_start reader_on_def new_reader_def)

text \<open>
  C17. What was logged is read back: after any list of records is added to a new log, a reader of the
  file finds exactly these records, in order, and reports no corruption, whatever the lengths of the
  records, with or without checking checksums.
\<close>

theorem ldb_log_roundtrip:
  "\<exists>w. writes_records (Append disk_sys) (Flush disk_sys) rs (new_writer (PosixWritableFile name fd, empty_disk tape)) =
      Some (OK, w) \<and>
    (\<exists>r. read_records (Read disk_sys) (Skip disk_sys) (Suc (length rs))
        (reader_on f tape' rep chk (d_bytes (snd (dest w)))) = Some (rs, r) \<and> reports r = [])"
proof -
  obtain w where w: "writes_records (Append disk_sys) (Flush disk_sys) rs
      (new_writer (PosixWritableFile name fd, empty_disk tape)) = Some (OK, w)"
      "d_bytes (snd (dest w)) = lay 0 (cut_all 0 rs)"
    using write_log [of rs name fd tape] by blast
  then show ?thesis
    using read_log [of "d_bytes (snd (dest w))" rs f tape' rep chk] by auto
qed

text \<open>
  C18. A crash loses no record that was added before: let the records \<open>rs\<close> be added and then \<open>qs\<close>, and let
  the file afterwards hold only some first part of its bytes that includes those present when \<open>rs\<close>
  had been added. Then the reader finds all of \<open>rs\<close> and after them the first few of \<open>qs\<close>, never a
  part of a record, and reports no corruption.
\<close>

theorem ldb_log_crash_safe:
  "\<exists>w1 w2. writes_records (Append disk_sys) (Flush disk_sys) rs
      (new_writer (PosixWritableFile name fd, empty_disk tape)) = Some (OK, w1) \<and>
    writes_records (Append disk_sys) (Flush disk_sys) qs w1 = Some (OK, w2) \<and>
    (\<forall>n. \<exists>k r. read_records (Read disk_sys) (Skip disk_sys) (Suc (length (rs @ qs)))
        (reader_on f tape' rep chk (take (length (d_bytes (snd (dest w1))) + n) (d_bytes (snd (dest w2))))) =
      Some (rs @ take k qs, r) \<and> reports r = [])"
proof -
  let ?w = "new_writer (PosixWritableFile name fd, empty_disk tape)"
  let ?add = "writes_records (Append disk_sys) (Flush disk_sys)"
  obtain w1 where w1: "?add rs ?w = Some (OK, w1)" "d_bytes (snd (dest w1)) = lay 0 (cut_all 0 rs)"
    using write_log [of rs name fd tape] by blast
  obtain w2 where w2: "?add (rs @ qs) ?w = Some (OK, w2)" "d_bytes (snd (dest w2)) = lay 0 (cut_all 0 (rs @ qs))"
    using write_log [of "rs @ qs" name fd tape] by blast
  have "\<exists>k r. read_records (Read disk_sys) (Skip disk_sys) (Suc (length (rs @ qs)))
        (reader_on f tape' rep chk (take (length (d_bytes (snd (dest w1))) + n) (d_bytes (snd (dest w2))))) =
      Some (rs @ take k qs, r) \<and> reports r = []" for n
  proof -
    let ?bs = "take (length (d_bytes (snd (dest w1))) + n) (d_bytes (snd (dest w2)))"
    have "prefix ?bs (lay 0 (cut_all 0 (rs @ qs)))"
      by (simp add: w2(2) take_is_prefix)
    from read_log [OF this, of f tape' rep chk] obtain k r where k:
      "read_records (Read disk_sys) (Skip disk_sys) (Suc (length (rs @ qs))) (reader_on f tape' rep chk ?bs) =
        Some (take k (rs @ qs), r)" "reports r = []" "k \<le> length (rs @ qs)"
      "\<forall>j \<le> length (rs @ qs). length (lay 0 (cut_all 0 (take j (rs @ qs)))) \<le> length ?bs \<longrightarrow> j \<le> k"
      by blast
    have "length (lay 0 (cut_all 0 (take (length rs) (rs @ qs)))) \<le> length ?bs"
      by (simp add: w1(2) w2(2) cut_all_append lay_append)
    then have "length rs \<le> k" using k(4) by simp
    then show ?thesis
      using k(1,2) by (intro exI [of _ "k - length rs"] exI [of _ r]) simp
  qed
  then show ?thesis
    using w1(1) w2(1) writes_records_append [OF w1(1), of qs] by auto
qed

text \<open>
  C19. The reader comes to an end on every file, whatever its bytes and in every state of the reader, with
  an initial offset or without.
\<close>

theorem ldb_log_read_terminates:
  "\<exists>res r'. ReadRecord (Read disk_sys) (Skip disk_sys) r = Some (res, r')"
  using posix_sequential.ReadRecord_total by blast

end
