(* ===== verification/LdbKey.thy ===== *)
theory LdbKey
  imports LdbCoding
begin

text \<open>
  Orders on keys (\<open>util/comparator.cc\<close>, \<open>Slice::compare\<close>) and the keys that leveldb keeps inside the
  database (\<open>db/dbformat.h\<close>, \<open>db/dbformat.cc\<close>): a user key with a sequence number and a type. The
  locale \<open>comparator\<close> states what the tables need of an order and what the two shortening functions of
  a comparator promise; the bytewise comparator and, for any user comparator, the one on internal
  keys are proved to fulfil it.
\<close>

section \<open>Bytewise comparator\<close>

text \<open>\<open>memcmp\<close> on the first \<open>n\<close> bytes; only the sign of its result is used.\<close>

primrec memcmp :: "u8 list \<Rightarrow> u8 list \<Rightarrow> nat \<Rightarrow> int" where
  "memcmp a b 0 = 0"
| "memcmp a b (Suc n) =
     (if hd a = hd b then memcmp (tl a) (tl b) n else uint (hd a) - uint (hd b))"

definition Slice_compare :: "u8 list \<Rightarrow> u8 list \<Rightarrow> int" where
  "Slice_compare a b =
     (let min_len = (if length a < length b then length a else length b);
          r = memcmp a b min_len
      in if r = 0 then (if length a < length b then - 1 else if length a > length b then 1 else r) else r)"

text \<open>The loop that finds the length of the common prefix.\<close>

fun common_prefix :: "u8 list \<Rightarrow> u8 list \<Rightarrow> nat" where
  "common_prefix (x # xs) (y # ys) = (if x = y then Suc (common_prefix xs ys) else 0)"
| "common_prefix xs ys = 0"

definition FindShortestSeparator :: "u8 list \<Rightarrow> u8 list \<Rightarrow> u8 list" where
  "FindShortestSeparator start limit =
     (let min_length = min (length start) (length limit); diff_index = common_prefix start limit in
      if diff_index \<ge> min_length then start
      else
        let diff_byte = start ! diff_index in
        if diff_byte < 0xFF \<and> unat diff_byte + 1 < unat (limit ! diff_index) then
          take (diff_index + 1) (start[diff_index := start ! diff_index + 1])
        else start)"

text \<open>The loop with the keys before and after the index.\<close>

primrec short_successor :: "u8 list \<Rightarrow> u8 list \<Rightarrow> u8 list" where
  "short_successor before [] = before"
| "short_successor before (byte # key) =
     (if byte \<noteq> 0xFF then before @ [byte + 1] else short_successor (before @ [byte]) key)"

definition FindShortSuccessor :: "u8 list \<Rightarrow> u8 list" where
  "FindShortSuccessor key = short_successor [] key"

section \<open>Internal keys\<close>

datatype ValueType = kTypeDeletion | kTypeValue

abbreviation (input) "kValueTypeForSeek \<equiv> kTypeValue"

primrec value_type_code :: "ValueType \<Rightarrow> u64" where
  "value_type_code kTypeDeletion = 0"
| "value_type_code kTypeValue = 1"

type_synonym SequenceNumber = u64

definition kMaxSequenceNumber :: SequenceNumber where
  "kMaxSequenceNumber = push_bit 56 1 - 1"

record ParsedInternalKey =
  user_key :: "u8 list"
  sequence :: SequenceNumber
  vtype :: ValueType

definition InternalKeyEncodingLength :: "ParsedInternalKey \<Rightarrow> nat" where
  "InternalKeyEncodingLength key = length (user_key key) + 8"

definition PackSequenceAndType :: "SequenceNumber \<Rightarrow> ValueType \<Rightarrow> u64" where
  "PackSequenceAndType seq t = push_bit 8 seq OR value_type_code t"

definition AppendInternalKey :: "u8 list \<Rightarrow> ParsedInternalKey \<Rightarrow> u8 list" where
  "AppendInternalKey result key =
     PutFixed64 (result @ user_key key) (PackSequenceAndType (sequence key) (vtype key))"

definition ParseInternalKey :: "u8 list \<Rightarrow> ParsedInternalKey option" where
  "ParseInternalKey internal_key =
     (let n = length internal_key in
      if n < 8 then None
      else
        let num = DecodeFixed64 (drop (n - 8) internal_key); c = num AND 0xFF in
        if c \<le> value_type_code kTypeValue then
          Some \<lparr>user_key = take (n - 8) internal_key, sequence = drop_bit 8 num,
                vtype = (if c = 0 then kTypeDeletion else kTypeValue)\<rparr>
        else None)"

definition ExtractUserKey :: "u8 list \<Rightarrow> u8 list" where
  "ExtractUserKey internal_key = take (length internal_key - 8) internal_key"

type_synonym compare_op = "u8 list \<Rightarrow> u8 list \<Rightarrow> int"

definition InternalCompare :: "compare_op \<Rightarrow> compare_op" where
  "InternalCompare user_compare akey bkey =
     (let r = user_compare (ExtractUserKey akey) (ExtractUserKey bkey) in
      if r = 0 then
        let anum = DecodeFixed64 (drop (length akey - 8) akey);
            bnum = DecodeFixed64 (drop (length bkey - 8) bkey)
        in if anum > bnum then - 1 else if anum < bnum then 1 else r
      else r)"

definition InternalSeparator ::
  "compare_op \<Rightarrow> (u8 list \<Rightarrow> u8 list \<Rightarrow> u8 list) \<Rightarrow> u8 list \<Rightarrow> u8 list \<Rightarrow> u8 list" where
  "InternalSeparator user_compare user_separator start limit =
     (let user_start = ExtractUserKey start; user_limit = ExtractUserKey limit;
          tmp = user_separator user_start user_limit
      in if length tmp < length user_start \<and> user_compare user_start tmp < 0 then
           PutFixed64 tmp (PackSequenceAndType kMaxSequenceNumber kValueTypeForSeek)
         else start)"

definition InternalSuccessor :: "compare_op \<Rightarrow> (u8 list \<Rightarrow> u8 list) \<Rightarrow> u8 list \<Rightarrow> u8 list" where
  "InternalSuccessor user_compare user_successor key =
     (let ukey = ExtractUserKey key; tmp = user_successor ukey in
      if length tmp < length ukey \<and> user_compare ukey tmp < 0 then
        PutFixed64 tmp (PackSequenceAndType kMaxSequenceNumber kValueTypeForSeek)
      else key)"

text \<open>The bytes between \<open>start_\<close> and \<open>end_\<close> of a lookup key, and its parts.\<close>

definition LookupKey :: "u8 list \<Rightarrow> SequenceNumber \<Rightarrow> u8 list" where
  "LookupKey ukey s =
     EncodeVarint32 (of_nat (length ukey + 8)) @ ukey @ EncodeFixed64 (PackSequenceAndType s kValueTypeForSeek)"

definition kstart :: "u8 list \<Rightarrow> nat" where
  "kstart ukey = length (EncodeVarint32 (of_nat (length ukey + 8)))"

definition memtable_key :: "u8 list \<Rightarrow> SequenceNumber \<Rightarrow> u8 list" where
  "memtable_key ukey s = LookupKey ukey s"

definition lookup_internal_key :: "u8 list \<Rightarrow> SequenceNumber \<Rightarrow> u8 list" where
  "lookup_internal_key ukey s = drop (kstart ukey) (LookupKey ukey s)"

definition lookup_user_key :: "u8 list \<Rightarrow> SequenceNumber \<Rightarrow> u8 list" where
  "lookup_user_key ukey s = take (length (LookupKey ukey s) - kstart ukey - 8) (drop (kstart ukey) (LookupKey ukey s))"

section \<open>Laws of a comparator\<close>

text \<open>
  A comparator orders the keys that are \<open>valid\<close> for it; the separator lies between two keys in order,
  and leaves a key alone that it shall separate from itself; the successor is not below its key.
\<close>

locale comparator =
  fixes cmp :: compare_op
    and separator :: "u8 list \<Rightarrow> u8 list \<Rightarrow> u8 list"
    and successor :: "u8 list \<Rightarrow> u8 list"
    and valid :: "u8 list \<Rightarrow> bool"
  assumes cmp_flip: "valid a \<Longrightarrow> valid b \<Longrightarrow> cmp a b < 0 \<longleftrightarrow> cmp b a > 0"
    and cmp_eq: "valid a \<Longrightarrow> valid b \<Longrightarrow> cmp a b = 0 \<longleftrightarrow> a = b"
    and cmp_trans: "valid a \<Longrightarrow> valid b \<Longrightarrow> valid c \<Longrightarrow> cmp a b < 0 \<Longrightarrow> cmp b c < 0 \<Longrightarrow> cmp a c < 0"
    and separator_between: "valid a \<Longrightarrow> valid b \<Longrightarrow> cmp a b < 0 \<Longrightarrow>
      valid (separator a b) \<and> cmp a (separator a b) \<le> 0 \<and> cmp (separator a b) b < 0"
    and separator_same: "valid a \<Longrightarrow> separator a a = a"
    and successor_above: "valid a \<Longrightarrow> valid (successor a) \<and> cmp a (successor a) \<le> 0"
begin

lemma cmp_le_trans:
  "valid a \<Longrightarrow> valid b \<Longrightarrow> valid c \<Longrightarrow> cmp a b \<le> 0 \<Longrightarrow> cmp b c < 0 \<Longrightarrow> cmp a c < 0"
  by (metis cmp_eq cmp_trans order_le_less)

lemma cmp_refl: "valid a \<Longrightarrow> cmp a a = 0"
  by (simp add: cmp_eq)

lemma cmp_ge_trans:
  "valid a \<Longrightarrow> valid b \<Longrightarrow> valid c \<Longrightarrow> cmp a b \<ge> 0 \<Longrightarrow> cmp a c < 0 \<Longrightarrow> cmp c b > 0"
  by (metis cmp_eq cmp_flip cmp_trans linorder_not_le order_le_less)

end

section \<open>The bytewise comparator fulfils them\<close>

lemma Slice_compare_simps:
  "Slice_compare [] [] = 0" "Slice_compare [] (y # ys) = - 1" "Slice_compare (x # xs) [] = 1"
  "Slice_compare (x # xs) (y # ys) = (if x = y then Slice_compare xs ys else uint x - uint y)"
  by (auto simp: Slice_compare_def Let_def word_uint_eq_iff)

lemma Slice_compare_eq: "Slice_compare a b = 0 \<longleftrightarrow> a = b"
proof (induction a arbitrary: b)
  case Nil
  then show ?case by (cases b) (simp_all add: Slice_compare_simps)
next
  case (Cons x a)
  then show ?case by (cases b) (auto simp: Slice_compare_simps word_uint_eq_iff)
qed

lemma Slice_compare_flip: "Slice_compare a b < 0 \<longleftrightarrow> Slice_compare b a > 0"
proof (induction a arbitrary: b)
  case Nil
  then show ?case by (cases b) (simp_all add: Slice_compare_simps)
next
  case (Cons x a)
  then show ?case by (cases b) (auto simp: Slice_compare_simps)
qed

lemma Slice_compare_trans: "Slice_compare a b < 0 \<Longrightarrow> Slice_compare b c < 0 \<Longrightarrow> Slice_compare a c < 0"
proof (induction a arbitrary: b c)
  case Nil
  then show ?case by (cases b; cases c) (simp_all add: Slice_compare_simps)
next
  case (Cons x a)
  then show ?case by (cases b; cases c) (auto simp: Slice_compare_simps split: if_splits)
qed

lemma common_prefix_le: "common_prefix a b \<le> length a" "common_prefix a b \<le> length b"
  by (induction a b rule: common_prefix.induct) auto

lemma common_prefix_take: "take (common_prefix a b) a = take (common_prefix a b) b"
  by (induction a b rule: common_prefix.induct) auto

lemma FindShortestSeparator_Cons:
  "FindShortestSeparator (x # a) (x # b) = x # FindShortestSeparator a b"
  by (simp add: FindShortestSeparator_def Let_def)

lemma unat_inc: "x < 0xFF \<Longrightarrow> unat (x + 1 :: u8) = unat x + 1"
  by (simp add: unat_word_ariths word_less_nat_alt)

lemma uint_inc: "x < 0xFF \<Longrightarrow> uint (x + 1 :: u8) = uint x + 1"
  using unat_inc [of x] by (metis of_nat_1 of_nat_add uint_nat)

lemma unat_gap: "Suc (unat x) < unat y \<longleftrightarrow> uint x + 1 < uint y" for x y :: u8
proof -
  have "uint x = int (unat x)" "uint y = int (unat y)" by simp_all
  then show ?thesis by linarith
qed

lemma FindShortestSeparator_between:
  "Slice_compare a b < 0 \<Longrightarrow>
    Slice_compare a (FindShortestSeparator a b) \<le> 0 \<and> Slice_compare (FindShortestSeparator a b) b < 0"
proof (induction a b rule: common_prefix.induct)
  case (1 x a y b)
  show ?case
  proof (cases "x = y")
    case True
    then show ?thesis
      using 1 by (simp add: FindShortestSeparator_Cons Slice_compare_simps)
  next
    case False
    then show ?thesis
      using "1.prems" uint_inc [of x]
      by (auto simp: unat_gap FindShortestSeparator_def Let_def Slice_compare_simps Slice_compare_eq [THEN iffD2] split: if_splits)
  qed
qed (auto simp: FindShortestSeparator_def Slice_compare_simps Slice_compare_eq [THEN iffD2] split: list.splits)

lemma FindShortestSeparator_same: "FindShortestSeparator a a = a"
proof -
  have "common_prefix a a = length a" by (induction a) simp_all
  then show ?thesis by (simp add: FindShortestSeparator_def Let_def)
qed

lemma short_successor_above: "Slice_compare (before @ key) (short_successor before key) \<le> 0"
proof (induction key arbitrary: before)
  case Nil
  then show ?case by (simp add: Slice_compare_eq [THEN iffD2])
next
  case (Cons byte key)
  show ?case
  proof (cases "byte = 0xFF")
    case True
    then show ?thesis using Cons.IH [of "before @ [byte]"] by simp
  next
    case False
    have "unat byte \<noteq> 255"
      using False unsigned_word_eqI [of byte "0xFF"] by auto
    then have "byte < 0xFF"
      using unat_bound [of byte] by (simp add: word_less_nat_alt)
    then have "Slice_compare (pre @ byte # key) (pre @ [byte + 1]) < 0" for pre
      by (induction pre) (auto simp: Slice_compare_simps uint_inc)
    then show ?thesis using False by (simp add: order_less_imp_le)
  qed
qed

interpretation bytewise: comparator Slice_compare FindShortestSeparator FindShortSuccessor "\<lambda>_. True"
proof unfold_locales
  show "Slice_compare a b < 0 \<longleftrightarrow> Slice_compare b a > 0" for a b
    by (rule Slice_compare_flip)
  show "Slice_compare a b < 0 \<Longrightarrow> Slice_compare b c < 0 \<Longrightarrow> Slice_compare a c < 0" for a b c
    by (rule Slice_compare_trans)
  show "Slice_compare a b < 0 \<Longrightarrow> True \<and> Slice_compare a (FindShortestSeparator a b) \<le> 0 \<and>
      Slice_compare (FindShortestSeparator a b) b < 0" for a b
    using FindShortestSeparator_between by simp
qed (simp_all add: Slice_compare_eq FindShortestSeparator_same FindShortSuccessor_def
    short_successor_above [of "[]", simplified])

section \<open>Internal keys\<close>

lemma le_word_inverse:
  fixes v :: "'a::len word"
  assumes "v = le_word bs" and "8 * length bs \<le> LENGTH('a)"
  shows "bs = bytes_le (length bs) v"
  using assms
proof (induction bs arbitrary: v)
  case (Cons b bs)
  have le: "8 * Suc (length bs) \<le> LENGTH('a)" using Cons.prems(2) by simp
  have b: "ucast v = b"
    using Cons.prems(1) le by (auto intro!: bit_word_eqI simp: bit_simps)
  have bound: "bit (le_word bs :: 'a word) i \<Longrightarrow> i < 8 * length bs" for i
  proof (induction bs arbitrary: i)
    case (Cons b bs)
    then show ?case by (cases "i < 8") (auto simp: bit_simps dest: Cons.IH bit_imp_le_length)
  qed simp
  have "drop_bit 8 v = le_word bs"
  proof (rule bit_word_eqI)
    fix i assume "i < LENGTH('a)"
    have "\<not> bit b (8 + i)" using bit_imp_le_length [of b "8 + i"] by auto
    then show "bit (drop_bit 8 v) i = bit (le_word bs :: 'a word) i"
      using bound [of i] le by (auto simp: Cons.prems(1) bit_simps)
  qed
  then show ?case
    using Cons.IH [of "drop_bit 8 v"] le b by (simp add: bytes_le_Suc)
qed simp

lemma DecodeFixed64_inj:
  assumes "length a = 8" and "length b = 8" and "DecodeFixed64 a = DecodeFixed64 b"
  shows "a = b"
  using le_word_inverse [of "DecodeFixed64 a" a] le_word_inverse [of "DecodeFixed64 b" b] assms
  by (simp add: DecodeFixed64_def)

definition tag :: "u8 list \<Rightarrow> u64" where
  "tag k = DecodeFixed64 (drop (length k - 8) k)"

lemma ExtractUserKey_append: "length t = 8 \<Longrightarrow> ExtractUserKey (u @ t) = u" "length t = 8 \<Longrightarrow> tag (u @ t) = DecodeFixed64 t"
  by (simp_all add: ExtractUserKey_def tag_def)

lemma PutFixed64_parts: "ExtractUserKey (PutFixed64 u n) = u" "tag (PutFixed64 u n) = n" "length (PutFixed64 u n) = length u + 8"
  using DecodeFixed64_EncodeFixed64 [of n "[]"]
  by (simp_all add: PutFixed64_def ExtractUserKey_append)

lemma internal_key_eqI:
  assumes "8 \<le> length a" and "8 \<le> length b" and "ExtractUserKey a = ExtractUserKey b" and "tag a = tag b"
  shows "a = b"
proof -
  have "drop (length a - 8) a = drop (length b - 8) b"
    using assms by (intro DecodeFixed64_inj) (simp_all add: tag_def)
  then show ?thesis
    using assms(3) by (metis ExtractUserKey_def append_take_drop_id)
qed

lemma InternalCompare_tag:
  "InternalCompare uc a b =
    (let r = uc (ExtractUserKey a) (ExtractUserKey b) in
     if r \<noteq> 0 then r else if tag a > tag b then - 1 else if tag a < tag b then 1 else 0)"
  by (simp add: InternalCompare_def tag_def Let_def)

context comparator
begin

definition valid_internal :: "u8 list \<Rightarrow> bool" where
  "valid_internal k \<longleftrightarrow> 8 \<le> length k \<and> valid (ExtractUserKey k)"

text \<open>The comparator on internal keys has the laws when that on user keys has them.\<close>

lemma internal_comparator:
  "comparator (InternalCompare cmp) (InternalSeparator cmp separator) (InternalSuccessor cmp successor) valid_internal"
proof unfold_locales
  fix a b c
  assume a: "valid_internal a" and b: "valid_internal b"
  have va: "valid (ExtractUserKey a)" and vb: "valid (ExtractUserKey b)"
    using a b by (simp_all add: valid_internal_def)
  show "InternalCompare cmp a b < 0 \<longleftrightarrow> InternalCompare cmp b a > 0"
  proof (cases "ExtractUserKey a = ExtractUserKey b")
    case True
    then show ?thesis using cmp_eq [OF va va] by (auto simp: InternalCompare_tag Let_def)
  next
    case False
    then have "cmp (ExtractUserKey a) (ExtractUserKey b) \<noteq> 0" "cmp (ExtractUserKey b) (ExtractUserKey a) \<noteq> 0"
      using cmp_eq [OF va vb] cmp_eq [OF vb va] by auto
    then show ?thesis using cmp_flip [OF va vb] by (simp add: InternalCompare_tag Let_def)
  qed
  show "InternalCompare cmp a b = 0 \<longleftrightarrow> a = b"
    using cmp_eq [OF va vb] cmp_eq [OF va va] a b internal_key_eqI [of a b]
    by (auto simp: InternalCompare_tag Let_def valid_internal_def split: if_splits)
  show "InternalCompare cmp a c < 0" if "valid_internal c" "InternalCompare cmp a b < 0" "InternalCompare cmp b c < 0"
  proof -
    have vc: "valid (ExtractUserKey c)"
      using that(1) by (simp add: valid_internal_def)
    show ?thesis
      using that(2,3) cmp_trans [OF va vb vc] cmp_eq [OF va vb] cmp_eq [OF vb vc] cmp_eq [OF va vc]
      by (auto simp: InternalCompare_tag Let_def split: if_splits)
  qed
  show "InternalSeparator cmp separator a a = a"
    using separator_same [OF va] by (simp add: InternalSeparator_def Let_def)
  show "valid_internal (InternalSeparator cmp separator a b) \<and>
      InternalCompare cmp a (InternalSeparator cmp separator a b) \<le> 0 \<and>
      InternalCompare cmp (InternalSeparator cmp separator a b) b < 0" if less: "InternalCompare cmp a b < 0"
  proof -
    let ?t = "separator (ExtractUserKey a) (ExtractUserKey b)"
    have refl: "InternalCompare cmp a a = 0"
      using cmp_eq [OF va va] by (simp add: InternalCompare_tag)
    show ?thesis
    proof (cases "length ?t < length (ExtractUserKey a) \<and> cmp (ExtractUserKey a) ?t < 0")
      case True
      then have "ExtractUserKey a \<noteq> ExtractUserKey b"
        using separator_same [OF va] by auto
      then have "cmp (ExtractUserKey a) (ExtractUserKey b) < 0"
        using less cmp_eq [OF va vb] by (simp add: InternalCompare_tag Let_def)
      then show ?thesis
        using True separator_between [OF va vb] a
        by (simp add: InternalSeparator_def Let_def InternalCompare_tag PutFixed64_parts valid_internal_def)
    next
      case False
      then have "InternalSeparator cmp separator a b = a"
        by (auto simp: InternalSeparator_def Let_def)
      then show ?thesis using a less refl by simp
    qed
  qed
  show "valid_internal (InternalSuccessor cmp successor a) \<and> InternalCompare cmp a (InternalSuccessor cmp successor a) \<le> 0"
  proof -
    have refl: "InternalCompare cmp a a = 0"
      using cmp_eq [OF va va] by (simp add: InternalCompare_tag)
    show ?thesis
      using successor_above [OF va] a refl
      by (auto simp: InternalSuccessor_def Let_def InternalCompare_tag PutFixed64_parts valid_internal_def)
  qed
qed

end

definition internal_key :: "u8 list \<Rightarrow> bool" where
  "internal_key k \<longleftrightarrow> 8 \<le> length k"

interpretation internal: comparator "InternalCompare Slice_compare" "InternalSeparator Slice_compare FindShortestSeparator"
  "InternalSuccessor Slice_compare FindShortSuccessor" internal_key
proof -
  have "bytewise.valid_internal = internal_key"
    by (rule ext) (simp add: bytewise.valid_internal_def internal_key_def)
  then show "comparator (InternalCompare Slice_compare) (InternalSeparator Slice_compare FindShortestSeparator)
      (InternalSuccessor Slice_compare FindShortSuccessor) internal_key"
    using bytewise.internal_comparator by simp
qed

section \<open>Packed tags\<close>

lemma pack_parts:
  assumes "s \<le> kMaxSequenceNumber"
  shows "PackSequenceAndType s t AND 0xFF = value_type_code t" "drop_bit 8 (PackSequenceAndType s t) = s"
    "unat (PackSequenceAndType s t) = unat s * 256 + unat (value_type_code t)"
proof -
  have m: "kMaxSequenceNumber = mask 56"
    by (simp add: kMaxSequenceNumber_def mask_eq_exp_minus_1)
  then have b: "unat s < 2 ^ 56"
    using assms by (simp add: kMaxSequenceNumber_def word_le_nat_alt)
  have c: "value_type_code t = 0 \<or> value_type_code t = 1" by (cases t) simp_all
  have v: "\<not> bit (value_type_code t) i" if "0 < i" for i
    using c that by (auto simp: bit_1_iff)
  have s56: "\<not> bit s i" if "56 \<le> i" for i
  proof -
    have "take_bit 56 s = s"
      using b by (intro word_unat_eq_iff [THEN iffD2]) (simp add: unat_take_bit)
    then show ?thesis using that by (metis bit_take_bit_iff not_le)
  qed
  show "PackSequenceAndType s t AND 0xFF = value_type_code t"
  proof -
    have "w AND 0xFF = take_bit 8 w" for w :: u64
      by (simp add: take_bit_eq_mask mask_eq_exp_minus_1)
    then show ?thesis
      using v by (auto intro!: bit_word_eqI simp: PackSequenceAndType_def bit_simps)
  qed
  show d: "drop_bit 8 (PackSequenceAndType s t) = s"
    using v s56 by (auto intro!: bit_word_eqI simp: PackSequenceAndType_def bit_simps) (metis linorder_not_le)
  have "PackSequenceAndType s t = push_bit 8 s + value_type_code t"
  proof -
    have "push_bit 8 s AND value_type_code t = 0"
      using c by (auto intro!: bit_word_eqI simp: bit_simps bit_1_iff)
    then show ?thesis
      unfolding PackSequenceAndType_def using disjunctive_add_eq_or by metis
  qed
  moreover have "unat (push_bit 8 s) = unat s * 256"
    using b by (simp add: push_bit_eq_mult unat_word_ariths)
  ultimately show "unat (PackSequenceAndType s t) = unat s * 256 + unat (value_type_code t)"
    using b c by (auto simp: unat_word_ariths)
qed

lemma AppendInternalKey_parts:
  "ExtractUserKey (AppendInternalKey [] k) = user_key k"
  "tag (AppendInternalKey [] k) = PackSequenceAndType (sequence k) (vtype k)"
  "length (AppendInternalKey [] k) = InternalKeyEncodingLength k"
  by (simp_all add: AppendInternalKey_def PutFixed64_parts InternalKeyEncodingLength_def)

section \<open>Properties\<close>

text \<open>
  An internal key is parsed back into its user key, sequence number and type, has the length that is
  announced for it, and with the type of a value is what a lookup key holds for its user key; sequence numbers have 56 bits.
\<close>

theorem ldb_internal_key_roundtrip:
  assumes "sequence k \<le> kMaxSequenceNumber"
  shows "ParseInternalKey (AppendInternalKey [] k) = Some k \<and>
    ExtractUserKey (AppendInternalKey [] k) = user_key k \<and>
    length (AppendInternalKey [] k) = InternalKeyEncodingLength k \<and>
    lookup_internal_key (user_key k) (sequence k) = AppendInternalKey [] (k\<lparr>vtype := kTypeValue\<rparr>)"
proof -
  let ?b = "AppendInternalKey [] k"
  have parts: "DecodeFixed64 (drop (length ?b - 8) ?b) = PackSequenceAndType (sequence k) (vtype k)"
    "take (length ?b - 8) ?b = user_key k" "\<not> length ?b < 8"
    using AppendInternalKey_parts [of k] by (simp_all add: tag_def ExtractUserKey_def InternalKeyEncodingLength_def)
  have "ParseInternalKey ?b = Some k"
    unfolding ParseInternalKey_def Let_def parts pack_parts(1,2) [OF assms] using parts(3)
    by (cases k; cases "vtype k") simp_all
  moreover have "lookup_internal_key (user_key k) (sequence k) = AppendInternalKey [] (k\<lparr>vtype := kTypeValue\<rparr>)"
    by (simp add: lookup_internal_key_def LookupKey_def kstart_def AppendInternalKey_def PutFixed64_def)
  ultimately show ?thesis
    by (simp add: AppendInternalKey_parts)
qed

theorem ldb_internal_key_roundtrip_witness:
  "let k = \<lparr>user_key = [107], sequence = 5, vtype = kTypeDeletion\<rparr> in
    ParseInternalKey (AppendInternalKey [] k) = Some k \<and>
    ExtractUserKey (AppendInternalKey [] k) = user_key k \<and>
    length (AppendInternalKey [] k) = InternalKeyEncodingLength k \<and>
    lookup_internal_key (user_key k) (sequence k) = AppendInternalKey [] (k\<lparr>vtype := kTypeValue\<rparr>)"
  unfolding Let_def by (rule ldb_internal_key_roundtrip) (simp add: kMaxSequenceNumber_def)

text \<open>
  Internal keys are ordered by user key first; among the entries of one user key the one with the
  higher sequence number comes first, and of two with the same number the value before the deletion.
\<close>

theorem ldb_internal_key_order:
  assumes "sequence a \<le> kMaxSequenceNumber" and "sequence b \<le> kMaxSequenceNumber"
  shows "InternalCompare Slice_compare (AppendInternalKey [] a) (AppendInternalKey [] b) < 0 \<longleftrightarrow>
    Slice_compare (user_key a) (user_key b) < 0 \<or>
    user_key a = user_key b \<and>
      (sequence a > sequence b \<or> sequence a = sequence b \<and> vtype a = kTypeValue \<and> vtype b = kTypeDeletion)"
proof -
  have "PackSequenceAndType (sequence a) (vtype a) > PackSequenceAndType (sequence b) (vtype b) \<longleftrightarrow>
      sequence a > sequence b \<or> sequence a = sequence b \<and> vtype a = kTypeValue \<and> vtype b = kTypeDeletion"
    unfolding word_less_nat_alt pack_parts(3) [OF assms(1)] pack_parts(3) [OF assms(2)]
    by (cases "vtype a"; cases "vtype b") (auto simp: word_unat_eq_iff)
  then show ?thesis
    using Slice_compare_eq [of "user_key a" "user_key b"]
    by (cases "user_key a = user_key b") (simp_all add: InternalCompare_tag AppendInternalKey_parts Let_def)
qed

theorem ldb_internal_key_order_witness:
  "let a = \<lparr>user_key = [107], sequence = 6, vtype = kTypeDeletion\<rparr>;
       b = \<lparr>user_key = [107], sequence = 5, vtype = kTypeValue\<rparr>
   in InternalCompare Slice_compare (AppendInternalKey [] a) (AppendInternalKey [] b) < 0 \<longleftrightarrow>
    Slice_compare (user_key a) (user_key b) < 0 \<or>
    user_key a = user_key b \<and>
      (sequence a > sequence b \<or> sequence a = sequence b \<and> vtype a = kTypeValue \<and> vtype b = kTypeDeletion)"
  unfolding Let_def by (rule ldb_internal_key_order) (simp_all add: kMaxSequenceNumber_def)

text \<open>
  The key that a table's index holds for a block is never below the keys of the block and always
  below those of the next: the shortened internal key lies between, and so does the successor of the
  last key above it.
\<close>

theorem ldb_separator_between:
  assumes "8 \<le> length a" and "8 \<le> length b" and "InternalCompare Slice_compare a b < 0"
  shows "InternalCompare Slice_compare a (InternalSeparator Slice_compare FindShortestSeparator a b) \<le> 0 \<and>
    InternalCompare Slice_compare (InternalSeparator Slice_compare FindShortestSeparator a b) b < 0 \<and>
    InternalCompare Slice_compare b (InternalSuccessor Slice_compare FindShortSuccessor b) \<le> 0"
  using assms internal.separator_between [of a b] internal.successor_above [of b]
  by (simp add: internal_key_def)

theorem ldb_separator_between_witness:
  "let a = [97, 98, 99, 1, 5, 0, 0, 0, 0, 0, 0]; b = [97, 101, 1, 5, 0, 0, 0, 0, 0, 0] in
    InternalCompare Slice_compare a (InternalSeparator Slice_compare FindShortestSeparator a b) \<le> 0 \<and>
    InternalCompare Slice_compare (InternalSeparator Slice_compare FindShortestSeparator a b) b < 0 \<and>
    InternalCompare Slice_compare b (InternalSuccessor Slice_compare FindShortSuccessor b) \<le> 0"
  unfolding Let_def
  by (rule ldb_separator_between)
    (simp_all add: InternalCompare_def ExtractUserKey_def Slice_compare_simps Let_def)

end
