(* ===== verification/LdbBlock.thy ===== *)
theory LdbBlock
  imports LdbKey LdbEnv
begin

text \<open>
  Blocks of a table: \<open>BlockBuilder\<close> (\<open>table/block_builder.cc\<close>), which stores a key without the part
  it shares with the one before and an array of restart points, and the block and its iterator
  (\<open>table/block.cc\<close>). The comparator is a parameter. A pointer into the block is an offset; reading
  past the end of the block, which C does not notice, is noted in the field \<open>overread\<close>.
\<close>

section \<open>Builder\<close>

record block_builder =
  bb_buffer :: "u8 list"
  bb_restarts :: "u32 list"
  bb_counter :: nat
  bb_finished :: bool
  bb_last_key :: "u8 list"

definition new_block_builder :: block_builder where
  "new_block_builder = \<lparr>bb_buffer = [], bb_restarts = [0], bb_counter = 0, bb_finished = False, bb_last_key = []\<rparr>"

definition bb_Reset :: "block_builder \<Rightarrow> block_builder" where
  "bb_Reset b = b\<lparr>bb_buffer := [], bb_restarts := [0], bb_counter := 0, bb_finished := False, bb_last_key := []\<rparr>"

definition CurrentSizeEstimate :: "block_builder \<Rightarrow> nat" where
  "CurrentSizeEstimate b = length (bb_buffer b) + length (bb_restarts b) * 4 + 4"

definition bb_Finish :: "block_builder \<Rightarrow> u8 list \<times> block_builder" where
  "bb_Finish b =
     (let buffer = fold (\<lambda>restart buffer. PutFixed32 buffer restart) (bb_restarts b) (bb_buffer b);
          buffer = PutFixed32 buffer (of_nat (length (bb_restarts b)))
      in (buffer, b\<lparr>bb_buffer := buffer, bb_finished := True\<rparr>))"

definition bb_Add :: "nat \<Rightarrow> u8 list \<Rightarrow> u8 list \<Rightarrow> block_builder \<Rightarrow> block_builder" where
  "bb_Add block_restart_interval key value b =
     (let last_key_piece = bb_last_key b;
          (shared, b) =
            (if bb_counter b < block_restart_interval then (common_prefix last_key_piece key, b)
             else (0, b\<lparr>bb_restarts := bb_restarts b @ [of_nat (length (bb_buffer b))], bb_counter := 0\<rparr>));
          non_shared = length key - shared;
          buffer = PutVarint32 (bb_buffer b) (of_nat shared);
          buffer = PutVarint32 buffer (of_nat non_shared);
          buffer = PutVarint32 buffer (of_nat (length value));
          buffer = buffer @ take non_shared (drop shared key);
          buffer = buffer @ value
      in b\<lparr>bb_buffer := buffer,
           bb_last_key := take shared (bb_last_key b) @ take non_shared (drop shared key),
           bb_counter := bb_counter b + 1\<rparr>)"

section \<open>Block\<close>

text \<open>A block whose size is 0 is bad; \<open>restart_offset_\<close> is then not set and not used.\<close>

record block =
  b_data :: "u8 list"
  b_size :: nat
  b_restart_offset :: u32

definition NumRestarts :: "u8 list \<Rightarrow> nat \<Rightarrow> u32" where
  "NumRestarts data sz = DecodeFixed32 (drop (sz - 4) data)"

definition new_block :: "u8 list \<Rightarrow> block" where
  "new_block contents =
     (let sz = length contents; blk = \<lparr>b_data = contents, b_size = sz, b_restart_offset = 0\<rparr> in
      if sz < 4 then blk\<lparr>b_size := 0\<rparr>
      else
        let max_restarts_allowed = (sz - 4) div 4; n = NumRestarts contents sz in
        if unat n > max_restarts_allowed then blk\<lparr>b_size := 0\<rparr>
        else blk\<lparr>b_restart_offset := of_nat (sz - unat (1 + n) * 4)\<rparr>)"

text \<open>The result is \<open>shared\<close>, \<open>non_shared\<close>, \<open>value_length\<close> and the offset of the key delta.\<close>

definition DecodeEntry :: "u8 list \<Rightarrow> nat \<Rightarrow> nat \<Rightarrow> (u32 \<times> u32 \<times> u32 \<times> nat) option" where
  "DecodeEntry data p limit =
     (if int limit - int p < 3 then None
      else
        let s = take (limit - p) (drop p data);
            shared = ucast (s ! 0); non_shared = ucast (s ! 1); value_length = ucast (s ! 2);
            values =
              (if shared OR non_shared OR value_length < (128 :: u32)
               then Some (shared, non_shared, value_length, drop 3 s)
               else
                 (case GetVarint32Ptr s of
                    None \<Rightarrow> None
                  | Some (shared, s) \<Rightarrow>
                      (case GetVarint32Ptr s of
                         None \<Rightarrow> None
                       | Some (non_shared, s) \<Rightarrow>
                           (case GetVarint32Ptr s of
                              None \<Rightarrow> None
                            | Some (value_length, s) \<Rightarrow> Some (shared, non_shared, value_length, s)))))
        in case values of
             None \<Rightarrow> None
           | Some (shared, non_shared, value_length, s) \<Rightarrow>
               if (of_nat (length s) :: u32) < non_shared + value_length then None
               else Some (shared, non_shared, value_length, limit - length s))"

section \<open>Iterator\<close>

text \<open>\<open>it_value\<close> is the offset and the length of the value.\<close>

record block_iter =
  it_data :: "u8 list"
  it_restarts :: u32
  it_num_restarts :: u32
  it_current :: u32
  it_restart_index :: u32
  it_key :: "u8 list"
  it_value :: "nat \<times> nat"
  it_status :: ldb_status
  overread :: bool

definition new_iter :: "u8 list \<Rightarrow> u32 \<Rightarrow> u32 \<Rightarrow> block_iter" where
  "new_iter data restarts num_restarts =
     \<lparr>it_data = data, it_restarts = restarts, it_num_restarts = num_restarts, it_current = restarts,
      it_restart_index = num_restarts, it_key = [], it_value = (0, 0), it_status = OK, overread = False\<rparr>"

definition it_Valid :: "block_iter \<Rightarrow> bool" where
  "it_Valid it \<longleftrightarrow> it_current it < it_restarts it"

definition value_slice :: "block_iter \<Rightarrow> u8 list" where
  "value_slice it = (case it_value it of (off, len) \<Rightarrow> take len (drop off (it_data it)))"

definition NextEntryOffset :: "block_iter \<Rightarrow> u32" where
  "NextEntryOffset it = (case it_value it of (off, len) \<Rightarrow> of_nat (off + len))"

definition GetRestartPoint :: "block_iter \<Rightarrow> u32 \<Rightarrow> u32" where
  "GetRestartPoint it index = DecodeFixed32 (drop (unat (it_restarts it) + unat index * 4) (it_data it))"

definition SeekToRestartPoint :: "u32 \<Rightarrow> block_iter \<Rightarrow> block_iter" where
  "SeekToRestartPoint index it =
     (let offset = GetRestartPoint it index in
      it\<lparr>it_key := [], it_restart_index := index, it_value := (unat offset, 0)\<rparr>)"

text \<open>\<open>value_.clear()\<close> leaves an empty slice elsewhere; its address is not used before the next seek.\<close>

definition CorruptionError :: "block_iter \<Rightarrow> block_iter" where
  "CorruptionError it =
     it\<lparr>it_current := it_restarts it, it_restart_index := it_num_restarts it,
        it_status := Corruption ''bad entry in block'', it_key := [], it_value := (0, 0)\<rparr>"

text \<open>The loop that moves \<open>restart_index_\<close> on.\<close>

function advance_restart :: "block_iter \<Rightarrow> u32 \<Rightarrow> u32" where
  "advance_restart it index =
     (if index + 1 < it_num_restarts it \<and> GetRestartPoint it (index + 1) < it_current it
      then advance_restart it (index + 1) else index)"
  by auto
termination
proof (relation "measure (\<lambda>(it, index). if index + 1 < it_num_restarts it then unat (it_num_restarts it) - unat (index + 1) else 0)")
  fix it :: block_iter and index :: u32
  assume a: "index + 1 < it_num_restarts it \<and> GetRestartPoint it (index + 1) < it_current it"
  then have "unat (index + 1) < unat (it_num_restarts it)"
    by (simp add: word_less_nat_alt)
  moreover have "unat (index + 1 + 1) = unat (index + 1) + 1"
    using calculation unat_bound [of "it_num_restarts it"] unat_add_of_nat [of "index + 1" 1] by simp
  ultimately show "((it, index + 1), (it, index)) \<in>
      measure (\<lambda>(it, index). if index + 1 < it_num_restarts it then unat (it_num_restarts it) - unat (index + 1) else 0)"
    using a by (auto simp: word_less_nat_alt)
qed simp

declare advance_restart.simps [simp del]

definition ParseNextKey :: "block_iter \<Rightarrow> bool \<times> block_iter" where
  "ParseNextKey it =
     (let it = it\<lparr>it_current := NextEntryOffset it\<rparr>;
          p = unat (it_current it); limit = unat (it_restarts it)
      in if p \<ge> limit then
           (False, it\<lparr>it_current := it_restarts it, it_restart_index := it_num_restarts it\<rparr>)
         else
           (case DecodeEntry (it_data it) p limit of
              None \<Rightarrow> (False, CorruptionError it)
            | Some (shared, non_shared, value_length, p) \<Rightarrow>
                if length (it_key it) < unat shared then (False, CorruptionError it)
                else
                  let it = it\<lparr>it_key := take (unat shared) (it_key it) @ take (unat non_shared) (drop p (it_data it)),
                              it_value := (p + unat non_shared, unat value_length),
                              overread := overread it \<or> p + unat non_shared > length (it_data it)\<rparr>
                  in (True, it\<lparr>it_restart_index := advance_restart it (it_restart_index it)\<rparr>)))"

definition it_Next :: "block_iter \<Rightarrow> block_iter" where
  "it_Next it = snd (ParseNextKey it)"

definition SeekToFirst :: "block_iter \<Rightarrow> block_iter" where
  "SeekToFirst it = snd (ParseNextKey (SeekToRestartPoint 0 it))"

text \<open>
  The loops that parse entries one after the other and the binary search do not end by their shape
  alone, because offsets and indices are 32-bit numbers; they are partial functions, and \<open>None\<close> is a
  loop that does not return.
\<close>

partial_function (option) parse_while ::
  "(block_iter \<Rightarrow> bool) \<Rightarrow> block_iter \<Rightarrow> block_iter option" where
  "parse_while go_on it =
     (case ParseNextKey it of (ok, it) \<Rightarrow> if ok \<and> go_on it then parse_while go_on it else Some it)"

definition SeekToLast :: "block_iter \<Rightarrow> block_iter option" where
  "SeekToLast it =
     parse_while (\<lambda>it. NextEntryOffset it < it_restarts it) (SeekToRestartPoint (it_num_restarts it - 1) it)"

text \<open>\<open>Prev\<close> first goes back to a restart point before the current entry, if there is one.\<close>

function prev_restart :: "block_iter \<Rightarrow> u32 \<Rightarrow> u32 \<Rightarrow> u32 option" where
  "prev_restart it original index =
     (if GetRestartPoint it index \<ge> original then
        if index = 0 then None else prev_restart it original (index - 1)
      else Some index)"
  by auto
termination
  by (relation "measure (\<lambda>(it, original, index). unat index)") (auto simp: unat_minus_one unat_gt_0)

definition it_Prev :: "block_iter \<Rightarrow> block_iter option" where
  "it_Prev it =
     (let original = it_current it in
      case prev_restart it original (it_restart_index it) of
        None \<Rightarrow> Some (it\<lparr>it_current := it_restarts it, it_restart_index := it_num_restarts it\<rparr>)
      | Some index \<Rightarrow> parse_while (\<lambda>it. NextEntryOffset it < original) (SeekToRestartPoint index it))"

text \<open>The binary search over the restart points; its result is \<open>None\<close> when it meets a bad entry.\<close>

partial_function (option) seek_restart ::
  "compare_op \<Rightarrow> u8 list \<Rightarrow> block_iter \<Rightarrow> u32 \<Rightarrow> u32 \<Rightarrow> u32 option option" where
  "seek_restart cmp key it left right =
     (if left < right then
        let mid = (left + right + 1) div 2;
            region_offset = GetRestartPoint it mid
        in case DecodeEntry (it_data it) (unat region_offset) (unat (it_restarts it)) of
             None \<Rightarrow> Some None
           | Some (shared, non_shared, value_length, key_ptr) \<Rightarrow>
               if shared \<noteq> 0 then Some None
               else if cmp (take (unat non_shared) (drop key_ptr (it_data it))) key < 0
               then seek_restart cmp key it mid right
               else seek_restart cmp key it left (mid - 1)
      else Some (Some left))"

definition it_Seek :: "compare_op \<Rightarrow> u8 list \<Rightarrow> block_iter \<Rightarrow> block_iter option" where
  "it_Seek cmp key it =
     (case seek_restart cmp key it 0 (it_num_restarts it - 1) of
        None \<Rightarrow> None
      | Some None \<Rightarrow> Some (CorruptionError it)
      | Some (Some left) \<Rightarrow> parse_while (\<lambda>it. cmp (it_key it) key < 0) (SeekToRestartPoint left it))"

datatype iterator = ErrorIterator ldb_status | EmptyIterator | BlockIterator block_iter

definition NewIterator :: "block \<Rightarrow> iterator" where
  "NewIterator blk =
     (if b_size blk < 4 then ErrorIterator (Corruption ''bad block contents'')
      else
        let num_restarts = NumRestarts (b_data blk) (b_size blk) in
        if num_restarts = 0 then EmptyIterator
        else BlockIterator (new_iter (b_data blk) (b_restart_offset blk) num_restarts))"

end
