(* ===== verification/LdbBlockProofs.thy ===== *)
theory LdbBlockProofs
  imports LdbBlock
begin

text \<open>
  What \<open>BlockBuilder\<close> produces for a list of entries, as a function of the list, and what the iterator
  finds in it.
\<close>

section \<open>The layout of a block\<close>

type_synonym entry = "u8 list \<times> u8 list"

definition entry_bytes :: "nat \<Rightarrow> entry \<Rightarrow> u8 list" where
  "entry_bytes shared = (\<lambda>(key, value).
     EncodeVarint32 (of_nat shared) @ EncodeVarint32 (of_nat (length key - shared)) @
     EncodeVarint32 (of_nat (length value)) @ drop shared key @ value)"

text \<open>Every \<open>n\<close>-th entry is a restart point and shares nothing.\<close>

definition shared_at :: "nat \<Rightarrow> entry list \<Rightarrow> nat \<Rightarrow> nat" where
  "shared_at n kvs i = (if i mod n = 0 then 0 else common_prefix (fst (kvs ! (i - 1))) (fst (kvs ! i)))"

primrec entries :: "nat \<Rightarrow> entry list \<Rightarrow> nat \<Rightarrow> u8 list" where
  "entries n kvs 0 = []"
| "entries n kvs (Suc i) = entries n kvs i @ entry_bytes (shared_at n kvs i) (kvs ! i)"

abbreviation off :: "nat \<Rightarrow> entry list \<Rightarrow> nat \<Rightarrow> nat" where
  "off n kvs i \<equiv> length (entries n kvs i)"

definition restart_count :: "nat \<Rightarrow> nat \<Rightarrow> nat" where
  "restart_count n m = (if m = 0 then 1 else (m - 1) div n + 1)"

definition restart_offsets :: "nat \<Rightarrow> entry list \<Rightarrow> u32 list" where
  "restart_offsets n kvs = map (\<lambda>j. of_nat (off n kvs (j * n))) [0..<restart_count n (length kvs)]"

definition block_bytes :: "nat \<Rightarrow> entry list \<Rightarrow> u8 list" where
  "block_bytes n kvs =
     entries n kvs (length kvs) @ concat (map EncodeFixed32 (restart_offsets n kvs)) @
     EncodeFixed32 (of_nat (restart_count n (length kvs)))"

lemma entries_append: "i \<le> length kvs \<Longrightarrow> entries n (kvs @ xs) i = entries n kvs i"
  by (induction i) (simp_all add: shared_at_def nth_append)

lemma off_mono: "i \<le> j \<Longrightarrow> off n kvs i \<le> off n kvs j"
  by (induction j) (auto simp: le_Suc_eq)

lemma shared_at_le: "shared_at n kvs i \<le> length (fst (kvs ! i))" "0 < i mod n \<Longrightarrow> shared_at n kvs i \<le> length (fst (kvs ! (i - 1)))"
  by (simp_all add: shared_at_def common_prefix_le)

section \<open>The builder\<close>

definition build :: "nat \<Rightarrow> entry list \<Rightarrow> block_builder" where
  "build n kvs = fold (\<lambda>(key, value). bb_Add n key value) kvs new_block_builder"

definition built :: "nat \<Rightarrow> entry list \<Rightarrow> block_builder" where
  "built n kvs =
     \<lparr>bb_buffer = entries n kvs (length kvs), bb_restarts = restart_offsets n kvs,
      bb_counter = (if kvs = [] then 0 else (length kvs - 1) mod n + 1), bb_finished = False,
      bb_last_key = (if kvs = [] then [] else fst (last kvs))\<rparr>"

lemma Suc_mod_le: "0 < n \<Longrightarrow> Suc (m mod n) \<le> n"
  by (simp add: Suc_leI)

lemma shared_at_snoc:
  "0 < n \<Longrightarrow> shared_at n (kvs @ [(key, value)]) (length kvs) =
    (if bb_counter (built n kvs) < n then common_prefix (bb_last_key (built n kvs)) key else 0)"
proof (cases "kvs = []")
  case True
  then show ?thesis by (simp add: shared_at_def built_def)
next
  case False
  assume n: "0 < n"
  obtain m where m: "length kvs = Suc m" using False by (cases kvs) auto
  show ?thesis
    using n False m Suc_mod_le [OF n, of m]
    by (auto simp: shared_at_def built_def nth_append last_conv_nth mod_Suc split: if_splits)
qed

lemma restart_offsets_snoc:
  assumes "0 < n"
  shows "restart_offsets n (kvs @ [kv]) =
    (if bb_counter (built n kvs) < n then restart_offsets n kvs
     else restart_offsets n kvs @ [of_nat (off n kvs (length kvs))])"
proof -
  have count: "restart_count n (Suc (length kvs)) =
      (if bb_counter (built n kvs) < n then restart_count n (length kvs) else Suc (restart_count n (length kvs)))"
    using assms Suc_mod_le [OF assms, of "length kvs - 1"]
    by (cases "length kvs") (auto simp: restart_count_def built_def div_Suc mod_Suc)
  have inside: "j * n \<le> length kvs" if "j < restart_count n (length kvs)" for j
  proof (cases "length kvs")
    case (Suc m)
    then have "j \<le> m div n" using that by (simp add: restart_count_def)
    then have "j * n \<le> m div n * n" by (rule mult_le_mono1)
    also have "\<dots> \<le> m" by (rule div_times_less_eq_dividend)
    finally show ?thesis using Suc by simp
  qed (use that in \<open>simp add: restart_count_def\<close>)
  have full: "restart_count n (length kvs) * n = length kvs" if c: "\<not> bb_counter (built n kvs) < n"
  proof -
    obtain m where m: "length kvs = Suc m" "kvs \<noteq> []"
      using c assms by (cases kvs) (auto simp: built_def)
    then have "Suc (m mod n) = n"
      using c assms by (simp add: built_def) (metis Suc_leI le_antisym linorder_not_less mod_less_divisor)
    then show ?thesis
      using m by (simp add: restart_count_def add.commute) (metis div_mult_mod_eq add_Suc_right add.commute)
  qed
  show ?thesis
    using inside full by (auto simp: restart_offsets_def count entries_append)
qed

lemma bb_Add_built:
  assumes "0 < n"
  shows "bb_Add n key value (built n kvs) = built n (kvs @ [(key, value)])"
proof -
  let ?s = "shared_at n (kvs @ [(key, value)]) (length kvs)"
  have s: "?s = (if bb_counter (built n kvs) < n then common_prefix (bb_last_key (built n kvs)) key else 0)"
    by (rule shared_at_snoc [OF assms])
  have le: "?s \<le> length key" using shared_at_le(1) [of n "kvs @ [(key, value)]" "length kvs"] by simp
  have key: "take ?s (bb_last_key (built n kvs)) @ drop ?s key = key"
    unfolding s using common_prefix_take by simp
  have counter: "(if bb_counter (built n kvs) < n then bb_counter (built n kvs) else 0) + 1 = length kvs mod n + 1"
    using assms Suc_mod_le [OF assms, of "length kvs - 1"] by (cases "length kvs") (auto simp: built_def mod_Suc)
  have buf: "entries n (kvs @ [(key, value)]) (length (kvs @ [(key, value)])) =
      bb_buffer (built n kvs) @ entry_bytes ?s (key, value)"
    by (simp add: entries_append built_def)
  show ?thesis
  proof (cases "bb_counter (built n kvs) < n")
    case True
    then show ?thesis
      using key counter buf restart_offsets_snoc [OF assms, of kvs "(key, value)"] s
      by (simp add: bb_Add_def Let_def PutVarint32_def entry_bytes_def built_def)
  next
    case False
    then show ?thesis
      using key counter buf restart_offsets_snoc [OF assms, of kvs "(key, value)"] s
      by (simp add: bb_Add_def Let_def PutVarint32_def entry_bytes_def built_def)
  qed
qed

lemma build_built: "0 < n \<Longrightarrow> build n kvs = built n kvs"
proof (induction kvs rule: rev_induct)
  case Nil
  then show ?case by (simp add: build_def built_def new_block_builder_def restart_offsets_def restart_count_def)
next
  case (snoc kv kvs)
  then show ?case
    using bb_Add_built [of n "fst kv" "snd kv" kvs] by (simp add: build_def split_beta)
qed

lemma build_bytes: "0 < n \<Longrightarrow> fst (bb_Finish (build n kvs)) = block_bytes n kvs"
  unfolding bb_Finish_def fold_PutFixed32 Let_def
  by (simp add: build_built PutFixed32_def block_bytes_def built_def restart_offsets_def)

section \<open>Reading the block\<close>

text \<open>A block whose offsets fit into 32 bits.\<close>

definition small_block :: "nat \<Rightarrow> entry list \<Rightarrow> bool" where
  "small_block n kvs \<longleftrightarrow> 0 < n \<and> length (block_bytes n kvs) < 2 ^ 32"

definition data_end :: "nat \<Rightarrow> entry list \<Rightarrow> nat" where
  "data_end n kvs = off n kvs (length kvs)"

lemma length_concat_fixed: "length (concat (map EncodeFixed32 rs)) = 4 * length rs"
  by (induction rs) simp_all

lemma length_restarts: "length (restart_offsets n kvs) = restart_count n (length kvs)"
  by (simp add: restart_offsets_def)

lemma restart_count_pos: "0 < restart_count n m"
  unfolding restart_count_def by simp

lemma block_bytes_length: "length (block_bytes n kvs) = data_end n kvs + 4 * restart_count n (length kvs) + 4"
  by (simp add: block_bytes_def data_end_def length_concat_fixed length_restarts)

lemma small_block_sizes:
  assumes "small_block n kvs"
  shows "0 < n" "data_end n kvs < 2 ^ 32" "4 * restart_count n (length kvs) + 4 < 2 ^ 32"
    "unat (of_nat (data_end n kvs) :: u32) = data_end n kvs"
    "unat (of_nat (restart_count n (length kvs)) :: u32) = restart_count n (length kvs)"
  using assms by (auto simp: small_block_def block_bytes_length unsigned_of_nat take_bit_nat_eq_self)

text \<open>The block of these bytes is good, and the iterator on it starts from its end.\<close>

lemma new_block_bytes:
  assumes "small_block n kvs"
  shows "NewIterator (new_block (block_bytes n kvs)) =
    BlockIterator (new_iter (block_bytes n kvs) (of_nat (data_end n kvs)) (of_nat (restart_count n (length kvs))))"
proof -
  let ?R = "restart_count n (length kvs)" and ?d = "block_bytes n kvs"
  note sizes = small_block_sizes [OF assms]
  have "drop (length ?d - 4) ?d = EncodeFixed32 (of_nat ?R)"
    by (simp add: block_bytes_def)
  then have num: "NumRestarts ?d (length ?d) = of_nat ?R"
    using DecodeFixed32_EncodeFixed32 [of "of_nat ?R" "[]"] by (simp add: NumRestarts_def)
  have R: "(of_nat ?R :: u32) \<noteq> 0"
  proof
    assume "(of_nat ?R :: u32) = 0"
    from sizes(5) [unfolded this] have "?R = 0" by simp
    then show False using restart_count_pos [of n "length kvs"] by simp
  qed
  have "unat (1 + of_nat ?R :: u32) = 1 + ?R"
  proof -
    have "unat (of_nat ?R :: u32) + 1 < 2 ^ LENGTH(32)"
      unfolding sizes(5) using sizes(3) by simp
    from unat_add_of_nat [OF this] show ?thesis
      unfolding sizes(5) by (simp only: of_nat_1 add.commute)
  qed
  then have "length ?d - unat (1 + of_nat ?R :: u32) * 4 = data_end n kvs"
    by (simp add: block_bytes_length)
  note stop = this
  have ok: "\<not> length ?d < 4" "\<not> unat (of_nat ?R :: u32) > (length ?d - 4) div 4"
  proof -
    show "\<not> length ?d < 4" unfolding block_bytes_length by linarith
    have "length ?d - 4 = data_end n kvs + 4 * ?R" unfolding block_bytes_length by linarith
    then have "(length ?d - 4) div 4 = ?R + data_end n kvs div 4" by (simp only: div_mult_self2)
    then show "\<not> unat (of_nat ?R :: u32) > (length ?d - 4) div 4" unfolding sizes(5) by linarith
  qed
  have "new_block ?d = \<lparr>b_data = ?d, b_size = length ?d, b_restart_offset = of_nat (data_end n kvs)\<rparr>"
    unfolding new_block_def Let_def num if_not_P [OF ok(1)] if_not_P [OF ok(2)] stop by simp
  then show ?thesis
    using R num ok(1) by (simp add: NewIterator_def)
qed

definition iter_on :: "nat \<Rightarrow> entry list \<Rightarrow> block_iter \<Rightarrow> bool" where
  "iter_on n kvs it \<longleftrightarrow>
     it_data it = block_bytes n kvs \<and> it_restarts it = of_nat (data_end n kvs) \<and>
     it_num_restarts it = of_nat (restart_count n (length kvs)) \<and> \<not> overread it \<and> it_status it = OK"

lemma concat_fixed_nth:
  "j < length rs \<Longrightarrow> DecodeFixed32 (drop (4 * j) (concat (map EncodeFixed32 rs) @ xs)) = rs ! j"
proof (induction rs arbitrary: j)
  case (Cons r rs)
  then show ?case by (cases j) simp_all
qed simp

lemma GetRestartPoint_off:
  assumes "iter_on n kvs it" and "small_block n kvs" and "j < restart_count n (length kvs)"
  shows "GetRestartPoint it (of_nat j) = of_nat (off n kvs (j * n))"
proof -
  have "unat (of_nat j :: u32) = j"
    using assms(3) small_block_sizes(3) [OF assms(2)] by (simp add: unsigned_of_nat take_bit_nat_eq_self)
  moreover have "drop (data_end n kvs + j * 4) (block_bytes n kvs) =
      drop (4 * j) (concat (map EncodeFixed32 (restart_offsets n kvs)) @ EncodeFixed32 (of_nat (restart_count n (length kvs))))"
    by (simp add: block_bytes_def data_end_def mult.commute)
  ultimately show ?thesis
    using assms small_block_sizes(4) [OF assms(2)] concat_fixed_nth [of j "restart_offsets n kvs"]
    by (simp add: GetRestartPoint_def iter_on_def restart_offsets_def)
qed

text \<open>\<open>DecodeEntry\<close>'s fast path is only a short cut.\<close>

definition decode_values :: "u8 list \<Rightarrow> (u32 \<times> u32 \<times> u32 \<times> u8 list) option" where
  "decode_values s =
     (case GetVarint32Ptr s of None \<Rightarrow> None
      | Some (a, s) \<Rightarrow> (case GetVarint32Ptr s of None \<Rightarrow> None
      | Some (b, s) \<Rightarrow> (case GetVarint32Ptr s of None \<Rightarrow> None
      | Some (c, s) \<Rightarrow> Some (a, b, c, s))))"

lemma or_less_128: "a OR b < 128 \<longleftrightarrow> a < 128 \<and> b < 128" for a b :: u32
proof -
  have t: "x < 128 \<longleftrightarrow> take_bit 7 x = x" for x :: u32
  proof
    assume "x < 128"
    then show "take_bit 7 x = x"
      by (intro word_unat_eq_iff [THEN iffD2]) (simp add: unat_take_bit word_less_nat_alt)
  next
    assume *: "take_bit 7 x = x"
    have "unat (take_bit 7 x) < 128" by (simp add: unat_take_bit)
    then show "x < 128" unfolding * by (simp add: word_less_nat_alt)
  qed
  show ?thesis
    unfolding t by (auto simp: bit_eq_iff bit_simps)
qed

lemma GetVarint32Ptr_small: "(ucast c :: u32) < 128 \<Longrightarrow> GetVarint32Ptr (c # s) = Some (ucast c, s)"
proof -
  assume "(ucast c :: u32) < 128"
  then have "unat c < 128" by (simp add: word_less_nat_alt unat_ucast_up_simp)
  then have "c = take_bit 7 c" by (intro word_unat_eq_iff [THEN iffD2]) (simp add: unat_take_bit)
  then have "\<not> bit c 7" by (metis bit_take_bit_iff less_irrefl)
  then have "(ucast c AND 128 :: u32) = 0"
    using and_80_0 [of "ucast c :: u32"] by (simp add: bit_simps)
  then show ?thesis by (simp add: GetVarint32Ptr_def)
qed

lemma DecodeEntry_values:
  assumes "p + 3 \<le> limit" and "limit \<le> length data"
  shows "DecodeEntry data p limit =
    (case decode_values (take (limit - p) (drop p data)) of
       None \<Rightarrow> None
     | Some (a, b, c, s) \<Rightarrow> if (of_nat (length s) :: u32) < b + c then None else Some (a, b, c, limit - length s))"
proof -
  let ?s = "take (limit - p) (drop p data)"
  have "3 \<le> length ?s" using assms by simp
  then obtain x y z s where s: "?s = x # y # z # s"
    by (metis One_nat_def Suc_le_length_iff numeral_3_eq_3)
  have fast: "decode_values ?s = Some (ucast x, ucast y, ucast z, s)"
    if "(ucast x OR ucast y OR ucast z :: u32) < 128"
    using that unfolding or_less_128 s by (simp add: decode_values_def GetVarint32Ptr_small)
  have "\<not> int limit - int p < 3" using assms by simp
  then show ?thesis
    using fast by (simp add: DecodeEntry_def decode_values_def Let_def s split: option.splits)
qed

lemma entries_split:
  "i < length kvs \<Longrightarrow> \<exists>xs. entries n kvs (length kvs) = entries n kvs i @ entry_bytes (shared_at n kvs i) (kvs ! i) @ xs"
proof (induction "length kvs - Suc i" arbitrary: i)
  case 0
  then have "length kvs = Suc i" by simp
  then show ?case by (simp add: exI [of _ "[]"])
next
  case (Suc d)
  then have "d = length kvs - Suc (Suc i)" "Suc i < length kvs" by simp_all
  then show ?case using Suc.hyps(1) [of "Suc i"] by auto
qed

lemma DecodeEntry_at:
  assumes "small_block n kvs" and i: "i < length kvs" and kv: "kvs ! i = (key, value)"
  shows "\<exists>p. DecodeEntry (block_bytes n kvs) (off n kvs i) (data_end n kvs) =
      Some (of_nat (shared_at n kvs i), of_nat (length key - shared_at n kvs i), of_nat (length value), p) \<and>
    drop p (block_bytes n kvs) = drop (shared_at n kvs i) key @ value @ drop (off n kvs (Suc i)) (block_bytes n kvs) \<and>
    p + (length key - shared_at n kvs i) + length value = off n kvs (Suc i)"
proof -
  let ?s = "shared_at n kvs i" and ?d = "block_bytes n kvs"
  obtain xs where xs: "entries n kvs (length kvs) = entries n kvs i @ entry_bytes ?s (kvs ! i) @ xs"
    using entries_split [OF i] by blast
  let ?h = "EncodeVarint32 (of_nat ?s) @ EncodeVarint32 (of_nat (length key - ?s)) @ EncodeVarint32 (of_nat (length value))"
  have tail: "take (data_end n kvs - off n kvs i) (drop (off n kvs i) ?d) = ?h @ drop ?s key @ value @ xs"
    by (simp add: block_bytes_def data_end_def xs entry_bytes_def kv)
  have nz: "1 \<le> length (EncodeVarint32 v)" for v
    by (simp add: EncodeVarint32_bytes Suc_le_eq)
  have "3 \<le> length ?h"
    using nz [of "of_nat ?s"] nz [of "of_nat (length key - ?s)"] nz [of "of_nat (length value)"]
    unfolding length_append by linarith
  then have room: "off n kvs i + 3 \<le> data_end n kvs" "data_end n kvs \<le> length ?d"
    using xs by (simp_all add: data_end_def entry_bytes_def kv block_bytes_length)
  have vals: "decode_values (?h @ drop ?s key @ value @ xs) =
      Some (of_nat ?s, of_nat (length key - ?s), of_nat (length value), drop ?s key @ value @ xs)"
    by (simp add: decode_values_def GetVarint32Ptr_EncodeVarint32)
  have small: "length (drop ?s key @ value @ xs) < 2 ^ 32"
    using small_block_sizes(2) [OF assms(1)] xs by (simp add: data_end_def entry_bytes_def kv)
  then have fits: "\<not> (of_nat (length (drop ?s key @ value @ xs)) :: u32) <
      of_nat (length key - ?s) + of_nat (length value)"
    unfolding of_nat_add [symmetric] word_less_nat_alt by (simp add: unsigned_of_nat take_bit_nat_eq_self del: of_nat_add)
  let ?p = "data_end n kvs - length (drop ?s key @ value @ xs)"
  have p: "?p = off n kvs i + length ?h"
    by (simp add: data_end_def xs entry_bytes_def kv)
  have off: "off n kvs (Suc i) = ?p + (length key - ?s) + length value"
    unfolding p by (simp add: entry_bytes_def kv)
  have data: "?d = entries n kvs i @ ?h @ drop ?s key @ value @ drop (off n kvs (Suc i)) ?d"
    by (simp add: block_bytes_def xs entry_bytes_def kv)
  have "drop ?p ?d = drop ?s key @ value @ drop (off n kvs (Suc i)) ?d"
    unfolding p by (subst data) simp
  moreover have "DecodeEntry ?d (off n kvs i) (data_end n kvs) =
      Some (of_nat ?s, of_nat (length key - ?s), of_nat (length value), ?p)"
    unfolding DecodeEntry_values [OF room] tail vals using fits by simp
  ultimately show ?thesis
    using off by (intro exI [of _ ?p]) simp
qed

section \<open>Moving the iterator\<close>

text \<open>The iterator is ready to parse entry \<open>i\<close>; the iterator is on entry \<open>i\<close>.\<close>

definition ready_for :: "nat \<Rightarrow> entry list \<Rightarrow> nat \<Rightarrow> block_iter \<Rightarrow> bool" where
  "ready_for n kvs i it \<longleftrightarrow>
     iter_on n kvs it \<and> NextEntryOffset it = of_nat (off n kvs i) \<and>
     (i < length kvs \<longrightarrow>
        shared_at n kvs i \<le> length (it_key it) \<and>
        take (shared_at n kvs i) (it_key it) = take (shared_at n kvs i) (fst (kvs ! i)))"

definition at_entry :: "nat \<Rightarrow> entry list \<Rightarrow> nat \<Rightarrow> block_iter \<Rightarrow> bool" where
  "at_entry n kvs i it \<longleftrightarrow>
     i < length kvs \<and> iter_on n kvs it \<and> it_current it = of_nat (off n kvs i) \<and>
     it_key it = fst (kvs ! i) \<and> value_slice it = snd (kvs ! i) \<and>
     NextEntryOffset it = of_nat (off n kvs (Suc i))"

lemma off_le_end: "i \<le> length kvs \<Longrightarrow> off n kvs i \<le> data_end n kvs"
  by (simp add: data_end_def off_mono)

lemma off_less: "off n kvs i < off n kvs (Suc i)"
  by (cases "kvs ! i") (simp add: entry_bytes_def EncodeVarint32_bytes)

lemma unat_off:
  assumes "small_block n kvs" and "i \<le> length kvs"
  shows "unat (of_nat (off n kvs i) :: u32) = off n kvs i"
proof -
  have "off n kvs i < 2 ^ 32"
    using off_le_end [OF assms(2), of n] small_block_sizes(2) [OF assms(1)] by linarith
  then show ?thesis by (simp add: unsigned_of_nat take_bit_nat_eq_self)
qed

lemma at_entry_Valid:
  assumes "small_block n kvs" and "at_entry n kvs i it"
  shows "it_Valid it"
proof -
  have i: "i < length kvs" and it: "it_current it = of_nat (off n kvs i)" "it_restarts it = of_nat (data_end n kvs)"
    using assms(2) by (simp_all add: at_entry_def iter_on_def)
  have "off n kvs i < data_end n kvs"
    using off_less [of n kvs i] off_le_end [of "Suc i" kvs n] i by linarith
  then show ?thesis
    using unat_off [OF assms(1), of i] small_block_sizes(4) [OF assms(1)] i
    unfolding it_Valid_def it word_less_nat_alt by simp
qed

lemma at_entry_ready: "at_entry n kvs i it \<Longrightarrow> ready_for n kvs (Suc i) it"
  using common_prefix_take [of "fst (kvs ! i)" "fst (kvs ! Suc i)"]
  by (simp add: at_entry_def ready_for_def shared_at_def common_prefix_le del: entries.simps)

lemma key_le_off: "i < length kvs \<Longrightarrow> length (fst (kvs ! i)) \<le> off n kvs (Suc i)"
proof (induction i)
  case (Suc i)
  have "shared_at n kvs (Suc i) \<le> length (fst (kvs ! i))"
    by (simp add: shared_at_def common_prefix_le)
  also have "\<dots> \<le> off n kvs (Suc i)" using Suc by simp
  finally show ?case
    by (cases "kvs ! Suc i") (simp add: entry_bytes_def)
qed (cases "kvs ! 0"; simp add: entry_bytes_def shared_at_def)

lemma SeekToRestartPoint_ready:
  assumes "iter_on n kvs it" and "small_block n kvs" and "j < restart_count n (length kvs)" and "j * n \<le> length kvs"
  shows "ready_for n kvs (j * n) (SeekToRestartPoint (of_nat j) it)"
  using assms(1) GetRestartPoint_off [OF assms(1-3)] unat_off [OF assms(2,4)]
  by (simp add: ready_for_def iter_on_def SeekToRestartPoint_def NextEntryOffset_def shared_at_def Let_def del: unat_of_nat)

lemma ParseNextKey_ready:
  assumes small: "small_block n kvs" and le: "i \<le> length kvs" and ready: "ready_for n kvs i it"
  shows "if i < length kvs then \<exists>it'. ParseNextKey it = (True, it') \<and> at_entry n kvs i it'
    else \<exists>it'. ParseNextKey it = (False, it') \<and> iter_on n kvs it' \<and> \<not> it_Valid it'"
proof -
  have it: "it_data it = block_bytes n kvs" "it_restarts it = of_nat (data_end n kvs)"
      "it_num_restarts it = of_nat (restart_count n (length kvs))" "\<not> overread it" "it_status it = OK"
    and n: "NextEntryOffset it = of_nat (off n kvs i)"
    using ready by (simp_all add: ready_for_def iter_on_def)
  note un = unat_off [OF small le] small_block_sizes(4) [OF small]
  show ?thesis
  proof (cases "i < length kvs")
    case False
    then have "i = length kvs" using le by simp
    then have "unat (of_nat (off n kvs i) :: u32) = data_end n kvs"
      using un by (simp only: data_end_def)
    then show ?thesis
      using False it n un(2)
      by (simp add: ParseNextKey_def Let_def iter_on_def it_Valid_def del: unat_of_nat)
  next
    case True
    obtain key val where kv: "kvs ! i = (key, val)" by fastforce
    let ?s = "shared_at n kvs i"
    obtain p where p: "DecodeEntry (block_bytes n kvs) (off n kvs i) (data_end n kvs) =
        Some (of_nat ?s, of_nat (length key - ?s), of_nat (length val), p)"
      "drop p (block_bytes n kvs) = drop ?s key @ val @ drop (off n kvs (Suc i)) (block_bytes n kvs)"
      "p + (length key - ?s) + length val = off n kvs (Suc i)"
      using DecodeEntry_at [OF small True kv] by blast
    have sk: "?s \<le> length key" using shared_at_le(1) [of n kvs i] by (simp add: kv)
    have bound: "off n kvs (Suc i) < 2 ^ 32"
      using off_le_end [of "Suc i" kvs n] small_block_sizes(2) [OF small] True by linarith
    have key: "length key < 2 ^ 32" "?s < 2 ^ 32" "length key - ?s < 2 ^ 32" "length val < 2 ^ 32"
      using key_le_off [OF True, of n] bound sk p(3) by (simp_all add: kv del: entries.simps)
    have u: "unat (of_nat ?s :: u32) = ?s" "unat (of_nat (length key - ?s) :: u32) = length key - ?s"
      "unat (of_nat (length val) :: u32) = length val"
      using key(2-4) by (simp_all add: unsigned_of_nat take_bit_nat_eq_self)
    have r: "?s \<le> length (it_key it)" "take ?s (it_key it) = take ?s key"
      using ready True by (simp_all add: ready_for_def kv)
    have lim: "\<not> off n kvs i \<ge> data_end n kvs"
      using off_less [of n kvs i] off_le_end [of "Suc i" kvs n] True by linarith
    let ?it = "it\<lparr>it_current := of_nat (off n kvs i), it_key := key, it_value := (p + (length key - ?s), length val), overread := False\<rparr>"
    have take: "take (length key - ?s) (drop p (block_bytes n kvs)) = drop ?s key"
      "take (length val) (drop (p + (length key - ?s)) (block_bytes n kvs)) = val"
    proof -
      have *: "drop (p + (length key - ?s)) (block_bytes n kvs) = drop (length key - ?s) (drop p (block_bytes n kvs))"
        by (simp add: add.commute)
      show "take (length key - ?s) (drop p (block_bytes n kvs)) = drop ?s key"
        "take (length val) (drop (p + (length key - ?s)) (block_bytes n kvs)) = val"
        unfolding * p(2) by simp_all
    qed
    have inside: "\<not> p + (length key - ?s) > length (block_bytes n kvs)"
      using p(3) off_le_end [of "Suc i" kvs n] True block_bytes_length [of n kvs] by linarith
    define m where "m = length key - ?s"
    have "ParseNextKey it = (True, ?it\<lparr>it_restart_index := advance_restart ?it (it_restart_index it)\<rparr>)"
      using r it(4) lim sk inside take(1) u p(1)
      unfolding ParseNextKey_def n Let_def m_def [symmetric]
      by (simp add: it un append_take_drop_id del: unat_of_nat entries.simps)
    moreover have "at_entry n kvs i (?it\<lparr>it_restart_index := k\<rparr>)" for k
      using True it take(2) p(3)
      by (simp add: at_entry_def iter_on_def kv value_slice_def NextEntryOffset_def del: entries.simps)
        (simp only: of_nat_add [symmetric] add.assoc [symmetric])
    ultimately show ?thesis
      using True by simp
  qed
qed

section \<open>Scanning and seeking\<close>

text \<open>The entries from the current one on, by \<open>Valid\<close>, \<open>key\<close>, \<open>value\<close> and \<open>Next\<close>.\<close>

primrec scan :: "nat \<Rightarrow> block_iter \<Rightarrow> entry list" where
  "scan 0 it = []"
| "scan (Suc k) it = (if it_Valid it then (it_key it, value_slice it) # scan k (it_Next it) else [])"

lemma scan_at:
  assumes "small_block n kvs"
  shows "at_entry n kvs i it \<Longrightarrow> length kvs - i < k \<Longrightarrow> scan k it = drop i kvs"
proof (induction "length kvs - i" arbitrary: i it k)
  case 0
  then show ?case by (simp add: at_entry_def)
next
  case (Suc d)
  obtain k' where k: "k = Suc k'" using Suc.prems(2) by (cases k) auto
  have i: "i < length kvs" using Suc.prems(1) by (simp add: at_entry_def)
  have "ready_for n kvs (Suc i) it" by (rule at_entry_ready [OF Suc.prems(1)])
  note step = ParseNextKey_ready [OF assms Suc_leI [OF i] this]
  have "scan k' (it_Next it) = drop (Suc i) kvs"
  proof (cases "Suc i < length kvs")
    case True
    then obtain it' where "ParseNextKey it = (True, it')" "at_entry n kvs (Suc i) it'"
      using step by auto
    then show ?thesis
      using Suc.hyps(1) [of "Suc i" it' k'] Suc.hyps(2) Suc.prems(2) k by (simp add: it_Next_def)
  next
    case False
    then obtain it' where "ParseNextKey it = (False, it')" "\<not> it_Valid it'"
      using step by auto
    then show ?thesis
      using False by (cases k') (simp_all add: it_Next_def)
  qed
  then show ?case
    using at_entry_Valid [OF assms Suc.prems(1)] Suc.prems(1) i
    by (simp add: k at_entry_def Cons_nth_drop_Suc [symmetric])
qed

lemma SeekToRestartPoint_iter: "iter_on n kvs it \<Longrightarrow> iter_on n kvs (SeekToRestartPoint j it)"
  by (simp add: iter_on_def SeekToRestartPoint_def Let_def)

lemma restart_index_le: "j < restart_count n (length kvs) \<Longrightarrow> j * n \<le> length kvs"
  and restart_index_less: "0 < j \<Longrightarrow> j < restart_count n (length kvs) \<Longrightarrow> j * n < length kvs"
proof -
  have *: "j * n \<le> length kvs - 1" if "j < restart_count n (length kvs)" "kvs \<noteq> []"
  proof -
    have "j \<le> (length kvs - 1) div n" using that by (simp add: restart_count_def)
    then have "j * n \<le> (length kvs - 1) div n * n" by (rule mult_le_mono1)
    also have "\<dots> \<le> length kvs - 1" by (rule div_times_less_eq_dividend)
    finally show ?thesis .
  qed
  show "j < restart_count n (length kvs) \<Longrightarrow> j * n \<le> length kvs"
    using * by (cases "kvs = []") (auto simp: restart_count_def)
  show "0 < j \<Longrightarrow> j < restart_count n (length kvs) \<Longrightarrow> j * n < length kvs"
  proof -
    assume j: "0 < j" "j < restart_count n (length kvs)"
    then have "kvs \<noteq> []" by (auto simp: restart_count_def)
    then show "j * n < length kvs"
      using * [OF j(2)] length_greater_0_conv [of kvs] by linarith
  qed
qed

text \<open>The iterator at the \<open>i\<close>-th entry, or past the last one.\<close>

definition pos_at :: "nat \<Rightarrow> entry list \<Rightarrow> nat \<Rightarrow> block_iter \<Rightarrow> bool" where
  "pos_at n kvs i it \<longleftrightarrow> (if i < length kvs then at_entry n kvs i it else iter_on n kvs it \<and> \<not> it_Valid it)"

lemma ParseNextKey_pos:
  assumes "small_block n kvs" and "i \<le> length kvs" and "ready_for n kvs i it"
  shows "\<exists>it'. ParseNextKey it = (i < length kvs, it') \<and> pos_at n kvs i it'"
  using ParseNextKey_ready [OF assms] by (auto simp: pos_at_def split: if_splits)

lemma scan_pos:
  assumes "small_block n kvs" and "pos_at n kvs i it" and "length kvs - i < k"
  shows "scan k it = drop i kvs"
proof (cases "i < length kvs")
  case True
  then show ?thesis using scan_at [OF assms(1) _ assms(3)] assms(2) by (simp add: pos_at_def)
next
  case False
  then show ?thesis using assms(2) by (cases k) (simp_all add: pos_at_def)
qed

lemma SeekToFirst_pos: "small_block n kvs \<Longrightarrow> iter_on n kvs it \<Longrightarrow> pos_at n kvs 0 (SeekToFirst it)"
  using ParseNextKey_pos [of n kvs 0 "SeekToRestartPoint 0 it"] SeekToRestartPoint_ready [of n kvs it 0] restart_count_pos
  by (auto simp: SeekToFirst_def)

lemma it_Next_pos: "small_block n kvs \<Longrightarrow> at_entry n kvs i it \<Longrightarrow> pos_at n kvs (Suc i) (it_Next it)"
  using ParseNextKey_pos [of n kvs "Suc i" it] at_entry_ready [of n kvs i it]
  by (auto simp: it_Next_def at_entry_def Suc_le_eq)

lemma scan_first:
  assumes "small_block n kvs" and "iter_on n kvs it"
  shows "scan (Suc (length kvs)) (SeekToFirst it) = kvs"
  using scan_pos [OF assms(1) SeekToFirst_pos [OF assms]] by (simp del: scan.simps)

lemma parse_while_pos:
  assumes "small_block n kvs"
  shows "ready_for n kvs i it \<Longrightarrow> i \<le> length kvs \<Longrightarrow>
    \<exists>it'. parse_while (\<lambda>it. P (it_key it)) it = Some it' \<and>
      pos_at n kvs (i + length (takeWhile (\<lambda>kv. P (fst kv)) (drop i kvs))) it'"
proof (induction "length kvs - i" arbitrary: i it)
  case 0
  then obtain it' where "ParseNextKey it = (False, it')" "pos_at n kvs i it'"
    using ParseNextKey_pos [OF assms 0(3,2)] by auto
  then show ?case using 0 by (simp add: parse_while.simps [of _ it])
next
  case (Suc d)
  then have i: "i < length kvs" by simp
  then obtain it1 where it1: "ParseNextKey it = (True, it1)" "at_entry n kvs i it1"
    using ParseNextKey_ready [OF assms Suc.prems(2,1)] by auto
  have key: "it_key it1 = fst (kvs ! i)" using it1(2) by (simp add: at_entry_def)
  have drop: "drop i kvs = kvs ! i # drop (Suc i) kvs" using i by (simp add: Cons_nth_drop_Suc)
  show ?case
  proof (cases "P (fst (kvs ! i))")
    case True
    then show ?thesis
      using Suc.hyps(1) [of "Suc i" it1] Suc.hyps(2) at_entry_ready [OF it1(2)] it1(1) key i
      by (simp add: parse_while.simps [of _ it] drop)
  next
    case False
    then show ?thesis
      using it1 key i by (simp add: parse_while.simps [of _ it] drop pos_at_def)
  qed
qed

text \<open>The binary search ends at a restart point all of whose predecessors are below the key.\<close>

lemma seek_restart_at:
  assumes small: "small_block n kvs" and it: "iter_on n kvs it"
  shows "l \<le> r \<Longrightarrow> r < restart_count n (length kvs) \<Longrightarrow> (l = 0 \<or> cmp (fst (kvs ! (l * n))) key < 0) \<Longrightarrow>
    \<exists>j. seek_restart cmp key it (of_nat l) (of_nat r) = Some (Some (of_nat j)) \<and>
      j < restart_count n (length kvs) \<and> (j = 0 \<or> cmp (fst (kvs ! (j * n))) key < 0)"
proof (induction "r - l" arbitrary: l r rule: less_induct)
  case less
  let ?R = "restart_count n (length kvs)"
  have R: "4 * ?R + 4 < 2 ^ 32" using small_block_sizes(3) [OF small] .
  have u: "unat (of_nat l :: u32) = l" "unat (of_nat r :: u32) = r"
    using less.prems(1,2) R by (simp_all add: unsigned_of_nat take_bit_nat_eq_self)
  show ?case
  proof (cases "l < r")
    case False
    then show ?thesis
      using less.prems u by (intro exI [of _ l]) (subst seek_restart.simps, simp)
  next
    case True
    define mid where "mid = (l + r + 1) div 2"
    have mid: "l < mid" "mid \<le> r" "mid < ?R" "0 < mid"
      using True less.prems(2) by (auto simp: mid_def)
    have sum: "unat (of_nat l + of_nat r + 1 :: u32) = l + r + 1"
    proof -
      have "l + r + 1 < 2 ^ 32" using less.prems(1,2) R by linarith
      then have "unat (of_nat (l + r + 1) :: u32) = l + r + 1"
        by (simp add: unsigned_of_nat take_bit_nat_eq_self del: of_nat_add of_nat_Suc)
      then show ?thesis by (simp add: ac_simps)
    qed
    have um: "unat (of_nat mid :: u32) = mid"
      using mid(3) R by (simp add: unsigned_of_nat take_bit_nat_eq_self)
    have "unat ((of_nat l + of_nat r + 1 :: u32) div 2) = mid"
      by (subst unat_div) (simp only: sum mid_def, simp)
    then have m32: "(of_nat l + of_nat r + 1 :: u32) div 2 = of_nat mid"
      using um by (simp only: word_unat_eq_iff)
    have i: "mid * n < length kvs" by (rule restart_index_less [OF mid(4,3)])
    obtain k val where kv: "kvs ! (mid * n) = (k, val)" by fastforce
    have s0: "shared_at n kvs (mid * n) = 0" by (simp add: shared_at_def)
    obtain p where p: "DecodeEntry (block_bytes n kvs) (off n kvs (mid * n)) (data_end n kvs) =
        Some (0, of_nat (length k), of_nat (length val), p)"
      "drop p (block_bytes n kvs) = k @ val @ drop (off n kvs (Suc (mid * n))) (block_bytes n kvs)"
      using DecodeEntry_at [OF small i kv] unfolding s0 by auto
    have off: "unat (GetRestartPoint it (of_nat mid)) = off n kvs (mid * n)"
      unfolding GetRestartPoint_off [OF it small mid(3)] by (rule unat_off [OF small]) (use i in simp)
    have lk: "unat (of_nat (length k) :: u32) = length k"
    proof -
      have "length k < 2 ^ 32"
        using key_le_off [OF i, of n] off_le_end [of "Suc (mid * n)" kvs n] small_block_sizes(2) [OF small] i kv
        by (simp del: entries.simps)
      then show ?thesis by (simp add: unsigned_of_nat take_bit_nat_eq_self)
    qed
    have lim: "unat (it_restarts it) = data_end n kvs" "it_data it = block_bytes n kvs"
      using it small_block_sizes(4) [OF small] by (simp_all add: iter_on_def)
    have lr: "(of_nat l :: u32) < of_nat r" using True unfolding word_less_nat_alt u .
    have m1: "(of_nat mid - 1 :: u32) = of_nat (mid - 1)" using mid(4) by (simp add: of_nat_diff)
    have run: "seek_restart cmp key it (of_nat l) (of_nat r) =
        (if cmp k key < 0 then seek_restart cmp key it (of_nat mid) (of_nat r)
         else seek_restart cmp key it (of_nat l) (of_nat (mid - 1)))"
      using p(2) lk m1 by (subst seek_restart.simps) (simp add: lr Let_def m32 off lim p(1))
    show ?thesis
    proof (cases "cmp k key < 0")
      case True
      have "r - mid < r - l" using mid by linarith
      from less.hyps [OF this mid(2) less.prems(2)] True kv run show ?thesis by simp
    next
      case False
      have "mid - 1 - l < r - l" "l \<le> mid - 1" "mid - 1 < ?R" using mid by linarith+
      from less.hyps [OF this less.prems(3)] False run show ?thesis by simp
    qed
  qed
qed

context comparator
begin

lemma seek_pos:
  assumes small: "small_block n kvs" and it: "iter_on n kvs it"
    and valid: "list_all (\<lambda>kv. valid (fst kv)) kvs" "valid key"
    and sorted: "sorted_wrt (\<lambda>a b. cmp (fst a) (fst b) < 0) kvs"
  shows "\<exists>it'. it_Seek cmp key it = Some it' \<and> pos_at n kvs (length (takeWhile (\<lambda>kv. cmp (fst kv) key < 0) kvs)) it'"
proof -
  let ?R = "restart_count n (length kvs)"
  have num: "it_num_restarts it - 1 = of_nat (?R - 1)"
    using it restart_count_pos [of n "length kvs"] by (simp add: iter_on_def of_nat_diff Suc_leI)
  obtain j where j: "seek_restart cmp key it 0 (it_num_restarts it - 1) = Some (Some (of_nat j))" "j < ?R"
      "j = 0 \<or> cmp (fst (kvs ! (j * n))) key < 0"
    using seek_restart_at [OF small it, of 0 "?R - 1" cmp key] restart_count_pos [of n "length kvs"] num by auto
  have le: "j * n \<le> length kvs" by (rule restart_index_le [OF j(2)])
  obtain it' where it': "parse_while (\<lambda>it. cmp (it_key it) key < 0) (SeekToRestartPoint (of_nat j) it) = Some it'"
      "pos_at n kvs (j * n + length (takeWhile (\<lambda>kv. cmp (fst kv) key < 0) (drop (j * n) kvs))) it'"
    using parse_while_pos [OF small SeekToRestartPoint_ready [OF it small j(2) le] le, of "\<lambda>k. cmp k key < 0"] by blast
  have before: "cmp (fst kv) key < 0" if kv: "kv \<in> set (take (j * n) kvs)" for kv
  proof -
    obtain i where i: "i < j * n" "i < length kvs" "kv = kvs ! i"
      using kv by (auto simp: in_set_conv_nth)
    then have "0 < j" by (cases j) auto
    then have jn: "j * n < length kvs" using restart_index_less j(2) by blast
    have "cmp (fst (kvs ! i)) (fst (kvs ! (j * n))) < 0"
      using sorted i(1) jn by (auto simp: sorted_wrt_iff_nth_less)
    then show ?thesis
      using j(3) \<open>0 < j\<close> cmp_trans [of "fst kv" "fst (kvs ! (j * n))" key] valid i jn
      by (auto simp: list_all_length)
  qed
  have "takeWhile (\<lambda>kv. cmp (fst kv) key < 0) (take (j * n) kvs @ drop (j * n) kvs) =
      take (j * n) kvs @ takeWhile (\<lambda>kv. cmp (fst kv) key < 0) (drop (j * n) kvs)"
    using before by (rule takeWhile_append2)
  then show ?thesis
    using it' j(1) le by (simp add: it_Seek_def)
qed

lemma seek_scan:
  assumes "small_block n kvs" and "iter_on n kvs it"
    and "list_all (\<lambda>kv. valid (fst kv)) kvs" "valid key"
    and "sorted_wrt (\<lambda>a b. cmp (fst a) (fst b) < 0) kvs"
  shows "\<exists>it'. it_Seek cmp key it = Some it' \<and>
    scan (Suc (length kvs)) it' = dropWhile (\<lambda>kv. cmp (fst kv) key < 0) kvs"
  using seek_pos [OF assms] scan_pos [OF assms(1)]
  by (fastforce simp: dropWhile_eq_drop simp del: scan.simps)

end

lemma new_iter_on: "iter_on n kvs (new_iter (block_bytes n kvs) (of_nat (data_end n kvs)) (of_nat (restart_count n (length kvs))))"
  by (simp add: iter_on_def new_iter_def)

section \<open>Properties\<close>

text \<open>
  C20. A block gives back what was put into it: for any list of entries and any restart interval, the
  iterator on the finished block finds exactly these entries in this order, with no error and no
  access outside the block, as long as the block is smaller than 4 GB.
\<close>

theorem ldb_block_roundtrip:
  assumes "0 < n" and "length (fst (bb_Finish (build n kvs))) < 2 ^ 32"
  shows "\<exists>it. NewIterator (new_block (fst (bb_Finish (build n kvs)))) = BlockIterator it \<and>
    scan (Suc (length kvs)) (SeekToFirst it) = kvs"
proof -
  have small: "small_block n kvs"
    using assms by (simp add: small_block_def build_bytes)
  then show ?thesis
    using new_block_bytes [OF small] scan_first [OF small new_iter_on] by (simp add: build_bytes assms(1))
qed

theorem ldb_block_roundtrip_witness:
  "\<exists>it. NewIterator (new_block (fst (bb_Finish (build 2 [([1, 2], [7]), ([1, 3], []), ([2], [8])])))) = BlockIterator it \<and>
    scan (Suc (length [([1 :: u8, 2], [7 :: u8]), ([1, 3], []), ([2], [8])])) (SeekToFirst it) =
      [([1, 2], [7]), ([1, 3], []), ([2], [8])]"
proof (rule ldb_block_roundtrip)
  have "length (fst (bb_Finish (build 2 [([1, 2], [7]), ([1, 3], []), ([2], [8])]))) = 27"
    by (simp add: build_def bb_Add_def new_block_builder_def Let_def PutVarint32_def EncodeVarint32_def bb_Finish_def
        PutFixed32_def)
  then show "length (fst (bb_Finish (build 2 [([1, 2], [7]), ([1, 3], []), ([2], [8])]))) < 2 ^ 32"
    by simp
qed simp

text \<open>
  C21. \<open>Seek\<close> finds the first entry that is not below the key it looks for, or the end, by its binary search
  over restart points and its scan from there: the entries from it on are those left when all entries
  below the key are dropped. The keys are internal keys in strictly increasing order.
\<close>

theorem ldb_block_seek:
  assumes "0 < n" and "length (fst (bb_Finish (build n kvs))) < 2 ^ 32"
    and "list_all (\<lambda>kv. 8 \<le> length (fst kv)) kvs" and "8 \<le> length key"
    and "sorted_wrt (\<lambda>a b. InternalCompare Slice_compare (fst a) (fst b) < 0) kvs"
  shows "\<exists>it it'. NewIterator (new_block (fst (bb_Finish (build n kvs)))) = BlockIterator it \<and>
    it_Seek (InternalCompare Slice_compare) key it = Some it' \<and>
    scan (Suc (length kvs)) it' = dropWhile (\<lambda>kv. InternalCompare Slice_compare (fst kv) key < 0) kvs"
proof -
  have small: "small_block n kvs"
    using assms(1,2) by (simp add: small_block_def build_bytes)
  then show ?thesis
    using new_block_bytes [OF small] internal.seek_scan [OF small new_iter_on _ _ assms(5), of key] assms(3,4)
    by (simp add: build_bytes assms(1) internal_key_def)
qed

theorem ldb_block_seek_witness:
  "let kvs = [([97, 1, 5, 0, 0, 0, 0, 0, 0], [7]), ([97, 1, 4, 0, 0, 0, 0, 0, 0], []), ([98, 1, 3, 0, 0, 0, 0, 0, 0], [8])];
       key = [97, 1, 4, 0, 0, 0, 0, 0, 0]
   in \<exists>it it'. NewIterator (new_block (fst (bb_Finish (build 2 kvs)))) = BlockIterator it \<and>
    it_Seek (InternalCompare Slice_compare) key it = Some it' \<and>
    scan (Suc (length kvs)) it' = dropWhile (\<lambda>kv. InternalCompare Slice_compare (fst kv) key < 0) kvs"
  unfolding Let_def
proof (rule ldb_block_seek)
  have "length (fst (bb_Finish (build 2 [([97, 1, 5, 0, 0, 0, 0, 0, 0], [7]), ([97, 1, 4, 0, 0, 0, 0, 0, 0], []),
      ([98, 1, 3, 0, 0, 0, 0, 0, 0], [8])]))) = 48"
    by (simp add: build_def bb_Add_def new_block_builder_def Let_def PutVarint32_def EncodeVarint32_def bb_Finish_def
        PutFixed32_def)
  then show "length (fst (bb_Finish (build 2 [([97, 1, 5, 0, 0, 0, 0, 0, 0], [7]), ([97, 1, 4, 0, 0, 0, 0, 0, 0], []),
      ([98, 1, 3, 0, 0, 0, 0, 0, 0], [8])]))) < 2 ^ 32"
    by simp
qed (simp_all add: InternalCompare_def ExtractUserKey_def Slice_compare_simps Let_def DecodeFixed64_def)

text \<open>An entry at any place of a block, whatever lengths it announces.\<close>

lemma DecodeEntry_lengths:
  fixes pre rest restarts :: "u8 list" and shared non_shared value_length :: u32
  defines "header \<equiv> EncodeVarint32 shared @ EncodeVarint32 non_shared @ EncodeVarint32 value_length"
  assumes "length rest < 2 ^ 32"
  shows "DecodeEntry (pre @ header @ rest @ restarts) (length pre) (length (pre @ header @ rest)) =
    (if (unat non_shared + unat value_length) mod 2 ^ 32 \<le> length rest
     then Some (shared, non_shared, value_length, length (pre @ header)) else None)"
proof -
  have nz: "1 \<le> length (EncodeVarint32 v)" for v
    by (simp add: EncodeVarint32_bytes Suc_le_eq)
  have "3 \<le> length header"
    using nz [of shared] nz [of non_shared] nz [of value_length] unfolding header_def length_append by linarith
  then have room: "length pre + 3 \<le> length (pre @ header @ rest)"
      "length (pre @ header @ rest) \<le> length (pre @ header @ rest @ restarts)"
    by simp_all
  have vals: "decode_values (header @ rest) = Some (shared, non_shared, value_length, rest)"
    by (simp add: header_def decode_values_def GetVarint32Ptr_EncodeVarint32)
  have fits: "(of_nat (length rest) < non_shared + value_length) =
      (length rest < (unat non_shared + unat value_length) mod 2 ^ 32)"
    using assms(2) by (simp add: word_less_nat_alt unat_word_ariths unsigned_of_nat take_bit_nat_eq_self)
  show ?thesis
    unfolding DecodeEntry_values [OF room] using vals fits by simp
qed

definition damaged_block :: "u8 list" where
  "damaged_block = [0, 255, 255, 255, 255, 15, 1, 0, 0, 0, 0, 1, 0, 0, 0]"

text \<open>
  C22. \<open>DecodeEntry\<close> adds the two lengths of an entry in 32 bits before it compares them with the bytes that
  are left. The iterator stands before an entry anywhere in a block of less than 4 GB, the entry shares with the key
  before it no more than this key has, and \<open>rest\<close> is what lies between the lengths of the entry and the restart
  array. The entry is accepted exactly if the sum of its lengths, reduced modulo
  \<open>2 ^ 32\<close>, is at most the length of \<open>rest\<close>. Then it lies in front of the restart array if the sum itself is
  below \<open>2 ^ 32\<close>; if not, its value ends behind the block, and its key is read past the end of the block
  exactly if it is longer than \<open>rest\<close> and the restart array together.
\<close>

theorem ldb_block_overread:
  assumes "it_data it = pre @ EncodeVarint32 shared @ EncodeVarint32 non_shared @ EncodeVarint32 value_length @ rest @ restarts"
    and "length (it_data it) < 2 ^ 32"
    and "it_restarts it = of_nat (length (it_data it) - length restarts)"
    and "NextEntryOffset it = of_nat (length pre)"
    and "unat shared \<le> length (it_key it)" and "\<not> overread it"
  shows "(fst (ParseNextKey it) \<longleftrightarrow> (unat non_shared + unat value_length) mod 2 ^ 32 \<le> length rest) \<and>
    (overread (snd (ParseNextKey it)) \<longleftrightarrow>
      fst (ParseNextKey it) \<and> length rest + length restarts < unat non_shared) \<and>
    (fst (ParseNextKey it) \<longrightarrow>
      (let value_end = fst (it_value (snd (ParseNextKey it))) + snd (it_value (snd (ParseNextKey it)))
       in if unat non_shared + unat value_length < 2 ^ 32 then value_end \<le> unat (it_restarts it)
          else length (it_data it) < value_end))"
proof -
  let ?h = "EncodeVarint32 shared @ EncodeVarint32 non_shared @ EncodeVarint32 value_length"
  have len: "length (it_data it) - length restarts = length (pre @ ?h @ rest)" "length (pre @ ?h @ rest) < 2 ^ 32"
      "length pre < 2 ^ 32"
    using assms(1,2) by simp_all
  have limit: "unat (it_restarts it) = length (pre @ ?h @ rest)" and p: "unat (NextEntryOffset it) = length pre"
    unfolding assms(3,4) len(1) using len(2,3)
    by (simp_all add: unsigned_of_nat take_bit_nat_eq_self del: length_append)
  have less: "\<not> length (pre @ ?h @ rest) \<le> length pre"
    by (simp add: EncodeVarint32_bytes)
  have small: "length rest < 2 ^ 32" using assms(1,2) by simp
  have dec: "DecodeEntry (it_data it) (length pre) (length (pre @ ?h @ rest)) =
      (if (unat non_shared + unat value_length) mod 2 ^ 32 \<le> length rest
       then Some (shared, non_shared, value_length, length (pre @ ?h)) else None)"
    using DecodeEntry_lengths [OF small, of pre shared non_shared value_length restarts] assms(1) by simp
  show ?thesis
  proof (cases "(unat non_shared + unat value_length) mod 2 ^ 32 \<le> length rest")
    case False
    then show ?thesis
      using dec less assms(6) by (simp add: ParseNextKey_def limit p CorruptionError_def del: length_append)
  next
    case True
    let ?p = "length (pre @ ?h)" and ?it = "snd (ParseNextKey it)"
    have dec': "DecodeEntry (it_data it) (length pre) (length (pre @ ?h @ rest)) =
        Some (shared, non_shared, value_length, ?p)"
      unfolding dec by (rule if_P [OF True])
    have parsed: "fst (ParseNextKey it)" "it_value ?it = (?p + unat non_shared, unat value_length)"
        "overread ?it \<longleftrightarrow> length (it_data it) < ?p + unat non_shared"
      using less assms(5,6) by (simp_all add: ParseNextKey_def Let_def limit p dec' del: length_append append_assoc)
    have total: "length (it_data it) = ?p + (length rest + length restarts)" "length (pre @ ?h @ rest) = ?p + length rest"
      using assms(1) by simp_all
    have "unat non_shared + unat value_length \<le> length rest" if "unat non_shared + unat value_length < 2 ^ 32"
      using True mod_less [OF that] by simp
    then show ?thesis
      using True parsed assms(2) unfolding limit total by (simp add: Let_def del: length_append)
  qed
qed

theorem ldb_block_overread_witness:
  "\<exists>it. NewIterator (new_block damaged_block) = BlockIterator it \<and> \<not> overread it \<and> overread (SeekToFirst it)"
proof -
  let ?it = "new_iter damaged_block 7 1" and ?first = "SeekToRestartPoint 0 (new_iter damaged_block 7 1)"
  have "NewIterator (new_block damaged_block) = BlockIterator ?it"
    by code_simp
  moreover have "it_data ?first = [] @ EncodeVarint32 0 @ EncodeVarint32 0xFFFFFFFF @ EncodeVarint32 1 @ [] @
      [0, 0, 0, 0, 1, 0, 0, 0]"
    by code_simp
  then have "overread (snd (ParseNextKey ?first))"
    using ldb_block_overread [of ?first "[]" 0 "0xFFFFFFFF" 1 "[]" "[0, 0, 0, 0, 1, 0, 0, 0]"]
    by (simp add: SeekToRestartPoint_def GetRestartPoint_def new_iter_def Let_def NextEntryOffset_def damaged_block_def
        DecodeFixed32_def)
  then have "overread (SeekToFirst ?it)"
    by (simp add: SeekToFirst_def)
  ultimately show ?thesis
    by (intro exI [of _ ?it]) (simp add: new_iter_def)
qed

end
