(* ===== verification/LdbSkipList.thy ===== *)
theory LdbSkipList
  imports Prelude "HOL-Library.Monad_Syntax"
begin

text \<open>
  The skip list of \<open>db/skiplist.h\<close> and the random numbers it draws (\<open>util/random.h\<close>), for one thread.
  Nodes are never freed, so the arena is the list of all nodes in the order of their creation; a
  \<open>Node*\<close> is an index into it, \<open>None\<close> for \<open>nullptr\<close>, and the head is node 0. The comparator and the
  type of the keys are parameters.

  \<open>None\<close> as the result of an operation stands for a loop that does not return and for an access C
  gives no meaning to: a link above the height of a node, or an array entry that was never set.
\<close>

section \<open>Random numbers\<close>

definition new_Random :: "u32 \<Rightarrow> u32" where
  "new_Random s = (let seed = s AND 0x7FFFFFFF in if seed = 0 \<or> seed = 2147483647 then 1 else seed)"

definition Random_Next :: "u32 \<Rightarrow> u32" where
  "Random_Next seed =
     (let M = 2147483647 :: u64; A = 16807 :: u64;
          product = ucast seed * A;
          seed = ucast (drop_bit 31 product + (product AND M)) :: u32
      in if ucast seed > M then seed - ucast M else seed)"

definition Uniform :: "nat \<Rightarrow> u32 \<Rightarrow> u32 \<times> u32" where
  "Uniform n r = (let r = Random_Next r in (r mod of_nat n, r))"

definition OneIn :: "nat \<Rightarrow> u32 \<Rightarrow> bool \<times> u32" where
  "OneIn n r = (let r = Random_Next r in (r mod of_nat n = 0, r))"

definition Skewed :: "nat \<Rightarrow> u32 \<Rightarrow> u32 \<times> u32" where
  "Skewed max_log r = (case Uniform (max_log + 1) r of (b, r) \<Rightarrow> Uniform (2 ^ unat b) r)"

section \<open>Nodes\<close>

record 'k node =
  n_key :: 'k
  n_next :: "nat option list"

record 'k skiplist =
  nodes :: "'k node list"
  max_height :: nat
  rnd :: u32

abbreviation (input) "head \<equiv> 0 :: nat"

definition kMaxHeight :: nat where
  "kMaxHeight = 12"

definition node_key :: "'k skiplist \<Rightarrow> nat \<Rightarrow> 'k" where
  "node_key sl x = n_key (nodes sl ! x)"

definition height :: "'k skiplist \<Rightarrow> nat \<Rightarrow> nat" where
  "height sl x = length (n_next (nodes sl ! x))"

definition node_Next :: "'k skiplist \<Rightarrow> nat \<Rightarrow> nat \<Rightarrow> nat option option" where
  "node_Next sl x n =
     (if x < length (nodes sl) \<and> n < height sl x then Some (n_next (nodes sl ! x) ! n) else None)"

definition SetNext :: "nat \<Rightarrow> nat \<Rightarrow> nat option \<Rightarrow> 'k skiplist \<Rightarrow> 'k skiplist option" where
  "SetNext x n v sl =
     (if x < length (nodes sl) \<and> n < height sl x
      then Some (sl\<lparr>nodes := (nodes sl)[x := (nodes sl ! x)\<lparr>n_next := (n_next (nodes sl ! x))[n := v]\<rparr>]\<rparr>)
      else None)"

text \<open>The links of a new node are set before they are read.\<close>

definition NewNode :: "'k \<Rightarrow> nat \<Rightarrow> 'k skiplist \<Rightarrow> nat \<times> 'k skiplist" where
  "NewNode key h sl =
     (length (nodes sl), sl\<lparr>nodes := nodes sl @ [\<lparr>n_key = key, n_next = replicate h None\<rparr>]\<rparr>)"

text \<open>The key of the head is never looked at.\<close>

definition new_skiplist :: "'k \<Rightarrow> 'k skiplist" where
  "new_skiplist any = snd (NewNode any kMaxHeight \<lparr>nodes = [], max_height = 1, rnd = new_Random 0xDEADBEEF\<rparr>)"

section \<open>Searching\<close>

type_synonym 'k compare = "'k \<Rightarrow> 'k \<Rightarrow> int"

definition KeyIsAfterNode :: "'k compare \<Rightarrow> 'k skiplist \<Rightarrow> 'k \<Rightarrow> nat option \<Rightarrow> bool" where
  "KeyIsAfterNode cmp sl key n = (case n of None \<Rightarrow> False | Some n \<Rightarrow> cmp (node_key sl n) key < 0)"

text \<open>\<open>prev\<close> is \<open>None\<close> for \<open>nullptr\<close>, or an array, whose entries are \<open>None\<close> until they are set.\<close>

type_synonym prev_array = "nat option list"

partial_function (option) find_ge ::
  "'k compare \<Rightarrow> 'k skiplist \<Rightarrow> 'k \<Rightarrow> nat \<Rightarrow> nat \<Rightarrow> prev_array option \<Rightarrow> (nat option \<times> prev_array option) option" where
  "find_ge cmp sl key x level prev =
     (case node_Next sl x level of
        None \<Rightarrow> None
      | Some nxt \<Rightarrow>
          if KeyIsAfterNode cmp sl key nxt then find_ge cmp sl key (the nxt) level prev
          else
            let prev = map_option (\<lambda>p. p[level := Some x]) prev in
            if level = 0 then Some (nxt, prev) else find_ge cmp sl key x (level - 1) prev)"

definition FindGreaterOrEqual ::
  "'k compare \<Rightarrow> 'k \<Rightarrow> prev_array option \<Rightarrow> 'k skiplist \<Rightarrow> (nat option \<times> prev_array option) option" where
  "FindGreaterOrEqual cmp key prev sl = find_ge cmp sl key head (max_height sl - 1) prev"

partial_function (option) find_lt :: "'k compare \<Rightarrow> 'k skiplist \<Rightarrow> 'k \<Rightarrow> nat \<Rightarrow> nat \<Rightarrow> nat option" where
  "find_lt cmp sl key x level =
     (case node_Next sl x level of
        None \<Rightarrow> None
      | Some nxt \<Rightarrow>
          if (case nxt of None \<Rightarrow> True | Some n \<Rightarrow> cmp (node_key sl n) key \<ge> 0) then
            if level = 0 then Some x else find_lt cmp sl key x (level - 1)
          else find_lt cmp sl key (the nxt) level)"

definition FindLessThan :: "'k compare \<Rightarrow> 'k \<Rightarrow> 'k skiplist \<Rightarrow> nat option" where
  "FindLessThan cmp key sl = find_lt cmp sl key head (max_height sl - 1)"

partial_function (option) find_last :: "'k skiplist \<Rightarrow> nat \<Rightarrow> nat \<Rightarrow> nat option" where
  "find_last sl x level =
     (case node_Next sl x level of
        None \<Rightarrow> None
      | Some None \<Rightarrow> if level = 0 then Some x else find_last sl x (level - 1)
      | Some (Some n) \<Rightarrow> find_last sl n level)"

definition FindLast :: "'k skiplist \<Rightarrow> nat option" where
  "FindLast sl = find_last sl head (max_height sl - 1)"

definition Contains :: "'k compare \<Rightarrow> 'k \<Rightarrow> 'k skiplist \<Rightarrow> bool option" where
  "Contains cmp key sl =
     do {
       (x, _) \<leftarrow> FindGreaterOrEqual cmp key None sl;
       Some (case x of None \<Rightarrow> False | Some x \<Rightarrow> cmp key (node_key sl x) = 0)
     }"

section \<open>Inserting\<close>

function height_loop :: "nat \<Rightarrow> u32 \<Rightarrow> nat \<times> u32" where
  "height_loop h r =
     (if h < kMaxHeight then
        let r = Random_Next r in if r mod 4 = 0 then height_loop (h + 1) r else (h, r)
      else (h, r))"
  by auto
termination
  by (relation "measure (\<lambda>(h, r). kMaxHeight - h)") auto

declare height_loop.simps [simp del]

definition RandomHeight :: "'k skiplist \<Rightarrow> nat \<times> 'k skiplist" where
  "RandomHeight sl = (case height_loop 1 (rnd sl) of (h, r) \<Rightarrow> (h, sl\<lparr>rnd := r\<rparr>))"

definition link_level :: "prev_array \<Rightarrow> nat \<Rightarrow> nat \<Rightarrow> 'k skiplist \<Rightarrow> 'k skiplist option" where
  "link_level prev x i sl =
     do {
       p \<leftarrow> (if i < length prev then prev ! i else None);
       nxt \<leftarrow> node_Next sl p i;
       sl \<leftarrow> SetNext x i nxt sl;
       SetNext p i (Some x) sl
     }"

primrec link_levels :: "prev_array \<Rightarrow> nat \<Rightarrow> nat list \<Rightarrow> 'k skiplist \<Rightarrow> 'k skiplist option" where
  "link_levels prev x [] sl = Some sl"
| "link_levels prev x (i # is) sl = do { sl \<leftarrow> link_level prev x i sl; link_levels prev x is sl }"

definition Insert :: "'k compare \<Rightarrow> 'k \<Rightarrow> 'k skiplist \<Rightarrow> 'k skiplist option" where
  "Insert cmp key sl =
     do {
       (_, prev) \<leftarrow> FindGreaterOrEqual cmp key (Some (replicate kMaxHeight None)) sl;
       prev \<leftarrow> prev;
       let (h, sl) = RandomHeight sl;
       let prev = (if h > max_height sl
                   then fold (\<lambda>i prev. prev[i := Some head]) [max_height sl..<h] prev else prev);
       let sl = (if h > max_height sl then sl\<lparr>max_height := h\<rparr> else sl);
       let (x, sl) = NewNode key h sl;
       link_levels prev x [0..<h] sl
     }"

section \<open>Iterator\<close>

text \<open>An iterator is its node.\<close>

type_synonym sl_iter = "nat option"

definition iter_key :: "'k skiplist \<Rightarrow> sl_iter \<Rightarrow> 'k option" where
  "iter_key sl it = map_option (node_key sl) it"

definition iter_Next :: "'k skiplist \<Rightarrow> sl_iter \<Rightarrow> sl_iter option" where
  "iter_Next sl it = do { x \<leftarrow> it; node_Next sl x 0 }"

definition iter_Prev :: "'k compare \<Rightarrow> 'k skiplist \<Rightarrow> sl_iter \<Rightarrow> sl_iter option" where
  "iter_Prev cmp sl it =
     do {
       x \<leftarrow> it;
       n \<leftarrow> FindLessThan cmp (node_key sl x) sl;
       Some (if n = head then None else Some n)
     }"

definition iter_Seek :: "'k compare \<Rightarrow> 'k skiplist \<Rightarrow> 'k \<Rightarrow> sl_iter option" where
  "iter_Seek cmp sl target = map_option fst (FindGreaterOrEqual cmp target None sl)"

definition iter_SeekToFirst :: "'k skiplist \<Rightarrow> sl_iter option" where
  "iter_SeekToFirst sl = node_Next sl head 0"

definition iter_SeekToLast :: "'k skiplist \<Rightarrow> sl_iter option" where
  "iter_SeekToLast sl = map_option (\<lambda>n. if n = head then None else Some n) (FindLast sl)"

end
