(* ===== verification/LdbSkipListProofs.thy ===== *)
theory LdbSkipListProofs
  imports LdbSkipList
begin

text \<open>
  Correctness of the skip list: the abstract list of its keys, the invariant that ties the links of
  all levels to it, the search loops as walks along this list, \<open>Insert\<close> as insertion into the sorted
  list. The laws of the order that this needs are the locale \<open>key_order\<close>.
\<close>

section \<open>Random numbers\<close>

lemma mersenne_reduce:
  fixes p :: nat
  assumes "p = q * 2147483648 + r" and "r < 2147483648" and "q < 2147483647" and "\<not> 2147483647 dvd p"
  shows "p mod 2147483647 = (if q + r > 2147483647 then q + r - 2147483647 else q + r)"
proof -
  have p: "p = q * 2147483647 + (q + r)" using assms(1) by simp
  then have mod: "p mod 2147483647 = (q + r) mod 2147483647" by (metis mod_mult_self3)
  have "q + r \<noteq> 2147483647"
  proof
    assume e: "q + r = 2147483647"
    have "p = (q + 1) * 2147483647" using p unfolding e by simp
    then show False using assms(4) by simp
  qed
  then show ?thesis using assms(2,3) unfolding mod by (auto simp: le_mod_geq)
qed

lemma Random_Next_mod:
  assumes "0 < unat seed" and "unat seed < 2147483647"
  shows "unat (Random_Next seed) = unat seed * 16807 mod 2147483647 \<and>
    0 < unat (Random_Next seed) \<and> unat (Random_Next seed) < 2147483647"
proof -
  let ?p = "unat seed * 16807"
  let ?q = "?p div 2147483648" and ?r = "?p mod 2147483648"
  define product :: u64 where "product = ucast seed * 16807"
  have bound: "?p < 2 ^ 64" "?q < 2147483647" "?q < 16808" using assms(2) by auto
  have p: "unat product = ?p"
    using bound(1) by (simp add: product_def unat_word_ariths(2) unat_ucast_up_simp)
  have ndvd: "\<not> 2147483647 dvd ?p"
  proof
    assume "2147483647 dvd ?p"
    then have "2147483647 dvd ?p * 1407677000" by (rule dvd_mult2)
    also have "?p * 1407677000 = 2147483647 * (unat seed * 11017) + unat seed" by simp
    finally have "2147483647 dvd unat seed" by (simp only: dvd_add_right_iff dvd_triv_left)
    then show False using assms by (simp add: nat_dvd_not_less)
  qed
  have hi: "unat (drop_bit 31 product) = ?q" by (simp add: unat_drop_bit p)
  have "2147483647 = (mask 31 :: u64)" by (simp add: mask_eq_exp_minus_1)
  then have "product AND 2147483647 = take_bit 31 product" by (simp add: take_bit_eq_mask)
  then have lo: "unat (product AND 2147483647) = ?r" by (simp add: unat_take_bit p)
  have r: "?r < 2147483648" by simp
  have sum: "unat (drop_bit 31 product + (product AND 2147483647)) = ?q + ?r"
    using bound(3) r by (simp add: unat_word_ariths(1) hi lo del: mod_less_divisor)
  define seed' :: u32 where "seed' = ucast (drop_bit 31 product + (product AND 2147483647))"
  have s': "unat seed' = ?q + ?r"
    unfolding seed'_def using bound(3) r sum
    by (simp add: unsigned_ucast_eq take_bit_nat_eq_self del: mod_less_divisor)
  have next_def: "Random_Next seed = (if 2147483647 < seed' then seed' - 2147483647 else seed')"
  proof -
    have "(2147483647 :: u64) < ucast seed' \<longleftrightarrow> 2147483647 < seed'"
      by (simp add: word_less_nat_alt unat_ucast_up_simp)
    then show ?thesis by (simp add: Random_Next_def Let_def product_def seed'_def)
  qed
  have "unat (Random_Next seed) = (if ?q + ?r > 2147483647 then ?q + ?r - 2147483647 else ?q + ?r)"
    unfolding next_def by (auto simp: word_less_nat_alt s' unat_sub word_le_nat_alt)
  also have "\<dots> = ?p mod 2147483647"
    using mersenne_reduce [of ?p ?q ?r] bound(2) r ndvd by simp
  finally have "unat (Random_Next seed) = ?p mod 2147483647" .
  moreover have "?p mod 2147483647 \<noteq> 0" using ndvd by (simp add: dvd_eq_mod_eq_0)
  ultimately show ?thesis by simp
qed

text \<open>
  The random numbers are those of the generator \<open>seed * 16807 mod (2 ^ 31 - 1)\<close>, which the code
  reduces with two shifts, and the seed stays in range: never 0, never the modulus.
\<close>

theorem ldb_random_next:
  assumes "0 < unat seed" and "unat seed < 2147483647"
  shows "unat (Random_Next seed) = unat seed * 16807 mod 2147483647 \<and>
    0 < unat (Random_Next seed) \<and> unat (Random_Next seed) < 2147483647"
  by (rule Random_Next_mod [OF assms])

theorem ldb_random_next_witness: "unat (Random_Next 1) = 16807 \<and> unat (Random_Next 2147483646) = 2147466840"
  using ldb_random_next [of 1] ldb_random_next [of 2147483646] by simp

lemma height_loop_range: "0 < h \<Longrightarrow> h \<le> kMaxHeight \<Longrightarrow> height_loop h r = (h', r') \<Longrightarrow> 0 < h' \<and> h' \<le> kMaxHeight"
proof (induction h r rule: height_loop.induct)
  case (1 h r)
  show ?case
  proof (cases "h < kMaxHeight \<and> Random_Next r mod 4 = 0")
    case True
    then have "height_loop (h + 1) (Random_Next r) = (h', r')"
      using "1.prems"(3) by (subst (asm) height_loop.simps) (simp add: Let_def)
    then show ?thesis using "1.IH" True by simp
  next
    case False
    then show ?thesis using "1.prems" by (subst (asm) height_loop.simps) (auto simp: Let_def split: if_splits)
  qed
qed

section \<open>Order on the keys\<close>

locale key_order =
  fixes cmp :: "'k compare" and ok :: "'k \<Rightarrow> bool"
  assumes flip: "ok a \<Longrightarrow> ok b \<Longrightarrow> cmp a b < 0 \<longleftrightarrow> cmp b a > 0"
    and less_trans: "ok a \<Longrightarrow> ok b \<Longrightarrow> ok c \<Longrightarrow> cmp a b < 0 \<Longrightarrow> cmp b c \<le> 0 \<Longrightarrow> cmp a c < 0"
begin

lemma refl0: "ok a \<Longrightarrow> cmp a a = 0"
  using flip [of a a] by linarith

lemma eq_sym: "ok a \<Longrightarrow> ok b \<Longrightarrow> cmp a b = 0 \<longleftrightarrow> cmp b a = 0"
  using flip [of a b] flip [of b a] by linarith

lemma le_less_trans: "ok a \<Longrightarrow> ok b \<Longrightarrow> ok c \<Longrightarrow> cmp a b \<le> 0 \<Longrightarrow> cmp b c < 0 \<Longrightarrow> cmp a c < 0"
  by (smt (verit) flip less_trans)

end

section \<open>Paths along a level\<close>

primrec path :: "'k skiplist \<Rightarrow> nat \<Rightarrow> nat \<Rightarrow> nat list \<Rightarrow> bool" where
  "path sl l x [] \<longleftrightarrow> node_Next sl x l = Some None"
| "path sl l x (y # ys) \<longleftrightarrow> node_Next sl x l = Some (Some y) \<and> path sl l y ys"

abbreviation on_level :: "'k skiplist \<Rightarrow> nat \<Rightarrow> nat list \<Rightarrow> nat list" where
  "on_level sl l ps \<equiv> filter (\<lambda>p. l < height sl p) ps"

lemma path_append: "path sl l x (xs @ ys) \<Longrightarrow> path sl l (last (x # xs)) ys"
  by (induction xs arbitrary: x) auto

lemma path_first: "path sl l x ys \<Longrightarrow> node_Next sl x l = Some (case ys of [] \<Rightarrow> None | y # _ \<Rightarrow> Some y)"
  by (cases ys) auto

lemma path_cong: "(\<And>y. y \<in> set (x # ys) \<Longrightarrow> node_Next sl' y l = node_Next sl y l) \<Longrightarrow> path sl' l x ys = path sl l x ys"
  by (induction ys arbitrary: x) auto

text \<open>A new node \<open>n\<close> linked in after the last node of \<open>x # xs\<close>.\<close>

lemma path_insert:
  assumes "path sl l x (xs @ ys)" and "distinct (x # xs @ ys)" and "n \<notin> set (x # xs @ ys)"
    and "\<And>y. y \<noteq> n \<Longrightarrow> node_Next sl' y l = (if y = last (x # xs) then Some (Some n) else node_Next sl y l)"
    and "node_Next sl' n l = node_Next sl (last (x # xs)) l"
  shows "path sl' l x (xs @ n # ys)"
  using assms
proof (induction xs arbitrary: x)
  case Nil
  show ?case
  proof (cases ys)
    case Nil
    then show ?thesis using Nil.prems by simp
  next
    case (Cons y zs)
    have "node_Next sl' z l = node_Next sl z l" if "z \<in> set (y # zs)" for z
    proof -
      have "z \<noteq> n" "z \<noteq> x" using Cons that Nil.prems(2,3) by auto
      then show ?thesis using Nil.prems(4) [of z] by simp
    qed
    then have "path sl' l y zs = path sl l y zs" by (rule path_cong)
    then show ?thesis using Cons Nil.prems by simp
  qed
next
  case (Cons z xs)
  have "path sl' l z (xs @ n # ys)" using Cons.prems by (intro Cons.IH) auto
  moreover have "last (x # z # xs) \<noteq> x" using Cons.prems(2) by (auto simp: last_in_set split: if_splits)
  ultimately show ?case using Cons.prems by auto
qed

section \<open>The invariant\<close>

text \<open>The nodes after the head in the order of level 0; the bound is the number of all nodes.\<close>

primrec chain :: "nat \<Rightarrow> 'k skiplist \<Rightarrow> nat \<Rightarrow> nat list" where
  "chain 0 sl x = []"
| "chain (Suc n) sl x = (case node_Next sl x 0 of Some (Some y) \<Rightarrow> y # chain n sl y | _ \<Rightarrow> [])"

definition order :: "'k skiplist \<Rightarrow> nat list" where
  "order sl = chain (length (nodes sl)) sl head"

definition sl_keys :: "'k skiplist \<Rightarrow> 'k list" where
  "sl_keys sl = map (node_key sl) (order sl)"

definition sl_at :: "'k skiplist \<Rightarrow> nat list \<Rightarrow> bool" where
  "sl_at sl ps \<longleftrightarrow>
     nodes sl \<noteq> [] \<and> height sl head = kMaxHeight \<and> 1 \<le> max_height sl \<and> max_height sl \<le> kMaxHeight \<and>
     distinct ps \<and> set ps = {1..<length (nodes sl)} \<and>
     (\<forall>p\<in>set ps. 1 \<le> height sl p \<and> height sl p \<le> max_height sl) \<and>
     (\<forall>l<kMaxHeight. path sl l head (on_level sl l ps))"

definition sl_inv :: "'k compare \<Rightarrow> ('k \<Rightarrow> bool) \<Rightarrow> 'k skiplist \<Rightarrow> bool" where
  "sl_inv cmp ok sl \<longleftrightarrow> sl_at sl (order sl) \<and> list_all ok (sl_keys sl) \<and> sorted_wrt (\<lambda>a b. cmp a b < 0) (sl_keys sl)"

lemma chain_path: "path sl 0 x ys \<Longrightarrow> length ys \<le> n \<Longrightarrow> chain n sl x = ys"
proof (induction ys arbitrary: x n)
  case Nil
  then show ?case by (cases n) auto
next
  case (Cons y ys)
  then show ?case by (cases n) auto
qed

lemma on_level_0: "(\<And>p. p \<in> set ps \<Longrightarrow> 1 \<le> height sl p) \<Longrightarrow> on_level sl 0 ps = ps"
  by (simp add: filter_id_conv Suc_le_eq)

lemma sl_at_path: "sl_at sl ps \<Longrightarrow> l < kMaxHeight \<Longrightarrow> path sl l head (on_level sl l ps)"
  by (simp add: sl_at_def)

lemma sl_at_node:
  "sl_at sl ps \<Longrightarrow> p \<in> set ps \<Longrightarrow> 0 < p \<and> p < length (nodes sl) \<and> 0 < height sl p \<and> height sl p \<le> max_height sl"
  unfolding sl_at_def by (metis One_nat_def Suc_le_eq atLeastLessThan_iff)

lemma sl_at_length:
  assumes "sl_at sl ps"
  shows "length ps < length (nodes sl)"
proof -
  have "length ps = length (nodes sl) - 1"
    using assms distinct_card [of ps] by (simp add: sl_at_def)
  then show ?thesis using assms by (simp add: sl_at_def)
qed

lemma sl_at_order: "sl_at sl ps \<Longrightarrow> order sl = ps"
proof -
  assume sl: "sl_at sl ps"
  have "on_level sl 0 ps = ps" using sl by (intro on_level_0) (simp add: sl_at_def)
  then have "path sl 0 head ps" using sl_at_path [OF sl, of 0] by (simp add: kMaxHeight_def)
  then show ?thesis unfolding order_def using sl_at_length [OF sl] by (intro chain_path) simp_all
qed

section \<open>The walk of a search\<close>

text \<open>
  The list splits into the nodes \<open>as\<close> that the search passes and the rest \<open>bs\<close>. The node at which the
  walk leaves level \<open>l\<close> is the last of the passed nodes on this level, or the head.
\<close>

abbreviation stop_at :: "'k skiplist \<Rightarrow> nat list \<Rightarrow> nat \<Rightarrow> nat" where
  "stop_at sl as l \<equiv> last (head # on_level sl l as)"

abbreviation first_of :: "nat list \<Rightarrow> nat option" where
  "first_of xs \<equiv> (case xs of [] \<Rightarrow> None | y # _ \<Rightarrow> Some y)"

lemma sl_at_stop:
  assumes "sl_at sl (as @ bs)" and "l < kMaxHeight"
  shows "path sl l (stop_at sl as l) (on_level sl l bs)"
    and "node_Next sl (stop_at sl as l) l = Some (first_of (on_level sl l bs))"
proof -
  show p: "path sl l (stop_at sl as l) (on_level sl l bs)"
    using sl_at_path [OF assms] by (intro path_append) simp
  show "node_Next sl (stop_at sl as l) l = Some (first_of (on_level sl l bs))"
    using path_first [OF p] .
qed

lemma walk_induct [consumes 2, case_names step down stop]:
  fixes R :: "nat \<Rightarrow> nat \<Rightarrow> bool"
  assumes sl: "sl_at sl (as @ bs)" and l: "l < kMaxHeight"
    and step: "\<And>x y l. node_Next sl x l = Some (Some y) \<Longrightarrow> y \<in> set as \<Longrightarrow> R y l \<Longrightarrow> R x l"
    and down: "\<And>l. Suc l < kMaxHeight \<Longrightarrow> R (stop_at sl as (Suc l)) l \<Longrightarrow> R (stop_at sl as (Suc l)) (Suc l)"
    and stop: "R (last (head # as)) 0"
  shows "R head l"
proof -
  have "\<lbrakk>as = as1 @ as2; l < kMaxHeight; as1 = [] \<or> l < height sl (last as1)\<rbrakk> \<Longrightarrow> R (last (head # as1)) l" for as1 as2 l
  proof (induction l arbitrary: as1 as2)
    case 0
    then show ?case
    proof (induction as2 arbitrary: as1)
      case Nil
      then show ?case using stop by simp
    next
      case (Cons y ys)
      have all: "\<And>p. p \<in> set (as @ bs) \<Longrightarrow> 0 < height sl p" using sl_at_node [OF sl] by blast
      have y: "y \<in> set as" "0 < height sl y" using Cons.prems(1) all [of y] by simp_all
      have "path sl 0 (last (head # as1)) (y # ys @ bs)"
      proof -
        have "path sl 0 head (as1 @ y # ys @ bs)"
          using sl_at_path [OF sl Cons.prems(2)] all Cons.prems(1) by (simp add: filter_id_conv [THEN iffD2])
        then show ?thesis by (rule path_append)
      qed
      then have "node_Next sl (last (head # as1)) 0 = Some (Some y)" by simp
      moreover have "R (last (head # as1 @ [y])) 0" using Cons.prems y by (intro Cons.IH) auto
      ultimately show ?case using step y(1) by simp
    qed
  next
    case (Suc l)
    from Suc.prems show ?case
    proof (induction "on_level sl (Suc l) as2" arbitrary: as1 as2)
      case Nil
      have "last (head # as1) = stop_at sl as (Suc l)"
      proof (cases as1 rule: rev_cases)
        case (snoc zs z)
        then show ?thesis using Nil by simp
      qed (use Nil in simp)
      moreover have "R (last (head # as1)) l" using Suc.IH [of as1 as2] Nil by auto
      ultimately show ?case using down Suc.prems(2) by simp
    next
      case (Cons y ys)
      obtain us vs where as2: "as2 = us @ y # vs" "on_level sl (Suc l) us = []" "Suc l < height sl y" "ys = on_level sl (Suc l) vs"
        using Cons.hyps(2) [symmetric] by (auto simp: filter_eq_Cons_iff)
      have "last (head # as1) = stop_at sl as1 (Suc l)"
        using Cons.prems(3) by (cases as1 rule: rev_cases) auto
      moreover have "sl_at sl (as1 @ as2 @ bs)" using sl Cons.prems(1) by simp
      ultimately have "node_Next sl (last (head # as1)) (Suc l) = Some (first_of (on_level sl (Suc l) (as2 @ bs)))"
        using sl_at_stop(2) [of sl as1 "as2 @ bs"] Suc.prems(2) by simp
      then have "node_Next sl (last (head # as1)) (Suc l) = Some (Some y)" using as2 by simp
      moreover have "R (last (head # as1 @ us @ [y])) (Suc l)"
        using Cons.hyps(1) [of vs "as1 @ us @ [y]"] Cons.prems as2 by simp
      ultimately show ?case using step Cons.prems(1) as2(1) by simp
    qed
  qed
  from this [of "[]" as] l show ?thesis by simp
qed

section \<open>The searches\<close>

text \<open>The array of the predecessors that \<open>FindGreaterOrEqual\<close> leaves.\<close>

definition marks :: "'k skiplist \<Rightarrow> nat list \<Rightarrow> nat \<Rightarrow> prev_array option \<Rightarrow> prev_array option" where
  "marks sl as l prev =
     map_option (\<lambda>p. map (\<lambda>i. if i \<le> l then Some (stop_at sl as i) else p ! i) [0..<length p]) prev"

lemma marks_step:
  "marks sl as l (map_option (\<lambda>p. p[Suc l := Some (stop_at sl as (Suc l))]) prev) = marks sl as (Suc l) prev"
proof (cases prev)
  case (Some p)
  then show ?thesis by (simp add: marks_def nth_list_update le_Suc_eq del: last.simps)
qed (simp add: marks_def)

lemma marks_0: "map_option (\<lambda>p. p[0 := Some (stop_at sl as 0)]) prev = marks sl as 0 prev"
proof (cases prev)
  case (Some p)
  have "p[0 := v] = map (\<lambda>i. if i \<le> 0 then v else p ! i) [0..<length p]" for v
    by (rule nth_equalityI) (auto simp: nth_list_update)
  then show ?thesis using Some by (simp add: marks_def del: last.simps)
qed (simp add: marks_def)

lemma find_ge_move:
  "node_Next sl x l = Some (Some y) \<Longrightarrow> cmp (node_key sl y) key < 0 \<Longrightarrow>
    find_ge cmp sl key x l prev = find_ge cmp sl key y l prev"
  by (subst find_ge.simps) (simp add: KeyIsAfterNode_def)

lemma find_ge_turn:
  "node_Next sl x l = Some n \<Longrightarrow> \<not> KeyIsAfterNode cmp sl key n \<Longrightarrow>
    find_ge cmp sl key x l prev =
      (let prev = map_option (\<lambda>p. p[l := Some x]) prev in
       if l = 0 then Some (n, prev) else find_ge cmp sl key x (l - 1) prev)"
  by (subst find_ge.simps) (simp add: Let_def)

lemma find_lt_move:
  "node_Next sl x l = Some (Some y) \<Longrightarrow> cmp (node_key sl y) key < 0 \<Longrightarrow>
    find_lt cmp sl key x l = find_lt cmp sl key y l"
  by (subst find_lt.simps) simp

lemma find_lt_turn:
  "node_Next sl x l = Some n \<Longrightarrow> \<not> KeyIsAfterNode cmp sl key n \<Longrightarrow>
    find_lt cmp sl key x l = (if l = 0 then Some x else find_lt cmp sl key x (l - 1))"
  by (subst find_lt.simps) (auto simp: KeyIsAfterNode_def split: option.splits)

lemma find_last_move: "node_Next sl x l = Some (Some y) \<Longrightarrow> find_last sl x l = find_last sl y l"
  by (subst find_last.simps) simp

lemma find_last_turn:
  "node_Next sl x l = Some None \<Longrightarrow> find_last sl x l = (if l = 0 then Some x else find_last sl x (l - 1))"
  by (subst find_last.simps) simp

lemma first_of_on_level: "first_of (on_level sl l bs) = Some y \<Longrightarrow> y \<in> set bs"
  by (induction bs) (auto split: if_splits)

definition splits :: "'k compare \<Rightarrow> 'k skiplist \<Rightarrow> 'k \<Rightarrow> nat list \<Rightarrow> nat list \<Rightarrow> bool" where
  "splits cmp sl key as bs \<longleftrightarrow>
     list_all (\<lambda>p. cmp (node_key sl p) key < 0) as \<and> list_all (\<lambda>p. \<not> cmp (node_key sl p) key < 0) bs"

lemma splits_before: "splits cmp sl key as bs \<Longrightarrow> p \<in> set as \<Longrightarrow> cmp (node_key sl p) key < 0"
  by (simp add: splits_def list_all_iff)

lemma not_after_first:
  "splits cmp sl key as bs \<Longrightarrow> \<not> KeyIsAfterNode cmp sl key (first_of (on_level sl l bs))"
  using first_of_on_level [of l sl bs]
  by (auto simp: splits_def list_all_iff KeyIsAfterNode_def split: option.splits)

lemma stop_at_0: "sl_at sl (as @ bs) \<Longrightarrow> last (head # as) = stop_at sl as 0" "sl_at sl (as @ bs) \<Longrightarrow> on_level sl 0 bs = bs"
  using sl_at_node [of sl "as @ bs"] by (auto simp: on_level_0 Suc_le_eq)

lemma find_ge_run:
  assumes sl: "sl_at sl (as @ bs)" and l: "l < kMaxHeight"
    and sp: "splits cmp sl key as bs"
  shows "find_ge cmp sl key head l prev = Some (first_of bs, marks sl as l prev)"
proof -
  let ?R = "\<lambda>x l. \<forall>prev. find_ge cmp sl key x l prev = Some (first_of bs, marks sl as l prev)"
  have turn: "find_ge cmp sl key (stop_at sl as l) l prev =
      (let prev = map_option (\<lambda>p. p[l := Some (stop_at sl as l)]) prev in
       if l = 0 then Some (first_of (on_level sl l bs), prev) else find_ge cmp sl key (stop_at sl as l) (l - 1) prev)"
    if "l < kMaxHeight" for l prev
    by (rule find_ge_turn [OF sl_at_stop(2) [OF sl that]]) (rule not_after_first [OF sp])
  have "?R head l"
  proof (rule walk_induct [where R = ?R, OF sl l])
    show "?R x l" if "node_Next sl x l = Some (Some y)" "y \<in> set as" "?R y l" for x y l
      using that find_ge_move splits_before [OF sp] by metis
    show "?R (stop_at sl as (Suc l)) (Suc l)" if "Suc l < kMaxHeight" "?R (stop_at sl as (Suc l)) l" for l
      using that(2) by (simp only: turn [OF that(1)] marks_step Let_def diff_Suc_1 nat.simps if_False simp_thms)
    have "0 < kMaxHeight" by (simp add: kMaxHeight_def)
    then show "?R (last (head # as)) 0"
      by (simp only: stop_at_0(1) [OF sl] turn Let_def marks_0 stop_at_0(2) [OF sl] simp_thms if_True)
  qed
  then show ?thesis by blast
qed

lemma find_lt_run:
  assumes sl: "sl_at sl (as @ bs)" and l: "l < kMaxHeight"
    and sp: "splits cmp sl key as bs"
  shows "find_lt cmp sl key head l = Some (last (head # as))"
proof (rule walk_induct [where R = "\<lambda>x l. find_lt cmp sl key x l = Some (last (head # as))", OF sl l])
  have turn: "find_lt cmp sl key (stop_at sl as l) l =
      (if l = 0 then Some (stop_at sl as l) else find_lt cmp sl key (stop_at sl as l) (l - 1))"
    if "l < kMaxHeight" for l
    by (rule find_lt_turn [OF sl_at_stop(2) [OF sl that]]) (rule not_after_first [OF sp])
  show "find_lt cmp sl key x l = Some (last (head # as))"
    if "node_Next sl x l = Some (Some y)" "y \<in> set as" "find_lt cmp sl key y l = Some (last (head # as))" for x y l
    using that find_lt_move splits_before [OF sp] by metis
  show "find_lt cmp sl key (stop_at sl as (Suc l)) (Suc l) = Some (last (head # as))"
    if "Suc l < kMaxHeight" "find_lt cmp sl key (stop_at sl as (Suc l)) l = Some (last (head # as))" for l
    using that(2) by (simp only: turn [OF that(1)] diff_Suc_1 nat.simps if_False)
  show "find_lt cmp sl key (last (head # as)) 0 = Some (last (head # as))"
    using turn [of 0] by (simp only: stop_at_0(1) [OF sl] kMaxHeight_def) simp
qed

lemma find_last_run:
  assumes "sl_at sl as" and l: "l < kMaxHeight"
  shows "find_last sl head l = Some (last (head # as))"
proof -
  have sl: "sl_at sl (as @ [])" using assms(1) by simp
  have turn: "find_last sl (stop_at sl as l) l =
      (if l = 0 then Some (stop_at sl as l) else find_last sl (stop_at sl as l) (l - 1))"
    if "l < kMaxHeight" for l
    using sl_at_stop(2) [OF sl that] by (intro find_last_turn) simp
  show ?thesis
  proof (rule walk_induct [where R = "\<lambda>x l. find_last sl x l = Some (last (head # as))", OF sl l])
    show "find_last sl x l = Some (last (head # as))"
      if "node_Next sl x l = Some (Some y)" "find_last sl y l = Some (last (head # as))" for x y l
      using that find_last_move by metis
    show "find_last sl (stop_at sl as (Suc l)) (Suc l) = Some (last (head # as))"
      if "Suc l < kMaxHeight" "find_last sl (stop_at sl as (Suc l)) l = Some (last (head # as))" for l
      using that(2) by (simp only: turn [OF that(1)] diff_Suc_1 nat.simps if_False)
    show "find_last sl (last (head # as)) 0 = Some (last (head # as))"
      using turn [of 0] by (simp only: stop_at_0(1) [OF sl] kMaxHeight_def) simp
  qed
qed

section \<open>Linking a node in\<close>

definition same_nodes :: "'k skiplist \<Rightarrow> 'k skiplist \<Rightarrow> bool" where
  "same_nodes sl sl' \<longleftrightarrow>
     length (nodes sl') = length (nodes sl) \<and> max_height sl' = max_height sl \<and>
     height sl' = height sl \<and> node_key sl' = node_key sl"

lemma SetNext_run:
  assumes "x < length (nodes sl)" and "n < height sl x"
  obtains sl' where "SetNext x n v sl = Some sl'" and "same_nodes sl sl'"
    and "\<And>y l. node_Next sl' y l = (if y = x \<and> l = n then Some v else node_Next sl y l)"
proof -
  let ?sl' = "sl\<lparr>nodes := (nodes sl)[x := (nodes sl ! x)\<lparr>n_next := (n_next (nodes sl ! x))[n := v]\<rparr>]\<rparr>"
  have h: "height ?sl' y = height sl y" "node_key ?sl' y = node_key sl y" for y
    using assms(1) by (cases "y = x"; simp add: height_def node_key_def)+
  have "node_Next ?sl' y l = (if y = x \<and> l = n then Some v else node_Next sl y l)" for y l
    unfolding node_Next_def h using assms by (auto simp: height_def nth_list_update)
  moreover have "same_nodes sl ?sl'" using h by (auto simp: same_nodes_def)
  ultimately show ?thesis using that assms by (simp add: SetNext_def)
qed

lemma link_level_run:
  assumes "i < length prev" and "prev ! i = Some p" and "p < length (nodes sl)" and "i < height sl p"
    and "x < length (nodes sl)" and "i < height sl x" and "p \<noteq> x"
  obtains sl' where "link_level prev x i sl = Some sl'" and "same_nodes sl sl'"
    and "\<And>y l. node_Next sl' y l =
      (if l = i \<and> y = x then node_Next sl p i else if l = i \<and> y = p then Some (Some x) else node_Next sl y l)"
proof -
  define v where "v = n_next (nodes sl ! p) ! i"
  have v: "node_Next sl p i = Some v" using assms by (simp add: node_Next_def v_def)
  obtain sl1 where 1: "SetNext x i v sl = Some sl1" "same_nodes sl sl1"
    "\<And>y l. node_Next sl1 y l = (if y = x \<and> l = i then Some v else node_Next sl y l)"
    using SetNext_run [of x sl i v] assms by blast
  have "p < length (nodes sl1)" "i < height sl1 p" using 1(2) assms by (simp_all add: same_nodes_def)
  then obtain sl2 where 2: "SetNext p i (Some x) sl1 = Some sl2" "same_nodes sl1 sl2"
    "\<And>y l. node_Next sl2 y l = (if y = p \<and> l = i then Some (Some x) else node_Next sl1 y l)"
    using SetNext_run by blast
  show ?thesis
  proof (rule that)
    show "link_level prev x i sl = Some sl2" using assms v 1 2 by (simp add: link_level_def)
    show "same_nodes sl sl2" using 1(2) 2(2) by (simp add: same_nodes_def)
    show "node_Next sl2 y l =
      (if l = i \<and> y = x then node_Next sl p i else if l = i \<and> y = p then Some (Some x) else node_Next sl y l)" for y l
      using assms(7) v 1(3) 2(3) by auto
  qed
qed

lemma link_levels_run:
  assumes "distinct is" and "x < length (nodes sl)"
    and "\<And>i. i \<in> set is \<Longrightarrow> i < length prev \<and> prev ! i = Some (q i) \<and> q i < length (nodes sl) \<and>
      i < height sl (q i) \<and> i < height sl x \<and> q i \<noteq> x"
  shows "\<exists>sl'. link_levels prev x is sl = Some sl' \<and> same_nodes sl sl' \<and>
    (\<forall>y l. node_Next sl' y l =
      (if l \<in> set is \<and> y = x then node_Next sl (q l) l
       else if l \<in> set is \<and> y = q l then Some (Some x) else node_Next sl y l))"
  using assms
proof (induction "is" arbitrary: sl)
  case Nil
  then show ?case by (simp add: same_nodes_def)
next
  case (Cons i "is")
  obtain sl1 where 1: "link_level prev x i sl = Some sl1" "same_nodes sl sl1"
    "\<And>y l. node_Next sl1 y l =
      (if l = i \<and> y = x then node_Next sl (q i) i else if l = i \<and> y = q i then Some (Some x) else node_Next sl y l)"
    using link_level_run [of i prev "q i" sl x] Cons.prems(2) Cons.prems(3) [of i] by (metis list.set_intros(1))
  have "\<exists>sl'. link_levels prev x is sl1 = Some sl' \<and> same_nodes sl1 sl' \<and>
    (\<forall>y l. node_Next sl' y l =
      (if l \<in> set is \<and> y = x then node_Next sl1 (q l) l
       else if l \<in> set is \<and> y = q l then Some (Some x) else node_Next sl1 y l))"
    using Cons.prems 1(2) by (intro Cons.IH) (auto simp: same_nodes_def)
  then obtain sl2 where 2: "link_levels prev x is sl1 = Some sl2" "same_nodes sl1 sl2"
    "\<And>y l. node_Next sl2 y l =
      (if l \<in> set is \<and> y = x then node_Next sl1 (q l) l
       else if l \<in> set is \<and> y = q l then Some (Some x) else node_Next sl1 y l)"
    by blast
  have "link_levels prev x (i # is) sl = Some sl2" using 1(1) 2(1) by simp
  moreover have "same_nodes sl sl2" using 1(2) 2(2) by (simp add: same_nodes_def)
  moreover have "node_Next sl2 y l =
      (if l \<in> set (i # is) \<and> y = x then node_Next sl (q l) l
       else if l \<in> set (i # is) \<and> y = q l then Some (Some x) else node_Next sl y l)" for y l
    using Cons.prems(1) unfolding 2(3) 1(3) by auto
  ultimately show ?case by blast
qed

section \<open>Insert\<close>

lemma set_heads:
  "length (fold (\<lambda>i prev. prev[i := Some head]) [a..<b] prev) = length prev"
  "i < length prev \<Longrightarrow>
    fold (\<lambda>i prev. prev[i := Some head]) [a..<b] prev ! i = (if a \<le> i \<and> i < b then Some head else prev ! i)"
proof -
  have "length (fold (\<lambda>i prev. prev[i := Some head]) [a..<b] prev) = length prev \<and>
    (i < length prev \<longrightarrow>
      fold (\<lambda>i prev. prev[i := Some head]) [a..<b] prev ! i = (if a \<le> i \<and> i < b then Some head else prev ! i))"
    for i
    by (induction b) (auto simp: nth_list_update less_Suc_eq)
  then show "length (fold (\<lambda>i prev. prev[i := Some head]) [a..<b] prev) = length prev"
    "i < length prev \<Longrightarrow>
      fold (\<lambda>i prev. prev[i := Some head]) [a..<b] prev ! i = (if a \<le> i \<and> i < b then Some head else prev ! i)"
    by blast+
qed

lemma stop_at_cases: "stop_at sl as l = head \<or> stop_at sl as l \<in> set as \<and> l < height sl (stop_at sl as l)"
  using last_in_set [of "on_level sl l as"] by auto

lemma sl_at_stop_bounds:
  assumes "sl_at sl (as @ bs)" and "l < kMaxHeight"
  shows "stop_at sl as l < length (nodes sl)" and "l < height sl (stop_at sl as l)"
  using stop_at_cases [of l sl as] sl_at_node [OF assms(1)] assms
  by (auto simp: sl_at_def simp del: last.simps)

text \<open>The list after \<open>RandomHeight\<close> and \<open>NewNode\<close>, and the array of the predecessors then.\<close>

definition grown :: "'k \<Rightarrow> nat \<Rightarrow> u32 \<Rightarrow> 'k skiplist \<Rightarrow> 'k skiplist" where
  "grown key h r sl =
     (if h > max_height sl then sl\<lparr>rnd := r, max_height := h\<rparr> else sl\<lparr>rnd := r\<rparr>)
       \<lparr>nodes := nodes sl @ [\<lparr>n_key = key, n_next = replicate h None\<rparr>]\<rparr>"

lemma grown_simps:
  "length (nodes (grown key h r sl)) = Suc (length (nodes sl))"
  "max_height (grown key h r sl) = max (max_height sl) h"
  "y < length (nodes sl) \<Longrightarrow> height (grown key h r sl) y = height sl y"
  "y < length (nodes sl) \<Longrightarrow> node_key (grown key h r sl) y = node_key sl y"
  "y < length (nodes sl) \<Longrightarrow> node_Next (grown key h r sl) y = node_Next sl y"
  "height (grown key h r sl) (length (nodes sl)) = h"
  "node_key (grown key h r sl) (length (nodes sl)) = key"
  by (auto simp: grown_def height_def node_key_def node_Next_def nth_append fun_eq_iff)

lemma Insert_grown:
  assumes sl: "sl_at sl (as @ bs)"
    and sp: "splits cmp sl key as bs"
  shows "\<exists>prev h r. Insert cmp key sl = link_levels prev (length (nodes sl)) [0..<h] (grown key h r sl) \<and>
    0 < h \<and> h \<le> kMaxHeight \<and> length prev = kMaxHeight \<and> (\<forall>i<h. prev ! i = Some (stop_at sl as i))"
proof -
  obtain h r where hr: "height_loop 1 (rnd sl) = (h, r)" by force
  have h: "0 < h" "h \<le> kMaxHeight" using height_loop_range [OF _ _ hr] by (simp_all add: kMaxHeight_def)
  have mh: "1 \<le> max_height sl" "max_height sl - 1 < kMaxHeight" using sl by (auto simp: sl_at_def)
  let ?p0 = "the (marks sl as (max_height sl - 1) (Some (replicate kMaxHeight None)))"
  define prev where "prev =
    (if h > max_height sl then fold (\<lambda>i prev. prev[i := Some head]) [max_height sl..<h] ?p0 else ?p0)"
  have p0: "length ?p0 = kMaxHeight" by (simp add: marks_def)
  have FGE: "FindGreaterOrEqual cmp key (Some (replicate kMaxHeight None)) sl = Some (first_of bs, Some ?p0)"
    unfolding FindGreaterOrEqual_def using find_ge_run [OF sl mh(2) sp] by (simp add: marks_def)
  have "Insert cmp key sl = link_levels prev (length (nodes sl)) [0..<h] (grown key h r sl)"
  proof -
    have "RandomHeight sl = (h, sl\<lparr>rnd := r\<rparr>)" by (simp add: RandomHeight_def hr del: One_nat_def)
    then show ?thesis by (simp add: Insert_def FGE NewNode_def grown_def prev_def)
  qed
  moreover have "length prev = kMaxHeight" using p0 by (simp add: prev_def set_heads)
  moreover have "prev ! i = Some (stop_at sl as i)" if "i < h" for i
  proof (cases "i < max_height sl")
    case True
    then show ?thesis using p0 that h by (simp add: prev_def set_heads marks_def del: last.simps)
  next
    case False
    have "on_level sl i as = []"
      using sl_at_node [OF sl] False by (force simp: filter_empty_conv)
    then show ?thesis using False p0 that h by (simp add: prev_def set_heads)
  qed
  ultimately show ?thesis using h by blast
qed

lemma Insert_at:
  assumes sl: "sl_at sl (as @ bs)"
    and sp: "splits cmp sl key as bs"
  shows "\<exists>sl'. Insert cmp key sl = Some sl' \<and> sl_at sl' (as @ length (nodes sl) # bs) \<and>
    node_key sl' (length (nodes sl)) = key \<and> (\<forall>p\<in>set (as @ bs). node_key sl' p = node_key sl p)"
proof -
  let ?n = "length (nodes sl)"
  obtain prev h r where ins: "Insert cmp key sl = link_levels prev ?n [0..<h] (grown key h r sl)"
    and h: "0 < h" "h \<le> kMaxHeight" and prev: "length prev = kMaxHeight" "\<forall>i<h. prev ! i = Some (stop_at sl as i)"
    using Insert_grown [OF assms] by blast
  let ?g = "grown key h r sl"
  note bounds = sl_at_stop_bounds [OF sl]
  have "\<exists>sl'. link_levels prev ?n [0..<h] ?g = Some sl' \<and> same_nodes ?g sl' \<and>
    (\<forall>y l. node_Next sl' y l =
      (if l \<in> set [0..<h] \<and> y = ?n then node_Next ?g (stop_at sl as l) l
       else if l \<in> set [0..<h] \<and> y = stop_at sl as l then Some (Some ?n) else node_Next ?g y l))"
  proof (rule link_levels_run)
    fix i assume "i \<in> set [0..<h]"
    then have i: "i < h" "i < kMaxHeight" using h by simp_all
    show "i < length prev \<and> prev ! i = Some (stop_at sl as i) \<and> stop_at sl as i < length (nodes ?g) \<and>
      i < height ?g (stop_at sl as i) \<and> i < height ?g ?n \<and> stop_at sl as i \<noteq> ?n"
      unfolding prev(2) [rule_format, OF i(1)] grown_simps(3) [OF bounds(1) [OF i(2)]] grown_simps(1,6)
      using i prev(1) bounds [OF i(2)] by (auto simp del: last.simps)
  qed (simp_all add: grown_simps)
  then obtain sl' where sl': "Insert cmp key sl = Some sl'" "same_nodes ?g sl'"
    and nxt: "\<And>y l. node_Next sl' y l =
      (if l < h \<and> y = ?n then node_Next ?g (stop_at sl as l) l
       else if l < h \<and> y = stop_at sl as l then Some (Some ?n) else node_Next ?g y l)"
    unfolding ins by auto
  have old: "p < ?n \<Longrightarrow> height sl' p = height sl p \<and> node_key sl' p = node_key sl p" for p
    using sl'(2) by (simp add: same_nodes_def grown_simps)
  have new: "height sl' ?n = h" "node_key sl' ?n = key" "length (nodes sl') = Suc ?n" "max_height sl' = max (max_height sl) h"
    using sl'(2) by (simp_all add: same_nodes_def grown_simps)
  have nodes: "p < ?n" if "p \<in> set (as @ bs)" for p using sl_at_node [OF sl that] by simp
  have lev: "on_level sl' l ps = on_level sl l ps" if "set ps \<subseteq> set (as @ bs)" for l ps
    using that nodes old by (intro filter_cong) auto
  have all: "distinct (head # as @ bs)" "?n \<notin> set (head # as @ bs)" "set (as @ bs) = {1..<?n}"
    using sl by (auto simp: sl_at_def)
  have n: "1 \<le> ?n" using sl by (simp add: sl_at_def Suc_le_eq)
  have path: "path sl' l head (on_level sl' l (as @ ?n # bs))" if l: "l < kMaxHeight" for l
  proof (cases "l < h")
    case True
    have "path sl' l head (on_level sl l as @ ?n # on_level sl l bs)"
    proof (rule path_insert)
      show "path sl l head (on_level sl l as @ on_level sl l bs)" using sl_at_path [OF sl l] by simp
      show "node_Next sl' ?n l = node_Next sl (stop_at sl as l) l"
        using True bounds(1) [OF l] by (simp add: nxt grown_simps del: last.simps)
      show "node_Next sl' y l = (if y = stop_at sl as l then Some (Some ?n) else node_Next sl y l)" if "y \<noteq> ?n" for y
      proof (cases "y < ?n")
        case True
        then show ?thesis using \<open>l < h\<close> that by (simp add: nxt grown_simps del: last.simps)
      next
        case False
        then have "node_Next ?g y l = None" "node_Next sl y l = None" using that by (auto simp: node_Next_def grown_simps)
        then show ?thesis using False bounds(1) [OF l] that by (auto simp: nxt simp del: last.simps)
      qed
    qed (use all in auto)
    then show ?thesis using True lev [of as] lev [of bs] new(1) by simp
  next
    case False
    have "node_Next sl' y l = node_Next sl y l" if "y \<in> set (head # on_level sl l (as @ bs))" for y
      using that nodes [of y] all False sl by (auto simp: nxt grown_simps sl_at_def)
    then have "path sl' l head (on_level sl l (as @ bs))"
      using sl_at_path [OF sl l] path_cong [of head "on_level sl l (as @ bs)" sl' l sl] by simp
    then show ?thesis using False lev [of as] lev [of bs] new(1) by simp
  qed
  have "sl_at sl' (as @ ?n # bs)"
    unfolding sl_at_def using path all new old [of head] old sl nodes h n
    by (auto simp: sl_at_def less_Suc_eq le_max_iff_disj)
  then show ?thesis using sl'(1) new(2) old nodes by blast
qed

section \<open>The operations on the list of the keys\<close>

lemma splits_keys:
  assumes "splits cmp sl key as bs" and "order sl = as @ bs"
  shows "takeWhile (\<lambda>k. cmp k key < 0) (sl_keys sl) = map (node_key sl) as"
    and "dropWhile (\<lambda>k. cmp k key < 0) (sl_keys sl) = map (node_key sl) bs"
proof -
  let ?P = "\<lambda>k. cmp k key < 0"
  have a: "\<And>k. k \<in> set (map (node_key sl) as) \<Longrightarrow> ?P k" using assms(1) by (auto simp: splits_def list_all_iff)
  have b: "takeWhile ?P (map (node_key sl) bs) = []" "dropWhile ?P (map (node_key sl) bs) = map (node_key sl) bs"
    using assms(1) by (cases bs; simp add: splits_def)+
  show "takeWhile ?P (sl_keys sl) = map (node_key sl) as"
    unfolding sl_keys_def assms(2) using takeWhile_append2 [where xs = "map (node_key sl) as" and P = ?P, OF a] b(1) by simp
  show "dropWhile ?P (sl_keys sl) = map (node_key sl) bs"
    unfolding sl_keys_def assms(2) using dropWhile_append2 [where xs = "map (node_key sl) as" and P = ?P, OF a] b(2) by simp
qed

context key_order
begin

lemma inv_split:
  assumes inv: "sl_inv cmp ok sl" and key: "ok key"
  obtains as bs where "order sl = as @ bs" and "sl_at sl (as @ bs)" and "splits cmp sl key as bs"
    and "list_all ok (map (node_key sl) (as @ bs))"
    and "sorted_wrt (\<lambda>a b. cmp a b < 0) (map (node_key sl) (as @ bs))"
proof -
  let ?P = "\<lambda>p. cmp (node_key sl p) key < 0"
  let ?as = "takeWhile ?P (order sl)" and ?bs = "dropWhile ?P (order sl)"
  have ab: "order sl = ?as @ ?bs" by simp
  have oks: "list_all ok (map (node_key sl) (?as @ ?bs))"
    and sorted: "sorted_wrt (\<lambda>a b. cmp a b < 0) (map (node_key sl) (?as @ ?bs))"
    using inv by (simp_all add: sl_inv_def sl_keys_def)
  have "\<not> ?P p" if p: "p \<in> set ?bs" for p
  proof (cases ?bs)
    case (Cons b cs)
    have b: "\<not> ?P b" using Cons hd_dropWhile [of ?P "order sl"] by simp
    have okb: "ok (node_key sl b)" "ok (node_key sl p)"
      using oks p Cons by (auto simp: list_all_iff)
    show ?thesis
    proof (cases "p = b")
      case False
      then have "cmp (node_key sl b) (node_key sl p) < 0"
        using sorted p unfolding Cons by (auto simp: sorted_wrt_append sorted_wrt_map)
      then show ?thesis using b okb key less_trans [of "node_key sl b" "node_key sl p" key] by force
    qed (use b in simp)
  next
    case Nil
    then show ?thesis using p by (metis empty_iff list.set(1))
  qed
  then have "list_all (\<lambda>p. \<not> ?P p) ?bs" by (simp only: list_all_iff) blast
  moreover have "list_all ?P ?as" by (auto simp: list_all_iff dest: set_takeWhileD)
  ultimately have sp: "splits cmp sl key ?as ?bs" by (simp only: splits_def simp_thms)
  have at: "sl_at sl (?as @ ?bs)" using inv by (simp add: sl_inv_def)
  show ?thesis by (rule that [OF ab at sp oks sorted])
qed

lemma Insert_inv:
  assumes inv: "sl_inv cmp ok sl" and key: "ok key" and new: "\<forall>k\<in>set (sl_keys sl). cmp k key \<noteq> 0"
  shows "\<exists>sl'. Insert cmp key sl = Some sl' \<and> sl_inv cmp ok sl' \<and>
    sl_keys sl' = takeWhile (\<lambda>k. cmp k key < 0) (sl_keys sl) @ key # dropWhile (\<lambda>k. cmp k key < 0) (sl_keys sl)"
proof -
  obtain as bs where ord: "order sl = as @ bs" and at: "sl_at sl (as @ bs)" and sp: "splits cmp sl key as bs"
    and oks: "list_all ok (map (node_key sl) (as @ bs))"
    and sorted: "sorted_wrt (\<lambda>a b. cmp a b < 0) (map (node_key sl) (as @ bs))"
    using inv_split [OF inv key] by blast
  obtain sl' where ins: "Insert cmp key sl = Some sl'" and at': "sl_at sl' (as @ length (nodes sl) # bs)"
    and keys: "node_key sl' (length (nodes sl)) = key" "\<forall>p\<in>set (as @ bs). node_key sl' p = node_key sl p"
    using Insert_at [OF at sp] by blast
  have keys': "sl_keys sl' = map (node_key sl) as @ key # map (node_key sl) bs"
    using keys by (simp add: sl_keys_def sl_at_order [OF at'])
  have "cmp key (node_key sl p) < 0" if "p \<in> set bs" for p
  proof -
    have "\<not> cmp (node_key sl p) key < 0" "ok (node_key sl p)"
      using sp oks that by (auto simp: splits_def list_all_iff)
    moreover have "cmp (node_key sl p) key \<noteq> 0" using new ord that by (simp add: sl_keys_def)
    ultimately show ?thesis using flip [OF key, of "node_key sl p"] by linarith
  qed
  then have "sorted_wrt (\<lambda>a b. cmp a b < 0) (sl_keys sl')"
    using sorted sp unfolding keys' by (auto simp: sorted_wrt_append splits_def list_all_iff)
  moreover have "list_all ok (sl_keys sl')" using oks key by (simp add: keys')
  ultimately have "sl_inv cmp ok sl'" using at' by (simp add: sl_inv_def sl_at_order [OF at'])
  then show ?thesis using ins keys' splits_keys [OF sp ord] by simp
qed

end

section \<open>Iterators\<close>

text \<open>The iterator at the \<open>i\<close>-th key; past the last one it is not valid.\<close>

definition sl_pos :: "'k skiplist \<Rightarrow> nat \<Rightarrow> sl_iter" where
  "sl_pos sl i = (if i < length (order sl) then Some (order sl ! i) else None)"

lemma first_of_drop: "first_of (drop i xs) = (if i < length xs then Some (xs ! i) else None)"
  by (cases "i < length xs") (simp_all add: Cons_nth_drop_Suc [symmetric])

lemma length_sl_keys [simp]: "length (sl_keys sl) = length (order sl)"
  by (simp add: sl_keys_def)

lemma sl_at_levels: "sl_at sl ps \<Longrightarrow> max_height sl - 1 < kMaxHeight \<and> 0 < kMaxHeight"
  by (auto simp: sl_at_def kMaxHeight_def)

lemma iter_First_at: "sl_at sl (order sl) \<Longrightarrow> iter_SeekToFirst sl = Some (sl_pos sl 0)"
  using sl_at_stop(2) [of sl "[]" "order sl" 0] sl_at_levels [of sl "order sl"] stop_at_0(2) [of sl "[]" "order sl"]
    first_of_drop [of 0 "order sl"]
  by (simp add: iter_SeekToFirst_def sl_pos_def)

lemma iter_Next_at:
  assumes sl: "sl_at sl (order sl)" and i: "i < length (order sl)"
  shows "iter_Next sl (sl_pos sl i) = Some (sl_pos sl (Suc i))"
proof -
  let ?as = "take (Suc i) (order sl)" and ?bs = "drop (Suc i) (order sl)"
  have ab: "sl_at sl (?as @ ?bs)" using sl by simp
  have "last (head # ?as) = order sl ! i" using i by (simp add: take_Suc_conv_app_nth)
  then have "node_Next sl (order sl ! i) 0 = Some (first_of ?bs)"
    using sl_at_stop(2) [OF ab, of 0] sl_at_levels [OF ab] stop_at_0 [OF ab] by simp
  then show ?thesis using i by (simp add: iter_Next_def sl_pos_def first_of_drop)
qed

lemma iter_Last_at:
  assumes "sl_at sl (order sl)"
  shows "iter_SeekToLast sl = Some (if order sl = [] then None else sl_pos sl (length (order sl) - 1))"
proof -
  have "last (order sl) \<noteq> head" if "order sl \<noteq> []"
    using sl_at_node [OF assms, of "last (order sl)"] that by simp
  then show ?thesis
    using find_last_run [OF assms] sl_at_levels [OF assms]
    by (cases "order sl = []") (simp_all add: iter_SeekToLast_def FindLast_def sl_pos_def last_conv_nth)
qed

context key_order
begin

lemma seek_inv:
  assumes inv: "sl_inv cmp ok sl" and key: "ok key"
  shows "FindGreaterOrEqual cmp key None sl = Some (sl_pos sl (length (takeWhile (\<lambda>k. cmp k key < 0) (sl_keys sl))), None)"
proof -
  obtain as bs where ord: "order sl = as @ bs" and at: "sl_at sl (as @ bs)" and sp: "splits cmp sl key as bs"
    using inv_split [OF inv key] by blast
  have "find_ge cmp sl key head (max_height sl - 1) None = Some (first_of bs, None)"
    using find_ge_run [OF at _ sp] sl_at_levels [OF at] by (simp add: marks_def)
  moreover have "first_of bs = sl_pos sl (length as)"
    using first_of_drop [of "length as" "as @ bs"] by (simp add: sl_pos_def ord)
  ultimately show ?thesis using splits_keys(1) [OF sp ord] by (simp add: FindGreaterOrEqual_def)
qed

lemma prev_inv:
  assumes inv: "sl_inv cmp ok sl" and i: "i < length (order sl)"
  shows "iter_Prev cmp sl (sl_pos sl i) = Some (if i = 0 then None else sl_pos sl (i - 1))"
proof -
  let ?as = "take i (order sl)" and ?bs = "drop i (order sl)" and ?x = "order sl ! i"
  have at: "sl_at sl (order sl)" using inv by (simp add: sl_inv_def)
  have ab: "sl_at sl (?as @ ?bs)" using at by simp
  have ok: "\<And>j. j < length (order sl) \<Longrightarrow> ok (node_key sl (order sl ! j))"
    using inv by (simp add: sl_inv_def sl_keys_def list_all_length)
  have sorted: "\<And>j k. j < k \<Longrightarrow> k < length (order sl) \<Longrightarrow> cmp (node_key sl (order sl ! j)) (node_key sl (order sl ! k)) < 0"
    using inv by (simp add: sl_inv_def sl_keys_def sorted_wrt_iff_nth_less)
  have after: "\<not> cmp (node_key sl (order sl ! j)) (node_key sl ?x) < 0" if "i \<le> j" "j < length (order sl)" for j
    using sorted [of i j] that flip [OF ok ok, of j i] refl0 [OF ok, of i] i by (cases "i = j") auto
  have sp: "splits cmp sl (node_key sl ?x) ?as ?bs"
    using sorted [OF _ i] after by (auto simp: splits_def list_all_length)
  have ne: "order sl ! j \<noteq> head" if "j < length (order sl)" for j
    using sl_at_node [OF at, of "order sl ! j"] that by simp
  have "last (head # ?as) = (if i = 0 then head else order sl ! (i - 1))"
    using i by (cases i) (simp_all add: take_Suc_conv_app_nth)
  moreover have "FindLessThan cmp (node_key sl ?x) sl = Some (last (head # ?as))"
    unfolding FindLessThan_def using find_lt_run [OF ab _ sp] sl_at_levels [OF ab] by simp
  moreover have "i - 1 < length (order sl)" using i by simp
  ultimately show ?thesis using i ne [of "i - 1"] by (cases "i = 0") (simp_all add: iter_Prev_def sl_pos_def)
qed

lemma contains_inv:
  assumes inv: "sl_inv cmp ok sl" and key: "ok key"
  shows "Contains cmp key sl = Some (\<exists>k\<in>set (sl_keys sl). cmp key k = 0)"
proof -
  obtain as bs where ord: "order sl = as @ bs" and at: "sl_at sl (as @ bs)" and sp: "splits cmp sl key as bs"
    and oks: "list_all ok (map (node_key sl) (as @ bs))"
    and sorted: "sorted_wrt (\<lambda>a b. cmp a b < 0) (map (node_key sl) (as @ bs))"
    using inv_split [OF inv key] by blast
  have oka: "ok (node_key sl p)" if "p \<in> set (as @ bs)" for p using oks that by (auto simp: list_all_iff)
  have "cmp key (node_key sl p) \<noteq> 0" if "p \<in> set as" for p
    using sp that flip [OF oka key, of p] by (auto simp: splits_def list_all_iff)
  moreover have "cmp key (node_key sl p) \<noteq> 0" if "bs = b # cs" "p \<in> set cs" for b cs p
  proof -
    have "cmp (node_key sl b) (node_key sl p) < 0" using sorted that by (auto simp: sorted_wrt_append)
    moreover have "cmp key (node_key sl b) \<le> 0"
      using sp that flip [OF oka key, of b] flip [OF key oka, of b] by (auto simp: splits_def)
    ultimately show ?thesis using le_less_trans [OF key oka oka, of b p] that by force
  qed
  ultimately have "(\<exists>k\<in>set (sl_keys sl). cmp key k = 0) =
      (case first_of bs of None \<Rightarrow> False | Some x \<Rightarrow> cmp key (node_key sl x) = 0)"
    by (cases bs) (auto simp: sl_keys_def ord)
  moreover have "FindGreaterOrEqual cmp key None sl = Some (first_of bs, None)"
    using find_ge_run [OF at _ sp] sl_at_levels [OF at] by (simp add: FindGreaterOrEqual_def marks_def)
  ultimately show ?thesis by (simp add: Contains_def)
qed

end

section \<open>Properties\<close>

lemma new_skiplist_inv: "sl_inv cmp ok (new_skiplist any) \<and> sl_keys (new_skiplist any) = []"
proof -
  have at: "sl_at (new_skiplist any) []"
    by (simp add: sl_at_def new_skiplist_def NewNode_def height_def node_Next_def kMaxHeight_def)
  then show ?thesis by (simp add: sl_inv_def sl_keys_def sl_at_order [OF at])
qed

definition int_cmp :: "int compare" where
  "int_cmp a b = a - b"

interpretation int_order: key_order int_cmp "\<lambda>_. True"
  by unfold_locales (simp_all add: int_cmp_def)

lemma int_sample: "\<exists>sl. sl_inv int_cmp (\<lambda>_. True) sl \<and> sl_keys sl = [3, 5]"
proof -
  obtain sl where sl: "sl_inv int_cmp (\<lambda>_. True) sl" "sl_keys sl = [5]"
    using int_order.Insert_inv [of "new_skiplist 0" 5] new_skiplist_inv [of int_cmp "\<lambda>_. True" 0] by auto
  then show ?thesis using int_order.Insert_inv [of sl 3] by (auto simp: int_cmp_def)
qed

text \<open>
  C23. \<open>Insert\<close> returns on every skip list that satisfies the invariant: the new list satisfies it too,
  on all its levels, and its keys are those of the old one with the new key at its place.
\<close>

theorem ldb_skiplist_insert:
  assumes "key_order cmp ok" and "sl_inv cmp ok sl" and "ok key" and "\<forall>k\<in>set (sl_keys sl). cmp k key \<noteq> 0"
  shows "\<exists>sl'. Insert cmp key sl = Some sl' \<and> sl_inv cmp ok sl' \<and>
    sl_keys sl' = takeWhile (\<lambda>k. cmp k key < 0) (sl_keys sl) @ key # dropWhile (\<lambda>k. cmp k key < 0) (sl_keys sl)"
  using assms(2-4) by (rule key_order.Insert_inv [OF assms(1)])

theorem ldb_skiplist_insert_witness:
  "\<exists>sl sl'. sl_keys sl = [3, 5] \<and> Insert int_cmp 4 sl = Some sl' \<and> sl_inv int_cmp (\<lambda>_. True) sl' \<and>
    sl_keys sl' = [3, 4, 5]"
proof -
  obtain sl where sl: "sl_inv int_cmp (\<lambda>_. True) sl" "sl_keys sl = [3, 5]" using int_sample by blast
  then have "\<exists>sl'. Insert int_cmp 4 sl = Some sl' \<and> sl_inv int_cmp (\<lambda>_. True) sl' \<and> sl_keys sl' = [3, 4, 5]"
    using ldb_skiplist_insert [OF int_order.key_order_axioms sl(1), of 4] by (simp add: int_cmp_def)
  then show ?thesis using sl(2) by blast
qed

text \<open>
  C24. On a skip list that satisfies the invariant no search loops or reads a link it must not read:
  the iterator visits exactly the keys of the list, in order, forwards and backwards; \<open>Seek\<close> stops at
  the first key that is not before the target; \<open>Contains\<close> tells if some key equals the target.
\<close>

theorem ldb_skiplist_iterate:
  assumes "key_order cmp ok" and "sl_inv cmp ok sl" and "ok target"
  shows "iter_SeekToFirst sl = Some (sl_pos sl 0) \<and>
    iter_SeekToLast sl = Some (if sl_keys sl = [] then None else sl_pos sl (length (sl_keys sl) - 1)) \<and>
    iter_Seek cmp sl target = Some (sl_pos sl (length (takeWhile (\<lambda>k. cmp k target < 0) (sl_keys sl)))) \<and>
    Contains cmp target sl = Some (\<exists>k\<in>set (sl_keys sl). cmp target k = 0) \<and>
    (\<forall>i<length (sl_keys sl).
       iter_key sl (sl_pos sl i) = Some (sl_keys sl ! i) \<and>
       iter_Next sl (sl_pos sl i) = Some (sl_pos sl (Suc i)) \<and>
       iter_Prev cmp sl (sl_pos sl i) = Some (if i = 0 then None else sl_pos sl (i - 1)))"
proof -
  have at: "sl_at sl (order sl)" using assms(2) by (simp add: sl_inv_def)
  have empty: "(sl_keys sl = []) = (order sl = [])" by (simp add: sl_keys_def)
  have "iter_Seek cmp sl target = Some (sl_pos sl (length (takeWhile (\<lambda>k. cmp k target < 0) (sl_keys sl))))"
    using key_order.seek_inv [OF assms] by (simp add: iter_Seek_def)
  moreover have "iter_key sl (sl_pos sl i) = Some (sl_keys sl ! i)" if "i < length (order sl)" for i
    using that by (simp add: iter_key_def sl_pos_def sl_keys_def)
  ultimately show ?thesis
    using iter_First_at [OF at] iter_Last_at [OF at] iter_Next_at [OF at] key_order.contains_inv [OF assms]
      key_order.prev_inv [OF assms(1,2)] empty by auto
qed

theorem ldb_skiplist_iterate_witness:
  "\<exists>sl. sl_keys sl = [3, 5] \<and> iter_Seek int_cmp sl 4 = Some (sl_pos sl 1) \<and> iter_key sl (sl_pos sl 1) = Some 5 \<and>
    iter_Prev int_cmp sl (sl_pos sl 1) = Some (sl_pos sl 0) \<and> Contains int_cmp 4 sl = Some False"
proof -
  obtain sl where sl: "sl_inv int_cmp (\<lambda>_. True) sl" "sl_keys sl = [3, 5]" using int_sample by blast
  have "length (order sl) = 2" using sl(2) length_sl_keys [of sl] by simp
  then show ?thesis
    using ldb_skiplist_iterate [OF int_order.key_order_axioms sl(1), of 4] sl(2)
    by (intro exI [of _ sl]) (auto simp: int_cmp_def)
qed

end
