(* ===== verification/LdbMemTable.thy ===== *)
theory LdbMemTable
  imports LdbSkipListProofs LdbKey LdbEnv
begin

text \<open>
  The memtable (\<open>db/memtable.cc\<close>), a skip list of encoded entries. A \<open>const char*\<close> into the arena is the
  list of the bytes from there to the end of what was allocated with it. The order on user keys is a
  parameter. The reference count and the sizes of the arena are not modelled.

  As for the skip list, a result \<open>None\<close> stands for a loop that does not return or for an access C
  gives no meaning to, here also for reading past the end of an entry.
\<close>

text \<open>The slice at a pointer and what follows it in memory; at most five bytes hold its length.\<close>

definition mem_slice :: "u8 list \<Rightarrow> (u8 list \<times> u8 list) option" where
  "mem_slice data =
     (case GetVarint32Ptr (take 5 data) of
        None \<Rightarrow> None
      | Some (len, q) \<Rightarrow>
          let p = drop (length (take 5 data) - length q) data in
          if unat len \<le> length p then Some (take (unat len) p, drop (unat len) p) else None)"

text \<open>The comparison means nothing for what does not hold a slice; such keys are never compared.\<close>

definition KeyComparator :: "compare_op \<Rightarrow> u8 list compare" where
  "KeyComparator user_compare aptr bptr =
     (case (mem_slice aptr, mem_slice bptr) of
        (Some (a, _), Some (b, _)) \<Rightarrow> InternalCompare user_compare a b
      | _ \<Rightarrow> 0)"

definition EncodeKey :: "u8 list \<Rightarrow> u8 list" where
  "EncodeKey target = PutVarint32 [] (of_nat (length target)) @ target"

record memtable =
  mt_table :: "u8 list skiplist"

definition new_MemTable :: memtable where
  "new_MemTable = \<lparr>mt_table = new_skiplist []\<rparr>"

section \<open>Add and Get\<close>

definition encoded_len :: "u8 list \<Rightarrow> u8 list \<Rightarrow> nat" where
  "encoded_len key val =
     (let internal_key_size = length key + 8; val_size = length val in
      VarintLength (of_nat internal_key_size) + internal_key_size + VarintLength (of_nat val_size) + val_size)"

text \<open>The bytes that \<open>Add\<close> puts into the buffer one after the other.\<close>

definition mem_entry :: "SequenceNumber \<Rightarrow> ValueType \<Rightarrow> u8 list \<Rightarrow> u8 list \<Rightarrow> u8 list" where
  "mem_entry s t key val =
     EncodeVarint32 (of_nat (length key + 8)) @ key @ EncodeFixed64 (push_bit 8 s OR value_type_code t) @
     EncodeVarint32 (of_nat (length val)) @ val"

definition MemTable_Add ::
  "compare_op \<Rightarrow> SequenceNumber \<Rightarrow> ValueType \<Rightarrow> u8 list \<Rightarrow> u8 list \<Rightarrow> memtable \<Rightarrow> memtable option" where
  "MemTable_Add ucmp s t key val mt =
     do {
       let buf = mem_entry s t key val;
       table \<leftarrow> Insert (KeyComparator ucmp) buf (mt_table mt);
       Some (mt\<lparr>mt_table := table\<rparr>)
     }"

text \<open>\<open>Get\<close> on an entry that \<open>Seek\<close> found, for a lookup key of the user key \<open>ukey\<close>.\<close>

definition get_entry ::
  "compare_op \<Rightarrow> u8 list \<Rightarrow> u8 list \<Rightarrow> u8 list \<Rightarrow> ldb_status \<Rightarrow> (bool \<times> u8 list \<times> ldb_status) option" where
  "get_entry ucmp ukey entry val s =
     do {
       (key_length, q) \<leftarrow> GetVarint32Ptr (take 5 entry);
       let key_ptr = drop (length (take 5 entry) - length q) entry;
       let n = unat (key_length - 8);
       if length key_ptr < n then None
       else if ucmp (take n key_ptr) ukey = 0 then
         if length key_ptr < n + 8 then None
         else let tag = DecodeFixed64 (drop n key_ptr) in
         if tag AND 0xFF = value_type_code kTypeValue then
           do { (v, _) \<leftarrow> mem_slice (drop (unat key_length) key_ptr); Some (True, v, s) }
         else if tag AND 0xFF = value_type_code kTypeDeletion then Some (True, val, NotFound [])
         else Some (False, val, s)
       else Some (False, val, s)
     }"

definition MemTable_Get ::
  "compare_op \<Rightarrow> u8 list \<Rightarrow> SequenceNumber \<Rightarrow> u8 list \<Rightarrow> ldb_status \<Rightarrow> memtable \<Rightarrow>
    (bool \<times> u8 list \<times> ldb_status) option" where
  "MemTable_Get ucmp ukey seq val s mt =
     do {
       it \<leftarrow> iter_Seek (KeyComparator ucmp) (mt_table mt) (memtable_key ukey seq);
       (case iter_key (mt_table mt) it of
          None \<Rightarrow> Some (False, val, s)
        | Some entry \<Rightarrow> get_entry ucmp (lookup_user_key ukey seq) entry val s)
     }"

section \<open>Iterator\<close>

definition mem_Seek :: "compare_op \<Rightarrow> memtable \<Rightarrow> u8 list \<Rightarrow> sl_iter option" where
  "mem_Seek ucmp mt k = iter_Seek (KeyComparator ucmp) (mt_table mt) (EncodeKey k)"

definition mem_SeekToFirst :: "memtable \<Rightarrow> sl_iter option" where
  "mem_SeekToFirst mt = iter_SeekToFirst (mt_table mt)"

definition mem_SeekToLast :: "memtable \<Rightarrow> sl_iter option" where
  "mem_SeekToLast mt = iter_SeekToLast (mt_table mt)"

definition mem_Next :: "memtable \<Rightarrow> sl_iter \<Rightarrow> sl_iter option" where
  "mem_Next mt it = iter_Next (mt_table mt) it"

definition mem_Prev :: "compare_op \<Rightarrow> memtable \<Rightarrow> sl_iter \<Rightarrow> sl_iter option" where
  "mem_Prev ucmp mt it = iter_Prev (KeyComparator ucmp) (mt_table mt) it"

definition mem_key :: "memtable \<Rightarrow> sl_iter \<Rightarrow> u8 list option" where
  "mem_key mt it = do { k \<leftarrow> iter_key (mt_table mt) it; (key, _) \<leftarrow> mem_slice k; Some key }"

definition mem_value :: "memtable \<Rightarrow> sl_iter \<Rightarrow> u8 list option" where
  "mem_value mt it =
     do { k \<leftarrow> iter_key (mt_table mt) it; (_, p) \<leftarrow> mem_slice k; (v, _) \<leftarrow> mem_slice p; Some v }"

end
