(* ===== verification/LdbWriteBatch.thy ===== *)
theory LdbWriteBatch
  imports LdbMemTable
begin

text \<open>
  The batches of updates (\<open>db/write_batch.cc\<close>) and their insertion into a memtable. A batch is its bytes
  \<open>rep_\<close>; a handler is a pair of functions on a state of its own, which may have no result where the
  handler's operation has none.
\<close>

definition kHeader :: nat where
  "kHeader = 12"

record write_batch =
  rep :: "u8 list"

definition Clear :: write_batch where
  "Clear = \<lparr>rep = replicate kHeader 0\<rparr>"

definition ApproximateSize :: "write_batch \<Rightarrow> nat" where
  "ApproximateSize b = length (rep b)"

definition Count :: "write_batch \<Rightarrow> u32" where
  "Count b = DecodeFixed32 (drop 8 (rep b))"

definition SetCount :: "u32 \<Rightarrow> write_batch \<Rightarrow> write_batch" where
  "SetCount n b = b\<lparr>rep := put_bytes (rep b) 8 (EncodeFixed32 n)\<rparr>"

definition Sequence :: "write_batch \<Rightarrow> SequenceNumber" where
  "Sequence b = DecodeFixed64 (rep b)"

definition SetSequence :: "SequenceNumber \<Rightarrow> write_batch \<Rightarrow> write_batch" where
  "SetSequence s b = b\<lparr>rep := put_bytes (rep b) 0 (EncodeFixed64 s)\<rparr>"

definition wb_Put :: "u8 list \<Rightarrow> u8 list \<Rightarrow> write_batch \<Rightarrow> write_batch" where
  "wb_Put key val b =
     (let b = SetCount (Count b + 1) b in
      b\<lparr>rep := PutLengthPrefixedSlice (PutLengthPrefixedSlice (rep b @ [ucast (value_type_code kTypeValue)]) key) val\<rparr>)"

definition wb_Delete :: "u8 list \<Rightarrow> write_batch \<Rightarrow> write_batch" where
  "wb_Delete key b =
     (let b = SetCount (Count b + 1) b in
      b\<lparr>rep := PutLengthPrefixedSlice (rep b @ [ucast (value_type_code kTypeDeletion)]) key\<rparr>)"

definition SetContents :: "u8 list \<Rightarrow> write_batch" where
  "SetContents contents = \<lparr>rep = contents\<rparr>"

definition wb_Append :: "write_batch \<Rightarrow> write_batch \<Rightarrow> write_batch" where
  "wb_Append dst src =
     (let dst = SetCount (Count dst + Count src) dst in dst\<lparr>rep := rep dst @ drop kHeader (rep src)\<rparr>)"

section \<open>Iterate\<close>

record 's handler =
  h_Put :: "u8 list \<Rightarrow> u8 list \<Rightarrow> 's \<Rightarrow> 's option"
  h_Delete :: "u8 list \<Rightarrow> 's \<Rightarrow> 's option"

text \<open>\<open>found\<close> is an \<open>int\<close> that is compared with a count of 32 bits.\<close>

lemma GetLengthPrefixedSlice_shorter: "GetLengthPrefixedSlice p = (r, q) \<Longrightarrow> length q \<le> length p"
  by (auto simp: GetLengthPrefixedSlice_def GetVarint32_def GetVarint32Ptr_v64 split: option.splits prod.splits if_splits)

function iterate_loop ::
  "'s handler \<Rightarrow> u32 \<Rightarrow> u8 list \<Rightarrow> 's \<Rightarrow> ((ldb_status + u32) \<times> 's) option" where
  "iterate_loop h found [] st = Some (Inr found, st)"
| "iterate_loop h found (c # inp) st =
     (let found = found + 1 in
      if c = ucast (value_type_code kTypeValue) then
        case GetLengthPrefixedSlice inp of
          (Some key, inp) \<Rightarrow>
            (case GetLengthPrefixedSlice inp of
               (Some val, inp) \<Rightarrow> do { st \<leftarrow> h_Put h key val st; iterate_loop h found inp st }
             | (None, _) \<Rightarrow> Some (Inl (Corruption ''bad WriteBatch Put''), st))
        | (None, _) \<Rightarrow> Some (Inl (Corruption ''bad WriteBatch Put''), st)
      else if c = ucast (value_type_code kTypeDeletion) then
        case GetLengthPrefixedSlice inp of
          (Some key, inp) \<Rightarrow> do { st \<leftarrow> h_Delete h key st; iterate_loop h found inp st }
        | (None, _) \<Rightarrow> Some (Inl (Corruption ''bad WriteBatch Delete''), st)
      else Some (Inl (Corruption ''unknown WriteBatch tag''), st))"
  by pat_completeness auto
termination
  by (relation "measure (\<lambda>(h, found, inp, st). length inp)")
    (auto dest!: GetLengthPrefixedSlice_shorter [OF sym])

definition Iterate :: "'s handler \<Rightarrow> write_batch \<Rightarrow> 's \<Rightarrow> (ldb_status \<times> 's) option" where
  "Iterate h b st =
     (if length (rep b) < kHeader then Some (Corruption ''malformed WriteBatch (too small)'', st)
      else
        do {
          (r, st) \<leftarrow> iterate_loop h 0 (drop kHeader (rep b)) st;
          Some (case r of
            Inl e \<Rightarrow> (e, st)
          | Inr found \<Rightarrow> if found \<noteq> Count b then (Corruption ''WriteBatch has wrong count'', st) else (OK, st))
        })"

section \<open>Inserting into a memtable\<close>

record memtable_inserter =
  ins_sequence :: SequenceNumber
  ins_mem :: memtable

definition inserter_Put :: "compare_op \<Rightarrow> u8 list \<Rightarrow> u8 list \<Rightarrow> memtable_inserter \<Rightarrow> memtable_inserter option" where
  "inserter_Put ucmp key val i =
     do {
       mem \<leftarrow> MemTable_Add ucmp (ins_sequence i) kTypeValue key val (ins_mem i);
       Some (i\<lparr>ins_mem := mem, ins_sequence := ins_sequence i + 1\<rparr>)
     }"

definition inserter_Delete :: "compare_op \<Rightarrow> u8 list \<Rightarrow> memtable_inserter \<Rightarrow> memtable_inserter option" where
  "inserter_Delete ucmp key i =
     do {
       mem \<leftarrow> MemTable_Add ucmp (ins_sequence i) kTypeDeletion key [] (ins_mem i);
       Some (i\<lparr>ins_mem := mem, ins_sequence := ins_sequence i + 1\<rparr>)
     }"

definition MemTableInserter :: "compare_op \<Rightarrow> memtable_inserter handler" where
  "MemTableInserter ucmp = \<lparr>h_Put = inserter_Put ucmp, h_Delete = inserter_Delete ucmp\<rparr>"

definition InsertInto :: "compare_op \<Rightarrow> write_batch \<Rightarrow> memtable \<Rightarrow> (ldb_status \<times> memtable) option" where
  "InsertInto ucmp b mt =
     map_option (\<lambda>(s, i). (s, ins_mem i)) (Iterate (MemTableInserter ucmp) b \<lparr>ins_sequence = Sequence b, ins_mem = mt\<rparr>)"

end
