(* ===== verification/LdbMemTableProofs.thy ===== *)
theory LdbMemTableProofs
  imports LdbWriteBatch
begin

text \<open>
  Correctness of memtable and write batches. Encoded entries decode, their order fulfils the laws the
  skip list needs when the order on user keys fulfils those of a comparator. A memtable holds a list of
  operations, numbered from a base; \<open>Get\<close> at a snapshot refines the lookup in the map that results
  from the operations up to the snapshot.
\<close>

section \<open>Entries\<close>

lemma mem_slice_bytes:
  assumes "length bs < 2 ^ 32"
  shows "mem_slice (slice_bytes bs @ xs) = Some (bs, xs)"
proof -
  let ?v = "of_nat (length bs) :: u32"
  let ?e = "EncodeVarint32 ?v"
  have e: "length ?e \<le> 5" using varint_bytes_32_length [of ?v] by (simp add: EncodeVarint32_bytes)
  then have take: "take 5 (?e @ bs @ xs) = ?e @ take (5 - length ?e) (bs @ xs)" by simp
  have "unat ?v = length bs" using assms by (simp add: unat_of_nat take_bit_nat_eq_self)
  then show ?thesis
    unfolding mem_slice_def slice_bytes_def append_assoc take GetVarint32Ptr_EncodeVarint32
    by (simp add: Let_def)
qed

definition ikey :: "SequenceNumber \<Rightarrow> ValueType \<Rightarrow> u8 list \<Rightarrow> u8 list" where
  "ikey s t key = key @ EncodeFixed64 (PackSequenceAndType s t)"

lemma length_ikey [simp]: "length (ikey s t key) = length key + 8"
  by (simp add: ikey_def)

lemma ikey_parts [simp]: "ExtractUserKey (ikey s t key) = key" "tag (ikey s t key) = PackSequenceAndType s t"
  using PutFixed64_parts [of key "PackSequenceAndType s t"] by (simp_all add: ikey_def PutFixed64_def)

lemma mem_entry_bytes: "mem_entry s t key val = slice_bytes (ikey s t key) @ slice_bytes val"
  by (simp add: mem_entry_def slice_bytes_def ikey_def PackSequenceAndType_def)

lemma memtable_key_bytes: "memtable_key ukey s = slice_bytes (ikey s kTypeValue ukey)"
  by (simp add: memtable_key_def LookupKey_def slice_bytes_def ikey_def)

lemma lookup_user_key_eq: "lookup_user_key ukey s = ukey"
  by (simp add: lookup_user_key_def LookupKey_def kstart_def)

lemma pack_less_iff:
  assumes "s \<le> kMaxSequenceNumber" and "s' \<le> kMaxSequenceNumber"
  shows "PackSequenceAndType s t < PackSequenceAndType s' t' \<longleftrightarrow>
    s < s' \<or> s = s' \<and> t = kTypeDeletion \<and> t' = kTypeValue"
  unfolding word_less_nat_alt pack_parts(3) [OF assms(1)] pack_parts(3) [OF assms(2)]
  by (cases t; cases t') (auto simp: word_unat_eq_iff)

section \<open>The order of the entries\<close>

definition mem_ok :: "(u8 list \<Rightarrow> bool) \<Rightarrow> u8 list \<Rightarrow> bool" where
  "mem_ok valid k =
     (case mem_slice k of Some (ik, _) \<Rightarrow> 8 \<le> length ik \<and> valid (ExtractUserKey ik) | None \<Rightarrow> False)"

context comparator
begin

lemma mem_order: "key_order (KeyComparator cmp) (mem_ok valid)"
proof
  note laws = internal_comparator
  have slice: "\<exists>ik r. mem_slice k = Some (ik, r) \<and> valid_internal ik" if "mem_ok valid k" for k
    using that by (auto simp: mem_ok_def valid_internal_def split: option.splits)
  fix a b c
  assume a: "mem_ok valid a" and b: "mem_ok valid b"
  from slice [OF a] slice [OF b] obtain ia ra ib rb where
    ab: "mem_slice a = Some (ia, ra)" "mem_slice b = Some (ib, rb)" "valid_internal ia" "valid_internal ib" by blast
  show "KeyComparator cmp a b < 0 \<longleftrightarrow> 0 < KeyComparator cmp b a"
    using comparator.cmp_flip [OF laws ab(3,4)] ab(1,2) by (simp add: KeyComparator_def)
  show "KeyComparator cmp a c < 0" if c: "mem_ok valid c" and less: "KeyComparator cmp a b < 0" "KeyComparator cmp b c \<le> 0"
  proof -
    from slice [OF c] obtain ic rc where ic: "mem_slice c = Some (ic, rc)" "valid_internal ic" by blast
    have 1: "InternalCompare cmp ia ib < 0" "InternalCompare cmp ib ic \<le> 0"
      using less ab ic by (simp_all add: KeyComparator_def)
    have "InternalCompare cmp ia ic < 0"
    proof (cases "InternalCompare cmp ib ic = 0")
      case True
      then show ?thesis using 1 comparator.cmp_eq [OF laws ab(4) ic(2)] by simp
    next
      case False
      then show ?thesis using 1 comparator.cmp_trans [OF laws ab(3,4) ic(2)] by simp
    qed
    then show ?thesis using ab ic by (simp add: KeyComparator_def)
  qed
qed

end

interpretation memtable_order: key_order "KeyComparator Slice_compare" "mem_ok (\<lambda>_. True)"
  by (rule bytewise.mem_order)

section \<open>What a memtable holds\<close>

type_synonym mem_ent = "SequenceNumber \<times> ValueType \<times> u8 list \<times> u8 list"

fun ent_bytes :: "mem_ent \<Rightarrow> u8 list" where
  "ent_bytes (s, t, key, val) = mem_entry s t key val"

fun ent_key :: "mem_ent \<Rightarrow> u8 list" where
  "ent_key (s, t, key, val) = key"

fun ent_tag :: "mem_ent \<Rightarrow> u64" where
  "ent_tag (s, t, key, val) = PackSequenceAndType s t"

fun ent_ok :: "(u8 list \<Rightarrow> bool) \<Rightarrow> mem_ent \<Rightarrow> bool" where
  "ent_ok valid (s, t, key, val) \<longleftrightarrow>
     s \<le> kMaxSequenceNumber \<and> valid key \<and> length key + 8 < 2 ^ 32 \<and> length val < 2 ^ 32"

definition mem_holds :: "compare_op \<Rightarrow> (u8 list \<Rightarrow> bool) \<Rightarrow> memtable \<Rightarrow> mem_ent list \<Rightarrow> bool" where
  "mem_holds ucmp valid mt es \<longleftrightarrow>
     sl_inv (KeyComparator ucmp) (mem_ok valid) (mt_table mt) \<and>
     set (sl_keys (mt_table mt)) = ent_bytes ` set es \<and> list_all (ent_ok valid) es"

lemma ent_slice:
  "ent_ok valid (s, t, key, val) \<Longrightarrow> mem_slice (mem_entry s t key val) = Some (ikey s t key, slice_bytes val)"
  by (simp add: mem_entry_bytes mem_slice_bytes)

text \<open>The buffer that \<open>Add\<close> allocates is exactly filled, as its assertion says.\<close>

lemma mem_entry_length:
  assumes "ent_ok valid (s, t, key, val)"
  shows "length (mem_entry s t key val) = encoded_len key val"
proof -
  have "length (EncodeVarint32 (of_nat n)) = VarintLength (of_nat n)" if "n < 2 ^ 32" for n
  proof -
    have "ucast (of_nat n :: u32) = (of_nat n :: u64)"
      using that by (simp add: word_unat_eq_iff unat_ucast_up_simp unat_of_nat take_bit_nat_eq_self)
    then show ?thesis by (simp add: EncodeVarint32_bytes VarintLength_bytes)
  qed
  from this [of "length key + 8"] this [of "length val"] show ?thesis
    using assms by (simp add: mem_entry_def encoded_len_def Let_def)
qed

lemma ent_bytes_inj:
  assumes "ent_ok valid e" and "ent_ok valid e'" and "ent_bytes e = ent_bytes e'"
  shows "ent_key e = ent_key e' \<and> ent_tag e = ent_tag e'"
proof (cases e; cases e')
  fix s t key val s' t' key' val'
  assume e: "e = (s, t, key, val)" "e' = (s', t', key', val')"
  then have "ikey s t key = ikey s' t' key'"
    using ent_slice [of valid s t key val] ent_slice [of valid s' t' key' val'] assms by (simp del: ent_ok.simps)
  then show ?thesis using e ikey_parts by (metis ent_key.simps ent_tag.simps)
qed

lemma ent_mem_ok: "ent_ok valid e \<Longrightarrow> mem_ok valid (ent_bytes e)"
  by (cases e) (simp add: mem_ok_def ent_slice)

lemma new_MemTable_holds: "mem_holds ucmp valid new_MemTable []"
  using new_skiplist_inv by (simp add: mem_holds_def new_MemTable_def)

context comparator
begin

lemma ent_compare:
  assumes "ent_ok valid (s, t, key, val)" and "ent_ok valid (s', t', key', val')"
  shows "KeyComparator cmp (mem_entry s t key val) (mem_entry s' t' key' val') =
    InternalCompare cmp (ikey s t key) (ikey s' t' key')"
  using assms by (simp add: KeyComparator_def ent_slice del: ent_ok.simps)

lemma lookup_compare:
  assumes "ent_ok valid (s, t, key, val)" and "length key' + 8 < 2 ^ 32"
  shows "KeyComparator cmp (mem_entry s t key val) (memtable_key key' s') =
    InternalCompare cmp (ikey s t key) (ikey s' kTypeValue key')"
  using assms mem_slice_bytes [of "ikey s' kTypeValue key'" "[]"]
  by (simp add: KeyComparator_def ent_slice memtable_key_bytes del: ent_ok.simps)

lemma ikey_less:
  assumes "valid key" and "valid key'"
  shows "InternalCompare cmp (ikey s t key) (ikey s' t' key') < 0 \<longleftrightarrow>
    cmp key key' < 0 \<or> key = key' \<and> PackSequenceAndType s' t' < PackSequenceAndType s t"
  using cmp_eq [OF assms] by (auto simp: InternalCompare_tag Let_def)

lemma ikey_eq:
  assumes "valid key" and "valid key'"
  shows "InternalCompare cmp (ikey s t key) (ikey s' t' key') = 0 \<longleftrightarrow>
    key = key' \<and> PackSequenceAndType s t = PackSequenceAndType s' t'"
  using cmp_eq [OF assms] by (auto simp: InternalCompare_tag Let_def)

lemma Add_holds:
  assumes holds: "mem_holds cmp valid mt es" and e: "ent_ok valid (s, t, key, val)"
    and new: "\<forall>e\<in>set es. ent_key e \<noteq> key \<or> ent_tag e \<noteq> PackSequenceAndType s t"
  shows "\<exists>mt'. MemTable_Add cmp s t key val mt = Some mt' \<and> mem_holds cmp valid mt' (es @ [(s, t, key, val)])"
proof -
  let ?b = "mem_entry s t key val"
  have inv: "sl_inv (KeyComparator cmp) (mem_ok valid) (mt_table mt)"
    and keys: "set (sl_keys (mt_table mt)) = ent_bytes ` set es" and es: "list_all (ent_ok valid) es"
    using holds by (simp_all add: mem_holds_def)
  have "\<forall>k\<in>set (sl_keys (mt_table mt)). KeyComparator cmp k ?b \<noteq> 0"
  proof (unfold keys, intro ballI)
    fix k assume "k \<in> ent_bytes ` set es"
    then obtain s' t' key' val' where k: "k = mem_entry s' t' key' val'" "(s', t', key', val') \<in> set es"
      by (auto elim!: ent_bytes.elims)
    then have ok: "ent_ok valid (s', t', key', val')" using es by (auto simp: list_all_iff)
    then show "KeyComparator cmp k ?b \<noteq> 0"
      using new k e by (force simp: ent_compare [OF ok e] ikey_eq)
  qed
  then obtain sl' where sl': "Insert (KeyComparator cmp) ?b (mt_table mt) = Some sl'"
    "sl_inv (KeyComparator cmp) (mem_ok valid) sl'"
    "sl_keys sl' = takeWhile (\<lambda>k. KeyComparator cmp k ?b < 0) (sl_keys (mt_table mt)) @ ?b #
      dropWhile (\<lambda>k. KeyComparator cmp k ?b < 0) (sl_keys (mt_table mt))"
    using key_order.Insert_inv [OF mem_order inv] ent_mem_ok [OF e] by fastforce
  have "set (sl_keys sl') = insert ?b (set (sl_keys (mt_table mt)))"
    unfolding sl'(3) by (metis Un_insert_right list.set(2) set_append takeWhile_dropWhile_id)
  then show ?thesis using sl'(1,2) keys es e by (simp add: MemTable_Add_def mem_holds_def)
qed

end

section \<open>Get\<close>

lemma take5_varint:
  "GetVarint32Ptr (take 5 (EncodeVarint32 v @ xs)) = Some (v, take (5 - length (EncodeVarint32 v)) xs)"
  "drop (length (take 5 (EncodeVarint32 v @ xs)) - length (take (5 - length (EncodeVarint32 v)) xs)) (EncodeVarint32 v @ xs) = xs"
proof -
  have "length (EncodeVarint32 v) \<le> 5" using varint_bytes_32_length [of v] by (simp add: EncodeVarint32_bytes)
  then have take: "take 5 (EncodeVarint32 v @ xs) = EncodeVarint32 v @ take (5 - length (EncodeVarint32 v)) xs" by simp
  show "GetVarint32Ptr (take 5 (EncodeVarint32 v @ xs)) = Some (v, take (5 - length (EncodeVarint32 v)) xs)"
    unfolding take by (rule GetVarint32Ptr_EncodeVarint32)
  show "drop (length (take 5 (EncodeVarint32 v @ xs)) - length (take (5 - length (EncodeVarint32 v)) xs)) (EncodeVarint32 v @ xs) = xs"
    unfolding take by simp
qed

lemma get_entry_run:
  assumes "ent_ok valid (s, t, key, val)"
  shows "get_entry ucmp ukey (mem_entry s t key val) v st =
    Some (if ucmp key ukey = 0
          then case t of kTypeValue \<Rightarrow> (True, val, st) | kTypeDeletion \<Rightarrow> (True, v, NotFound [])
          else (False, v, st))"
proof -
  have ok: "s \<le> kMaxSequenceNumber" "length key + 8 < 2 ^ 32" "length val < 2 ^ 32" using assms by simp_all
  let ?n = "of_nat (length key + 8) :: u32"
  have entry: "mem_entry s t key val = EncodeVarint32 ?n @ ikey s t key @ slice_bytes val"
    by (simp add: mem_entry_bytes slice_bytes_def)
  have n: "unat ?n = length key + 8" using ok(2) by (simp only: unat_of_nat take_bit_nat_eq_self) simp
  have "?n - 8 = of_nat (length key)" by simp
  then have n8: "unat (?n - 8) = length key" using ok(2) by (simp only: unat_of_nat take_bit_nat_eq_self) simp
  have parts: "take (length key) (ikey s t key @ slice_bytes val) = key"
    "DecodeFixed64 (drop (length key) (ikey s t key @ slice_bytes val)) = PackSequenceAndType s t"
    "drop (length key + 8) (ikey s t key @ slice_bytes val) = slice_bytes val"
    by (simp_all add: ikey_def)
  have val: "mem_slice (slice_bytes val) = Some (val, [])" using mem_slice_bytes [OF ok(3), of "[]"] by simp
  show ?thesis
    unfolding get_entry_def entry take5_varint(1) Option.bind.simps prod.case Let_def take5_varint(2) n n8 parts
      pack_parts(1) [OF ok(1)] val
    by (cases t) simp_all
qed

context key_order
begin

lemma seek_least:
  assumes inv: "sl_inv cmp ok sl" and key: "ok key"
  obtains it where "iter_Seek cmp sl key = Some it"
    and "case iter_key sl it of
        None \<Rightarrow> \<forall>k\<in>set (sl_keys sl). cmp k key < 0
      | Some x \<Rightarrow> x \<in> set (sl_keys sl) \<and> \<not> cmp x key < 0 \<and>
          (\<forall>k\<in>set (sl_keys sl). \<not> cmp k key < 0 \<longrightarrow> k = x \<or> cmp x k < 0)"
proof -
  let ?P = "\<lambda>k. cmp k key < 0"
  let ?ks = "sl_keys sl"
  let ?i = "length (takeWhile ?P ?ks)"
  have seek: "iter_Seek cmp sl key = Some (sl_pos sl ?i)"
    using seek_inv [OF inv key] by (simp add: iter_Seek_def)
  have sorted: "sorted_wrt (\<lambda>a b. cmp a b < 0) ?ks" using inv by (simp add: sl_inv_def)
  show ?thesis
  proof (rule that [OF seek], cases "?i < length ?ks")
    case True
    then have k: "iter_key sl (sl_pos sl ?i) = Some (?ks ! ?i)"
      by (simp add: iter_key_def sl_pos_def sl_keys_def)
    have "k = ?ks ! ?i \<or> cmp (?ks ! ?i) k < 0" if "k \<in> set ?ks" "\<not> ?P k" for k
    proof -
      from that obtain j where j: "j < length ?ks" "k = ?ks ! j" by (auto simp: in_set_conv_nth)
      have "\<not> j < ?i" using that(2) j by (metis nth_mem set_takeWhileD takeWhile_nth)
      then show ?thesis using sorted j by (cases "j = ?i") (simp_all add: sorted_wrt_iff_nth_less)
    qed
    then show "case iter_key sl (sl_pos sl ?i) of None \<Rightarrow> \<forall>k\<in>set ?ks. ?P k
      | Some x \<Rightarrow> x \<in> set ?ks \<and> \<not> ?P x \<and> (\<forall>k\<in>set ?ks. \<not> ?P k \<longrightarrow> k = x \<or> cmp x k < 0)"
      using True nth_length_takeWhile [OF True] unfolding k by simp
  next
    case False
    then have k: "iter_key sl (sl_pos sl ?i) = None" by (simp add: iter_key_def sl_pos_def)
    have "takeWhile ?P ?ks = ?ks"
      using False length_takeWhile_le [of ?P ?ks] by (metis le_antisym linorder_not_less takeWhile_eq_take take_all)
    then have "\<forall>k\<in>set ?ks. ?P k" by (metis set_takeWhileD)
    then show "case iter_key sl (sl_pos sl ?i) of None \<Rightarrow> \<forall>k\<in>set ?ks. ?P k
      | Some x \<Rightarrow> x \<in> set ?ks \<and> \<not> ?P x \<and> (\<forall>k\<in>set ?ks. \<not> ?P k \<longrightarrow> k = x \<or> cmp x k < 0)"
      unfolding k by simp
  qed
qed

end

definition qualifies :: "u8 list \<Rightarrow> SequenceNumber \<Rightarrow> mem_ent \<Rightarrow> bool" where
  "qualifies key s e \<longleftrightarrow> ent_key e = key \<and> ent_tag e \<le> PackSequenceAndType s kTypeValue"

fun ent_result :: "mem_ent \<Rightarrow> u8 list \<Rightarrow> ldb_status \<Rightarrow> bool \<times> u8 list \<times> ldb_status" where
  "ent_result (s, t, key, val) v st =
     (case t of kTypeValue \<Rightarrow> (True, val, st) | kTypeDeletion \<Rightarrow> (True, v, NotFound []))"

context comparator
begin

lemma lookup_less:
  assumes "ent_ok valid e" and "valid key" and "length key + 8 < 2 ^ 32"
  shows "KeyComparator cmp (ent_bytes e) (memtable_key key s) < 0 \<longleftrightarrow>
    cmp (ent_key e) key < 0 \<or> ent_key e = key \<and> \<not> qualifies key s e"
  using assms lookup_compare [OF _ assms(3)]
  by (cases e) (auto simp: ikey_less qualifies_def not_le simp del: ent_ok.simps dest: ent_ok.simps [THEN iffD1])

lemma ent_less:
  assumes "ent_ok valid e" and "ent_ok valid e'"
  shows "KeyComparator cmp (ent_bytes e) (ent_bytes e') < 0 \<longleftrightarrow>
    cmp (ent_key e) (ent_key e') < 0 \<or> ent_key e = ent_key e' \<and> ent_tag e' < ent_tag e"
  using assms by (cases e; cases e') (auto simp: ent_compare ikey_less)

text \<open>The search stops at the newest entry of the key that the snapshot sees.\<close>

lemma Get_holds:
  assumes holds: "mem_holds cmp valid mt es" and key: "valid key" "length key + 8 < 2 ^ 32"
  shows "(\<forall>e\<in>set es. \<not> qualifies key s e) \<and> MemTable_Get cmp key s v st mt = Some (False, v, st) \<or>
    (\<exists>e\<in>set es. qualifies key s e \<and> (\<forall>e'\<in>set es. qualifies key s e' \<longrightarrow> ent_tag e' \<le> ent_tag e) \<and>
      MemTable_Get cmp key s v st mt = Some (ent_result e v st))"
proof -
  let ?lk = "memtable_key key s" and ?sl = "mt_table mt"
  have inv: "sl_inv (KeyComparator cmp) (mem_ok valid) ?sl"
    and keys: "set (sl_keys ?sl) = ent_bytes ` set es" and es: "\<And>e. e \<in> set es \<Longrightarrow> ent_ok valid e"
    using holds by (simp_all add: mem_holds_def list_all_iff)
  have ek: "valid (ent_key e)" if "e \<in> set es" for e using es [OF that] by (cases e) simp
  have "mem_ok valid ?lk"
    using key mem_slice_bytes [of "ikey s kTypeValue key" "[]"] by (simp add: mem_ok_def memtable_key_bytes)
  from key_order.seek_least [OF mem_order inv this] obtain it where
    seek: "iter_Seek (KeyComparator cmp) ?sl ?lk = Some it"
    and least: "case iter_key ?sl it of
        None \<Rightarrow> \<forall>k\<in>set (sl_keys ?sl). KeyComparator cmp k ?lk < 0
      | Some x \<Rightarrow> x \<in> set (sl_keys ?sl) \<and> \<not> KeyComparator cmp x ?lk < 0 \<and>
          (\<forall>k\<in>set (sl_keys ?sl). \<not> KeyComparator cmp k ?lk < 0 \<longrightarrow> k = x \<or> KeyComparator cmp x k < 0)" .
  note less = lookup_less [OF es key, of _ s]
  show ?thesis
  proof (cases "iter_key ?sl it")
    case None
    have "\<not> qualifies key s e" if "e \<in> set es" for e
      using least None that less [OF that] cmp_refl [OF key(1)] by (auto simp: keys qualifies_def)
    then show ?thesis using seek None by (simp add: MemTable_Get_def)
  next
    case (Some x)
    then obtain e where e: "e \<in> set es" "x = ent_bytes e" using least keys by auto
    have ge: "\<not> cmp (ent_key e) key < 0" "ent_key e = key \<Longrightarrow> qualifies key s e"
      using least Some e less [OF e(1)] by auto
    have rest: "e' \<in> set es \<Longrightarrow> qualifies key s e' \<Longrightarrow> ent_bytes e' = ent_bytes e \<or>
        cmp (ent_key e) (ent_key e') < 0 \<or> ent_key e = ent_key e' \<and> ent_tag e' < ent_tag e" for e'
      using least Some e less [of e'] ent_less [OF es [OF e(1)] es, of e'] cmp_refl [OF key(1)]
      by (auto simp: keys qualifies_def)
    have same: "ent_key e' = ent_key e \<and> ent_tag e' = ent_tag e" if "e' \<in> set es" "ent_bytes e' = ent_bytes e" for e'
      using ent_bytes_inj [OF es [OF that(1)] es [OF e(1)] that(2)] .
    have get: "MemTable_Get cmp key s v st mt =
        Some (if cmp (ent_key e) key = 0 then ent_result e v st else (False, v, st))"
      using seek Some e es [OF e(1)]
      by (cases e) (simp add: MemTable_Get_def lookup_user_key_eq get_entry_run del: ent_ok.simps split: ValueType.split)
    show ?thesis
    proof (cases "ent_key e = key")
      case True
      have "ent_tag e' \<le> ent_tag e" if "e' \<in> set es" "qualifies key s e'" for e'
        using rest [OF that] same [OF that(1)] that(2) cmp_refl [OF key(1)] True
        by (auto simp: qualifies_def)
      then show ?thesis using e(1) ge(2) True get cmp_refl [OF key(1)] by auto
    next
      case False
      then have ne: "cmp (ent_key e) key \<noteq> 0" using cmp_eq [OF ek [OF e(1)] key(1)] by simp
      have "\<not> qualifies key s e'" if "e' \<in> set es" for e'
      proof
        assume q: "qualifies key s e'"
        then have "ent_key e' = key" by (simp add: qualifies_def)
        then show False using rest [OF that q] same [OF that] False ge(1) by metis
      qed
      then show ?thesis using get ne by simp
    qed
  qed
qed

end

text \<open>The iterator of the memtable yields the entries, decoded.\<close>

lemma mem_iter_entry:
  assumes holds: "mem_holds ucmp valid mt es" and i: "i < length (sl_keys (mt_table mt))"
  shows "\<exists>s t key val. (s, t, key, val) \<in> set es \<and>
    mem_key mt (sl_pos (mt_table mt) i) = Some (ikey s t key) \<and> mem_value mt (sl_pos (mt_table mt) i) = Some val"
proof -
  have k: "iter_key (mt_table mt) (sl_pos (mt_table mt) i) = Some (sl_keys (mt_table mt) ! i)"
    using i by (simp add: iter_key_def sl_pos_def sl_keys_def)
  have "sl_keys (mt_table mt) ! i \<in> ent_bytes ` set es" using holds i nth_mem by (metis mem_holds_def)
  then obtain s t key val where e: "(s, t, key, val) \<in> set es" "sl_keys (mt_table mt) ! i = mem_entry s t key val"
    by (auto elim!: ent_bytes.elims)
  then have ok: "ent_ok valid (s, t, key, val)" using holds by (auto simp: mem_holds_def list_all_iff)
  then have "mem_slice (slice_bytes val) = Some (val, [])" using mem_slice_bytes [of val "[]"] by simp
  then show ?thesis using e k ent_slice [OF ok] by (auto simp: mem_key_def mem_value_def)
qed

section \<open>Operations in order\<close>

datatype batch_op = Put_op (op_key: "u8 list") "u8 list" | Delete_op (op_key: "u8 list")

primrec op_result :: "batch_op \<Rightarrow> u8 list option" where
  "op_result (Put_op key val) = Some val"
| "op_result (Delete_op key) = None"

text \<open>The abstract database: a key that was never written, deleted, or has a value.\<close>

definition replay :: "batch_op list \<Rightarrow> u8 list \<rightharpoonup> u8 list option" where
  "replay ops = fold (\<lambda>p m. m(op_key p \<mapsto> op_result p)) ops Map.empty"

lemma replay_snoc: "replay (ops @ [p]) = (replay ops)(op_key p \<mapsto> op_result p)"
  by (simp add: replay_def)

lemma replay_None: "replay ops key = None \<longleftrightarrow> (\<forall>p\<in>set ops. op_key p \<noteq> key)"
  by (induction ops rule: rev_induct) (auto simp: replay_snoc replay_def)

lemma replay_last:
  "i < length ops \<Longrightarrow> op_key (ops ! i) = key \<Longrightarrow> (\<And>j. i < j \<Longrightarrow> j < length ops \<Longrightarrow> op_key (ops ! j) \<noteq> key) \<Longrightarrow>
    replay ops key = Some (op_result (ops ! i))"
proof (induction ops rule: rev_induct)
  case (snoc p ops)
  show ?case
  proof (cases "i = length ops")
    case True
    then show ?thesis using snoc.prems by (simp add: replay_snoc)
  next
    case False
    then have i: "i < length ops" using snoc.prems(1) by simp
    have "op_key p \<noteq> key" using snoc.prems(3) [of "length ops"] i by simp
    moreover have "replay ops key = Some (op_result (ops ! i))"
    proof (rule snoc.IH [OF i])
      show "op_key (ops ! i) = key" using i snoc.prems(2) by (simp add: nth_append)
      show "op_key (ops ! j) \<noteq> key" if "i < j" "j < length ops" for j
        using snoc.prems(3) [of j] that by (simp add: nth_append)
    qed
    ultimately show ?thesis using i by (simp add: replay_snoc nth_append)
  qed
qed simp

primrec op_ent :: "nat \<Rightarrow> batch_op \<Rightarrow> mem_ent" where
  "op_ent s (Put_op key val) = (of_nat s, kTypeValue, key, val)"
| "op_ent s (Delete_op key) = (of_nat s, kTypeDeletion, key, [])"

primrec op_ok :: "(u8 list \<Rightarrow> bool) \<Rightarrow> batch_op \<Rightarrow> bool" where
  "op_ok valid (Put_op key val) \<longleftrightarrow> valid key \<and> length key + 8 < 2 ^ 32 \<and> length val < 2 ^ 32"
| "op_ok valid (Delete_op key) \<longleftrightarrow> valid key \<and> length key + 8 < 2 ^ 32"

definition log_ents :: "nat \<Rightarrow> batch_op list \<Rightarrow> mem_ent list" where
  "log_ents s0 ops = map (\<lambda>i. op_ent (s0 + i) (ops ! i)) [0..<length ops]"

definition mem_log :: "compare_op \<Rightarrow> (u8 list \<Rightarrow> bool) \<Rightarrow> nat \<Rightarrow> batch_op list \<Rightarrow> memtable \<Rightarrow> bool" where
  "mem_log ucmp valid s0 ops mt \<longleftrightarrow> mem_holds ucmp valid mt (log_ents s0 ops) \<and> s0 + length ops \<le> 2 ^ 56"

lemma log_ents_snoc: "log_ents s0 (ops @ [p]) = log_ents s0 ops @ [op_ent (s0 + length ops) p]"
  by (auto simp: log_ents_def nth_append)

lemma seq_nat:
  assumes "n < 2 ^ 56"
  shows "unat (of_nat n :: u64) = n" and "of_nat n \<le> kMaxSequenceNumber"
proof -
  show u: "unat (of_nat n :: u64) = n" using assms by (simp add: unat_of_nat take_bit_nat_eq_self)
  then show "of_nat n \<le> kMaxSequenceNumber"
    using assms by (simp add: word_le_nat_alt kMaxSequenceNumber_def)
qed

lemma op_ent_simps [simp]: "ent_key (op_ent s p) = op_key p"
  by (cases p) simp_all

lemma op_ent_tag:
  assumes "n < 2 ^ 56" and "m < 2 ^ 56"
  shows "ent_tag (op_ent n p) \<le> PackSequenceAndType (of_nat m) kTypeValue \<longleftrightarrow> n \<le> m"
    and "n < m \<Longrightarrow> ent_tag (op_ent n p) < ent_tag (op_ent m p')"
proof -
  have lt: "(of_nat n :: u64) < of_nat m \<longleftrightarrow> n < m" "(of_nat n :: u64) = of_nat m \<longleftrightarrow> n = m"
    "(of_nat m :: u64) < of_nat n \<longleftrightarrow> m < n"
    by (simp_all only: word_less_nat_alt word_unat_eq_iff seq_nat(1) [OF assms(1)] seq_nat(1) [OF assms(2)])
  note less = pack_less_iff [OF seq_nat(2) seq_nat(2)]
  show "ent_tag (op_ent n p) \<le> PackSequenceAndType (of_nat m) kTypeValue \<longleftrightarrow> n \<le> m"
    unfolding not_less [symmetric] by (cases p) (auto simp: less [OF assms(2,1)] lt)
  show "n < m \<Longrightarrow> ent_tag (op_ent n p) < ent_tag (op_ent m p')"
    by (cases p; cases p') (auto simp: less [OF assms] lt)
qed

lemma set_log_ents: "e \<in> set (log_ents s0 ops) \<longleftrightarrow> (\<exists>i<length ops. e = op_ent (s0 + i) (ops ! i))"
  by (auto simp: log_ents_def)

definition op_add :: "compare_op \<Rightarrow> nat \<Rightarrow> batch_op \<Rightarrow> memtable \<Rightarrow> memtable option" where
  "op_add ucmp n p = (case op_ent n p of (s, t, key, val) \<Rightarrow> MemTable_Add ucmp s t key val)"

definition found :: "u8 list option option \<Rightarrow> u8 list \<Rightarrow> ldb_status \<Rightarrow> bool \<times> u8 list \<times> ldb_status" where
  "found r v st =
     (case r of
        None \<Rightarrow> (False, v, st)
      | Some None \<Rightarrow> (True, v, NotFound [])
      | Some (Some w) \<Rightarrow> (True, w, st))"

lemma found_op: "found (Some (op_result p)) v st = ent_result (op_ent n p) v st"
  by (cases p) (simp_all add: found_def)

text \<open>The operations a snapshot sees, of those numbered from \<open>s0\<close> on.\<close>

definition visible :: "nat \<Rightarrow> nat \<Rightarrow> batch_op list \<Rightarrow> batch_op list" where
  "visible s0 s ops = take (s + 1 - s0) ops"

context comparator
begin

lemma op_add_log:
  assumes "mem_log cmp valid s0 ops mt" and "op_ok valid p" and "s0 + length ops < 2 ^ 56"
  shows "\<exists>mt'. op_add cmp (s0 + length ops) p mt = Some mt' \<and> mem_log cmp valid s0 (ops @ [p]) mt'"
proof -
  obtain s t key val where e: "op_ent (s0 + length ops) p = (s, t, key, val)" by (cases "op_ent (s0 + length ops) p") auto
  have ok: "ent_ok valid (s, t, key, val)"
    using assms(2) e seq_nat(2) [OF assms(3)] by (cases p) auto
  have "\<forall>e\<in>set (log_ents s0 ops). ent_key e \<noteq> key \<or> ent_tag e \<noteq> PackSequenceAndType s t"
  proof
    fix e' assume "e' \<in> set (log_ents s0 ops)"
    then obtain i where i: "i < length ops" "e' = op_ent (s0 + i) (ops ! i)" by (auto simp: set_log_ents)
    have "ent_tag e' < ent_tag (op_ent (s0 + length ops) p)"
      unfolding i(2) using i(1) assms(3) by (intro op_ent_tag(2)) simp_all
    then show "ent_key e' \<noteq> key \<or> ent_tag e' \<noteq> PackSequenceAndType s t" by (auto simp: e)
  qed
  then show ?thesis
    using Add_holds [OF _ ok, of mt "log_ents s0 ops"] assms(1,3) e
    by (auto simp: mem_log_def op_add_def log_ents_snoc)
qed

lemma Get_log:
  assumes log: "mem_log cmp valid s0 ops mt" and key: "valid key" "length key + 8 < 2 ^ 32" and s: "s < 2 ^ 56"
  shows "MemTable_Get cmp key (of_nat s) v st mt = Some (found (replay (visible s0 s ops) key) v st)"
proof -
  let ?vis = "visible s0 s ops" and ?es = "log_ents s0 ops"
  have bound: "\<And>i. i < length ops \<Longrightarrow> s0 + i < 2 ^ 56" using log by (simp add: mem_log_def)
  have qual: "qualifies key (of_nat s) (op_ent (s0 + i) (ops ! i)) \<longleftrightarrow> i < length ?vis \<and> op_key (?vis ! i) = key"
    if "i < length ops" for i
    using that op_ent_tag(1) [OF bound [OF that] s] by (auto simp: qualifies_def visible_def)
  have holds: "mem_holds cmp valid mt ?es" using log by (simp add: mem_log_def)
  from Get_holds [OF holds key, of "of_nat s" v st] show ?thesis
  proof (elim disjE conjE bexE)
    assume none: "\<forall>e\<in>set ?es. \<not> qualifies key (of_nat s) e" and get: "MemTable_Get cmp key (of_nat s) v st mt = Some (False, v, st)"
    have "op_key p \<noteq> key" if "p \<in> set ?vis" for p
    proof -
      from that obtain i where i: "i < length ?vis" "p = ?vis ! i" by (auto simp: in_set_conv_nth)
      then have "i < length ops" by (simp add: visible_def)
      then have "op_ent (s0 + i) (ops ! i) \<in> set ?es" by (auto simp: set_log_ents)
      then show ?thesis using none qual [OF \<open>i < length ops\<close>] i by blast
    qed
    then have "replay ?vis key = None" by (simp add: replay_None)
    then show ?thesis using get by (simp add: found_def)
  next
    fix e assume e: "e \<in> set ?es" "qualifies key (of_nat s) e"
      and last: "\<forall>e'\<in>set ?es. qualifies key (of_nat s) e' \<longrightarrow> ent_tag e' \<le> ent_tag e"
      and get: "MemTable_Get cmp key (of_nat s) v st mt = Some (ent_result e v st)"
    from e(1) obtain i where i: "i < length ops" "e = op_ent (s0 + i) (ops ! i)" by (auto simp: set_log_ents)
    have vis: "i < length ?vis" "op_key (?vis ! i) = key" using e(2) i qual by auto
    have "op_key (?vis ! j) \<noteq> key" if j: "i < j" "j < length ?vis" for j
    proof
      assume "op_key (?vis ! j) = key"
      moreover have jl: "j < length ops" using j by (simp add: visible_def)
      moreover have "op_ent (s0 + j) (ops ! j) \<in> set ?es" using jl by (auto simp: set_log_ents)
      ultimately have "ent_tag (op_ent (s0 + j) (ops ! j)) \<le> ent_tag e"
        using last j qual [of j] by blast
      moreover have "ent_tag e < ent_tag (op_ent (s0 + j) (ops ! j))"
        unfolding i(2) using bound i(1) jl j(1) by (intro op_ent_tag(2)) simp_all
      ultimately show False by simp
    qed
    then have "replay ?vis key = Some (op_result (ops ! i))"
      using replay_last [OF vis] vis(1) by (simp add: visible_def)
    then show ?thesis using get found_op i(2) by simp
  qed
qed

end

section \<open>Batches\<close>

primrec op_bytes :: "batch_op \<Rightarrow> u8 list" where
  "op_bytes (Put_op key val) = 1 # slice_bytes key @ slice_bytes val"
| "op_bytes (Delete_op key) = 0 # slice_bytes key"

primrec add_op :: "batch_op \<Rightarrow> write_batch \<Rightarrow> write_batch" where
  "add_op (Put_op key val) = wb_Put key val"
| "add_op (Delete_op key) = wb_Delete key"

definition batch_of :: "batch_op list \<Rightarrow> write_batch" where
  "batch_of ops = fold add_op ops Clear"

definition wb_holds :: "write_batch \<Rightarrow> SequenceNumber \<Rightarrow> u32 \<Rightarrow> batch_op list \<Rightarrow> bool" where
  "wb_holds b s n ops \<longleftrightarrow> rep b = EncodeFixed64 s @ EncodeFixed32 n @ concat (map op_bytes ops)"

lemma wb_holds_parts:
  assumes "wb_holds b s n ops"
  shows "Sequence b = s" "Count b = n" "drop kHeader (rep b) = concat (map op_bytes ops)" "kHeader \<le> length (rep b)"
  using assms DecodeFixed32_EncodeFixed32 [of n "concat (map op_bytes ops)"]
  by (simp_all add: wb_holds_def Sequence_def Count_def kHeader_def)

lemma Clear_holds: "wb_holds Clear 0 0 []"
  by (simp add: wb_holds_def Clear_def kHeader_def EncodeFixed64_def EncodeFixed32_def bytes_le_def numeral_eq_Suc)

lemma SetCount_holds: "wb_holds b s n ops \<Longrightarrow> wb_holds (SetCount m b) s m ops"
  by (simp add: wb_holds_def SetCount_def put_bytes_eq)

lemma SetSequence_holds: "wb_holds b s n ops \<Longrightarrow> wb_holds (SetSequence s' b) s' n ops"
  by (simp add: wb_holds_def SetSequence_def put_bytes_eq)

lemma append_holds: "wb_holds b s n ops \<Longrightarrow> rep b' = rep b @ concat (map op_bytes ops') \<Longrightarrow> wb_holds b' s n (ops @ ops')"
  by (simp add: wb_holds_def)

lemma add_op_holds:
  assumes "wb_holds b s n ops"
  shows "wb_holds (add_op p b) s (n + 1) (ops @ [p])"
proof -
  have "wb_holds (SetCount (n + 1) b) s (n + 1) ops" by (rule SetCount_holds [OF assms])
  moreover have "rep (add_op p b) = rep (SetCount (n + 1) b) @ concat (map op_bytes [p])"
    by (cases p) (simp_all add: wb_Put_def wb_Delete_def Let_def PutLengthPrefixedSlice_bytes wb_holds_parts [OF assms])
  ultimately show ?thesis by (rule append_holds)
qed

lemma batch_of_holds: "wb_holds (batch_of ops) 0 (of_nat (length ops)) ops"
proof (induction ops rule: rev_induct)
  case Nil
  then show ?case using Clear_holds by (simp add: batch_of_def)
next
  case (snoc p ops)
  then show ?case using add_op_holds [OF snoc, of p] by (simp add: batch_of_def add.commute)
qed

lemma wb_Append_holds:
  assumes "wb_holds b s n ops" and "wb_holds b' s' n' ops'"
  shows "wb_holds (wb_Append b b') s (n + n') (ops @ ops')"
  using SetCount_holds [OF assms(1), of "n + n'"]
  by (intro append_holds) (simp_all add: wb_Append_def Let_def wb_holds_parts [OF assms(1)] wb_holds_parts [OF assms(2)])

primrec handle :: "'s handler \<Rightarrow> batch_op \<Rightarrow> 's \<Rightarrow> 's option" where
  "handle h (Put_op key val) = h_Put h key val"
| "handle h (Delete_op key) = h_Delete h key"

primrec run_ops :: "'s handler \<Rightarrow> batch_op list \<Rightarrow> 's \<Rightarrow> 's option" where
  "run_ops h [] st = Some st"
| "run_ops h (p # ops) st = do { st \<leftarrow> handle h p st; run_ops h ops st }"

lemma run_ops_append: "run_ops h (ops @ ops') st = do { st \<leftarrow> run_ops h ops st; run_ops h ops' st }"
  by (induction ops arbitrary: st) (auto split: Option.bind_splits)

primrec op_fits :: "batch_op \<Rightarrow> bool" where
  "op_fits (Put_op key val) \<longleftrightarrow> length key < 2 ^ 32 \<and> length val < 2 ^ 32"
| "op_fits (Delete_op key) \<longleftrightarrow> length key < 2 ^ 32"

lemma iterate_loop_run:
  "list_all op_fits ops \<Longrightarrow>
    iterate_loop h n (concat (map op_bytes ops)) st =
      map_option (\<lambda>st. (Inr (n + of_nat (length ops)), st)) (run_ops h ops st)"
proof (induction ops arbitrary: n st)
  case (Cons p ops)
  note slice = GetLengthPrefixedSlice_bytes(1)
  show ?case
  proof (cases p)
    case (Put_op key val)
    then show ?thesis using Cons
      by (cases "h_Put h key val st") (simp_all add: slice Let_def add.assoc)
  next
    case (Delete_op key)
    then show ?thesis using Cons
      by (cases "h_Delete h key st") (simp_all add: slice Let_def add.assoc)
  qed
qed simp

lemma Iterate_run:
  assumes "wb_holds b s (of_nat (length ops)) ops" and "list_all op_fits ops"
  shows "Iterate h b st = map_option (Pair OK) (run_ops h ops st)"
  using wb_holds_parts [OF assms(1)] iterate_loop_run [OF assms(2), of h 0 st]
  by (cases "run_ops h ops st") (simp_all add: Iterate_def)

section \<open>Batches into a memtable\<close>

lemma op_ok_fits: "op_ok valid p \<Longrightarrow> op_fits p"
  by (cases p) simp_all

lemma handle_inserter:
  "handle (MemTableInserter ucmp) p \<lparr>ins_sequence = of_nat n, ins_mem = mt\<rparr> =
    map_option (\<lambda>mt. \<lparr>ins_sequence = of_nat (Suc n), ins_mem = mt\<rparr>) (op_add ucmp n p mt)"
proof (cases p)
  case (Put_op key val)
  then show ?thesis
    by (cases "MemTable_Add ucmp (of_nat n) kTypeValue key val mt")
      (simp_all add: MemTableInserter_def inserter_Put_def op_add_def add.commute)
next
  case (Delete_op key)
  then show ?thesis
    by (cases "MemTable_Add ucmp (of_nat n) kTypeDeletion key [] mt")
      (simp_all add: MemTableInserter_def inserter_Delete_def op_add_def add.commute)
qed

text \<open>Batches inserted one after the other, numbered from \<open>n\<close> on.\<close>

primrec insert_batches :: "compare_op \<Rightarrow> nat \<Rightarrow> batch_op list list \<Rightarrow> memtable \<Rightarrow> memtable option" where
  "insert_batches ucmp n [] mt = Some mt"
| "insert_batches ucmp n (ops # bs) mt =
     (case InsertInto ucmp (SetSequence (of_nat n) (batch_of ops)) mt of
        Some (OK, mt) \<Rightarrow> insert_batches ucmp (n + length ops) bs mt
      | _ \<Rightarrow> None)"

context comparator
begin

lemma run_ops_log:
  assumes "mem_log cmp valid s0 log mt" and "list_all (op_ok valid) ops" and "s0 + length log + length ops \<le> 2 ^ 56"
  shows "\<exists>mt'. run_ops (MemTableInserter cmp) ops \<lparr>ins_sequence = of_nat (s0 + length log), ins_mem = mt\<rparr> =
      Some \<lparr>ins_sequence = of_nat (s0 + length log + length ops), ins_mem = mt'\<rparr> \<and> mem_log cmp valid s0 (log @ ops) mt'"
  using assms
proof (induction ops arbitrary: log mt)
  case (Cons p ops)
  obtain mt1 where 1: "op_add cmp (s0 + length log) p mt = Some mt1" "mem_log cmp valid s0 (log @ [p]) mt1"
    using op_add_log [OF Cons.prems(1), of p] Cons.prems by auto
  have "\<exists>mt'. run_ops (MemTableInserter cmp) ops \<lparr>ins_sequence = of_nat (s0 + length (log @ [p])), ins_mem = mt1\<rparr> =
      Some \<lparr>ins_sequence = of_nat (s0 + length (log @ [p]) + length ops), ins_mem = mt'\<rparr> \<and>
      mem_log cmp valid s0 ((log @ [p]) @ ops) mt'"
    using Cons.prems by (intro Cons.IH [OF 1(2)]) simp_all
  then show ?case using 1(1) by (simp add: handle_inserter del: of_nat_Suc of_nat_add)
qed simp

lemma InsertInto_log:
  assumes "mem_log cmp valid s0 log mt" and "list_all (op_ok valid) ops" and "s0 + length log + length ops \<le> 2 ^ 56"
  shows "\<exists>mt'. InsertInto cmp (SetSequence (of_nat (s0 + length log)) (batch_of ops)) mt = Some (OK, mt') \<and>
    mem_log cmp valid s0 (log @ ops) mt'"
proof -
  define n where "n = s0 + length log"
  have b: "wb_holds (SetSequence (of_nat n) (batch_of ops)) (of_nat n) (of_nat (length ops)) ops"
    by (rule SetSequence_holds [OF batch_of_holds])
  have "list_all op_fits ops" using assms(2) op_ok_fits by (auto simp: list_all_iff)
  from Iterate_run [OF b this, of "MemTableInserter cmp"] run_ops_log [OF assms] show ?thesis
    unfolding n_def [symmetric] by (auto simp: InsertInto_def wb_holds_parts(1) [OF b])
qed

lemma insert_batches_log:
  assumes "mem_log cmp valid s0 log mt" and "\<forall>ops\<in>set bs. list_all (op_ok valid) ops"
    and "s0 + length log + length (concat bs) \<le> 2 ^ 56"
  shows "\<exists>mt'. insert_batches cmp (s0 + length log) bs mt = Some mt' \<and> mem_log cmp valid s0 (log @ concat bs) mt'"
  using assms
proof (induction bs arbitrary: log mt)
  case (Cons ops bs)
  obtain mt1 where 1: "InsertInto cmp (SetSequence (of_nat (s0 + length log)) (batch_of ops)) mt = Some (OK, mt1)"
    "mem_log cmp valid s0 (log @ ops) mt1"
    using InsertInto_log [OF Cons.prems(1), of ops] Cons.prems(2,3) by auto
  have "\<exists>mt'. insert_batches cmp (s0 + length (log @ ops)) bs mt1 = Some mt' \<and> mem_log cmp valid s0 ((log @ ops) @ concat bs) mt'"
    using Cons.prems by (intro Cons.IH [OF 1(2)]) simp_all
  then show ?case using 1(1) by (simp add: add.assoc del: of_nat_add)
qed simp

end

lemma new_MemTable_log: "s0 \<le> 2 ^ 56 \<Longrightarrow> mem_log ucmp valid s0 [] new_MemTable"
  using new_MemTable_holds by (simp add: mem_log_def log_ents_def)

section \<open>Properties\<close>

text \<open>
  C25. A batch hands its updates to a handler in the order in which they were put into it, whatever
  the handler does; so does a batch appended to another; count and sequence number are as set.
\<close>

theorem ldb_write_batch_roundtrip:
  assumes "list_all op_fits (ops @ ops')" and "length (ops @ ops') < 2 ^ 31"
  shows "Sequence (SetSequence s (batch_of ops)) = s \<and> Count (batch_of ops) = of_nat (length ops) \<and>
    Iterate h (SetSequence s (batch_of ops)) st = map_option (Pair OK) (run_ops h ops st) \<and>
    Iterate h (wb_Append (batch_of ops) (batch_of ops')) st = map_option (Pair OK) (run_ops h (ops @ ops') st)"
proof -
  have fits: "list_all op_fits ops" using assms(1) by simp
  have b: "wb_holds (SetSequence s (batch_of ops)) s (of_nat (length ops)) ops"
    by (rule SetSequence_holds [OF batch_of_holds])
  have a: "wb_holds (wb_Append (batch_of ops) (batch_of ops')) 0 (of_nat (length (ops @ ops'))) (ops @ ops')"
    using wb_Append_holds [OF batch_of_holds batch_of_holds] by simp
  show ?thesis
    by (intro conjI wb_holds_parts(1) [OF b] wb_holds_parts(2) [OF batch_of_holds] Iterate_run [OF b fits]
      Iterate_run [OF a assms(1)])
qed

definition log_handler :: "batch_op list handler" where
  "log_handler = \<lparr>h_Put = (\<lambda>k v l. Some (l @ [Put_op k v])), h_Delete = (\<lambda>k l. Some (l @ [Delete_op k]))\<rparr>"

theorem ldb_write_batch_roundtrip_witness:
  "Iterate log_handler (wb_Append (batch_of [Put_op [107] [1, 2]]) (batch_of [Delete_op [108], Put_op [107] []])) [] =
    Some (OK, [Put_op [107] [1, 2], Delete_op [108], Put_op [107] []])"
  using ldb_write_batch_roundtrip [of "[Put_op [107] [1, 2]]" "[Delete_op [108], Put_op [107] []]" 0 log_handler "[]"]
  by (simp add: log_handler_def)

text \<open>
  C26. Inserting batches into a memtable and looking keys up refines a map: \<open>Get\<close> at a snapshot
  returns the last value that an operation up to the snapshot put for the key, says \<open>NotFound\<close> when that
  operation deleted it, and returns false when there is none, whatever the heights of the skip list's
  nodes turn out to be.
\<close>

theorem ldb_memtable_refines:
  assumes "comparator ucmp separator successor valid" and "\<forall>ops\<in>set bs. list_all (op_ok valid) ops"
    and "s0 + length (concat bs) \<le> 2 ^ 56"
  shows "\<exists>mt. insert_batches ucmp s0 bs new_MemTable = Some mt \<and>
    (\<forall>key s v st. valid key \<and> length key + 8 < 2 ^ 32 \<and> s < 2 ^ 56 \<longrightarrow>
      MemTable_Get ucmp key (of_nat s) v st mt = Some (found (replay (visible s0 s (concat bs)) key) v st))"
proof -
  have "mem_log ucmp valid s0 [] new_MemTable" using assms(3) by (intro new_MemTable_log) simp
  from comparator.insert_batches_log [OF assms(1) this assms(2)] assms(3)
  obtain mt where mt: "insert_batches ucmp s0 bs new_MemTable = Some mt" "mem_log ucmp valid s0 (concat bs) mt"
    by auto
  then show ?thesis using comparator.Get_log [OF assms(1) mt(2)] by blast
qed

theorem ldb_memtable_refines_witness:
  "\<exists>mt. insert_batches Slice_compare 7 [[Put_op [107] [1]], [Put_op [108] [2], Delete_op [107]]] new_MemTable = Some mt \<and>
    MemTable_Get Slice_compare [107] 8 [] OK mt = Some (True, [1], OK) \<and>
    MemTable_Get Slice_compare [107] 9 [] OK mt = Some (True, [], NotFound []) \<and>
    MemTable_Get Slice_compare [108] 7 [] OK mt = Some (False, [], OK)"
proof -
  let ?bs = "[[Put_op [107] [1]], [Put_op [108] [2], Delete_op [107]]]"
  obtain mt where mt: "insert_batches Slice_compare 7 ?bs new_MemTable = Some mt"
    and get: "\<And>key s v st. length key + 8 < 2 ^ 32 \<Longrightarrow> s < 2 ^ 56 \<Longrightarrow>
      MemTable_Get Slice_compare key (of_nat s) v st mt = Some (found (replay (visible 7 s (concat ?bs)) key) v st)"
    using ldb_memtable_refines [OF bytewise.comparator_axioms, of ?bs 7] by auto
  show ?thesis
    using mt get [of "[107]" 8] get [of "[107]" 9] get [of "[108]" 7]
    by (intro exI [of _ mt]) (simp add: found_def replay_def visible_def)
qed

end
