(* ===== verification/LdbFormat.thy ===== *)
theory LdbFormat
  imports LdbBlock LdbLog
begin

text \<open>
  Random access files (\<open>util/env_posix.cc\<close>), and the parts of a table file (\<open>table/format.cc\<close>): block
  handles, the footer and reading a block with its trailer. \<open>size_t\<close> is 64 bits wide and sums of sizes
  wrap around as in the code.

  \<open>None\<close> as the result of an operation is an access outside of the memory that holds the data.
\<close>

section \<open>Random access files\<close>

text \<open>
  \<open>Read(offset, n)\<close>: the result slice, and whether it lies in the scratch buffer.
\<close>

type_synonym 'k random_read = "u64 \<Rightarrow> u64 \<Rightarrow> 'k \<Rightarrow> (ldb_status \<times> u8 list \<times> bool \<times> 'k) option"

record 'k psys = "'k sys" +
  sys_pread :: "int \<Rightarrow> u64 \<Rightarrow> u64 \<Rightarrow> 'k \<Rightarrow> (errno + u8 list) \<times> 'k"

text \<open>
  \<open>ra_fd\<close> is \<open>None\<close> when the file is opened for every read; the limiter decides, and the constructor then
  closes the descriptor it got.
\<close>

record random_access_file =
  ra_fd :: "int option"
  ra_filename :: string

definition PosixRandomAccessFile :: "'k psys \<Rightarrow> string \<Rightarrow> int \<Rightarrow> bool \<Rightarrow> 'k \<Rightarrow> random_access_file \<times> 'k" where
  "PosixRandomAccessFile S filename fd acquired k =
     (\<lparr>ra_fd = (if acquired then Some fd else None), ra_filename = filename\<rparr>,
      if acquired then k else snd (sys_close S fd k))"

definition ra_Read :: "'k psys \<Rightarrow> random_access_file \<Rightarrow> 'k random_read" where
  "ra_Read S f offset n k =
     (let (opened, k) = (case ra_fd f of Some fd \<Rightarrow> (Inr fd, k) | None \<Rightarrow> sys_open_rdonly S (ra_filename f) k) in
      case opened of
        Inl e \<Rightarrow> Some (PosixError (sys.truncate S) (ra_filename f) e, [], False, k)
      | Inr fd \<Rightarrow>
          let (read, k) = sys_pread S fd n offset k;
              (status, res) = (case read of Inl e \<Rightarrow> (PosixError (sys.truncate S) (ra_filename f) e, []) | Inr bs \<Rightarrow> (OK, bs));
              k = (if ra_fd f = None then snd (sys_close S fd k) else k)
          in Some (status, res, True, k))"

record mmap_file =
  m_base :: "u8 list"
  m_filename :: string

definition PosixMmapReadableFile :: "string \<Rightarrow> u8 list \<Rightarrow> mmap_file" where
  "PosixMmapReadableFile filename base = \<lparr>m_base = base, m_filename = filename\<rparr>"

text \<open>The length of the mapped region is that of its bytes; \<open>EINVAL\<close> is 22.\<close>

definition mmap_Read :: "'k sys \<Rightarrow> mmap_file \<Rightarrow> 'k random_read" where
  "mmap_Read S f offset n k =
     (if offset + n > of_nat (length (m_base f)) then Some (PosixError S (m_filename f) (Errno 22), [], False, k)
      else if unat offset + unat n \<le> length (m_base f) then
        Some (OK, take (unat n) (drop (unat offset) (m_base f)), False, k)
      else None)"

section \<open>Block handles\<close>

record block_handle =
  bh_offset :: u64
  bh_size :: u64

definition kMaxEncodedLength :: nat where
  "kMaxEncodedLength = 10 + 10"

definition new_BlockHandle :: block_handle where
  "new_BlockHandle = \<lparr>bh_offset = NOT 0, bh_size = NOT 0\<rparr>"

definition bh_EncodeTo :: "block_handle \<Rightarrow> u8 list \<Rightarrow> u8 list" where
  "bh_EncodeTo h dst = PutVarint64 (PutVarint64 dst (bh_offset h)) (bh_size h)"

definition bh_DecodeFrom :: "u8 list \<Rightarrow> block_handle \<Rightarrow> ldb_status \<times> block_handle \<times> u8 list" where
  "bh_DecodeFrom inp h =
     (case GetVarint64 inp of
        (None, inp) \<Rightarrow> (Corruption ''bad block handle'', h, inp)
      | (Some off, inp) \<Rightarrow>
          (case GetVarint64 inp of
             (None, inp) \<Rightarrow> (Corruption ''bad block handle'', h\<lparr>bh_offset := off\<rparr>, inp)
           | (Some sz, inp) \<Rightarrow> (OK, h\<lparr>bh_offset := off, bh_size := sz\<rparr>, inp)))"

section \<open>Footer\<close>

record footer =
  metaindex_handle :: block_handle
  index_handle :: block_handle

definition kEncodedLength :: nat where
  "kEncodedLength = 2 * kMaxEncodedLength + 8"

definition kTableMagicNumber :: u64 where
  "kTableMagicNumber = 0xdb4775248b80fb57"

text \<open>\<open>resize\<close> cuts the string, or fills it up with zero bytes.\<close>

definition resize :: "nat \<Rightarrow> u8 list \<Rightarrow> u8 list" where
  "resize n s = take n s @ replicate (n - length s) 0"

definition ft_EncodeTo :: "footer \<Rightarrow> u8 list \<Rightarrow> u8 list" where
  "ft_EncodeTo f dst =
     (let dst = bh_EncodeTo (metaindex_handle f) dst;
          dst = bh_EncodeTo (index_handle f) dst;
          dst = resize (2 * kMaxEncodedLength) dst;
          dst = PutFixed32 dst (ucast (kTableMagicNumber AND 0xFFFFFFFF))
      in PutFixed32 dst (ucast (drop_bit 32 kTableMagicNumber)))"

text \<open>The size of the input is not looked at.\<close>

definition ft_DecodeFrom :: "u8 list \<Rightarrow> footer \<Rightarrow> (ldb_status \<times> footer \<times> u8 list) option" where
  "ft_DecodeFrom inp f =
     (if length inp < kEncodedLength then None
      else
        let magic_ptr = drop (kEncodedLength - 8) inp;
            magic_lo = DecodeFixed32 magic_ptr;
            magic_hi = DecodeFixed32 (drop 4 magic_ptr);
            magic = push_bit 32 (ucast magic_hi) OR ucast magic_lo :: u64
        in if magic \<noteq> kTableMagicNumber then Some (Corruption ''not an sstable (bad magic number)'', f, inp)
           else
             let (result, mh, rest) = bh_DecodeFrom inp (metaindex_handle f);
                 f = f\<lparr>metaindex_handle := mh\<rparr>;
                 (result, f, rest) =
                   (if result = OK then
                      let (result, ih, rest) = bh_DecodeFrom rest (index_handle f) in (result, f\<lparr>index_handle := ih\<rparr>, rest)
                    else (result, f, rest))
             in Some (result, f, if result = OK then drop 8 magic_ptr else rest))"

section \<open>Blocks in a file\<close>

definition kBlockTrailerSize :: nat where
  "kBlockTrailerSize = 5"

text \<open>\<open>port/port_stdcxx.h\<close> without the Snappy library: every call fails.\<close>

definition Snappy_Compress :: "u8 list \<Rightarrow> u8 list option" where
  "Snappy_Compress inp = None"

definition Snappy_GetUncompressedLength :: "u8 list \<Rightarrow> nat option" where
  "Snappy_GetUncompressedLength inp = None"

definition Snappy_Uncompress :: "u8 list \<Rightarrow> nat \<Rightarrow> u8 list option" where
  "Snappy_Uncompress inp len = None"

datatype CompressionType = kNoCompression | kSnappyCompression

primrec compression_code :: "CompressionType \<Rightarrow> u8" where
  "compression_code kNoCompression = 0"
| "compression_code kSnappyCompression = 1"

record block_contents =
  bc_data :: "u8 list"
  cachable :: bool
  heap_allocated :: bool

definition no_contents :: block_contents where
  "no_contents = \<lparr>bc_data = [], cachable = False, heap_allocated = False\<rparr>"

definition check_crc :: "u8 list \<Rightarrow> u64 \<Rightarrow> bool option" where
  "check_crc data n =
     (let m = n + 1 in
      if unat m + 4 \<le> length data
      then Some (Value 0 (take (unat m) data) = Unmask (DecodeFixed32 (drop (unat m) data))) else None)"

definition ReadBlock ::
  "'k random_read \<Rightarrow> bool \<Rightarrow> block_handle \<Rightarrow> 'k \<Rightarrow> (ldb_status \<times> block_contents \<times> 'k) option" where
  "ReadBlock read verify_checksums handle k =
     (let n = bh_size handle; trailer = of_nat kBlockTrailerSize in
      do {
        (s, data, in_buf, k) \<leftarrow> read (bh_offset handle) (n + trailer) k;
        if s \<noteq> OK then Some (s, no_contents, k)
        else if of_nat (length data) \<noteq> n + trailer then Some (Corruption ''truncated block read'', no_contents, k)
        else do {
          good \<leftarrow> (if verify_checksums then check_crc data n else Some True);
          if \<not> good then Some (Corruption ''block checksum mismatch'', no_contents, k)
          else if unat n \<ge> length data then None
          else
            let block_type = data ! unat n in
            if block_type = compression_code kNoCompression then
              Some (OK, \<lparr>bc_data = take (unat n) data, cachable = in_buf, heap_allocated = in_buf\<rparr>, k)
            else if block_type = compression_code kSnappyCompression then
              (case Snappy_GetUncompressedLength (take (unat n) data) of
                 None \<Rightarrow> Some (Corruption ''corrupted compressed block contents'', no_contents, k)
               | Some ulength \<Rightarrow>
                   (case Snappy_Uncompress (take (unat n) data) ulength of
                      None \<Rightarrow> Some (Corruption ''corrupted compressed block contents'', no_contents, k)
                    | Some u \<Rightarrow> Some (OK, \<lparr>bc_data = u, cachable = True, heap_allocated = True\<rparr>, k)))
            else Some (Corruption ''bad block type'', no_contents, k)
        }
      })"

section \<open>What a table needs of a file\<close>

text \<open>Reads within the contents succeed and return them.\<close>

locale random_file =
  fixes read :: "'k random_read"
    and good :: "'k \<Rightarrow> bool"
    and contents :: "'k \<Rightarrow> u8 list"
  assumes read_ok: "good k \<Longrightarrow> unat off + unat n \<le> length (contents k) \<Longrightarrow>
    \<exists>in_buf k'. read off n k = Some (OK, take (unat n) (drop (unat off) (contents k)), in_buf, k') \<and>
      good k' \<and> contents k' = contents k"

text \<open>\<open>pread(2)\<close> on the one file of the system of \<open>LdbEnv\<close>, without interruptions.\<close>

definition disk_psys :: "disk psys" where
  "disk_psys = sys.extend disk_sys
     \<lparr>sys_pread = (\<lambda>fd n off d. (Inr (take (unat n) (drop (unat off) (d_bytes d))), d))\<rparr>"

interpretation posix_random: random_file "ra_Read disk_psys f" "\<lambda>_. True" d_bytes
  by unfold_locales (auto simp: ra_Read_def disk_psys_def sys.defs disk_sys_def split: option.split)

interpretation mmap_random: random_file "mmap_Read disk_sys (PosixMmapReadableFile name bytes)"
  "\<lambda>_. length bytes < 2 ^ 64" "\<lambda>_. bytes"
proof
  fix k :: disk and off n :: u64
  assume len: "length bytes < 2 ^ 64" and le: "unat off + unat n \<le> length bytes"
  have "unat (off + n) = unat off + unat n" using le len by (simp add: unat_word_ariths(1))
  then have "\<not> off + n > of_nat (length bytes)"
    using le len by (simp add: word_less_nat_alt unat_of_nat take_bit_nat_eq_self)
  then show "\<exists>in_buf k'. mmap_Read disk_sys (PosixMmapReadableFile name bytes) off n k =
      Some (OK, take (unat n) (drop (unat off) bytes), in_buf, k') \<and> length bytes < 2 ^ 64 \<and> bytes = bytes"
    using le len by (auto simp: mmap_Read_def PosixMmapReadableFile_def)
qed

section \<open>Lemmas\<close>

definition bh_bytes :: "block_handle \<Rightarrow> u8 list" where
  "bh_bytes h = EncodeVarint64 (bh_offset h) @ EncodeVarint64 (bh_size h)"

lemma bh_EncodeTo_bytes: "bh_EncodeTo h dst = dst @ bh_bytes h"
  by (simp add: bh_EncodeTo_def bh_bytes_def PutVarint64_def)

lemma bh_DecodeFrom_bytes: "bh_DecodeFrom (bh_bytes h @ xs) h' = (OK, h, xs)"
  by (cases h) (simp add: bh_DecodeFrom_def bh_bytes_def GetVarint64_PutVarint64)

lemma varint_bytes_length_le: "length (varint_bytes v) \<le> 10"
proof -
  have "unat w < 2 ^ (7 * Suc k) \<Longrightarrow> length (varint_bytes w) \<le> Suc k" for k and w :: u64
  proof (induction k arbitrary: w)
    case 0
    then have "w < 128" by (simp add: word_less_nat_alt)
    then show ?case by (simp add: varint_bytes.simps [of w])
  next
    case (Suc k)
    have "unat (drop_bit 7 w) < 2 ^ (7 * Suc k)"
      using Suc.prems by (simp add: unat_drop_bit less_mult_imp_div_less power_add)
    then show ?case using Suc.IH by (simp add: varint_bytes.simps [of w])
  qed
  from this [of v 9] show ?thesis using unat_bound [of v] by (simp add: less_trans [of _ "2 ^ 64"])
qed

lemma bh_bytes_length: "length (bh_bytes h) \<le> kMaxEncodedLength"
proof -
  have "length (EncodeVarint64 v) \<le> 10" for v
    by (simp add: EncodeVarint64_bytes varint_bytes_length_le)
  from this [of "bh_offset h"] this [of "bh_size h"] show ?thesis by (simp add: bh_bytes_def kMaxEncodedLength_def)
qed

definition ft_bytes :: "footer \<Rightarrow> u8 list" where
  "ft_bytes f =
     resize 40 (bh_bytes (metaindex_handle f) @ bh_bytes (index_handle f)) @
     EncodeFixed32 0x8b80fb57 @ EncodeFixed32 0xdb477524"

lemma ft_EncodeTo_bytes: "ft_EncodeTo f [] = ft_bytes f"
  by (simp add: ft_EncodeTo_def ft_bytes_def bh_EncodeTo_bytes kMaxEncodedLength_def PutFixed32_def kTableMagicNumber_def Let_def)

lemma length_ft_bytes: "length (ft_bytes f) = kEncodedLength"
  using bh_bytes_length [of "metaindex_handle f"] bh_bytes_length [of "index_handle f"]
  by (simp add: ft_bytes_def resize_def kEncodedLength_def kMaxEncodedLength_def)

lemma ft_DecodeFrom_bytes: "ft_DecodeFrom (ft_bytes f) f' = Some (OK, f, [])"
proof -
  let ?h = "bh_bytes (metaindex_handle f) @ bh_bytes (index_handle f)"
  have len: "length ?h \<le> 40"
    using bh_bytes_length [of "metaindex_handle f"] bh_bytes_length [of "index_handle f"] by (simp add: kMaxEncodedLength_def)
  have l40: "length (resize 40 ?h) = 40" using len by (simp add: resize_def)
  have magic: "drop (kEncodedLength - 8) (ft_bytes f) = EncodeFixed32 0x8b80fb57 @ EncodeFixed32 0xdb477524"
    using l40 by (simp add: ft_bytes_def kEncodedLength_def kMaxEncodedLength_def)
  obtain xs where "ft_bytes f = bh_bytes (metaindex_handle f) @ bh_bytes (index_handle f) @ xs"
    using len by (simp add: ft_bytes_def resize_def)
  moreover have "DecodeFixed32 (EncodeFixed32 (0xdb477524 :: u32)) = 0xdb477524"
    using DecodeFixed32_EncodeFixed32 [of _ "[]"] by simp
  ultimately show ?thesis
    unfolding ft_DecodeFrom_def magic using length_ft_bytes [of f]
    by (simp add: Let_def kTableMagicNumber_def bh_DecodeFrom_bytes)
qed

text \<open>A block with its trailer, as the table builder writes it.\<close>

definition raw_block :: "CompressionType \<Rightarrow> u8 list \<Rightarrow> u8 list" where
  "raw_block t bs =
     bs @ [compression_code t] @ EncodeFixed32 (Mask (Extend 0 (Extend 0 0 bs) [compression_code t]))"

lemma length_raw_block: "length (raw_block t bs) = length bs + kBlockTrailerSize"
  by (simp add: raw_block_def kBlockTrailerSize_def)

context random_file
begin

lemma ReadBlock_raw:
  assumes good: "good k" and raw: "take (length bs + 5) (drop (unat (bh_offset h)) (contents k)) = raw_block kNoCompression bs"
    and len: "length bs < 2 ^ 32" "bh_size h = of_nat (length bs)"
  shows "\<exists>in_buf k'. ReadBlock read verify h k =
      Some (OK, \<lparr>bc_data = bs, cachable = in_buf, heap_allocated = in_buf\<rparr>, k') \<and> good k' \<and> contents k' = contents k"
proof -
  let ?n = "bh_size h" and ?raw = "raw_block kNoCompression bs"
  have n: "unat ?n = length bs" using len by (simp add: unat_of_nat take_bit_nat_eq_self)
  have n5: "unat (?n + of_nat kBlockTrailerSize) = length bs + 5"
    using len(1) n by (simp add: unat_word_ariths(1) kBlockTrailerSize_def)
  have n1: "unat (?n + 1) = length bs + 1" using len(1) n by (simp add: unat_word_ariths(1))
  have len_raw: "length ?raw = length bs + 5" by (simp add: length_raw_block kBlockTrailerSize_def)
  have "length (take (length bs + 5) (drop (unat (bh_offset h)) (contents k))) = length bs + 5"
    unfolding raw by (rule len_raw)
  then have "unat (bh_offset h) + unat (?n + of_nat kBlockTrailerSize) \<le> length (contents k)"
    unfolding n5 by simp
  from read_ok [OF good this] obtain in_buf k' where
    read: "read (bh_offset h) (?n + of_nat kBlockTrailerSize) k = Some (OK, ?raw, in_buf, k')" "good k'" "contents k' = contents k"
    unfolding n5 raw by blast
  have "(of_nat (length ?raw) :: u64) = ?n + of_nat kBlockTrailerSize"
    unfolding len_raw len(2) by (simp add: kBlockTrailerSize_def)
  moreover have "check_crc ?raw ?n = Some True"
    unfolding check_crc_def Let_def n1 using DecodeFixed32_EncodeFixed32 [of _ "[]"]
    by (simp add: raw_block_def Value_def ldb_crc_append Unmask_Mask)
  moreover have "?raw ! unat ?n = 0" "take (unat ?n) ?raw = bs" unfolding n by (simp_all add: raw_block_def)
  moreover have "\<not> unat ?n \<ge> length ?raw" using n len_raw by simp
  ultimately show ?thesis using read by (simp add: ReadBlock_def Let_def)
qed

end

section \<open>Properties\<close>

text \<open>
  C29. A damaged handle can make \<open>ReadBlock\<close> look outside of the memory it read into: a size of
  \<open>2 ^ 64 - 1\<close> plus the trailer wraps around to 4 bytes, which are read and accepted as complete, and the
  type of the block is then looked up at a place before them; in a mapped file an offset of
  \<open>2 ^ 64 - 1\<close> passes the check of the range for the same reason.
\<close>

theorem ldb_read_block_wraps:
  assumes "4 \<le> length bytes" and "length bytes < 2 ^ 64" and "d_bytes d = bytes"
  shows "ReadBlock (ra_Read disk_psys f) False \<lparr>bh_offset = 0, bh_size = 0xFFFFFFFFFFFFFFFF\<rparr> d = None \<and>
    ReadBlock (mmap_Read disk_sys (PosixMmapReadableFile name bytes)) True
      \<lparr>bh_offset = 0xFFFFFFFFFFFFFFFF, bh_size = 0\<rparr> d = None"
proof
  have "length (take 4 bytes) = 4" using assms(1) by simp
  moreover have "ra_Read disk_psys f 0 4 d = Some (OK, take 4 bytes, True, d)"
    using assms(3) by (cases "ra_fd f") (simp_all add: ra_Read_def disk_psys_def sys.defs disk_sys_def)
  moreover have n: "(0xFFFFFFFFFFFFFFFF :: u64) + of_nat kBlockTrailerSize = 4" "unat (0xFFFFFFFFFFFFFFFF :: u64) = 2 ^ 64 - 1"
    by (simp_all add: kBlockTrailerSize_def)
  ultimately show "ReadBlock (ra_Read disk_psys f) False \<lparr>bh_offset = 0, bh_size = 0xFFFFFFFFFFFFFFFF\<rparr> d = None"
    unfolding ReadBlock_def Let_def block_handle.simps n by simp
  have "\<not> (4 :: u64) > of_nat (length bytes)"
    using assms(1,2) by (simp add: word_less_nat_alt unat_of_nat take_bit_nat_eq_self)
  moreover have w: "(0xFFFFFFFFFFFFFFFF :: u64) + 5 = 4" "unat (0xFFFFFFFFFFFFFFFF :: u64) = 2 ^ 64 - 1" by simp_all
  ultimately have "mmap_Read disk_sys (PosixMmapReadableFile name bytes) 0xFFFFFFFFFFFFFFFF 5 d = None"
    using assms(2) unfolding mmap_Read_def w by (simp add: PosixMmapReadableFile_def)
  then show "ReadBlock (mmap_Read disk_sys (PosixMmapReadableFile name bytes)) True
      \<lparr>bh_offset = 0xFFFFFFFFFFFFFFFF, bh_size = 0\<rparr> d = None"
    by (simp add: ReadBlock_def kBlockTrailerSize_def Let_def)
qed

theorem ldb_read_block_wraps_witness:
  "ReadBlock (ra_Read disk_psys \<lparr>ra_fd = Some 3, ra_filename = ''t''\<rparr>) False \<lparr>bh_offset = 0, bh_size = 0xFFFFFFFFFFFFFFFF\<rparr>
      \<lparr>d_bytes = [1, 2, 3, 4], d_at = 0, d_tape = []\<rparr> = None \<and>
    ReadBlock (mmap_Read disk_sys (PosixMmapReadableFile ''t'' [1, 2, 3, 4])) True
      \<lparr>bh_offset = 0xFFFFFFFFFFFFFFFF, bh_size = 0\<rparr> \<lparr>d_bytes = [1, 2, 3, 4], d_at = 0, d_tape = []\<rparr> = None"
  by (rule ldb_read_block_wraps) simp_all

end
