(* ===== verification/LdbBloom.thy ===== *)
theory LdbBloom
  imports LdbKey
begin

text \<open>
  The hash function of \<open>util/hash.cc\<close>, filter policies (\<open>include/leveldb/filter_policy.h\<close>), the Bloom
  filter (\<open>util/bloom.cc\<close>) and the policy on internal keys (\<open>db/dbformat.cc\<close>). What the tables need of a
  policy is the locale \<open>filter_laws\<close>: a filter never denies a key that is in it.
\<close>

section \<open>Hash\<close>

fun hash_words :: "u8 list \<Rightarrow> u32 \<Rightarrow> u32 \<times> u8 list" where
  "hash_words (a # b # c # d # data) h =
     (let w = DecodeFixed32 [a, b, c, d];
          h = h + w;
          h = h * 0xc6a4a793;
          h = h XOR drop_bit 16 h
      in hash_words data h)"
| "hash_words data h = (h, data)"

definition hash_rest :: "u8 list \<Rightarrow> u32 \<Rightarrow> u32" where
  "hash_rest data h =
     (let n = length data;
          h = (if n = 3 then h + push_bit 16 (ucast (data ! 2)) else h);
          h = (if n = 3 \<or> n = 2 then h + push_bit 8 (ucast (data ! 1)) else h)
      in if n = 3 \<or> n = 2 \<or> n = 1 then
           let h = h + ucast (data ! 0); h = h * 0xc6a4a793 in h XOR drop_bit 24 h
         else h)"

definition Hash :: "u8 list \<Rightarrow> u32 \<Rightarrow> u32" where
  "Hash data seed =
     (let n = of_nat (length data) :: u64;
          h = ucast (ucast seed XOR n * 0xc6a4a793)
      in case hash_words data h of (h, data) \<Rightarrow> hash_rest data h)"

section \<open>Filter policies\<close>

text \<open>\<open>CreateFilter\<close> appends to its last argument.\<close>

record filter_policy =
  fp_Name :: "u8 list"
  fp_CreateFilter :: "u8 list list \<Rightarrow> u8 list \<Rightarrow> u8 list"
  fp_KeyMayMatch :: "u8 list \<Rightarrow> u8 list \<Rightarrow> bool"

locale filter_laws =
  fixes create :: "u8 list list \<Rightarrow> u8 list \<Rightarrow> u8 list"
    and matches :: "u8 list \<Rightarrow> u8 list \<Rightarrow> bool"
    and alike :: "u8 list \<Rightarrow> u8 list \<Rightarrow> bool"
  assumes create_appends: "create keys dst = dst @ create keys []"
    and no_false_negative: "length keys < 2 ^ 31 \<Longrightarrow> k' \<in> set keys \<Longrightarrow> alike k k' \<Longrightarrow> matches k (create keys [])"

section \<open>Bloom filter\<close>

text \<open>
  The product of a non-negative \<open>int\<close> and the \<open>double\<close> nearest to 0.69, in multiples of \<open>2 ^ -53\<close>: rounded
  to 53 binary digits, ties to even.
\<close>

fun bit_len :: "nat \<Rightarrow> nat" where
  "bit_len n = (if n = 0 then 0 else Suc (bit_len (n div 2)))"

declare bit_len.simps [simp del]

definition times_069 :: "nat \<Rightarrow> nat" where
  "times_069 bits_per_key =
     (let p = bits_per_key * 6214967485771284; e = bit_len p - 53; q = p div 2 ^ e; r = p mod 2 ^ e in
      if 0 < e \<and> (2 * r > 2 ^ e \<or> 2 * r = 2 ^ e \<and> odd q) then (q + 1) * 2 ^ e else q * 2 ^ e)"

record bloom =
  bits_per_key :: nat
  probes :: nat

definition new_bloom :: "nat \<Rightarrow> bloom" where
  "new_bloom bits =
     (let k = times_069 bits div 2 ^ 53;
          k = (if k < 1 then 1 else k);
          k = (if k > 30 then 30 else k)
      in \<lparr>bits_per_key = bits, probes = k\<rparr>)"

definition BloomHash :: "u8 list \<Rightarrow> u32" where
  "BloomHash key = Hash key 0xbc9f1d34"

definition rotate17 :: "u32 \<Rightarrow> u32" where
  "rotate17 h = drop_bit 17 h OR push_bit 15 h"

definition bitpos :: "u64 \<Rightarrow> u32 \<Rightarrow> u32" where
  "bitpos bits h = ucast (ucast h mod bits)"

primrec add_probes :: "nat \<Rightarrow> u64 \<Rightarrow> u32 \<Rightarrow> u32 \<Rightarrow> u8 list \<Rightarrow> u8 list" where
  "add_probes 0 bits delta h array = array"
| "add_probes (Suc j) bits delta h array =
     (let bp = bitpos bits h; i = unat (bp div 8);
          array = array[i := array ! i OR push_bit (unat (bp mod 8)) 1]
      in add_probes j bits delta (h + delta) array)"

definition add_key :: "nat \<Rightarrow> u64 \<Rightarrow> u8 list \<Rightarrow> u8 list \<Rightarrow> u8 list" where
  "add_key k bits key array = (let h = BloomHash key in add_probes k bits (rotate17 h) h array)"

definition bloom_CreateFilter :: "bloom \<Rightarrow> u8 list list \<Rightarrow> u8 list \<Rightarrow> u8 list" where
  "bloom_CreateFilter b keys dst =
     (let bits = of_nat (length keys) * of_nat (bits_per_key b) :: u64;
          bits = (if bits < 64 then 64 else bits);
          bytes = (bits + 7) div 8;
          bits = bytes * 8;
          array = fold (add_key (probes b) bits) keys (replicate (unat bytes) 0)
      in dst @ array @ [of_nat (probes b)])"

primrec test_probes :: "nat \<Rightarrow> u64 \<Rightarrow> u32 \<Rightarrow> u32 \<Rightarrow> u8 list \<Rightarrow> bool" where
  "test_probes 0 bits delta h array = True"
| "test_probes (Suc j) bits delta h array =
     (let bp = bitpos bits h in
      if array ! unat (bp div 8) AND push_bit (unat (bp mod 8)) 1 = 0 then False
      else test_probes j bits delta (h + delta) array)"

definition bloom_KeyMayMatch :: "u8 list \<Rightarrow> u8 list \<Rightarrow> bool" where
  "bloom_KeyMayMatch key bloom_filter =
     (let len = length bloom_filter in
      if len < 2 then False
      else
        let bits = (of_nat len - 1) * 8 :: u64; k = scast (bloom_filter ! (len - 1)) :: u64 in
        if k > 30 then True
        else let h = BloomHash key in test_probes (unat k) bits (rotate17 h) h bloom_filter)"

definition bloom_policy :: "bloom \<Rightarrow> filter_policy" where
  "bloom_policy b =
     \<lparr>fp_Name = map (of_nat \<circ> of_char) ''leveldb.BuiltinBloomFilter2'',
      fp_CreateFilter = bloom_CreateFilter b, fp_KeyMayMatch = bloom_KeyMayMatch\<rparr>"

section \<open>The policy on internal keys\<close>

definition InternalFilterPolicy :: "filter_policy \<Rightarrow> filter_policy" where
  "InternalFilterPolicy user_policy =
     \<lparr>fp_Name = fp_Name user_policy,
      fp_CreateFilter = (\<lambda>keys dst. fp_CreateFilter user_policy (map ExtractUserKey keys) dst),
      fp_KeyMayMatch = (\<lambda>key f. fp_KeyMayMatch user_policy (ExtractUserKey key) f)\<rparr>"

section \<open>No false negatives\<close>

definition bit_at :: "u8 list \<Rightarrow> nat \<Rightarrow> bool" where
  "bit_at array i \<longleftrightarrow> bit (array ! (i div 8)) (i mod 8)"

lemma bit_at_set:
  assumes "i div 8 < length array"
  shows "bit_at (array[i div 8 := array ! (i div 8) OR push_bit (i mod 8) 1]) j \<longleftrightarrow> j = i \<or> bit_at array j"
proof (cases "j div 8 = i div 8")
  case True
  have "bit (push_bit (i mod 8) 1 :: u8) (j mod 8) \<longleftrightarrow> j mod 8 = i mod 8"
    by (auto simp: bit_simps)
  moreover have "j mod 8 = i mod 8 \<longleftrightarrow> j = i" using True by (metis div_mult_mod_eq)
  ultimately show ?thesis using True assms by (auto simp: bit_at_def bit_or_iff)
next
  case False
  then show ?thesis by (auto simp: bit_at_def)
qed

lemma unat_div_mod_8: "unat (w div 8) = unat w div 8" "unat (w mod 8) = unat w mod 8" for w :: u32
  by (simp_all add: unat_div unat_mod)

lemma add_probes_Suc:
  "add_probes (Suc j) bits delta h array =
    add_probes j bits delta (h + delta)
      (array[unat (bitpos bits h) div 8 :=
        array ! (unat (bitpos bits h) div 8) OR push_bit (unat (bitpos bits h) mod 8) 1])"
  by (simp add: Let_def unat_div_mod_8)

lemma test_probes_Suc:
  "test_probes (Suc j) bits delta h array \<longleftrightarrow>
    bit_at array (unat (bitpos bits h)) \<and> test_probes j bits delta (h + delta) array"
  by (simp add: Let_def unat_div_mod_8 and_exp_eq_0_iff_not_bit bit_at_def)

lemmas probe_steps = add_probes_Suc test_probes_Suc

definition all_bits :: "u64 \<Rightarrow> u8 list \<Rightarrow> bool" where
  "all_bits bits array \<longleftrightarrow> 0 < bits \<and> unat bits = 8 * length array"

lemma bitpos_bound: "all_bits bits array \<Longrightarrow> unat (bitpos bits h) div 8 < length array"
proof -
  assume a: "all_bits bits array"
  have "unat (ucast h mod bits :: u64) < unat bits"
    using a by (cases array) (simp_all add: all_bits_def unat_mod word_gt_0 unat_eq_0)
  moreover have "unat (bitpos bits h) \<le> unat (ucast h mod bits :: u64)"
    by (simp add: bitpos_def unsigned_ucast_eq take_bit_nat_less_eq_self)
  ultimately show ?thesis using a by (auto simp: all_bits_def)
qed

lemma all_bits_update [simp]: "all_bits bits (array[i := b]) = all_bits bits array"
  by (simp add: all_bits_def)

lemma add_probes_keeps:
  "all_bits bits array \<Longrightarrow> all_bits bits (add_probes k bits delta h array) \<and>
    (bit_at array i \<longrightarrow> bit_at (add_probes k bits delta h array) i)"
proof (induction k arbitrary: array h)
  case (Suc k)
  then show ?case unfolding probe_steps using bit_at_set [OF bitpos_bound [OF Suc.prems]] by simp
qed simp

lemma test_probes_mono:
  "(\<And>i. bit_at a i \<Longrightarrow> bit_at a' i) \<Longrightarrow> test_probes k bits delta h a \<Longrightarrow> test_probes k bits delta h a'"
  by (induction k arbitrary: h) (simp_all add: test_probes_Suc del: test_probes.simps(2))

lemma test_add_probes:
  "all_bits bits array \<Longrightarrow> test_probes k bits delta h (add_probes k bits delta h array)"
proof (induction k arbitrary: array h)
  case (Suc k)
  let ?a = "array[unat (bitpos bits h) div 8 :=
        array ! (unat (bitpos bits h) div 8) OR push_bit (unat (bitpos bits h) mod 8) 1]"
  have "bit_at ?a (unat (bitpos bits h))" using bit_at_set [OF bitpos_bound [OF Suc.prems]] by simp
  then show ?case
    unfolding probe_steps using add_probes_keeps [of bits ?a] Suc by simp
qed simp

lemma fold_add_key_keeps:
  "all_bits bits array \<Longrightarrow> all_bits bits (fold (add_key k bits) keys array) \<and>
    (bit_at array i \<longrightarrow> bit_at (fold (add_key k bits) keys array) i)"
proof (induction keys arbitrary: array)
  case (Cons key keys)
  then show ?case
    using add_probes_keeps [OF Cons.prems] by (simp add: add_key_def Let_def)
qed simp

lemma fold_add_key_tests:
  "all_bits bits array \<Longrightarrow> key \<in> set keys \<Longrightarrow>
    test_probes k bits (rotate17 (BloomHash key)) (BloomHash key) (fold (add_key k bits) keys array)"
proof (induction keys arbitrary: array)
  case (Cons key' keys)
  let ?a = "add_key k bits key' array"
  have a: "all_bits bits ?a" using add_probes_keeps [OF Cons.prems(1)] by (simp add: add_key_def Let_def)
  show ?case
  proof (cases "key = key'")
    case True
    have "test_probes k bits (rotate17 (BloomHash key)) (BloomHash key) ?a"
      using test_add_probes [OF Cons.prems(1)] True by (simp add: add_key_def Let_def)
    then show ?thesis using fold_add_key_keeps [OF a] by (auto intro: test_probes_mono)
  next
    case False
    then show ?thesis using Cons a by simp
  qed
qed simp

lemma test_probes_append:
  "all_bits bits array \<Longrightarrow> test_probes k bits delta h (array @ xs) = test_probes k bits delta h array"
proof (induction k arbitrary: h)
  case (Suc k)
  then show ?case
    unfolding test_probes_Suc using bitpos_bound [OF Suc.prems, of h] by (simp add: bit_at_def nth_append)
qed simp

lemma probes_range: "1 \<le> probes (new_bloom n) \<and> probes (new_bloom n) \<le> 30"
  by (simp add: new_bloom_def Let_def)

lemma scast_small:
  assumes "n \<le> 30"
  shows "(scast (of_nat n :: u8) :: u64) = of_nat n"
proof -
  have "sint (of_nat n :: u8) = int n"
    using assms by (simp add: signed_of_nat signed_take_bit_int_eq_self)
  then show ?thesis by (simp add: scast_eq)
qed

definition bloom_bytes :: "bloom \<Rightarrow> u8 list list \<Rightarrow> u64" where
  "bloom_bytes b keys =
     (let bits = of_nat (length keys) * of_nat (bits_per_key b) :: u64; bits = (if bits < 64 then 64 else bits)
      in (bits + 7) div 8)"

lemma bloom_bytes_bounds:
  assumes "length keys < 2 ^ 31" and "bits_per_key b < 2 ^ 31"
  shows "0 < unat (bloom_bytes b keys)" and "unat (bloom_bytes b keys) < 2 ^ 60"
proof -
  let ?bits = "of_nat (length keys) * of_nat (bits_per_key b) :: u64"
  let ?n = "length keys * bits_per_key b"
  have "?n \<le> 2 ^ 31 * 2 ^ 31" using assms by (intro mult_le_mono) simp_all
  then have n: "unat ?bits = ?n"
    by (simp only: of_nat_mult [symmetric] unat_of_nat) (simp add: take_bit_nat_eq_self)
  have "unat (bloom_bytes b keys) = ((if ?n < 64 then 64 else ?n) + 7) div 8"
  proof -
    have "?bits < 64 \<longleftrightarrow> ?n < 64" by (simp add: word_less_nat_alt n)
    moreover have "unat (?bits + 7) = ?n + 7" using \<open>?n \<le> 2 ^ 31 * 2 ^ 31\<close> by (simp add: unat_word_ariths(1) n)
    ultimately show ?thesis by (simp add: bloom_bytes_def unat_div)
  qed
  then show "0 < unat (bloom_bytes b keys)" "unat (bloom_bytes b keys) < 2 ^ 60"
    using \<open>?n \<le> 2 ^ 31 * 2 ^ 31\<close> by auto
qed

lemma bloom_match:
  assumes n: "length keys < 2 ^ 31" "bits_per_key b < 2 ^ 31" and key: "key \<in> set keys" and k: "probes b \<le> 30"
  shows "bloom_KeyMayMatch key (bloom_CreateFilter b keys [])"
proof -
  let ?bytes = "bloom_bytes b keys" and ?k = "probes b" and ?h = "BloomHash key"
  let ?array = "fold (add_key ?k (?bytes * 8)) keys (replicate (unat ?bytes) 0)"
  let ?f = "?array @ [of_nat ?k]"
  have create: "bloom_CreateFilter b keys [] = ?f"
    by (simp add: bloom_CreateFilter_def bloom_bytes_def Let_def)
  note bytes = bloom_bytes_bounds [OF n]
  have "unat (?bytes * 8) = 8 * unat ?bytes"
    using bytes(2) by (simp add: unat_word_ariths(2) mult.commute)
  then have all: "all_bits (?bytes * 8) (replicate (unat ?bytes) 0)"
    using bytes(1) by (auto simp: all_bits_def word_gt_0 unat_eq_0 dest: arg_cong [of _ 0 unat])
  then have array: "all_bits (?bytes * 8) ?array" by (simp add: fold_add_key_keeps)
  then have len: "length ?array = unat ?bytes"
    using \<open>unat (?bytes * 8) = 8 * unat ?bytes\<close> by (simp add: all_bits_def)
  have "test_probes ?k (?bytes * 8) (rotate17 ?h) ?h ?f"
    using fold_add_key_tests [OF all key] by (simp add: test_probes_append [OF array])
  moreover have "(of_nat (length ?f) - 1) * 8 = ?bytes * 8" by (simp add: len)
  moreover have "?f ! (length ?f - 1) = of_nat ?k" by (simp add: nth_append)
  moreover have "unat (of_nat ?k :: u64) = ?k" "\<not> (of_nat ?k :: u64) > 30"
    using k by (simp_all add: unat_of_nat take_bit_nat_eq_self word_less_nat_alt)
  moreover have "\<not> length ?f < 2" using bytes(1) len by simp
  ultimately show ?thesis
    unfolding create bloom_KeyMayMatch_def Let_def by (simp only: scast_small [OF k] if_False)
qed

lemma bloom_laws:
  assumes "bits_per_key b < 2 ^ 31" and "probes b \<le> 30"
  shows "filter_laws (bloom_CreateFilter b) bloom_KeyMayMatch (=)"
  using bloom_match [OF _ assms(1) _ assms(2)]
  by unfold_locales (simp_all add: bloom_CreateFilter_def Let_def)

interpretation bloom10: filter_laws "bloom_CreateFilter (new_bloom 10)" bloom_KeyMayMatch "(=)"
  by (rule bloom_laws) (use probes_range [of 10] in \<open>simp_all add: new_bloom_def Let_def\<close>)

text \<open>A policy on user keys makes one on internal keys.\<close>

context filter_laws
begin

lemma internal_laws:
  "filter_laws (\<lambda>keys dst. create (map ExtractUserKey keys) dst) (\<lambda>key f. matches (ExtractUserKey key) f)
    (\<lambda>k k'. alike (ExtractUserKey k) (ExtractUserKey k'))"
proof
  show "create (map ExtractUserKey keys) dst = dst @ create (map ExtractUserKey keys) []" for keys dst
    by (rule create_appends)
  show "matches (ExtractUserKey k) (create (map ExtractUserKey keys) [])"
    if "length keys < 2 ^ 31" "k' \<in> set keys" "alike (ExtractUserKey k) (ExtractUserKey k')" for keys k k'
    using that by (intro no_false_negative [where k' = "ExtractUserKey k'"]) simp_all
qed

end

interpretation internal_bloom10: filter_laws
  "fp_CreateFilter (InternalFilterPolicy (bloom_policy (new_bloom 10)))"
  "fp_KeyMayMatch (InternalFilterPolicy (bloom_policy (new_bloom 10)))"
  "\<lambda>k k'. ExtractUserKey k = ExtractUserKey k'"
  using bloom10.internal_laws by (simp add: InternalFilterPolicy_def bloom_policy_def)

text \<open>
  C27. A Bloom filter never denies a key it was made of, for every number of bits per key and every
  set of keys: whatever positions the hash functions choose are the ones that the test looks at.
\<close>

theorem ldb_bloom_no_false_negative:
  assumes "key \<in> set keys" and "length keys < 2 ^ 31" and "bits < 2 ^ 31"
  shows "\<exists>f. bloom_CreateFilter (new_bloom bits) keys dst = dst @ f \<and> bloom_KeyMayMatch key f"
proof -
  have "bits_per_key (new_bloom bits) < 2 ^ 31" using assms(3) by (simp add: new_bloom_def Let_def)
  then have "bloom_KeyMayMatch key (bloom_CreateFilter (new_bloom bits) keys [])"
    using bloom_match [OF assms(2) _ assms(1)] probes_range [of bits] by simp
  then show ?thesis by (auto simp: bloom_CreateFilter_def Let_def)
qed

theorem ldb_bloom_no_false_negative_witness:
  "\<exists>f. bloom_CreateFilter (new_bloom 10) [[104, 101, 108, 108, 111], [119]] [7] = [7] @ f \<and> bloom_KeyMayMatch [119] f"
  by (rule ldb_bloom_no_false_negative) simp_all

end
