(* ===== verification/LdbFilterBlock.thy ===== *)
theory LdbFilterBlock
  imports LdbBloom
begin

text \<open>
  The filter block of a table (\<open>table/filter_block.cc\<close>): one filter for the keys of the data blocks
  that start within the same 2 KB of the file, and the reader that asks the filter of a block. The
  policy is a parameter. A pointer into the contents is an offset.
\<close>

definition kFilterBaseLg :: nat where
  "kFilterBaseLg = 11"

definition kFilterBase :: u64 where
  "kFilterBase = push_bit kFilterBaseLg 1"

section \<open>Builder\<close>

record filter_builder =
  fb_keys :: "u8 list"
  fb_start :: "nat list"
  fb_result :: "u8 list"
  fb_offsets :: "u32 list"

definition new_filter_builder :: filter_builder where
  "new_filter_builder = \<lparr>fb_keys = [], fb_start = [], fb_result = [], fb_offsets = []\<rparr>"

definition GenerateFilter :: "filter_policy \<Rightarrow> filter_builder \<Rightarrow> filter_builder" where
  "GenerateFilter P fb =
     (let num_keys = length (fb_start fb) in
      if num_keys = 0 then fb\<lparr>fb_offsets := fb_offsets fb @ [of_nat (length (fb_result fb))]\<rparr>
      else
        let start = fb_start fb @ [length (fb_keys fb)];
            tmp_keys = map (\<lambda>i. take (start ! (i + 1) - start ! i) (drop (start ! i) (fb_keys fb))) [0..<num_keys];
            fb = fb\<lparr>fb_offsets := fb_offsets fb @ [of_nat (length (fb_result fb))]\<rparr>
        in fb\<lparr>fb_result := fp_CreateFilter P tmp_keys (fb_result fb), fb_keys := [], fb_start := []\<rparr>)"

lemma length_GenerateFilter: "length (fb_offsets (GenerateFilter P fb)) = Suc (length (fb_offsets fb))"
  by (simp add: GenerateFilter_def Let_def)

function generate_until :: "filter_policy \<Rightarrow> u64 \<Rightarrow> filter_builder \<Rightarrow> filter_builder" where
  "generate_until P filter_index fb =
     (if unat filter_index > length (fb_offsets fb) then generate_until P filter_index (GenerateFilter P fb) else fb)"
  by auto
termination
  by (relation "measure (\<lambda>(P, filter_index, fb). unat filter_index - length (fb_offsets fb))")
    (auto simp: length_GenerateFilter)

declare generate_until.simps [simp del]

definition StartBlock :: "filter_policy \<Rightarrow> u64 \<Rightarrow> filter_builder \<Rightarrow> filter_builder" where
  "StartBlock P block_offset fb = (let filter_index = block_offset div kFilterBase in generate_until P filter_index fb)"

definition AddKey :: "u8 list \<Rightarrow> filter_builder \<Rightarrow> filter_builder" where
  "AddKey k fb = fb\<lparr>fb_start := fb_start fb @ [length (fb_keys fb)], fb_keys := fb_keys fb @ k\<rparr>"

definition fb_Finish :: "filter_policy \<Rightarrow> filter_builder \<Rightarrow> u8 list \<times> filter_builder" where
  "fb_Finish P fb =
     (let fb = (if fb_start fb \<noteq> [] then GenerateFilter P fb else fb);
          array_offset = of_nat (length (fb_result fb)) :: u32;
          result = fold (\<lambda>off result. PutFixed32 result off) (fb_offsets fb) (fb_result fb);
          result = PutFixed32 result array_offset;
          result = result @ [of_nat kFilterBaseLg]
      in (result, fb\<lparr>fb_result := result\<rparr>))"

section \<open>Reader\<close>

record filter_reader =
  fr_data :: "u8 list"
  fr_offset :: nat
  fr_num :: nat
  fr_base_lg :: u64

definition new_filter_reader :: "u8 list \<Rightarrow> filter_reader" where
  "new_filter_reader contents =
     (let fr = \<lparr>fr_data = [], fr_offset = 0, fr_num = 0, fr_base_lg = 0\<rparr>; n = length contents in
      if n < 5 then fr
      else
        let fr = fr\<lparr>fr_base_lg := scast (contents ! (n - 1))\<rparr>;
            last_word = unat (DecodeFixed32 (drop (n - 5) contents))
        in if last_word > n - 5 then fr
           else fr\<lparr>fr_data := contents, fr_offset := last_word, fr_num := (n - 5 - last_word) div 4\<rparr>)"

definition fr_KeyMayMatch :: "filter_policy \<Rightarrow> filter_reader \<Rightarrow> u64 \<Rightarrow> u8 list \<Rightarrow> bool" where
  "fr_KeyMayMatch P fr block_offset key =
     (let index = drop_bit (unat (fr_base_lg fr)) block_offset in
      if unat index < fr_num fr then
        let start = unat (DecodeFixed32 (drop (fr_offset fr + unat index * 4) (fr_data fr)));
            limit = unat (DecodeFixed32 (drop (fr_offset fr + unat index * 4 + 4) (fr_data fr)))
        in if start \<le> limit \<and> limit \<le> fr_offset fr
           then fp_KeyMayMatch P key (take (limit - start) (drop start (fr_data fr)))
           else if start = limit then False
           else True
      else True)"

section \<open>What a builder holds\<close>

text \<open>The keys of each filter made so far, and the keys of the filter to come.\<close>

definition filter_of :: "filter_policy \<Rightarrow> u8 list list \<Rightarrow> u8 list" where
  "filter_of P keys = (if keys = [] then [] else fp_CreateFilter P keys [])"

definition filters_of :: "filter_policy \<Rightarrow> u8 list list list \<Rightarrow> u8 list" where
  "filters_of P groups = concat (map (filter_of P) groups)"

definition starts_of :: "u8 list list \<Rightarrow> nat list" where
  "starts_of ps = map (\<lambda>i. length (concat (take i ps))) [0..<length ps]"

definition fb_holds :: "filter_policy \<Rightarrow> u8 list list list \<Rightarrow> u8 list list \<Rightarrow> filter_builder \<Rightarrow> bool" where
  "fb_holds P groups ps fb \<longleftrightarrow>
     fb_keys fb = concat ps \<and> fb_start fb = starts_of ps \<and> fb_result fb = filters_of P groups \<and>
     fb_offsets fb = map (\<lambda>i. of_nat (length (filters_of P (take i groups)))) [0..<length groups]"

lemma new_filter_builder_holds: "fb_holds P [] [] new_filter_builder"
  by (simp add: fb_holds_def new_filter_builder_def starts_of_def filters_of_def)

lemma AddKey_holds: "fb_holds P groups ps fb \<Longrightarrow> fb_holds P groups (ps @ [k]) (AddKey k fb)"
  by (simp add: fb_holds_def AddKey_def starts_of_def)

lemma starts_of_keys:
  assumes "i < length ps"
  shows "let start = starts_of ps @ [length (concat ps)]
    in take (start ! (i + 1) - start ! i) (drop (start ! i) (concat ps)) = ps ! i"
proof -
  let ?start = "starts_of ps @ [length (concat ps)]"
  have at: "?start ! j = length (concat (take j ps))" if "j \<le> length ps" for j
    using that by (cases "j = length ps") (simp_all add: starts_of_def nth_append)
  have "concat ps = concat (take i ps) @ ps ! i @ concat (drop (Suc i) ps)"
    using assms by (metis append_take_drop_id concat.simps(2) concat_append id_take_nth_drop)
  moreover have "concat (take (Suc i) ps) = concat (take i ps) @ ps ! i"
    using assms by (simp add: take_Suc_conv_app_nth)
  ultimately show ?thesis using at [of i] at [of "Suc i"] assms by (simp add: Let_def)
qed

text \<open>\<open>log\<close> is the list of the keys added so far, each with the offset of its block.\<close>

definition placed :: "u8 list list list \<Rightarrow> u8 list list \<Rightarrow> (u64 \<times> u8 list) list \<Rightarrow> bool" where
  "placed groups ps log \<longleftrightarrow>
     (\<forall>(off, k)\<in>set log. let i = unat (off div kFilterBase) in
        i < length groups \<and> k \<in> set (groups ! i) \<or> i = length groups \<and> k \<in> set ps)"

context filter_laws
begin

lemma GenerateFilter_holds:
  assumes P: "fp_CreateFilter P = create" and fb: "fb_holds P groups ps fb"
  shows "fb_holds P (groups @ [ps]) [] (GenerateFilter P fb)"
proof -
  have offs: "map (\<lambda>i. of_nat (length (filters_of P (take i (groups @ [ps]))))) [0..<length (groups @ [ps])] =
      fb_offsets fb @ [of_nat (length (fb_result fb))]"
    using fb by (simp add: fb_holds_def)
  show ?thesis
  proof (cases "ps = []")
    case True
    then show ?thesis using fb offs
      by (simp add: fb_holds_def GenerateFilter_def Let_def starts_of_def filters_of_def filter_of_def)
  next
    case False
    let ?start = "fb_start fb @ [length (fb_keys fb)]"
    have "map (\<lambda>i. take (?start ! (i + 1) - ?start ! i) (drop (?start ! i) (fb_keys fb))) [0..<length (fb_start fb)] = ps"
      using fb starts_of_keys [of _ ps] by (intro nth_equalityI) (simp_all add: fb_holds_def Let_def starts_of_def)
    moreover have "fp_CreateFilter P ps (fb_result fb) = filters_of P (groups @ [ps])"
      using fb False create_appends [of ps "filters_of P groups"]
      by (simp add: fb_holds_def filters_of_def filter_of_def P)
    moreover have "length (fb_start fb) \<noteq> 0" using fb False by (simp add: fb_holds_def starts_of_def)
    ultimately show ?thesis
      unfolding fb_holds_def offs by (simp add: GenerateFilter_def Let_def starts_of_def)
  qed
qed

lemma generate_until_holds:
  assumes P: "fp_CreateFilter P = create"
  shows "fb_holds P groups ps fb \<Longrightarrow> placed groups ps log \<Longrightarrow> length (concat groups) + length ps = n \<Longrightarrow>
    length groups \<le> unat i \<Longrightarrow>
    \<exists>groups' ps'. fb_holds P groups' ps' (generate_until P i fb) \<and> placed groups' ps' log \<and>
      length (concat groups') + length ps' = n \<and> length groups' = unat i"
proof (induction "unat i - length groups" arbitrary: groups ps fb)
  case 0
  then have "length (fb_offsets fb) = unat i" by (simp add: fb_holds_def)
  then have "generate_until P i fb = fb" by (subst generate_until.simps) simp
  then show ?case using 0 by auto
next
  case (Suc d)
  have "length (fb_offsets fb) < unat i" using Suc.hyps(2) Suc.prems(1) by (simp add: fb_holds_def)
  then have step: "generate_until P i fb = generate_until P i (GenerateFilter P fb)"
    by (subst generate_until.simps) simp
  have holds: "fb_holds P (groups @ [ps]) [] (GenerateFilter P fb)"
    using GenerateFilter_holds [OF P Suc.prems(1)] .
  have "placed (groups @ [ps]) [] log"
    using Suc.prems(2) by (fastforce simp: placed_def Let_def nth_append)
  then show ?case
    unfolding step using Suc.hyps(2) Suc.prems(3) by (intro Suc.hyps(1) [OF _ holds]) simp_all
qed

lemma StartBlock_holds:
  assumes P: "fp_CreateFilter P = create" and "fb_holds P groups ps fb" and "placed groups ps log"
    and "length (concat groups) + length ps = n" and "length groups \<le> unat (off div kFilterBase)"
  shows "\<exists>groups' ps'. fb_holds P groups' ps' (StartBlock P off fb) \<and> placed groups' ps' log \<and>
      length (concat groups') + length ps' = n \<and> length groups' = unat (off div kFilterBase)"
  using generate_until_holds [OF assms] by (simp add: StartBlock_def)

end

lemma AddKey_placed:
  "placed groups ps log \<Longrightarrow> length groups = unat (off div kFilterBase) \<Longrightarrow> placed groups (ps @ [k]) (log @ [(off, k)])"
  by (fastforce simp: placed_def Let_def)

section \<open>Reading\<close>

definition filter_contents :: "filter_policy \<Rightarrow> u8 list list list \<Rightarrow> u8 list" where
  "filter_contents P groups =
     filters_of P groups @
     concat (map (\<lambda>i. EncodeFixed32 (of_nat (length (filters_of P (take i groups))))) [0..<length groups]) @
     EncodeFixed32 (of_nat (length (filters_of P groups))) @ [of_nat kFilterBaseLg]"

lemma fb_Finish_contents:
  assumes "filter_laws create matches alike" and P: "fp_CreateFilter P = create" and fb: "fb_holds P groups ps fb"
  shows "fst (fb_Finish P fb) = filter_contents P (groups @ (if ps = [] then [] else [ps]))"
proof (cases "ps = []")
  case True
  then have "fb_start fb = []" using fb by (simp add: fb_holds_def starts_of_def)
  then show ?thesis using fb True
    by (simp add: fb_Finish_def fb_holds_def filter_contents_def fold_PutFixed32 [unfolded PutFixed32_def] PutFixed32_def
      comp_def Let_def)
next
  case False
  have "fb_start fb \<noteq> []" using fb False by (simp add: fb_holds_def starts_of_def)
  moreover have "fb_holds P (groups @ [ps]) [] (GenerateFilter P fb)"
    by (rule filter_laws.GenerateFilter_holds [OF assms])
  ultimately show ?thesis using False
    by (simp add: fb_Finish_def fb_holds_def filter_contents_def fold_PutFixed32 [unfolded PutFixed32_def] PutFixed32_def
      comp_def Let_def)
qed

lemma filters_of_take: "j \<le> i \<Longrightarrow> \<exists>xs. filters_of P (take i groups) = filters_of P (take j groups) @ xs"
  unfolding filters_of_def by (metis concat_append map_append min.absorb1 take_add take_map le_add_diff_inverse)

lemma concat_fixed_drop:
  "j < length xs \<Longrightarrow> DecodeFixed32 (drop (4 * j) (concat (map EncodeFixed32 xs) @ ys)) = xs ! j"
proof (induction xs arbitrary: j)
  case (Cons x xs)
  then show ?case by (cases j) simp_all
qed simp

lemma fr_match:
  assumes laws: "filter_laws create matches alike" and P: "fp_CreateFilter P = create" "fp_KeyMayMatch P = matches"
    and small: "length (filter_contents P groups) < 2 ^ 32" and n: "length (concat groups) < 2 ^ 31"
    and i: "unat (off div kFilterBase) = i" "i < length groups" and k: "k' \<in> set (groups ! i)" "alike k k'"
  shows "fr_KeyMayMatch P (new_filter_reader (filter_contents P groups)) off k"
proof -
  let ?c = "filter_contents P groups" and ?f = "filters_of P groups" and ?m = "length groups"
  let ?len = "\<lambda>i. length (filters_of P (take i groups))"
  let ?offs = "map (\<lambda>i. of_nat (?len i) :: u32) [0..<Suc ?m]"
  have offs: "concat (map EncodeFixed32 ?offs) =
      concat (map (\<lambda>i. EncodeFixed32 (of_nat (?len i))) [0..<?m]) @ EncodeFixed32 (of_nat (length ?f))"
    by (simp add: comp_def)
  then have c: "?c = ?f @ concat (map EncodeFixed32 ?offs) @ [of_nat kFilterBaseLg]"
    by (simp add: filter_contents_def)
  have l4: "length (concat (map EncodeFixed32 xs)) = 4 * length xs" for xs by (induction xs) simp_all
  have len: "length ?c = length ?f + 4 * Suc ?m + 1" unfolding c length_append l4 [of ?offs] by simp
  have last: "drop (length ?c - 5) ?c = EncodeFixed32 (of_nat (length ?f)) @ [of_nat kFilterBaseLg]"
    unfolding filter_contents_def by simp
  have small': "length ?f < 2 ^ 32" using small len by simp
  have word: "unat (DecodeFixed32 (drop (length ?c - 5) ?c)) = length ?f"
    unfolding last using small' by (simp add: unat_of_nat take_bit_nat_eq_self)
  have "?c ! (length ?c - 1) = of_nat kFilterBaseLg" unfolding filter_contents_def by (simp add: nth_append)
  then have lg: "scast (?c ! (length ?c - 1)) = (11 :: u64)"
    using scast_small [of 11] by (simp add: kFilterBaseLg_def)
  have fr: "new_filter_reader ?c = \<lparr>fr_data = ?c, fr_offset = length ?f, fr_num = ?m, fr_base_lg = 11\<rparr>"
    using len word lg by (simp add: new_filter_reader_def Let_def)
  have index: "unat (drop_bit 11 off) = i"
    using i(1) by (simp add: unat_drop_bit unat_div kFilterBase_def kFilterBaseLg_def)
  have at: "unat (DecodeFixed32 (drop (length ?f + j * 4) ?c)) = ?len j" if "j \<le> ?m" for j
  proof -
    have "?len j \<le> length ?f" using filters_of_take [of j ?m P groups] that by auto
    then have "unat (of_nat (?len j) :: u32) = ?len j" using small' by (simp add: unat_of_nat take_bit_nat_eq_self)
    moreover have "drop (length ?f + j * 4) ?c = drop (4 * j) (concat (map EncodeFixed32 ?offs) @ [of_nat kFilterBaseLg])"
      unfolding c by (simp add: mult.commute)
    moreover have "?offs ! j = of_nat (?len j)" using that nth_upt [of 0 j "Suc ?m"] by (simp del: upt_Suc)
    ultimately show ?thesis using concat_fixed_drop [of j ?offs "[of_nat kFilterBaseLg]"] that by (simp del: upt_Suc)
  qed
  have "groups ! i \<noteq> []" using k(1) by auto
  then have fi: "filters_of P (take (Suc i) groups) = filters_of P (take i groups) @ create (groups ! i) []"
    using i(2) by (simp add: take_Suc_conv_app_nth filters_of_def filter_of_def P)
  obtain xs where "filters_of P (take ?m groups) = filters_of P (take (Suc i) groups) @ xs"
    using filters_of_take [of "Suc i" ?m P groups] i(2) by auto
  then have f: "?f = filters_of P (take i groups) @ create (groups ! i) [] @ xs" by (simp add: fi)
  have "take (?len (Suc i) - ?len i) (drop (?len i) ?c) = create (groups ! i) []"
    unfolding c f by (simp add: fi)
  moreover have "?len i \<le> ?len (Suc i)" "?len (Suc i) \<le> length ?f" using fi f by simp_all
  moreover have "length (groups ! i) < 2 ^ 31"
  proof -
    have "length (groups ! i) \<le> length (concat groups)"
      using i(2) elem_le_sum_list [of i "map length groups"] by (simp add: length_concat)
    then show ?thesis using n by simp
  qed
  then have "matches k (create (groups ! i) [])" by (rule filter_laws.no_false_negative [OF laws _ k])
  moreover have at_i: "unat (DecodeFixed32 (drop (length ?f + i * 4) ?c)) = ?len i"
    "unat (DecodeFixed32 (drop (length ?f + i * 4 + 4) ?c)) = ?len (Suc i)"
    using at [of i] at [of "Suc i"] i(2) by (simp_all add: add.assoc add.commute [of "i * 4"])
  moreover have "unat (drop_bit (unat (11 :: u64)) off) = i" using index by simp
  ultimately show ?thesis
    unfolding fr_KeyMayMatch_def fr filter_reader.simps Let_def using i(2) P(2) by simp
qed

section \<open>Property\<close>

definition add_block :: "filter_policy \<Rightarrow> u64 \<times> u8 list list \<Rightarrow> filter_builder \<Rightarrow> filter_builder" where
  "add_block P = (\<lambda>(off, ks) fb. fold AddKey ks (StartBlock P off fb))"

lemma fold_AddKey:
  "fb_holds P groups ps fb \<Longrightarrow> placed groups ps log \<Longrightarrow> length groups = unat (off div kFilterBase) \<Longrightarrow>
    fb_holds P groups (ps @ ks) (fold AddKey ks fb) \<and> placed groups (ps @ ks) (log @ map (Pair off) ks)"
proof (induction ks arbitrary: ps log fb)
  case (Cons k ks)
  show ?case
    using Cons.IH [OF AddKey_holds [OF Cons.prems(1), of k] AddKey_placed [OF Cons.prems(2,3), of k] Cons.prems(3)]
    by simp
qed simp

definition log_of :: "(u64 \<times> u8 list list) list \<Rightarrow> (u64 \<times> u8 list) list" where
  "log_of bs = concat (map (\<lambda>(off, ks). map (Pair off) ks) bs)"

lemma add_blocks_holds:
  assumes laws: "filter_laws create matches alike" and P: "fp_CreateFilter P = create"
  shows "sorted (map fst bs) \<Longrightarrow> \<exists>groups ps. fb_holds P groups ps (fold (add_block P) bs new_filter_builder) \<and>
    placed groups ps (log_of bs) \<and> length (concat groups) + length ps = length (log_of bs) \<and>
    length groups \<le> (if bs = [] then 0 else unat (fst (last bs) div kFilterBase))"
proof (induction bs rule: rev_induct)
  case Nil
  then show ?case using new_filter_builder_holds by (auto simp: placed_def log_of_def)
next
  case (snoc b bs)
  obtain off ks where b: "b = (off, ks)" by fastforce
  from snoc.prems have sorted: "sorted (map fst bs)" "\<forall>a\<in>set bs. fst a \<le> off" by (simp_all add: sorted_append b)
  from snoc.IH [OF sorted(1)] obtain groups ps where
    fb: "fb_holds P groups ps (fold (add_block P) bs new_filter_builder)" "placed groups ps (log_of bs)"
      "length (concat groups) + length ps = length (log_of bs)"
      "length groups \<le> (if bs = [] then 0 else unat (fst (last bs) div kFilterBase))" by blast
  have le: "length groups \<le> unat (off div kFilterBase)"
  proof (cases "bs = []")
    case False
    then have "fst (last bs) \<le> off" using sorted(2) by simp
    then have "unat (fst (last bs) div kFilterBase) \<le> unat (off div kFilterBase)"
      by (simp add: unat_div div_le_mono word_le_nat_alt)
    then show ?thesis using fb(4) False by simp
  qed (use fb(4) in simp)
  from filter_laws.StartBlock_holds [OF laws P fb(1-3) le] obtain groups' ps' where
    st: "fb_holds P groups' ps' (StartBlock P off (fold (add_block P) bs new_filter_builder))"
      "placed groups' ps' (log_of bs)" "length (concat groups') + length ps' = length (log_of bs)"
      "length groups' = unat (off div kFilterBase)" by blast
  show ?case
    using fold_AddKey [OF st(1,2,4), of ks] st(3,4)
    by (intro exI [of _ groups'] exI [of _ "ps' @ ks"]) (simp add: b add_block_def log_of_def)
qed

text \<open>
  C28. The filter block never denies a key of a block: for any policy that fulfils the laws, any
  sequence of data blocks at growing offsets and any of their keys, the reader on the finished filter
  block says that the key may be in the block at its offset.
\<close>

theorem ldb_filter_block_no_false_negative:
  assumes "filter_laws (fp_CreateFilter P) (fp_KeyMayMatch P) alike" and "sorted (map fst bs)"
    and "length (fst (fb_Finish P (fold (add_block P) bs new_filter_builder))) < 2 ^ 32"
    and "length (concat (map snd bs)) < 2 ^ 31"
    and "(off, ks) \<in> set bs" and "k' \<in> set ks" and "alike k k'"
  shows "fr_KeyMayMatch P (new_filter_reader (fst (fb_Finish P (fold (add_block P) bs new_filter_builder)))) off k"
proof -
  from add_blocks_holds [OF assms(1) refl assms(2)] obtain groups ps where
    fb: "fb_holds P groups ps (fold (add_block P) bs new_filter_builder)" "placed groups ps (log_of bs)"
      "length (concat groups) + length ps = length (log_of bs)" by blast
  let ?groups = "groups @ (if ps = [] then [] else [ps])"
  have fin: "fst (fb_Finish P (fold (add_block P) bs new_filter_builder)) = filter_contents P ?groups"
    by (rule fb_Finish_contents [OF assms(1) refl fb(1)])
  have "length (log_of bs) = length (concat (map snd bs))"
    by (induction bs) (auto simp: log_of_def)
  then have n: "length (concat ?groups) < 2 ^ 31" using fb(3) assms(4) by simp
  have "(off, k') \<in> set (log_of bs)" using assms(5,6) by (force simp: log_of_def)
  then have "unat (off div kFilterBase) < length ?groups \<and> k' \<in> set (?groups ! unat (off div kFilterBase))"
    using fb(2) by (fastforce simp: placed_def Let_def nth_append)
  then show ?thesis
    using fr_match [OF assms(1) refl refl _ n refl _ _ assms(7)] assms(3) unfolding fin by blast
qed

lemma length_add_key: "length (add_key k bits key array) = length array"
proof -
  have "length (add_probes k bits delta h array) = length array" for delta h
    by (induction k arbitrary: h array) (simp_all add: Let_def)
  then show ?thesis by (simp add: add_key_def Let_def)
qed

lemma length_bloom_filter:
  "length (bloom_CreateFilter b keys dst) = length dst + unat (bloom_bytes b keys) + 1"
proof -
  have "length (fold (add_key k bits) ks array) = length array" for k bits ks array
    by (induction ks arbitrary: array) (simp_all add: length_add_key)
  then show ?thesis by (simp add: bloom_CreateFilter_def bloom_bytes_def Let_def)
qed

lemma bits_new_bloom: "bits_per_key (new_bloom n) = n"
  by (simp add: new_bloom_def Let_def)

lemma generate_until_cases:
  "unat i \<le> length (fb_offsets fb) \<Longrightarrow> generate_until P i fb = fb"
  "unat i > length (fb_offsets fb) \<Longrightarrow> generate_until P i fb = generate_until P i (GenerateFilter P fb)"
  by (subst generate_until.simps; simp)+

theorem ldb_filter_block_no_false_negative_witness:
  "let P = bloom_policy (new_bloom 10); bs = [(0, [[97], [98]]), (100, [[99]]), (2500, [[100]])] in
    fr_KeyMayMatch P (new_filter_reader (fst (fb_Finish P (fold (add_block P) bs new_filter_builder)))) 100 [99]"
proof -
  let ?P = "bloom_policy (new_bloom 10)" and ?bs = "[(0, [[97], [98]]), (100, [[99]]), (2500, [[100]])] :: (u64 \<times> u8 list list) list"
  have laws: "filter_laws (fp_CreateFilter ?P) (fp_KeyMayMatch ?P) (=)"
    using bloom10.filter_laws_axioms by (simp add: bloom_policy_def)
  have "length (fst (fb_Finish ?P (fold (add_block ?P) ?bs new_filter_builder))) < 2 ^ 32"
    by (simp add: add_block_def StartBlock_def generate_until_cases GenerateFilter_def AddKey_def fb_Finish_def Let_def
        new_filter_builder_def kFilterBase_def kFilterBaseLg_def bloom_policy_def length_bloom_filter PutFixed32_def
        bloom_bytes_def bits_new_bloom)
  then show ?thesis
    unfolding Let_def by (intro ldb_filter_block_no_false_negative [OF laws, of _ _ "[[99]]" "[99]"]) simp_all
qed

end
