(* ===== verification/LdbTableBuilder.thy ===== *)
theory LdbTableBuilder
  imports LdbFormat LdbFilterBlock
begin

text \<open>
  Building a table (\<open>table/table_builder.cc\<close>): data blocks, the filter block, the metaindex and the
  index block, the footer. The file is written through the two operations of a \<open>WritableFile\<close>, which
  are parameters; their results are \<open>None\<close> when they do not return. Looking up the name of a filter policy
  that \<open>ChangeOptions\<close> took away has no result either.
\<close>

section \<open>Options\<close>

text \<open>A \<open>Comparator*\<close> is its address with its functions.\<close>

record comparator_object =
  c_address :: nat
  c_Compare :: compare_op
  c_FindShortestSeparator :: "u8 list \<Rightarrow> u8 list \<Rightarrow> u8 list"
  c_FindShortSuccessor :: "u8 list \<Rightarrow> u8 list"

record table_options =
  o_comparator :: comparator_object
  o_paranoid_checks :: bool
  o_block_size :: nat
  o_block_restart_interval :: nat
  o_compression :: CompressionType
  o_filter_policy :: "filter_policy option"

section \<open>State\<close>

record 'w table_builder =
  tb_options :: table_options
  tb_index_options :: table_options
  tb_file :: 'w
  tb_offset :: u64
  tb_status :: ldb_status
  tb_data :: block_builder
  tb_index :: block_builder
  tb_last_key :: "u8 list"
  tb_num_entries :: int
  tb_closed :: bool
  tb_filter :: "(filter_policy \<times> filter_builder) option"
  tb_pending :: bool
  tb_handle :: block_handle

text \<open>An operation of the filter block builder, which keeps the policy it was made with.\<close>

definition with_filter :: "(filter_policy \<Rightarrow> filter_builder \<Rightarrow> filter_builder) \<Rightarrow> 'w table_builder \<Rightarrow> 'w table_builder" where
  "with_filter f tb =
     (case tb_filter tb of None \<Rightarrow> tb | Some (P, fb) \<Rightarrow> tb\<lparr>tb_filter := Some (P, f P fb)\<rparr>)"

definition new_TableBuilder :: "table_options \<Rightarrow> 'w \<Rightarrow> 'w table_builder" where
  "new_TableBuilder options w =
     with_filter (\<lambda>P. StartBlock P 0)
       \<lparr>tb_options = options, tb_index_options = options\<lparr>o_block_restart_interval := 1\<rparr>, tb_file = w,
        tb_offset = 0, tb_status = OK, tb_data = new_block_builder, tb_index = new_block_builder,
        tb_last_key = [], tb_num_entries = 0, tb_closed = False,
        tb_filter = map_option (\<lambda>P. (P, new_filter_builder)) (o_filter_policy options),
        tb_pending = False, tb_handle = new_BlockHandle\<rparr>"

definition ChangeOptions :: "table_options \<Rightarrow> 'w table_builder \<Rightarrow> ldb_status \<times> 'w table_builder" where
  "ChangeOptions options tb =
     (if c_address (o_comparator options) \<noteq> c_address (o_comparator (tb_options tb))
      then (InvalidArgument ''changing comparator while building table'', tb)
      else (OK, tb\<lparr>tb_options := options, tb_index_options := options\<lparr>o_block_restart_interval := 1\<rparr>\<rparr>))"

definition bb_empty :: "block_builder \<Rightarrow> bool" where
  "bb_empty b \<longleftrightarrow> bb_buffer b = []"

section \<open>Writing blocks\<close>

definition WriteRawBlock ::
  "'w append_op \<Rightarrow> u8 list \<Rightarrow> CompressionType \<Rightarrow> 'w table_builder \<Rightarrow> (block_handle \<times> 'w table_builder) option" where
  "WriteRawBlock app contents t tb =
     do {
       let handle = \<lparr>bh_offset = tb_offset tb, bh_size = of_nat (length contents)\<rparr>;
       (s, w) \<leftarrow> app contents (tb_file tb);
       let tb = tb\<lparr>tb_status := s, tb_file := w\<rparr>;
       if s = OK then do {
         let crc = Value 0 contents;
         let crc = Extend 0 crc [compression_code t];
         (s, w) \<leftarrow> app (compression_code t # EncodeFixed32 (Mask crc)) (tb_file tb);
         let tb = tb\<lparr>tb_status := s, tb_file := w\<rparr>;
         Some (handle, if s = OK then tb\<lparr>tb_offset := tb_offset tb + of_nat (length contents + kBlockTrailerSize)\<rparr> else tb)
       }
       else Some (handle, tb)
     }"

definition WriteBlock ::
  "'w append_op \<Rightarrow> block_builder \<Rightarrow> 'w table_builder \<Rightarrow> (block_builder \<times> block_handle \<times> 'w table_builder) option" where
  "WriteBlock app blk tb =
     do {
       let (raw, blk) = bb_Finish blk;
       let (contents, t) =
         (case o_compression (tb_options tb) of
            kNoCompression \<Rightarrow> (raw, kNoCompression)
          | kSnappyCompression \<Rightarrow>
              (case Snappy_Compress raw of
                 Some compressed \<Rightarrow>
                   if length compressed < length raw - length raw div 8 then (compressed, kSnappyCompression)
                   else (raw, kNoCompression)
               | None \<Rightarrow> (raw, kNoCompression)));
       (handle, tb) \<leftarrow> WriteRawBlock app contents t tb;
       Some (bb_Reset blk, handle, tb)
     }"

definition tb_Flush :: "'w append_op \<Rightarrow> 'w flush_op \<Rightarrow> 'w table_builder \<Rightarrow> 'w table_builder option" where
  "tb_Flush app fl tb =
     (if tb_status tb \<noteq> OK then Some tb
      else if bb_empty (tb_data tb) then Some tb
      else do {
        (blk, handle, tb) \<leftarrow> WriteBlock app (tb_data tb) tb;
        let tb = tb\<lparr>tb_data := blk, tb_handle := handle\<rparr>;
        tb \<leftarrow> (if tb_status tb = OK then do {
                  (s, w) \<leftarrow> fl (tb_file tb);
                  Some (tb\<lparr>tb_pending := True, tb_status := s, tb_file := w\<rparr>)
                }
                else Some tb);
        Some (with_filter (\<lambda>P. StartBlock P (tb_offset tb)) tb)
      })"

text \<open>The entry of the index for the last block, under the key \<open>k\<close>.\<close>

definition add_index_entry :: "u8 list \<Rightarrow> 'w table_builder \<Rightarrow> 'w table_builder" where
  "add_index_entry k tb =
     (let handle_encoding = bh_EncodeTo (tb_handle tb) [] in
      tb\<lparr>tb_last_key := k,
         tb_index := bb_Add (o_block_restart_interval (tb_index_options tb)) k handle_encoding (tb_index tb),
         tb_pending := False\<rparr>)"

definition tb_Add ::
  "'w append_op \<Rightarrow> 'w flush_op \<Rightarrow> u8 list \<Rightarrow> u8 list \<Rightarrow> 'w table_builder \<Rightarrow> 'w table_builder option" where
  "tb_Add app fl key val tb =
     (if tb_status tb \<noteq> OK then Some tb
      else
        let tb = (if tb_pending tb
                  then add_index_entry (c_FindShortestSeparator (o_comparator (tb_options tb)) (tb_last_key tb) key) tb
                  else tb);
            tb = with_filter (\<lambda>_. AddKey key) tb;
            tb = tb\<lparr>tb_last_key := key, tb_num_entries := tb_num_entries tb + 1,
                    tb_data := bb_Add (o_block_restart_interval (tb_options tb)) key val (tb_data tb)\<rparr>
        in if CurrentSizeEstimate (tb_data tb) \<ge> o_block_size (tb_options tb) then tb_Flush app fl tb else Some tb)"

section \<open>Finish\<close>

definition filter_key :: "filter_policy \<Rightarrow> u8 list" where
  "filter_key P = map (of_nat \<circ> of_char) ''filter.'' @ fp_Name P"

definition write_filter_block :: "'w append_op \<Rightarrow> 'w table_builder \<Rightarrow> (block_handle \<times> 'w table_builder) option" where
  "write_filter_block app tb =
     (case tb_filter tb of
        None \<Rightarrow> Some (new_BlockHandle, tb)
      | Some (P, fb) \<Rightarrow>
          if tb_status tb = OK then
            let (contents, fb) = fb_Finish P fb in
            WriteRawBlock app contents kNoCompression (tb\<lparr>tb_filter := Some (P, fb)\<rparr>)
          else Some (new_BlockHandle, tb))"

definition write_metaindex_block ::
  "'w append_op \<Rightarrow> block_handle \<Rightarrow> 'w table_builder \<Rightarrow> (block_handle \<times> 'w table_builder) option" where
  "write_metaindex_block app filter_handle tb =
     (if tb_status tb = OK then do {
        meta_index_block \<leftarrow>
          (case tb_filter tb of
             None \<Rightarrow> Some new_block_builder
           | Some _ \<Rightarrow> do {
               P \<leftarrow> o_filter_policy (tb_options tb);
               Some (bb_Add (o_block_restart_interval (tb_options tb)) (filter_key P) (bh_EncodeTo filter_handle []) new_block_builder)
             });
        (_, handle, tb) \<leftarrow> WriteBlock app meta_index_block tb;
        Some (handle, tb)
      }
      else Some (new_BlockHandle, tb))"

definition write_index_block :: "'w append_op \<Rightarrow> 'w table_builder \<Rightarrow> (block_handle \<times> 'w table_builder) option" where
  "write_index_block app tb =
     (if tb_status tb = OK then do {
        let tb = (if tb_pending tb
                  then add_index_entry (c_FindShortSuccessor (o_comparator (tb_options tb)) (tb_last_key tb)) tb else tb);
        (blk, handle, tb) \<leftarrow> WriteBlock app (tb_index tb) tb;
        Some (handle, tb\<lparr>tb_index := blk\<rparr>)
      }
      else Some (new_BlockHandle, tb))"

definition write_footer :: "'w append_op \<Rightarrow> block_handle \<Rightarrow> block_handle \<Rightarrow> 'w table_builder \<Rightarrow> 'w table_builder option" where
  "write_footer app meta index tb =
     (if tb_status tb = OK then do {
        let footer_encoding = ft_EncodeTo \<lparr>metaindex_handle = meta, index_handle = index\<rparr> [];
        (s, w) \<leftarrow> app footer_encoding (tb_file tb);
        let tb = tb\<lparr>tb_status := s, tb_file := w\<rparr>;
        Some (if s = OK then tb\<lparr>tb_offset := tb_offset tb + of_nat (length footer_encoding)\<rparr> else tb)
      }
      else Some tb)"

definition tb_Finish :: "'w append_op \<Rightarrow> 'w flush_op \<Rightarrow> 'w table_builder \<Rightarrow> (ldb_status \<times> 'w table_builder) option" where
  "tb_Finish app fl tb =
     do {
       tb \<leftarrow> tb_Flush app fl tb;
       let tb = tb\<lparr>tb_closed := True\<rparr>;
       (filter_handle, tb) \<leftarrow> write_filter_block app tb;
       (meta_handle, tb) \<leftarrow> write_metaindex_block app filter_handle tb;
       (index_handle, tb) \<leftarrow> write_index_block app tb;
       tb \<leftarrow> write_footer app meta_handle index_handle tb;
       Some (tb_status tb, tb)
     }"

definition Abandon :: "'w table_builder \<Rightarrow> 'w table_builder" where
  "Abandon tb = tb\<lparr>tb_closed := True\<rparr>"

definition NumEntries :: "'w table_builder \<Rightarrow> u64" where
  "NumEntries tb = of_int (tb_num_entries tb)"

definition FileSize :: "'w table_builder \<Rightarrow> u64" where
  "FileSize tb = tb_offset tb"

end
