(* ===== verification/LdbTable.thy ===== *)
theory LdbTable
  imports LdbTableBuilder "HOL-Library.Multiset"
begin

text \<open>
  Reading a table (\<open>table/table.cc\<close>): opening it, its filter, the blocks, with or without a block cache,
  and the lookup of a key. The file and the cache are parameters that share one state, the system
  with the memory of the cache.
\<close>

section \<open>Iterators (\<open>table/iterator.cc\<close>)\<close>

text \<open>The operations of an \<open>Iterator*\<close> that is an iterator of a block, or the empty one with its status.\<close>

definition i_Valid :: "iterator \<Rightarrow> bool" where
  "i_Valid it = (case it of BlockIterator b \<Rightarrow> it_Valid b | _ \<Rightarrow> False)"

definition i_status :: "iterator \<Rightarrow> ldb_status" where
  "i_status it = (case it of BlockIterator b \<Rightarrow> it_status b | ErrorIterator s \<Rightarrow> s | EmptyIterator \<Rightarrow> OK)"

definition i_key :: "iterator \<Rightarrow> u8 list option" where
  "i_key it = (case it of BlockIterator b \<Rightarrow> Some (it_key b) | _ \<Rightarrow> None)"

definition i_value :: "iterator \<Rightarrow> u8 list option" where
  "i_value it = (case it of BlockIterator b \<Rightarrow> Some (value_slice b) | _ \<Rightarrow> None)"

definition i_Seek :: "compare_op \<Rightarrow> u8 list \<Rightarrow> iterator \<Rightarrow> iterator option" where
  "i_Seek cmp target it = (case it of BlockIterator b \<Rightarrow> map_option BlockIterator (it_Seek cmp target b) | _ \<Rightarrow> Some it)"

definition i_SeekToFirst :: "iterator \<Rightarrow> iterator" where
  "i_SeekToFirst it = (case it of BlockIterator b \<Rightarrow> BlockIterator (SeekToFirst b) | _ \<Rightarrow> it)"

definition i_SeekToLast :: "iterator \<Rightarrow> iterator option" where
  "i_SeekToLast it = (case it of BlockIterator b \<Rightarrow> map_option BlockIterator (SeekToLast b) | _ \<Rightarrow> Some it)"

definition i_Next :: "iterator \<Rightarrow> iterator" where
  "i_Next it = (case it of BlockIterator b \<Rightarrow> BlockIterator (it_Next b) | _ \<Rightarrow> it)"

definition i_Prev :: "iterator \<Rightarrow> iterator option" where
  "i_Prev it = (case it of BlockIterator b \<Rightarrow> map_option BlockIterator (it_Prev b) | _ \<Rightarrow> Some it)"

section \<open>The cache of blocks\<close>

text \<open>A \<open>Cache*\<close> whose values are blocks; a \<open>Handle*\<close> is a number.\<close>

record 'k cache_ops =
  ca_NewId :: "'k \<Rightarrow> u64 \<times> 'k"
  ca_Lookup :: "u8 list \<Rightarrow> 'k \<Rightarrow> nat option \<times> 'k"
  ca_Value :: "nat \<Rightarrow> 'k \<Rightarrow> block"
  ca_Insert :: "u8 list \<Rightarrow> block \<Rightarrow> nat \<Rightarrow> 'k \<Rightarrow> nat \<times> 'k"
  ca_Release :: "nat \<Rightarrow> 'k \<Rightarrow> 'k"

section \<open>Tables\<close>

record read_options =
  verify_checksums :: bool
  fill_cache :: bool

record 'k table =
  t_options :: table_options
  t_read :: "'k random_read"
  t_cache :: "'k cache_ops option"
  t_cache_id :: u64
  t_filter :: "(filter_policy \<times> filter_reader) option"
  t_metaindex_handle :: block_handle
  t_index_block :: block

definition ReadFilter :: "u8 list \<Rightarrow> 'k table \<Rightarrow> 'k \<Rightarrow> ('k table \<times> 'k) option" where
  "ReadFilter filter_handle_value t k =
     (case bh_DecodeFrom filter_handle_value new_BlockHandle of
        (s, filter_handle, _) \<Rightarrow>
          if s \<noteq> OK then Some (t, k)
          else do {
            (s, contents, k) \<leftarrow> ReadBlock (t_read t) (o_paranoid_checks (t_options t)) filter_handle k;
            if s \<noteq> OK then Some (t, k)
            else do {
              P \<leftarrow> o_filter_policy (t_options t);
              Some (t\<lparr>t_filter := Some (P, new_filter_reader (bc_data contents))\<rparr>, k)
            }
          })"

definition ReadMeta :: "footer \<Rightarrow> 'k table \<Rightarrow> 'k \<Rightarrow> ('k table \<times> 'k) option" where
  "ReadMeta ft t k =
     (case o_filter_policy (t_options t) of
        None \<Rightarrow> Some (t, k)
      | Some P \<Rightarrow> do {
          (s, contents, k) \<leftarrow> ReadBlock (t_read t) (o_paranoid_checks (t_options t)) (metaindex_handle ft) k;
          if s \<noteq> OK then Some (t, k)
          else do {
            let meta = new_block (bc_data contents);
            it \<leftarrow> i_Seek Slice_compare (filter_key P) (NewIterator meta);
            if i_Valid it \<and> i_key it = Some (filter_key P) then do {
              v \<leftarrow> i_value it;
              ReadFilter v t k
            }
            else Some (t, k)
          }
        })"

definition Open ::
  "table_options \<Rightarrow> 'k random_read \<Rightarrow> 'k cache_ops option \<Rightarrow> u64 \<Rightarrow> 'k \<Rightarrow> (ldb_status \<times> 'k table option \<times> 'k) option" where
  "Open options read cache sz k =
     (if sz < of_nat kEncodedLength then Some (Corruption ''file is too short to be an sstable'', None, k)
      else do {
        (s, footer_input, _, k) \<leftarrow> read (sz - of_nat kEncodedLength) (of_nat kEncodedLength) k;
        if s \<noteq> OK then Some (s, None, k)
        else do {
          (s, ft, _) \<leftarrow> ft_DecodeFrom footer_input \<lparr>metaindex_handle = new_BlockHandle, index_handle = new_BlockHandle\<rparr>;
          if s \<noteq> OK then Some (s, None, k)
          else do {
            (s, contents, k) \<leftarrow> ReadBlock read (o_paranoid_checks options) (index_handle ft) k;
            if s \<noteq> OK then Some (s, None, k)
            else do {
              let index_block = new_block (bc_data contents);
              let (id, k) = (case cache of None \<Rightarrow> (0, k) | Some C \<Rightarrow> ca_NewId C k);
              (t, k) \<leftarrow> ReadMeta ft
                 \<lparr>t_options = options, t_read = read, t_cache = cache, t_cache_id = id, t_filter = None,
                  t_metaindex_handle = metaindex_handle ft, t_index_block = index_block\<rparr> k;
              Some (OK, Some t, k)
            }
          }
        }
      })"

section \<open>Blocks\<close>

definition read_block :: "'k table \<Rightarrow> read_options \<Rightarrow> block_handle \<Rightarrow> 'k \<Rightarrow> (ldb_status \<times> block option \<times> bool \<times> 'k) option" where
  "read_block t options handle k =
     do {
       (s, contents, k) \<leftarrow> ReadBlock (t_read t) (verify_checksums options) handle k;
       Some (s, if s = OK then Some (new_block (bc_data contents)) else None, cachable contents, k)
     }"

text \<open>The result is the iterator, and the handle in the cache that it releases when it is deleted.\<close>

definition BlockReader ::
  "'k table \<Rightarrow> read_options \<Rightarrow> u8 list \<Rightarrow> 'k \<Rightarrow> (iterator \<times> nat option \<times> 'k) option" where
  "BlockReader t options index_value k =
     (case bh_DecodeFrom index_value new_BlockHandle of
        (s, handle, _) \<Rightarrow>
          do {
            (s, blk, cache_handle, k) \<leftarrow>
              (if s \<noteq> OK then Some (s, None, None, k)
               else
                 (case t_cache t of
                    None \<Rightarrow> do { (s, blk, _, k) \<leftarrow> read_block t options handle k; Some (s, blk, None, k) }
                  | Some C \<Rightarrow>
                      let key = EncodeFixed64 (t_cache_id t) @ EncodeFixed64 (bh_offset handle);
                          (cache_handle, k) = ca_Lookup C key k
                      in case cache_handle of
                           Some h \<Rightarrow> Some (s, Some (ca_Value C h k), Some h, k)
                         | None \<Rightarrow> do {
                             (s, blk, can_cache, k) \<leftarrow> read_block t options handle k;
                             (case blk of
                                None \<Rightarrow> Some (s, None, None, k)
                              | Some b \<Rightarrow>
                                  if can_cache \<and> fill_cache options then
                                    (case ca_Insert C key b (b_size b) k of (h, k) \<Rightarrow> Some (s, Some b, Some h, k))
                                  else Some (s, Some b, None, k))
                           }));
            Some (case blk of
              Some b \<Rightarrow> (NewIterator b, cache_handle, k)
            | None \<Rightarrow> (ErrorIterator s, None, k))
          })"

text \<open>Deleting an iterator of \<open>BlockReader\<close>.\<close>

definition delete_iter :: "'k table \<Rightarrow> nat option \<Rightarrow> 'k \<Rightarrow> 'k" where
  "delete_iter t cache_handle k =
     (case (t_cache t, cache_handle) of (Some C, Some h) \<Rightarrow> ca_Release C h k | _ \<Rightarrow> k)"

section \<open>Lookup\<close>

text \<open>The result has the arguments of the call of \<open>handle_result\<close>, if there was one.\<close>

definition InternalGet ::
  "'k table \<Rightarrow> read_options \<Rightarrow> u8 list \<Rightarrow> 'k \<Rightarrow> (ldb_status \<times> (u8 list \<times> u8 list) option \<times> 'k) option" where
  "InternalGet t options key k =
     (let cmp = c_Compare (o_comparator (t_options t)) in
      do {
        iiter \<leftarrow> i_Seek cmp key (NewIterator (t_index_block t));
        (s, res, k) \<leftarrow>
          (if i_Valid iiter then do {
             handle_value \<leftarrow> i_value iiter;
             let (hs, handle, _) = bh_DecodeFrom handle_value new_BlockHandle;
             if (case t_filter t of
                   None \<Rightarrow> False
                 | Some (P, fr) \<Rightarrow> hs = OK \<and> \<not> fr_KeyMayMatch P fr (bh_offset handle) key)
             then Some (OK, None, k)
             else do {
               (block_iter, cache_handle, k) \<leftarrow> BlockReader t options handle_value k;
               block_iter \<leftarrow> i_Seek cmp key block_iter;
               res \<leftarrow> (if i_Valid block_iter
                       then do { kk \<leftarrow> i_key block_iter; v \<leftarrow> i_value block_iter; Some (Some (kk, v)) }
                       else Some None);
               Some (i_status block_iter, res, delete_iter t cache_handle k)
             }
           }
           else Some (OK, None, k));
        Some (if s = OK then i_status iiter else s, res, k)
      })"

definition ApproximateOffsetOf :: "'k table \<Rightarrow> u8 list \<Rightarrow> u64 option" where
  "ApproximateOffsetOf t key =
     do {
       index_iter \<leftarrow> i_Seek (c_Compare (o_comparator (t_options t))) key (NewIterator (t_index_block t));
       if i_Valid index_iter then do {
         v \<leftarrow> i_value index_iter;
         let (s, handle, _) = bh_DecodeFrom v new_BlockHandle;
         Some (if s = OK then bh_offset handle else bh_offset (t_metaindex_handle t))
       }
       else Some (bh_offset (t_metaindex_handle t))
     }"

end
