(* ===== verification/LdbTableBuildProofs.thy ===== *)
theory LdbTableBuildProofs
  imports LdbTable LdbBlockProofs
begin

text \<open>
  What a table builder writes: the list of its data blocks, the separators between them, the filter,
  and the bytes of the finished file. The invariant \<open>tb_holds\<close> ties the state of the builder to them.
\<close>

section \<open>The contract of comparator, filter and options\<close>

text \<open>
  \<open>alike k e\<close>: an entry \<open>e\<close> answers a lookup of \<open>k\<close>, for instance because they have the same user key. A
  filter does not deny such a \<open>k\<close>, and no separator comes between the two.
\<close>

locale table_order = comparator cmp separator successor valid
  for cmp separator successor valid +
  fixes opts :: table_options
    and alike :: "u8 list \<Rightarrow> u8 list \<Rightarrow> bool"
  assumes opts_comparator: "c_Compare (o_comparator opts) = cmp"
      "c_FindShortestSeparator (o_comparator opts) = separator" "c_FindShortSuccessor (o_comparator opts) = successor"
    and restart_interval: "0 < o_block_restart_interval opts"
    and filter: "o_filter_policy opts = Some P \<Longrightarrow> filter_laws (fp_CreateFilter P) (fp_KeyMayMatch P) alike"
    and alike_gap: "valid a \<Longrightarrow> valid b \<Longrightarrow> valid k \<Longrightarrow> valid e \<Longrightarrow> cmp a b < 0 \<Longrightarrow> cmp a k < 0 \<Longrightarrow>
      cmp k (separator a b) \<le> 0 \<Longrightarrow> cmp b e \<le> 0 \<Longrightarrow> \<not> alike k e"

section \<open>Blocks of a file\<close>

type_synonym entries = "entry list"

definition raw_of :: "nat \<Rightarrow> entries \<Rightarrow> u8 list" where
  "raw_of n kvs = raw_block kNoCompression (block_bytes n kvs)"

definition file_of :: "nat \<Rightarrow> entries list \<Rightarrow> u8 list" where
  "file_of n blks = concat (map (raw_of n) blks)"

definition handle_at :: "nat \<Rightarrow> entries list \<Rightarrow> nat \<Rightarrow> block_handle" where
  "handle_at n blks i =
     \<lparr>bh_offset = of_nat (length (file_of n (take i blks))), bh_size = of_nat (length (block_bytes n (blks ! i)))\<rparr>"

definition index_entries :: "nat \<Rightarrow> u8 list list \<Rightarrow> entries list \<Rightarrow> entries" where
  "index_entries n seps blks = map (\<lambda>i. (seps ! i, bh_bytes (handle_at n blks i))) [0..<length seps]"

text \<open>Each key with the offset of its block.\<close>

definition key_log :: "nat \<Rightarrow> entries list \<Rightarrow> (u64 \<times> u8 list) list" where
  "key_log n blks = concat (map (\<lambda>i. map (\<lambda>kv. (bh_offset (handle_at n blks i), fst kv)) (blks ! i)) [0..<length blks])"

lemma file_of_snoc: "file_of n (blks @ [b]) = file_of n blks @ raw_of n b"
  by (simp add: file_of_def)

lemma handle_at_snoc: "i < length blks \<Longrightarrow> handle_at n (blks @ xs) i = handle_at n blks i"
  by (simp add: handle_at_def nth_append)

lemma handle_at_last: "handle_at n (blks @ b # xs) (length blks) =
    \<lparr>bh_offset = of_nat (length (file_of n blks)), bh_size = of_nat (length (block_bytes n b))\<rparr>"
  by (simp add: handle_at_def)

lemma index_entries_blocks:
  "length seps \<le> length blks \<Longrightarrow> index_entries n seps (blks @ xs) = index_entries n seps blks"
  by (simp add: index_entries_def handle_at_snoc)

lemma index_entries_snoc:
  "length seps < length blks \<Longrightarrow>
    index_entries n (seps @ [s]) blks = index_entries n seps blks @ [(s, bh_bytes (handle_at n blks (length seps)))]"
  by (simp add: index_entries_def nth_append)

lemma key_log_snoc:
  "key_log n (blks @ [b]) = key_log n blks @ map (\<lambda>kv. (of_nat (length (file_of n blks)), fst kv)) b"
proof -
  let ?f = "\<lambda>B i. map (\<lambda>kv. (bh_offset (handle_at n B i), fst kv)) (B ! i)"
  have same: "map (?f (blks @ [b])) [0..<length blks] = map (?f blks) [0..<length blks]"
    by (rule map_cong) (simp_all add: handle_at_snoc nth_append)
  have "key_log n (blks @ [b]) = concat (map (?f (blks @ [b])) [0..<length blks]) @ ?f (blks @ [b]) (length blks)"
    by (simp add: key_log_def)
  then show ?thesis unfolding same by (simp add: key_log_def handle_at_last)
qed

lemma length_key_log: "length (key_log n blks) = length (concat blks)"
proof (induction blks rule: rev_induct)
  case Nil
  then show ?case by (simp add: key_log_def)
qed (simp add: key_log_snoc)

lemma bb_Add_build: "0 < n \<Longrightarrow> bb_Add n key val (build n kvs) = build n (kvs @ [(key, val)])"
  by (simp add: build_def)

lemma bb_Finish_build: "0 < n \<Longrightarrow> fst (bb_Finish (build n kvs)) = block_bytes n kvs"
  by (rule build_bytes)

lemma bb_Reset_eq [simp]: "bb_Reset b = new_block_builder"
  by (cases b) (simp add: bb_Reset_def new_block_builder_def)

lemma build_Nil [simp]: "build n [] = new_block_builder"
  by (simp add: build_def)

lemma bb_empty_build: "0 < n \<Longrightarrow> bb_empty (build n kvs) \<longleftrightarrow> kvs = []"
proof -
  assume "0 < n"
  moreover have "entries n kvs (length kvs) = [] \<longleftrightarrow> kvs = []"
    using off_less [of n kvs "length kvs - 1"] by (cases kvs) auto
  ultimately show ?thesis by (simp add: bb_empty_def build_built built_def)
qed

section \<open>Writing blocks\<close>

context writable_file
begin

lemma WriteRawBlock_ok:
  assumes "good (tb_file tb)"
  shows "\<exists>w. WriteRawBlock append bs t tb =
      Some (\<lparr>bh_offset = tb_offset tb, bh_size = of_nat (length bs)\<rparr>,
        tb\<lparr>tb_status := OK, tb_file := w, tb_offset := tb_offset tb + of_nat (length (raw_block t bs))\<rparr>) \<and>
    good w \<and> written w = written (tb_file tb) @ raw_block t bs"
proof -
  let ?tr = "compression_code t # EncodeFixed32 (Mask (Extend 0 (Value 0 bs) [compression_code t]))"
  obtain w1 where 1: "append bs (tb_file tb) = Some (OK, w1)" "good w1" "written w1 = written (tb_file tb) @ bs"
    using append_ok [OF assms] by blast
  obtain w2 where 2: "append ?tr w1 = Some (OK, w2)" "good w2" "written w2 = written w1 @ ?tr"
    using append_ok [OF 1(2)] by blast
  then show ?thesis
    using 1 by (intro exI [of _ w2]) (simp add: WriteRawBlock_def raw_block_def Value_def kBlockTrailerSize_def)
qed

lemma WriteBlock_ok:
  assumes "good (tb_file tb)" and "fst (bb_Finish blk) = bs"
  shows "\<exists>w. WriteBlock append blk tb =
      Some (new_block_builder, \<lparr>bh_offset = tb_offset tb, bh_size = of_nat (length bs)\<rparr>,
        tb\<lparr>tb_status := OK, tb_file := w, tb_offset := tb_offset tb + of_nat (length (raw_block kNoCompression bs))\<rparr>) \<and>
    good w \<and> written w = written (tb_file tb) @ raw_block kNoCompression bs"
proof -
  obtain blk' where fin: "bb_Finish blk = (bs, blk')" using assms(2) by (cases "bb_Finish blk") simp
  show ?thesis
    using WriteRawBlock_ok [OF assms(1), of bs kNoCompression]
    by (cases "o_compression (tb_options tb)") (auto simp: WriteBlock_def fin Snappy_Compress_def)
qed

end

section \<open>The invariant of the builder\<close>

text \<open>The keys of the first \<open>m\<close> entries of the index.\<close>

definition sep_list :: "(u8 list \<Rightarrow> u8 list \<Rightarrow> u8 list) \<Rightarrow> nat \<Rightarrow> entries list \<Rightarrow> entries \<Rightarrow> u8 list list" where
  "sep_list sp m blks cur =
     map (\<lambda>i. sp (fst (last (blks ! i))) (fst (hd (concat (drop (Suc i) blks) @ cur)))) [0..<m]"

lemma length_sep_list [simp]: "length (sep_list sp m blks cur) = m"
  by (simp add: sep_list_def)

lemma concat_drop_Nil: "[] \<notin> set blks \<Longrightarrow> Suc i < length blks \<Longrightarrow> concat (drop (Suc i) blks) \<noteq> []"
  by (metis concat.simps(2) Cons_nth_drop_Suc append_is_Nil_conv nth_mem)

lemma sep_list_add:
  assumes "[] \<notin> set blks" and "m \<le> length blks" and "m = length blks \<Longrightarrow> m = 0 \<or> cur \<noteq> []"
  shows "sep_list sp m blks (cur @ [kv]) = sep_list sp m blks cur"
proof -
  have "concat (drop (Suc i) blks) @ cur \<noteq> []" if "i < m" for i
    using concat_drop_Nil [OF assms(1), of i] assms(2,3) that by (cases "Suc i < length blks") auto
  then have "hd (concat (drop (Suc i) blks) @ cur @ [kv]) = hd (concat (drop (Suc i) blks) @ cur)" if "i < m" for i
    using that by (metis append_assoc hd_append2)
  then show ?thesis by (simp add: sep_list_def)
qed

lemma sep_list_flush:
  assumes "m \<le> length blks"
  shows "sep_list sp m (blks @ [cur]) [] = sep_list sp m blks cur"
  using assms by (auto simp: sep_list_def nth_append)

lemma sep_list_Suc:
  "sep_list sp (Suc m) blks cur = sep_list sp m blks cur @ [sp (fst (last (blks ! m))) (fst (hd (concat (drop (Suc m) blks) @ cur)))]"
  by (simp add: sep_list_def)

section \<open>The finished file\<close>

text \<open>A filter is the policy with the contents of the filter block.\<close>

type_synonym made_filter = "(filter_policy \<times> u8 list) option"

definition filter_part :: "made_filter \<Rightarrow> u8 list" where
  "filter_part pf = (case pf of None \<Rightarrow> [] | Some (P, c) \<Rightarrow> raw_block kNoCompression c)"

definition filter_handle_at :: "nat \<Rightarrow> made_filter \<Rightarrow> block_handle" where
  "filter_handle_at at pf =
     (case pf of None \<Rightarrow> new_BlockHandle | Some (P, c) \<Rightarrow> \<lparr>bh_offset = of_nat at, bh_size = of_nat (length c)\<rparr>)"

definition meta_entries :: "nat \<Rightarrow> made_filter \<Rightarrow> entries" where
  "meta_entries at pf = (case pf of None \<Rightarrow> [] | Some (P, c) \<Rightarrow> [(filter_key P, bh_bytes (filter_handle_at at pf))])"

definition table_bytes :: "nat \<Rightarrow> entries list \<Rightarrow> u8 list list \<Rightarrow> made_filter \<Rightarrow> u8 list" where
  "table_bytes n blks seps pf =
     (let data = file_of n blks @ filter_part pf;
          meta = block_bytes n (meta_entries (length (file_of n blks)) pf);
          idx = block_bytes 1 (index_entries n seps blks);
          front = data @ raw_block kNoCompression meta
      in front @ raw_block kNoCompression idx @
         ft_bytes \<lparr>metaindex_handle = \<lparr>bh_offset = of_nat (length data), bh_size = of_nat (length meta)\<rparr>,
                    index_handle = \<lparr>bh_offset = of_nat (length front), bh_size = of_nat (length idx)\<rparr>\<rparr>)"

context table_order
begin

abbreviation "interval \<equiv> o_block_restart_interval opts"

text \<open>The contents of the filter block place every key in the filter for the offset of its block.\<close>

definition filter_made :: "made_filter \<Rightarrow> entries list \<Rightarrow> bool" where
  "filter_made pf blks \<longleftrightarrow>
     (case pf of
        None \<Rightarrow> o_filter_policy opts = None
      | Some (P, c) \<Rightarrow> o_filter_policy opts = Some P \<and>
          (length (file_of interval blks) < 2 ^ 64 \<longrightarrow>
            (\<exists>groups. c = filter_contents P groups \<and> placed groups [] (key_log interval blks) \<and>
              length (concat groups) = length (concat blks))))"

definition separators :: "entries list \<Rightarrow> u8 list list" where
  "separators blks =
     sep_list separator (length blks - 1) blks [] @ (if blks = [] then [] else [successor (fst (last (concat blks)))])"

end

text \<open>All entries of a list, and a whole table.\<close>

primrec add_all :: "'w append_op \<Rightarrow> 'w flush_op \<Rightarrow> entries \<Rightarrow> 'w table_builder \<Rightarrow> 'w table_builder option" where
  "add_all app fl [] tb = Some tb"
| "add_all app fl (kv # kvs) tb = do { tb \<leftarrow> tb_Add app fl (fst kv) (snd kv) tb; add_all app fl kvs tb }"

definition write_table ::
  "'w append_op \<Rightarrow> 'w flush_op \<Rightarrow> table_options \<Rightarrow> entries \<Rightarrow> 'w \<Rightarrow> (ldb_status \<times> 'w table_builder) option" where
  "write_table app fl options kvs w = do { tb \<leftarrow> add_all app fl kvs (new_TableBuilder options w); tb_Finish app fl tb }"

locale table_writer = table_order cmp separator successor valid opts alike +
    writable_file append flush good written stored
  for cmp separator successor valid opts alike
    and append :: "u8 list \<Rightarrow> 'w \<Rightarrow> (ldb_status \<times> 'w) option"
    and flush good written stored
begin

definition pend :: "'w table_builder \<Rightarrow> nat" where
  "pend tb = (if tb_pending tb then 1 else 0)"

definition filter_holds :: "(filter_policy \<times> filter_builder) option \<Rightarrow> entries list \<Rightarrow> entries \<Rightarrow> bool" where
  "filter_holds f blks cur \<longleftrightarrow>
     (case f of
        None \<Rightarrow> o_filter_policy opts = None
      | Some (P, fb) \<Rightarrow> o_filter_policy opts = Some P \<and>
          (length (file_of interval blks) < 2 ^ 64 \<longrightarrow>
            (\<exists>groups ps. fb_holds P groups ps fb \<and> placed groups ps (key_log interval (blks @ [cur])) \<and>
              length (concat groups) + length ps = length (concat (blks @ [cur])) \<and>
              length groups = unat (of_nat (length (file_of interval blks)) div kFilterBase))))"

definition tb_holds :: "'w table_builder \<Rightarrow> entries list \<Rightarrow> entries \<Rightarrow> bool" where
  "tb_holds tb blks cur \<longleftrightarrow>
     tb_options tb = opts \<and> tb_index_options tb = opts\<lparr>o_block_restart_interval := 1\<rparr> \<and> tb_status tb = OK \<and>
     good (tb_file tb) \<and> written (tb_file tb) = file_of interval blks \<and>
     tb_offset tb = of_nat (length (file_of interval blks)) \<and>
     tb_data tb = build interval cur \<and>
     tb_index tb = build 1 (index_entries interval (sep_list separator (length blks - pend tb) blks cur) blks) \<and>
     (if tb_pending tb then blks \<noteq> [] \<and> cur = [] \<and> tb_handle tb = handle_at interval blks (length blks - 1)
      else cur \<noteq> [] \<or> blks = []) \<and>
     [] \<notin> set blks \<and> (concat blks @ cur \<noteq> [] \<longrightarrow> tb_last_key tb = fst (last (concat blks @ cur))) \<and>
     filter_holds (tb_filter tb) blks cur"

lemma filter_holds_start:
  "filter_holds (map_option (\<lambda>P. (P, StartBlock P 0 new_filter_builder)) (o_filter_policy opts)) [] []"
proof (cases "o_filter_policy opts")
  case (Some P)
  have "generate_until P 0 new_filter_builder = new_filter_builder"
    by (subst generate_until.simps) simp
  then show ?thesis
    using new_filter_builder_holds [of P] Some
    by (auto simp: filter_holds_def StartBlock_def file_of_def placed_def key_log_def intro!: exI [of _ "[]"])
qed (simp add: filter_holds_def)

lemma new_TableBuilder_holds:
  assumes "good w" and "written w = []"
  shows "tb_holds (new_TableBuilder opts w) [] []"
  using assms filter_holds_start
  by (cases "o_filter_policy opts")
    (simp_all add: tb_holds_def new_TableBuilder_def with_filter_def file_of_def index_entries_def pend_def)

lemma filter_holds_add:
  assumes "filter_holds (Some (P, fb)) blks cur"
  shows "filter_holds (Some (P, AddKey key fb)) blks (cur @ [(key, val)])"
proof -
  have log: "key_log interval (blks @ [cur @ [(key, val)]]) =
      key_log interval (blks @ [cur]) @ [(of_nat (length (file_of interval blks)), key)]"
    by (simp add: key_log_snoc)
  show ?thesis
    using assms AddKey_holds AddKey_placed unfolding filter_holds_def log by (fastforce split: option.splits)
qed

lemma filter_holds_flush:
  assumes "filter_holds (Some (P, fb)) blks cur"
  shows "filter_holds (Some (P, StartBlock P (of_nat (length (file_of interval (blks @ [cur])))) fb)) (blks @ [cur]) []"
proof -
  let ?F = "file_of interval blks" and ?F' = "file_of interval (blks @ [cur])"
  have P: "o_filter_policy opts = Some P" using assms by (simp add: filter_holds_def)
  note laws = filter [OF P]
  show ?thesis
  proof (cases "length ?F' < 2 ^ 64")
    case True
    have le: "length ?F \<le> length ?F'" by (simp add: file_of_snoc)
    obtain groups ps where g: "fb_holds P groups ps fb" "placed groups ps (key_log interval (blks @ [cur]))"
        "length (concat groups) + length ps = length (concat (blks @ [cur]))"
        "length groups = unat (of_nat (length ?F) div kFilterBase)"
      using assms True le by (auto simp: filter_holds_def)
    have "unat (of_nat (length ?F) :: u64) \<le> unat (of_nat (length ?F') :: u64)"
      using True le by (simp add: unat_of_nat take_bit_nat_eq_self)
    then have "length groups \<le> unat (of_nat (length ?F') div kFilterBase)"
      unfolding g(4) unat_div by (rule div_le_mono)
    from filter_laws.StartBlock_holds [OF laws refl g(1-3) this] obtain groups' ps' where
      "fb_holds P groups' ps' (StartBlock P (of_nat (length ?F')) fb)" "placed groups' ps' (key_log interval (blks @ [cur]))"
      "length (concat groups') + length ps' = length (concat (blks @ [cur]))"
      "length groups' = unat (of_nat (length ?F') div kFilterBase)" by blast
    moreover have "key_log interval ((blks @ [cur]) @ [[]]) = key_log interval (blks @ [cur])"
      unfolding key_log_snoc [of _ "blks @ [cur]"] by simp
    ultimately show ?thesis using P by (auto simp: filter_holds_def)
  qed (simp add: filter_holds_def P)
qed


lemma filter_holds_None: "filter_holds None blks cur \<longleftrightarrow> o_filter_policy opts = None"
  by (simp add: filter_holds_def)

section \<open>\<open>Add\<close> and \<open>Flush\<close>\<close>

lemma tb_holds_separator:
  assumes holds: "tb_holds tb blks cur" and "tb_pending tb"
  shows "build 1 (index_entries interval (sep_list separator (length blks) blks [(key, val)]) blks) =
    bb_Add 1 (separator (tb_last_key tb) key) (bh_EncodeTo (tb_handle tb) []) (tb_index tb)"
proof -
  have blks: "blks \<noteq> []" "cur = []" and h: "tb_handle tb = handle_at interval blks (length blks - 1)" and ne: "[] \<notin> set blks"
    and index: "tb_index tb = build 1 (index_entries interval (sep_list separator (length blks - 1) blks []) blks)"
    and last: "concat blks @ cur \<noteq> [] \<longrightarrow> tb_last_key tb = fst (last (concat blks @ cur))"
    using assms by (auto simp: tb_holds_def pend_def)
  obtain m where m: "length blks = Suc m" using blks(1) by (cases blks) simp_all
  have "last blks \<noteq> []" using blks(1) ne last_in_set by metis
  moreover have "concat blks = concat (butlast blks) @ last blks"
    using append_butlast_last_id [OF blks(1)] by (metis concat.simps(1,2) concat_append append_Nil2)
  ultimately have last_key: "tb_last_key tb = fst (last (blks ! m))"
    using last blks m by (simp add: last_conv_nth [of blks])
  have "drop (Suc m) blks = []" using m by simp
  then have "sep_list separator (length blks) blks [(key, val)] = sep_list separator m blks [] @ [separator (tb_last_key tb) key]"
    using sep_list_add [OF ne, of m "[]" separator "(key, val)"] m unfolding sep_list_Suc last_key by (simp add: sep_list_Suc)
  moreover have "length (sep_list separator m blks []) < length blks" using m by simp
  ultimately show ?thesis
    using index_entries_snoc [of "sep_list separator m blks []" blks interval "separator (tb_last_key tb) key"] index h m
    by (simp add: bb_Add_build bh_EncodeTo_bytes)
qed

text \<open>\<open>Add\<close> before it looks at the size of the block.\<close>

definition extended :: "u8 list \<Rightarrow> u8 list \<Rightarrow> 'w table_builder \<Rightarrow> 'w table_builder" where
  "extended key val tb =
     (let tb = (if tb_pending tb
                then add_index_entry (c_FindShortestSeparator (o_comparator (tb_options tb)) (tb_last_key tb) key) tb else tb);
          tb = with_filter (\<lambda>_. AddKey key) tb
      in tb\<lparr>tb_last_key := key, tb_num_entries := tb_num_entries tb + 1,
            tb_data := bb_Add (o_block_restart_interval (tb_options tb)) key val (tb_data tb)\<rparr>)"

lemma tb_Add_extended:
  "tb_Add append flush key val tb =
     (if tb_status tb \<noteq> OK then Some tb
      else let t = extended key val tb in
        if CurrentSizeEstimate (tb_data t) \<ge> o_block_size (tb_options t) then tb_Flush append flush t else Some t)"
  by (simp add: tb_Add_def extended_def Let_def)

lemma tb_holds_extend:
  assumes holds: "tb_holds tb blks cur"
  shows "tb_holds (extended key val tb) blks (cur @ [(key, val)])"
proof -
  define t1 where "t1 = (if tb_pending tb
    then add_index_entry (c_FindShortestSeparator (o_comparator (tb_options tb)) (tb_last_key tb) key) tb else tb)"
  have t1: "tb_options t1 = tb_options tb" "tb_index_options t1 = tb_index_options tb" "tb_status t1 = tb_status tb"
      "tb_file t1 = tb_file tb" "tb_offset t1 = tb_offset tb" "tb_data t1 = tb_data tb" "tb_filter t1 = tb_filter tb"
      "\<not> tb_pending t1"
    by (simp_all add: t1_def add_index_entry_def)
  have opts: "tb_options tb = opts" "tb_index_options tb = opts\<lparr>o_block_restart_interval := 1\<rparr>"
    using holds by (simp_all add: tb_holds_def)
  have index: "tb_index t1 = build 1 (index_entries interval (sep_list separator (length blks) blks (cur @ [(key, val)])) blks)"
  proof (cases "tb_pending tb")
    case True
    then have "cur = []" using holds by (simp add: tb_holds_def)
    then show ?thesis
      using tb_holds_separator [OF holds True, of key val] True opts opts_comparator
      by (simp add: t1_def add_index_entry_def)
  next
    case False
    then show ?thesis
      using holds sep_list_add [of blks "length blks" cur separator "(key, val)"] by (auto simp: t1_def tb_holds_def pend_def)
  qed
  define f where "f = map_option (\<lambda>(P, fb). (P, AddKey key fb)) (tb_filter tb)"
  have "filter_holds f blks (cur @ [(key, val)])"
  proof (cases "tb_filter tb")
    case None
    then show ?thesis using holds by (simp add: f_def tb_holds_def filter_holds_None)
  next
    case (Some Pf)
    moreover obtain P fb where "Pf = (P, fb)" by (cases Pf)
    ultimately show ?thesis using holds filter_holds_add [of P fb blks cur key val] by (simp add: f_def tb_holds_def)
  qed
  moreover have "extended key val tb = t1\<lparr>tb_filter := f, tb_last_key := key, tb_num_entries := tb_num_entries t1 + 1,
      tb_data := bb_Add interval key val (tb_data tb)\<rparr>"
    using t1 opts by (cases "tb_filter tb") (auto simp: extended_def t1_def [symmetric] Let_def with_filter_def f_def)
  ultimately show ?thesis
    using holds t1 index by (simp add: tb_holds_def pend_def bb_Add_build [OF restart_interval] split: if_splits)
qed

lemma tb_Flush_holds:
  assumes holds: "tb_holds tb blks cur" and cur: "cur \<noteq> []"
  shows "\<exists>tb'. tb_Flush append flush tb = Some tb' \<and> tb_holds tb' (blks @ [cur]) []"
proof -
  let ?F = "file_of interval blks" and ?F' = "file_of interval (blks @ [cur])" and ?B = "block_bytes interval cur"
  have st: "tb_status tb = OK" "good (tb_file tb)" "\<not> tb_pending tb" "tb_data tb = build interval cur"
      "tb_offset tb = of_nat (length ?F)" "written (tb_file tb) = ?F" and filt: "filter_holds (tb_filter tb) blks cur"
    using holds cur by (simp_all add: tb_holds_def split: if_splits)
  define tb1 where "tb1 w = tb\<lparr>tb_status := OK, tb_file := w, tb_offset := of_nat (length ?F')\<rparr>" for w
  define h where "h = \<lparr>bh_offset = tb_offset tb, bh_size = of_nat (length ?B)\<rparr>"
  have F': "?F' = ?F @ raw_block kNoCompression ?B" by (simp add: file_of_snoc raw_of_def)
  obtain w where w: "WriteBlock append (tb_data tb) tb = Some (new_block_builder, h, tb1 w)" "good w" "written w = ?F'"
    using WriteBlock_ok [OF st(2), of "tb_data tb" ?B] st restart_interval
    by (auto simp: bb_Finish_build F' tb1_def h_def)
  obtain w' where w': "flush w = Some (OK, w')" "good w'" "written w' = ?F'"
    using flush_ok [OF w(2)] w(3) by auto
  define tb' where "tb' = with_filter (\<lambda>P. StartBlock P (of_nat (length ?F')))
    (tb1 w\<lparr>tb_data := new_block_builder, tb_handle := h, tb_pending := True, tb_status := OK, tb_file := w'\<rparr>)"
  have ne: "\<not> bb_empty (build interval cur)" using cur by (simp add: bb_empty_build restart_interval)
  have "tb_Flush append flush tb = Some tb'"
    using st w w' ne by (simp add: tb_Flush_def tb'_def tb1_def)
  moreover have "filter_holds (tb_filter tb') (blks @ [cur]) []"
    using filt filter_holds_flush
    by (cases "tb_filter tb") (auto simp: tb'_def tb1_def with_filter_def filter_holds_None)
  moreover have "h = handle_at interval (blks @ [cur]) (length blks)"
    using st by (simp add: h_def handle_at_def)
  moreover have "tb' = tb'\<lparr>tb_filter := tb_filter tb'\<rparr>" by simp
  ultimately show ?thesis
    using holds cur w' st(3)
    by (intro exI [of _ tb'], cases "tb_filter tb")
      (auto simp: tb_holds_def tb'_def tb1_def with_filter_def pend_def sep_list_flush index_entries_blocks)
qed

lemma tb_Add_holds:
  assumes "tb_holds tb blks cur"
  shows "\<exists>tb' blks' cur'. tb_Add append flush key val tb = Some tb' \<and> tb_holds tb' blks' cur' \<and>
    concat blks' @ cur' = concat blks @ cur @ [(key, val)]"
proof -
  define t where "t = extended key val tb"
  have t: "tb_Add append flush key val tb =
      (if CurrentSizeEstimate (tb_data t) \<ge> o_block_size (tb_options t) then tb_Flush append flush t else Some t)"
    using assms by (simp add: tb_Add_extended t_def tb_holds_def Let_def)
  have holds: "tb_holds t blks (cur @ [(key, val)])"
    using tb_holds_extend [OF assms] by (simp add: t_def)
  show ?thesis
  proof (cases "CurrentSizeEstimate (tb_data t) \<ge> o_block_size (tb_options t)")
    case True
    obtain tb' where "tb_Flush append flush t = Some tb'" "tb_holds tb' (blks @ [cur @ [(key, val)]]) []"
      using tb_Flush_holds [OF holds] by auto
    then show ?thesis
      using t True by (intro exI [of _ tb'] exI [of _ "blks @ [cur @ [(key, val)]]"] exI [of _ "[]"]) simp
  next
    case False
    then show ?thesis using t holds by auto
  qed
qed


section \<open>\<open>Finish\<close>\<close>

lemma fb_Finish_made:
  assumes "filter_holds (Some (P, fb)) blks []"
  shows "filter_made (Some (P, fst (fb_Finish P fb))) blks"
proof -
  have P: "o_filter_policy opts = Some P" using assms by (simp add: filter_holds_def)
  have log: "key_log interval (blks @ [[]]) = key_log interval blks" by (simp add: key_log_snoc)
  show ?thesis
  proof (cases "length (file_of interval blks) < 2 ^ 64")
    case True
    then obtain groups ps where g: "fb_holds P groups ps fb" "placed groups ps (key_log interval blks)"
        "length (concat groups) + length ps = length (concat blks)"
      using assms by (auto simp: filter_holds_def log)
    define all where "all = groups @ (if ps = [] then [] else [ps])"
    have "fst (fb_Finish P fb) = filter_contents P all"
      unfolding all_def by (rule fb_Finish_contents [OF filter [OF P] refl g(1)])
    moreover have "placed all [] (key_log interval blks)"
      using g(2) by (fastforce simp: all_def placed_def Let_def nth_append split: if_splits)
    moreover have "length (concat all) = length (concat blks)" using g(3) by (auto simp: all_def)
    ultimately show ?thesis using P by (auto simp: filter_made_def)
  qed (simp add: filter_made_def P)
qed

lemma write_filter_block_ok:
  assumes holds: "tb_holds tb blks []"
  shows "\<exists>w f pf. write_filter_block append tb =
      Some (filter_handle_at (length (file_of interval blks)) pf,
        tb\<lparr>tb_status := OK, tb_file := w, tb_offset := of_nat (length (file_of interval blks @ filter_part pf)), tb_filter := f\<rparr>) \<and>
    good w \<and> written w = file_of interval blks @ filter_part pf \<and> (f = None \<longleftrightarrow> pf = None) \<and> filter_made pf blks"
proof (cases "tb_filter tb")
  case None
  then show ?thesis using holds
    by (intro exI [of _ "tb_file tb"] exI [of _ None], cases tb)
      (simp add: write_filter_block_def tb_holds_def filter_handle_at_def filter_part_def filter_made_def filter_holds_None)
next
  case (Some Pf)
  then obtain P fb where f: "tb_filter tb = Some (P, fb)" by (cases Pf) simp
  obtain c fb' where c: "fb_Finish P fb = (c, fb')" by (cases "fb_Finish P fb")
  let ?t = "tb\<lparr>tb_filter := Some (P, fb')\<rparr>"
  have st: "tb_status tb = OK" "good (tb_file ?t)" "written (tb_file tb) = file_of interval blks"
      "tb_offset tb = of_nat (length (file_of interval blks))"
    using holds by (simp_all add: tb_holds_def)
  obtain w where "WriteRawBlock append c kNoCompression ?t =
        Some (\<lparr>bh_offset = tb_offset ?t, bh_size = of_nat (length c)\<rparr>,
          ?t\<lparr>tb_status := OK, tb_file := w, tb_offset := tb_offset ?t + of_nat (length (raw_block kNoCompression c))\<rparr>)"
      "good w" "written w = written (tb_file ?t) @ raw_block kNoCompression c"
    using WriteRawBlock_ok [OF st(2)] by blast
  moreover have "filter_made (Some (P, c)) blks"
    using fb_Finish_made [of P fb blks] holds f c by (simp add: tb_holds_def)
  ultimately show ?thesis
    using st f c by (intro exI [of _ w] exI [of _ "Some (P, fb')"] exI [of _ "Some (P, c)"])
      (simp add: write_filter_block_def filter_handle_at_def filter_part_def)
qed

lemma write_metaindex_block_ok:
  fixes n
  assumes "tb_status tb = OK" "good (tb_file tb)" "tb_options tb = opts" "tb_offset tb = of_nat (length (written (tb_file tb)))"
    and pf: "tb_filter tb = None \<longleftrightarrow> pf = None" "filter_made pf blks"
  defines "meta \<equiv> block_bytes interval (meta_entries n pf)"
  shows "\<exists>w. write_metaindex_block append (filter_handle_at n pf) tb =
      Some (\<lparr>bh_offset = tb_offset tb, bh_size = of_nat (length meta)\<rparr>,
        tb\<lparr>tb_status := OK, tb_file := w, tb_offset := of_nat (length (written w))\<rparr>) \<and>
    good w \<and> written w = written (tb_file tb) @ raw_block kNoCompression meta"
proof -
  obtain w where w: "WriteBlock append (build interval (meta_entries n pf)) tb =
      Some (new_block_builder, \<lparr>bh_offset = tb_offset tb, bh_size = of_nat (length meta)\<rparr>,
        tb\<lparr>tb_status := OK, tb_file := w, tb_offset := tb_offset tb + of_nat (length (raw_block kNoCompression meta))\<rparr>)"
      "good w" "written w = written (tb_file tb) @ raw_block kNoCompression meta"
    using WriteBlock_ok [OF assms(2) bb_Finish_build [OF restart_interval]] unfolding meta_def by blast
  have "write_metaindex_block append (filter_handle_at n pf) tb =
      (do { (_, handle, tb) \<leftarrow> WriteBlock append (build interval (meta_entries n pf)) tb; Some (handle, tb) })"
  proof (cases pf)
    case None
    then show ?thesis using assms by (simp add: write_metaindex_block_def meta_entries_def)
  next
    case (Some Pc)
    then obtain P c where Pc: "pf = Some (P, c)" by (cases Pc) simp
    then have P: "o_filter_policy opts = Some P" using pf(2) by (simp add: filter_made_def)
    obtain f where f: "tb_filter tb = Some f" using pf(1) Pc by auto
    have "build interval (meta_entries n pf) = bb_Add interval (filter_key P) (bh_EncodeTo (filter_handle_at n pf) []) new_block_builder"
      using bb_Add_build [OF restart_interval, of "filter_key P" _ "[]"] Pc by (simp add: meta_entries_def bh_EncodeTo_bytes)
    then show ?thesis using assms(1,3) f P by (simp add: write_metaindex_block_def)
  qed
  then show ?thesis using w assms(4) by (intro exI [of _ w]) simp
qed

lemma write_index_block_ok:
  assumes holds: "tb_holds tb blks []"
    and t: "tb_status t = OK" "good (tb_file t)" "tb_options t = opts" "tb_index_options t = tb_index_options tb"
      "tb_offset t = of_nat (length (written (tb_file t)))" "tb_pending t = tb_pending tb" "tb_last_key t = tb_last_key tb"
      "tb_index t = tb_index tb" "tb_handle t = tb_handle tb"
  defines "idx \<equiv> block_bytes 1 (index_entries interval (separators blks) blks)"
  shows "\<exists>t'. write_index_block append t = Some (\<lparr>bh_offset = tb_offset t, bh_size = of_nat (length idx)\<rparr>, t') \<and>
    tb_status t' = OK \<and> good (tb_file t') \<and> written (tb_file t') = written (tb_file t) @ raw_block kNoCompression idx \<and>
    tb_offset t' = of_nat (length (written (tb_file t'))) \<and> tb_closed t' = tb_closed t"
proof -
  define t1 where "t1 = (if tb_pending t then add_index_entry (c_FindShortSuccessor (o_comparator (tb_options t)) (tb_last_key t)) t else t)"
  have pend: "tb_pending tb \<longleftrightarrow> blks \<noteq> []" using holds by (auto simp: tb_holds_def split: if_splits)
  have t1: "good (tb_file t1)" "tb_file t1 = tb_file t" "tb_offset t1 = tb_offset t" "tb_status t1 = OK" "tb_closed t1 = tb_closed t"
    using t by (simp_all add: t1_def add_index_entry_def)
  have "tb_index t1 = build 1 (index_entries interval (separators blks) blks)"
  proof (cases "blks = []")
    case True
    then show ?thesis using holds pend t by (simp add: t1_def tb_holds_def separators_def pend_def)
  next
    case False
    have "[] \<notin> set blks" using holds by (simp add: tb_holds_def)
    then have "concat blks \<noteq> []" using False by (cases blks) auto
    moreover have "length (sep_list separator (length blks - 1) blks []) < length blks" using False by simp
    ultimately show ?thesis
      using index_entries_snoc [of "sep_list separator (length blks - 1) blks []" blks interval] holds pend t False opts_comparator
      by (simp add: t1_def add_index_entry_def tb_holds_def separators_def pend_def bb_Add_build bh_EncodeTo_bytes)
  qed
  then have fin: "fst (bb_Finish (tb_index t1)) = idx" by (simp add: idx_def bb_Finish_build)
  obtain w where "WriteBlock append (tb_index t1) t1 =
      Some (new_block_builder, \<lparr>bh_offset = tb_offset t1, bh_size = of_nat (length idx)\<rparr>,
        t1\<lparr>tb_status := OK, tb_file := w, tb_offset := tb_offset t1 + of_nat (length (raw_block kNoCompression idx))\<rparr>)"
      "good w" "written w = written (tb_file t1) @ raw_block kNoCompression idx"
    using WriteBlock_ok [OF t1(1) fin] by blast
  moreover have "write_index_block append t =
      (do { (blk, handle, tb) \<leftarrow> WriteBlock append (tb_index t1) t1; Some (handle, tb\<lparr>tb_index := blk\<rparr>) })"
    using t(1) by (simp add: write_index_block_def t1_def Let_def)
  ultimately show ?thesis using t(5) t1(2-5) by simp
qed

lemma write_footer_ok:
  assumes "tb_status t = OK" "good (tb_file t)" "tb_offset t = of_nat (length (written (tb_file t)))"
  shows "\<exists>t'. write_footer append mh ih t = Some t' \<and> tb_status t' = OK \<and> good (tb_file t') \<and> tb_closed t' = tb_closed t \<and>
    written (tb_file t') = written (tb_file t) @ ft_bytes \<lparr>metaindex_handle = mh, index_handle = ih\<rparr> \<and>
    tb_offset t' = of_nat (length (written (tb_file t')))"
  using append_ok [OF assms(2), of "ft_bytes \<lparr>metaindex_handle = mh, index_handle = ih\<rparr>"] assms
  by (auto simp: write_footer_def ft_EncodeTo_bytes)

lemma tb_Finish_holds:
  assumes holds: "tb_holds tb blks cur"
  shows "\<exists>tb' blks' pf. tb_Finish append flush tb = Some (OK, tb') \<and> tb_closed tb' \<and> good (tb_file tb') \<and>
    written (tb_file tb') = table_bytes interval blks' (separators blks') pf \<and>
    FileSize tb' = of_nat (length (written (tb_file tb'))) \<and>
    concat blks' = concat blks @ cur \<and> [] \<notin> set blks' \<and> filter_made pf blks'"
proof -
  obtain t0 blks' where t0: "tb_Flush append flush tb = Some t0" and holds0: "tb_holds t0 blks' []"
    and blks': "concat blks' = concat blks @ cur"
  proof (cases "cur = []")
    case True
    have "tb_Flush append flush tb = Some tb" using holds True by (simp add: tb_Flush_def tb_holds_def bb_empty_def new_block_builder_def)
    then show ?thesis using that holds True by simp
  next
    case False
    then show ?thesis using that [of _ "blks @ [cur]"] tb_Flush_holds [OF holds] by auto
  qed
  let ?F = "file_of interval blks'" and ?c = "t0\<lparr>tb_closed := True\<rparr>"
  have holds1: "tb_holds ?c blks' []" using holds0 by (auto simp: tb_holds_def pend_def)
  obtain w f pf where 1: "write_filter_block append ?c =
      Some (filter_handle_at (length ?F) pf,
        ?c\<lparr>tb_status := OK, tb_file := w, tb_offset := of_nat (length (?F @ filter_part pf)), tb_filter := f\<rparr>)"
    "good w" "written w = ?F @ filter_part pf" "f = None \<longleftrightarrow> pf = None" "filter_made pf blks'"
    using write_filter_block_ok [OF holds1] by blast
  define t1 where "t1 = ?c\<lparr>tb_status := OK, tb_file := w, tb_offset := of_nat (length (?F @ filter_part pf)), tb_filter := f\<rparr>"
  define meta where "meta = block_bytes interval (meta_entries (length ?F) pf)"
  have c: "tb_options t0 = opts" using holds0 by (simp add: tb_holds_def)
  obtain w2 where 2: "write_metaindex_block append (filter_handle_at (length ?F) pf) t1 =
      Some (\<lparr>bh_offset = tb_offset t1, bh_size = of_nat (length meta)\<rparr>,
        t1\<lparr>tb_status := OK, tb_file := w2, tb_offset := of_nat (length (written w2))\<rparr>)"
    "good w2" "written w2 = written w @ raw_block kNoCompression meta"
    using write_metaindex_block_ok [of t1 pf blks' "length ?F"] 1 c by (auto simp: t1_def meta_def)
  define t2 where "t2 = t1\<lparr>tb_status := OK, tb_file := w2, tb_offset := of_nat (length (written w2))\<rparr>"
  define idx where "idx = block_bytes 1 (index_entries interval (separators blks') blks')"
  obtain t3 where 3: "write_index_block append t2 = Some (\<lparr>bh_offset = tb_offset t2, bh_size = of_nat (length idx)\<rparr>, t3)"
    "tb_status t3 = OK" "good (tb_file t3)" "written (tb_file t3) = written w2 @ raw_block kNoCompression idx"
    "tb_offset t3 = of_nat (length (written (tb_file t3)))" "tb_closed t3"
    using write_index_block_ok [OF holds1, of t2] 2 c by (auto simp: t2_def t1_def idx_def)
  obtain t4 where 4: "write_footer append \<lparr>bh_offset = tb_offset t1, bh_size = of_nat (length meta)\<rparr>
      \<lparr>bh_offset = tb_offset t2, bh_size = of_nat (length idx)\<rparr> t3 = Some t4"
    "tb_status t4 = OK" "good (tb_file t4)" "tb_closed t4" "tb_offset t4 = of_nat (length (written (tb_file t4)))"
    "written (tb_file t4) = written (tb_file t3) @ ft_bytes
      \<lparr>metaindex_handle = \<lparr>bh_offset = tb_offset t1, bh_size = of_nat (length meta)\<rparr>,
       index_handle = \<lparr>bh_offset = tb_offset t2, bh_size = of_nat (length idx)\<rparr>\<rparr>"
    using write_footer_ok [OF 3(2,3,5)] 3(6) by blast
  have "tb_Finish append flush tb = Some (OK, t4)"
    unfolding tb_Finish_def t0 using 1(1) [folded t1_def] 2(1) [folded t2_def] 3(1) 4(1,2) by (simp add: Let_def)
  moreover have "written (tb_file t4) = table_bytes interval blks' (separators blks') pf"
    using 1 2 3 4 by (simp add: table_bytes_def Let_def meta_def idx_def t1_def t2_def add.assoc)
  moreover have "[] \<notin> set blks'" using holds0 by (simp add: tb_holds_def)
  ultimately show ?thesis using 1 4 blks' by (intro exI [of _ t4] exI [of _ blks'] exI [of _ pf]) (simp add: FileSize_def)
qed

lemma add_all_holds:
  "tb_holds tb blks cur \<Longrightarrow> \<exists>tb' blks' cur'. add_all append flush kvs tb = Some tb' \<and> tb_holds tb' blks' cur' \<and>
    concat blks' @ cur' = concat blks @ cur @ kvs"
proof (induction kvs arbitrary: tb blks cur)
  case (Cons kv kvs)
  obtain tb1 blks1 cur1 where 1: "tb_Add append flush (fst kv) (snd kv) tb = Some tb1" "tb_holds tb1 blks1 cur1"
      "concat blks1 @ cur1 = concat blks @ cur @ [kv]"
    using tb_Add_holds [OF Cons.prems, of "fst kv" "snd kv"] by auto
  then have eq: "concat blks1 @ cur1 @ kvs = concat blks @ cur @ kv # kvs" by (metis append_Cons append_Nil append_assoc)
  obtain tb2 blks2 cur2 where "add_all append flush kvs tb1 = Some tb2" "tb_holds tb2 blks2 cur2"
      "concat blks2 @ cur2 = concat blks1 @ cur1 @ kvs"
    using Cons.IH [OF 1(2)] by blast
  then show ?case using 1(1) unfolding eq by auto
qed auto

lemma write_table_ok:
  assumes "good w" and "written w = []"
  shows "\<exists>tb blks pf. write_table append flush opts kvs w = Some (OK, tb) \<and> good (tb_file tb) \<and>
    written (tb_file tb) = table_bytes interval blks (separators blks) pf \<and>
    FileSize tb = of_nat (length (written (tb_file tb))) \<and> concat blks = kvs \<and> [] \<notin> set blks \<and> filter_made pf blks"
proof -
  obtain tb blks cur where 1: "add_all append flush kvs (new_TableBuilder opts w) = Some tb" "tb_holds tb blks cur"
      "concat blks @ cur = kvs"
    using add_all_holds [OF new_TableBuilder_holds [OF assms], of kvs] by auto
  show ?thesis using tb_Finish_holds [OF 1(2)] 1(1,3) unfolding write_table_def by auto
qed

end

end
