(* ===== verification/LdbTableProofs.thy ===== *)
theory LdbTableProofs
  imports LdbTableBuildProofs
begin

text \<open>
  A finished table is opened and searched: \<open>Open\<close> finds the index and the filter of the file that a
  builder wrote, and \<open>InternalGet\<close> the first entry that is not below a key, if it may answer the lookup.
\<close>

section \<open>Iterators of a good block\<close>

lemma pos_at_simps:
  assumes "small_block n kvs" and "pos_at n kvs i it"
  shows "it_Valid it \<longleftrightarrow> i < length kvs" "it_status it = OK"
    "i < length kvs \<Longrightarrow> it_key it = fst (kvs ! i)" "i < length kvs \<Longrightarrow> value_slice it = snd (kvs ! i)"
  using assms at_entry_Valid [OF assms(1), of i it] by (auto simp: pos_at_def at_entry_def iter_on_def split: if_splits)

context comparator
begin

lemma block_seek:
  assumes "small_block n kvs" and "list_all (\<lambda>kv. valid (fst kv)) kvs" "valid key"
    and "sorted_wrt (\<lambda>a b. cmp (fst a) (fst b) < 0) kvs"
  shows "\<exists>it. i_Seek cmp key (NewIterator (new_block (block_bytes n kvs))) = Some (BlockIterator it) \<and>
    pos_at n kvs (length (takeWhile (\<lambda>kv. cmp (fst kv) key < 0) kvs)) it"
  using seek_pos [OF assms(1) new_iter_on assms(2-4)] by (auto simp: new_block_bytes [OF assms(1)] i_Seek_def)

end

section \<open>Where the blocks of a table are\<close>

context random_file
begin

lemma ReadBlock_at:
  assumes "good k" and "contents k = A @ raw_block kNoCompression bs @ B" and "length (contents k) < 2 ^ 32"
  shows "\<exists>in_buf k'. ReadBlock read verify \<lparr>bh_offset = of_nat (length A), bh_size = of_nat (length bs)\<rparr> k =
      Some (OK, \<lparr>bc_data = bs, cachable = in_buf, heap_allocated = in_buf\<rparr>, k') \<and> good k' \<and> contents k' = contents k"
proof -
  have len: "length (raw_block kNoCompression bs) = length bs + 5" by (simp add: length_raw_block kBlockTrailerSize_def)
  have "unat (of_nat (length A) :: u64) = length A" using assms(2,3) by (simp add: unat_of_nat take_bit_nat_eq_self)
  moreover have "length bs < 2 ^ 32" using assms(2,3) len by simp
  ultimately show ?thesis using assms(2) len by (intro ReadBlock_raw [OF assms(1)]) simp_all
qed

end

lemma file_of_split:
  "i < length blks \<Longrightarrow> file_of n blks = file_of n (take i blks) @ raw_of n (blks ! i) @ file_of n (drop (Suc i) blks)"
  by (simp add: file_of_def id_take_nth_drop [of i blks, THEN arg_cong, of "\<lambda>x. concat (map (raw_of n) x)"])

lemma table_bytes_front: "\<exists>xs. table_bytes n blks seps pf = file_of n blks @ filter_part pf @
    raw_block kNoCompression (block_bytes n (meta_entries (length (file_of n blks)) pf)) @
    raw_block kNoCompression (block_bytes 1 (index_entries n seps blks)) @ xs"
  by (simp add: table_bytes_def Let_def)

lemma entries_length: "3 * i \<le> off n kvs i"
proof (induction i)
  case (Suc i)
  have "3 \<le> length (entry_bytes s kv)" for s kv
    by (cases kv) (simp add: entry_bytes_def EncodeVarint32_bytes varint_bytes.simps)
  from this [of "shared_at n kvs i" "kvs ! i"] Suc show ?case by simp
qed simp

section \<open>Separators\<close>

context table_order
begin

definition keys_ok :: "entries \<Rightarrow> bool" where
  "keys_ok kvs \<longleftrightarrow> list_all (\<lambda>kv. valid (fst kv)) kvs \<and> sorted_wrt (\<lambda>a b. cmp (fst a) (fst b) < 0) kvs"

abbreviation below :: "u8 list \<Rightarrow> entry \<Rightarrow> bool" where
  "below key kv \<equiv> cmp (fst kv) key < 0"

definition lookup_result :: "u8 list \<Rightarrow> entries \<Rightarrow> entry option \<Rightarrow> bool" where
  "lookup_result key kvs r \<longleftrightarrow>
     (case dropWhile (below key) kvs of [] \<Rightarrow> r = None | e # _ \<Rightarrow> r = Some e \<or> r = None \<and> \<not> alike key (fst e))"

lemma lookup_result_Nil: "dropWhile (below key) kvs = [] \<Longrightarrow> lookup_result key kvs r \<longleftrightarrow> r = None"
  unfolding lookup_result_def by (simp only: list.case)

lemma lookup_result_Cons:
  "dropWhile (below key) kvs = e # es \<Longrightarrow> lookup_result key kvs r \<longleftrightarrow> r = Some e \<or> r = None \<and> \<not> alike key (fst e)"
  unfolding lookup_result_def by (simp only: list.case)

lemma lookup_result_None:
  "lookup_result key kvs r \<Longrightarrow> (\<And>e. r = Some e \<Longrightarrow> \<not> alike key (fst e)) \<Longrightarrow> lookup_result key kvs None"
  by (cases "dropWhile (below key) kvs") (auto simp only: lookup_result_Nil lookup_result_Cons)

lemma le_less_trans: "valid a \<Longrightarrow> valid b \<Longrightarrow> valid c \<Longrightarrow> cmp a b < 0 \<Longrightarrow> cmp b c \<le> 0 \<Longrightarrow> cmp a c < 0"
  by (metis cmp_eq cmp_trans order_le_less)

lemma cmp_not_less: "valid a \<Longrightarrow> valid b \<Longrightarrow> \<not> cmp a b < 0 \<longleftrightarrow> cmp b a \<le> 0"
  by (metis cmp_eq cmp_flip linorder_not_less order_le_less)

definition blocks_ok :: "entries list \<Rightarrow> bool" where
  "blocks_ok blks \<longleftrightarrow> [] \<notin> set blks \<and> keys_ok (concat blks)"

lemma blocks_okD:
  assumes "blocks_ok blks" and "i < length blks"
  shows "blks ! i \<noteq> []" "keys_ok (blks ! i)" "last (blks ! i) \<in> set (blks ! i)" "hd (blks ! i) \<in> set (blks ! i)"
    "kv \<in> set (blks ! i) \<Longrightarrow> valid (fst kv)"
proof -
  show ne: "blks ! i \<noteq> []" using assms nth_mem by (metis blocks_ok_def)
  then show "last (blks ! i) \<in> set (blks ! i)" "hd (blks ! i) \<in> set (blks ! i)" by simp_all
  have "concat blks = concat (take i blks) @ blks ! i @ concat (drop (Suc i) blks)"
    using assms(2) by (metis append_take_drop_id concat.simps(2) concat_append id_take_nth_drop)
  then show keys: "keys_ok (blks ! i)" using assms(1) by (simp add: blocks_ok_def keys_ok_def sorted_wrt_append)
  then show "kv \<in> set (blks ! i) \<Longrightarrow> valid (fst kv)" by (auto simp: keys_ok_def list_all_iff)
qed

lemma earlier_block:
  assumes "blocks_ok blks" and "i < j" "j < length blks" and "a \<in> set (blks ! i)" "b \<in> set (blks ! j)"
  shows "cmp (fst a) (fst b) < 0"
proof -
  have "blks ! i \<in> set (take j blks)" using assms(2,3) by (metis length_take min.absorb4 nth_mem nth_take)
  moreover have "blks ! j \<in> set (drop j blks)" using assms(3) by (metis Cons_nth_drop_Suc list.set_intros(1))
  moreover have "sorted_wrt (\<lambda>a b. cmp (fst a) (fst b) < 0) (concat (take j blks) @ concat (drop j blks))"
    using assms(1) by (metis append_take_drop_id blocks_ok_def concat_append keys_ok_def)
  ultimately show ?thesis using assms(4,5) by (fastforce simp: sorted_wrt_append)
qed

lemma within_block:
  assumes "blocks_ok blks" and "i < length blks" and "kv \<in> set (blks ! i)"
  shows "cmp (fst kv) (fst (last (blks ! i))) \<le> 0" "cmp (fst (hd (blks ! i))) (fst kv) \<le> 0"
proof -
  let ?b = "blks ! i"
  note D = blocks_okD [OF assms(1,2)]
  have sorted: "sorted_wrt (\<lambda>a b. cmp (fst a) (fst b) < 0) ?b" using D(2) by (simp add: keys_ok_def)
  have refl: "cmp (fst kv) (fst kv) = 0" using D(5) [OF assms(3)] by (rule cmp_refl)
  have "kv = last ?b \<or> kv \<in> set (butlast ?b)" "kv = hd ?b \<or> kv \<in> set (tl ?b)"
    using assms(3) D(1) by (metis append_butlast_last_id in_set_conv_decomp rotate1.simps(2) Un_iff list.collapse set_ConsD set_append singletonD list.set(1,2) insert_iff emptyE)+
  moreover have "sorted_wrt (\<lambda>a b. cmp (fst a) (fst b) < 0) (butlast ?b @ [last ?b])" "sorted_wrt (\<lambda>a b. cmp (fst a) (fst b) < 0) (hd ?b # tl ?b)"
    using sorted D(1) by simp_all
  ultimately show "cmp (fst kv) (fst (last ?b)) \<le> 0" "cmp (fst (hd ?b)) (fst kv) \<le> 0"
    using refl by (auto simp: sorted_wrt_append)
qed

lemma length_separators [simp]: "length (separators blks) = length blks"
  by (cases blks) (simp_all add: separators_def)

lemma separators_nth:
  assumes "blocks_ok blks" and "i < length blks"
  shows "separators blks ! i =
    (if Suc i < length blks then separator (fst (last (blks ! i))) (fst (hd (blks ! Suc i)))
     else successor (fst (last (blks ! i))))"
proof (cases "Suc i < length blks")
  case True
  have "concat (drop (Suc i) blks) = blks ! Suc i @ concat (drop (Suc (Suc i)) blks)"
    using True by (metis Cons_nth_drop_Suc concat.simps(2))
  moreover have "i < length blks - Suc 0" "blks \<noteq> []" using True by auto
  ultimately show ?thesis
    using True blocks_okD(1) [OF assms(1) True] by (simp add: separators_def sep_list_def nth_append)
next
  case False
  then have i: "i = length blks - 1" using assms(2) by simp
  have "blks \<noteq> []" using assms(2) by auto
  then have "concat blks = concat (butlast blks) @ blks ! i"
    by (metis append_butlast_last_id append_Nil2 concat.simps(1,2) concat_append i last_conv_nth)
  then have "last (concat blks) = last (blks ! i)" using blocks_okD(1) [OF assms] by simp
  moreover have "\<not> i < length blks - Suc 0" "blks \<noteq> []" using i assms(2) by auto
  ultimately show ?thesis using False assms(2) by (simp add: separators_def nth_append)
qed

lemma separators_props:
  assumes "blocks_ok blks" and "i < length blks"
  shows "valid (separators blks ! i)" "cmp (fst (last (blks ! i))) (separators blks ! i) \<le> 0"
    "Suc i < length blks \<Longrightarrow> cmp (separators blks ! i) (fst (hd (blks ! Suc i))) < 0"
proof -
  note D = blocks_okD [OF assms]
  have a: "valid (fst (last (blks ! i)))" using D(3,5) by blast
  have "valid (separators blks ! i) \<and> cmp (fst (last (blks ! i))) (separators blks ! i) \<le> 0 \<and>
      (Suc i < length blks \<longrightarrow> cmp (separators blks ! i) (fst (hd (blks ! Suc i))) < 0)"
  proof (cases "Suc i < length blks")
    case True
    note D' = blocks_okD [OF assms(1) True]
    have "cmp (fst (last (blks ! i))) (fst (hd (blks ! Suc i))) < 0"
      by (rule earlier_block [OF assms(1) _ True D(3) D'(4)]) simp
    then show ?thesis
      using separator_between [OF a D'(5) [OF D'(4)]] True separators_nth [OF assms] by simp
  next
    case False
    then show ?thesis using successor_above [OF a] separators_nth [OF assms] by simp
  qed
  then show "valid (separators blks ! i)" "cmp (fst (last (blks ! i))) (separators blks ! i) \<le> 0"
    "Suc i < length blks \<Longrightarrow> cmp (separators blks ! i) (fst (hd (blks ! Suc i))) < 0" by simp_all
qed

lemma separators_sorted:
  assumes "blocks_ok blks"
  shows "sorted_wrt (\<lambda>a b. cmp a b < 0) (separators blks)"
proof (clarsimp simp: sorted_wrt_iff_nth_less)
  fix i j
  assume ij: "i < j" "j < length blks"
  then have i: "i < length blks" "Suc i < length blks" by simp_all
  note D = blocks_okD [OF assms i(2)] and Dj = blocks_okD [OF assms ij(2)]
  have hd_last: "cmp (fst (hd (blks ! Suc i))) (fst (last (blks ! j))) \<le> 0"
  proof (cases "Suc i = j")
    case True
    then show ?thesis using within_block(1) [OF assms i(2) D(4)] by simp
  next
    case False
    then show ?thesis using earlier_block [OF assms _ ij(2) D(4) Dj(3)] ij(1) by simp
  qed
  have v: "valid (separators blks ! i)" "valid (fst (hd (blks ! Suc i)))" "valid (fst (last (blks ! j)))" "valid (separators blks ! j)"
    using separators_props(1) [OF assms] i ij D(4,5) Dj(3,5) by blast+
  have "cmp (separators blks ! i) (fst (last (blks ! j))) < 0"
    using le_less_trans [OF v(1-3) separators_props(3) [OF assms i] hd_last] .
  then show "cmp (separators blks ! i) (separators blks ! j) < 0"
    using le_less_trans [OF v(1,3,4) _ separators_props(2) [OF assms ij(2)]] by blast
qed

lemma index_keys_ok:
  assumes "blocks_ok blks"
  shows "keys_ok (index_entries n (separators blks) blks)"
  using separators_sorted [OF assms] separators_props(1) [OF assms]
  by (auto simp: keys_ok_def index_entries_def list_all_length sorted_wrt_iff_nth_less)

section \<open>The block of a key\<close>

definition block_for :: "u8 list \<Rightarrow> entries list \<Rightarrow> nat" where
  "block_for key blks = length (takeWhile (\<lambda>s. cmp s key < 0) (separators blks))"

lemma index_takeWhile:
  "length (takeWhile (below key) (index_entries n (separators blks) blks)) = block_for key blks"
proof -
  let ?I = "index_entries n (separators blks) blks"
  have "map fst ?I = separators blks" by (rule nth_equalityI) (simp_all add: index_entries_def)
  then have "block_for key blks = length (takeWhile (\<lambda>s. cmp s key < 0) (map fst ?I))" unfolding block_for_def by simp
  then show ?thesis unfolding takeWhile_map by (simp add: comp_def)
qed

lemma blocks_before:
  assumes "blocks_ok blks" and "valid key" and "i < block_for key blks" and "kv \<in> set (blks ! i)"
  shows "cmp (fst kv) key < 0"
proof -
  have "block_for key blks \<le> length blks" unfolding block_for_def using length_takeWhile_le by (metis length_separators)
  then have i: "i < length blks" using assms(3) by simp
  note D = blocks_okD [OF assms(1) i] and S = separators_props [OF assms(1) i]
  have "separators blks ! i \<in> set (takeWhile (\<lambda>s. cmp s key < 0) (separators blks))"
    using assms(3) unfolding block_for_def by (metis nth_mem takeWhile_nth)
  then have "cmp (separators blks ! i) key < 0" using set_takeWhileD by metis
  then have "cmp (fst (last (blks ! i))) key < 0"
    using cmp_le_trans [OF D(5) [OF D(3)] S(1) assms(2) S(2)] by simp
  then show ?thesis
    using cmp_le_trans [OF D(5) [OF assms(4)] D(5) [OF D(3)] assms(2) within_block(1) [OF assms(1) i assms(4)]] by simp
qed

lemma drop_blocks_before:
  assumes "blocks_ok blks" and "valid key"
  shows "dropWhile (below key) (concat blks) = dropWhile (below key) (concat (drop (block_for key blks) blks))"
proof -
  have le: "block_for key blks \<le> length blks" unfolding block_for_def using length_takeWhile_le by (metis length_separators)
  have "cmp (fst kv) key < 0" if kv: "kv \<in> set (concat (take (block_for key blks) blks))" for kv
  proof -
    obtain b where b: "b \<in> set (take (block_for key blks) blks)" "kv \<in> set b" using kv by auto
    then obtain i where "i < block_for key blks" "b = blks ! i" using le by (auto simp: in_set_conv_nth)
    then show ?thesis using blocks_before [OF assms] b(2) by blast
  qed
  then have "dropWhile (below key) (concat (take (block_for key blks) blks) @ concat (drop (block_for key blks) blks)) =
      dropWhile (below key) (concat (drop (block_for key blks) blks))"
    by (rule dropWhile_append2)
  then show ?thesis by (metis append_take_drop_id concat_append)
qed

lemma drop_for_block:
  assumes "blocks_ok blks" and "valid key" and "i = block_for key blks" "i < length blks"
  shows "dropWhile (below key) (concat blks) = dropWhile (below key) (blks ! i @ concat (drop (Suc i) blks))"
  using drop_blocks_before [OF assms(1,2)] assms(3,4) by (metis Cons_nth_drop_Suc concat.simps(2))

lemma after_block:
  assumes "blocks_ok blks" and "valid key" and i: "i = block_for key blks" "i < length blks"
    and all: "\<forall>kv\<in>set (blks ! i). cmp (fst kv) key < 0" and e: "e \<in> set (concat (drop (Suc i) blks))"
  shows "\<not> alike key (fst e)"
proof -
  obtain b where b: "b \<in> set (drop (Suc i) blks)" "e \<in> set b" using e by auto
  then obtain m where "m < length (drop (Suc i) blks)" "drop (Suc i) blks ! m = b" by (auto simp: in_set_conv_nth)
  then obtain j where j: "Suc i \<le> j" "j < length blks" "e \<in> set (blks ! j)"
    using b(2) by (intro that [of "Suc i + m"]) simp_all
  then have Suc: "Suc i < length blks" by simp
  note D = blocks_okD [OF assms(1) i(2)] and D' = blocks_okD [OF assms(1) Suc]
  have sep: "separators blks ! i = separator (fst (last (blks ! i))) (fst (hd (blks ! Suc i)))"
    using separators_nth [OF assms(1) i(2)] Suc by simp
  have "\<not> cmp (separators blks ! i) key < 0"
    using nth_length_takeWhile [of "\<lambda>s. cmp s key < 0" "separators blks"] i by (simp add: block_for_def)
  then have key: "cmp key (separators blks ! i) \<le> 0"
    using cmp_not_less [OF separators_props(1) [OF assms(1) i(2)] assms(2)] by blast
  have hd_e: "cmp (fst (hd (blks ! Suc i))) (fst e) \<le> 0"
  proof (cases "j = Suc i")
    case True
    then show ?thesis using within_block(2) [OF assms(1) Suc] j(3) by simp
  next
    case False
    then show ?thesis using earlier_block [OF assms(1) _ j(2) D'(4) j(3)] j(1) by simp
  qed
  have "cmp (fst (last (blks ! i))) (fst (hd (blks ! Suc i))) < 0"
    by (rule earlier_block [OF assms(1) _ Suc D(3) D'(4)]) simp
  moreover have "valid (fst e)" using blocks_okD(5) [OF assms(1) j(2,3)] .
  ultimately show ?thesis
    using alike_gap [OF D(5) [OF D(3)] D'(5) [OF D'(4)] assms(2)] all D(3) key [unfolded sep] hd_e by blast
qed

lemma block_result:
  assumes "blocks_ok blks" and "valid key" and "i = block_for key blks" "i < length blks"
  defines "p \<equiv> length (takeWhile (below key) (blks ! i))"
  shows "lookup_result key (concat blks) (if p < length (blks ! i) then Some (blks ! i ! p) else None)"
proof (cases "p < length (blks ! i)")
  case True
  then have "\<not> below key (blks ! i ! p)" unfolding p_def by (rule nth_length_takeWhile)
  then have "dropWhile (below key) (blks ! i @ xs) = drop p (blks ! i) @ xs" for xs
    using True nth_mem [OF True] by (metis p_def dropWhile_append1 dropWhile_eq_drop)
  then show ?thesis
    using True drop_for_block [OF assms(1-4)] by (simp add: lookup_result_def Cons_nth_drop_Suc [symmetric])
next
  case False
  then have "takeWhile (below key) (blks ! i) = blks ! i"
    by (metis p_def length_takeWhile_le nat_less_le takeWhile_eq_take take_all_iff not_less)
  then have all: "\<forall>kv\<in>set (blks ! i). cmp (fst kv) key < 0" by (metis takeWhile_eq_all_conv)
  then have drop: "dropWhile (below key) (concat blks) = dropWhile (below key) (concat (drop (Suc i) blks))"
    using drop_for_block [OF assms(1-4)] by (simp add: dropWhile_append2)
  show ?thesis
  proof (cases "dropWhile (below key) (concat (drop (Suc i) blks))")
    case Nil
    then show ?thesis using False by (simp only: lookup_result_Nil [OF drop [unfolded Nil]] if_False)
  next
    case (Cons e es)
    then have "e \<in> set (concat (drop (Suc i) blks))" by (metis list.set_intros(1) set_dropWhileD)
    from after_block [OF assms(1-4) all this] show ?thesis
      using False by (simp only: lookup_result_Cons [OF drop [unfolded Cons]] if_False) simp
  qed
qed

lemma filter_result:
  assumes "blocks_ok blks" and "valid key" and "i = block_for key blks" "i < length blks"
    and no: "\<forall>kv\<in>set (blks ! i). \<not> alike key (fst kv)"
  shows "lookup_result key (concat blks) None"
proof (rule lookup_result_None [OF block_result [OF assms(1-4)]])
  fix e
  assume "(if length (takeWhile (below key) (blks ! i)) < length (blks ! i)
    then Some (blks ! i ! length (takeWhile (below key) (blks ! i))) else None) = Some e"
  then have "e \<in> set (blks ! i)" by (metis nth_mem option.distinct(1) option.inject)
  then show "\<not> alike key (fst e)" using no by blast
qed

lemma past_end_result:
  assumes "blocks_ok blks" and "valid key" and "\<not> block_for key blks < length blks"
  shows "lookup_result key (concat blks) None"
proof -
  have "drop (block_for key blks) blks = []" using assms(3) by simp
  then have "dropWhile (below key) (concat blks) = []"
    using drop_blocks_before [OF assms(1,2)] by (simp only: concat.simps(1) dropWhile.simps(1))
  then show ?thesis by (simp only: lookup_result_Nil)
qed

end

section \<open>The filter\<close>

lemma key_log_mem:
  assumes "i < length blks" and "kv \<in> set (blks ! i)"
  shows "(bh_offset (handle_at n blks i), fst kv) \<in> set (key_log n blks)"
  using assms by (auto simp: key_log_def intro!: bexI [of _ i])

lemma concat_length_le: "0 < n \<Longrightarrow> 3 * length (concat blks) \<le> length (file_of n blks)"
proof (induction blks rule: rev_induct)
  case (snoc b blks)
  have "3 * length b \<le> length (block_bytes n b)"
    using entries_length [of "length b" n b] by (simp add: block_bytes_length data_end_def)
  then show ?case using snoc by (simp add: file_of_snoc raw_of_def length_raw_block)
qed simp

context table_order
begin

lemma filter_denies:
  assumes made: "filter_made (Some (P, c)) blks" and len: "length (file_of interval blks) + length c < 2 ^ 31"
    and i: "i < length blks" and no: "\<not> fr_KeyMayMatch P (new_filter_reader c) (bh_offset (handle_at interval blks i)) key"
  shows "\<forall>kv\<in>set (blks ! i). \<not> alike key (fst kv)"
proof (rule ballI, rule notI)
  fix kv
  assume kv: "kv \<in> set (blks ! i)" "alike key (fst kv)"
  have P: "o_filter_policy opts = Some P" using made by (simp add: filter_made_def)
  obtain groups where g: "c = filter_contents P groups" "placed groups [] (key_log interval blks)"
      "length (concat groups) = length (concat blks)"
    using made len by (auto simp: filter_made_def)
  have "3 * length (concat groups) < 2 ^ 31" using concat_length_le [OF restart_interval, of blks] g(3) len by simp
  moreover have "unat (bh_offset (handle_at interval blks i) div kFilterBase) < length groups \<and>
      fst kv \<in> set (groups ! unat (bh_offset (handle_at interval blks i) div kFilterBase))"
    using g(2) key_log_mem [OF i kv(1), of interval] by (fastforce simp: placed_def Let_def)
  ultimately show False
    using fr_match [OF filter [OF P] refl refl, of groups "bh_offset (handle_at interval blks i)" _ "fst kv" key] len g(1) kv(2) no
    by simp
qed

section \<open>Lookup\<close>

definition index_block_of :: "entries list \<Rightarrow> u8 list" where
  "index_block_of blks = block_bytes 1 (index_entries interval (separators blks) blks)"

definition table_on :: "'k table \<Rightarrow> entries list \<Rightarrow> made_filter \<Rightarrow> bool" where
  "table_on t blks pf \<longleftrightarrow>
     t_options t = opts \<and> t_index_block t = new_block (index_block_of blks) \<and>
     t_filter t = map_option (\<lambda>(P, c). (P, new_filter_reader c)) pf"

text \<open>Where the length of a table bounds its parts.\<close>

lemma table_sizes:
  assumes "length (table_bytes interval blks (separators blks) pf) < 2 ^ 31"
  shows "small_block 1 (index_entries interval (separators blks) blks)"
    "i < length blks \<Longrightarrow> small_block interval (blks ! i)"
    "pf = Some (P, c) \<Longrightarrow> length (file_of interval blks) + length c < 2 ^ 31"
proof -
  obtain xs where b: "table_bytes interval blks (separators blks) pf = file_of interval blks @ filter_part pf @
      raw_block kNoCompression (block_bytes interval (meta_entries (length (file_of interval blks)) pf)) @
      raw_block kNoCompression (block_bytes 1 (index_entries interval (separators blks) blks)) @ xs"
    using table_bytes_front by blast
  show "small_block 1 (index_entries interval (separators blks) blks)"
    using assms unfolding b by (simp add: small_block_def length_raw_block)
  show "small_block interval (blks ! i)" if "i < length blks"
    using assms restart_interval unfolding b file_of_split [OF that] by (simp add: small_block_def raw_of_def length_raw_block)
  show "length (file_of interval blks) + length c < 2 ^ 31" if "pf = Some (P, c)"
    using assms that unfolding b by (simp add: filter_part_def length_raw_block)
qed

lemma index_seek:
  assumes ok: "blocks_ok blks" "valid key" and small: "small_block 1 (index_entries interval (separators blks) blks)"
  shows "\<exists>it. i_Seek cmp key (NewIterator (new_block (index_block_of blks))) = Some (BlockIterator it) \<and>
    it_status it = OK \<and> (it_Valid it \<longleftrightarrow> block_for key blks < length blks) \<and>
    (it_Valid it \<longrightarrow> value_slice it = bh_bytes (handle_at interval blks (block_for key blks)))"
proof -
  let ?I = "index_entries interval (separators blks) blks"
  obtain it where it: "i_Seek cmp key (NewIterator (new_block (index_block_of blks))) = Some (BlockIterator it)"
      "pos_at 1 ?I (block_for key blks) it"
    using block_seek [OF small _ ok(2)] index_keys_ok [OF ok(1), of interval] index_takeWhile [of key interval blks]
    by (auto simp: index_block_of_def keys_ok_def)
  have "length ?I = length blks" "i < length blks \<Longrightarrow> snd (?I ! i) = bh_bytes (handle_at interval blks i)" for i
    by (simp_all add: index_entries_def)
  then show ?thesis using it(1) pos_at_simps [OF small it(2)] by auto
qed

text \<open>The lookup, given that \<open>BlockReader\<close> returns an iterator of every block of the index.\<close>

lemma InternalGet_ok:
  assumes on: "table_on t blks pf" and ok: "blocks_ok blks" "valid key" and made: "filter_made pf blks"
    and len: "length (table_bytes interval blks (separators blks) pf) < 2 ^ 31"
    and safe: "safe k"
    and reader: "\<And>i k. safe k \<Longrightarrow> i < length blks \<Longrightarrow> \<exists>h k'.
      BlockReader t options (bh_bytes (handle_at interval blks i)) k =
        Some (NewIterator (new_block (block_bytes interval (blks ! i))), h, k') \<and> safe (delete_iter t h k')"
  shows "\<exists>r k'. InternalGet t options key k = Some (OK, r, k') \<and> safe k' \<and> lookup_result key (concat blks) r"
proof -
  let ?i = "block_for key blks" and ?h = "handle_at interval blks (block_for key blks)"
  note sizes = table_sizes [OF len]
  obtain it where it: "i_Seek cmp key (NewIterator (t_index_block t)) = Some (BlockIterator it)" "it_status it = OK"
      "it_Valid it \<longleftrightarrow> ?i < length blks" "it_Valid it \<longrightarrow> value_slice it = bh_bytes ?h"
    using index_seek [OF ok sizes(1)] on by (auto simp: table_on_def)
  have c: "c_Compare (o_comparator (t_options t)) = cmp" using on by (simp add: table_on_def opts_comparator)
  define denies where "denies \<longleftrightarrow> (case t_filter t of None \<Rightarrow> False | Some (P, fr) \<Rightarrow> \<not> fr_KeyMayMatch P fr (bh_offset ?h) key)"
  have handle: "bh_DecodeFrom (bh_bytes ?h) new_BlockHandle = (OK, ?h, [])"
    using bh_DecodeFrom_bytes [of ?h "[]"] by simp
  show ?thesis
  proof (cases "?i < length blks")
    case False
    then have "InternalGet t options key k = Some (OK, None, k)"
      using it by (simp add: InternalGet_def c i_Valid_def i_status_def)
    then show ?thesis using past_end_result [OF ok False] safe by blast
  next
    case True
    then have valid: "i_Valid (BlockIterator it)" "i_value (BlockIterator it) = Some (bh_bytes ?h)"
      using it by (simp_all add: i_Valid_def i_value_def)
    show ?thesis
    proof (cases denies)
      case denied: True
      then obtain P fr where f: "t_filter t = Some (P, fr)" "\<not> fr_KeyMayMatch P fr (bh_offset ?h) key"
        by (auto simp: denies_def split: option.splits)
      have "map_option (\<lambda>(P, c). (P, new_filter_reader c)) pf = Some (P, fr)" using on f(1) by (simp add: table_on_def)
      then obtain c where pf: "pf = Some (P, c)" "fr = new_filter_reader c" by auto
      have "InternalGet t options key k = Some (OK, None, k)"
        using it valid f by (simp add: InternalGet_def c handle i_status_def)
      moreover have "\<forall>kv\<in>set (blks ! ?i). \<not> alike key (fst kv)"
        by (rule filter_denies [OF made [unfolded pf(1)] sizes(3) [OF pf(1)] True f(2) [unfolded pf(2)]])
      ultimately show ?thesis using filter_result [OF ok refl True] safe by blast
    next
      case passed: False
      obtain h k' where read: "BlockReader t options (bh_bytes ?h) k =
          Some (NewIterator (new_block (block_bytes interval (blks ! ?i))), h, k')" "safe (delete_iter t h k')"
        using reader [OF safe True] by blast
      let ?b = "blks ! ?i" and ?p = "length (takeWhile (below key) (blks ! ?i))"
      obtain bit where bit: "i_Seek cmp key (NewIterator (new_block (block_bytes interval ?b))) = Some (BlockIterator bit)"
          "pos_at interval ?b ?p bit"
        using block_seek [OF sizes(2) [OF True] _ ok(2)] blocks_okD(2) [OF ok(1) True] by (auto simp: keys_ok_def)
      define r where "r = (if ?p < length ?b then Some (?b ! ?p) else None)"
      note pos = pos_at_simps [OF sizes(2) [OF True] bit(2)]
      have "InternalGet t options key k = Some (OK, r, delete_iter t h k')"
        using it valid read(1) bit(1) pos passed
        by (auto simp: InternalGet_def c handle denies_def r_def i_Valid_def i_status_def i_key_def i_value_def
          split: option.splits prod.splits)
      then show ?thesis using block_result [OF ok refl True] read(2) unfolding r_def by blast
    qed
  qed
qed

end

section \<open>Opening a table\<close>

lemma meta_seek:
  assumes "small_block n (meta_entries at (Some (P, c)))"
  shows "\<exists>it. i_Seek Slice_compare (filter_key P) (NewIterator (new_block (block_bytes n (meta_entries at (Some (P, c)))))) =
      Some (BlockIterator it) \<and> it_Valid it \<and> it_key it = filter_key P \<and>
    value_slice it = bh_bytes (filter_handle_at at (Some (P, c)))"
proof -
  have "Slice_compare (filter_key P) (filter_key P) = 0" by (simp add: Slice_compare_eq)
  then show ?thesis
    using bytewise.block_seek [OF assms, of "filter_key P"] pos_at_simps [OF assms, of 0] by (auto simp: meta_entries_def)
qed

locale table_file = table_order cmp separator successor valid opts alike + random_file read good contents
  for cmp separator successor valid opts alike
    and read :: "'k random_read"
    and good :: "'k \<Rightarrow> bool"
    and contents :: "'k \<Rightarrow> u8 list"
begin

definition holds_table :: "entries list \<Rightarrow> made_filter \<Rightarrow> 'k \<Rightarrow> bool" where
  "holds_table blks pf k \<longleftrightarrow> good k \<and> contents k = table_bytes interval blks (separators blks) pf"

lemma ReadBlock_table:
  assumes "holds_table blks pf k" and "table_bytes interval blks (separators blks) pf = A @ raw_block kNoCompression bs @ B"
    and "length (table_bytes interval blks (separators blks) pf) < 2 ^ 31"
  shows "\<exists>in_buf k'. ReadBlock read verify \<lparr>bh_offset = of_nat (length A), bh_size = of_nat (length bs)\<rparr> k =
      Some (OK, \<lparr>bc_data = bs, cachable = in_buf, heap_allocated = in_buf\<rparr>, k') \<and> holds_table blks pf k'"
  using ReadBlock_at [of k A bs B verify] assms by (simp add: holds_table_def)

lemma ReadMeta_ok:
  assumes holds: "holds_table blks pf k" and made: "filter_made pf blks"
    and len: "length (table_bytes interval blks (separators blks) pf) < 2 ^ 31"
    and ft: "metaindex_handle ft = \<lparr>bh_offset = of_nat (length (file_of interval blks @ filter_part pf)),
      bh_size = of_nat (length (block_bytes interval (meta_entries (length (file_of interval blks)) pf)))\<rparr>"
    and t: "t_options t = opts" "t_read t = read" "t_filter t = None"
  shows "\<exists>k'. ReadMeta ft t k = Some (t\<lparr>t_filter := map_option (\<lambda>(P, c). (P, new_filter_reader c)) pf\<rparr>, k') \<and>
    holds_table blks pf k'"
proof (cases pf)
  case None
  then show ?thesis using assms by (simp add: filter_made_def ReadMeta_def)
next
  case (Some Pc)
  then obtain P c where pf: "pf = Some (P, c)" by (cases Pc) simp
  have P: "o_filter_policy opts = Some P" using made pf by (simp add: filter_made_def)
  let ?F = "file_of interval blks" and ?M = "block_bytes interval (meta_entries (length (file_of interval blks)) pf)"
  obtain xs where bytes: "table_bytes interval blks (separators blks) pf =
      (?F @ filter_part pf) @ raw_block kNoCompression ?M @ raw_block kNoCompression (index_block_of blks) @ xs"
    using table_bytes_front [of interval blks "separators blks" pf] by (auto simp: index_block_of_def)
  have small: "small_block interval (meta_entries (length ?F) pf)"
    using len restart_interval unfolding bytes by (simp add: small_block_def length_raw_block)
  obtain b1 k1 where 1: "ReadBlock read (o_paranoid_checks opts) (metaindex_handle ft) k =
      Some (OK, \<lparr>bc_data = ?M, cachable = b1, heap_allocated = b1\<rparr>, k1)" "holds_table blks pf k1"
    unfolding ft using ReadBlock_table [OF holds bytes len] by blast
  have bytes2: "table_bytes interval blks (separators blks) pf = ?F @ raw_block kNoCompression c @
      raw_block kNoCompression ?M @ raw_block kNoCompression (index_block_of blks) @ xs"
    using bytes pf by (simp add: filter_part_def)
  have fh: "filter_handle_at (length ?F) pf = \<lparr>bh_offset = of_nat (length ?F), bh_size = of_nat (length c)\<rparr>"
    using pf by (simp add: filter_handle_at_def)
  obtain b2 k2 where 2: "ReadBlock read (o_paranoid_checks opts) (filter_handle_at (length ?F) pf) k1 =
      Some (OK, \<lparr>bc_data = c, cachable = b2, heap_allocated = b2\<rparr>, k2)" "holds_table blks pf k2"
    unfolding fh using ReadBlock_table [OF 1(2) bytes2 len] by blast
  obtain it where it: "i_Seek Slice_compare (filter_key P) (NewIterator (new_block ?M)) = Some (BlockIterator it)"
      "it_Valid it" "it_key it = filter_key P" "value_slice it = bh_bytes (filter_handle_at (length ?F) pf)"
    using meta_seek [OF small [unfolded pf]] pf by blast
  have "ReadMeta ft t k = ReadFilter (bh_bytes (filter_handle_at (length ?F) pf)) t k1"
    using t 1(1) P it by (simp add: ReadMeta_def i_Valid_def i_key_def i_value_def)
  also have "\<dots> = Some (t\<lparr>t_filter := Some (P, new_filter_reader c)\<rparr>, k2)"
    using t 2(1) P bh_DecodeFrom_bytes [of "filter_handle_at (length ?F) pf" "[]"] by (simp add: ReadFilter_def)
  finally show ?thesis using 2(2) pf by simp
qed

lemma Open_ok:
  assumes holds: "holds_table blks pf k" and made: "filter_made pf blks"
    and len: "length (table_bytes interval blks (separators blks) pf) < 2 ^ 31"
    and new_id: "\<And>C k. cache = Some C \<Longrightarrow> holds_table blks pf k \<Longrightarrow> holds_table blks pf (snd (ca_NewId C k))"
  shows "\<exists>t k'. Open opts read cache (of_nat (length (contents k))) k = Some (OK, Some t, k') \<and>
    table_on t blks pf \<and> t_read t = read \<and> t_cache t = cache \<and> holds_table blks pf k'"
proof -
  let ?bytes = "table_bytes interval blks (separators blks) pf" and ?F = "file_of interval blks"
  define meta where "meta = block_bytes interval (meta_entries (length ?F) pf)"
  define front where "front = ?F @ filter_part pf @ raw_block kNoCompression meta"
  define ft where "ft = \<lparr>metaindex_handle = \<lparr>bh_offset = of_nat (length (?F @ filter_part pf)), bh_size = of_nat (length meta)\<rparr>,
    index_handle = \<lparr>bh_offset = of_nat (length front), bh_size = of_nat (length (index_block_of blks))\<rparr>\<rparr>"
  have bytes: "?bytes = front @ raw_block kNoCompression (index_block_of blks) @ ft_bytes ft"
    by (simp add: table_bytes_def Let_def front_def meta_def ft_def index_block_of_def add.assoc)
  define m where "m = length (front @ raw_block kNoCompression (index_block_of blks))"
  have m: "length ?bytes = m + 48" "m + 48 < 2 ^ 31"
    using len by (simp_all add: bytes m_def length_ft_bytes kEncodedLength_def kMaxEncodedLength_def)
  let ?sz = "of_nat (m + 48) :: u64" and ?n = "of_nat kEncodedLength :: u64"
  have n: "unat ?n = 48" "kEncodedLength = 48" by (simp_all add: kEncodedLength_def kMaxEncodedLength_def)
  have sz: "unat ?sz = m + 48" using m(2) by (simp add: unat_of_nat take_bit_nat_eq_self del: of_nat_add)
  have off: "unat (?sz - ?n) = m" using sz n by (simp add: unat_sub word_le_nat_alt del: of_nat_add)
  have c: "contents k = ?bytes" "good k" using holds by (simp_all add: holds_table_def)
  have foot: "drop m ?bytes = ft_bytes ft" by (simp add: bytes m_def)
  have "unat (?sz - ?n) + unat ?n \<le> length (contents k)" unfolding off n(1) c(1) m(1) by simp
  from read_ok [OF c(2) this] obtain b0 k0 where
    0: "read (?sz - ?n) ?n k = Some (OK, ft_bytes ft, b0, k0)" "holds_table blks pf k0"
    unfolding off n(1) c(1) foot using length_ft_bytes [of ft] n(2) by (auto simp: holds_table_def)
  have ih: "index_handle ft = \<lparr>bh_offset = of_nat (length front), bh_size = of_nat (length (index_block_of blks))\<rparr>"
    by (simp add: ft_def)
  obtain b1 k1 where 1: "ReadBlock read (o_paranoid_checks opts) (index_handle ft) k0 =
      Some (OK, \<lparr>bc_data = index_block_of blks, cachable = b1, heap_allocated = b1\<rparr>, k1)" "holds_table blks pf k1"
    unfolding ih using ReadBlock_table [OF 0(2) bytes len] by blast
  obtain id k2 where 2: "(case cache of None \<Rightarrow> (0, k1) | Some C \<Rightarrow> ca_NewId C k1) = (id, k2)" "holds_table blks pf k2"
    using new_id [OF _ 1(2)] 1(2) by (cases cache) (auto, metis prod.collapse)
  define t where "t = \<lparr>t_options = opts, t_read = read, t_cache = cache, t_cache_id = id, t_filter = None,
    t_metaindex_handle = metaindex_handle ft, t_index_block = new_block (index_block_of blks)\<rparr>"
  obtain k3 where 3: "ReadMeta ft t k2 = Some (t\<lparr>t_filter := map_option (\<lambda>(P, c). (P, new_filter_reader c)) pf\<rparr>, k3)"
      "holds_table blks pf k3"
    using ReadMeta_ok [OF 2(2) made len, of ft t] by (auto simp: ft_def meta_def t_def)
  have "\<not> ?sz < ?n" unfolding word_less_nat_alt sz n(1) by simp
  then have "Open opts read cache ?sz k =
      Some (OK, Some (t\<lparr>t_filter := map_option (\<lambda>(P, c). (P, new_filter_reader c)) pf\<rparr>), k3)"
    unfolding Open_def using 0(1) 1(1) 2(1) 3(1) by (simp add: ft_DecodeFrom_bytes t_def del: of_nat_add)
  then show ?thesis using 3(2) by (auto simp: c(1) m(1) table_on_def t_def simp del: of_nat_add)
qed

lemma block_of_table:
  assumes "holds_table blks pf k" and "length (table_bytes interval blks (separators blks) pf) < 2 ^ 31" and "i < length blks"
  shows "\<exists>in_buf k'. ReadBlock read verify (handle_at interval blks i) k =
      Some (OK, \<lparr>bc_data = block_bytes interval (blks ! i), cachable = in_buf, heap_allocated = in_buf\<rparr>, k') \<and>
    holds_table blks pf k'"
proof -
  obtain xs where "table_bytes interval blks (separators blks) pf =
      file_of interval (take i blks) @ raw_block kNoCompression (block_bytes interval (blks ! i)) @ xs"
    using table_bytes_front [of interval blks "separators blks" pf] file_of_split [OF assms(3), of interval]
    by (auto simp: raw_of_def)
  from ReadBlock_table [OF assms(1) this assms(2)] show ?thesis by (simp add: handle_at_def)
qed

lemma BlockReader_ok:
  assumes "holds_table blks pf k" and "length (table_bytes interval blks (separators blks) pf) < 2 ^ 31"
    and "i < length blks" and "t_read t = read" "t_cache t = None"
  shows "\<exists>h k'. BlockReader t options (bh_bytes (handle_at interval blks i)) k =
      Some (NewIterator (new_block (block_bytes interval (blks ! i))), h, k') \<and> holds_table blks pf (delete_iter t h k')"
  using block_of_table [OF assms(1-3), of "verify_checksums options"] assms(4,5)
    bh_DecodeFrom_bytes [of "handle_at interval blks i" "[]"]
  by (auto simp: BlockReader_def read_block_def delete_iter_def)

end

end
