(* ===== verification/LdbTableTheorems.thy ===== *)
theory LdbTableTheorems
  imports LdbTableProofs
begin

text \<open>
  Tables of the database: keys are internal keys in increasing order, the filter policy is a Bloom filter on
  user keys, the file is a \<open>PosixWritableFile\<close> and then a \<open>PosixRandomAccessFile\<close>. A lookup finds the newest entry
  of a user key that the snapshot of the lookup key can see.
\<close>

section \<open>Options of the database\<close>

text \<open>The fields that tables use; \<open>bits\<close> are the bits per key of the filter, if there is one.\<close>

definition db_table_options :: "nat \<Rightarrow> bool \<Rightarrow> nat \<Rightarrow> nat \<Rightarrow> CompressionType \<Rightarrow> nat option \<Rightarrow> table_options" where
  "db_table_options address paranoid sz interval compression bits =
     \<lparr>o_comparator = \<lparr>c_address = address, c_Compare = InternalCompare Slice_compare,
        c_FindShortestSeparator = InternalSeparator Slice_compare FindShortestSeparator,
        c_FindShortSuccessor = InternalSuccessor Slice_compare FindShortSuccessor\<rparr>,
      o_paranoid_checks = paranoid, o_block_size = sz, o_block_restart_interval = interval,
      o_compression = compression,
      o_filter_policy = map_option (\<lambda>b. InternalFilterPolicy (bloom_policy (new_bloom b))) bits\<rparr>"

abbreviation icmp :: compare_op where
  "icmp \<equiv> InternalCompare Slice_compare"

definition same_user :: "u8 list \<Rightarrow> u8 list \<Rightarrow> bool" where
  "same_user k k' \<longleftrightarrow> ExtractUserKey k = ExtractUserKey k'"

lemma internal_bloom_laws:
  assumes "b < 2 ^ 31"
  shows "filter_laws (fp_CreateFilter (InternalFilterPolicy (bloom_policy (new_bloom b))))
    (fp_KeyMayMatch (InternalFilterPolicy (bloom_policy (new_bloom b)))) same_user"
proof -
  have "filter_laws (bloom_CreateFilter (new_bloom b)) bloom_KeyMayMatch (=)"
    by (rule bloom_laws) (use probes_range [of b] assms in \<open>simp_all add: new_bloom_def Let_def\<close>)
  from filter_laws.internal_laws [OF this] show ?thesis
    by (simp add: InternalFilterPolicy_def bloom_policy_def same_user_def [abs_def])
qed

lemma Slice_compare_le_trans:
  "Slice_compare a b \<le> 0 \<Longrightarrow> Slice_compare b c < 0 \<Longrightarrow> Slice_compare a c < 0"
  "Slice_compare a b < 0 \<Longrightarrow> Slice_compare b c \<le> 0 \<Longrightarrow> Slice_compare a c < 0"
  by (metis Slice_compare_eq Slice_compare_trans order_le_less)+

lemma icmp_user: "icmp a b \<le> 0 \<Longrightarrow> Slice_compare (ExtractUserKey a) (ExtractUserKey b) \<le> 0"
  by (auto simp: InternalCompare_tag Let_def split: if_splits)

lemma same_user_gap:
  assumes "internal_key a" "internal_key b" and ab: "icmp a b < 0" "icmp a k < 0"
    and k: "icmp k (InternalSeparator Slice_compare FindShortestSeparator a b) \<le> 0" and e: "icmp b e \<le> 0"
    and "internal_key k"
  shows "\<not> same_user k e"
proof -
  let ?a = "ExtractUserKey a" and ?b = "ExtractUserKey b" and ?t = "FindShortestSeparator (ExtractUserKey a) (ExtractUserKey b)"
  have "length ?t < length ?a \<and> Slice_compare ?a ?t < 0"
  proof (rule ccontr)
    assume "\<not> (length ?t < length ?a \<and> Slice_compare ?a ?t < 0)"
    then have "InternalSeparator Slice_compare FindShortestSeparator a b = a" by (auto simp: InternalSeparator_def Let_def)
    then have "icmp k a \<le> 0" using k by simp
    then show False using ab(2) internal.cmp_flip [of a k] assms(1,7) by simp
  qed
  then have sep: "ExtractUserKey (InternalSeparator Slice_compare FindShortestSeparator a b) = ?t" and ne: "?a \<noteq> ?b"
    using FindShortestSeparator_same [of ?a] by (auto simp: InternalSeparator_def Let_def PutFixed64_parts)
  have "Slice_compare ?a ?b < 0"
    using icmp_user [of a b] ab(1) ne Slice_compare_eq [of ?a ?b] by auto
  then have "Slice_compare ?t ?b < 0" using bytewise.separator_between [of ?a ?b] by simp
  moreover have "Slice_compare (ExtractUserKey k) ?t \<le> 0" using icmp_user [OF k] by (simp add: sep)
  ultimately have "Slice_compare (ExtractUserKey k) (ExtractUserKey e) < 0"
    using icmp_user [OF e] Slice_compare_le_trans by blast
  moreover have "Slice_compare (ExtractUserKey k) (ExtractUserKey k) = 0" by (simp add: Slice_compare_eq)
  ultimately show ?thesis by (auto simp: same_user_def)
qed

lemma internal_table_order:
  assumes "0 < n" and "\<And>b. bits = Some b \<Longrightarrow> b < 2 ^ 31"
  shows "table_order icmp (InternalSeparator Slice_compare FindShortestSeparator)
    (InternalSuccessor Slice_compare FindShortSuccessor) internal_key
    (db_table_options address paranoid sz n compression bits) same_user"
proof (intro_locales)
  show "table_order_axioms icmp (InternalSeparator Slice_compare FindShortestSeparator)
    (InternalSuccessor Slice_compare FindShortSuccessor) internal_key
    (db_table_options address paranoid sz n compression bits) same_user"
    by (rule table_order_axioms.intro) (use assms same_user_gap internal_bloom_laws in \<open>auto simp: db_table_options_def\<close>)
qed

text \<open>The options with a filter whose bits per key are an \<open>int\<close>, on POSIX files.\<close>

interpretation posix_table_writer: table_writer icmp "InternalSeparator Slice_compare FindShortestSeparator"
  "InternalSuccessor Slice_compare FindShortSuccessor" internal_key
  "db_table_options address paranoid sz (Suc n) compression (map_option unat (bits :: 31 word option))" same_user
  "Append disk_sys" "Flush disk_sys" pfile_good pfile_written pfile_stored
proof -
  have "unat b < 2 ^ 31" for b :: "31 word" using unat_bound [of b] by simp
  then show "table_writer icmp (InternalSeparator Slice_compare FindShortestSeparator)
    (InternalSuccessor Slice_compare FindShortSuccessor) internal_key
    (db_table_options address paranoid sz (Suc n) compression (map_option unat bits)) same_user
    (Append disk_sys) (Flush disk_sys) pfile_good pfile_written pfile_stored"
    by (intro table_writer.intro internal_table_order posix_writable.writable_file_axioms) auto
qed

interpretation posix_table_file: table_file icmp "InternalSeparator Slice_compare FindShortestSeparator"
  "InternalSuccessor Slice_compare FindShortSuccessor" internal_key
  "db_table_options address paranoid sz (Suc n) compression (map_option unat (bits :: 31 word option))" same_user
  "ra_Read disk_psys f" "\<lambda>_. True" d_bytes
  by (intro table_file.intro posix_table_writer.table_order_axioms posix_random.random_file_axioms)

section \<open>What a lookup means\<close>

text \<open>The caller of \<open>InternalGet\<close> keeps an entry only if it has the user key it looks for.\<close>

definition found :: "u8 list \<Rightarrow> (u8 list \<times> u8 list) option \<Rightarrow> (u8 list \<times> u8 list) option" where
  "found key r = (case r of None \<Rightarrow> None | Some kv \<Rightarrow> if ExtractUserKey (fst kv) = ExtractUserKey key then Some kv else None)"

definition visible :: "u8 list \<Rightarrow> u8 list \<times> u8 list \<Rightarrow> bool" where
  "visible key kv \<longleftrightarrow> ExtractUserKey (fst kv) = ExtractUserKey key \<and> tag (fst kv) \<le> tag key"

lemma visible_not_below: "visible key kv \<Longrightarrow> \<not> icmp (fst kv) key < 0"
  using Slice_compare_eq [of "ExtractUserKey key" "ExtractUserKey key"]
  by (auto simp: visible_def InternalCompare_tag Let_def)

lemma not_below_same_visible: "\<not> icmp (fst kv) key < 0 \<Longrightarrow> ExtractUserKey (fst kv) = ExtractUserKey key \<Longrightarrow> visible key kv"
  using Slice_compare_eq [of "ExtractUserKey key" "ExtractUserKey key"]
  by (auto simp: visible_def InternalCompare_tag Let_def not_less split: if_splits)

lemma find_dropWhile: "(\<And>x. P x \<Longrightarrow> \<not> Q x) \<Longrightarrow> find P (dropWhile Q xs) = find P xs"
  by (induction xs) auto

lemma found_visible:
  assumes "sorted_wrt (\<lambda>a b. icmp (fst a) (fst b) < 0) kvs" and r: "posix_table_writer.lookup_result key kvs r"
  shows "found key r = find (visible key) kvs"
proof -
  have find: "find (visible key) (dropWhile (\<lambda>kv. icmp (fst kv) key < 0) kvs) = find (visible key) kvs"
    by (rule find_dropWhile) (rule visible_not_below)
  show ?thesis
  proof (cases "dropWhile (\<lambda>kv. icmp (fst kv) key < 0) kvs")
    case Nil
    then show ?thesis using r find by (simp only: posix_table_writer.lookup_result_Nil find.simps found_def option.case)
  next
    case (Cons e es)
    have e: "\<not> icmp (fst e) key < 0" using hd_dropWhile [of "\<lambda>kv. icmp (fst kv) key < 0" kvs] Cons by auto
    have r': "r = Some e \<or> r = None \<and> \<not> same_user key (fst e)"
      using r by (simp only: posix_table_writer.lookup_result_Cons [OF Cons])
    show ?thesis
    proof (cases "ExtractUserKey (fst e) = ExtractUserKey key")
      case True
      then have "visible key e" by (rule not_below_same_visible [OF e])
      then have "find (visible key) kvs = Some e" using find [symmetric] Cons by simp
      moreover have "r = Some e" using r' True by (auto simp: same_user_def)
      ultimately show ?thesis using True by (simp add: found_def)
    next
      case False
      then have "Slice_compare (ExtractUserKey (fst e)) (ExtractUserKey key) \<noteq> 0" by (simp add: Slice_compare_eq)
      then have "Slice_compare (ExtractUserKey (fst e)) (ExtractUserKey key) > 0"
        using e by (simp add: InternalCompare_tag Let_def)
      then have key_e: "Slice_compare (ExtractUserKey key) (ExtractUserKey (fst e)) < 0" by (simp add: Slice_compare_flip)
      have "sorted_wrt (\<lambda>a b. icmp (fst a) (fst b) < 0) (takeWhile (\<lambda>kv. icmp (fst kv) key < 0) kvs @ e # es)"
        using assms(1) by (simp add: Cons [symmetric])
      then have "\<forall>x\<in>set es. icmp (fst e) (fst x) < 0" by (simp add: sorted_wrt_append)
      then have "ExtractUserKey (fst x) \<noteq> ExtractUserKey key" if "x \<in> set es" for x
        using that Slice_compare_le_trans(2) [OF key_e icmp_user [of "fst e" "fst x"]] Slice_compare_eq [of "ExtractUserKey key" "ExtractUserKey key"]
        by fastforce
      then have "find (visible key) (e # es) = None" using False by (auto simp: find_None_iff visible_def)
      moreover have "found key r = None" using r' False by (auto simp: found_def)
      ultimately show ?thesis using find Cons by simp
    qed
  qed
qed

section \<open>The file\<close>

lemma disk_Close:
  "\<exists>f' tape. Close disk_sys (f, d) = Some (OK, f', d\<lparr>d_bytes := pfile_written (f, d), d_tape := tape\<rparr>)"
  using disk_FlushBuffer [of f d] by (auto simp: Close_def pfile_written_def disk_sys_def)

section \<open>Property\<close>

text \<open>
  C30. A table is found in full by its readers. For all internal keys in increasing order, whatever the options, and however
  the system calls that write the file are interrupted: building, finishing and closing succeed; if the file is
  smaller than 2 GB it can be opened, and looking a key up yields the newest entry of its user key that
  is not newer than the key's sequence number, or none, as a search of the list of entries does.
\<close>

theorem ldb_table_get:
  assumes "0 < n" and "\<And>b. bits = Some b \<Longrightarrow> b < 2 ^ 31"
    and "list_all (\<lambda>kv. 8 \<le> length (fst kv)) kvs" and "sorted_wrt (\<lambda>a b. icmp (fst a) (fst b) < 0) kvs"
    and "8 \<le> length key" and "d_bytes d = []" and "opts = db_table_options address paranoid sz n compression bits"
  shows "\<exists>tb f d'. write_table (Append disk_sys) (Flush disk_sys) opts kvs (PosixWritableFile name fd, d) = Some (OK, tb) \<and>
    Close disk_sys (tb_file tb) = Some (OK, f, d') \<and> FileSize tb = of_nat (length (d_bytes d')) \<and>
    (length (d_bytes d') < 2 ^ 31 \<longrightarrow>
      (\<exists>t d1 r d2. Open opts (ra_Read disk_psys ra) None (FileSize tb) d' = Some (OK, Some t, d1) \<and>
        InternalGet t ro key d1 = Some (OK, r, d2) \<and> found key r = find (visible key) kvs))"
proof -
  obtain m where m: "n = Suc m" using assms(1) by (cases n) simp_all
  define w where "w = map_option (of_nat :: nat \<Rightarrow> 31 word) bits"
  have "map_option unat w = bits"
    using assms(2) by (cases bits) (simp_all add: w_def unat_of_nat take_bit_nat_eq_self)
  then have opts: "opts = db_table_options address paranoid sz (Suc m) compression (map_option unat w)"
    using assms(7) by (simp add: m)
  obtain tb blks pf where 1: "write_table (Append disk_sys) (Flush disk_sys) opts kvs (PosixWritableFile name fd, d) = Some (OK, tb)"
      "pfile_written (tb_file tb) = table_bytes n blks (posix_table_writer.separators blks) pf"
      "FileSize tb = of_nat (length (pfile_written (tb_file tb)))" "concat blks = kvs" "[] \<notin> set blks"
      "posix_table_writer.filter_made address paranoid sz m compression w pf blks"
    using posix_table_writer.write_table_ok [of "(PosixWritableFile name fd, d)" address paranoid sz m compression w kvs] assms(6)
    unfolding opts m by (auto simp: pfile_defs PosixWritableFile_def db_table_options_def)
  obtain f0 d0 where fd: "tb_file tb = (f0, d0)" by fastforce
  obtain f' tape where 2: "Close disk_sys (tb_file tb) = Some (OK, f', d0\<lparr>d_bytes := pfile_written (tb_file tb), d_tape := tape\<rparr>)"
    using disk_Close [of f0 d0] unfolding fd by blast
  let ?d = "d0\<lparr>d_bytes := pfile_written (tb_file tb), d_tape := tape\<rparr>"
  have "list_all (\<lambda>kv. internal_key (fst kv)) kvs" using assms(3) by (simp add: internal_key_def)
  then have ok: "posix_table_writer.blocks_ok blks"
    using 1(4,5) assms(4) by (simp add: posix_table_writer.blocks_ok_def posix_table_writer.keys_ok_def)
  have key: "internal_key key" using assms(5) by (simp add: internal_key_def)
  have interval: "o_block_restart_interval (db_table_options address paranoid sz (Suc m) compression (map_option unat w)) = n"
    by (simp add: db_table_options_def m)
  have holds: "posix_table_file.holds_table address paranoid sz m compression w blks pf ?d"
    using 1(2) by (simp add: posix_table_file.holds_table_def interval)
  have "\<exists>t d1 r d2. Open opts (ra_Read disk_psys ra) None (FileSize tb) ?d = Some (OK, Some t, d1) \<and>
      InternalGet t ro key d1 = Some (OK, r, d2) \<and> found key r = find (visible key) kvs"
    if "length (d_bytes ?d) < 2 ^ 31"
  proof -
    have len: "length (table_bytes n blks (posix_table_writer.separators blks) pf) < 2 ^ 31" using that 1(2) by simp
    obtain t d1 where t: "Open opts (ra_Read disk_psys ra) None (FileSize tb) ?d = Some (OK, Some t, d1)"
      "posix_table_writer.table_on address paranoid sz m compression w t blks pf" "t_read t = ra_Read disk_psys ra"
      "t_cache t = None" "posix_table_file.holds_table address paranoid sz m compression w blks pf d1"
      using posix_table_file.Open_ok [OF holds 1(6), of None ra] len 1(3) unfolding interval opts by auto
    obtain r d2 where "InternalGet t ro key d1 = Some (OK, r, d2)" "posix_table_writer.lookup_result key (concat blks) r"
      using posix_table_writer.InternalGet_ok [where safe = "posix_table_file.holds_table address paranoid sz m compression w blks pf",
        OF t(2) ok key 1(6) len [folded interval] t(5) posix_table_file.BlockReader_ok [OF _ len [folded interval] _ t(3,4)]]
      by blast
    then show ?thesis using t(1) found_visible [OF assms(4)] 1(4) by blast
  qed
  then show ?thesis using 1(1,3) 2 by auto
qed

text \<open>Bounds for the witness: no block has more than 15 bytes for an entry besides its key and value, and 4 for a restart.\<close>

definition entries_bound :: "entries \<Rightarrow> nat" where
  "entries_bound kvs = sum_list (map (\<lambda>kv. length (fst kv) + length (snd kv) + 15) kvs)"

lemma EncodeVarint32_length: "length (EncodeVarint32 v) \<le> 5"
  by (simp add: EncodeVarint32_def Let_def)

lemma block_bytes_bound: "length (block_bytes n kvs) \<le> entries_bound kvs + 4 * (length kvs + 2)"
proof -
  have entry: "length (entry_bytes s kv) \<le> length (fst kv) + length (snd kv) + 15" for s kv
    using EncodeVarint32_length [of "of_nat s"] EncodeVarint32_length [of "of_nat (length (fst kv) - s)"]
      EncodeVarint32_length [of "of_nat (length (snd kv))"]
    by (cases kv) (simp add: entry_bytes_def)
  have "off n kvs i \<le> entries_bound (take i kvs)" if "i \<le> length kvs" for i
    using that
  proof (induction i)
    case (Suc i)
    then show ?case
      using entry [of "shared_at n kvs i" "kvs ! i"] by (simp add: entries_bound_def take_Suc_conv_app_nth)
  qed simp
  from this [of "length kvs"] have "off n kvs (length kvs) \<le> entries_bound kvs" by simp
  moreover have "restart_count n (length kvs) \<le> length kvs + 1"
    using le_trans [OF div_le_dividend [of "length kvs - 1" n] diff_le_self] by (simp add: restart_count_def)
  ultimately show ?thesis
    by (simp add: block_bytes_length data_end_def)
qed

lemma table_length_bound:
  assumes "length seps = length blks" and "\<forall>s\<in>set seps. length s \<le> m"
  shows "length (table_bytes n blks seps None) \<le>
    sum_list (map (\<lambda>b. entries_bound b + 4 * (length b + 2) + 5) blks) + length blks * (m + 39) + 74"
proof -
  have data: "length (file_of n blks) \<le> sum_list (map (\<lambda>b. entries_bound b + 4 * (length b + 2) + 5) blks)"
  proof (induction blks)
    case (Cons b blks)
    then show ?case using block_bytes_bound [of n b] by (simp add: file_of_def raw_of_def length_raw_block kBlockTrailerSize_def)
  qed (simp add: file_of_def)
  have idx: "length (block_bytes 1 (index_entries n seps blks)) \<le> length blks * (m + 39) + 8"
  proof -
    have "entries_bound (index_entries n seps blks) \<le> length blks * (m + 35)"
    proof -
      have "length (fst kv) + length (snd kv) + 15 \<le> m + 35" if kv: "kv \<in> set (index_entries n seps blks)" for kv
      proof -
        obtain i where i: "i < length seps" "kv = (seps ! i, bh_bytes (handle_at n blks i))"
          using kv by (auto simp: index_entries_def)
        then show ?thesis
          using assms(2) nth_mem [OF i(1)] bh_bytes_length [of "handle_at n blks i"] by (fastforce simp: kMaxEncodedLength_def)
      qed
      then have "entries_bound (index_entries n seps blks) \<le> sum_list (map (\<lambda>kv. m + 35) (index_entries n seps blks))"
        unfolding entries_bound_def by (rule sum_list_mono)
      moreover have "length (index_entries n seps blks) = length blks" using assms(1) by (simp add: index_entries_def)
      ultimately show ?thesis by (simp add: sum_list_triv)
    qed
    then show ?thesis
      using block_bytes_bound [of 1 "index_entries n seps blks"] assms(1) by (simp add: index_entries_def algebra_simps)
  qed
  have meta: "length (block_bytes n (meta_entries at None)) \<le> 8" for at
    using block_bytes_bound [of n "meta_entries at None"] by (simp add: meta_entries_def entries_bound_def)
  have "length (table_bytes n blks seps None) = length (file_of n blks) +
      length (block_bytes n (meta_entries (length (file_of n blks)) None)) + length (block_bytes 1 (index_entries n seps blks)) + 58"
    by (simp add: table_bytes_def Let_def filter_part_def length_raw_block kBlockTrailerSize_def length_ft_bytes
      kEncodedLength_def kMaxEncodedLength_def)
  then show ?thesis using data idx meta [of "length (file_of n blks)"] by linarith
qed

lemma ldb_table_example:
  assumes "kvs = [([97, 1, 5, 0, 0, 0, 0, 0, 0], [7]), ([97, 1, 4, 0, 0, 0, 0, 0, 0], [8 :: u8])]"
    and "d_bytes d = []"
    and "write_table (Append disk_sys) (Flush disk_sys) (db_table_options 1 True sz (Suc n) kNoCompression None) kvs
      (PosixWritableFile name fd, d) = Some (OK, tb)"
  shows "length (pfile_written (tb_file tb)) < 2 ^ 31"
proof -
  obtain blks pf where 1: "pfile_written (tb_file tb) = table_bytes (Suc n) blks (posix_table_writer.separators blks) pf"
      "concat blks = kvs" "[] \<notin> set blks" "posix_table_writer.filter_made 1 True sz n kNoCompression None pf blks"
    using posix_table_writer.write_table_ok [of "(PosixWritableFile name fd, d)" 1 True sz n kNoCompression None kvs] assms(2,3)
    by (auto simp: pfile_defs PosixWritableFile_def db_table_options_def)
  have pf: "pf = None"
    using 1(4) unfolding posix_table_writer.filter_made_def by (auto simp: db_table_options_def split: option.splits)
  let ?a = "([97, 1, 5, 0, 0, 0, 0, 0, 0], [7]) :: entry" and ?b = "([97, 1, 4, 0, 0, 0, 0, 0, 0], [8]) :: entry"
  consider "blks = [[?a, ?b]]" | "blks = [[?a], [?b]]"
  proof -
    obtain b1 bs where blks: "blks = b1 # bs" "b1 \<noteq> []" using 1(2,3) assms(1) by (cases blks) auto
    then obtain b1' where b1: "b1 = ?a # b1'" using 1(2) assms(1) by (cases b1) auto
    show ?thesis
    proof (cases b1')
      case Nil
      then obtain b2 bs' where "bs = b2 # bs'" "b2 \<noteq> []" using blks b1 1(2,3) assms(1) by (cases bs) auto
      moreover from this obtain b2' where "b2 = ?b # b2'" using Nil blks b1 1(2) assms(1) by (cases b2) auto
      ultimately show ?thesis using Nil blks b1 1(2,3) assms(1) that(2) by (cases bs') auto
    next
      case (Cons x xs)
      then show ?thesis using blks b1 1(2,3) assms(1) that(1) by (cases bs) auto
    qed
  qed
  note shape = this
  have "\<forall>s\<in>set (posix_table_writer.separators blks). length s \<le> 9"
    by (rule shape) (simp_all add: posix_table_writer.separators_def sep_list_def InternalSuccessor_def InternalSeparator_def
      ExtractUserKey_def FindShortSuccessor_def FindShortestSeparator_def Let_def)
  moreover have "length (posix_table_writer.separators blks) = length blks" by simp
  ultimately have "length (pfile_written (tb_file tb)) \<le>
      sum_list (map (\<lambda>b. entries_bound b + 4 * (length b + 2) + 5) blks) + length blks * (9 + 39) + 74"
    unfolding 1(1) pf by (rule table_length_bound [rotated])
  also have "\<dots> < 2 ^ 31" by (rule shape) (simp_all add: entries_bound_def)
  finally show ?thesis .
qed

theorem ldb_table_get_witness:
  "let opts = db_table_options 1 True 4096 (Suc 15) kNoCompression None;
       kvs = [([97, 1, 5, 0, 0, 0, 0, 0, 0], [7]), ([97, 1, 4, 0, 0, 0, 0, 0, 0], [8])];
       key = [97, 1, 4, 0, 0, 0, 0, 0, 0];
       ra = \<lparr>ra_fd = None, ra_filename = ''t''\<rparr>;
       d = \<lparr>d_bytes = [], d_at = 0, d_tape = [Interrupted, Partial 3]\<rparr>
   in \<exists>tb f d' t d1 r d2. write_table (Append disk_sys) (Flush disk_sys) opts kvs (PosixWritableFile ''t'' 3, d) = Some (OK, tb) \<and>
    Close disk_sys (tb_file tb) = Some (OK, f, d') \<and>
    Open opts (ra_Read disk_psys ra) None (FileSize tb) d' = Some (OK, Some t, d1) \<and>
    InternalGet t \<lparr>verify_checksums = True, fill_cache = True\<rparr> key d1 = Some (OK, r, d2) \<and>
    found key r = find (visible key) kvs"
proof -
  let ?kvs = "[([97, 1, 5, 0, 0, 0, 0, 0, 0], [7]), ([97, 1, 4, 0, 0, 0, 0, 0, 0], [8 :: u8])]"
    and ?d = "\<lparr>d_bytes = [], d_at = 0, d_tape = [Interrupted, Partial 3]\<rparr>"
    and ?opts = "db_table_options 1 True 4096 (Suc 15) kNoCompression None"
    and ?key = "[97, 1, 4, 0, 0, 0, 0, 0, 0]"
  have keys: "list_all (\<lambda>kv. 8 \<le> length (fst kv)) ?kvs" "sorted_wrt (\<lambda>a b. icmp (fst a) (fst b) < 0) ?kvs" "8 \<le> length ?key"
    by (simp_all add: InternalCompare_def ExtractUserKey_def Slice_compare_simps Let_def DecodeFixed64_def)
  obtain tb f d' where 1: "write_table (Append disk_sys) (Flush disk_sys) ?opts ?kvs (PosixWritableFile ''t'' 3, ?d) = Some (OK, tb)"
      "Close disk_sys (tb_file tb) = Some (OK, f, d')"
    and 2: "length (d_bytes d') < 2 ^ 31 \<longrightarrow>
      (\<exists>t d1 r d2. Open ?opts (ra_Read disk_psys \<lparr>ra_fd = None, ra_filename = ''t''\<rparr>) None (FileSize tb) d' = Some (OK, Some t, d1) \<and>
        InternalGet t \<lparr>verify_checksums = True, fill_cache = True\<rparr> ?key d1 = Some (OK, r, d2) \<and>
        found ?key r = find (visible ?key) ?kvs)"
    using ldb_table_get [of "Suc 15" None ?kvs ?key ?d ?opts 1 True 4096 kNoCompression, OF _ _ keys] by force
  have "length (pfile_written (tb_file tb)) < 2 ^ 31" by (rule ldb_table_example [OF refl _ 1(1)]) simp
  moreover have "d_bytes d' = pfile_written (tb_file tb)"
    using disk_Close [of "fst (tb_file tb)" "snd (tb_file tb)"] 1(2) by auto
  ultimately have "length (d_bytes d') < 2 ^ 31" by simp
  then obtain t d1 r d2 where 3:
      "Open ?opts (ra_Read disk_psys \<lparr>ra_fd = None, ra_filename = ''t''\<rparr>) None (FileSize tb) d' = Some (OK, Some t, d1)"
      "InternalGet t \<lparr>verify_checksums = True, fill_cache = True\<rparr> ?key d1 = Some (OK, r, d2)"
      "found ?key r = find (visible ?key) ?kvs"
    using 2 by blast
  show ?thesis unfolding Let_def by (intro exI conjI) (rule 1 3)+
qed

end
