(* ===== verification/LdbIterator.thy ===== *)
theory LdbIterator
  imports LdbBlockProofs
begin

text \<open>
  The interface of iterators (\<open>include/leveldb/iterator.h\<close>) and \<open>IteratorWrapper\<close>
  (\<open>table/iterator_wrapper.h\<close>). An \<open>Iterator*\<close> is a state with the functions of its class; the functions that
  move it may also change what they share with others, the files and caches, and have no result when
  they do not return. The locale \<open>cursor\<close> is the contract: the iterator is a position in a list.
\<close>

section \<open>Operations\<close>

record ('s, 'k) iter_ops =
  ip_Valid :: "'s \<Rightarrow> bool"
  ip_key :: "'s \<Rightarrow> u8 list"
  ip_value :: "'s \<Rightarrow> u8 list"
  ip_status :: "'s \<Rightarrow> ldb_status"
  ip_Seek :: "u8 list \<Rightarrow> 's \<Rightarrow> 'k \<Rightarrow> ('s \<times> 'k) option"
  ip_SeekToFirst :: "'s \<Rightarrow> 'k \<Rightarrow> ('s \<times> 'k) option"
  ip_SeekToLast :: "'s \<Rightarrow> 'k \<Rightarrow> ('s \<times> 'k) option"
  ip_Next :: "'s \<Rightarrow> 'k \<Rightarrow> ('s \<times> 'k) option"
  ip_Prev :: "'s \<Rightarrow> 'k \<Rightarrow> ('s \<times> 'k) option"
  ip_delete :: "'s \<Rightarrow> 'k \<Rightarrow> 'k"

text \<open>Which way an iterator of several entries or inputs was moved last.\<close>

datatype direction = kForward | kReverse

section \<open>\<open>IteratorWrapper\<close>\<close>

text \<open>The wrapper keeps whether its iterator is valid, and the key it is at.\<close>

record 's wrapper =
  w_iter :: "'s option"
  w_valid :: bool
  w_key :: "u8 list"

definition empty_wrapper :: "'s wrapper" where
  "empty_wrapper = \<lparr>w_iter = None, w_valid = False, w_key = []\<rparr>"

definition w_Update :: "('s, 'k) iter_ops \<Rightarrow> 's \<Rightarrow> 's wrapper \<Rightarrow> 's wrapper" where
  "w_Update I s w =
     w\<lparr>w_iter := Some s, w_valid := ip_Valid I s, w_key := (if ip_Valid I s then ip_key I s else w_key w)\<rparr>"

definition w_Set :: "('s, 'k) iter_ops \<Rightarrow> 's option \<Rightarrow> 's wrapper \<Rightarrow> 'k \<Rightarrow> 's wrapper \<times> 'k" where
  "w_Set I new w k =
     (let k = (case w_iter w of None \<Rightarrow> k | Some old \<Rightarrow> ip_delete I old k) in
      case new of None \<Rightarrow> (w\<lparr>w_iter := None, w_valid := False\<rparr>, k) | Some s \<Rightarrow> (w_Update I s w, k))"

definition w_value :: "('s, 'k) iter_ops \<Rightarrow> 's wrapper \<Rightarrow> u8 list option" where
  "w_value I w = map_option (ip_value I) (w_iter w)"

definition w_status :: "('s, 'k) iter_ops \<Rightarrow> 's wrapper \<Rightarrow> ldb_status option" where
  "w_status I w = map_option (ip_status I) (w_iter w)"

text \<open>An operation on the iterator inside, which must be there.\<close>

definition w_move ::
  "('s, 'k) iter_ops \<Rightarrow> ('s \<Rightarrow> 'k \<Rightarrow> ('s \<times> 'k) option) \<Rightarrow> 's wrapper \<Rightarrow> 'k \<Rightarrow> ('s wrapper \<times> 'k) option" where
  "w_move I f w k = do { s \<leftarrow> w_iter w; (s, k) \<leftarrow> f s k; Some (w_Update I s w, k) }"

definition w_Next :: "('s, 'k) iter_ops \<Rightarrow> 's wrapper \<Rightarrow> 'k \<Rightarrow> ('s wrapper \<times> 'k) option" where
  "w_Next I = w_move I (ip_Next I)"

definition w_Prev :: "('s, 'k) iter_ops \<Rightarrow> 's wrapper \<Rightarrow> 'k \<Rightarrow> ('s wrapper \<times> 'k) option" where
  "w_Prev I = w_move I (ip_Prev I)"

definition w_Seek :: "('s, 'k) iter_ops \<Rightarrow> u8 list \<Rightarrow> 's wrapper \<Rightarrow> 'k \<Rightarrow> ('s wrapper \<times> 'k) option" where
  "w_Seek I target = w_move I (ip_Seek I target)"

definition w_SeekToFirst :: "('s, 'k) iter_ops \<Rightarrow> 's wrapper \<Rightarrow> 'k \<Rightarrow> ('s wrapper \<times> 'k) option" where
  "w_SeekToFirst I = w_move I (ip_SeekToFirst I)"

definition w_SeekToLast :: "('s, 'k) iter_ops \<Rightarrow> 's wrapper \<Rightarrow> 'k \<Rightarrow> ('s wrapper \<times> 'k) option" where
  "w_SeekToLast I = w_move I (ip_SeekToLast I)"

section \<open>Clients\<close>

text \<open>What a client does with an iterator; \<open>Next\<close> and \<open>Prev\<close> are for valid iterators only.\<close>

datatype cursor_op = Seek_to "u8 list" | To_first | To_last | Forward | Backward

definition iter_op :: "('s, 'k) iter_ops \<Rightarrow> cursor_op \<Rightarrow> 's \<Rightarrow> 'k \<Rightarrow> ('s \<times> 'k) option" where
  "iter_op I c s k =
     (case c of
        Seek_to target \<Rightarrow> ip_Seek I target s k
      | To_first \<Rightarrow> ip_SeekToFirst I s k
      | To_last \<Rightarrow> ip_SeekToLast I s k
      | Forward \<Rightarrow> if ip_Valid I s then ip_Next I s k else Some (s, k)
      | Backward \<Rightarrow> if ip_Valid I s then ip_Prev I s k else Some (s, k))"

text \<open>What it sees: the entry the iterator is at, if it is valid.\<close>

definition entry_at :: "('s, 'k) iter_ops \<Rightarrow> 's \<Rightarrow> entry option" where
  "entry_at I s = (if ip_Valid I s then Some (ip_key I s, ip_value I s) else None)"

primrec iter_run :: "('s, 'k) iter_ops \<Rightarrow> cursor_op list \<Rightarrow> 's \<Rightarrow> 'k \<Rightarrow> (entry option list \<times> 's \<times> 'k) option" where
  "iter_run I [] s k = Some ([], s, k)"
| "iter_run I (c # cs) s k =
     do { (s, k) \<leftarrow> iter_op I c s k; (es, s', k') \<leftarrow> iter_run I cs s k; Some (entry_at I s # es, s', k') }"

text \<open>The same on a list of entries; the position after the last entry stands for an iterator that is not valid.\<close>

definition list_op :: "compare_op \<Rightarrow> entry list \<Rightarrow> cursor_op \<Rightarrow> nat \<Rightarrow> nat" where
  "list_op cmp xs c i =
     (case c of
        Seek_to target \<Rightarrow> length (takeWhile (\<lambda>kv. cmp (fst kv) target < 0) xs)
      | To_first \<Rightarrow> 0
      | To_last \<Rightarrow> if xs = [] then 0 else length xs - 1
      | Forward \<Rightarrow> if i < length xs then Suc i else i
      | Backward \<Rightarrow> if i < length xs then if i = 0 then length xs else i - 1 else i)"

definition list_entry :: "entry list \<Rightarrow> nat \<Rightarrow> entry option" where
  "list_entry xs i = (if i < length xs then Some (xs ! i) else None)"

primrec list_run :: "compare_op \<Rightarrow> entry list \<Rightarrow> cursor_op list \<Rightarrow> nat \<Rightarrow> entry option list" where
  "list_run cmp xs [] i = []"
| "list_run cmp xs (c # cs) i = list_entry xs (list_op cmp xs c i) # list_run cmp xs cs (list_op cmp xs c i)"

section \<open>The contract\<close>

lemma takeWhile_exactly: "\<forall>e\<in>set as. P e \<Longrightarrow> takeWhile P bs = [] \<Longrightarrow> takeWhile P (as @ bs) = as"
  by (simp add: takeWhile_append2)

text \<open>
  \<open>pos xs i s\<close>: the iterator \<open>s\<close> is at position \<open>i\<close> of the list \<open>xs\<close>. \<open>wok\<close> holds of what is shared as long as
  everything works.
\<close>

locale cursor =
  fixes I :: "('s, 'k) iter_ops"
    and cmp :: compare_op
    and target_ok :: "u8 list \<Rightarrow> bool"
    and wok :: "'k \<Rightarrow> bool"
    and pos :: "entry list \<Rightarrow> nat \<Rightarrow> 's \<Rightarrow> bool"
  assumes valid: "pos xs i s \<Longrightarrow> i \<le> length xs \<and> (ip_Valid I s \<longleftrightarrow> i < length xs)"
    and status: "pos xs i s \<Longrightarrow> ip_status I s = OK"
    and at_entry: "pos xs i s \<Longrightarrow> i < length xs \<Longrightarrow> ip_key I s = fst (xs ! i) \<and> ip_value I s = snd (xs ! i)"
    and seek: "wok k \<Longrightarrow> pos xs i s \<Longrightarrow> target_ok target \<Longrightarrow>
      \<exists>s' k'. ip_Seek I target s k = Some (s', k') \<and> wok k' \<and> pos xs (list_op cmp xs (Seek_to target) i) s'"
    and first: "wok k \<Longrightarrow> pos xs i s \<Longrightarrow> \<exists>s' k'. ip_SeekToFirst I s k = Some (s', k') \<and> wok k' \<and> pos xs (list_op cmp xs To_first i) s'"
    and last: "wok k \<Longrightarrow> pos xs i s \<Longrightarrow> \<exists>s' k'. ip_SeekToLast I s k = Some (s', k') \<and> wok k' \<and> pos xs (list_op cmp xs To_last i) s'"
    and forward: "wok k \<Longrightarrow> pos xs i s \<Longrightarrow> i < length xs \<Longrightarrow>
      \<exists>s' k'. ip_Next I s k = Some (s', k') \<and> wok k' \<and> pos xs (list_op cmp xs Forward i) s'"
    and backward: "wok k \<Longrightarrow> pos xs i s \<Longrightarrow> i < length xs \<Longrightarrow>
      \<exists>s' k'. ip_Prev I s k = Some (s', k') \<and> wok k' \<and> pos xs (list_op cmp xs Backward i) s'"
    and delete: "wok k \<Longrightarrow> pos xs i s \<Longrightarrow> wok (ip_delete I s k)"
begin

lemma iter_op_ok:
  assumes "wok k" and "pos xs i s" and "\<And>target. c = Seek_to target \<Longrightarrow> target_ok target"
  shows "\<exists>s' k'. iter_op I c s k = Some (s', k') \<and> wok k' \<and> pos xs (list_op cmp xs c i) s'"
proof (cases c)
  case (Seek_to target)
  then show ?thesis using seek [OF assms(1,2), of target] assms(3) by (simp add: iter_op_def)
next
  case Forward
  then show ?thesis
    using forward [OF assms(1,2)] valid [OF assms(2)] assms(1,2) by (cases "i < length xs") (simp_all add: iter_op_def list_op_def)
next
  case Backward
  then show ?thesis
    using backward [OF assms(1,2)] valid [OF assms(2)] assms(1,2) by (cases "i < length xs") (simp_all add: iter_op_def list_op_def)
qed (use first [OF assms(1,2)] last [OF assms(1,2)] in \<open>simp_all add: iter_op_def\<close>)

lemma entry_at_pos: "pos xs i s \<Longrightarrow> entry_at I s = list_entry xs i"
  using valid [of xs i s] at_entry [of xs i s] by (simp add: entry_at_def list_entry_def)

text \<open>Whatever a client does, it sees what the list says.\<close>

lemma iter_run_ok:
  assumes "wok k" and "pos xs i s" and "\<forall>target. Seek_to target \<in> set cs \<longrightarrow> target_ok target"
  shows "\<exists>s' k'. iter_run I cs s k = Some (list_run cmp xs cs i, s', k') \<and> wok k'"
  using assms
proof (induction cs arbitrary: i s k)
  case (Cons c cs)
  obtain s' k' where 1: "iter_op I c s k = Some (s', k')" "wok k'" "pos xs (list_op cmp xs c i) s'"
    using iter_op_ok [OF Cons.prems(1,2), of c] Cons.prems(3) by auto
  obtain s2 k2 where "iter_run I cs s' k' = Some (list_run cmp xs cs (list_op cmp xs c i), s2, k2)" "wok k2"
    using Cons.IH [OF 1(2,3)] Cons.prems(3) by auto
  then show ?case using 1 entry_at_pos [OF 1(3)] by simp
qed simp

text \<open>A wrapper around an iterator at a position.\<close>

definition w_pos :: "entry list \<Rightarrow> nat \<Rightarrow> 's wrapper \<Rightarrow> bool" where
  "w_pos xs i w \<longleftrightarrow> (\<exists>s. w_iter w = Some s \<and> pos xs i s \<and> w_valid w = (i < length xs) \<and> (i < length xs \<longrightarrow> w_key w = fst (xs ! i)))"

lemma w_pos_simps:
  assumes "w_pos xs i w"
  shows "i \<le> length xs" "w_valid w \<longleftrightarrow> i < length xs" "i < length xs \<Longrightarrow> w_key w = fst (xs ! i)"
    "i < length xs \<Longrightarrow> w_value I w = Some (snd (xs ! i))" "w_status I w = Some OK"
  using assms valid status at_entry by (auto simp: w_pos_def w_value_def w_status_def)

lemma w_Update_pos: "pos xs i s \<Longrightarrow> w_pos xs i (w_Update I s w)"
  using valid [of xs i s] at_entry [of xs i s] by (auto simp: w_pos_def w_Update_def)

lemma w_move_pos:
  assumes "w_pos xs i w" and "\<And>s. pos xs i s \<Longrightarrow> \<exists>s' k'. f s k = Some (s', k') \<and> wok k' \<and> pos xs j s'"
  shows "\<exists>w' k'. w_move I f w k = Some (w', k') \<and> wok k' \<and> w_pos xs j w'"
  using assms w_Update_pos by (fastforce simp: w_pos_def w_move_def)

lemma w_op_pos:
  assumes "wok k" and "w_pos xs i w"
  shows "target_ok target \<Longrightarrow> \<exists>w' k'. w_Seek I target w k = Some (w', k') \<and> wok k' \<and> w_pos xs (list_op cmp xs (Seek_to target) i) w'"
    and "\<exists>w' k'. w_SeekToFirst I w k = Some (w', k') \<and> wok k' \<and> w_pos xs (list_op cmp xs To_first i) w'"
    and "\<exists>w' k'. w_SeekToLast I w k = Some (w', k') \<and> wok k' \<and> w_pos xs (list_op cmp xs To_last i) w'"
    and "i < length xs \<Longrightarrow> \<exists>w' k'. w_Next I w k = Some (w', k') \<and> wok k' \<and> w_pos xs (list_op cmp xs Forward i) w'"
    and "i < length xs \<Longrightarrow> \<exists>w' k'. w_Prev I w k = Some (w', k') \<and> wok k' \<and> w_pos xs (list_op cmp xs Backward i) w'"
proof -
  show "\<exists>w' k'. w_Seek I target w k = Some (w', k') \<and> wok k' \<and> w_pos xs (list_op cmp xs (Seek_to target) i) w'" if "target_ok target"
    unfolding w_Seek_def by (rule w_move_pos [OF assms(2)]) (rule seek [OF assms(1) _ that])
  show "\<exists>w' k'. w_SeekToFirst I w k = Some (w', k') \<and> wok k' \<and> w_pos xs (list_op cmp xs To_first i) w'"
    unfolding w_SeekToFirst_def by (rule w_move_pos [OF assms(2)]) (rule first [OF assms(1)])
  show "\<exists>w' k'. w_SeekToLast I w k = Some (w', k') \<and> wok k' \<and> w_pos xs (list_op cmp xs To_last i) w'"
    unfolding w_SeekToLast_def by (rule w_move_pos [OF assms(2)]) (rule last [OF assms(1)])
  show "\<exists>w' k'. w_Next I w k = Some (w', k') \<and> wok k' \<and> w_pos xs (list_op cmp xs Forward i) w'" if "i < length xs"
    unfolding w_Next_def by (rule w_move_pos [OF assms(2)]) (rule forward [OF assms(1) _ that])
  show "\<exists>w' k'. w_Prev I w k = Some (w', k') \<and> wok k' \<and> w_pos xs (list_op cmp xs Backward i) w'" if "i < length xs"
    unfolding w_Prev_def by (rule w_move_pos [OF assms(2)]) (rule backward [OF assms(1) _ that])
qed

end

end
