(* ===== verification/LdbDbIter.thy ===== *)
theory LdbDbIter
  imports LdbIterator LdbSkipListProofs
begin

text \<open>
  The iterator of a database (\<open>db/db_iter.cc\<close>): it turns an iterator over internal keys into one over the user keys
  that a snapshot can see. The functions of the internal iterator, the user comparator and
  \<open>DBImpl::RecordReadSample\<close> are parameters. A string that is swapped for an empty one to give back memory
  is the empty string.

  A loop that does not return has no result.
\<close>

section \<open>State\<close>

definition kReadBytesPeriod :: nat where
  "kReadBytesPeriod = 1048576"

record 's db_iter =
  di_iter :: 's
  di_sequence :: SequenceNumber
  di_status :: ldb_status
  di_saved_key :: "u8 list"
  di_saved_value :: "u8 list"
  di_direction :: direction
  di_valid :: bool
  di_gen :: u32
  di_bytes :: u64

definition RandomCompactionPeriod :: "u32 \<Rightarrow> u64 \<times> u32" where
  "RandomCompactionPeriod gen = (case Uniform (2 * kReadBytesPeriod) gen of (n, gen) \<Rightarrow> (ucast n, gen))"

definition new_DBIter :: "'s \<Rightarrow> SequenceNumber \<Rightarrow> u32 \<Rightarrow> 's db_iter" where
  "new_DBIter iter s seed =
     (case RandomCompactionPeriod (new_Random seed) of
        (n, gen) \<Rightarrow>
          \<lparr>di_iter = iter, di_sequence = s, di_status = OK, di_saved_key = [], di_saved_value = [],
           di_direction = kForward, di_valid = False, di_gen = gen, di_bytes = n\<rparr>)"

definition di_key :: "('s, 'k) iter_ops \<Rightarrow> 's db_iter \<Rightarrow> u8 list" where
  "di_key I di =
     (case di_direction di of kForward \<Rightarrow> ExtractUserKey (ip_key I (di_iter di)) | kReverse \<Rightarrow> di_saved_key di)"

definition di_value :: "('s, 'k) iter_ops \<Rightarrow> 's db_iter \<Rightarrow> u8 list" where
  "di_value I di = (case di_direction di of kForward \<Rightarrow> ip_value I (di_iter di) | kReverse \<Rightarrow> di_saved_value di)"

definition DBIter_status :: "('s, 'k) iter_ops \<Rightarrow> 's db_iter \<Rightarrow> ldb_status" where
  "DBIter_status I di = (if di_status di = OK then ip_status I (di_iter di) else di_status di)"

section \<open>Reading an entry\<close>

partial_function (option) sample_loop ::
  "(u8 list \<Rightarrow> 'k \<Rightarrow> 'k) \<Rightarrow> u8 list \<Rightarrow> u64 \<Rightarrow> u64 \<Rightarrow> u32 \<Rightarrow> 'k \<Rightarrow> (u64 \<times> u32 \<times> 'k) option" where
  "sample_loop record_sample key bytes_read bytes gen k =
     (if bytes < bytes_read then
        case RandomCompactionPeriod gen of
          (n, gen) \<Rightarrow> sample_loop record_sample key bytes_read (bytes + n) gen (record_sample key k)
      else Some (bytes, gen, k))"

definition ParseKey ::
  "('s, 'k) iter_ops \<Rightarrow> (u8 list \<Rightarrow> 'k \<Rightarrow> 'k) \<Rightarrow> 's db_iter \<Rightarrow> 'k \<Rightarrow> (ParsedInternalKey option \<times> 's db_iter \<times> 'k) option" where
  "ParseKey I record_sample di k =
     do {
       let key = ip_key I (di_iter di);
       let bytes_read = of_nat (length key + length (ip_value I (di_iter di)));
       (bytes, gen, k) \<leftarrow> sample_loop record_sample key bytes_read (di_bytes di) (di_gen di) k;
       let di = di\<lparr>di_bytes := bytes - bytes_read, di_gen := gen\<rparr>;
       Some (case ParseInternalKey key of
         None \<Rightarrow> (None, di\<lparr>di_status := Corruption ''corrupted internal key in DBIter''\<rparr>, k)
       | Some ikey \<Rightarrow> (Some ikey, di, k))
     }"

section \<open>Forward\<close>

partial_function (option) FindNextUserEntry ::
  "('s, 'k) iter_ops \<Rightarrow> compare_op \<Rightarrow> (u8 list \<Rightarrow> 'k \<Rightarrow> 'k) \<Rightarrow> bool \<Rightarrow> 's db_iter \<Rightarrow> 'k \<Rightarrow> ('s db_iter \<times> 'k) option" where
  "FindNextUserEntry I ucmp record_sample skipping di k =
     do {
       (parsed, di, k) \<leftarrow> ParseKey I record_sample di k;
       let (stop, skipping, di) =
         (case parsed of
            None \<Rightarrow> (False, skipping, di)
          | Some ikey \<Rightarrow>
              if sequence ikey \<le> di_sequence di then
                (case vtype ikey of
                   kTypeDeletion \<Rightarrow> (False, True, di\<lparr>di_saved_key := user_key ikey\<rparr>)
                 | kTypeValue \<Rightarrow>
                     if skipping \<and> ucmp (user_key ikey) (di_saved_key di) \<le> 0 then (False, skipping, di)
                     else (True, skipping, di))
              else (False, skipping, di));
       if stop then Some (di\<lparr>di_valid := True, di_saved_key := []\<rparr>, k)
       else do {
         (s, k) \<leftarrow> ip_Next I (di_iter di) k;
         let di = di\<lparr>di_iter := s\<rparr>;
         if ip_Valid I s then FindNextUserEntry I ucmp record_sample skipping di k
         else Some (di\<lparr>di_saved_key := [], di_valid := False\<rparr>, k)
       }
     }"

definition di_Next ::
  "('s, 'k) iter_ops \<Rightarrow> compare_op \<Rightarrow> (u8 list \<Rightarrow> 'k \<Rightarrow> 'k) \<Rightarrow> 's db_iter \<Rightarrow> 'k \<Rightarrow> ('s db_iter \<times> 'k) option" where
  "di_Next I ucmp record_sample di k =
     (case di_direction di of
        kReverse \<Rightarrow> do {
          let di = di\<lparr>di_direction := kForward\<rparr>;
          (s, k) \<leftarrow> (if \<not> ip_Valid I (di_iter di) then ip_SeekToFirst I (di_iter di) k else ip_Next I (di_iter di) k);
          let di = di\<lparr>di_iter := s\<rparr>;
          if \<not> ip_Valid I s then Some (di\<lparr>di_valid := False, di_saved_key := []\<rparr>, k)
          else FindNextUserEntry I ucmp record_sample True di k
        }
      | kForward \<Rightarrow>
          FindNextUserEntry I ucmp record_sample True (di\<lparr>di_saved_key := ExtractUserKey (ip_key I (di_iter di))\<rparr>) k)"

section \<open>Backward\<close>

text \<open>The loop of \<open>FindPrevUserEntry\<close>, from a valid iterator; its result has the last \<open>value_type\<close>.\<close>

partial_function (option) prev_loop ::
  "('s, 'k) iter_ops \<Rightarrow> compare_op \<Rightarrow> (u8 list \<Rightarrow> 'k \<Rightarrow> 'k) \<Rightarrow> ValueType \<Rightarrow> 's db_iter \<Rightarrow> 'k \<Rightarrow> (ValueType \<times> 's db_iter \<times> 'k) option" where
  "prev_loop I ucmp record_sample value_type di k =
     do {
       (parsed, di, k) \<leftarrow> ParseKey I record_sample di k;
       let (stop, value_type, di) =
         (case parsed of
            None \<Rightarrow> (False, value_type, di)
          | Some ikey \<Rightarrow>
              if sequence ikey \<le> di_sequence di then
                if value_type \<noteq> kTypeDeletion \<and> ucmp (user_key ikey) (di_saved_key di) < 0 then (True, value_type, di)
                else
                  (case vtype ikey of
                     kTypeDeletion \<Rightarrow> (False, kTypeDeletion, di\<lparr>di_saved_key := [], di_saved_value := []\<rparr>)
                   | kTypeValue \<Rightarrow>
                       (False, kTypeValue, di\<lparr>di_saved_key := ExtractUserKey (ip_key I (di_iter di)),
                          di_saved_value := ip_value I (di_iter di)\<rparr>))
              else (False, value_type, di));
       if stop then Some (value_type, di, k)
       else do {
         (s, k) \<leftarrow> ip_Prev I (di_iter di) k;
         let di = di\<lparr>di_iter := s\<rparr>;
         if ip_Valid I s then prev_loop I ucmp record_sample value_type di k else Some (value_type, di, k)
       }
     }"

definition FindPrevUserEntry ::
  "('s, 'k) iter_ops \<Rightarrow> compare_op \<Rightarrow> (u8 list \<Rightarrow> 'k \<Rightarrow> 'k) \<Rightarrow> 's db_iter \<Rightarrow> 'k \<Rightarrow> ('s db_iter \<times> 'k) option" where
  "FindPrevUserEntry I ucmp record_sample di k =
     do {
       (value_type, di, k) \<leftarrow>
         (if ip_Valid I (di_iter di) then prev_loop I ucmp record_sample kTypeDeletion di k else Some (kTypeDeletion, di, k));
       Some (if value_type = kTypeDeletion
         then di\<lparr>di_valid := False, di_saved_key := [], di_saved_value := [], di_direction := kForward\<rparr>
         else di\<lparr>di_valid := True\<rparr>, k)
     }"

text \<open>\<open>Prev\<close> when it moved forward before: back to the entries of smaller user keys. The result is \<open>None\<close> inside when there are none.\<close>

partial_function (option) before_key ::
  "('s, 'k) iter_ops \<Rightarrow> compare_op \<Rightarrow> u8 list \<Rightarrow> 's \<Rightarrow> 'k \<Rightarrow> ('s \<times> 'k) option" where
  "before_key I ucmp saved_key s k =
     do {
       (s, k) \<leftarrow> ip_Prev I s k;
       if \<not> ip_Valid I s then Some (s, k)
       else if ucmp (ExtractUserKey (ip_key I s)) saved_key < 0 then Some (s, k)
       else before_key I ucmp saved_key s k
     }"

definition di_Prev ::
  "('s, 'k) iter_ops \<Rightarrow> compare_op \<Rightarrow> (u8 list \<Rightarrow> 'k \<Rightarrow> 'k) \<Rightarrow> 's db_iter \<Rightarrow> 'k \<Rightarrow> ('s db_iter \<times> 'k) option" where
  "di_Prev I ucmp record_sample di k =
     (case di_direction di of
        kForward \<Rightarrow> do {
          let di = di\<lparr>di_saved_key := ExtractUserKey (ip_key I (di_iter di))\<rparr>;
          (s, k) \<leftarrow> before_key I ucmp (di_saved_key di) (di_iter di) k;
          let di = di\<lparr>di_iter := s\<rparr>;
          if \<not> ip_Valid I s then Some (di\<lparr>di_valid := False, di_saved_key := [], di_saved_value := []\<rparr>, k)
          else FindPrevUserEntry I ucmp record_sample (di\<lparr>di_direction := kReverse\<rparr>) k
        }
      | kReverse \<Rightarrow> FindPrevUserEntry I ucmp record_sample di k)"

section \<open>Seeking\<close>

definition di_Seek ::
  "('s, 'k) iter_ops \<Rightarrow> compare_op \<Rightarrow> (u8 list \<Rightarrow> 'k \<Rightarrow> 'k) \<Rightarrow> u8 list \<Rightarrow> 's db_iter \<Rightarrow> 'k \<Rightarrow> ('s db_iter \<times> 'k) option" where
  "di_Seek I ucmp record_sample target di k =
     do {
       let di = di\<lparr>di_direction := kForward, di_saved_value := [],
         di_saved_key := AppendInternalKey [] \<lparr>user_key = target, sequence = di_sequence di, vtype = kValueTypeForSeek\<rparr>\<rparr>;
       (s, k) \<leftarrow> ip_Seek I (di_saved_key di) (di_iter di) k;
       let di = di\<lparr>di_iter := s\<rparr>;
       if ip_Valid I s then FindNextUserEntry I ucmp record_sample False di k
       else Some (di\<lparr>di_valid := False\<rparr>, k)
     }"

definition di_SeekToFirst ::
  "('s, 'k) iter_ops \<Rightarrow> compare_op \<Rightarrow> (u8 list \<Rightarrow> 'k \<Rightarrow> 'k) \<Rightarrow> 's db_iter \<Rightarrow> 'k \<Rightarrow> ('s db_iter \<times> 'k) option" where
  "di_SeekToFirst I ucmp record_sample di k =
     do {
       let di = di\<lparr>di_direction := kForward, di_saved_value := []\<rparr>;
       (s, k) \<leftarrow> ip_SeekToFirst I (di_iter di) k;
       let di = di\<lparr>di_iter := s\<rparr>;
       if ip_Valid I s then FindNextUserEntry I ucmp record_sample False di k
       else Some (di\<lparr>di_valid := False\<rparr>, k)
     }"

definition di_SeekToLast ::
  "('s, 'k) iter_ops \<Rightarrow> compare_op \<Rightarrow> (u8 list \<Rightarrow> 'k \<Rightarrow> 'k) \<Rightarrow> 's db_iter \<Rightarrow> 'k \<Rightarrow> ('s db_iter \<times> 'k) option" where
  "di_SeekToLast I ucmp record_sample di k =
     do {
       let di = di\<lparr>di_direction := kReverse, di_saved_value := []\<rparr>;
       (s, k) \<leftarrow> ip_SeekToLast I (di_iter di) k;
       FindPrevUserEntry I ucmp record_sample (di\<lparr>di_iter := s\<rparr>) k
     }"

text \<open>The class as an \<open>Iterator\<close>.\<close>

definition DBIter :: "('s, 'k) iter_ops \<Rightarrow> compare_op \<Rightarrow> (u8 list \<Rightarrow> 'k \<Rightarrow> 'k) \<Rightarrow> ('s db_iter, 'k) iter_ops" where
  "DBIter I ucmp record_sample =
     \<lparr>ip_Valid = di_valid, ip_key = di_key I, ip_value = di_value I, ip_status = DBIter_status I,
      ip_Seek = di_Seek I ucmp record_sample, ip_SeekToFirst = di_SeekToFirst I ucmp record_sample,
      ip_SeekToLast = di_SeekToLast I ucmp record_sample, ip_Next = di_Next I ucmp record_sample,
      ip_Prev = di_Prev I ucmp record_sample, ip_delete = (\<lambda>di. ip_delete I (di_iter di))\<rparr>"

end
