(* ===== verification/LdbDbIterProofs.thy ===== *)
theory LdbDbIterProofs
  imports LdbDbIter
begin

text \<open>
  The iterator of a database is a cursor over the entries that its snapshot shows, when the iterator
  over internal keys below it is a cursor over internal entries in order. The sampling of reads ends, because
  the random generator never draws two multiples of the period in a row.
\<close>

section \<open>Sampling\<close>

definition gen_ok :: "u32 \<Rightarrow> bool" where
  "gen_ok r \<longleftrightarrow> 0 < unat r \<and> unat r < 2147483647"

lemma new_Random_ok: "gen_ok (new_Random seed)"
proof -
  have "unat (seed AND 0x7FFFFFFF) < 2 ^ 31"
  proof -
    have "(0x7FFFFFFF :: u32) = mask 31" by (simp add: mask_eq_exp_minus_1)
    then have "seed AND 0x7FFFFFFF = take_bit 31 seed" by (simp add: take_bit_eq_mask)
    then show ?thesis by (simp add: unat_take_bit)
  qed
  moreover have "unat (seed AND 0x7FFFFFFF) \<noteq> 2147483647" if "seed AND 0x7FFFFFFF \<noteq> 2147483647"
    using that word_unat_eq_iff [of "seed AND 0x7FFFFFFF" 2147483647] by simp
  moreover have "unat (seed AND 0x7FFFFFFF) \<noteq> 0" if "seed AND 0x7FFFFFFF \<noteq> 0"
    using that by (simp add: unat_eq_0)
  ultimately show ?thesis by (auto simp: gen_ok_def new_Random_def Let_def)
qed

lemma period_multiple_once:
  assumes "gen_ok r" and "unat (Random_Next r) mod 2097152 = 0"
  shows "unat (Random_Next (Random_Next r)) mod 2097152 \<noteq> 0"
proof -
  define x where "x = unat (Random_Next r)"
  have x: "0 < x" "x < 2147483647" "unat (Random_Next (Random_Next r)) = x * 16807 mod 2147483647"
    using Random_Next_mod [of r] assms(1) Random_Next_mod [of "Random_Next r"] by (auto simp: gen_ok_def x_def)
  obtain c where c: "x = 2097152 * c" using assms(2) by (auto simp: x_def)
  have bound: "0 < c" "c < 1024" using x c by auto
  define q where "q = x * 16807 div 2147483647"
  define y where "y = x * 16807 mod 2147483647"
  have eq: "x * 16807 = q * 2147483647 + y" and y: "y < 2147483647" by (simp_all add: q_def y_def)
  have q: "0 < q" "q < 2097152" using eq y c bound by auto
  have "y + q * 2147483647 = 2097152 * (c * 16807)" using eq c by simp
  then have "y + q * 2147483648 = 2097152 * (c * 16807) + q" by simp
  moreover have "(2097152 * (c * 16807) + q) mod 2097152 = q mod 2097152" by (rule mod_mult_self4)
  ultimately have "(y + q * 2147483648) mod 2097152 = q" using q(2) by (simp only: mod_less)
  moreover have "(y + 2097152 * (q * 1024)) mod 2097152 = y mod 2097152" by (rule mod_mult_self2)
  then have "(y + q * 2147483648) mod 2097152 = y mod 2097152" by (simp add: mult.commute)
  ultimately show ?thesis using q(1) x(3) by (simp add: y_def)
qed

lemma period_eq:
  assumes "gen_ok r"
  shows "\<exists>n. RandomCompactionPeriod r = (n, Random_Next r) \<and> unat n = unat (Random_Next r) mod 2097152 \<and> gen_ok (Random_Next r)"
  using Random_Next_mod [of r] assms
  by (simp add: RandomCompactionPeriod_def Uniform_def Let_def kReadBytesPeriod_def gen_ok_def unat_mod unat_ucast_up_simp)

lemma sample_loop_ok:
  assumes "\<And>k. wok k \<Longrightarrow> wok (record_sample key k)" and read: "unat bytes_read < 2 ^ 63"
  shows "gen_ok r \<Longrightarrow> unat bytes < 2 ^ 63 \<Longrightarrow> wok k \<Longrightarrow>
    \<exists>bytes' r' k'. sample_loop record_sample key bytes_read bytes r k = Some (bytes', r', k') \<and>
      bytes_read \<le> bytes' \<and> (unat bytes' < 2 ^ 63 \<or> unat bytes' < unat bytes_read + 2097152) \<and> gen_ok r' \<and> wok k'"
proof (induction "2 * (unat bytes_read - unat bytes) + (if unat (Random_Next r) mod 2097152 = 0 then 1 else 0)"
    arbitrary: bytes r k rule: less_induct)
  case less
  show ?case
  proof (cases "bytes < bytes_read")
    case False
    then show ?thesis using less.prems by (subst sample_loop.simps) simp
  next
    case True
    obtain n where n: "RandomCompactionPeriod r = (n, Random_Next r)" "unat n = unat (Random_Next r) mod 2097152" "gen_ok (Random_Next r)"
      using period_eq [OF less.prems(1)] by blast
    have small: "unat n < 2097152" using n(2) by simp
    have lt: "unat bytes < unat bytes_read" using True by (simp add: word_less_nat_alt)
    have sum: "unat (bytes + n) = unat bytes + unat n"
      using less.prems(2) small by (simp add: unat_word_ariths(1))
    have step: "sample_loop record_sample key bytes_read bytes r k =
        sample_loop record_sample key bytes_read (bytes + n) (Random_Next r) (record_sample key k)"
      using True n(1) by (subst sample_loop.simps) simp
    show ?thesis
    proof (cases "unat (bytes + n) < 2 ^ 63")
      case small_sum: True
      define a where "a = unat (Random_Next r) mod 2097152"
      define b where "b = unat (Random_Next (Random_Next r)) mod 2097152"
      have "a = 0 \<Longrightarrow> b \<noteq> 0" unfolding a_def b_def by (rule period_multiple_once [OF less.prems(1)])
      then have "2 * (unat bytes_read - (unat bytes + a)) + (if b = 0 then 1 else 0) <
          2 * (unat bytes_read - unat bytes) + (if a = 0 then 1 else 0)"
        using lt by (cases "a = 0"; cases "b = 0") auto
      then have "2 * (unat bytes_read - unat (bytes + n)) + (if unat (Random_Next (Random_Next r)) mod 2097152 = 0 then 1 else 0) <
          2 * (unat bytes_read - unat bytes) + (if unat (Random_Next r) mod 2097152 = 0 then 1 else 0)"
        unfolding sum n(2) a_def b_def .
      from less.hyps [OF this n(3) small_sum assms(1) [OF less.prems(3)]] show ?thesis unfolding step .
    next
      case False
      then have "\<not> bytes + n < bytes_read" using read by (simp add: word_less_nat_alt)
      then show ?thesis
        unfolding step using n(3) assms(1) [OF less.prems(3)] sum small lt
        by (subst sample_loop.simps) simp
    qed
  qed
qed

section \<open>Entries and what a snapshot shows\<close>

definition euser :: "entry \<Rightarrow> u8 list" where
  "euser e = ExtractUserKey (fst e)"

definition eseq :: "entry \<Rightarrow> SequenceNumber" where
  "eseq e = drop_bit 8 (tag (fst e))"

definition etype :: "entry \<Rightarrow> ValueType" where
  "etype e = (if tag (fst e) AND 0xFF = 0 then kTypeDeletion else kTypeValue)"

text \<open>The newest entry of its user key that the snapshot \<open>s\<close> can see, if it is not a deletion.\<close>

definition shows_at :: "SequenceNumber \<Rightarrow> entry list \<Rightarrow> nat \<Rightarrow> bool" where
  "shows_at s xs i \<longleftrightarrow>
     i < length xs \<and> eseq (xs ! i) \<le> s \<and> etype (xs ! i) = kTypeValue \<and>
     (\<forall>j<i. euser (xs ! j) = euser (xs ! i) \<longrightarrow> \<not> eseq (xs ! j) \<le> s)"

definition view :: "SequenceNumber \<Rightarrow> entry list \<Rightarrow> entry list" where
  "view s xs = map (\<lambda>i. (euser (xs ! i), snd (xs ! i))) (filter (shows_at s xs) [0..<length xs])"

definition rank :: "SequenceNumber \<Rightarrow> entry list \<Rightarrow> nat \<Rightarrow> nat" where
  "rank s xs i = length (filter (shows_at s xs) [0..<i])"

lemma rank_0 [simp]: "rank s xs 0 = 0"
  by (simp add: rank_def)

lemma rank_Suc: "rank s xs (Suc i) = rank s xs i + (if shows_at s xs i then 1 else 0)"
  by (simp add: rank_def)

lemma rank_end: "rank s xs (length xs) = length (view s xs)"
  by (simp add: rank_def view_def)

lemma rank_const: "i \<le> j \<Longrightarrow> (\<And>x. i \<le> x \<Longrightarrow> x < j \<Longrightarrow> \<not> shows_at s xs x) \<Longrightarrow> rank s xs j = rank s xs i"
proof (induction rule: dec_induct)
  case (step m)
  then show ?case by (simp add: rank_Suc)
qed simp

lemma filter_upt_split: "i \<le> n \<Longrightarrow> filter P [0..<n] = filter P [0..<i] @ filter P [i..<n]"
  by (metis filter_append le_Suc_ex upt_add_eq_append zero_le)

lemma view_rank:
  assumes "shows_at s xs i"
  shows "rank s xs i < length (view s xs)" "view s xs ! rank s xs i = (euser (xs ! i), snd (xs ! i))"
proof -
  have i: "i < length xs" using assms by (simp add: shows_at_def)
  have "filter (shows_at s xs) [0..<length xs] = filter (shows_at s xs) [0..<i] @ i # filter (shows_at s xs) [Suc i..<length xs]"
    using filter_upt_split [of i "length xs" "shows_at s xs"] i assms by (simp add: upt_conv_Cons)
  then show "rank s xs i < length (view s xs)" "view s xs ! rank s xs i = (euser (xs ! i), snd (xs ! i))"
    by (simp_all add: rank_def view_def nth_append)
qed

lemma view_nth:
  assumes "m < length (view s xs)"
  shows "\<exists>i. shows_at s xs i \<and> rank s xs i = m"
proof -
  have "m < rank s xs (length xs)" using assms by (simp add: rank_end)
  moreover have "m < rank s xs n \<Longrightarrow> \<exists>i<n. shows_at s xs i \<and> rank s xs i = m" for n
    by (induction n) (auto simp: rank_Suc less_Suc_eq split: if_splits)
  ultimately show ?thesis by blast
qed

text \<open>What the iterator is for: internal keys that parse, in order, of a size that its counter of bytes can hold.\<close>

definition entry_ok :: "(u8 list \<Rightarrow> bool) \<Rightarrow> entry \<Rightarrow> bool" where
  "entry_ok valid e \<longleftrightarrow> 8 \<le> length (fst e) \<and> valid (euser e) \<and> tag (fst e) AND 0xFF \<le> 1 \<and> length (fst e) + length (snd e) < 2 ^ 63"

definition entries_ok :: "compare_op \<Rightarrow> (u8 list \<Rightarrow> bool) \<Rightarrow> entry list \<Rightarrow> bool" where
  "entries_ok ucmp valid xs \<longleftrightarrow>
     list_all (entry_ok valid) xs \<and> sorted_wrt (\<lambda>a b. InternalCompare ucmp (fst a) (fst b) < 0) xs"

section \<open>The loops\<close>

text \<open>
  \<open>at\<close> is the position of the internal iterator \<^emph>\<open>below\<close>, over the entries \<open>xs\<close>. The words of the order and of what
  is visible are about positions.
\<close>

locale db_iterator = comparator ucmp separator successor valid +
    below: cursor I "InternalCompare ucmp" "\<lambda>k. 8 \<le> length k \<and> key_ok (ExtractUserKey k)" wok at
  for ucmp separator successor valid key_ok and I :: "('s, 'k) iter_ops" and wok at +
  fixes sample :: "u8 list \<Rightarrow> 'k \<Rightarrow> 'k"
  assumes sample_ok: "wok k \<Longrightarrow> wok (sample key k)" and key_ok: "key_ok key \<Longrightarrow> valid key"
begin

definition ready :: "'s db_iter \<Rightarrow> bool" where
  "ready di \<longleftrightarrow> gen_ok (di_gen di) \<and> unat (di_bytes di) < 2 ^ 63 \<and> di_status di = OK"

abbreviation seen :: "'s db_iter \<Rightarrow> entry list \<Rightarrow> nat \<Rightarrow> bool" where
  "seen di xs i \<equiv> eseq (xs ! i) \<le> di_sequence di"

lemma user_ok: "entries_ok ucmp valid xs \<Longrightarrow> i < length xs \<Longrightarrow> valid (euser (xs ! i))"
  by (simp add: entries_ok_def list_all_length entry_ok_def)

lemma user_order:
  assumes "entries_ok ucmp valid xs" and "i \<le> j" and "j < length xs"
  shows "ucmp (euser (xs ! i)) (euser (xs ! j)) \<le> 0"
proof (cases "i = j")
  case True
  then show ?thesis using cmp_refl user_ok assms by simp
next
  case False
  then have "InternalCompare ucmp (fst (xs ! i)) (fst (xs ! j)) < 0"
    using assms by (auto simp: entries_ok_def sorted_wrt_iff_nth_less)
  then show ?thesis by (auto simp: InternalCompare_tag euser_def Let_def split: if_splits)
qed

lemma user_less_iff: "valid a \<Longrightarrow> valid b \<Longrightarrow> ucmp a b \<le> 0 \<Longrightarrow> ucmp a b < 0 \<longleftrightarrow> a \<noteq> b"
  using cmp_eq [of a b] by auto

lemma user_le_trans: "valid a \<Longrightarrow> valid b \<Longrightarrow> valid c \<Longrightarrow> ucmp a b \<le> 0 \<Longrightarrow> ucmp b c \<le> 0 \<Longrightarrow> ucmp a c \<le> 0"
  by (metis cmp_eq cmp_trans order_le_less)

lemma user_antisym: "valid a \<Longrightarrow> valid b \<Longrightarrow> ucmp a b \<le> 0 \<Longrightarrow> ucmp b a \<le> 0 \<Longrightarrow> a = b"
  by (metis cmp_eq cmp_flip linorder_not_less order_le_less)

lemma user_not_le: "valid a \<Longrightarrow> valid b \<Longrightarrow> \<not> ucmp a b \<le> 0 \<longleftrightarrow> ucmp b a < 0"
  by (metis cmp_flip linorder_not_less)

lemma ParseInternalKey_entry:
  assumes "entry_ok valid e"
  shows "ParseInternalKey (fst e) = Some \<lparr>user_key = euser e, sequence = eseq e, vtype = etype e\<rparr>"
proof -
  have "tag (fst e) AND 0xFF \<le> value_type_code kTypeValue" "\<not> length (fst e) < 8" using assms by (simp_all add: entry_ok_def)
  then show ?thesis
    by (simp add: ParseInternalKey_def Let_def tag_def [symmetric] euser_def ExtractUserKey_def eseq_def etype_def)
qed

lemma ParseKey_ok:
  assumes "entries_ok ucmp valid xs" and "at xs i (di_iter di)" and "i < length xs" and "ready di" and "wok k"
  shows "\<exists>bytes r k'. ParseKey I sample di k =
      Some (Some \<lparr>user_key = euser (xs ! i), sequence = eseq (xs ! i), vtype = etype (xs ! i)\<rparr>,
        di\<lparr>di_bytes := bytes, di_gen := r\<rparr>, k') \<and> wok k' \<and> ready (di\<lparr>di_bytes := bytes, di_gen := r\<rparr>)"
proof -
  let ?e = "xs ! i"
  have e: "entry_ok valid ?e" using assms(1,3) by (simp add: entries_ok_def list_all_length)
  define n :: u64 where "n = of_nat (length (fst ?e) + length (snd ?e))"
  have n: "unat n = length (fst ?e) + length (snd ?e)" "unat n < 2 ^ 63"
    using e unfolding entry_ok_def n_def by (simp_all add: unat_of_nat take_bit_nat_eq_self del: of_nat_add)
  obtain bytes r k' where loop: "sample_loop sample (fst ?e) n (di_bytes di) (di_gen di) k = Some (bytes, r, k')"
      "n \<le> bytes" "unat bytes < 2 ^ 63 \<or> unat bytes < unat n + 2097152" "gen_ok r" "wok k'"
    using sample_loop_ok [of wok sample "fst ?e" n "di_gen di" "di_bytes di" k] sample_ok n(2) assms(4,5) by (auto simp: ready_def)
  have "unat (bytes - n) = unat bytes - unat n" using loop(2) by (simp add: unat_sub)
  then have "unat (bytes - n) < 2 ^ 63" using loop(3) by auto
  moreover have "ParseKey I sample di k =
      Some (Some \<lparr>user_key = euser ?e, sequence = eseq ?e, vtype = etype ?e\<rparr>, di\<lparr>di_bytes := bytes - n, di_gen := r\<rparr>, k')"
    using loop(1) below.at_entry [OF assms(2,3)] ParseInternalKey_entry [OF e]
    by (simp add: ParseKey_def n_def Let_def)
  ultimately show ?thesis using loop(4,5) assms(4) by (auto simp: ready_def)
qed

lemma at_Next:
  assumes "wok k" and "at xs i s" and "i < length xs"
  shows "\<exists>s' k'. ip_Next I s k = Some (s', k') \<and> wok k' \<and> at xs (Suc i) s'"
  using below.forward [OF assms] assms(3) by (simp add: list_op_def)

lemma at_Prev:
  assumes "wok k" and "at xs i s" and "i < length xs"
  shows "\<exists>s' k'. ip_Prev I s k = Some (s', k') \<and> wok k' \<and> at xs (if i = 0 then length xs else i - 1) s'"
  using below.backward [OF assms] assms(3) by (simp add: list_op_def)

lemma at_Valid: "at xs i s \<Longrightarrow> ip_Valid I s \<longleftrightarrow> i < length xs"
  using below.valid by blast

text \<open>What a loop changes: the iterator, the saved strings, and the sampling.\<close>

definition frame :: "'s db_iter \<Rightarrow> 's db_iter \<Rightarrow> bool" where
  "frame di di' \<longleftrightarrow> di_sequence di' = di_sequence di \<and> di_direction di' = di_direction di \<and> ready di'"

text \<open>An entry that the forward loop passes over because it skips.\<close>

definition hidden :: "bool \<Rightarrow> 's db_iter \<Rightarrow> entry list \<Rightarrow> nat \<Rightarrow> bool" where
  "hidden skipping di xs i \<longleftrightarrow> skipping \<and> ucmp (euser (xs ! i)) (di_saved_key di) \<le> 0"

definition can_skip :: "bool \<Rightarrow> 's db_iter \<Rightarrow> entry list \<Rightarrow> nat \<Rightarrow> bool" where
  "can_skip skipping di xs i \<longleftrightarrow>
     (skipping \<longrightarrow> valid (di_saved_key di) \<and> (\<forall>j. i \<le> j \<and> j < length xs \<and> seen di xs j \<longrightarrow> ucmp (di_saved_key di) (euser (xs ! j)) \<le> 0)) \<and>
     (\<forall>j'. i \<le> j' \<and> j' < length xs \<and> \<not> hidden skipping di xs j' \<longrightarrow> (\<forall>j<i. euser (xs ! j) = euser (xs ! j') \<longrightarrow> \<not> seen di xs j))"

definition next_shown :: "bool \<Rightarrow> 's db_iter \<Rightarrow> entry list \<Rightarrow> nat \<Rightarrow> nat \<Rightarrow> bool" where
  "next_shown skipping di xs i j \<longleftrightarrow>
     i \<le> j \<and> shows_at (di_sequence di) xs j \<and> \<not> hidden skipping di xs j \<and>
     (\<forall>x. i \<le> x \<and> x < j \<longrightarrow> \<not> (shows_at (di_sequence di) xs x \<and> \<not> hidden skipping di xs x))"

definition found_next :: "bool \<Rightarrow> 's db_iter \<Rightarrow> entry list \<Rightarrow> nat \<Rightarrow> 's db_iter \<Rightarrow> bool" where
  "found_next skipping di xs i di' \<longleftrightarrow>
     (\<exists>j. next_shown skipping di xs i j \<and> di_valid di' \<and> at xs j (di_iter di')) \<or>
     (\<forall>x\<ge>i. \<not> (shows_at (di_sequence di) xs x \<and> \<not> hidden skipping di xs x)) \<and> \<not> di_valid di' \<and> (\<exists>p. at xs p (di_iter di'))"

lemma found_next_step:
  assumes "\<not> (shows_at (di_sequence di) xs i \<and> \<not> hidden skipping di xs i)" and "di_sequence di1 = di_sequence di"
    and "\<And>x. i < x \<Longrightarrow> x < length xs \<Longrightarrow> shows_at (di_sequence di) xs x \<Longrightarrow> hidden skipping1 di1 xs x \<longleftrightarrow> hidden skipping di xs x"
    and "found_next skipping1 di1 xs (Suc i) di'"
  shows "found_next skipping di xs i di'"
proof -
  have same: "shows_at (di_sequence di) xs x \<and> \<not> hidden skipping di xs x \<longleftrightarrow> shows_at (di_sequence di1) xs x \<and> \<not> hidden skipping1 di1 xs x"
    if "i < x" for x
    using assms(2,3) that by (auto simp: shows_at_def)
  have le: "i \<le> x \<longleftrightarrow> x = i \<or> Suc i \<le> x" for x by auto
  show ?thesis
    using assms(1,4) same unfolding found_next_def next_shown_def le
    by (metis Suc_le_eq assms(2) less_irrefl)
qed

lemma can_skip_Suc:
  assumes "can_skip b di xs i" and "\<not> seen di xs i \<or> hidden b di xs i"
  shows "can_skip b di xs (Suc i)"
  unfolding can_skip_def
proof (intro conjI impI allI; (elim conjE)?)
  show "valid (di_saved_key di)" if b using assms(1) that by (simp add: can_skip_def)
  show "ucmp (di_saved_key di) (euser (xs ! j)) \<le> 0" if "b" "Suc i \<le> j" "j < length xs" "seen di xs j" for j
    using assms(1) that unfolding can_skip_def by (meson Suc_leD)
  fix j' j
  assume j': "Suc i \<le> j'" "j' < length xs" "\<not> hidden b di xs j'" and j: "j < Suc i" "euser (xs ! j) = euser (xs ! j')"
  show "\<not> seen di xs j"
  proof (cases "j = i")
    case True
    then have "\<not> hidden b di xs i" using j'(3) j(2) by (simp add: hidden_def)
    then show ?thesis using assms(2) True by blast
  next
    case False
    then show ?thesis using assms(1) j' j unfolding can_skip_def by (meson Suc_leD less_SucE)
  qed
qed

lemma can_skip_update: "can_skip b (di\<lparr>di_bytes := x, di_gen := y\<rparr>) xs i = can_skip b di xs i"
  by (simp add: can_skip_def hidden_def)

lemma FindNextUserEntry_ok:
  assumes ok: "entries_ok ucmp valid xs"
  shows "at xs i (di_iter di) \<Longrightarrow> i < length xs \<Longrightarrow> ready di \<Longrightarrow> wok k \<Longrightarrow> can_skip skipping di xs i \<Longrightarrow>
    \<exists>di' k'. FindNextUserEntry I ucmp sample skipping di k = Some (di', k') \<and> wok k' \<and> frame di di' \<and> found_next skipping di xs i di'"
proof (induction "length xs - i" arbitrary: i skipping di k rule: less_induct)
  case less
  let ?s = "di_sequence di" and ?e = "xs ! i"
  obtain bytes r k1 where parse: "ParseKey I sample di k =
      Some (Some \<lparr>user_key = euser ?e, sequence = eseq ?e, vtype = etype ?e\<rparr>, di\<lparr>di_bytes := bytes, di_gen := r\<rparr>, k1)"
      "wok k1" "ready (di\<lparr>di_bytes := bytes, di_gen := r\<rparr>)"
    using ParseKey_ok [OF ok less.prems(1,2,3,4)] by blast
  let ?d = "di\<lparr>di_bytes := bytes, di_gen := r\<rparr>"
  obtain s' k2 where nxt: "ip_Next I (di_iter ?d) k1 = Some (s', k2)" "wok k2" "at xs (Suc i) s'"
    using at_Next [OF parse(2)] less.prems(1,2) by (metis db_iter.ext_inject db_iter.surjective db_iter.update_convs(8,9))
  have shorter: "length xs - Suc i < length xs - i" using less.prems(2) by simp
  have go_on: "\<exists>di' k'. (if ip_Valid I s' then FindNextUserEntry I ucmp sample skipping1 (d1\<lparr>di_iter := s'\<rparr>) k2
        else Some (d1\<lparr>di_iter := s', di_saved_key := [], di_valid := False\<rparr>, k2)) = Some (di', k') \<and>
      wok k' \<and> frame di di' \<and> found_next skipping di xs i di'"
    if d1: "d1 = ?d\<lparr>di_saved_key := sk\<rparr>" and not: "\<not> (shows_at ?s xs i \<and> \<not> hidden skipping di xs i)"
      and same: "\<And>x. i < x \<Longrightarrow> x < length xs \<Longrightarrow> shows_at ?s xs x \<Longrightarrow> hidden skipping1 d1 xs x \<longleftrightarrow> hidden skipping di xs x"
      and skip: "can_skip skipping1 d1 xs (Suc i)" for d1 sk skipping1
  proof (cases "Suc i < length xs")
    case True
    have d: "di_iter (d1\<lparr>di_iter := s'\<rparr>) = s'" "ready (d1\<lparr>di_iter := s'\<rparr>)" "di_sequence (d1\<lparr>di_iter := s'\<rparr>) = ?s"
      "di_direction (d1\<lparr>di_iter := s'\<rparr>) = di_direction di"
      using parse(3) by (simp_all add: d1 ready_def)
    have eqs: "hidden b (d1\<lparr>di_iter := s'\<rparr>) = hidden b d1" "can_skip b (d1\<lparr>di_iter := s'\<rparr>) = can_skip b d1" for b
      by (simp_all add: hidden_def can_skip_def fun_eq_iff)
    obtain di' k' where 1: "FindNextUserEntry I ucmp sample skipping1 (d1\<lparr>di_iter := s'\<rparr>) k2 = Some (di', k')" "wok k'"
        "frame (d1\<lparr>di_iter := s'\<rparr>) di'" "found_next skipping1 (d1\<lparr>di_iter := s'\<rparr>) xs (Suc i) di'"
      using less.hyps [OF shorter, of "d1\<lparr>di_iter := s'\<rparr>" k2 skipping1] True nxt(2,3) d(1,2) skip unfolding eqs by auto
    have "found_next skipping di xs i di'"
      by (rule found_next_step [OF not _ _ 1(4)]) (use d(3) same eqs in auto)
    then show ?thesis using 1 d(3,4) at_Valid [OF nxt(3)] True by (auto simp: frame_def)
  next
    case False
    have "\<not> (shows_at ?s xs x \<and> \<not> hidden skipping di xs x)" if "i \<le> x" for x
      using that not False less.prems(2) by (cases "x = i") (auto simp: shows_at_def)
    then show ?thesis
      using at_Valid [OF nxt(3)] False nxt parse(3) by (auto simp: found_next_def frame_def ready_def d1)
  qed
  have d_same: "?d = ?d\<lparr>di_saved_key := di_saved_key di\<rparr>" by (cases di) simp
  show ?case
  proof (cases "eseq ?e \<le> ?s")
    case unseen: False
    have "FindNextUserEntry I ucmp sample skipping di k =
        (if ip_Valid I s' then FindNextUserEntry I ucmp sample skipping (?d\<lparr>di_iter := s'\<rparr>) k2
         else Some (?d\<lparr>di_iter := s', di_saved_key := [], di_valid := False\<rparr>, k2))"
      using unseen parse(1) nxt(1) by (subst FindNextUserEntry.simps) simp
    moreover have "can_skip skipping ?d xs (Suc i)"
      unfolding can_skip_update using can_skip_Suc [OF less.prems(5)] unseen by blast
    ultimately show ?thesis
      using go_on [OF d_same, of skipping] unseen
      by (simp add: shows_at_def hidden_def)
  next
    case seen: True
    show ?thesis
    proof (cases "etype ?e")
      case kTypeDeletion
      have "FindNextUserEntry I ucmp sample skipping di k =
          (if ip_Valid I s' then FindNextUserEntry I ucmp sample True (?d\<lparr>di_saved_key := euser ?e, di_iter := s'\<rparr>) k2
           else Some (?d\<lparr>di_saved_key := euser ?e, di_iter := s', di_saved_key := [], di_valid := False\<rparr>, k2))"
        using seen parse(1) nxt(1) kTypeDeletion by (subst FindNextUserEntry.simps) simp
      moreover have "can_skip True (?d\<lparr>di_saved_key := euser ?e\<rparr>) xs (Suc i)"
      proof -
        have "ucmp (euser (xs ! j)) (euser ?e) \<le> 0" if "j \<le> i" for j using user_order [OF ok that less.prems(2)] .
        then show ?thesis
          using user_order [OF ok, of i] user_ok [OF ok less.prems(2)]
          unfolding can_skip_def hidden_def by (auto simp: less_Suc_eq_le) (metis+)
      qed
      moreover have "hidden True (?d\<lparr>di_saved_key := euser ?e\<rparr>) xs x \<longleftrightarrow> hidden skipping di xs x"
        if x: "i < x" "x < length xs" "shows_at ?s xs x" for x
      proof -
        note v = user_ok [OF ok x(2)] user_ok [OF ok less.prems(2)]
        have "euser (xs ! x) \<noteq> euser ?e" using x(1,3) seen by (auto simp: shows_at_def)
        then have not_le: "\<not> ucmp (euser (xs ! x)) (euser ?e) \<le> 0"
          using user_antisym [OF v] user_order [OF ok _ x(2), of i] x(1) by auto
        moreover have "\<not> hidden skipping di xs x"
          using not_le user_le_trans [OF v(1) _ v(2)] less.prems(2,5) seen unfolding hidden_def can_skip_def by blast
        ultimately show ?thesis by (simp add: hidden_def)
      qed
      ultimately show ?thesis
        using go_on [of "?d\<lparr>di_saved_key := euser ?e\<rparr>" "euser ?e" True] kTypeDeletion
        by (simp add: shows_at_def)
    next
      case kTypeValue
      show ?thesis
      proof (cases "hidden skipping di xs i")
        case hid: True
        have "FindNextUserEntry I ucmp sample skipping di k =
            (if ip_Valid I s' then FindNextUserEntry I ucmp sample skipping (?d\<lparr>di_iter := s'\<rparr>) k2
             else Some (?d\<lparr>di_iter := s', di_saved_key := [], di_valid := False\<rparr>, k2))"
          using seen hid parse(1) nxt(1) kTypeValue by (subst FindNextUserEntry.simps) (simp add: hidden_def)
        moreover have "can_skip skipping ?d xs (Suc i)"
          unfolding can_skip_update using can_skip_Suc [OF less.prems(5)] hid by blast
        ultimately show ?thesis
          using go_on [OF d_same, of skipping] hid
          by (simp add: hidden_def)
      next
        case taken: False
        have "shows_at ?s xs i"
          using less.prems(2,5) seen kTypeValue taken unfolding can_skip_def shows_at_def by blast
        moreover have "FindNextUserEntry I ucmp sample skipping di k = Some (?d\<lparr>di_valid := True, di_saved_key := []\<rparr>, k1)"
          using seen taken parse(1) kTypeValue by (subst FindNextUserEntry.simps) (auto simp: hidden_def)
        ultimately show ?thesis
          using taken less.prems(1) parse(2,3) by (auto simp: found_next_def next_shown_def frame_def ready_def)
      qed
    qed
  qed
qed

text \<open>The entries from \<open>b\<close> to \<open>hi\<close> have been read; the saved strings are those of the smallest that is seen, if it is a value.\<close>

definition candidate :: "ValueType \<Rightarrow> 's db_iter \<Rightarrow> entry list \<Rightarrow> nat \<Rightarrow> nat \<Rightarrow> bool" where
  "candidate t di xs b hi \<longleftrightarrow>
     (case t of
        kTypeDeletion \<Rightarrow> \<forall>j. b \<le> j \<and> j \<le> hi \<longrightarrow> \<not> shows_at (di_sequence di) xs j
      | kTypeValue \<Rightarrow> \<exists>c. b \<le> c \<and> c \<le> hi \<and> c < length xs \<and> seen di xs c \<and> etype (xs ! c) = kTypeValue \<and>
          di_saved_key di = euser (xs ! c) \<and> di_saved_value di = snd (xs ! c) \<and>
          (\<forall>j. b \<le> j \<and> j < c \<longrightarrow> \<not> seen di xs j) \<and> (\<forall>j. c < j \<and> j \<le> hi \<longrightarrow> \<not> shows_at (di_sequence di) xs j))"

text \<open>The internal iterator is before the entries of the user key at \<open>c\<close>; in between the snapshot sees nothing.\<close>

definition behind :: "'s db_iter \<Rightarrow> entry list \<Rightarrow> nat \<Rightarrow> nat \<Rightarrow> bool" where
  "behind di xs p c \<longleftrightarrow>
     p = length xs \<and> (\<forall>j<c. \<not> seen di xs j) \<or>
     p < c \<and> ucmp (euser (xs ! p)) (euser (xs ! c)) < 0 \<and> (\<forall>j. p < j \<and> j < c \<longrightarrow> \<not> seen di xs j)"

definition found_prev :: "ValueType \<Rightarrow> 's db_iter \<Rightarrow> entry list \<Rightarrow> nat \<Rightarrow> 's db_iter \<Rightarrow> bool" where
  "found_prev t di xs hi di' \<longleftrightarrow>
     (case t of
        kTypeDeletion \<Rightarrow> (\<forall>j\<le>hi. \<not> shows_at (di_sequence di) xs j) \<and> (\<exists>p. at xs p (di_iter di'))
      | kTypeValue \<Rightarrow> \<exists>c p. c \<le> hi \<and> shows_at (di_sequence di) xs c \<and> di_saved_key di' = euser (xs ! c) \<and>
          di_saved_value di' = snd (xs ! c) \<and> at xs p (di_iter di') \<and> behind di xs p c \<and>
          (\<forall>j. c < j \<and> j \<le> hi \<longrightarrow> \<not> shows_at (di_sequence di) xs j))"

lemma found_prev_end:
  assumes "candidate t di xs 0 hi" and "at xs (length xs) s" and "di_saved_key di' = di_saved_key di"
    and "di_saved_value di' = di_saved_value di" and "di_iter di' = s" and "di_sequence di1 = di_sequence di"
  shows "found_prev t di1 xs hi di'"
proof (cases t)
  case kTypeDeletion
  then show ?thesis using assms by (auto simp: candidate_def found_prev_def)
next
  case kTypeValue
  then obtain c where "c \<le> hi" "c < length xs" "seen di xs c" "etype (xs ! c) = kTypeValue"
      "di_saved_key di = euser (xs ! c)" "di_saved_value di = snd (xs ! c)" "\<forall>j<c. \<not> seen di xs j"
      "\<forall>j. c < j \<and> j \<le> hi \<longrightarrow> \<not> shows_at (di_sequence di) xs j"
    using assms(1) by (auto simp: candidate_def)
  moreover from this have "shows_at (di_sequence di) xs c" "behind di1 xs (length xs) c"
    using assms(6) by (simp_all add: shows_at_def behind_def)
  ultimately have "c \<le> hi \<and> shows_at (di_sequence di1) xs c \<and> di_saved_key di' = euser (xs ! c) \<and>
      di_saved_value di' = snd (xs ! c) \<and> at xs (length xs) (di_iter di') \<and> behind di1 xs (length xs) c \<and>
      (\<forall>j. c < j \<and> j \<le> hi \<longrightarrow> \<not> shows_at (di_sequence di1) xs j)"
    using assms by simp
  then show ?thesis unfolding found_prev_def kTypeValue ValueType.case by blast
qed

lemma candidate_unseen:
  assumes "candidate t di xs (Suc i) hi" and "\<not> seen di xs i"
  shows "candidate t di xs i hi"
proof (cases t)
  case kTypeDeletion
  have "\<not> shows_at (di_sequence di) xs i" using assms(2) by (simp add: shows_at_def)
  then show ?thesis using assms(1) kTypeDeletion unfolding candidate_def by simp (metis not_less_eq_eq order_antisym)
next
  case kTypeValue
  have 1: "(\<forall>j. i \<le> j \<and> j < c \<longrightarrow> \<not> seen di xs j) \<longleftrightarrow> (\<forall>j. Suc i \<le> j \<and> j < c \<longrightarrow> \<not> seen di xs j)" for c
    using assms(2) by (metis Suc_leD not_less_eq_eq order_antisym)
  show ?thesis
    using assms(1) unfolding candidate_def kTypeValue ValueType.case 1 by (elim ex_forward conj_forward Suc_leD)
qed

lemma candidate_new:
  assumes ok: "entries_ok ucmp valid xs" and cand: "candidate t di xs (Suc i) hi" and i: "i < length xs" "i \<le> hi" and "seen di xs i"
    and pass: "\<not> (t \<noteq> kTypeDeletion \<and> ucmp (euser (xs ! i)) (di_saved_key di) < 0)"
  shows "\<forall>j. i < j \<and> j \<le> hi \<longrightarrow> \<not> shows_at (di_sequence di) xs j"
proof (cases t)
  case kTypeDeletion
  then show ?thesis using cand by (auto simp: candidate_def Suc_le_eq)
next
  case kTypeValue
  then obtain c where c: "i < c" "c \<le> hi" "c < length xs" "di_saved_key di = euser (xs ! c)"
      "\<forall>j. Suc i \<le> j \<and> j < c \<longrightarrow> \<not> seen di xs j" "\<forall>j. c < j \<and> j \<le> hi \<longrightarrow> \<not> shows_at (di_sequence di) xs j"
    using cand by (auto simp: candidate_def Suc_le_eq)
  note v = user_ok [OF ok i(1)] user_ok [OF ok c(3)]
  have "euser (xs ! i) = euser (xs ! c)"
    using pass kTypeValue c(1,4) user_less_iff [OF v user_order [OF ok _ c(3)], of] by auto
  then have "\<not> shows_at (di_sequence di) xs c" using c(1) assms(5) by (auto simp: shows_at_def)
  moreover have "\<not> shows_at (di_sequence di) xs j" if "i < j" "j < c" for j using c(5) that by (auto simp: shows_at_def)
  ultimately show ?thesis using c(6) by (metis linorder_less_linear)
qed

lemma found_prev_stop:
  assumes ok: "entries_ok ucmp valid xs" and cand: "candidate t di xs (Suc i) hi" and i: "i < length xs" and "at xs i (di_iter di')"
    and stop: "t \<noteq> kTypeDeletion" "ucmp (euser (xs ! i)) (di_saved_key di) < 0"
    and d: "di_saved_key di' = di_saved_key di" "di_saved_value di' = di_saved_value di" "di_sequence di1 = di_sequence di"
  shows "found_prev t di1 xs hi di'"
proof -
  have t: "t = kTypeValue" using stop(1) by (cases t) simp_all
  then obtain c where c: "i < c" "c \<le> hi" "c < length xs" "seen di xs c" "etype (xs ! c) = kTypeValue"
      "di_saved_key di = euser (xs ! c)" "di_saved_value di = snd (xs ! c)"
      "\<forall>j. Suc i \<le> j \<and> j < c \<longrightarrow> \<not> seen di xs j" "\<forall>j. c < j \<and> j \<le> hi \<longrightarrow> \<not> shows_at (di_sequence di) xs j"
    using cand by (auto simp: candidate_def Suc_le_eq)
  note v = user_ok [OF ok i] user_ok [OF ok c(3)]
  have "euser (xs ! j) \<noteq> euser (xs ! c)" if "j \<le> i" for j
    using user_order [OF ok that i] stop(2) c(6) user_not_le [OF v(2,1)] by auto
  then have "\<not> seen di xs j" if "j < c" "euser (xs ! j) = euser (xs ! c)" for j
    using that c(8) by (metis not_less_eq_eq)
  then have "shows_at (di_sequence di) xs c" using c(3-5) by (auto simp: shows_at_def)
  moreover have "behind di1 xs i c" using c(1,6,8) stop(2) d(3) by (simp add: behind_def Suc_le_eq)
  ultimately have "c \<le> hi \<and> shows_at (di_sequence di1) xs c \<and> di_saved_key di' = euser (xs ! c) \<and>
      di_saved_value di' = snd (xs ! c) \<and> at xs i (di_iter di') \<and> behind di1 xs i c \<and>
      (\<forall>j. c < j \<and> j \<le> hi \<longrightarrow> \<not> shows_at (di_sequence di1) xs j)"
    using c assms(4) d by simp
  then show ?thesis unfolding found_prev_def t ValueType.case by blast
qed

lemma candidate_update:
  "candidate t (di\<lparr>di_iter := s\<rparr>) xs b hi = candidate t di xs b hi"
  "candidate t (di\<lparr>di_bytes := x, di_gen := y\<rparr>) xs b hi = candidate t di xs b hi"
  by (cases t; simp add: candidate_def)+

lemma found_prev_cong: "di_sequence d = di_sequence di \<Longrightarrow> found_prev t d xs hi di' = found_prev t di xs hi di'"
  by (cases t) (simp_all add: found_prev_def behind_def)

lemma prev_loop_ok:
  assumes ok: "entries_ok ucmp valid xs"
  shows "at xs i (di_iter di) \<Longrightarrow> i < length xs \<Longrightarrow> i \<le> hi \<Longrightarrow> ready di \<Longrightarrow> wok k \<Longrightarrow> candidate t di xs (Suc i) hi \<Longrightarrow>
    \<exists>t' di' k'. prev_loop I ucmp sample t di k = Some (t', di', k') \<and> wok k' \<and> frame di di' \<and> found_prev t' di xs hi di'"
proof (induction i arbitrary: di k t rule: less_induct)
  case (less i)
  let ?s = "di_sequence di" and ?e = "xs ! i"
  obtain bytes r k1 where parse: "ParseKey I sample di k =
      Some (Some \<lparr>user_key = euser ?e, sequence = eseq ?e, vtype = etype ?e\<rparr>, di\<lparr>di_bytes := bytes, di_gen := r\<rparr>, k1)"
      "wok k1" "ready (di\<lparr>di_bytes := bytes, di_gen := r\<rparr>)"
    using ParseKey_ok [OF ok less.prems(1,2,4,5)] by blast
  let ?d = "di\<lparr>di_bytes := bytes, di_gen := r\<rparr>"
  have iter: "di_iter ?d = di_iter di" by simp
  obtain s' k2 where prv: "ip_Prev I (di_iter ?d) k1 = Some (s', k2)" "wok k2" "at xs (if i = 0 then length xs else i - 1) s'"
    using at_Prev [OF parse(2) less.prems(1,2)] unfolding iter by blast
  have go_on: "\<exists>t' di' k'. (if ip_Valid I s' then prev_loop I ucmp sample t1 (d1\<lparr>di_iter := s'\<rparr>) k2
        else Some (t1, d1\<lparr>di_iter := s'\<rparr>, k2)) = Some (t', di', k') \<and>
      wok k' \<and> frame di di' \<and> found_prev t' di xs hi di'"
    if d1: "d1 = ?d\<lparr>di_saved_key := sk, di_saved_value := sv\<rparr>" and cand: "candidate t1 d1 xs i hi" for d1 sk sv t1
  proof (cases i)
    case 0
    have "found_prev t1 di xs hi (d1\<lparr>di_iter := s'\<rparr>)"
      by (rule found_prev_end [OF cand [unfolded 0], of s']) (use prv(3) 0 in \<open>simp_all add: d1\<close>)
    then show ?thesis
      using at_Valid [OF prv(3)] 0 prv(2) parse(3) by (auto simp: frame_def ready_def d1)
  next
    case (Suc m)
    have d: "di_iter (d1\<lparr>di_iter := s'\<rparr>) = s'" "ready (d1\<lparr>di_iter := s'\<rparr>)" "candidate t1 (d1\<lparr>di_iter := s'\<rparr>) xs (Suc m) hi"
      using parse(3) cand Suc unfolding candidate_update by (simp_all add: d1 ready_def)
    obtain t' di' k' where "prev_loop I ucmp sample t1 (d1\<lparr>di_iter := s'\<rparr>) k2 = Some (t', di', k')" "wok k'"
        "frame (d1\<lparr>di_iter := s'\<rparr>) di'" "found_prev t' (d1\<lparr>di_iter := s'\<rparr>) xs hi di'"
      using less.IH [of m "d1\<lparr>di_iter := s'\<rparr>" k2 t1] d prv(2,3) less.prems(2,3) Suc by auto
    moreover have "found_prev t' (d1\<lparr>di_iter := s'\<rparr>) xs hi di' \<longleftrightarrow> found_prev t' di xs hi di'" for t' di'
      by (rule found_prev_cong) (simp add: d1)
    ultimately show ?thesis using at_Valid [OF prv(3)] Suc less.prems(2) by (auto simp: frame_def d1)
  qed
  have d_same: "?d = ?d\<lparr>di_saved_key := di_saved_key di, di_saved_value := di_saved_value di\<rparr>" by (cases di) simp
  have cand_d: "candidate t ?d xs b hi \<longleftrightarrow> candidate t di xs b hi" for b by (rule candidate_update)
  show ?case
  proof (cases "eseq ?e \<le> ?s")
    case unseen: False
    have run: "prev_loop I ucmp sample t di k =
        (if ip_Valid I s' then prev_loop I ucmp sample t (?d\<lparr>di_iter := s'\<rparr>) k2 else Some (t, ?d\<lparr>di_iter := s'\<rparr>, k2))"
      using unseen parse(1) prv(1) by (subst prev_loop.simps) simp
    have "candidate t ?d xs i hi" unfolding cand_d by (rule candidate_unseen [OF less.prems(6) unseen])
    then show ?thesis unfolding run by (rule go_on [OF d_same])
  next
    case seen: True
    show ?thesis
    proof (cases "t \<noteq> kTypeDeletion \<and> ucmp (euser ?e) (di_saved_key di) < 0")
      case stop: True
      have "prev_loop I ucmp sample t di k = Some (t, ?d, k1)"
        using stop seen parse(1) by (subst prev_loop.simps) simp
      moreover have "found_prev t di xs hi ?d"
        by (rule found_prev_stop [OF ok less.prems(6,2)]) (use stop less.prems(1) in simp_all)
      ultimately show ?thesis using parse(2,3) by (simp add: frame_def)
    next
      case pass: False
      note new = candidate_new [OF ok less.prems(6,2,3) seen pass]
      show ?thesis
      proof (cases "etype ?e")
        case kTypeDeletion
        let ?d1 = "?d\<lparr>di_saved_key := [], di_saved_value := []\<rparr>"
        have run: "prev_loop I ucmp sample t di k =
            (if ip_Valid I s' then prev_loop I ucmp sample kTypeDeletion (?d1\<lparr>di_iter := s'\<rparr>) k2
             else Some (kTypeDeletion, ?d1\<lparr>di_iter := s'\<rparr>, k2))"
          using pass seen kTypeDeletion parse(1) prv(1) by (subst prev_loop.simps) auto
        have "candidate kTypeDeletion ?d1 xs i hi"
          using new kTypeDeletion by (auto simp: candidate_def shows_at_def le_eq_less_or_eq)
        then show ?thesis unfolding run by (rule go_on [OF refl])
      next
        case kTypeValue
        let ?d1 = "?d\<lparr>di_saved_key := euser ?e, di_saved_value := snd ?e\<rparr>"
        have "ip_key I (di_iter di) = fst ?e" "ip_value I (di_iter di) = snd ?e" using below.at_entry [OF less.prems(1,2)] by simp_all
        then have run: "prev_loop I ucmp sample t di k =
            (if ip_Valid I s' then prev_loop I ucmp sample kTypeValue (?d1\<lparr>di_iter := s'\<rparr>) k2
             else Some (kTypeValue, ?d1\<lparr>di_iter := s'\<rparr>, k2))"
          using pass seen kTypeValue parse(1) prv(1) by (subst prev_loop.simps) (auto simp: euser_def)
        have "candidate kTypeValue ?d1 xs i hi"
          using new kTypeValue seen less.prems(2,3) by (auto simp: candidate_def intro!: exI [of _ i])
        then show ?thesis unfolding run by (rule go_on [OF refl])
      qed
    qed
  qed
qed

end

end
