(* ===== verification/LdbDbIterCursor.thy ===== *)
theory LdbDbIterCursor
  imports LdbDbIterProofs
begin

text \<open>
  The operations of the iterator of a database, and the contract of a cursor over \<open>view\<close> that they keep.
\<close>

lemma rank_takeWhile:
  assumes "p \<le> length xs" and "\<And>x. x < p \<Longrightarrow> shows_at s xs x \<Longrightarrow> P (euser (xs ! x), snd (xs ! x))"
    and "\<And>x. p \<le> x \<Longrightarrow> shows_at s xs x \<Longrightarrow> \<not> P (euser (xs ! x), snd (xs ! x))"
  shows "length (takeWhile P (view s xs)) = rank s xs p"
proof -
  let ?f = "\<lambda>i. (euser (xs ! i), snd (xs ! i))" and ?a = "filter (shows_at s xs) [0..<p]" and ?b = "filter (shows_at s xs) [p..<length xs]"
  have v: "view s xs = map ?f ?a @ map ?f ?b"
    unfolding view_def using filter_upt_split [OF assms(1), of "shows_at s xs"] by simp
  have "\<forall>e\<in>set (map ?f ?a). P e" using assms(2) by auto
  moreover have "takeWhile P (map ?f ?b) = []"
  proof (cases ?b)
    case (Cons y ys)
    then have "y \<in> set ?b" by simp
    then have "p \<le> y" "shows_at s xs y" by simp_all
    then show ?thesis using Cons assms(3) by simp
  qed simp
  ultimately have "takeWhile P (view s xs) = map ?f ?a" unfolding v by (rule takeWhile_exactly)
  then show ?thesis by (simp add: rank_def)
qed

lemma tag_seen:
  assumes "drop_bit 8 t \<le> s" and "t AND 0xFF \<le> 1" and "s \<le> kMaxSequenceNumber"
  shows "t \<le> PackSequenceAndType s kTypeValue"
proof -
  have "unat t = unat (drop_bit 8 t) * 256 + unat (t AND 0xFF)"
  proof -
    have "t AND 0xFF = take_bit 8 t" by (simp add: take_bit_eq_mask mask_eq_exp_minus_1)
    then have "unat (t AND 0xFF) = take_bit 8 (unat t)" by (simp add: unsigned_take_bit_eq)
    then have "unat (t AND 0xFF) = unat t mod 256" by (simp add: take_bit_eq_mod)
    moreover have "unat (drop_bit 8 t) = unat t div 256" by (simp add: drop_bit_eq_div unat_div)
    ultimately show ?thesis by simp
  qed
  moreover have "unat (drop_bit 8 t) \<le> unat s" using assms(1) by (simp add: word_le_nat_alt)
  moreover have "unat (t AND 0xFF) \<le> 1" using assms(2) by (simp add: word_le_nat_alt)
  ultimately show ?thesis by (simp add: word_le_nat_alt pack_parts(3) [OF assms(3)])
qed

context db_iterator
begin

section \<open>Forward\<close>

text \<open>The iterator is at the entry of rank \<open>m\<close> of the view, or not valid after the last.\<close>

definition shown_at :: "entry list \<Rightarrow> nat \<Rightarrow> 's db_iter \<Rightarrow> bool" where
  "shown_at xs m di \<longleftrightarrow> (\<exists>p. at xs p (di_iter di)) \<and>
     (m = length (view (di_sequence di) xs) \<and> \<not> di_valid di \<or>
      di_valid di \<and> (\<exists>i. shows_at (di_sequence di) xs i \<and> rank (di_sequence di) xs i = m \<and>
        (case di_direction di of
           kForward \<Rightarrow> at xs i (di_iter di)
         | kReverse \<Rightarrow> di_saved_key di = euser (xs ! i) \<and> di_saved_value di = snd (xs ! i) \<and>
             (\<exists>p. at xs p (di_iter di) \<and> behind di xs p i))))"

lemma found_next_shown:
  assumes "found_next b di xs q di'" and "q \<le> q'" and "q' \<le> length xs" and "frame di di'" and "di_direction di = kForward"
    and "\<And>x. q \<le> x \<Longrightarrow> shows_at (di_sequence di) xs x \<Longrightarrow> hidden b di xs x \<longleftrightarrow> x < q'"
  shows "shown_at xs (rank (di_sequence di) xs q') di'"
proof -
  let ?s = "di_sequence di"
  have d: "di_sequence di' = ?s" "di_direction di' = kForward" using assms(4,5) by (simp_all add: frame_def)
  consider (some) j where "next_shown b di xs q j" "di_valid di'" "at xs j (di_iter di')"
    | (none) "\<forall>x\<ge>q. \<not> (shows_at ?s xs x \<and> \<not> hidden b di xs x)" "\<not> di_valid di'" "\<exists>p. at xs p (di_iter di')"
    using assms(1) unfolding found_next_def by blast
  then show ?thesis
  proof cases
    case some
    then have j: "q \<le> j" "shows_at ?s xs j" "q' \<le> j" using assms(6) [of j] unfolding next_shown_def by auto
    have "rank ?s xs j = rank ?s xs q'"
    proof (rule rank_const [OF j(3)])
      fix x
      assume x: "q' \<le> x" "x < j"
      then show "\<not> shows_at ?s xs x" using some(1) assms(2) assms(6) [of x] unfolding next_shown_def by auto
    qed
    then show ?thesis using j(2) some(2,3) d unfolding shown_at_def by auto
  next
    case none
    have "rank ?s xs (length xs) = rank ?s xs q'"
      by (rule rank_const [OF assms(3)]) (use none(1) assms(2,6) in \<open>auto dest: order_trans\<close>)
    then show ?thesis using none(2,3) d unfolding shown_at_def rank_end by simp
  qed
qed

lemma can_skip_False:
  assumes "\<And>j j'. i \<le> j' \<Longrightarrow> j' < length xs \<Longrightarrow> j < i \<Longrightarrow> euser (xs ! j) = euser (xs ! j') \<Longrightarrow> \<not> seen di xs j"
  shows "can_skip False di xs i"
  using assms by (auto simp: can_skip_def)

text \<open>From the first entry that may be shown.\<close>

lemma find_first:
  assumes ok: "entries_ok ucmp valid xs" and "at xs p (di_iter di)" and "p < length xs" and "ready di" and "wok k" and "di_direction di = kForward"
    and "\<And>j j'. p \<le> j' \<Longrightarrow> j' < length xs \<Longrightarrow> j < p \<Longrightarrow> euser (xs ! j) = euser (xs ! j') \<Longrightarrow> \<not> seen di xs j"
  shows "\<exists>di' k'. FindNextUserEntry I ucmp sample False di k = Some (di', k') \<and> wok k' \<and> ready di' \<and>
    di_sequence di' = di_sequence di \<and> shown_at xs (rank (di_sequence di) xs p) di'"
proof -
  obtain di' k' where 1: "FindNextUserEntry I ucmp sample False di k = Some (di', k')" "wok k'" "frame di di'" "found_next False di xs p di'"
    using FindNextUserEntry_ok [OF ok assms(2-5) can_skip_False] assms(7) by blast
  have "shown_at xs (rank (di_sequence di) xs p) di'"
    by (rule found_next_shown [OF 1(4) order_refl _ 1(3) assms(6)]) (use assms(3) in \<open>auto simp: hidden_def\<close>)
  then show ?thesis using 1 by (simp add: frame_def)
qed

text \<open>After the entries of the user key of a shown entry.\<close>

lemma find_after:
  assumes ok: "entries_ok ucmp valid xs" and i: "shows_at (di_sequence di) xs i" and saved: "di_saved_key di = euser (xs ! i)"
    and q: "at xs q (di_iter di)" "q \<le> i" "\<And>j. q \<le> j \<Longrightarrow> j < i \<Longrightarrow> \<not> seen di xs j"
      "\<And>j. j < q \<Longrightarrow> ucmp (euser (xs ! j)) (euser (xs ! i)) \<le> 0"
    and "ready di" and "wok k" and "di_direction di = kForward"
  shows "\<exists>di' k'. FindNextUserEntry I ucmp sample True di k = Some (di', k') \<and> wok k' \<and> ready di' \<and>
    di_sequence di' = di_sequence di \<and> shown_at xs (Suc (rank (di_sequence di) xs i)) di'"
proof -
  have il: "i < length xs" using i by (simp add: shows_at_def)
  note vi = user_ok [OF ok il]
  have skip: "can_skip True di xs q"
    unfolding can_skip_def hidden_def saved
  proof (intro conjI impI allI; (elim conjE)?)
    show "valid (euser (xs ! i))" by (rule vi)
    show "ucmp (euser (xs ! i)) (euser (xs ! j)) \<le> 0" if "q \<le> j" "j < length xs" "seen di xs j" for j
      using user_order [OF ok, of i j] q(3) [of j] that by (cases "j < i") auto
    show "\<not> seen di xs j"
      if "j' < length xs" "\<not> (True \<and> ucmp (euser (xs ! j')) (euser (xs ! i)) \<le> 0)" "j < q" "euser (xs ! j) = euser (xs ! j')" for j j'
      using q(4) [of j] that by simp
  qed
  have hid: "hidden True di xs x \<longleftrightarrow> x < Suc i" if "q \<le> x" "shows_at (di_sequence di) xs x" for x
  proof -
    have xl: "x < length xs" using that by (simp add: shows_at_def)
    show ?thesis
    proof (cases "x \<le> i")
      case True
      then show ?thesis using user_order [OF ok True il] by (simp add: hidden_def saved)
    next
      case False
      then have "euser (xs ! x) \<noteq> euser (xs ! i)" using that(2) i by (auto simp: shows_at_def)
      then have "\<not> ucmp (euser (xs ! x)) (euser (xs ! i)) \<le> 0"
        using user_antisym [OF user_ok [OF ok xl] vi] user_order [OF ok, of i x] False xl by auto
      then show ?thesis using False by (simp add: hidden_def saved)
    qed
  qed
  obtain di' k' where 1: "FindNextUserEntry I ucmp sample True di k = Some (di', k')" "wok k'" "frame di di'" "found_next True di xs q di'"
    using FindNextUserEntry_ok [OF ok q(1) _ assms(8,9) skip] il q(2) by auto
  have "shown_at xs (rank (di_sequence di) xs (Suc i)) di'"
    by (rule found_next_shown [OF 1(4) _ _ 1(3) assms(10) hid]) (use q(2) il in simp_all)
  then show ?thesis using 1 i by (simp add: frame_def rank_Suc)
qed

section \<open>Backward\<close>

text \<open>The entry before the one of rank \<open>m\<close>, in either case of \<open>Prev\<close>, and for \<open>SeekToLast\<close>.\<close>

lemma find_before:
  assumes ok: "entries_ok ucmp valid xs" and p: "at xs p (di_iter di)" and "i \<le> length xs"
    and before: "p = length xs \<and> (\<forall>j<i. \<not> shows_at (di_sequence di) xs j) \<or>
      p < i \<and> (\<forall>j. p < j \<and> j < i \<longrightarrow> \<not> shows_at (di_sequence di) xs j)"
    and "ready di" and "wok k" and "di_direction di = kReverse"
  defines "m \<equiv> rank (di_sequence di) xs i"
  shows "\<exists>di' k'. FindPrevUserEntry I ucmp sample di k = Some (di', k') \<and> wok k' \<and> ready di' \<and>
    di_sequence di' = di_sequence di \<and> shown_at xs (if m = 0 then length (view (di_sequence di) xs) else m - 1) di'"
proof -
  let ?s = "di_sequence di"
  have none: "\<exists>di' k'. FindPrevUserEntry I ucmp sample di k = Some (di', k') \<and> wok k' \<and> ready di' \<and>
      di_sequence di' = ?s \<and> shown_at xs (if m = 0 then length (view ?s xs) else m - 1) di'"
    if no: "\<forall>j<i. \<not> shows_at ?s xs j"
      and run: "FindPrevUserEntry I ucmp sample di k =
        Some (d\<lparr>di_valid := False, di_saved_key := [], di_saved_value := [], di_direction := kForward\<rparr>, k1)"
      and d: "wok k1" "ready d" "di_sequence d = ?s" "\<exists>p. at xs p (di_iter d)" for d k1
  proof -
    have "m = rank ?s xs 0" unfolding m_def by (rule rank_const) (use no in auto)
    then show ?thesis using run d by (simp add: shown_at_def ready_def)
  qed
  show ?thesis
  proof (cases "p < length xs")
    case False
    then have "\<not> ip_Valid I (di_iter di)" "\<forall>j<i. \<not> shows_at ?s xs j" using at_Valid [OF p] before assms(3) by auto
    moreover have "\<exists>p. at xs p (di_iter di)" using p by blast
    ultimately show ?thesis using none [of di k] assms(5,6) by (simp add: FindPrevUserEntry_def)
  next
    case pl: True
    then have pi: "p < i" "\<forall>j. p < j \<and> j < i \<longrightarrow> \<not> shows_at ?s xs j" using before by auto
    have cand: "candidate kTypeDeletion di xs (Suc p) p" by (auto simp: candidate_def)
    obtain t d k1 where loop: "prev_loop I ucmp sample kTypeDeletion di k = Some (t, d, k1)" "wok k1" "frame di d" "found_prev t di xs p d"
      using prev_loop_ok [OF ok p pl order_refl assms(5,6) cand] by blast
    have d: "ready d" "di_sequence d = ?s" "di_direction d = kReverse" using loop(3) assms(7) by (simp_all add: frame_def)
    have run: "FindPrevUserEntry I ucmp sample di k =
        Some (if t = kTypeDeletion then d\<lparr>di_valid := False, di_saved_key := [], di_saved_value := [], di_direction := kForward\<rparr>
              else d\<lparr>di_valid := True\<rparr>, k1)"
      using loop(1) at_Valid [OF p] pl by (simp add: FindPrevUserEntry_def)
    show ?thesis
    proof (cases t)
      case kTypeDeletion
      then have "\<forall>j\<le>p. \<not> shows_at ?s xs j" "\<exists>p. at xs p (di_iter d)" using loop(4) by (simp_all add: found_prev_def)
      then have "\<forall>j<i. \<not> shows_at ?s xs j" using pi(2) by (metis linorder_not_less)
      then show ?thesis
        by (rule none [of d k1]) (use run kTypeDeletion loop(2) d \<open>\<exists>p. at xs p (di_iter d)\<close> in simp_all)
    next
      case kTypeValue
      then obtain c q where c: "c \<le> p" "shows_at ?s xs c" "di_saved_key d = euser (xs ! c)" "di_saved_value d = snd (xs ! c)"
          "at xs q (di_iter d)" "behind di xs q c" "\<forall>j. c < j \<and> j \<le> p \<longrightarrow> \<not> shows_at ?s xs j"
        using loop(4) unfolding found_prev_def kTypeValue ValueType.case by blast
      have "m = rank ?s xs (Suc c)"
        unfolding m_def
      proof (rule rank_const)
        show "\<not> shows_at ?s xs x" if "Suc c \<le> x" "x < i" for x
          using c(7) pi(2) that by (cases "x \<le> p") (simp_all add: Suc_le_eq)
      qed (use c(1) pi(1) in simp)
      then have "m = Suc (rank ?s xs c)" using c(2) by (simp add: rank_Suc)
      moreover have "behind (d\<lparr>di_valid := True\<rparr>) xs q c" using c(6) d(2) by (simp add: behind_def)
      ultimately have "shown_at xs (m - 1) (d\<lparr>di_valid := True\<rparr>)"
        using c(2-5) d(2,3) unfolding shown_at_def by auto
      then show ?thesis using run kTypeValue loop(2) d \<open>m = Suc (rank ?s xs c)\<close> by (simp add: ready_def)
    qed
  qed
qed

text \<open>Back over the entries of the current user key.\<close>

lemma before_key_ok:
  assumes ok: "entries_ok ucmp valid xs" and i0: "i0 < length xs"
  shows "at xs i s \<Longrightarrow> i \<le> i0 \<Longrightarrow> wok k \<Longrightarrow> (\<forall>j. i \<le> j \<and> j \<le> i0 \<longrightarrow> euser (xs ! j) = euser (xs ! i0)) \<Longrightarrow>
    \<exists>s' k' p. before_key I ucmp (euser (xs ! i0)) s k = Some (s', k') \<and> wok k' \<and> at xs p s' \<and>
      (p = length xs \<and> (\<forall>j\<le>i0. euser (xs ! j) = euser (xs ! i0)) \<or>
       p < i0 \<and> ucmp (euser (xs ! p)) (euser (xs ! i0)) < 0 \<and> (\<forall>j. p < j \<and> j \<le> i0 \<longrightarrow> euser (xs ! j) = euser (xs ! i0)))"
proof (induction i arbitrary: s k)
  case 0
  have "0 < length xs" by (rule le_less_trans [OF _ i0]) simp
  from at_Prev [OF 0(3,1) this] obtain s' k' where s': "ip_Prev I s k = Some (s', k')" "wok k'" "at xs (length xs) s'" by auto
  then have "before_key I ucmp (euser (xs ! i0)) s k = Some (s', k')"
    using at_Valid [OF s'(3)] by (subst before_key.simps) simp
  moreover have "\<forall>j\<le>i0. euser (xs ! j) = euser (xs ! i0)" using 0(4) by blast
  ultimately show ?case using s'(2,3) by blast
next
  case (Suc i)
  obtain s' k' where s': "ip_Prev I s k = Some (s', k')" "wok k'" "at xs i s'"
    using at_Prev [OF Suc.prems(3,1)] i0 Suc.prems(2) by auto
  have il: "i < length xs" using Suc.prems(2) i0 by simp
  have valid: "ip_Valid I s'" "ExtractUserKey (ip_key I s') = euser (xs ! i)"
    using at_Valid [OF s'(3)] il below.at_entry [OF s'(3) il] by (simp_all add: euser_def)
  show ?case
  proof (cases "ucmp (euser (xs ! i)) (euser (xs ! i0)) < 0")
    case True
    then have "before_key I ucmp (euser (xs ! i0)) s k = Some (s', k')"
      using s'(1) valid by (subst before_key.simps) simp
    moreover have "i < i0" "\<forall>j. i < j \<and> j \<le> i0 \<longrightarrow> euser (xs ! j) = euser (xs ! i0)"
      using Suc.prems(2,4) unfolding Suc_le_eq by blast+
    ultimately show ?thesis using s'(2,3) True by blast
  next
    case False
    then have same: "euser (xs ! i) = euser (xs ! i0)"
      using user_less_iff [OF user_ok [OF ok il] user_ok [OF ok i0] user_order [OF ok _ i0]] Suc.prems(2) by auto
    have "before_key I ucmp (euser (xs ! i0)) s k = before_key I ucmp (euser (xs ! i0)) s' k'"
      using s'(1) valid False by (subst before_key.simps) simp
    moreover have all: "\<forall>j. i \<le> j \<and> j \<le> i0 \<longrightarrow> euser (xs ! j) = euser (xs ! i0)"
      using same Suc.prems(4) by (metis le_antisym not_less_eq_eq)
    have "i \<le> i0" using Suc.prems(2) by simp
    note Suc.IH [OF s'(3) this s'(2) all]
    ultimately show ?thesis by (simp only:)
  qed
qed

section \<open>The contract\<close>

definition dpos :: "entry list \<Rightarrow> nat \<Rightarrow> 's db_iter \<Rightarrow> bool" where
  "dpos ys m di \<longleftrightarrow>
     (\<exists>xs. entries_ok ucmp valid xs \<and> ys = view (di_sequence di) xs \<and> shown_at xs m di) \<and> ready di \<and> di_sequence di \<le> kMaxSequenceNumber"

lemma dposI:
  "entries_ok ucmp valid xs \<Longrightarrow> shown_at xs m di \<Longrightarrow> ready di \<Longrightarrow> di_sequence di = s \<Longrightarrow> s \<le> kMaxSequenceNumber \<Longrightarrow> dpos (view s xs) m di"
  by (auto simp: dpos_def)

lemma di_Seek_pos:
  assumes ok: "entries_ok ucmp valid xs" and p: "at xs p (di_iter di)" and "ready di" and s: "di_sequence di \<le> kMaxSequenceNumber" and k: "wok k"
    and target': "key_ok target"
  shows "\<exists>di' k'. di_Seek I ucmp sample target di k = Some (di', k') \<and> wok k' \<and>
    dpos (view (di_sequence di) xs) (list_op ucmp (view (di_sequence di) xs) (Seek_to target) m) di'"
proof -
  let ?s = "di_sequence di"
  note target = key_ok [OF target']
  define ikey where "ikey = AppendInternalKey [] \<lparr>user_key = target, sequence = ?s, vtype = kValueTypeForSeek\<rparr>"
  have ikey: "ExtractUserKey ikey = target" "tag ikey = PackSequenceAndType ?s kTypeValue" "8 \<le> length ikey"
    by (simp_all add: ikey_def AppendInternalKey_parts InternalKeyEncodingLength_def)
  define q where "q = length (takeWhile (\<lambda>kv. InternalCompare ucmp (fst kv) ikey < 0) xs)"
  obtain it k1 where it: "ip_Seek I ikey (di_iter di) k = Some (it, k1)" "wok k1" "at xs q it"
    using below.seek [OF k p, of ikey] ikey target' by (auto simp: q_def list_op_def)
  have ql: "q \<le> length xs" by (simp add: q_def length_takeWhile_le)
  have below: "InternalCompare ucmp (fst (xs ! j)) ikey < 0" if "j < q" for j
    using that set_takeWhileD [of "xs ! j" "\<lambda>kv. InternalCompare ucmp (fst kv) ikey < 0" xs]
      nth_mem [of j "takeWhile (\<lambda>kv. InternalCompare ucmp (fst kv) ikey < 0) xs"] takeWhile_nth [of j _ xs]
    unfolding q_def by metis
  have lo: "ucmp (euser (xs ! j)) target < 0" if "j < q" "seen di xs j" for j
  proof (rule ccontr)
    assume not: "\<not> ucmp (euser (xs ! j)) target < 0"
    have "entry_ok valid (xs ! j)" using ok that(1) ql by (simp add: entries_ok_def list_all_length)
    then have "tag (fst (xs ! j)) \<le> tag ikey"
      using tag_seen [OF _ _ s, of "tag (fst (xs ! j))"] that(2) by (simp add: eseq_def ikey entry_ok_def)
    then show False using below [OF that(1)] not ikey(1) by (auto simp: InternalCompare_tag Let_def euser_def split: if_splits)
  qed
  have le: "ucmp (euser (xs ! j)) target \<le> 0" if "j < q" for j
    using below [OF that] ikey(1) by (auto simp: InternalCompare_tag Let_def euser_def split: if_splits)
  have hi: "\<not> ucmp (euser (xs ! j)) target < 0" if "q \<le> j" "j < length xs" for j
  proof
    assume less: "ucmp (euser (xs ! j)) target < 0"
    have q: "q < length xs" using that by simp
    have "\<not> InternalCompare ucmp (fst (xs ! q)) ikey < 0" using nth_length_takeWhile [of _ xs] q unfolding q_def by blast
    then have "\<not> ucmp (euser (xs ! q)) target < 0"
      using ikey(1) by (auto simp: InternalCompare_tag Let_def euser_def split: if_splits)
    then show False
      using less cmp_le_trans user_order [OF ok that] user_ok [OF ok q] user_ok [OF ok that(2)] target
      by (metis cmp_eq cmp_trans order_le_less)
  qed
  have rank: "length (takeWhile (\<lambda>kv. ucmp (fst kv) target < 0) (view ?s xs)) = rank ?s xs q"
    by (rule rank_takeWhile [OF ql]) (use lo hi in \<open>auto simp: shows_at_def\<close>)
  define di1 where "di1 = di\<lparr>di_direction := kForward, di_saved_value := [], di_saved_key := ikey, di_iter := it\<rparr>"
  have d1: "di_iter di1 = it" "ready di1" "di_direction di1 = kForward" "di_sequence di1 = ?s"
    using assms(3) by (simp_all add: di1_def ready_def)
  have run: "di_Seek I ucmp sample target di k =
      (if ip_Valid I it then FindNextUserEntry I ucmp sample False di1 k1 else Some (di1\<lparr>di_valid := False\<rparr>, k1))"
    using it(1) by (simp add: di_Seek_def Let_def ikey_def di1_def)
  show ?thesis
  proof (cases "q < length xs")
    case True
    have "\<not> seen di1 xs j" if "q \<le> j'" "j' < length xs" "j < q" "euser (xs ! j) = euser (xs ! j')" for j j'
      using hi [OF that(1,2)] lo [OF that(3)] that(4) d1(4) by auto
    then show ?thesis
      using find_first [OF ok, of q di1 k1] it d1 True at_Valid [OF it(3)] s dposI [OF ok _ _ _ s]
      unfolding run list_op_def cursor_op.case rank by auto
  next
    case False
    then have "q = length xs" using ql by simp
    then have "shown_at xs (rank ?s xs q) (di1\<lparr>di_valid := False\<rparr>)"
      using it(3) d1 by (auto simp: shown_at_def rank_end)
    then show ?thesis
      using it d1 False at_Valid [OF it(3)] dposI [OF ok, of _ "di1\<lparr>di_valid := False\<rparr>" ?s] s
      unfolding run list_op_def cursor_op.case rank by (auto simp: ready_def)
  qed
qed

lemma di_SeekToFirst_pos:
  assumes ok: "entries_ok ucmp valid xs" and p: "at xs p (di_iter di)" and "ready di" and s: "di_sequence di \<le> kMaxSequenceNumber" and k: "wok k"
  shows "\<exists>di' k'. di_SeekToFirst I ucmp sample di k = Some (di', k') \<and> wok k' \<and> dpos (view (di_sequence di) xs) 0 di'"
proof -
  obtain it k1 where it: "ip_SeekToFirst I (di_iter di) k = Some (it, k1)" "wok k1" "at xs 0 it"
    using below.first [OF k p] by (auto simp: list_op_def)
  define di1 where "di1 = di\<lparr>di_direction := kForward, di_saved_value := [], di_iter := it\<rparr>"
  have d1: "di_iter di1 = it" "ready di1" "di_direction di1 = kForward" "di_sequence di1 = di_sequence di"
    using assms(3) by (simp_all add: di1_def ready_def)
  have run: "di_SeekToFirst I ucmp sample di k =
      (if ip_Valid I it then FindNextUserEntry I ucmp sample False di1 k1 else Some (di1\<lparr>di_valid := False\<rparr>, k1))"
    using it(1) by (simp add: di_SeekToFirst_def Let_def di1_def)
  show ?thesis
  proof (cases "0 < length xs")
    case True
    then show ?thesis
      using find_first [OF ok, of 0 di1 k1] it d1 at_Valid [OF it(3)] dposI [OF ok _ _ _ s]
      unfolding run by auto
  next
    case False
    then have "shown_at xs 0 (di1\<lparr>di_valid := False\<rparr>)" using it(3) d1 by (auto simp: shown_at_def view_def)
    then show ?thesis
      using it d1 False at_Valid [OF it(3)] dposI [OF ok, of 0 "di1\<lparr>di_valid := False\<rparr>"] s
      unfolding run by (auto simp: ready_def)
  qed
qed

lemma di_SeekToLast_pos:
  assumes ok: "entries_ok ucmp valid xs" and p: "at xs p (di_iter di)" and "ready di" and s: "di_sequence di \<le> kMaxSequenceNumber" and k: "wok k"
  shows "\<exists>di' k'. di_SeekToLast I ucmp sample di k = Some (di', k') \<and> wok k' \<and>
    dpos (view (di_sequence di) xs) (list_op ucmp (view (di_sequence di) xs) To_last m) di'"
proof -
  define q where "q = (if xs = [] then 0 else length xs - 1)"
  obtain it k1 where it: "ip_SeekToLast I (di_iter di) k = Some (it, k1)" "wok k1" "at xs q it"
    using below.last [OF k p] by (auto simp: list_op_def q_def)
  define di1 where "di1 = di\<lparr>di_direction := kReverse, di_saved_value := [], di_iter := it\<rparr>"
  have d1: "di_iter di1 = it" "ready di1" "di_direction di1 = kReverse" "di_sequence di1 = di_sequence di"
    using assms(3) by (simp_all add: di1_def ready_def)
  have run: "di_SeekToLast I ucmp sample di k = FindPrevUserEntry I ucmp sample di1 k1"
    using it(1) by (simp add: di_SeekToLast_def Let_def di1_def)
  have "q = length xs \<and> (\<forall>j<length xs. \<not> shows_at (di_sequence di1) xs j) \<or>
      q < length xs \<and> (\<forall>j. q < j \<and> j < length xs \<longrightarrow> \<not> shows_at (di_sequence di1) xs j)"
    unfolding q_def by (cases "xs = []") auto
  from find_before [OF ok _ order_refl this d1(2) it(2) d1(3)] it(3) d1 show ?thesis
    using dposI [OF ok _ _ _ s] unfolding run list_op_def cursor_op.case rank_end by auto
qed

lemma di_Next_pos:
  assumes ok: "entries_ok ucmp valid xs" and m: "shown_at xs m di" and v: "di_valid di" and "ready di" and s: "di_sequence di \<le> kMaxSequenceNumber" and k: "wok k"
  shows "\<exists>di' k'. di_Next I ucmp sample di k = Some (di', k') \<and> wok k' \<and> dpos (view (di_sequence di) xs) (Suc m) di'"
proof (cases "di_direction di")
  case kForward
  then obtain i where i: "shows_at (di_sequence di) xs i" "rank (di_sequence di) xs i = m" "at xs i (di_iter di)"
    using m v by (auto simp: shown_at_def)
  have il: "i < length xs" using i(1) by (simp add: shows_at_def)
  let ?d = "di\<lparr>di_saved_key := euser (xs ! i)\<rparr>"
  have d: "di_iter ?d = di_iter di" "ready ?d" "di_direction ?d = kForward" "di_sequence ?d = di_sequence di" "di_saved_key ?d = euser (xs ! i)"
    using assms(4) kForward by (simp_all add: ready_def)
  have run: "di_Next I ucmp sample di k = FindNextUserEntry I ucmp sample True ?d k"
    using kForward below.at_entry [OF i(3) il] by (simp add: di_Next_def euser_def)
  have "\<exists>di' k'. FindNextUserEntry I ucmp sample True ?d k = Some (di', k') \<and> wok k' \<and> ready di' \<and>
      di_sequence di' = di_sequence ?d \<and> shown_at xs (Suc (rank (di_sequence ?d) xs i)) di'"
    by (rule find_after [OF ok, where q = i])
      (unfold d, rule i(1), rule refl, rule i(3), use k d(2) user_order [OF ok less_imp_le il] in simp_all)
  then show ?thesis using dposI [OF ok _ _ _ s] i(2) unfolding run d(4) by auto
next
  case kReverse
  then obtain i p where i: "shows_at (di_sequence di) xs i" "rank (di_sequence di) xs i = m"
      "di_saved_key di = euser (xs ! i)" "at xs p (di_iter di)" "behind di xs p i"
    using m v by (auto simp: shown_at_def)
  have il: "i < length xs" using i(1) by (simp add: shows_at_def)
  define q where "q = (if p < i then Suc p else 0)"
  have q: "q \<le> i" "\<And>j. q \<le> j \<Longrightarrow> j < i \<Longrightarrow> \<not> seen di xs j" "\<And>j. j < q \<Longrightarrow> ucmp (euser (xs ! j)) (euser (xs ! i)) \<le> 0"
    using i(5) il user_order [OF ok _ il] by (auto simp: q_def behind_def)
  obtain it k1 where it: "(if \<not> ip_Valid I (di_iter di) then ip_SeekToFirst I (di_iter di) k else ip_Next I (di_iter di) k) = Some (it, k1)"
      "wok k1" "at xs q it"
  proof (cases "p < i")
    case True
    then show ?thesis using that at_Next [OF k i(4)] at_Valid [OF i(4)] il by (auto simp: q_def)
  next
    case False
    then have "p = length xs" using i(5) by (auto simp: behind_def)
    then show ?thesis using that below.first [OF k i(4)] at_Valid [OF i(4)] il by (auto simp: q_def list_op_def)
  qed
  let ?d = "di\<lparr>di_direction := kForward, di_iter := it\<rparr>"
  have d: "di_iter ?d = it" "ready ?d" "di_direction ?d = kForward" "di_sequence ?d = di_sequence di" "di_saved_key ?d = euser (xs ! i)"
    using assms(4) i(3) by (simp_all add: ready_def)
  have "ip_Valid I it" using at_Valid [OF it(3)] q(1) il by simp
  then have run: "di_Next I ucmp sample di k = FindNextUserEntry I ucmp sample True ?d k1"
    using kReverse it(1) by (cases "ip_Valid I (di_iter di)") (simp_all add: di_Next_def Let_def)
  have "\<exists>di' k'. FindNextUserEntry I ucmp sample True ?d k1 = Some (di', k') \<and> wok k' \<and> ready di' \<and>
      di_sequence di' = di_sequence ?d \<and> shown_at xs (Suc (rank (di_sequence ?d) xs i)) di'"
    by (rule find_after [OF ok, where q = q]) (unfold d, rule i(1), rule refl, rule it(3), use q it(2) d(2) in simp_all)
  then show ?thesis using dposI [OF ok _ _ _ s] i(2) unfolding run d(4) by auto
qed

lemma di_Prev_pos:
  assumes ok: "entries_ok ucmp valid xs" and m: "shown_at xs m di" and v: "di_valid di" and "ready di" and s: "di_sequence di \<le> kMaxSequenceNumber" and k: "wok k"
  shows "\<exists>di' k'. di_Prev I ucmp sample di k = Some (di', k') \<and> wok k' \<and>
    dpos (view (di_sequence di) xs) (if m = 0 then length (view (di_sequence di) xs) else m - 1) di'"
proof (cases "di_direction di")
  case kForward
  then obtain i where i: "shows_at (di_sequence di) xs i" "rank (di_sequence di) xs i = m" "at xs i (di_iter di)"
    using m v by (auto simp: shown_at_def)
  have il: "i < length xs" using i(1) by (simp add: shows_at_def)
  obtain it k1 p where it: "before_key I ucmp (euser (xs ! i)) (di_iter di) k = Some (it, k1)" "wok k1" "at xs p it"
      and p: "p = length xs \<and> (\<forall>j\<le>i. euser (xs ! j) = euser (xs ! i)) \<or>
       p < i \<and> ucmp (euser (xs ! p)) (euser (xs ! i)) < 0 \<and> (\<forall>j. p < j \<and> j \<le> i \<longrightarrow> euser (xs ! j) = euser (xs ! i))"
  proof -
    have "\<forall>j. i \<le> j \<and> j \<le> i \<longrightarrow> euser (xs ! j) = euser (xs ! i)" by (auto dest: order_antisym)
    from before_key_ok [OF ok il i(3) order_refl k this] show ?thesis using that by blast
  qed
  let ?d = "di\<lparr>di_saved_key := euser (xs ! i), di_iter := it\<rparr>"
  have run: "di_Prev I ucmp sample di k =
      (if \<not> ip_Valid I it then Some (?d\<lparr>di_valid := False, di_saved_key := [], di_saved_value := []\<rparr>, k1)
       else FindPrevUserEntry I ucmp sample (?d\<lparr>di_direction := kReverse\<rparr>) k1)"
    using kForward it(1) below.at_entry [OF i(3) il] by (simp add: di_Prev_def Let_def euser_def)
  have older: "\<not> shows_at (di_sequence di) xs j" if "j < i" "euser (xs ! j) = euser (xs ! i)" for j
    using i(1) that by (auto simp: shows_at_def)
  consider (start) "p = length xs" "\<forall>j\<le>i. euser (xs ! j) = euser (xs ! i)"
    | (middle) "p < i" "\<forall>j. p < j \<and> j \<le> i \<longrightarrow> euser (xs ! j) = euser (xs ! i)"
    using p by blast
  then show ?thesis
  proof cases
    case start
    then have False: "\<not> p < length xs" by simp
    have "\<not> shows_at (di_sequence di) xs j" if "j < i" for j
      by (rule older [OF that]) (rule start(2) [rule_format, OF less_imp_le [OF that]])
    then have "rank (di_sequence di) xs i = rank (di_sequence di) xs 0" by (intro rank_const) auto
    moreover have "shown_at xs (length (view (di_sequence di) xs)) (?d\<lparr>di_valid := False, di_saved_key := [], di_saved_value := []\<rparr>)"
      using it(3) by (auto simp: shown_at_def)
    ultimately show ?thesis
      using dposI [OF ok _ _ _ s] at_Valid [OF it(3)] False it(2) i(2) assms(4) unfolding run by (simp add: ready_def)
  next
    case middle
    then have True: "p < length xs" using il by simp
    have "\<not> shows_at (di_sequence di) xs j" if "p < j" "j < i" for j
      by (rule older [OF that(2)]) (rule middle(2) [rule_format], use that in simp)
    then have "p < i \<and> (\<forall>j. p < j \<and> j < i \<longrightarrow> \<not> shows_at (di_sequence di) xs j)" using middle(1) by blast
    then show ?thesis
      using find_before [OF ok, of p "?d\<lparr>di_direction := kReverse\<rparr>" i k1] it il assms(4) at_Valid [OF it(3)] True i(2)
        dposI [OF ok _ _ _ s]
      unfolding run by (auto simp: ready_def)
  qed
next
  case kReverse
  then obtain i p where i: "shows_at (di_sequence di) xs i" "rank (di_sequence di) xs i = m" "at xs p (di_iter di)" "behind di xs p i"
    using m v by (auto simp: shown_at_def)
  have il: "i < length xs" using i(1) by (simp add: shows_at_def)
  have "p = length xs \<and> (\<forall>j<i. \<not> shows_at (di_sequence di) xs j) \<or>
      p < i \<and> (\<forall>j. p < j \<and> j < i \<longrightarrow> \<not> shows_at (di_sequence di) xs j)"
    using i(4) unfolding behind_def shows_at_def by blast
  from find_before [OF ok i(3) _ this assms(4) k kReverse] il show ?thesis
    using dposI [OF ok _ _ _ s] kReverse i(2) by (auto simp: di_Prev_def)
qed

lemma shown_rank: "shown_at xs m di \<Longrightarrow> m \<le> length (view (di_sequence di) xs) \<and> (di_valid di \<longleftrightarrow> m < length (view (di_sequence di) xs))"
  using view_rank(1) by (auto simp: shown_at_def intro: less_imp_le)

lemma shown_entry:
  assumes "shown_at xs m di" and "di_valid di"
  shows "di_key I di = fst (view (di_sequence di) xs ! m) \<and> di_value I di = snd (view (di_sequence di) xs ! m)"
proof -
  obtain i where i: "shows_at (di_sequence di) xs i" "rank (di_sequence di) xs i = m"
      "di_direction di = kForward \<and> at xs i (di_iter di) \<or>
       di_direction di = kReverse \<and> di_saved_key di = euser (xs ! i) \<and> di_saved_value di = snd (xs ! i)"
    using assms by (cases "di_direction di") (auto simp: shown_at_def)
  have il: "i < length xs" using i(1) by (simp add: shows_at_def)
  show ?thesis
    using i(3) view_rank(2) [OF i(1)] i(2) below.at_entry [of xs i "di_iter di"] il
    by (auto simp: di_key_def di_value_def euser_def)
qed

lemma db_cursor: "cursor (DBIter I ucmp sample) ucmp key_ok wok dpos"
proof (unfold_locales)
  fix ys m di k
  assume pos: "dpos ys m di"
  then obtain xs where xs: "entries_ok ucmp valid xs" "shown_at xs m di" "ready di" "di_sequence di \<le> kMaxSequenceNumber"
      and ys: "ys = view (di_sequence di) xs"
    by (auto simp: dpos_def)
  from xs(2) obtain p where p: "at xs p (di_iter di)" by (auto simp: shown_at_def)
  note rank = shown_rank [OF xs(2), folded ys]
  show "m \<le> length ys \<and> (ip_Valid (DBIter I ucmp sample) di \<longleftrightarrow> m < length ys)" using rank by (simp add: DBIter_def)
  show "ip_status (DBIter I ucmp sample) di = OK"
    using xs(3) below.status [OF p] by (simp add: DBIter_def DBIter_status_def ready_def)
  show "ip_key (DBIter I ucmp sample) di = fst (ys ! m) \<and> ip_value (DBIter I ucmp sample) di = snd (ys ! m)" if "m < length ys"
    using shown_entry [OF xs(2)] rank that by (simp add: DBIter_def ys)
  assume k: "wok k"
  show "\<exists>s' k'. ip_Seek (DBIter I ucmp sample) target di k = Some (s', k') \<and> wok k' \<and> dpos ys (list_op ucmp ys (Seek_to target) m) s'"
    if "key_ok target" for target
    using di_Seek_pos [OF xs(1) p xs(3,4) k that] by (simp add: DBIter_def ys)
  show "\<exists>s' k'. ip_SeekToFirst (DBIter I ucmp sample) di k = Some (s', k') \<and> wok k' \<and> dpos ys (list_op ucmp ys To_first m) s'"
    using di_SeekToFirst_pos [OF xs(1) p xs(3,4) k] by (simp add: DBIter_def ys list_op_def)
  show "\<exists>s' k'. ip_SeekToLast (DBIter I ucmp sample) di k = Some (s', k') \<and> wok k' \<and> dpos ys (list_op ucmp ys To_last m) s'"
    using di_SeekToLast_pos [OF xs(1) p xs(3,4) k] by (simp add: DBIter_def ys)
  show "\<exists>s' k'. ip_Next (DBIter I ucmp sample) di k = Some (s', k') \<and> wok k' \<and> dpos ys (list_op ucmp ys Forward m) s'" if "m < length ys"
    using di_Next_pos [OF xs(1,2) _ xs(3,4) k] rank that by (simp add: DBIter_def ys list_op_def)
  show "\<exists>s' k'. ip_Prev (DBIter I ucmp sample) di k = Some (s', k') \<and> wok k' \<and> dpos ys (list_op ucmp ys Backward m) s'" if "m < length ys"
    using di_Prev_pos [OF xs(1,2) _ xs(3,4) k] rank that by (simp add: DBIter_def ys list_op_def)
  show "wok (ip_delete (DBIter I ucmp sample) di k)" using below.delete [OF k p] by (simp add: DBIter_def)
qed

text \<open>A new iterator, before the first operation.\<close>

lemma new_DBIter_pos:
  assumes "entries_ok ucmp valid xs" and "at xs p it" and "s \<le> kMaxSequenceNumber"
  shows "dpos (view s xs) (length (view s xs)) (new_DBIter it s seed)"
proof -
  obtain n where n: "RandomCompactionPeriod (new_Random seed) = (n, Random_Next (new_Random seed))"
      "unat n = unat (Random_Next (new_Random seed)) mod 2097152" "gen_ok (Random_Next (new_Random seed))"
    using period_eq [OF new_Random_ok] by blast
  have "unat n < 2 ^ 63" using n(2) by (auto intro: less_trans)
  then show ?thesis
    using n assms by (intro dposI [OF assms(1)]) (auto simp: new_DBIter_def shown_at_def ready_def)
qed

end

end
