(* ===== verification/LdbMerger.thy ===== *)
theory LdbMerger
  imports LdbIterator
begin

text \<open>
  The iterator over merged inputs (\<open>table/merger.cc\<close>). A pointer to a child is its index. The children are of one
  type; where they are of several classes it is a sum type.
\<close>

record 's merging =
  mg_children :: "'s wrapper list"
  mg_current :: "nat option"
  mg_direction :: direction

text \<open>A loop over the children; \<open>f\<close> has the index of the child.\<close>

primrec for_children ::
  "(nat \<Rightarrow> 's wrapper \<Rightarrow> 'k \<Rightarrow> ('s wrapper \<times> 'k) option) \<Rightarrow> nat \<Rightarrow> 's wrapper list \<Rightarrow> 'k \<Rightarrow> ('s wrapper list \<times> 'k) option" where
  "for_children f i [] k = Some ([], k)"
| "for_children f i (c # cs) k =
     do { (c, k) \<leftarrow> f i c k; (cs, k) \<leftarrow> for_children f (Suc i) cs k; Some (c # cs, k) }"

definition new_MergingIterator :: "('s, 'k) iter_ops \<Rightarrow> 's list \<Rightarrow> 's merging" where
  "new_MergingIterator I children =
     \<lparr>mg_children = map (\<lambda>s. w_Update I s empty_wrapper) children, mg_current = None, mg_direction = kForward\<rparr>"

definition smallest_step :: "compare_op \<Rightarrow> 's wrapper list \<Rightarrow> nat \<Rightarrow> nat option \<Rightarrow> nat option" where
  "smallest_step cmp cs i smallest =
     (if w_valid (cs ! i) then
        case smallest of None \<Rightarrow> Some i | Some j \<Rightarrow> if cmp (w_key (cs ! i)) (w_key (cs ! j)) < 0 then Some i else Some j
      else smallest)"

definition FindSmallest :: "compare_op \<Rightarrow> 's merging \<Rightarrow> 's merging" where
  "FindSmallest cmp mg =
     mg\<lparr>mg_current := fold (smallest_step cmp (mg_children mg)) [0..<length (mg_children mg)] None\<rparr>"

definition largest_step :: "compare_op \<Rightarrow> 's wrapper list \<Rightarrow> nat \<Rightarrow> nat option \<Rightarrow> nat option" where
  "largest_step cmp cs i largest =
     (if w_valid (cs ! i) then
        case largest of None \<Rightarrow> Some i | Some j \<Rightarrow> if cmp (w_key (cs ! i)) (w_key (cs ! j)) > 0 then Some i else Some j
      else largest)"

definition FindLargest :: "compare_op \<Rightarrow> 's merging \<Rightarrow> 's merging" where
  "FindLargest cmp mg =
     mg\<lparr>mg_current := fold (largest_step cmp (mg_children mg)) (rev [0..<length (mg_children mg)]) None\<rparr>"

text \<open>Key and value are those of the current child, which is there when the iterator is valid.\<close>

definition mg_key :: "'s merging \<Rightarrow> u8 list" where
  "mg_key mg = (case mg_current mg of None \<Rightarrow> [] | Some c \<Rightarrow> w_key (mg_children mg ! c))"

definition mg_value :: "('s, 'k) iter_ops \<Rightarrow> 's merging \<Rightarrow> u8 list" where
  "mg_value I mg = (case mg_current mg of None \<Rightarrow> [] | Some c \<Rightarrow> the (w_value I (mg_children mg ! c)))"

primrec children_status :: "('s, 'k) iter_ops \<Rightarrow> 's wrapper list \<Rightarrow> ldb_status \<Rightarrow> ldb_status" where
  "children_status I [] status = status"
| "children_status I (c # cs) status =
     (let status = the (w_status I c) in if status \<noteq> OK then status else children_status I cs status)"

definition mg_status :: "('s, 'k) iter_ops \<Rightarrow> 's merging \<Rightarrow> ldb_status" where
  "mg_status I mg = children_status I (mg_children mg) OK"

definition mg_SeekToFirst :: "('s, 'k) iter_ops \<Rightarrow> compare_op \<Rightarrow> 's merging \<Rightarrow> 'k \<Rightarrow> ('s merging \<times> 'k) option" where
  "mg_SeekToFirst I cmp mg k =
     do {
       (cs, k) \<leftarrow> for_children (\<lambda>_. w_SeekToFirst I) 0 (mg_children mg) k;
       Some ((FindSmallest cmp (mg\<lparr>mg_children := cs\<rparr>))\<lparr>mg_direction := kForward\<rparr>, k)
     }"

definition mg_SeekToLast :: "('s, 'k) iter_ops \<Rightarrow> compare_op \<Rightarrow> 's merging \<Rightarrow> 'k \<Rightarrow> ('s merging \<times> 'k) option" where
  "mg_SeekToLast I cmp mg k =
     do {
       (cs, k) \<leftarrow> for_children (\<lambda>_. w_SeekToLast I) 0 (mg_children mg) k;
       Some ((FindLargest cmp (mg\<lparr>mg_children := cs\<rparr>))\<lparr>mg_direction := kReverse\<rparr>, k)
     }"

definition mg_Seek :: "('s, 'k) iter_ops \<Rightarrow> compare_op \<Rightarrow> u8 list \<Rightarrow> 's merging \<Rightarrow> 'k \<Rightarrow> ('s merging \<times> 'k) option" where
  "mg_Seek I cmp target mg k =
     do {
       (cs, k) \<leftarrow> for_children (\<lambda>_. w_Seek I target) 0 (mg_children mg) k;
       Some ((FindSmallest cmp (mg\<lparr>mg_children := cs\<rparr>))\<lparr>mg_direction := kForward\<rparr>, k)
     }"

text \<open>A child that is not the current one, when the direction changes: to after the key, or to before it.\<close>

definition child_after ::
  "('s, 'k) iter_ops \<Rightarrow> compare_op \<Rightarrow> nat \<Rightarrow> u8 list \<Rightarrow> nat \<Rightarrow> 's wrapper \<Rightarrow> 'k \<Rightarrow> ('s wrapper \<times> 'k) option" where
  "child_after I cmp cur key i child k =
     (if i = cur then Some (child, k)
      else do {
        (child, k) \<leftarrow> w_Seek I key child k;
        if w_valid child \<and> cmp key (w_key child) = 0 then w_Next I child k else Some (child, k)
      })"

definition child_before ::
  "('s, 'k) iter_ops \<Rightarrow> nat \<Rightarrow> u8 list \<Rightarrow> nat \<Rightarrow> 's wrapper \<Rightarrow> 'k \<Rightarrow> ('s wrapper \<times> 'k) option" where
  "child_before I cur key i child k =
     (if i = cur then Some (child, k)
      else do {
        (child, k) \<leftarrow> w_Seek I key child k;
        if w_valid child then w_Prev I child k else w_SeekToLast I child k
      })"

definition mg_Next :: "('s, 'k) iter_ops \<Rightarrow> compare_op \<Rightarrow> 's merging \<Rightarrow> 'k \<Rightarrow> ('s merging \<times> 'k) option" where
  "mg_Next I cmp mg k =
     do {
       cur \<leftarrow> mg_current mg;
       (cs, k) \<leftarrow> (if mg_direction mg \<noteq> kForward then for_children (child_after I cmp cur (mg_key mg)) 0 (mg_children mg) k
         else Some (mg_children mg, k));
       (c, k) \<leftarrow> w_Next I (cs ! cur) k;
       Some (FindSmallest cmp (mg\<lparr>mg_direction := kForward, mg_children := cs[cur := c]\<rparr>), k)
     }"

definition mg_Prev :: "('s, 'k) iter_ops \<Rightarrow> compare_op \<Rightarrow> 's merging \<Rightarrow> 'k \<Rightarrow> ('s merging \<times> 'k) option" where
  "mg_Prev I cmp mg k =
     do {
       cur \<leftarrow> mg_current mg;
       (cs, k) \<leftarrow> (if mg_direction mg \<noteq> kReverse then for_children (child_before I cur (mg_key mg)) 0 (mg_children mg) k
         else Some (mg_children mg, k));
       (c, k) \<leftarrow> w_Prev I (cs ! cur) k;
       Some (FindLargest cmp (mg\<lparr>mg_direction := kReverse, mg_children := cs[cur := c]\<rparr>), k)
     }"

definition delete_children :: "('s, 'k) iter_ops \<Rightarrow> 's merging \<Rightarrow> 'k \<Rightarrow> 'k" where
  "delete_children I mg = fold (\<lambda>c k. case w_iter c of None \<Rightarrow> k | Some s \<Rightarrow> ip_delete I s k) (rev (mg_children mg))"

definition MergingIterator :: "('s, 'k) iter_ops \<Rightarrow> compare_op \<Rightarrow> ('s merging, 'k) iter_ops" where
  "MergingIterator I cmp =
     \<lparr>ip_Valid = (\<lambda>mg. mg_current mg \<noteq> None), ip_key = mg_key, ip_value = mg_value I, ip_status = mg_status I,
      ip_Seek = mg_Seek I cmp, ip_SeekToFirst = mg_SeekToFirst I cmp, ip_SeekToLast = mg_SeekToLast I cmp,
      ip_Next = mg_Next I cmp, ip_Prev = mg_Prev I cmp, ip_delete = delete_children I\<rparr>"

text \<open>What \<open>NewMergingIterator\<close> returns, and the dispatch of its calls.\<close>

datatype 's merged = Merged_none | Merged_one 's | Merged_many "'s merging"

definition NewMergingIterator :: "('s, 'k) iter_ops \<Rightarrow> 's list \<Rightarrow> 's merged" where
  "NewMergingIterator I children =
     (case children of [] \<Rightarrow> Merged_none | [s] \<Rightarrow> Merged_one s | _ \<Rightarrow> Merged_many (new_MergingIterator I children))"

definition merged_move ::
  "('s \<Rightarrow> 'k \<Rightarrow> ('s \<times> 'k) option) \<Rightarrow> ('s merging \<Rightarrow> 'k \<Rightarrow> ('s merging \<times> 'k) option) \<Rightarrow> 's merged \<Rightarrow> 'k \<Rightarrow> ('s merged \<times> 'k) option" where
  "merged_move one many m k =
     (case m of
        Merged_none \<Rightarrow> Some (Merged_none, k)
      | Merged_one s \<Rightarrow> do { (s, k) \<leftarrow> one s k; Some (Merged_one s, k) }
      | Merged_many g \<Rightarrow> do { (g, k) \<leftarrow> many g k; Some (Merged_many g, k) })"

definition merged_iter :: "('s, 'k) iter_ops \<Rightarrow> compare_op \<Rightarrow> ('s merged, 'k) iter_ops" where
  "merged_iter I cmp =
     (let G = MergingIterator I cmp in
      \<lparr>ip_Valid = (\<lambda>m. case m of Merged_none \<Rightarrow> False | Merged_one s \<Rightarrow> ip_Valid I s | Merged_many g \<Rightarrow> ip_Valid G g),
       ip_key = (\<lambda>m. case m of Merged_none \<Rightarrow> [] | Merged_one s \<Rightarrow> ip_key I s | Merged_many g \<Rightarrow> ip_key G g),
       ip_value = (\<lambda>m. case m of Merged_none \<Rightarrow> [] | Merged_one s \<Rightarrow> ip_value I s | Merged_many g \<Rightarrow> ip_value G g),
       ip_status = (\<lambda>m. case m of Merged_none \<Rightarrow> OK | Merged_one s \<Rightarrow> ip_status I s | Merged_many g \<Rightarrow> ip_status G g),
       ip_Seek = (\<lambda>target. merged_move (ip_Seek I target) (ip_Seek G target)),
       ip_SeekToFirst = merged_move (ip_SeekToFirst I) (ip_SeekToFirst G),
       ip_SeekToLast = merged_move (ip_SeekToLast I) (ip_SeekToLast G),
       ip_Next = merged_move (ip_Next I) (ip_Next G),
       ip_Prev = merged_move (ip_Prev I) (ip_Prev G),
       ip_delete = (\<lambda>m k. case m of Merged_none \<Rightarrow> k | Merged_one s \<Rightarrow> ip_delete I s k | Merged_many g \<Rightarrow> ip_delete G g k)\<rparr>)"

end
