(* ===== verification/LdbMergerProofs.thy ===== *)
theory LdbMergerProofs
  imports LdbMerger LdbKey
begin

text \<open>
  The merging iterator is a cursor over the merge of the lists of its children, which share no key. The merge is a list
  of entries with the index of their child; between two of its entries every child has its place.
\<close>

section \<open>Labelled lists\<close>

type_synonym labelled = "(nat \<times> entry) list"

definition part :: "labelled \<Rightarrow> nat \<Rightarrow> entry list" where
  "part zs j = map snd (filter (\<lambda>z. fst z = j) zs)"

definition place :: "labelled \<Rightarrow> nat \<Rightarrow> nat \<Rightarrow> nat" where
  "place zs j m = length (filter (\<lambda>z. fst z = j) (take m zs))"

lemma place_0 [simp]: "place zs j 0 = 0"
  by (simp add: place_def)

lemma place_end: "place zs j (length zs) = length (part zs j)"
  by (simp add: place_def part_def)

lemma place_Suc: "m < length zs \<Longrightarrow> place zs j (Suc m) = place zs j m + (if fst (zs ! m) = j then 1 else 0)"
  by (simp add: place_def take_Suc_conv_app_nth)

lemma part_split: "part zs j = part (take m zs) j @ part (drop m zs) j"
  unfolding part_def by (metis append_take_drop_id filter_append map_append)

lemma place_part: "place zs j m = length (part (take m zs) j)"
  by (simp add: place_def part_def)

lemma place_le: "place zs j m \<le> length (part zs j)"
  using part_split [of zs j m] by (simp add: place_part)

lemma part_place:
  assumes "m < length zs" and "fst (zs ! m) = j"
  shows "place zs j m < length (part zs j)" "part zs j ! place zs j m = snd (zs ! m)"
proof -
  have "part (drop m zs) j = snd (zs ! m) # part (drop (Suc m) zs) j"
    using assms by (simp add: part_def Cons_nth_drop_Suc [symmetric])
  then show "place zs j m < length (part zs j)" "part zs j ! place zs j m = snd (zs ! m)"
    using part_split [of zs j m] by (simp_all add: place_part nth_append)
qed

text \<open>The next entry of a child after a place, and the last one before it.\<close>

lemma part_next:
  "place zs j m < length (part zs j) \<Longrightarrow> m \<le> length zs \<Longrightarrow> \<exists>i\<ge>m. i < length zs \<and> fst (zs ! i) = j \<and> place zs j i = place zs j m"
proof (induction "length zs - m" arbitrary: m)
  case 0
  then show ?case using place_end [of zs j] by simp
next
  case (Suc d)
  then have m: "m < length zs" by simp
  show ?case
  proof (cases "fst (zs ! m) = j")
    case True
    then show ?thesis using m by blast
  next
    case False
    then have c: "place zs j (Suc m) = place zs j m" using m by (simp add: place_Suc)
    have "d = length zs - Suc m" using Suc.hyps(2) by simp
    from Suc.hyps(1) [OF this] c Suc.prems m
    obtain i where "i \<ge> Suc m" "i < length zs" "fst (zs ! i) = j" "place zs j i = place zs j m" by auto
    then show ?thesis by (intro exI [of _ i]) simp
  qed
qed

lemma part_last:
  assumes "0 < place zs j m" and "m \<le> length zs"
  shows "\<exists>i<m. fst (zs ! i) = j \<and> place zs j i = place zs j m - 1"
  using assms
proof (induction m)
  case (Suc m)
  show ?case
  proof (cases "fst (zs ! m) = j")
    case True
    then show ?thesis using Suc.prems by (intro exI [of _ m]) (simp add: place_Suc)
  next
    case False
    then have c: "place zs j (Suc m) = place zs j m" using Suc.prems(2) by (simp add: place_Suc)
    then obtain i where "i < m" "fst (zs ! i) = j" "place zs j i = place zs j m - 1" using Suc by auto
    then show ?thesis using c by (metis less_Suc_eq)
  qed
qed simp

section \<open>Loops over the children\<close>

lemma for_children_ok:
  assumes "\<And>i c k. i < length cs \<Longrightarrow> wok k \<Longrightarrow> Q (i0 + i) (cs ! i) \<Longrightarrow> \<exists>c' k'. f (i0 + i) (cs ! i) k = Some (c', k') \<and> wok k' \<and> R (i0 + i) c'"
    and "\<And>i. i < length cs \<Longrightarrow> Q (i0 + i) (cs ! i)" and "wok k"
  shows "\<exists>cs' k'. for_children f i0 cs k = Some (cs', k') \<and> wok k' \<and> length cs' = length cs \<and> (\<forall>i<length cs. R (i0 + i) (cs' ! i))"
  using assms
proof (induction cs arbitrary: i0 k)
  case (Cons c cs)
  obtain c' k1 where 1: "f i0 c k = Some (c', k1)" "wok k1" "R i0 c'"
    using Cons.prems(1) [of 0 k] Cons.prems(2) [of 0] Cons.prems(3) by auto
  have "\<exists>cs' k'. for_children f (Suc i0) cs k1 = Some (cs', k') \<and> wok k' \<and> length cs' = length cs \<and> (\<forall>i<length cs. R (Suc i0 + i) (cs' ! i))"
  proof (rule Cons.IH [OF _ _ 1(2)])
    show "\<exists>c' k'. f (Suc i0 + i) (cs ! i) k = Some (c', k') \<and> wok k' \<and> R (Suc i0 + i) c'"
      if "i < length cs" "wok k" "Q (Suc i0 + i) (cs ! i)" for i c k
      using Cons.prems(1) [of "Suc i" k] that by simp
    show "Q (Suc i0 + i) (cs ! i)" if "i < length cs" for i using Cons.prems(2) [of "Suc i"] that by simp
  qed
  then obtain cs' k' where "for_children f (Suc i0) cs k1 = Some (cs', k')" "wok k'" "length cs' = length cs"
      "\<forall>i<length cs. R (Suc i0 + i) (cs' ! i)" by blast
  then show ?case using 1 by (auto simp: nth_Cons split: nat.splits)
qed simp

text \<open>The choice of a child that is better than every other valid one.\<close>

definition choose_step :: "(nat \<Rightarrow> bool) \<Rightarrow> (nat \<Rightarrow> nat \<Rightarrow> bool) \<Rightarrow> nat \<Rightarrow> nat option \<Rightarrow> nat option" where
  "choose_step ok better i best = (if ok i then case best of None \<Rightarrow> Some i | Some j \<Rightarrow> if better i j then Some i else Some j else best)"

lemma steps_choose:
  "smallest_step cmp cs = choose_step (\<lambda>i. w_valid (cs ! i)) (\<lambda>i j. cmp (w_key (cs ! i)) (w_key (cs ! j)) < 0)"
  "largest_step cmp cs = choose_step (\<lambda>i. w_valid (cs ! i)) (\<lambda>i j. cmp (w_key (cs ! i)) (w_key (cs ! j)) > 0)"
  by (simp_all add: fun_eq_iff choose_step_def smallest_step_def largest_step_def)

lemma choose_none: "(\<And>j. j \<in> set js \<Longrightarrow> \<not> ok j) \<Longrightarrow> fold (choose_step ok better) js best = best"
  by (induction js arbitrary: best) (auto simp: choose_step_def)

lemma choose_best:
  assumes "distinct js" and "c \<in> set js" and "ok c"
    and "\<And>j. j \<in> set js \<Longrightarrow> j \<noteq> c \<Longrightarrow> ok j \<Longrightarrow> better c j \<and> \<not> better j c"
  shows "fold (choose_step ok better) js None = Some c"
proof -
  obtain us bs where js: "js = us @ c # bs" using assms(2) by (auto simp: in_set_conv_decomp)
  have before: "\<forall>j\<in>set us. ok j \<longrightarrow> better c j" and behind: "\<forall>j\<in>set bs. ok j \<longrightarrow> \<not> better j c"
    using assms(1,4) unfolding js by auto
  have "(best = None \<or> (\<exists>j. best = Some j \<and> better c j)) \<Longrightarrow>
      fold (choose_step ok better) us best = None \<or> (\<exists>j. fold (choose_step ok better) us best = Some j \<and> better c j)" for best
    using before
  proof (induction us arbitrary: best)
    case (Cons a us)
    have "choose_step ok better a best = None \<or> (\<exists>j. choose_step ok better a best = Some j \<and> better c j)"
      using Cons.prems by (auto simp: choose_step_def split: option.splits)
    then show ?case using Cons.IH Cons.prems(2) by simp
  qed simp
  then have "choose_step ok better c (fold (choose_step ok better) us None) = Some c"
    using assms(3) by (fastforce simp: choose_step_def)
  moreover have "fold (choose_step ok better) bs (Some c) = Some c"
    using behind by (induction bs) (auto simp: choose_step_def)
  ultimately show ?thesis by (simp add: js)
qed

section \<open>The cursor\<close>

locale merging_inputs = comparator cmp separator successor valid + below: cursor I cmp target_ok wok at
  for cmp separator successor valid and I :: "('s, 'k) iter_ops" and target_ok wok at +
  assumes target_valid: "target_ok t \<Longrightarrow> valid t"
begin

definition merge_ok :: "labelled \<Rightarrow> nat \<Rightarrow> bool" where
  "merge_ok zs n \<longleftrightarrow> sorted_wrt (\<lambda>a b. cmp (fst (snd a)) (fst (snd b)) < 0) zs \<and>
     (\<forall>z\<in>set zs. fst z < n \<and> valid (fst (snd z)) \<and> target_ok (fst (snd z)))"

definition forward_at :: "labelled \<Rightarrow> nat \<Rightarrow> 's wrapper list \<Rightarrow> bool" where
  "forward_at zs m cs \<longleftrightarrow> (\<forall>j<length cs. below.w_pos (part zs j) (place zs j m) (cs ! j))"

definition prev_place :: "labelled \<Rightarrow> nat \<Rightarrow> nat \<Rightarrow> nat" where
  "prev_place zs j m = (if place zs j m = 0 then length (part zs j) else place zs j m - 1)"

definition backward_at :: "labelled \<Rightarrow> nat \<Rightarrow> 's wrapper list \<Rightarrow> bool" where
  "backward_at zs m cs \<longleftrightarrow> (\<forall>j<length cs. below.w_pos (part zs j) (prev_place zs j m) (cs ! j))"

lemma merge_less: "merge_ok zs n \<Longrightarrow> i < j \<Longrightarrow> j < length zs \<Longrightarrow> cmp (fst (snd (zs ! i))) (fst (snd (zs ! j))) < 0"
  by (simp add: merge_ok_def sorted_wrt_iff_nth_less)

lemma merge_valid: "merge_ok zs n \<Longrightarrow> i < length zs \<Longrightarrow> valid (fst (snd (zs ! i))) \<and> fst (zs ! i) < n \<and> target_ok (fst (snd (zs ! i)))"
  by (simp add: merge_ok_def)

lemma merge_not_less: "merge_ok zs n \<Longrightarrow> i < j \<Longrightarrow> j < length zs \<Longrightarrow> cmp (fst (snd (zs ! j))) (fst (snd (zs ! i))) > 0"
  using merge_less [of zs n i j] merge_valid [of zs n] cmp_flip [of "fst (snd (zs ! i))" "fst (snd (zs ! j))"] by auto

lemma smallest_at:
  assumes ok: "merge_ok zs (length cs)" and f: "forward_at zs m cs" and m: "m \<le> length zs"
  shows "fold (smallest_step cmp cs) [0..<length cs] None = (if m < length zs then Some (fst (zs ! m)) else None)"
proof (cases "m < length zs")
  case True
  let ?c = "fst (zs ! m)"
  have c: "?c < length cs" using merge_valid [OF ok True] by simp
  have pos: "below.w_pos (part zs j) (place zs j m) (cs ! j)" if "j < length cs" for j using f that by (simp add: forward_at_def)
  have ck: "w_valid (cs ! ?c)" "w_key (cs ! ?c) = fst (snd (zs ! m))"
    using below.w_pos_simps(2,3) [OF pos [OF c]] part_place [OF True refl] by simp_all
  have "fold (smallest_step cmp cs) [0..<length cs] None = Some ?c"
    unfolding steps_choose
  proof (rule choose_best)
    fix j
    assume j: "j \<in> set [0..<length cs]" "j \<noteq> ?c" "w_valid (cs ! j)"
    then have jl: "j < length cs" by simp
    then have lt: "place zs j m < length (part zs j)" using below.w_pos_simps(2) [OF pos] j(3) by simp
    obtain i where i: "m \<le> i" "i < length zs" "fst (zs ! i) = j" "place zs j i = place zs j m" using part_next [OF lt m] by blast
    have "w_key (cs ! j) = fst (snd (zs ! i))"
      using below.w_pos_simps(3) [OF pos [OF jl] lt] part_place(2) [OF i(2,3)] i(4) by simp
    moreover have "m < i" using i(1,3) j(2) by (cases "m = i") auto
    ultimately show "cmp (w_key (cs ! ?c)) (w_key (cs ! j)) < 0 \<and> \<not> cmp (w_key (cs ! j)) (w_key (cs ! ?c)) < 0"
      using merge_less [OF ok _ i(2)] merge_not_less [OF ok _ i(2)] ck(2) by fastforce
  qed (use c ck in simp_all)
  then show ?thesis using True by simp
next
  case False
  then have "m = length zs" using m by simp
  then have "\<not> w_valid (cs ! j)" if "j < length cs" for j
    using f that below.w_pos_simps(2) by (fastforce simp: forward_at_def place_end)
  then show ?thesis using False unfolding steps_choose by (simp, intro choose_none, simp)
qed

lemma largest_at:
  assumes ok: "merge_ok zs (length cs)" and f: "backward_at zs m cs" and m: "m \<le> length zs"
  shows "fold (largest_step cmp cs) (rev [0..<length cs]) None = (if 0 < m then Some (fst (zs ! (m - 1))) else None)"
proof (cases "0 < m")
  case True
  then obtain m' where m': "m = Suc m'" "m' < length zs" using m by (cases m) auto
  let ?c = "fst (zs ! m')"
  have c: "?c < length cs" using merge_valid [OF ok m'(2)] by simp
  have pos: "below.w_pos (part zs j) (prev_place zs j m) (cs ! j)" if "j < length cs" for j using f that by (simp add: backward_at_def)
  have bc: "prev_place zs ?c m = place zs ?c m'" using m' by (simp add: prev_place_def place_Suc)
  have ck: "w_valid (cs ! ?c)" "w_key (cs ! ?c) = fst (snd (zs ! m'))"
    using below.w_pos_simps(2,3) [OF pos [OF c], unfolded bc] part_place [OF m'(2) refl] by simp_all
  have "fold (largest_step cmp cs) (rev [0..<length cs]) None = Some ?c"
    unfolding steps_choose
  proof (rule choose_best)
    fix j
    assume j: "j \<in> set (rev [0..<length cs])" "j \<noteq> ?c" "w_valid (cs ! j)"
    then have jl: "j < length cs" by simp
    then have lt: "prev_place zs j m < length (part zs j)" using below.w_pos_simps(2) [OF pos] j(3) by simp
    then have pos0: "0 < place zs j m" by (auto simp: prev_place_def split: if_splits)
    obtain i where i: "i < m" "fst (zs ! i) = j" "place zs j i = place zs j m - 1" using part_last [OF pos0 m] by blast
    have il: "i < length zs" using i(1) m by simp
    have "w_key (cs ! j) = fst (snd (zs ! i))"
      using below.w_pos_simps(3) [OF pos [OF jl] lt] part_place(2) [OF il i(2)] i(3) pos0 by (simp add: prev_place_def)
    moreover have "i < m'" using i(1,2) j(2) m'(1) by (cases "i = m'") auto
    ultimately show "0 < cmp (w_key (cs ! ?c)) (w_key (cs ! j)) \<and> \<not> 0 < cmp (w_key (cs ! j)) (w_key (cs ! ?c))"
      using merge_less [OF ok _ m'(2)] merge_not_less [OF ok _ m'(2)] ck(2) by fastforce
  qed (use c ck in simp_all)
  then show ?thesis using m' by simp
next
  case False
  then have "\<not> w_valid (cs ! j)" if "j < length cs" for j
    using f that below.w_pos_simps(2) by (fastforce simp: backward_at_def prev_place_def)
  then show ?thesis using False unfolding steps_choose by (simp, intro choose_none, simp)
qed

text \<open>A search in the merge is a search in every part.\<close>

definition seek_index :: "labelled \<Rightarrow> u8 list \<Rightarrow> nat" where
  "seek_index zs t = length (takeWhile (\<lambda>e. cmp (fst e) t < 0) (map snd zs))"

lemma seek_index_le: "seek_index zs t \<le> length zs"
  using length_takeWhile_le [of "\<lambda>e. cmp (fst e) t < 0" "map snd zs"] by (simp add: seek_index_def)

lemma seek_index_iff:
  assumes ok: "merge_ok zs n" and t: "valid t" and i: "i < length zs"
  shows "cmp (fst (snd (zs ! i))) t < 0 \<longleftrightarrow> i < seek_index zs t"
proof (cases "i < seek_index zs t")
  case True
  let ?P = "\<lambda>e. cmp (fst e) t < 0"
  have "takeWhile ?P (map snd zs) ! i \<in> set (takeWhile ?P (map snd zs))" using True by (intro nth_mem) (simp add: seek_index_def)
  then have "?P (takeWhile ?P (map snd zs) ! i)" by (metis set_takeWhileD)
  then show ?thesis using True i takeWhile_nth [of i ?P "map snd zs"] by (simp add: seek_index_def)
next
  case False
  let ?s = "seek_index zs t"
  have s: "?s < length zs" using False i by simp
  then have not: "\<not> cmp (fst (snd (zs ! ?s))) t < 0"
    using nth_length_takeWhile [of "\<lambda>e. cmp (fst e) t < 0" "map snd zs"] by (simp add: seek_index_def)
  have "\<not> cmp (fst (snd (zs ! i))) t < 0"
  proof (cases "?s = i")
    case True
    then show ?thesis using not by simp
  next
    case neq: False
    then have "cmp (fst (snd (zs ! ?s))) (fst (snd (zs ! i))) < 0" using False i by (intro merge_less [OF ok]) simp_all
    then show ?thesis using not cmp_trans merge_valid [OF ok s] merge_valid [OF ok i] t by blast
  qed
  then show ?thesis using False by simp
qed

lemma seek_place:
  assumes ok: "merge_ok zs n" and t: "valid t"
  shows "length (takeWhile (\<lambda>e. cmp (fst e) t < 0) (part zs j)) = place zs j (seek_index zs t)"
proof -
  let ?P = "\<lambda>e. cmp (fst e) t < 0" and ?s = "seek_index zs t"
  have "\<forall>e\<in>set (part (take ?s zs) j). ?P e"
  proof
    fix e
    assume "e \<in> set (part (take ?s zs) j)"
    then obtain z where "z \<in> set (take ?s zs)" "e = snd z" by (auto simp: part_def)
    then obtain i where "i < ?s" "i < length zs" "e = snd (zs ! i)" by (auto simp: in_set_conv_nth)
    then show "?P e" using seek_index_iff [OF ok t] by simp
  qed
  moreover have "takeWhile ?P (part (drop ?s zs) j) = []"
  proof (cases "part (drop ?s zs) j")
    case (Cons e es)
    then have "e \<in> set (part (drop ?s zs) j)" by simp
    then obtain z where "z \<in> set (drop ?s zs)" "e = snd z" by (auto simp: part_def)
    then obtain i where "i < length zs - ?s" "e = snd (zs ! (?s + i))" by (auto simp: in_set_conv_nth)
    then have "\<not> ?P e" using seek_index_iff [OF ok t, of "?s + i"] by simp
    then show ?thesis using Cons by simp
  qed simp
  ultimately have "takeWhile ?P (part zs j) = part (take ?s zs) j"
    unfolding part_split [of zs j ?s] by (rule takeWhile_exactly)
  then show ?thesis by (simp add: place_part)
qed

lemma seek_index_self:
  assumes ok: "merge_ok zs n" and m: "m < length zs"
  shows "seek_index zs (fst (snd (zs ! m))) = m"
proof -
  have v: "valid (fst (snd (zs ! m)))" using merge_valid [OF ok m] by blast
  have "m \<le> seek_index zs (fst (snd (zs ! m)))"
  proof (rule ccontr)
    assume "\<not> m \<le> seek_index zs (fst (snd (zs ! m)))"
    then have s: "seek_index zs (fst (snd (zs ! m))) < m" by simp
    then show False
      using seek_index_iff [OF ok v less_trans [OF s m]] merge_less [OF ok s m] by simp
  qed
  moreover have "\<not> m < seek_index zs (fst (snd (zs ! m)))" using seek_index_iff [OF ok v m] cmp_refl [OF v] by simp
  ultimately show ?thesis by simp
qed

lemma w_seek:
  assumes ok: "merge_ok zs n" and "wok k" and "below.w_pos (part zs j) p w" and "target_ok t"
  shows "\<exists>w' k'. w_Seek I t w k = Some (w', k') \<and> wok k' \<and> below.w_pos (part zs j) (place zs j (seek_index zs t)) w'"
  using below.w_op_pos(1) [OF assms(2,3,4)] seek_place [OF ok target_valid [OF assms(4)], of j] by (simp add: list_op_def)

text \<open>The position of the merging iterator.\<close>

definition children_at :: "labelled \<Rightarrow> 's wrapper list \<Rightarrow> bool" where
  "children_at zs cs \<longleftrightarrow> merge_ok zs (length cs) \<and> (\<forall>j<length cs. \<exists>p. below.w_pos (part zs j) p (cs ! j))"

definition merge_at :: "labelled \<Rightarrow> nat \<Rightarrow> 's merging \<Rightarrow> bool" where
  "merge_at zs m mg \<longleftrightarrow> children_at zs (mg_children mg) \<and>
     (m = length zs \<and> mg_current mg = None \<or>
      m < length zs \<and> mg_current mg = Some (fst (zs ! m)) \<and>
        (case mg_direction mg of
           kForward \<Rightarrow> forward_at zs m (mg_children mg)
         | kReverse \<Rightarrow> backward_at zs (Suc m) (mg_children mg)))"

definition merge_pos :: "entry list \<Rightarrow> nat \<Rightarrow> 's merging \<Rightarrow> bool" where
  "merge_pos ys m mg \<longleftrightarrow> (\<exists>zs. ys = map snd zs \<and> merge_at zs m mg)"

lemma smallest_merge:
  assumes ok: "merge_ok zs (length cs)" and f: "forward_at zs m cs" and m: "m \<le> length zs" and cs: "cs = mg_children mg"
  shows "merge_at zs m ((FindSmallest cmp mg)\<lparr>mg_direction := kForward\<rparr>)"
  using smallest_at [OF ok f m] assms by (auto simp: merge_at_def FindSmallest_def children_at_def forward_at_def)

lemma largest_merge:
  assumes ok: "merge_ok zs (length cs)" and f: "backward_at zs m cs" and m: "m \<le> length zs" and cs: "cs = mg_children mg"
  shows "merge_at zs (if m = 0 then length zs else m - 1) ((FindLargest cmp mg)\<lparr>mg_direction := kReverse\<rparr>)"
  using largest_at [OF ok f m] assms by (auto simp: merge_at_def FindLargest_def children_at_def backward_at_def)

lemma all_children:
  assumes "children_at zs cs" and "wok k"
    and "\<And>j p c k. j < length cs \<Longrightarrow> wok k \<Longrightarrow> below.w_pos (part zs j) p c \<Longrightarrow> \<exists>c' k'. f j c k = Some (c', k') \<and> wok k' \<and> R j c'"
  shows "\<exists>cs' k'. for_children f 0 cs k = Some (cs', k') \<and> wok k' \<and> length cs' = length cs \<and> (\<forall>j<length cs. R j (cs' ! j))"
proof -
  have "\<exists>cs' k'. for_children f 0 cs k = Some (cs', k') \<and> wok k' \<and> length cs' = length cs \<and> (\<forall>j<length cs. R (0 + j) (cs' ! j))"
    by (rule for_children_ok [where Q = "\<lambda>j c. \<exists>p. below.w_pos (part zs j) p c"])
      (use assms in \<open>auto simp: children_at_def\<close>)
  then show ?thesis by simp
qed

lemma mg_Seek_pos:
  assumes at: "children_at zs (mg_children mg)" and k: "wok k" and t: "target_ok t"
  shows "\<exists>mg' k'. mg_Seek I cmp t mg k = Some (mg', k') \<and> wok k' \<and> merge_at zs (seek_index zs t) mg'"
proof -
  have ok: "merge_ok zs (length (mg_children mg))" using at by (simp add: children_at_def)
  obtain cs k' where cs: "for_children (\<lambda>_. w_Seek I t) 0 (mg_children mg) k = Some (cs, k')" "wok k'" "length cs = length (mg_children mg)"
      "\<forall>j<length (mg_children mg). below.w_pos (part zs j) (place zs j (seek_index zs t)) (cs ! j)"
    using all_children [OF at k, where f = "\<lambda>_. w_Seek I t" and R = "\<lambda>j. below.w_pos (part zs j) (place zs j (seek_index zs t))"]
      w_seek [OF ok _ _ t] by blast
  have "merge_at zs (seek_index zs t) ((FindSmallest cmp (mg\<lparr>mg_children := cs\<rparr>))\<lparr>mg_direction := kForward\<rparr>)"
    by (rule smallest_merge [of _ cs]) (use ok cs seek_index_le in \<open>simp_all add: forward_at_def\<close>)
  then show ?thesis using cs(1,2) by (simp add: mg_Seek_def)
qed

lemma mg_SeekToFirst_pos:
  assumes at: "children_at zs (mg_children mg)" and k: "wok k"
  shows "\<exists>mg' k'. mg_SeekToFirst I cmp mg k = Some (mg', k') \<and> wok k' \<and> merge_at zs 0 mg'"
proof -
  have ok: "merge_ok zs (length (mg_children mg))" using at by (simp add: children_at_def)
  obtain cs k' where cs: "for_children (\<lambda>_. w_SeekToFirst I) 0 (mg_children mg) k = Some (cs, k')" "wok k'" "length cs = length (mg_children mg)"
      "\<forall>j<length (mg_children mg). below.w_pos (part zs j) 0 (cs ! j)"
    using all_children [OF at k, where f = "\<lambda>_. w_SeekToFirst I" and R = "\<lambda>j. below.w_pos (part zs j) 0"]
      below.w_op_pos(2) by (simp add: list_op_def) blast
  have "merge_at zs 0 ((FindSmallest cmp (mg\<lparr>mg_children := cs\<rparr>))\<lparr>mg_direction := kForward\<rparr>)"
    by (rule smallest_merge [of _ cs]) (use ok cs in \<open>simp_all add: forward_at_def\<close>)
  then show ?thesis using cs(1,2) by (simp add: mg_SeekToFirst_def)
qed

lemma mg_SeekToLast_pos:
  assumes at: "children_at zs (mg_children mg)" and k: "wok k"
  shows "\<exists>mg' k'. mg_SeekToLast I cmp mg k = Some (mg', k') \<and> wok k' \<and> merge_at zs (if zs = [] then 0 else length zs - 1) mg'"
proof -
  have ok: "merge_ok zs (length (mg_children mg))" using at by (simp add: children_at_def)
  have last: "list_op cmp (part zs j) To_last p = prev_place zs j (length zs)" for j p
    by (simp add: list_op_def prev_place_def place_end)
  have step: "\<exists>c' k'. w_SeekToLast I c k = Some (c', k') \<and> wok k' \<and> below.w_pos (part zs j) (prev_place zs j (length zs)) c'"
    if "wok k" "below.w_pos (part zs j) p c" for j p c k
    using below.w_op_pos(3) [OF that] by (simp add: last)
  obtain cs k' where cs: "for_children (\<lambda>_. w_SeekToLast I) 0 (mg_children mg) k = Some (cs, k')" "wok k'" "length cs = length (mg_children mg)"
      "\<forall>j<length (mg_children mg). below.w_pos (part zs j) (prev_place zs j (length zs)) (cs ! j)"
    using all_children [OF at k, where f = "\<lambda>_. w_SeekToLast I" and R = "\<lambda>j. below.w_pos (part zs j) (prev_place zs j (length zs))"]
      step by blast
  have "merge_at zs (if length zs = 0 then length zs else length zs - 1) ((FindLargest cmp (mg\<lparr>mg_children := cs\<rparr>))\<lparr>mg_direction := kReverse\<rparr>)"
    by (rule largest_merge [of _ cs]) (use ok cs in \<open>simp_all add: backward_at_def\<close>)
  then show ?thesis using cs(1,2) by (cases "zs = []") (simp_all add: mg_SeekToLast_def)
qed

lemma place_step:
  assumes "m < length zs"
  shows "prev_place zs j (Suc m) = (if j = fst (zs ! m) then place zs j m else prev_place zs j m)"
  using assms by (auto simp: prev_place_def place_Suc)

lemma turn_forward:
  assumes ok: "merge_ok zs (length cs)" and m: "m < length zs" and b: "backward_at zs (Suc m) cs" and k: "wok k"
  shows "\<exists>cs' k'. for_children (child_after I cmp (fst (zs ! m)) (fst (snd (zs ! m)))) 0 cs k = Some (cs', k') \<and> wok k' \<and>
    length cs' = length cs \<and> forward_at zs m cs'"
proof -
  let ?c = "fst (zs ! m)" and ?t = "fst (snd (zs ! m))"
  note t = merge_valid [OF ok m]
  have step: "\<exists>c' k'. child_after I cmp ?c ?t j c k = Some (c', k') \<and> wok k' \<and> below.w_pos (part zs j) (place zs j m) c'"
    if k: "wok k" and c: "below.w_pos (part zs j) (prev_place zs j (Suc m)) c" for j c k
  proof (cases "j = ?c")
    case True
    then show ?thesis using k c by (simp add: child_after_def place_step [OF m])
  next
    case False
    obtain c1 k1 where c1: "w_Seek I ?t c k = Some (c1, k1)" "wok k1" "below.w_pos (part zs j) (place zs j m) c1"
      using w_seek [OF ok k c, of ?t] t seek_index_self [OF ok m] by auto
    have "cmp ?t (w_key c1) \<noteq> 0" if "w_valid c1"
    proof -
      have lt: "place zs j m < length (part zs j)" using below.w_pos_simps(2) [OF c1(3)] that by simp
      obtain i where i: "i \<ge> m" "i < length zs" "fst (zs ! i) = j" "place zs j i = place zs j m"
        using part_next [OF lt] m by auto
      have "w_key c1 = fst (snd (zs ! i))" using below.w_pos_simps(3) [OF c1(3) lt] part_place(2) [OF i(2,3)] i(4) by simp
      moreover have "m < i" using i(1,3) False by (cases "m = i") auto
      ultimately show ?thesis using merge_less [OF ok _ i(2)] by fastforce
    qed
    then show ?thesis using False c1 by (auto simp: child_after_def)
  qed
  have "\<exists>cs' k'. for_children (child_after I cmp ?c ?t) 0 cs k = Some (cs', k') \<and> wok k' \<and> length cs' = length cs \<and>
      (\<forall>j<length cs. below.w_pos (part zs (0 + j)) (place zs (0 + j) m) (cs' ! j))"
    by (rule for_children_ok [where Q = "\<lambda>j. below.w_pos (part zs j) (prev_place zs j (Suc m))"])
      (use step b k in \<open>auto simp: backward_at_def\<close>)
  then show ?thesis by (auto simp: forward_at_def)
qed

lemma turn_backward:
  assumes ok: "merge_ok zs (length cs)" and m: "m < length zs" and f: "forward_at zs m cs" and k: "wok k"
  shows "\<exists>cs' k'. for_children (child_before I (fst (zs ! m)) (fst (snd (zs ! m)))) 0 cs k = Some (cs', k') \<and> wok k' \<and>
    length cs' = length cs \<and> backward_at zs (Suc m) cs'"
proof -
  let ?c = "fst (zs ! m)" and ?t = "fst (snd (zs ! m))"
  note t = merge_valid [OF ok m]
  have step: "\<exists>c' k'. child_before I ?c ?t j c k = Some (c', k') \<and> wok k' \<and> below.w_pos (part zs j) (prev_place zs j (Suc m)) c'"
    if k: "wok k" and c: "below.w_pos (part zs j) (place zs j m) c" for j c k
  proof (cases "j = ?c")
    case True
    then show ?thesis using k c by (simp add: child_before_def place_step [OF m])
  next
    case False
    then have to: "prev_place zs j (Suc m) = prev_place zs j m" by (simp add: place_step [OF m])
    obtain c1 k1 where c1: "w_Seek I ?t c k = Some (c1, k1)" "wok k1" "below.w_pos (part zs j) (place zs j m) c1"
      using w_seek [OF ok k c, of ?t] t seek_index_self [OF ok m] by auto
    show ?thesis
    proof (cases "place zs j m < length (part zs j)")
      case True
      then have "w_valid c1" "list_op cmp (part zs j) Backward (place zs j m) = prev_place zs j m"
        using below.w_pos_simps(2) [OF c1(3)] by (simp_all add: list_op_def prev_place_def)
      then show ?thesis using False c1(1) below.w_op_pos(5) [OF c1(2,3) True] by (simp add: child_before_def to)
    next
      case end_: False
      then have "place zs j m = length (part zs j)" using place_le [of zs j m] by simp
      then have "\<not> w_valid c1" "list_op cmp (part zs j) To_last (place zs j m) = prev_place zs j m"
        using below.w_pos_simps(2) [OF c1(3)] by (simp_all add: list_op_def prev_place_def)
      then show ?thesis using False c1(1) below.w_op_pos(3) [OF c1(2,3)] by (simp add: child_before_def to)
    qed
  qed
  have "\<exists>cs' k'. for_children (child_before I ?c ?t) 0 cs k = Some (cs', k') \<and> wok k' \<and> length cs' = length cs \<and>
      (\<forall>j<length cs. below.w_pos (part zs (0 + j)) (prev_place zs (0 + j) (Suc m)) (cs' ! j))"
    by (rule for_children_ok [where Q = "\<lambda>j. below.w_pos (part zs j) (place zs j m)"])
      (use step f k in \<open>auto simp: forward_at_def\<close>)
  then show ?thesis by (auto simp: backward_at_def)
qed

lemma current_key:
  assumes ok: "merge_ok zs (length (mg_children mg))" and m: "m < length zs" and cur: "mg_current mg = Some (fst (zs ! m))"
    and at: "case mg_direction mg of kForward \<Rightarrow> forward_at zs m (mg_children mg) | kReverse \<Rightarrow> backward_at zs (Suc m) (mg_children mg)"
  shows "mg_key mg = fst (snd (zs ! m))" "mg_value I mg = snd (snd (zs ! m))"
proof -
  let ?c = "fst (zs ! m)"
  have c: "?c < length (mg_children mg)" using merge_valid [OF ok m] by simp
  have "below.w_pos (part zs ?c) (place zs ?c m) (mg_children mg ! ?c)"
    using at c place_step [OF m, of ?c] by (auto simp: forward_at_def backward_at_def split: direction.splits)
  then show "mg_key mg = fst (snd (zs ! m))" "mg_value I mg = snd (snd (zs ! m))"
    using part_place [OF m refl] below.w_pos_simps(3,4) cur by (simp_all add: mg_key_def mg_value_def)
qed

lemma mg_Next_pos:
  assumes at: "merge_at zs m mg" and m: "m < length zs" and k: "wok k"
  shows "\<exists>mg' k'. mg_Next I cmp mg k = Some (mg', k') \<and> wok k' \<and> merge_at zs (Suc m) mg'"
proof -
  let ?c = "fst (zs ! m)"
  have ok: "merge_ok zs (length (mg_children mg))" and cur: "mg_current mg = Some ?c"
    and d: "case mg_direction mg of kForward \<Rightarrow> forward_at zs m (mg_children mg) | kReverse \<Rightarrow> backward_at zs (Suc m) (mg_children mg)"
    using at m by (auto simp: merge_at_def children_at_def)
  note key = current_key(1) [OF ok m cur d]
  have c: "?c < length (mg_children mg)" using merge_valid [OF ok m] by simp
  obtain cs k1 where cs: "(if mg_direction mg \<noteq> kForward then for_children (child_after I cmp ?c (mg_key mg)) 0 (mg_children mg) k
        else Some (mg_children mg, k)) = Some (cs, k1)" "wok k1" "length cs = length (mg_children mg)" "forward_at zs m cs"
    using turn_forward [OF ok m _ k] d k by (cases "mg_direction mg") (auto simp: key)
  obtain w k2 where w: "w_Next I (cs ! ?c) k1 = Some (w, k2)" "wok k2" "below.w_pos (part zs ?c) (Suc (place zs ?c m)) w"
    using below.w_op_pos(4) [OF cs(2), of "part zs ?c" "place zs ?c m" "cs ! ?c"] cs(3,4) c part_place(1) [OF m refl]
    by (auto simp: forward_at_def list_op_def)
  have f: "forward_at zs (Suc m) (cs[?c := w])"
    using cs(3,4) w(3) m c by (auto simp: forward_at_def nth_list_update place_Suc)
  have "merge_at zs (Suc m) ((FindSmallest cmp (mg\<lparr>mg_children := cs[?c := w]\<rparr>))\<lparr>mg_direction := kForward\<rparr>)"
    by (rule smallest_merge [OF _ f]) (use ok cs(3) m in simp_all)
  moreover have "(FindSmallest cmp (mg\<lparr>mg_children := cs[?c := w]\<rparr>))\<lparr>mg_direction := kForward\<rparr> =
      FindSmallest cmp (mg\<lparr>mg_direction := kForward, mg_children := cs[?c := w]\<rparr>)" by (simp add: FindSmallest_def)
  ultimately show ?thesis using cs(1) w(1,2) by (simp add: mg_Next_def cur del: not_None_eq)
qed

lemma mg_Prev_pos:
  assumes at: "merge_at zs m mg" and m: "m < length zs" and k: "wok k"
  shows "\<exists>mg' k'. mg_Prev I cmp mg k = Some (mg', k') \<and> wok k' \<and> merge_at zs (if m = 0 then length zs else m - 1) mg'"
proof -
  let ?c = "fst (zs ! m)"
  have ok: "merge_ok zs (length (mg_children mg))" and cur: "mg_current mg = Some ?c"
    and d: "case mg_direction mg of kForward \<Rightarrow> forward_at zs m (mg_children mg) | kReverse \<Rightarrow> backward_at zs (Suc m) (mg_children mg)"
    using at m by (auto simp: merge_at_def children_at_def)
  note key = current_key(1) [OF ok m cur d]
  have c: "?c < length (mg_children mg)" using merge_valid [OF ok m] by simp
  obtain cs k1 where cs: "(if mg_direction mg \<noteq> kReverse then for_children (child_before I ?c (mg_key mg)) 0 (mg_children mg) k
        else Some (mg_children mg, k)) = Some (cs, k1)" "wok k1" "length cs = length (mg_children mg)" "backward_at zs (Suc m) cs"
    using turn_backward [OF ok m _ k] d k by (cases "mg_direction mg") (auto simp: key)
  have "below.w_pos (part zs ?c) (place zs ?c m) (cs ! ?c)" using cs(3,4) c by (auto simp: backward_at_def place_step [OF m])
  moreover have "list_op cmp (part zs ?c) Backward (place zs ?c m) = prev_place zs ?c m"
    using part_place(1) [OF m refl] by (simp add: list_op_def prev_place_def)
  ultimately obtain w k2 where w: "w_Prev I (cs ! ?c) k1 = Some (w, k2)" "wok k2" "below.w_pos (part zs ?c) (prev_place zs ?c m) w"
    using below.w_op_pos(5) [OF cs(2), of "part zs ?c" "place zs ?c m" "cs ! ?c"] part_place(1) [OF m refl] by auto
  have b: "backward_at zs m (cs[?c := w])"
    using cs(3,4) w(3) c by (auto simp: backward_at_def nth_list_update place_step [OF m])
  have "merge_at zs (if m = 0 then length zs else m - 1) ((FindLargest cmp (mg\<lparr>mg_children := cs[?c := w]\<rparr>))\<lparr>mg_direction := kReverse\<rparr>)"
    by (rule largest_merge [OF _ b]) (use ok cs(3) m in simp_all)
  moreover have "(FindLargest cmp (mg\<lparr>mg_children := cs[?c := w]\<rparr>))\<lparr>mg_direction := kReverse\<rparr> =
      FindLargest cmp (mg\<lparr>mg_direction := kReverse, mg_children := cs[?c := w]\<rparr>)" by (simp add: FindLargest_def)
  ultimately show ?thesis using cs(1) w(1,2) by (simp add: mg_Prev_def cur del: not_None_eq)
qed

lemma merge_children_status:
  assumes "children_at zs (mg_children mg)"
  shows "mg_status I mg = OK"
proof -
  have "\<forall>c\<in>set (mg_children mg). w_status I c = Some OK"
    using assms below.w_pos_simps(5) by (fastforce simp: children_at_def in_set_conv_nth)
  moreover have "\<forall>c\<in>set cs. w_status I c = Some OK \<Longrightarrow> children_status I cs OK = OK" for cs
    by (induction cs) (simp_all add: Let_def)
  ultimately show ?thesis by (simp add: mg_status_def)
qed

lemma merging_cursor: "cursor (MergingIterator I cmp) cmp target_ok wok merge_pos"
proof (unfold_locales)
  fix ys m mg k
  assume "merge_pos ys m mg"
  then obtain zs where ys: "ys = map snd zs" and at: "merge_at zs m mg" by (auto simp: merge_pos_def)
  have cs: "children_at zs (mg_children mg)" using at by (simp add: merge_at_def)
  then have ok: "merge_ok zs (length (mg_children mg))" by (simp add: children_at_def)
  have valid: "mg_current mg \<noteq> None \<longleftrightarrow> m < length zs" "m \<le> length zs" using at by (auto simp: merge_at_def)
  show "m \<le> length ys \<and> (ip_Valid (MergingIterator I cmp) mg \<longleftrightarrow> m < length ys)"
    using valid by (simp add: MergingIterator_def ys)
  show "ip_status (MergingIterator I cmp) mg = OK"
    using merge_children_status [OF cs] by (simp add: MergingIterator_def)
  show "ip_key (MergingIterator I cmp) mg = fst (ys ! m) \<and> ip_value (MergingIterator I cmp) mg = snd (ys ! m)" if "m < length ys"
    using current_key [OF ok] at that by (auto simp: MergingIterator_def ys merge_at_def)
  assume k: "wok k"
  show "\<exists>s' k'. ip_Seek (MergingIterator I cmp) t mg k = Some (s', k') \<and> wok k' \<and> merge_pos ys (list_op cmp ys (Seek_to t) m) s'"
    if "target_ok t" for t
    using mg_Seek_pos [OF cs k that] by (auto simp: MergingIterator_def ys merge_pos_def list_op_def seek_index_def)
  show "\<exists>s' k'. ip_SeekToFirst (MergingIterator I cmp) mg k = Some (s', k') \<and> wok k' \<and> merge_pos ys (list_op cmp ys To_first m) s'"
    using mg_SeekToFirst_pos [OF cs k] by (auto simp: MergingIterator_def ys merge_pos_def list_op_def)
  show "\<exists>s' k'. ip_SeekToLast (MergingIterator I cmp) mg k = Some (s', k') \<and> wok k' \<and> merge_pos ys (list_op cmp ys To_last m) s'"
    using mg_SeekToLast_pos [OF cs k] by (auto simp: MergingIterator_def ys merge_pos_def list_op_def)
  show "\<exists>s' k'. ip_Next (MergingIterator I cmp) mg k = Some (s', k') \<and> wok k' \<and> merge_pos ys (list_op cmp ys Forward m) s'" if "m < length ys"
    using mg_Next_pos [OF at _ k] that by (auto simp: MergingIterator_def ys merge_pos_def list_op_def)
  show "\<exists>s' k'. ip_Prev (MergingIterator I cmp) mg k = Some (s', k') \<and> wok k' \<and> merge_pos ys (list_op cmp ys Backward m) s'" if "m < length ys"
    using mg_Prev_pos [OF at _ k] that by (auto simp: MergingIterator_def ys merge_pos_def list_op_def)
  have "\<forall>c\<in>set (mg_children mg). \<exists>xs p s. w_iter c = Some s \<and> at xs p s"
    using cs by (fastforce simp: children_at_def in_set_conv_nth below.w_pos_def)
  then have all: "\<forall>c\<in>set (rev (mg_children mg)). \<exists>xs p s. w_iter c = Some s \<and> at xs p s" by simp
  have "\<forall>c\<in>set cs. \<exists>xs p s. w_iter c = Some s \<and> at xs p s \<Longrightarrow> wok k \<Longrightarrow>
      wok (fold (\<lambda>c k. case w_iter c of None \<Rightarrow> k | Some s \<Rightarrow> ip_delete I s k) cs k)" for cs k
  proof (induction cs arbitrary: k)
    case (Cons c cs)
    obtain xs p s where "w_iter c = Some s" "at xs p s" using Cons.prems(1) by auto
    then show ?case using Cons below.delete by simp
  qed simp
  from this [OF all k] show "wok (ip_delete (MergingIterator I cmp) mg k)" by (simp add: MergingIterator_def delete_children_def)
qed

lemma new_MergingIterator_pos:
  assumes "merge_ok zs (length ss)" and "\<And>j. j < length ss \<Longrightarrow> \<exists>p. at (part zs j) p (ss ! j)"
  shows "merge_pos (map snd zs) (length zs) (new_MergingIterator I ss)"
proof -
  have "\<exists>p. below.w_pos (part zs j) p (w_Update I (ss ! j) empty_wrapper)" if "j < length ss" for j
    using assms(2) [OF that] below.w_Update_pos by blast
  then have "merge_at zs (length zs) (new_MergingIterator I ss)"
    using assms(1) by (simp add: merge_at_def children_at_def new_MergingIterator_def)
  then show ?thesis by (auto simp: merge_pos_def)
qed

text \<open>The iterator that \<open>NewMergingIterator\<close> makes, for any number of children.\<close>

definition merged_pos :: "entry list \<Rightarrow> nat \<Rightarrow> 's merged \<Rightarrow> bool" where
  "merged_pos ys m x \<longleftrightarrow>
     (case x of Merged_none \<Rightarrow> ys = [] \<and> m = 0 | Merged_one s \<Rightarrow> at ys m s | Merged_many g \<Rightarrow> merge_pos ys m g)"

lemma merged_move_ok:
  assumes "merged_pos ys m x" and "ys = [] \<Longrightarrow> m = 0 \<Longrightarrow> m' = 0"
    and "\<And>s. at ys m s \<Longrightarrow> \<exists>s' k'. one s k = Some (s', k') \<and> wok k' \<and> at ys m' s'"
    and "\<And>g. merge_pos ys m g \<Longrightarrow> \<exists>g' k'. many g k = Some (g', k') \<and> wok k' \<and> merge_pos ys m' g'" and "wok k"
  shows "\<exists>x' k'. merged_move one many x k = Some (x', k') \<and> wok k' \<and> merged_pos ys m' x'"
  using assms by (cases x) (fastforce simp: merged_move_def merged_pos_def)+

lemma merged_cursor: "cursor (merged_iter I cmp) cmp target_ok wok merged_pos"
proof (unfold_locales)
  fix ys m x k
  assume pos: "merged_pos ys m x"
  note M = merging_cursor
  note simps = merged_iter_def Let_def
  show "m \<le> length ys \<and> (ip_Valid (merged_iter I cmp) x \<longleftrightarrow> m < length ys)"
    using pos below.valid cursor.valid [OF M] by (cases x) (fastforce simp: simps merged_pos_def)+
  show "ip_status (merged_iter I cmp) x = OK"
    using pos below.status cursor.status [OF M] by (cases x) (fastforce simp: simps merged_pos_def)+
  show "ip_key (merged_iter I cmp) x = fst (ys ! m) \<and> ip_value (merged_iter I cmp) x = snd (ys ! m)" if "m < length ys"
    using pos that below.at_entry cursor.at_entry [OF M] by (cases x) (fastforce simp: simps merged_pos_def)+
  assume k: "wok k"
  show "\<exists>s' k'. ip_Seek (merged_iter I cmp) t x k = Some (s', k') \<and> wok k' \<and> merged_pos ys (list_op cmp ys (Seek_to t) m) s'"
    if t: "target_ok t" for t
    unfolding simps iter_ops.simps
    by (rule merged_move_ok [OF pos]) (use k below.seek [OF k _ t] cursor.seek [OF M k _ t] in \<open>simp_all add: list_op_def\<close>)
  show "\<exists>s' k'. ip_SeekToFirst (merged_iter I cmp) x k = Some (s', k') \<and> wok k' \<and> merged_pos ys (list_op cmp ys To_first m) s'"
    unfolding simps iter_ops.simps
    by (rule merged_move_ok [OF pos]) (use k below.first [OF k] cursor.first [OF M k] in \<open>simp_all add: list_op_def\<close>)
  show "\<exists>s' k'. ip_SeekToLast (merged_iter I cmp) x k = Some (s', k') \<and> wok k' \<and> merged_pos ys (list_op cmp ys To_last m) s'"
    unfolding simps iter_ops.simps
    by (rule merged_move_ok [OF pos]) (use k below.last [OF k] cursor.last [OF M k] in \<open>simp_all add: list_op_def\<close>)
  show "\<exists>s' k'. ip_Next (merged_iter I cmp) x k = Some (s', k') \<and> wok k' \<and> merged_pos ys (list_op cmp ys Forward m) s'" if "m < length ys"
    unfolding simps iter_ops.simps
    by (rule merged_move_ok [OF pos]) (use k that below.forward [OF k] cursor.forward [OF M k] in \<open>simp_all add: list_op_def\<close>)
  show "\<exists>s' k'. ip_Prev (merged_iter I cmp) x k = Some (s', k') \<and> wok k' \<and> merged_pos ys (list_op cmp ys Backward m) s'" if "m < length ys"
    unfolding simps iter_ops.simps
    by (rule merged_move_ok [OF pos]) (use k that below.backward [OF k] cursor.backward [OF M k] in \<open>simp_all add: list_op_def\<close>)
  show "wok (ip_delete (merged_iter I cmp) x k)"
    using pos k below.delete cursor.delete [OF M] by (cases x) (fastforce simp: simps merged_pos_def)+
qed

lemma NewMergingIterator_pos:
  assumes ok: "merge_ok zs (length ss)" and at: "\<And>j. j < length ss \<Longrightarrow> \<exists>p. at (part zs j) p (ss ! j)"
  shows "\<exists>m. merged_pos (map snd zs) m (NewMergingIterator I ss)"
proof (cases ss)
  case Nil
  then have "zs = []" using ok by (cases zs) (auto simp: merge_ok_def simp del: split_paired_All)
  then show ?thesis by (auto simp: Nil NewMergingIterator_def merged_pos_def)
next
  case (Cons s ss')
  show ?thesis
  proof (cases ss')
    case Nil
    then have "\<forall>z\<in>set zs. fst z = 0" using ok Cons by (simp add: merge_ok_def)
    then have "part zs 0 = map snd zs" by (simp add: part_def)
    then show ?thesis using at [of 0] Cons Nil by (simp add: NewMergingIterator_def merged_pos_def)
  next
    case many: (Cons s' ss'')
    then show ?thesis
      using new_MergingIterator_pos [OF ok at] Cons by (auto simp: NewMergingIterator_def merged_pos_def)
  qed
qed

end

section \<open>The merge exists\<close>

text \<open>Sorted lists without a common key have a merge.\<close>

fun merge_lists :: "compare_op \<Rightarrow> labelled \<Rightarrow> labelled \<Rightarrow> labelled" where
  "merge_lists cmp [] bs = bs"
| "merge_lists cmp as [] = as"
| "merge_lists cmp (a # as) (b # bs) =
     (if cmp (fst (snd a)) (fst (snd b)) < 0 then a # merge_lists cmp as (b # bs) else b # merge_lists cmp (a # as) bs)"

primrec merge_all :: "compare_op \<Rightarrow> nat \<Rightarrow> entry list list \<Rightarrow> labelled" where
  "merge_all cmp i [] = []"
| "merge_all cmp i (xs # xss) = merge_lists cmp (map (Pair i) xs) (merge_all cmp (Suc i) xss)"

lemma set_merge_lists [simp]: "set (merge_lists cmp as bs) = set as \<union> set bs"
  by (induction cmp as bs rule: merge_lists.induct) auto

lemma part_merge_lists:
  "\<forall>a\<in>set as. fst a = i \<Longrightarrow> \<forall>b\<in>set bs. fst b \<noteq> i \<Longrightarrow>
    part (merge_lists cmp as bs) j = (if j = i then map snd as else part bs j)"
proof (induction cmp as bs rule: merge_lists.induct)
  case (3 cmp a as b bs)
  then show ?case by (auto simp: part_def)
qed (auto simp: part_def)

lemma merge_all_labels: "z \<in> set (merge_all cmp i xss) \<Longrightarrow> i \<le> fst z \<and> fst z < i + length xss"
  by (induction xss arbitrary: i) fastforce+

lemma part_merge_all: "j < length xss \<Longrightarrow> part (merge_all cmp i xss) (i + j) = xss ! j"
proof (induction xss arbitrary: i j)
  case (Cons xs xss)
  have "part (merge_lists cmp (map (Pair i) xs) (merge_all cmp (Suc i) xss)) (i + j) =
      (if i + j = i then map snd (map (Pair i) xs) else part (merge_all cmp (Suc i) xss) (i + j))"
    by (rule part_merge_lists) (auto dest: merge_all_labels)
  then show ?case using Cons.IH [of "j - 1" "Suc i"] Cons.prems by (cases j) (simp_all add: comp_def)
qed simp

lemma set_merge_all: "snd ` set (merge_all cmp i xss) = (\<Union>xs\<in>set xss. set xs)"
  by (induction xss arbitrary: i) (auto simp: image_Un image_image)

context comparator
begin

abbreviation key_less :: "(nat \<times> entry) \<Rightarrow> (nat \<times> entry) \<Rightarrow> bool" where
  "key_less a b \<equiv> cmp (fst (snd a)) (fst (snd b)) < 0"

lemma merge_lists_sorted:
  "c = cmp \<Longrightarrow> sorted_wrt key_less as \<Longrightarrow> sorted_wrt key_less bs \<Longrightarrow> \<forall>a\<in>set as. \<forall>b\<in>set bs. fst (snd a) \<noteq> fst (snd b) \<Longrightarrow>
    \<forall>z\<in>set as \<union> set bs. valid (fst (snd z)) \<Longrightarrow> sorted_wrt key_less (merge_lists c as bs)"
proof (induction c as bs rule: merge_lists.induct)
  case (3 c a as b bs)
  have v: "valid (fst (snd a))" "valid (fst (snd b))" using "3.prems"(5) by simp_all
  show ?case
  proof (cases "key_less a b")
    case True
    have "key_less a z" if "z \<in> set bs" for z
      using cmp_trans [OF v(1,2) _ True, of "fst (snd z)"] "3.prems"(3,5) that by simp
    then show ?thesis using 3 True by auto
  next
    case False
    have less: "key_less b a" using False cmp_eq [OF v] cmp_flip [OF v(2,1)] "3.prems"(4) by fastforce
    have "key_less b z" if "z \<in> set as" for z
      using cmp_trans [OF v(2,1) _ less, of "fst (snd z)"] "3.prems"(2,5) that by simp
    then show ?thesis using 3 False less by auto
  qed
qed simp_all

lemma merge_all_sorted:
  assumes "\<forall>xs\<in>set xss. sorted_wrt (\<lambda>a b. cmp (fst a) (fst b) < 0) xs \<and> (\<forall>x\<in>set xs. valid (fst x))"
    and "sorted_wrt (\<lambda>xs ys. \<forall>x\<in>set xs. \<forall>y\<in>set ys. fst x \<noteq> fst y) xss"
  shows "sorted_wrt key_less (merge_all cmp i xss)"
  using assms
proof (induction xss arbitrary: i)
  case (Cons xs xss)
  have entry: "\<exists>ys\<in>set xss. snd z \<in> set ys" if "z \<in> set (merge_all cmp (Suc i) xss)" for z
    using set_merge_all [of cmp "Suc i" xss] that by blast
  have "sorted_wrt key_less (merge_lists cmp (map (Pair i) xs) (merge_all cmp (Suc i) xss))"
  proof (rule merge_lists_sorted [OF refl])
    show "sorted_wrt key_less (map (Pair i) xs)" using Cons.prems(1) by (simp add: sorted_wrt_map)
    show "sorted_wrt key_less (merge_all cmp (Suc i) xss)" using Cons by simp
    show "\<forall>a\<in>set (map (Pair i) xs). \<forall>b\<in>set (merge_all cmp (Suc i) xss). fst (snd a) \<noteq> fst (snd b)"
      using Cons.prems(2) entry by fastforce
    show "\<forall>z\<in>set (map (Pair i) xs) \<union> set (merge_all cmp (Suc i) xss). valid (fst (snd z))"
      using Cons.prems(1) entry by fastforce
  qed
  then show ?case by simp
qed simp

end

context merging_inputs
begin

lemma merge_all_ok:
  assumes "\<forall>xs\<in>set xss. sorted_wrt (\<lambda>a b. cmp (fst a) (fst b) < 0) xs \<and> (\<forall>x\<in>set xs. target_ok (fst x))"
    and "sorted_wrt (\<lambda>xs ys. \<forall>x\<in>set xs. \<forall>y\<in>set ys. fst x \<noteq> fst y) xss"
  shows "merge_ok (merge_all cmp 0 xss) (length xss)"
proof -
  have "sorted_wrt key_less (merge_all cmp 0 xss)" using merge_all_sorted assms target_valid by blast
  moreover have "fst z < length xss \<and> target_ok (fst (snd z))" if "z \<in> set (merge_all cmp 0 xss)" for z
    using that merge_all_labels [of z cmp 0 xss] set_merge_all [of cmp 0 xss] assms(1) by fastforce
  ultimately show ?thesis using target_valid by (simp add: merge_ok_def)
qed

end

end
