(* ===== verification/LdbDbIterTheorems.thy ===== *)
theory LdbDbIterTheorems
  imports LdbDbIterCursor LdbMergerProofs LdbMemTableProofs
begin

text \<open>
  The iterator of a database over the merge of the iterators of its memtables: what \<open>DBImpl\<close> builds for a database whose
  data is in its memtables, the one that is written and those that are full. The iterators refer to the memtables, which do not
  change while they are used here.
\<close>

section \<open>The iterator of a memtable\<close>

definition mem_iter :: "compare_op \<Rightarrow> (memtable \<times> sl_iter, 'k) iter_ops" where
  "mem_iter ucmp =
     \<lparr>ip_Valid = (\<lambda>(mt, it). it \<noteq> None), ip_key = (\<lambda>(mt, it). the (mem_key mt it)), ip_value = (\<lambda>(mt, it). the (mem_value mt it)),
      ip_status = (\<lambda>_. OK),
      ip_Seek = (\<lambda>target (mt, it) k. do { it \<leftarrow> mem_Seek ucmp mt target; Some ((mt, it), k) }),
      ip_SeekToFirst = (\<lambda>(mt, it) k. do { it \<leftarrow> mem_SeekToFirst mt; Some ((mt, it), k) }),
      ip_SeekToLast = (\<lambda>(mt, it) k. do { it \<leftarrow> mem_SeekToLast mt; Some ((mt, it), k) }),
      ip_Next = (\<lambda>(mt, it) k. do { it \<leftarrow> mem_Next mt it; Some ((mt, it), k) }),
      ip_Prev = (\<lambda>(mt, it) k. do { it \<leftarrow> mem_Prev ucmp mt it; Some ((mt, it), k) }),
      ip_delete = (\<lambda>_ k. k)\<rparr>"

definition MemTable_NewIterator :: "memtable \<Rightarrow> memtable \<times> sl_iter" where
  "MemTable_NewIterator mt = (mt, None)"

primrec fill_memtables :: "compare_op \<Rightarrow> nat \<Rightarrow> batch_op list list list \<Rightarrow> memtable list option" where
  "fill_memtables ucmp s [] = Some []"
| "fill_memtables ucmp s (bs # bss) =
     do { mt \<leftarrow> insert_batches ucmp s bs new_MemTable; mts \<leftarrow> fill_memtables ucmp (s + length (concat bs)) bss; Some (mt # mts) }"

section \<open>Its entries\<close>

lemma option_join_eqI: "(\<And>v. a = Some v \<longleftrightarrow> b = Some (Some v)) \<Longrightarrow> a = Option.bind b (\<lambda>r. r)"
  by (cases a; cases b) (auto, metis option.exhaust)

definition mem_decode :: "u8 list \<Rightarrow> entry" where
  "mem_decode k =
     (case mem_slice k of None \<Rightarrow> ([], []) | Some (ik, p) \<Rightarrow> (ik, case mem_slice p of None \<Rightarrow> [] | Some (v, _) \<Rightarrow> v))"

definition mem_list :: "memtable \<Rightarrow> entry list" where
  "mem_list mt = map mem_decode (sl_keys (mt_table mt))"

definition mem_at :: "compare_op \<Rightarrow> (u8 list \<Rightarrow> bool) \<Rightarrow> entry list \<Rightarrow> nat \<Rightarrow> memtable \<times> sl_iter \<Rightarrow> bool" where
  "mem_at ucmp valid xs i mi \<longleftrightarrow>
     (case mi of (mt, it) \<Rightarrow>
        (\<exists>es. mem_holds ucmp valid mt es) \<and> xs = mem_list mt \<and> i \<le> length xs \<and> it = sl_pos (mt_table mt) i)"

text \<open>The entries that numbered updates add.\<close>

fun ent_entry :: "mem_ent \<Rightarrow> entry" where
  "ent_entry (s, t, key, val) = (ikey s t key, val)"

definition log_entries :: "nat \<Rightarrow> batch_op list \<Rightarrow> entry set" where
  "log_entries s0 ops = {ent_entry (op_ent (s0 + n) (ops ! n)) | n. n < length ops}"

lemma length_mem_list [simp]: "length (mem_list mt) = length (order (mt_table mt))"
  by (simp add: mem_list_def)

lemma mem_decode_entry:
  assumes "ent_ok valid (s, t, key, val)"
  shows "mem_decode (mem_entry s t key val) = (ikey s t key, val)"
proof -
  have "mem_slice (slice_bytes val) = Some (val, [])" using assms mem_slice_bytes [of val "[]"] by simp
  then show ?thesis using ent_slice [OF assms] by (simp add: mem_decode_def)
qed

text \<open>The \<open>i\<close>-th key of the skip list is an entry that was added.\<close>

lemma mem_nth:
  assumes holds: "mem_holds ucmp valid mt es" and i: "i < length (order (mt_table mt))"
  obtains s t key val where "(s, t, key, val) \<in> set es" "ent_ok valid (s, t, key, val)"
    "sl_keys (mt_table mt) ! i = mem_entry s t key val" "mem_list mt ! i = (ikey s t key, val)"
proof -
  have "sl_keys (mt_table mt) ! i \<in> ent_bytes ` set es" using holds i nth_mem by (metis length_sl_keys mem_holds_def)
  then obtain s t key val where e: "(s, t, key, val) \<in> set es" "sl_keys (mt_table mt) ! i = mem_entry s t key val"
    by (auto elim!: ent_bytes.elims)
  then have ok: "ent_ok valid (s, t, key, val)" using holds by (auto simp: mem_holds_def list_all_iff)
  show ?thesis by (rule that [OF e(1) ok e(2)]) (use e(2) mem_decode_entry [OF ok] i in \<open>simp add: mem_list_def\<close>)
qed

lemma mem_set:
  assumes "mem_holds ucmp valid mt es"
  shows "set (mem_list mt) = (\<lambda>(s, t, key, val). (ikey s t key, val)) ` set es"
proof -
  have "mem_decode (ent_bytes e) = (\<lambda>(s, t, key, val). (ikey s t key, val)) e" if "e \<in> set es" for e
  proof -
    have "ent_ok valid e" using assms that by (simp add: mem_holds_def list_all_iff)
    then show ?thesis by (cases e) (simp add: mem_decode_entry [of valid] del: ent_ok.simps)
  qed
  then show ?thesis using assms by (simp add: mem_list_def mem_holds_def image_image)
qed

lemma mem_key_value:
  assumes "mem_holds ucmp valid mt es" and i: "i < length (order (mt_table mt))"
  shows "mem_key mt (sl_pos (mt_table mt) i) = Some (fst (mem_list mt ! i))"
    "mem_value mt (sl_pos (mt_table mt) i) = Some (snd (mem_list mt ! i))"
proof -
  obtain s t key val where e: "ent_ok valid (s, t, key, val)" "sl_keys (mt_table mt) ! i = mem_entry s t key val"
      "mem_list mt ! i = (ikey s t key, val)"
    by (rule mem_nth [OF assms])
  have k: "iter_key (mt_table mt) (sl_pos (mt_table mt) i) = Some (mem_entry s t key val)"
    using i e(2) by (simp add: iter_key_def sl_pos_def sl_keys_def)
  have "mem_slice (slice_bytes val) = Some (val, [])" using e(1) mem_slice_bytes [of val "[]"] by simp
  then show "mem_key mt (sl_pos (mt_table mt) i) = Some (fst (mem_list mt ! i))"
    "mem_value mt (sl_pos (mt_table mt) i) = Some (snd (mem_list mt ! i))"
    using ent_slice [OF e(1)] e(3) by (simp_all add: mem_key_def mem_value_def k)
qed

lemma value_type_code_le: "value_type_code t \<le> 1"
  by (cases t) simp_all

definition mem_key_ok :: "(u8 list \<Rightarrow> bool) \<Rightarrow> u8 list \<Rightarrow> bool" where
  "mem_key_ok valid key \<longleftrightarrow> valid key \<and> length key + 8 < 2 ^ 32"

abbreviation mem_target_ok :: "(u8 list \<Rightarrow> bool) \<Rightarrow> u8 list \<Rightarrow> bool" where
  "mem_target_ok valid \<equiv> \<lambda>k. 8 \<le> length k \<and> mem_key_ok valid (ExtractUserKey k)"

context comparator
begin

lemma mem_cursor:
  "cursor (mem_iter cmp) (InternalCompare cmp) (\<lambda>k. 8 \<le> length k \<and> mem_key_ok valid (ExtractUserKey k)) (\<lambda>_. True) (mem_at cmp valid)"
proof (unfold_locales)
  fix xs i mi k
  assume "mem_at cmp valid xs i mi"
  then obtain mt es where mi: "mi = (mt, sl_pos (mt_table mt) i)" and holds: "mem_holds cmp valid mt es" and xs: "xs = mem_list mt"
    and i: "i \<le> length (order (mt_table mt))"
    by (auto simp: mem_at_def split: prod.splits)
  let ?sl = "mt_table mt"
  have inv: "sl_inv (KeyComparator cmp) (mem_ok valid) ?sl" using holds by (simp add: mem_holds_def)
  then have at: "sl_at ?sl (order ?sl)" by (simp add: sl_inv_def)
  have at_pos: "mem_at cmp valid xs j (mt, sl_pos ?sl j)" if "j \<le> length (order ?sl)" for j
    using that holds by (auto simp: mem_at_def xs)
  show "i \<le> length xs \<and> (ip_Valid (mem_iter cmp) mi \<longleftrightarrow> i < length xs)"
    using i by (simp add: mem_iter_def mi xs sl_pos_def)
  show "ip_status (mem_iter cmp) mi = OK" by (simp add: mem_iter_def)
  show "ip_key (mem_iter cmp) mi = fst (xs ! i) \<and> ip_value (mem_iter cmp) mi = snd (xs ! i)" if "i < length xs"
    using mem_key_value [OF holds] that by (simp add: mem_iter_def mi xs)
  show "\<exists>s' k'. ip_Seek (mem_iter cmp) target mi k = Some (s', k') \<and> True \<and>
      mem_at cmp valid xs (list_op (InternalCompare cmp) xs (Seek_to target) i) s'"
    if target: "8 \<le> length target \<and> mem_key_ok valid (ExtractUserKey target)" for target
  proof -
    have "length target < 2 ^ 32" using target by (auto simp: mem_key_ok_def ExtractUserKey_def)
    then have slice: "mem_slice (EncodeKey target) = Some (target, [])"
      using mem_slice_bytes [of target "[]"] by (simp add: EncodeKey_def slice_bytes_def PutVarint32_def)
    then have ok: "mem_ok valid (EncodeKey target)" using target by (simp add: mem_ok_def mem_key_ok_def)
    have "KeyComparator cmp k (EncodeKey target) < 0 \<longleftrightarrow> InternalCompare cmp (fst (mem_decode k)) target < 0" if "k \<in> set (sl_keys ?sl)" for k
    proof -
      have "k \<in> ent_bytes ` set es" using that holds by (simp add: mem_holds_def)
      then obtain e where e: "e \<in> set es" "k = ent_bytes e" by blast
      then have "ent_ok valid e" using holds by (simp add: mem_holds_def list_all_iff)
      then show ?thesis using e(2) 
        by (cases e) (simp add: KeyComparator_def slice ent_slice [of valid] mem_decode_entry [of valid] del: ent_ok.simps)
    qed
    then have "takeWhile (\<lambda>k. KeyComparator cmp k (EncodeKey target) < 0) (sl_keys ?sl) =
        takeWhile (\<lambda>k. InternalCompare cmp (fst (mem_decode k)) target < 0) (sl_keys ?sl)"
      by (intro takeWhile_cong) simp_all
    then have "mem_Seek cmp mt target = Some (sl_pos ?sl (list_op (InternalCompare cmp) xs (Seek_to target) i))"
      using key_order.seek_inv [OF mem_order inv ok]
      by (simp add: mem_Seek_def iter_Seek_def list_op_def xs mem_list_def takeWhile_map comp_def)
    moreover have "list_op (InternalCompare cmp) xs (Seek_to target) i \<le> length (order ?sl)"
      using length_takeWhile_le [of _ xs] by (simp add: list_op_def xs)
    ultimately show ?thesis using at_pos by (simp add: mem_iter_def mi)
  qed
  show "\<exists>s' k'. ip_SeekToFirst (mem_iter cmp) mi k = Some (s', k') \<and> True \<and> mem_at cmp valid xs (list_op (InternalCompare cmp) xs To_first i) s'"
    using iter_First_at [OF at] at_pos by (simp add: mem_iter_def mi mem_SeekToFirst_def list_op_def)
  show "\<exists>s' k'. ip_SeekToLast (mem_iter cmp) mi k = Some (s', k') \<and> True \<and> mem_at cmp valid xs (list_op (InternalCompare cmp) xs To_last i) s'"
  proof -
    have "iter_SeekToLast ?sl = Some (sl_pos ?sl (list_op (InternalCompare cmp) xs To_last i))"
      using iter_Last_at [OF at] by (cases "order ?sl = []") (simp_all add: list_op_def xs sl_pos_def mem_list_def sl_keys_def)
    then show ?thesis using at_pos by (simp add: mem_iter_def mi mem_SeekToLast_def) (simp add: list_op_def xs)
  qed
  show "\<exists>s' k'. ip_Next (mem_iter cmp) mi k = Some (s', k') \<and> True \<and> mem_at cmp valid xs (list_op (InternalCompare cmp) xs Forward i) s'"
    if "i < length xs"
    using iter_Next_at [OF at] at_pos that by (simp add: mem_iter_def mi mem_Next_def list_op_def xs)
  show "\<exists>s' k'. ip_Prev (mem_iter cmp) mi k = Some (s', k') \<and> True \<and> mem_at cmp valid xs (list_op (InternalCompare cmp) xs Backward i) s'"
    if il: "i < length xs"
  proof -
    have "iter_Prev (KeyComparator cmp) ?sl (sl_pos ?sl i) = Some (sl_pos ?sl (list_op (InternalCompare cmp) xs Backward i))"
      using key_order.prev_inv [OF mem_order inv, of i] il by (cases "i = 0") (auto simp: list_op_def xs sl_pos_def)
    moreover have "list_op (InternalCompare cmp) xs Backward i \<le> length (order ?sl)" using il by (auto simp: list_op_def xs)
    ultimately show ?thesis using at_pos by (simp add: mem_iter_def mi mem_Prev_def)
  qed
qed simp

lemma mem_entries_ok:
  assumes holds: "mem_holds cmp valid mt es"
  shows "entries_ok cmp valid (mem_list mt)"
  unfolding entries_ok_def
proof
  show "list_all (entry_ok valid) (mem_list mt)"
    unfolding list_all_length
  proof (intro allI impI)
    fix i assume "i < length (mem_list mt)"
    then have i: "i < length (order (mt_table mt))" by simp
    show "entry_ok valid (mem_list mt ! i)"
      by (rule mem_nth [OF holds i]) (auto simp: entry_ok_def euser_def pack_parts(1) value_type_code_le)
  qed
  have "sorted_wrt (\<lambda>a b. KeyComparator cmp a b < 0) (sl_keys (mt_table mt))" using holds by (simp add: mem_holds_def sl_inv_def)
  then have less: "KeyComparator cmp (sl_keys (mt_table mt) ! i) (sl_keys (mt_table mt) ! j) < 0" if "i < j" "j < length (order (mt_table mt))" for i j
    using that by (simp add: sorted_wrt_iff_nth_less)
  show "sorted_wrt (\<lambda>a b. InternalCompare cmp (fst a) (fst b) < 0) (mem_list mt)"
    unfolding sorted_wrt_iff_nth_less
  proof (intro allI impI)
    fix i j
    assume ij: "i < j" "j < length (mem_list mt)"
    then have i: "i < length (order (mt_table mt))" and j: "j < length (order (mt_table mt))" by simp_all
    obtain s t key val where e: "ent_ok valid (s, t, key, val)" "sl_keys (mt_table mt) ! i = mem_entry s t key val"
        "mem_list mt ! i = (ikey s t key, val)"
      by (rule mem_nth [OF holds i])
    obtain s' t' key' val' where e': "ent_ok valid (s', t', key', val')" "sl_keys (mt_table mt) ! j = mem_entry s' t' key' val'"
        "mem_list mt ! j = (ikey s' t' key', val')"
      by (rule mem_nth [OF holds j])
    show "InternalCompare cmp (fst (mem_list mt ! i)) (fst (mem_list mt ! j)) < 0"
      using less [OF ij(1) j] ent_compare [OF e(1) e'(1)] by (simp add: e(2,3) e'(2,3))
  qed
qed

lemma view_sorted:
  assumes ok: "entries_ok cmp valid xs"
  shows "sorted_wrt (\<lambda>a b. cmp (fst a) (fst b) < 0) (view s xs)"
proof -
  have "sorted_wrt (\<lambda>i j. cmp (euser (xs ! i)) (euser (xs ! j)) < 0) (filter (shows_at s xs) [0..<length xs])"
  proof (rule sorted_wrt_mono_rel [of _ "\<lambda>i j. i < j"])
    fix i j
    assume "i \<in> set (filter (shows_at s xs) [0..<length xs])" "j \<in> set (filter (shows_at s xs) [0..<length xs])" and less: "i < j"
    then have shown: "shows_at s xs i" "shows_at s xs j" "i < length xs" "j < length xs" by simp_all
    then have ne: "euser (xs ! i) \<noteq> euser (xs ! j)" using less by (auto simp: shows_at_def)
    have "InternalCompare cmp (fst (xs ! i)) (fst (xs ! j)) < 0"
      using ok less shown(4) by (simp add: entries_ok_def sorted_wrt_iff_nth_less)
    moreover have "valid (euser (xs ! i))" "valid (euser (xs ! j))"
      using ok shown(3,4) by (simp_all add: entries_ok_def list_all_length entry_ok_def)
    ultimately show "cmp (euser (xs ! i)) (euser (xs ! j)) < 0"
      using cmp_eq ne by (auto simp: InternalCompare_tag euser_def Let_def split: if_splits)
  qed (simp add: sorted_wrt_filter)
  then show ?thesis by (simp add: view_def sorted_wrt_map)
qed

lemma sorted_distinct_keys:
  assumes "sorted_wrt (\<lambda>a b. cmp (fst a) (fst b) < 0) ys" and "\<forall>y\<in>set ys. valid (fst y)"
  shows "distinct (map fst ys)"
  using assms cmp_refl by (induction ys) fastforce+

text \<open>A list in order is determined by its elements.\<close>

lemma sorted_unique:
  fixes xs ys :: "entry list"
  assumes "sorted_wrt (\<lambda>a b. cmp (fst a) (fst b) < 0) xs" and "sorted_wrt (\<lambda>a b. cmp (fst a) (fst b) < 0) ys"
    and "set xs = set ys" and "\<forall>x\<in>set xs. valid (fst x)"
  shows "xs = ys"
  using assms
proof (induction xs arbitrary: ys)
  case (Cons x xs)
  then obtain y ys' where ys: "ys = y # ys'" by (cases ys) auto
  have least: "u = v" if "u = v \<or> cmp (fst v) (fst u) < 0" "v = u \<or> cmp (fst u) (fst v) < 0" "valid (fst u)" "valid (fst v)" for u v :: entry
    using that cmp_flip by fastforce
  have "x \<in> set ys" "y \<in> set (x # xs)" using Cons.prems(3) ys by auto
  then have "x = y" using Cons.prems(1,2,4) ys by (intro least) auto
  moreover have "x \<notin> set xs" "y \<notin> set ys'" using Cons.prems(1,2,4) ys cmp_refl \<open>x = y\<close> by fastforce+
  ultimately have "set xs = set ys'" using Cons.prems(3) ys by auto
  then show ?case using Cons \<open>x = y\<close> ys by simp
qed simp

lemma view_lookup:
  assumes ok: "entries_ok cmp valid xs"
  shows "map_of (view s xs) key = Some v \<longleftrightarrow> (\<exists>i. shows_at s xs i \<and> euser (xs ! i) = key \<and> snd (xs ! i) = v)"
proof -
  have set: "set (view s xs) = {(euser (xs ! i), snd (xs ! i)) | i. shows_at s xs i}"
    by (auto simp: view_def shows_at_def)
  have "\<forall>y\<in>set (view s xs). valid (fst y)"
    using ok by (auto simp: set shows_at_def entries_ok_def list_all_length entry_ok_def)
  then have "distinct (map fst (view s xs))" using sorted_distinct_keys view_sorted [OF ok] by blast
  then show ?thesis by (auto simp: map_of_eq_Some_iff set)
qed

text \<open>What a snapshot of the memtable shows is the abstract database.\<close>

lemma replay_Some:
  assumes "replay ops key = Some r"
  shows "\<exists>n<length ops. op_key (ops ! n) = key \<and> op_result (ops ! n) = r \<and> (\<forall>m. n < m \<and> m < length ops \<longrightarrow> op_key (ops ! m) \<noteq> key)"
  using assms
proof (induction ops rule: rev_induct)
  case (snoc p ops)
  show ?case
  proof (cases "op_key p = key")
    case True
    then show ?thesis using snoc.prems by (intro exI [of _ "length ops"]) (auto simp: replay_snoc)
  next
    case False
    then obtain n where "n < length ops" "op_key (ops ! n) = key" "op_result (ops ! n) = r"
        "\<forall>m. n < m \<and> m < length ops \<longrightarrow> op_key (ops ! m) \<noteq> key"
      using snoc by (auto simp: replay_snoc)
    then show ?thesis using False by (intro exI [of _ n]) (auto simp: nth_append less_Suc_eq)
  qed
qed (simp add: replay_def)

lemma op_entry:
  assumes "n < 2 ^ 56" and "e = ent_entry (op_ent n p)"
  shows "euser e = op_key p" "eseq e = of_nat n" "etype e = kTypeValue \<longleftrightarrow> (\<exists>v. op_result p = Some v)"
    "op_result p = Some v \<Longrightarrow> snd e = v" "tag (fst e) = ent_tag (op_ent n p)"
  using assms(2) pack_parts(1,2) [OF seq_nat(2) [OF assms(1)]]
  by (cases p; simp add: euser_def eseq_def etype_def)+

lemma log_view:
  assumes ok: "entries_ok cmp valid xs" and entries: "set xs = log_entries s0 ops" and fits: "s0 + length ops \<le> 2 ^ 56" and s: "s < 2 ^ 56"
  shows "map_of (view (of_nat s) xs) key = Option.bind (replay (visible s0 s ops) key) (\<lambda>r. r)"
proof -
  let ?vis = "visible s0 s ops" and ?xs = "xs"
  have bound: "\<And>n. n < length ops \<Longrightarrow> s0 + n < 2 ^ 56" using fits by simp
  note set = entries [unfolded log_entries_def]
  have vis: "of_nat (s0 + n) \<le> (of_nat s :: u64) \<longleftrightarrow> n < length ?vis" if "n < length ops" for n
    using seq_nat(1) [OF bound [OF that]] seq_nat(1) [OF s] that
    by (auto simp: word_le_nat_alt visible_def simp del: of_nat_add)
  have entry: "\<exists>n<length ops. ?xs ! i = ent_entry (op_ent (s0 + n) (ops ! n))" if "i < length ?xs" for i
    using nth_mem [OF that] unfolding set by auto
  have index: "\<exists>i<length ?xs. ?xs ! i = ent_entry (op_ent (s0 + n) (ops ! n))" if "n < length ops" for n
  proof -
    have "ent_entry (op_ent (s0 + n) (ops ! n)) \<in> set ?xs" unfolding set using that by blast
    then show ?thesis by (auto simp: in_set_conv_nth)
  qed
  have newer: "j < i \<longleftrightarrow> n < m"
    if "i < length ?xs" "?xs ! i = ent_entry (op_ent (s0 + n) (ops ! n))" "n < length ops"
      "j < length ?xs" "?xs ! j = ent_entry (op_ent (s0 + m) (ops ! m))" "m < length ops" "op_key (ops ! m) = op_key (ops ! n)" for i j n m
  proof -
    note E = op_entry [OF bound [OF that(3)] that(2)] op_entry [OF bound [OF that(6)] that(5)]
    have v: "valid (euser (?xs ! i))" using ok that(1) by (simp add: entries_ok_def list_all_length entry_ok_def)
    have cmp0: "cmp (ExtractUserKey (fst (?xs ! a))) (ExtractUserKey (fst (?xs ! b))) = 0" if "a \<in> {i, j}" "b \<in> {i, j}" for a b
      using that E \<open>op_key (ops ! m) = op_key (ops ! n)\<close> cmp_refl [OF v] by (auto simp: euser_def)
    have sorted: "a < b \<Longrightarrow> b < length ?xs \<Longrightarrow> InternalCompare cmp (fst (?xs ! a)) (fst (?xs ! b)) < 0" for a b
      using ok by (simp add: entries_ok_def sorted_wrt_iff_nth_less)
    have tags: "tag (fst (?xs ! b)) < tag (fst (?xs ! a))" if "a < b" "b < length ?xs" "a \<in> {i, j}" "b \<in> {i, j}" for a b
      using sorted [OF that(1,2)] cmp0 [OF that(3,4)] by (auto simp: InternalCompare_tag Let_def split: if_splits)
    have nm: "n < m \<Longrightarrow> tag (fst (?xs ! i)) < tag (fst (?xs ! j))" "m < n \<Longrightarrow> tag (fst (?xs ! j)) < tag (fst (?xs ! i))"
      using op_ent_tag(2) [OF bound bound] that(3,6) E(5,10) by simp_all
    show ?thesis
    proof
      assume "j < i"
      then have lt: "tag (fst (?xs ! i)) < tag (fst (?xs ! j))" using tags [of j i] that(1) by simp
      then have "n \<noteq> m" using E(5,10) by (auto simp del: ent_tag.simps)
      then show "n < m" using nm(2) lt by (metis linorder_neqE_nat less_asym)
    next
      assume "n < m"
      then have lt: "tag (fst (?xs ! i)) < tag (fst (?xs ! j))" by (rule nm(1))
      then have "i \<noteq> j" by auto
      then show "j < i" using tags [of i j] lt that(4) by (metis insertCI linorder_neqE_nat less_asym)
    qed
  qed
  have "map_of (view (of_nat s) ?xs) key = Some v \<longleftrightarrow> replay ?vis key = Some (Some v)" for v
  proof
    assume "map_of (view (of_nat s) ?xs) key = Some v"
    then obtain i where i: "shows_at (of_nat s) ?xs i" "euser (?xs ! i) = key" "snd (?xs ! i) = v"
      unfolding view_lookup [OF ok] by blast
    then have il: "i < length ?xs" by (simp add: shows_at_def)
    obtain n where n: "n < length ops" "?xs ! i = ent_entry (op_ent (s0 + n) (ops ! n))" using entry [OF il] by blast
    note E = op_entry [OF bound [OF n(1)] n(2)]
    have r: "op_result (ops ! n) = Some v" using E(3,4) i by (auto simp: shows_at_def)
    have nv: "n < length ?vis" using i(1) E(2) vis [OF n(1)] by (simp add: shows_at_def)
    have "op_key (?vis ! m) \<noteq> key" if m: "n < m" "m < length ?vis" for m
    proof
      assume k: "op_key (?vis ! m) = key"
      have ml: "m < length ops" and mk: "op_key (ops ! m) = op_key (ops ! n)" using m k E(1) i(2) by (simp_all add: visible_def)
      obtain j where j: "j < length ?xs" "?xs ! j = ent_entry (op_ent (s0 + m) (ops ! m))" using index [OF ml] by blast
      have "j < i" using newer [OF il n(2,1) j ml mk] m(1) by simp
      moreover have "euser (?xs ! j) = euser (?xs ! i)" "eseq (?xs ! j) \<le> of_nat s"
        using op_entry(1,2) [OF bound [OF ml] j(2)] E(1) mk vis [OF ml] m(2) by simp_all
      ultimately show False using i(1) by (auto simp: shows_at_def)
    qed
    then show "replay ?vis key = Some (Some v)"
      using replay_last [OF nv, of key] E(1) i(2) r nv by (simp add: visible_def)
  next
    assume "replay ?vis key = Some (Some v)"
    then obtain n where n: "n < length ?vis" "op_key (?vis ! n) = key" "op_result (?vis ! n) = Some v"
        "\<forall>m. n < m \<and> m < length ?vis \<longrightarrow> op_key (?vis ! m) \<noteq> key"
      using replay_Some by blast
    have nl: "n < length ops" "ops ! n = ?vis ! n" using n(1) by (simp_all add: visible_def)
    obtain i where i: "i < length ?xs" "?xs ! i = ent_entry (op_ent (s0 + n) (ops ! n))" using index [OF nl(1)] by blast
    note E = op_entry [OF bound [OF nl(1)] i(2)]
    have "\<not> eseq (?xs ! j) \<le> of_nat s" if j: "j < i" "euser (?xs ! j) = euser (?xs ! i)" for j
    proof
      assume seen: "eseq (?xs ! j) \<le> of_nat s"
      have jl: "j < length ?xs" using j(1) i(1) by simp
      obtain m where m: "m < length ops" "?xs ! j = ent_entry (op_ent (s0 + m) (ops ! m))" using entry [OF jl] by blast
      note F = op_entry [OF bound [OF m(1)] m(2)]
      have mv: "m < length ?vis" using seen F(2) vis [OF m(1)] by simp
      have mk: "op_key (ops ! m) = op_key (ops ! n)" using j(2) E(1) F(1) by simp
      have "n < m" using newer [OF i nl(1) jl m(2,1) mk] j(1) by simp
      moreover have "?vis ! m = ops ! m" using mv by (simp add: visible_def)
      ultimately show False using n(2,4) mv mk nl(2) by metis
    qed
    then have "shows_at (of_nat s) ?xs i"
      using i(1) E(2,3) vis [OF nl(1)] n(1,3) nl(2) by (simp add: shows_at_def)
    then show "map_of (view (of_nat s) ?xs) key = Some v"
      unfolding view_lookup [OF ok] using E(1) E(4) [of v] n(2,3) nl(2) by auto
  qed
  from option_join_eqI [OF this] show ?thesis .
qed

text \<open>Memtables filled one after the other.\<close>

lemma log_entries_append: "log_entries s0 (ops @ ops') = log_entries s0 ops \<union> log_entries (s0 + length ops) ops'"
proof (intro set_eqI iffI)
  fix x
  assume "x \<in> log_entries s0 (ops @ ops')"
  then obtain n where n: "n < length ops + length ops'" "x = ent_entry (op_ent (s0 + n) ((ops @ ops') ! n))"
    by (auto simp: log_entries_def)
  show "x \<in> log_entries s0 ops \<union> log_entries (s0 + length ops) ops'"
  proof (cases "n < length ops")
    case True
    then show ?thesis using n(2) by (auto simp: log_entries_def nth_append)
  next
    case False
    then have "x = ent_entry (op_ent (s0 + length ops + (n - length ops)) (ops' ! (n - length ops)))" "n - length ops < length ops'"
      using n by (simp_all add: nth_append)
    then show ?thesis unfolding log_entries_def by blast
  qed
next
  fix x
  assume "x \<in> log_entries s0 ops \<union> log_entries (s0 + length ops) ops'"
  then consider n where "n < length ops" "x = ent_entry (op_ent (s0 + n) (ops ! n))"
    | m where "m < length ops'" "x = ent_entry (op_ent (s0 + length ops + m) (ops' ! m))"
    by (auto simp: log_entries_def)
  then have "\<exists>n<length (ops @ ops'). x = ent_entry (op_ent (s0 + n) ((ops @ ops') ! n))"
  proof cases
    case 1
    then show ?thesis by (intro exI [of _ n]) (simp add: nth_append)
  next
    case 2
    then show ?thesis by (intro exI [of _ "length ops + m"]) (simp add: nth_append add.assoc)
  qed
  then show "x \<in> log_entries s0 (ops @ ops')" unfolding log_entries_def by blast
qed

lemma mem_log_entries:
  assumes "mem_log cmp valid s0 ops mt"
  shows "set (mem_list mt) = log_entries s0 ops"
proof -
  have ent: "ent_entry = (\<lambda>(s, t, key, val). (ikey s t key, val))" by (auto simp: fun_eq_iff)
  have holds: "mem_holds cmp valid mt (log_ents s0 ops)" using assms by (simp add: mem_log_def)
  show ?thesis unfolding mem_set [OF holds] ent [symmetric] by (auto simp: log_ents_def log_entries_def)
qed

lemma log_entries_keys:
  assumes "s0 + length ops + length ops' \<le> 2 ^ 56" and "x \<in> log_entries s0 ops" and "y \<in> log_entries (s0 + length ops) ops'"
  shows "fst x \<noteq> fst y"
proof -
  obtain n where n: "n < length ops" "x = ent_entry (op_ent (s0 + n) (ops ! n))" using assms(2) by (auto simp: log_entries_def)
  obtain m where m: "m < length ops'" "y = ent_entry (op_ent (s0 + length ops + m) (ops' ! m))" using assms(3) by (auto simp: log_entries_def)
  have lt: "s0 + n < 2 ^ 56" "s0 + length ops + m < 2 ^ 56" using assms(1) n(1) m(1) by simp_all
  have "ent_tag (op_ent (s0 + n) (ops ! n)) < ent_tag (op_ent (s0 + length ops + m) (ops' ! m))"
    using n(1) by (intro op_ent_tag(2) lt) simp
  then show ?thesis using op_entry(5) [OF lt(1) n(2)] op_entry(5) [OF lt(2) m(2)] by auto
qed

lemma fill_memtables_log:
  assumes "\<forall>bs\<in>set bss. \<forall>ops\<in>set bs. list_all (op_ok valid) ops" and "s0 + length (concat (concat bss)) \<le> 2 ^ 56"
  shows "\<exists>mts. fill_memtables cmp s0 bss = Some mts \<and> (\<forall>mt\<in>set mts. \<exists>es. mem_holds cmp valid mt es) \<and>
    (\<Union>mt\<in>set mts. set (mem_list mt)) = log_entries s0 (concat (concat bss)) \<and>
    sorted_wrt (\<lambda>a b. \<forall>x\<in>set (mem_list a). \<forall>y\<in>set (mem_list b). fst x \<noteq> fst y) mts"
  using assms
proof (induction bss arbitrary: s0)
  case Nil
  then show ?case by (simp add: log_entries_def)
next
  case (Cons bs bss)
  have "mem_log cmp valid s0 [] new_MemTable" using Cons.prems(2) by (intro new_MemTable_log) simp
  from insert_batches_log [OF this, of bs] Cons.prems
  obtain mt where mt: "insert_batches cmp s0 bs new_MemTable = Some mt" "mem_log cmp valid s0 (concat bs) mt" by auto
  obtain mts where mts: "fill_memtables cmp (s0 + length (concat bs)) bss = Some mts" "\<forall>mt\<in>set mts. \<exists>es. mem_holds cmp valid mt es"
      "(\<Union>mt\<in>set mts. set (mem_list mt)) = log_entries (s0 + length (concat bs)) (concat (concat bss))"
      "sorted_wrt (\<lambda>a b. \<forall>x\<in>set (mem_list a). \<forall>y\<in>set (mem_list b). fst x \<noteq> fst y) mts"
    using Cons.IH [of "s0 + length (concat bs)"] Cons.prems by auto
  have "fst x \<noteq> fst y" if "x \<in> set (mem_list mt)" "m \<in> set mts" "y \<in> set (mem_list m)" for x y m
    using log_entries_keys [of s0 "concat bs" "concat (concat bss)" x y] that mem_log_entries [OF mt(2)] mts(3) Cons.prems(2) by auto
  then show ?case
    using mt mts mem_log_entries [OF mt(2)] log_entries_append [of s0 "concat bs" "concat (concat bss)"]
    by (auto simp: mem_log_def)
qed

text \<open>The iterator of their merge.\<close>

lemma mem_merging:
  "merging_inputs (InternalCompare cmp) (InternalSeparator cmp separator) (InternalSuccessor cmp successor) valid_internal (mem_iter cmp)
    (mem_target_ok valid) (\<lambda>_. True) (mem_at cmp valid)"
  by (intro merging_inputs.intro merging_inputs_axioms.intro internal_comparator mem_cursor)
    (simp add: mem_key_ok_def valid_internal_def)

abbreviation mems_at :: "entry list \<Rightarrow> nat \<Rightarrow> (memtable \<times> sl_iter) merged \<Rightarrow> bool" where
  "mems_at \<equiv> merging_inputs.merged_pos (InternalCompare cmp) valid_internal (mem_target_ok valid) (mem_at cmp valid)"

lemma mem_db_iterator:
  "db_iterator cmp separator successor valid (mem_key_ok valid) (merged_iter (mem_iter cmp) (InternalCompare cmp)) (\<lambda>_. True) mems_at sample"
  by (intro db_iterator.intro db_iterator_axioms.intro comparator_axioms merging_inputs.merged_cursor [OF mem_merging])
    (simp_all add: mem_key_ok_def)

lemma mem_merge:
  assumes holds: "\<forall>mt\<in>set ms. \<exists>es. mem_holds cmp valid mt es"
    and apart: "sorted_wrt (\<lambda>a b. \<forall>x\<in>set (mem_list a). \<forall>y\<in>set (mem_list b). fst x \<noteq> fst y) ms"
  shows "\<exists>xs m. entries_ok cmp valid xs \<and> set xs = (\<Union>mt\<in>set ms. set (mem_list mt)) \<and>
    mems_at xs m (NewMergingIterator (mem_iter cmp) (map MemTable_NewIterator ms))"
proof -
  let ?xss = "map mem_list ms"
  let ?zs = "merge_all (InternalCompare cmp) 0 ?xss"
  have each: "entries_ok cmp valid (mem_list mt) \<and> (\<forall>x\<in>set (mem_list mt). mem_target_ok valid (fst x))" if mt: "mt \<in> set ms" for mt
  proof -
    obtain es where es: "mem_holds cmp valid mt es" using holds mt by blast
    have "mem_target_ok valid (fst (mem_list mt ! i))" if "i < length (mem_list mt)" for i
      by (rule mem_nth [OF es]) (use that in \<open>auto simp: mem_key_ok_def\<close>)
    then show ?thesis using mem_entries_ok [OF es] by (metis in_set_conv_nth)
  qed
  have ok: "merging_inputs.merge_ok (InternalCompare cmp) valid_internal (mem_target_ok valid) ?zs (length ?xss)"
    by (rule merging_inputs.merge_all_ok [OF mem_merging]) (use each apart in \<open>simp_all add: entries_ok_def sorted_wrt_map\<close>)
  have set: "set (map snd ?zs) = (\<Union>mt\<in>set ms. set (mem_list mt))" by (simp add: set_merge_all)
  have "list_all (entry_ok valid) (map snd ?zs)"
    unfolding list_all_iff set using each by (fastforce simp: entries_ok_def list_all_iff)
  moreover have "sorted_wrt (\<lambda>a b. InternalCompare cmp (fst a) (fst b) < 0) (map snd ?zs)"
    using ok unfolding merging_inputs.merge_ok_def [OF mem_merging] by (simp add: sorted_wrt_map)
  ultimately have entries: "entries_ok cmp valid (map snd ?zs)" by (simp add: entries_ok_def)
  have at: "\<exists>p. mem_at cmp valid (part ?zs j) p (map MemTable_NewIterator ms ! j)" if "j < length (map MemTable_NewIterator ms)" for j
  proof -
    have "part ?zs j = mem_list (ms ! j)" using part_merge_all [of j ?xss "InternalCompare cmp" 0] that by simp
    moreover have "mem_at cmp valid (mem_list (ms ! j)) (length (mem_list (ms ! j))) (MemTable_NewIterator (ms ! j))"
      using holds that by (auto simp: mem_at_def MemTable_NewIterator_def sl_pos_def)
    ultimately show ?thesis using that by auto
  qed
  have "merging_inputs.merge_ok (InternalCompare cmp) valid_internal (mem_target_ok valid) ?zs (length (map MemTable_NewIterator ms))"
    using ok by simp
  from merging_inputs.NewMergingIterator_pos [OF mem_merging this at] show ?thesis using entries set by blast
qed

end

interpretation memtable_iterator: cursor "mem_iter Slice_compare" "InternalCompare Slice_compare" "mem_target_ok (\<lambda>_. True)" "\<lambda>_. True"
  "mem_at Slice_compare (\<lambda>_. True)"
  by (rule bytewise.mem_cursor)

interpretation memtables_merge: merging_inputs "InternalCompare Slice_compare" "InternalSeparator Slice_compare FindShortestSeparator"
  "InternalSuccessor Slice_compare FindShortSuccessor" "comparator.valid_internal (\<lambda>_. True)" "mem_iter Slice_compare" "mem_target_ok (\<lambda>_. True)"
  "\<lambda>_. True" "mem_at Slice_compare (\<lambda>_. True)"
  by (rule bytewise.mem_merging)

interpretation memtables_db: db_iterator Slice_compare FindShortestSeparator FindShortSuccessor "\<lambda>_. True" "mem_key_ok (\<lambda>_. True)"
  "merged_iter (mem_iter Slice_compare) (InternalCompare Slice_compare)" "\<lambda>_. True" "memtables_merge.merged_pos" sample
  for sample
  by (rule bytewise.mem_db_iterator)

interpretation db_cursor: cursor "DBIter (merged_iter (mem_iter Slice_compare) (InternalCompare Slice_compare)) Slice_compare sample" Slice_compare
  "mem_key_ok (\<lambda>_. True)" "\<lambda>_. True" "memtables_db.dpos"
  for sample
  by (rule memtables_db.db_cursor)

section \<open>Property\<close>

text \<open>
  C31. A client that opens an iterator at a snapshot of a database in any number of memtables, filled one after the other and
  merged newest first, and then seeks and moves in any order sees the map that the updates up to the snapshot make: the
  keys that are not deleted, in order, each once, with their last values; every operation returns.
\<close>

theorem ldb_db_iterator_refines:
  assumes "comparator ucmp separator successor valid" and "\<forall>bs\<in>set bss. \<forall>ops\<in>set bs. list_all (op_ok valid) ops"
    and "s0 + length (concat (concat bss)) \<le> 2 ^ 56" and "s < 2 ^ 56"
  shows "\<exists>mts ys. fill_memtables ucmp s0 bss = Some mts \<and>
    sorted_wrt (\<lambda>a b. ucmp (fst a) (fst b) < 0) ys \<and>
    (\<forall>key. map_of ys key = Option.bind (replay (visible s0 s (concat (concat bss))) key) (\<lambda>r. r)) \<and>
    (\<forall>cs seed (sample :: u8 list \<Rightarrow> 'k \<Rightarrow> 'k) k.
      (\<forall>target. Seek_to target \<in> set cs \<longrightarrow> valid target \<and> length target + 8 < 2 ^ 32) \<longrightarrow>
      (\<exists>di k'. iter_run (DBIter (merged_iter (mem_iter ucmp) (InternalCompare ucmp)) ucmp sample) cs
          (new_DBIter (NewMergingIterator (mem_iter ucmp :: (memtable \<times> sl_iter, 'k) iter_ops) (map MemTable_NewIterator (rev mts))) (of_nat s) seed) k =
        Some (list_run ucmp ys cs (length ys), di, k')))"
proof -
  obtain mts where mts: "fill_memtables ucmp s0 bss = Some mts" "\<forall>mt\<in>set mts. \<exists>es. mem_holds ucmp valid mt es"
      "(\<Union>mt\<in>set mts. set (mem_list mt)) = log_entries s0 (concat (concat bss))"
      "sorted_wrt (\<lambda>a b. \<forall>x\<in>set (mem_list a). \<forall>y\<in>set (mem_list b). fst x \<noteq> fst y) mts"
    using comparator.fill_memtables_log [OF assms(1-3)] by blast
  obtain xs m where xs: "entries_ok ucmp valid xs" "set xs = log_entries s0 (concat (concat bss))"
      and at: "comparator.mems_at ucmp valid xs m (NewMergingIterator (mem_iter ucmp :: (memtable \<times> sl_iter, 'k) iter_ops) (map MemTable_NewIterator (rev mts)))"
  proof -
    have "\<forall>mt\<in>set (rev mts). \<exists>es. mem_holds ucmp valid mt es" using mts(2) by simp
    moreover have "sorted_wrt (\<lambda>a b. \<forall>x\<in>set (mem_list a). \<forall>y\<in>set (mem_list b). fst x \<noteq> fst y) (rev mts)"
      unfolding sorted_wrt_rev by (rule sorted_wrt_mono_rel [OF _ mts(4)]) (metis (no_types))
    ultimately show ?thesis using comparator.mem_merge [OF assms(1), of "rev mts"] mts(3) that by auto
  qed
  note D = comparator.mem_db_iterator [OF assms(1)]
  let ?ys = "view (of_nat s) xs"
  have "\<exists>di k'. iter_run (DBIter (merged_iter (mem_iter ucmp) (InternalCompare ucmp)) ucmp sample) cs
      (new_DBIter (NewMergingIterator (mem_iter ucmp :: (memtable \<times> sl_iter, 'k) iter_ops) (map MemTable_NewIterator (rev mts))) (of_nat s) seed) k =
      Some (list_run ucmp ?ys cs (length ?ys), di, k')"
    if targets: "\<forall>target. Seek_to target \<in> set cs \<longrightarrow> valid target \<and> length target + 8 < 2 ^ 32"
    for cs seed and sample :: "u8 list \<Rightarrow> 'k \<Rightarrow> 'k" and k
  proof -
    note C = db_iterator.db_cursor [OF D, where sample = sample]
    note pos = db_iterator.new_DBIter_pos [OF D [where sample = sample] xs(1) at seq_nat(2) [OF assms(4)], of seed]
    have "\<forall>target. Seek_to target \<in> set cs \<longrightarrow> mem_key_ok valid target" using targets by (simp add: mem_key_ok_def)
    then have "\<exists>di k'. iter_run (DBIter (merged_iter (mem_iter ucmp) (InternalCompare ucmp)) ucmp sample) cs
        (new_DBIter (NewMergingIterator (mem_iter ucmp :: (memtable \<times> sl_iter, 'k) iter_ops) (map MemTable_NewIterator (rev mts))) (of_nat s) seed) k =
        Some (list_run ucmp ?ys cs (length ?ys), di, k') \<and> True"
      by (intro cursor.iter_run_ok [OF C] TrueI pos)
    then show ?thesis by (simp only: simp_thms)
  qed
  then show ?thesis
    by (intro exI [of _ mts] exI [of _ ?ys] conjI allI impI mts(1) comparator.view_sorted [OF assms(1) xs(1)]
      comparator.log_view [OF assms(1) xs assms(3,4)])
qed

theorem ldb_db_iterator_refines_witness:
  "\<exists>mts di k'. fill_memtables Slice_compare 7 [[[Put_op [107] [1]]], [[Put_op [108] [2], Delete_op [107]]]] = Some mts \<and>
    iter_run (DBIter (merged_iter (mem_iter Slice_compare) (InternalCompare Slice_compare)) Slice_compare (\<lambda>key n. n + 1))
      [To_first, Forward, Backward, Seek_to [], Backward, To_last, Backward]
      (new_DBIter (NewMergingIterator (mem_iter Slice_compare :: (memtable \<times> sl_iter, nat) iter_ops) (map MemTable_NewIterator (rev mts))) 8 0) (0 :: nat) =
    Some ([Some ([107], [1]), Some ([108], [2]), Some ([107], [1]), Some ([107], [1]), None, Some ([108], [2]), Some ([107], [1])], di, k')"
proof -
  let ?bss = "[[[Put_op [107] [1]]], [[Put_op [108] [2], Delete_op [107]]]]"
  let ?ops = "[To_first, Forward, Backward, Seek_to [], Backward, To_last, Backward]"
  let ?I = "DBIter (merged_iter (mem_iter Slice_compare) (InternalCompare Slice_compare)) Slice_compare"
  have "\<forall>bs\<in>set ?bss. \<forall>ops\<in>set bs. list_all (op_ok (\<lambda>_. True)) ops" "7 + length (concat (concat ?bss)) \<le> 2 ^ 56" "(8 :: nat) < 2 ^ 56" by simp_all
  from ldb_db_iterator_refines [OF bytewise.comparator_axioms this]
  obtain mts ys where mts: "fill_memtables Slice_compare 7 ?bss = Some mts"
    and sorted: "sorted_wrt (\<lambda>a b. Slice_compare (fst a) (fst b) < 0) ys"
    and map: "\<forall>key. map_of ys key = Option.bind (replay (visible 7 8 (concat (concat ?bss))) key) (\<lambda>r. r)"
    and all: "\<forall>cs seed (sample :: u8 list \<Rightarrow> nat \<Rightarrow> nat) k. (\<forall>target. Seek_to target \<in> set cs \<longrightarrow> True \<and> length target + 8 < 2 ^ 32) \<longrightarrow>
      (\<exists>di k'. iter_run (?I sample) cs
          (new_DBIter (NewMergingIterator (mem_iter Slice_compare :: (memtable \<times> sl_iter, nat) iter_ops) (map MemTable_NewIterator (rev mts))) (of_nat 8) seed) k =
        Some (list_run Slice_compare ys cs (length ys), di, k'))"
    by (elim exE conjE) (rule that)
  have "\<forall>target. Seek_to target \<in> set ?ops \<longrightarrow> True \<and> length target + 8 < 2 ^ 32" by simp
  note run = all [THEN spec [of _ ?ops], THEN spec [of _ 0], THEN spec [of _ "\<lambda>key n. n + 1"], THEN spec [of _ 0], THEN mp, OF this]
  have look: "map_of ys = [[107] \<mapsto> [1], [108] \<mapsto> [2]]"
    by (rule ext) (simp add: map replay_def visible_def)
  have "distinct (map fst ys)" by (rule bytewise.sorted_distinct_keys [OF sorted]) simp
  then have "set ys = {([107], [1]), ([108], [2])}"
    using look by (auto simp: map_of_eq_Some_iff [symmetric] fun_upd_def split: if_splits)
  moreover have "sorted_wrt (\<lambda>a b. Slice_compare (fst a) (fst b) < 0) [([107], [1]), ([108], [2])]" by (simp add: Slice_compare_simps)
  ultimately have "ys = [([107], [1]), ([108], [2])]" using sorted by (intro bytewise.sorted_unique) simp_all
  then have "list_run Slice_compare ys ?ops (length ys) =
      [Some ([107], [1]), Some ([108], [2]), Some ([107], [1]), Some ([107], [1]), None, Some ([108], [2]), Some ([107], [1])]"
    by (simp add: list_op_def list_entry_def Slice_compare_simps)
  moreover have "(of_nat 8 :: u64) = 8" by simp
  ultimately show ?thesis using mts run by auto
qed

end
