(* ===== verification/LdbVersionEdit.thy ===== *)
theory LdbVersionEdit
  imports LdbKey LdbNames LdbEnv
begin

text \<open>
  The changes to the set of files of a database that a descriptor log records (\<open>db/version_edit.cc\<close>). A
  level is an \<open>int\<close>; the ordered set of deleted files is the list in which its iterator visits it. An \<open>InternalKey\<close> is
  its bytes.
\<close>

section \<open>State\<close>

definition kNumLevels :: u32 where
  "kNumLevels = 7"

definition kComparator :: u32 where "kComparator = 1"
definition kLogNumber :: u32 where "kLogNumber = 2"
definition kNextFileNumber :: u32 where "kNextFileNumber = 3"
definition kLastSequence :: u32 where "kLastSequence = 4"
definition kCompactPointer :: u32 where "kCompactPointer = 5"
definition kDeletedFile :: u32 where "kDeletedFile = 6"
definition kNewFile :: u32 where "kNewFile = 7"
definition kPrevLogNumber :: u32 where "kPrevLogNumber = 9"

lemmas edit_tags = kComparator_def kLogNumber_def kNextFileNumber_def kLastSequence_def kCompactPointer_def
  kDeletedFile_def kNewFile_def kPrevLogNumber_def

record file_meta =
  fm_refs :: int
  fm_allowed_seeks :: int
  fm_number :: u64
  fm_file_size :: u64
  fm_smallest :: "u8 list"
  fm_largest :: "u8 list"

definition FileMetaData :: "u64 \<Rightarrow> u64 \<Rightarrow> u8 list \<Rightarrow> u8 list \<Rightarrow> file_meta" where
  "FileMetaData n sz smallest largest =
     \<lparr>fm_refs = 0, fm_allowed_seeks = 1073741824, fm_number = n, fm_file_size = sz, fm_smallest = smallest, fm_largest = largest\<rparr>"

record version_edit =
  ve_comparator :: "u8 list"
  ve_log_number :: u64
  ve_prev_log_number :: u64
  ve_next_file_number :: u64
  ve_last_sequence :: SequenceNumber
  ve_has_comparator :: bool
  ve_has_log_number :: bool
  ve_has_prev_log_number :: bool
  ve_has_next_file_number :: bool
  ve_has_last_sequence :: bool
  ve_compact_pointers :: "(int \<times> u8 list) list"
  ve_deleted_files :: "(int \<times> u64) list"
  ve_new_files :: "(int \<times> file_meta) list"

text \<open>\<open>Clear\<close> leaves the compaction pointers as they are.\<close>

definition ve_Clear :: "version_edit \<Rightarrow> version_edit" where
  "ve_Clear e =
     e\<lparr>ve_comparator := [], ve_log_number := 0, ve_prev_log_number := 0, ve_last_sequence := 0, ve_next_file_number := 0,
       ve_has_comparator := False, ve_has_log_number := False, ve_has_prev_log_number := False,
       ve_has_next_file_number := False, ve_has_last_sequence := False, ve_deleted_files := [], ve_new_files := []\<rparr>"

definition new_VersionEdit :: version_edit where
  "new_VersionEdit = ve_Clear
     \<lparr>ve_comparator = [], ve_log_number = 0, ve_prev_log_number = 0, ve_next_file_number = 0, ve_last_sequence = 0,
      ve_has_comparator = False, ve_has_log_number = False, ve_has_prev_log_number = False,
      ve_has_next_file_number = False, ve_has_last_sequence = False,
      ve_compact_pointers = [], ve_deleted_files = [], ve_new_files = []\<rparr>"

definition SetComparatorName :: "u8 list \<Rightarrow> version_edit \<Rightarrow> version_edit" where
  "SetComparatorName name e = e\<lparr>ve_has_comparator := True, ve_comparator := name\<rparr>"

definition SetLogNumber :: "u64 \<Rightarrow> version_edit \<Rightarrow> version_edit" where
  "SetLogNumber num e = e\<lparr>ve_has_log_number := True, ve_log_number := num\<rparr>"

definition SetPrevLogNumber :: "u64 \<Rightarrow> version_edit \<Rightarrow> version_edit" where
  "SetPrevLogNumber num e = e\<lparr>ve_has_prev_log_number := True, ve_prev_log_number := num\<rparr>"

definition SetNextFile :: "u64 \<Rightarrow> version_edit \<Rightarrow> version_edit" where
  "SetNextFile num e = e\<lparr>ve_has_next_file_number := True, ve_next_file_number := num\<rparr>"

definition SetLastSequence :: "SequenceNumber \<Rightarrow> version_edit \<Rightarrow> version_edit" where
  "SetLastSequence seq e = e\<lparr>ve_has_last_sequence := True, ve_last_sequence := seq\<rparr>"

definition SetCompactPointer :: "int \<Rightarrow> u8 list \<Rightarrow> version_edit \<Rightarrow> version_edit" where
  "SetCompactPointer level key e = e\<lparr>ve_compact_pointers := ve_compact_pointers e @ [(level, key)]\<rparr>"

definition AddFile :: "int \<Rightarrow> u64 \<Rightarrow> u64 \<Rightarrow> u8 list \<Rightarrow> u8 list \<Rightarrow> version_edit \<Rightarrow> version_edit" where
  "AddFile level n sz smallest largest e = e\<lparr>ve_new_files := ve_new_files e @ [(level, FileMetaData n sz smallest largest)]\<rparr>"

text \<open>Insertion into the set, which is ordered by level and number.\<close>

definition deleted_less :: "int \<times> u64 \<Rightarrow> int \<times> u64 \<Rightarrow> bool" where
  "deleted_less a b \<longleftrightarrow> fst a < fst b \<or> fst a = fst b \<and> snd a < snd b"

primrec deleted_insert :: "int \<times> u64 \<Rightarrow> (int \<times> u64) list \<Rightarrow> (int \<times> u64) list" where
  "deleted_insert x [] = [x]"
| "deleted_insert x (y # ys) =
     (if deleted_less x y then x # y # ys else if deleted_less y x then y # deleted_insert x ys else y # ys)"

definition ve_DeleteFile :: "int \<Rightarrow> u64 \<Rightarrow> version_edit \<Rightarrow> version_edit" where
  "ve_DeleteFile level n e = e\<lparr>ve_deleted_files := deleted_insert (level, n) (ve_deleted_files e)\<rparr>"

section \<open>\<open>EncodeTo\<close>\<close>

definition put_number :: "bool \<Rightarrow> u32 \<Rightarrow> u64 \<Rightarrow> u8 list \<Rightarrow> u8 list" where
  "put_number has tg v dst = (if has then PutVarint64 (PutVarint32 dst tg) v else dst)"

definition put_compact_pointer :: "int \<times> u8 list \<Rightarrow> u8 list \<Rightarrow> u8 list" where
  "put_compact_pointer cp dst =
     PutLengthPrefixedSlice (PutVarint32 (PutVarint32 dst kCompactPointer) (of_int (fst cp))) (snd cp)"

definition put_deleted_file :: "int \<times> u64 \<Rightarrow> u8 list \<Rightarrow> u8 list" where
  "put_deleted_file df dst = PutVarint64 (PutVarint32 (PutVarint32 dst kDeletedFile) (of_int (fst df))) (snd df)"

definition put_new_file :: "int \<times> file_meta \<Rightarrow> u8 list \<Rightarrow> u8 list" where
  "put_new_file nf dst =
     (let f = snd nf;
          dst = PutVarint32 (PutVarint32 dst kNewFile) (of_int (fst nf));
          dst = PutVarint64 (PutVarint64 dst (fm_number f)) (fm_file_size f) in
      PutLengthPrefixedSlice (PutLengthPrefixedSlice dst (fm_smallest f)) (fm_largest f))"

definition ve_EncodeTo :: "version_edit \<Rightarrow> u8 list \<Rightarrow> u8 list" where
  "ve_EncodeTo e dst =
     (let dst = (if ve_has_comparator e then PutLengthPrefixedSlice (PutVarint32 dst kComparator) (ve_comparator e) else dst);
          dst = put_number (ve_has_log_number e) kLogNumber (ve_log_number e) dst;
          dst = put_number (ve_has_prev_log_number e) kPrevLogNumber (ve_prev_log_number e) dst;
          dst = put_number (ve_has_next_file_number e) kNextFileNumber (ve_next_file_number e) dst;
          dst = put_number (ve_has_last_sequence e) kLastSequence (ve_last_sequence e) dst;
          dst = fold put_compact_pointer (ve_compact_pointers e) dst;
          dst = fold put_deleted_file (ve_deleted_files e) dst in
      fold put_new_file (ve_new_files e) dst)"

section \<open>\<open>DecodeFrom\<close>\<close>

definition GetInternalKey :: "u8 list \<Rightarrow> u8 list option \<times> u8 list" where
  "GetInternalKey inp = GetLengthPrefixedSlice inp"

definition GetLevel :: "u8 list \<Rightarrow> int option \<times> u8 list" where
  "GetLevel inp =
     (case GetVarint32 inp of
        (Some v, inp) \<Rightarrow> if v < kNumLevels then (Some (uint v), inp) else (None, inp)
      | (None, inp) \<Rightarrow> (None, inp))"

text \<open>A level and then something else.\<close>

definition get_with_level :: "(u8 list \<Rightarrow> 'a option \<times> u8 list) \<Rightarrow> u8 list \<Rightarrow> (int \<times> 'a) option \<times> u8 list" where
  "get_with_level get inp =
     (case GetLevel inp of (None, inp) \<Rightarrow> (None, inp) | (Some level, inp) \<Rightarrow>
      case get inp of (None, inp) \<Rightarrow> (None, inp) | (Some v, inp) \<Rightarrow> (Some (level, v), inp))"

definition get_new_file :: "u8 list \<Rightarrow> (int \<times> file_meta) option \<times> u8 list" where
  "get_new_file inp =
     (case GetLevel inp of (None, inp) \<Rightarrow> (None, inp) | (Some level, inp) \<Rightarrow>
      case GetVarint64 inp of (None, inp) \<Rightarrow> (None, inp) | (Some n, inp) \<Rightarrow>
      case GetVarint64 inp of (None, inp) \<Rightarrow> (None, inp) | (Some sz, inp) \<Rightarrow>
      case GetInternalKey inp of (None, inp) \<Rightarrow> (None, inp) | (Some smallest, inp) \<Rightarrow>
      case GetInternalKey inp of (None, inp) \<Rightarrow> (None, inp) | (Some largest, inp) \<Rightarrow>
        (Some (level, FileMetaData n sz smallest largest), inp))"

text \<open>What is read is stored; when it cannot be read there is a message.\<close>

definition get_part ::
  "'a option \<times> u8 list \<Rightarrow> ('a \<Rightarrow> version_edit \<Rightarrow> version_edit) \<Rightarrow> string \<Rightarrow> version_edit \<Rightarrow> string option \<times> u8 list \<times> version_edit" where
  "get_part r store msg e = (case r of (Some v, inp) \<Rightarrow> (None, inp, store v e) | (None, inp) \<Rightarrow> (Some msg, inp, e))"

definition decode_tag :: "u32 \<Rightarrow> u8 list \<Rightarrow> version_edit \<Rightarrow> string option \<times> u8 list \<times> version_edit" where
  "decode_tag tg inp =
     (if tg = kComparator then get_part (GetLengthPrefixedSlice inp) SetComparatorName ''comparator name''
      else if tg = kLogNumber then get_part (GetVarint64 inp) SetLogNumber ''log number''
      else if tg = kPrevLogNumber then get_part (GetVarint64 inp) SetPrevLogNumber ''previous log number''
      else if tg = kNextFileNumber then get_part (GetVarint64 inp) SetNextFile ''next file number''
      else if tg = kLastSequence then get_part (GetVarint64 inp) SetLastSequence ''last sequence number''
      else if tg = kCompactPointer then
        get_part (get_with_level GetInternalKey inp) (\<lambda>(level, key). SetCompactPointer level key) ''compaction pointer''
      else if tg = kDeletedFile then
        get_part (get_with_level GetVarint64 inp) (\<lambda>(level, n). ve_DeleteFile level n) ''deleted file''
      else if tg = kNewFile then get_part (get_new_file inp) (\<lambda>nf e. e\<lparr>ve_new_files := ve_new_files e @ [nf]\<rparr>) ''new-file entry''
      else (\<lambda>e. (Some ''unknown tag'', inp, e)))"

text \<open>The loop ends because every tag that is read is a byte less of input.\<close>

lemma GetVarint32_length: "GetVarint32 inp = (Some v, rest) \<Longrightarrow> length rest < length inp"
  by (cases inp) (auto simp: GetVarint32_def GetVarint32Ptr_v64 simp del: v64.simps(2) split: option.splits if_splits dest!: v64_pos)

lemma get_lengths:
  "length (snd (GetVarint32 inp)) \<le> length inp"
  "length (snd (GetVarint64 inp)) \<le> length inp"
  by (auto simp: GetVarint32_def GetVarint64_def GetVarint32Ptr_v64 GetVarint64Ptr_v64 split: option.split prod.split if_split)

lemma get_slice_length: "length (snd (GetLengthPrefixedSlice inp)) \<le> length inp"
  using get_lengths(1) [of inp] by (auto simp: GetLengthPrefixedSlice_def split: option.split prod.split)

lemma GetLevel_length: "length (snd (GetLevel inp)) \<le> length inp"
  using get_lengths(1) [of inp] by (auto simp: GetLevel_def split: option.split prod.split)

text \<open>One reader after another.\<close>

lemma then_length:
  assumes "length (snd r) \<le> n" and "\<And>v rest. length rest \<le> n \<Longrightarrow> length (snd (f v rest)) \<le> n"
  shows "length (snd (case r of (None, inp) \<Rightarrow> (None, inp) | (Some v, inp) \<Rightarrow> f v inp)) \<le> n"
  using assms by (auto split: option.split prod.split)

lemma get_with_level_length: "(\<And>inp. length (snd (get inp)) \<le> length inp) \<Longrightarrow> length (snd (get_with_level get inp)) \<le> length inp"
  unfolding get_with_level_def by (intro then_length GetLevel_length) (auto intro: order_trans)

lemma get_new_file_length: "length (snd (get_new_file inp)) \<le> length inp"
  unfolding get_new_file_def GetInternalKey_def
  by (intro then_length GetLevel_length) (auto intro: order_trans [OF get_lengths(2)] order_trans [OF get_slice_length])

lemma get_part_length: "length (snd r) \<le> length inp \<Longrightarrow> length (fst (snd (get_part r store msg e))) \<le> length inp"
  by (auto simp: get_part_def split: option.split prod.split)

lemma decode_tag_length: "length (fst (snd (decode_tag tg inp e))) \<le> length inp"
  unfolding decode_tag_def
  by (simp add: get_part_length get_lengths get_slice_length get_new_file_length get_with_level_length GetInternalKey_def)

lemma decode_tag_rest: "(m, rest, e') = decode_tag tg inp e \<Longrightarrow> length rest \<le> length inp"
  using decode_tag_length [of tg inp e] by (metis fst_conv snd_conv)

function edit_loop :: "u8 list \<Rightarrow> version_edit \<Rightarrow> string option \<times> u8 list \<times> version_edit" where
  "edit_loop inp e =
     (case GetVarint32 inp of
        (None, inp) \<Rightarrow> (None, inp, e)
      | (Some tg, inp) \<Rightarrow>
          (case decode_tag tg inp e of
             (Some msg, inp, e) \<Rightarrow> (Some msg, inp, e)
           | (None, inp, e) \<Rightarrow> edit_loop inp e))"
  by pat_completeness auto

termination
  by (relation "measure (\<lambda>(inp, e). length inp)") (auto dest!: decode_tag_rest GetVarint32_length [OF sym])

declare edit_loop.simps [simp del]

definition ve_DecodeFrom :: "u8 list \<Rightarrow> version_edit \<Rightarrow> ldb_status \<times> version_edit" where
  "ve_DecodeFrom src e =
     (case edit_loop src (ve_Clear e) of
        (msg, inp, e) \<Rightarrow>
          let msg = (if msg = None \<and> inp \<noteq> [] then Some ''invalid tag'' else msg) in
          (case msg of None \<Rightarrow> OK | Some m \<Rightarrow> Corruption (status_msg ''VersionEdit'' m), e))"

section \<open>\<open>DebugString\<close>\<close>

definition ParsedInternalKey_DebugString :: "ParsedInternalKey \<Rightarrow> string" where
  "ParsedInternalKey_DebugString k =
     [CHR 0x27] @ EscapeString (user_key k) @ [CHR 0x27] @ '' @ '' @ decimal (unat (sequence k)) @ '' : '' @
     decimal (unat (value_type_code (vtype k)))"

definition InternalKey_DebugString :: "u8 list \<Rightarrow> string" where
  "InternalKey_DebugString rep =
     (case ParseInternalKey rep of
        Some parsed \<Rightarrow> ParsedInternalKey_DebugString parsed
      | None \<Rightarrow> ''(bad)'' @ EscapeString rep)"

definition debug_number :: "bool \<Rightarrow> string \<Rightarrow> u64 \<Rightarrow> string \<Rightarrow> string" where
  "debug_number has label v r = (if has then AppendNumberTo (r @ [CHR 0x0A] @ ''  '' @ label @ '': '') v else r)"

definition debug_compact_pointer :: "int \<times> u8 list \<Rightarrow> string \<Rightarrow> string" where
  "debug_compact_pointer cp r =
     AppendNumberTo (r @ [CHR 0x0A] @ ''  CompactPointer: '') (of_int (fst cp)) @ '' '' @ InternalKey_DebugString (snd cp)"

definition debug_deleted_file :: "int \<times> u64 \<Rightarrow> string \<Rightarrow> string" where
  "debug_deleted_file df r = AppendNumberTo (AppendNumberTo (r @ [CHR 0x0A] @ ''  DeleteFile: '') (of_int (fst df)) @ '' '') (snd df)"

definition debug_new_file :: "int \<times> file_meta \<Rightarrow> string \<Rightarrow> string" where
  "debug_new_file nf r =
     (let f = snd nf;
          r = AppendNumberTo (r @ [CHR 0x0A] @ ''  AddFile: '') (of_int (fst nf));
          r = AppendNumberTo (AppendNumberTo (r @ '' '') (fm_number f) @ '' '') (fm_file_size f) in
      r @ '' '' @ InternalKey_DebugString (fm_smallest f) @ '' .. '' @ InternalKey_DebugString (fm_largest f))"

definition ve_DebugString :: "version_edit \<Rightarrow> string" where
  "ve_DebugString e =
     (let r = ''VersionEdit {'';
          r = (if ve_has_comparator e
               then r @ [CHR 0x0A] @ ''  Comparator: '' @ map (\<lambda>c. char_of (unat c)) (ve_comparator e) else r);
          r = debug_number (ve_has_log_number e) ''LogNumber'' (ve_log_number e) r;
          r = debug_number (ve_has_prev_log_number e) ''PrevLogNumber'' (ve_prev_log_number e) r;
          r = debug_number (ve_has_next_file_number e) ''NextFile'' (ve_next_file_number e) r;
          r = debug_number (ve_has_last_sequence e) ''LastSeq'' (ve_last_sequence e) r;
          r = fold debug_compact_pointer (ve_compact_pointers e) r;
          r = fold debug_deleted_file (ve_deleted_files e) r;
          r = fold debug_new_file (ve_new_files e) r in
      r @ [CHR 0x0A] @ ''}'' @ [CHR 0x0A])"

section \<open>Round trip\<close>

text \<open>What is encoded of every part.\<close>

definition number_bytes :: "bool \<Rightarrow> u32 \<Rightarrow> u64 \<Rightarrow> u8 list" where
  "number_bytes has tg v = (if has then EncodeVarint32 tg @ EncodeVarint64 v else [])"

definition pointer_bytes :: "int \<times> u8 list \<Rightarrow> u8 list" where
  "pointer_bytes cp = EncodeVarint32 kCompactPointer @ EncodeVarint32 (of_int (fst cp)) @ slice_bytes (snd cp)"

definition deleted_bytes :: "int \<times> u64 \<Rightarrow> u8 list" where
  "deleted_bytes df = EncodeVarint32 kDeletedFile @ EncodeVarint32 (of_int (fst df)) @ EncodeVarint64 (snd df)"

definition new_file_bytes :: "int \<times> file_meta \<Rightarrow> u8 list" where
  "new_file_bytes nf =
     EncodeVarint32 kNewFile @ EncodeVarint32 (of_int (fst nf)) @ EncodeVarint64 (fm_number (snd nf)) @
     EncodeVarint64 (fm_file_size (snd nf)) @ slice_bytes (fm_smallest (snd nf)) @ slice_bytes (fm_largest (snd nf))"

lemma fold_put: "(\<And>x dst. f x dst = dst @ g x) \<Longrightarrow> fold f xs dst = dst @ concat (map g xs)"
  by (induction xs arbitrary: dst) simp_all

lemma ve_EncodeTo_bytes:
  "ve_EncodeTo e dst = dst @
    (if ve_has_comparator e then EncodeVarint32 kComparator @ slice_bytes (ve_comparator e) else []) @
    number_bytes (ve_has_log_number e) kLogNumber (ve_log_number e) @
    number_bytes (ve_has_prev_log_number e) kPrevLogNumber (ve_prev_log_number e) @
    number_bytes (ve_has_next_file_number e) kNextFileNumber (ve_next_file_number e) @
    number_bytes (ve_has_last_sequence e) kLastSequence (ve_last_sequence e) @
    concat (map pointer_bytes (ve_compact_pointers e)) @ concat (map deleted_bytes (ve_deleted_files e)) @
    concat (map new_file_bytes (ve_new_files e))"
proof -
  have put: "put_number h t v d = d @ number_bytes h t v" "put_compact_pointer cp d = d @ pointer_bytes cp"
    "put_deleted_file df d = d @ deleted_bytes df" "put_new_file nf d = d @ new_file_bytes nf" for h t v d cp df nf
    by (simp_all add: put_number_def number_bytes_def put_compact_pointer_def pointer_bytes_def put_deleted_file_def deleted_bytes_def
      put_new_file_def new_file_bytes_def PutVarint32_def PutVarint64_def PutLengthPrefixedSlice_bytes Let_def)
  show ?thesis
    by (simp add: ve_EncodeTo_def Let_def put fold_put [of _ pointer_bytes] fold_put [of _ deleted_bytes] fold_put [of _ new_file_bytes]
      PutVarint32_def PutLengthPrefixedSlice_bytes)
qed

definition level_ok :: "int \<Rightarrow> bool" where
  "level_ok level \<longleftrightarrow> 0 \<le> level \<and> level < 7"

lemma GetLevel_bytes: "level_ok level \<Longrightarrow> GetLevel (EncodeVarint32 (of_int level) @ xs) = (Some level, xs)"
proof -
  assume l: "level_ok level"
  have "uint (of_int level :: u32) = level" using l by (simp add: level_ok_def uint_word_of_int take_bit_int_eq_self)
  moreover from this have "(of_int level :: u32) < 7" using l by (simp add: word_less_def level_ok_def)
  ultimately show ?thesis by (simp add: GetLevel_def GetVarint32_PutVarint32 kNumLevels_def)
qed

lemma decode_part:
  assumes "decode_tag tg (bs @ xs) e = (None, xs, e')"
  shows "edit_loop (EncodeVarint32 tg @ bs @ xs) e = edit_loop xs e'"
  by (subst edit_loop.simps) (simp add: GetVarint32_PutVarint32 assms)

lemma decode_comparator:
  "length name < 2 ^ 32 \<Longrightarrow> edit_loop (EncodeVarint32 kComparator @ slice_bytes name @ xs) e = edit_loop xs (SetComparatorName name e)"
  by (rule decode_part) (simp add: decode_tag_def get_part_def GetLengthPrefixedSlice_bytes)

lemma decode_numbers:
  "edit_loop (number_bytes h kLogNumber v @ xs) e = edit_loop xs (if h then SetLogNumber v e else e)"
  "edit_loop (number_bytes h kPrevLogNumber v @ xs) e = edit_loop xs (if h then SetPrevLogNumber v e else e)"
  "edit_loop (number_bytes h kNextFileNumber v @ xs) e = edit_loop xs (if h then SetNextFile v e else e)"
  "edit_loop (number_bytes h kLastSequence v @ xs) e = edit_loop xs (if h then SetLastSequence v e else e)"
  using decode_part [of _ "EncodeVarint64 v" xs e]
  by (auto simp: number_bytes_def decode_tag_def get_part_def GetVarint64_PutVarint64 edit_tags)

lemma decode_pointers:
  "\<forall>cp\<in>set cps. level_ok (fst cp) \<and> length (snd cp) < 2 ^ 32 \<Longrightarrow>
    edit_loop (concat (map pointer_bytes cps) @ xs) e = edit_loop xs (e\<lparr>ve_compact_pointers := ve_compact_pointers e @ cps\<rparr>)"
proof (induction cps arbitrary: e)
  case (Cons cp cps)
  have "decode_tag kCompactPointer ((EncodeVarint32 (of_int (fst cp)) @ slice_bytes (snd cp)) @ ys) e =
      (None, ys, e\<lparr>ve_compact_pointers := ve_compact_pointers e @ [cp]\<rparr>)" for ys
    using Cons.prems GetLevel_bytes [of "fst cp"] GetLengthPrefixedSlice_bytes [of "snd cp"]
    by (simp add: decode_tag_def get_part_def get_with_level_def edit_tags GetInternalKey_def SetCompactPointer_def case_prod_beta)
  from decode_part [OF this] show ?case using Cons by (simp add: pointer_bytes_def)
qed simp

lemma decode_deleted:
  "\<forall>df\<in>set dfs. level_ok (fst df) \<Longrightarrow>
    edit_loop (concat (map deleted_bytes dfs) @ xs) e =
      edit_loop xs (e\<lparr>ve_deleted_files := fold deleted_insert dfs (ve_deleted_files e)\<rparr>)"
proof (induction dfs arbitrary: e)
  case (Cons df dfs)
  have "decode_tag kDeletedFile ((EncodeVarint32 (of_int (fst df)) @ EncodeVarint64 (snd df)) @ ys) e =
      (None, ys, e\<lparr>ve_deleted_files := deleted_insert df (ve_deleted_files e)\<rparr>)" for ys
    using Cons.prems GetLevel_bytes [of "fst df"] by (simp add: decode_tag_def get_part_def get_with_level_def edit_tags ve_DeleteFile_def GetVarint64_PutVarint64 case_prod_beta)
  from decode_part [OF this] show ?case using Cons by (simp add: deleted_bytes_def)
qed simp

definition new_file_ok :: "int \<times> file_meta \<Rightarrow> bool" where
  "new_file_ok nf \<longleftrightarrow> level_ok (fst nf) \<and> length (fm_smallest (snd nf)) < 2 ^ 32 \<and> length (fm_largest (snd nf)) < 2 ^ 32 \<and>
     fm_refs (snd nf) = 0 \<and> fm_allowed_seeks (snd nf) = 1073741824"

lemma get_new_file_bytes:
  assumes "new_file_ok nf"
  shows "get_new_file ((EncodeVarint32 (of_int (fst nf)) @ EncodeVarint64 (fm_number (snd nf)) @
      EncodeVarint64 (fm_file_size (snd nf)) @ slice_bytes (fm_smallest (snd nf)) @ slice_bytes (fm_largest (snd nf))) @ ys) = (Some nf, ys)"
  using assms GetLevel_bytes [of "fst nf"] GetLengthPrefixedSlice_bytes [of "fm_smallest (snd nf)"]
    GetLengthPrefixedSlice_bytes [of "fm_largest (snd nf)"]
  by (cases nf; cases "snd nf") (simp add: new_file_ok_def get_new_file_def GetInternalKey_def FileMetaData_def GetVarint64_PutVarint64)

lemma decode_new_files:
  "\<forall>nf\<in>set nfs. new_file_ok nf \<Longrightarrow>
    edit_loop (concat (map new_file_bytes nfs) @ xs) e = edit_loop xs (e\<lparr>ve_new_files := ve_new_files e @ nfs\<rparr>)"
proof (induction nfs arbitrary: e)
  case (Cons nf nfs)
  have "new_file_ok nf" using Cons.prems by simp
  have "decode_tag kNewFile ((EncodeVarint32 (of_int (fst nf)) @ EncodeVarint64 (fm_number (snd nf)) @
      EncodeVarint64 (fm_file_size (snd nf)) @ slice_bytes (fm_smallest (snd nf)) @ slice_bytes (fm_largest (snd nf))) @ ys) e =
      (None, ys, e\<lparr>ve_new_files := ve_new_files e @ [nf]\<rparr>)" for ys
    unfolding decode_tag_def get_new_file_bytes [OF \<open>new_file_ok nf\<close>] by (simp add: edit_tags get_part_def)
  from decode_part [OF this] show ?case using Cons by (simp add: new_file_bytes_def)
qed simp

section \<open>Edits\<close>

datatype edit_op =
    Set_comparator "u8 list"
  | Set_log_number u64
  | Set_prev_log_number u64
  | Set_next_file u64
  | Set_last_sequence u64
  | Set_compact_pointer int "u8 list"
  | Add_file int u64 u64 "u8 list" "u8 list"
  | Delete_file int u64

primrec edit_with :: "edit_op \<Rightarrow> version_edit \<Rightarrow> version_edit" where
  "edit_with (Set_comparator name) = SetComparatorName name"
| "edit_with (Set_log_number n) = SetLogNumber n"
| "edit_with (Set_prev_log_number n) = SetPrevLogNumber n"
| "edit_with (Set_next_file n) = SetNextFile n"
| "edit_with (Set_last_sequence n) = SetLastSequence n"
| "edit_with (Set_compact_pointer level key) = SetCompactPointer level key"
| "edit_with (Add_file level n sz smallest largest) = AddFile level n sz smallest largest"
| "edit_with (Delete_file level n) = ve_DeleteFile level n"

primrec edit_op_ok :: "edit_op \<Rightarrow> bool" where
  "edit_op_ok (Set_comparator name) \<longleftrightarrow> length name < 2 ^ 32"
| "edit_op_ok (Set_log_number n) \<longleftrightarrow> True"
| "edit_op_ok (Set_prev_log_number n) \<longleftrightarrow> True"
| "edit_op_ok (Set_next_file n) \<longleftrightarrow> True"
| "edit_op_ok (Set_last_sequence n) \<longleftrightarrow> True"
| "edit_op_ok (Set_compact_pointer level key) \<longleftrightarrow> level_ok level \<and> length key < 2 ^ 32"
| "edit_op_ok (Add_file level n sz smallest largest) \<longleftrightarrow> level_ok level \<and> length smallest < 2 ^ 32 \<and> length largest < 2 ^ 32"
| "edit_op_ok (Delete_file level n) \<longleftrightarrow> level_ok level"

text \<open>What holds of every edit that is made this way: a number that is not set has its default, and the set is in order.\<close>

definition ve_ok :: "version_edit \<Rightarrow> bool" where
  "ve_ok e \<longleftrightarrow>
     (if ve_has_comparator e then length (ve_comparator e) < 2 ^ 32 else ve_comparator e = []) \<and>
     (ve_has_log_number e \<or> ve_log_number e = 0) \<and> (ve_has_prev_log_number e \<or> ve_prev_log_number e = 0) \<and>
     (ve_has_next_file_number e \<or> ve_next_file_number e = 0) \<and> (ve_has_last_sequence e \<or> ve_last_sequence e = 0) \<and>
     (\<forall>cp\<in>set (ve_compact_pointers e). level_ok (fst cp) \<and> length (snd cp) < 2 ^ 32) \<and>
     sorted_wrt deleted_less (ve_deleted_files e) \<and> (\<forall>df\<in>set (ve_deleted_files e). level_ok (fst df)) \<and>
     (\<forall>nf\<in>set (ve_new_files e). new_file_ok nf)"

lemma deleted_less_trans: "deleted_less a b \<Longrightarrow> deleted_less b c \<Longrightarrow> deleted_less a c"
  by (auto simp: deleted_less_def)

lemma deleted_total: "deleted_less a b \<or> a = b \<or> deleted_less b a"
  by (cases a; cases b) (auto simp: deleted_less_def)

lemma set_deleted_insert: "set (deleted_insert x ys) = insert x (set ys)"
  using deleted_total by (induction ys) (auto, blast+)

lemma sorted_deleted_insert: "sorted_wrt deleted_less ys \<Longrightarrow> sorted_wrt deleted_less (deleted_insert x ys)"
proof (induction ys)
  case (Cons y ys)
  then have "\<forall>z\<in>set ys. deleted_less x z" if "deleted_less x y" using that by (auto intro: deleted_less_trans)
  then show ?case using Cons by (simp add: set_deleted_insert)
qed simp

lemma deleted_insert_last: "\<forall>y\<in>set ys. deleted_less y x \<Longrightarrow> deleted_insert x ys = ys @ [x]"
proof (induction ys)
  case (Cons y ys)
  then have y: "deleted_less y x" and ys: "\<forall>z\<in>set ys. deleted_less z x" by simp_all
  from y have "\<not> deleted_less x y" by (auto simp: deleted_less_def)
  then show ?case using y Cons.IH [OF ys] by simp
qed simp

lemma fold_deleted_insert: "sorted_wrt deleted_less (ys @ xs) \<Longrightarrow> fold deleted_insert xs ys = ys @ xs"
proof (induction xs arbitrary: ys)
  case (Cons x xs)
  then have "deleted_insert x ys = ys @ [x]" by (intro deleted_insert_last) (simp add: sorted_wrt_append)
  then show ?case using Cons by simp
qed simp

lemma ve_ok_edit: "ve_ok e \<Longrightarrow> edit_op_ok p \<Longrightarrow> ve_ok (edit_with p e)"
  by (cases p) (auto simp: ve_ok_def SetComparatorName_def SetLogNumber_def SetPrevLogNumber_def SetNextFile_def SetLastSequence_def
    SetCompactPointer_def AddFile_def ve_DeleteFile_def new_file_ok_def FileMetaData_def set_deleted_insert sorted_deleted_insert)

lemma ve_ok_edits: "ve_ok e \<Longrightarrow> list_all edit_op_ok ps \<Longrightarrow> ve_ok (fold edit_with ps e)"
  by (induction ps arbitrary: e) (simp_all add: ve_ok_edit)

lemma new_VersionEdit_ok: "ve_ok new_VersionEdit"
  by (simp add: ve_ok_def new_VersionEdit_def ve_Clear_def)

lemma decode_encode:
  assumes ok: "ve_ok e"
  shows "ve_DecodeFrom (ve_EncodeTo e []) e0 = (OK, e\<lparr>ve_compact_pointers := ve_compact_pointers e0 @ ve_compact_pointers e\<rparr>)"
proof -
  define e1 where "e1 = (if ve_has_comparator e then SetComparatorName (ve_comparator e) (ve_Clear e0) else ve_Clear e0)"
  define e2 where "e2 = (if ve_has_log_number e then SetLogNumber (ve_log_number e) e1 else e1)"
  define e3 where "e3 = (if ve_has_prev_log_number e then SetPrevLogNumber (ve_prev_log_number e) e2 else e2)"
  define e4 where "e4 = (if ve_has_next_file_number e then SetNextFile (ve_next_file_number e) e3 else e3)"
  define e5 where "e5 = (if ve_has_last_sequence e then SetLastSequence (ve_last_sequence e) e4 else e4)"
  have start: "ve_comparator e5 = (if ve_has_comparator e then ve_comparator e else [])" "ve_has_comparator e5 = ve_has_comparator e"
    "ve_log_number e5 = (if ve_has_log_number e then ve_log_number e else 0)" "ve_has_log_number e5 = ve_has_log_number e"
    "ve_prev_log_number e5 = (if ve_has_prev_log_number e then ve_prev_log_number e else 0)" "ve_has_prev_log_number e5 = ve_has_prev_log_number e"
    "ve_next_file_number e5 = (if ve_has_next_file_number e then ve_next_file_number e else 0)" "ve_has_next_file_number e5 = ve_has_next_file_number e"
    "ve_last_sequence e5 = (if ve_has_last_sequence e then ve_last_sequence e else 0)" "ve_has_last_sequence e5 = ve_has_last_sequence e"
    "ve_deleted_files e5 = []" "ve_new_files e5 = []" "ve_compact_pointers e5 = ve_compact_pointers e0" "version_edit.more e5 = version_edit.more e"
    by (simp_all add: e5_def e4_def e3_def e2_def e1_def ve_Clear_def SetComparatorName_def SetLogNumber_def
      SetPrevLogNumber_def SetNextFile_def SetLastSequence_def)
  have head: "edit_loop ((if ve_has_comparator e then EncodeVarint32 kComparator @ slice_bytes (ve_comparator e) else []) @ xs) (ve_Clear e0) =
      edit_loop xs e1" for xs
  proof (cases "ve_has_comparator e")
    case True
    then have "length (ve_comparator e) < 2 ^ 32" using ok by (simp add: ve_ok_def)
    then show ?thesis using True decode_comparator by (simp add: e1_def)
  qed (simp add: e1_def)
  have parts: "\<forall>cp\<in>set (ve_compact_pointers e). level_ok (fst cp) \<and> length (snd cp) < 2 ^ 32"
    "\<forall>df\<in>set (ve_deleted_files e). level_ok (fst df)" "\<forall>nf\<in>set (ve_new_files e). new_file_ok nf"
    using ok by (auto simp: ve_ok_def)
  have stop: "edit_loop [] x = (None, [], x)" for x
    by (subst edit_loop.simps) (simp add: GetVarint32_def GetVarint32Ptr_v64)
  have "edit_loop (ve_EncodeTo e []) (ve_Clear e0) = (None, [],
      e5\<lparr>ve_compact_pointers := ve_compact_pointers e5 @ ve_compact_pointers e,
        ve_deleted_files := fold deleted_insert (ve_deleted_files e) (ve_deleted_files e5),
        ve_new_files := ve_new_files e5 @ ve_new_files e\<rparr>)"
    unfolding ve_EncodeTo_bytes append_Nil head decode_numbers e2_def [symmetric] e3_def [symmetric] e4_def [symmetric] e5_def [symmetric]
      decode_pointers [OF parts(1)] decode_deleted [OF parts(2)]
    using decode_new_files [OF parts(3), of "[]"] by (simp add: stop)
  moreover have "fold deleted_insert (ve_deleted_files e) [] = ve_deleted_files e"
    using ok fold_deleted_insert [of "[]" "ve_deleted_files e"] by (simp add: ve_ok_def)
  moreover have "ve_deleted_files e5 = []" "ve_new_files e5 = []" "ve_compact_pointers e5 = ve_compact_pointers e0"
    by (simp_all add: start)
  moreover have "e5\<lparr>ve_compact_pointers := x, ve_deleted_files := ve_deleted_files e, ve_new_files := ve_new_files e\<rparr> =
      e\<lparr>ve_compact_pointers := x\<rparr>" for x
    using ok by (intro version_edit.equality) (auto simp: start ve_ok_def split: if_splits)
  ultimately show ?thesis by (simp add: ve_DecodeFrom_def)
qed

section \<open>Property\<close>

text \<open>
  C32. Any edit that the setters make is read back from what \<open>EncodeTo\<close> writes, into a new edit exactly; an edit that was used before
  keeps its compaction pointers in front, which \<open>Clear\<close> forgets.
\<close>

theorem ldb_version_edit_roundtrip:
  assumes "list_all edit_op_ok ps" and "e = fold edit_with ps new_VersionEdit"
  shows "ve_DecodeFrom (ve_EncodeTo e []) new_VersionEdit = (OK, e) \<and>
    ve_DecodeFrom (ve_EncodeTo e []) old = (OK, e\<lparr>ve_compact_pointers := ve_compact_pointers old @ ve_compact_pointers e\<rparr>)"
proof -
  have ok: "ve_ok e" unfolding assms(2) by (rule ve_ok_edits [OF new_VersionEdit_ok assms(1)])
  have "e\<lparr>ve_compact_pointers := ve_compact_pointers new_VersionEdit @ ve_compact_pointers e\<rparr> = e"
    by (cases e) (simp add: new_VersionEdit_def ve_Clear_def)
  then show ?thesis using decode_encode [OF ok] by simp
qed

theorem ldb_version_edit_roundtrip_witness:
  "ve_DecodeFrom (ve_EncodeTo (SetCompactPointer 2 [107] (ve_DeleteFile 1 9 (SetLogNumber 7 new_VersionEdit))) [])
      (SetCompactPointer 0 [106] new_VersionEdit) =
    (OK, SetCompactPointer 2 [107] (SetCompactPointer 0 [106] (ve_DeleteFile 1 9 (SetLogNumber 7 new_VersionEdit))))"
  using ldb_version_edit_roundtrip [of "[Set_log_number 7, Delete_file 1 9, Set_compact_pointer 2 [107]]" _ "SetCompactPointer 0 [106] new_VersionEdit", OF _ refl]
  by (simp add: level_ok_def SetCompactPointer_def ve_DeleteFile_def SetLogNumber_def new_VersionEdit_def ve_Clear_def)

end
