(* ===== verification/LdbFiles.thy ===== *)
theory LdbFiles
  imports LdbVersionEdit LdbIterator
begin

text \<open>
  The files of the levels of a database and the choice of the files of a compaction (the part of
  \<open>db/version_set.cc\<close> that only reads versions). A \<open>FileMetaData*\<close> that is only read is the record it points to.
  A loop whose end depends on the comparator of the user or on the width of an index is an option: \<open>None\<close> when it
  does not return.
\<close>

section \<open>Sizes\<close>

record version_options =
  vo_max_file_size :: u64

definition TargetFileSize :: "version_options \<Rightarrow> u64" where
  "TargetFileSize options = vo_max_file_size options"

definition MaxGrandParentOverlapBytes :: "version_options \<Rightarrow> int" where
  "MaxGrandParentOverlapBytes options = sint (10 * TargetFileSize options)"

definition ExpandedCompactionByteSizeLimit :: "version_options \<Rightarrow> int" where
  "ExpandedCompactionByteSizeLimit options = sint (25 * TargetFileSize options)"

definition MaxFileSizeForLevel :: "version_options \<Rightarrow> int \<Rightarrow> u64" where
  "MaxFileSizeForLevel options level = TargetFileSize options"

definition TotalFileSize :: "file_meta list \<Rightarrow> int" where
  "TotalFileSize files = sint (fold (\<lambda>f sum. sum + fm_file_size f) files 0)"

section \<open>Searching a level\<close>

partial_function (option) find_file :: "compare_op \<Rightarrow> file_meta list \<Rightarrow> u8 list \<Rightarrow> u32 \<Rightarrow> u32 \<Rightarrow> u32 option" where
  "find_file ucmp files key left right =
     (if left < right then
        let mid = (left + right) div 2; f = files ! unat mid in
        if InternalCompare ucmp (fm_largest f) key < 0 then find_file ucmp files key (mid + 1) right
        else find_file ucmp files key left mid
      else Some right)"

definition FindFile :: "compare_op \<Rightarrow> file_meta list \<Rightarrow> u8 list \<Rightarrow> nat option" where
  "FindFile ucmp files key = map_option unat (find_file ucmp files key 0 (of_nat (length files)))"

definition AfterFile :: "compare_op \<Rightarrow> u8 list option \<Rightarrow> file_meta \<Rightarrow> bool" where
  "AfterFile ucmp ukey f \<longleftrightarrow>
     (case ukey of None \<Rightarrow> False | Some k \<Rightarrow> ucmp k (ExtractUserKey (fm_largest f)) > 0)"

definition BeforeFile :: "compare_op \<Rightarrow> u8 list option \<Rightarrow> file_meta \<Rightarrow> bool" where
  "BeforeFile ucmp ukey f \<longleftrightarrow>
     (case ukey of None \<Rightarrow> False | Some k \<Rightarrow> ucmp k (ExtractUserKey (fm_smallest f)) < 0)"

text \<open>The constructor of \<open>InternalKey\<close>.\<close>

definition InternalKey :: "u8 list \<Rightarrow> SequenceNumber \<Rightarrow> ValueType \<Rightarrow> u8 list" where
  "InternalKey ukey s t = AppendInternalKey [] \<lparr>user_key = ukey, sequence = s, vtype = t\<rparr>"

definition SomeFileOverlapsRange ::
  "compare_op \<Rightarrow> bool \<Rightarrow> file_meta list \<Rightarrow> u8 list option \<Rightarrow> u8 list option \<Rightarrow> bool option" where
  "SomeFileOverlapsRange ucmp disjoint_sorted_files files smallest_user_key largest_user_key =
     (if \<not> disjoint_sorted_files then
        Some (list_ex (\<lambda>f. \<not> (AfterFile ucmp smallest_user_key f \<or> BeforeFile ucmp largest_user_key f)) files)
      else do {
        index \<leftarrow> (case smallest_user_key of
                    None \<Rightarrow> Some 0
                  | Some k \<Rightarrow> FindFile ucmp files (InternalKey k kMaxSequenceNumber kValueTypeForSeek));
        Some (if index \<ge> length files then False else \<not> BeforeFile ucmp largest_user_key (files ! index))
      })"

section \<open>\<open>LevelFileNumIterator\<close>\<close>

record level_iter =
  lf_files :: "file_meta list"
  lf_index :: u32

definition new_LevelFileNumIterator :: "file_meta list \<Rightarrow> level_iter" where
  "new_LevelFileNumIterator flist = \<lparr>lf_files = flist, lf_index = of_nat (length flist)\<rparr>"

definition lf_Valid :: "level_iter \<Rightarrow> bool" where
  "lf_Valid it \<longleftrightarrow> unat (lf_index it) < length (lf_files it)"

definition lf_Seek :: "compare_op \<Rightarrow> u8 list \<Rightarrow> level_iter \<Rightarrow> level_iter option" where
  "lf_Seek ucmp target it = map_option (\<lambda>i. it\<lparr>lf_index := of_nat i\<rparr>) (FindFile ucmp (lf_files it) target)"

definition lf_SeekToFirst :: "level_iter \<Rightarrow> level_iter" where
  "lf_SeekToFirst it = it\<lparr>lf_index := 0\<rparr>"

definition lf_SeekToLast :: "level_iter \<Rightarrow> level_iter" where
  "lf_SeekToLast it = it\<lparr>lf_index := (if lf_files it = [] then 0 else of_nat (length (lf_files it) - 1))\<rparr>"

definition lf_Next :: "level_iter \<Rightarrow> level_iter" where
  "lf_Next it = it\<lparr>lf_index := lf_index it + 1\<rparr>"

definition lf_Prev :: "level_iter \<Rightarrow> level_iter" where
  "lf_Prev it = it\<lparr>lf_index := (if lf_index it = 0 then of_nat (length (lf_files it)) else lf_index it - 1)\<rparr>"

definition lf_key :: "level_iter \<Rightarrow> u8 list" where
  "lf_key it = fm_largest (lf_files it ! unat (lf_index it))"

definition lf_value :: "level_iter \<Rightarrow> u8 list" where
  "lf_value it =
     (let f = lf_files it ! unat (lf_index it) in EncodeFixed64 (fm_number f) @ EncodeFixed64 (fm_file_size f))"

definition LevelFileNumIterator :: "compare_op \<Rightarrow> (level_iter, 'k) iter_ops" where
  "LevelFileNumIterator ucmp =
     \<lparr>ip_Valid = lf_Valid, ip_key = lf_key, ip_value = lf_value, ip_status = (\<lambda>_. OK),
      ip_Seek = (\<lambda>target it k. map_option (\<lambda>it. (it, k)) (lf_Seek ucmp target it)),
      ip_SeekToFirst = (\<lambda>it k. Some (lf_SeekToFirst it, k)),
      ip_SeekToLast = (\<lambda>it k. Some (lf_SeekToLast it, k)),
      ip_Next = (\<lambda>it k. Some (lf_Next it, k)),
      ip_Prev = (\<lambda>it k. Some (lf_Prev it, k)),
      ip_delete = (\<lambda>it k. k)\<rparr>"

section \<open>Overlapping files\<close>

type_synonym levels = "int \<Rightarrow> file_meta list"

definition OverlapInLevel :: "compare_op \<Rightarrow> levels \<Rightarrow> int \<Rightarrow> u8 list option \<Rightarrow> u8 list option \<Rightarrow> bool option" where
  "OverlapInLevel ucmp files level smallest_user_key largest_user_key =
     SomeFileOverlapsRange ucmp (level > 0) (files level) smallest_user_key largest_user_key"

text \<open>Comparing a key of a file with an end of the range, if the range has one.\<close>

definition below_key :: "compare_op \<Rightarrow> u8 list \<Rightarrow> u8 list option \<Rightarrow> bool" where
  "below_key ucmp k user_begin \<longleftrightarrow> (case user_begin of None \<Rightarrow> False | Some b \<Rightarrow> ucmp k b < 0)"

definition above_key :: "compare_op \<Rightarrow> u8 list \<Rightarrow> u8 list option \<Rightarrow> bool" where
  "above_key ucmp k user_end \<longleftrightarrow> (case user_end of None \<Rightarrow> False | Some e \<Rightarrow> ucmp k e > 0)"

text \<open>
  The loop of \<open>GetOverlappingInputs\<close>; \<open>user_begin\<close> and \<open>user_end\<close> are \<open>None\<close> when \<open>begin\<close> and \<open>end\<close> are null.
\<close>

partial_function (option) overlapping ::
  "compare_op \<Rightarrow> int \<Rightarrow> file_meta list \<Rightarrow> u8 list option \<Rightarrow> u8 list option \<Rightarrow> nat \<Rightarrow> file_meta list \<Rightarrow> file_meta list option" where
  "overlapping ucmp level files user_begin user_end i inputs =
     (if i < length files then
        let f = files ! i;
            file_start = ExtractUserKey (fm_smallest f); file_limit = ExtractUserKey (fm_largest f) in
        if below_key ucmp file_limit user_begin then overlapping ucmp level files user_begin user_end (i + 1) inputs
        else if above_key ucmp file_start user_end then overlapping ucmp level files user_begin user_end (i + 1) inputs
        else if level = 0 \<and> below_key ucmp file_start user_begin
        then overlapping ucmp level files (Some file_start) user_end 0 []
        else if level = 0 \<and> above_key ucmp file_limit user_end
        then overlapping ucmp level files user_begin (Some file_limit) 0 []
        else overlapping ucmp level files user_begin user_end (i + 1) (inputs @ [f])
      else Some inputs)"

definition GetOverlappingInputs ::
  "compare_op \<Rightarrow> levels \<Rightarrow> int \<Rightarrow> u8 list option \<Rightarrow> u8 list option \<Rightarrow> file_meta list option" where
  "GetOverlappingInputs ucmp files level from till =
     overlapping ucmp level (files level) (map_option ExtractUserKey from) (map_option ExtractUserKey till) 0 []"

end
