(* ===== verification/LdbCompaction.thy ===== *)
theory LdbCompaction
  imports Complex_Main LdbFiles
begin

text \<open>
  Choosing what to compact (\<open>db/version_set.cc\<close>): the level for the files of a memtable, the inputs of a
  compaction with the files at its boundaries, and what a running compaction asks about the levels below it. The
  files of the version are a parameter \<open>files\<close> that maps a level to its files.
\<close>

section \<open>The level of a new file\<close>

definition kMaxMemCompactLevel :: int where
  "kMaxMemCompactLevel = 2"

abbreviation num_levels :: int where
  "num_levels \<equiv> uint kNumLevels"

function pick_level :: "version_options \<Rightarrow> compare_op \<Rightarrow> levels \<Rightarrow> u8 list \<Rightarrow> u8 list \<Rightarrow> int \<Rightarrow> int option" where
  "pick_level options ucmp files smallest_user_key largest_user_key level =
     (if level < kMaxMemCompactLevel then do {
        overlap \<leftarrow> OverlapInLevel ucmp files (level + 1) (Some smallest_user_key) (Some largest_user_key);
        if overlap then Some level
        else do {
          much \<leftarrow> (if level + 2 < num_levels then do {
                     overlaps \<leftarrow> GetOverlappingInputs ucmp files (level + 2)
                       (Some (InternalKey smallest_user_key kMaxSequenceNumber kValueTypeForSeek))
                       (Some (InternalKey largest_user_key 0 kTypeDeletion));
                     Some (TotalFileSize overlaps > MaxGrandParentOverlapBytes options)
                   } else Some False);
          if much then Some level
          else pick_level options ucmp files smallest_user_key largest_user_key (level + 1)
        }
      }
      else Some level)"
  by pat_completeness auto

termination
  by (relation "measure (\<lambda>(options, ucmp, files, s, l, level). nat (kMaxMemCompactLevel - level))")
    (simp_all add: kMaxMemCompactLevel_def)

declare pick_level.simps [simp del]

definition PickLevelForMemTableOutput ::
  "version_options \<Rightarrow> compare_op \<Rightarrow> levels \<Rightarrow> u8 list \<Rightarrow> u8 list \<Rightarrow> int option" where
  "PickLevelForMemTableOutput options ucmp files smallest_user_key largest_user_key = do {
     overlap \<leftarrow> OverlapInLevel ucmp files 0 (Some smallest_user_key) (Some largest_user_key);
     if \<not> overlap then pick_level options ucmp files smallest_user_key largest_user_key 0 else Some 0
   }"

section \<open>Ranges and boundaries\<close>

definition widen_range :: "compare_op \<Rightarrow> file_meta \<Rightarrow> u8 list \<times> u8 list \<Rightarrow> u8 list \<times> u8 list" where
  "widen_range ucmp f r =
     (if InternalCompare ucmp (fm_smallest f) (fst r) < 0 then fm_smallest f else fst r,
      if InternalCompare ucmp (fm_largest f) (snd r) > 0 then fm_largest f else snd r)"

definition GetRange :: "compare_op \<Rightarrow> file_meta list \<Rightarrow> u8 list \<times> u8 list" where
  "GetRange ucmp inputs =
     (case inputs of [] \<Rightarrow> ([], []) | f # fs \<Rightarrow> fold (widen_range ucmp) fs (fm_smallest f, fm_largest f))"

definition GetRange2 :: "compare_op \<Rightarrow> file_meta list \<Rightarrow> file_meta list \<Rightarrow> u8 list \<times> u8 list" where
  "GetRange2 ucmp inputs1 inputs2 = GetRange ucmp (inputs1 @ inputs2)"

definition FindLargestKey :: "compare_op \<Rightarrow> file_meta list \<Rightarrow> u8 list option" where
  "FindLargestKey ucmp files =
     (case files of
        [] \<Rightarrow> None
      | f # fs \<Rightarrow> Some (fold (\<lambda>f k. if InternalCompare ucmp (fm_largest f) k > 0 then fm_largest f else k) fs (fm_largest f)))"

definition boundary_step :: "compare_op \<Rightarrow> u8 list \<Rightarrow> file_meta \<Rightarrow> file_meta option \<Rightarrow> file_meta option" where
  "boundary_step ucmp largest_key f smallest_boundary_file =
     (if InternalCompare ucmp (fm_smallest f) largest_key > 0 \<and>
         ucmp (ExtractUserKey (fm_smallest f)) (ExtractUserKey largest_key) = 0
      then case smallest_boundary_file of
             None \<Rightarrow> Some f
           | Some b \<Rightarrow> if InternalCompare ucmp (fm_smallest f) (fm_smallest b) < 0 then Some f else Some b
      else smallest_boundary_file)"

definition FindSmallestBoundaryFile :: "compare_op \<Rightarrow> file_meta list \<Rightarrow> u8 list \<Rightarrow> file_meta option" where
  "FindSmallestBoundaryFile ucmp level_files largest_key = fold (boundary_step ucmp largest_key) level_files None"

partial_function (option) add_boundary ::
  "compare_op \<Rightarrow> file_meta list \<Rightarrow> u8 list \<Rightarrow> file_meta list \<Rightarrow> file_meta list option" where
  "add_boundary ucmp level_files largest_key compaction_files =
     (case FindSmallestBoundaryFile ucmp level_files largest_key of
        Some b \<Rightarrow> add_boundary ucmp level_files (fm_largest b) (compaction_files @ [b])
      | None \<Rightarrow> Some compaction_files)"

definition AddBoundaryInputs :: "compare_op \<Rightarrow> file_meta list \<Rightarrow> file_meta list \<Rightarrow> file_meta list option" where
  "AddBoundaryInputs ucmp level_files compaction_files =
     (case FindLargestKey ucmp compaction_files of
        None \<Rightarrow> Some compaction_files
      | Some largest_key \<Rightarrow> add_boundary ucmp level_files largest_key compaction_files)"

section \<open>\<open>Compaction\<close>\<close>

record compaction =
  c_level :: int
  c_max_output_file_size :: u64
  c_edit :: version_edit
  c_inputs :: "nat \<Rightarrow> file_meta list"
  c_grandparents :: "file_meta list"
  c_grandparent_index :: nat
  c_seen_key :: bool
  c_overlapped_bytes :: int
  c_level_ptrs :: "int \<Rightarrow> nat"

definition new_Compaction :: "version_options \<Rightarrow> int \<Rightarrow> compaction" where
  "new_Compaction options level =
     \<lparr>c_level = level, c_max_output_file_size = MaxFileSizeForLevel options level, c_edit = new_VersionEdit,
      c_inputs = (\<lambda>_. []), c_grandparents = [], c_grandparent_index = 0, c_seen_key = False, c_overlapped_bytes = 0,
      c_level_ptrs = (\<lambda>_. 0)\<rparr>"

definition num_input_files :: "nat \<Rightarrow> compaction \<Rightarrow> nat" where
  "num_input_files which c = length (c_inputs c which)"

definition IsTrivialMove :: "version_options \<Rightarrow> compaction \<Rightarrow> bool" where
  "IsTrivialMove options c \<longleftrightarrow>
     num_input_files 0 c = 1 \<and> num_input_files 1 c = 0 \<and>
     TotalFileSize (c_grandparents c) \<le> MaxGrandParentOverlapBytes options"

definition AddInputDeletions :: "compaction \<Rightarrow> version_edit \<Rightarrow> version_edit" where
  "AddInputDeletions c edit =
     fold (\<lambda>which. fold (\<lambda>f. ve_DeleteFile (c_level c + int which) (fm_number f)) (c_inputs c which)) [0, 1] edit"

text \<open>Growing the inputs of the level, when that takes no further files of the next one.\<close>

definition expand_inputs ::
  "version_options \<Rightarrow> compare_op \<Rightarrow> levels \<Rightarrow> u8 list \<times> u8 list \<Rightarrow> u8 list \<times> u8 list \<Rightarrow> compaction \<Rightarrow>
   ((u8 list \<times> u8 list) \<times> (u8 list \<times> u8 list) \<times> compaction) option" where
  "expand_inputs options ucmp files bounds all c =
     (let level = c_level c in do {
        expanded0 \<leftarrow> GetOverlappingInputs ucmp files level (Some (fst all)) (Some (snd all));
        expanded0 \<leftarrow> AddBoundaryInputs ucmp (files level) expanded0;
        let inputs1_size = TotalFileSize (c_inputs c 1);
        let expanded0_size = TotalFileSize expanded0;
        if length expanded0 > length (c_inputs c 0) \<and>
           inputs1_size + expanded0_size < ExpandedCompactionByteSizeLimit options
        then do {
          let new = GetRange ucmp expanded0;
          expanded1 \<leftarrow> GetOverlappingInputs ucmp files (level + 1) (Some (fst new)) (Some (snd new));
          if length expanded1 = length (c_inputs c 1) then
            Some (new, GetRange2 ucmp expanded0 expanded1, c\<lparr>c_inputs := (c_inputs c)(0 := expanded0, 1 := expanded1)\<rparr>)
          else Some (bounds, all, c)
        }
        else Some (bounds, all, c)
      })"

definition SetupOtherInputs ::
  "version_options \<Rightarrow> compare_op \<Rightarrow> levels \<Rightarrow> (int \<Rightarrow> u8 list) \<Rightarrow> compaction \<Rightarrow> ((int \<Rightarrow> u8 list) \<times> compaction) option" where
  "SetupOtherInputs options ucmp files compact_pointer c =
     (let level = c_level c in do {
        inputs0 \<leftarrow> AddBoundaryInputs ucmp (files level) (c_inputs c 0);
        let bounds = GetRange ucmp inputs0;
        inputs1 \<leftarrow> GetOverlappingInputs ucmp files (level + 1) (Some (fst bounds)) (Some (snd bounds));
        let c = c\<lparr>c_inputs := (c_inputs c)(0 := inputs0, 1 := inputs1)\<rparr>;
        let all = GetRange2 ucmp inputs0 inputs1;
        (bounds, all, c) \<leftarrow> (if inputs1 \<noteq> [] then expand_inputs options ucmp files bounds all c else Some (bounds, all, c));
        c \<leftarrow> (if level + 2 < num_levels then do {
                grandparents \<leftarrow> GetOverlappingInputs ucmp files (level + 2) (Some (fst all)) (Some (snd all));
                Some (c\<lparr>c_grandparents := grandparents\<rparr>)
              } else Some c);
        Some (compact_pointer(level := snd bounds), c\<lparr>c_edit := SetCompactPointer level (snd bounds) (c_edit c)\<rparr>)
      })"

text \<open>
  The loop over one level moves its pointer past the files that end before the key; \<open>True\<close> when it stops at a
  file that has the key in its range.
\<close>

function level_scan :: "compare_op \<Rightarrow> u8 list \<Rightarrow> file_meta list \<Rightarrow> nat \<Rightarrow> bool \<times> nat" where
  "level_scan ucmp ukey files p =
     (if p < length files then
        let f = files ! p in
        if ucmp ukey (ExtractUserKey (fm_largest f)) \<le> 0
        then (ucmp ukey (ExtractUserKey (fm_smallest f)) \<ge> 0, p)
        else level_scan ucmp ukey files (p + 1)
      else (False, p))"
  by pat_completeness auto

termination by (relation "measure (\<lambda>(ucmp, ukey, files, p). length files - p)") simp_all

declare level_scan.simps [simp del]

primrec base_level :: "compare_op \<Rightarrow> u8 list \<Rightarrow> levels \<Rightarrow> int list \<Rightarrow> (int \<Rightarrow> nat) \<Rightarrow> bool \<times> (int \<Rightarrow> nat)" where
  "base_level ucmp ukey files [] ptrs = (True, ptrs)"
| "base_level ucmp ukey files (lvl # lvls) ptrs =
     (case level_scan ucmp ukey (files lvl) (ptrs lvl) of (found, p) \<Rightarrow>
        let ptrs = ptrs(lvl := p) in
        if found then (False, ptrs) else base_level ucmp ukey files lvls ptrs)"

definition IsBaseLevelForKey :: "compare_op \<Rightarrow> levels \<Rightarrow> u8 list \<Rightarrow> compaction \<Rightarrow> bool \<times> compaction" where
  "IsBaseLevelForKey ucmp files ukey c =
     (case base_level ucmp ukey files [c_level c + 2..num_levels - 1] (c_level_ptrs c) of
        (r, ptrs) \<Rightarrow> (r, c\<lparr>c_level_ptrs := ptrs\<rparr>))"

function grandparent_scan :: "compare_op \<Rightarrow> u8 list \<Rightarrow> compaction \<Rightarrow> compaction" where
  "grandparent_scan ucmp ikey c =
     (if c_grandparent_index c < length (c_grandparents c) \<and>
         InternalCompare ucmp ikey (fm_largest (c_grandparents c ! c_grandparent_index c)) > 0
      then grandparent_scan ucmp ikey
        (c\<lparr>c_overlapped_bytes := (if c_seen_key c
             then sint (of_int (c_overlapped_bytes c) + fm_file_size (c_grandparents c ! c_grandparent_index c))
             else c_overlapped_bytes c),
           c_grandparent_index := c_grandparent_index c + 1\<rparr>)
      else c)"
  by pat_completeness auto

termination by (relation "measure (\<lambda>(ucmp, k, c). length (c_grandparents c) - c_grandparent_index c)")
  (auto intro: diff_less_mono2)

declare grandparent_scan.simps [simp del]

definition ShouldStopBefore :: "version_options \<Rightarrow> compare_op \<Rightarrow> u8 list \<Rightarrow> compaction \<Rightarrow> bool \<times> compaction" where
  "ShouldStopBefore options ucmp ikey c =
     (let c = (grandparent_scan ucmp ikey c)\<lparr>c_seen_key := True\<rparr> in
      if c_overlapped_bytes c > MaxGrandParentOverlapBytes options then (True, c\<lparr>c_overlapped_bytes := 0\<rparr>)
      else (False, c))"

section \<open>Picking a compaction\<close>

text \<open>
  What a version says about the next compaction. A \<open>double\<close> is the rational number it stands for; the rounding of
  an arithmetic operation to the nearest \<open>double\<close> is the parameter \<open>rnd\<close>.
\<close>

record compaction_hint =
  ch_file_to_compact :: "file_meta option"
  ch_file_to_compact_level :: int
  ch_compaction_score :: rat
  ch_compaction_level :: int

function MaxBytesForLevel :: "(rat \<Rightarrow> rat) \<Rightarrow> int \<Rightarrow> rat" where
  "MaxBytesForLevel rnd level = (if level > 1 then rnd (MaxBytesForLevel rnd (level - 1) * 10) else rnd (10 * 1048576))"
  by pat_completeness auto

termination by (relation "measure (\<lambda>(rnd, level). nat level)") simp_all

declare MaxBytesForLevel.simps [simp del]

definition kL0_CompactionTrigger :: rat where
  "kL0_CompactionTrigger = 4"

definition level_score :: "(rat \<Rightarrow> rat) \<Rightarrow> levels \<Rightarrow> int \<Rightarrow> rat" where
  "level_score rnd files level =
     (if level = 0 then rnd (rnd (of_nat (length (files level))) / kL0_CompactionTrigger)
      else rnd (rnd (of_int (uint (of_int (TotalFileSize (files level)) :: u64))) / MaxBytesForLevel rnd level))"

definition Finalize :: "(rat \<Rightarrow> rat) \<Rightarrow> levels \<Rightarrow> compaction_hint \<Rightarrow> compaction_hint" where
  "Finalize rnd files v =
     (let (best_level, best_score) =
        fold (\<lambda>level (best_level, best_score).
                if level_score rnd files level > best_score then (level, level_score rnd files level)
                else (best_level, best_score))
          [0..num_levels - 2] (- 1, - 1)
      in v\<lparr>ch_compaction_level := best_level, ch_compaction_score := best_score\<rparr>)"

definition NeedsCompaction :: "compaction_hint \<Rightarrow> bool" where
  "NeedsCompaction v \<longleftrightarrow> ch_compaction_score v \<ge> 1 \<or> ch_file_to_compact v \<noteq> None"

text \<open>The first file of the level that ends behind the pointer of the last compaction, or the first of all.\<close>

definition pick_file :: "compare_op \<Rightarrow> u8 list \<Rightarrow> file_meta list \<Rightarrow> file_meta" where
  "pick_file ucmp pointer files =
     (case find (\<lambda>f. pointer = [] \<or> InternalCompare ucmp (fm_largest f) pointer > 0) files of
        Some f \<Rightarrow> f | None \<Rightarrow> hd files)"

definition PickCompaction ::
  "version_options \<Rightarrow> compare_op \<Rightarrow> levels \<Rightarrow> compaction_hint \<Rightarrow> (int \<Rightarrow> u8 list) \<Rightarrow>
   ((int \<Rightarrow> u8 list) \<times> compaction option) option" where
  "PickCompaction options ucmp files v compact_pointer =
     (let size_compaction = ch_compaction_score v \<ge> 1;
          picked = (if size_compaction then
                      Some (ch_compaction_level v, pick_file ucmp (compact_pointer (ch_compaction_level v)) (files (ch_compaction_level v)))
                    else map_option (\<lambda>f. (ch_file_to_compact_level v, f)) (ch_file_to_compact v))
      in case picked of
           None \<Rightarrow> Some (compact_pointer, None)
         | Some (level, f) \<Rightarrow> do {
             inputs0 \<leftarrow> (if level = 0 then
                           let bounds = GetRange ucmp [f] in GetOverlappingInputs ucmp files 0 (Some (fst bounds)) (Some (snd bounds))
                         else Some [f]);
             let c = new_Compaction options level;
             (compact_pointer, c) \<leftarrow> SetupOtherInputs options ucmp files compact_pointer (c\<lparr>c_inputs := (c_inputs c)(0 := inputs0)\<rparr>);
             Some (compact_pointer, Some c)
           })"

primrec limit_inputs :: "u64 \<Rightarrow> u64 \<Rightarrow> file_meta list \<Rightarrow> file_meta list" where
  "limit_inputs limit acc [] = []"
| "limit_inputs limit acc (f # fs) =
     (let acc = acc + fm_file_size f in if acc \<ge> limit then [f] else f # limit_inputs limit acc fs)"

definition CompactRange ::
  "version_options \<Rightarrow> compare_op \<Rightarrow> levels \<Rightarrow> int \<Rightarrow> u8 list option \<Rightarrow> u8 list option \<Rightarrow> (int \<Rightarrow> u8 list) \<Rightarrow>
   ((int \<Rightarrow> u8 list) \<times> compaction option) option" where
  "CompactRange options ucmp files level from till compact_pointer = do {
     inputs \<leftarrow> GetOverlappingInputs ucmp files level from till;
     if inputs = [] then Some (compact_pointer, None)
     else do {
       let inputs = (if level > 0 then limit_inputs (MaxFileSizeForLevel options level) 0 inputs else inputs);
       let c = new_Compaction options level;
       (compact_pointer, c) \<leftarrow> SetupOtherInputs options ucmp files compact_pointer (c\<lparr>c_inputs := (c_inputs c)(0 := inputs)\<rparr>);
       Some (compact_pointer, Some c)
     }
   }"

text \<open>The largest total, over all files, of what overlaps with one in the next level.\<close>

definition next_level_step :: "compare_op \<Rightarrow> levels \<Rightarrow> int \<Rightarrow> file_meta \<Rightarrow> int option \<Rightarrow> int option" where
  "next_level_step ucmp files level f result = do {
     result \<leftarrow> result;
     overlaps \<leftarrow> GetOverlappingInputs ucmp files (level + 1) (Some (fm_smallest f)) (Some (fm_largest f));
     Some (if TotalFileSize overlaps > result then TotalFileSize overlaps else result)
   }"

definition MaxNextLevelOverlappingBytes :: "compare_op \<Rightarrow> levels \<Rightarrow> int option" where
  "MaxNextLevelOverlappingBytes ucmp files =
     fold (\<lambda>level. fold (next_level_step ucmp files level) (files level)) [1..num_levels - 2] (Some 0)"

end
