(* ===== verification/LdbFilesProofs.thy ===== *)
theory LdbFilesProofs
  imports LdbFiles
begin

text \<open>
  The binary search over a level finds the first file that does not end before a key, so that with it the
  test for overlap is that of all files; the files of level 0 that a compaction takes are those that are linked
  with its range by overlaps. The lemmas hold for every comparator of the user.
\<close>

section \<open>Files and ranges\<close>

definition file_ok :: "compare_op \<Rightarrow> file_meta \<Rightarrow> bool" where
  "file_ok ucmp f \<longleftrightarrow>
     8 \<le> length (fm_smallest f) \<and> 8 \<le> length (fm_largest f) \<and> InternalCompare ucmp (fm_smallest f) (fm_largest f) \<le> 0 \<and>
     tag (fm_largest f) \<le> PackSequenceAndType kMaxSequenceNumber kValueTypeForSeek"

definition disjoint_files :: "compare_op \<Rightarrow> file_meta list \<Rightarrow> bool" where
  "disjoint_files ucmp files \<longleftrightarrow>
     sorted_wrt (\<lambda>f g. InternalCompare ucmp (fm_largest f) (fm_smallest g) < 0) files"

definition overlaps :: "compare_op \<Rightarrow> u8 list option \<Rightarrow> u8 list option \<Rightarrow> file_meta \<Rightarrow> bool" where
  "overlaps ucmp b e f \<longleftrightarrow>
     \<not> below_key ucmp (ExtractUserKey (fm_largest f)) b \<and> \<not> above_key ucmp (ExtractUserKey (fm_smallest f)) e"

definition files_meet :: "compare_op \<Rightarrow> file_meta \<Rightarrow> file_meta \<Rightarrow> bool" where
  "files_meet ucmp f g \<longleftrightarrow>
     ucmp (ExtractUserKey (fm_smallest f)) (ExtractUserKey (fm_largest g)) \<le> 0 \<and>
     ucmp (ExtractUserKey (fm_smallest g)) (ExtractUserKey (fm_largest f)) \<le> 0"

text \<open>The files that a chain of overlapping files links with a range.\<close>

inductive linked ::
  "compare_op \<Rightarrow> file_meta list \<Rightarrow> u8 list option \<Rightarrow> u8 list option \<Rightarrow> file_meta \<Rightarrow> bool"
  for ucmp files b e where
  in_range: "f \<in> set files \<Longrightarrow> overlaps ucmp b e f \<Longrightarrow> linked ucmp files b e f"
| by_file: "linked ucmp files b e f \<Longrightarrow> g \<in> set files \<Longrightarrow> files_meet ucmp f g \<Longrightarrow> linked ucmp files b e g"

lemma length_filter_less:
  assumes "\<And>y. y \<in> set xs \<Longrightarrow> P y \<Longrightarrow> Q y" and "x \<in> set xs" and "Q x" and "\<not> P x"
  shows "length (filter P xs) < length (filter Q xs)"
  using assms
proof (induction xs)
  case (Cons y ys)
  have le: "length (filter P ys) \<le> length (filter Q ys)"
    using Cons.prems(1) by (metis (no_types, lifting) filter_cong length_filter_le filter_filter list.set_intros(2))
  show ?case
  proof (cases "x = y")
    case True
    then show ?thesis using Cons.prems le by simp
  next
    case False
    then have "length (filter P ys) < length (filter Q ys)" using Cons by simp
    then show ?thesis using Cons.prems(1) [of y] by auto
  qed
qed simp

lemma find_file_partition:
  assumes "length files < 2 ^ 31" and "n \<le> length files"
    and "\<And>i. i < n \<Longrightarrow> InternalCompare ucmp (fm_largest (files ! i)) key < 0"
    and "\<And>i. n \<le> i \<Longrightarrow> i < length files \<Longrightarrow> \<not> InternalCompare ucmp (fm_largest (files ! i)) key < 0"
  shows "unat left \<le> n \<Longrightarrow> n \<le> unat right \<Longrightarrow> unat right \<le> length files \<Longrightarrow>
    find_file ucmp files key left right = Some (of_nat n)"
proof (induction "unat right - unat left" arbitrary: left right rule: less_induct)
  case less
  show ?case
  proof (cases "left < right")
    case True
    then have lr: "unat left < unat right" by (simp add: word_less_nat_alt)
    let ?mid = "(left + right) div 2"
    have "unat left + unat right < 2 ^ 32" using less.prems assms(1) lr by simp
    then have mid: "unat ?mid = (unat left + unat right) div 2" by (simp add: unat_div unat_word_ariths)
    then have m: "unat left \<le> unat ?mid" "unat ?mid < unat right" using lr by simp_all
    have m1: "unat (?mid + 1) = unat ?mid + 1"
      using m less.prems(3) assms(1) unat_add_of_nat [of ?mid 1] by simp
    show ?thesis
    proof (cases "InternalCompare ucmp (fm_largest (files ! unat ?mid)) key < 0")
      case lt: True
      then have "unat ?mid < n" using assms(4) [of "unat ?mid"] m less.prems(3) by fastforce
      then have "find_file ucmp files key (?mid + 1) right = Some (of_nat n)"
        using m less.prems by (intro less.hyps) (simp_all add: m1)
      then show ?thesis using lt True by (subst find_file.simps) (simp add: Let_def)
    next
      case ge: False
      then have "n \<le> unat ?mid" using assms(3) [of "unat ?mid"] by fastforce
      then have "find_file ucmp files key left ?mid = Some (of_nat n)"
        using m less.prems lr by (intro less.hyps) simp_all
      then show ?thesis using ge True by (subst find_file.simps) (simp add: Let_def)
    qed
  next
    case False
    then have "n = unat right" using less.prems by (simp add: word_less_nat_alt)
    then show ?thesis using False by (subst find_file.simps) simp
  qed
qed

lemma FindFile_partition:
  assumes "length files < 2 ^ 31" and "n \<le> length files"
    and "\<And>i. i < n \<Longrightarrow> InternalCompare ucmp (fm_largest (files ! i)) key < 0"
    and "\<And>i. n \<le> i \<Longrightarrow> i < length files \<Longrightarrow> \<not> InternalCompare ucmp (fm_largest (files ! i)) key < 0"
  shows "FindFile ucmp files key = Some n"
proof -
  have u: "unat (of_nat k :: u32) = k" if "k < 2 ^ 31" for k
    using that by (simp add: unsigned_of_nat take_bit_nat_eq_self)
  have "find_file ucmp files key 0 (of_nat (length files)) = Some (of_nat n)"
    using assms u by (intro find_file_partition) simp_all
  then show ?thesis using u [of n] assms(1,2) by (simp add: FindFile_def)
qed

context comparator
begin

definition file_valid :: "file_meta \<Rightarrow> bool" where
  "file_valid f \<longleftrightarrow> file_ok cmp f \<and> valid (ExtractUserKey (fm_smallest f)) \<and> valid (ExtractUserKey (fm_largest f))"

lemmas icmp_flip = comparator.cmp_flip [OF internal_comparator]
  and icmp_eq = comparator.cmp_eq [OF internal_comparator]
  and icmp_trans = comparator.cmp_trans [OF internal_comparator]
  and icmp_le_trans = comparator.cmp_le_trans [OF internal_comparator]

lemma file_valid_internal:
  "file_valid f \<Longrightarrow> valid_internal (fm_smallest f) \<and> valid_internal (fm_largest f)"
  by (simp add: file_valid_def file_ok_def valid_internal_def)

lemma disjoint_largest:
  assumes "disjoint_files cmp files" and "\<forall>f\<in>set files. file_valid f" and "i < j" and "j < length files"
  shows "InternalCompare cmp (fm_largest (files ! i)) (fm_largest (files ! j)) < 0"
proof -
  have v: "file_valid (files ! i)" "file_valid (files ! j)" using assms(2-4) by simp_all
  have "InternalCompare cmp (fm_largest (files ! i)) (fm_smallest (files ! j)) < 0"
    using assms(3,4) by (rule sorted_wrt_nth_less [OF assms(1) [unfolded disjoint_files_def]])
  moreover have "InternalCompare cmp (fm_smallest (files ! j)) (fm_largest (files ! j)) \<le> 0"
    using v(2) by (simp add: file_valid_def file_ok_def)
  ultimately show ?thesis
    using file_valid_internal v icmp_trans icmp_eq by (metis order_le_less)
qed

lemma FindFile_disjoint:
  assumes "disjoint_files cmp files" and ok: "\<forall>f\<in>set files. file_valid f" and "length files < 2 ^ 31" and "valid_internal key"
  shows "FindFile cmp files key = Some (length (takeWhile (\<lambda>f. InternalCompare cmp (fm_largest f) key < 0) files))"
    (is "_ = Some (length (takeWhile ?P files))")
proof (rule FindFile_partition [OF assms(3)])
  let ?n = "length (takeWhile ?P files)"
  show "?n \<le> length files" by (rule length_takeWhile_le)
  show "?P (files ! i)" if "i < ?n" for i
    using that set_takeWhileD [OF nth_mem, of i ?P files] by (simp add: takeWhile_nth)
  show "\<not> ?P (files ! i)" if i: "?n \<le> i" "i < length files" for i
  proof
    assume less: "?P (files ! i)"
    have n: "\<not> ?P (files ! ?n)" using i nth_length_takeWhile [of ?P files] by simp
    then have "?n < i" using less i by (cases "?n = i") simp_all
    then have "InternalCompare cmp (fm_largest (files ! ?n)) (fm_largest (files ! i)) < 0"
      using disjoint_largest [OF assms(1) ok] i by simp
    moreover have "valid_internal (fm_largest (files ! ?n))" "valid_internal (fm_largest (files ! i))"
      using ok i file_valid_internal by simp_all
    ultimately have "?P (files ! ?n)" using less assms(4) by (blast intro: icmp_trans)
    then show False using n by simp
  qed
qed

lemma icmp_user_le:
  assumes "valid_internal a" and "valid_internal b" and "InternalCompare cmp a b \<le> 0"
  shows "cmp (ExtractUserKey a) (ExtractUserKey b) \<le> 0"
  using assms(3) by (auto simp: InternalCompare_tag Let_def split: if_splits)

lemma AfterFile_below:
  assumes "file_valid f" and "\<forall>k. b = Some k \<longrightarrow> valid k"
  shows "AfterFile cmp b f \<longleftrightarrow> below_key cmp (ExtractUserKey (fm_largest f)) b"
  using assms cmp_flip by (simp add: AfterFile_def below_key_def file_valid_def split: option.splits)

lemma BeforeFile_above:
  assumes "file_valid f" and "\<forall>k. e = Some k \<longrightarrow> valid k"
  shows "BeforeFile cmp e f \<longleftrightarrow> above_key cmp (ExtractUserKey (fm_smallest f)) e"
  using assms cmp_flip by (simp add: BeforeFile_def above_key_def file_valid_def split: option.splits)

lemma InternalKey_parts:
  "ExtractUserKey (InternalKey k s t) = k" "tag (InternalKey k s t) = PackSequenceAndType s t"
  "valid_internal (InternalKey k s t) \<longleftrightarrow> valid k"
  by (simp_all add: InternalKey_def AppendInternalKey_parts valid_internal_def InternalKeyEncodingLength_def)

lemma below_first_key:
  assumes "file_valid f" and "valid k"
  shows "InternalCompare cmp (fm_largest f) (InternalKey k kMaxSequenceNumber kValueTypeForSeek) < 0 \<longleftrightarrow>
    below_key cmp (ExtractUserKey (fm_largest f)) (Some k)"
  using assms by (auto simp: InternalCompare_tag Let_def InternalKey_parts below_key_def file_valid_def file_ok_def)

lemma SomeFileOverlapsRange_search:
  assumes dj: "disjoint_files cmp files" and ok: "\<forall>f\<in>set files. file_valid f" and "length files < 2 ^ 31"
    and b: "\<forall>k. b = Some k \<longrightarrow> valid k" and e: "\<forall>k. e = Some k \<longrightarrow> valid k"
  shows "SomeFileOverlapsRange cmp d files b e = Some (list_ex (overlaps cmp b e) files)"
proof (cases d)
  case False
  have "list_ex (\<lambda>f. \<not> (AfterFile cmp b f \<or> BeforeFile cmp e f)) files = list_ex (overlaps cmp b e) files"
    using ok AfterFile_below [OF _ b] BeforeFile_above [OF _ e] by (auto simp: list_ex_iff overlaps_def)
  then show ?thesis using False by (simp add: SomeFileOverlapsRange_def)
next
  case True
  define P where "P f = below_key cmp (ExtractUserKey (fm_largest f)) b" for f :: file_meta
  define n where "n = length (takeWhile P files)"
  have search: "(case b of None \<Rightarrow> Some 0 | Some k \<Rightarrow> FindFile cmp files (InternalKey k kMaxSequenceNumber kValueTypeForSeek)) = Some n"
  proof (cases b)
    case None
    then have "P = (\<lambda>f. False)" by (simp add: P_def below_key_def fun_eq_iff)
    then have "n = 0" by (cases files) (simp_all add: n_def)
    then show ?thesis using None by simp
  next
    case (Some k)
    have k: "valid k" using b Some by simp
    have "takeWhile (\<lambda>f. InternalCompare cmp (fm_largest f) (InternalKey k kMaxSequenceNumber kValueTypeForSeek) < 0) files =
        takeWhile P files"
      using ok below_first_key [OF _ k] Some by (intro takeWhile_cong) (simp_all add: P_def)
    then show ?thesis
      using FindFile_disjoint [OF dj ok assms(3)] Some k by (simp add: n_def InternalKey_parts)
  qed
  have "(if n \<ge> length files then False else \<not> BeforeFile cmp e (files ! n)) = list_ex (overlaps cmp b e) files"
  proof (cases "n < length files")
    case False
    then have "takeWhile P files = files"
      by (metis n_def length_takeWhile_le order_le_less takeWhile_eq_take take_all linorder_not_less)
    then have "\<forall>f\<in>set files. P f" by (metis set_takeWhileD)
    then show ?thesis using False by (auto simp: list_ex_iff overlaps_def P_def)
  next
    case n: True
    have v: "file_valid (files ! n)" using ok n by simp
    have nP: "\<not> P (files ! n)" using n nth_length_takeWhile [of P files] by (simp add: n_def)
    have later: "above_key cmp (ExtractUserKey (fm_smallest g)) e"
      if an: "above_key cmp (ExtractUserKey (fm_smallest (files ! n))) e" and g: "g \<in> set files" "\<not> P g" for g
    proof -
      obtain j where j: "j < length files" "g = files ! j" using g(1) by (auto simp: in_set_conv_nth)
      have "n \<le> j" using j g(2) set_takeWhileD [OF nth_mem, of j P files] by (auto simp: n_def takeWhile_nth not_less [symmetric])
      show ?thesis
      proof (cases "n = j")
        case True
        then show ?thesis using an j by simp
      next
        case False
        then have "n < j" using \<open>n \<le> j\<close> by simp
        then have "InternalCompare cmp (fm_largest (files ! n)) (fm_smallest g) < 0"
          using j sorted_wrt_nth_less [OF dj [unfolded disjoint_files_def]] by blast
        moreover have "InternalCompare cmp (fm_smallest (files ! n)) (fm_largest (files ! n)) \<le> 0"
          using v by (simp add: file_valid_def file_ok_def)
        ultimately have "InternalCompare cmp (fm_smallest (files ! n)) (fm_smallest g) < 0"
          using v ok g(1) file_valid_internal icmp_le_trans by blast
        then have le: "cmp (ExtractUserKey (fm_smallest (files ! n))) (ExtractUserKey (fm_smallest g)) \<le> 0"
          using icmp_user_le v ok g(1) file_valid_internal by (metis order_less_imp_le)
        have vs: "valid (ExtractUserKey (fm_smallest (files ! n)))" "valid (ExtractUserKey (fm_smallest g))"
          using v ok g(1) by (simp_all add: file_valid_def)
        obtain k where k: "e = Some k" "cmp (ExtractUserKey (fm_smallest (files ! n))) k > 0" "valid k"
          using an e by (cases e) (simp_all add: above_key_def)
        have "cmp k (ExtractUserKey (fm_smallest g)) < 0"
          using k le vs cmp_flip cmp_le_trans cmp_trans by (metis cmp_eq order_le_less)
        then show ?thesis using k vs cmp_flip by (simp add: above_key_def)
      qed
    qed
    have "overlaps cmp b e (files ! n)" if "\<not> above_key cmp (ExtractUserKey (fm_smallest (files ! n))) e"
      using that nP by (simp add: overlaps_def P_def)
    then show ?thesis
      using n later BeforeFile_above [OF v e] by (auto simp: list_ex_iff overlaps_def P_def)
  qed
  then show ?thesis using True search by (simp add: SomeFileOverlapsRange_def)
qed

lemma overlapping_step:
  assumes "i < length files"
  shows "overlapping cmp level files ub ue i inputs =
    (let f = files ! i; s = ExtractUserKey (fm_smallest f); l = ExtractUserKey (fm_largest f) in
     if \<not> overlaps cmp ub ue f then overlapping cmp level files ub ue (Suc i) inputs
     else if level = 0 \<and> below_key cmp s ub then overlapping cmp level files (Some s) ue 0 []
     else if level = 0 \<and> above_key cmp l ue then overlapping cmp level files ub (Some l) 0 []
     else overlapping cmp level files ub ue (Suc i) (inputs @ [f]))"
  using assms by (subst overlapping.simps) (simp add: overlaps_def Let_def)

lemma overlapping_upper:
  assumes "level \<noteq> 0"
  shows "overlapping cmp level files ub ue i inputs = Some (inputs @ filter (overlaps cmp ub ue) (drop i files))"
proof (induction "length files - i" arbitrary: i inputs)
  case 0
  then show ?case by (subst overlapping.simps) simp
next
  case (Suc n)
  then have i: "i < length files" by simp
  show ?case
    using assms Suc.hyps(1) [of "Suc i"] Suc.hyps(2) Cons_nth_drop_Suc [OF i, symmetric]
    by (simp add: overlapping_step [OF i] Let_def)
qed

definition range_valid :: "u8 list option \<Rightarrow> bool" where
  "range_valid b \<longleftrightarrow> (\<forall>k. b = Some k \<longrightarrow> valid k)"

lemma grow_below:
  assumes f: "file_valid f" and g: "file_valid g" and "range_valid ub" "range_valid ue"
    and "overlaps cmp ub ue f" and "below_key cmp (ExtractUserKey (fm_smallest f)) ub"
    and "overlaps cmp (Some (ExtractUserKey (fm_smallest f))) ue g"
  shows "overlaps cmp ub ue g \<or> files_meet cmp f g"
proof (rule disjCI)
  let ?sf = "ExtractUserKey (fm_smallest f)" and ?lf = "ExtractUserKey (fm_largest f)"
  let ?sg = "ExtractUserKey (fm_smallest g)" and ?lg = "ExtractUserKey (fm_largest g)"
  have v: "valid ?sf" "valid ?lf" "valid ?sg" "valid ?lg" using f g by (simp_all add: file_valid_def)
  have og: "cmp ?sg ?lg \<le> 0" using g file_valid_internal icmp_user_le by (auto simp: file_valid_def file_ok_def)
  obtain b where b: "ub = Some b" "valid b" "cmp ?sf b < 0"
    using assms(3,6) by (cases ub) (simp_all add: below_key_def range_valid_def)
  have lf: "\<not> cmp ?lf b < 0" using assms(5) b by (simp add: overlaps_def below_key_def)
  have lg: "\<not> cmp ?lg ?sf < 0" using assms(7) by (simp add: overlaps_def below_key_def)
  assume "\<not> files_meet cmp f g"
  moreover have "cmp ?sf ?lg \<le> 0" using lg v cmp_flip by (metis linorder_not_less)
  ultimately have sg: "cmp ?sg ?lf > 0" by (simp add: files_meet_def)
  have "cmp b ?lf \<le> 0" using lf v b cmp_flip by (metis linorder_not_less)
  moreover have "cmp ?lf ?sg < 0" using sg v cmp_flip by simp
  ultimately have "cmp b ?sg < 0" using v b by (blast intro: cmp_le_trans)
  then have "cmp b ?lg < 0" using og v b cmp_trans cmp_eq by (metis order_le_less)
  then have "\<not> cmp ?lg b < 0" using v b cmp_flip by (metis less_asym')
  then show "overlaps cmp ub ue g"
    using assms(7) b by (simp add: overlaps_def below_key_def)
qed

lemma grow_above:
  assumes f: "file_valid f" and g: "file_valid g" and "range_valid ub" "range_valid ue"
    and "overlaps cmp ub ue f" and "above_key cmp (ExtractUserKey (fm_largest f)) ue"
    and "overlaps cmp ub (Some (ExtractUserKey (fm_largest f))) g"
  shows "overlaps cmp ub ue g \<or> files_meet cmp f g"
proof (rule disjCI)
  let ?sf = "ExtractUserKey (fm_smallest f)" and ?lf = "ExtractUserKey (fm_largest f)"
  let ?sg = "ExtractUserKey (fm_smallest g)" and ?lg = "ExtractUserKey (fm_largest g)"
  have v: "valid ?sf" "valid ?lf" "valid ?sg" "valid ?lg" using f g by (simp_all add: file_valid_def)
  have og: "cmp ?sg ?lg \<le> 0" using g file_valid_internal icmp_user_le by (auto simp: file_valid_def file_ok_def)
  obtain e where e: "ue = Some e" "valid e" "cmp ?lf e > 0"
    using assms(4,6) by (cases ue) (simp_all add: above_key_def range_valid_def)
  have sf: "\<not> cmp ?sf e > 0" using assms(5) e by (simp add: overlaps_def above_key_def)
  have sg: "\<not> cmp ?sg ?lf > 0" using assms(7) by (simp add: overlaps_def above_key_def)
  assume "\<not> files_meet cmp f g"
  then have "cmp ?sf ?lg > 0" using sg by (simp add: files_meet_def)
  then have "cmp ?lg ?sf < 0" using v cmp_flip by simp
  then have "cmp ?sg ?sf < 0" using og v by (blast intro: cmp_le_trans)
  moreover have "cmp ?sf e \<le> 0" using sf by simp
  ultimately have "cmp ?sg e < 0" using v e cmp_trans cmp_eq by (metis order_le_less)
  then show "overlaps cmp ub ue g"
    using assms(7) e by (simp add: overlaps_def above_key_def)
qed

lemma below_trans:
  assumes "range_valid b" and "valid k" and "valid m" and "cmp k m \<le> 0" and "below_key cmp m b"
  shows "below_key cmp k b"
  using assms cmp_le_trans by (auto simp: below_key_def range_valid_def split: option.splits)

lemma above_trans:
  assumes "range_valid e" and "valid k" and "valid m" and "cmp k m \<le> 0" and "above_key cmp k e"
  shows "above_key cmp m e"
proof -
  obtain x where x: "e = Some x" "valid x" "cmp k x > 0"
    using assms(1,5) by (cases e) (simp_all add: above_key_def range_valid_def)
  then have "cmp x k < 0" using assms(2) cmp_flip by simp
  then have "cmp x m < 0" using assms(2-4) x(2) cmp_trans cmp_eq by (metis order_le_less)
  then show ?thesis using x assms(3) cmp_flip by (simp add: above_key_def)
qed

lemma linked_in: "linked ucmp files b e f \<Longrightarrow> f \<in> set files"
  by (induction rule: linked.induct) simp_all

lemma closed_range:
  assumes ok: "\<forall>f\<in>set files. file_valid f" and r: "range_valid ub" "range_valid ue"
    and start: "\<forall>g\<in>set files. overlaps cmp b e g \<longrightarrow> overlaps cmp ub ue g"
    and inside: "\<forall>f\<in>set files. overlaps cmp ub ue f \<longrightarrow>
      \<not> below_key cmp (ExtractUserKey (fm_smallest f)) ub \<and> \<not> above_key cmp (ExtractUserKey (fm_largest f)) ue"
    and "linked cmp files b e g"
  shows "overlaps cmp ub ue g"
  using assms(6)
proof (induction rule: linked.induct)
  case (by_file f g)
  have v: "file_valid f" "file_valid g" using ok linked_in [OF by_file.hyps(1)] by_file.hyps(2) by simp_all
  have "\<not> below_key cmp (ExtractUserKey (fm_smallest f)) ub" "\<not> above_key cmp (ExtractUserKey (fm_largest f)) ue"
    using inside linked_in [OF by_file.hyps(1)] by_file.IH by simp_all
  then show ?case
    using v by_file.hyps(3) below_trans [OF r(1)] above_trans [OF r(2)]
    unfolding overlaps_def files_meet_def file_valid_def by blast
qed (simp add: start)

lemma overlapping_zero:
  assumes ok: "\<forall>f\<in>set files. file_valid f"
  shows "range_valid ub \<Longrightarrow> range_valid ue \<Longrightarrow> i \<le> length files \<Longrightarrow>
    \<forall>g\<in>set files. overlaps cmp ub ue g \<longrightarrow> linked cmp files b e g \<Longrightarrow>
    \<forall>g\<in>set files. overlaps cmp b e g \<longrightarrow> overlaps cmp ub ue g \<Longrightarrow>
    inputs = filter (overlaps cmp ub ue) (take i files) \<Longrightarrow>
    \<forall>f\<in>set inputs. \<not> below_key cmp (ExtractUserKey (fm_smallest f)) ub \<and> \<not> above_key cmp (ExtractUserKey (fm_largest f)) ue \<Longrightarrow>
    overlapping cmp 0 files ub ue i inputs = Some (filter (linked cmp files b e) files)"
proof (induction "(length (filter (\<lambda>f. below_key cmp (ExtractUserKey (fm_smallest f)) ub) files) +
        length (filter (\<lambda>f. above_key cmp (ExtractUserKey (fm_largest f)) ue) files)) * Suc (length files) + (length files - i)"
    arbitrary: ub ue i inputs rule: less_induct)
  case less
  let ?L = "length files"
  have again: "m * Suc ?L + (?L - 0) < m' * Suc ?L + (?L - i)" if "m < m'" for m m'
  proof -
    have "Suc m * Suc ?L \<le> m' * Suc ?L" using that by (intro mult_le_mono1) simp
    then show ?thesis by simp
  qed
  show ?case
  proof (cases "i < ?L")
    case False
    then have inputs: "inputs = filter (overlaps cmp ub ue) files" using less.prems by simp
    have inside: "\<forall>f\<in>set files. overlaps cmp ub ue f \<longrightarrow>
        \<not> below_key cmp (ExtractUserKey (fm_smallest f)) ub \<and> \<not> above_key cmp (ExtractUserKey (fm_largest f)) ue"
      using less.prems(7) inputs by simp
    have "filter (overlaps cmp ub ue) files = filter (linked cmp files b e) files"
      using less.prems(4) closed_range [OF ok less.prems(1,2,5) inside] by (intro filter_cong) auto
    then show ?thesis using False inputs by (subst overlapping.simps) simp
  next
    case i: True
    let ?f = "files ! i" and ?s = "ExtractUserKey (fm_smallest (files ! i))" and ?l = "ExtractUserKey (fm_largest (files ! i))"
    have f: "?f \<in> set files" "file_valid ?f" using i ok by simp_all
    have v: "valid ?s" "valid ?l" using f by (simp_all add: file_valid_def)
    have take: "take (Suc i) files = take i files @ [?f]" using i by (rule take_Suc_conv_app_nth)
    consider (skip) "\<not> overlaps cmp ub ue ?f" | (down) "overlaps cmp ub ue ?f" "below_key cmp ?s ub"
      | (up) "overlaps cmp ub ue ?f" "\<not> below_key cmp ?s ub" "above_key cmp ?l ue"
      | (take) "overlaps cmp ub ue ?f" "\<not> below_key cmp ?s ub" "\<not> above_key cmp ?l ue" by blast
    then show ?thesis
    proof cases
      case skip
      then have "overlapping cmp 0 files ub ue (Suc i) inputs = Some (filter (linked cmp files b e) files)"
        using less.prems i take by (intro less.hyps) auto
      then show ?thesis using skip by (simp add: overlapping_step [OF i])
    next
      case take': take
      then have "overlapping cmp 0 files ub ue (Suc i) (inputs @ [?f]) = Some (filter (linked cmp files b e) files)"
        using less.prems i take by (intro less.hyps) auto
      then show ?thesis using take' by (simp add: overlapping_step [OF i] Let_def)
    next
      case down
      have smaller: "below_key cmp k (Some ?s) \<Longrightarrow> valid k \<Longrightarrow> below_key cmp k ub" for k
        using below_trans [OF less.prems(1) _ v(1) _ down(2), of k] by (simp add: below_key_def)
      have "\<not> below_key cmp ?s (Some ?s)" using v cmp_refl by (simp add: below_key_def)
      then have fewer: "length (filter (\<lambda>f. below_key cmp (ExtractUserKey (fm_smallest f)) (Some ?s)) files) <
          length (filter (\<lambda>f. below_key cmp (ExtractUserKey (fm_smallest f)) ub) files)"
        using smaller ok f down(2) by (intro length_filter_less [where x = ?f]) (auto simp: file_valid_def)
      have "overlapping cmp 0 files (Some ?s) ue 0 [] = Some (filter (linked cmp files b e) files)"
      proof (rule less.hyps)
        show "range_valid (Some ?s)" using v by (simp add: range_valid_def)
        show "\<forall>g\<in>set files. overlaps cmp (Some ?s) ue g \<longrightarrow> linked cmp files b e g"
          using grow_below [OF f(2) _ less.prems(1,2) down] ok less.prems(4) f(1) down(1) by (blast intro: linked.by_file)
        show "\<forall>g\<in>set files. overlaps cmp b e g \<longrightarrow> overlaps cmp (Some ?s) ue g"
          using less.prems(5) smaller ok unfolding overlaps_def file_valid_def by blast
      qed (use fewer again less.prems in simp_all)
      then show ?thesis using down by (simp add: overlapping_step [OF i] Let_def)
    next
      case up
      have smaller: "above_key cmp k (Some ?l) \<Longrightarrow> valid k \<Longrightarrow> above_key cmp k ue" for k
        using above_trans [OF less.prems(2) v(2) _ _ up(3), of k] cmp_flip v(2) by (fastforce simp: above_key_def)
      have "\<not> above_key cmp ?l (Some ?l)" using v cmp_refl by (simp add: above_key_def)
      then have fewer: "length (filter (\<lambda>f. above_key cmp (ExtractUserKey (fm_largest f)) (Some ?l)) files) <
          length (filter (\<lambda>f. above_key cmp (ExtractUserKey (fm_largest f)) ue) files)"
        using smaller ok f up(3) by (intro length_filter_less [where x = ?f]) (auto simp: file_valid_def)
      have "overlapping cmp 0 files ub (Some ?l) 0 [] = Some (filter (linked cmp files b e) files)"
      proof (rule less.hyps)
        show "range_valid (Some ?l)" using v by (simp add: range_valid_def)
        show "\<forall>g\<in>set files. overlaps cmp ub (Some ?l) g \<longrightarrow> linked cmp files b e g"
          using grow_above [OF f(2) _ less.prems(1,2) up(1,3)] ok less.prems(4) f(1) up(1) by (blast intro: linked.by_file)
        show "\<forall>g\<in>set files. overlaps cmp b e g \<longrightarrow> overlaps cmp ub (Some ?l) g"
          using less.prems(5) smaller ok unfolding overlaps_def file_valid_def by blast
      qed (use fewer again less.prems in simp_all)
      then show ?thesis using up by (simp add: overlapping_step [OF i] Let_def)
    qed
  qed
qed

lemma GetOverlappingInputs_files:
  assumes "\<forall>f\<in>set (files level). file_valid f" and "range_valid (map_option ExtractUserKey b)"
    and "range_valid (map_option ExtractUserKey e)"
  shows "GetOverlappingInputs cmp files level b e =
    Some (filter (if level = 0 then linked cmp (files level) (map_option ExtractUserKey b) (map_option ExtractUserKey e)
                  else overlaps cmp (map_option ExtractUserKey b) (map_option ExtractUserKey e)) (files level))"
proof (cases "level = 0")
  case True
  then show ?thesis
    using assms unfolding GetOverlappingInputs_def
    by (simp, intro overlapping_zero) (auto intro: linked.in_range)
qed (simp add: GetOverlappingInputs_def overlapping_upper)

end

lemma bytewise_file_valid: "bytewise.file_valid = file_ok Slice_compare"
  by (rule ext) (simp add: bytewise.file_valid_def)

section \<open>Properties\<close>

text \<open>
  C34. In a level of disjoint files in order the binary search for overlap gives the answer of the search through
  all files: whether some file has user keys in the range.
\<close>

theorem ldb_overlap_search:
  assumes "disjoint_files Slice_compare files" and "\<forall>f\<in>set files. file_ok Slice_compare f" and "length files < 2 ^ 31"
  shows "SomeFileOverlapsRange Slice_compare True files b e = SomeFileOverlapsRange Slice_compare False files b e \<and>
    SomeFileOverlapsRange Slice_compare True files b e = Some (list_ex (overlaps Slice_compare b e) files)"
  using bytewise.SomeFileOverlapsRange_search [OF assms(1) _ assms(3)] assms(2) by (simp add: bytewise_file_valid)

definition two_files :: "file_meta list" where
  "two_files =
     [FileMetaData 7 100 (InternalKey [97] 5 kTypeValue) (InternalKey [99] 2 kTypeValue),
      FileMetaData 8 100 (InternalKey [99] 1 kTypeValue) (InternalKey [103] 9 kTypeDeletion)]"

lemma two_files_ok: "disjoint_files Slice_compare two_files" "\<forall>f\<in>set two_files. file_ok Slice_compare f" "length two_files < 2 ^ 31"
  by (simp_all add: two_files_def disjoint_files_def file_ok_def FileMetaData_def InternalCompare_tag InternalKey_def
      AppendInternalKey_parts Slice_compare_simps Let_def PackSequenceAndType_def kMaxSequenceNumber_def
      InternalKeyEncodingLength_def word_le_nat_alt)

theorem ldb_overlap_search_witness:
  "SomeFileOverlapsRange Slice_compare True two_files (Some [99]) (Some [100]) =
     SomeFileOverlapsRange Slice_compare False two_files (Some [99]) (Some [100]) \<and>
   SomeFileOverlapsRange Slice_compare True two_files (Some [104]) None = Some False"
proof -
  have "\<not> list_ex (overlaps Slice_compare (Some [104]) None) two_files"
    by (simp add: overlaps_def below_key_def two_files_def FileMetaData_def InternalKey_def AppendInternalKey_parts
        Slice_compare_simps)
  then show ?thesis
    using conjunct1 [OF ldb_overlap_search [OF two_files_ok, of "Some [99]" "Some [100]"]]
      conjunct2 [OF ldb_overlap_search [OF two_files_ok, of "Some [104]" None]]
    by simp
qed

text \<open>
  C35. The files of a level that a range takes: on the upper levels those that have user keys in it, on level 0 all
  that a chain of overlapping files links with it, in the order of the level. The search, which on level 0
  starts again whenever a file widens the range, always ends.
\<close>

theorem ldb_overlapping_inputs:
  assumes "\<forall>f\<in>set (files level). file_ok Slice_compare f"
  shows "GetOverlappingInputs Slice_compare files level b e =
    Some (filter (if level = 0
                  then linked Slice_compare (files level) (map_option ExtractUserKey b) (map_option ExtractUserKey e)
                  else overlaps Slice_compare (map_option ExtractUserKey b) (map_option ExtractUserKey e)) (files level))"
  by (rule bytewise.GetOverlappingInputs_files) (simp_all add: assms bytewise_file_valid bytewise.range_valid_def)

theorem ldb_overlapping_inputs_witness:
  "GetOverlappingInputs Slice_compare (\<lambda>_. two_files) 0 (Some (InternalKey [100] 0 kTypeValue)) None =
     Some (filter (linked Slice_compare two_files (Some [100]) None) two_files) \<and>
   GetOverlappingInputs Slice_compare (\<lambda>_. two_files) 1 (Some (InternalKey [100] 0 kTypeValue)) None = Some (tl two_files)"
proof -
  have "filter (overlaps Slice_compare (Some [100]) None) two_files = tl two_files"
    by (simp add: overlaps_def below_key_def above_key_def two_files_def FileMetaData_def InternalKey_def
        AppendInternalKey_parts Slice_compare_simps)
  then show ?thesis
    using ldb_overlapping_inputs [of "\<lambda>_. two_files" 0 "Some (InternalKey [100] 0 kTypeValue)" None]
      ldb_overlapping_inputs [of "\<lambda>_. two_files" 1 "Some (InternalKey [100] 0 kTypeValue)" None] two_files_ok(2)
    by (simp add: InternalKey_def AppendInternalKey_parts)
qed

end
