(* ===== verification/LdbCompactionProofs.thy ===== *)
theory LdbCompactionProofs
  imports LdbCompaction LdbFilesProofs
begin

text \<open>
  The inputs of a compaction are complete: with an entry of a user key it takes every older entry of that key in
  its level, and every file of the next level that the files it takes overlap.
\<close>

definition inputs_complete :: "compare_op \<Rightarrow> levels \<Rightarrow> int \<Rightarrow> file_meta list \<Rightarrow> file_meta list \<Rightarrow> bool" where
  "inputs_complete ucmp files level inputs0 inputs1 \<longleftrightarrow>
     inputs0 \<noteq> [] \<and> set inputs0 \<subseteq> set (files level) \<and> set inputs1 \<subseteq> set (files (level + 1)) \<and>
     (\<forall>f\<in>set inputs0. \<forall>g\<in>set (files level) - set inputs0.
        if level = 0 then \<not> files_meet ucmp f g
        else InternalCompare ucmp (fm_largest f) (fm_smallest g) < 0 \<longrightarrow>
          ucmp (ExtractUserKey (fm_largest f)) (ExtractUserKey (fm_smallest g)) < 0) \<and>
     (\<forall>f\<in>set inputs0. \<forall>g\<in>set (files (level + 1)) - set inputs1. \<not> files_meet ucmp f g)"

lemma snd_GetRange:
  "snd (fold (widen_range ucmp) fs r) =
    fold (\<lambda>f k. if InternalCompare ucmp (fm_largest f) k > 0 then fm_largest f else k) fs (snd r)"
  by (induction fs arbitrary: r) (simp_all add: widen_range_def)

lemma FindLargestKey_GetRange: "FindLargestKey ucmp fs = (if fs = [] then None else Some (snd (GetRange ucmp fs)))"
  by (simp add: FindLargestKey_def GetRange_def snd_GetRange split: list.split)

lemma boundary_none:
  assumes "\<forall>f\<in>set fs. \<not> (InternalCompare ucmp (fm_smallest f) k > 0 \<and> ucmp (ExtractUserKey (fm_smallest f)) (ExtractUserKey k) = 0)"
  shows "fold (boundary_step ucmp k) fs b = b"
  using assms by (induction fs arbitrary: b) (auto simp: boundary_step_def)

lemma filter_run:
  assumes "sorted_wrt R fs" and "\<And>f g. f \<in> set fs \<Longrightarrow> g \<in> set fs \<Longrightarrow> R f g \<Longrightarrow> P g \<Longrightarrow> P f"
    and "\<And>f g. f \<in> set fs \<Longrightarrow> g \<in> set fs \<Longrightarrow> R f g \<Longrightarrow> Q f \<Longrightarrow> Q g"
  shows "\<exists>pre post. fs = pre @ filter (\<lambda>f. \<not> P f \<and> \<not> Q f) fs @ post"
  using assms
proof (induction fs)
  case (Cons f fs)
  show ?case
  proof (cases "\<not> P f \<and> \<not> Q f")
    case True
    have noP: "\<not> P g" if "g \<in> set fs" for g using Cons.prems(1,2) True that by auto
    have "\<exists>post. fs = filter (\<lambda>f. \<not> P f \<and> \<not> Q f) fs @ post" using Cons.prems(1,3) noP
    proof (induction fs)
      case (Cons h hs)
      show ?case
      proof (cases "Q h")
        case True
        then have "\<forall>g\<in>set (h # hs). Q g" using Cons.prems(1,2) by auto
        then have "filter (\<lambda>f. \<not> P f \<and> \<not> Q f) (h # hs) = []" by (simp add: filter_empty_conv)
        then show ?thesis by simp
      next
        case False
        have "\<exists>post. hs = filter (\<lambda>f. \<not> P f \<and> \<not> Q f) hs @ post"
          using Cons.prems by (intro Cons.IH) auto
        then show ?thesis using False Cons.prems(3) [of h] by simp
      qed
    qed simp
    then obtain post where "fs = filter (\<lambda>f. \<not> P f \<and> \<not> Q f) fs @ post" ..
    then have "f # fs = [] @ filter (\<lambda>f. \<not> P f \<and> \<not> Q f) (f # fs) @ post" using True by simp
    then show ?thesis by blast
  next
    case False
    have "\<exists>pre post. fs = pre @ filter (\<lambda>f. \<not> P f \<and> \<not> Q f) fs @ post"
    proof (rule Cons.IH)
      show "sorted_wrt R fs" using Cons.prems(1) by simp
      show "P f" if "f \<in> set fs" "g \<in> set fs" "R f g" "P g" for f g using Cons.prems(2) [of f g] that by simp
      show "Q g" if "f \<in> set fs" "g \<in> set fs" "R f g" "Q f" for f g using Cons.prems(3) [of f g] that by simp
    qed
    then obtain pre post where "fs = pre @ filter (\<lambda>f. \<not> P f \<and> \<not> Q f) fs @ post" by blast
    moreover have "filter (\<lambda>f. \<not> P f \<and> \<not> Q f) (f # fs) = filter (\<lambda>f. \<not> P f \<and> \<not> Q f) fs" using False by auto
    ultimately have "f # fs = (f # pre) @ filter (\<lambda>f. \<not> P f \<and> \<not> Q f) (f # fs) @ post" by simp
    then show ?thesis by blast
  qed
qed simp

lemma limit_inputs_prefix: "\<exists>rest. fs = limit_inputs limit acc fs @ rest"
  by (induction fs arbitrary: acc) (auto simp: Let_def)

lemma limit_inputs_Nil: "limit_inputs limit acc fs = [] \<longleftrightarrow> fs = []"
  by (cases fs) (simp_all add: Let_def)

context comparator
begin

lemma icmp_refl: "valid_internal a \<Longrightarrow> InternalCompare cmp a a = 0"
  by (simp add: icmp_eq)

lemma icmp_le:
  assumes "valid_internal a" and "valid_internal b" and "valid_internal c"
    and "InternalCompare cmp a b \<le> 0" and "InternalCompare cmp b c \<le> 0"
  shows "InternalCompare cmp a c \<le> 0"
  using assms icmp_trans icmp_eq by (metis order_le_less)

lemma icmp_total:
  assumes "valid_internal a" and "valid_internal b" and "\<not> InternalCompare cmp a b < 0"
  shows "InternalCompare cmp b a \<le> 0"
  using assms icmp_flip by (metis linorder_not_less)

lemma icmp_gt:
  "valid_internal a \<Longrightarrow> valid_internal b \<Longrightarrow> InternalCompare cmp a b > 0 \<Longrightarrow> InternalCompare cmp b a \<le> 0"
  using icmp_flip by fastforce

lemma widen_range_fold:
  assumes "\<forall>f\<in>set fs. file_valid f" and "valid_internal (fst r)" and "valid_internal (snd r)"
  shows "let r' = fold (widen_range cmp) fs r in
    valid_internal (fst r') \<and> valid_internal (snd r') \<and> InternalCompare cmp (fst r') (fst r) \<le> 0 \<and> InternalCompare cmp (snd r) (snd r') \<le> 0 \<and>
    (\<forall>f\<in>set fs. InternalCompare cmp (fst r') (fm_smallest f) \<le> 0 \<and> InternalCompare cmp (fm_largest f) (snd r') \<le> 0)"
  using assms
proof (induction fs arbitrary: r)
  case Nil
  then show ?case by (simp add: icmp_refl)
next
  case (Cons f fs)
  let ?r = "widen_range cmp f r"
  have v: "valid_internal (fm_smallest f)" "valid_internal (fm_largest f)" using Cons.prems(1) file_valid_internal by simp_all
  then have vr: "valid_internal (fst ?r)" "valid_internal (snd ?r)" using Cons.prems by (simp_all add: widen_range_def)
  have step: "InternalCompare cmp (fst ?r) (fst r) \<le> 0" "InternalCompare cmp (fst ?r) (fm_smallest f) \<le> 0"
    "InternalCompare cmp (snd r) (snd ?r) \<le> 0" "InternalCompare cmp (fm_largest f) (snd ?r) \<le> 0"
    using v Cons.prems(2,3) icmp_refl icmp_total icmp_gt by (auto simp: widen_range_def)
  show ?case
  proof -
    let ?q = "fold (widen_range cmp) fs ?r"
    have q: "valid_internal (fst ?q)" "valid_internal (snd ?q)" "InternalCompare cmp (fst ?q) (fst ?r) \<le> 0"
      "InternalCompare cmp (snd ?r) (snd ?q) \<le> 0"
      "\<forall>f\<in>set fs. InternalCompare cmp (fst ?q) (fm_smallest f) \<le> 0 \<and> InternalCompare cmp (fm_largest f) (snd ?q) \<le> 0"
      using Cons.IH [OF _ vr] Cons.prems(1) by (simp_all add: Let_def)
    have "InternalCompare cmp (fst ?q) (fst r) \<le> 0" "InternalCompare cmp (fst ?q) (fm_smallest f) \<le> 0"
      "InternalCompare cmp (snd r) (snd ?q) \<le> 0" "InternalCompare cmp (fm_largest f) (snd ?q) \<le> 0"
      using q(1-4) v vr step Cons.prems(2,3) icmp_le by blast+
    then show ?thesis using q by (simp add: Let_def)
  qed
qed

lemma GetRange_covers:
  assumes "\<forall>f\<in>set fs. file_valid f" and "fs \<noteq> []"
  shows "valid_internal (fst (GetRange cmp fs))" "valid_internal (snd (GetRange cmp fs))"
    "f \<in> set fs \<Longrightarrow> InternalCompare cmp (fst (GetRange cmp fs)) (fm_smallest f) \<le> 0"
    "f \<in> set fs \<Longrightarrow> InternalCompare cmp (fm_largest f) (snd (GetRange cmp fs)) \<le> 0"
proof -
  obtain a as where fs: "fs = a # as" using assms(2) by (cases fs) simp_all
  have "valid_internal (fm_smallest a)" "valid_internal (fm_largest a)" using assms(1) file_valid_internal fs by simp_all
  then show "valid_internal (fst (GetRange cmp fs))" "valid_internal (snd (GetRange cmp fs))"
    "f \<in> set fs \<Longrightarrow> InternalCompare cmp (fst (GetRange cmp fs)) (fm_smallest f) \<le> 0"
    "f \<in> set fs \<Longrightarrow> InternalCompare cmp (fm_largest f) (snd (GetRange cmp fs)) \<le> 0"
    using widen_range_fold [of as "(fm_smallest a, fm_largest a)"] assms(1) fs by (auto simp: GetRange_def Let_def)
qed

lemma GetRange_attained:
  "fs \<noteq> [] \<Longrightarrow> \<exists>f\<in>set fs. snd (GetRange cmp fs) = fm_largest f"
proof -
  have "snd (fold (widen_range cmp) fs r) = snd r \<or> (\<exists>f\<in>set fs. snd (fold (widen_range cmp) fs r) = fm_largest f)" for fs r
    by (induction fs arbitrary: r) (fastforce simp: widen_range_def)+
  from this [of "tl fs" "(fm_smallest (hd fs), fm_largest (hd fs))"] show "fs \<noteq> [] \<Longrightarrow> ?thesis"
    by (cases fs) (auto simp: GetRange_def)
qed

text \<open>The files of an upper level follow each other.\<close>

lemma disjoint_append:
  assumes "disjoint_files cmp (xs @ ys)" and "f \<in> set xs" and "g \<in> set ys"
  shows "InternalCompare cmp (fm_largest f) (fm_smallest g) < 0"
  using assms by (auto simp: disjoint_files_def sorted_wrt_append)

lemma file_order:
  assumes "file_valid f" and "file_valid g" and "InternalCompare cmp (fm_largest f) (fm_smallest g) < 0"
  shows "InternalCompare cmp (fm_largest f) (fm_largest g) < 0" "InternalCompare cmp (fm_smallest f) (fm_smallest g) < 0"
    "InternalCompare cmp (fm_smallest f) (fm_largest g) < 0" "\<not> InternalCompare cmp (fm_smallest g) (fm_largest f) > 0 \<Longrightarrow> False"
proof -
  have v: "valid_internal (fm_smallest f)" "valid_internal (fm_largest f)" "valid_internal (fm_smallest g)" "valid_internal (fm_largest g)"
    using assms(1,2) file_valid_internal by simp_all
  have le: "InternalCompare cmp (fm_smallest f) (fm_largest f) \<le> 0" "InternalCompare cmp (fm_smallest g) (fm_largest g) \<le> 0"
    using assms(1,2) by (simp_all add: file_valid_def file_ok_def)
  show 1: "InternalCompare cmp (fm_smallest f) (fm_smallest g) < 0"
    using icmp_le_trans v le(1) assms(3) by blast
  show 2: "InternalCompare cmp (fm_largest f) (fm_largest g) < 0"
    using assms(3) le(2) v icmp_trans icmp_eq by (metis order_le_less)
  show "InternalCompare cmp (fm_smallest f) (fm_largest g) < 0"
    using icmp_le_trans v le(1) 2 by blast
  show "\<not> InternalCompare cmp (fm_smallest g) (fm_largest f) > 0 \<Longrightarrow> False"
    using icmp_flip v assms(3) by blast
qed

lemma GetRange_last:
  assumes "disjoint_files cmp fs" and ok: "\<forall>f\<in>set fs. file_valid f" and "fs \<noteq> []"
  shows "snd (GetRange cmp fs) = fm_largest (last fs)"
proof -
  obtain f where f: "f \<in> set fs" "snd (GetRange cmp fs) = fm_largest f" using GetRange_attained [OF assms(3)] by blast
  have "f = last fs \<or> f \<in> set (butlast fs)" using f(1) assms(3) by (metis append_butlast_last_id in_set_conv_decomp in_set_butlastD Un_iff set_append empty_iff set_ConsD empty_set)
  moreover have "f \<notin> set (butlast fs)"
  proof
    assume "f \<in> set (butlast fs)"
    then have "InternalCompare cmp (fm_largest f) (fm_smallest (last fs)) < 0"
      using disjoint_append [of "butlast fs" "[last fs]"] assms(1,3) by simp
    then have "InternalCompare cmp (fm_largest f) (fm_largest (last fs)) < 0"
      using file_order(1) ok f(1) assms(3) by simp
    moreover have "InternalCompare cmp (fm_largest (last fs)) (fm_largest f) \<le> 0"
      using GetRange_covers(4) [OF ok assms(3), of "last fs"] f(2) assms(3) by simp
    ultimately show False
      using icmp_flip file_valid_internal ok f(1) assms(3) last_in_set by (metis linorder_not_less)
  qed
  ultimately show ?thesis using f(2) by simp
qed

text \<open>The boundary file of a run of files is the next one, when it goes on with the user key the run ends with.\<close>

lemma boundary_run:
  assumes dj: "disjoint_files cmp (pre @ ins @ post)" and ok: "\<forall>f\<in>set (pre @ ins @ post). file_valid f" and ne: "ins \<noteq> []"
  defines "k \<equiv> fm_largest (last ins)"
  shows "FindSmallestBoundaryFile cmp (pre @ ins @ post) k =
    (case post of [] \<Rightarrow> None
     | g # _ \<Rightarrow> if ExtractUserKey (fm_smallest g) = ExtractUserKey k then Some g else None)"
proof -
  have vl: "file_valid (last ins)" using ok ne by simp
  have vk: "valid_internal k" "valid (ExtractUserKey k)" using vl file_valid_internal by (simp_all add: k_def file_valid_def)
  have eq: "cmp (ExtractUserKey (fm_smallest g)) (ExtractUserKey k) = 0 \<longleftrightarrow> ExtractUserKey (fm_smallest g) = ExtractUserKey k"
    if "file_valid g" for g using that vk cmp_eq by (simp add: file_valid_def)
  have front: "\<not> InternalCompare cmp (fm_smallest f) k > 0" if f: "f \<in> set (pre @ ins)" for f
  proof (cases "f = last ins")
    case True
    then have "InternalCompare cmp (fm_smallest f) k \<le> 0" using vl by (simp add: k_def file_valid_def file_ok_def)
    then show ?thesis by simp
  next
    case False
    then have "f \<in> set (pre @ butlast ins)" using f ne by (metis append_butlast_last_id Un_iff set_append empty_iff set_ConsD empty_set)
    moreover have e: "(pre @ butlast ins) @ [last ins] @ post = pre @ ins @ post" using ne by simp
    ultimately have "InternalCompare cmp (fm_largest f) (fm_smallest (last ins)) < 0"
      using disjoint_append [OF dj [folded e], of f "last ins"] by simp
    then have "InternalCompare cmp (fm_smallest f) k < 0" using file_order(3) [OF _ vl] ok f by (auto simp: k_def)
    then show ?thesis by simp
  qed
  have "fold (boundary_step cmp k) (pre @ ins @ post) None = fold (boundary_step cmp k) post None"
    using boundary_none [of "pre @ ins" cmp k] front by simp
  also have "\<dots> = (case post of [] \<Rightarrow> None
     | g # _ \<Rightarrow> if ExtractUserKey (fm_smallest g) = ExtractUserKey k then Some g else None)"
  proof (cases post)
    case (Cons g gs)
    have vg: "file_valid g" using ok Cons by simp
    have after: "InternalCompare cmp k (fm_smallest g) < 0"
      using disjoint_append [of "pre @ ins" post "last ins" g] dj ne Cons by (simp add: k_def)
    then have gt: "InternalCompare cmp (fm_smallest g) k > 0" using icmp_flip vk vg file_valid_internal by blast
    have gs: "InternalCompare cmp (fm_smallest g) (fm_smallest h) < 0" if "h \<in> set gs" for h
      using that file_order(2) [OF vg] disjoint_append [of "pre @ ins @ [g]" gs g h] dj ok Cons by simp
    show ?thesis
    proof (cases "ExtractUserKey (fm_smallest g) = ExtractUserKey k")
      case True
      have keep: "fold (boundary_step cmp k) hs (Some g) = Some g" if "set hs \<subseteq> set gs" for hs
        using that
      proof (induction hs)
        case (Cons h hs)
        have "\<not> InternalCompare cmp (fm_smallest h) (fm_smallest g) < 0"
          using gs [of h] Cons.prems icmp_flip vg ok \<open>post = g # gs\<close> file_valid_internal by fastforce
        then show ?case using Cons by (simp add: boundary_step_def)
      qed simp
      then show ?thesis using True Cons gt eq [OF vg] by (simp add: boundary_step_def)
    next
      case False
      have "\<not> cmp (ExtractUserKey (fm_smallest h)) (ExtractUserKey k) = 0" if h: "h \<in> set post" for h
      proof
        have vh: "file_valid h" using ok h by simp
        assume "cmp (ExtractUserKey (fm_smallest h)) (ExtractUserKey k) = 0"
        then have hk: "ExtractUserKey (fm_smallest h) = ExtractUserKey k" using eq [OF vh] by simp
        have "InternalCompare cmp (fm_smallest g) (fm_smallest h) \<le> 0"
          using gs [of h] h Cons icmp_refl vg file_valid_internal by auto
        then have "cmp (ExtractUserKey (fm_smallest g)) (ExtractUserKey k) \<le> 0"
          using icmp_user_le [of "fm_smallest g" "fm_smallest h"] vg vh file_valid_internal hk by simp
        moreover have "cmp (ExtractUserKey k) (ExtractUserKey (fm_smallest g)) \<le> 0"
          using icmp_user_le [of k "fm_smallest g"] after vk vg file_valid_internal by simp
        ultimately show False
          using False vk vg cmp_flip cmp_eq unfolding file_valid_def by (metis linorder_not_less order_le_less)
      qed
      then have "fold (boundary_step cmp k) post None = None" by (intro boundary_none) simp
      then show ?thesis using False Cons by simp
    qed
  qed simp
  finally show ?thesis by (simp add: FindSmallestBoundaryFile_def)
qed

lemma add_boundary_run:
  assumes "disjoint_files cmp (pre @ ins @ post)" and "\<forall>f\<in>set (pre @ ins @ post). file_valid f" and "ins \<noteq> []"
  shows "\<exists>post1 post2. post = post1 @ post2 \<and>
    add_boundary cmp (pre @ ins @ post) (fm_largest (last ins)) ins = Some (ins @ post1) \<and>
    (post2 \<noteq> [] \<longrightarrow> ExtractUserKey (fm_smallest (hd post2)) \<noteq> ExtractUserKey (fm_largest (last (ins @ post1))))"
  using assms
proof (induction post arbitrary: ins)
  case Nil
  then show ?case using boundary_run [of pre ins "[]"] by (subst add_boundary.simps) simp
next
  case (Cons g gs)
  show ?case
  proof (cases "ExtractUserKey (fm_smallest g) = ExtractUserKey (fm_largest (last ins))")
    case True
    obtain p1 p2 where p: "gs = p1 @ p2" "add_boundary cmp (pre @ (ins @ [g]) @ gs) (fm_largest (last (ins @ [g]))) (ins @ [g]) = Some ((ins @ [g]) @ p1)"
      "p2 \<noteq> [] \<longrightarrow> ExtractUserKey (fm_smallest (hd p2)) \<noteq> ExtractUserKey (fm_largest (last ((ins @ [g]) @ p1)))"
      using Cons.IH [of "ins @ [g]"] Cons.prems by auto
    have "add_boundary cmp (pre @ ins @ g # gs) (fm_largest (last ins)) ins = Some (ins @ g # p1)"
      using boundary_run [OF Cons.prems] True p(2) by (subst add_boundary.simps) simp
    then show ?thesis using p(1,3) by (intro exI [of _ "g # p1"] exI [of _ p2]) simp
  next
    case False
    then have "add_boundary cmp (pre @ ins @ g # gs) (fm_largest (last ins)) ins = Some ins"
      using boundary_run [OF Cons.prems] by (subst add_boundary.simps) simp
    then show ?thesis using False by (intro exI [of _ "[]"] exI [of _ "g # gs"]) simp
  qed
qed

text \<open>
  Inputs to start with, and inputs that need no further boundary files. On level 0 they are closed under overlap, on the
  others they are a run of files.
\<close>

definition start_inputs :: "file_meta list \<Rightarrow> int \<Rightarrow> file_meta list \<Rightarrow> bool" where
  "start_inputs fs level ins \<longleftrightarrow> ins \<noteq> [] \<and>
     (if level = 0 then set ins \<subseteq> set fs \<and> (\<forall>f\<in>set ins. \<forall>g\<in>set fs - set ins. \<not> files_meet cmp f g)
      else \<exists>pre post. fs = pre @ ins @ post)"

definition full_inputs :: "file_meta list \<Rightarrow> int \<Rightarrow> file_meta list \<Rightarrow> bool" where
  "full_inputs fs level ins \<longleftrightarrow> start_inputs fs level ins \<and>
     (level \<noteq> 0 \<longrightarrow> (\<forall>f\<in>set ins. \<forall>g\<in>set fs - set ins. InternalCompare cmp (fm_largest f) (fm_smallest g) < 0 \<longrightarrow>
        cmp (ExtractUserKey (fm_largest f)) (ExtractUserKey (fm_smallest g)) < 0))"

lemma file_user_order:
  "file_valid f \<Longrightarrow> cmp (ExtractUserKey (fm_smallest f)) (ExtractUserKey (fm_largest f)) \<le> 0"
  using icmp_user_le file_valid_internal by (auto simp: file_valid_def file_ok_def)

lemma AddBoundaryInputs_zero:
  assumes ok: "\<forall>f\<in>set fs. file_valid f" and "start_inputs fs 0 ins"
  shows "AddBoundaryInputs cmp fs ins = Some ins"
proof -
  have ne: "ins \<noteq> []" and sub: "set ins \<subseteq> set fs" and closed: "\<forall>f\<in>set ins. \<forall>g\<in>set fs - set ins. \<not> files_meet cmp f g"
    using assms(2) by (simp_all add: start_inputs_def)
  let ?k = "snd (GetRange cmp ins)"
  have oki: "\<forall>f\<in>set ins. file_valid f" using ok sub by blast
  obtain f where f: "f \<in> set ins" "?k = fm_largest f" using GetRange_attained [OF ne] by blast
  have vf: "file_valid f" using oki f by simp
  have "\<not> (InternalCompare cmp (fm_smallest g) ?k > 0 \<and> cmp (ExtractUserKey (fm_smallest g)) (ExtractUserKey ?k) = 0)"
    if g: "g \<in> set fs" for g
  proof
    assume a: "InternalCompare cmp (fm_smallest g) ?k > 0 \<and> cmp (ExtractUserKey (fm_smallest g)) (ExtractUserKey ?k) = 0"
    have vg: "file_valid g" using ok g by simp
    then have v: "valid_internal (fm_smallest g)" "valid_internal (fm_largest g)" "valid_internal ?k"
      using file_valid_internal vf f by simp_all
    have u: "ExtractUserKey (fm_smallest g) = ExtractUserKey (fm_largest f)"
      using a f vg vf cmp_eq by (simp add: file_valid_def)
    have "files_meet cmp f g"
      using u file_user_order [OF vf] file_user_order [OF vg] vf vg cmp_refl
      unfolding files_meet_def file_valid_def by (metis cmp_le_trans cmp_eq order_le_less)
    then have "g \<in> set ins" using closed f(1) g by blast
    then have "InternalCompare cmp (fm_largest g) ?k \<le> 0" using GetRange_covers(4) [OF oki ne] by simp
    moreover have "InternalCompare cmp (fm_smallest g) (fm_largest g) \<le> 0" using vg by (simp add: file_valid_def file_ok_def)
    ultimately have "InternalCompare cmp (fm_smallest g) ?k \<le> 0" using icmp_le v by blast
    then show False using a by simp
  qed
  then have "FindSmallestBoundaryFile cmp fs ?k = None"
    unfolding FindSmallestBoundaryFile_def by (intro boundary_none) blast
  then show ?thesis
    using ne by (simp add: AddBoundaryInputs_def FindLargestKey_GetRange add_boundary.simps)
qed

lemma full_run:
  assumes dj: "disjoint_files cmp (pre @ ins @ post)" and ok: "\<forall>f\<in>set (pre @ ins @ post). file_valid f" and ne: "ins \<noteq> []"
    and next_key: "post \<noteq> [] \<longrightarrow> ExtractUserKey (fm_smallest (hd post)) \<noteq> ExtractUserKey (fm_largest (last ins))"
    and f: "f \<in> set ins" and g: "g \<in> set (pre @ ins @ post) - set ins"
    and less: "InternalCompare cmp (fm_largest f) (fm_smallest g) < 0"
  shows "cmp (ExtractUserKey (fm_largest f)) (ExtractUserKey (fm_smallest g)) < 0"
proof -
  have vf: "file_valid f" and vg: "file_valid g" and vl: "file_valid (last ins)" using ok f g ne by auto
  have "g \<notin> set pre"
  proof
    assume "g \<in> set pre"
    then have "InternalCompare cmp (fm_largest g) (fm_smallest f) < 0" using disjoint_append [OF dj] f by simp
    then have "InternalCompare cmp (fm_smallest g) (fm_largest f) < 0" using file_order(3) vf vg by blast
    then show False using less icmp_flip vf vg file_valid_internal by (metis less_asym')
  qed
  then have gp: "g \<in> set post" using g by auto
  then obtain h hs where post: "post = h # hs" by (cases post) simp_all
  have vh: "file_valid h" using ok post by simp
  have "InternalCompare cmp (fm_largest (last ins)) (fm_smallest h) < 0"
    using disjoint_append [of "pre @ ins" post "last ins" h] dj ne post by simp
  then have "cmp (ExtractUserKey (fm_largest (last ins))) (ExtractUserKey (fm_smallest h)) \<le> 0"
    using icmp_user_le file_valid_internal vl vh by simp
  then have strict: "cmp (ExtractUserKey (fm_largest (last ins))) (ExtractUserKey (fm_smallest h)) < 0"
    using next_key post vl vh cmp_eq by (fastforce simp: file_valid_def)
  have "f = last ins \<or> f \<in> set (butlast ins)"
    using f ne by (metis append_butlast_last_id Un_iff set_append empty_iff set_ConsD empty_set)
  moreover have "InternalCompare cmp (fm_largest f) (fm_smallest (last ins)) < 0" if "f \<in> set (butlast ins)"
  proof -
    have "(pre @ butlast ins) @ [last ins] @ post = pre @ ins @ post" using ne by simp
    from disjoint_append [OF dj [folded this], of f "last ins"] that show ?thesis by simp
  qed
  ultimately have "InternalCompare cmp (fm_largest f) (fm_largest (last ins)) \<le> 0"
    using file_order(1) [OF vf vl] icmp_refl file_valid_internal [OF vl] by fastforce
  then have "cmp (ExtractUserKey (fm_largest f)) (ExtractUserKey (fm_largest (last ins))) \<le> 0"
    using icmp_user_le file_valid_internal vf vl by simp
  then have fh: "cmp (ExtractUserKey (fm_largest f)) (ExtractUserKey (fm_smallest h)) < 0"
    using strict cmp_le_trans vf vl vh by (simp add: file_valid_def) blast
  have "g = h \<or> InternalCompare cmp (fm_smallest h) (fm_smallest g) < 0"
    using gp post file_order(2) [OF vh vg] disjoint_append [of "pre @ ins @ [h]" hs h g] dj by auto
  then show ?thesis
  proof
    assume "InternalCompare cmp (fm_smallest h) (fm_smallest g) < 0"
    then have "cmp (ExtractUserKey (fm_smallest h)) (ExtractUserKey (fm_smallest g)) \<le> 0"
      using icmp_user_le file_valid_internal vh vg by simp
    then show ?thesis using fh vf vh vg cmp_trans cmp_eq unfolding file_valid_def by (metis order_le_less)
  qed (use fh in simp)
qed

lemma AddBoundaryInputs_full:
  assumes ok: "\<forall>f\<in>set fs. file_valid f" and dj: "level \<noteq> 0 \<longrightarrow> disjoint_files cmp fs" and "start_inputs fs level ins"
  shows "\<exists>ins'. AddBoundaryInputs cmp fs ins = Some ins' \<and> full_inputs fs level ins' \<and> set ins \<subseteq> set ins'"
proof (cases "level = 0")
  case True
  then show ?thesis using AddBoundaryInputs_zero [OF ok] assms(3) by (auto simp: full_inputs_def)
next
  case False
  then obtain pre post where fs: "fs = pre @ ins @ post" and ne: "ins \<noteq> []" using assms(3) by (auto simp: start_inputs_def)
  have dji: "disjoint_files cmp (pre @ ins @ post)" "\<forall>f\<in>set (pre @ ins @ post). file_valid f" using dj ok False fs by simp_all
  have "disjoint_files cmp ins" "\<forall>f\<in>set ins. file_valid f" using dji by (simp_all add: disjoint_files_def sorted_wrt_append)
  then have last: "snd (GetRange cmp ins) = fm_largest (last ins)" using GetRange_last ne by simp
  obtain p1 p2 where p: "post = p1 @ p2" "add_boundary cmp (pre @ ins @ post) (fm_largest (last ins)) ins = Some (ins @ p1)"
    "p2 \<noteq> [] \<longrightarrow> ExtractUserKey (fm_smallest (hd p2)) \<noteq> ExtractUserKey (fm_largest (last (ins @ p1)))"
    using add_boundary_run [OF dji ne] by blast
  have fs': "fs = pre @ (ins @ p1) @ p2" using fs p(1) by simp
  have "full_inputs fs level (ins @ p1)"
    unfolding full_inputs_def start_inputs_def
  proof (intro conjI impI ballI)
    show "ins @ p1 \<noteq> []" using ne by simp
    show "if level = 0 then set (ins @ p1) \<subseteq> set fs \<and> (\<forall>f\<in>set (ins @ p1). \<forall>g\<in>set fs - set (ins @ p1). \<not> files_meet cmp f g)
        else \<exists>pre post. fs = pre @ (ins @ p1) @ post"
      using False fs' by auto
    show "cmp (ExtractUserKey (fm_largest f)) (ExtractUserKey (fm_smallest g)) < 0"
      if "f \<in> set (ins @ p1)" "g \<in> set fs - set (ins @ p1)" "InternalCompare cmp (fm_largest f) (fm_smallest g) < 0" for f g
      using that full_run [of pre "ins @ p1" p2 f g] dj ok False ne p(3) unfolding fs' by blast
  qed
  then show ?thesis
    using p(2) last ne fs by (auto simp: AddBoundaryInputs_def FindLargestKey_GetRange)
qed

lemma overlaps_run:
  assumes dj: "disjoint_files cmp fs" and ok: "\<forall>f\<in>set fs. file_valid f" and b: "range_valid b" and e: "range_valid e"
  shows "\<exists>pre post. fs = pre @ filter (overlaps cmp b e) fs @ post"
proof -
  have "\<exists>pre post. fs = pre @ filter (\<lambda>f. \<not> below_key cmp (ExtractUserKey (fm_largest f)) b \<and>
      \<not> above_key cmp (ExtractUserKey (fm_smallest f)) e) fs @ post"
  proof (rule filter_run [OF dj [unfolded disjoint_files_def]])
    fix f g
    assume f: "f \<in> set fs" and g: "g \<in> set fs" and less: "InternalCompare cmp (fm_largest f) (fm_smallest g) < 0"
    have v: "file_valid f" "file_valid g" using ok f g by simp_all
    have "cmp (ExtractUserKey (fm_largest f)) (ExtractUserKey (fm_largest g)) \<le> 0"
      "cmp (ExtractUserKey (fm_smallest f)) (ExtractUserKey (fm_smallest g)) \<le> 0"
      using icmp_user_le file_order(1,2) [OF v less] file_valid_internal v by simp_all
    then show "below_key cmp (ExtractUserKey (fm_largest g)) b \<Longrightarrow> below_key cmp (ExtractUserKey (fm_largest f)) b"
      and "above_key cmp (ExtractUserKey (fm_smallest f)) e \<Longrightarrow> above_key cmp (ExtractUserKey (fm_smallest g)) e"
      using below_trans [OF b] above_trans [OF e] v unfolding file_valid_def by blast+
  qed
  then show ?thesis by (simp add: overlaps_def [abs_def])
qed

lemma linked_closed:
  "f \<in> set (filter (linked cmp fs b e) fs) \<Longrightarrow> g \<in> set fs - set (filter (linked cmp fs b e) fs) \<Longrightarrow> \<not> files_meet cmp f g"
  by (auto intro: linked.by_file)

lemma start_overlapping:
  assumes ok: "\<forall>f\<in>set (files level). file_valid f" and dj: "level \<noteq> 0 \<longrightarrow> disjoint_files cmp (files level)"
    and b: "range_valid (map_option ExtractUserKey b)" and e: "range_valid (map_option ExtractUserKey e)"
  shows "\<exists>ins. GetOverlappingInputs cmp files level b e = Some ins \<and> (ins \<noteq> [] \<longrightarrow> start_inputs (files level) level ins) \<and>
    set (filter (overlaps cmp (map_option ExtractUserKey b) (map_option ExtractUserKey e)) (files level)) \<subseteq> set ins \<and>
    set ins \<subseteq> set (files level)"
proof (cases "level = 0")
  case True
  then show ?thesis
    using GetOverlappingInputs_files [of files level, OF ok b e] linked_closed by (auto simp: start_inputs_def intro: linked.in_range)
next
  case False
  then show ?thesis
    using GetOverlappingInputs_files [of files level, OF ok b e] overlaps_run [OF _ ok b e] dj by (auto simp: start_inputs_def)
qed

lemma meet_overlaps:
  assumes ok: "\<forall>f\<in>set ins. file_valid f" and f: "f \<in> set ins" and g: "file_valid g" and "files_meet cmp f g"
  shows "overlaps cmp (Some (ExtractUserKey (fst (GetRange cmp ins)))) (Some (ExtractUserKey (snd (GetRange cmp ins)))) g"
proof -
  have ne: "ins \<noteq> []" using f by auto
  let ?s = "fst (GetRange cmp ins)" and ?l = "snd (GetRange cmp ins)"
  have vf: "file_valid f" using ok f by simp
  have vi: "valid_internal ?s" "valid_internal ?l" using GetRange_covers(1,2) [OF ok ne] by simp_all
  have v: "valid (ExtractUserKey ?s)" "valid (ExtractUserKey ?l)" "valid (ExtractUserKey (fm_smallest f))"
    "valid (ExtractUserKey (fm_largest f))" "valid (ExtractUserKey (fm_smallest g))" "valid (ExtractUserKey (fm_largest g))"
    using vi vf g by (simp_all add: valid_internal_def file_valid_def)
  have "cmp (ExtractUserKey ?s) (ExtractUserKey (fm_smallest f)) \<le> 0" "cmp (ExtractUserKey (fm_largest f)) (ExtractUserKey ?l) \<le> 0"
    using GetRange_covers(3,4) [OF ok ne f] icmp_user_le vi file_valid_internal [OF vf] by simp_all
  then have "\<not> cmp (ExtractUserKey (fm_largest g)) (ExtractUserKey ?s) < 0" "\<not> cmp (ExtractUserKey (fm_smallest g)) (ExtractUserKey ?l) > 0"
    using assms(4) v cmp_flip cmp_trans cmp_eq unfolding files_meet_def by (metis linorder_not_less order_le_less)+
  then show ?thesis by (simp add: overlaps_def below_key_def above_key_def)
qed

lemma range_valid_Some: "range_valid (map_option ExtractUserKey (Some k)) \<longleftrightarrow> valid (ExtractUserKey k)"
  by (simp add: range_valid_def)

definition level_valid :: "levels \<Rightarrow> int \<Rightarrow> bool" where
  "level_valid files level \<longleftrightarrow>
     (\<forall>f\<in>set (files level). file_valid f) \<and> (level \<noteq> 0 \<longrightarrow> disjoint_files cmp (files level))"

lemma full_inputs_sub: "full_inputs fs level ins \<Longrightarrow> ins \<noteq> [] \<and> set ins \<subseteq> set fs"
  by (auto simp: full_inputs_def start_inputs_def split: if_splits)

lemma inputs_complete_full:
  assumes lv: "level_valid files level" and lv1: "level_valid files (level + 1)" and "0 \<le> level"
    and full: "full_inputs (files level) level ins"
  shows "\<exists>ins1. GetOverlappingInputs cmp files (level + 1) (Some (fst (GetRange cmp ins))) (Some (snd (GetRange cmp ins))) = Some ins1 \<and>
    inputs_complete cmp files level ins ins1"
proof -
  have ne: "ins \<noteq> []" and sub: "set ins \<subseteq> set (files level)" using full_inputs_sub [OF full] by simp_all
  have ok: "\<forall>f\<in>set ins. file_valid f" using lv sub by (auto simp: level_valid_def)
  have ok1: "\<forall>f\<in>set (files (level + 1)). file_valid f" using lv1 by (simp add: level_valid_def)
  let ?b = "Some (fst (GetRange cmp ins))" and ?e = "Some (snd (GetRange cmp ins))"
  have r: "range_valid (map_option ExtractUserKey ?b)" "range_valid (map_option ExtractUserKey ?e)"
    using GetRange_covers(1,2) [OF ok ne] by (simp_all add: range_valid_def valid_internal_def)
  let ?ins1 = "filter (overlaps cmp (map_option ExtractUserKey ?b) (map_option ExtractUserKey ?e)) (files (level + 1))"
  have "GetOverlappingInputs cmp files (level + 1) ?b ?e = Some ?ins1"
    using GetOverlappingInputs_files [of files "level + 1", OF ok1 r] assms(3) by simp
  moreover have "\<not> files_meet cmp f g" if "f \<in> set ins" "g \<in> set (files (level + 1)) - set ?ins1" for f g
    using meet_overlaps [OF ok that(1), of g] that(2) ok1 by auto
  ultimately show ?thesis
    using full sub ne unfolding inputs_complete_def full_inputs_def start_inputs_def
    by (intro exI [of _ ?ins1]) (auto split: if_splits)
qed

lemma inputs_in_range:
  assumes ok: "\<forall>f\<in>set fs. file_valid f" and "ins \<noteq> []" and "set ins \<subseteq> set fs" and ok1: "\<forall>f\<in>set ins1. file_valid f"
  shows "set ins \<subseteq> set (filter (overlaps cmp (Some (ExtractUserKey (fst (GetRange2 cmp ins ins1))))
    (Some (ExtractUserKey (snd (GetRange2 cmp ins ins1))))) fs)"
proof
  fix f assume f: "f \<in> set ins"
  have ok2: "\<forall>f\<in>set (ins @ ins1). file_valid f" using ok ok1 assms(3) by auto
  have "files_meet cmp f f" using file_user_order [of f] ok f assms(3) by (auto simp: files_meet_def)
  then show "f \<in> set (filter (overlaps cmp (Some (ExtractUserKey (fst (GetRange2 cmp ins ins1))))
      (Some (ExtractUserKey (snd (GetRange2 cmp ins ins1))))) fs)"
    using meet_overlaps [OF ok2, of f f] f ok assms(3) by (auto simp: GetRange2_def)
qed

lemma expand_inputs_complete:
  assumes lv: "level_valid files (c_level c)" and lv1: "level_valid files (c_level c + 1)" and "0 \<le> c_level c"
    and inp: "inputs_complete cmp files (c_level c) (c_inputs c 0) (c_inputs c 1)"
    and ok1: "\<forall>f\<in>set (c_inputs c 1). file_valid f"
    and all: "all = GetRange2 cmp (c_inputs c 0) (c_inputs c 1)"
  shows "\<exists>b' all' c'. expand_inputs options cmp files b all c = Some (b', all', c') \<and> c_level c' = c_level c \<and>
    inputs_complete cmp files (c_level c) (c_inputs c' 0) (c_inputs c' 1) \<and> set (c_inputs c 0) \<subseteq> set (c_inputs c' 0) \<and>
    all' = GetRange2 cmp (c_inputs c' 0) (c_inputs c' 1) \<and> (b = GetRange cmp (c_inputs c 0) \<longrightarrow> b' = GetRange cmp (c_inputs c' 0))"
proof -
  let ?l = "c_level c"
  have ne: "c_inputs c 0 \<noteq> []" and sub: "set (c_inputs c 0) \<subseteq> set (files ?l)" using inp by (simp_all add: inputs_complete_def)
  have ok: "\<forall>f\<in>set (files ?l). file_valid f" and dj: "?l \<noteq> 0 \<longrightarrow> disjoint_files cmp (files ?l)" using lv by (simp_all add: level_valid_def)
  have ok2: "\<forall>f\<in>set (c_inputs c 0 @ c_inputs c 1). file_valid f" using ok ok1 sub by auto
  have r: "range_valid (map_option ExtractUserKey (Some (fst all)))" "range_valid (map_option ExtractUserKey (Some (snd all)))"
    using GetRange_covers(1,2) [OF ok2] ne unfolding all range_valid_Some by (simp_all add: GetRange2_def valid_internal_def)
  obtain e0 where e0: "GetOverlappingInputs cmp files ?l (Some (fst all)) (Some (snd all)) = Some e0"
    "e0 \<noteq> [] \<longrightarrow> start_inputs (files ?l) ?l e0"
    "set (filter (overlaps cmp (map_option ExtractUserKey (Some (fst all))) (map_option ExtractUserKey (Some (snd all)))) (files ?l)) \<subseteq> set e0"
    using start_overlapping [of files ?l, OF ok dj r] by blast
  have sub0: "set (c_inputs c 0) \<subseteq> set e0" using inputs_in_range [OF ok ne sub ok1] e0(3) by (simp add: all)
  then have "e0 \<noteq> []" using ne by auto
  then obtain e1 where e1: "AddBoundaryInputs cmp (files ?l) e0 = Some e1" "full_inputs (files ?l) ?l e1" "set e0 \<subseteq> set e1"
    using AddBoundaryInputs_full [OF ok dj] e0(2) by blast
  obtain i1 where i1: "GetOverlappingInputs cmp files (?l + 1) (Some (fst (GetRange cmp e1))) (Some (snd (GetRange cmp e1))) = Some i1"
    "inputs_complete cmp files ?l e1 i1" using inputs_complete_full [OF lv lv1 assms(3) e1(2)] by blast
  have "expand_inputs options cmp files b all c =
      (if length e1 > length (c_inputs c 0) \<and>
          TotalFileSize (c_inputs c 1) + TotalFileSize e1 < ExpandedCompactionByteSizeLimit options
       then if length i1 = length (c_inputs c 1)
            then Some (GetRange cmp e1, GetRange2 cmp e1 i1, c\<lparr>c_inputs := (c_inputs c)(0 := e1, 1 := i1)\<rparr>)
            else Some (b, all, c)
       else Some (b, all, c))"
    by (simp only: expand_inputs_def Let_def e0(1) e1(1) i1(1) Option.bind.bind_lunit)
  then consider (grown) "expand_inputs options cmp files b all c =
      Some (GetRange cmp e1, GetRange2 cmp e1 i1, c\<lparr>c_inputs := (c_inputs c)(0 := e1, 1 := i1)\<rparr>)"
    | (same) "expand_inputs options cmp files b all c = Some (b, all, c)" by metis
  then show ?thesis
  proof cases
    case grown
    show ?thesis unfolding grown using i1(2) sub0 e1(3) by auto
  next
    case same
    show ?thesis unfolding same using inp all by auto
  qed
qed

lemma SetupOtherInputs_complete:
  assumes lv: "level_valid files (c_level c)" "level_valid files (c_level c + 1)"
    and lv2: "c_level c + 2 < num_levels \<Longrightarrow> level_valid files (c_level c + 2)" and "0 \<le> c_level c" and start: "start_inputs (files (c_level c)) (c_level c) (c_inputs c 0)"
  shows "\<exists>cp c'. SetupOtherInputs options cmp files compact_pointer c = Some (cp, c') \<and> c_level c' = c_level c \<and>
    inputs_complete cmp files (c_level c) (c_inputs c' 0) (c_inputs c' 1) \<and> set (c_inputs c 0) \<subseteq> set (c_inputs c' 0)"
proof -
  let ?l = "c_level c"
  have ok: "\<forall>f\<in>set (files ?l). file_valid f" and dj: "?l \<noteq> 0 \<longrightarrow> disjoint_files cmp (files ?l)"
    and ok1: "\<forall>f\<in>set (files (?l + 1)). file_valid f"
    using lv by (simp_all add: level_valid_def)
  obtain i0 where i0: "AddBoundaryInputs cmp (files ?l) (c_inputs c 0) = Some i0" "full_inputs (files ?l) ?l i0" "set (c_inputs c 0) \<subseteq> set i0"
    using AddBoundaryInputs_full [OF ok dj start] by blast
  obtain i1 where i1: "GetOverlappingInputs cmp files (?l + 1) (Some (fst (GetRange cmp i0))) (Some (snd (GetRange cmp i0))) = Some i1"
    "inputs_complete cmp files ?l i0 i1" using inputs_complete_full [OF lv assms(4) i0(2)] by blast
  define c1 where "c1 = c\<lparr>c_inputs := (c_inputs c)(0 := i0, 1 := i1)\<rparr>"
  have c1: "c_level c1 = ?l" "c_inputs c1 0 = i0" "c_inputs c1 1 = i1" "c_inputs c1 (Suc 0) = i1" by (simp_all add: c1_def)
  have oki1: "\<forall>f\<in>set i1. file_valid f" using i1(2) ok1 by (auto simp: inputs_complete_def)
  have "\<exists>b all c2. (if i1 \<noteq> [] then expand_inputs options cmp files (GetRange cmp i0) (GetRange2 cmp i0 i1) c1
       else Some (GetRange cmp i0, GetRange2 cmp i0 i1, c1)) = Some (b, all, c2) \<and> c_level c2 = ?l \<and>
     inputs_complete cmp files ?l (c_inputs c2 0) (c_inputs c2 1) \<and> set i0 \<subseteq> set (c_inputs c2 0) \<and>
     all = GetRange2 cmp (c_inputs c2 0) (c_inputs c2 1)"
  proof (cases "i1 = []")
    case True
    then show ?thesis using i1(2) c1 by (cases "GetRange2 cmp i0 []") simp
  next
    case False
    then show ?thesis
      using expand_inputs_complete [of files c1 "GetRange2 cmp i0 i1" options "GetRange cmp i0"] lv assms(4) i1(2) oki1
      unfolding c1 by (simp split: prod.splits) blast
  qed
  then obtain b all c2 where c2: "(if i1 \<noteq> [] then expand_inputs options cmp files (GetRange cmp i0) (GetRange2 cmp i0 i1) c1
       else Some (GetRange cmp i0, GetRange2 cmp i0 i1, c1)) = Some (b, all, c2)" "c_level c2 = ?l"
    "inputs_complete cmp files ?l (c_inputs c2 0) (c_inputs c2 1)" "set i0 \<subseteq> set (c_inputs c2 0)"
    "all = GetRange2 cmp (c_inputs c2 0) (c_inputs c2 1)" by blast
  have ok12: "\<forall>f\<in>set (c_inputs c2 0 @ c_inputs c2 1). file_valid f" "c_inputs c2 0 @ c_inputs c2 1 \<noteq> []"
    using c2(3) ok ok1 by (auto simp: inputs_complete_def)
  have r: "range_valid (map_option ExtractUserKey (Some (fst all)))" "range_valid (map_option ExtractUserKey (Some (snd all)))"
    using GetRange_covers(1,2) [OF ok12] unfolding c2(5) range_valid_Some by (simp_all add: GetRange2_def valid_internal_def)
  have gp: "\<exists>gp. GetOverlappingInputs cmp files (?l + 2) (Some (fst all)) (Some (snd all)) = Some gp" if "?l + 2 < num_levels"
    using start_overlapping [of files "?l + 2", OF _ _ r] lv2 [OF that] by (auto simp: level_valid_def)
  moreover have "SetupOtherInputs options cmp files compact_pointer c = do {
      c \<leftarrow> (if ?l + 2 < num_levels then do {
              grandparents \<leftarrow> GetOverlappingInputs cmp files (?l + 2) (Some (fst all)) (Some (snd all));
              Some (c2\<lparr>c_grandparents := grandparents\<rparr>)
            } else Some c2);
      Some (compact_pointer(?l := snd b), c\<lparr>c_edit := SetCompactPointer ?l (snd b) (c_edit c)\<rparr>)
    }"
    by (simp only: SetupOtherInputs_def Let_def i0(1) i1(1) Option.bind.bind_lunit c1_def [symmetric] c2(1) prod.case)
  ultimately have "\<exists>cp c'. SetupOtherInputs options cmp files compact_pointer c = Some (cp, c') \<and> c_level c' = c_level c2 \<and>
      c_inputs c' = c_inputs c2"
    using gp by (cases "?l + 2 < num_levels") auto
  then show ?thesis using c2(2-4) i0(3) by fastforce
qed

lemma CompactRange_complete:
  assumes lv: "level_valid files level" "level_valid files (level + 1)"
    and lv2: "level + 2 < num_levels \<Longrightarrow> level_valid files (level + 2)" and "0 \<le> level"
    and r: "range_valid (map_option ExtractUserKey b)" "range_valid (map_option ExtractUserKey e)"
  shows "\<exists>cp c. CompactRange options cmp files level b e compact_pointer = Some (cp, c) \<and>
    (c = None \<longleftrightarrow> GetOverlappingInputs cmp files level b e = Some []) \<and>
    (\<forall>c'. c = Some c' \<longrightarrow> c_level c' = level \<and> inputs_complete cmp files level (c_inputs c' 0) (c_inputs c' 1))"
proof -
  have ok: "\<forall>f\<in>set (files level). file_valid f" and dj: "level \<noteq> 0 \<longrightarrow> disjoint_files cmp (files level)"
    using lv(1) by (simp_all add: level_valid_def)
  obtain ins where ins: "GetOverlappingInputs cmp files level b e = Some ins" "ins \<noteq> [] \<longrightarrow> start_inputs (files level) level ins"
    using start_overlapping [of files level, OF ok dj r] by blast
  show ?thesis
  proof (cases "ins = []")
    case True
    then show ?thesis using ins by (simp add: CompactRange_def)
  next
    case False
    define ins' where "ins' = (if level > 0 then limit_inputs (MaxFileSizeForLevel options level) 0 ins else ins)"
    obtain rest where "ins = limit_inputs (MaxFileSizeForLevel options level) 0 ins @ rest" using limit_inputs_prefix by blast
    then have "start_inputs (files level) level ins'"
      using False ins(2) assms(4) unfolding ins'_def start_inputs_def
      by (cases "level = 0") (auto simp: limit_inputs_Nil, metis append_assoc)
    then obtain cp c' where "SetupOtherInputs options cmp files compact_pointer
        ((new_Compaction options level)\<lparr>c_inputs := (c_inputs (new_Compaction options level))(0 := ins')\<rparr>) = Some (cp, c')"
      "c_level c' = level" "inputs_complete cmp files level (c_inputs c' 0) (c_inputs c' 1)"
      using SetupOtherInputs_complete
        [of files "(new_Compaction options level)\<lparr>c_inputs := (c_inputs (new_Compaction options level))(0 := ins')\<rparr>" options compact_pointer]
        lv lv2 assms(4) by (auto simp: new_Compaction_def)
    then show ?thesis using False ins(1) by (simp add: CompactRange_def Let_def ins'_def)
  qed
qed

lemma pick_file_in: "fs \<noteq> [] \<Longrightarrow> pick_file cmp pointer fs \<in> set fs"
  by (auto simp: pick_file_def find_Some_iff split: option.split)

lemma start_single:
  assumes "f \<in> set fs" and "level \<noteq> 0"
  shows "start_inputs fs level [f]"
  using assms by (simp add: start_inputs_def) (metis split_list)

lemma PickCompaction_complete:
  assumes lv: "\<And>level. 0 \<le> level \<Longrightarrow> level < num_levels \<Longrightarrow> level_valid files level"
    and size: "ch_compaction_score v \<ge> 1 \<Longrightarrow>
      0 \<le> ch_compaction_level v \<and> ch_compaction_level v + 1 < num_levels \<and> files (ch_compaction_level v) \<noteq> []"
    and seek: "\<And>f. ch_file_to_compact v = Some f \<Longrightarrow> 0 \<le> ch_file_to_compact_level v \<and>
      ch_file_to_compact_level v + 1 < num_levels \<and> f \<in> set (files (ch_file_to_compact_level v))"
  shows "\<exists>cp c. PickCompaction options cmp files v compact_pointer = Some (cp, c) \<and> (c = None \<longleftrightarrow> \<not> NeedsCompaction v) \<and>
    (\<forall>c'. c = Some c' \<longrightarrow> inputs_complete cmp files (c_level c') (c_inputs c' 0) (c_inputs c' 1))"
proof (cases "NeedsCompaction v")
  case False
  then show ?thesis by (simp add: PickCompaction_def NeedsCompaction_def)
next
  case True
  define level where "level = (if ch_compaction_score v \<ge> 1 then ch_compaction_level v else ch_file_to_compact_level v)"
  define f where "f = (if ch_compaction_score v \<ge> 1 then pick_file cmp (compact_pointer (ch_compaction_level v)) (files (ch_compaction_level v))
    else the (ch_file_to_compact v))"
  have l: "0 \<le> level" "level + 1 < num_levels" "f \<in> set (files level)"
    using size seek True pick_file_in by (auto simp: level_def f_def NeedsCompaction_def)
  have lvl: "level_valid files level" "level_valid files (level + 1)" "level + 2 < num_levels \<Longrightarrow> level_valid files (level + 2)"
    using lv l(1,2) by simp_all
  have vf: "file_valid f" using lvl(1) l(3) by (simp add: level_valid_def)
  have "\<exists>ins. (if level = 0 then let bounds = GetRange cmp [f] in GetOverlappingInputs cmp files 0 (Some (fst bounds)) (Some (snd bounds))
      else Some [f]) = Some ins \<and> start_inputs (files level) level ins"
  proof (cases "level = 0")
    case True
    have ok: "\<forall>f\<in>set (files 0). file_valid f" using lvl(1) True by (simp add: level_valid_def)
    have r: "range_valid (map_option ExtractUserKey (Some (fm_smallest f)))" "range_valid (map_option ExtractUserKey (Some (fm_largest f)))"
      using vf by (simp_all add: range_valid_def file_valid_def)
    obtain ins where ins: "GetOverlappingInputs cmp files 0 (Some (fm_smallest f)) (Some (fm_largest f)) = Some ins"
      "ins \<noteq> [] \<longrightarrow> start_inputs (files 0) 0 ins"
      "set (filter (overlaps cmp (map_option ExtractUserKey (Some (fm_smallest f))) (map_option ExtractUserKey (Some (fm_largest f)))) (files 0)) \<subseteq> set ins"
      using start_overlapping [of files 0, OF ok _ r] by auto
    have "files_meet cmp f f" using file_user_order [OF vf] by (simp add: files_meet_def)
    then have "overlaps cmp (Some (ExtractUserKey (fm_smallest f))) (Some (ExtractUserKey (fm_largest f))) f"
      using meet_overlaps [of "[f]" f f] vf by (simp add: GetRange_def)
    then have "f \<in> set ins" using ins(3) l(3) True by auto
    then show ?thesis using ins(1,2) True by (auto simp: GetRange_def)
  qed (use start_single [OF l(3)] in simp)
  then obtain ins where ins: "(if level = 0 then let bounds = GetRange cmp [f] in GetOverlappingInputs cmp files 0 (Some (fst bounds)) (Some (snd bounds))
      else Some [f]) = Some ins" "start_inputs (files level) level ins" by blast
  let ?c = "(new_Compaction options level)\<lparr>c_inputs := (c_inputs (new_Compaction options level))(0 := ins)\<rparr>"
  obtain cp c' where su: "SetupOtherInputs options cmp files compact_pointer ?c = Some (cp, c')"
    "c_level c' = level" "inputs_complete cmp files level (c_inputs c' 0) (c_inputs c' 1)"
    using SetupOtherInputs_complete [of files ?c options compact_pointer] lvl l(1) ins(2) by (auto simp: new_Compaction_def)
  have picked: "(if ch_compaction_score v \<ge> 1 then
        Some (ch_compaction_level v, pick_file cmp (compact_pointer (ch_compaction_level v)) (files (ch_compaction_level v)))
      else map_option (\<lambda>f. (ch_file_to_compact_level v, f)) (ch_file_to_compact v)) = Some (level, f)"
    using True by (auto simp: level_def f_def NeedsCompaction_def)
  have "PickCompaction options cmp files v compact_pointer = Some (cp, Some c')"
    by (simp only: PickCompaction_def Let_def picked option.case prod.case ins(1) [unfolded Let_def] Option.bind.bind_lunit su(1))
  then show ?thesis using True su(2,3) by simp
qed

text \<open>\<open>IsBaseLevelForKey\<close> moves its pointers past files that end before the key, and these stay behind for greater keys.\<close>

definition passed :: "u8 list \<Rightarrow> file_meta list \<Rightarrow> nat \<Rightarrow> bool" where
  "passed k fs p \<longleftrightarrow> (\<forall>i<p. i < length fs \<longrightarrow> cmp k (ExtractUserKey (fm_largest (fs ! i))) > 0)"

definition has_key :: "u8 list \<Rightarrow> file_meta \<Rightarrow> bool" where
  "has_key k f \<longleftrightarrow> cmp k (ExtractUserKey (fm_smallest f)) \<ge> 0 \<and> cmp k (ExtractUserKey (fm_largest f)) \<le> 0"

lemma level_scan_finds:
  assumes dj: "disjoint_files cmp fs" and ok: "\<forall>f\<in>set fs. file_valid f" and k: "valid k" and "passed k fs p"
  shows "\<exists>p'. level_scan cmp k fs p = (list_ex (has_key k) fs, p') \<and> passed k fs p'"
  using assms(4)
proof (induction "length fs - p" arbitrary: p)
  case 0
  have "\<not> has_key k f" if f: "f \<in> set fs" for f
  proof -
    obtain i where i: "i < length fs" "f = fs ! i" using f by (auto simp: in_set_conv_nth)
    then have "cmp k (ExtractUserKey (fm_largest f)) > 0" using 0 by (simp add: passed_def)
    then show ?thesis by (simp add: has_key_def)
  qed
  then show ?case using 0 by (subst level_scan.simps) (auto simp: list_ex_iff)
next
  case (Suc n)
  then have p: "p < length fs" by simp
  have vp: "file_valid (fs ! p)" using ok p by simp
  show ?case
  proof (cases "cmp k (ExtractUserKey (fm_largest (fs ! p))) \<le> 0")
    case True
    have "has_key k (fs ! p)" if f: "f \<in> set fs" "has_key k f" for f
    proof -
      obtain i where i: "i < length fs" "f = fs ! i" using f by (auto simp: in_set_conv_nth)
      have "p \<le> i" using i f(2) Suc.prems by (auto simp: passed_def has_key_def not_less [symmetric])
      show ?thesis
      proof (cases "i = p")
        case False
        then have "InternalCompare cmp (fm_largest (fs ! p)) (fm_smallest f) < 0"
          using \<open>p \<le> i\<close> i sorted_wrt_nth_less [OF dj [unfolded disjoint_files_def], of p i] by simp
        then have "InternalCompare cmp (fm_smallest (fs ! p)) (fm_smallest f) < 0"
          using file_order(2) vp ok f(1) by blast
        then have "cmp (ExtractUserKey (fm_smallest (fs ! p))) (ExtractUserKey (fm_smallest f)) \<le> 0"
          using icmp_user_le file_valid_internal vp ok f(1) by simp
        moreover have "valid (ExtractUserKey (fm_smallest (fs ! p)))" "valid (ExtractUserKey (fm_smallest f))"
          using vp ok f(1) by (simp_all add: file_valid_def)
        moreover have "\<not> cmp k (ExtractUserKey (fm_smallest f)) < 0" using f(2) by (simp add: has_key_def)
        ultimately have "\<not> cmp k (ExtractUserKey (fm_smallest (fs ! p))) < 0"
          using k cmp_trans cmp_eq by (metis order_le_less)
        then show ?thesis using True by (simp add: has_key_def)
      qed (use f i in simp)
    qed
    then have "list_ex (has_key k) fs \<longleftrightarrow> cmp k (ExtractUserKey (fm_smallest (fs ! p))) \<ge> 0"
      using True p by (auto simp: list_ex_iff has_key_def)
    then show ?thesis using True p Suc.prems by (subst level_scan.simps) (simp add: Let_def)
  next
    case False
    have "passed k fs (Suc p)" using Suc.prems False by (auto simp: passed_def less_Suc_eq)
    moreover have "n = length fs - Suc p" using Suc.hyps(2) by simp
    ultimately show ?thesis using Suc.hyps(1) [of "Suc p"] False p by (subst level_scan.simps) (simp add: Let_def)
  qed
qed

lemma passed_mono:
  assumes "\<forall>f\<in>set fs. file_valid f" and "valid k" and "valid k'" and "cmp k k' \<le> 0" and "passed k fs p"
  shows "passed k' fs p"
  unfolding passed_def
proof (intro allI impI)
  fix i assume i: "i < p" "i < length fs"
  then have v: "valid (ExtractUserKey (fm_largest (fs ! i)))" using assms(1) by (simp add: file_valid_def)
  then have "cmp (ExtractUserKey (fm_largest (fs ! i))) k < 0" using assms(2,5) i cmp_flip by (simp add: passed_def)
  then have "cmp (ExtractUserKey (fm_largest (fs ! i))) k' < 0"
    using assms(2-4) v cmp_trans cmp_eq by (metis order_le_less)
  then show "cmp k' (ExtractUserKey (fm_largest (fs ! i))) > 0" using assms(3) v cmp_flip by blast
qed

lemma base_level_finds:
  assumes "\<forall>l\<in>set lvls. disjoint_files cmp (files l) \<and> (\<forall>f\<in>set (files l). file_valid f)" and "valid k"
    and "set lvls \<subseteq> L" and "\<forall>l\<in>L. passed k (files l) (ptrs l)"
  shows "\<exists>ptrs'. base_level cmp k files lvls ptrs = (\<not> list_ex (\<lambda>l. list_ex (has_key k) (files l)) lvls, ptrs') \<and>
    (\<forall>l\<in>L. passed k (files l) (ptrs' l))"
  using assms(1,3,4)
proof (induction lvls arbitrary: ptrs)
  case (Cons l ls)
  obtain p where p: "level_scan cmp k (files l) (ptrs l) = (list_ex (has_key k) (files l), p)" "passed k (files l) p"
    using level_scan_finds [of "files l" k "ptrs l"] Cons.prems assms(2) by auto
  have q: "\<forall>l'\<in>L. passed k (files l') ((ptrs(l := p)) l')" using Cons.prems(3) p(2) by simp
  show ?case
  proof (cases "list_ex (has_key k) (files l)")
    case True
    then show ?thesis using q p(1) by (auto simp: Let_def)
  next
    case False
    have "\<forall>l\<in>set ls. disjoint_files cmp (files l) \<and> (\<forall>f\<in>set (files l). file_valid f)" "set ls \<subseteq> L"
      using Cons.prems(1,2) by simp_all
    from Cons.IH [OF this q] obtain ptrs'
      where "base_level cmp k files ls (ptrs(l := p)) = (\<not> list_ex (\<lambda>l. list_ex (has_key k) (files l)) ls, ptrs')"
      "\<forall>l\<in>L. passed k (files l) (ptrs' l)" by blast
    then show ?thesis using False p(1) by (simp add: Let_def)
  qed
qed simp

end

section \<open>Properties\<close>

primrec base_answers :: "compare_op \<Rightarrow> levels \<Rightarrow> u8 list list \<Rightarrow> compaction \<Rightarrow> bool list" where
  "base_answers ucmp files [] c = []"
| "base_answers ucmp files (k # ks) c =
     (case IsBaseLevelForKey ucmp files k c of (r, c) \<Rightarrow> r # base_answers ucmp files ks c)"

definition levels_ok :: "compare_op \<Rightarrow> levels \<Rightarrow> bool" where
  "levels_ok ucmp files \<longleftrightarrow>
     list_all (\<lambda>level. list_all (file_ok ucmp) (files level) \<and> (level = 0 \<or> disjoint_files ucmp (files level)))
       [0..num_levels - 1]"

lemma levels_ok_level:
  "levels_ok Slice_compare files \<Longrightarrow> 0 \<le> level \<Longrightarrow> level < num_levels \<Longrightarrow> bytewise.level_valid files level"
  by (auto simp: levels_ok_def bytewise.level_valid_def list_all_iff bytewise_file_valid)

lemma Finalize_score:
  assumes "rnd 0 = 0" and "ch_compaction_score (Finalize rnd files v) \<ge> 1"
  shows "0 \<le> ch_compaction_level (Finalize rnd files v) \<and> ch_compaction_level (Finalize rnd files v) + 1 < num_levels \<and>
    files (ch_compaction_level (Finalize rnd files v)) \<noteq> []"
proof -
  define step where "step level = (\<lambda>(best_level :: int, best_score).
      if level_score rnd files level > best_score then (level, level_score rnd files level) else (best_level, best_score))" for level
  have one: "step level r = r \<or> step level r = (level, level_score rnd files level)" for level r
    by (cases r) (simp add: step_def)
  have inv: "fold step ls r = r \<or> (\<exists>l\<in>set ls. fold step ls r = (l, level_score rnd files l))" for ls r
  proof (induction ls arbitrary: r)
    case (Cons l ls)
    have "fold step (l # ls) r = fold step ls (step l r)" by simp
    then show ?case using Cons.IH [of "step l r"] one [of l r] by (metis list.set_intros)
  qed simp
  obtain l sc where r: "fold step [0..num_levels - 2] (- 1, - 1) = (l, sc)" by fastforce
  have F: "ch_compaction_level (Finalize rnd files v) = l" "ch_compaction_score (Finalize rnd files v) = sc"
    using r by (simp_all add: Finalize_def step_def [abs_def])
  have l: "l \<in> set [0..num_levels - 2]" "sc = level_score rnd files l"
    using inv [of "[0..num_levels - 2]" "(- 1, - 1)"] r assms(2) F by (auto simp del: set_upto)
  have "level_score rnd files l = 0" if "files l = []"
    using that assms(1) by (auto simp: level_score_def TotalFileSize_def)
  then have "files l \<noteq> []" using l(2) assms(2) F(2) by auto
  then show ?thesis using l(1) unfolding F by auto
qed

lemma Finalize_file_to_compact:
  "ch_file_to_compact (Finalize rnd files v) = ch_file_to_compact v"
  "ch_file_to_compact_level (Finalize rnd files v) = ch_file_to_compact_level v"
  by (simp_all add: Finalize_def split: prod.split)

definition two_levels :: levels where
  "two_levels level = (if level = 1 then two_files else [])"

definition seek_hint :: compaction_hint where
  "seek_hint = \<lparr>ch_file_to_compact = Some (hd two_files), ch_file_to_compact_level = 1, ch_compaction_score = 0, ch_compaction_level = 0\<rparr>"

lemma two_levels_ok: "levels_ok Slice_compare two_levels"
  using two_files_ok(1,2) by (auto simp: levels_ok_def two_levels_def list_all_iff disjoint_files_def)

text \<open>
  C36. When a version needs a compaction, by its size or by reads that missed, one is picked, and its inputs are
  complete: on level 0 every file that overlaps one that is taken is taken too; on the other levels every file
  behind one that is taken has greater user keys unless it is taken too; and so is every file of the next level that overlaps.
  So no entry moves below an older entry of its key.
\<close>

theorem ldb_compaction_inputs_complete:
  assumes "levels_ok Slice_compare files" and "rnd 0 = 0"
    and "\<And>f. ch_file_to_compact v = Some f \<Longrightarrow> 0 \<le> ch_file_to_compact_level v \<and>
      ch_file_to_compact_level v + 1 < num_levels \<and> f \<in> set (files (ch_file_to_compact_level v))"
  shows "\<exists>cp c. PickCompaction options Slice_compare files (Finalize rnd files v) compact_pointer = Some (cp, c) \<and>
    (c = None \<longleftrightarrow> \<not> NeedsCompaction (Finalize rnd files v)) \<and>
    (\<forall>c'. c = Some c' \<longrightarrow> inputs_complete Slice_compare files (c_level c') (c_inputs c' 0) (c_inputs c' 1))"
proof -
  show ?thesis
    using bytewise.PickCompaction_complete [of files "Finalize rnd files v"] levels_ok_level [OF assms(1)]
      Finalize_score [of rnd files v, OF assms(2)] assms(3)
    unfolding Finalize_file_to_compact by blast
qed

theorem ldb_compaction_inputs_complete_witness:
  "\<exists>cp c. PickCompaction \<lparr>vo_max_file_size = 2097152\<rparr> Slice_compare two_levels (Finalize (\<lambda>x. x) two_levels seek_hint) (\<lambda>_. []) =
     Some (cp, Some c) \<and> inputs_complete Slice_compare two_levels (c_level c) (c_inputs c 0) (c_inputs c 1)"
proof -
  have "NeedsCompaction (Finalize (\<lambda>x. x) two_levels seek_hint)"
    by (simp add: NeedsCompaction_def Finalize_file_to_compact seek_hint_def)
  moreover have "ch_file_to_compact seek_hint = Some f \<Longrightarrow> 0 \<le> ch_file_to_compact_level seek_hint \<and>
      ch_file_to_compact_level seek_hint + 1 < num_levels \<and> f \<in> set (two_levels (ch_file_to_compact_level seek_hint))" for f
    by (auto simp: seek_hint_def two_levels_def two_files_def kNumLevels_def)
  ultimately show ?thesis
    using ldb_compaction_inputs_complete [OF two_levels_ok, of "\<lambda>x. x" seek_hint "\<lparr>vo_max_file_size = 2097152\<rparr>" "\<lambda>_. []"] by fastforce
qed

lemma base_answers_exact:
  assumes lvl: "\<forall>l\<in>set [c_level c + 2..num_levels - 1]. bytewise.level_valid files l \<and> l \<noteq> 0"
    and "\<forall>l\<in>set [c_level c + 2..num_levels - 1]. bytewise.passed k0 (files l) (c_level_ptrs c l)"
    and "sorted_wrt (\<lambda>a b. Slice_compare a b \<le> 0) (k0 # keys)"
  shows "base_answers Slice_compare files keys c =
    map (\<lambda>k. \<not> list_ex (\<lambda>l. list_ex (bytewise.has_key k) (files l)) [c_level c + 2..num_levels - 1]) keys"
  using assms
proof (induction keys arbitrary: c k0)
  case (Cons k keys)
  let ?L = "[c_level c + 2..num_levels - 1]"
  have "\<forall>l\<in>set ?L. bytewise.passed k (files l) (c_level_ptrs c l)"
    using Cons.prems bytewise.passed_mono [of _ k0 k] unfolding bytewise.level_valid_def by simp
  then obtain ptrs where ptrs: "base_level Slice_compare k files ?L (c_level_ptrs c) =
      (\<not> list_ex (\<lambda>l. list_ex (bytewise.has_key k) (files l)) ?L, ptrs)"
    "\<forall>l\<in>set ?L. bytewise.passed k (files l) (ptrs l)"
    using bytewise.base_level_finds [of ?L files "set ?L" k] Cons.prems(1)
    unfolding bytewise.level_valid_def by blast
  then show ?case
    using Cons.IH [of "c\<lparr>c_level_ptrs := ptrs\<rparr>" k] Cons.prems by (simp add: IsBaseLevelForKey_def del: set_upto)
qed simp

text \<open>No file below the output of a compaction of the level has the user key in its range.\<close>

definition no_file_has :: "compare_op \<Rightarrow> levels \<Rightarrow> int \<Rightarrow> u8 list \<Rightarrow> bool" where
  "no_file_has ucmp files level k \<longleftrightarrow>
     list_all (\<lambda>l. list_all (\<lambda>f. \<not> (ucmp k (ExtractUserKey (fm_smallest f)) \<ge> 0 \<and> ucmp k (ExtractUserKey (fm_largest f)) \<le> 0)) (files l))
       [level + 2..num_levels - 1]"

definition third_level :: levels where
  "third_level l = (if l = 3 then two_files else [])"

text \<open>
  C37. A compaction that asks for increasing keys is told exactly for which of them no level below its
  output has a file with the key in its range, although each file is passed once only.
\<close>

theorem ldb_base_level_exact:
  assumes "levels_ok Slice_compare files" and "0 \<le> level" and "sorted_wrt (\<lambda>a b. Slice_compare a b \<le> 0) keys"
  shows "base_answers Slice_compare files keys (new_Compaction options level) = map (no_file_has Slice_compare files level) keys"
proof (cases keys)
  case (Cons k ks)
  have "\<forall>l\<in>set [level + 2..num_levels - 1]. bytewise.level_valid files l \<and> l \<noteq> 0"
    using levels_ok_level [OF assms(1)] assms(2) by auto
  moreover have "sorted_wrt (\<lambda>a b. Slice_compare a b \<le> 0) (k # keys)"
    using assms(3) Cons bytewise.cmp_refl [of k] by simp
  ultimately show ?thesis
    using base_answers_exact [of "new_Compaction options level" files k keys]
    by (simp add: new_Compaction_def bytewise.passed_def bytewise.has_key_def no_file_has_def list_ex_iff list_all_iff del: set_upto)
qed simp

theorem ldb_base_level_exact_witness:
  "base_answers Slice_compare third_level [[96], [98], [99], [104]] (new_Compaction \<lparr>vo_max_file_size = 2097152\<rparr> 1) =
     [True, False, False, True]"
proof -
  have ok: "levels_ok Slice_compare third_level"
    using two_files_ok(1,2) by (auto simp: levels_ok_def third_level_def list_all_iff disjoint_files_def)
  have "[3..6 :: int] = [3, 4, 5, 6]" by (simp add: upto.simps)
  then have "map (no_file_has Slice_compare third_level 1) [[96], [98], [99], [104]] = [True, False, False, True]"
    by (simp add: no_file_has_def third_level_def kNumLevels_def two_files_def FileMetaData_def InternalKey_def
        AppendInternalKey_parts Slice_compare_simps)
  then show ?thesis
    using ldb_base_level_exact [OF ok, of 1 "[[96], [98], [99], [104]]" "\<lparr>vo_max_file_size = 2097152\<rparr>"]
    by (simp del: base_answers.simps list.map add: Slice_compare_simps)
qed

end
