(* ===== verification/LdbCache.thy ===== *)
theory LdbCache
  imports LdbBloom "HOL-Library.Monad_Syntax"
begin

text \<open>
  The cache of blocks and open tables (\<open>util/cache.cc\<close>) for one thread. Entries are nodes of a heap, a map from
  addresses to nodes; 0 is the null pointer, 1 and 2 are the heads of the two lists, other addresses come from \<open>malloc\<close>. A value
  stands for the pointer with its deleter. An operation is \<open>None\<close> when
  it follows a pointer to no node, or does not return.
\<close>

section \<open>Nodes\<close>

record 'v lru_handle =
  h_value :: 'v
  h_next_hash :: nat
  h_next :: nat
  h_prev :: nat
  h_charge :: u64
  h_in_cache :: bool
  h_refs :: u32
  h_hash :: u32
  h_key :: "u8 list"

type_synonym 'v handles = "nat \<Rightarrow> 'v lru_handle option"

abbreviation (input) "lru_head \<equiv> (1 :: nat)"
abbreviation (input) "in_use_head \<equiv> (2 :: nat)"

definition set_node :: "nat \<Rightarrow> ('v lru_handle \<Rightarrow> 'v lru_handle) \<Rightarrow> 'v handles \<Rightarrow> 'v handles option" where
  "set_node p f hs = map_option (\<lambda>x. hs(p \<mapsto> f x)) (hs p)"

definition LRU_Remove :: "nat \<Rightarrow> 'v handles \<Rightarrow> 'v handles option" where
  "LRU_Remove e hs = do {
     x \<leftarrow> hs e;
     hs \<leftarrow> set_node (h_next x) (\<lambda>y. y\<lparr>h_prev := h_prev x\<rparr>) hs;
     x \<leftarrow> hs e;
     set_node (h_prev x) (\<lambda>y. y\<lparr>h_next := h_next x\<rparr>) hs
   }"

definition LRU_Append :: "nat \<Rightarrow> nat \<Rightarrow> 'v handles \<Rightarrow> 'v handles option" where
  "LRU_Append list e hs = do {
     hs \<leftarrow> set_node e (\<lambda>x. x\<lparr>h_next := list\<rparr>) hs;
     l \<leftarrow> hs list;
     hs \<leftarrow> set_node e (\<lambda>x. x\<lparr>h_prev := h_prev l\<rparr>) hs;
     x \<leftarrow> hs e;
     hs \<leftarrow> set_node (h_prev x) (\<lambda>y. y\<lparr>h_next := e\<rparr>) hs;
     x \<leftarrow> hs e;
     set_node (h_next x) (\<lambda>y. y\<lparr>h_prev := e\<rparr>) hs
   }"

section \<open>\<open>HandleTable\<close>\<close>

record handle_table =
  ht_length :: u32
  ht_elems :: u32
  ht_list :: "nat list"

text \<open>A pointer to a pointer of the table: a bucket, or the link of a node.\<close>

datatype slot = Bucket nat | Link nat

definition read_slot :: "slot \<Rightarrow> 'v handles \<Rightarrow> handle_table \<Rightarrow> nat option" where
  "read_slot s hs t =
     (case s of Bucket i \<Rightarrow> if i < length (ht_list t) then Some (ht_list t ! i) else None
      | Link p \<Rightarrow> map_option h_next_hash (hs p))"

definition write_slot :: "slot \<Rightarrow> nat \<Rightarrow> 'v handles \<Rightarrow> handle_table \<Rightarrow> ('v handles \<times> handle_table) option" where
  "write_slot s v hs t =
     (case s of Bucket i \<Rightarrow> if i < length (ht_list t) then Some (hs, t\<lparr>ht_list := (ht_list t)[i := v]\<rparr>) else None
      | Link p \<Rightarrow> map_option (\<lambda>hs. (hs, t)) (set_node p (\<lambda>x. x\<lparr>h_next_hash := v\<rparr>) hs))"

partial_function (option) find_slot ::
  "u8 list \<Rightarrow> u32 \<Rightarrow> 'v handles \<Rightarrow> handle_table \<Rightarrow> slot \<Rightarrow> slot option" where
  "find_slot key hash hs t s = do {
     p \<leftarrow> read_slot s hs t;
     if p = 0 then Some s
     else do {
       x \<leftarrow> hs p;
       if h_hash x \<noteq> hash \<or> key \<noteq> h_key x then find_slot key hash hs t (Link p) else Some s
     }
   }"

definition FindPointer :: "u8 list \<Rightarrow> u32 \<Rightarrow> 'v handles \<Rightarrow> handle_table \<Rightarrow> slot option" where
  "FindPointer key hash hs t = find_slot key hash hs t (Bucket (unat (hash AND (ht_length t - 1))))"

partial_function (option) grow_length :: "u32 \<Rightarrow> u32 \<Rightarrow> u32 option" where
  "grow_length elems new_length =
     (if new_length < elems then grow_length elems (new_length * 2) else Some new_length)"

text \<open>The loop over the nodes of one bucket, each put in front of its new bucket, and the loop over the buckets.\<close>

partial_function (option) move_bucket ::
  "u32 \<Rightarrow> nat \<Rightarrow> 'v handles \<Rightarrow> nat list \<Rightarrow> ('v handles \<times> nat list) option" where
  "move_bucket new_length h hs new_list =
     (if h = 0 then Some (hs, new_list)
      else do {
        x \<leftarrow> hs h;
        let next_node = h_next_hash x;
        let i = unat (h_hash x AND (new_length - 1));
        if i < length new_list then do {
          hs \<leftarrow> set_node h (\<lambda>y. y\<lparr>h_next_hash := new_list ! i\<rparr>) hs;
          move_bucket new_length next_node hs (new_list[i := h])
        } else None
      })"

primrec move_buckets :: "u32 \<Rightarrow> nat list \<Rightarrow> 'v handles \<Rightarrow> nat list \<Rightarrow> ('v handles \<times> nat list) option" where
  "move_buckets new_length [] hs new_list = Some (hs, new_list)"
| "move_buckets new_length (h # rest) hs new_list = do {
     (hs, new_list) \<leftarrow> move_bucket new_length h hs new_list;
     move_buckets new_length rest hs new_list
   }"

definition Resize :: "'v handles \<Rightarrow> handle_table \<Rightarrow> ('v handles \<times> handle_table) option" where
  "Resize hs t = do {
     new_length \<leftarrow> grow_length (ht_elems t) 4;
     (hs, new_list) \<leftarrow> move_buckets new_length (take (unat (ht_length t)) (ht_list t)) hs (replicate (unat new_length) 0);
     Some (hs, t\<lparr>ht_list := new_list, ht_length := new_length\<rparr>)
   }"

definition new_HandleTable :: "'v handles \<Rightarrow> ('v handles \<times> handle_table) option" where
  "new_HandleTable hs = Resize hs \<lparr>ht_length = 0, ht_elems = 0, ht_list = []\<rparr>"

definition ht_Lookup :: "u8 list \<Rightarrow> u32 \<Rightarrow> 'v handles \<Rightarrow> handle_table \<Rightarrow> nat option" where
  "ht_Lookup key hash hs t = do { s \<leftarrow> FindPointer key hash hs t; read_slot s hs t }"

definition ht_Insert :: "nat \<Rightarrow> 'v handles \<Rightarrow> handle_table \<Rightarrow> (nat \<times> 'v handles \<times> handle_table) option" where
  "ht_Insert h hs t = do {
     x \<leftarrow> hs h;
     s \<leftarrow> FindPointer (h_key x) (h_hash x) hs t;
     old \<leftarrow> read_slot s hs t;
     next_node \<leftarrow> (if old = 0 then Some 0 else map_option h_next_hash (hs old));
     hs \<leftarrow> set_node h (\<lambda>y. y\<lparr>h_next_hash := next_node\<rparr>) hs;
     (hs, t) \<leftarrow> write_slot s h hs t;
     if old = 0 then do {
       let t = t\<lparr>ht_elems := ht_elems t + 1\<rparr>;
       (hs, t) \<leftarrow> (if ht_elems t > ht_length t then Resize hs t else Some (hs, t));
       Some (old, hs, t)
     }
     else Some (old, hs, t)
   }"

definition ht_Remove :: "u8 list \<Rightarrow> u32 \<Rightarrow> 'v handles \<Rightarrow> handle_table \<Rightarrow> (nat \<times> 'v handles \<times> handle_table) option" where
  "ht_Remove key hash hs t = do {
     s \<leftarrow> FindPointer key hash hs t;
     result \<leftarrow> read_slot s hs t;
     if result \<noteq> 0 then do {
       x \<leftarrow> hs result;
       (hs, t) \<leftarrow> write_slot s (h_next_hash x) hs t;
       Some (result, hs, t\<lparr>ht_elems := ht_elems t - 1\<rparr>)
     }
     else Some (result, hs, t)
   }"

section \<open>\<open>LRUCache\<close>\<close>

text \<open>The calls of deleters are recorded, each with the key and the value it is given.\<close>

record 'v lru_cache =
  lc_capacity :: u64
  lc_usage :: u64
  lc_handles :: "'v handles"
  lc_table :: handle_table
  lc_deleted :: "(u8 list \<times> 'v) list"

definition new_LRUCache :: "'v lru_handle \<Rightarrow> 'v lru_handle \<Rightarrow> 'v lru_cache option" where
  "new_LRUCache raw1 raw2 = do {
     let hs = [lru_head \<mapsto> raw1\<lparr>h_next := lru_head, h_prev := lru_head\<rparr>,
               in_use_head \<mapsto> raw2\<lparr>h_next := in_use_head, h_prev := in_use_head\<rparr>];
     (hs, t) \<leftarrow> new_HandleTable hs;
     Some \<lparr>lc_capacity = 0, lc_usage = 0, lc_handles = hs, lc_table = t, lc_deleted = []\<rparr>
   }"

definition SetCapacity :: "u64 \<Rightarrow> 'v lru_cache \<Rightarrow> 'v lru_cache" where
  "SetCapacity capacity c = c\<lparr>lc_capacity := capacity\<rparr>"

definition lru_Ref :: "nat \<Rightarrow> 'v lru_cache \<Rightarrow> 'v lru_cache option" where
  "lru_Ref e c = do {
     x \<leftarrow> lc_handles c e;
     hs \<leftarrow> (if h_refs x = 1 \<and> h_in_cache x
            then do { hs \<leftarrow> LRU_Remove e (lc_handles c); LRU_Append in_use_head e hs }
            else Some (lc_handles c));
     hs \<leftarrow> set_node e (\<lambda>x. x\<lparr>h_refs := h_refs x + 1\<rparr>) hs;
     Some (c\<lparr>lc_handles := hs\<rparr>)
   }"

definition lru_Unref :: "nat \<Rightarrow> 'v lru_cache \<Rightarrow> 'v lru_cache option" where
  "lru_Unref e c = do {
     hs \<leftarrow> set_node e (\<lambda>x. x\<lparr>h_refs := h_refs x - 1\<rparr>) (lc_handles c);
     x \<leftarrow> hs e;
     if h_refs x = 0 then
       Some (c\<lparr>lc_handles := hs(e := None), lc_deleted := lc_deleted c @ [(h_key x, h_value x)]\<rparr>)
     else if h_in_cache x \<and> h_refs x = 1 then do {
       hs \<leftarrow> LRU_Remove e hs;
       hs \<leftarrow> LRU_Append lru_head e hs;
       Some (c\<lparr>lc_handles := hs\<rparr>)
     }
     else Some (c\<lparr>lc_handles := hs\<rparr>)
   }"

definition FinishErase :: "nat \<Rightarrow> 'v lru_cache \<Rightarrow> (bool \<times> 'v lru_cache) option" where
  "FinishErase e c =
     (if e \<noteq> 0 then do {
        hs \<leftarrow> LRU_Remove e (lc_handles c);
        hs \<leftarrow> set_node e (\<lambda>x. x\<lparr>h_in_cache := False\<rparr>) hs;
        x \<leftarrow> hs e;
        c \<leftarrow> lru_Unref e (c\<lparr>lc_handles := hs, lc_usage := lc_usage c - h_charge x\<rparr>);
        Some (True, c)
      }
      else Some (False, c))"

definition lru_Lookup :: "u8 list \<Rightarrow> u32 \<Rightarrow> 'v lru_cache \<Rightarrow> (nat \<times> 'v lru_cache) option" where
  "lru_Lookup key hash c = do {
     e \<leftarrow> ht_Lookup key hash (lc_handles c) (lc_table c);
     c \<leftarrow> (if e \<noteq> 0 then lru_Ref e c else Some c);
     Some (e, c)
   }"

definition lru_Release :: "nat \<Rightarrow> 'v lru_cache \<Rightarrow> 'v lru_cache option" where
  "lru_Release h c = lru_Unref h c"

definition lru_Erase :: "u8 list \<Rightarrow> u32 \<Rightarrow> 'v lru_cache \<Rightarrow> 'v lru_cache option" where
  "lru_Erase key hash c = do {
     (e, hs, t) \<leftarrow> ht_Remove key hash (lc_handles c) (lc_table c);
     (_, c) \<leftarrow> FinishErase e (c\<lparr>lc_handles := hs, lc_table := t\<rparr>);
     Some c
   }"

text \<open>Erasing the oldest entry that is not in use.\<close>

definition erase_oldest :: "'v lru_cache \<Rightarrow> 'v lru_cache option" where
  "erase_oldest c = do {
     l \<leftarrow> lc_handles c lru_head;
     x \<leftarrow> lc_handles c (h_next l);
     lru_Erase (h_key x) (h_hash x) c
   }"

partial_function (option) evict :: "'v lru_cache \<Rightarrow> 'v lru_cache option" where
  "evict c = do {
     l \<leftarrow> lc_handles c lru_head;
     if lc_usage c > lc_capacity c \<and> h_next l \<noteq> lru_head then do { c \<leftarrow> erase_oldest c; evict c } else Some c
   }"

partial_function (option) lru_Prune :: "'v lru_cache \<Rightarrow> 'v lru_cache option" where
  "lru_Prune c = do {
     l \<leftarrow> lc_handles c lru_head;
     if h_next l \<noteq> lru_head then do { c \<leftarrow> erase_oldest c; lru_Prune c } else Some c
   }"

text \<open>\<open>e\<close> is the address that \<open>malloc\<close> returns, \<open>raw\<close> what its block holds.\<close>

definition lru_Insert ::
  "nat \<Rightarrow> 'v lru_handle \<Rightarrow> u8 list \<Rightarrow> u32 \<Rightarrow> 'v \<Rightarrow> u64 \<Rightarrow> 'v lru_cache \<Rightarrow> (nat \<times> 'v lru_cache) option" where
  "lru_Insert e raw key hash val charge c = do {
     let x = raw\<lparr>h_value := val, h_charge := charge, h_hash := hash, h_in_cache := False, h_refs := 1, h_key := key\<rparr>;
     let hs = (lc_handles c)(e \<mapsto> x);
     c \<leftarrow> (if lc_capacity c > 0 then do {
             hs \<leftarrow> set_node e (\<lambda>x. x\<lparr>h_refs := h_refs x + 1, h_in_cache := True\<rparr>) hs;
             hs \<leftarrow> LRU_Append in_use_head e hs;
             (old, hs, t) \<leftarrow> ht_Insert e hs (lc_table c);
             (_, c) \<leftarrow> FinishErase old (c\<lparr>lc_handles := hs, lc_table := t, lc_usage := lc_usage c + charge\<rparr>);
             Some c
           }
           else do {
             hs \<leftarrow> set_node e (\<lambda>x. x\<lparr>h_next := 0\<rparr>) hs;
             Some (c\<lparr>lc_handles := hs\<rparr>)
           });
     c \<leftarrow> evict c;
     Some (e, c)
   }"

definition TotalCharge :: "'v lru_cache \<Rightarrow> u64" where
  "TotalCharge c = lc_usage c"

text \<open>The loop of the destructor, which starts at the oldest entry.\<close>

partial_function (option) destroy_loop :: "nat \<Rightarrow> 'v lru_cache \<Rightarrow> 'v lru_cache option" where
  "destroy_loop e c =
     (if e \<noteq> lru_head then do {
        x \<leftarrow> lc_handles c e;
        let next_node = h_next x;
        hs \<leftarrow> set_node e (\<lambda>x. x\<lparr>h_in_cache := False\<rparr>) (lc_handles c);
        c \<leftarrow> lru_Unref e (c\<lparr>lc_handles := hs\<rparr>);
        destroy_loop next_node c
      }
      else Some c)"

definition delete_LRUCache :: "'v lru_cache \<Rightarrow> 'v lru_cache option" where
  "delete_LRUCache c = do { l \<leftarrow> lc_handles c lru_head; destroy_loop (h_next l) c }"

end
