(* ===== verification/LdbCacheProofs.thy ===== *)
theory LdbCacheProofs
  imports LdbCache "HOL-Library.Multiset"
begin

text \<open>
  The heap of the cache seen through its four groups of fields: the links of the lists, those of the hash chains, and the
  rest. The two lists and the table are lists of addresses; the operations act on these.
\<close>

section \<open>Views of a node\<close>

definition nx :: "'v handles \<Rightarrow> nat \<Rightarrow> nat option" where
  "nx hs p = map_option h_next (hs p)"

definition pv :: "'v handles \<Rightarrow> nat \<Rightarrow> nat option" where
  "pv hs p = map_option h_prev (hs p)"

definition nxh :: "'v handles \<Rightarrow> nat \<Rightarrow> nat option" where
  "nxh hs p = map_option h_next_hash (hs p)"

type_synonym 'v info = "u8 list \<times> u32 \<times> 'v \<times> u64 \<times> bool \<times> u32"

definition info :: "'v handles \<Rightarrow> nat \<Rightarrow> 'v info option" where
  "info hs p = map_option (\<lambda>x. (h_key x, h_hash x, h_value x, h_charge x, h_in_cache x, h_refs x)) (hs p)"

lemmas views = nx_def pv_def nxh_def info_def

lemma set_node_Some: "hs p = Some x \<Longrightarrow> set_node p f hs = Some (hs(p \<mapsto> f x))"
  by (simp add: set_node_def)

lemma info_dom: "hs p = None \<longleftrightarrow> info hs p = None"
  by (simp add: info_def)

section \<open>The circular lists\<close>

text \<open>\<open>seg hs p xs q\<close>: from \<open>p\<close> the links lead through \<open>xs\<close> to \<open>q\<close>, and back.\<close>

definition joined :: "'v handles \<Rightarrow> nat \<Rightarrow> nat \<Rightarrow> bool" where
  "joined hs p q \<longleftrightarrow> nx hs p = Some q \<and> pv hs q = Some p"

primrec seg :: "'v handles \<Rightarrow> nat \<Rightarrow> nat list \<Rightarrow> nat \<Rightarrow> bool" where
  "seg hs p [] q \<longleftrightarrow> joined hs p q"
| "seg hs p (x # xs) q \<longleftrightarrow> joined hs p x \<and> seg hs x xs q"

definition ring :: "'v handles \<Rightarrow> nat \<Rightarrow> nat list \<Rightarrow> bool" where
  "ring hs a xs \<longleftrightarrow> distinct (a # xs) \<and> seg hs a xs a"

lemma seg_append: "seg hs p (xs @ x # ys) q \<longleftrightarrow> seg hs p xs x \<and> seg hs x ys q"
  by (induction xs arbitrary: p) auto

lemma seg_frame:
  assumes "seg hs p xs q" and "\<And>r. r \<in> insert p (set xs) \<Longrightarrow> nx hs' r = nx hs r"
    and "\<And>r. r \<in> insert q (set xs) \<Longrightarrow> pv hs' r = pv hs r"
  shows "seg hs' p xs q"
  using assms by (induction xs arbitrary: p) (auto simp: joined_def)

lemma ring_frame:
  assumes "ring hs a xs" and "\<And>r. r \<in> insert a (set xs) \<Longrightarrow> nx hs' r = nx hs r \<and> pv hs' r = pv hs r"
  shows "ring hs' a xs"
  using assms seg_frame [of hs a xs a hs'] by (simp add: ring_def)

lemma seg_ends:
  "seg hs p xs q \<Longrightarrow> nx hs p = Some (case xs of [] \<Rightarrow> q | x # _ \<Rightarrow> x) \<and> pv hs q = Some (last (p # xs))"
  by (induction xs arbitrary: p) (auto simp: joined_def split: list.splits)

lemma LRU_Remove_views:
  assumes "nx hs e = Some q" and "pv hs e = Some p" and "hs p \<noteq> None" and "hs q \<noteq> None" and "q \<noteq> e" and "p \<noteq> e"
  shows "\<exists>hs'. LRU_Remove e hs = Some hs' \<and> nx hs' = (nx hs)(p := Some q) \<and> pv hs' = (pv hs)(q := Some p) \<and>
    nxh hs' = nxh hs \<and> info hs' = info hs"
proof -
  obtain x where x: "hs e = Some x" "h_next x = q" "h_prev x = p" using assms(1,2) by (auto simp: views)
  obtain y where y: "hs q = Some y" using assms(4) by blast
  let ?h1 = "hs(q \<mapsto> y\<lparr>h_prev := p\<rparr>)"
  obtain z where z: "?h1 p = Some z" using assms(3) by fastforce
  let ?h2 = "?h1(p \<mapsto> z\<lparr>h_next := q\<rparr>)"
  have "LRU_Remove e hs = Some ?h2"
    using x y z assms(5) by (simp add: LRU_Remove_def set_node_Some)
  moreover have "nx ?h2 = (nx hs)(p := Some q) \<and> pv ?h2 = (pv hs)(q := Some p) \<and> nxh ?h2 = nxh hs \<and> info ?h2 = info hs"
    using y z by (auto simp: views fun_eq_iff split: if_splits)
  ultimately show ?thesis by blast
qed

lemma LRU_Append_views:
  assumes "hs e \<noteq> None" and "pv hs a = Some p" and "hs p \<noteq> None" and "e \<noteq> a" and "e \<noteq> p"
  shows "\<exists>hs'. LRU_Append a e hs = Some hs' \<and> nx hs' = (nx hs)(e := Some a, p := Some e) \<and>
    pv hs' = (pv hs)(e := Some p, a := Some e) \<and> nxh hs' = nxh hs \<and> info hs' = info hs"
proof -
  obtain x where x: "hs e = Some x" using assms(1) by blast
  obtain l where l: "hs a = Some l" "h_prev l = p" using assms(2) by (auto simp: views)
  obtain z where z: "hs p = Some z" using assms(3) by blast
  let ?x = "x\<lparr>h_next := a, h_prev := p\<rparr>"
  let ?h = "hs(e \<mapsto> ?x, p \<mapsto> z\<lparr>h_next := e\<rparr>)"
  obtain w where w: "?h a = Some w" using l assms(4) by (cases "a = p") simp_all
  let ?h2 = "?h(a \<mapsto> w\<lparr>h_prev := e\<rparr>)"
  have "LRU_Append a e hs = Some ?h2"
    using x l z w assms(4,5) by (simp add: LRU_Append_def set_node_Some)
  moreover have "nx ?h2 = (nx hs)(e := Some a, p := Some e) \<and> pv ?h2 = (pv hs)(e := Some p, a := Some e) \<and>
      nxh ?h2 = nxh hs \<and> info ?h2 = info hs"
    using x l z w assms(4,5) by (auto simp: views fun_eq_iff split: if_splits)
  ultimately show ?thesis by blast
qed

lemma seg_dom: "seg hs p xs q \<Longrightarrow> r \<in> insert p (insert q (set xs)) \<Longrightarrow> hs r \<noteq> None"
  by (induction xs arbitrary: p) (auto simp: joined_def views)

lemma LRU_Remove_ring:
  assumes "ring hs a xs" and "e \<in> set xs"
  shows "\<exists>hs'. LRU_Remove e hs = Some hs' \<and> ring hs' a (remove1 e xs) \<and> nxh hs' = nxh hs \<and> info hs' = info hs \<and>
    (\<forall>r. r \<notin> insert a (set xs) \<longrightarrow> nx hs' r = nx hs r \<and> pv hs' r = pv hs r)"
proof -
  obtain ys zs where xs: "xs = ys @ e # zs" and e: "e \<notin> set ys" using assms(2) by (metis split_list_first)
  have d: "distinct (a # ys @ e # zs)" and s: "seg hs a ys e" "seg hs e zs a"
    using assms(1) xs by (simp_all add: ring_def seg_append)
  define p where "p = last (a # ys)"
  define q where "q = (case zs of [] \<Rightarrow> a | z # _ \<Rightarrow> z)"
  have ends: "pv hs e = Some p" "nx hs e = Some q" using seg_ends [OF s(1)] seg_ends [OF s(2)] by (simp_all add: p_def q_def)
  have pin: "p \<in> insert a (set ys)" and qin: "q \<in> insert a (set zs)" by (auto simp: p_def q_def split: list.split)
  have ne: "p \<noteq> e" "q \<noteq> e" using pin qin d by auto
  have dom: "hs p \<noteq> None" "hs q \<noteq> None" using seg_dom [OF s(1), of p] seg_dom [OF s(2), of q] pin qin by auto
  obtain hs' where hs': "LRU_Remove e hs = Some hs'" "nx hs' = (nx hs)(p := Some q)" "pv hs' = (pv hs)(q := Some p)"
    "nxh hs' = nxh hs" "info hs' = info hs" using LRU_Remove_views [OF ends(2,1) dom ne(2,1)] by blast
  have join: "joined hs' p q" using hs'(2,3) by (simp add: joined_def)
  have "seg hs' a (ys @ zs) a"
  proof (cases ys rule: rev_cases)
    case Nil
    show ?thesis
    proof (cases zs)
      case (Cons z zs')
      have "seg hs z zs' a" using s(2) Cons by simp
      then have "seg hs' z zs' a" by (rule seg_frame) (use hs'(2,3) d Nil Cons in \<open>auto simp: p_def q_def\<close>)
      then show ?thesis using join Nil Cons by (simp add: p_def q_def)
    qed (use join Nil in \<open>simp add: p_def q_def\<close>)
  next
    case (snoc ys' y)
    have y: "seg hs a ys' y" using s(1) snoc by (simp add: seg_append)
    then have front: "seg hs' a ys' y" by (rule seg_frame) (use hs'(2,3) d snoc qin in \<open>auto simp: p_def\<close>)
    show ?thesis
    proof (cases zs)
      case Nil
      then show ?thesis using front join snoc by (simp add: seg_append p_def q_def)
    next
      case (Cons z zs')
      have "seg hs z zs' a" using s(2) Cons by simp
      then have "seg hs' z zs' a" by (rule seg_frame) (use hs'(2,3) d snoc Cons in \<open>auto simp: p_def q_def\<close>)
      then show ?thesis using front join snoc Cons by (simp add: seg_append p_def q_def)
    qed
  qed
  then have "ring hs' a (remove1 e xs)" using d e by (simp add: ring_def xs remove1_append)
  moreover have "nx hs' r = nx hs r \<and> pv hs' r = pv hs r" if "r \<notin> insert a (set xs)" for r
    using that hs'(2,3) pin qin xs by auto
  ultimately show ?thesis using hs' by blast
qed

lemma LRU_Append_ring:
  assumes "ring hs a xs" and "e \<notin> insert a (set xs)" and "hs e \<noteq> None"
  shows "\<exists>hs'. LRU_Append a e hs = Some hs' \<and> ring hs' a (xs @ [e]) \<and> nxh hs' = nxh hs \<and> info hs' = info hs \<and>
    (\<forall>r. r \<notin> insert e (insert a (set xs)) \<longrightarrow> nx hs' r = nx hs r \<and> pv hs' r = pv hs r)"
proof -
  have d: "distinct (a # xs)" and s: "seg hs a xs a" using assms(1) by (simp_all add: ring_def)
  define p where "p = last (a # xs)"
  have p: "pv hs a = Some p" "p \<in> insert a (set xs)" using seg_ends [OF s] by (auto simp: p_def)
  have "hs p \<noteq> None" "e \<noteq> a" "e \<noteq> p" using seg_dom [OF s, of p] p(2) assms(2) by auto
  then obtain hs' where hs': "LRU_Append a e hs = Some hs'" "nx hs' = (nx hs)(e := Some a, p := Some e)"
    "pv hs' = (pv hs)(e := Some p, a := Some e)" "nxh hs' = nxh hs" "info hs' = info hs"
    using LRU_Append_views [OF assms(3) p(1)] by blast
  have "seg hs' a (xs @ [e]) a"
  proof (cases xs rule: rev_cases)
    case Nil
    then show ?thesis using hs'(2,3) assms(2) by (simp add: joined_def p_def)
  next
    case (snoc xs' x)
    have "seg hs a xs' x" using s snoc by (simp add: seg_append)
    then have "seg hs' a xs' x" by (rule seg_frame) (use hs'(2,3) d snoc assms(2) in \<open>auto simp: p_def\<close>)
    then show ?thesis using hs'(2,3) assms(2) d snoc by (auto simp: seg_append joined_def p_def)
  qed
  then have "ring hs' a (xs @ [e])" using d assms(2) by (simp add: ring_def)
  moreover have "nx hs' r = nx hs r \<and> pv hs' r = pv hs r" if "r \<notin> insert e (insert a (set xs))" for r
    using that hs'(2,3) p(2) by auto
  ultimately show ?thesis using hs' by blast
qed

section \<open>The hash table\<close>

primrec hash_chain :: "'v handles \<Rightarrow> nat \<Rightarrow> nat list \<Rightarrow> bool" where
  "hash_chain hs p [] \<longleftrightarrow> p = 0"
| "hash_chain hs p (x # xs) \<longleftrightarrow> p = x \<and> x \<noteq> 0 \<and> (\<exists>n. nxh hs x = Some n \<and> hash_chain hs n xs)"

lemma chain_frame: "hash_chain hs p xs \<Longrightarrow> (\<And>x. x \<in> set xs \<Longrightarrow> nxh hs' x = nxh hs x) \<Longrightarrow> hash_chain hs' p xs"
  by (induction xs arbitrary: p) auto

lemma chain_dom: "hash_chain hs p xs \<Longrightarrow> x \<in> set xs \<Longrightarrow> hs x \<noteq> None \<and> x \<noteq> 0"
  by (induction xs arbitrary: p) (auto simp: nxh_def)

lemma chain_start: "hash_chain hs p xs \<Longrightarrow> p = (case xs of [] \<Rightarrow> 0 | x # _ \<Rightarrow> x)"
  by (cases xs) simp_all

lemma chain_append: "hash_chain hs p (ys @ zs) \<Longrightarrow>
    \<exists>q. hash_chain hs q zs \<and> (ys \<noteq> [] \<longrightarrow> nxh hs (last ys) = Some q) \<and> (ys = [] \<longrightarrow> q = p)"
  by (induction ys arbitrary: p) (auto split: if_splits)

lemma chain_replace:
  assumes "hash_chain hs p (ys @ zs)" and "distinct ys" and "ys \<noteq> []"
    and "\<And>x. x \<in> set ys - {last ys} \<Longrightarrow> nxh hs' x = nxh hs x" and "nxh hs' (last ys) = Some q" and "hash_chain hs' q ws"
  shows "hash_chain hs' p (ys @ ws)"
  using assms
proof (induction ys arbitrary: p)
  case (Cons y ys)
  obtain n where n: "p = y" "y \<noteq> 0" "nxh hs y = Some n" "hash_chain hs n (ys @ zs)" using Cons.prems(1) by auto
  show ?case
  proof (cases "ys = []")
    case True
    then show ?thesis using n Cons.prems(5,6) by simp
  next
    case False
    then have y: "y \<noteq> last ys" using Cons.prems(2) by auto
    then have "hash_chain hs' n (ys @ ws)" using Cons.prems n(4) False by (intro Cons.IH) auto
    then show ?thesis using n Cons.prems(4) [of y] False y by simp
  qed
qed simp

definition is_key :: "'v handles \<Rightarrow> u8 list \<Rightarrow> u32 \<Rightarrow> nat \<Rightarrow> bool" where
  "is_key hs key hash e \<longleftrightarrow> (case hs e of None \<Rightarrow> False | Some x \<Rightarrow> h_hash x = hash \<and> h_key x = key)"

definition slot_after :: "slot \<Rightarrow> nat list \<Rightarrow> slot" where
  "slot_after s ys = (if ys = [] then s else Link (last ys))"

lemma find_slot_chain:
  assumes "read_slot s hs t = Some p" and "hash_chain hs p xs"
  shows "\<exists>ys zs. xs = ys @ zs \<and> find_slot key hash hs t s = Some (slot_after s ys) \<and>
    read_slot (slot_after s ys) hs t = Some (case zs of [] \<Rightarrow> 0 | z # _ \<Rightarrow> z) \<and>
    (\<forall>y\<in>set ys. \<not> is_key hs key hash y) \<and> (\<forall>z zs'. zs = z # zs' \<longrightarrow> is_key hs key hash z)"
  using assms
proof (induction xs arbitrary: s p)
  case Nil
  then show ?case by (subst find_slot.simps) (simp add: slot_after_def)
next
  case (Cons x xs)
  obtain nd where nd: "hs x = Some nd" using chain_dom [OF Cons.prems(2), of x] by auto
  obtain n where n: "nxh hs x = Some n" "hash_chain hs n xs" and x: "p = x" "x \<noteq> 0" using Cons.prems(2) by auto
  show ?case
  proof (cases "is_key hs key hash x")
    case True
    then show ?thesis using Cons.prems nd x
      by (intro exI [of _ "[]"] exI [of _ "x # xs"], subst find_slot.simps) (simp add: slot_after_def is_key_def)
  next
    case False
    have "read_slot (Link x) hs t = Some n" using n by (simp add: read_slot_def nxh_def)
    from Cons.IH [OF this n(2)] obtain ys zs where ys: "xs = ys @ zs"
      "find_slot key hash hs t (Link x) = Some (slot_after (Link x) ys)"
      "read_slot (slot_after (Link x) ys) hs t = Some (case zs of [] \<Rightarrow> 0 | z # _ \<Rightarrow> z)"
      "\<forall>y\<in>set ys. \<not> is_key hs key hash y" "\<forall>z zs'. zs = z # zs' \<longrightarrow> is_key hs key hash z" by blast
    have "slot_after (Link x) ys = slot_after s (x # ys)" by (simp add: slot_after_def)
    moreover have "find_slot key hash hs t s = find_slot key hash hs t (Link x)"
      using Cons.prems(1) nd x False by (subst find_slot.simps) (auto simp: is_key_def)
    ultimately show ?thesis using ys False by (intro exI [of _ "x # ys"] exI [of _ zs]) simp
  qed
qed

text \<open>The table: the chains of the buckets hold distinct nodes of different keys, each in the bucket of its hash.\<close>

definition bucket_of :: "u32 \<Rightarrow> u32 \<Rightarrow> nat" where
  "bucket_of len hash = unat (hash AND (len - 1))"

definition bucket_chains :: "'v handles \<Rightarrow> nat list \<Rightarrow> nat list list \<Rightarrow> bool" where
  "bucket_chains hs l B \<longleftrightarrow> length l = length B \<and> (\<forall>i<length B. hash_chain hs (l ! i) (B ! i))"

definition in_bucket :: "'v handles \<Rightarrow> u32 \<Rightarrow> nat list list \<Rightarrow> bool" where
  "in_bucket hs len B \<longleftrightarrow> (\<forall>i<length B. \<forall>e\<in>set (B ! i). \<exists>x. hs e = Some x \<and> bucket_of len (h_hash x) = i)"

definition power_length :: "u32 \<Rightarrow> bool" where
  "power_length len \<longleftrightarrow> (\<exists>k. 2 \<le> k \<and> k < 32 \<and> unat len = 2 ^ k)"

definition khash :: "'v handles \<Rightarrow> nat \<Rightarrow> (u8 list \<times> u32) option" where
  "khash hs e = map_option (\<lambda>x. (h_key x, h_hash x)) (hs e)"

definition table_ok :: "'v handles \<Rightarrow> handle_table \<Rightarrow> nat list list \<Rightarrow> bool" where
  "table_ok hs t B \<longleftrightarrow> bucket_chains hs (ht_list t) B \<and> length B = unat (ht_length t) \<and> power_length (ht_length t) \<and>
     in_bucket hs (ht_length t) B \<and> distinct (concat B) \<and> unat (ht_elems t) = length (concat B) \<and>
     inj_on (khash hs) (set (concat B))"

lemma khash_info: "khash hs e = map_option (\<lambda>i. (fst i, fst (snd i))) (info hs e)"
  by (cases "hs e") (simp_all add: khash_def info_def)

lemma is_key_khash: "is_key hs key hash e \<longleftrightarrow> khash hs e = Some (key, hash)"
  by (auto simp: is_key_def khash_def split: option.splits)

lemma placed_khash:
  "in_bucket hs len B \<longleftrightarrow> (\<forall>i<length B. \<forall>e\<in>set (B ! i). \<exists>kh. khash hs e = Some kh \<and> bucket_of len (snd kh) = i)"
  by (force simp: in_bucket_def khash_def)

lemma bucket_of_less:
  assumes "power_length len"
  shows "bucket_of len hash < unat len"
proof -
  obtain k where k: "k < 32" "unat len = 2 ^ k" using assms by (auto simp: power_length_def)
  have "len = of_nat (unat len)" by simp
  then have "len = 2 ^ k" using k(2) by (metis of_nat_numeral of_nat_power)
  then have "len - 1 = mask k" by (simp add: mask_eq_exp_minus_1)
  then have "bucket_of len hash = unat (take_bit k hash)" by (simp add: bucket_of_def take_bit_eq_mask)
  then show ?thesis using k unat_take_bit [of k hash] by simp
qed

lemma table_ok_frame:
  assumes "table_ok hs t B" and "\<And>e. e \<in> set (concat B) \<Longrightarrow> nxh hs' e = nxh hs e \<and> khash hs' e = khash hs e"
  shows "table_ok hs' t B"
proof -
  have in_B: "e \<in> set (concat B)" if "i < length B" "e \<in> set (B ! i)" for i e using that by auto
  have "bucket_chains hs' (ht_list t) B"
    using assms in_B unfolding table_ok_def bucket_chains_def by (blast intro: chain_frame)
  moreover have "in_bucket hs' (ht_length t) B"
    using assms in_B unfolding table_ok_def placed_khash by metis
  moreover have "inj_on (khash hs') (set (concat B))"
    using assms inj_on_cong [of "set (concat B)" "khash hs'" "khash hs"] by (simp add: table_ok_def)
  ultimately show ?thesis using assms(1) by (simp add: table_ok_def)
qed

lemma concat_bucket:
  assumes "i < length B"
  shows "concat B = concat (take i B) @ B ! i @ concat (drop (Suc i) B)"
    "concat (B[i := xs]) = concat (take i B) @ xs @ concat (drop (Suc i) B)"
proof -
  show "concat B = concat (take i B) @ B ! i @ concat (drop (Suc i) B)"
    using arg_cong [OF id_take_nth_drop [OF assms], of concat] by simp
  show "concat (B[i := xs]) = concat (take i B) @ xs @ concat (drop (Suc i) B)"
    using arg_cong [OF upd_conv_take_nth_drop [OF assms, of xs], of concat] by simp
qed

lemma distinct_bucket: "distinct (concat B) \<Longrightarrow> i < length B \<Longrightarrow> distinct (B ! i)"
  by (simp add: concat_bucket(1))

lemma buckets_disjoint:
  assumes "distinct (concat B)" and "i < length B" and "j < length B" and "i \<noteq> j"
  shows "set (B ! i) \<inter> set (B ! j) = {}"
proof -
  have "B ! j \<in> set (take i B) \<union> set (drop (Suc i) B)"
  proof (cases "j < i")
    case True
    then show ?thesis using assms(2,3) by (metis UnI1 length_take min.absorb4 nth_mem nth_take)
  next
    case False
    then have j: "j - Suc i < length (drop (Suc i) B)" "drop (Suc i) B ! (j - Suc i) = B ! j" using assms(3,4) by simp_all
    then show ?thesis using nth_mem [OF j(1)] by simp
  qed
  then show ?thesis using assms(1) unfolding concat_bucket(1) [OF assms(2)] by auto
qed

lemma mset_concat_update:
  "i < length B \<Longrightarrow> mset (concat (B[i := xs])) + mset (B ! i) = mset (concat B) + mset xs"
  by (simp add: concat_bucket)

lemma in_concat_nth: "e \<in> set (concat B) \<longleftrightarrow> (\<exists>j<length B. e \<in> set (B ! j))"
  by simp (metis in_set_conv_nth nth_mem)

lemma FindPointer_table:
  fixes hash :: u32
  assumes "table_ok hs t B"
  defines "i \<equiv> bucket_of (ht_length t) hash"
  shows "\<exists>ys zs. B ! i = ys @ zs \<and> i < length B \<and> FindPointer key hash hs t = Some (slot_after (Bucket i) ys) \<and>
    read_slot (slot_after (Bucket i) ys) hs t = Some (case zs of [] \<Rightarrow> 0 | z # _ \<Rightarrow> z) \<and>
    (zs = [] \<longrightarrow> (\<forall>e\<in>set (concat B). khash hs e \<noteq> Some (key, hash))) \<and>
    (\<forall>z zs'. zs = z # zs' \<longrightarrow> khash hs z = Some (key, hash))"
proof -
  have i: "i < length B" using assms bucket_of_less by (simp add: table_ok_def)
  have c: "hash_chain hs (ht_list t ! i) (B ! i)" "read_slot (Bucket i) hs t = Some (ht_list t ! i)"
    using assms(1) i by (simp_all add: table_ok_def bucket_chains_def read_slot_def)
  from find_slot_chain [OF c(2,1), of key hash] obtain ys zs where
    r: "B ! i = ys @ zs" "find_slot key hash hs t (Bucket i) = Some (slot_after (Bucket i) ys)"
      "read_slot (slot_after (Bucket i) ys) hs t = Some (case zs of [] \<Rightarrow> 0 | z # _ \<Rightarrow> z)"
      "\<forall>y\<in>set ys. \<not> is_key hs key hash y" "\<forall>z zs'. zs = z # zs' \<longrightarrow> is_key hs key hash z" by blast
  have "khash hs e \<noteq> Some (key, hash)" if zs: "zs = []" "e \<in> set (concat B)" for e
  proof
    assume k: "khash hs e = Some (key, hash)"
    obtain j where j: "j < length B" "e \<in> set (B ! j)" using zs(2) unfolding in_concat_nth by blast
    then have "j = i" using assms(1) k unfolding table_ok_def placed_khash i_def by fastforce
    then show False using j(2) r(1,4) zs(1) k by (auto simp: is_key_khash)
  qed
  then show ?thesis using r i by (simp add: FindPointer_def i_def bucket_of_def is_key_khash) blast
qed

lemma ht_Lookup_table:
  assumes "table_ok hs t B"
  shows "\<exists>e. ht_Lookup key hash hs t = Some e \<and> (if e = 0 then \<forall>x\<in>set (concat B). khash hs x \<noteq> Some (key, hash)
    else e \<in> set (concat B) \<and> khash hs e = Some (key, hash))"
proof -
  let ?i = "bucket_of (ht_length t) hash"
  obtain ys zs where r: "B ! ?i = ys @ zs" "?i < length B" "FindPointer key hash hs t = Some (slot_after (Bucket ?i) ys)"
    "read_slot (slot_after (Bucket ?i) ys) hs t = Some (case zs of [] \<Rightarrow> 0 | z # _ \<Rightarrow> z)"
    "zs = [] \<longrightarrow> (\<forall>e\<in>set (concat B). khash hs e \<noteq> Some (key, hash))"
    "\<forall>z zs'. zs = z # zs' \<longrightarrow> khash hs z = Some (key, hash)"
    using FindPointer_table [OF assms, of hash key] by blast
  have "hash_chain hs (ht_list t ! ?i) (ys @ zs)" using assms r(1,2) unfolding table_ok_def bucket_chains_def by metis
  then have "z \<noteq> 0 \<and> z \<in> set (concat B)" if "zs = z # zs'" for z zs'
  proof -
    have "z \<in> set (ys @ zs)" using that by simp
    moreover have "z \<in> set (concat B)" using r(1,2) that unfolding in_concat_nth by fastforce
    ultimately show ?thesis using chain_dom [OF \<open>hash_chain hs (ht_list t ! ?i) (ys @ zs)\<close>] by blast
  qed
  then show ?thesis using r(3-6) by (cases zs) (auto simp: ht_Lookup_def)
qed

definition same_views :: "'v handles \<Rightarrow> 'v handles \<Rightarrow> bool" where
  "same_views hs hs' \<longleftrightarrow> nx hs' = nx hs \<and> pv hs' = pv hs \<and> info hs' = info hs"

lemma same_views_refl [simp]: "same_views hs hs"
  by (simp add: same_views_def)

lemma same_views_trans: "same_views a b \<Longrightarrow> same_views b c \<Longrightarrow> same_views a c"
  by (simp add: same_views_def)

lemma same_views_khash: "same_views hs hs' \<Longrightarrow> khash hs' = khash hs"
  by (rule ext) (simp add: khash_info same_views_def)

lemma same_views_placed: "same_views hs hs' \<Longrightarrow> in_bucket hs' len B \<longleftrightarrow> in_bucket hs len B"
  by (simp add: placed_khash same_views_khash)

lemma same_views_dom: "same_views hs hs' \<Longrightarrow> hs' e = None \<longleftrightarrow> hs e = None"
  by (simp add: info_dom same_views_def)

lemma set_next_hash:
  assumes "hs p \<noteq> None"
  shows "\<exists>hs'. set_node p (\<lambda>x. x\<lparr>h_next_hash := v\<rparr>) hs = Some hs' \<and> same_views hs hs' \<and> nxh hs' = (nxh hs)(p := Some v)"
proof -
  obtain x where x: "hs p = Some x" using assms by blast
  let ?hs = "hs(p \<mapsto> x\<lparr>h_next_hash := v\<rparr>)"
  have "same_views hs ?hs \<and> nxh ?hs = (nxh hs)(p := Some v)"
    using x by (auto simp: same_views_def views fun_eq_iff)
  then show ?thesis using set_node_Some [of hs p x] x by blast
qed

lemma write_slot_chains:
  assumes c: "bucket_chains hs (ht_list t) B" and d: "distinct (concat B)" and i: "i < length B" "B ! i = ys @ zs"
    and w: "hash_chain hs v ws" "set ws \<inter> set ys = {}"
  shows "\<exists>hs' l'. write_slot (slot_after (Bucket i) ys) v hs t = Some (hs', t\<lparr>ht_list := l'\<rparr>) \<and>
    bucket_chains hs' l' (B[i := ys @ ws]) \<and> same_views hs hs' \<and> (\<forall>r. r \<notin> set ys \<longrightarrow> nxh hs' r = nxh hs r)"
proof (cases "ys = []")
  case True
  have "bucket_chains hs ((ht_list t)[i := v]) (B[i := ws])" using c w(1) i(1) by (auto simp: bucket_chains_def nth_list_update)
  moreover have "i < length (ht_list t)" using c i(1) by (simp add: bucket_chains_def)
  ultimately show ?thesis using True by (auto simp: write_slot_def slot_after_def)
next
  case False
  have ch: "hash_chain hs (ht_list t ! i) (ys @ zs)" using c i unfolding bucket_chains_def by metis
  have "hs (last ys) \<noteq> None" using chain_dom [OF ch, of "last ys"] False by simp
  then obtain hs' where hs': "set_node (last ys) (\<lambda>x. x\<lparr>h_next_hash := v\<rparr>) hs = Some hs'" "same_views hs hs'"
    "nxh hs' = (nxh hs)(last ys := Some v)" using set_next_hash by blast
  have dys: "distinct ys" using distinct_bucket [OF d i(1)] i(2) by simp
  have "hash_chain hs' v ws" using w(1) by (rule chain_frame) (use w(2) hs'(3) False in auto)
  then have "hash_chain hs' (ht_list t ! i) (ys @ ws)"
    using chain_replace [OF ch dys False, of hs' v ws] hs'(3) by auto
  moreover have "hash_chain hs' (ht_list t ! j) (B ! j)" if j: "j < length B" "j \<noteq> i" for j
  proof (rule chain_frame)
    show "hash_chain hs (ht_list t ! j) (B ! j)" using c j by (simp add: bucket_chains_def)
    have "set (B ! j) \<inter> set (B ! i) = {}" using d j(2) by (rule buckets_disjoint [OF _ j(1) i(1)])
    then show "nxh hs' x = nxh hs x" if "x \<in> set (B ! j)" for x using that hs'(3) i(2) False by auto
  qed
  ultimately have "hash_chain hs' (ht_list t ! j) (B[i := ys @ ws] ! j)" if "j < length B" for j
    using that i(1) by (cases "j = i") simp_all
  then have "bucket_chains hs' (ht_list t) (B[i := ys @ ws])" using c by (simp add: bucket_chains_def)
  then show ?thesis using hs' False
    by (intro exI [of _ hs'] exI [of _ "ht_list t"]) (simp add: write_slot_def slot_after_def)
qed

lemma table_ok_chain:
  assumes "table_ok hs t B" and "i < length B" and "B ! i = ys @ zs"
  shows "hash_chain hs (ht_list t ! i) (ys @ zs)"
  using assms unfolding table_ok_def bucket_chains_def by metis

lemma placed_update:
  assumes "in_bucket hs len B" and "\<And>e. e \<in> set xs \<Longrightarrow> e \<in> set (B ! i) \<or> (\<exists>kh. khash hs e = Some kh \<and> bucket_of len (snd kh) = i)"
  shows "in_bucket hs len (B[i := xs])"
  unfolding placed_khash
proof (intro allI impI ballI)
  fix j e assume j: "j < length (B[i := xs])" "e \<in> set (B[i := xs] ! j)"
  have old: "\<exists>kh. khash hs e = Some kh \<and> bucket_of len (snd kh) = j" if "e \<in> set (B ! j)"
    using assms(1) j(1) that by (simp add: placed_khash)
  show "\<exists>kh. khash hs e = Some kh \<and> bucket_of len (snd kh) = j"
  proof (cases "j = i")
    case True
    then have "e \<in> set xs" using j by simp
    then show ?thesis using assms(2) [of e] old True by blast
  qed (use j old in simp)
qed

lemma ht_Remove_table:
  assumes ok: "table_ok hs t B"
  shows "\<exists>old hs' t' B'. ht_Remove key hash hs t = Some (old, hs', t') \<and> table_ok hs' t' B' \<and> same_views hs hs' \<and>
    (if old = 0 then B' = B \<and> (\<forall>x\<in>set (concat B). khash hs x \<noteq> Some (key, hash))
     else old \<in> set (concat B) \<and> khash hs old = Some (key, hash) \<and> set (concat B') = set (concat B) - {old})"
proof -
  let ?i = "bucket_of (ht_length t) hash"
  obtain ys zs where r: "B ! ?i = ys @ zs" "?i < length B" "FindPointer key hash hs t = Some (slot_after (Bucket ?i) ys)"
    "read_slot (slot_after (Bucket ?i) ys) hs t = Some (case zs of [] \<Rightarrow> 0 | z # _ \<Rightarrow> z)"
    "zs = [] \<longrightarrow> (\<forall>e\<in>set (concat B). khash hs e \<noteq> Some (key, hash))"
    "\<forall>z zs'. zs = z # zs' \<longrightarrow> khash hs z = Some (key, hash)"
    using FindPointer_table [OF ok, of hash key] by blast
  show ?thesis
  proof (cases zs)
    case Nil
    then have "ht_Remove key hash hs t = Some (0, hs, t)" using r by (simp add: ht_Remove_def)
    then show ?thesis using ok r(5) Nil same_views_refl by fastforce
  next
    case (Cons old zs')
    have ch: "hash_chain hs (ht_list t ! ?i) (ys @ old # zs')" using table_ok_chain [OF ok r(2,1)] Cons by simp
    have old: "hs old \<noteq> None" "old \<noteq> 0" using chain_dom [OF ch, of old] by simp_all
    then obtain x where x: "hs old = Some x" by blast
    have nxt: "hash_chain hs (h_next_hash x) zs'" using chain_append [OF ch] x by (auto simp: nxh_def)
    have d: "distinct (concat B)" using ok by (simp add: table_ok_def)
    have db: "distinct (ys @ old # zs')" using distinct_bucket [OF d r(2)] r(1) Cons by simp
    obtain hs' l' where w: "write_slot (slot_after (Bucket ?i) ys) (h_next_hash x) hs t = Some (hs', t\<lparr>ht_list := l'\<rparr>)"
      "bucket_chains hs' l' (B[?i := ys @ zs'])" "same_views hs hs'"
    proof -
      have "bucket_chains hs (ht_list t) B" "set zs' \<inter> set ys = {}" using ok db by (auto simp: table_ok_def)
      from write_slot_chains [OF this(1) d r(2,1) nxt this(2)] show ?thesis using that by blast
    qed
    let ?B = "B[?i := ys @ zs']"
    have ms: "mset (concat B) = add_mset old (mset (concat ?B))"
      using mset_concat_update [OF r(2), of "ys @ zs'"] r(1) Cons by simp
    then have d': "distinct (old # concat ?B)" using d mset_eq_imp_distinct_iff [of "concat B" "old # concat ?B"] by simp
    have set: "set (concat B) = insert old (set (concat ?B))" using mset_eq_setD [of "concat B" "old # concat ?B"] ms by simp
    have len: "length (concat B) = Suc (length (concat ?B))" using mset_eq_length [of "concat B" "old # concat ?B"] ms by simp
    have "in_bucket hs' (ht_length t) ?B"
      unfolding same_views_placed [OF w(3)]
      by (rule placed_update) (use ok r(1) Cons in \<open>auto simp: table_ok_def\<close>)
    moreover have "inj_on (khash hs') (set (concat ?B))"
      using ok set same_views_khash [OF w(3)] by (metis table_ok_def inj_on_subset subset_insertI)
    moreover have "unat (ht_elems t - 1) = length (concat ?B)"
    proof -
      have "ht_elems t \<noteq> 0" using ok len by (auto simp: table_ok_def)
      then show ?thesis using ok len by (simp add: table_ok_def unat_minus_one)
    qed
    ultimately have "table_ok hs' (t\<lparr>ht_list := l', ht_elems := ht_elems t - 1\<rparr>) ?B"
      using ok w(2) d' by (simp add: table_ok_def)
    moreover have "ht_Remove key hash hs t = Some (old, hs', t\<lparr>ht_list := l', ht_elems := ht_elems t - 1\<rparr>)"
      using r(3,4) Cons x w(1) old(2) by (simp add: ht_Remove_def)
    moreover have "set (concat ?B) = set (concat B) - {old}" "old \<in> set (concat B)" using set d' by (simp_all del: set_concat)
    moreover have "khash hs old = Some (key, hash)" using r(6) Cons by blast
    ultimately show ?thesis using w(3) old(2)
      by (intro exI [of _ old] exI [of _ hs'] exI [of _ "t\<lparr>ht_list := l', ht_elems := ht_elems t - 1\<rparr>"] exI [of _ ?B])
        (simp del: set_concat)
  qed
qed

lemma grow_length_enough:
  assumes "unat elems \<le> 2 ^ 31" and "power_length n"
  shows "\<exists>m. grow_length elems n = Some m \<and> power_length m \<and> unat elems \<le> unat m"
  using assms(2)
proof (induction "2 ^ 32 - unat n" arbitrary: n rule: less_induct)
  case less
  obtain k where k: "2 \<le> k" "k < 32" "unat n = 2 ^ k" using less.prems by (auto simp: power_length_def)
  show ?case
  proof (cases "n < elems")
    case True
    then have "unat n < 2 ^ 31" using assms(1) by (simp add: word_less_nat_alt)
    then have "(2 :: nat) ^ k < 2 ^ 31" unfolding k(3) .
    then have "k < 31" by (rule power_less_imp_less_exp [rotated]) simp
    then have "(2 :: nat) ^ Suc k \<le> 2 ^ 31" by (intro power_increasing) simp_all
    then have dbl: "unat (n * 2) = 2 ^ Suc k" using k(3) by (simp add: unat_word_ariths)
    then have "power_length (n * 2)" unfolding power_length_def using \<open>k < 31\<close> k(1) by (intro exI [of _ "Suc k"]) simp
    moreover have "2 ^ 32 - unat (n * 2) < 2 ^ 32 - unat n"
      using dbl k(3) \<open>(2 :: nat) ^ Suc k \<le> 2 ^ 31\<close> by (simp add: diff_less_mono2)
    ultimately show ?thesis using less.hyps [of "n * 2"] True by (subst grow_length.simps) simp
  next
    case False
    then show ?thesis using less.prems by (subst grow_length.simps) (simp add: word_less_nat_alt)
  qed
qed

lemma move_bucket_chains:
  assumes "hash_chain hs h xs" and "bucket_chains hs nl B" and "distinct (xs @ concat B)" and "length B = unat len" and "power_length len"
    and "in_bucket hs len B"
  shows "\<exists>hs' nl' B'. move_bucket len h hs nl = Some (hs', nl') \<and> bucket_chains hs' nl' B' \<and> length B' = unat len \<and>
    mset (concat B') = mset xs + mset (concat B) \<and> in_bucket hs' len B' \<and> same_views hs hs' \<and>
    (\<forall>r. r \<notin> set xs \<longrightarrow> nxh hs' r = nxh hs r)"
  using assms
proof (induction xs arbitrary: h hs nl B)
  case Nil
  then show ?case by (subst move_bucket.simps) auto
next
  case (Cons x xs)
  obtain n where x: "h = x" "x \<noteq> 0" "nxh hs x = Some n" "hash_chain hs n xs" using Cons.prems(1) by auto
  then obtain nd where nd: "hs x = Some nd" "h_next_hash nd = n" by (auto simp: nxh_def)
  let ?i = "bucket_of len (h_hash nd)"
  have i: "?i < length B" using bucket_of_less Cons.prems(4,5) by simp
  have lnl: "length nl = length B" using Cons.prems(2) by (simp add: bucket_chains_def)
  obtain hs1 where hs1: "set_node x (\<lambda>y. y\<lparr>h_next_hash := nl ! ?i\<rparr>) hs = Some hs1" "same_views hs hs1"
    "nxh hs1 = (nxh hs)(x := Some (nl ! ?i))" using set_next_hash [of hs x] nd by blast
  let ?B = "B[?i := x # B ! ?i]"
  have xB: "x \<notin> set (B ! j)" if "j < length B" for j
    using Cons.prems(3) that nth_mem [OF that] by auto
  have keep: "hash_chain hs1 p ws" if "hash_chain hs p ws" "x \<notin> set ws" for p ws
    using that(1) by (rule chain_frame) (use that(2) hs1(3) in auto)
  have ch: "hash_chain hs1 (nl ! j) (B ! j)" if "j < length B" for j
    using keep xB that Cons.prems(2) by (simp add: bucket_chains_def)
  have "hash_chain hs1 (nl[?i := x] ! j) (?B ! j)" if "j < length B" for j
    using that i lnl ch [OF that] x(2) hs1(3) by (cases "j = ?i") simp_all
  then have c1: "bucket_chains hs1 (nl[?i := x]) ?B" using lnl by (simp add: bucket_chains_def)
  have ms: "mset (concat ?B) = add_mset x (mset (concat B))" using mset_concat_update [OF i, of "x # B ! ?i"] by simp
  have d1: "distinct (xs @ concat ?B)"
    using mset_eq_imp_distinct_iff [of "xs @ concat ?B" "(x # xs) @ concat B"] Cons.prems(3) ms by simp
  have "in_bucket hs len ?B"
    using Cons.prems(6) nd(1) by (intro placed_update) (auto simp: khash_def)
  then have p1: "in_bucket hs1 len ?B" using same_views_placed [OF hs1(2)] by blast
  have "hash_chain hs1 n xs" using keep x(4) Cons.prems(3) by simp
  from Cons.IH [OF this c1 d1 _ Cons.prems(5) p1] Cons.prems(4) obtain hs' nl' B' where r:
    "move_bucket len n hs1 (nl[?i := x]) = Some (hs', nl')" "bucket_chains hs' nl' B'" "length B' = unat len"
    "mset (concat B') = mset xs + mset (concat ?B)" "in_bucket hs' len B'" "same_views hs1 hs'" "\<forall>r. r \<notin> set xs \<longrightarrow> nxh hs' r = nxh hs1 r"
    by auto
  have "move_bucket len h hs nl = Some (hs', nl')"
    using x(1,2) nd hs1(1) r(1) i lnl by (subst move_bucket.simps) (simp add: bucket_of_def Let_def)
  then show ?case
    using r ms hs1(3) same_views_trans [OF hs1(2) r(6)] by (intro exI conjI) auto
qed

lemma move_buckets_chains:
  assumes "list_all2 (hash_chain hs) l Bs" and "bucket_chains hs nl B" and "distinct (concat Bs @ concat B)" and "length B = unat len"
    and "power_length len" and "in_bucket hs len B"
  shows "\<exists>hs' nl' B'. move_buckets len l hs nl = Some (hs', nl') \<and> bucket_chains hs' nl' B' \<and> length B' = unat len \<and>
    mset (concat B') = mset (concat Bs) + mset (concat B) \<and> in_bucket hs' len B' \<and> same_views hs hs' \<and>
    (\<forall>r. r \<notin> set (concat Bs) \<longrightarrow> nxh hs' r = nxh hs r)"
  using assms
proof (induction Bs arbitrary: l hs nl B rule: list.induct)
  case Nil
  have "move_buckets len l hs nl = Some (hs, nl)" using Nil.prems(1) by simp
  then show ?case using Nil.prems by (intro exI [of _ hs] exI [of _ nl] exI [of _ B]) simp
next
  case (Cons xs Bs)
  obtain h l' where l: "l = h # l'" "hash_chain hs h xs" "list_all2 (hash_chain hs) l' Bs" using Cons.prems(1) by (auto simp: list_all2_Cons2)
  have d: "distinct (xs @ concat B)" "set xs \<inter> set (concat Bs) = {}" using Cons.prems(3) by auto
  obtain hs1 nl1 B1 where m: "move_bucket len h hs nl = Some (hs1, nl1)" "bucket_chains hs1 nl1 B1" "length B1 = unat len"
    "mset (concat B1) = mset xs + mset (concat B)" "in_bucket hs1 len B1" "same_views hs hs1" "\<forall>r. r \<notin> set xs \<longrightarrow> nxh hs1 r = nxh hs r"
    using move_bucket_chains [OF l(2) Cons.prems(2) d(1) Cons.prems(4-6)] by blast
  have "hash_chain hs1 (l' ! j) (Bs ! j)" if j: "j < length Bs" for j
  proof (rule chain_frame)
    show "hash_chain hs (l' ! j) (Bs ! j)" using l(3) j by (simp add: list_all2_conv_all_nth)
    have "set (Bs ! j) \<subseteq> set (concat Bs)" using j by (meson in_concat_nth subsetI)
    then show "nxh hs1 x = nxh hs x" if "x \<in> set (Bs ! j)" for x using that d(2) m(7) by auto
  qed
  then have l1: "list_all2 (hash_chain hs1) l' Bs" using l(3) by (simp add: list_all2_conv_all_nth)
  have d1: "distinct (concat Bs @ concat B1)"
    using mset_eq_imp_distinct_iff [of "concat Bs @ concat B1" "concat (xs # Bs) @ concat B"] Cons.prems(3) m(4) by simp
  obtain hs' nl' B' where r: "move_buckets len l' hs1 nl1 = Some (hs', nl')" "bucket_chains hs' nl' B'" "length B' = unat len"
    "mset (concat B') = mset (concat Bs) + mset (concat B1)" "in_bucket hs' len B'" "same_views hs1 hs'"
    "\<forall>r. r \<notin> set (concat Bs) \<longrightarrow> nxh hs' r = nxh hs1 r"
    using Cons.IH [OF l1 m(2) d1 m(3) Cons.prems(5) m(5)] by blast
  have "move_buckets len l hs nl = Some (hs', nl')" using l(1) m(1) r(1) by simp
  then show ?case using r m(4,7) same_views_trans [OF m(6) r(6)] by (intro exI conjI) auto
qed

lemma bucket_chains_empty: "bucket_chains hs (replicate n 0) (replicate n [])"
  by (simp add: bucket_chains_def)

text \<open>The part of \<open>table_ok\<close> that does not speak of the length, for a table that is about to grow.\<close>

lemma Resize_table:
  assumes c: "bucket_chains hs (ht_list t) B" and "length B = unat (ht_length t)" and d: "distinct (concat B)"
    and el: "unat (ht_elems t) = length (concat B)" and inj: "inj_on (khash hs) (set (concat B))" and "length (concat B) \<le> 2 ^ 31"
  shows "\<exists>hs' t' B'. Resize hs t = Some (hs', t') \<and> table_ok hs' t' B' \<and> set (concat B') = set (concat B) \<and> same_views hs hs' \<and>
    (\<forall>r. r \<notin> set (concat B) \<longrightarrow> nxh hs' r = nxh hs r)"
proof -
  have "power_length 4" unfolding power_length_def by (intro exI [of _ 2]) simp
  then obtain m where m: "grow_length (ht_elems t) 4 = Some m" "power_length m"
    using grow_length_enough [of "ht_elems t" 4] el assms(6) by auto
  have take: "take (unat (ht_length t)) (ht_list t) = ht_list t" using c assms(2) by (simp add: bucket_chains_def)
  have l: "list_all2 (hash_chain hs) (ht_list t) B" using c by (simp add: bucket_chains_def list_all2_conv_all_nth)
  let ?B0 = "replicate (unat m) [] :: nat list list"
  have none: "concat ?B0 = []" by simp
  have p0: "in_bucket hs m ?B0" by (simp add: in_bucket_def)
  have d0: "distinct (concat B @ concat ?B0)" using d by (simp del: concat_replicate_trivial add: none)
  obtain hs' nl' B' where r: "move_buckets m (ht_list t) hs (replicate (unat m) 0) = Some (hs', nl')" "bucket_chains hs' nl' B'"
    "length B' = unat m" "mset (concat B') = mset (concat B) + mset (concat ?B0)" "in_bucket hs' m B'" "same_views hs hs'"
    "\<forall>r. r \<notin> set (concat B) \<longrightarrow> nxh hs' r = nxh hs r"
    using move_buckets_chains [OF l bucket_chains_empty d0 length_replicate m(2) p0] by blast
  have ms: "mset (concat B') = mset (concat B)" using r(4) none by simp
  have "table_ok hs' (t\<lparr>ht_list := nl', ht_length := m\<rparr>) B'"
    using r(2,3,5) m(2) d el inj mset_eq_imp_distinct_iff [OF ms] mset_eq_setD [OF ms] mset_eq_length [OF ms]
      same_views_khash [OF r(6)] by (simp add: table_ok_def del: set_concat length_concat)
  moreover have "Resize hs t = Some (hs', t\<lparr>ht_list := nl', ht_length := m\<rparr>)"
    using m(1) r(1) take by (simp add: Resize_def)
  ultimately show ?thesis using mset_eq_setD [OF ms] r(6,7) by blast
qed

lemma new_HandleTable_ok: "\<exists>t B. new_HandleTable hs = Some (hs, t) \<and> table_ok hs t B \<and> concat B = []"
proof -
  let ?t = "\<lparr>ht_length = 0, ht_elems = 0, ht_list = []\<rparr>"
  have "grow_length 0 4 = Some 4" by (subst grow_length.simps) simp
  then have "new_HandleTable hs = Some (hs, ?t\<lparr>ht_list := replicate 4 0, ht_length := 4\<rparr>)"
    by (simp add: new_HandleTable_def Resize_def)
  moreover have "power_length 4" unfolding power_length_def by (intro exI [of _ 2]) simp
  then have "table_ok hs (?t\<lparr>ht_list := replicate 4 0, ht_length := 4\<rparr>) (replicate 4 [])"
    using bucket_chains_empty [of hs 4] by (simp add: table_ok_def in_bucket_def)
  ultimately show ?thesis by fastforce
qed

lemma ht_Insert_table:
  assumes ok: "table_ok hs t B" and h: "hs h \<noteq> None" "h \<noteq> 0" "h \<notin> set (concat B)" and few: "length (concat B) < 2 ^ 31"
  shows "\<exists>old hs' t' B'. ht_Insert h hs t = Some (old, hs', t') \<and> table_ok hs' t' B' \<and> same_views hs hs' \<and>
    (if old = 0 then (\<forall>x\<in>set (concat B). khash hs x \<noteq> khash hs h) \<and> set (concat B') = insert h (set (concat B))
     else old \<in> set (concat B) \<and> khash hs old = khash hs h \<and> set (concat B') = insert h (set (concat B) - {old}))"
proof -
  obtain x where x: "hs h = Some x" using h(1) by blast
  let ?key = "h_key x" and ?hash = "h_hash x"
  let ?i = "bucket_of (ht_length t) ?hash"
  have kh: "khash hs h = Some (?key, ?hash)" using x by (simp add: khash_def)
  obtain ys zs where r: "B ! ?i = ys @ zs" "?i < length B" "FindPointer ?key ?hash hs t = Some (slot_after (Bucket ?i) ys)"
    "read_slot (slot_after (Bucket ?i) ys) hs t = Some (case zs of [] \<Rightarrow> 0 | z # _ \<Rightarrow> z)"
    "zs = [] \<longrightarrow> (\<forall>e\<in>set (concat B). khash hs e \<noteq> Some (?key, ?hash))"
    "\<forall>z zs'. zs = z # zs' \<longrightarrow> khash hs z = Some (?key, ?hash)"
    using FindPointer_table [OF ok, of ?hash ?key] by blast
  define old where "old = (case zs of [] \<Rightarrow> 0 | z # _ \<Rightarrow> z)"
  have ch: "hash_chain hs (ht_list t ! ?i) (ys @ zs)" using table_ok_chain [OF ok r(2,1)] .
  have d: "distinct (concat B)" and c: "bucket_chains hs (ht_list t) B" and el: "unat (ht_elems t) = length (concat B)"
    and inj: "inj_on (khash hs) (set (concat B))" and len: "length B = unat (ht_length t)" and pw: "power_length (ht_length t)"
    using ok by (simp_all add: table_ok_def del: set_concat length_concat)
  have inB: "set (ys @ zs) \<subseteq> set (concat B)" using r(1,2) by (metis in_concat_nth subsetI)
  have old: "old \<noteq> 0 \<longleftrightarrow> zs \<noteq> []" using chain_dom [OF ch] by (auto simp: old_def split: list.splits)
  have "\<exists>n. (if old = 0 then Some 0 else map_option h_next_hash (hs old)) = Some n \<and> hash_chain hs n (tl zs)"
  proof (cases zs)
    case (Cons z zs')
    then show ?thesis using chain_append [OF ch] old by (auto simp: old_def nxh_def)
  qed (use old in simp)
  then obtain n where n: "(if old = 0 then Some 0 else map_option h_next_hash (hs old)) = Some n" "hash_chain hs n (tl zs)" by blast
  obtain hs1 where hs1: "set_node h (\<lambda>y. y\<lparr>h_next_hash := n\<rparr>) hs = Some hs1" "same_views hs hs1" "nxh hs1 = (nxh hs)(h := Some n)"
    using set_next_hash [of hs h, OF h(1)] by blast
  have hys: "h \<notin> set (ys @ zs)" using h(3) inB by blast
  have keep: "hash_chain hs1 p ws" if "hash_chain hs p ws" "set ws \<subseteq> set (concat B)" for p ws
    using that(1) by (rule chain_frame) (use that(2) h(3) hs1(3) in auto)
  have tlz: "set (tl zs) \<subseteq> set (concat B)" using inB by (cases zs) auto
  have ch1: "hash_chain hs1 h (h # tl zs)" using keep [OF n(2) tlz] h(2) hs1(3) by simp
  have c1: "bucket_chains hs1 (ht_list t) B"
    using c keep in_concat_nth unfolding bucket_chains_def by (metis subsetI)
  have "distinct (ys @ zs)" using distinct_bucket [OF d r(2)] r(1) by simp
  then have disj: "set (h # tl zs) \<inter> set ys = {}" using hys by (cases zs) auto
  obtain hs2 l where w: "write_slot (slot_after (Bucket ?i) ys) h hs1 t = Some (hs2, t\<lparr>ht_list := l\<rparr>)"
    "bucket_chains hs2 l (B[?i := ys @ h # tl zs])" "same_views hs1 hs2"
    using write_slot_chains [OF c1 d r(2,1) ch1 disj] by blast
  have sv: "same_views hs hs2" using same_views_trans [OF hs1(2) w(3)] .
  let ?B = "B[?i := ys @ h # tl zs]"
  have lenB: "length ?B = unat (ht_length t)" using len by simp
  have pl: "in_bucket hs2 (ht_length t) ?B"
    unfolding same_views_placed [OF sv]
  proof (rule placed_update)
    show "in_bucket hs (ht_length t) B" using ok by (simp add: table_ok_def)
    show "e \<in> set (B ! ?i) \<or> (\<exists>kh. khash hs e = Some kh \<and> bucket_of (ht_length t) (snd kh) = ?i)" if "e \<in> set (ys @ h # tl zs)" for e
      using that kh r(1) by (cases zs) auto
  qed
  show ?thesis
  proof (cases zs)
    case Nil
    then have o0: "old = 0" using old by simp
    have ms: "mset (concat ?B) = mset (h # concat B)"
      using mset_concat_update [OF r(2), of "ys @ h # tl zs"] r(1) Nil by simp
    have set: "set (concat ?B) = insert h (set (concat B))" using mset_eq_setD [OF ms] by simp
    have d2: "distinct (concat ?B)" using mset_eq_imp_distinct_iff [OF ms] d h(3) by simp
    have el2: "unat (ht_elems t + 1) = length (concat ?B)"
      using mset_eq_length [OF ms] el few unat_add_of_nat [of "ht_elems t" 1] by simp
    have inj2: "inj_on (khash hs2) (set (concat ?B))"
    proof -
      have "khash hs h \<notin> khash hs ` set (concat B)"
        using r(5) Nil kh by (metis imageE)
      then show ?thesis using inj h(3) unfolding same_views_khash [OF sv] set by (simp add: inj_on_insert del: set_concat)
    qed
    let ?t = "t\<lparr>ht_list := l, ht_elems := ht_elems t + 1\<rparr>"
    have "\<exists>hs' t' B'. (if ht_elems ?t > ht_length ?t then Resize hs2 ?t else Some (hs2, ?t)) = Some (hs', t') \<and> table_ok hs' t' B' \<and>
        set (concat B') = set (concat ?B) \<and> same_views hs hs'"
    proof (cases "ht_elems ?t > ht_length ?t")
      case True
      have "length (concat ?B) \<le> 2 ^ 31" using mset_eq_length [OF ms] few by simp
      then obtain hs' t' B' where "Resize hs2 ?t = Some (hs', t')" "table_ok hs' t' B'" "set (concat B') = set (concat ?B)" "same_views hs2 hs'"
        using Resize_table [of hs2 ?t ?B] w(2) lenB d2 el2 inj2 by (simp del: set_concat length_concat) blast
      then show ?thesis using True same_views_trans [OF sv]
        by (intro exI [of _ hs'] exI [of _ t'] exI [of _ B']) (simp del: set_concat)
    next
      case False
      have "table_ok hs2 ?t ?B" using w(2) lenB pw pl d2 el2 inj2 by (simp add: table_ok_def del: set_concat length_concat)
      then show ?thesis using False sv by (intro exI [of _ hs2] exI [of _ ?t] exI [of _ ?B]) (simp del: set_concat)
    qed
    then obtain hs' t' B' where res: "(if ht_elems ?t > ht_length ?t then Resize hs2 ?t else Some (hs2, ?t)) = Some (hs', t')"
      "table_ok hs' t' B'" "set (concat B') = set (concat ?B)" "same_views hs hs'" by blast
    have "ht_Insert h hs t = Some (0, hs', t')"
      using x r(3,4) n(1) hs1(1) w(1) res(1) o0 Nil
      by (cases "ht_length t < ht_elems t + 1") (simp_all add: ht_Insert_def Let_def)
    then show ?thesis using res(2-4) set r(5) Nil kh
      by (intro exI [of _ 0] exI [of _ hs'] exI [of _ t'] exI [of _ B']) (simp del: set_concat)
  next
    case (Cons z zs')
    then have oz: "old = z" "old \<noteq> 0" using old by (simp_all add: old_def)
    have ms: "mset (z # concat ?B) = mset (h # concat B)"
      using mset_concat_update [OF r(2), of "ys @ h # tl zs"] r(1) Cons by simp
    have zB: "z \<in> set (concat B)" using inB Cons by simp
    have d2: "distinct (z # concat ?B)" using mset_eq_imp_distinct_iff [OF ms] d h(3) by simp
    have eq: "insert z (set (concat ?B)) = insert h (set (concat B))" using mset_eq_setD [OF ms] by simp
    have "z \<notin> set (concat ?B)" "z \<noteq> h" using d2 zB h(3) by auto
    then have set: "set (concat ?B) = insert h (set (concat B) - {z})" using eq by (metis Diff_insert_absorb insert_Diff_if singletonD)
    have zk: "khash hs z = khash hs h" using r(6) Cons kh by simp
    have inj2: "inj_on (khash hs2) (set (concat ?B))"
    proof -
      have "khash hs h \<notin> khash hs ` (set (concat B) - {z})"
        using inj zk zB by (metis DiffD1 DiffD2 imageE inj_onD singletonI)
      then show ?thesis using inj unfolding same_views_khash [OF sv] set
        by (simp add: inj_on_insert inj_on_diff del: set_concat) blast
    qed
    have "table_ok hs2 (t\<lparr>ht_list := l\<rparr>) ?B"
      using w(2) lenB pw pl d2 el mset_eq_length [OF ms] inj2 by (simp add: table_ok_def del: set_concat length_concat)
    moreover have "ht_Insert h hs t = Some (z, hs2, t\<lparr>ht_list := l\<rparr>)"
      using x r(3,4) n(1) hs1(1) w(1) oz Cons by (auto simp: ht_Insert_def)
    ultimately show ?thesis using set sv zB zk oz
      by (intro exI [of _ z] exI [of _ hs2] exI [of _ "t\<lparr>ht_list := l\<rparr>"] exI [of _ ?B]) (simp del: set_concat)
  qed
qed

end
