(* ===== verification/LdbCacheSpec.thy ===== *)
theory LdbCacheSpec
  imports LdbCacheProofs
begin

text \<open>
  What the cache promises: a machine on the entries, the lists of those that are unused, oldest first, and in use,
  and the number of handles that clients hold. The cache refines it.
\<close>

section \<open>The machine\<close>

record 'v cell =
  cl_key :: "u8 list"
  cl_hash :: u32
  cl_value :: 'v
  cl_charge :: u64

record 'v acache =
  a_capacity :: u64
  a_cells :: "nat \<Rightarrow> 'v cell option"
  a_held :: "nat \<Rightarrow> nat"
  a_lru :: "nat list"
  a_used :: "nat list"
  a_deleted :: "(u8 list \<times> 'v) list"

definition a_new :: "u64 \<Rightarrow> 'v acache" where
  "a_new capacity = \<lparr>a_capacity = capacity, a_cells = (\<lambda>_. None), a_held = (\<lambda>_. 0), a_lru = [], a_used = [], a_deleted = []\<rparr>"

abbreviation cached :: "'v acache \<Rightarrow> nat list" where
  "cached a \<equiv> a_lru a @ a_used a"

definition charge_of :: "'v acache \<Rightarrow> nat \<Rightarrow> u64" where
  "charge_of a e = (case a_cells a e of None \<Rightarrow> 0 | Some x \<Rightarrow> cl_charge x)"

definition a_usage :: "'v acache \<Rightarrow> u64" where
  "a_usage a = sum_list (map (charge_of a) (cached a))"

definition a_find :: "u8 list \<Rightarrow> u32 \<Rightarrow> 'v acache \<Rightarrow> nat" where
  "a_find key hash a =
     (case find (\<lambda>e. case a_cells a e of None \<Rightarrow> False | Some x \<Rightarrow> cl_key x = key \<and> cl_hash x = hash) (cached a) of
        None \<Rightarrow> 0 | Some e \<Rightarrow> e)"

text \<open>The last reference is gone: the deleter gets key and value.\<close>

definition a_free :: "nat \<Rightarrow> 'v acache \<Rightarrow> 'v acache" where
  "a_free e a = (case a_cells a e of None \<Rightarrow> a
     | Some x \<Rightarrow> a\<lparr>a_cells := (a_cells a)(e := None), a_deleted := a_deleted a @ [(cl_key x, cl_value x)]\<rparr>)"

definition a_take :: "nat \<Rightarrow> 'v acache \<Rightarrow> 'v acache" where
  "a_take e a =
     a\<lparr>a_lru := remove1 e (a_lru a), a_used := (if e \<in> set (a_lru a) then a_used a @ [e] else a_used a),
       a_held := (a_held a)(e := a_held a e + 1)\<rparr>"

definition a_release :: "nat \<Rightarrow> 'v acache \<Rightarrow> 'v acache" where
  "a_release e a =
     (let a = a\<lparr>a_held := (a_held a)(e := a_held a e - 1)\<rparr> in
      if a_held a e \<noteq> 0 then a
      else if e \<in> set (a_used a) then a\<lparr>a_used := remove1 e (a_used a), a_lru := a_lru a @ [e]\<rparr>
      else a_free e a)"

text \<open>An entry leaves the cache; it stays alive while a client holds it.\<close>

definition a_drop :: "nat \<Rightarrow> 'v acache \<Rightarrow> 'v acache" where
  "a_drop e a =
     (let a = a\<lparr>a_lru := remove1 e (a_lru a), a_used := remove1 e (a_used a)\<rparr> in
      if a_held a e = 0 then a_free e a else a)"

definition a_erase :: "u8 list \<Rightarrow> u32 \<Rightarrow> 'v acache \<Rightarrow> 'v acache" where
  "a_erase key hash a = (let e = a_find key hash a in if e = 0 then a else a_drop e a)"

lemma a_free_lists [simp]: "a_lru (a_free e a) = a_lru a" "a_used (a_free e a) = a_used a" "a_capacity (a_free e a) = a_capacity a"
  "a_held (a_free e a) = a_held a"
  by (simp_all add: a_free_def split: option.split)

lemma a_drop_lists [simp]: "a_lru (a_drop e a) = remove1 e (a_lru a)" "a_used (a_drop e a) = remove1 e (a_used a)"
  "a_capacity (a_drop e a) = a_capacity a"
  by (simp_all add: a_drop_def Let_def)

text \<open>Unused entries leave, the oldest first, while the charges exceed the capacity.\<close>

function a_evict :: "'v acache \<Rightarrow> 'v acache" where
  "a_evict a = (if a_usage a > a_capacity a \<and> a_lru a \<noteq> [] then a_evict (a_drop (hd (a_lru a)) a) else a)"
  by pat_completeness auto

termination by (relation "measure (\<lambda>a. length (a_lru a))") (auto simp: length_remove1 neq_Nil_conv)

function a_prune :: "'v acache \<Rightarrow> 'v acache" where
  "a_prune a = (if a_lru a \<noteq> [] then a_prune (a_drop (hd (a_lru a)) a) else a)"
  by pat_completeness auto

termination by (relation "measure (\<lambda>a. length (a_lru a))") (auto simp: length_remove1 neq_Nil_conv)

declare a_evict.simps [simp del] a_prune.simps [simp del]

definition a_add :: "nat \<Rightarrow> u8 list \<Rightarrow> u32 \<Rightarrow> 'v \<Rightarrow> u64 \<Rightarrow> 'v acache \<Rightarrow> 'v acache" where
  "a_add e key hash val charge a =
     a\<lparr>a_cells := (a_cells a)(e \<mapsto> \<lparr>cl_key = key, cl_hash = hash, cl_value = val, cl_charge = charge\<rparr>),
       a_held := (a_held a)(e := 1), a_used := (if a_capacity a > 0 then a_used a @ [e] else a_used a)\<rparr>"

definition a_insert :: "nat \<Rightarrow> u8 list \<Rightarrow> u32 \<Rightarrow> 'v \<Rightarrow> u64 \<Rightarrow> 'v acache \<Rightarrow> 'v acache" where
  "a_insert e key hash val charge a =
     (let old = a_find key hash a; a = a_add e key hash val charge a in
      a_evict (if a_capacity a > 0 \<and> old \<noteq> 0 then a_drop old a else a))"

section \<open>The refinement relation\<close>

definition cell_info :: "'v acache \<Rightarrow> nat \<Rightarrow> 'v info option" where
  "cell_info a e = map_option (\<lambda>x. (cl_key x, cl_hash x, cl_value x, cl_charge x, e \<in> set (cached a),
     of_nat (a_held a e + (if e \<in> set (cached a) then 1 else 0)))) (a_cells a e)"

text \<open>What always holds of the machine.\<close>

definition a_wf :: "'v acache \<Rightarrow> bool" where
  "a_wf a \<longleftrightarrow> distinct (cached a) \<and> (\<forall>e\<in>set (cached a). a_cells a e \<noteq> None) \<and> (\<forall>e\<le>2. a_cells a e = None) \<and>
     (\<forall>e. a_cells a e = None \<longrightarrow> a_held a e = 0) \<and> (\<forall>e\<in>set (a_lru a). a_held a e = 0) \<and>
     (\<forall>e. a_cells a e \<noteq> None \<longrightarrow> e \<notin> set (a_lru a) \<longrightarrow> 0 < a_held a e) \<and> (\<forall>e. a_held a e + 1 < 2 ^ 32)"

text \<open>\<open>S\<close> are the entries in the table.\<close>

definition cache_rel :: "nat set \<Rightarrow> 'v lru_cache \<Rightarrow> 'v acache \<Rightarrow> bool" where
  "cache_rel S c a \<longleftrightarrow> a_wf a \<and> lc_handles c 0 = None \<and> ring (lc_handles c) 1 (a_lru a) \<and> ring (lc_handles c) 2 (a_used a) \<and>
     (\<forall>e>2. info (lc_handles c) e = cell_info a e) \<and>
     (\<exists>B. table_ok (lc_handles c) (lc_table c) B \<and> set (concat B) = S) \<and>
     lc_usage c = a_usage a \<and> lc_capacity c = a_capacity a \<and> lc_deleted c = a_deleted a"

lemma set_node_info:
  assumes "hs e = Some x" and "h_next (f x) = h_next x" and "h_prev (f x) = h_prev x" and "h_next_hash (f x) = h_next_hash x"
  shows "\<exists>hs'. set_node e f hs = Some hs' \<and> hs' e = Some (f x) \<and> nx hs' = nx hs \<and> pv hs' = pv hs \<and> nxh hs' = nxh hs \<and>
    info hs' = (info hs)(e := Some (h_key (f x), h_hash (f x), h_value (f x), h_charge (f x), h_in_cache (f x), h_refs (f x)))"
proof -
  let ?hs = "hs(e \<mapsto> f x)"
  have "?hs e = Some (f x) \<and> nx ?hs = nx hs \<and> pv ?hs = pv hs \<and> nxh ?hs = nxh hs \<and>
    info ?hs = (info hs)(e := Some (h_key (f x), h_hash (f x), h_value (f x), h_charge (f x), h_in_cache (f x), h_refs (f x)))"
    using assms by (auto simp: views fun_eq_iff)
  then show ?thesis using set_node_Some [of hs e x f, OF assms(1)] by blast
qed

lemma ring_views: "ring hs a xs \<Longrightarrow> nx hs' = nx hs \<Longrightarrow> pv hs' = pv hs \<Longrightarrow> ring hs' a xs"
  by (rule ring_frame) simp_all

lemma move_ring:
  assumes x: "ring hs a xs" and y: "ring hs b ys" and e: "e \<in> set xs" and dj: "set (a # xs) \<inter> set (b # ys) = {}"
  shows "\<exists>hs1 hs2. LRU_Remove e hs = Some hs1 \<and> LRU_Append b e hs1 = Some hs2 \<and> ring hs2 a (remove1 e xs) \<and> ring hs2 b (ys @ [e]) \<and>
    nxh hs2 = nxh hs \<and> info hs2 = info hs"
proof -
  obtain hs1 where r: "LRU_Remove e hs = Some hs1" "ring hs1 a (remove1 e xs)" "nxh hs1 = nxh hs" "info hs1 = info hs"
    "\<forall>r. r \<notin> insert a (set xs) \<longrightarrow> nx hs1 r = nx hs r \<and> pv hs1 r = pv hs r" using LRU_Remove_ring [OF x e] by blast
  have y1: "ring hs1 b ys" using y by (rule ring_frame) (use r(5) dj in auto)
  have dom: "hs1 e \<noteq> None" using e x seg_dom [of hs a xs a e] r(4) by (auto simp: ring_def info_dom)
  have eb: "e \<notin> insert b (set ys)" using e dj by auto
  obtain hs2 where s: "LRU_Append b e hs1 = Some hs2" "ring hs2 b (ys @ [e])" "nxh hs2 = nxh hs1" "info hs2 = info hs1"
    "\<forall>r. r \<notin> insert e (insert b (set ys)) \<longrightarrow> nx hs2 r = nx hs1 r \<and> pv hs2 r = pv hs1 r"
    using LRU_Append_ring [OF y1 eb dom] by blast
  have "distinct (a # xs)" using x by (simp add: ring_def)
  then have "e \<notin> insert a (set (remove1 e xs))" using e by auto
  moreover have "insert a (set (remove1 e xs)) \<subseteq> set (a # xs)" using set_remove1_subset [of e xs] by auto
  ultimately have out: "r \<notin> insert e (insert b (set ys))" if "r \<in> insert a (set (remove1 e xs))" for r using that dj by auto
  have "ring hs2 a (remove1 e xs)" by (rule ring_frame [OF r(2)]) (use s(5) out in blast)
  then show ?thesis using r(1,3,4) s(1-4) by auto
qed

lemma table_ok_info:
  assumes "table_ok hs t B" and "nxh hs' = nxh hs" and "\<And>e. e \<in> set (concat B) \<Longrightarrow> khash hs' e = khash hs e"
  shows "table_ok hs' t B"
  using assms by (intro table_ok_frame [OF assms(1)]) simp

lemma u32_of_nat_eq: "m < 2 ^ 32 \<Longrightarrow> n < 2 ^ 32 \<Longrightarrow> (of_nat m :: u32) = of_nat n \<longleftrightarrow> m = n"
  by (simp add: word_unat_eq_iff unsigned_of_nat take_bit_nat_eq_self)

lemma rel_node:
  assumes "cache_rel S c a" and "a_cells a e = Some cl"
  shows "\<exists>x. lc_handles c e = Some x \<and> h_key x = cl_key cl \<and> h_hash x = cl_hash cl \<and> h_value x = cl_value cl \<and>
    h_charge x = cl_charge cl \<and> h_in_cache x = (e \<in> set (cached a)) \<and>
    h_refs x = of_nat (a_held a e + (if e \<in> set (cached a) then 1 else 0)) \<and> 2 < e"
proof -
  have e: "2 < e" using assms by (metis cache_rel_def a_wf_def linorder_not_less option.distinct(1))
  then have "info (lc_handles c) e = cell_info a e" using assms(1) by (simp add: cache_rel_def)
  then show ?thesis using assms(2) e by (auto simp: info_def cell_info_def)
qed

lemma cached_cell: "a_wf a \<Longrightarrow> e \<in> set (cached a) \<Longrightarrow> \<exists>cl. a_cells a e = Some cl"
  by (auto simp: a_wf_def)

lemma a_wf_heads: "a_wf a \<Longrightarrow> e \<in> set (cached a) \<Longrightarrow> 2 < e"
  by (metis cached_cell a_wf_def linorder_not_less option.distinct(1))

lemma cached_take: "set (cached (a_take e a)) = set (cached a)" if "a_wf a" "e \<in> set (cached a)"
proof -
  have "distinct (a_lru a)" using that(1) by (simp add: a_wf_def)
  then show ?thesis using that(2) by (auto simp: a_take_def)
qed

lemma charge_of_take [simp]: "charge_of (a_take e a) = charge_of a"
  by (rule ext) (simp add: charge_of_def a_take_def)

lemma usage_perm:
  assumes "mset (cached a') = mset (cached a)" and "\<And>e. e \<in> set (cached a) \<Longrightarrow> charge_of a' e = charge_of a e"
  shows "a_usage a' = a_usage a"
proof -
  have "mset (map (charge_of a) (cached a')) = mset (map (charge_of a) (cached a))" by (metis assms(1) mset_map)
  moreover have "map (charge_of a') (cached a') = map (charge_of a) (cached a')"
    using assms(2) mset_eq_setD [OF assms(1)] by (intro map_cong) auto
  ultimately show ?thesis unfolding a_usage_def by (metis sum_mset_sum_list)
qed

lemma mset_take: "a_wf a \<Longrightarrow> e \<in> set (cached a) \<Longrightarrow> mset (cached (a_take e a)) = mset (cached a)"
  by (auto simp: a_take_def)

lemma a_wf_take:
  assumes w: "a_wf a" and e: "e \<in> set (cached a)" and "a_held a e + 2 < 2 ^ 32"
  shows "a_wf (a_take e a)"
proof -
  have d: "distinct (cached (a_take e a))"
    using mset_take [OF w e] w mset_eq_imp_distinct_iff unfolding a_wf_def by blast
  have lru: "e' \<in> set (a_lru (a_take e a)) \<longleftrightarrow> e' \<in> set (a_lru a) \<and> e' \<noteq> e" for e'
    using w by (auto simp: a_take_def a_wf_def)
  show ?thesis
    using w d assms(3) cached_take [OF w e] cached_cell [OF w e] lru unfolding a_wf_def
    by (auto simp: a_take_def simp del: set_append)
qed

lemma lru_Ref_rel:
  assumes rel: "cache_rel S c a" and e: "e \<in> set (cached a)" and few: "a_held a e + 2 < 2 ^ 32"
  shows "\<exists>c'. lru_Ref e c = Some c' \<and> cache_rel S c' (a_take e a)"
proof -
  let ?hs = "lc_handles c"
  have w: "a_wf a" and r1: "ring ?hs 1 (a_lru a)" and r2: "ring ?hs 2 (a_used a)" and inf: "\<forall>e>2. info ?hs e = cell_info a e"
    using rel by (simp_all add: cache_rel_def)
  obtain B where B: "table_ok ?hs (lc_table c) B" "set (concat B) = S" using rel by (auto simp: cache_rel_def)
  obtain cl where cl: "a_cells a e = Some cl" using cached_cell [OF w e] by blast
  obtain x where x: "?hs e = Some x" "h_key x = cl_key cl" "h_hash x = cl_hash cl" "h_value x = cl_value cl"
    "h_charge x = cl_charge cl" "h_in_cache x" "h_refs x = of_nat (a_held a e + 1)" "2 < e"
    using rel_node [OF rel cl] e by auto
  have one: "h_refs x = 1 \<longleftrightarrow> a_held a e = 0" using u32_of_nat_eq [of "a_held a e + 1" 1] few x(7) by simp
  have "\<exists>hs1. (if h_refs x = 1 \<and> h_in_cache x then do { hs \<leftarrow> LRU_Remove e ?hs; LRU_Append in_use_head e hs } else Some ?hs) = Some hs1 \<and>
      ring hs1 1 (a_lru (a_take e a)) \<and> ring hs1 2 (a_used (a_take e a)) \<and> nxh hs1 = nxh ?hs \<and> info hs1 = info ?hs"
  proof (cases "e \<in> set (a_lru a)")
    case True
    have dj: "set (1 # a_lru a) \<inter> set (2 # a_used a) = {}" using w a_wf_heads [OF w] by (force simp: a_wf_def)
    have "a_held a e = 0" using w True by (simp add: a_wf_def)
    then show ?thesis using move_ring [OF r1 r2 True dj] one x(6) True by (auto simp: a_take_def)
  next
    case False
    then have "0 < a_held a e" using w cl by (simp add: a_wf_def)
    then show ?thesis using one False r1 r2 by (simp add: a_take_def remove1_idem)
  qed
  then obtain hs1 where h1: "(if h_refs x = 1 \<and> h_in_cache x then do { hs \<leftarrow> LRU_Remove e ?hs; LRU_Append in_use_head e hs } else Some ?hs) = Some hs1"
    "ring hs1 1 (a_lru (a_take e a))" "ring hs1 2 (a_used (a_take e a))" "nxh hs1 = nxh ?hs" "info hs1 = info ?hs" by blast
  obtain x1 where x1: "hs1 e = Some x1" using x(1) h1(5) by (metis info_dom not_None_eq)
  then have ix: "h_key x1 = h_key x" "h_hash x1 = h_hash x" "h_value x1 = h_value x" "h_charge x1 = h_charge x"
    "h_in_cache x1 = h_in_cache x" "h_refs x1 = h_refs x" using fun_cong [OF h1(5), of e] x(1) by (simp_all add: info_def)
  obtain hs2 where h2: "set_node e (\<lambda>x. x\<lparr>h_refs := h_refs x + 1\<rparr>) hs1 = Some hs2" "nx hs2 = nx hs1" "pv hs2 = pv hs1" "nxh hs2 = nxh hs1"
    "info hs2 = (info hs1)(e := Some (h_key x1, h_hash x1, h_value x1, h_charge x1, h_in_cache x1, h_refs x1 + 1))"
    using set_node_info [of hs1 e x1 "\<lambda>x. x\<lparr>h_refs := h_refs x + 1\<rparr>", OF x1] by auto
  have kh: "khash hs2 e' = khash ?hs e'" for e'
    using h2(5) h1(5) ix x(1) by (simp add: khash_info info_def)
  have "table_ok hs2 (lc_table c) B" using B(1) by (rule table_ok_info) (simp_all add: h2(4) h1(4) kh)
  moreover have "info hs2 e' = cell_info (a_take e a) e'" if "2 < e'" for e'
  proof (cases "e' = e")
    case True
    have "cell_info (a_take e a) e = Some (cl_key cl, cl_hash cl, cl_value cl, cl_charge cl, True, of_nat (a_held a e + 1) + 1)"
      using cl e cached_take [OF w e] by (simp add: cell_info_def a_take_def del: set_append)
    then show ?thesis using h2(5) True ix x by simp
  next
    case False
    then show ?thesis using inf that h2(5) h1(5) cached_take [OF w e] by (simp add: cell_info_def a_take_def del: set_append)
  qed
  moreover have "hs2 0 = None" using rel h2(5) h1(5) x(8) by (simp add: cache_rel_def info_dom)
  moreover have "a_usage (a_take e a) = a_usage a" using mset_take [OF w e] by (intro usage_perm) simp_all
  ultimately have "cache_rel S (c\<lparr>lc_handles := hs2\<rparr>) (a_take e a)"
    using rel h1(2,3) ring_views [OF _ h2(2,3)] B(2) a_wf_take [OF w e few] by (auto simp: cache_rel_def a_take_def)
  moreover have "lru_Ref e c = Some (c\<lparr>lc_handles := hs2\<rparr>)"
    using x(1) h1(1) h2(1) by (simp add: lru_Ref_def)
  ultimately show ?thesis by blast
qed

lemma views_delete:
  "nx (hs(e := None)) = (nx hs)(e := None)" "pv (hs(e := None)) = (pv hs)(e := None)"
  "nxh (hs(e := None)) = (nxh hs)(e := None)" "info (hs(e := None)) = (info hs)(e := None)"
  by (auto simp: views)

lemma ring_delete: "ring hs a xs \<Longrightarrow> e \<noteq> a \<Longrightarrow> e \<notin> set xs \<Longrightarrow> ring (hs(e := None)) a xs"
  by (erule ring_frame) (auto simp: views_delete)

text \<open>A held handle: giving it back counts down, and the last one moves the entry or frees it.\<close>

lemma a_wf_release:
  assumes w: "a_wf a" and h: "0 < a_held a e"
  shows "a_wf (a_release e a)"
proof -
  have cell: "a_cells a e \<noteq> None" using w h by (metis a_wf_def less_numeral_extra(3))
  have nl: "e \<notin> set (a_lru a)" using w h by (auto simp: a_wf_def)
  show ?thesis
  proof (cases "a_held a e = 1")
    case True
    show ?thesis
    proof (cases "e \<in> set (a_used a)")
      case used: True
      have "distinct (remove1 e (a_used a))" "e \<notin> set (remove1 e (a_used a))" "set (remove1 e (a_used a)) \<subseteq> set (a_used a)"
        using w by (auto simp: a_wf_def distinct_remove1 set_remove1_eq)
      then show ?thesis using w True used nl unfolding a_wf_def a_release_def by (auto simp: Let_def)
    next
      case False
      then show ?thesis using w True nl cell unfolding a_wf_def a_release_def by (auto simp: Let_def a_free_def split: option.splits)
    qed
  next
    case False
    have "a_held a e + 1 < 2 ^ 32" using w unfolding a_wf_def by blast
    then have "a_held a e - 1 + 1 < 2 ^ 32" by simp
    then show ?thesis using w h False nl unfolding a_wf_def a_release_def by (auto simp: Let_def)
  qed
qed

lemma lru_Release_rel:
  assumes rel: "cache_rel (set (cached a)) c a" and h: "0 < a_held a e"
  shows "\<exists>c'. lru_Release e c = Some c' \<and> cache_rel (set (cached (a_release e a))) c' (a_release e a)"
proof -
  let ?hs = "lc_handles c"
  have w: "a_wf a" and r1: "ring ?hs 1 (a_lru a)" and r2: "ring ?hs 2 (a_used a)" and inf: "\<forall>e>2. info ?hs e = cell_info a e"
    using rel by (simp_all add: cache_rel_def)
  obtain B where B: "table_ok ?hs (lc_table c) B" "set (concat B) = set (cached a)" using rel by (auto simp: cache_rel_def)
  obtain cl where cl: "a_cells a e = Some cl" using w h by (metis a_wf_def less_numeral_extra(3) not_None_eq)
  have nl: "e \<notin> set (a_lru a)" using w h by (auto simp: a_wf_def)
  have few: "a_held a e + 1 < 2 ^ 32" using w by (simp add: a_wf_def)
  define n where "n = a_held a e - 1"
  have n: "a_held a e = n + 1" using h by (simp add: n_def)
  define k :: nat where "k = (if e \<in> set (a_used a) then 1 else 0)"
  obtain x where x: "?hs e = Some x" "h_key x = cl_key cl" "h_hash x = cl_hash cl" "h_value x = cl_value cl"
    "h_charge x = cl_charge cl" "h_in_cache x = (e \<in> set (a_used a))" "h_refs x - 1 = of_nat (n + k)" "2 < e"
    using rel_node [OF rel cl] nl n by (auto simp: k_def)
  obtain hs1 where h1: "set_node e (\<lambda>x. x\<lparr>h_refs := h_refs x - 1\<rparr>) ?hs = Some hs1" "hs1 e = Some (x\<lparr>h_refs := h_refs x - 1\<rparr>)"
    "nx hs1 = nx ?hs" "pv hs1 = pv ?hs" "nxh hs1 = nxh ?hs"
    "info hs1 = (info ?hs)(e := Some (h_key x, h_hash x, h_value x, h_charge x, h_in_cache x, h_refs x - 1))"
    using set_node_info [of ?hs e x "\<lambda>x. x\<lparr>h_refs := h_refs x - 1\<rparr>", OF x(1)] by auto
  have ring1: "ring hs1 1 (a_lru a)" "ring hs1 2 (a_used a)" using r1 r2 ring_views [OF _ h1(3,4)] by blast+
  have kh1: "khash hs1 e' = khash ?hs e'" for e' using h1(6) x(1) by (simp add: khash_info info_def)
  have tab1: "table_ok hs1 (lc_table c) B" using B(1) by (rule table_ok_info) (simp_all add: h1(5) kh1)
  have zero: "hs1 0 = None" using rel h1(6) x(8) by (simp add: cache_rel_def info_dom)
  have ne: "(of_nat (n + k) :: u32) = 0 \<longleftrightarrow> n = 0 \<and> k = 0" "(of_nat (n + k) :: u32) = 1 \<longleftrightarrow> n + k = 1"
    using u32_of_nat_eq [of "n + k" 0] u32_of_nat_eq [of "n + k" 1] few n by (simp_all add: k_def)
  have w': "a_wf (a_release e a)" using a_wf_release [OF w h] .
  consider (free) "n = 0" "e \<notin> set (a_used a)" | (move) "n = 0" "e \<in> set (a_used a)" | (count) "n \<noteq> 0" by blast
  then show ?thesis
  proof cases
    case free
    have a': "a_release e a = a\<lparr>a_held := (a_held a)(e := 0), a_cells := (a_cells a)(e := None),
        a_deleted := a_deleted a @ [(cl_key cl, cl_value cl)]\<rparr>"
      using free n cl by (simp add: a_release_def Let_def a_free_def)
    let ?c = "c\<lparr>lc_handles := hs1(e := None), lc_deleted := lc_deleted c @ [(h_key x, h_value x)]\<rparr>"
    have out: "e \<notin> set (cached a)" using free nl by simp
    have "lru_Release e c = Some ?c"
      using h1(1,2) x(7) ne(1) free by (simp add: lru_Release_def lru_Unref_def k_def)
    moreover have "ring (hs1(e := None)) 1 (a_lru a)" by (rule ring_delete [OF ring1(1)]) (use out x(8) in auto)
    moreover have "ring (hs1(e := None)) 2 (a_used a)" by (rule ring_delete [OF ring1(2)]) (use out x(8) in auto)
    moreover have "table_ok (hs1(e := None)) (lc_table c) B"
      using tab1 out B(2) by (intro table_ok_frame [OF tab1]) (auto simp: views_delete khash_info simp del: set_concat)
    moreover have "info (hs1(e := None)) e' = cell_info (a_release e a) e'" if "2 < e'" for e'
      using that inf h1(6) by (simp add: views_delete a' cell_info_def)
    moreover have "a_usage (a_release e a) = a_usage a"
      using out by (intro usage_perm) (auto simp: a' charge_of_def)
    ultimately show ?thesis using rel w' zero B(2) x(2,4) by (auto simp: cache_rel_def a' simp del: set_concat)
  next
    case move
    have a': "a_release e a = a\<lparr>a_held := (a_held a)(e := 0), a_used := remove1 e (a_used a), a_lru := a_lru a @ [e]\<rparr>"
      using move n by (simp add: a_release_def Let_def)
    have dj: "set (2 # a_used a) \<inter> set (1 # a_lru a) = {}" using w a_wf_heads [OF w] by (force simp: a_wf_def)
    obtain h2 hs3 where m: "LRU_Remove e hs1 = Some h2" "LRU_Append 1 e h2 = Some hs3" "ring hs3 2 (remove1 e (a_used a))"
      "ring hs3 1 (a_lru a @ [e])" "nxh hs3 = nxh hs1" "info hs3 = info hs1"
      using move_ring [OF ring1(2,1) move(2) dj] by blast
    have c': "lru_Release e c = Some (c\<lparr>lc_handles := hs3\<rparr>)"
      using h1(1,2) x(6,7) ne move m(1,2) by (simp add: lru_Release_def lru_Unref_def k_def)
    have sc: "set (cached (a_release e a)) = set (cached a)" using w move(2) by (auto simp: a' a_wf_def)
    have "table_ok hs3 (lc_table c) B" by (rule table_ok_info [OF tab1 m(5)]) (simp add: khash_info m(6))
    moreover have "info hs3 e' = cell_info (a_release e a) e'" if "2 < e'" for e'
    proof (cases "e' = e")
      case True
      then show ?thesis using m(6) h1(6) x move cl by (simp add: cell_info_def a' k_def)
    next
      case False
      then show ?thesis using inf that m(6) h1(6) sc by (simp add: cell_info_def a' del: set_append)
    qed
    moreover have "hs3 0 = None" using zero m(6) by (simp add: info_dom)
    moreover have "a_usage (a_release e a) = a_usage a"
      using move(2) by (intro usage_perm) (auto simp: a' charge_of_def)
    ultimately have "cache_rel (set (cached (a_release e a))) (c\<lparr>lc_handles := hs3\<rparr>) (a_release e a)"
      using rel w' m(3,4) B(2) sc by (auto simp: cache_rel_def a' simp del: set_concat)
    then show ?thesis using c' by blast
  next
    case count
    have a': "a_release e a = a\<lparr>a_held := (a_held a)(e := n)\<rparr>" using count n by (simp add: a_release_def Let_def)
    have c': "lru_Release e c = Some (c\<lparr>lc_handles := hs1\<rparr>)"
      using h1(1,2) x(6,7) ne count by (auto simp: lru_Release_def lru_Unref_def k_def)
    have "info hs1 e' = cell_info (a_release e a) e'" if "2 < e'" for e'
      using inf that h1(6) x cl nl by (auto simp: cell_info_def a' k_def)
    moreover have "a_usage (a_release e a) = a_usage a" by (intro usage_perm) (auto simp: a' charge_of_def)
    ultimately have "cache_rel (set (cached (a_release e a))) (c\<lparr>lc_handles := hs1\<rparr>) (a_release e a)"
      using rel w' ring1 tab1 zero B(2) by (auto simp: cache_rel_def a' simp del: set_concat)
    then show ?thesis using c' by blast
  qed
qed

end
