(* ===== verification/LdbCacheErase.thy ===== *)
theory LdbCacheErase
  imports LdbCacheSpec
begin

text \<open>
  Erasing an entry and evicting entries: the cache does what the machine does.
\<close>

lemma charge_of_drop: "e' \<noteq> e \<Longrightarrow> charge_of (a_drop e a) e' = charge_of a e'"
  by (simp add: a_drop_def a_free_def charge_of_def Let_def split: option.split)

lemma set_cached_drop: "a_wf a \<Longrightarrow> set (cached (a_drop e a)) = set (cached a) - {e}"
  by (auto simp: a_wf_def)

lemma mset_drop:
  assumes "a_wf a" and "e \<in> set (cached a)"
  shows "mset (cached a) = add_mset e (mset (cached (a_drop e a)))"
proof -
  have "e \<in> set (a_lru a) \<and> e \<notin> set (a_used a) \<or> e \<notin> set (a_lru a) \<and> e \<in> set (a_used a)"
    using assms by (auto simp: a_wf_def)
  then show ?thesis by (auto simp: diff_single_trivial)
qed

lemma usage_drop:
  assumes w: "a_wf a" and e: "e \<in> set (cached a)"
  shows "a_usage (a_drop e a) = a_usage a - charge_of a e"
proof -
  have "sum_list (map (charge_of a) (cached a)) = charge_of a e + sum_list (map (charge_of a) (cached (a_drop e a)))"
    using arg_cong [OF mset_drop [OF w e], of "\<lambda>m. sum_mset (image_mset (charge_of a) m)"]
    by (simp only: image_mset_add_mset sum_mset.add_mset flip: mset_map sum_mset_sum_list)
  moreover have "map (charge_of (a_drop e a)) (cached (a_drop e a)) = map (charge_of a) (cached (a_drop e a))"
    using set_cached_drop [OF w, of e] charge_of_drop [of _ e a] by (intro map_cong refl) blast
  ultimately show ?thesis by (simp only: a_usage_def) simp
qed

lemma a_wf_drop:
  assumes w: "a_wf a" and e: "e \<in> set (cached a)"
  shows "a_wf (a_drop e a)"
proof -
  have d: "distinct (cached (a_drop e a))" using w by (auto simp: a_wf_def distinct_remove1 dest: notin_set_remove1)
  have s: "set (cached (a_drop e a)) = set (cached a) - {e}" using set_cached_drop [OF w] .
  have l: "set (a_lru (a_drop e a)) = set (a_lru a) - {e}" using w by (simp add: a_wf_def)
  have cells: "a_cells (a_drop e a) = (if a_held a e = 0 then (a_cells a)(e := None) else a_cells a)"
    and held: "a_held (a_drop e a) = a_held a"
    using cached_cell [OF w e] by (auto simp: a_drop_def a_free_def Let_def)
  show ?thesis
    unfolding a_wf_def s l cells held using d w e by (auto simp: a_wf_def)
qed

lemma LRU_Remove_either:
  assumes w: "a_wf a" and r1: "ring hs 1 (a_lru a)" and r2: "ring hs 2 (a_used a)" and e: "e \<in> set (cached a)"
  shows "\<exists>hs1. LRU_Remove e hs = Some hs1 \<and> ring hs1 1 (remove1 e (a_lru a)) \<and> ring hs1 2 (remove1 e (a_used a)) \<and>
    nxh hs1 = nxh hs \<and> info hs1 = info hs"
proof -
  have dj: "set (1 # a_lru a) \<inter> set (2 # a_used a) = {}" using w a_wf_heads [OF w] by (force simp: a_wf_def)
  show ?thesis
  proof (cases "e \<in> set (a_lru a)")
    case True
    obtain hs1 where r: "LRU_Remove e hs = Some hs1" "ring hs1 1 (remove1 e (a_lru a))" "nxh hs1 = nxh hs" "info hs1 = info hs"
      "\<forall>r. r \<notin> insert 1 (set (a_lru a)) \<longrightarrow> nx hs1 r = nx hs r \<and> pv hs1 r = pv hs r" using LRU_Remove_ring [OF r1 True] by blast
    have "r \<notin> insert 1 (set (a_lru a))" if "r \<in> insert 2 (set (a_used a))" for r using that dj by auto
    then have "ring hs1 2 (a_used a)" using r2 r(5) by (blast intro: ring_frame)
    moreover have "e \<notin> set (a_used a)" using dj True by auto
    ultimately show ?thesis using r(1-4) by (auto simp: remove1_idem)
  next
    case False
    then have used: "e \<in> set (a_used a)" using e by simp
    obtain hs1 where r: "LRU_Remove e hs = Some hs1" "ring hs1 2 (remove1 e (a_used a))" "nxh hs1 = nxh hs" "info hs1 = info hs"
      "\<forall>r. r \<notin> insert 2 (set (a_used a)) \<longrightarrow> nx hs1 r = nx hs r \<and> pv hs1 r = pv hs r" using LRU_Remove_ring [OF r2 used] by blast
    have "r \<notin> insert 2 (set (a_used a))" if "r \<in> insert 1 (set (a_lru a))" for r using that dj by auto
    then have "ring hs1 1 (a_lru a)" using r1 r(5) by (blast intro: ring_frame)
    then show ?thesis using r(1-4) False by (auto simp: remove1_idem)
  qed
qed

text \<open>\<open>FinishErase\<close> on an entry that has just left the table.\<close>

lemma FinishErase_rel:
  assumes rel: "cache_rel (set (cached a) - {e}) c a" and e: "e \<in> set (cached a)"
  shows "\<exists>c'. FinishErase e c = Some (True, c') \<and> cache_rel (set (cached (a_drop e a))) c' (a_drop e a)"
proof -
  let ?hs = "lc_handles c" and ?S = "set (cached a) - {e}"
  have w: "a_wf a" and r1: "ring ?hs 1 (a_lru a)" and r2: "ring ?hs 2 (a_used a)" and inf: "\<forall>e>2. info ?hs e = cell_info a e"
    using rel by (simp_all add: cache_rel_def)
  obtain B where B: "table_ok ?hs (lc_table c) B" "set (concat B) = ?S" using rel by (auto simp: cache_rel_def)
  obtain cl where cl: "a_cells a e = Some cl" using cached_cell [OF w e] by blast
  obtain x where x: "?hs e = Some x" "h_key x = cl_key cl" "h_hash x = cl_hash cl" "h_value x = cl_value cl"
    "h_charge x = cl_charge cl" "h_refs x = of_nat (a_held a e + 1)" "2 < e"
    using rel_node [OF rel cl] e by auto
  obtain hs1 where h1: "LRU_Remove e ?hs = Some hs1" "ring hs1 1 (remove1 e (a_lru a))" "ring hs1 2 (remove1 e (a_used a))"
    "nxh hs1 = nxh ?hs" "info hs1 = info ?hs" using LRU_Remove_either [OF w r1 r2 e] by blast
  obtain x1 where x1: "hs1 e = Some x1" using x(1) h1(5) by (metis info_dom not_None_eq)
  have ix: "h_key x1 = cl_key cl" "h_hash x1 = cl_hash cl" "h_value x1 = cl_value cl" "h_charge x1 = cl_charge cl"
    "h_refs x1 = of_nat (a_held a e) + 1" using fun_cong [OF h1(5), of e] x x1 by (simp_all add: info_def)
  obtain hs2 where h2: "set_node e (\<lambda>x. x\<lparr>h_in_cache := False\<rparr>) hs1 = Some hs2" "hs2 e = Some (x1\<lparr>h_in_cache := False\<rparr>)"
    "nx hs2 = nx hs1" "pv hs2 = pv hs1" "nxh hs2 = nxh hs1"
    "info hs2 = (info hs1)(e := Some (h_key x1, h_hash x1, h_value x1, h_charge x1, False, h_refs x1))"
    using set_node_info [of hs1 e x1 "\<lambda>x. x\<lparr>h_in_cache := False\<rparr>", OF x1] by auto
  let ?x2 = "x1\<lparr>h_in_cache := False\<rparr>"
  obtain hs3 where h3: "set_node e (\<lambda>x. x\<lparr>h_refs := h_refs x - 1\<rparr>) hs2 = Some hs3"
    "hs3 e = Some (?x2\<lparr>h_refs := h_refs ?x2 - 1\<rparr>)" "nx hs3 = nx hs2" "pv hs3 = pv hs2" "nxh hs3 = nxh hs2"
    "info hs3 = (info hs2)(e := Some (h_key x1, h_hash x1, h_value x1, h_charge x1, False, h_refs x1 - 1))"
    using set_node_info [of hs2 e ?x2 "\<lambda>x. x\<lparr>h_refs := h_refs x - 1\<rparr>", OF h2(2)] by auto
  have inf3: "info hs3 = (info ?hs)(e := Some (cl_key cl, cl_hash cl, cl_value cl, cl_charge cl, False, of_nat (a_held a e)))"
    using h3(6) h2(6) h1(5) ix by simp
  have ring3: "ring hs3 1 (remove1 e (a_lru a))" "ring hs3 2 (remove1 e (a_used a))"
    using h1(2,3) ring_views [of hs1 _ _ hs3] h2(3,4) h3(3,4) by simp_all
  have out: "e \<notin> set (remove1 e (a_lru a))" "e \<notin> set (remove1 e (a_used a))" using w by (simp_all add: a_wf_def)
  have kh3: "khash hs3 e' = khash ?hs e'" if "e' \<noteq> e" for e' using that inf3 by (simp add: khash_info)
  have tab3: "table_ok hs3 (lc_table c) B"
    by (rule table_ok_info [OF B(1)]) (use B(2) kh3 h1(4) h2(5) h3(5) in \<open>auto simp del: set_concat\<close>)
  have zero: "hs3 0 = None" using rel inf3 x(7) by (simp add: cache_rel_def info_dom)
  have few: "a_held a e < 2 ^ 32" using w unfolding a_wf_def by (metis add_lessD1)
  have ne: "(of_nat (a_held a e) :: u32) = 0 \<longleftrightarrow> a_held a e = 0" using u32_of_nat_eq [of "a_held a e" 0] few by simp
  have use: "a_usage (a_drop e a) = a_usage a - cl_charge cl" using usage_drop [OF w e] cl by (simp add: charge_of_def)
  have s: "set (cached (a_drop e a)) = ?S" using set_cached_drop [OF w] .
  have w': "a_wf (a_drop e a)" using a_wf_drop [OF w e] .
  show ?thesis
  proof (cases "a_held a e = 0")
    case True
    let ?c = "c\<lparr>lc_handles := hs3(e := None), lc_usage := lc_usage c - cl_charge cl,
      lc_deleted := lc_deleted c @ [(cl_key cl, cl_value cl)]\<rparr>"
    have a': "a_cells (a_drop e a) = (a_cells a)(e := None)" "a_held (a_drop e a) = a_held a"
      "a_deleted (a_drop e a) = a_deleted a @ [(cl_key cl, cl_value cl)]"
      using True cl by (simp_all add: a_drop_def a_free_def Let_def)
    have "FinishErase e c = Some (True, ?c)"
      using x(7) h1(1) h2(1,2) h3(1,2) ix ne True by (simp add: FinishErase_def lru_Unref_def)
    moreover have "ring (hs3(e := None)) 1 (remove1 e (a_lru a))" by (rule ring_delete [OF ring3(1)]) (use out x(7) in auto)
    moreover have "ring (hs3(e := None)) 2 (remove1 e (a_used a))" by (rule ring_delete [OF ring3(2)]) (use out x(7) in auto)
    moreover have "table_ok (hs3(e := None)) (lc_table c) B"
      using B(2) by (intro table_ok_frame [OF tab3]) (auto simp: views_delete khash_info simp del: set_concat)
    moreover have "info (hs3(e := None)) e' = cell_info (a_drop e a) e'" if "2 < e'" for e'
      using that inf inf3 s by (simp add: views_delete a' cell_info_def del: set_append a_drop_lists)
    ultimately show ?thesis
      using rel w' zero B(2) use s by (auto simp: cache_rel_def a' simp del: set_concat)
  next
    case False
    let ?c = "c\<lparr>lc_handles := hs3, lc_usage := lc_usage c - cl_charge cl\<rparr>"
    have a': "a_cells (a_drop e a) = a_cells a" "a_held (a_drop e a) = a_held a" "a_deleted (a_drop e a) = a_deleted a"
      using False by (simp_all add: a_drop_def Let_def)
    have "FinishErase e c = Some (True, ?c)"
      using x(7) h1(1) h2(1,2) h3(1,2) ix ne False by (simp add: FinishErase_def lru_Unref_def)
    moreover have "info hs3 e' = cell_info (a_drop e a) e'" if "2 < e'" for e'
      using that inf inf3 s cl by (simp add: a' cell_info_def del: set_append a_drop_lists)
    ultimately show ?thesis
      using rel w' zero ring3 tab3 B(2) use s by (auto simp: cache_rel_def a' simp del: set_concat)
  qed
qed

section \<open>Finding an entry\<close>

lemma khash_cell: "info hs e = cell_info a e \<Longrightarrow> khash hs e = map_option (\<lambda>x. (cl_key x, cl_hash x)) (a_cells a e)"
  by (cases "a_cells a e") (simp_all add: khash_info cell_info_def)

lemma a_find_cases:
  "a_find key hash a = 0 \<and> (\<forall>e\<in>set (cached a). map_option (\<lambda>x. (cl_key x, cl_hash x)) (a_cells a e) \<noteq> Some (key, hash)) \<or>
   a_find key hash a \<in> set (cached a) \<and>
     map_option (\<lambda>x. (cl_key x, cl_hash x)) (a_cells a (a_find key hash a)) = Some (key, hash)"
proof -
  let ?P = "\<lambda>e. case a_cells a e of None \<Rightarrow> False | Some x \<Rightarrow> cl_key x = key \<and> cl_hash x = hash"
  have P: "?P e \<longleftrightarrow> map_option (\<lambda>x. (cl_key x, cl_hash x)) (a_cells a e) = Some (key, hash)" for e
    by (simp split: option.split)
  show ?thesis
  proof (cases "find ?P (cached a)")
    case None
    then have "a_find key hash a = 0" by (simp only: a_find_def option.case)
    moreover have "\<forall>e\<in>set (cached a). \<not> ?P e" using None by (simp only: find_None_iff) blast
    ultimately show ?thesis unfolding P by blast
  next
    case (Some e)
    then have "a_find key hash a = e" by (simp only: a_find_def option.case)
    moreover have "e \<in> set (cached a) \<and> ?P e" using Some by (simp only: find_Some_iff) (metis nth_mem)
    ultimately show ?thesis unfolding P by blast
  qed
qed

lemma a_find_0:
  assumes "a_wf a"
  shows "a_find key hash a = 0 \<longleftrightarrow>
    (\<forall>e\<in>set (cached a). map_option (\<lambda>x. (cl_key x, cl_hash x)) (a_cells a e) \<noteq> Some (key, hash))"
proof -
  have "0 \<notin> set (cached a)" using a_wf_heads [OF assms, of 0] by fastforce
  then show ?thesis using a_find_cases [of key hash a] by fastforce
qed

lemma a_find_cached:
  assumes "a_find key hash a \<noteq> 0"
  shows "a_find key hash a \<in> set (cached a) \<and>
    map_option (\<lambda>x. (cl_key x, cl_hash x)) (a_cells a (a_find key hash a)) = Some (key, hash)"
  using a_find_cases [of key hash a] assms by blast

lemma cached_khash:
  assumes "cache_rel S c a" and "e \<in> set (cached a)"
  shows "khash (lc_handles c) e = map_option (\<lambda>x. (cl_key x, cl_hash x)) (a_cells a e)"
proof -
  have "2 < e" using assms a_wf_heads by (auto simp: cache_rel_def simp del: set_append)
  then show ?thesis using assms(1) khash_cell by (auto simp: cache_rel_def)
qed

lemma keys_differ:
  assumes "cache_rel (set (cached a)) c a" and "e \<in> set (cached a)" and "e' \<in> set (cached a)"
    and "khash (lc_handles c) e = khash (lc_handles c) e'"
  shows "e = e'"
proof -
  have "inj_on (khash (lc_handles c)) (set (cached a))" using assms(1) by (auto simp: cache_rel_def table_ok_def)
  then show ?thesis using assms(2-4) by (meson inj_onD)
qed

text \<open>What the table finds for a key is what the machine finds.\<close>

lemma find_unique:
  assumes rel: "cache_rel (set (cached a)) c a"
    and e: "if e = 0 then \<forall>x\<in>set (cached a). khash (lc_handles c) x \<noteq> Some (key, hash)
      else e \<in> set (cached a) \<and> khash (lc_handles c) e = Some (key, hash)"
  shows "a_find key hash a = e"
proof (cases "e = 0")
  case True
  have w: "a_wf a" using rel by (simp add: cache_rel_def)
  have "\<forall>x\<in>set (cached a). map_option (\<lambda>x. (cl_key x, cl_hash x)) (a_cells a x) \<noteq> Some (key, hash)"
    using e True cached_khash [OF rel] by (simp del: set_append)
  then show ?thesis using a_find_0 [OF w, of key hash] True by simp
next
  case False
  have w: "a_wf a" using rel by (simp add: cache_rel_def)
  have k: "e \<in> set (cached a)" "khash (lc_handles c) e = Some (key, hash)" using e False by simp_all
  then have "a_find key hash a \<noteq> 0" using a_find_0 [OF w, of key hash] cached_khash [OF rel k(1)] by auto
  then have "a_find key hash a \<in> set (cached a)" "khash (lc_handles c) (a_find key hash a) = Some (key, hash)"
    using a_find_cached [of key hash a] cached_khash [OF rel] by auto
  then show ?thesis using keys_differ [OF rel] k by simp
qed

lemma lru_Lookup_rel:
  assumes rel: "cache_rel (set (cached a)) c a" and few: "a_held a (a_find key hash a) + 2 < 2 ^ 32"
  shows "\<exists>c'. lru_Lookup key hash c = Some (a_find key hash a, c') \<and>
    (let e = a_find key hash a; a' = if e = 0 then a else a_take e a in cache_rel (set (cached a')) c' a')"
proof -
  obtain B where B: "table_ok (lc_handles c) (lc_table c) B" "set (concat B) = set (cached a)" using rel by (auto simp: cache_rel_def)
  obtain e where e: "ht_Lookup key hash (lc_handles c) (lc_table c) = Some e"
    "if e = 0 then \<forall>x\<in>set (cached a). khash (lc_handles c) x \<noteq> Some (key, hash)
      else e \<in> set (cached a) \<and> khash (lc_handles c) e = Some (key, hash)"
    using ht_Lookup_table [OF B(1), of key hash] unfolding B(2) by blast
  have f: "a_find key hash a = e" by (rule find_unique [OF rel e(2)])
  show ?thesis
  proof (cases "e = 0")
    case True
    then show ?thesis using rel e(1) f by (simp add: lru_Lookup_def)
  next
    case False
    then have c: "e \<in> set (cached a)" using e(2) by simp
    have w: "a_wf a" using rel by (simp add: cache_rel_def)
    obtain c' where "lru_Ref e c = Some c'" "cache_rel (set (cached a)) c' (a_take e a)"
      using lru_Ref_rel [OF rel c] few f by blast
    then show ?thesis using e(1) f False cached_take [OF w c] by (simp add: lru_Lookup_def Let_def del: set_append)
  qed
qed

lemma same_views_rings: "same_views hs hs' \<Longrightarrow> ring hs a xs \<Longrightarrow> ring hs' a xs"
  by (rule ring_frame) (simp_all add: same_views_def)

lemma cache_rel_table:
  assumes rel: "cache_rel S c a" and same: "same_views (lc_handles c) hs" and tab: "table_ok hs t B"
  shows "cache_rel (set (concat B)) (c\<lparr>lc_handles := hs, lc_table := t\<rparr>) a"
  using rel tab same_views_rings [OF same] same same_views_dom [OF same, of 0]
  by (auto simp: cache_rel_def same_views_def simp del: set_concat)

lemma lru_Erase_rel:
  assumes rel: "cache_rel (set (cached a)) c a"
  shows "\<exists>c'. lru_Erase key hash c = Some c' \<and> cache_rel (set (cached (a_erase key hash a))) c' (a_erase key hash a)"
proof -
  obtain B where B: "table_ok (lc_handles c) (lc_table c) B" "set (concat B) = set (cached a)" using rel by (auto simp: cache_rel_def)
  obtain e hs t B' where r: "ht_Remove key hash (lc_handles c) (lc_table c) = Some (e, hs, t)" "table_ok hs t B'"
    "same_views (lc_handles c) hs"
    "if e = 0 then B' = B \<and> (\<forall>x\<in>set (concat B). khash (lc_handles c) x \<noteq> Some (key, hash))
     else e \<in> set (concat B) \<and> khash (lc_handles c) e = Some (key, hash) \<and> set (concat B') = set (concat B) - {e}"
    using ht_Remove_table [OF B(1), of key hash] by metis
  have f: "a_find key hash a = e" by (rule find_unique [OF rel]) (use r(4) B(2) in \<open>simp del: set_concat set_append split: if_splits\<close>)
  let ?c = "c\<lparr>lc_handles := hs, lc_table := t\<rparr>"
  have rel': "cache_rel (set (concat B')) ?c a" by (rule cache_rel_table [OF rel r(3,2)])
  show ?thesis
  proof (cases "e = 0")
    case True
    then show ?thesis using rel' r(1,4) B(2) f by (simp add: lru_Erase_def FinishErase_def a_erase_def del: set_concat)
  next
    case False
    then have "e \<in> set (concat B)" and "set (concat B') = set (concat B) - {e}" using r(4) by simp_all
    then have e: "e \<in> set (cached a)" and "set (concat B') = set (cached a) - {e}" unfolding B(2) .
    then have "cache_rel (set (cached a) - {e}) ?c a" using rel' by simp
    from FinishErase_rel [OF this e] show ?thesis using r(1) f False by (auto simp: lru_Erase_def a_erase_def)
  qed
qed

end
