(* ===== verification/LdbCacheTheorems.thy ===== *)
theory LdbCacheTheorems
  imports LdbCacheErase
begin

text \<open>
  The operations of the cache against the machine, runs of operations, and the theorems about the cache.
\<close>

section \<open>Eviction\<close>

lemma ring_head:
  assumes "ring hs a xs"
  shows "\<exists>l. hs a = Some l \<and> h_next l = (case xs of [] \<Rightarrow> a | x # _ \<Rightarrow> x)"
proof -
  have "nx hs a = Some (case xs of [] \<Rightarrow> a | x # _ \<Rightarrow> x)"
    using assms by (cases xs) (simp_all add: ring_def joined_def)
  then show ?thesis by (auto simp: nx_def)
qed

lemma rel_head:
  assumes "cache_rel S c a"
  shows "\<exists>l. lc_handles c 1 = Some l \<and> h_next l = (case a_lru a of [] \<Rightarrow> 1 | x # _ \<Rightarrow> x)"
  using assms by (intro ring_head) (simp add: cache_rel_def)

lemma erase_oldest_rel:
  assumes rel: "cache_rel (set (cached a)) c a" and l: "a_lru a = e # es"
  shows "\<exists>c'. erase_oldest c = Some c' \<and> cache_rel (set (cached (a_drop e a))) c' (a_drop e a)"
proof -
  have w: "a_wf a" using rel by (simp add: cache_rel_def)
  have e: "e \<in> set (cached a)" using l by simp
  obtain cl where cl: "a_cells a e = Some cl" using cached_cell [OF w e] by blast
  obtain x where x: "lc_handles c e = Some x" "h_key x = cl_key cl" "h_hash x = cl_hash cl" "2 < e"
    using rel_node [OF rel cl] by blast
  obtain h where h: "lc_handles c 1 = Some h" "h_next h = e" using rel_head [OF rel] l by auto
  have "a_find (cl_key cl) (cl_hash cl) a = e"
    by (rule find_unique [OF rel]) (use x e cl cached_khash [OF rel e] in simp)
  then have "a_erase (cl_key cl) (cl_hash cl) a = a_drop e a" using x(4) by (simp add: a_erase_def Let_def)
  then show ?thesis using lru_Erase_rel [OF rel, of "cl_key cl" "cl_hash cl"] h x by (simp add: erase_oldest_def)
qed

lemma lru_not_head: "cache_rel S c a \<Longrightarrow> e \<in> set (cached a) \<Longrightarrow> e \<noteq> 1"
  using a_wf_heads [of a e] by (auto simp: cache_rel_def)

lemma evict_rel:
  "cache_rel (set (cached a)) c a \<Longrightarrow>
    \<exists>c'. evict c = Some c' \<and> cache_rel (set (cached (a_evict a))) c' (a_evict a) \<and>
      (a_usage (a_evict a) \<le> a_capacity (a_evict a) \<or> a_lru (a_evict a) = [])"
proof (induction a arbitrary: c rule: a_evict.induct)
  case (1 a)
  have u: "lc_usage c = a_usage a" "lc_capacity c = a_capacity a" using 1(2) by (simp_all add: cache_rel_def)
  obtain h where h: "lc_handles c 1 = Some h" "h_next h = (case a_lru a of [] \<Rightarrow> 1 | x # _ \<Rightarrow> x)" using rel_head [OF 1(2)] by blast
  show ?case
  proof (cases "a_usage a > a_capacity a \<and> a_lru a \<noteq> []")
    case True
    then obtain e es where l: "a_lru a = e # es" by (cases "a_lru a") auto
    have ne: "e \<noteq> 1" using lru_not_head [OF 1(2), of e] l by simp
    obtain c1 where c1: "erase_oldest c = Some c1" "cache_rel (set (cached (a_drop e a))) c1 (a_drop e a)"
      using erase_oldest_rel [OF 1(2) l] by blast
    have s: "a_evict a = a_evict (a_drop e a)" using True l by (subst a_evict.simps) simp
    have "evict c = evict c1" using True l h ne u c1(1) by (subst evict.simps) simp
    then show ?thesis using 1(1) [OF True, of c1] l c1(2) s by simp
  next
    case False
    then have "a_evict a = a" by (subst a_evict.simps) auto
    moreover have "evict c = Some c" using False h u by (subst evict.simps) (cases "a_lru a"; auto)
    ultimately show ?thesis using 1(2) False by auto
  qed
qed

lemma lru_Prune_rel:
  "cache_rel (set (cached a)) c a \<Longrightarrow>
    \<exists>c'. lru_Prune c = Some c' \<and> cache_rel (set (cached (a_prune a))) c' (a_prune a)"
proof (induction a arbitrary: c rule: a_prune.induct)
  case (1 a)
  obtain h where h: "lc_handles c 1 = Some h" "h_next h = (case a_lru a of [] \<Rightarrow> 1 | x # _ \<Rightarrow> x)" using rel_head [OF 1(2)] by blast
  show ?case
  proof (cases "a_lru a")
    case Nil
    then have "a_prune a = a" by (subst a_prune.simps) simp
    moreover have "lru_Prune c = Some c" using Nil h by (subst lru_Prune.simps) simp
    ultimately show ?thesis using 1(2) by simp
  next
    case (Cons e es)
    have ne: "e \<noteq> 1" using lru_not_head [OF 1(2), of e] Cons by simp
    obtain c1 where c1: "erase_oldest c = Some c1" "cache_rel (set (cached (a_drop e a))) c1 (a_drop e a)"
      using erase_oldest_rel [OF 1(2) Cons] by blast
    have s: "a_prune a = a_prune (a_drop e a)" using Cons by (subst a_prune.simps) simp
    have "lru_Prune c = lru_Prune c1" using Cons h ne c1(1) by (subst lru_Prune.simps) simp
    then show ?thesis using 1(1) [of c1] Cons c1(2) s by simp
  qed
qed

section \<open>Insertion\<close>

lemma free_not_cached: "a_wf a \<Longrightarrow> a_cells a e = None \<Longrightarrow> e \<notin> set (cached a)"
  using cached_cell by fastforce

lemma a_wf_add:
  assumes w: "a_wf a" and e: "2 < e" "a_cells a e = None"
  shows "a_wf (a_add e key hash val charge a)"
proof -
  have "e \<notin> set (cached a)" using free_not_cached [OF w e(2)] .
  then show ?thesis using w e unfolding a_wf_def a_add_def by auto
qed

lemma usage_add:
  assumes w: "a_wf a" and e: "a_cells a e = None"
  shows "a_usage (a_add e key hash val charge a) = (if a_capacity a > 0 then a_usage a + charge else a_usage a)"
proof -
  have out: "e \<notin> set (cached a)" using free_not_cached [OF w e] .
  let ?a = "a_add e key hash val charge a"
  have m: "map (charge_of ?a) (cached a) = map (charge_of a) (cached a)"
    using out by (intro map_cong refl) (auto simp: charge_of_def a_add_def)
  have c: "cached ?a = cached a @ (if a_capacity a > 0 then [e] else [])" by (simp add: a_add_def)
  have "charge_of ?a e = charge" by (simp add: charge_of_def a_add_def)
  then show ?thesis
    unfolding a_usage_def c map_append [of _ "cached a"] m sum_list_append [of "map _ (cached a)"] by simp
qed

lemma cell_info_add:
  assumes w: "a_wf a" and e: "a_cells a e = None"
  shows "cell_info (a_add e key hash val charge a) = (cell_info a)(e :=
    Some (key, hash, val, charge, a_capacity a > 0, of_nat (if a_capacity a > 0 then 2 else 1)))"
  using free_not_cached [OF w e] by (auto simp: cell_info_def a_add_def fun_eq_iff)

text \<open>A new entry in the heap, linked into the list of entries in use.\<close>

lemma append_new:
  assumes rel: "cache_rel S c a" and e: "2 < e" "a_cells a e = None"
  shows "\<exists>hs. LRU_Append in_use_head e ((lc_handles c)(e \<mapsto> x)) = Some hs \<and> ring hs 1 (a_lru a) \<and> ring hs 2 (a_used a @ [e]) \<and>
    nxh hs = (nxh (lc_handles c))(e := Some (h_next_hash x)) \<and>
    info hs = (info (lc_handles c))(e := Some (h_key x, h_hash x, h_value x, h_charge x, h_in_cache x, h_refs x))"
proof -
  let ?hs = "lc_handles c" and ?hs1 = "(lc_handles c)(e \<mapsto> x)"
  have w: "a_wf a" and r: "ring ?hs 1 (a_lru a)" "ring ?hs 2 (a_used a)" using rel by (simp_all add: cache_rel_def)
  have out: "e \<notin> set (a_lru a)" "e \<notin> set (a_used a)" using free_not_cached [OF w e(2)] by simp_all
  have v: "nx ?hs1 r = nx ?hs r \<and> pv ?hs1 r = pv ?hs r" if "r \<noteq> e" for r using that by (simp add: views)
  have r1: "ring ?hs1 1 (a_lru a)" by (rule ring_frame [OF r(1)]) (use out(1) e(1) in \<open>auto intro!: v\<close>)
  have r2: "ring ?hs1 2 (a_used a)" by (rule ring_frame [OF r(2)]) (use out(2) e(1) in \<open>auto intro!: v\<close>)
  have "e \<notin> insert 2 (set (a_used a))" "?hs1 e \<noteq> None" using out(2) e(1) by auto
  from LRU_Append_ring [OF r2 this] obtain hs where h: "LRU_Append 2 e ?hs1 = Some hs" "ring hs 2 (a_used a @ [e])"
    "nxh hs = nxh ?hs1" "info hs = info ?hs1"
    "\<forall>r. r \<notin> insert e (insert 2 (set (a_used a))) \<longrightarrow> nx hs r = nx ?hs1 r \<and> pv hs r = pv ?hs1 r" by blast
  have "r \<notin> insert e (insert 2 (set (a_used a)))" if "r \<in> insert 1 (set (a_lru a))" for r
    using that w a_wf_heads [OF w, of 2] a_wf_heads [OF w, of 1] a_wf_heads [OF w, of r] out e(1) by (auto simp: a_wf_def)
  then have "ring hs 1 (a_lru a)" using r1 h(5) by (blast intro: ring_frame)
  moreover have "nxh ?hs1 = (nxh ?hs)(e := Some (h_next_hash x))"
    "info ?hs1 = (info ?hs)(e := Some (h_key x, h_hash x, h_value x, h_charge x, h_in_cache x, h_refs x))"
    by (auto simp: views fun_eq_iff)
  ultimately show ?thesis using h by metis
qed

text \<open>The entry in the table as well; \<open>old\<close> is what it replaces there.\<close>

lemma table_insert_rel:
  assumes rel: "cache_rel (set (cached a)) c a" and cap: "a_capacity a > 0" and e: "2 < e" "a_cells a e = None"
    and few: "length (cached a) < 2 ^ 31" and old: "old = a_find key hash a" and a1: "a1 = a_add e key hash val charge a"
    and x: "h_key x = key" "h_hash x = hash" "h_value x = val" "h_charge x = charge" "h_in_cache x" "h_refs x = 2"
  shows "\<exists>hs hs' t'. LRU_Append in_use_head e ((lc_handles c)(e \<mapsto> x)) = Some hs \<and> ht_Insert e hs (lc_table c) = Some (old, hs', t') \<and>
    cache_rel (set (cached a1) - (if old = 0 then {} else {old}))
      (c\<lparr>lc_handles := hs', lc_table := t', lc_usage := lc_usage c + charge\<rparr>) a1"
proof -
  let ?hs = "lc_handles c"
  have w: "a_wf a" and inf: "\<forall>e>2. info ?hs e = cell_info a e" using rel by (simp_all add: cache_rel_def)
  obtain B where B: "table_ok ?hs (lc_table c) B" "set (concat B) = set (cached a)" using rel by (auto simp: cache_rel_def)
  have out: "e \<notin> set (cached a)" using free_not_cached [OF w e(2)] .
  obtain hs where h: "LRU_Append in_use_head e (?hs(e \<mapsto> x)) = Some hs" "ring hs 1 (a_lru a)" "ring hs 2 (a_used a @ [e])"
    "nxh hs = (nxh ?hs)(e := Some (h_next_hash x))" "info hs = (info ?hs)(e := Some (key, hash, val, charge, True, 2))"
    using append_new [OF rel e, of x] x by auto
  have kh: "khash hs e' = (if e' = e then Some (key, hash) else khash ?hs e')" for e' using h(5) by (simp add: khash_info)
  have ne: "e' \<noteq> e" if "e' \<in> set (concat B)" for e' using that out B(2) by metis
  have tab: "table_ok hs (lc_table c) B" by (rule table_ok_frame [OF B(1)]) (use ne kh h(4) in \<open>auto simp del: set_concat\<close>)
  have "hs e \<noteq> None" "e \<noteq> 0" using h(5) e(1) by (simp_all add: info_dom)
  moreover have "e \<notin> set (concat B)" using out B(2) by metis
  moreover have "length (concat B) < 2 ^ 31"
    using B few w by (metis a_wf_def distinct_card table_ok_def)
  ultimately obtain o' hs' t' B' where i: "ht_Insert e hs (lc_table c) = Some (o', hs', t')" "table_ok hs' t' B'" "same_views hs hs'"
    "if o' = 0 then (\<forall>x\<in>set (concat B). khash hs x \<noteq> khash hs e) \<and> set (concat B') = insert e (set (concat B))
     else o' \<in> set (concat B) \<and> khash hs o' = khash hs e \<and> set (concat B') = insert e (set (concat B) - {o'})"
    using ht_Insert_table [OF tab] by metis
  have f: "a_find key hash a = o'"
    by (rule find_unique [OF rel]) (use i(4) kh ne B(2) in \<open>auto simp del: set_concat set_append split: if_splits\<close>)
  have s1: "set (cached a1) = insert e (set (cached a))" using cap by (auto simp: a1 a_add_def)
  have SB: "set (concat B') = set (cached a1) - (if old = 0 then {} else {old})"
    using i(4) f old s1 B(2) out by (auto simp del: set_concat set_append split: if_splits)
  have "ring hs' 1 (a_lru a1)" "ring hs' 2 (a_used a1)"
    using same_views_rings [OF i(3) h(2)] same_views_rings [OF i(3) h(3)] cap by (simp_all add: a1 a_add_def)
  moreover have "info hs' e' = cell_info a1 e'" if "2 < e'" for e'
    using that i(3) h(5) inf cap unfolding a1 cell_info_add [OF w e(2)] by (simp add: same_views_def)
  moreover have "hs' 0 = None"
    using rel same_views_dom [OF i(3), of 0] h(5) e(1) by (simp add: cache_rel_def info_dom)
  moreover have "a_wf a1" "a_usage a1 = a_usage a + charge" using a_wf_add [OF w e] usage_add [OF w e(2)] cap by (simp_all add: a1)
  moreover have "a_capacity a1 = a_capacity a" "a_deleted a1 = a_deleted a" by (simp_all add: a1 a_add_def)
  ultimately have "cache_rel (set (concat B')) (c\<lparr>lc_handles := hs', lc_table := t', lc_usage := lc_usage c + charge\<rparr>) a1"
    using rel i(2) by (auto simp: cache_rel_def simp del: set_concat)
  then show ?thesis using h(1) i(1) f old SB by metis
qed

lemma lru_Insert_rel:
  assumes rel: "cache_rel (set (cached a)) c a" and e: "2 < e" "a_cells a e = None" and few: "length (cached a) < 2 ^ 31"
  shows "\<exists>c'. lru_Insert e raw key hash val charge c = Some (e, c') \<and>
    (let a' = a_insert e key hash val charge a in cache_rel (set (cached a')) c' a' \<and>
      (a_usage a' \<le> a_capacity a' \<or> a_lru a' = []))"
proof -
  let ?hs = "lc_handles c"
  let ?x = "raw\<lparr>h_value := val, h_charge := charge, h_hash := hash, h_in_cache := False, h_refs := 1, h_key := key\<rparr>"
  define a1 where "a1 = a_add e key hash val charge a"
  have w: "a_wf a" and cc: "lc_capacity c = a_capacity a" using rel by (simp_all add: cache_rel_def)
  have w1: "a_wf a1" using a_wf_add [OF w e] by (simp add: a1_def)
  have cap1: "a_capacity a1 = a_capacity a" by (simp add: a1_def a_add_def)
  show ?thesis
  proof (cases "a_capacity a > 0")
    case True
    define old where "old = a_find key hash a"
    let ?x1 = "?x\<lparr>h_refs := h_refs ?x + 1, h_in_cache := True\<rparr>"
    obtain hs hs' t' where t: "LRU_Append in_use_head e (?hs(e \<mapsto> ?x1)) = Some hs" "ht_Insert e hs (lc_table c) = Some (old, hs', t')"
      "cache_rel (set (cached a1) - (if old = 0 then {} else {old}))
        (c\<lparr>lc_handles := hs', lc_table := t', lc_usage := lc_usage c + charge\<rparr>) a1"
      using table_insert_rel [OF rel True e few old_def a1_def, of ?x1] by auto
    let ?c1 = "c\<lparr>lc_handles := hs', lc_table := t', lc_usage := lc_usage c + charge\<rparr>"
    define a2 where "a2 = (if old \<noteq> 0 then a_drop old a1 else a1)"
    have "\<exists>b c2. FinishErase old ?c1 = Some (b, c2) \<and> cache_rel (set (cached a2)) c2 a2"
    proof (cases "old = 0")
      case True
      then have "FinishErase old ?c1 = Some (False, ?c1)" "a2 = a1" by (simp_all add: FinishErase_def a2_def)
      then show ?thesis using t(3) True by auto
    next
      case False
      have "old \<in> set (cached a1)" using a_find_cached [of key hash a] False by (auto simp: old_def a1_def a_add_def)
      moreover have "cache_rel (set (cached a1) - {old}) ?c1 a1" using t(3) False by (simp del: set_append)
      ultimately obtain c2 where "FinishErase old ?c1 = Some (True, c2)" "cache_rel (set (cached (a_drop old a1))) c2 (a_drop old a1)"
        using FinishErase_rel by blast
      moreover have "a2 = a_drop old a1" using False by (simp add: a2_def)
      ultimately show ?thesis by blast
    qed
    then obtain b c2 where c2: "FinishErase old ?c1 = Some (b, c2)" "cache_rel (set (cached a2)) c2 a2" by blast
    have "a_insert e key hash val charge a = a_evict a2"
      using True by (simp add: a_insert_def Let_def a2_def old_def a1_def [symmetric] cap1)
    then show ?thesis using evict_rel [OF c2(2)] True cc t(1,2) c2(1)
      by (auto simp: lru_Insert_def set_node_def Let_def)
  next
    case False
    let ?hs1 = "?hs(e \<mapsto> ?x\<lparr>h_next := 0\<rparr>)"
    have out: "e \<notin> set (cached a)" using free_not_cached [OF w e(2)] .
    have r: "ring ?hs 1 (a_lru a)" "ring ?hs 2 (a_used a)" and inf: "\<forall>e>2. info ?hs e = cell_info a e"
      using rel by (simp_all add: cache_rel_def)
    obtain B where B: "table_ok ?hs (lc_table c) B" "set (concat B) = set (cached a)" using rel by (auto simp: cache_rel_def)
    have v: "nx ?hs1 r = nx ?hs r \<and> pv ?hs1 r = pv ?hs r" "nxh ?hs1 r = nxh ?hs r" "info ?hs1 r = info ?hs r" if "r \<noteq> e" for r
      using that by (simp_all add: views)
    have "ring ?hs1 1 (a_lru a)" by (rule ring_frame [OF r(1)]) (use out e(1) in \<open>auto intro!: v\<close>)
    moreover have "ring ?hs1 2 (a_used a)" by (rule ring_frame [OF r(2)]) (use out e(1) in \<open>auto intro!: v\<close>)
    moreover have "nxh ?hs1 r = nxh ?hs r \<and> khash ?hs1 r = khash ?hs r" if "r \<in> set (concat B)" for r
    proof -
      have "r \<noteq> e" using that out unfolding B(2) by blast
      then show ?thesis using v(2,3) by (simp add: khash_info)
    qed
    then have "table_ok ?hs1 (lc_table c) B" by (rule table_ok_frame [OF B(1)])
    moreover have "info ?hs1 e' = cell_info a1 e'" if "2 < e'" for e'
      using that inf False v(3) unfolding a1_def cell_info_add [OF w e(2)] by (auto simp: info_def)
    moreover have "cached a1 = cached a" "a_lru a1 = a_lru a" "a_used a1 = a_used a" "a_deleted a1 = a_deleted a"
      using False by (simp_all add: a1_def a_add_def)
    moreover have "a_usage a1 = a_usage a" using usage_add [OF w e(2)] False by (simp add: a1_def)
    moreover have "?hs1 0 = None" using rel e(1) by (simp add: cache_rel_def)
    ultimately have "cache_rel (set (cached a1)) (c\<lparr>lc_handles := ?hs1\<rparr>) a1"
      using rel B(2) w1 cap1 by (auto simp: cache_rel_def simp del: set_concat)
    moreover have "a_insert e key hash val charge a = a_evict a1" using False by (simp add: a_insert_def Let_def a1_def [symmetric] cap1)
    moreover obtain c' where "evict (c\<lparr>lc_handles := ?hs1\<rparr>) = Some c'" "cache_rel (set (cached (a_evict a1))) c' (a_evict a1)"
      "a_usage (a_evict a1) \<le> a_capacity (a_evict a1) \<or> a_lru (a_evict a1) = []" using evict_rel calculation(1) by blast
    moreover from this(1) have "lru_Insert e raw key hash val charge c = Some (e, c')"
      using False cc by (simp add: lru_Insert_def set_node_def Let_def)
    ultimately show ?thesis by (simp del: set_append)
  qed
qed

section \<open>Runs of operations\<close>

text \<open>An operation of a client, with the address and the block that \<open>malloc\<close> returns to an insertion.\<close>

datatype 'v cache_op =
    Insert_op nat "'v lru_handle" "u8 list" u32 'v u64
  | Lookup_op "u8 list" u32
  | Release_op nat
  | Erase_op "u8 list" u32
  | Prune_op

primrec cache_step :: "'v cache_op \<Rightarrow> 'v lru_cache \<Rightarrow> (nat \<times> 'v lru_cache) option" where
  "cache_step (Insert_op e raw key hash val charge) c = lru_Insert e raw key hash val charge c"
| "cache_step (Lookup_op key hash) c = lru_Lookup key hash c"
| "cache_step (Release_op e) c = map_option (Pair 0) (lru_Release e c)"
| "cache_step (Erase_op key hash) c = map_option (Pair 0) (lru_Erase key hash c)"
| "cache_step Prune_op c = map_option (Pair 0) (lru_Prune c)"

primrec cache_run :: "'v cache_op list \<Rightarrow> 'v lru_cache \<Rightarrow> (nat list \<times> 'v lru_cache) option" where
  "cache_run [] c = Some ([], c)"
| "cache_run (op # ops) c = do { (r, c) \<leftarrow> cache_step op c; (rs, c) \<leftarrow> cache_run ops c; Some (r # rs, c) }"

primrec a_step :: "'v cache_op \<Rightarrow> 'v acache \<Rightarrow> nat \<times> 'v acache" where
  "a_step (Insert_op e raw key hash val charge) a = (e, a_insert e key hash val charge a)"
| "a_step (Lookup_op key hash) a = (let e = a_find key hash a in (e, if e = 0 then a else a_take e a))"
| "a_step (Release_op e) a = (0, a_release e a)"
| "a_step (Erase_op key hash) a = (0, a_erase key hash a)"
| "a_step Prune_op a = (0, a_prune a)"

primrec a_run :: "'v cache_op list \<Rightarrow> 'v acache \<Rightarrow> nat list \<times> 'v acache" where
  "a_run [] a = ([], a)"
| "a_run (op # ops) a = (let (r, a) = a_step op a; (rs, a) = a_run ops a in (r # rs, a))"

text \<open>
  A client releases only handles it holds, \<open>malloc\<close> returns a free address, and counters of 32 bits do not
  overflow: fewer than 2^31 entries in a shard, and fewer than 2^32 - 2 handles to one of them.
\<close>

primrec a_allows :: "'v cache_op \<Rightarrow> 'v acache \<Rightarrow> bool" where
  "a_allows (Insert_op e raw key hash val charge) a \<longleftrightarrow> 2 < e \<and> a_cells a e = None \<and> length (cached a) < 2 ^ 31"
| "a_allows (Lookup_op key hash) a \<longleftrightarrow> a_held a (a_find key hash a) + 2 < 2 ^ 32"
| "a_allows (Release_op e) a \<longleftrightarrow> 0 < a_held a e"
| "a_allows (Erase_op key hash) a \<longleftrightarrow> True"
| "a_allows Prune_op a \<longleftrightarrow> True"

primrec a_allowed :: "'v cache_op list \<Rightarrow> 'v acache \<Rightarrow> bool" where
  "a_allowed [] a \<longleftrightarrow> True"
| "a_allowed (op # ops) a \<longleftrightarrow> a_allows op a \<and> a_allowed ops (snd (a_step op a))"

lemma cache_step_rel:
  assumes "cache_rel (set (cached a)) c a" and "a_allows op a"
  shows "\<exists>c'. cache_step op c = Some (fst (a_step op a), c') \<and>
    cache_rel (set (cached (snd (a_step op a)))) c' (snd (a_step op a))"
proof (cases op)
  case (Insert_op e raw key hash val charge)
  then show ?thesis using lru_Insert_rel [OF assms(1), of e raw key hash val charge] assms(2) by (auto simp: Let_def)
next
  case (Lookup_op key hash)
  then show ?thesis using lru_Lookup_rel [OF assms(1), of key hash] assms(2) by (auto simp: Let_def)
next
  case (Release_op e)
  then show ?thesis using lru_Release_rel [OF assms(1), of e] assms(2) by auto
next
  case (Erase_op key hash)
  then show ?thesis using lru_Erase_rel [OF assms(1), of key hash] by auto
next
  case Prune_op
  then show ?thesis using lru_Prune_rel [OF assms(1)] by auto
qed

lemma cache_run_rel:
  "cache_rel (set (cached a)) c a \<Longrightarrow> a_allowed ops a \<Longrightarrow>
    \<exists>c'. cache_run ops c = Some (fst (a_run ops a), c') \<and> cache_rel (set (cached (snd (a_run ops a)))) c' (snd (a_run ops a))"
proof (induction ops arbitrary: a c)
  case Nil
  then show ?case by simp
next
  case (Cons op ops)
  obtain c1 where c1: "cache_step op c = Some (fst (a_step op a), c1)"
    "cache_rel (set (cached (snd (a_step op a)))) c1 (snd (a_step op a))" using cache_step_rel [OF Cons.prems(1)] Cons.prems(2) by auto
  obtain c2 where "cache_run ops c1 = Some (fst (a_run ops (snd (a_step op a))), c2)"
    "cache_rel (set (cached (snd (a_run ops (snd (a_step op a)))))) c2 (snd (a_run ops (snd (a_step op a))))"
    using Cons.IH [OF c1(2)] Cons.prems(2) by auto
  then show ?case using c1(1) by (auto simp: Let_def split_beta)
qed

lemma new_cache_rel:
  "\<exists>c. new_LRUCache raw1 raw2 = Some c \<and> cache_rel (set (cached (a_new cap))) (SetCapacity cap c) (a_new cap)"
proof -
  let ?hs = "[lru_head \<mapsto> raw1\<lparr>h_next := lru_head, h_prev := lru_head\<rparr>,
    in_use_head \<mapsto> raw2\<lparr>h_next := in_use_head, h_prev := in_use_head\<rparr>]"
  obtain t B where t: "new_HandleTable ?hs = Some (?hs, t)" "table_ok ?hs t B" "concat B = []" using new_HandleTable_ok by blast
  have "ring ?hs 1 []" "ring ?hs 2 []" by (simp_all add: ring_def joined_def views)
  then have "cache_rel {} (SetCapacity cap \<lparr>lc_capacity = 0, lc_usage = 0, lc_handles = ?hs, lc_table = t, lc_deleted = []\<rparr>) (a_new cap)"
    using t(2,3) by (auto simp: cache_rel_def a_wf_def a_new_def SetCapacity_def a_usage_def cell_info_def info_def simp del: set_concat)
  then show ?thesis using t(1) by (simp add: new_LRUCache_def Let_def a_new_def)
qed

section \<open>Destruction\<close>

definition cell_pair :: "'v acache \<Rightarrow> nat \<Rightarrow> u8 list \<times> 'v" where
  "cell_pair a e = (case a_cells a e of None \<Rightarrow> undefined | Some x \<Rightarrow> (cl_key x, cl_value x))"

lemma destroy_loop_nodes:
  assumes "distinct xs" and "lru_head \<notin> set xs" and "p = (case xs of [] \<Rightarrow> lru_head | x # _ \<Rightarrow> x)"
    and "seg hs q xs lru_head" and "\<And>e. e \<in> set xs \<Longrightarrow> lc_handles c e \<noteq> None \<and> nx (lc_handles c) e = nx hs e \<and>
      (\<exists>charge h. info (lc_handles c) e = Some (fst (kv e), h, snd (kv e), charge, True, 1))"
  shows "\<exists>c'. destroy_loop p c = Some c' \<and> lc_deleted c' = lc_deleted c @ map kv xs"
  using assms
proof (induction xs arbitrary: p q c)
  case Nil
  then show ?case by (subst destroy_loop.simps) simp
next
  case (Cons e es)
  obtain x where x: "lc_handles c e = Some x" "nx (lc_handles c) e = nx hs e" "h_refs x = 1" "h_key x = fst (kv e)"
    "h_value x = snd (kv e)" using Cons.prems(5) [of e] by (auto simp: info_def)
  have nxt: "h_next x = (case es of [] \<Rightarrow> lru_head | y # _ \<Rightarrow> y)"
    using Cons.prems(4) x(1,2) by (cases es) (auto simp: joined_def nx_def)
  let ?c = "c\<lparr>lc_handles := (lc_handles c)(e := None), lc_deleted := lc_deleted c @ [kv e]\<rparr>"
  have step: "destroy_loop p c = destroy_loop (h_next x) ?c"
    using Cons.prems(2,3) x by (subst destroy_loop.simps) (simp add: set_node_def lru_Unref_def)
  have "lc_handles ?c e' \<noteq> None \<and> nx (lc_handles ?c) e' = nx hs e' \<and>
      (\<exists>charge h. info (lc_handles ?c) e' = Some (fst (kv e'), h, snd (kv e'), charge, True, 1))" if "e' \<in> set es" for e'
  proof -
    have "e' \<noteq> e" using that Cons.prems(1) by auto
    then show ?thesis using Cons.prems(5) [of e'] that by (auto simp: views)
  qed
  from Cons.IH [OF _ _ nxt _ this] obtain c' where
    "destroy_loop (h_next x) ?c = Some c'" "lc_deleted c' = lc_deleted ?c @ map kv es"
    using Cons.prems(1,2,4) by auto
  then show ?case using step by simp
qed

lemma delete_LRUCache_rel:
  assumes rel: "cache_rel S c a"
  shows "\<exists>c'. delete_LRUCache c = Some c' \<and> lc_deleted c' = a_deleted a @ map (cell_pair a) (a_lru a)"
proof -
  have w: "a_wf a" and r: "ring (lc_handles c) 1 (a_lru a)" and dl: "lc_deleted c = a_deleted a" using rel by (simp_all add: cache_rel_def)
  obtain l where l: "lc_handles c 1 = Some l" "h_next l = (case a_lru a of [] \<Rightarrow> 1 | x # _ \<Rightarrow> x)" using rel_head [OF rel] by blast
  have node: "lc_handles c e \<noteq> None \<and> nx (lc_handles c) e = nx (lc_handles c) e \<and>
      (\<exists>charge h. info (lc_handles c) e = Some (fst (cell_pair a e), h, snd (cell_pair a e), charge, True, 1))"
    if e: "e \<in> set (a_lru a)" for e
  proof -
    obtain cl where cl: "a_cells a e = Some cl" using cached_cell [OF w, of e] e by auto
    have "a_held a e = 0" using w e by (simp add: a_wf_def)
    then show ?thesis using rel_node [OF rel cl] e cl by (auto simp: info_def cell_pair_def)
  qed
  have "distinct (a_lru a)" "lru_head \<notin> set (a_lru a)" "seg (lc_handles c) 1 (a_lru a) lru_head"
    using r by (simp_all add: ring_def)
  from destroy_loop_nodes [where kv = "cell_pair a", OF this(1,2) l(2) this(3) node]
  show ?thesis using l(1) dl by (simp add: delete_LRUCache_def)
qed

section \<open>Each value is deleted once\<close>

definition live :: "'v acache \<Rightarrow> (u8 list \<times> 'v) multiset" where
  "live a = image_mset (cell_pair a) (mset_set (dom (a_cells a)))"

definition given :: "'v acache \<Rightarrow> (u8 list \<times> 'v) multiset" where
  "given a = mset (a_deleted a) + live a"

lemma live_cong: "a_cells a' = a_cells a \<Longrightarrow> live a' = live a"
  by (simp add: live_def cell_pair_def [abs_def])

lemma given_free:
  assumes fin: "finite (dom (a_cells a))"
  shows "given (a_free e a) = given a \<and> finite (dom (a_cells (a_free e a)))"
proof (cases "a_cells a e")
  case None
  then show ?thesis using fin by (simp add: a_free_def)
next
  case (Some x)
  have cells: "a_cells (a_free e a) = (a_cells a)(e := None)" using Some by (simp add: a_free_def)
  have "mset_set (dom (a_cells a)) = add_mset e (mset_set (dom (a_cells a) - {e}))"
    using Some fin by (intro mset_set.remove) auto
  moreover have "image_mset (cell_pair (a_free e a)) (mset_set (dom (a_cells a) - {e})) =
      image_mset (cell_pair a) (mset_set (dom (a_cells a) - {e}))"
    using fin by (intro image_mset_cong) (auto simp: cell_pair_def cells)
  ultimately have "live a = add_mset (cell_pair a e) (live (a_free e a))" by (simp add: live_def cells)
  then show ?thesis using Some fin by (simp add: given_def a_free_def cell_pair_def)
qed

lemma given_cong: "a_cells a' = a_cells a \<Longrightarrow> a_deleted a' = a_deleted a \<Longrightarrow> given a' = given a"
  using live_cong [of a' a] by (simp add: given_def)

lemma given_drop:
  assumes "finite (dom (a_cells a))"
  shows "given (a_drop e a) = given a \<and> finite (dom (a_cells (a_drop e a)))"
  using assms given_free [of "a\<lparr>a_lru := remove1 e (a_lru a), a_used := remove1 e (a_used a)\<rparr>" e]
    given_cong [of "a\<lparr>a_lru := remove1 e (a_lru a), a_used := remove1 e (a_used a)\<rparr>" a]
  by (simp add: a_drop_def Let_def)

lemma given_evict: "finite (dom (a_cells a)) \<Longrightarrow> given (a_evict a) = given a \<and> finite (dom (a_cells (a_evict a)))"
proof (induction a rule: a_evict.induct)
  case (1 a)
  show ?case
  proof (cases "a_usage a > a_capacity a \<and> a_lru a \<noteq> []")
    case True
    then have "a_evict a = a_evict (a_drop (hd (a_lru a)) a)" by (subst a_evict.simps) simp
    then show ?thesis using 1(1) [OF True] given_drop [OF 1(2), of "hd (a_lru a)"] by simp
  next
    case False
    then have "a_evict a = a" by (subst a_evict.simps) auto
    then show ?thesis using 1(2) by simp
  qed
qed

lemma given_prune: "finite (dom (a_cells a)) \<Longrightarrow> given (a_prune a) = given a \<and> finite (dom (a_cells (a_prune a)))"
proof (induction a rule: a_prune.induct)
  case (1 a)
  show ?case
  proof (cases "a_lru a \<noteq> []")
    case True
    then have "a_prune a = a_prune (a_drop (hd (a_lru a)) a)" by (subst a_prune.simps) simp
    then show ?thesis using 1(1) [OF True] given_drop [OF 1(2), of "hd (a_lru a)"] by simp
  next
    case False
    then have "a_prune a = a" by (subst a_prune.simps) auto
    then show ?thesis using 1(2) by simp
  qed
qed

lemma given_add:
  assumes fin: "finite (dom (a_cells a))" and e: "a_cells a e = None"
  shows "given (a_add e key hash val charge a) = add_mset (key, val) (given a) \<and> finite (dom (a_cells (a_add e key hash val charge a)))"
proof -
  let ?a = "a_add e key hash val charge a"
  have "dom (a_cells ?a) = insert e (dom (a_cells a))" by (simp add: a_add_def)
  moreover have "mset_set (insert e (dom (a_cells a))) = add_mset e (mset_set (dom (a_cells a)))"
    using fin e by (intro mset_set.insert) auto
  moreover have "image_mset (cell_pair ?a) (mset_set (dom (a_cells a))) = image_mset (cell_pair a) (mset_set (dom (a_cells a)))"
    using fin e by (intro image_mset_cong) (auto simp: cell_pair_def a_add_def)
  moreover have "cell_pair ?a e = (key, val)" by (simp add: cell_pair_def a_add_def)
  ultimately show ?thesis using fin by (simp add: given_def live_def) (simp add: a_add_def)
qed

primrec op_pairs :: "'v cache_op \<Rightarrow> (u8 list \<times> 'v) list" where
  "op_pairs (Insert_op e raw key hash val charge) = [(key, val)]"
| "op_pairs (Lookup_op key hash) = []"
| "op_pairs (Release_op e) = []"
| "op_pairs (Erase_op key hash) = []"
| "op_pairs Prune_op = []"

lemma given_release:
  assumes "finite (dom (a_cells a))"
  shows "given (a_release e a) = given a \<and> finite (dom (a_cells (a_release e a)))"
  using assms given_free [of "a\<lparr>a_held := (a_held a)(e := a_held a e - 1)\<rparr>" e]
    given_cong [of "a\<lparr>a_held := (a_held a)(e := a_held a e - 1)\<rparr>" a]
    given_cong [of "a_release e a" a]
  by (auto simp: a_release_def Let_def)

lemma given_insert:
  assumes "finite (dom (a_cells a))" and "a_cells a e = None"
  shows "given (a_insert e key hash val charge a) = add_mset (key, val) (given a) \<and>
    finite (dom (a_cells (a_insert e key hash val charge a)))"
proof -
  let ?a = "a_add e key hash val charge a"
  let ?b = "if a_capacity ?a > 0 \<and> a_find key hash a \<noteq> 0 then a_drop (a_find key hash a) ?a else ?a"
  have a: "given ?a = add_mset (key, val) (given a)" "finite (dom (a_cells ?a))" using given_add [OF assms] by blast+
  then have "given ?b = given ?a \<and> finite (dom (a_cells ?b))" using given_drop [OF a(2)] by simp
  then show ?thesis using given_evict [of ?b] a(1) by (simp add: a_insert_def Let_def)
qed

lemma given_step:
  assumes fin: "finite (dom (a_cells a))" and "a_allows op a"
  shows "given (snd (a_step op a)) = mset (op_pairs op) + given a \<and> finite (dom (a_cells (snd (a_step op a))))"
proof (cases op)
  case (Insert_op e raw key hash val charge)
  then show ?thesis using given_insert [OF fin, of e key hash val charge] assms(2) by simp
next
  case (Lookup_op key hash)
  have "given (a_take e a) = given a" "a_cells (a_take e a) = a_cells a" for e by (auto intro: given_cong simp: a_take_def)
  then show ?thesis using Lookup_op fin by (simp add: Let_def)
next
  case (Release_op e)
  then show ?thesis using given_release [OF fin, of e] by simp
next
  case (Erase_op key hash)
  then show ?thesis using given_drop [OF fin, of "a_find key hash a"] fin by (simp add: a_erase_def Let_def)
next
  case Prune_op
  then show ?thesis using given_prune [OF fin] by simp
qed

lemma given_run:
  "finite (dom (a_cells a)) \<Longrightarrow> a_allowed ops a \<Longrightarrow>
    given (snd (a_run ops a)) = mset (concat (map op_pairs ops)) + given a"
proof (induction ops arbitrary: a)
  case Nil
  then show ?case by simp
next
  case (Cons op ops)
  have s: "given (snd (a_step op a)) = mset (op_pairs op) + given a" "finite (dom (a_cells (snd (a_step op a))))"
    using given_step [OF Cons.prems(1)] Cons.prems(2) by auto
  have "given (snd (a_run ops (snd (a_step op a)))) = mset (concat (map op_pairs ops)) + given (snd (a_step op a))"
    using Cons.IH [OF s(2)] Cons.prems(2) by simp
  then show ?case using s(1) by (simp add: split_beta Let_def ac_simps)
qed

lemma given_new [simp]: "given (a_new cap) = {#}"
  by (simp add: given_def live_def a_new_def)

lemma all_given_back:
  assumes w: "a_wf a" and none: "\<And>e. a_held a e = 0"
  shows "given a = mset (a_deleted a @ map (cell_pair a) (a_lru a))"
proof -
  have "dom (a_cells a) = set (a_lru a)" using w none by (auto simp: a_wf_def)
  moreover have "distinct (a_lru a)" using w by (simp add: a_wf_def)
  ultimately show ?thesis by (simp add: given_def live_def mset_set_set)
qed

section \<open>An example\<close>

lemma evict_more: "a_usage a > a_capacity a \<Longrightarrow> a_lru a = e # es \<Longrightarrow> a_evict a = a_evict (a_drop e a)"
  by (subst a_evict.simps) simp

lemma evict_done: "a_usage a \<le> a_capacity a \<or> a_lru a = [] \<Longrightarrow> a_evict a = a"
  by (subst a_evict.simps) auto

lemmas machine_eval = a_new_def a_insert_def a_add_def a_find_def a_release_def a_take_def a_usage_def charge_of_def a_drop_def
  a_free_def evict_more evict_done Let_def

definition example_raw :: "nat lru_handle" where
  "example_raw = \<lparr>h_value = 0, h_next_hash = 0, h_next = 0, h_prev = 0, h_charge = 0, h_in_cache = False, h_refs = 0,
     h_hash = 0, h_key = []\<rparr>"

text \<open>Capacity 1: the second insertion evicts the first entry.\<close>

definition example_ops :: "nat cache_op list" where
  "example_ops = [Insert_op 3 example_raw [1] 7 10 1, Release_op 3]"

definition example1 :: "nat acache" where
  "example1 = \<lparr>a_capacity = 1, a_cells = [3 \<mapsto> \<lparr>cl_key = [1], cl_hash = 7, cl_value = 10, cl_charge = 1\<rparr>],
     a_held = (\<lambda>_. 0)(3 := 1), a_lru = [], a_used = [3], a_deleted = []\<rparr>"

definition example2 :: "nat acache" where
  "example2 = \<lparr>a_capacity = 1, a_cells = [3 \<mapsto> \<lparr>cl_key = [1], cl_hash = 7, cl_value = 10, cl_charge = 1\<rparr>],
     a_held = (\<lambda>_. 0)(3 := 0), a_lru = [3], a_used = [], a_deleted = []\<rparr>"

definition example3 :: "nat acache" where
  "example3 = \<lparr>a_capacity = 1, a_cells = [4 \<mapsto> \<lparr>cl_key = [2], cl_hash = 7, cl_value = 20, cl_charge = 1\<rparr>],
     a_held = (\<lambda>_. 0)(3 := 0, 4 := 1), a_lru = [], a_used = [4], a_deleted = [([1], 10)]\<rparr>"

definition example4 :: "nat acache" where
  "example4 = \<lparr>a_capacity = 1, a_cells = [4 \<mapsto> \<lparr>cl_key = [2], cl_hash = 7, cl_value = 20, cl_charge = 1\<rparr>],
     a_held = (\<lambda>_. 0)(3 := 0, 4 := 0), a_lru = [4], a_used = [], a_deleted = [([1], 10)]\<rparr>"

lemma example_steps:
  "a_step (Insert_op 3 example_raw [1] 7 10 1) (a_new 1) = (3, example1)"
  "a_step (Release_op 3) example1 = (0, example2)"
  "a_step (Insert_op 4 example_raw [2] 7 20 1) example2 = (4, example3)"
  "a_step (Release_op 4) example3 = (0, example4)"
  by (simp_all add: machine_eval example1_def example2_def example3_def example4_def)

lemma example_allows:
  "a_allows (Insert_op 3 example_raw [1] 7 10 1) (a_new 1)" "a_allows (Release_op 3) example1"
  "a_allows (Insert_op 4 example_raw [2] 7 20 1) example2" "a_allows (Release_op 4) example3"
  by (simp_all add: a_new_def example1_def example2_def example3_def)

lemma example_run: "a_run example_ops (a_new 1) = ([3, 0], example2)" "a_allowed example_ops (a_new 1)"
  using example_steps(1,2) example_allows(1,2)
  by (simp_all add: example_ops_def del: a_step.simps a_allows.simps)

lemma example_run_all:
  "a_run (example_ops @ [Insert_op 4 example_raw [2] 7 20 1, Release_op 4]) (a_new 1) = ([3, 0, 4, 0], example4)"
  "a_allowed (example_ops @ [Insert_op 4 example_raw [2] 7 20 1, Release_op 4]) (a_new 1)"
  using example_steps example_allows
  by (simp_all add: example_ops_def del: a_step.simps a_allows.simps)

section \<open>The theorems\<close>

lemma start_rel:
  "a_allowed ops (a_new cap) \<Longrightarrow> \<exists>c0 c. new_LRUCache raw1 raw2 = Some c0 \<and>
    cache_run ops (SetCapacity cap c0) = Some (fst (a_run ops (a_new cap)), c) \<and>
    cache_rel (set (cached (snd (a_run ops (a_new cap))))) c (snd (a_run ops (a_new cap)))"
  using new_cache_rel [of raw1 raw2 cap] cache_run_rel [of "a_new cap" _ ops] by blast

text \<open>
  C38. A new cache, driven through any sequence of operations that a client may ask for, gives the handles, the total
  charge, the entries with keys and values and the calls of deleters that the machine gives: a lookup finds the entry
  last inserted under the key unless it was erased or evicted, entries in use are never freed, and eviction takes the
  unused entries in the order in which they were last used. No operation follows a dangling pointer or loops.
\<close>

theorem ldb_cache_refines:
  assumes "a_allowed ops (a_new cap)"
  shows "\<exists>c0 c. new_LRUCache raw1 raw2 = Some c0 \<and>
    cache_run ops (SetCapacity cap c0) = Some (fst (a_run ops (a_new cap)), c) \<and>
    TotalCharge c = a_usage (snd (a_run ops (a_new cap))) \<and> lc_deleted c = a_deleted (snd (a_run ops (a_new cap))) \<and>
    (\<forall>e. 2 < e \<longrightarrow> map_option (\<lambda>x. (h_key x, h_value x)) (lc_handles c e) =
      map_option (\<lambda>x. (cl_key x, cl_value x)) (a_cells (snd (a_run ops (a_new cap))) e))"
proof -
  let ?a = "snd (a_run ops (a_new cap))"
  obtain c0 c where c: "new_LRUCache raw1 raw2 = Some c0" "cache_run ops (SetCapacity cap c0) = Some (fst (a_run ops (a_new cap)), c)"
    "cache_rel (set (cached ?a)) c ?a" using start_rel [OF assms] by blast
  have "map_option (\<lambda>x. (h_key x, h_value x)) (lc_handles c e) = map_option (\<lambda>x. (cl_key x, cl_value x)) (a_cells ?a e)"
    if "2 < e" for e
  proof -
    have "info (lc_handles c) e = cell_info ?a e" using c(3) that by (simp add: cache_rel_def)
    from arg_cong [OF this, of "map_option (\<lambda>i. (fst i, fst (snd (snd i))))"] show ?thesis
      by (simp add: info_def cell_info_def option.map_comp comp_def)
  qed
  then show ?thesis using c by (auto simp: cache_rel_def TotalCharge_def)
qed

lemma ldb_cache_refines_witness:
  "\<exists>c0 c. new_LRUCache example_raw example_raw = Some c0 \<and>
    cache_run (example_ops @ [Insert_op 4 example_raw [2] 7 20 1, Release_op 4]) (SetCapacity 1 c0) = Some ([3, 0, 4, 0], c) \<and>
    TotalCharge c = 1 \<and> lc_deleted c = [([1], 10)]"
  using ldb_cache_refines [OF example_run_all(2), of example_raw example_raw]
  by (auto simp: example_run_all(1) example4_def a_usage_def charge_of_def)

text \<open>
  C39. After an insertion the charges of the cached entries do not exceed the capacity, or no cached entry is unused.
\<close>

theorem ldb_cache_capacity:
  assumes "a_allowed ops (a_new cap)" and "a_allows (Insert_op e raw key hash val charge) (snd (a_run ops (a_new cap)))"
  shows "\<exists>c0 c c' l. new_LRUCache raw1 raw2 = Some c0 \<and>
    cache_run ops (SetCapacity cap c0) = Some (fst (a_run ops (a_new cap)), c) \<and>
    lru_Insert e raw key hash val charge c = Some (e, c') \<and> lc_handles c' lru_head = Some l \<and>
    (TotalCharge c' \<le> lc_capacity c' \<or> h_next l = lru_head)"
proof -
  let ?a = "snd (a_run ops (a_new cap))"
  obtain c0 c where c: "new_LRUCache raw1 raw2 = Some c0" "cache_run ops (SetCapacity cap c0) = Some (fst (a_run ops (a_new cap)), c)"
    "cache_rel (set (cached ?a)) c ?a" using start_rel [OF assms(1)] by blast
  define b where "b = a_insert e key hash val charge ?a"
  obtain c' where c': "lru_Insert e raw key hash val charge c = Some (e, c')" "cache_rel (set (cached b)) c' b"
    "a_usage b \<le> a_capacity b \<or> a_lru b = []"
    using lru_Insert_rel [OF c(3), of e raw key hash val charge] assms(2) unfolding b_def by (auto simp: Let_def)
  obtain l where "lc_handles c' 1 = Some l" "h_next l = (case a_lru b of [] \<Rightarrow> 1 | x # _ \<Rightarrow> x)" using rel_head [OF c'(2)] by blast
  then show ?thesis using c(1,2) c' by (auto simp: cache_rel_def TotalCharge_def)
qed

lemma ldb_cache_capacity_witness:
  "\<exists>c0 c c' l. new_LRUCache example_raw example_raw = Some c0 \<and> cache_run example_ops (SetCapacity 1 c0) = Some ([3, 0], c) \<and>
    lru_Insert 4 example_raw [2] 7 20 1 c = Some (4, c') \<and> lc_handles c' lru_head = Some l \<and>
    (TotalCharge c' \<le> lc_capacity c' \<or> h_next l = lru_head)"
  using ldb_cache_capacity [OF example_run(2), of 4 example_raw "[2]" 7 20 1 example_raw example_raw] example_allows(3)
  by (simp add: example_run(1) del: a_allows.simps)

text \<open>
  C40. When all handles have been given back, the destructor returns, and by then every inserted value has been handed to
  its deleter with its key exactly once.
\<close>

theorem ldb_cache_deletes_once:
  assumes "a_allowed ops (a_new cap)" and "\<And>e. a_held (snd (a_run ops (a_new cap))) e = 0"
  shows "\<exists>c0 c c'. new_LRUCache raw1 raw2 = Some c0 \<and>
    cache_run ops (SetCapacity cap c0) = Some (fst (a_run ops (a_new cap)), c) \<and> delete_LRUCache c = Some c' \<and>
    mset (lc_deleted c') = mset (concat (map op_pairs ops))"
proof -
  let ?a = "snd (a_run ops (a_new cap))"
  obtain c0 c where c: "new_LRUCache raw1 raw2 = Some c0" "cache_run ops (SetCapacity cap c0) = Some (fst (a_run ops (a_new cap)), c)"
    "cache_rel (set (cached ?a)) c ?a" using start_rel [OF assms(1)] by blast
  obtain c' where c': "delete_LRUCache c = Some c'" "lc_deleted c' = a_deleted ?a @ map (cell_pair ?a) (a_lru ?a)"
    using delete_LRUCache_rel [OF c(3)] by blast
  have "a_wf ?a" using c(3) by (simp add: cache_rel_def)
  then have "given ?a = mset (lc_deleted c')" using all_given_back assms(2) c'(2) by metis
  moreover have "given ?a = mset (concat (map op_pairs ops)) + given (a_new cap)"
    using given_run [of "a_new cap" ops] assms(1) by (simp add: a_new_def)
  ultimately have "mset (lc_deleted c') = mset (concat (map op_pairs ops))" by simp
  then show ?thesis using c(1,2) c'(1) by blast
qed

lemma ldb_cache_deletes_once_witness:
  "\<exists>c0 c c'. new_LRUCache example_raw example_raw = Some c0 \<and>
    cache_run (example_ops @ [Insert_op 4 example_raw [2] 7 20 1, Release_op 4]) (SetCapacity 1 c0) = Some ([3, 0, 4, 0], c) \<and>
    delete_LRUCache c = Some c' \<and> mset (lc_deleted c') = {#([1], 10), ([2], 20)#}"
proof -
  let ?ops = "example_ops @ [Insert_op 4 example_raw [2] 7 20 1, Release_op 4]"
  have held: "a_held (snd (a_run ?ops (a_new 1))) e = 0" for e by (simp add: example_run_all(1) example4_def)
  have pairs: "mset (concat (map op_pairs ?ops)) = {#([1], 10), ([2], 20)#}" by (simp add: example_ops_def)
  show ?thesis using ldb_cache_deletes_once [OF example_run_all(2) held, of example_raw example_raw]
    by (simp only: pairs example_run_all(1) fst_conv)
qed

end
