(* ===== verification/Spec2Isabelle.thy ===== *)
theory Spec2Isabelle
  imports PbMessages PbWireTheorems FBase64Theorems LdbLogTheorems LdbBlockProofs LdbMemTableProofs LdbTableTheorems
    LdbDbIterTheorems LdbVersionEdit LdbCompactionProofs LdbCacheTheorems
begin

text \<open>
  Verification of the C and C++ code of this repository, an iOS application whose own part is Swift. The
  code in these languages comes with its pods: nanopb (Protocol Buffers), the messages generated for it,
  the Base64 codec of the Realtime Database and leveldb, the key-value store of Firebase. The paths below are
  relative to \<open>src/UberCloneApp/Pods/\<close>.

  \<^bold>\<open>Parts and how they interact.\<close> The transport library fills structures (\<open>cct.nanopb.h\<close>,
  \<open>client_metrics.nanopb.h\<close>, \<open>firebasecore.nanopb.h\<close>) and encodes them with \<open>pb_encode\<close>; \<open>pb_decode\<close> reads
  them back. Both walk arrays of field descriptors with the iterator of \<open>pb_common.c\<close>, over streams with
  callbacks. leveldb writes every batch of updates to a log, inserts it into a memtable, and turns full
  memtables into tables, sorted files of blocks with an index and filters; keys in all of them are user keys
  with a sequence number and a type.

  \<^bold>\<open>Prelude.\<close> Widths of integers, the option monad, little-endian bytes and lists; every other theory builds on it.

  \<^bold>\<open>nanopb\<close> (\<open>nanopb/pb.h\<close>, \<open>pb_common.c\<close>, \<open>pb_encode.c\<close>, \<open>pb_decode.c\<close>).
  \<^item> \<open>PbTypes\<close>, \<open>PbMemory\<close>, \<open>PbHeap\<close>, \<open>PbLayout\<close>: types, field descriptors, the byte memory, the heap
    with \<open>realloc\<close> and \<open>free\<close>, and the layout of structures that the macros of \<open>pb.h\<close> measure. A memory is a map
    from addresses to bytes; where the heap places a block is a parameter.
  \<^item> \<open>PbIter\<close>: the field iterator; its loop visits every field once and comes to an end.
  \<^item> \<open>PbStreams\<close>, \<open>PbOStream\<close>, \<open>PbIStream\<close>, \<open>PbWireOut\<close>, \<open>PbWireIn\<close>: streams (a C callback is a function of
    the model, the state it keeps a type parameter), the writers and readers of the wire format, \<open>pb_skip_field\<close>
    and substreams. A C function that returns false is an option that is \<open>None\<close>; the stream with its error
    message is returned in any case.
  \<^item> \<open>PbEncode\<close>, \<open>PbDefaults\<close>, \<open>PbDecode\<close>: the encoders and decoders of fields and messages, defaults,
    allocation and release. The functions call each other through submessages; this recursion is cut by a depth,
    and the result of running out of it is different from every result of the code.
  \<^item> \<open>PbCodec\<close>, \<open>PbWireParse\<close>, \<open>PbElementParse\<close>, \<open>PbWireTheorems\<close>: the readers as parsers of lists of
    bytes, and round trips through the locales \<open>wire_codec\<close> and \<open>field_codec\<close>.
  \<^item> \<open>PbEncodeSpec\<close>, \<open>PbEncodeDepth\<close>, \<open>PbEncodeKeeps\<close>, \<open>PbEncodeTheorems\<close>: the reference encoding, a
    function from memory to bytes; the code emits exactly these bytes, stays within its buffer, and its two passes
    agree. \<open>PbEncodeKeeps\<close> has what \<open>pb_encode\<close> keeps on a stream with callbacks of the user. Descriptors are finite
    trees, so for types without extension fields a depth above their height is always enough; this is proved.
  \<^item> \<open>PbView\<close>, \<open>PbDefaultsProofs\<close>, \<open>PbDecodeElem\<close>, \<open>PbRoundtrip\<close>, \<open>PbMessages\<close>: what a structure in memory
    says, and that \<open>pb_decode\<close> of what \<open>pb_encode\<close> wrote says the same.
  \<^item> \<open>CctMessages\<close>, \<open>ClientMetrics\<close>, \<open>FirebaseCore\<close>, \<open>Descriptors\<close>, \<open>DescriptorValues\<close>: the generated
    structures and descriptors, and that every descriptor fits its structure.

  \<^bold>\<open>Base64\<close> (\<open>FirebaseDatabase/.../fbase64.c\<close>): \<open>FBase64\<close> has the code, \<open>FBase64Proofs\<close> the Base64 text as a
  function of the bytes, \<open>FBase64Theorems\<close> the properties. A target buffer is a list that is updated in place; a
  write past its end shows in the model.

  \<^bold>\<open>leveldb\<close> (\<open>leveldb-library/\<close>).
  \<^item> \<open>LdbCoding\<close>, \<open>LdbCrcTables\<close>, \<open>LdbCrc\<close>: \<open>util/coding\<close> and \<open>util/crc32c\<close>; the tables and the strides over
    them compute the bitwise checksum.
  \<^item> \<open>LdbEnv\<close>: \<open>util/status.cc\<close> and the files of \<open>util/env_posix.cc\<close> over system calls, which are a
    parameter, a record of functions on the state of the system. The locale \<open>writable_file\<close> says what a client
    relies on; \<open>PosixWritableFile\<close> has it for a disk that may interrupt and cut short every call.
  \<^item> \<open>LdbLog\<close>, \<open>LdbLogFormat\<close>, \<open>LdbLogRead\<close>, \<open>LdbLogTheorems\<close>: \<open>db/log_writer.cc\<close> and
    \<open>db/log_reader.cc\<close>; records are read back, also from a log that was cut off, and reading ends on every file.
  \<^item> \<open>LdbKey\<close>: \<open>util/comparator.cc\<close> and \<open>db/dbformat.cc\<close>. The locale \<open>comparator\<close> has the laws of an order
    on keys with its separators; the bytewise order and the internal order have them.
  \<^item> \<open>LdbBlock\<close>, \<open>LdbBlockProofs\<close>: blocks with prefix-compressed keys (\<open>table/block_builder.cc\<close>,
    \<open>table/block.cc\<close>), the bytes of a block as a function of its entries, iteration and search.
  \<^item> \<open>LdbSkipList\<close>, \<open>LdbSkipListProofs\<close>: \<open>db/skiplist.h\<close> for one thread, and \<open>util/random.h\<close>; an invariant
    ties the links of all levels to the sorted list of keys.
  \<^item> \<open>LdbMemTable\<close>, \<open>LdbWriteBatch\<close>, \<open>LdbMemTableProofs\<close>: \<open>db/memtable.cc\<close> and \<open>db/write_batch.cc\<close>; a
    memtable refines a map from keys to values at every snapshot.
  \<^item> \<open>LdbBloom\<close>, \<open>LdbFilterBlock\<close>: \<open>util/hash.cc\<close>, \<open>util/bloom.cc\<close>, \<open>table/filter_block.cc\<close>; filters have no
    false negatives, a law of the locale \<open>filter_laws\<close> that lifts from a policy to the filter block.
  \<^item> \<open>LdbFormat\<close>, \<open>LdbTableBuilder\<close>, \<open>LdbTable\<close>: \<open>table/format.cc\<close>, \<open>table/table_builder.cc\<close>,
    \<open>table/table.cc\<close> with random access files; the block cache is a parameter. \<open>LdbTableBuildProofs\<close> ties the
    state of a builder to its data blocks and separators (locales \<open>table_order\<close>, \<open>table_writer\<close>),
    \<open>LdbTableProofs\<close> has opening and lookup (locale \<open>table_file\<close>), \<open>LdbTableTheorems\<close> instantiates them with
    internal keys, Bloom filters and POSIX files, without a block cache.
  \<^item> \<open>LdbIterator\<close>: the interface of iterators and \<open>table/iterator_wrapper.h\<close>. The locale \<open>cursor\<close> is the
    contract of an iterator: it is a position in a list of entries.
  \<^item> \<open>LdbMerger\<close>, \<open>LdbMergerProofs\<close>: \<open>table/merger.cc\<close>; over cursors of lists that share no key it is a cursor
    of their merge (locale \<open>merging_inputs\<close>).
  \<^item> \<open>LdbDbIter\<close>, \<open>LdbDbIterProofs\<close>, \<open>LdbDbIterCursor\<close>, \<open>LdbDbIterTheorems\<close>: \<open>db/db_iter.cc\<close> over any cursor
    of internal entries is a cursor of what a snapshot shows (locale \<open>db_iterator\<close>); over the merge of memtables, of the
    map that the updates up to the snapshot make.
  \<^item> \<open>LdbNames\<close>, \<open>LdbVersionEdit\<close>: \<open>util/logging.cc\<close>, \<open>db/filename.cc\<close> and \<open>db/version_edit.cc\<close>, the names of
    the files of a database and the records of its descriptor log.
  \<^item> \<open>LdbFiles\<close>, \<open>LdbCompaction\<close>: the part of \<open>db/version_set.cc\<close> that searches the files of the levels and chooses
    what to compact. \<open>LdbFilesProofs\<close> shows the binary searches equal to searching all files, and
    \<open>LdbCompactionProofs\<close> that the inputs of a compaction are complete. The files of a version are lists by level.
  \<^item> \<open>LdbCache\<close>: \<open>util/cache.cc\<close>, one shard: a hash table and two circular lists over nodes of a heap, with
    reference counts. \<open>LdbCacheProofs\<close> has the lists and the table, \<open>LdbCacheSpec\<close> the machine that the cache
    promises to be, \<open>LdbCacheErase\<close> and \<open>LdbCacheTheorems\<close> that it is.

  \<^bold>\<open>Bounds and fuel.\<close> Integers have the width of the C type; a count or size that the code cannot let grow
  beyond memory is a natural number. Loops end by their measure; where a loop follows links (extensions,
  levels of the skip list) the bound is the number of cells, and the invariants imply that it suffices.
  A loop that a client's callback may keep going is a partial function.

  \<^bold>\<open>Not modelled.\<close> The Swift and Objective-C code. Of nanopb: code under options that this build does not
  set (\<open>PB_WITHOUT_64BIT\<close>, \<open>PB_BUFFER_ONLY\<close>, \<open>PB_NO_ERRMSG\<close>), macros for message features that no
  descriptor here uses; buffers of streams lie outside of the memory of messages. Of leveldb: versions with
  their reference counts and recovery, the database object, repair, the table cache, iterators over whole tables, file locks,
  threads and the memory order that lets readers of a skip list run beside a writer.
\<close>

end
